(* ===== verification/Prelude.thy ===== *)
theory Prelude
  imports Main "HOL-Library.Word" "HOL-Library.Monad_Syntax"
begin

text \<open>
  Shared vocabulary of the development: the machine integers of the C code, memory blocks with
  bounds-checked access, the allocator's behaviour that the code relies on, the byte orders of
  the wire formats, and C strings.

  A C integer is an \<open>int\<close> that is kept in range by the wrap of its type; a byte is an
  \<open>8 word\<close>. A block of memory is the list of its bytes, so an access outside of the block
  (undefined behaviour in C) is the value \<open>None\<close> and never an arbitrary byte.
\<close>

named_theorems cint_simps \<open>wraps of in-range integers and the ranges of the wraps\<close>
named_theorems mem_simps \<open>bounds-checked memory access inside of its bounds\<close>
named_theorems stream_simps \<open>stream operations seen through their abstraction\<close>

type_synonym byte = "8 word"

section \<open>Machine integers\<close>

definition u8 :: "int \<Rightarrow> int" where "u8 x = x mod 256"
definition u16 :: "int \<Rightarrow> int" where "u16 x = x mod 65536"
definition u32 :: "int \<Rightarrow> int" where "u32 x = x mod 4294967296"
definition u64 :: "int \<Rightarrow> int" where "u64 x = x mod 18446744073709551616"
definition s32 :: "int \<Rightarrow> int" where "s32 x = (x + 2147483648) mod 4294967296 - 2147483648"
definition s64 :: "int \<Rightarrow> int" where
  "s64 x = (x + 9223372036854775808) mod 18446744073709551616 - 9223372036854775808"

lemma u8_id [cint_simps]: "0 \<le> x \<Longrightarrow> x < 256 \<Longrightarrow> u8 x = x"
  by (simp add: u8_def)

lemma u16_id [cint_simps]: "0 \<le> x \<Longrightarrow> x < 65536 \<Longrightarrow> u16 x = x"
  by (simp add: u16_def)

lemma u32_id [cint_simps]: "0 \<le> x \<Longrightarrow> x < 4294967296 \<Longrightarrow> u32 x = x"
  by (simp add: u32_def)

lemma u64_id [cint_simps]: "0 \<le> x \<Longrightarrow> x < 18446744073709551616 \<Longrightarrow> u64 x = x"
  by (simp add: u64_def)

lemma s32_id [cint_simps]: "- 2147483648 \<le> x \<Longrightarrow> x < 2147483648 \<Longrightarrow> s32 x = x"
  by (simp add: s32_def)

lemma s64_id [cint_simps]:
  "- 9223372036854775808 \<le> x \<Longrightarrow> x < 9223372036854775808 \<Longrightarrow> s64 x = x"
  by (simp add: s64_def)

lemma u64_neg: "- 9223372036854775808 \<le> x \<Longrightarrow> x < 0 \<Longrightarrow> u64 x = x + 18446744073709551616"
proof -
  assume "- 9223372036854775808 \<le> x" "x < 0"
  then have "(x + 18446744073709551616) mod 18446744073709551616 = x + 18446744073709551616"
    by (intro mod_pos_pos_trivial) simp_all
  then show ?thesis by (simp only: u64_def mod_add_self2)
qed

lemma u16_range: "0 \<le> u16 x \<and> u16 x < 65536"
  by (simp add: u16_def)

lemma u32_range: "0 \<le> u32 x \<and> u32 x < 4294967296"
  by (simp add: u32_def)

lemma u64_range: "0 \<le> u64 x \<and> u64 x < 18446744073709551616"
  by (simp add: u64_def)

lemma s32_range: "- 2147483648 \<le> s32 x \<and> s32 x < 2147483648"
proof -
  have "0 \<le> (x + 2147483648) mod 4294967296" and "(x + 2147483648) mod 4294967296 < 4294967296"
    by simp_all
  then show ?thesis unfolding s32_def by linarith
qed

lemma u32_u32 [simp]: "u32 (u32 x) = u32 x"
  by (simp add: u32_def)

lemma u32_add_right [simp]: "u32 (a + u32 b) = u32 (a + b)"
  by (simp add: u32_def mod_simps)

lemma u32_add_left [simp]: "u32 (u32 a + b) = u32 (a + b)"
  by (simp add: u32_def mod_simps)

section \<open>Blocks of memory\<close>

definition mem_read :: "byte list \<Rightarrow> int \<Rightarrow> int \<Rightarrow> byte list option" where
  "mem_read m off n =
     (if 0 \<le> off \<and> 0 \<le> n \<and> off + n \<le> int (length m)
      then Some (take (nat n) (drop (nat off) m)) else None)"

definition mem_write :: "byte list \<Rightarrow> int \<Rightarrow> byte list \<Rightarrow> byte list option" where
  "mem_write m off xs =
     (if 0 \<le> off \<and> off + int (length xs) \<le> int (length m)
      then Some (take (nat off) m @ xs @ drop (nat off + length xs) m) else None)"

lemma mem_read_Some [mem_simps]:
  "0 \<le> off \<Longrightarrow> 0 \<le> n \<Longrightarrow> off + n \<le> int (length m) \<Longrightarrow>
   mem_read m off n = Some (take (nat n) (drop (nat off) m))"
  by (simp add: mem_read_def)

lemma mem_write_Some [mem_simps]:
  "0 \<le> off \<Longrightarrow> off + int (length xs) \<le> int (length m) \<Longrightarrow>
   mem_write m off xs = Some (take (nat off) m @ xs @ drop (nat off + length xs) m)"
  by (simp add: mem_write_def)

lemma length_mem_read: "mem_read m off n = Some ys \<Longrightarrow> int (length ys) = n"
  by (auto simp: mem_read_def split: if_splits)

lemma length_mem_write: "mem_write m off xs = Some m' \<Longrightarrow> length m' = length m"
  by (auto simp: mem_write_def split: if_splits)

text \<open>
  The allocator: \<open>_talloc_realloc\<close> of \<open>src/src/lib/talloc.c\<close> refuses a block of
  \<open>MAX_TALLOC_SIZE\<close> bytes or more and frees the block when asked for none; both answer NULL,
  the value \<open>None\<close>. It keeps the old bytes and leaves the new ones as they were in the heap:
  \<open>junk\<close> says what was there. \<open>talloc_size\<close> clears the block it returns.
\<close>

definition MAX_TALLOC_SIZE :: int where "MAX_TALLOC_SIZE = 268435456"

definition talloc_size :: "int \<Rightarrow> byte list option" where
  "talloc_size n = (if 0 \<le> n \<and> n < MAX_TALLOC_SIZE then Some (replicate (nat n) 0) else None)"

definition talloc_realloc_size ::
    "(nat \<Rightarrow> byte) \<Rightarrow> byte list \<Rightarrow> int \<Rightarrow> byte list option" where
  "talloc_realloc_size junk m n =
     (if n = 0 \<or> MAX_TALLOC_SIZE \<le> n then None
      else Some (take (nat n) m @ map junk [length m..<nat n]))"

lemma length_talloc_realloc [mem_simps]:
  "talloc_realloc_size junk m n = Some m' \<Longrightarrow> 0 \<le> n \<Longrightarrow> length m' = nat n"
  by (auto simp: talloc_realloc_size_def split: if_splits)

lemma take_talloc_realloc:
  assumes "talloc_realloc_size junk m n = Some m'" and "k \<le> length m" and "int k \<le> n"
  shows "take k m' = take k m"
  using assms by (auto simp: talloc_realloc_size_def min_def split: if_splits)

section \<open>Byte orders\<close>

text \<open>Unsigned numbers of \<open>n\<close> bytes, most significant byte first and last.\<close>

fun le_bytes :: "nat \<Rightarrow> int \<Rightarrow> byte list" where
  "le_bytes 0 v = []"
| "le_bytes (Suc n) v = word_of_int (v mod 256) # le_bytes n (v div 256)"

definition be_bytes :: "nat \<Rightarrow> int \<Rightarrow> byte list" where
  "be_bytes n v = rev (le_bytes n v)"

fun le_val :: "byte list \<Rightarrow> int" where
  "le_val [] = 0"
| "le_val (b # bs) = uint b + 256 * le_val bs"

definition be_val :: "byte list \<Rightarrow> int" where
  "be_val bs = le_val (rev bs)"

lemma length_le_bytes [simp]: "length (le_bytes n v) = n"
  by (induction n arbitrary: v) auto

lemma length_be_bytes [simp]: "length (be_bytes n v) = n"
  by (simp add: be_bytes_def)

lemma uint_byte_of_int: "uint (word_of_int x :: byte) = x mod 256"
  by (simp add: uint_word_of_int)

lemma le_val_le_bytes: "0 \<le> v \<Longrightarrow> v < 256 ^ n \<Longrightarrow> le_val (le_bytes n v) = v"
proof (induction n arbitrary: v)
  case 0
  then show ?case by simp
next
  case (Suc n)
  have "v div 256 < 256 ^ n"
    using Suc.prems by (simp add: div_less_iff_less_mult mult.commute)
  moreover have "0 \<le> v div 256" using Suc.prems by simp
  ultimately have "le_val (le_bytes n (v div 256)) = v div 256" by (rule Suc.IH[rotated])
  then show ?case by (simp add: uint_byte_of_int)
qed

lemma be_val_be_bytes: "0 \<le> v \<Longrightarrow> v < 256 ^ n \<Longrightarrow> be_val (be_bytes n v) = v"
  by (simp add: be_val_def be_bytes_def le_val_le_bytes)

lemma le_val_nonneg: "0 \<le> le_val bs"
  by (induction bs) auto

lemma le_val_bound: "le_val bs < 256 ^ length bs"
proof (induction bs)
  case Nil
  then show ?case by simp
next
  case (Cons b bs)
  have "uint b < 256" using uint_bounded[of b] by simp
  moreover have "le_val bs + 1 \<le> 256 ^ length bs" using Cons.IH by simp
  ultimately have "uint b + 256 * le_val bs < 256 * 256 ^ length bs" by linarith
  then show ?case by simp
qed

lemma le_bytes_le_val: "le_bytes (length bs) (le_val bs) = bs"
proof (induction bs)
  case (Cons b bs)
  have "uint b < 256" using uint_bounded[of b] by simp
  then have "(uint b + 256 * le_val bs) mod 256 = uint b" "(uint b + 256 * le_val bs) div 256 = le_val bs"
    by simp_all
  then show ?case using Cons by simp
qed simp

lemma be_val_range: "0 \<le> be_val bs \<and> be_val bs < 256 ^ length bs"
  using le_val_nonneg[of "rev bs"] le_val_bound[of "rev bs"] by (simp add: be_val_def)

section \<open>C strings\<close>

text \<open>The length of the NUL terminated string at the start of a block; \<open>None\<close> when the
  search for the terminator runs out of the block.\<close>

definition c_strlen :: "byte list \<Rightarrow> nat option" where
  "c_strlen m = (if 0 \<in> set m then Some (length (takeWhile (\<lambda>b. b \<noteq> 0) m)) else None)"

lemma c_strlen_append_NUL: "0 \<notin> set xs \<Longrightarrow> c_strlen (xs @ 0 # ys) = Some (length xs)"
  by (simp add: c_strlen_def takeWhile_append)

end
