(* ===== verification/Byte_Stream.thy ===== *)
theory Byte_Stream
  imports Prelude
begin

text \<open>
  The contract of a stream of bytes, which several components rely on: the packers of
  \<open>Struct\<close> write to one, the unpackers and the dissectors read from one, the cached writer is one that ends in a
  file, and the reader of capture files takes any that can be positioned. The abstract state of a stream is its
  contents and a position in them; \<open>f_write\<close>, \<open>f_read\<close> and \<open>f_seek\<close> are what a
  reader of \<open>stringio.h\<close> expects of the methods of the class.
\<close>

type_synonym bfile = "byte list \<times> nat"

definition f_write :: "bfile \<Rightarrow> byte list \<Rightarrow> bfile" where
  "f_write f xs = (take (snd f) (fst f) @ xs @ drop (snd f + length xs) (fst f), snd f + length xs)"

definition f_read :: "bfile \<Rightarrow> nat \<Rightarrow> byte list \<times> bfile" where
  "f_read f n = (take n (drop (snd f) (fst f)), (fst f, snd f + length (take n (drop (snd f) (fst f)))))"

definition f_rest :: "bfile \<Rightarrow> byte list" where
  "f_rest f = drop (snd f) (fst f)"

lemma f_write_end: "snd f = length (fst f) \<Longrightarrow> f_write f xs = (fst f @ xs, length (fst f) + length xs)"
  by (simp add: f_write_def)

lemma f_read_rest: "f_rest f = xs @ ys \<Longrightarrow> f_read f (length xs) = (xs, (fst f, snd f + length xs))"
  by (simp add: f_read_def f_rest_def)

lemma f_rest_after_read: "f_rest (snd (f_read f n)) = drop n (f_rest f)"
  by (simp add: f_read_def f_rest_def add.commute min_def)

section \<open>A sink: bytes are only appended\<close>

locale byte_sink =
  fixes sink_inv :: "'s \<Rightarrow> bool"
    and sink_bytes :: "'s \<Rightarrow> byte list"
    and sink_room :: "'s \<Rightarrow> nat"
    and put :: "'s \<Rightarrow> byte list \<Rightarrow> ('s \<times> int) option"
  assumes put_law: "sink_inv s \<Longrightarrow> length xs \<le> sink_room s \<Longrightarrow>
    \<exists>s'. put s xs = Some (s', int (length xs)) \<and> sink_inv s' \<and>
         sink_bytes s' = sink_bytes s @ xs \<and> sink_room s \<le> sink_room s' + length xs"
begin

text \<open>A sequence of writes, each of them the next chunk of the data.\<close>

fun put_all :: "'s \<Rightarrow> byte list list \<Rightarrow> 's option" where
  "put_all s [] = Some s"
| "put_all s (xs # xss) = (case put s xs of None \<Rightarrow> None | Some (s', n) \<Rightarrow> put_all s' xss)"

lemma put_all_concat:
  "sink_inv s \<Longrightarrow> length (concat xss) \<le> sink_room s \<Longrightarrow>
   \<exists>s'. put_all s xss = Some s' \<and> sink_inv s' \<and> sink_bytes s' = sink_bytes s @ concat xss \<and>
        sink_room s \<le> sink_room s' + length (concat xss)"
proof (induction xss arbitrary: s)
  case Nil
  then show ?case by simp
next
  case (Cons xs xss)
  then obtain s1 where s1: "put s xs = Some (s1, int (length xs))" "sink_inv s1"
    "sink_bytes s1 = sink_bytes s @ xs" "sink_room s \<le> sink_room s1 + length xs"
    using put_law[of s xs] by auto
  have "length (concat xss) \<le> sink_room s1"
    using Cons.prems(2) s1(4) by simp
  from Cons.IH[OF s1(2) this] s1 show ?case by fastforce
qed

end

section \<open>A source: bytes are taken from the front\<close>

locale byte_source =
  fixes src_inv :: "'s \<Rightarrow> bool"
    and src_rest :: "'s \<Rightarrow> byte list"
    and get :: "'s \<Rightarrow> int \<Rightarrow> ('s \<times> byte list) option"
  assumes get_law: "src_inv s \<Longrightarrow> 0 \<le> n \<Longrightarrow> n < 2147483648 \<Longrightarrow>
    \<exists>s'. get s n = Some (s', take (nat n) (src_rest s)) \<and> src_inv s' \<and>
         src_rest s' = drop (nat n) (src_rest s)"
begin

lemma get_prefix:
  assumes "src_inv s" and "src_rest s = xs @ ys" and "length xs < 2147483648"
  shows "\<exists>s'. get s (int (length xs)) = Some (s', xs) \<and> src_inv s' \<and> src_rest s' = ys"
  using get_law[OF assms(1), of "int (length xs)"] assms by simp

text \<open>A sequence of reads takes the rest of the stream apart in order.\<close>

fun get_all :: "'s \<Rightarrow> int list \<Rightarrow> ('s \<times> byte list list) option" where
  "get_all s [] = Some (s, [])"
| "get_all s (n # ns) = (case get s n of None \<Rightarrow> None
     | Some (s', xs) \<Rightarrow> map_option (\<lambda>(s'', xss). (s'', xs # xss)) (get_all s' ns))"

lemma get_all_concat:
  "src_inv s \<Longrightarrow> \<forall>n\<in>set ns. 0 \<le> n \<and> n < 2147483648 \<Longrightarrow>
   \<exists>s' xss. get_all s ns = Some (s', xss) \<and> src_inv s' \<and> src_rest s = concat xss @ src_rest s'"
proof (induction ns arbitrary: s)
  case Nil
  then show ?case by simp
next
  case (Cons n ns)
  then obtain s1 where s1: "get s n = Some (s1, take (nat n) (src_rest s))" "src_inv s1"
    "src_rest s1 = drop (nat n) (src_rest s)"
    using get_law[of s n] by auto
  from Cons.IH[OF s1(2)] Cons.prems(2) obtain s2 xss where
    s2: "get_all s1 ns = Some (s2, xss)" "src_inv s2" "src_rest s1 = concat xss @ src_rest s2"
    by auto
  have "src_rest s = take (nat n) (src_rest s) @ src_rest s1"
    using s1(3) by simp
  also have "\<dots> = concat (take (nat n) (src_rest s) # xss) @ src_rest s2"
    using s2(3) by simp
  finally show ?case using s1(1) s2(1,2) by simp
qed

end

section \<open>A source with a position that can be set\<close>

locale seekable_source = byte_source src_inv src_rest get
  for src_inv :: "'s \<Rightarrow> bool"
    and src_rest :: "'s \<Rightarrow> byte list"
    and get :: "'s \<Rightarrow> int \<Rightarrow> ('s \<times> byte list) option" +
  fixes src_all :: "'s \<Rightarrow> byte list"
    and seek :: "'s \<Rightarrow> int \<Rightarrow> 's option"
  assumes seek_law: "src_inv s \<Longrightarrow> 0 \<le> n \<Longrightarrow> n \<le> int (length (src_all s)) \<Longrightarrow>
      \<exists>s'. seek s n = Some s' \<and> src_inv s' \<and> src_rest s' = drop (nat n) (src_all s) \<and> src_all s' = src_all s"
    and get_keeps_all: "src_inv s \<Longrightarrow> 0 \<le> n \<Longrightarrow> n < 2147483648 \<Longrightarrow> get s n = Some (s', xs) \<Longrightarrow>
      src_all s' = src_all s"
begin

text \<open>A part of the whole is read by going to its place.\<close>

lemma seek_get:
  assumes "src_inv s" and "src_all s = us @ xs @ ys" and "length xs < 2147483648"
  shows "\<exists>s1 s2. seek s (int (length us)) = Some s1 \<and> get s1 (int (length xs)) = Some (s2, xs) \<and>
    src_inv s2 \<and> src_rest s2 = ys \<and> src_all s2 = src_all s"
proof -
  obtain s1 where s1: "seek s (int (length us)) = Some s1" "src_inv s1" "src_rest s1 = xs @ ys" "src_all s1 = src_all s"
    using seek_law[OF assms(1), of "int (length us)"] assms(2) by auto
  obtain s2 where "get s1 (int (length xs)) = Some (s2, xs)" "src_inv s2" "src_rest s2 = ys"
    using get_prefix[OF s1(2,3) assms(3)] by blast
  moreover from this(1) have "src_all s2 = src_all s"
    using get_keeps_all[OF s1(2), of "int (length xs)"] s1(4) assms(3) by simp
  ultimately show ?thesis using s1(1) by blast
qed

end

end
