(* ===== verification/String_IO.thy ===== *)
theory String_IO
  imports Byte_Stream
begin

text \<open>
  The class \<open>StringIO\<close> of \<open>src/src/lib/stringio.c\<close>: a buffer in memory with the
  methods of a file. The record holds the attributes of the class; \<open>sio_data\<close> is the
  whole allocated block, which may be longer than \<open>sio_size\<close>, and \<open>sio_junk\<close> is
  what the heap holds where a block grows. A method that touches memory outside of the block, or
  goes on with the NULL that a refused allocation answers, has the value \<open>None\<close>.

  \<open>sio_inv\<close> is the well-formedness that every method keeps, \<open>sio_abs\<close> the file that
  a buffer stands for; the methods refine the operations of \<open>Byte_Stream\<close>.
\<close>

section \<open>State and methods\<close>

record stringio =
  sio_size :: int
  sio_readptr :: int
  sio_data :: "byte list"
  sio_junk :: "nat \<Rightarrow> byte"

definition SEEK_SET :: int where "SEEK_SET = 0"
definition SEEK_CUR :: int where "SEEK_CUR = 1"
definition SEEK_END :: int where "SEEK_END = 2"
definition BUFF_SIZE :: int where "BUFF_SIZE = 10240"

definition StringIO_constructor :: "(nat \<Rightarrow> byte) \<Rightarrow> stringio" where
  "StringIO_constructor junk =
     \<lparr>sio_size = 0, sio_readptr = 0, sio_data = [0], sio_junk = junk\<rparr>"

definition StringIO_write :: "stringio \<Rightarrow> byte list \<Rightarrow> (stringio \<times> int) option" where
  "StringIO_write self data = do {
     let len = int (length data);
     self \<leftarrow>
       (if u64 (sio_readptr self + len) > u64 (sio_size self) then do {
          let size = s32 (sio_readptr self + len);
          d \<leftarrow> talloc_realloc_size (sio_junk self) (sio_data self) (u64 (s32 (size + 1)));
          Some (self\<lparr>sio_size := size, sio_data := d\<rparr>)
        } else Some self);
     d \<leftarrow> mem_write (sio_data self) (sio_readptr self) data;
     Some (self\<lparr>sio_data := d, sio_readptr := u64 (sio_readptr self + len)\<rparr>, len)
   }"

text \<open>\<open>sprintf\<close> takes the text that \<open>talloc_vasprintf\<close> makes of the format and
  the arguments, a block that holds a C string.\<close>

definition StringIO_sprintf :: "stringio \<Rightarrow> byte list \<Rightarrow> (stringio \<times> int) option" where
  "StringIO_sprintf self text = do {
     n \<leftarrow> c_strlen text;
     let len = int n;
     self \<leftarrow>
       (if u64 (sio_readptr self + len) > u64 (sio_size self) then do {
          let size = s32 (sio_readptr self + len);
          d \<leftarrow> talloc_realloc_size (sio_junk self) (sio_data self) (u64 (s32 (size + 1)));
          Some (self\<lparr>sio_size := size, sio_data := d\<rparr>)
        } else Some self);
     xs \<leftarrow> mem_read text 0 len;
     d \<leftarrow> mem_write (sio_data self) (sio_readptr self) xs;
     Some (self\<lparr>sio_data := d, sio_readptr := u64 (sio_readptr self + len)\<rparr>, len)
   }"

text \<open>The bytes that \<open>read\<close> copies out; their number is the value it returns.\<close>

definition StringIO_read :: "stringio \<Rightarrow> int \<Rightarrow> (stringio \<times> byte list) option" where
  "StringIO_read self len = do {
     let len = (if u64 (sio_readptr self + len) > u64 (sio_size self)
                then s32 (u64 (sio_size self - sio_readptr self)) else len);
     xs \<leftarrow> mem_read (sio_data self) (sio_readptr self) len;
     Some (self\<lparr>sio_readptr := u64 (sio_readptr self + len)\<rparr>, xs)
   }"

function StringIO_read_stream ::
    "stringio \<Rightarrow> stringio \<Rightarrow> int \<Rightarrow> (stringio \<times> stringio \<times> int) option" where
  "StringIO_read_stream self stream len =
     (if len > 0 then
        (case StringIO_read stream (min len BUFF_SIZE) of
           None \<Rightarrow> None
         | Some (stream', buff) \<Rightarrow>
             if buff = [] then Some (self, stream', len)
             else (case StringIO_write self buff of
                     None \<Rightarrow> None
                   | Some (self', _) \<Rightarrow>
                       StringIO_read_stream self' stream' (len - int (length buff))))
      else Some (self, stream, len))"
  by pat_completeness auto
termination
  by (relation "measure (\<lambda>(self, stream, len). nat len)") auto

declare StringIO_read_stream.simps [simp del]

definition StringIO_write_stream ::
    "stringio \<Rightarrow> stringio \<Rightarrow> int \<Rightarrow> (stringio \<times> stringio \<times> int) option" where
  "StringIO_write_stream self stream len =
     map_option (\<lambda>(stream', self', n). (self', stream', n)) (StringIO_read_stream stream self len)"

definition StringIO_seek :: "stringio \<Rightarrow> int \<Rightarrow> int \<Rightarrow> (stringio \<times> int) option" where
  "StringIO_seek self offset whence = do {
     let rp = (if whence = SEEK_SET then u64 offset
               else if whence = SEEK_CUR then u64 (sio_readptr self + offset)
               else if whence = SEEK_END then u64 (sio_size self + offset)
               else sio_readptr self);
     let self = self\<lparr>sio_readptr := rp\<rparr>;
     if rp > u64 (sio_size self) then do {
       d \<leftarrow> talloc_realloc_size (sio_junk self) (sio_data self) rp;
       Some (self\<lparr>sio_data := d, sio_size := s32 rp\<rparr>, rp)
     } else Some (self, rp)
   }"

definition StringIO_eof :: "stringio \<Rightarrow> bool" where
  "StringIO_eof self \<longleftrightarrow> sio_readptr self = u64 (sio_size self)"

text \<open>The position of the buffer in the block, and its length.\<close>

definition StringIO_get_buffer :: "stringio \<Rightarrow> int \<times> int" where
  "StringIO_get_buffer self =
     (sio_readptr self, s32 (u64 (sio_size self - sio_readptr self)))"

definition StringIO_truncate :: "stringio \<Rightarrow> int \<Rightarrow> stringio" where
  "StringIO_truncate self len =
     (let self = (if sio_readptr self > u64 len then self\<lparr>sio_readptr := u64 len\<rparr> else self);
          self = self\<lparr>sio_size := len\<rparr>
      in if sio_readptr self > u64 (sio_size self)
         then self\<lparr>sio_readptr := u64 (sio_size self)\<rparr> else self)"

definition StringIO_skip :: "stringio \<Rightarrow> int \<Rightarrow> stringio option" where
  "StringIO_skip self len = do {
     let len = (if len > sio_size self then sio_size self else len);
     xs \<leftarrow> mem_read (sio_data self) len (sio_size self - len);
     d \<leftarrow> mem_write (sio_data self) 0 xs;
     Some (self\<lparr>sio_data := d, sio_size := s32 (sio_size self - len), sio_readptr := 0\<rparr>)
   }"

text \<open>The searches answer the index of the match in the block; the needle is given
  without its terminator.\<close>

definition StringIO_find :: "stringio \<Rightarrow> byte list \<Rightarrow> nat option" where
  "StringIO_find self needle =
     (let needle_size = int (length needle)
      in if sio_size self < needle_size then None
         else find (\<lambda>i. take (length needle) (drop i (sio_data self)) = needle)
                [0..<nat (sio_size self - needle_size) + 1])"

definition to_lower :: "byte \<Rightarrow> byte" where
  "to_lower b = (if 65 \<le> b \<and> b \<le> 90 then b + 32 else b)"

fun strncasecmp_eq :: "byte list \<Rightarrow> byte list \<Rightarrow> nat \<Rightarrow> bool" where
  "strncasecmp_eq xs ys 0 = True"
| "strncasecmp_eq (x # xs) (y # ys) (Suc n) =
     (to_lower x = to_lower y \<and> (x = 0 \<or> strncasecmp_eq xs ys n))"
| "strncasecmp_eq _ _ (Suc n) = False"

definition StringIO_ifind :: "stringio \<Rightarrow> byte list \<Rightarrow> nat option" where
  "StringIO_ifind self needle =
     (if u64 (sio_size self) < int (length needle) then None
      else find (\<lambda>i. strncasecmp_eq (drop i (sio_data self)) needle (length needle))
             [0..<nat (u64 (sio_size self) - int (length needle)) + 1])"

section \<open>Well-formedness and abstraction\<close>

definition sio_inv :: "stringio \<Rightarrow> bool" where
  "sio_inv s \<longleftrightarrow> 0 \<le> sio_readptr s \<and> sio_readptr s \<le> sio_size s \<and>
     sio_size s \<le> int (length (sio_data s)) \<and> int (length (sio_data s)) < MAX_TALLOC_SIZE"

definition sio_abs :: "stringio \<Rightarrow> bfile" where
  "sio_abs s = (take (nat (sio_size s)) (sio_data s), nat (sio_readptr s))"

definition sio_rest :: "stringio \<Rightarrow> byte list" where
  "sio_rest s = f_rest (sio_abs s)"

lemma sio_invD:
  assumes "sio_inv s"
  shows "0 \<le> sio_readptr s" "sio_readptr s \<le> sio_size s" "0 \<le> sio_size s"
    "sio_size s \<le> int (length (sio_data s))" "int (length (sio_data s)) < 268435456"
    "sio_size s < 268435456"
  using assms by (auto simp: sio_inv_def MAX_TALLOC_SIZE_def)

lemma length_sio_contents: "sio_inv s \<Longrightarrow> length (fst (sio_abs s)) = nat (sio_size s)"
  by (auto simp: sio_inv_def sio_abs_def)

lemma sio_rest_eq:
  "sio_rest s = drop (nat (sio_readptr s)) (take (nat (sio_size s)) (sio_data s))"
  by (simp add: sio_rest_def f_rest_def sio_abs_def)

lemma length_sio_rest: "sio_inv s \<Longrightarrow> int (length (sio_rest s)) = sio_size s - sio_readptr s"
  by (auto simp: sio_inv_def sio_rest_eq)

lemma constructor_inv [simp]: "sio_inv (StringIO_constructor junk)"
  by (simp add: sio_inv_def StringIO_constructor_def MAX_TALLOC_SIZE_def)

lemma constructor_abs [simp]: "sio_abs (StringIO_constructor junk) = ([], 0)"
  by (simp add: sio_abs_def StringIO_constructor_def)

lemma constructor_fields [simp]:
  "sio_size (StringIO_constructor junk) = 0" "sio_readptr (StringIO_constructor junk) = 0"
  by (simp_all add: StringIO_constructor_def)

section \<open>The methods refine the file\<close>

lemma sio_natE:
  assumes "sio_inv s"
  obtains p n where "sio_readptr s = int p" "sio_size s = int n" "p \<le> n" "n \<le> length (sio_data s)"
    "length (sio_data s) < 268435456"
proof -
  have "sio_readptr s = int (nat (sio_readptr s))" "sio_size s = int (nat (sio_size s))"
    using assms by (auto simp: sio_inv_def)
  then show ?thesis using assms that[of "nat (sio_readptr s)" "nat (sio_size s)"]
    by (auto simp: sio_inv_def MAX_TALLOC_SIZE_def)
qed

lemma sio_intro:
  assumes "sio_readptr s = int p" "sio_size s = int n" "p \<le> n" "n \<le> length (sio_data s)"
    "length (sio_data s) < 268435456"
  shows "sio_inv s" and "sio_abs s = (take n (sio_data s), p)"
  using assms by (auto simp: sio_inv_def sio_abs_def MAX_TALLOC_SIZE_def)

lemma StringIO_write_spec:
  assumes inv: "sio_inv s" and room: "sio_readptr s + int (length xs) \<le> sio_size s \<or>
      sio_readptr s + int (length xs) + 1 < MAX_TALLOC_SIZE"
  shows "\<exists>s'. StringIO_write s xs = Some (s', int (length xs)) \<and> sio_inv s' \<and>
    sio_abs s' = f_write (sio_abs s) xs \<and> sio_readptr s' = sio_readptr s + int (length xs) \<and>
    sio_size s' = max (sio_size s) (sio_readptr s + int (length xs)) \<and> sio_junk s' = sio_junk s"
proof -
  let ?m = "sio_data s" and ?l = "length xs"
  obtain p n where pn: "sio_readptr s = int p" "sio_size s = int n" "p \<le> n" "n \<le> length ?m"
    "length ?m < 268435456" using inv by (rule sio_natE)
  have b': "p + ?l \<le> n \<or> p + ?l + 1 < 268435456" using room pn by (simp add: MAX_TALLOC_SIZE_def) linarith
  have w: "u64 (int p + int ?l) = int p + int ?l" "u64 (int n) = int n"
    "s32 (int p + int ?l) = int p + int ?l" "s32 (int p + int ?l + 1) = int p + int ?l + 1"
    "u64 (int p + int ?l + 1) = int p + int ?l + 1"
    using pn b' by (auto simp: cint_simps)
  show ?thesis
  proof (cases "p + ?l > n")
    case True
    then have b: "p + ?l + 1 < 268435456" using b' by simp
    define d where "d = take (p + ?l + 1) ?m @ map (sio_junk s) [length ?m..<p + ?l + 1]"
    have re: "talloc_realloc_size (sio_junk s) ?m (int p + int ?l + 1) = Some d"
      using b by (simp add: talloc_realloc_size_def MAX_TALLOC_SIZE_def d_def nat_add_distrib)
    have ld: "length d = p + ?l + 1"
      using length_talloc_realloc[OF re] by (simp add: nat_add_distrib)
    have tk: "take p d = take p ?m"
      using take_talloc_realloc[OF re, of p] pn by simp
    define d' where "d' = take p d @ xs @ drop (p + ?l) d"
    have wr: "mem_write d (int p) xs = Some d'"
      using mem_write_Some[of "int p" xs d] ld pn by (simp add: d'_def)
    have ld': "length d' = p + ?l + 1" using length_mem_write[OF wr] ld by simp
    have "take (p + ?l) d' = take p ?m @ xs" using ld pn by (simp add: d'_def tk)
    moreover have "f_write (take n ?m, p) xs = (take p ?m @ xs, p + ?l)"
      using True pn by (simp add: f_write_def min_absorb1)
    ultimately show ?thesis
      using True pn b re wr ld' w
        sio_intro[of "s\<lparr>sio_size := int (p + ?l), sio_data := d', sio_readptr := int (p + ?l)\<rparr>" "p + ?l" "p + ?l"]
        sio_intro(2)[OF pn]
      by (simp add: StringIO_write_def Let_def)
  next
    case False
    define d' where "d' = take p ?m @ xs @ drop (p + ?l) ?m"
    have wr: "mem_write ?m (int p) xs = Some d'"
      using mem_write_Some[of "int p" xs ?m] False pn by (simp add: d'_def)
    have ld': "length d' = length ?m" by (rule length_mem_write[OF wr])
    have "take n d' = take p ?m @ xs @ take (n - (p + ?l)) (drop (p + ?l) ?m)"
      using pn False by (simp add: d'_def)
    then have "f_write (take n ?m, p) xs = (take n d', p + ?l)"
      using pn by (simp add: f_write_def min_absorb1 drop_take)
    then show ?thesis
      using False pn wr ld' w
        sio_intro[of "s\<lparr>sio_data := d', sio_readptr := int (p + ?l)\<rparr>" "p + ?l" n]
        sio_intro(2)[OF pn]
      by (simp add: StringIO_write_def Let_def)
  qed
qed

lemma StringIO_read_spec:
  assumes inv: "sio_inv s" and len: "0 \<le> len" "len < 2147483648"
  shows "\<exists>s'. StringIO_read s len = Some (s', fst (f_read (sio_abs s) (nat len))) \<and> sio_inv s' \<and>
    sio_abs s' = snd (f_read (sio_abs s) (nat len)) \<and> sio_size s' = sio_size s \<and>
    sio_data s' = sio_data s \<and> sio_junk s' = sio_junk s \<and>
    sio_readptr s' = sio_readptr s + min len (sio_size s - sio_readptr s)"
proof -
  let ?m = "sio_data s"
  obtain p n where pn: "sio_readptr s = int p" "sio_size s = int n" "p \<le> n" "n \<le> length ?m"
    "length ?m < 268435456" using inv by (rule sio_natE)
  obtain l where l: "len = int l" using len nonneg_int_cases by blast
  define k where "k = min l (n - p)"
  have k: "k \<le> n - p" "p + k \<le> n" using pn by (auto simp: k_def)
  have w: "u64 (int p + int l) = int p + int l" "u64 (int n) = int n"
    "s32 (u64 (int n - int p)) = int n - int p" "u64 (int p + int k) = int p + int k"
    using pn len l k by (simp_all add: cint_simps)
  have ki: "(if int p + int l > int n then int n - int p else int l) = int k"
    using pn by (auto simp: k_def)
  have rd: "mem_read ?m (int p) (int k) = Some (take k (drop p ?m))"
    using pn k mem_read_Some[of "int p" "int k" ?m] by simp
  have "f_read (take n ?m, p) l = (take k (drop p ?m), (take n ?m, p + k))"
    using pn k by (auto simp: f_read_def k_def drop_take min_def)
  moreover have "min len (int n - int p) = int k"
    using pn l by (auto simp: k_def)
  moreover have "StringIO_read s len = Some (s\<lparr>sio_readptr := int (p + k)\<rparr>, take k (drop p ?m))"
    by (simp add: StringIO_read_def Let_def pn l w ki rd cong: if_cong split del: if_split)
  ultimately show ?thesis
    using pn k l sio_intro[of "s\<lparr>sio_readptr := int (p + k)\<rparr>" "p + k" n] sio_intro(2)[OF pn]
    by simp
qed

lemma StringIO_seek_spec:
  assumes inv: "sio_inv s" and off: "0 \<le> off" "off \<le> sio_size s"
  shows "StringIO_seek s off SEEK_SET = Some (s\<lparr>sio_readptr := off\<rparr>, off) \<and>
    sio_inv (s\<lparr>sio_readptr := off\<rparr>) \<and> sio_abs (s\<lparr>sio_readptr := off\<rparr>) = (fst (sio_abs s), nat off)"
proof -
  note b = sio_invD[OF inv] off
  have "u64 off = off" "u64 (sio_size s) = sio_size s"
    using b by (simp_all add: cint_simps)
  then show ?thesis
    using b by (simp add: StringIO_seek_def SEEK_SET_def Let_def sio_inv_def sio_abs_def MAX_TALLOC_SIZE_def)
qed

text \<open>A seek behind the end makes the buffer longer, by what the heap held.\<close>

lemma StringIO_seek_grow:
  assumes inv: "sio_inv s" and off: "sio_size s < off" "off < MAX_TALLOC_SIZE"
  shows "\<exists>s'. StringIO_seek s off SEEK_SET = Some (s', off) \<and> sio_inv s' \<and>
    sio_size s' = off \<and> sio_readptr s' = off \<and> sio_junk s' = sio_junk s \<and>
    (\<exists>ys. fst (sio_abs s') = fst (sio_abs s) @ ys)"
proof -
  let ?m = "sio_data s"
  obtain p n where pn: "sio_readptr s = int p" "sio_size s = int n" "p \<le> n" "n \<le> length ?m"
    "length ?m < 268435456" using inv by (rule sio_natE)
  obtain q where q: "off = int q" using off pn nonneg_int_cases[of off] by auto
  have qb: "n < q" "q < 268435456" using off q pn by (simp_all add: MAX_TALLOC_SIZE_def)
  define d where "d = take q ?m @ map (sio_junk s) [length ?m..<q]"
  have w: "u64 (int q) = int q" "u64 (int n) = int n" "s32 (int q) = int q"
    using pn qb by (simp_all add: cint_simps)
  have re: "talloc_realloc_size (sio_junk s) ?m (int q) = Some d"
    using qb by (simp add: talloc_realloc_size_def MAX_TALLOC_SIZE_def d_def)
  have ld: "length d = q" using length_talloc_realloc[OF re] by simp
  have "take n d = take n ?m" using take_talloc_realloc[OF re, of n] pn qb by simp
  then have "d = take n ?m @ drop n d" by (metis append_take_drop_id)
  then have "\<exists>ys. take q d = take n ?m @ ys" using ld by auto
  then show ?thesis
    using pn q qb re ld w sio_intro(2)[OF pn]
      sio_intro[of "s\<lparr>sio_readptr := int q, sio_data := d, sio_size := int q\<rparr>" q q]
    by (simp add: StringIO_seek_def SEEK_SET_def Let_def)
qed

lemma StringIO_truncate_spec:
  assumes inv: "sio_inv s" and len: "0 \<le> len" "len \<le> sio_size s"
  shows "sio_inv (StringIO_truncate s len)"
    and "sio_abs (StringIO_truncate s len) = (take (nat len) (fst (sio_abs s)), nat (min (sio_readptr s) len))"
    and "sio_size (StringIO_truncate s len) = len"
    and "sio_readptr (StringIO_truncate s len) = min (sio_readptr s) len"
proof -
  note b = sio_invD[OF inv] len
  have "u64 len = len" using b by (simp add: cint_simps)
  then show "sio_inv (StringIO_truncate s len)"
    "sio_abs (StringIO_truncate s len) = (take (nat len) (fst (sio_abs s)), nat (min (sio_readptr s) len))"
    "sio_size (StringIO_truncate s len) = len"
    "sio_readptr (StringIO_truncate s len) = min (sio_readptr s) len"
    using b by (auto simp: StringIO_truncate_def sio_inv_def sio_abs_def MAX_TALLOC_SIZE_def min_def)
qed

lemma StringIO_skip_spec:
  assumes inv: "sio_inv s" and len: "0 \<le> len"
  shows "\<exists>s'. StringIO_skip s len = Some s' \<and> sio_inv s' \<and>
    sio_abs s' = (drop (nat len) (fst (sio_abs s)), 0)"
proof -
  let ?m = "sio_data s"
  obtain p n where pn: "sio_readptr s = int p" "sio_size s = int n" "p \<le> n" "n \<le> length ?m"
    "length ?m < 268435456" using inv by (rule sio_natE)
  obtain l where l: "len = int l" using len nonneg_int_cases by blast
  define k where "k = min l n"
  have ki: "(if n < l then int n else int l) = int k" by (auto simp: k_def)
  have kn: "k \<le> n" by (simp add: k_def)
  define xs where "xs = take (n - k) (drop k ?m)"
  have ik: "int n - int k = int (n - k)" using kn by simp
  have rd: "mem_read ?m (int k) (int n - int k) = Some xs"
    unfolding ik using mem_read_Some[of "int k" "int (n - k)" ?m] pn kn by (simp add: xs_def del: of_nat_diff)
  have lx: "length xs = n - k" using pn by (simp add: xs_def)
  define d where "d = xs @ drop (n - k) ?m"
  have wr: "mem_write ?m 0 xs = Some d"
    using mem_write_Some[of 0 xs ?m] pn lx by (simp add: d_def)
  have ld: "length d = length ?m" by (rule length_mem_write[OF wr])
  have w: "s32 (int n - int k) = int (n - k)" using pn kn by (simp add: cint_simps of_nat_diff)
  have "drop l (take n ?m) = xs" by (cases "l \<le> n") (auto simp: k_def xs_def drop_take)
  moreover have "take (n - k) d = xs" using lx by (simp add: d_def)
  moreover have "StringIO_skip s len =
      Some (s\<lparr>sio_data := d, sio_size := int (n - k), sio_readptr := 0\<rparr>)"
    by (simp add: StringIO_skip_def Let_def pn l ki rd wr w cong: if_cong split del: if_split)
  moreover have "n - k \<le> length ?m" using pn by simp
  ultimately show ?thesis
    using pn l ld sio_intro(2)[OF pn]
      sio_intro[of "s\<lparr>sio_data := d, sio_size := int (n - k), sio_readptr := 0\<rparr>" 0 "n - k"]
    by simp
qed

text \<open>The buffer is a sink while the position is at its end, and always a source.\<close>

definition sio_at_end :: "stringio \<Rightarrow> bool" where
  "sio_at_end s \<longleftrightarrow> sio_inv s \<and> sio_readptr s = sio_size s"

definition sio_contents :: "stringio \<Rightarrow> byte list" where
  "sio_contents s = fst (sio_abs s)"

definition sio_room :: "stringio \<Rightarrow> nat" where
  "sio_room s = nat (MAX_TALLOC_SIZE - 2 - sio_size s)"

lemma StringIO_write_append:
  assumes "sio_at_end s" and "length xs \<le> sio_room s"
  shows "\<exists>s'. StringIO_write s xs = Some (s', int (length xs)) \<and> sio_at_end s' \<and>
    sio_contents s' = sio_contents s @ xs \<and> sio_room s \<le> sio_room s' + length xs"
proof -
  have inv: "sio_inv s" and e: "sio_readptr s = sio_size s"
    using assms(1) by (simp_all add: sio_at_end_def)
  have "sio_readptr s + int (length xs) \<le> sio_size s \<or>
      sio_readptr s + int (length xs) + 1 < MAX_TALLOC_SIZE"
  proof (cases "xs = []")
    case False
    then have "0 < length xs" by simp
    moreover have "length xs \<le> nat (268435454 - sio_size s)"
      using assms(2) by (simp add: sio_room_def MAX_TALLOC_SIZE_def)
    ultimately have "int (length xs) \<le> 268435454 - sio_size s" by arith
    then show ?thesis using e by (simp add: MAX_TALLOC_SIZE_def)
  qed (simp add: e)
  from StringIO_write_spec[OF inv this] obtain s' where
    s': "StringIO_write s xs = Some (s', int (length xs))" "sio_inv s'"
      "sio_abs s' = f_write (sio_abs s) xs" "sio_readptr s' = sio_readptr s + int (length xs)"
      "sio_size s' = max (sio_size s) (sio_readptr s + int (length xs))" by blast
  have "snd (sio_abs s) = length (fst (sio_abs s))"
    using length_sio_contents[OF inv] e by (simp add: sio_abs_def)
  then have "sio_contents s' = sio_contents s @ xs"
    by (simp add: sio_contents_def s'(3) f_write_end)
  then show ?thesis
    using s' e by (auto simp: sio_at_end_def sio_room_def)
qed

lemma StringIO_read_rest:
  assumes "sio_inv s" and "0 \<le> n" and "n < 2147483648"
  shows "\<exists>s'. StringIO_read s n = Some (s', take (nat n) (sio_rest s)) \<and> sio_inv s' \<and>
    sio_rest s' = drop (nat n) (sio_rest s) \<and> sio_size s' = sio_size s \<and> sio_data s' = sio_data s \<and>
    sio_readptr s' = sio_readptr s + min n (sio_size s - sio_readptr s)"
  using StringIO_read_spec[OF assms]
  by (auto simp: sio_rest_def f_rest_after_read) (auto simp: f_read_def f_rest_def)

interpretation sio_sink: byte_sink sio_at_end sio_contents sio_room StringIO_write
  by unfold_locales (rule StringIO_write_append)

interpretation sio_source: byte_source sio_inv sio_rest StringIO_read
  by unfold_locales (use StringIO_read_rest in blast)

lemma StringIO_seek_rest:
  assumes "sio_inv s" and "0 \<le> n" and "n \<le> int (length (sio_contents s))"
  shows "\<exists>s'. map_option fst (StringIO_seek s n SEEK_SET) = Some s' \<and> sio_inv s' \<and>
    sio_rest s' = drop (nat n) (sio_contents s) \<and> sio_contents s' = sio_contents s"
proof -
  have "n \<le> sio_size s" using assms(3) length_sio_contents[OF assms(1)] sio_invD[OF assms(1)]
    by (simp add: sio_contents_def)
  with StringIO_seek_spec[OF assms(1,2)] show ?thesis
    by (auto simp: sio_rest_def f_rest_def sio_contents_def)
qed

interpretation sio_seekable: seekable_source sio_inv sio_rest StringIO_read sio_contents
    "\<lambda>s n. map_option fst (StringIO_seek s n SEEK_SET)"
proof unfold_locales
  fix s n
  assume "sio_inv s" "0 \<le> n" "n \<le> int (length (sio_contents s))"
  then show "\<exists>s'. map_option fst (StringIO_seek s n SEEK_SET) = Some s' \<and> sio_inv s' \<and>
      sio_rest s' = drop (nat n) (sio_contents s) \<and> sio_contents s' = sio_contents s"
    by (rule StringIO_seek_rest)
next
  fix s n s' xs
  assume "sio_inv s" "0 \<le> n" "n < 2147483648" "StringIO_read s n = Some (s', xs)"
  with StringIO_read_rest[of s n] show "sio_contents s' = sio_contents s"
    by (auto simp: sio_contents_def sio_abs_def)
qed

section \<open>Copying between buffers\<close>

lemma StringIO_read_stream_spec:
  assumes "sio_inv stream" and "sio_at_end self" and "nat len \<le> sio_room self" and "len < 2147483648"
  shows "\<exists>self' stream'. StringIO_read_stream self stream len =
      Some (self', stream', (if len > 0 then len - int (length (take (nat len) (sio_rest stream))) else len)) \<and>
    sio_at_end self' \<and> sio_inv stream' \<and>
    sio_contents self' = sio_contents self @ take (nat len) (sio_rest stream) \<and>
    sio_rest stream' = drop (nat len) (sio_rest stream)"
  using assms
proof (induction self stream len rule: StringIO_read_stream.induct)
  case (1 self stream len)
  show ?case
  proof (cases "len > 0")
    case False
    then show ?thesis using "1.prems" by (simp add: StringIO_read_stream.simps[of self stream len])
  next
    case True
    define k where "k = min len BUFF_SIZE"
    have k: "0 < k" "k \<le> len" "k < 2147483648" using True by (auto simp: k_def BUFF_SIZE_def)
    define xs where "xs = take (nat k) (sio_rest stream)"
    obtain stream1 where s1: "StringIO_read stream k = Some (stream1, xs)" "sio_inv stream1"
      "sio_rest stream1 = drop (nat k) (sio_rest stream)"
      using StringIO_read_rest[OF "1.prems"(1), of k] k by (auto simp: xs_def)
    have lx: "length xs \<le> nat k" by (simp add: xs_def)
    show ?thesis
    proof (cases "xs = []")
      case True
      then have "sio_rest stream = []" using k by (auto simp: xs_def)
      then show ?thesis
        using \<open>len > 0\<close> True s1 "1.prems"
        by (simp add: StringIO_read_stream.simps[of self stream len] k_def)
    next
      case False
      have "nat k \<le> nat len" using k by simp
      then have room: "length xs \<le> sio_room self" using lx "1.prems"(3) by linarith
      obtain self1 where w: "StringIO_write self xs = Some (self1, int (length xs))" "sio_at_end self1"
        "sio_contents self1 = sio_contents self @ xs" "sio_room self \<le> sio_room self1 + length xs"
        using StringIO_write_append[OF "1.prems"(2) room] by blast
      have un: "StringIO_read_stream self stream len =
          StringIO_read_stream self1 stream1 (len - int (length xs))"
        using True False s1(1) w(1)
        by (simp add: StringIO_read_stream.simps[of self stream len] k_def)
      have le: "nat (len - int (length xs)) \<le> sio_room self1" "len - int (length xs) < 2147483648"
        using "1.prems"(3,4) w(4) by auto
      from "1.IH"[OF True s1(1)[unfolded k_def] refl False w(1) refl s1(2) w(2) le] obtain self2 stream2 where
        IH: "StringIO_read_stream self1 stream1 (len - int (length xs)) = Some (self2, stream2,
            (if len - int (length xs) > 0 then len - int (length xs) -
               int (length (take (nat (len - int (length xs))) (sio_rest stream1)))
             else len - int (length xs)))"
          "sio_at_end self2" "sio_inv stream2"
          "sio_contents self2 = sio_contents self1 @ take (nat (len - int (length xs))) (sio_rest stream1)"
          "sio_rest stream2 = drop (nat (len - int (length xs))) (sio_rest stream1)" by blast
      show ?thesis
      proof (cases "length xs = nat k")
        case full: True
        have tk: "take (nat len) (sio_rest stream) = xs @ take (nat (len - int (length xs))) (sio_rest stream1)"
        proof -
          have "nat len = nat k + nat (len - int (length xs))" using full k by simp
          then show ?thesis unfolding s1(3) xs_def[symmetric] using take_add[of "nat k"]
            by (metis xs_def)
        qed
        have dr: "drop (nat len) (sio_rest stream) = drop (nat (len - int (length xs))) (sio_rest stream1)"
          using full k by (simp add: s1(3) add.commute[of _ "nat k"] nat_diff_distrib)
        show ?thesis using IH tk dr un w(3) True by (auto simp: max_def)
      next
        case short: False
        then have "sio_rest stream1 = []" "xs = sio_rest stream" "length (sio_rest stream) \<le> nat len"
          using k by (auto simp: xs_def s1(3) min_def split: if_splits)
        then show ?thesis using IH un w(3) True by auto
      qed
    qed
  qed
qed

section \<open>Sequences of operations\<close>

text \<open>The operations of a client, on the buffer and on the file that it stands for. Each step answers
  the bytes read, or the number that the method returns.\<close>

datatype sio_op =
    Op_write "byte list"
  | Op_read int
  | Op_seek int int
  | Op_truncate int
  | Op_skip int

datatype sio_answer = Ans_count int | Ans_bytes "byte list" | Ans_none

definition sio_step :: "sio_op \<Rightarrow> stringio \<Rightarrow> (stringio \<times> sio_answer) option" where
  "sio_step op s =
     (case op of
        Op_write xs \<Rightarrow> map_option (\<lambda>(s', n). (s', Ans_count n)) (StringIO_write s xs)
      | Op_read n \<Rightarrow> map_option (\<lambda>(s', xs). (s', Ans_bytes xs)) (StringIO_read s n)
      | Op_seek off whence \<Rightarrow> map_option (\<lambda>(s', n). (s', Ans_count n)) (StringIO_seek s off whence)
      | Op_truncate n \<Rightarrow> Some (StringIO_truncate s n, Ans_none)
      | Op_skip n \<Rightarrow> map_option (\<lambda>s'. (s', Ans_none)) (StringIO_skip s n))"

fun sio_run :: "sio_op list \<Rightarrow> stringio \<Rightarrow> (stringio \<times> sio_answer list) option" where
  "sio_run [] s = Some (s, [])"
| "sio_run (op # ops) s =
     (case sio_step op s of None \<Rightarrow> None
      | Some (s', a) \<Rightarrow> map_option (\<lambda>(s'', as). (s'', a # as)) (sio_run ops s'))"

definition seek_target :: "bfile \<Rightarrow> int \<Rightarrow> int \<Rightarrow> int" where
  "seek_target f off whence =
     (if whence = SEEK_SET then off
      else if whence = SEEK_CUR then int (snd f) + off
      else if whence = SEEK_END then int (length (fst f)) + off
      else int (snd f))"

definition file_step :: "sio_op \<Rightarrow> bfile \<Rightarrow> bfile \<times> sio_answer" where
  "file_step op f =
     (case op of
        Op_write xs \<Rightarrow> (f_write f xs, Ans_count (int (length xs)))
      | Op_read n \<Rightarrow> (snd (f_read f (nat n)), Ans_bytes (fst (f_read f (nat n))))
      | Op_seek off whence \<Rightarrow>
          ((fst f, nat (seek_target f off whence)), Ans_count (seek_target f off whence))
      | Op_truncate n \<Rightarrow> ((take (nat n) (fst f), min (snd f) (nat n)), Ans_none)
      | Op_skip n \<Rightarrow> ((drop (nat n) (fst f), 0), Ans_none))"

text \<open>The arguments that a file takes as well: a write below the limit of the allocator, a position
  inside of the file, no negative lengths.\<close>

definition op_ok :: "sio_op \<Rightarrow> bfile \<Rightarrow> bool" where
  "op_ok op f =
     (case op of
        Op_write xs \<Rightarrow> int (snd f + length xs) + 1 < MAX_TALLOC_SIZE
      | Op_read n \<Rightarrow> 0 \<le> n \<and> n < 2147483648
      | Op_seek off whence \<Rightarrow> - 268435456 \<le> off \<and> off \<le> 268435456 \<and>
          0 \<le> seek_target f off whence \<and> seek_target f off whence \<le> int (length (fst f))
      | Op_truncate n \<Rightarrow> 0 \<le> n \<and> n \<le> int (length (fst f))
      | Op_skip n \<Rightarrow> 0 \<le> n)"

fun file_run :: "sio_op list \<Rightarrow> bfile \<Rightarrow> (bfile \<times> sio_answer list) option" where
  "file_run [] f = Some (f, [])"
| "file_run (op # ops) f =
     (if op_ok op f
      then case file_step op f of (f', a) \<Rightarrow> map_option (\<lambda>(f'', as). (f'', a # as)) (file_run ops f')
      else None)"

lemma StringIO_seek_within:
  assumes inv: "sio_inv s" and off: "- 268435456 \<le> off" "off \<le> 268435456"
    and t: "seek_target (sio_abs s) off whence = t" "0 \<le> t" "t \<le> sio_size s"
  shows "StringIO_seek s off whence = Some (s\<lparr>sio_readptr := t\<rparr>, t) \<and>
    sio_inv (s\<lparr>sio_readptr := t\<rparr>) \<and> sio_abs (s\<lparr>sio_readptr := t\<rparr>) = (fst (sio_abs s), nat t)"
proof -
  note b = sio_invD[OF inv] t(2,3)
  have "u64 t = t" "u64 (sio_size s) = sio_size s" "u64 (sio_readptr s) = sio_readptr s"
    using b by (simp_all add: cint_simps)
  moreover have "int (snd (sio_abs s)) = sio_readptr s" "int (length (fst (sio_abs s))) = sio_size s"
    using b length_sio_contents[OF inv] by (simp_all add: sio_abs_def)
  ultimately show ?thesis using b t(1)
    by (auto simp: StringIO_seek_def seek_target_def Let_def sio_inv_def sio_abs_def MAX_TALLOC_SIZE_def)
qed

lemma sio_step_refines:
  assumes inv: "sio_inv s" and ok: "op_ok op (sio_abs s)"
  shows "\<exists>s'. sio_step op s = Some (s', snd (file_step op (sio_abs s))) \<and> sio_inv s' \<and>
    sio_abs s' = fst (file_step op (sio_abs s))"
proof (cases op)
  case (Op_write xs)
  have "int (snd (sio_abs s)) = sio_readptr s" using sio_invD[OF inv] by (simp add: sio_abs_def)
  then have "sio_readptr s + int (length xs) + 1 < MAX_TALLOC_SIZE"
    using ok Op_write by (simp add: op_ok_def)
  then show ?thesis
    using StringIO_write_spec[OF inv, of xs] Op_write by (auto simp: sio_step_def file_step_def)
next
  case (Op_read n)
  then show ?thesis
    using StringIO_read_spec[OF inv, of n] ok by (auto simp: sio_step_def file_step_def op_ok_def)
next
  case (Op_seek off whence)
  then show ?thesis
    using StringIO_seek_within[OF inv, of off whence, OF _ _ refl] ok length_sio_contents[OF inv] sio_invD(3)[OF inv]
    by (auto simp: sio_step_def file_step_def op_ok_def)
next
  case (Op_truncate n)
  then have n: "0 \<le> n" "n \<le> sio_size s"
    using ok length_sio_contents[OF inv] sio_invD(3)[OF inv] by (auto simp: op_ok_def)
  then have "nat (min (sio_readptr s) n) = min (nat (sio_readptr s)) (nat n)"
    using sio_invD(1)[OF inv] by (auto simp: min_def)
  then show ?thesis
    using StringIO_truncate_spec[OF inv n] Op_truncate by (simp add: sio_step_def file_step_def sio_abs_def)
next
  case (Op_skip n)
  then show ?thesis
    using StringIO_skip_spec[OF inv, of n] ok by (auto simp: sio_step_def file_step_def op_ok_def)
qed

section \<open>Searching\<close>

lemma find_upt_Some:
  "find P [0..<n] = Some i \<longleftrightarrow> i < n \<and> P i \<and> (\<forall>j<i. \<not> P j)"
  by (auto simp: find_Some_iff)

lemma find_upt_None: "find P [0..<n] = None \<longleftrightarrow> (\<forall>i<n. \<not> P i)"
  by (auto simp: find_None_iff)

definition match_at :: "byte list \<Rightarrow> byte list \<Rightarrow> nat \<Rightarrow> bool" where
  "match_at needle text i \<longleftrightarrow> i + length needle \<le> length text \<and> take (length needle) (drop i text) = needle"

lemma find_match_at:
  assumes inv: "sio_inv s" and "length needle \<le> nat (sio_size s)"
  shows "i < nat (sio_size s - int (length needle)) + 1 \<and>
      take (length needle) (drop i (sio_data s)) = needle \<longleftrightarrow> match_at needle (sio_contents s) i"
proof -
  obtain p n where pn: "sio_readptr s = int p" "sio_size s = int n" "p \<le> n" "n \<le> length (sio_data s)"
    "length (sio_data s) < 268435456" using inv by (rule sio_natE)
  have c: "sio_contents s = take n (sio_data s)" using pn by (simp add: sio_contents_def sio_abs_def)
  have "i < nat (sio_size s - int (length needle)) + 1 \<longleftrightarrow> i + length needle \<le> n"
    using pn assms(2) by auto
  moreover have "take (length needle) (drop i (sio_data s)) = take (length needle) (drop i (sio_contents s))"
    if "i + length needle \<le> n"
    using that by (simp add: c drop_take min_absorb1)
  ultimately show ?thesis using pn by (auto simp: match_at_def c min_absorb2)
qed

section \<open>Properties\<close>

text \<open>C8 (the buffer is a file). Every sequence of writes, reads, seeks, truncations and skips whose
  arguments a file takes runs on the buffer without an access outside of its memory and without
  failing, answers what the same sequence answers on the file that the buffer stands for, and
  ends in a well-formed buffer of the file that the sequence leaves.\<close>

theorem sio_run_refines:
  assumes "sio_inv s" and "file_run ops (sio_abs s) = Some (f, as)"
  shows "\<exists>s'. sio_run ops s = Some (s', as) \<and> sio_inv s' \<and> sio_abs s' = f"
  using assms
proof (induction ops arbitrary: s as)
  case Nil
  then show ?case by simp
next
  case (Cons op ops)
  obtain f1 a where fa: "file_step op (sio_abs s) = (f1, a)" by (rule prod.exhaust)
  then obtain as' where ok: "op_ok op (sio_abs s)" "file_run ops f1 = Some (f, as')" "as = a # as'"
    using Cons.prems(2) by (auto split: if_splits)
  obtain s1 where "sio_step op s = Some (s1, a)" "sio_inv s1" "sio_abs s1 = f1"
    using sio_step_refines[OF Cons.prems(1) ok(1)] fa by auto
  then show ?case using Cons.IH[of s1 as'] ok by auto
qed

text \<open>A write to a well-formed buffer goes wrong exactly when the buffer has to
  grow to a block that the allocator refuses: then \<open>talloc_realloc\<close> answers NULL, the code does
  not look at it and copies the data to a small address. Every other write returns the number of
  bytes written.\<close>

theorem StringIO_write_limit:
  assumes "sio_inv s" and "length xs < 1073741824"
  shows "StringIO_write s xs = None \<longleftrightarrow>
    sio_size s < sio_readptr s + int (length xs) \<and>
    MAX_TALLOC_SIZE \<le> sio_readptr s + int (length xs) + 1"
proof (cases "sio_readptr s + int (length xs) \<le> sio_size s \<or>
      sio_readptr s + int (length xs) + 1 < MAX_TALLOC_SIZE")
  case True
  then show ?thesis using StringIO_write_spec[OF assms(1) True] by auto
next
  case False
  note b = sio_invD[OF assms(1)] assms(2) False
  have "u64 (sio_readptr s + int (length xs)) = sio_readptr s + int (length xs)" "u64 (sio_size s) = sio_size s"
    "s32 (sio_readptr s + int (length xs)) = sio_readptr s + int (length xs)"
    "s32 (sio_readptr s + int (length xs) + 1) = sio_readptr s + int (length xs) + 1"
    "u64 (sio_readptr s + int (length xs) + 1) = sio_readptr s + int (length xs) + 1"
    using b by (simp_all add: cint_simps)
  then show ?thesis
    using False by (auto simp: StringIO_write_def Let_def talloc_realloc_size_def)
qed

text \<open>\<open>find\<close> answers the first position at which the whole needle stands inside of
  the buffer, and NULL exactly when it stands nowhere; it never matches bytes behind the end.\<close>

theorem StringIO_find_first:
  assumes "sio_inv s"
  shows "(case StringIO_find s needle of
      Some i \<Rightarrow> match_at needle (sio_contents s) i \<and> (\<forall>j<i. \<not> match_at needle (sio_contents s) j)
    | None \<Rightarrow> (\<forall>i. \<not> match_at needle (sio_contents s) i))"
proof (cases "sio_size s < int (length needle)")
  case True
  have "length (sio_contents s) < length needle"
    using True length_sio_contents[OF assms] sio_invD(3)[OF assms] by (simp add: sio_contents_def)
  then show ?thesis using True by (simp add: StringIO_find_def match_at_def)
next
  case False
  then have m: "i < nat (sio_size s - int (length needle)) + 1 \<and>
      take (length needle) (drop i (sio_data s)) = needle \<longleftrightarrow> match_at needle (sio_contents s) i" for i
    using find_match_at[OF assms, of needle i] by simp
  show ?thesis
  proof (cases "StringIO_find s needle")
    case None
    then have "\<forall>i<nat (sio_size s - int (length needle)) + 1. take (length needle) (drop i (sio_data s)) \<noteq> needle"
      using False unfolding StringIO_find_def Let_def by (simp only: if_False find_upt_None)
    then show ?thesis using None m by auto
  next
    case (Some i)
    then have "i < nat (sio_size s - int (length needle)) + 1"
      "take (length needle) (drop i (sio_data s)) = needle"
      "\<forall>j<i. take (length needle) (drop j (sio_data s)) \<noteq> needle"
      using False unfolding StringIO_find_def Let_def by (simp_all only: if_False find_upt_Some) blast+
    then show ?thesis using Some m by fastforce
  qed
qed

text \<open>\<open>read_stream\<close> copies the next \<open>len\<close> bytes of the other
  stream, or all that it has left, behind the contents, through a buffer of \<open>BUFF_SIZE\<close> bytes;
  it ends for every length, moves the position of the other stream by what it copied and answers the
  number of bytes that were asked for and not there.\<close>

theorem StringIO_read_stream_copies:
  assumes "sio_inv stream" and "sio_at_end self" and "0 \<le> len" and "len < 2147483648"
    and "nat len \<le> sio_room self"
  shows "\<exists>self' stream'. StringIO_read_stream self stream len =
      Some (self', stream', len - int (min (nat len) (length (sio_rest stream)))) \<and>
    sio_at_end self' \<and> sio_inv stream' \<and>
    sio_contents self' = sio_contents self @ take (nat len) (sio_rest stream) \<and>
    sio_rest stream' = drop (nat len) (sio_rest stream)"
  using StringIO_read_stream_spec[OF assms(1,2,5,4)] assms(3)
  by (auto simp: min.commute split: if_splits)

definition demo_buffer :: "byte list \<Rightarrow> stringio" where
  "demo_buffer xs = \<lparr>sio_size = int (length xs), sio_readptr = 0, sio_data = xs, sio_junk = (\<lambda>_. 0)\<rparr>"

lemma demo_buffer [simp]:
  "length xs < 268435456 \<Longrightarrow> sio_inv (demo_buffer xs)" "sio_rest (demo_buffer xs) = xs"
  "sio_abs (demo_buffer xs) = (xs, 0)" "sio_contents (demo_buffer xs) = xs"
  by (simp_all add: demo_buffer_def sio_inv_def MAX_TALLOC_SIZE_def sio_rest_eq sio_abs_def sio_contents_def)

lemma sio_run_refines_witness:
  "\<exists>s'. sio_run [Op_write [7, 8, 9], Op_seek 1 SEEK_SET, Op_read 5, Op_skip 2] (demo_buffer [1, 2]) =
      Some (s', [Ans_count 3, Ans_count 1, Ans_bytes [8, 9], Ans_none]) \<and> sio_inv s' \<and> sio_abs s' = ([9], 0)"
proof (rule sio_run_refines)
  show "sio_inv (demo_buffer [1, 2])" by simp
  show "file_run [Op_write [7, 8, 9], Op_seek 1 SEEK_SET, Op_read 5, Op_skip 2] (sio_abs (demo_buffer [1, 2])) =
      Some (([9], 0), [Ans_count 3, Ans_count 1, Ans_bytes [8, 9], Ans_none])"
    by (simp add: op_ok_def file_step_def f_write_def f_read_def seek_target_def SEEK_SET_def MAX_TALLOC_SIZE_def)
qed

lemma StringIO_write_limit_witness: "StringIO_write (demo_buffer [1, 2]) [3, 4, 5] \<noteq> None"
  using StringIO_write_limit[of "demo_buffer [1, 2]" "[3, 4, 5]"]
  by (simp add: demo_buffer_def sio_inv_def MAX_TALLOC_SIZE_def)

lemma StringIO_find_first_witness: "match_at [2, 3] [1, 2, 3, 2, 3] 1 \<and> \<not> match_at [2, 3] [1, 2, 3, 2, 3] 0"
proof -
  have "StringIO_find (demo_buffer [1, 2, 3, 2, 3]) [2, 3] = Some 1" by code_simp
  then show ?thesis using StringIO_find_first[of "demo_buffer [1, 2, 3, 2, 3]" "[2, 3]"] by simp
qed

lemma StringIO_read_stream_copies_witness:
  "\<exists>self' stream'. StringIO_read_stream (StringIO_constructor (\<lambda>_. 0)) (demo_buffer [1, 2, 3]) 5 =
    Some (self', stream', 2) \<and> sio_contents self' = [1, 2, 3]"
proof -
  have "sio_at_end (StringIO_constructor (\<lambda>_. 0))" "sio_contents (StringIO_constructor (\<lambda>_. 0)) = []"
    "nat 5 \<le> sio_room (StringIO_constructor (\<lambda>_. 0))"
    by (simp_all add: sio_at_end_def sio_contents_def sio_room_def MAX_TALLOC_SIZE_def)
  then show ?thesis
    using StringIO_read_stream_copies[of "demo_buffer [1, 2, 3]" "StringIO_constructor (\<lambda>_. 0)" 5] by auto
qed

end
