(* ===== verification/Struct.thy ===== *)
theory Struct
  imports String_IO
begin

text \<open>
  Packing and unpacking of structs by format strings, \<open>src/src/lib/struct.c\<close>. The memory
  of a packed struct is the list of its fields in the order of the format: \<open>slot\<close> has one
  constructor per shape of field. A pointer in a struct is the block that it points to. The tables
  of function pointers hold names of codecs; \<open>run_pack\<close> and \<open>run_unpack\<close> call the
  packer and the unpacker of a name.

  A packer answers the output and the number of bytes of the struct that it went over, an unpacker
  also the field as it is afterwards, since a failed unpacker leaves some fields half written.
  The host is little endian: \<open>WORDS_BIGENDIAN\<close> is not defined.
\<close>

section \<open>Fields of a struct\<close>

datatype slot =
    SChar byte
  | SShort int
  | SInt int
  | SStr "byte list"
  | SSized int "byte list"
  | SArgv int "byte list list"
  | SEth "byte list"

definition SIZEOF_PTR :: int where "SIZEOF_PTR = 8"

section \<open>Characters and numbers\<close>

fun Char_pack :: "slot \<Rightarrow> stringio \<Rightarrow> (stringio \<times> int) option" where
  "Char_pack (SChar c) output = StringIO_write output [c]"
| "Char_pack _ output = None"

definition Char_unpack :: "stringio \<Rightarrow> slot \<Rightarrow> (stringio \<times> slot \<times> int) option" where
  "Char_unpack input old = do {
     (input, xs) \<leftarrow> StringIO_read input 1;
     if int (length xs) < 1 then Some (input, old, -1)
     else Some (input, SChar (hd xs), 1)
   }"

fun Short_pack :: "slot \<Rightarrow> stringio \<Rightarrow> (stringio \<times> int) option" where
  "Short_pack (SShort v) output = StringIO_write output (be_bytes 2 v)"
| "Short_pack _ output = None"

definition Short_unpack :: "stringio \<Rightarrow> slot \<Rightarrow> (stringio \<times> slot \<times> int) option" where
  "Short_unpack input old = do {
     (input, xs) \<leftarrow> StringIO_read input 2;
     if int (length xs) < 2 then Some (input, old, -1)
     else Some (input, SShort (be_val xs), 2)
   }"

fun LEShort_pack :: "slot \<Rightarrow> stringio \<Rightarrow> (stringio \<times> int) option" where
  "LEShort_pack (SShort v) output = StringIO_write output (le_bytes 2 v)"
| "LEShort_pack _ output = None"

definition LEShort_unpack :: "stringio \<Rightarrow> slot \<Rightarrow> (stringio \<times> slot \<times> int) option" where
  "LEShort_unpack input old = do {
     (input, xs) \<leftarrow> StringIO_read input 2;
     if int (length xs) < 2 then Some (input, old, -1)
     else Some (input, SShort (le_val xs), 2)
   }"

fun Int_pack :: "slot \<Rightarrow> stringio \<Rightarrow> (stringio \<times> int) option" where
  "Int_pack (SInt v) output = StringIO_write output (be_bytes 4 v)"
| "Int_pack _ output = None"

definition Int_unpack :: "stringio \<Rightarrow> slot \<Rightarrow> (stringio \<times> slot \<times> int) option" where
  "Int_unpack input old = do {
     (input, xs) \<leftarrow> StringIO_read input 4;
     if int (length xs) < 4 then Some (input, old, -1)
     else Some (input, SInt (be_val xs), 4)
   }"

fun LEInt_pack :: "slot \<Rightarrow> stringio \<Rightarrow> (stringio \<times> int) option" where
  "LEInt_pack (SInt v) output = StringIO_write output (le_bytes 4 v)"
| "LEInt_pack _ output = None"

definition LEInt_unpack :: "stringio \<Rightarrow> slot \<Rightarrow> (stringio \<times> slot \<times> int) option" where
  "LEInt_unpack input old = do {
     (input, xs) \<leftarrow> StringIO_read input 4;
     if int (length xs) < 4 then Some (input, old, -1)
     else Some (input, SInt (le_val xs), 4)
   }"

section \<open>Strings\<close>

fun NullString_pack :: "slot \<Rightarrow> stringio \<Rightarrow> (stringio \<times> int) option" where
  "NullString_pack (SStr m) output = do {
     n \<leftarrow> c_strlen m;
     xs \<leftarrow> mem_read m 0 (int n + 1);
     (output, _) \<leftarrow> StringIO_write output xs;
     Some (output, SIZEOF_PTR)
   }"
| "NullString_pack _ output = None"

text \<open>The loop reads one character at a time into \<open>temp\<close> until the terminator.\<close>

partial_function (option) NullString_loop ::
    "stringio \<Rightarrow> stringio \<Rightarrow> slot \<Rightarrow> (stringio \<times> slot \<times> int) option" where
  "NullString_loop input temp old =
     (case StringIO_read input 1 of
        None \<Rightarrow> None
      | Some (input', xs) \<Rightarrow>
          if xs = [] then Some (input', old, -1)
          else (case StringIO_write temp xs of
                  None \<Rightarrow> None
                | Some (temp', _) \<Rightarrow>
                    if hd xs = 0 then Some (input', SStr (sio_data temp'), SIZEOF_PTR)
                    else NullString_loop input' temp' old))"

definition NullString_unpack :: "stringio \<Rightarrow> slot \<Rightarrow> (stringio \<times> slot \<times> int) option" where
  "NullString_unpack input old = NullString_loop input (StringIO_constructor (sio_junk input)) old"

fun SizeString_pack :: "slot \<Rightarrow> stringio \<Rightarrow> (stringio \<times> int) option" where
  "SizeString_pack (SSized len m) output = do {
     (output, _) \<leftarrow> StringIO_write output (be_bytes 2 len);
     xs \<leftarrow> mem_read m 0 len;
     (output, _) \<leftarrow> StringIO_write output xs;
     Some (output, 2 + SIZEOF_PTR)
   }"
| "SizeString_pack _ output = None"

text \<open>A \<open>read\<close> into the block \<open>m\<close>: the bytes that were read replace its first ones.\<close>

definition read_into :: "byte list \<Rightarrow> byte list \<Rightarrow> byte list" where
  "read_into m xs = xs @ drop (length xs) m"

definition SizeString_unpack :: "stringio \<Rightarrow> slot \<Rightarrow> (stringio \<times> slot \<times> int) option" where
  "SizeString_unpack input old = do {
     (input, xs) \<leftarrow> StringIO_read input 2;
     if int (length xs) < 2 then Some (input, old, -1)
     else do {
       let i16 = be_val xs;
       case talloc_size i16 of
         None \<Rightarrow> Some (input, SSized i16 (case old of SSized _ m \<Rightarrow> m | _ \<Rightarrow> []), -1)
       | Some m \<Rightarrow> do {
           (input, ys) \<leftarrow> StringIO_read input i16;
           Some (input, SSized i16 (read_into m ys),
                 if int (length ys) < i16 then -1 else 2 + SIZEOF_PTR)
         }
     }
   }"

fun SizeString32LE_pack :: "slot \<Rightarrow> stringio \<Rightarrow> (stringio \<times> int) option" where
  "SizeString32LE_pack (SSized len m) output = do {
     (output, _) \<leftarrow> StringIO_write output (le_bytes 4 len);
     xs \<leftarrow> mem_read m 0 (s32 len);
     (output, _) \<leftarrow> StringIO_write output xs;
     Some (output, 4 + SIZEOF_PTR)
   }"
| "SizeString32LE_pack _ output = None"

definition SizeString32LE_unpack :: "stringio \<Rightarrow> slot \<Rightarrow> (stringio \<times> slot \<times> int) option" where
  "SizeString32LE_unpack input old = do {
     (input, xs) \<leftarrow> StringIO_read input 4;
     if int (length xs) < 4 then Some (input, old, -1)
     else do {
       let i32 = le_val xs;
       case talloc_size i32 of
         None \<Rightarrow> Some (input, SSized i32 (case old of SSized _ m \<Rightarrow> m | _ \<Rightarrow> []), -1)
       | Some m \<Rightarrow> do {
           (input, ys) \<leftarrow> StringIO_read input (s32 i32);
           Some (input, SSized i32 (read_into m ys),
                 if u32 (int (length ys)) < i32 then -1 else 4 + SIZEOF_PTR)
         }
     }
   }"

fun SizeString32_pack :: "slot \<Rightarrow> stringio \<Rightarrow> (stringio \<times> int) option" where
  "SizeString32_pack (SSized len m) output = do {
     (output, _) \<leftarrow> StringIO_write output (be_bytes 4 len);
     xs \<leftarrow> mem_read m 0 (s32 len);
     (output, _) \<leftarrow> StringIO_write output xs;
     Some (output, 4 + SIZEOF_PTR)
   }"
| "SizeString32_pack _ output = None"

text \<open>Here the allocation is not checked: the read goes through NULL, which is undefined as soon
  as it copies a byte.\<close>

definition SizeString32_unpack :: "stringio \<Rightarrow> slot \<Rightarrow> (stringio \<times> slot \<times> int) option" where
  "SizeString32_unpack input old = do {
     (input, xs) \<leftarrow> StringIO_read input 4;
     if int (length xs) < 4 then Some (input, old, -1)
     else do {
       let i32 = be_val xs;
       (input, ys) \<leftarrow> StringIO_read input (s32 i32);
       m \<leftarrow> (case talloc_size i32 of None \<Rightarrow> (if ys = [] then Some [] else None) | Some m \<Rightarrow> Some m);
       Some (input, SSized i32 (read_into m ys),
             if u32 (int (length ys)) < i32 then -1 else 4 + SIZEOF_PTR)
     }
   }"

section \<open>Arrays of strings\<close>

text \<open>The strings of the array from the first one on, \<open>n\<close> of them.\<close>

fun ArgvArray_write :: "nat \<Rightarrow> byte list list \<Rightarrow> stringio \<Rightarrow> stringio option" where
  "ArgvArray_write 0 strs output = Some output"
| "ArgvArray_write (Suc n) [] output = None"
| "ArgvArray_write (Suc n) (str # strs) output = do {
     l \<leftarrow> c_strlen str;
     xs \<leftarrow> mem_read str 0 (int l + 1);
     (output, _) \<leftarrow> StringIO_write output xs;
     ArgvArray_write n strs output
   }"

fun ArgvArray_pack :: "slot \<Rightarrow> stringio \<Rightarrow> (stringio \<times> int) option" where
  "ArgvArray_pack (SArgv argc strs) output = do {
     (output, _) \<leftarrow> StringIO_write output (be_bytes 2 argc);
     output \<leftarrow> ArgvArray_write (nat argc) strs output;
     Some (output, 2 + SIZEOF_PTR)
   }"
| "ArgvArray_pack _ output = None"

text \<open>\<open>talloc_strdup\<close> looks for the terminator in the block behind \<open>data\<close>, not only
  in the part that the stream holds.\<close>

fun ArgvArray_read :: "nat \<Rightarrow> stringio \<Rightarrow> byte list list \<Rightarrow> (stringio \<times> byte list list) option" where
  "ArgvArray_read 0 input acc = Some (input, acc)"
| "ArgvArray_read (Suc n) input acc = do {
     let (data, _) = StringIO_get_buffer input;
     m \<leftarrow> mem_read (sio_data input) data (int (length (sio_data input)) - data);
     l \<leftarrow> c_strlen m;
     (input, _) \<leftarrow> StringIO_seek input (int l + 1) SEEK_CUR;
     ArgvArray_read n input (acc @ [take (Suc l) m])
   }"

definition ArgvArray_unpack :: "stringio \<Rightarrow> slot \<Rightarrow> (stringio \<times> slot \<times> int) option" where
  "ArgvArray_unpack input old = do {
     (input, xs) \<leftarrow> StringIO_read input 2;
     if int (length xs) < 2 then Some (input, old, -1)
     else do {
       let i16 = be_val xs;
       (input, strs) \<leftarrow> ArgvArray_read (nat i16) input [];
       Some (input, SArgv i16 strs, 2 + SIZEOF_PTR)
     }
   }"

section \<open>Hardware addresses\<close>

fun Eth2_MAC_pack :: "slot \<Rightarrow> stringio \<Rightarrow> (stringio \<times> int) option" where
  "Eth2_MAC_pack (SEth m) output = do {
     xs \<leftarrow> mem_read m 0 6;
     StringIO_write output xs
   }"
| "Eth2_MAC_pack _ output = None"

definition Eth2_MAC_unpack :: "stringio \<Rightarrow> slot \<Rightarrow> (stringio \<times> slot \<times> int) option" where
  "Eth2_MAC_unpack input old = do {
     (input, xs) \<leftarrow> StringIO_read input 6;
     let m = read_into (case old of SEth m \<Rightarrow> m | _ \<Rightarrow> []) xs;
     Some (input, SEth m, if int (length xs) < 6 then -1 else 6)
   }"

section \<open>The registry of formats\<close>

datatype codec =
    CChar | CShort | CShortLE | CInt | CIntLE | CNullString | CSizeString | CSizeString32
  | CSizeString32LE | CArgvArray | CEthMac

fun run_pack :: "codec \<Rightarrow> slot \<Rightarrow> stringio \<Rightarrow> (stringio \<times> int) option" where
  "run_pack CChar = Char_pack"
| "run_pack CShort = Short_pack"
| "run_pack CShortLE = LEShort_pack"
| "run_pack CInt = Int_pack"
| "run_pack CIntLE = LEInt_pack"
| "run_pack CNullString = NullString_pack"
| "run_pack CSizeString = SizeString_pack"
| "run_pack CSizeString32 = SizeString32_pack"
| "run_pack CSizeString32LE = SizeString32LE_pack"
| "run_pack CArgvArray = ArgvArray_pack"
| "run_pack CEthMac = Eth2_MAC_pack"

fun run_unpack :: "codec \<Rightarrow> stringio \<Rightarrow> slot \<Rightarrow> (stringio \<times> slot \<times> int) option" where
  "run_unpack CChar = Char_unpack"
| "run_unpack CShort = Short_unpack"
| "run_unpack CShortLE = LEShort_unpack"
| "run_unpack CInt = Int_unpack"
| "run_unpack CIntLE = LEInt_unpack"
| "run_unpack CNullString = NullString_unpack"
| "run_unpack CSizeString = SizeString_unpack"
| "run_unpack CSizeString32 = SizeString32_unpack"
| "run_unpack CSizeString32LE = SizeString32LE_unpack"
| "run_unpack CArgvArray = ArgvArray_unpack"
| "run_unpack CEthMac = Eth2_MAC_unpack"

definition STRUCT_CHAR :: nat where "STRUCT_CHAR = 3"
definition STRUCT_SHORT :: nat where "STRUCT_SHORT = 4"
definition STRUCT_INT :: nat where "STRUCT_INT = 5"
definition STRUCT_STRING_NULL_TERM :: nat where "STRUCT_STRING_NULL_TERM = 6"
definition STRUCT_STRING_AND_LENGTH :: nat where "STRUCT_STRING_AND_LENGTH = 7"
definition STRUCT_ARGV_ARRAY :: nat where "STRUCT_ARGV_ARRAY = 9"
definition STRUCT_ETH_ADDR :: nat where "STRUCT_ETH_ADDR = 10"
definition STRUCT_STRING_AND_LENGTH32 :: nat where "STRUCT_STRING_AND_LENGTH32 = 16"
definition STRUCT_STRING_AND_LENGTHLE32 :: nat where "STRUCT_STRING_AND_LENGTHLE32 = 17"
definition STRUCT_SHORT_LE :: nat where "STRUCT_SHORT_LE = 20"
definition STRUCT_INT_LE :: nat where "STRUCT_INT_LE = 21"
definition MAX_FORMATS :: nat where "MAX_FORMATS = 32"

lemmas struct_formats =
  STRUCT_CHAR_def STRUCT_SHORT_def STRUCT_INT_def STRUCT_STRING_NULL_TERM_def
  STRUCT_STRING_AND_LENGTH_def STRUCT_ARGV_ARRAY_def STRUCT_ETH_ADDR_def
  STRUCT_STRING_AND_LENGTH32_def STRUCT_STRING_AND_LENGTHLE32_def STRUCT_SHORT_LE_def
  STRUCT_INT_LE_def MAX_FORMATS_def

text \<open>An entry of the three tables: the size of the field in the struct and its codec;
  \<open>None\<close> is the zero of the cleared tables. A format is an unsigned character.\<close>

record registry =
  structs_initialised :: bool
  struct_table :: "(int \<times> codec) option list"

definition blank_registry :: registry where
  "blank_registry = \<lparr>structs_initialised = False, struct_table = replicate MAX_FORMATS None\<rparr>"

datatype register_error = Register_Exit | Register_Overrun

text \<open>The test lets the format \<open>MAX_FORMATS\<close> pass, which is one behind the tables.\<close>

definition Struct_Register :: "nat \<Rightarrow> int \<Rightarrow> codec \<Rightarrow> registry \<Rightarrow> register_error + registry" where
  "Struct_Register format sz c reg =
     (if format > MAX_FORMATS then Inl Register_Exit
      else if format \<ge> length (struct_table reg) then Inl Register_Overrun
      else Inr (reg\<lparr>struct_table := (struct_table reg)[format := Some (sz, c)]\<rparr>))"

fun Struct_Register_all :: "(nat \<times> int \<times> codec) list \<Rightarrow> registry \<Rightarrow> register_error + registry" where
  "Struct_Register_all [] reg = Inr reg"
| "Struct_Register_all ((f, n, c) # rs) reg =
     (case Struct_Register f n c reg of Inl e \<Rightarrow> Inl e | Inr reg' \<Rightarrow> Struct_Register_all rs reg')"

definition standard_formats :: "(nat \<times> int \<times> codec) list" where
  "standard_formats =
    [(STRUCT_CHAR, 1, CChar), (STRUCT_SHORT, 2, CShort), (STRUCT_SHORT_LE, 2, CShortLE),
     (STRUCT_INT, 4, CInt), (STRUCT_INT_LE, 4, CIntLE),
     (STRUCT_STRING_NULL_TERM, SIZEOF_PTR, CNullString),
     (STRUCT_STRING_AND_LENGTH, 2 + SIZEOF_PTR, CSizeString),
     (STRUCT_STRING_AND_LENGTH32, 4 + SIZEOF_PTR, CSizeString32),
     (STRUCT_STRING_AND_LENGTHLE32, 4 + SIZEOF_PTR, CSizeString32LE),
     (STRUCT_ARGV_ARRAY, 2 + SIZEOF_PTR, CArgvArray)]"

definition struct_init :: "registry \<Rightarrow> register_error + registry" where
  "struct_init reg =
     (if structs_initialised reg then Inr reg
      else Struct_Register_all standard_formats
             \<lparr>structs_initialised = True, struct_table = replicate MAX_FORMATS None\<rparr>)"

definition network_structs_init :: "registry \<Rightarrow> register_error + registry" where
  "network_structs_init reg =
     (case struct_init reg of Inl e \<Rightarrow> Inl e
      | Inr reg' \<Rightarrow> Struct_Register STRUCT_ETH_ADDR 6 CEthMac reg')"

section \<open>Packing and unpacking by a format\<close>

text \<open>A look into the tables; a format behind their end reads outside of them.\<close>

definition struct_entry :: "registry \<Rightarrow> nat \<Rightarrow> (int \<times> codec) option option" where
  "struct_entry reg f =
     (if f < length (struct_table reg) then Some (struct_table reg ! f) else None)"

fun calcsize :: "registry \<Rightarrow> nat list \<Rightarrow> int option" where
  "calcsize reg [] = Some 0"
| "calcsize reg (x # xs) = do {
     e \<leftarrow> struct_entry reg x;
     total \<leftarrow> calcsize reg xs;
     Some ((case e of None \<Rightarrow> 0 | Some (n, _) \<Rightarrow> n) + total)
   }"

fun pack_loop :: "registry \<Rightarrow> nat list \<Rightarrow> slot list \<Rightarrow> stringio \<Rightarrow> int \<Rightarrow> (stringio \<times> int) option" where
  "pack_loop reg [] input output offset = Some (output, offset)"
| "pack_loop reg (x # xs) input output offset =
     (case struct_entry reg x of
        None \<Rightarrow> None
      | Some None \<Rightarrow> pack_loop reg xs input output offset
      | Some (Some (_, c)) \<Rightarrow>
          (case input of
             [] \<Rightarrow> None
           | v # vs \<Rightarrow>
               (case run_pack c v output of
                  None \<Rightarrow> None
                | Some (output', r) \<Rightarrow> pack_loop reg xs vs output' (offset + r))))"

definition pack :: "registry \<Rightarrow> nat list \<Rightarrow> slot list \<Rightarrow> stringio \<Rightarrow>
    (registry \<times> stringio \<times> int) option" where
  "pack reg format input output =
     (case struct_init reg of
        Inl _ \<Rightarrow> None
      | Inr reg' \<Rightarrow> map_option (\<lambda>(output', n). (reg', output', n)) (pack_loop reg' format input output 0))"

text \<open>The fields before the failing one are written, the ones behind it stay as they were.\<close>

fun unpack_loop :: "registry \<Rightarrow> nat list \<Rightarrow> stringio \<Rightarrow> slot list \<Rightarrow> int \<Rightarrow>
    (stringio \<times> slot list \<times> int) option" where
  "unpack_loop reg [] input output offset = Some (input, output, offset)"
| "unpack_loop reg (x # xs) input output offset =
     (case struct_entry reg x of
        None \<Rightarrow> None
      | Some None \<Rightarrow> unpack_loop reg xs input output offset
      | Some (Some (_, c)) \<Rightarrow>
          (case output of
             [] \<Rightarrow> None
           | old # olds \<Rightarrow>
               (case run_unpack c input old of
                  None \<Rightarrow> None
                | Some (input', v, r) \<Rightarrow>
                    if r < 0 then Some (input', v # olds, -1)
                    else map_option (\<lambda>(i, vs, n). (i, v # vs, n))
                           (unpack_loop reg xs input' olds (offset + r)))))"

definition unpack :: "registry \<Rightarrow> nat list \<Rightarrow> stringio \<Rightarrow> slot list \<Rightarrow>
    (registry \<times> stringio \<times> slot list \<times> int) option" where
  "unpack reg format input output =
     (case struct_init reg of
        Inl _ \<Rightarrow> None
      | Inr reg' \<Rightarrow> map_option (\<lambda>(i, vs, n). (reg', i, vs, n)) (unpack_loop reg' format input output 0))"

section \<open>The codecs keep their contract\<close>

text \<open>
  The value that a field has for the code that uses it: a C string up to its terminator, the part of
  a counted string that the count covers. \<open>codec_wf\<close> says which fields a codec can write,
  \<open>codec_enc\<close> which bytes it writes and \<open>codec_size\<close> how long the field is.
\<close>

definition c_string :: "byte list \<Rightarrow> byte list" where
  "c_string m = takeWhile (\<lambda>b. b \<noteq> 0) m"

fun slot_view :: "slot \<Rightarrow> slot" where
  "slot_view (SStr m) = SStr (c_string m)"
| "slot_view (SSized n m) = SSized n (take (nat n) m)"
| "slot_view (SArgv n strs) = SArgv n (map c_string (take (nat n) strs))"
| "slot_view (SEth m) = SEth (take 6 m)"
| "slot_view v = v"

fun codec_wf :: "codec \<Rightarrow> slot \<Rightarrow> bool" where
  "codec_wf CChar v = (case v of SChar c \<Rightarrow> True | _ \<Rightarrow> False)"
| "codec_wf CShort v = (case v of SShort v \<Rightarrow> (0 \<le> v \<and> v < 65536) | _ \<Rightarrow> False)"
| "codec_wf CShortLE v = (case v of SShort v \<Rightarrow> (0 \<le> v \<and> v < 65536) | _ \<Rightarrow> False)"
| "codec_wf CInt v = (case v of SInt v \<Rightarrow> (0 \<le> v \<and> v < 4294967296) | _ \<Rightarrow> False)"
| "codec_wf CIntLE v = (case v of SInt v \<Rightarrow> (0 \<le> v \<and> v < 4294967296) | _ \<Rightarrow> False)"
| "codec_wf CNullString v = (case v of SStr m \<Rightarrow> (0 \<in> set m \<and> length (c_string m) < 134217728) | _ \<Rightarrow> False)"
| "codec_wf CSizeString v = (case v of SSized n m \<Rightarrow> (0 \<le> n \<and> n < 65536 \<and> n \<le> int (length m)) | _ \<Rightarrow> False)"
| "codec_wf CSizeString32 v = (case v of SSized n m \<Rightarrow> (0 \<le> n \<and> n < MAX_TALLOC_SIZE \<and> n \<le> int (length m)) | _ \<Rightarrow> False)"
| "codec_wf CSizeString32LE v = (case v of SSized n m \<Rightarrow> (0 \<le> n \<and> n < MAX_TALLOC_SIZE \<and> n \<le> int (length m)) | _ \<Rightarrow> False)"
| "codec_wf CArgvArray v = (case v of SArgv n strs \<Rightarrow> (0 \<le> n \<and> n < 65536 \<and> n \<le> int (length strs) \<and> list_all (\<lambda>m. 0 \<in> set m) strs) | _ \<Rightarrow> False)"
| "codec_wf CEthMac v = (case v of SEth m \<Rightarrow> (6 \<le> length m) | _ \<Rightarrow> False)"

fun codec_enc :: "codec \<Rightarrow> slot \<Rightarrow> byte list" where
  "codec_enc CChar v = (case v of SChar c \<Rightarrow> [c] | _ \<Rightarrow> [])"
| "codec_enc CShort v = (case v of SShort v \<Rightarrow> be_bytes 2 v | _ \<Rightarrow> [])"
| "codec_enc CShortLE v = (case v of SShort v \<Rightarrow> le_bytes 2 v | _ \<Rightarrow> [])"
| "codec_enc CInt v = (case v of SInt v \<Rightarrow> be_bytes 4 v | _ \<Rightarrow> [])"
| "codec_enc CIntLE v = (case v of SInt v \<Rightarrow> le_bytes 4 v | _ \<Rightarrow> [])"
| "codec_enc CNullString v = (case v of SStr m \<Rightarrow> c_string m @ [0] | _ \<Rightarrow> [])"
| "codec_enc CSizeString v = (case v of SSized n m \<Rightarrow> be_bytes 2 n @ take (nat n) m | _ \<Rightarrow> [])"
| "codec_enc CSizeString32 v = (case v of SSized n m \<Rightarrow> be_bytes 4 n @ take (nat n) m | _ \<Rightarrow> [])"
| "codec_enc CSizeString32LE v = (case v of SSized n m \<Rightarrow> le_bytes 4 n @ take (nat n) m | _ \<Rightarrow> [])"
| "codec_enc CArgvArray v = (case v of SArgv n strs \<Rightarrow> be_bytes 2 n @ concat (map (\<lambda>m. c_string m @ [0]) (take (nat n) strs)) | _ \<Rightarrow> [])"
| "codec_enc CEthMac v = (case v of SEth m \<Rightarrow> take 6 m | _ \<Rightarrow> [])"

fun codec_size :: "codec \<Rightarrow> int" where
  "codec_size CChar = 1"
| "codec_size CShort = 2"
| "codec_size CShortLE = 2"
| "codec_size CInt = 4"
| "codec_size CIntLE = 4"
| "codec_size CNullString = SIZEOF_PTR"
| "codec_size CSizeString = 2 + SIZEOF_PTR"
| "codec_size CSizeString32 = 4 + SIZEOF_PTR"
| "codec_size CSizeString32LE = 4 + SIZEOF_PTR"
| "codec_size CArgvArray = 2 + SIZEOF_PTR"
| "codec_size CEthMac = 6"

locale codec_contract =
  fixes pk :: "slot \<Rightarrow> stringio \<Rightarrow> (stringio \<times> int) option"
    and upk :: "stringio \<Rightarrow> slot \<Rightarrow> (stringio \<times> slot \<times> int) option"
    and wf :: "slot \<Rightarrow> bool"
    and enc :: "slot \<Rightarrow> byte list"
    and sz :: int
  assumes pk_law: "wf v \<Longrightarrow> sio_at_end out \<Longrightarrow> length (enc v) \<le> sio_room out \<Longrightarrow>
      \<exists>out'. pk v out = Some (out', sz) \<and> sio_at_end out' \<and>
        sio_contents out' = sio_contents out @ enc v \<and> sio_room out \<le> sio_room out' + length (enc v)"
    and upk_law: "wf v \<Longrightarrow> sio_inv inp \<Longrightarrow> sio_rest inp = enc v @ ys \<Longrightarrow>
      \<exists>inp' w. upk inp old = Some (inp', w, sz) \<and> slot_view w = slot_view v \<and>
        sio_inv inp' \<and> sio_rest inp' = ys"
    and sz_pos: "0 \<le> sz"
begin

lemma write_then_read:
  assumes "wf v" and "sio_at_end out" and "length (enc v) \<le> sio_room out"
    and "sio_inv inp" and "sio_rest inp = enc v"
  shows "\<exists>out' inp' w. pk v out = Some (out', sz) \<and> sio_contents out' = sio_contents out @ enc v \<and>
    upk inp old = Some (inp', w, sz) \<and> slot_view w = slot_view v \<and> sio_rest inp' = []"
  using pk_law[OF assms(1-3)] upk_law[OF assms(1,4), of "[]" old] assms(5) by auto

end

lemma write_stepE:
  assumes "sio_at_end out" and "length xs \<le> sio_room out"
  obtains out' where "StringIO_write out xs = Some (out', int (length xs))" "sio_at_end out'"
    "sio_contents out' = sio_contents out @ xs" "sio_room out \<le> sio_room out' + length xs"
  using StringIO_write_append[OF assms] by blast

lemma read_stepE:
  assumes "sio_inv inp" and "sio_rest inp = xs @ ys" and "n = int (length xs)"
  obtains inp' where "StringIO_read inp n = Some (inp', xs)" "sio_inv inp'" "sio_rest inp' = ys"
proof -
  have "length xs \<le> length (sio_rest inp)" using assms(2) by simp
  then have "length xs < 2147483648"
    using length_sio_rest[OF assms(1)] sio_invD[OF assms(1)] by linarith
  then show ?thesis using that sio_source.get_prefix[OF assms(1,2)] assms(3) by blast
qed

lemma c_strlen_c_string: "0 \<in> set m \<Longrightarrow> c_strlen m = Some (length (c_string m))"
  by (simp add: c_strlen_def c_string_def)

lemma take_c_string: "0 \<in> set m \<Longrightarrow> take (Suc (length (c_string m))) m = c_string m @ [0]"
proof (induction m)
  case Nil
  then show ?case by simp
next
  case (Cons b m)
  then show ?case by (cases "b = 0") (simp_all add: c_string_def)
qed

lemma length_c_string: "0 \<in> set m \<Longrightarrow> Suc (length (c_string m)) \<le> length m"
  using take_c_string[of m] by (metis length_append_singleton length_take min.cobounded1)

lemma c_string_NUL: "0 \<notin> set (c_string m)"
  by (auto simp: c_string_def dest: set_takeWhileD)

lemma c_string_append_NUL: "0 \<notin> set xs \<Longrightarrow> c_string (xs @ 0 # ys) = xs"
  by (simp add: c_string_def takeWhile_append)

lemma mem_read_c_string:
  "0 \<in> set m \<Longrightarrow> mem_read m 0 (int (length (c_string m)) + 1) = Some (c_string m @ [0])"
proof -
  assume a: "0 \<in> set m"
  have e: "int (length (c_string m)) + 1 = int (Suc (length (c_string m)))" by simp
  show ?thesis unfolding e
    using mem_read_Some[of 0 "int (Suc (length (c_string m)))" m] length_c_string[OF a] take_c_string[OF a]
    by (simp del: of_nat_Suc)
qed

lemma be_val_2: "0 \<le> v \<Longrightarrow> v < 65536 \<Longrightarrow> be_val (be_bytes 2 v) = v"
  and le_val_2: "0 \<le> v \<Longrightarrow> v < 65536 \<Longrightarrow> le_val (le_bytes 2 v) = v"
  and be_val_4: "0 \<le> v \<Longrightarrow> v < 4294967296 \<Longrightarrow> be_val (be_bytes 4 v) = v"
  and le_val_4: "0 \<le> v \<Longrightarrow> v < 4294967296 \<Longrightarrow> le_val (le_bytes 4 v) = v"
  by (rule be_val_be_bytes le_val_le_bytes; simp)+

lemmas wire_vals = be_val_2 le_val_2 be_val_4 le_val_4

subsection \<open>Packers\<close>

lemma counted_pack:
  assumes "0 \<le> n" "n \<le> int (length m)" "sio_at_end out" "length (hdr @ take (nat n) m) \<le> sio_room out"
  obtains out1 out2 where "StringIO_write out hdr = Some (out1, int (length hdr))"
    "mem_read m 0 n = Some (take (nat n) m)"
    "StringIO_write out1 (take (nat n) m) = Some (out2, int (length (take (nat n) m)))"
    "sio_at_end out2" "sio_contents out2 = sio_contents out @ hdr @ take (nat n) m"
    "sio_room out \<le> sio_room out2 + length (hdr @ take (nat n) m)"
proof -
  have "length hdr \<le> sio_room out" using assms(4) by simp
  with assms(3) obtain out1 where 1: "StringIO_write out hdr = Some (out1, int (length hdr))"
    "sio_at_end out1" "sio_contents out1 = sio_contents out @ hdr" "sio_room out \<le> sio_room out1 + length hdr"
    by (rule write_stepE)
  have "length (take (nat n) m) \<le> sio_room out1" using assms(4) 1(4) by simp
  with 1(2) obtain out2 where 2: "StringIO_write out1 (take (nat n) m) = Some (out2, int (length (take (nat n) m)))"
    "sio_at_end out2" "sio_contents out2 = sio_contents out1 @ take (nat n) m"
    "sio_room out1 \<le> sio_room out2 + length (take (nat n) m)" by (rule write_stepE)
  show ?thesis
  proof (rule that[OF 1(1) _ 2(1,2)])
    show "mem_read m 0 n = Some (take (nat n) m)" using assms by (simp add: mem_read_Some)
  qed (use 1 2 in auto)
qed

lemma ArgvArray_write_spec:
  assumes "n \<le> length strs" "list_all (\<lambda>m. 0 \<in> set m) strs" "sio_at_end out"
    "length (concat (map (\<lambda>m. c_string m @ [0]) (take n strs))) \<le> sio_room out"
  shows "\<exists>out'. ArgvArray_write n strs out = Some out' \<and> sio_at_end out' \<and>
    sio_contents out' = sio_contents out @ concat (map (\<lambda>m. c_string m @ [0]) (take n strs)) \<and>
    sio_room out \<le> sio_room out' + length (concat (map (\<lambda>m. c_string m @ [0]) (take n strs)))"
  using assms
proof (induction n strs out rule: ArgvArray_write.induct)
  case (3 n str strs out)
  have z: "0 \<in> set str" using "3.prems"(2) by simp
  have "length (c_string str @ [0]) \<le> sio_room out" using "3.prems"(4) by simp
  with "3.prems"(3) obtain out1 where 1: "StringIO_write out (c_string str @ [0]) =
      Some (out1, int (length (c_string str @ [0])))" "sio_at_end out1"
    "sio_contents out1 = sio_contents out @ c_string str @ [0]"
    "sio_room out \<le> sio_room out1 + length (c_string str @ [0])" by (rule write_stepE)
  have "length (concat (map (\<lambda>m. c_string m @ [0]) (take n strs))) \<le> sio_room out1"
    using "3.prems"(4) 1(4) by simp
  from "3.IH"[OF c_strlen_c_string[OF z] mem_read_c_string[OF z] 1(1) refl _ _ 1(2) this] "3.prems"(1,2)
  show ?case using 1 z by (auto simp: c_strlen_c_string mem_read_c_string)
qed auto

lemma codec_wfE:
  assumes "codec_wf c v"
  obtains (Num) "c \<in> {CChar, CShort, CShortLE, CInt, CIntLE}"
  | (NullString) m where "c = CNullString" "v = SStr m" "0 \<in> set m" "length (c_string m) < 134217728"
  | (Sized) n m where "c = CSizeString" "v = SSized n m" "0 \<le> n" "n < 65536" "n \<le> int (length m)"
  | (Sized32) n m where "c = CSizeString32" "v = SSized n m" "0 \<le> n" "n < MAX_TALLOC_SIZE" "n \<le> int (length m)"
  | (Sized32LE) n m where "c = CSizeString32LE" "v = SSized n m" "0 \<le> n" "n < MAX_TALLOC_SIZE" "n \<le> int (length m)"
  | (Argv) n strs where "c = CArgvArray" "v = SArgv n strs" "0 \<le> n" "n < 65536" "n \<le> int (length strs)"
      "list_all (\<lambda>m. 0 \<in> set m) strs"
  | (Eth) m where "c = CEthMac" "v = SEth m" "6 \<le> length m"
  using assms by (cases c; cases v; simp)

lemma NullString_pack_law:
  assumes "0 \<in> set m" and "sio_at_end out" and "length (c_string m @ [0]) \<le> sio_room out"
  shows "\<exists>out'. NullString_pack (SStr m) out = Some (out', SIZEOF_PTR) \<and> sio_at_end out' \<and>
    sio_contents out' = sio_contents out @ c_string m @ [0] \<and>
    sio_room out \<le> sio_room out' + length (c_string m @ [0])"
  by (rule write_stepE[OF assms(2,3)]) (use assms(1) in \<open>auto simp: c_strlen_c_string mem_read_c_string\<close>)

lemma ArgvArray_pack_law:
  assumes "0 \<le> n" "n \<le> int (length strs)" "list_all (\<lambda>m. 0 \<in> set m) strs" "sio_at_end out"
    "length (codec_enc CArgvArray (SArgv n strs)) \<le> sio_room out"
  shows "\<exists>out'. ArgvArray_pack (SArgv n strs) out = Some (out', 2 + SIZEOF_PTR) \<and> sio_at_end out' \<and>
    sio_contents out' = sio_contents out @ codec_enc CArgvArray (SArgv n strs) \<and>
    sio_room out \<le> sio_room out' + length (codec_enc CArgvArray (SArgv n strs))"
proof -
  have "length (be_bytes 2 n) \<le> sio_room out" using assms(5) by simp
  with assms(4) obtain out1 where 1: "StringIO_write out (be_bytes 2 n) = Some (out1, int (length (be_bytes 2 n)))"
    "sio_at_end out1" "sio_contents out1 = sio_contents out @ be_bytes 2 n"
    "sio_room out \<le> sio_room out1 + length (be_bytes 2 n)" by (rule write_stepE)
  have "length (concat (map (\<lambda>m. c_string m @ [0]) (take (nat n) strs))) \<le> sio_room out1"
    using assms(5) 1(4) by simp
  moreover have "nat n \<le> length strs" using assms(2) by simp
  ultimately obtain out2 where "ArgvArray_write (nat n) strs out1 = Some out2" "sio_at_end out2"
    "sio_contents out2 = sio_contents out1 @ concat (map (\<lambda>m. c_string m @ [0]) (take (nat n) strs))"
    "sio_room out1 \<le> sio_room out2 + length (concat (map (\<lambda>m. c_string m @ [0]) (take (nat n) strs)))"
    using ArgvArray_write_spec[OF _ assms(3) 1(2)] by blast
  then show ?thesis using 1 by auto
qed

lemma run_pack_law:
  assumes wf: "codec_wf c v" and out: "sio_at_end out" and room: "length (codec_enc c v) \<le> sio_room out"
  shows "\<exists>out'. run_pack c v out = Some (out', codec_size c) \<and> sio_at_end out' \<and>
    sio_contents out' = sio_contents out @ codec_enc c v \<and> sio_room out \<le> sio_room out' + length (codec_enc c v)"
proof -
  obtain out1 where w: "StringIO_write out (codec_enc c v) = Some (out1, int (length (codec_enc c v)))"
    "sio_at_end out1" "sio_contents out1 = sio_contents out @ codec_enc c v"
    "sio_room out \<le> sio_room out1 + length (codec_enc c v)" by (rule write_stepE[OF out room])
  from wf show ?thesis
  proof (cases rule: codec_wfE)
    case Num
    then show ?thesis using wf w by (cases v) auto
  next
    case (NullString m)
    then show ?thesis using NullString_pack_law[OF _ out, of m] room by simp
  next
    case (Sized n m)
    from Sized room have "length (be_bytes 2 n @ take (nat n) m) \<le> sio_room out" by simp
    then show ?thesis by (rule counted_pack[OF Sized(3,5) out]) (use Sized in simp)
  next
    case (Sized32 n m)
    from Sized32 room have "length (be_bytes 4 n @ take (nat n) m) \<le> sio_room out" by simp
    then show ?thesis
      by (rule counted_pack[OF Sized32(3,5) out]) (use Sized32 in \<open>simp add: s32_id MAX_TALLOC_SIZE_def\<close>)
  next
    case (Sized32LE n m)
    from Sized32LE room have "length (le_bytes 4 n @ take (nat n) m) \<le> sio_room out" by simp
    then show ?thesis
      by (rule counted_pack[OF Sized32LE(3,5) out]) (use Sized32LE in \<open>simp add: s32_id MAX_TALLOC_SIZE_def\<close>)
  next
    case (Argv n strs)
    then show ?thesis using ArgvArray_pack_law[OF _ _ _ out, of n strs] room by simp
  next
    case (Eth m)
    have "mem_read m 0 6 = Some (take 6 m)" using Eth(3) by (simp add: mem_read_def)
    with Eth w show ?thesis by (simp add: min_absorb2)
  qed
qed

subsection \<open>Unpackers\<close>

lemma sio_data_contents: "\<exists>zs. sio_data s = sio_contents s @ zs"
  by (metis append_take_drop_id fst_conv sio_abs_def sio_contents_def)

lemma NullString_loop_spec:
  assumes "0 \<notin> set xs" "0 \<notin> set (sio_contents temp)" "sio_inv inp" "sio_rest inp = xs @ 0 # ys"
    "sio_at_end temp" "Suc (length xs) \<le> sio_room temp"
  shows "\<exists>inp' m. NullString_loop inp temp old = Some (inp', SStr m, SIZEOF_PTR) \<and>
    c_string m = sio_contents temp @ xs \<and> 0 \<in> set m \<and> sio_inv inp' \<and> sio_rest inp' = ys"
  using assms
proof (induction xs arbitrary: inp temp)
  case Nil
  obtain inp' where r: "StringIO_read inp 1 = Some (inp', [0])" "sio_inv inp'" "sio_rest inp' = ys"
    by (rule read_stepE[of inp "[0]" ys 1]) (use Nil.prems in auto)
  obtain temp' where w: "StringIO_write temp [0] = Some (temp', int (length [0 :: byte]))"
    "sio_contents temp' = sio_contents temp @ [0]"
    by (rule write_stepE[of temp "[0]"]) (use Nil.prems in auto)
  obtain zs where "sio_data temp' = sio_contents temp @ 0 # zs"
    using sio_data_contents[of temp'] w(2) by auto
  then show ?case
    using Nil.prems(2) r w(1) by (simp add: NullString_loop.simps c_string_append_NUL)
next
  case (Cons x xs)
  obtain inp' where r: "StringIO_read inp 1 = Some (inp', [x])" "sio_inv inp'"
      "sio_rest inp' = xs @ 0 # ys"
    by (rule read_stepE[of inp "[x]" "xs @ 0 # ys" 1]) (use Cons.prems in auto)
  obtain temp' where w: "StringIO_write temp [x] = Some (temp', int (length [x]))" "sio_at_end temp'"
    "sio_contents temp' = sio_contents temp @ [x]" "sio_room temp \<le> sio_room temp' + length [x]"
    by (rule write_stepE[of temp "[x]"]) (use Cons.prems in auto)
  have "Suc (length xs) \<le> sio_room temp'" using w(4) Cons.prems(6) by simp
  moreover have "0 \<notin> set (sio_contents temp')" using Cons.prems w(3) by auto
  moreover have "0 \<notin> set xs" "x \<noteq> 0" using Cons.prems(1) by auto
  ultimately show ?case
    using Cons.IH[of temp' inp'] r w by (simp add: NullString_loop.simps[of inp])
qed

lemma NullString_unpack_law:
  assumes m: "0 \<in> set m" "length (c_string m) < 134217728"
    and inp: "sio_inv inp" "sio_rest inp = c_string m @ 0 # ys"
  shows "\<exists>inp' m'. NullString_unpack inp old = Some (inp', SStr m', SIZEOF_PTR) \<and>
    c_string m' = c_string m \<and> sio_inv inp' \<and> sio_rest inp' = ys"
proof -
  let ?t = "StringIO_constructor (sio_junk inp)"
  have t: "sio_at_end ?t" "sio_contents ?t = []" "Suc (length (c_string m)) \<le> sio_room ?t"
    using m(2) by (simp_all add: sio_at_end_def sio_contents_def sio_room_def MAX_TALLOC_SIZE_def)
  show ?thesis
    using NullString_loop_spec[OF c_string_NUL _ inp t(1,3), of old] t(2)
    by (fastforce simp: NullString_unpack_def)
qed

lemma seek_forward:
  assumes "sio_inv s" and "sio_rest s = xs @ ys"
  shows "\<exists>s'. StringIO_seek s (int (length xs)) SEEK_CUR = Some (s', sio_readptr s + int (length xs)) \<and>
    sio_inv s' \<and> sio_rest s' = ys"
proof -
  note b = sio_invD[OF assms(1)]
  have l: "sio_readptr s + int (length xs) \<le> sio_size s"
    using length_sio_rest[OF assms(1)] assms(2) by simp
  let ?p = "sio_readptr s + int (length xs)"
  have w: "u64 ?p = ?p" "u64 (sio_size s) = sio_size s"
    using b l by (simp_all add: cint_simps)
  have "drop (length xs) (sio_rest s) = ys" using assms(2) by simp
  then have "sio_rest (s\<lparr>sio_readptr := ?p\<rparr>) = ys"
    using b by (simp add: sio_rest_eq nat_add_distrib add.commute)
  then show ?thesis
    using w b l by (simp add: StringIO_seek_def SEEK_SET_def SEEK_CUR_def Let_def sio_inv_def MAX_TALLOC_SIZE_def)
qed

lemma ArgvArray_read_spec:
  assumes "list_all (\<lambda>m. 0 \<in> set m) strs" "sio_inv inp"
    "sio_rest inp = concat (map (\<lambda>m. c_string m @ [0]) strs) @ ys"
  shows "\<exists>inp' ws. ArgvArray_read (length strs) inp acc = Some (inp', acc @ ws) \<and>
    map c_string ws = map c_string strs \<and> sio_inv inp' \<and> sio_rest inp' = ys"
  using assms
proof (induction strs arbitrary: inp acc)
  case Nil
  then show ?case by simp
next
  case (Cons str strs)
  note b = sio_invD[OF Cons.prems(2)]
  let ?s = "c_string str" and ?r = "concat (map (\<lambda>m. c_string m @ [0]) strs) @ ys"
  define m where "m = drop (nat (sio_readptr inp)) (sio_data inp)"
  have rd: "mem_read (sio_data inp) (sio_readptr inp) (int (length (sio_data inp)) - sio_readptr inp) = Some m"
    using b by (simp add: mem_read_def m_def nat_diff_distrib)
  have rest: "sio_rest inp = (?s @ [0]) @ ?r" using Cons.prems(3) by simp
  have "\<exists>zs. m = sio_rest inp @ zs"
    by (metis append_take_drop_id drop_take m_def sio_rest_eq)
  then obtain zs where zs: "m = ?s @ 0 # zs" using rest by auto
  have l: "c_strlen m = Some (length ?s)" "take (Suc (length ?s)) m = ?s @ [0]"
    by (simp_all add: zs c_strlen_append_NUL c_string_NUL)
  obtain inp1 p where sk: "StringIO_seek inp (int (length ?s) + 1) SEEK_CUR = Some (inp1, p)"
    "sio_inv inp1" "sio_rest inp1 = ?r"
    using seek_forward[OF Cons.prems(2) rest] by (auto simp: add.commute)
  from Cons.IH[OF _ sk(2,3), of "acc @ [?s @ [0]]"] Cons.prems(1) obtain inp2 ws where
    IH: "ArgvArray_read (length strs) inp1 (acc @ [?s @ [0]]) = Some (inp2, (acc @ [?s @ [0]]) @ ws)"
      "map c_string ws = map c_string strs" "sio_inv inp2" "sio_rest inp2 = ys" by auto
  have "c_string (?s @ [0]) = ?s" by (simp add: c_string_append_NUL c_string_NUL)
  then show ?case
    using IH by (auto simp: StringIO_get_buffer_def rd l sk(1))
qed

lemma counted_read:
  assumes inp: "sio_inv inp" "sio_rest inp = hdr @ xs @ ys"
  obtains inp1 inp2 where "StringIO_read inp (int (length hdr)) = Some (inp1, hdr)"
    "StringIO_read inp1 (int (length xs)) = Some (inp2, xs)" "sio_inv inp2" "sio_rest inp2 = ys"
proof -
  obtain inp1 where 1: "StringIO_read inp (int (length hdr)) = Some (inp1, hdr)" "sio_inv inp1"
    "sio_rest inp1 = xs @ ys" by (rule read_stepE[OF inp refl])
  obtain inp2 where "StringIO_read inp1 (int (length xs)) = Some (inp2, xs)" "sio_inv inp2"
    "sio_rest inp2 = ys" by (rule read_stepE[OF 1(2,3) refl])
  then show ?thesis using that 1(1) by blast
qed

lemma take_read_into: "take (length xs) (read_into m xs) = xs"
  by (simp add: read_into_def)

lemma talloc_size_Some: "0 \<le> n \<Longrightarrow> n < MAX_TALLOC_SIZE \<Longrightarrow> talloc_size n = Some (replicate (nat n) 0)"
  by (simp add: talloc_size_def)

lemma run_unpack_law:
  assumes wf: "codec_wf c v" and inp: "sio_inv inp" "sio_rest inp = codec_enc c v @ ys"
  shows "\<exists>inp' w. run_unpack c inp old = Some (inp', w, codec_size c) \<and> slot_view w = slot_view v \<and>
    sio_inv inp' \<and> sio_rest inp' = ys"
proof -
  obtain inp1 where r: "StringIO_read inp (int (length (codec_enc c v))) = Some (inp1, codec_enc c v)"
    "sio_inv inp1" "sio_rest inp1 = ys" by (rule read_stepE[OF inp refl])
  from wf show ?thesis
  proof (cases rule: codec_wfE)
    case Num
    then show ?thesis using wf r
      by (cases v) (auto simp: Char_unpack_def Short_unpack_def LEShort_unpack_def Int_unpack_def
          LEInt_unpack_def wire_vals)
  next
    case (NullString m)
    then show ?thesis using NullString_unpack_law[of m inp ys old] inp by auto
  next
    case (Sized n m)
    define xs where "xs = take (nat n) m"
    have l: "int (length xs) = n" "nat n = length xs" "take (length xs) m = xs"
      using Sized by (auto simp: xs_def)
    have "sio_rest inp = be_bytes 2 n @ xs @ ys" using inp Sized by (simp add: xs_def)
    with inp(1) show ?thesis
      by (rule counted_read)
        (use Sized l in \<open>auto simp: SizeString_unpack_def wire_vals talloc_size_Some MAX_TALLOC_SIZE_def
          take_read_into\<close>)
  next
    case (Sized32 n m)
    define xs where "xs = take (nat n) m"
    have l: "int (length xs) = n" "nat n = length xs" "take (length xs) m = xs"
      using Sized32 by (auto simp: xs_def)
    have "sio_rest inp = be_bytes 4 n @ xs @ ys" using inp Sized32 by (simp add: xs_def)
    with inp(1) show ?thesis
      by (rule counted_read)
        (use Sized32 l in \<open>auto simp: SizeString32_unpack_def wire_vals talloc_size_Some MAX_TALLOC_SIZE_def
          take_read_into s32_id u32_id\<close>)
  next
    case (Sized32LE n m)
    define xs where "xs = take (nat n) m"
    have l: "int (length xs) = n" "nat n = length xs" "take (length xs) m = xs"
      using Sized32LE by (auto simp: xs_def)
    have "sio_rest inp = le_bytes 4 n @ xs @ ys" using inp Sized32LE by (simp add: xs_def)
    with inp(1) show ?thesis
      by (rule counted_read)
        (use Sized32LE l in \<open>auto simp: SizeString32LE_unpack_def wire_vals talloc_size_Some MAX_TALLOC_SIZE_def
          take_read_into s32_id u32_id\<close>)
  next
    case (Argv n strs)
    define ss where "ss = take (nat n) strs"
    have l: "length ss = nat n" "list_all (\<lambda>m. 0 \<in> set m) ss"
      using Argv by (auto simp: ss_def list_all_iff dest: in_set_takeD)
    have "sio_rest inp = be_bytes 2 n @ concat (map (\<lambda>m. c_string m @ [0]) ss) @ ys"
      using inp Argv by (simp add: ss_def)
    then obtain inp2 where h: "StringIO_read inp 2 = Some (inp2, be_bytes 2 n)" "sio_inv inp2"
      "sio_rest inp2 = concat (map (\<lambda>m. c_string m @ [0]) ss) @ ys"
      using read_stepE[OF inp(1), of "be_bytes 2 n" _ 2] by auto
    obtain inp3 ws where a: "ArgvArray_read (nat n) inp2 [] = Some (inp3, ws)"
      "map c_string ws = map c_string ss" "sio_inv inp3" "sio_rest inp3 = ys"
      using ArgvArray_read_spec[OF l(2) h(2,3), of "[]"] l(1) by auto
    have "length ws = nat n" using a(2) l(1) by (metis length_map)
    then have "map c_string (take (nat n) ws) = map c_string (take (nat n) strs)"
      using a(2) by (simp add: ss_def)
    then show ?thesis using Argv h a by (simp add: ArgvArray_unpack_def wire_vals)
  next
    case (Eth m)
    then have "StringIO_read inp 6 = Some (inp1, take 6 m)" "length (take 6 m) = 6" using r by simp_all
    then show ?thesis using Eth r(2,3) take_read_into[of "take 6 m"] by (simp add: Eth2_MAC_unpack_def)
  qed
qed

lemma codec_size_nonneg: "0 \<le> codec_size c"
  by (cases c) (simp_all add: SIZEOF_PTR_def)

interpretation cdc: codec_contract "run_pack c" "run_unpack c" "codec_wf c" "codec_enc c" "codec_size c"
  for c
  by unfold_locales (use run_pack_law run_unpack_law codec_size_nonneg in blast)+

section \<open>Whole formats\<close>

text \<open>The codecs of the characters of a format that are registered, in order.\<close>

fun format_codecs :: "registry \<Rightarrow> nat list \<Rightarrow> codec list option" where
  "format_codecs reg [] = Some []"
| "format_codecs reg (x # xs) = do {
     e \<leftarrow> struct_entry reg x;
     cs \<leftarrow> format_codecs reg xs;
     Some (case e of None \<Rightarrow> cs | Some (_, c) \<Rightarrow> c # cs)
   }"

definition format_enc :: "codec list \<Rightarrow> slot list \<Rightarrow> byte list" where
  "format_enc cs vs = concat (map2 codec_enc cs vs)"

definition format_size :: "codec list \<Rightarrow> int" where
  "format_size cs = sum_list (map codec_size cs)"

lemma format_enc_simps [simp]:
  "format_enc [] vs = []" "format_enc (c # cs) (v # vs) = codec_enc c v @ format_enc cs vs"
  by (simp_all add: format_enc_def)

lemma format_size_simps [simp]:
  "format_size [] = 0" "format_size (c # cs) = codec_size c + format_size cs"
  by (simp_all add: format_size_def)

lemma format_codecs_ConsE:
  assumes "format_codecs reg (x # xs) = Some cs"
  obtains (skip) "struct_entry reg x = Some None" "format_codecs reg xs = Some cs"
  | (codec) n c cs' where "struct_entry reg x = Some (Some (n, c))" "format_codecs reg xs = Some cs'"
      "cs = c # cs'"
  using assms by (auto split: bind_splits option.splits)

lemma pack_loop_spec:
  assumes "format_codecs reg fmt = Some cs" "list_all2 codec_wf cs vs" "sio_at_end out"
    "length (format_enc cs vs) \<le> sio_room out"
  shows "\<exists>out'. pack_loop reg fmt vs out off = Some (out', off + format_size cs) \<and> sio_at_end out' \<and>
    sio_contents out' = sio_contents out @ format_enc cs vs \<and>
    sio_room out \<le> sio_room out' + length (format_enc cs vs)"
  using assms
proof (induction fmt arbitrary: cs vs out off)
  case Nil
  then show ?case by simp
next
  case (Cons x xs)
  from Cons.prems(1) show ?case
  proof (cases rule: format_codecs_ConsE)
    case skip
    then show ?thesis using Cons.IH[OF skip(2) Cons.prems(2-4), of off] by simp
  next
    case (codec n c cs')
    then obtain v vs' where vs: "vs = v # vs'" "codec_wf c v" "list_all2 codec_wf cs' vs'"
      using Cons.prems(2) by (auto simp: list_all2_Cons1)
    have "length (codec_enc c v) \<le> sio_room out" using Cons.prems(4) codec vs by simp
    from cdc.pk_law[OF vs(2) Cons.prems(3) this] obtain out1 where
      1: "run_pack c v out = Some (out1, codec_size c)" "sio_at_end out1"
        "sio_contents out1 = sio_contents out @ codec_enc c v"
        "sio_room out \<le> sio_room out1 + length (codec_enc c v)" by blast
    have "length (format_enc cs' vs') \<le> sio_room out1" using Cons.prems(4) codec vs 1(4) by simp
    from Cons.IH[OF codec(2) vs(3) 1(2) this, of "off + codec_size c"] show ?thesis
      using codec vs 1 by (auto simp: add.assoc)
  qed
qed

lemma unpack_loop_spec:
  assumes "format_codecs reg fmt = Some cs" "list_all2 codec_wf cs vs" "sio_inv inp"
    "sio_rest inp = format_enc cs vs @ ys" "length olds = length vs"
  shows "\<exists>inp' ws. unpack_loop reg fmt inp olds off = Some (inp', ws, off + format_size cs) \<and>
    map slot_view ws = map slot_view vs \<and> sio_inv inp' \<and> sio_rest inp' = ys"
  using assms
proof (induction fmt arbitrary: cs vs inp olds off)
  case Nil
  then show ?case by simp
next
  case (Cons x xs)
  from Cons.prems(1) show ?case
  proof (cases rule: format_codecs_ConsE)
    case skip
    then show ?thesis using Cons.IH[OF skip(2) Cons.prems(2-5), of off] by simp
  next
    case (codec n c cs')
    then obtain v vs' where vs: "vs = v # vs'" "codec_wf c v" "list_all2 codec_wf cs' vs'"
      using Cons.prems(2) by (auto simp: list_all2_Cons1)
    then obtain old olds' where olds: "olds = old # olds'" "length olds' = length vs'"
      using Cons.prems(5) by (cases olds) auto
    have "sio_rest inp = codec_enc c v @ format_enc cs' vs' @ ys"
      using Cons.prems(4) codec vs by simp
    from cdc.upk_law[OF vs(2) Cons.prems(3) this, of old] obtain inp1 w where
      1: "run_unpack c inp old = Some (inp1, w, codec_size c)" "slot_view w = slot_view v" "sio_inv inp1"
        "sio_rest inp1 = format_enc cs' vs' @ ys" by blast
    from Cons.IH[OF codec(2) vs(3) 1(3,4) olds(2), of "off + codec_size c"] show ?thesis
      using codec vs olds 1 codec_size_nonneg[of c] by (auto simp: add.assoc)
  qed
qed

subsection \<open>Formats of fixed size\<close>

definition codec_fixed :: "codec \<Rightarrow> bool" where
  "codec_fixed c \<longleftrightarrow> c \<in> {CChar, CShort, CShortLE, CInt, CIntLE, CEthMac}"

lemma short_read:
  assumes "sio_inv inp" "0 \<le> n" "n < 2147483648"
  obtains inp' where "StringIO_read inp n = Some (inp', take (nat n) (sio_rest inp))" "sio_inv inp'"
    "sio_rest inp' = drop (nat n) (sio_rest inp)"
  using sio_source.get_law[OF assms] by blast

lemma be_val_bound: "length bs = n \<Longrightarrow> 0 \<le> be_val bs \<and> be_val bs < 256 ^ n"
  using be_val_range[of bs] by simp

lemma be_bytes_be_val: "be_bytes (length bs) (be_val bs) = bs"
  using le_bytes_le_val[of "rev bs"] by (simp add: be_bytes_def be_val_def)

lemma wire_bytes: "length bs = 2 \<Longrightarrow> be_bytes 2 (be_val bs) = bs" "length bs = 2 \<Longrightarrow> le_bytes 2 (le_val bs) = bs"
  "length bs = 4 \<Longrightarrow> be_bytes 4 (be_val bs) = bs" "length bs = 4 \<Longrightarrow> le_bytes 4 (le_val bs) = bs"
  using be_bytes_be_val[of bs] le_bytes_le_val[of bs] by simp_all

lemma fixed_unpack:
  assumes "codec_fixed c" and "sio_inv inp"
  shows "\<exists>inp' w r. run_unpack c inp old = Some (inp', w, r) \<and> sio_inv inp' \<and>
    sio_rest inp' = drop (nat (codec_size c)) (sio_rest inp) \<and>
    (if codec_size c \<le> int (length (sio_rest inp))
     then r = codec_size c \<and> codec_wf c w \<and> codec_enc c w = take (nat (codec_size c)) (sio_rest inp)
     else r = -1)"
proof -
  let ?n = "codec_size c" and ?xs = "take (nat (codec_size c)) (sio_rest inp)"
  have "?n \<in> {1, 2, 4, 6}" using assms(1) by (auto simp: codec_fixed_def)
  then have "0 \<le> ?n" "?n < 2147483648" by auto
  with assms(2) obtain inp' where r: "StringIO_read inp ?n = Some (inp', ?xs)" "sio_inv inp'"
    "sio_rest inp' = drop (nat ?n) (sio_rest inp)" by (rule short_read)
  show ?thesis
  proof (cases "?n \<le> int (length (sio_rest inp))")
    case True
    then have l: "int (length ?xs) = ?n" using \<open>0 \<le> ?n\<close> by simp
    define xs where "xs = ?xs"
    have e: "xs = [hd xs]" if "length xs = 1" using that by (cases xs) auto
    note b = be_val_range[of xs] le_val_nonneg[of xs] le_val_bound[of xs]
    from assms(1) r l True e b show ?thesis unfolding xs_def[symmetric]
      by (auto simp: codec_fixed_def Char_unpack_def Short_unpack_def LEShort_unpack_def Int_unpack_def
          LEInt_unpack_def Eth2_MAC_unpack_def wire_bytes read_into_def simp del: le_bytes.simps)
  next
    case False
    then have "int (length ?xs) < ?n" by simp
    with assms(1) r False show ?thesis
      by (auto simp: codec_fixed_def Char_unpack_def Short_unpack_def LEShort_unpack_def Int_unpack_def
          LEInt_unpack_def Eth2_MAC_unpack_def Suc_le_eq)
  qed
qed

text \<open>A format of fixed size takes exactly its bytes from the input, or fails.\<close>

lemma unpack_loop_fixed:
  assumes "format_codecs reg fmt = Some cs" "list_all codec_fixed cs" "sio_inv inp"
    "length olds = length cs"
  shows "\<exists>inp' ws r. unpack_loop reg fmt inp olds off = Some (inp', ws, r) \<and> sio_inv inp' \<and>
    length ws = length cs \<and>
    (if format_size cs \<le> int (length (sio_rest inp))
     then r = off + format_size cs \<and> list_all2 codec_wf cs ws \<and>
       sio_rest inp = format_enc cs ws @ sio_rest inp' \<and> int (length (format_enc cs ws)) = format_size cs
     else r = -1)"
  using assms
proof (induction fmt arbitrary: cs inp olds off)
  case Nil
  then show ?case by simp
next
  case (Cons x xs)
  from Cons.prems(1) show ?case
  proof (cases rule: format_codecs_ConsE)
    case skip
    then show ?thesis using Cons.IH[OF skip(2) Cons.prems(2-4), of off] by simp
  next
    case (codec n c cs')
    then obtain old olds' where olds: "olds = old # olds'" "length olds' = length cs'"
      using Cons.prems(4) by (cases olds) auto
    have fx: "codec_fixed c" "list_all codec_fixed cs'" using Cons.prems(2) codec by simp_all
    obtain inp1 w r where 1: "run_unpack c inp old = Some (inp1, w, r)" "sio_inv inp1"
      "sio_rest inp1 = drop (nat (codec_size c)) (sio_rest inp)"
      "if codec_size c \<le> int (length (sio_rest inp))
       then r = codec_size c \<and> codec_wf c w \<and> codec_enc c w = take (nat (codec_size c)) (sio_rest inp)
       else r = -1" using fixed_unpack[OF fx(1) Cons.prems(3), of old] by blast
    have z: "0 \<le> codec_size c" "0 \<le> format_size cs'"
      using codec_size_nonneg by (auto simp: format_size_def intro!: sum_list_nonneg)
    show ?thesis
    proof (cases "codec_size c \<le> int (length (sio_rest inp))")
      case True
      then have r: "r = codec_size c" "codec_wf c w" "codec_enc c w = take (nat (codec_size c)) (sio_rest inp)"
        using 1(4) by simp_all
      have e: "sio_rest inp = codec_enc c w @ sio_rest inp1" using r(3) 1(3) by simp
      have l: "int (length (codec_enc c w)) = codec_size c" using r(3) True z by simp
      then have "int (length (sio_rest inp)) = codec_size c + int (length (sio_rest inp1))" using e by simp
      then have s: "format_size cs \<le> int (length (sio_rest inp)) \<longleftrightarrow>
          format_size cs' \<le> int (length (sio_rest inp1))" using codec(3) by simp
      obtain inp2 ws r2 where 2: "unpack_loop reg xs inp1 olds' (off + codec_size c) = Some (inp2, ws, r2)"
        "sio_inv inp2" "length ws = length cs'"
        "if format_size cs' \<le> int (length (sio_rest inp1))
         then r2 = off + codec_size c + format_size cs' \<and> list_all2 codec_wf cs' ws \<and>
           sio_rest inp1 = format_enc cs' ws @ sio_rest inp2 \<and>
           int (length (format_enc cs' ws)) = format_size cs'
         else r2 = -1"
        using Cons.IH[OF codec(2) fx(2) 1(2) olds(2), of "off + codec_size c"] by blast
      have u: "unpack_loop reg (x # xs) inp olds off = Some (inp2, w # ws, r2)"
        using codec(1) olds(1) 1(1) 2(1) r(1) z(1) by simp
      show ?thesis
      proof (intro exI conjI)
        show "if format_size cs \<le> int (length (sio_rest inp))
         then r2 = off + format_size cs \<and> list_all2 codec_wf cs (w # ws) \<and>
           sio_rest inp = format_enc cs (w # ws) @ sio_rest inp2 \<and>
           int (length (format_enc cs (w # ws))) = format_size cs
         else r2 = -1"
          unfolding s using 2(4) r(2) e l codec(3) by (simp split: if_splits)
      qed (use u 2(2,3) codec(3) in simp_all)
    next
      case False
      then show ?thesis using 1 codec olds z by (auto split: if_splits)
    qed
  qed
qed

text \<open>A read moves only the position, and so does a format of fixed size.\<close>

definition sio_same :: "stringio \<Rightarrow> stringio \<Rightarrow> bool" where
  "sio_same s s' \<longleftrightarrow> sio_size s' = sio_size s \<and> sio_data s' = sio_data s \<and> sio_junk s' = sio_junk s"

lemma sio_same_refl [simp]: "sio_same s s"
  by (simp add: sio_same_def)

lemma sio_same_trans: "sio_same s t \<Longrightarrow> sio_same t u \<Longrightarrow> sio_same s u"
  by (simp add: sio_same_def)

lemma sio_same_contents: "sio_same s s' \<Longrightarrow> sio_contents s' = sio_contents s"
  by (simp add: sio_same_def sio_contents_def sio_abs_def)

lemma StringIO_read_same: "StringIO_read s n = Some (s', xs) \<Longrightarrow> sio_same s s'"
  by (auto simp: StringIO_read_def Let_def sio_same_def split: bind_splits)

lemma fixed_unpack_same:
  "codec_fixed c \<Longrightarrow> run_unpack c inp old = Some (inp', w, r) \<Longrightarrow> sio_same inp inp'"
  by (auto simp: codec_fixed_def Char_unpack_def Short_unpack_def LEShort_unpack_def Int_unpack_def
      LEInt_unpack_def Eth2_MAC_unpack_def Let_def split: bind_splits if_splits)
    (erule StringIO_read_same)+

lemma unpack_loop_same:
  "format_codecs reg fmt = Some cs \<Longrightarrow> list_all codec_fixed cs \<Longrightarrow>
   unpack_loop reg fmt inp olds off = Some (inp', ws, r) \<Longrightarrow> sio_same inp inp' \<and> length ws = length olds"
proof (induction fmt arbitrary: cs inp olds off ws)
  case (Cons x xs)
  from Cons.prems(1) show ?case
  proof (cases rule: format_codecs_ConsE)
    case skip
    then show ?thesis using Cons.IH[OF skip(2)] Cons.prems by simp
  next
    case (codec n c cs')
    then obtain old olds' where olds: "olds = old # olds'" using Cons.prems(3) by (cases olds) auto
    obtain inp1 w r1 where u: "run_unpack c inp old = Some (inp1, w, r1)"
      using Cons.prems(3) codec olds by (auto split: option.splits)
    have s1: "sio_same inp inp1" by (rule fixed_unpack_same[OF _ u]) (use Cons.prems(2) codec in simp)
    show ?thesis
    proof (cases "r1 < 0")
      case True
      then show ?thesis using Cons.prems(3) codec olds u s1 by auto
    next
      case False
      then obtain ws' where "unpack_loop reg xs inp1 olds' (off + r1) = Some (inp', ws', r)" "ws = w # ws'"
        using Cons.prems(3) codec olds u by auto
      moreover have "list_all codec_fixed cs'" using Cons.prems(2) codec by simp
      ultimately show ?thesis using Cons.IH[OF codec(2)] olds sio_same_trans[OF s1] by fastforce
    qed
  qed
qed simp

lemma fixed_unpack_mono:
  assumes "codec_fixed c" "sio_inv inp" "run_unpack c inp old = Some (inp', w, r)"
  shows "sio_inv inp' \<and> sio_readptr inp \<le> sio_readptr inp'"
proof -
  have s: "sio_same inp inp'" by (rule fixed_unpack_same[OF assms(1,3)])
  have i: "sio_inv inp'" and d: "sio_rest inp' = drop (nat (codec_size c)) (sio_rest inp)"
    using fixed_unpack[OF assms(1,2), of old] assms(3) by auto
  have "length (sio_rest inp') \<le> length (sio_rest inp)" by (simp add: d)
  then show ?thesis using i length_sio_rest[OF i] length_sio_rest[OF assms(2)] s by (simp add: sio_same_def)
qed

text \<open>A field stays well-formed also when its reading fails.\<close>

lemma fixed_unpack_wf:
  assumes "codec_fixed c" "sio_inv inp" "codec_wf c old" "run_unpack c inp old = Some (inp', w, r)"
  shows "codec_wf c w"
proof (cases "r = -1")
  case True
  obtain m where "c = CEthMac \<Longrightarrow> old = SEth m \<and> 6 \<le> length m"
    using assms(3) by (cases c; cases old) auto
  then show ?thesis using assms(1,3,4) True
    by (auto simp: codec_fixed_def Char_unpack_def Short_unpack_def LEShort_unpack_def Int_unpack_def
        LEInt_unpack_def Eth2_MAC_unpack_def read_into_def Let_def split: bind_splits if_splits)
next
  case False
  then show ?thesis using fixed_unpack[OF assms(1,2), of old] assms(4) by (auto split: if_splits)
qed

lemma unpack_loop_wf:
  "format_codecs reg fmt = Some cs \<Longrightarrow> list_all codec_fixed cs \<Longrightarrow> sio_inv inp \<Longrightarrow>
   list_all2 codec_wf cs olds \<Longrightarrow> unpack_loop reg fmt inp olds off = Some (inp', ws, r) \<Longrightarrow>
   list_all2 codec_wf cs ws"
proof (induction fmt arbitrary: cs inp olds off ws)
  case (Cons x xs)
  from Cons.prems(1) show ?case
  proof (cases rule: format_codecs_ConsE)
    case skip
    then show ?thesis using Cons.IH[OF skip(2)] Cons.prems by simp
  next
    case (codec n c cs')
    then obtain old olds' where olds: "olds = old # olds'" "codec_wf c old" "list_all2 codec_wf cs' olds'"
      using Cons.prems(4) by (auto simp: list_all2_Cons1)
    have fx: "codec_fixed c" "list_all codec_fixed cs'" using Cons.prems(2) codec by simp_all
    obtain inp1 w r1 where u: "run_unpack c inp old = Some (inp1, w, r1)"
      using Cons.prems(5) codec olds by (auto split: option.splits)
    have s1: "sio_inv inp1" "codec_wf c w"
      using fixed_unpack_mono[OF fx(1) Cons.prems(3) u] fixed_unpack_wf[OF fx(1) Cons.prems(3) olds(2) u] by simp_all
    show ?thesis
    proof (cases "r1 < 0")
      case True
      then show ?thesis using Cons.prems(5) codec olds u s1 by auto
    next
      case False
      then obtain ws' where "unpack_loop reg xs inp1 olds' (off + r1) = Some (inp', ws', r)" "ws = w # ws'"
        using Cons.prems(5) codec olds u by auto
      then show ?thesis using Cons.IH[OF codec(2) fx(2) s1(1) olds(3)] s1(2) codec(3) by simp
    qed
  qed
qed simp

text \<open>Members behind the ones of the format stay as they are.\<close>

lemma unpack_loop_append:
  "unpack_loop reg fmt inp olds off = Some (inp', ws, r) \<Longrightarrow>
   unpack_loop reg fmt inp (olds @ ms) off = Some (inp', ws @ ms, r)"
  by (induction fmt arbitrary: inp olds off ws)
    (auto split: option.splits list.splits prod.splits if_splits)

lemma unpack_loop_mono:
  "format_codecs reg fmt = Some cs \<Longrightarrow> list_all codec_fixed cs \<Longrightarrow> sio_inv inp \<Longrightarrow>
   length olds = length cs \<Longrightarrow> unpack_loop reg fmt inp olds off = Some (inp', ws, r) \<Longrightarrow>
   sio_readptr inp \<le> sio_readptr inp'"
proof (induction fmt arbitrary: cs inp olds off ws)
  case (Cons x xs)
  from Cons.prems(1) show ?case
  proof (cases rule: format_codecs_ConsE)
    case skip
    then show ?thesis using Cons.IH[OF skip(2)] Cons.prems by simp
  next
    case (codec n c cs')
    then obtain old olds' where olds: "olds = old # olds'" using Cons.prems(4) by (cases olds) auto
    obtain inp1 w r1 where u: "run_unpack c inp old = Some (inp1, w, r1)"
      using Cons.prems(5) codec olds by (auto split: option.splits)
    have s1: "sio_inv inp1" "sio_readptr inp \<le> sio_readptr inp1"
      using fixed_unpack_mono[OF _ Cons.prems(3) u] Cons.prems(2) codec by simp_all
    show ?thesis
    proof (cases "r1 < 0")
      case True
      then show ?thesis using Cons.prems(5) codec olds u s1 by auto
    next
      case False
      then obtain ws' where "unpack_loop reg xs inp1 olds' (off + r1) = Some (inp', ws', r)"
        using Cons.prems(5) codec olds u by auto
      moreover have "list_all codec_fixed cs'" "length olds' = length cs'"
        using Cons.prems(2,4) codec olds by simp_all
      ultimately show ?thesis using Cons.IH[OF codec(2) _ s1(1)] s1(2) by fastforce
    qed
  qed
qed simp

lemma pack_loop_append:
  "pack_loop reg fmt vs out off = Some (out', n) \<Longrightarrow> pack_loop reg fmt (vs @ ms) out off = Some (out', n)"
  by (induction fmt arbitrary: vs out off) (auto split: option.splits list.splits prod.splits)

section \<open>The registry\<close>

text \<open>The tables of an initialised registry hold for each codec the size that it goes over.\<close>

definition registry_ready :: "registry \<Rightarrow> bool" where
  "registry_ready reg \<longleftrightarrow> structs_initialised reg \<and> length (struct_table reg) = MAX_FORMATS \<and>
     list_all (\<lambda>e. case e of None \<Rightarrow> True | Some (n, c) \<Rightarrow> n = codec_size c) (struct_table reg)"

lemma registry_ready_entry:
  assumes "registry_ready reg" "struct_entry reg f = Some (Some (n, c))"
  shows "n = codec_size c"
proof -
  have "f < length (struct_table reg)" "struct_table reg ! f = Some (n, c)"
    using assms(2) by (auto simp: struct_entry_def split: if_splits)
  then show ?thesis using assms(1) by (auto simp: registry_ready_def list_all_length)
qed

lemma Struct_Register_ready:
  assumes "registry_ready reg" "f < MAX_FORMATS"
  shows "\<exists>reg'. Struct_Register f (codec_size c) c reg = Inr reg' \<and> registry_ready reg' \<and>
    struct_entry reg' f = Some (Some (codec_size c, c)) \<and>
    (\<forall>g. g \<noteq> f \<longrightarrow> struct_entry reg' g = struct_entry reg g)"
  using assms
  by (auto simp: Struct_Register_def registry_ready_def struct_entry_def list_all_length nth_list_update
      split: option.splits)

lemma Struct_Register_all_ready:
  assumes "registry_ready reg" "list_all (\<lambda>(f, n, c). f < MAX_FORMATS \<and> n = codec_size c) rs"
  shows "\<exists>reg'. Struct_Register_all rs reg = Inr reg' \<and> registry_ready reg'"
  using assms
proof (induction rs reg rule: Struct_Register_all.induct)
  case (2 f n c rs reg)
  then obtain reg' where "Struct_Register f n c reg = Inr reg'" "registry_ready reg'"
    using Struct_Register_ready[of reg f c] by auto
  then show ?case using 2 by auto
qed simp

lemma struct_init_ready:
  "\<not> structs_initialised reg \<or> registry_ready reg \<Longrightarrow> \<exists>reg'. struct_init reg = Inr reg' \<and> registry_ready reg'"
proof -
  let ?b = "\<lparr>structs_initialised = True, struct_table = replicate MAX_FORMATS None\<rparr>"
  have "registry_ready ?b" by (simp add: registry_ready_def list_all_length)
  moreover have "list_all (\<lambda>(f, n, c). f < MAX_FORMATS \<and> n = codec_size c) standard_formats"
    by (simp add: standard_formats_def struct_formats SIZEOF_PTR_def)
  ultimately show "\<not> structs_initialised reg \<or> registry_ready reg \<Longrightarrow> ?thesis"
    using Struct_Register_all_ready[of ?b standard_formats] by (auto simp: struct_init_def)
qed

lemma struct_init_again: "registry_ready reg \<Longrightarrow> struct_init reg = Inr reg"
  by (simp add: struct_init_def registry_ready_def)

lemma network_structs_init_ready:
  assumes "\<not> structs_initialised reg \<or> registry_ready reg"
  shows "\<exists>reg'. network_structs_init reg = Inr reg' \<and> registry_ready reg' \<and>
    struct_entry reg' STRUCT_ETH_ADDR = Some (Some (6, CEthMac))"
proof -
  obtain r where r: "struct_init reg = Inr r" "registry_ready r" using struct_init_ready[OF assms] by blast
  have "STRUCT_ETH_ADDR < MAX_FORMATS" by (simp add: struct_formats)
  from Struct_Register_ready[OF r(2) this, of CEthMac] r show ?thesis
    by (auto simp: network_structs_init_def)
qed

lemma calcsize_format:
  assumes "registry_ready reg" "format_codecs reg fmt = Some cs"
  shows "calcsize reg fmt = Some (format_size cs)"
  using assms(2)
proof (induction fmt arbitrary: cs)
  case (Cons x xs)
  from Cons.prems show ?case
    by (cases rule: format_codecs_ConsE) (auto simp: Cons.IH registry_ready_entry[OF assms(1)])
qed simp

section \<open>Properties\<close>

text \<open>C7 (round trip of structs). For every format of registered characters and every struct whose
  fields the codecs can write, \<open>pack\<close> appends the encodings of the fields in order to the
  output and answers the size of the struct, which is \<open>calcsize\<close> of the format; and
  \<open>unpack\<close> of that output, whatever follows it and whatever the struct held before, answers
  the same size, leaves the position behind the struct and restores every field as its users see
  it: numbers at their width and byte order, strings up to their terminator or count, the arguments
  of an array of strings.\<close>

theorem struct_roundtrip:
  assumes "registry_ready reg" and "format_codecs reg fmt = Some cs" and "list_all2 codec_wf cs vs"
    and "sio_at_end out" and "length (format_enc cs vs) \<le> sio_room out"
    and "sio_inv inp" and "sio_rest inp = format_enc cs vs @ ys" and "length olds = length vs"
  shows "\<exists>out' inp' ws n. pack reg fmt vs out = Some (reg, out', n) \<and> sio_at_end out' \<and>
    sio_contents out' = sio_contents out @ format_enc cs vs \<and> calcsize reg fmt = Some n \<and>
    unpack reg fmt inp olds = Some (reg, inp', ws, n) \<and> map slot_view ws = map slot_view vs \<and>
    sio_inv inp' \<and> sio_rest inp' = ys"
proof -
  obtain out' where "pack_loop reg fmt vs out 0 = Some (out', 0 + format_size cs)" "sio_at_end out'"
    "sio_contents out' = sio_contents out @ format_enc cs vs"
    using pack_loop_spec[OF assms(2-5)] by blast
  moreover obtain inp' ws where "unpack_loop reg fmt inp olds 0 = Some (inp', ws, 0 + format_size cs)"
    "map slot_view ws = map slot_view vs" "sio_inv inp'" "sio_rest inp' = ys"
    using unpack_loop_spec[OF assms(2,3,6-8)] by blast
  ultimately show ?thesis
    by (simp add: pack_def unpack_def struct_init_again assms(1) calcsize_format[OF assms(1,2)])
qed

text \<open>A format of numbers and hardware addresses reads the input only
  where it has bytes: when at least \<open>calcsize\<close> bytes are left, \<open>unpack\<close> answers that
  size, takes exactly these bytes off the input, and the fields it leaves are the ones whose packing
  is these bytes again; when fewer are left it answers \<open>-1\<close>. There is no third case, and no
  access outside of the buffer.\<close>

theorem struct_fixed_unpack:
  assumes "registry_ready reg" and "format_codecs reg fmt = Some cs" and "list_all codec_fixed cs"
    and "sio_inv inp" and "length olds = length cs"
  shows "\<exists>inp' ws r n. unpack reg fmt inp olds = Some (reg, inp', ws, r) \<and> sio_inv inp' \<and>
    calcsize reg fmt = Some n \<and>
    (if n \<le> int (length (sio_rest inp))
     then r = n \<and> sio_rest inp = format_enc cs ws @ sio_rest inp' \<and> int (length (format_enc cs ws)) = n \<and>
       (\<forall>out. sio_at_end out \<and> length (format_enc cs ws) \<le> sio_room out \<longrightarrow>
          (\<exists>out'. pack reg fmt ws out = Some (reg, out', n) \<and>
             sio_contents out' = sio_contents out @ take (nat n) (sio_rest inp)))
     else r = -1)"
proof -
  obtain inp' ws r where u: "unpack_loop reg fmt inp olds 0 = Some (inp', ws, r)" "sio_inv inp'"
    "length ws = length cs"
    "if format_size cs \<le> int (length (sio_rest inp))
     then r = 0 + format_size cs \<and> list_all2 codec_wf cs ws \<and>
       sio_rest inp = format_enc cs ws @ sio_rest inp' \<and> int (length (format_enc cs ws)) = format_size cs
     else r = -1" using unpack_loop_fixed[OF assms(2-5), of 0] by blast
  have un: "unpack reg fmt inp olds = Some (reg, inp', ws, r)"
    by (simp add: unpack_def struct_init_again assms(1) u(1))
  note cz = calcsize_format[OF assms(1,2)]
  show ?thesis
  proof (cases "format_size cs \<le> int (length (sio_rest inp))")
    case True
    then have t: "r = format_size cs" "list_all2 codec_wf cs ws"
      "sio_rest inp = format_enc cs ws @ sio_rest inp'" "int (length (format_enc cs ws)) = format_size cs"
      using u(4) by simp_all
    have k: "take (nat (format_size cs)) (sio_rest inp) = format_enc cs ws"
      using t(3) by (simp flip: t(4))
    have "\<exists>out'. pack reg fmt ws out = Some (reg, out', format_size cs) \<and>
        sio_contents out' = sio_contents out @ take (nat (format_size cs)) (sio_rest inp)"
      if "sio_at_end out" "length (format_enc cs ws) \<le> sio_room out" for out
      using pack_loop_spec[OF assms(2) t(2) that, of 0] k by (auto simp: pack_def struct_init_again assms(1))
    then show ?thesis using True u(2) t un cz by auto
  next
    case False
    then show ?thesis using u un cz by auto
  qed
qed

text \<open>In an initialised registry a format below \<open>MAX_FORMATS\<close>
  is registered, is found again and leaves the other formats as they were; one above it ends the
  program with a message; and the format \<open>MAX_FORMATS\<close> itself passes the test although the
  three tables end before it, so that registering it writes behind them.\<close>

theorem Struct_Register_outcome:
  assumes "registry_ready reg"
  shows "case Struct_Register f (codec_size c) c reg of
      Inr reg' \<Rightarrow> f < MAX_FORMATS \<and> registry_ready reg' \<and>
        struct_entry reg' f = Some (Some (codec_size c, c)) \<and>
        (\<forall>g. g \<noteq> f \<longrightarrow> struct_entry reg' g = struct_entry reg g)
    | Inl Register_Exit \<Rightarrow> MAX_FORMATS < f
    | Inl Register_Overrun \<Rightarrow> f = MAX_FORMATS"
proof (cases "f < MAX_FORMATS")
  case True
  then show ?thesis using Struct_Register_ready[OF assms True, of c] by auto
next
  case False
  then show ?thesis using assms by (auto simp: Struct_Register_def registry_ready_def)
qed

definition demo_registry :: registry where
  "demo_registry = (case network_structs_init blank_registry of Inr r \<Rightarrow> r | Inl _ \<Rightarrow> blank_registry)"

lemma demo_registry_ready: "registry_ready demo_registry"
  using network_structs_init_ready[of blank_registry]
  by (auto simp: demo_registry_def blank_registry_def)

lemma demo_output [simp]:
  "sio_at_end (StringIO_constructor junk)" "sio_room (StringIO_constructor junk) = 268435454"
  "sio_contents (StringIO_constructor junk) = []"
  by (simp_all add: sio_at_end_def sio_room_def MAX_TALLOC_SIZE_def sio_contents_def)

definition demo_format :: "nat list" where
  "demo_format = [STRUCT_SHORT, STRUCT_STRING_NULL_TERM, STRUCT_INT_LE, STRUCT_ETH_ADDR]"

lemma demo_format_codecs: "format_codecs demo_registry demo_format = Some [CShort, CNullString, CIntLE, CEthMac]"
  by code_simp

lemma struct_roundtrip_witness:
  "\<exists>out' inp' ws n.
    pack demo_registry demo_format [SShort 258, SStr [104, 105, 0], SInt 7, SEth [1, 2, 3, 4, 5, 6]]
      (StringIO_constructor (\<lambda>_. 9)) = Some (demo_registry, out', n) \<and> sio_at_end out' \<and>
    sio_contents out' = [] @ [1, 2, 104, 105, 0, 7, 0, 0, 0, 1, 2, 3, 4, 5, 6] \<and>
    calcsize demo_registry demo_format = Some n \<and>
    unpack demo_registry demo_format (demo_buffer [1, 2, 104, 105, 0, 7, 0, 0, 0, 1, 2, 3, 4, 5, 6, 99])
      [SShort 0, SStr [], SInt 0, SEth []] = Some (demo_registry, inp', ws, n) \<and>
    map slot_view ws = [SShort 258, SStr [104, 105], SInt 7, SEth [1, 2, 3, 4, 5, 6]] \<and>
    sio_inv inp' \<and> sio_rest inp' = [99]"
proof -
  let ?vs = "[SShort 258, SStr [104, 105, 0], SInt 7, SEth [1, 2, 3, 4, 5, 6]]"
  let ?cs = "[CShort, CNullString, CIntLE, CEthMac]"
  have e: "format_enc ?cs ?vs = [1, 2, 104, 105, 0, 7, 0, 0, 0, 1, 2, 3, 4, 5, 6]"
    by code_simp
  have w: "list_all2 codec_wf ?cs ?vs" by (simp add: c_string_def)
  have v: "map slot_view ?vs = [SShort 258, SStr [104, 105], SInt 7, SEth [1, 2, 3, 4, 5, 6]]"
    by (simp add: c_string_def)
  show ?thesis
    using struct_roundtrip[OF demo_registry_ready demo_format_codecs w, of "StringIO_constructor (\<lambda>_. 9)"
      "demo_buffer [1, 2, 104, 105, 0, 7, 0, 0, 0, 1, 2, 3, 4, 5, 6, 99]" "[99]" "[SShort 0, SStr [], SInt 0, SEth []]"]
    unfolding e v by simp
qed

lemma struct_fixed_unpack_witness:
  "\<exists>inp' ws r n. unpack demo_registry [STRUCT_SHORT, STRUCT_INT] (demo_buffer [1, 2, 3]) [SShort 0, SInt 0] =
      Some (demo_registry, inp', ws, r) \<and> calcsize demo_registry [STRUCT_SHORT, STRUCT_INT] = Some n \<and>
    n = 6 \<and> r = -1"
proof -
  have c: "format_codecs demo_registry [STRUCT_SHORT, STRUCT_INT] = Some [CShort, CInt]" by code_simp
  have n: "calcsize demo_registry [STRUCT_SHORT, STRUCT_INT] = Some 6" by code_simp
  have f: "list_all codec_fixed [CShort, CInt]" by (simp add: codec_fixed_def)
  have i: "sio_inv (demo_buffer [1, 2, 3])" by simp
  have l: "length [SShort 0, SInt 0] = length [CShort, CInt]" by simp
  have "int (length (sio_rest (demo_buffer [1, 2, 3]))) = 3" by simp
  with struct_fixed_unpack[OF demo_registry_ready c f i l] n show ?thesis by (elim exE) simp
qed

lemma Struct_Register_outcome_witness:
  "(case Struct_Register 32 (codec_size CChar) CChar demo_registry of
      Inr reg' \<Rightarrow> False | Inl Register_Exit \<Rightarrow> False | Inl Register_Overrun \<Rightarrow> True)"
proof -
  note o = Struct_Register_outcome[OF demo_registry_ready, of 32 CChar]
  show ?thesis
  proof (cases "Struct_Register 32 (codec_size CChar) CChar demo_registry")
    case (Inl e)
    show ?thesis using o unfolding Inl by (cases e) (simp_all add: MAX_FORMATS_def)
  next
    case (Inr reg')
    show ?thesis using o unfolding Inr by (simp add: MAX_FORMATS_def)
  qed
qed

end
