(* ===== verification/Packet.thy ===== *)
theory Packet
  imports Struct
begin

text \<open>
  The class \<open>Packet\<close> of \<open>src/src/lib/packet.c\<close> and \<open>src/src/include/packet.h\<close>, the
  base of all dissectors: a struct described by a format, read and written by \<open>Struct\<close>, and a
  list of properties by which its members are found by name.

  A struct is the association list of its members in the order of the declaration, the members that
  the format describes first. A pointer to data is the block \<open>SStr m\<close>, NULL the empty block. The
  one member that points to another packet (\<open>eth\<close>, \<open>payload\<close>, \<open>root\<close>) is
  \<open>pk_payload\<close>, \<open>None\<close> for NULL, so that a dissected packet is a chain. No class has a
  second packet member, and the searches below take only that one.
\<close>

section \<open>Classes and objects\<close>

datatype field_type_t =
    FIELD_TYPE_INT | FIELD_TYPE_INT_64 | FIELD_TYPE_INT_X | FIELD_TYPE_INT32 | FIELD_TYPE_INT32_X
  | FIELD_TYPE_INT_X_64 | FIELD_TYPE_CHAR | FIELD_TYPE_CHAR_X | FIELD_TYPE_SHORT | FIELD_TYPE_SHORT_X
  | FIELD_TYPE_STRING | FIELD_TYPE_STRING_X | FIELD_TYPE_IP_ADDR | FIELD_TYPE_HEX | FIELD_TYPE_PACKET
  | FIELD_TYPE_ETH_ADD

text \<open>A property: its name, its type, the member that it shows, its size and, where the size is
  \<open>0\<close>, the member that holds the size.\<close>

record struct_property_t =
  pr_name :: string
  pr_type :: field_type_t
  pr_item :: string
  pr_size :: int
  pr_size_p :: string

definition NAME_ACCESS :: "string \<Rightarrow> string \<Rightarrow> field_type_t \<Rightarrow> int \<Rightarrow> struct_property_t" where
  "NAME_ACCESS member nm type sz =
     \<lparr>pr_name = nm, pr_type = type, pr_item = member, pr_size = sz, pr_size_p = ''''\<rparr>"

definition NAME_ACCESS_SIZE :: "string \<Rightarrow> string \<Rightarrow> field_type_t \<Rightarrow> string \<Rightarrow> struct_property_t" where
  "NAME_ACCESS_SIZE member nm type size_member =
     \<lparr>pr_name = nm, pr_type = type, pr_item = member, pr_size = 0, pr_size_p = size_member\<rparr>"

text \<open>A class: its name, its format, the members of its cleared struct and its properties.\<close>

record pclass =
  cl_name :: string
  cl_format :: "nat list"
  cl_members :: "(string \<times> slot) list"
  cl_props :: "struct_property_t list"

datatype packet = Packet
  (pk_class: pclass) (pk_start: int) (pk_length: int)
  (pk_struct: "(string \<times> slot) list") (pk_payload: "packet option")

abbreviation NAMEOF :: "packet \<Rightarrow> string" where "NAMEOF p \<equiv> cl_name (pk_class p)"

abbreviation properties :: "packet \<Rightarrow> struct_property_t list" where
  "properties p \<equiv> cl_props (pk_class p)"

definition Packet_Con :: "pclass \<Rightarrow> packet" where
  "Packet_Con cls = Packet cls 0 0 (cl_members cls) None"

fun slot_num :: "slot \<Rightarrow> int" where
  "slot_num (SChar b) = uint b"
| "slot_num (SShort v) = v"
| "slot_num (SInt v) = v"
| "slot_num _ = 0"

fun slot_block :: "slot \<Rightarrow> byte list" where
  "slot_block (SStr m) = m"
| "slot_block (SEth m) = m"
| "slot_block _ = []"

definition get_num :: "packet \<Rightarrow> string \<Rightarrow> int" where
  "get_num p m = (case map_of (pk_struct p) m of None \<Rightarrow> 0 | Some v \<Rightarrow> slot_num v)"

definition get_block :: "packet \<Rightarrow> string \<Rightarrow> byte list" where
  "get_block p m = (case map_of (pk_struct p) m of None \<Rightarrow> [] | Some v \<Rightarrow> slot_block v)"

fun member_update :: "string \<Rightarrow> slot \<Rightarrow> (string \<times> slot) list \<Rightarrow> (string \<times> slot) list" where
  "member_update m v [] = []"
| "member_update m v ((k, w) # ms) = (if k = m then (k, v) # ms else (k, w) # member_update m v ms)"

fun set_member :: "string \<Rightarrow> slot \<Rightarrow> packet \<Rightarrow> packet" where
  "set_member m v (Packet cls st len ms pl) = Packet cls st len (member_update m v ms) pl"

fun set_payload :: "packet \<Rightarrow> packet \<Rightarrow> packet" where
  "set_payload q (Packet cls st len ms pl) = Packet cls st len ms (Some q)"

text \<open>The struct with other values in its members.\<close>

definition members_put :: "slot list \<Rightarrow> (string \<times> slot) list \<Rightarrow> (string \<times> slot) list" where
  "members_put vs ms = zip (map fst ms) vs"

definition Packet_Write :: "registry \<Rightarrow> packet \<Rightarrow> stringio \<Rightarrow> (stringio \<times> int) option" where
  "Packet_Write reg self output =
     map_option (\<lambda>(_, output', n). (output', n))
       (pack reg (cl_format (pk_class self)) (map snd (pk_struct self)) output)"

text \<open>The registry is initialised before the first packet is read and \<open>unpack\<close> leaves an
  initialised registry as it is.\<close>

definition Packet_Read :: "registry \<Rightarrow> packet \<Rightarrow> stringio \<Rightarrow> (packet \<times> stringio \<times> int) option" where
  "Packet_Read reg self input = do {
     let start_offset = s32 (sio_readptr input);
     (_, input, vs, result) \<leftarrow> unpack reg (cl_format (pk_class self)) input (map snd (pk_struct self));
     Some (Packet (pk_class self) start_offset (s32 (u64 (sio_readptr input - start_offset)))
             (members_put vs (pk_struct self)) (pk_payload self), input, result)
   }"

section \<open>Finding properties by name\<close>

definition get_field_by_name :: "packet \<Rightarrow> string \<Rightarrow> struct_property_t option" where
  "get_field_by_name self nm = find (\<lambda>i. pr_name i = nm) (properties self)"

text \<open>The walk over the properties with the node that \<open>*self\<close> points to. The search of the
  packet member (\<open>sub\<close>, \<open>None\<close> when the pointer is NULL) leaves \<open>*self\<close> where it
  went, and the walk goes on with the properties of the node it started from.\<close>

fun field_walk :: "struct_property_t list \<Rightarrow> string \<Rightarrow> packet \<Rightarrow>
    (packet \<times> struct_property_t option) option \<Rightarrow> packet \<times> struct_property_t option" where
  "field_walk [] nm self sub = (self, None)"
| "field_walk (i # is) nm self sub =
     (if pr_name i = nm then (self, Some i)
      else if pr_type i = FIELD_TYPE_PACKET then
        (case sub of
           None \<Rightarrow> field_walk is nm self sub
         | Some (q, Some r) \<Rightarrow> (q, Some r)
         | Some (q, None) \<Rightarrow> field_walk is nm q sub)
      else field_walk is nm self sub)"

primrec get_field_by_name_r :: "packet \<Rightarrow> string \<Rightarrow> packet \<times> struct_property_t option" where
  "get_field_by_name_r (Packet cls st len ms pl) nm =
     field_walk (cl_props cls) nm (Packet cls st len ms pl)
       (map_option (\<lambda>f. f nm) (map_option get_field_by_name_r pl))"

text \<open>The first packet member that is an instance of the class, or has one below it.\<close>

fun instance_walk :: "struct_property_t list \<Rightarrow> string \<Rightarrow> packet option \<Rightarrow> packet option \<Rightarrow> packet option" where
  "instance_walk [] class_name item sub = None"
| "instance_walk (i # is) class_name item sub =
     (if pr_type i = FIELD_TYPE_PACKET then
        (if item \<noteq> None \<and> NAMEOF (the item) = class_name then item
         else case sub of Some q \<Rightarrow> Some q | None \<Rightarrow> instance_walk is class_name item sub)
      else instance_walk is class_name item sub)"

primrec find_packet_instance :: "packet \<Rightarrow> string \<Rightarrow> packet option" where
  "find_packet_instance (Packet cls st len ms pl) class_name =
     instance_walk (cl_props cls) class_name pl
       (case map_option (\<lambda>f. f class_name) (map_option find_packet_instance pl) of
          None \<Rightarrow> None | Some r \<Rightarrow> r)"

definition char_lower :: "char \<Rightarrow> char" where
  "char_lower c =
     (let n = of_char c :: nat in if 65 \<le> n \<and> n \<le> 90 then char_of (n + 32) else c)"

definition strcasecmp_same :: "string \<Rightarrow> string \<Rightarrow> bool" where
  "strcasecmp_same a b \<longleftrightarrow> map char_lower a = map char_lower b"

text \<open>\<open>Find_Property\<close> answers the truth value, the node and the property: \<open>None\<close> is the
  NULL of an empty property name, or the untouched argument of a search that fails.\<close>

fun property_walk :: "struct_property_t list \<Rightarrow> packet \<Rightarrow>
    (bool \<times> packet \<times> struct_property_t option) option \<Rightarrow> bool \<times> packet \<times> struct_property_t option" where
  "property_walk [] node sub = (False, node, None)"
| "property_walk (i # is) node sub =
     (if pr_type i = FIELD_TYPE_PACKET then
        (case sub of
           None \<Rightarrow> property_walk is node sub
         | Some (True, q, p) \<Rightarrow> (True, q, p)
         | Some (False, q, p) \<Rightarrow> property_walk is q sub)
      else property_walk is node sub)"

primrec Find_Property ::
    "packet \<Rightarrow> string \<Rightarrow> string \<Rightarrow> bool \<times> packet \<times> struct_property_t option" where
  "Find_Property (Packet cls st len ms pl) node_name property_name =
     (let node = Packet cls st len ms pl in
      if strcasecmp_same (cl_name cls) node_name then
        (if property_name = '''' then (True, node, None)
         else case get_field_by_name node property_name of
                None \<Rightarrow> (False, node, None)
              | Some i \<Rightarrow> (True, node, Some i))
      else property_walk (cl_props cls) node
             (map_option (\<lambda>f. f node_name property_name) (map_option Find_Property pl)))"

section \<open>Printing\<close>

text \<open>The output of \<open>printf\<close> as a string: decimal and hexadecimal numbers, and the escapes of
  characters that are not printable.\<close>

function digits :: "nat \<Rightarrow> nat \<Rightarrow> nat list" where
  "digits b n = (if b \<le> 1 \<or> n < b then [n] else digits b (n div b) @ [n mod b])"
  by pat_completeness auto
termination
  by (relation "measure snd") (auto intro!: div_less_dividend)

declare digits.simps [simp del]

definition digit_char :: "nat \<Rightarrow> char" where
  "digit_char d = (if d < 10 then char_of (48 + d) else char_of (87 + d))"

definition digit_char_upper :: "nat \<Rightarrow> char" where
  "digit_char_upper d = (if d < 10 then char_of (48 + d) else char_of (55 + d))"

definition fmt_u :: "int \<Rightarrow> string" where "fmt_u n = map digit_char (digits 10 (nat n))"
definition fmt_x :: "int \<Rightarrow> string" where "fmt_x n = map digit_char (digits 16 (nat n))"
definition fmt_X :: "int \<Rightarrow> string" where "fmt_X n = map digit_char_upper (digits 16 (nat n))"

definition fmt_02x :: "byte \<Rightarrow> string" where
  "fmt_02x b = [digit_char (unat b div 16), digit_char (unat b mod 16)]"

definition isprint :: "byte \<Rightarrow> bool" where "isprint b \<longleftrightarrow> 32 \<le> b \<and> b < 127"

definition fmt_string :: "byte list \<Rightarrow> string" where
  "fmt_string xs =
     concat (map (\<lambda>b. if isprint b then [char_of (unat b)] else [CHR 0x5C, CHR ''x''] @ fmt_02x b) xs)"

definition inet_ntoa :: "int \<Rightarrow> string" where
  "inet_ntoa a = fmt_u (a div 16777216 mod 256) @ ''.'' @ fmt_u (a div 65536 mod 256) @ ''.'' @
     fmt_u (a div 256 mod 256) @ ''.'' @ fmt_u (a mod 256)"

text \<open>The number at a member when it is read with \<open>w\<close> bytes. A member of another width makes the
  code read a part of it or the bytes behind it, which the model gives no value.\<close>

fun slot_width :: "slot \<Rightarrow> int" where
  "slot_width (SChar b) = 1"
| "slot_width (SShort v) = 2"
| "slot_width (SInt v) = 4"
| "slot_width _ = 0"

definition read_num :: "packet \<Rightarrow> string \<Rightarrow> int \<Rightarrow> int option" where
  "read_num p m w = (case map_of (pk_struct p) m of None \<Rightarrow> None
     | Some v \<Rightarrow> if slot_width v = w then Some (slot_num v) else None)"

definition print_property :: "packet \<Rightarrow> struct_property_t \<Rightarrow> string option" where
  "print_property self i =
     (let sz = (if pr_size i = 0 then s32 (get_num self (pr_size_p i)) else pr_size i)
      in case pr_type i of
           FIELD_TYPE_INT \<Rightarrow> map_option fmt_u (read_num self (pr_item i) 4)
         | FIELD_TYPE_INT_X \<Rightarrow> map_option (\<lambda>n. ''0x'' @ fmt_X n) (read_num self (pr_item i) 4)
         | FIELD_TYPE_CHAR \<Rightarrow> map_option fmt_u (read_num self (pr_item i) 1)
         | FIELD_TYPE_CHAR_X \<Rightarrow> map_option (\<lambda>n. ''0x'' @ fmt_x n) (read_num self (pr_item i) 1)
         | FIELD_TYPE_SHORT \<Rightarrow> map_option fmt_u (read_num self (pr_item i) 2)
         | FIELD_TYPE_SHORT_X \<Rightarrow> map_option (\<lambda>n. ''0x'' @ fmt_x n) (read_num self (pr_item i) 2)
         | FIELD_TYPE_IP_ADDR \<Rightarrow> map_option inet_ntoa (read_num self (pr_item i) 4)
         | FIELD_TYPE_STRING \<Rightarrow>
             map_option fmt_string (mem_read (get_block self (pr_item i)) 0 (max 0 sz))
         | FIELD_TYPE_STRING_X \<Rightarrow>
             map_option (\<lambda>xs. ''0x'' @ concat (map fmt_02x xs))
               (mem_read (get_block self (pr_item i)) 0 (max 0 sz))
         | _ \<Rightarrow> Some [])"

section \<open>Packets as chains\<close>

text \<open>A packet with the packets inside of it, from the outermost to the innermost.\<close>

primrec chain :: "packet \<Rightarrow> packet list" where
  "chain (Packet cls st len ms pl) =
     Packet cls st len ms pl # (case map_option chain pl of None \<Rightarrow> [] | Some qs \<Rightarrow> qs)"

lemma chain_unfold:
  "chain p = p # (case pk_payload p of None \<Rightarrow> [] | Some q \<Rightarrow> chain q)"
  by (cases p) (simp split: option.splits)

lemma chain_nonempty [simp]: "chain p \<noteq> []"
  by (simp add: chain_unfold[of p])

text \<open>Every packet that has an inner packet has exactly one property that leads there.\<close>

definition packet_props :: "struct_property_t list \<Rightarrow> struct_property_t list" where
  "packet_props ps = filter (\<lambda>i. pr_type i = FIELD_TYPE_PACKET) ps"

definition chain_ok :: "packet \<Rightarrow> bool" where
  "chain_ok p \<longleftrightarrow> list_all (\<lambda>q. pk_payload q \<noteq> None \<longrightarrow> length (packet_props (properties q)) = 1) (chain p)"

lemma chain_ok_payload:
  assumes "chain_ok p" "pk_payload p = Some q"
  shows "chain_ok q" and "length (packet_props (properties p)) = 1"
  using assms by (auto simp: chain_ok_def chain_unfold[of p])

lemma get_field_by_name_r_unfold:
  "get_field_by_name_r p nm =
     field_walk (properties p) nm p (map_option (\<lambda>q. get_field_by_name_r q nm) (pk_payload p))"
  by (cases p) (simp add: option.map_comp comp_def)

lemma find_packet_instance_unfold:
  "find_packet_instance p nm =
     instance_walk (properties p) nm (pk_payload p)
       (case pk_payload p of None \<Rightarrow> None | Some q \<Rightarrow> find_packet_instance q nm)"
  by (cases p) (simp split: option.splits)

lemma Find_Property_unfold:
  "Find_Property p node_name nm =
     (if strcasecmp_same (NAMEOF p) node_name then
        (if nm = [] then (True, p, None)
         else case get_field_by_name p nm of None \<Rightarrow> (False, p, None) | Some i \<Rightarrow> (True, p, Some i))
      else property_walk (properties p) p
             (map_option (\<lambda>q. Find_Property q node_name nm) (pk_payload p)))"
  by (cases p) (simp add: option.map_comp comp_def Let_def split: option.splits)

lemma packet_props_split:
  assumes "length (packet_props ps) = 1"
  obtains xs i ys where "ps = xs @ i # ys" "pr_type i = FIELD_TYPE_PACKET"
    "\<forall>j\<in>set xs. pr_type j \<noteq> FIELD_TYPE_PACKET" "\<forall>j\<in>set ys. pr_type j \<noteq> FIELD_TYPE_PACKET"
proof -
  obtain i where f: "filter (\<lambda>i. pr_type i = FIELD_TYPE_PACKET) ps = [i]"
    using assms by (auto simp: packet_props_def length_Suc_conv)
  then obtain xs ys where "ps = xs @ i # ys" "pr_type i = FIELD_TYPE_PACKET"
    "\<forall>j\<in>set xs. pr_type j \<noteq> FIELD_TYPE_PACKET" and e: "[] = filter (\<lambda>i. pr_type i = FIELD_TYPE_PACKET) ys"
    using filter_eq_ConsD[OF f] by blast
  moreover have "\<forall>j\<in>set ys. pr_type j \<noteq> FIELD_TYPE_PACKET"
    using e[symmetric] by (simp only: filter_empty_conv)
  ultimately show ?thesis using that by blast
qed

lemma walk_none:
  "\<forall>j\<in>set ps. pr_type j \<noteq> FIELD_TYPE_PACKET \<Longrightarrow> property_walk ps p sub = (False, p, None)"
  "\<forall>j\<in>set ps. pr_type j \<noteq> FIELD_TYPE_PACKET \<Longrightarrow> instance_walk ps nm item res = None"
  "\<forall>j\<in>set ps. pr_type j \<noteq> FIELD_TYPE_PACKET \<Longrightarrow> field_walk ps nm p s = (p, find (\<lambda>i. pr_name i = nm) ps)"
  by (induction ps) auto

lemma walk_append:
  "\<forall>j\<in>set xs. pr_type j \<noteq> FIELD_TYPE_PACKET \<Longrightarrow> property_walk (xs @ ps) p sub = property_walk ps p sub"
  "\<forall>j\<in>set xs. pr_type j \<noteq> FIELD_TYPE_PACKET \<Longrightarrow> instance_walk (xs @ ps) nm item res = instance_walk ps nm item res"
  "\<forall>j\<in>set xs. pr_type j \<noteq> FIELD_TYPE_PACKET \<Longrightarrow> field_walk (xs @ ps) nm p s =
     (case find (\<lambda>i. pr_name i = nm) xs of Some i \<Rightarrow> (p, Some i) | None \<Rightarrow> field_walk ps nm p s)"
  by (induction xs) auto

lemma walk_null: "property_walk ps p None = (False, p, None)"
  "instance_walk ps nm None None = None"
  "field_walk ps nm p None = (p, find (\<lambda>i. pr_name i = nm) ps)"
  by (induction ps) auto

lemma get_field_by_name_r_miss:
  assumes "chain_ok p" "snd (get_field_by_name_r p nm) = None"
  shows "fst (get_field_by_name_r p nm) = last (chain p)"
  using assms
proof (induction "length (chain p)" arbitrary: p rule: less_induct)
  case less
  show ?case
  proof (cases "pk_payload p")
    case None
    then show ?thesis by (simp add: chain_unfold[of p] get_field_by_name_r_unfold[of p] walk_null)
  next
    case (Some q)
    note ok = chain_ok_payload[OF less.prems(1) Some]
    obtain xs i ys where s: "properties p = xs @ i # ys" "pr_type i = FIELD_TYPE_PACKET"
      "\<forall>j\<in>set xs. pr_type j \<noteq> FIELD_TYPE_PACKET" "\<forall>j\<in>set ys. pr_type j \<noteq> FIELD_TYPE_PACKET"
      by (rule packet_props_split[OF ok(2)])
    have l: "length (chain q) < length (chain p)" using Some by (simp add: chain_unfold[of p])
    obtain r o' where f: "get_field_by_name_r q nm = (r, o')" by (rule prod.exhaust)
    have c: "last (chain p) = last (chain q)" using Some by (simp add: chain_unfold[of p])
    show ?thesis
      using less.hyps[OF l ok(1)] less.prems(2) Some s f c
      by (cases o') (auto simp: get_field_by_name_r_unfold[of p] walk_append walk_none split: option.splits if_splits)
  qed
qed

section \<open>Reading a packet\<close>

lemma fixed_enc_length:
  "codec_fixed c \<Longrightarrow> codec_wf c v \<Longrightarrow> int (length (codec_enc c v)) = codec_size c"
  by (cases v) (auto simp: codec_fixed_def)

lemma format_enc_length:
  "list_all codec_fixed cs \<Longrightarrow> list_all2 codec_wf cs vs \<Longrightarrow> int (length (format_enc cs vs)) = format_size cs"
  by (induction cs vs rule: list_induct2') (auto simp: fixed_enc_length)

lemma format_size_nonneg: "0 \<le> format_size cs"
  using codec_size_nonneg by (auto simp: format_size_def intro!: sum_list_nonneg)

lemma readptr_from_rest:
  assumes "sio_inv s" "sio_inv s'" "sio_same s s'"
  shows "sio_readptr s' = sio_readptr s + int (length (sio_rest s)) - int (length (sio_rest s'))"
  using length_sio_rest[OF assms(1)] length_sio_rest[OF assms(2)] assms(3) by (simp add: sio_same_def)

text \<open>A packet whose class has members for the fields of its format.\<close>

definition members_fit :: "codec list \<Rightarrow> packet \<Rightarrow> bool" where
  "members_fit cs p \<longleftrightarrow> length cs \<le> length (pk_struct p)"

lemma Packet_Read_total:
  assumes reg: "registry_ready reg" and fmt: "format_codecs reg (cl_format (pk_class p)) = Some cs"
    and fx: "list_all codec_fixed cs" and inp: "sio_inv inp" and fit: "members_fit cs p"
    and mwf: "list_all2 codec_wf cs (map snd (take (length cs) (pk_struct p)))"
  shows "\<exists>inp' ws r. Packet_Read reg p inp =
      Some (Packet (pk_class p) (sio_readptr inp) (sio_readptr inp' - sio_readptr inp)
              (zip (map fst (pk_struct p)) (ws @ map snd (drop (length cs) (pk_struct p)))) (pk_payload p), inp', r) \<and>
    list_all2 codec_wf cs ws \<and> sio_inv inp' \<and> sio_same inp inp' \<and> sio_readptr inp \<le> sio_readptr inp' \<and>
    (if format_size cs \<le> int (length (sio_rest inp))
     then r = format_size cs \<and> sio_rest inp = format_enc cs ws @ sio_rest inp' \<and>
       sio_readptr inp' = sio_readptr inp + format_size cs
     else r = -1)"
proof -
  let ?ms = "pk_struct p"
  have sp: "map snd ?ms = map snd (take (length cs) ?ms) @ map snd (drop (length cs) ?ms)"
    by (metis append_take_drop_id map_append)
  have lt: "length (map snd (take (length cs) ?ms)) = length cs" using fit by (simp add: members_fit_def)
  obtain inp' ws r where u: "unpack_loop reg (cl_format (pk_class p)) inp (map snd (take (length cs) ?ms)) 0 =
      Some (inp', ws, r)" "sio_inv inp'" "length ws = length cs"
    "if format_size cs \<le> int (length (sio_rest inp))
     then r = 0 + format_size cs \<and> list_all2 codec_wf cs ws \<and>
       sio_rest inp = format_enc cs ws @ sio_rest inp' \<and> int (length (format_enc cs ws)) = format_size cs
     else r = -1" using unpack_loop_fixed[OF fmt fx inp lt, of 0] by blast
  have un: "unpack reg (cl_format (pk_class p)) inp (map snd ?ms) =
      Some (reg, inp', ws @ map snd (drop (length cs) ?ms), r)"
    unfolding sp by (simp add: unpack_def struct_init_again reg unpack_loop_append[OF u(1)])
  have sm: "sio_same inp inp'" using unpack_loop_same[OF fmt fx u(1)] by simp
  have wf: "list_all2 codec_wf cs ws" by (rule unpack_loop_wf[OF fmt fx inp mwf u(1)])
  note b = sio_invD[OF inp] sio_invD[OF u(2)]
  have le: "sio_readptr inp \<le> sio_readptr inp'" by (rule unpack_loop_mono[OF fmt fx inp lt u(1)])
  have w: "s32 (sio_readptr inp) = sio_readptr inp"
    "s32 (u64 (sio_readptr inp' - sio_readptr inp)) = sio_readptr inp' - sio_readptr inp"
    using b le by (simp_all add: cint_simps)
  have "sio_readptr inp' = sio_readptr inp + format_size cs"
    if "format_size cs \<le> int (length (sio_rest inp))"
  proof -
    have e: "sio_rest inp = format_enc cs ws @ sio_rest inp'" "int (length (format_enc cs ws)) = format_size cs"
      using that u(4) by simp_all
    have "int (length (sio_rest inp)) = format_size cs + int (length (sio_rest inp'))"
      using arg_cong[OF e(1), of "\<lambda>xs. int (length xs)"] e(2) by simp
    then show ?thesis using readptr_from_rest[OF inp u(2) sm] by simp
  qed
  moreover have "Packet_Read reg p inp =
      Some (Packet (pk_class p) (sio_readptr inp) (sio_readptr inp' - sio_readptr inp)
              (zip (map fst ?ms) (ws @ map snd (drop (length cs) ?ms))) (pk_payload p), inp', r)"
    using un w by (simp add: Packet_Read_def members_put_def Let_def)
  ultimately show ?thesis
    using u sm le wf by (intro exI[of _ inp'] exI[of _ ws] exI[of _ r]) (simp split: if_splits)
qed

lemma Packet_Read_ok:
  assumes reg: "registry_ready reg" and fmt: "format_codecs reg (cl_format (pk_class p)) = Some cs"
    and fx: "list_all codec_fixed cs" and wf: "list_all2 codec_wf cs vs" and inp: "sio_inv inp"
    and rest: "sio_rest inp = format_enc cs vs @ ys" and fit: "members_fit cs p"
  obtains inp' ws where "Packet_Read reg p inp =
      Some (Packet (pk_class p) (sio_readptr inp) (format_size cs)
              (zip (map fst (pk_struct p)) (ws @ map snd (drop (length cs) (pk_struct p)))) (pk_payload p),
            inp', format_size cs)"
    "map slot_view ws = map slot_view vs" "sio_inv inp'" "sio_rest inp' = ys" "sio_same inp inp'"
    "sio_readptr inp' = sio_readptr inp + format_size cs"
proof -
  let ?ms = "pk_struct p"
  have sp: "map snd ?ms = map snd (take (length cs) ?ms) @ map snd (drop (length cs) ?ms)"
    by (metis append_take_drop_id map_append)
  have lt: "length (map snd (take (length cs) ?ms)) = length vs"
    using fit list_all2_lengthD[OF wf] by (simp add: members_fit_def)
  obtain inp' ws where u: "unpack_loop reg (cl_format (pk_class p)) inp (map snd (take (length cs) ?ms)) 0 =
      Some (inp', ws, 0 + format_size cs)" "map slot_view ws = map slot_view vs" "sio_inv inp'"
    "sio_rest inp' = ys" using unpack_loop_spec[OF fmt wf inp rest lt, of 0] by blast
  have un: "unpack reg (cl_format (pk_class p)) inp (map snd ?ms) =
      Some (reg, inp', ws @ map snd (drop (length cs) ?ms), format_size cs)"
    unfolding sp using unpack_loop_append[OF u(1)] by (simp add: unpack_def struct_init_again reg)
  have sm: "sio_same inp inp'" using unpack_loop_same[OF fmt fx u(1)] by simp
  note b = sio_invD[OF inp] sio_invD[OF u(3)]
  have "int (length (sio_rest inp)) = format_size cs + int (length (sio_rest inp'))"
    using format_enc_length[OF fx wf] rest u(4) by simp
  then have rp: "sio_readptr inp' = sio_readptr inp + format_size cs"
    using readptr_from_rest[OF inp u(3) sm] by simp
  have "s32 (sio_readptr inp) = sio_readptr inp"
    "s32 (u64 (sio_readptr inp' - sio_readptr inp)) = format_size cs"
    using b rp format_size_nonneg[of cs] by (simp_all add: cint_simps)
  then show ?thesis
    using that[OF _ u(2-4) sm rp] un by (simp add: Packet_Read_def members_put_def Let_def)
qed

section \<open>Properties\<close>

text \<open>\<open>Find_Property\<close> searches the packets from the outermost
  one inwards: it is true exactly when some packet has the node name (in any case of letters) and
  the outermost such packet has the property (or no property is asked for), and then it answers
  that packet and its first property of that name.\<close>

theorem Find_Property_outermost:
  assumes "chain_ok p"
  shows "(case find (\<lambda>q. strcasecmp_same (NAMEOF q) node_name) (chain p) of
      None \<Rightarrow> \<not> fst (Find_Property p node_name nm)
    | Some q \<Rightarrow>
        (if nm = [] then Find_Property p node_name nm = (True, q, None)
         else case get_field_by_name q nm of
                None \<Rightarrow> \<not> fst (Find_Property p node_name nm)
              | Some i \<Rightarrow> Find_Property p node_name nm = (True, q, Some i)))"
  using assms
proof (induction "length (chain p)" arbitrary: p rule: less_induct)
  case less
  show ?case
  proof (cases "strcasecmp_same (NAMEOF p) node_name")
    case True
    then show ?thesis
      by (simp add: chain_unfold[of p] Find_Property_unfold[of p] split: option.splits)
  next
    case False
    show ?thesis
    proof (cases "pk_payload p")
      case None
      then show ?thesis using False
        by (simp add: chain_unfold[of p] Find_Property_unfold[of p] walk_null)
    next
      case (Some q)
      note ok = chain_ok_payload[OF less.prems Some]
      obtain xs i ys where s: "properties p = xs @ i # ys" "pr_type i = FIELD_TYPE_PACKET"
        "\<forall>j\<in>set xs. pr_type j \<noteq> FIELD_TYPE_PACKET" "\<forall>j\<in>set ys. pr_type j \<noteq> FIELD_TYPE_PACKET"
        by (rule packet_props_split[OF ok(2)])
      obtain b r o' where f: "Find_Property q node_name nm = (b, r, o')" by (rule prod_cases3)
      have "Find_Property p node_name nm = (if b then (True, r, o') else (False, r, None))"
        using False Some s f by (simp add: Find_Property_unfold[of p] walk_append walk_none)
      moreover have "length (chain q) < length (chain p)" using Some by (simp add: chain_unfold[of p])
      moreover have "chain p = p # chain q" using Some by (simp add: chain_unfold[of p])
      ultimately show ?thesis
        using less.hyps[of q] ok(1) False f by (auto split: option.splits if_splits)
    qed
  qed
qed

text \<open>\<open>find_packet_instance\<close> answers the outermost packet strictly inside
  of the root that has the name of the class, and NULL exactly when there is none.\<close>

theorem find_packet_instance_outermost:
  assumes "chain_ok p"
  shows "find_packet_instance p class_name = find (\<lambda>q. NAMEOF q = class_name) (tl (chain p))"
  using assms
proof (induction "length (chain p)" arbitrary: p rule: less_induct)
  case less
  show ?case
  proof (cases "pk_payload p")
    case None
    then show ?thesis by (simp add: chain_unfold[of p] find_packet_instance_unfold[of p] walk_null)
  next
    case (Some q)
    note ok = chain_ok_payload[OF less.prems Some]
    obtain xs i ys where s: "properties p = xs @ i # ys" "pr_type i = FIELD_TYPE_PACKET"
      "\<forall>j\<in>set xs. pr_type j \<noteq> FIELD_TYPE_PACKET" "\<forall>j\<in>set ys. pr_type j \<noteq> FIELD_TYPE_PACKET"
      by (rule packet_props_split[OF ok(2)])
    have "length (chain q) < length (chain p)" using Some by (simp add: chain_unfold[of p])
    then have "find_packet_instance q class_name = find (\<lambda>q. NAMEOF q = class_name) (tl (chain q))"
      using less.hyps ok(1) by blast
    then show ?thesis
      using Some s chain_unfold[of q]
      by (simp add: chain_unfold[of p] find_packet_instance_unfold[of p] walk_append walk_none split: option.splits)
  qed
qed

text \<open>\<open>get_field_by_name_r\<close> looks at the properties in
  front of the packet member, then inside of that packet, then at the properties behind it. When a
  property behind it is the answer the node that it hands back is not the one that has the property,
  but the innermost packet, where the search of the packet member has left the pointer.\<close>

theorem get_field_by_name_r_node:
  assumes "chain_ok p" and "pk_payload p = Some q" and "properties p = xs @ i # ys"
    and "pr_type i = FIELD_TYPE_PACKET" and "pr_name i \<noteq> nm"
    and "find (\<lambda>j. pr_name j = nm) xs = None" and "snd (get_field_by_name_r q nm) = None"
    and "find (\<lambda>j. pr_name j = nm) ys = Some k"
  shows "get_field_by_name_r p nm = (last (chain p), Some k)"
proof -
  have "length (packet_props (properties p)) = 1" using chain_ok_payload[OF assms(1,2)] by simp
  then have n: "\<forall>j\<in>set xs. pr_type j \<noteq> FIELD_TYPE_PACKET" "\<forall>j\<in>set ys. pr_type j \<noteq> FIELD_TYPE_PACKET"
    using assms(3,4) by (auto simp: packet_props_def filter_empty_conv)
  have m: "get_field_by_name_r q nm = (last (chain q), None)"
    using get_field_by_name_r_miss[OF _ assms(7)] chain_ok_payload[OF assms(1,2)] assms(7)
    by (metis prod.collapse)
  show ?thesis
    using assms n m by (simp add: get_field_by_name_r_unfold[of p] walk_append walk_none chain_unfold[of p])
qed

end
