(* ===== verification/Network.thy ===== *)
theory Network
  imports Packet
begin

text \<open>
  The dissectors of \<open>src/src/network/network.c\<close> and the structs of
  \<open>src/src/include/network.h\<close>: link layers, IP, TCP and UDP. Each \<open>Read\<close> method reads the
  header through its superclass, chooses the class of the payload by a member of the header and
  hands it the rest of the input. The bit fields of a header are the byte that the format reads:
  \<open>ihl_version\<close> of IP, \<open>doff_res1\<close> and \<open>flags\<close> of TCP.
\<close>

section \<open>Classes\<close>

definition DLT_EN10MB :: int where "DLT_EN10MB = 1"
definition DLT_RAW :: int where "DLT_RAW = 12"
definition DLT_RAW2 :: int where "DLT_RAW2 = 14"
definition DLT_RAW3 :: int where "DLT_RAW3 = 101"
definition DLT_IEEE802_11 :: int where "DLT_IEEE802_11 = 105"
definition DLT_LINUX_SLL :: int where "DLT_LINUX_SLL = 113"

lemmas link_types = DLT_EN10MB_def DLT_RAW_def DLT_RAW2_def DLT_RAW3_def DLT_IEEE802_11_def DLT_LINUX_SLL_def

definition MAX_PACKET_SIZE :: int where "MAX_PACKET_SIZE = 65536"

definition Root :: pclass where
  "Root = \<lparr>cl_name = ''Root'', cl_format = [],
     cl_members = [(''link_type'', SInt 0), (''packet_id'', SInt 0)],
     cl_props = [NAME_ACCESS ''packet_id'' ''packet_id'' FIELD_TYPE_INT 4,
       NAME_ACCESS ''link_type'' ''link_type'' FIELD_TYPE_INT 4,
       NAME_ACCESS ''eth'' ''eth'' FIELD_TYPE_PACKET SIZEOF_PTR]\<rparr>"

definition cooked_Format :: "nat list" where
  "cooked_Format = [STRUCT_SHORT, STRUCT_SHORT, STRUCT_SHORT, STRUCT_ETH_ADDR, STRUCT_CHAR, STRUCT_CHAR,
     STRUCT_SHORT]"

definition Cooked :: pclass where
  "Cooked = \<lparr>cl_name = ''Cooked'', cl_format = cooked_Format,
     cl_members = [(''packet_type'', SShort 0), (''link_layer_addr_type'', SShort 0),
       (''link_layer_addr_len'', SShort 0), (''link_layer_header'', SEth (replicate 6 0)),
       (''link_layer_header_6'', SChar 0), (''link_layer_header_7'', SChar 0), (''type'', SShort 0)],
     cl_props = [NAME_ACCESS ''type'' ''type'' FIELD_TYPE_SHORT_X 2,
       NAME_ACCESS ''payload'' ''payload'' FIELD_TYPE_PACKET SIZEOF_PTR]\<rparr>"

definition pppoe_Format :: "nat list" where
  "pppoe_Format = [STRUCT_CHAR, STRUCT_CHAR, STRUCT_SHORT, STRUCT_SHORT, STRUCT_SHORT]"

definition PPPOE :: pclass where
  "PPPOE = \<lparr>cl_name = ''PPPOE'', cl_format = pppoe_Format,
     cl_members = [(''version'', SChar 0), (''session_data'', SChar 0), (''session_id'', SShort 0),
       (''payload_length'', SShort 0), (''protocol'', SShort 0)],
     cl_props = [NAME_ACCESS ''version'' ''version'' FIELD_TYPE_SHORT_X 1,
       NAME_ACCESS ''session_id'' ''session_id'' FIELD_TYPE_SHORT_X 2,
       NAME_ACCESS ''payload'' ''payload'' FIELD_TYPE_PACKET SIZEOF_PTR]\<rparr>"

definition ethernet_2_Format :: "nat list" where
  "ethernet_2_Format = [STRUCT_ETH_ADDR, STRUCT_ETH_ADDR, STRUCT_SHORT]"

definition ETH_II :: pclass where
  "ETH_II = \<lparr>cl_name = ''eth'', cl_format = ethernet_2_Format,
     cl_members = [(''destination'', SEth (replicate 6 0)), (''source'', SEth (replicate 6 0)),
       (''type'', SShort 0)],
     cl_props = [NAME_ACCESS ''destination'' ''destination'' FIELD_TYPE_ETH_ADD 6,
       NAME_ACCESS ''source'' ''source'' FIELD_TYPE_ETH_ADD 6,
       NAME_ACCESS ''type'' ''type'' FIELD_TYPE_SHORT_X 2,
       NAME_ACCESS ''payload'' ''payload'' FIELD_TYPE_PACKET SIZEOF_PTR]\<rparr>"

definition ieee_802_11_format :: "nat list" where
  "ieee_802_11_format = [STRUCT_SHORT, STRUCT_SHORT, STRUCT_ETH_ADDR, STRUCT_ETH_ADDR, STRUCT_ETH_ADDR,
     STRUCT_SHORT, STRUCT_CHAR, STRUCT_CHAR, STRUCT_CHAR, STRUCT_CHAR, STRUCT_CHAR, STRUCT_CHAR, STRUCT_SHORT]"

definition IEEE80211 :: pclass where
  "IEEE80211 = \<lparr>cl_name = ''IEEE80211'', cl_format = ieee_802_11_format,
     cl_members = [(''frame_control'', SShort 0), (''duration'', SShort 0), (''bss'', SEth (replicate 6 0)),
       (''source'', SEth (replicate 6 0)), (''dest'', SEth (replicate 6 0)), (''seq'', SShort 0),
       (''dsap'', SChar 0), (''ssap'', SChar 0), (''llc_control'', SChar 0), (''org_code_0'', SChar 0),
       (''org_code_1'', SChar 0), (''org_code_2'', SChar 0), (''type'', SShort 0)],
     cl_props = [NAME_ACCESS ''bss'' ''bss'' FIELD_TYPE_ETH_ADD 6,
       NAME_ACCESS ''source'' ''source'' FIELD_TYPE_ETH_ADD 6,
       NAME_ACCESS ''dest'' ''dest'' FIELD_TYPE_ETH_ADD 6,
       NAME_ACCESS ''seq'' ''seq'' FIELD_TYPE_SHORT_X 2,
       NAME_ACCESS ''type'' ''type'' FIELD_TYPE_SHORT_X 2,
       NAME_ACCESS ''payload'' ''payload'' FIELD_TYPE_PACKET SIZEOF_PTR]\<rparr>"

definition ip_Format :: "nat list" where
  "ip_Format = [STRUCT_CHAR, STRUCT_CHAR, STRUCT_SHORT, STRUCT_SHORT, STRUCT_SHORT, STRUCT_CHAR, STRUCT_CHAR,
     STRUCT_SHORT, STRUCT_INT, STRUCT_INT]"

definition IP :: pclass where
  "IP = \<lparr>cl_name = ''IP'', cl_format = ip_Format,
     cl_members = [(''ihl_version'', SChar 0), (''tos'', SChar 0), (''tot_len'', SShort 0), (''id'', SShort 0),
       (''frag_off'', SShort 0), (''ttl'', SChar 0), (''protocol'', SChar 0), (''check'', SShort 0),
       (''saddr'', SInt 0), (''daddr'', SInt 0), (''_src'', SInt 0), (''_dest'', SInt 0)],
     cl_props = [NAME_ACCESS ''saddr'' ''source_addr'' FIELD_TYPE_IP_ADDR 4,
       NAME_ACCESS ''daddr'' ''dest_addr'' FIELD_TYPE_IP_ADDR 4,
       NAME_ACCESS ''_src'' ''src'' FIELD_TYPE_INT32 4,
       NAME_ACCESS ''_dest'' ''dest'' FIELD_TYPE_INT32 4,
       NAME_ACCESS ''ttl'' ''ttl'' FIELD_TYPE_CHAR 1,
       NAME_ACCESS ''protocol'' ''protocol'' FIELD_TYPE_CHAR 1,
       NAME_ACCESS ''id'' ''id'' FIELD_TYPE_SHORT 2,
       NAME_ACCESS ''payload'' ''payload'' FIELD_TYPE_PACKET SIZEOF_PTR]\<rparr>"

definition tcp_Format :: "nat list" where
  "tcp_Format = [STRUCT_SHORT, STRUCT_SHORT, STRUCT_INT, STRUCT_INT, STRUCT_CHAR, STRUCT_CHAR,
     STRUCT_SHORT, STRUCT_SHORT]"

definition TCP :: pclass where
  "TCP = \<lparr>cl_name = ''TCP'', cl_format = tcp_Format,
     cl_members = [(''source'', SShort 0), (''dest'', SShort 0), (''seq'', SInt 0), (''ack_seq'', SInt 0),
       (''doff_res1'', SChar 0), (''flags'', SChar 0), (''window'', SShort 0), (''check'', SShort 0),
       (''len'', SInt 0), (''data_offset'', SInt 0), (''data_len'', SInt 0), (''data'', SStr [])],
     cl_props = [NAME_ACCESS ''source'' ''source'' FIELD_TYPE_SHORT 2,
       NAME_ACCESS ''dest'' ''dest'' FIELD_TYPE_SHORT 2,
       NAME_ACCESS ''seq'' ''seq'' FIELD_TYPE_INT32 4,
       NAME_ACCESS ''ack_seq'' ''ack_seq'' FIELD_TYPE_INT32 4,
       NAME_ACCESS ''len'' ''len'' FIELD_TYPE_INT 4,
       NAME_ACCESS ''window'' ''window'' FIELD_TYPE_SHORT 2,
       NAME_ACCESS ''data_offset'' ''data_offset'' FIELD_TYPE_INT 4,
       NAME_ACCESS ''data_len'' ''data_len'' FIELD_TYPE_INT 4,
       NAME_ACCESS_SIZE ''data'' ''data'' FIELD_TYPE_STRING ''data_len'']\<rparr>"

definition udp_Format :: "nat list" where
  "udp_Format = [STRUCT_SHORT, STRUCT_SHORT, STRUCT_SHORT, STRUCT_SHORT]"

definition UDP :: pclass where
  "UDP = \<lparr>cl_name = ''UDP'', cl_format = udp_Format,
     cl_members = [(''src_port'', SShort 0), (''dest_port'', SShort 0), (''length'', SShort 0),
       (''checksum'', SShort 0), (''seq'', SInt 0), (''data_offset'', SInt 0), (''data_len'', SInt 0),
       (''data'', SStr [])],
     cl_props = [NAME_ACCESS ''src_port'' ''source'' FIELD_TYPE_SHORT 2,
       NAME_ACCESS ''dest_port'' ''dest'' FIELD_TYPE_SHORT 2,
       NAME_ACCESS ''src_port'' ''src_port'' FIELD_TYPE_SHORT 2,
       NAME_ACCESS ''dest_port'' ''dest_port'' FIELD_TYPE_SHORT 2,
       NAME_ACCESS ''length'' ''length'' FIELD_TYPE_SHORT 2,
       NAME_ACCESS ''checksum'' ''checksum'' FIELD_TYPE_SHORT_X 2,
       NAME_ACCESS_SIZE ''data'' ''data'' FIELD_TYPE_STRING ''data_len'',
       NAME_ACCESS ''data_len'' ''data_len'' FIELD_TYPE_INT 4,
       NAME_ACCESS ''seq'' ''seq'' FIELD_TYPE_INT32 4,
       NAME_ACCESS ''data_offset'' ''data_offset'' FIELD_TYPE_INT 4]\<rparr>"

section \<open>Dissectors\<close>

text \<open>\<open>talloc_memdup\<close> of \<open>n\<close> bytes at an offset of a block; a refused allocation is NULL, here
  the empty block, and copies nothing.\<close>

definition talloc_memdup :: "byte list \<Rightarrow> int \<Rightarrow> int \<Rightarrow> byte list option" where
  "talloc_memdup m off n =
     (if u64 n \<ge> MAX_TALLOC_SIZE then Some [] else mem_read m off (u64 n))"

definition TCP_Read :: "registry \<Rightarrow> packet \<Rightarrow> stringio \<Rightarrow> (packet \<times> stringio \<times> int) option" where
  "TCP_Read reg self input = do {
     (self, input, _) \<leftarrow> Packet_Read reg self input;
     let len = u32 (get_num self ''doff_res1'' div 16 * 4);
     let data_offset = u32 (pk_start self + len);
     let self = set_member ''data_offset'' (SInt data_offset) (set_member ''len'' (SInt len) self);
     if u32 (sio_size input) \<le> data_offset then
       Some (set_member ''data'' (SStr []) (set_member ''data_len'' (SInt 0) self), input,
             s32 (sio_size input - pk_start self))
     else do {
       (input, _) \<leftarrow> StringIO_seek input data_offset SEEK_SET;
       let data_len = s32 (min (u64 (sio_size input - sio_readptr input)) MAX_PACKET_SIZE);
       data \<leftarrow> talloc_memdup (sio_data input) (sio_readptr input) data_len;
       Some (set_member ''data'' (SStr data) (set_member ''data_len'' (SInt data_len) self), input,
             s32 (sio_size input - pk_start self))
     }
   }"

definition UDP_Read :: "registry \<Rightarrow> packet \<Rightarrow> stringio \<Rightarrow> (packet \<times> stringio \<times> int) option" where
  "UDP_Read reg self input = do {
     (self, input, len) \<leftarrow> Packet_Read reg self input;
     let data_len = s32 (min (get_num self ''length'') (sio_size input) - len);
     data \<leftarrow> talloc_memdup (sio_data input) (sio_readptr input) data_len;
     let self = set_member ''data_len'' (SInt data_len) self;
     let self = set_member ''data_offset'' (SInt (u32 (pk_start self + 8))) self;
     Some (set_member ''data'' (SStr data) self, input, get_num self ''length'')
   }"

text \<open>The part of \<open>IP_Read\<close> behind the choice of the payload: the position of the payload in the
  stream may lie behind the header, or in front of the position, and the packet ends where the
  payload has left the position.\<close>

definition IP_Payload :: "registry \<Rightarrow> packet \<Rightarrow> stringio \<Rightarrow>
    (packet \<Rightarrow> stringio \<Rightarrow> (packet \<times> stringio \<times> int) option) \<Rightarrow> pclass \<Rightarrow>
    (packet \<times> stringio \<times> int) option" where
  "IP_Payload reg self input read_payload cls = do {
     (input, _) \<leftarrow> StringIO_seek input (pk_start self + get_num self ''ihl_version'' mod 16 * 4) SEEK_SET;
     (q, input, _) \<leftarrow> read_payload (Packet_Con cls) input;
     Some (set_payload q self, input, s32 (u64 (sio_readptr input - pk_start self)))
   }"

definition IP_Read :: "registry \<Rightarrow> packet \<Rightarrow> stringio \<Rightarrow> (packet \<times> stringio \<times> int) option" where
  "IP_Read reg self input = do {
     (self, input, len) \<leftarrow> Packet_Read reg self input;
     let self = set_member ''_src'' (SInt (get_num self ''saddr'')) self;
     let self = set_member ''_dest'' (SInt (get_num self ''daddr'')) self;
     let total = pk_start self + get_num self ''tot_len'';
     let input = (if sio_size input > total then StringIO_truncate input total else input);
     if get_num self ''protocol'' = 0x6 then IP_Payload reg self input (TCP_Read reg) TCP
     else if get_num self ''protocol'' = 0x11 then IP_Payload reg self input (UDP_Read reg) UDP
     else Some (self, input, len)
   }"

text \<open>The layer below hands the rest of the input on and adds the lengths.\<close>

definition read_into_payload :: "packet \<Rightarrow> int \<Rightarrow> (packet \<times> stringio \<times> int) option \<Rightarrow>
    (packet \<times> stringio \<times> int) option" where
  "read_into_payload self len r =
     map_option (\<lambda>(q, input, n). (set_payload q self, input, s32 (len + n))) r"

definition PPPOE_Read :: "registry \<Rightarrow> packet \<Rightarrow> stringio \<Rightarrow> (packet \<times> stringio \<times> int) option" where
  "PPPOE_Read reg self input = do {
     (self, input, len) \<leftarrow> Packet_Read reg self input;
     if get_num self ''protocol'' = 0x0021
     then read_into_payload self len (IP_Read reg (Packet_Con IP) input)
     else Some (self, input, len)
   }"

definition Cooked_Read :: "registry \<Rightarrow> packet \<Rightarrow> stringio \<Rightarrow> (packet \<times> stringio \<times> int) option" where
  "Cooked_Read reg self input = do {
     (self, input, len) \<leftarrow> Packet_Read reg self input;
     if get_num self ''type'' = 0x800
     then read_into_payload self len (IP_Read reg (Packet_Con IP) input)
     else Some (self, input, len)
   }"

definition Eth2_Read :: "registry \<Rightarrow> packet \<Rightarrow> stringio \<Rightarrow> (packet \<times> stringio \<times> int) option" where
  "Eth2_Read reg self input = do {
     (self, input, len) \<leftarrow> Packet_Read reg self input;
     if get_num self ''type'' = 0x800
     then read_into_payload self len (IP_Read reg (Packet_Con IP) input)
     else if get_num self ''type'' = 0x8864
     then read_into_payload self len (PPPOE_Read reg (Packet_Con PPPOE) input)
     else Some (self, input, len)
   }"

definition IEEE80211_Read :: "registry \<Rightarrow> packet \<Rightarrow> stringio \<Rightarrow> (packet \<times> stringio \<times> int) option" where
  "IEEE80211_Read reg self input = do {
     (self, input, len) \<leftarrow> Packet_Read reg self input;
     if get_num self ''type'' = 0x800
     then read_into_payload self len (IP_Read reg (Packet_Con IP) input)
     else if get_num self ''type'' = 0x8864
     then read_into_payload self len (PPPOE_Read reg (Packet_Con PPPOE) input)
     else Some (self, input, len)
   }"

definition Root_Read :: "registry \<Rightarrow> packet \<Rightarrow> stringio \<Rightarrow> (packet \<times> stringio \<times> int) option" where
  "Root_Read reg self input = do {
     (self, input, _) \<leftarrow> Packet_Read reg self input;
     let link_type = get_num self ''link_type'';
     if link_type = DLT_EN10MB then read_into_payload self 0 (Eth2_Read reg (Packet_Con ETH_II) input)
     else if link_type = DLT_IEEE802_11
     then read_into_payload self 0 (IEEE80211_Read reg (Packet_Con IEEE80211) input)
     else if link_type = DLT_LINUX_SLL
     then read_into_payload self 0 (Cooked_Read reg (Packet_Con Cooked) input)
     else if link_type \<in> {DLT_RAW, DLT_RAW2, DLT_RAW3}
     then read_into_payload self 0 (IP_Read reg (Packet_Con IP) input)
     else Some (self, input, -1)
   }"

section \<open>Formats of the headers\<close>

text \<open>A registry after \<open>network_structs_init\<close>: the formats of the headers are registered.\<close>

definition header_formats :: "(nat \<times> codec) list" where
  "header_formats = [(STRUCT_CHAR, CChar), (STRUCT_SHORT, CShort), (STRUCT_SHORT_LE, CShortLE),
     (STRUCT_INT, CInt), (STRUCT_INT_LE, CIntLE), (STRUCT_ETH_ADDR, CEthMac)]"

definition net_ready :: "registry \<Rightarrow> bool" where
  "net_ready reg \<longleftrightarrow> registry_ready reg \<and>
     list_all (\<lambda>(f, c). struct_entry reg f = Some (Some (codec_size c, c))) header_formats"

lemma demo_net_ready: "net_ready demo_registry"
proof -
  have "list_all (\<lambda>(f, c). struct_entry demo_registry f = Some (Some (codec_size c, c))) header_formats"
    by code_simp
  then show ?thesis by (simp add: net_ready_def demo_registry_ready)
qed

lemma net_entries:
  assumes "net_ready reg"
  shows "struct_entry reg STRUCT_CHAR = Some (Some (1, CChar))"
    "struct_entry reg STRUCT_SHORT = Some (Some (2, CShort))"
    "struct_entry reg STRUCT_SHORT_LE = Some (Some (2, CShortLE))"
    "struct_entry reg STRUCT_INT = Some (Some (4, CInt))"
    "struct_entry reg STRUCT_INT_LE = Some (Some (4, CIntLE))"
    "struct_entry reg STRUCT_ETH_ADDR = Some (Some (6, CEthMac))" and "registry_ready reg"
  using assms by (simp_all add: net_ready_def header_formats_def)

definition tcp_codecs :: "codec list" where
  "tcp_codecs = [CShort, CShort, CInt, CInt, CChar, CChar, CShort, CShort]"

definition udp_codecs :: "codec list" where
  "udp_codecs = [CShort, CShort, CShort, CShort]"

definition ip_codecs :: "codec list" where
  "ip_codecs = [CChar, CChar, CShort, CShort, CShort, CChar, CChar, CShort, CInt, CInt]"

definition eth_codecs :: "codec list" where
  "eth_codecs = [CEthMac, CEthMac, CShort]"

lemmas header_codecs = tcp_codecs_def udp_codecs_def ip_codecs_def eth_codecs_def

lemma header_format_codecs:
  assumes "net_ready reg"
  shows "format_codecs reg (cl_format TCP) = Some tcp_codecs"
    "format_codecs reg (cl_format UDP) = Some udp_codecs"
    "format_codecs reg (cl_format IP) = Some ip_codecs"
    "format_codecs reg (cl_format ETH_II) = Some eth_codecs"
    "format_codecs reg (cl_format Root) = Some []"
  using net_entries[OF assms]
  by (simp_all add: TCP_def UDP_def IP_def ETH_II_def Root_def tcp_Format_def udp_Format_def ip_Format_def
      ethernet_2_Format_def header_codecs)

lemma header_sizes:
  "format_size tcp_codecs = 18" "format_size udp_codecs = 8" "format_size ip_codecs = 20"
  "format_size eth_codecs = 14"
  by (simp_all add: header_codecs format_size_def)

lemma header_fixed:
  "list_all codec_fixed tcp_codecs" "list_all codec_fixed udp_codecs" "list_all codec_fixed ip_codecs"
  "list_all codec_fixed eth_codecs"
  by (simp_all add: header_codecs codec_fixed_def)

lemma header_members:
  "members_fit tcp_codecs (Packet_Con TCP)" "members_fit udp_codecs (Packet_Con UDP)"
  "members_fit ip_codecs (Packet_Con IP)" "members_fit eth_codecs (Packet_Con ETH_II)"
  by (simp_all add: members_fit_def header_codecs Packet_Con_def TCP_def UDP_def IP_def ETH_II_def)

text \<open>A number is the same for every reader.\<close>

fun plain_slot :: "slot \<Rightarrow> bool" where
  "plain_slot (SChar b) = True"
| "plain_slot (SShort v) = True"
| "plain_slot (SInt v) = True"
| "plain_slot _ = False"

lemma slot_view_plain: "slot_view w = slot_view v \<Longrightarrow> plain_slot v \<Longrightarrow> w = v"
  by (cases v; cases w) auto

lemma map_slot_view_plain:
  "map slot_view ws = map slot_view vs \<Longrightarrow> list_all plain_slot vs \<Longrightarrow> ws = vs"
proof (induction vs arbitrary: ws)
  case (Cons v vs)
  then obtain w ws' where "ws = w # ws'" by (cases ws) auto
  with Cons show ?case using slot_view_plain[of w v] by auto
qed simp

section \<open>The transport layer\<close>

lemma sio_rest_block:
  assumes "sio_inv s" "0 \<le> off" "sio_readptr s + off + n \<le> sio_size s" "0 \<le> n"
  shows "mem_read (sio_data s) (sio_readptr s + off) n = Some (take (nat n) (drop (nat off) (sio_rest s)))"
proof -
  note b = sio_invD[OF assms(1)]
  have "take (nat n) (drop (nat off) (sio_rest s)) = take (nat n) (drop (nat (sio_readptr s + off)) (sio_data s))"
    using b assms by (simp add: sio_rest_eq drop_take nat_add_distrib add.commute min_def)
  then show ?thesis using b assms by (simp add: mem_read_def)
qed

lemma talloc_memdup_rest:
  assumes "sio_inv s" "0 \<le> off" "sio_readptr s + off + n \<le> sio_size s" "0 \<le> n"
  shows "talloc_memdup (sio_data s) (sio_readptr s + off) n = Some (take (nat n) (drop (nat off) (sio_rest s)))"
proof -
  have "u64 n = n" "n < MAX_TALLOC_SIZE"
    using assms sio_invD[OF assms(1)] by (auto simp: cint_simps MAX_TALLOC_SIZE_def)
  then show ?thesis using sio_rest_block[OF assms] by (simp add: talloc_memdup_def)
qed

lemma nibble_bounds:
  "0 \<le> uint (d :: byte) div 16 * 4" "uint d div 16 * 4 \<le> 60"
  "0 \<le> uint d mod 16 * 4" "uint d mod 16 * 4 \<le> 60"
proof -
  have "0 \<le> uint d" "uint d < 256" using uint_bounded[of d] by simp_all
  then have "0 \<le> uint d div 16" "uint d div 16 < 16" "0 \<le> uint d mod 16" "uint d mod 16 < 16"
    by (simp_all add: pos_imp_zdiv_nonneg_iff div_less_iff_less_mult)
  then show "0 \<le> uint d div 16 * 4" "uint d div 16 * 4 \<le> 60"
    "0 \<le> uint d mod 16 * 4" "uint d mod 16 * 4 \<le> 60" by linarith+
qed

definition tcp_data :: "int \<Rightarrow> byte list \<Rightarrow> byte list" where
  "tcp_data off segment = take (nat MAX_PACKET_SIZE) (drop (nat off) segment)"

text \<open>What \<open>TCP_Read\<close> makes of a header and the segment that it begins.\<close>

definition tcp_packet :: "int \<Rightarrow> int \<Rightarrow> slot list \<Rightarrow> byte \<Rightarrow> byte list \<Rightarrow> packet" where
  "tcp_packet start hlen vs d segment =
     (let off = uint d div 16 * 4; dat = tcp_data off segment in
      Packet TCP start hlen (zip (map fst (cl_members TCP))
        (vs @ [SInt off, SInt (start + off), SInt (int (length dat)), SStr dat])) None)"

lemma TCP_Read_tail:
  assumes inv: "sio_inv inp" "sio_inv inp1" "sio_same inp inp1" and vs: "vs = [a, b, c, e, SChar d, f, g, h]"
    and rd: "Packet_Read reg (Packet_Con TCP) inp = Some (Packet TCP (sio_readptr inp) hlen
        (zip (map fst (cl_members TCP)) (vs @ [SInt 0, SInt 0, SInt 0, SStr []])) None, inp1, r)"
  shows "\<exists>inp'. TCP_Read reg (Packet_Con TCP) inp =
      Some (tcp_packet (sio_readptr inp) hlen vs d (sio_rest inp), inp', sio_size inp - sio_readptr inp) \<and>
    sio_inv inp' \<and> sio_same inp inp'"
proof -
  let ?off = "uint d div 16 * 4" and ?rp = "sio_readptr inp"
  note b = sio_invD[OF inv(1)]
  have sz: "sio_size inp1 = sio_size inp" using inv(3) by (simp add: sio_same_def)
  have o: "0 \<le> ?off" "?off \<le> 60" by (rule nibble_bounds)+
  have w: "u32 ?off = ?off" "u32 (?rp + ?off) = ?rp + ?off" "u32 (sio_size inp) = sio_size inp"
    "s32 (sio_size inp - ?rp) = sio_size inp - ?rp"
    using o b by (simp_all add: cint_simps)
  have m: "map fst (cl_members TCP) = [''source'', ''dest'', ''seq'', ''ack_seq'', ''doff_res1'', ''flags'',
      ''window'', ''check'', ''len'', ''data_offset'', ''data_len'', ''data'']"
    by (simp add: TCP_def)
  show ?thesis
  proof (cases "sio_size inp \<le> ?rp + ?off")
    case True
    then have "tcp_data ?off (sio_rest inp) = []"
      using length_sio_rest[OF inv(1)] o by (simp add: tcp_data_def)
    then show ?thesis
      using True w sz inv vs by (simp add: TCP_Read_def rd m get_num_def tcp_packet_def Let_def)
  next
    case False
    let ?s = "inp1\<lparr>sio_readptr := ?rp + ?off\<rparr>"
    have sk: "StringIO_seek inp1 (?rp + ?off) SEEK_SET = Some (?s, ?rp + ?off)" "sio_inv ?s"
      using StringIO_seek_spec[OF inv(2), of "?rp + ?off"] False sz b o by auto
    define n where "n = min (sio_size inp - (?rp + ?off)) MAX_PACKET_SIZE"
    have n: "0 \<le> n" "?rp + ?off + n \<le> sio_size inp" "n \<le> 65536"
      using False by (auto simp: n_def MAX_PACKET_SIZE_def)
    have wn: "s32 (min (u64 (sio_size inp - (?rp + ?off))) MAX_PACKET_SIZE) = n"
      using False b o n by (simp add: n_def cint_simps)
    have dt: "sio_data inp1 = sio_data inp" using inv(3) by (simp add: sio_same_def)
    have td: "take (nat n) (drop (nat ?off) (sio_rest inp)) = tcp_data ?off (sio_rest inp)"
      using length_sio_rest[OF inv(1)] o False by (auto simp: n_def tcp_data_def min_def nat_diff_distrib)
    have md: "talloc_memdup (sio_data inp) (?rp + ?off) n = Some (tcp_data ?off (sio_rest inp))"
      using talloc_memdup_rest[OF inv(1) o(1) n(2,1)] td by simp
    have "int (length (tcp_data ?off (sio_rest inp))) = n"
      unfolding td[symmetric] using length_sio_rest[OF inv(1)] n o False by simp
    then show ?thesis
      using False w sz inv(3) sk vs wn md dt
      by (simp add: TCP_Read_def rd m get_num_def tcp_packet_def Let_def sio_same_def)
  qed
qed

lemma packet_con_fields:
  "pk_class (Packet_Con cls) = cls" "pk_struct (Packet_Con cls) = cl_members cls"
  "pk_payload (Packet_Con cls) = None"
  by (simp_all add: Packet_Con_def)

lemma header_lengths:
  "length tcp_codecs = 8" "length udp_codecs = 4" "length ip_codecs = 10" "length eth_codecs = 3"
  by (simp_all add: header_codecs)

lemma TCP_Read_spec:
  assumes reg: "net_ready reg" and inp: "sio_inv inp"
    and vs: "vs = [SShort sp, SShort dp, SInt sq, SInt ak, SChar d, SChar fl, SShort wi, SShort ck]"
    and wf: "list_all2 codec_wf tcp_codecs vs" and rest: "sio_rest inp = format_enc tcp_codecs vs @ ys"
  shows "\<exists>inp'. TCP_Read reg (Packet_Con TCP) inp =
      Some (tcp_packet (sio_readptr inp) 18 vs d (sio_rest inp), inp', sio_size inp - sio_readptr inp) \<and>
    sio_inv inp' \<and> sio_same inp inp'"
proof -
  have f: "format_codecs reg (cl_format (pk_class (Packet_Con TCP))) = Some tcp_codecs"
    using header_format_codecs[OF reg] by (simp add: packet_con_fields)
  obtain inp1 ws where r: "Packet_Read reg (Packet_Con TCP) inp = Some (Packet TCP (sio_readptr inp) 18
      (zip (map fst (cl_members TCP)) (ws @ map snd (drop 8 (cl_members TCP)))) None, inp1, 18)"
    "map slot_view ws = map slot_view vs" "sio_inv inp1" "sio_same inp inp1"
    by (rule Packet_Read_ok[OF net_entries(7)[OF reg] f header_fixed(1) wf inp rest header_members(1)])
      (simp add: packet_con_fields header_sizes header_lengths)
  have "ws = vs" by (rule map_slot_view_plain[OF r(2)]) (simp add: vs)
  then have "Packet_Read reg (Packet_Con TCP) inp = Some (Packet TCP (sio_readptr inp) 18
      (zip (map fst (cl_members TCP)) (vs @ [SInt 0, SInt 0, SInt 0, SStr []])) None, inp1, 18)"
    using r(1) by (simp add: TCP_def)
  from TCP_Read_tail[OF inp r(3,4) vs this] show ?thesis .
qed

lemma TCP_Read_any:
  assumes reg: "net_ready reg" and inp: "sio_inv inp"
  shows "\<exists>inp' hlen vs d. TCP_Read reg (Packet_Con TCP) inp =
      Some (tcp_packet (sio_readptr inp) hlen vs d (sio_rest inp), inp', sio_size inp - sio_readptr inp) \<and>
    sio_inv inp' \<and> length vs = 8 \<and> vs ! 4 = SChar d"
proof -
  have f: "format_codecs reg (cl_format (pk_class (Packet_Con TCP))) = Some tcp_codecs"
    using header_format_codecs[OF reg] by (simp add: packet_con_fields)
  have mw: "list_all2 codec_wf tcp_codecs (map snd (take (length tcp_codecs) (pk_struct (Packet_Con TCP))))"
    by (simp add: packet_con_fields TCP_def tcp_codecs_def)
  obtain inp1 ws r where r: "Packet_Read reg (Packet_Con TCP) inp = Some (Packet TCP (sio_readptr inp)
      (sio_readptr inp1 - sio_readptr inp)
      (zip (map fst (cl_members TCP)) (ws @ map snd (drop 8 (cl_members TCP)))) None, inp1, r)"
    "list_all2 codec_wf tcp_codecs ws" "sio_inv inp1" "sio_same inp inp1"
    using Packet_Read_total[OF net_entries(7)[OF reg] f header_fixed(1) inp header_members(1) mw]
    by (auto simp: packet_con_fields header_lengths)
  from r(2) obtain a b c e d' f g h where ws: "ws = [a, b, c, e, d', f, g, h]" "codec_wf CChar d'"
    by (auto simp: tcp_codecs_def list_all2_Cons1)
  then obtain d where d: "d' = SChar d" by (cases d') auto
  have "Packet_Read reg (Packet_Con TCP) inp = Some (Packet TCP (sio_readptr inp) (sio_readptr inp1 - sio_readptr inp)
      (zip (map fst (cl_members TCP)) (ws @ [SInt 0, SInt 0, SInt 0, SStr []])) None, inp1, r)"
    using r(1) by (simp add: TCP_def)
  from TCP_Read_tail[OF inp r(3,4) ws(1)[unfolded d] this] show ?thesis using ws(1) d by fastforce
qed

lemma UDP_Read_spec:
  assumes reg: "net_ready reg" and inp: "sio_inv inp"
    and vs: "vs = [SShort sp, SShort dp, SShort L, SShort ck]"
    and wf: "list_all2 codec_wf udp_codecs vs" and rest: "sio_rest inp = format_enc udp_codecs vs @ ys"
  obtains inp' where "UDP_Read reg (Packet_Con UDP) inp =
      map_option (\<lambda>data. (Packet UDP (sio_readptr inp) 8 (zip (map fst (cl_members UDP))
          (vs @ [SInt 0, SInt (sio_readptr inp + 8), SInt (min L (sio_size inp) - 8), SStr data])) None, inp', L))
        (talloc_memdup (sio_data inp) (sio_readptr inp + 8) (min L (sio_size inp) - 8))"
    "sio_inv inp'" "sio_rest inp' = ys" "sio_same inp inp'" "sio_readptr inp' = sio_readptr inp + 8"
proof -
  have f: "format_codecs reg (cl_format (pk_class (Packet_Con UDP))) = Some udp_codecs"
    using header_format_codecs[OF reg] by (simp add: packet_con_fields)
  obtain inp1 ws where r: "Packet_Read reg (Packet_Con UDP) inp = Some (Packet UDP (sio_readptr inp) 8
      (zip (map fst (cl_members UDP)) (ws @ map snd (drop 4 (cl_members UDP)))) None, inp1, 8)"
    "map slot_view ws = map slot_view vs" "sio_inv inp1" "sio_same inp inp1" "sio_rest inp1 = ys"
    "sio_readptr inp1 = sio_readptr inp + 8"
    by (rule Packet_Read_ok[OF net_entries(7)[OF reg] f header_fixed(2) wf inp rest header_members(2)])
      (simp add: packet_con_fields header_sizes header_lengths)
  have ws: "ws = vs" by (rule map_slot_view_plain[OF r(2)]) (simp add: vs)
  note b = sio_invD[OF inp]
  have L: "0 \<le> L" "L < 65536" using wf by (simp_all add: vs udp_codecs_def)
  have w: "s32 (min L (sio_size inp) - 8) = min L (sio_size inp) - 8"
    "u32 (sio_readptr inp + 8) = sio_readptr inp + 8"
    using L b by (auto simp: cint_simps min_def)
  have "UDP_Read reg (Packet_Con UDP) inp =
      map_option (\<lambda>data. (Packet UDP (sio_readptr inp) 8 (zip (map fst (cl_members UDP))
          (vs @ [SInt 0, SInt (sio_readptr inp + 8), SInt (min L (sio_size inp) - 8), SStr data])) None, inp1, L))
        (talloc_memdup (sio_data inp) (sio_readptr inp + 8) (min L (sio_size inp) - 8))"
    using r w ws vs
    by (cases "talloc_memdup (sio_data inp) (sio_readptr inp + 8) (min L (sio_size inp) - 8)")
      (simp_all add: UDP_Read_def UDP_def get_num_def Let_def sio_same_def)
  then show ?thesis using that[of inp1] r by simp
qed

section \<open>The network layer\<close>

definition ip_packet :: "int \<Rightarrow> slot list \<Rightarrow> int \<Rightarrow> int \<Rightarrow> packet" where
  "ip_packet start vs sa da =
     Packet IP start 20 (zip (map fst (cl_members IP)) (vs @ [SInt sa, SInt da])) None"

lemma StringIO_truncate_rest:
  assumes "sio_inv s" "sio_readptr s \<le> len" "len \<le> sio_size s"
  shows "sio_rest (StringIO_truncate s len) = take (nat (len - sio_readptr s)) (sio_rest s)"
proof -
  have l: "0 \<le> len" using assms sio_invD[OF assms(1)] by simp
  have "nat len - nat (sio_readptr s) = nat (len - sio_readptr s)"
    "nat len \<le> nat (sio_size s)" "nat (len - sio_readptr s) \<le> nat (sio_size s) - nat (sio_readptr s)"
    using assms sio_invD[OF assms(1)] by (simp_all add: nat_diff_distrib)
  then show ?thesis
    using StringIO_truncate_spec(2)[OF assms(1) l assms(3)] assms(2)
    unfolding sio_rest_def f_rest_def by (simp add: sio_abs_def drop_take min_def split: if_splits)
qed

lemma sio_rest_advance:
  assumes "sio_inv s" "sio_readptr s \<le> p"
  shows "sio_rest (s\<lparr>sio_readptr := p\<rparr>) = drop (nat (p - sio_readptr s)) (sio_rest s)"
  using assms sio_invD[OF assms(1)] by (simp add: sio_rest_eq nat_diff_distrib add.commute)

text \<open>The input that \<open>IP_Read\<close> hands to the dissector of the payload ends where the datagram ends
  and stands behind the options.\<close>

lemma IP_Read_spec:
  assumes reg: "net_ready reg" and inp: "sio_inv inp"
    and vs: "vs = [SChar hl, SChar tos, SShort tot, SShort iden, SShort frag, SChar ttl, SChar pr, SShort ck,
      SInt sa, SInt da]"
    and wf: "list_all2 codec_wf ip_codecs vs"
    and rest: "sio_rest inp = format_enc ip_codecs vs @ opts @ body @ trailer"
    and hl: "uint hl mod 16 * 4 = 20 + int (length opts)"
    and tot: "tot = 20 + int (length opts) + int (length body)"
  obtains inp2 where "sio_inv inp2" "sio_rest inp2 = body" "sio_data inp2 = sio_data inp"
    "sio_readptr inp2 = sio_readptr inp + uint hl mod 16 * 4" "sio_size inp2 = sio_readptr inp + tot"
    "uint pr = 6 \<Longrightarrow> IP_Read reg (Packet_Con IP) inp =
       map_option (\<lambda>(q, i, _). (set_payload q (ip_packet (sio_readptr inp) vs sa da), i,
           s32 (u64 (sio_readptr i - sio_readptr inp)))) (TCP_Read reg (Packet_Con TCP) inp2)"
    "uint pr = 17 \<Longrightarrow> IP_Read reg (Packet_Con IP) inp =
       map_option (\<lambda>(q, i, _). (set_payload q (ip_packet (sio_readptr inp) vs sa da), i,
           s32 (u64 (sio_readptr i - sio_readptr inp)))) (UDP_Read reg (Packet_Con UDP) inp2)"
proof -
  let ?rp = "sio_readptr inp" and ?ys = "opts @ body @ trailer"
  have f: "format_codecs reg (cl_format (pk_class (Packet_Con IP))) = Some ip_codecs"
    using header_format_codecs[OF reg] by (simp add: packet_con_fields)
  obtain inp1 ws where r: "Packet_Read reg (Packet_Con IP) inp = Some (Packet IP ?rp 20
      (zip (map fst (cl_members IP)) (ws @ map snd (drop 10 (cl_members IP)))) None, inp1, 20)"
    "map slot_view ws = map slot_view vs" "sio_inv inp1" "sio_rest inp1 = ?ys" "sio_same inp inp1"
    "sio_readptr inp1 = ?rp + 20"
    by (rule Packet_Read_ok[OF net_entries(7)[OF reg] f header_fixed(3) wf inp rest header_members(3)])
      (simp add: packet_con_fields header_sizes header_lengths)
  have ws: "ws = vs" by (rule map_slot_view_plain[OF r(2)]) (simp add: vs)
  note b = sio_invD[OF inp] sio_invD[OF r(3)]
  have sz: "sio_size inp1 = ?rp + tot + int (length trailer)"
    using length_sio_rest[OF r(3)] r(4,6) tot by simp
  define i2 where "i2 = (if sio_size inp1 > ?rp + tot then StringIO_truncate inp1 (?rp + tot) else inp1)"
  have tot0: "0 \<le> tot" "20 \<le> tot" using tot by simp_all
  have i2p: "sio_inv i2 \<and> sio_size i2 = ?rp + tot \<and> sio_readptr i2 = ?rp + 20 \<and>
      sio_data i2 = sio_data inp \<and> sio_rest i2 = opts @ body"
  proof (cases "trailer = []")
    case True
    then show ?thesis using sz r by (simp add: sio_same_def i2_def)
  next
    case False
    then have g: "sio_size inp1 > ?rp + tot" using sz by simp
    have tr: "0 \<le> ?rp + tot" "?rp + tot \<le> sio_size inp1" using b tot0 g by simp_all
    note t = StringIO_truncate_spec[OF r(3) tr]
    have "sio_rest (StringIO_truncate inp1 (?rp + tot)) = take (nat (tot - 20)) (sio_rest inp1)"
      using StringIO_truncate_rest[OF r(3) _ tr(2)] r(6) tot0 by simp
    also have "nat (tot - 20) = length (opts @ body)" using tot by simp
    finally have "sio_rest (StringIO_truncate inp1 (?rp + tot)) = opts @ body" by (simp add: r(4))
    moreover have "sio_data (StringIO_truncate inp1 (?rp + tot)) = sio_data inp"
      using r(5) by (simp add: StringIO_truncate_def Let_def sio_same_def)
    ultimately show ?thesis using g t r(6) tot0 by (simp add: i2_def)
  qed
  let ?p = "?rp + uint hl mod 16 * 4" and ?s = "i2\<lparr>sio_readptr := ?rp + uint hl mod 16 * 4\<rparr>"
  have sk: "StringIO_seek i2 ?p SEEK_SET = Some (?s, ?p)" "sio_inv ?s"
    using StringIO_seek_spec[of i2 ?p] i2p b hl tot by auto
  have "sio_rest ?s = drop (length opts) (sio_rest i2)"
    using sio_rest_advance[of i2 ?p] i2p hl by simp
  then have rs: "sio_rest ?s = body" using i2p by simp
  let ?ip = "ip_packet ?rp vs sa da"
  have run: "IP_Read reg (Packet_Con IP) inp =
      (if uint pr = 6 then IP_Payload reg ?ip i2 (TCP_Read reg) TCP
       else if uint pr = 17 then IP_Payload reg ?ip i2 (UDP_Read reg) UDP
       else Some (?ip, i2, 20))"
    unfolding IP_Read_def r(1) ws
    by (simp add: vs IP_def get_num_def Let_def ip_packet_def i2_def del: if_split cong: if_cong)
  have ipl: "IP_Payload reg ?ip i2 rd cls = map_option (\<lambda>(q, i, _). (set_payload q ?ip, i,
      s32 (u64 (sio_readptr i - ?rp)))) (rd (Packet_Con cls) ?s)" for rd cls
    using sk(1) unfolding IP_Payload_def
    by (simp add: ip_packet_def vs IP_def get_num_def split: bind_splits option.splits del: if_split)
  show ?thesis
  proof (rule that[of ?s])
    show "sio_inv ?s" "sio_rest ?s = body" by (rule sk(2), rule rs)
    show "sio_data ?s = sio_data inp" "sio_size ?s = ?rp + tot"
      using i2p by simp_all
  qed (simp_all add: run ipl del: if_split)
qed

section \<open>The link layer and the root\<close>

lemma Eth2_Read_spec:
  assumes reg: "net_ready reg" and inp: "sio_inv inp" and mac: "length d = 6" "length s = 6"
    and rest: "sio_rest inp = d @ s @ be_bytes 2 0x800 @ ys"
  obtains inp1 e where "Eth2_Read reg (Packet_Con ETH_II) inp =
      read_into_payload e 14 (IP_Read reg (Packet_Con IP) inp1)"
    "sio_inv inp1" "sio_rest inp1 = ys" "sio_same inp inp1" "sio_readptr inp1 = sio_readptr inp + 14"
    "pk_class e = ETH_II" "pk_payload e = None" "pk_start e = sio_readptr inp"
    "take 6 (get_block e ''destination'') = d" "take 6 (get_block e ''source'') = s"
proof -
  have f: "format_codecs reg (cl_format (pk_class (Packet_Con ETH_II))) = Some eth_codecs"
    using header_format_codecs[OF reg] by (simp add: packet_con_fields)
  let ?vs = "[SEth d, SEth s, SShort 0x800]"
  have wf: "list_all2 codec_wf eth_codecs ?vs" using mac by (simp add: eth_codecs_def)
  have r0: "sio_rest inp = format_enc eth_codecs ?vs @ ys" using rest mac by (simp add: eth_codecs_def)
  obtain inp1 ws where r: "Packet_Read reg (Packet_Con ETH_II) inp = Some (Packet ETH_II (sio_readptr inp) 14
      (zip (map fst (cl_members ETH_II)) (ws @ map snd (drop 3 (cl_members ETH_II)))) None, inp1, 14)"
    "map slot_view ws = map slot_view ?vs" "sio_inv inp1" "sio_rest inp1 = ys" "sio_same inp inp1"
    "sio_readptr inp1 = sio_readptr inp + 14"
    by (rule Packet_Read_ok[OF net_entries(7)[OF reg] f header_fixed(4) wf inp r0 header_members(4)])
      (simp add: packet_con_fields header_sizes header_lengths)
  from r(2) obtain w1 w2 w3 where ws: "ws = [w1, w2, w3]" "slot_view w1 = SEth (take 6 d)"
    "slot_view w2 = SEth (take 6 s)" "slot_view w3 = SShort 0x800" by (auto simp: map_eq_Cons_conv)
  obtain m1 where w1: "w1 = SEth m1" "take 6 m1 = d" using ws(2) mac by (cases w1) auto
  obtain m2 where w2: "w2 = SEth m2" "take 6 m2 = s" using ws(3) mac by (cases w2) auto
  have w3: "w3 = SShort 0x800" using ws(4) by (cases w3) auto
  define e where "e = Packet ETH_II (sio_readptr inp) 14
      [(''destination'', SEth m1), (''source'', SEth m2), (''type'', SShort 0x800)] None"
  have rd: "Packet_Read reg (Packet_Con ETH_II) inp = Some (e, inp1, 14)"
    using r(1) by (simp add: ws(1) w1 w2 w3 e_def ETH_II_def)
  have ef: "get_num e ''type'' = 0x800" "pk_class e = ETH_II" "pk_payload e = None" "pk_start e = sio_readptr inp"
    "take 6 (get_block e ''destination'') = d" "take 6 (get_block e ''source'') = s"
    using w1 w2 by (simp_all add: e_def get_num_def get_block_def)
  have "Eth2_Read reg (Packet_Con ETH_II) inp = read_into_payload e 14 (IP_Read reg (Packet_Con IP) inp1)"
    by (simp add: Eth2_Read_def rd ef)
  then show ?thesis using that[of e inp1] r(3-6) ef by blast
qed

lemma Root_Read_eth:
  assumes reg: "net_ready reg" and inp: "sio_inv inp"
  shows "\<exists>r. Root_Read reg (set_member ''link_type'' (SInt DLT_EN10MB) (Packet_Con Root)) inp =
      read_into_payload r 0 (Eth2_Read reg (Packet_Con ETH_II) inp) \<and> pk_class r = Root"
proof -
  let ?p = "set_member ''link_type'' (SInt DLT_EN10MB) (Packet_Con Root)"
  have p: "pk_class ?p = Root" "pk_struct ?p = [(''link_type'', SInt 1), (''packet_id'', SInt 0)]"
    by (simp_all add: Packet_Con_def Root_def link_types)
  have u: "unpack reg (cl_format (pk_class ?p)) inp (map snd (pk_struct ?p)) =
      Some (reg, inp, map snd (pk_struct ?p), 0)"
    unfolding p(1) using struct_init_again[OF net_entries(7)[OF reg]] by (simp add: unpack_def Root_def)
  obtain n where "Packet_Read reg ?p inp = Some (Packet Root (s32 (sio_readptr inp)) n
      [(''link_type'', SInt 1), (''packet_id'', SInt 0)] (pk_payload ?p), inp, 0)"
    unfolding Packet_Read_def u by (simp add: p members_put_def Let_def)
  then show ?thesis
    by (intro exI[of _ "Packet Root (s32 (sio_readptr inp)) n
      [(''link_type'', SInt 1), (''packet_id'', SInt 0)] (pk_payload ?p)"])
      (simp add: Root_Read_def get_num_def link_types)
qed

lemma chain_set_payload: "chain (set_payload q p) = set_payload q p # chain q"
  by (cases p) simp

lemma set_payload_fields [simp]:
  "pk_class (set_payload q p) = pk_class p" "get_num (set_payload q p) m = get_num p m"
  "get_block (set_payload q p) m = get_block p m" "pk_payload (set_payload q p) = Some q"
  by (cases p; simp add: get_num_def get_block_def)+

lemma one_packet_member:
  "length (packet_props (cl_props Root)) = 1" "length (packet_props (cl_props ETH_II)) = 1"
  "length (packet_props (cl_props IP)) = 1"
  by (simp_all add: packet_props_def Root_def ETH_II_def IP_def NAME_ACCESS_def)

section \<open>Properties\<close>

text \<open>The bytes of the headers.\<close>

definition ip_header :: "int \<Rightarrow> byte \<Rightarrow> int \<Rightarrow> int \<Rightarrow> int \<Rightarrow> byte \<Rightarrow> byte \<Rightarrow> int \<Rightarrow> int \<Rightarrow> int \<Rightarrow> byte list" where
  "ip_header words tos tot iden frag ttl pr ck sa da =
     [word_of_int (64 + words), tos] @ be_bytes 2 tot @ be_bytes 2 iden @ be_bytes 2 frag @ [ttl, pr] @
     be_bytes 2 ck @ be_bytes 4 sa @ be_bytes 4 da"

definition tcp_header :: "int \<Rightarrow> int \<Rightarrow> int \<Rightarrow> int \<Rightarrow> int \<Rightarrow> byte \<Rightarrow> int \<Rightarrow> int \<Rightarrow> byte list" where
  "tcp_header sp dp sq ak words flags wi ck =
     be_bytes 2 sp @ be_bytes 2 dp @ be_bytes 4 sq @ be_bytes 4 ak @ [word_of_int (16 * words), flags] @
     be_bytes 2 wi @ be_bytes 2 ck"

lemma nibble_bytes:
  assumes "0 \<le> w" "w < 16"
  shows "uint (word_of_int (64 + w) :: byte) mod 16 = w" "uint (word_of_int (16 * w) :: byte) div 16 = w"
proof -
  have "(64 + w) mod 256 = 64 + w" "(16 * w) mod 256 = 16 * w" using assms by simp_all
  moreover have "(64 + w) mod 16 = w" using assms by presburger
  ultimately show "uint (word_of_int (64 + w) :: byte) mod 16 = w"
    "uint (word_of_int (16 * w) :: byte) div 16 = w"
    by (simp_all only: uint_byte_of_int)
qed

text \<open>The fields of the headers are in the range of their types.\<close>

definition ip_fields_ok :: "int \<Rightarrow> int \<Rightarrow> int \<Rightarrow> int \<Rightarrow> int \<Rightarrow> int \<Rightarrow> bool" where
  "ip_fields_ok tot iden frag ck sa da \<longleftrightarrow>
     0 \<le> tot \<and> tot < 65536 \<and> 0 \<le> iden \<and> iden < 65536 \<and> 0 \<le> frag \<and> frag < 65536 \<and>
     0 \<le> ck \<and> ck < 65536 \<and> 0 \<le> sa \<and> sa < 4294967296 \<and> 0 \<le> da \<and> da < 4294967296"

definition tcp_fields_ok :: "int \<Rightarrow> int \<Rightarrow> int \<Rightarrow> int \<Rightarrow> int \<Rightarrow> int \<Rightarrow> bool" where
  "tcp_fields_ok sp dp sq ak wi ck \<longleftrightarrow>
     0 \<le> sp \<and> sp < 65536 \<and> 0 \<le> dp \<and> dp < 65536 \<and> 0 \<le> sq \<and> sq < 4294967296 \<and>
     0 \<le> ak \<and> ak < 4294967296 \<and> 0 \<le> wi \<and> wi < 65536 \<and> 0 \<le> ck \<and> ck < 65536"

lemma TCP_Read_segment:
  assumes reg: "net_ready reg" and inp: "sio_inv inp"
    and rest: "sio_rest inp = tcp_header sp dp sq ak tw flags wi ck @ tcpopts @ dat"
    and tw: "0 \<le> tw" "tw < 16" "int (length tcpopts) = 4 * tw - 18" and l: "length dat \<le> 65536"
    and ok: "tcp_fields_ok sp dp sq ak wi ck"
  obtains tcp inp' n where "TCP_Read reg (Packet_Con TCP) inp = Some (tcp, inp', n)"
    "pk_class tcp = TCP" "pk_payload tcp = None" "get_num tcp ''source'' = sp" "get_num tcp ''dest'' = dp"
    "get_num tcp ''seq'' = sq" "get_num tcp ''ack_seq'' = ak" "get_num tcp ''flags'' = uint flags"
    "get_block tcp ''data'' = dat" "get_num tcp ''data_len'' = int (length dat)"
proof -
  define dh :: byte where "dh = word_of_int (16 * tw)"
  have dhv: "uint dh div 16 * 4 = 18 + int (length tcpopts)"
    using nibble_bytes(2)[OF tw(1,2), folded dh_def] tw(3) by simp
  let ?vs = "[SShort sp, SShort dp, SInt sq, SInt ak, SChar dh, SChar flags, SShort wi, SShort ck]"
  have wf: "list_all2 codec_wf tcp_codecs ?vs" using ok by (simp add: tcp_codecs_def tcp_fields_ok_def)
  have r: "sio_rest inp = format_enc tcp_codecs ?vs @ tcpopts @ dat"
    using rest by (simp add: tcp_header_def tcp_codecs_def dh_def)
  obtain inp' n where t: "TCP_Read reg (Packet_Con TCP) inp =
      Some (tcp_packet (sio_readptr inp) 18 ?vs dh (sio_rest inp), inp', n)"
    using TCP_Read_spec[OF reg inp refl wf r] by blast
  have "nat (uint dh div 16 * 4) = length (tcp_header sp dp sq ak tw flags wi ck @ tcpopts)"
    using dhv by (simp add: tcp_header_def)
  then have td: "tcp_data (uint dh div 16 * 4) (sio_rest inp) = dat"
    using l by (simp add: tcp_data_def rest MAX_PACKET_SIZE_def)
  show ?thesis
    by (rule that[OF t])
      (simp_all add: tcp_packet_def Let_def td get_num_def get_block_def TCP_def)
qed

lemma IP_Read_tcp:
  assumes reg: "net_ready reg" and inp: "sio_inv inp"
    and rest: "sio_rest inp = ip_header iw tos tot iden frag ttl 6 ck sa da @ ipopts @ body @ trailer"
    and iw: "0 \<le> iw" "iw < 16" "int (length ipopts) = 4 * iw - 20"
    and tot: "tot = 4 * iw + int (length body)" and ok: "ip_fields_ok tot iden frag ck sa da"
  obtains ip inp2 where "sio_inv inp2" "sio_rest inp2 = body"
    "IP_Read reg (Packet_Con IP) inp =
       map_option (\<lambda>(q, i, _). (set_payload q ip, i,
           s32 (u64 (sio_readptr i - sio_readptr inp)))) (TCP_Read reg (Packet_Con TCP) inp2)"
    "pk_class ip = IP" "get_num ip ''_src'' = sa" "get_num ip ''_dest'' = da" "get_num ip ''id'' = iden"
proof -
  define hl :: byte where "hl = word_of_int (64 + iw)"
  have hlv: "uint hl mod 16 * 4 = 20 + int (length ipopts)"
    using nibble_bytes(1)[OF iw(1,2), folded hl_def] iw(3) by simp
  let ?vs = "[SChar hl, SChar tos, SShort tot, SShort iden, SShort frag, SChar ttl, SChar 6, SShort ck,
      SInt sa, SInt da]"
  have wf: "list_all2 codec_wf ip_codecs ?vs" using ok by (simp add: ip_codecs_def ip_fields_ok_def)
  have r: "sio_rest inp = format_enc ip_codecs ?vs @ ipopts @ body @ trailer"
    using rest by (simp add: ip_header_def ip_codecs_def hl_def)
  have t: "tot = 20 + int (length ipopts) + int (length body)" using iw(3) tot by simp
  obtain inp2 where "sio_inv inp2" "sio_rest inp2 = body"
    "IP_Read reg (Packet_Con IP) inp =
       map_option (\<lambda>(q, i, _). (set_payload q (ip_packet (sio_readptr inp) ?vs sa da), i,
           s32 (u64 (sio_readptr i - sio_readptr inp)))) (TCP_Read reg (Packet_Con TCP) inp2)"
    by (rule IP_Read_spec[OF reg inp refl wf r hlv t]) simp
  then show ?thesis
    by (rule that) (simp_all add: ip_packet_def IP_def get_num_def)
qed

text \<open>C2 (dissecting a TCP frame). An Ethernet frame that carries an IP datagram with any options that
  carries a TCP segment with any options and any data, followed by any trailing bytes, is dissected
  into the packets eth, IP and TCP below the root: the addresses, ports, sequence numbers and flags
  are the ones of the headers, and the data of the TCP packet is exactly the data of the segment,
  without the options and without the trailing bytes.\<close>

theorem dissect_tcp_frame:
  assumes "net_ready reg" and "sio_inv inp"
    and "sio_rest inp = dmac @ smac @ be_bytes 2 0x800 @
      ip_header iw tos tot iden frag ttl 6 ck1 sa da @ ipopts @
      (tcp_header sp dp sq ak tw flags wi ck2 @ tcpopts @ dat) @ trailer"
    and "length dmac = 6" and "length smac = 6"
    and "0 \<le> iw" "iw < 16" "int (length ipopts) = 4 * iw - 20"
    and "0 \<le> tw" "tw < 16" "int (length tcpopts) = 4 * tw - 18"
    and "tot = 4 * iw + 4 * tw + int (length dat)"
    and "ip_fields_ok tot iden frag ck1 sa da" and "tcp_fields_ok sp dp sq ak wi ck2"
  shows "\<exists>root inp' n e ip tcp.
    Root_Read reg (set_member ''link_type'' (SInt DLT_EN10MB) (Packet_Con Root)) inp = Some (root, inp', n) \<and>
    chain root = [root, e, ip, tcp] \<and> chain_ok root \<and> pk_class root = Root \<and> pk_class e = ETH_II \<and>
    pk_class ip = IP \<and> pk_class tcp = TCP \<and>
    take 6 (get_block e ''destination'') = dmac \<and> take 6 (get_block e ''source'') = smac \<and>
    get_num ip ''_src'' = sa \<and> get_num ip ''_dest'' = da \<and> get_num ip ''id'' = iden \<and>
    get_num tcp ''source'' = sp \<and> get_num tcp ''dest'' = dp \<and> get_num tcp ''seq'' = sq \<and>
    get_num tcp ''ack_seq'' = ak \<and> get_num tcp ''flags'' = uint flags \<and>
    get_block tcp ''data'' = dat \<and> get_num tcp ''data_len'' = int (length dat)"
proof -
  note reg = assms(1)
  let ?root = "set_member ''link_type'' (SInt DLT_EN10MB) (Packet_Con Root)"
  obtain r where r: "Root_Read reg ?root inp = read_into_payload r 0 (Eth2_Read reg (Packet_Con ETH_II) inp)"
    "pk_class r = Root" using Root_Read_eth[OF reg assms(2)] by blast
  let ?body = "tcp_header sp dp sq ak tw flags wi ck2 @ tcpopts @ dat"
  obtain inp1 e where e: "Eth2_Read reg (Packet_Con ETH_II) inp =
      read_into_payload e 14 (IP_Read reg (Packet_Con IP) inp1)" "sio_inv inp1"
    "sio_rest inp1 = ip_header iw tos tot iden frag ttl 6 ck1 sa da @ ipopts @ ?body @ trailer"
    "pk_class e = ETH_II" "take 6 (get_block e ''destination'') = dmac" "take 6 (get_block e ''source'') = smac"
    by (rule Eth2_Read_spec[OF reg assms(2,4,5,3)])
  have tot: "tot = 4 * iw + int (length ?body)"
    using assms(11,12) by (simp add: tcp_header_def)
  obtain ip0 inp2 where i: "sio_inv inp2" "sio_rest inp2 = ?body"
    "IP_Read reg (Packet_Con IP) inp1 = map_option (\<lambda>(q, i, _). (set_payload q ip0, i,
           s32 (u64 (sio_readptr i - sio_readptr inp1)))) (TCP_Read reg (Packet_Con TCP) inp2)"
    "pk_class ip0 = IP" "get_num ip0 ''_src'' = sa" "get_num ip0 ''_dest'' = da" "get_num ip0 ''id'' = iden"
    by (rule IP_Read_tcp[OF reg e(2,3) assms(6-8) tot assms(13)])
  have "length dat \<le> 65536" using assms(6,9,12,13) by (simp add: ip_fields_ok_def)
  then obtain tcp inp3 n3 where t: "TCP_Read reg (Packet_Con TCP) inp2 = Some (tcp, inp3, n3)"
    and tcp: "pk_class tcp = TCP" "pk_payload tcp = None" "get_num tcp ''source'' = sp" "get_num tcp ''dest'' = dp"
    "get_num tcp ''seq'' = sq" "get_num tcp ''ack_seq'' = ak" "get_num tcp ''flags'' = uint flags"
    "get_block tcp ''data'' = dat" "get_num tcp ''data_len'' = int (length dat)"
    by (rule TCP_Read_segment[OF reg i(1,2) assms(9-11) _ assms(14)])
  define ip where "ip = set_payload tcp ip0"
  define e' where "e' = set_payload ip e"
  define r' where "r' = set_payload e' r"
  have ch: "chain r' = [r', e', ip, tcp]"
    using tcp(2) chain_unfold[of tcp] by (simp add: r'_def e'_def ip_def chain_set_payload)
  have ok: "chain_ok r'"
    using r(2) e(4) i(4) tcp(2) one_packet_member unfolding chain_ok_def ch by (simp add: r'_def e'_def ip_def)
  have "\<exists>n. Root_Read reg ?root inp = Some (r', inp3, n)"
    unfolding r(1) e(1) i(3) t by (simp add: read_into_payload_def r'_def e'_def ip_def)
  then show ?thesis
    using ch ok r(2) e(4-6) i(4-7) tcp
    by (intro exI[of _ r'] exI[of _ inp3], elim exE, intro exI)
      (intro conjI, assumption+, simp_all add: r'_def e'_def ip_def)
qed

text \<open>C39 (TCP dissection is memory safe). On every input, whatever its bytes and however short it is,
  \<open>TCP_Read\<close> ends without an access outside of the input, and the data of the packet are the
  bytes of the segment from the data offset of its header on, at most \<open>MAX_PACKET_SIZE\<close> of
  them; \<open>data_len\<close> is their number and nothing is data when the offset lies behind the end.\<close>

theorem TCP_Read_safe:
  assumes "net_ready reg" and "sio_inv inp"
  shows "\<exists>q inp' n. TCP_Read reg (Packet_Con TCP) inp = Some (q, inp', n) \<and> sio_inv inp' \<and>
    get_block q ''data'' = tcp_data (get_num q ''doff_res1'' div 16 * 4) (sio_rest inp) \<and>
    get_num q ''data_len'' = int (length (get_block q ''data'')) \<and>
    get_num q ''data_offset'' = sio_readptr inp + get_num q ''len''"
proof -
  obtain inp' hlen vs d n where t: "TCP_Read reg (Packet_Con TCP) inp =
      Some (tcp_packet (sio_readptr inp) hlen vs d (sio_rest inp), inp', n)" "sio_inv inp'"
    "length vs = 8" "vs ! 4 = SChar d" using TCP_Read_any[OF assms] by blast
  obtain a b c e f g h where vs: "vs = [a, b, c, e, SChar d, f, g, h]"
    using t(3,4) by (auto simp: numeral_eq_Suc length_Suc_conv)
  show ?thesis
    by (intro exI conjI, rule t(1), rule t(2))
      (simp_all add: tcp_packet_def Let_def vs get_num_def get_block_def TCP_def)
qed

text \<open>\<open>UDP_Read\<close> takes the smaller one of the length in
  the header and the size of the whole input for the length of the datagram, although the datagram
  begins only at the position of the header: it copies exactly the payload when the length fits into
  the rest of the input, and it reads behind the block of the input exactly when the position of the
  header and that length together go over its end.\<close>

theorem UDP_Read_trusts_length:
  assumes "net_ready reg" and "sio_inv inp"
    and "sio_rest inp = be_bytes 2 sp @ be_bytes 2 dp @ be_bytes 2 len @ be_bytes 2 ck @ ys"
    and "0 \<le> sp" "sp < 65536" "0 \<le> dp" "dp < 65536" "0 \<le> len" "len < 65536" "0 \<le> ck" "ck < 65536"
  shows "(UDP_Read reg (Packet_Con UDP) inp = None \<longleftrightarrow>
      8 \<le> len \<and> 8 \<le> sio_size inp \<and> int (length (sio_data inp)) < sio_readptr inp + min len (sio_size inp)) \<and>
    (8 \<le> len \<and> len \<le> 8 + int (length ys) \<longrightarrow>
      (\<exists>q inp'. UDP_Read reg (Packet_Con UDP) inp = Some (q, inp', len) \<and>
         get_block q ''data'' = take (nat (len - 8)) ys \<and> get_num q ''data_len'' = len - 8 \<and>
         get_num q ''src_port'' = sp \<and> get_num q ''dest_port'' = dp))"
proof -
  let ?vs = "[SShort sp, SShort dp, SShort len, SShort ck]"
  have wf: "list_all2 codec_wf udp_codecs ?vs" using assms(4-11) by (simp add: udp_codecs_def)
  have r: "sio_rest inp = format_enc udp_codecs ?vs @ ys" using assms(3) by (simp add: udp_codecs_def)
  note b = sio_invD[OF assms(2)]
  let ?dl = "min len (sio_size inp) - 8"
  have rs: "sio_size inp - sio_readptr inp = 8 + int (length ys)"
    using length_sio_rest[OF assms(2)] assms(3) by simp
  have md: "talloc_memdup (sio_data inp) (sio_readptr inp + 8) ?dl = None \<longleftrightarrow>
      8 \<le> len \<and> 8 \<le> sio_size inp \<and> int (length (sio_data inp)) < sio_readptr inp + min len (sio_size inp)"
  proof (cases "0 \<le> ?dl")
    case True
    then have "u64 ?dl = ?dl" "?dl < MAX_TALLOC_SIZE" using b by (auto simp: cint_simps MAX_TALLOC_SIZE_def)
    then show ?thesis using True b by (auto simp: talloc_memdup_def mem_read_def)
  next
    case False
    then have "MAX_TALLOC_SIZE \<le> u64 ?dl"
      using assms(8) b u64_neg[of ?dl] by (simp add: MAX_TALLOC_SIZE_def min_def)
    then show ?thesis using False by (auto simp: talloc_memdup_def)
  qed
  have fit: "talloc_memdup (sio_data inp) (sio_readptr inp + 8) ?dl = Some (take (nat (len - 8)) ys) \<and> ?dl = len - 8"
    if "8 \<le> len \<and> len \<le> 8 + int (length ys)"
    using talloc_memdup_rest[OF assms(2), of 8 "len - 8"] that rs b assms(3) by (simp add: min_absorb1)
  obtain inp' where u: "UDP_Read reg (Packet_Con UDP) inp =
      map_option (\<lambda>data. (Packet UDP (sio_readptr inp) 8 (zip (map fst (cl_members UDP))
          (?vs @ [SInt 0, SInt (sio_readptr inp + 8), SInt ?dl, SStr data])) None, inp', len))
        (talloc_memdup (sio_data inp) (sio_readptr inp + 8) ?dl)"
    by (rule UDP_Read_spec[OF assms(1,2) refl wf r])
  show ?thesis
    unfolding u using md fit by (auto simp: get_num_def get_block_def UDP_def)
qed

definition demo_frame :: "byte list" where
  "demo_frame = [0, 1, 2, 3, 4, 5] @ [6, 7, 8, 9, 10, 11] @ be_bytes 2 0x800 @
     ip_header 5 0 43 1 0 64 6 0 167772161 167772162 @ [] @
     (tcp_header 1025 80 1000 0 5 16 512 0 @ [0, 0] @ [71, 69, 84]) @ [0, 0, 0]"

lemma dissect_tcp_frame_witness:
  "\<exists>root inp' n e ip tcp.
    Root_Read demo_registry (set_member ''link_type'' (SInt DLT_EN10MB) (Packet_Con Root))
      (demo_buffer demo_frame) = Some (root, inp', n) \<and>
    chain root = [root, e, ip, tcp] \<and> get_num tcp ''source'' = 1025 \<and> get_num tcp ''seq'' = 1000 \<and>
    get_block tcp ''data'' = [71, 69, 84]"
proof -
  have l: "length demo_frame = 60" by (simp add: demo_frame_def ip_header_def tcp_header_def)
  have i: "sio_inv (demo_buffer demo_frame)" by (simp add: l)
  have r: "sio_rest (demo_buffer demo_frame) = [0, 1, 2, 3, 4, 5] @ [6, 7, 8, 9, 10, 11] @ be_bytes 2 0x800 @
     ip_header 5 0 43 1 0 64 6 0 167772161 167772162 @ [] @
     (tcp_header 1025 80 1000 0 5 16 512 0 @ [0, 0] @ [71, 69, 84]) @ [0, 0, 0]"
    unfolding demo_buffer(2) by (rule demo_frame_def)
  have "ip_fields_ok 43 1 0 0 167772161 167772162" "tcp_fields_ok 1025 80 1000 0 512 0"
    by (simp_all add: ip_fields_ok_def tcp_fields_ok_def)
  from dissect_tcp_frame[OF demo_net_ready i r _ _ _ _ _ _ _ _ _ this] show ?thesis by simp blast
qed

lemma TCP_Read_safe_witness:
  "\<exists>q inp' n. TCP_Read demo_registry (Packet_Con TCP) (demo_buffer [1, 2, 3]) = Some (q, inp', n)"
  using TCP_Read_safe[OF demo_net_ready, of "demo_buffer [1, 2, 3]"] by auto

text \<open>A datagram of 12 bytes at position 4 of its input that says it has 14: the copy takes two bytes
  from behind the block.\<close>

lemma UDP_Read_trusts_length_witness:
  "UDP_Read demo_registry (Packet_Con UDP)
     ((demo_buffer [0, 0, 0, 0, 0, 53, 0, 53, 0, 14, 0, 0, 1, 2, 3, 4])\<lparr>sio_readptr := 4\<rparr>) = None"
proof -
  let ?i = "(demo_buffer [0, 0, 0, 0, 0, 53, 0, 53, 0, 14, 0, 0, 1, 2, 3, 4])\<lparr>sio_readptr := 4\<rparr>"
  have "sio_inv ?i" by (simp add: demo_buffer_def sio_inv_def MAX_TALLOC_SIZE_def)
  moreover have "sio_rest ?i = be_bytes 2 53 @ be_bytes 2 53 @ be_bytes 2 14 @ be_bytes 2 0 @ [1, 2, 3, 4]"
    by (simp add: demo_buffer_def sio_rest_eq be_bytes_def numeral_eq_Suc)
  ultimately show ?thesis
    using UDP_Read_trusts_length[OF demo_net_ready, of ?i 53 53 14 0 "[1, 2, 3, 4]"]
    by (simp add: demo_buffer_def)
qed

end
