(* ===== verification/Pcap.thy ===== *)
theory Pcap
  imports Network
begin

text \<open>
  The headers of a capture file, \<open>src/src/network/pcap.c\<close> and \<open>src/src/include/pcap.h\<close>: the
  file header, whose magic number tells the byte order, and the record of a packet, which the bytes of
  the packet follow.
\<close>

section \<open>Classes\<close>

definition PCAP_HEADER_STRUCT :: "nat list" where
  "PCAP_HEADER_STRUCT = [STRUCT_INT, STRUCT_SHORT, STRUCT_SHORT, STRUCT_INT, STRUCT_INT, STRUCT_INT, STRUCT_INT]"

definition PCAP_HEADER_STRUCT_LE :: "nat list" where
  "PCAP_HEADER_STRUCT_LE = [STRUCT_INT_LE, STRUCT_SHORT_LE, STRUCT_SHORT_LE, STRUCT_INT_LE, STRUCT_INT_LE,
     STRUCT_INT_LE, STRUCT_INT_LE]"

definition PcapFileHeader :: pclass where
  "PcapFileHeader = \<lparr>cl_name = ''PcapFileHeader'', cl_format = PCAP_HEADER_STRUCT,
     cl_members = [(''magic'', SInt 0), (''version_major'', SShort 0), (''version_minor'', SShort 0),
       (''thiszone'', SInt 0), (''sigfigs'', SInt 0), (''snaplen'', SInt 0), (''linktype'', SInt 0),
       (''little_endian'', SInt 0)],
     cl_props = [NAME_ACCESS ''linktype'' ''linktype'' FIELD_TYPE_INT32 4,
       NAME_ACCESS ''snaplen'' ''snaplen'' FIELD_TYPE_INT32 4]\<rparr>"

definition PCAP_PKTHEADER_STRUCT :: "nat list" where
  "PCAP_PKTHEADER_STRUCT = [STRUCT_INT, STRUCT_INT, STRUCT_INT, STRUCT_INT]"

definition PCAP_PKTHEADER_STRUCT_LE :: "nat list" where
  "PCAP_PKTHEADER_STRUCT_LE = [STRUCT_INT_LE, STRUCT_INT_LE, STRUCT_INT_LE, STRUCT_INT_LE]"

definition PcapPacketHeader :: pclass where
  "PcapPacketHeader = \<lparr>cl_name = ''PcapPacketHeader'', cl_format = PCAP_PKTHEADER_STRUCT,
     cl_members = [(''ts_sec'', SInt 0), (''ts_usec'', SInt 0), (''caplen'', SInt 0), (''len'', SInt 0),
       (''data'', SStr []), (''offset'', SInt 0), (''pcap_file_id'', SInt 0), (''id'', SInt 0)],
     cl_props = [NAME_ACCESS ''ts_sec'' ''ts_sec'' FIELD_TYPE_INT32 4,
       NAME_ACCESS ''ts_usec'' ''ts_usec'' FIELD_TYPE_INT32 4,
       NAME_ACCESS ''caplen'' ''caplen'' FIELD_TYPE_INT32 4,
       NAME_ACCESS ''len'' ''len'' FIELD_TYPE_INT32 4,
       NAME_ACCESS ''offset'' ''offset'' FIELD_TYPE_INT_64 8,
       NAME_ACCESS ''id'' ''id'' FIELD_TYPE_INT32 4,
       NAME_ACCESS ''pcap_file_id'' ''pcap_file_id'' FIELD_TYPE_INT32 4,
       NAME_ACCESS ''root'' ''root'' FIELD_TYPE_PACKET SIZEOF_PTR,
       NAME_ACCESS_SIZE ''data'' ''data'' FIELD_TYPE_STRING ''len'']\<rparr>"

text \<open>Another format for an object of the class.\<close>

fun set_format :: "nat list \<Rightarrow> packet \<Rightarrow> packet" where
  "set_format f (Packet cls st len ms pl) = Packet (cls\<lparr>cl_format := f\<rparr>) st len ms pl"

section \<open>Methods\<close>

definition PcapFileHeader_Read :: "registry \<Rightarrow> packet \<Rightarrow> stringio \<Rightarrow> (packet \<times> stringio \<times> int) option" where
  "PcapFileHeader_Read reg self input = do {
     let offset = s32 (sio_readptr input);
     (self, input, len) \<leftarrow> Packet_Read reg self input;
     if get_num self ''magic'' = 0xD4C3B2A1 then do {
       let self = set_format PCAP_HEADER_STRUCT_LE (set_member ''little_endian'' (SInt 1) self);
       (input, _) \<leftarrow> StringIO_seek input offset SEEK_SET;
       Packet_Read reg self input
     } else Some (self, input, len)
   }"

definition PcapPacketHeader_Read :: "registry \<Rightarrow> packet \<Rightarrow> stringio \<Rightarrow> (packet \<times> stringio \<times> int) option" where
  "PcapPacketHeader_Read reg self input = do {
     (self, input, len) \<leftarrow> Packet_Read reg self input;
     let caplen = get_num self ''caplen'';
     if caplen > 0x1FFFF then Some (self, input, 0)
     else do {
       m \<leftarrow> talloc_size caplen;
       (input, xs) \<leftarrow> StringIO_read input caplen;
       Some (set_member ''data'' (SStr (read_into m xs)) self, input, s32 (len + caplen))
     }
   }"

definition PcapPacketHeader_Write :: "registry \<Rightarrow> packet \<Rightarrow> stringio \<Rightarrow> (stringio \<times> int) option" where
  "PcapPacketHeader_Write reg self output = do {
     (output, len) \<leftarrow> Packet_Write reg self output;
     let caplen = get_num self ''caplen'';
     xs \<leftarrow> mem_read (get_block self ''data'') 0 (s32 caplen);
     (output, _) \<leftarrow> StringIO_write output xs;
     Some (output, s32 (len + caplen))
   }"

section \<open>Formats in both byte orders\<close>

definition file_codecs :: "bool \<Rightarrow> codec list" where
  "file_codecs le = (if le then [CIntLE, CShortLE, CShortLE, CIntLE, CIntLE, CIntLE, CIntLE]
     else [CInt, CShort, CShort, CInt, CInt, CInt, CInt])"

definition record_codecs :: "bool \<Rightarrow> codec list" where
  "record_codecs le = (if le then [CIntLE, CIntLE, CIntLE, CIntLE] else [CInt, CInt, CInt, CInt])"

definition record_format :: "bool \<Rightarrow> nat list" where
  "record_format le = (if le then PCAP_PKTHEADER_STRUCT_LE else PCAP_PKTHEADER_STRUCT)"

lemma pcap_format_codecs:
  assumes "net_ready reg"
  shows "format_codecs reg PCAP_HEADER_STRUCT = Some (file_codecs False)"
    "format_codecs reg PCAP_HEADER_STRUCT_LE = Some (file_codecs True)"
    "format_codecs reg (record_format le) = Some (record_codecs le)"
  using net_entries[OF assms]
  by (simp_all add: PCAP_HEADER_STRUCT_def PCAP_HEADER_STRUCT_LE_def record_format_def record_codecs_def
      PCAP_PKTHEADER_STRUCT_def PCAP_PKTHEADER_STRUCT_LE_def file_codecs_def)

lemma pcap_codecs_fixed:
  "list_all codec_fixed (file_codecs le)" "list_all codec_fixed (record_codecs le)"
  "format_size (file_codecs le) = 24" "format_size (record_codecs le) = 16"
  "length (file_codecs le) = 7" "length (record_codecs le) = 4"
  by (simp_all add: file_codecs_def record_codecs_def codec_fixed_def format_size_def)

text \<open>The magic number read in the other byte order.\<close>

lemma magic_swapped: "be_bytes 4 0xD4C3B2A1 = le_bytes 4 0xA1B2C3D4"
  by code_simp

lemma pcap_fields:
  assumes "Packet_Read reg p inp = Some (Packet cls st n
      (zip (map fst (pk_struct p)) (ws @ map snd (drop k (pk_struct p)))) pl, inp', r)"
    and "map slot_view ws = map slot_view vs" "list_all plain_slot vs"
  shows "Packet_Read reg p inp = Some (Packet cls st n
      (zip (map fst (pk_struct p)) (vs @ map snd (drop k (pk_struct p)))) pl, inp', r)"
  using assms map_slot_view_plain by metis

lemma record_read:
  assumes "net_ready reg" and "cls = PcapPacketHeader\<lparr>cl_format := record_format le\<rparr>"
    and "0 \<le> sec" "sec < 4294967296" "0 \<le> usec" "usec < 4294967296" "0 \<le> len" "len < 4294967296"
    and "caplen = int (length dat)" "length dat \<le> 0x1FFFF"
    and "sio_inv inp"
      "sio_rest inp = format_enc (record_codecs le) [SInt sec, SInt usec, SInt caplen, SInt len] @ dat @ ys"
  shows "\<exists>q inp'. PcapPacketHeader_Read reg (Packet_Con cls) inp = Some (q, inp', 16 + caplen) \<and>
         sio_inv inp' \<and> sio_rest inp' = ys \<and> get_num q ''ts_sec'' = sec \<and> get_num q ''ts_usec'' = usec \<and>
         get_num q ''caplen'' = caplen \<and> get_num q ''len'' = len \<and> get_block q ''data'' = dat"
proof -
  let ?vs = "[SInt sec, SInt usec, SInt caplen, SInt len]" and ?cs = "record_codecs le"
  have f: "format_codecs reg (cl_format (pk_class (Packet_Con cls))) = Some ?cs"
    using pcap_format_codecs[OF assms(1)] by (simp add: packet_con_fields assms(2))
  have wf: "list_all2 codec_wf ?cs ?vs" using assms(3-10) by (simp add: record_codecs_def)
  have fit: "members_fit ?cs (Packet_Con cls)"
    by (simp add: members_fit_def pcap_codecs_fixed packet_con_fields assms(2) PcapPacketHeader_def)
  obtain inp1 ws where r: "Packet_Read reg (Packet_Con cls) inp = Some (Packet cls (sio_readptr inp) 16
      (zip (map fst (pk_struct (Packet_Con cls))) (ws @ map snd (drop 4 (pk_struct (Packet_Con cls))))) None, inp1, 16)"
    "map slot_view ws = map slot_view ?vs" "sio_inv inp1" "sio_rest inp1 = dat @ ys"
    by (rule Packet_Read_ok[OF net_entries(7)[OF assms(1)] f pcap_codecs_fixed(2) wf assms(11,12) fit])
      (simp add: packet_con_fields pcap_codecs_fixed)
  obtain inp2 where r2: "StringIO_read inp1 caplen = Some (inp2, dat)" "sio_inv inp2" "sio_rest inp2 = ys"
    by (rule read_stepE[OF r(3,4) assms(9)])
  have t: "talloc_size caplen = Some (replicate (length dat) 0)"
    using assms(9,10) by (simp add: talloc_size_def MAX_TALLOC_SIZE_def)
  have w: "s32 (16 + caplen) = 16 + caplen" "\<not> caplen > 0x1FFFF" using assms(9,10) by (simp_all add: cint_simps)
  have pl: "list_all plain_slot ?vs" by simp
  show ?thesis
    using pcap_fields[OF r(1,2) pl] r2 t w
    by (simp add: PcapPacketHeader_Read_def Let_def packet_con_fields assms(2) PcapPacketHeader_def get_num_def
        get_block_def read_into_def)
qed

text \<open>A little endian file read with the big endian format: the magic number comes out swapped.\<close>

lemma swapped_magic:
  assumes "net_ready reg" and inp: "sio_inv inp" and vs: "hd vs = SInt 0xA1B2C3D4"
    and wf: "list_all2 codec_wf (file_codecs True) vs" and rest: "sio_rest inp = format_enc (file_codecs True) vs @ ys"
  obtains inp1 ws n r where "Packet_Read reg (Packet_Con PcapFileHeader) inp =
      Some (Packet PcapFileHeader (sio_readptr inp) n (zip (map fst (pk_struct (Packet_Con PcapFileHeader)))
        (ws @ map snd (drop 7 (pk_struct (Packet_Con PcapFileHeader))))) None, inp1, r)"
    "sio_inv inp1" "sio_same inp inp1" "length ws = 7" "hd ws = SInt 0xD4C3B2A1"
proof -
  let ?p = "Packet_Con PcapFileHeader"
  have f: "format_codecs reg (cl_format (pk_class ?p)) = Some (file_codecs False)"
    using pcap_format_codecs[OF assms(1)] by (simp add: packet_con_fields PcapFileHeader_def)
  have fit: "members_fit (file_codecs False) ?p"
    by (simp add: members_fit_def pcap_codecs_fixed packet_con_fields PcapFileHeader_def)
  have mw: "list_all2 codec_wf (file_codecs False) (map snd (take (length (file_codecs False)) (pk_struct ?p)))"
    by (simp add: file_codecs_def packet_con_fields PcapFileHeader_def)
  have "format_size (file_codecs False) \<le> int (length (sio_rest inp))"
    using rest format_enc_length[OF pcap_codecs_fixed(1) wf] pcap_codecs_fixed(3) by simp
  then obtain inp1 ws n r where t: "Packet_Read reg ?p inp = Some (Packet PcapFileHeader (sio_readptr inp) n
      (zip (map fst (pk_struct ?p)) (ws @ map snd (drop 7 (pk_struct ?p)))) None, inp1, r)"
    "list_all2 codec_wf (file_codecs False) ws" "sio_inv inp1" "sio_same inp inp1"
    "sio_rest inp = format_enc (file_codecs False) ws @ sio_rest inp1"
    using Packet_Read_total[OF net_entries(7)[OF assms(1)] f pcap_codecs_fixed(1) inp fit mw]
    by (auto simp: packet_con_fields pcap_codecs_fixed split: if_splits)
  obtain w1 ws' where ws: "ws = w1 # ws'" "codec_wf CInt w1" "length ws = 7"
    using t(2) by (auto simp: file_codecs_def list_all2_Cons1)
  then obtain m where m: "w1 = SInt m" "0 \<le> m" "m < 4294967296" by (cases w1) auto
  have "take 4 (sio_rest inp) = be_bytes 4 m" using t(5) ws m(1) by (simp add: file_codecs_def)
  moreover obtain v vs' where "vs = v # vs'" using wf by (auto simp: file_codecs_def list_all2_Cons1)
  then have "take 4 (sio_rest inp) = le_bytes 4 0xA1B2C3D4" using rest vs by (simp add: file_codecs_def)
  ultimately have "be_bytes 4 m = be_bytes 4 0xD4C3B2A1" by (simp only: magic_swapped)
  then have "be_val (be_bytes 4 m) = be_val (be_bytes 4 0xD4C3B2A1)" by (rule arg_cong)
  then have "hd ws = SInt 0xD4C3B2A1" using m ws(1) by (simp add: be_val_4)
  with t(1,3,4) ws(3) show ?thesis using that by blast
qed

section \<open>The file header\<close>

lemma file_header_read:
  assumes "net_ready reg" and "sio_inv inp"
    and "vs = [SInt 0xA1B2C3D4, SShort major, SShort minor, SInt zone, SInt sigfigs, SInt snap, SInt link]"
    and "list_all2 codec_wf (file_codecs le) vs" and "sio_rest inp = format_enc (file_codecs le) vs @ ys"
  shows "\<exists>q inp'. PcapFileHeader_Read reg (Packet_Con PcapFileHeader) inp = Some (q, inp', 24) \<and>
    sio_inv inp' \<and> sio_rest inp' = ys \<and> get_num q ''linktype'' = link \<and> get_num q ''snaplen'' = snap \<and>
    get_num q ''magic'' = 0xA1B2C3D4 \<and> get_num q ''version_major'' = major \<and>
    get_num q ''little_endian'' = (if le then 1 else 0) \<and>
    sio_readptr inp' = sio_readptr inp + 24"
proof -
  note reg = assms(1) and inp = assms(2) and rr = net_entries(7)[OF assms(1)]
  let ?p = "Packet_Con PcapFileHeader" and ?rp = "sio_readptr inp"
  have ms: "pk_class ?p = PcapFileHeader" "pk_payload ?p = None" "cl_format PcapFileHeader = PCAP_HEADER_STRUCT"
    by (simp_all add: packet_con_fields PcapFileHeader_def)
  have f: "format_codecs reg (cl_format (pk_class ?p)) = Some (file_codecs False)"
    using pcap_format_codecs[OF reg] by (simp add: ms)
  have fit: "members_fit (file_codecs b) ?p" for b
    by (simp add: members_fit_def pcap_codecs_fixed packet_con_fields PcapFileHeader_def)
  have pl: "list_all plain_slot vs" by (simp add: assms(3))
  show ?thesis
  proof (cases le)
    case False
    have wf: "list_all2 codec_wf (file_codecs False) vs" and r: "sio_rest inp = format_enc (file_codecs False) vs @ ys"
      using assms(4,5) False by simp_all
    obtain inp1 ws where r: "Packet_Read reg ?p inp = Some (Packet PcapFileHeader ?rp 24
        (zip (map fst (pk_struct ?p)) (ws @ map snd (drop 7 (pk_struct ?p)))) None, inp1, 24)"
      "map slot_view ws = map slot_view vs" "sio_inv inp1" "sio_rest inp1 = ys" "sio_readptr inp1 = ?rp + 24"
      by (rule Packet_Read_ok[OF rr f pcap_codecs_fixed(1) wf inp r fit]) (simp add: ms pcap_codecs_fixed)
    show ?thesis
      using pcap_fields[OF r(1,2) pl] r(3-5) False
      by (simp add: PcapFileHeader_Read_def Let_def packet_con_fields PcapFileHeader_def get_num_def assms(3))
  next
    case True
    obtain inp1 ws n r where t: "Packet_Read reg ?p inp = Some (Packet PcapFileHeader ?rp n
        (zip (map fst (pk_struct ?p)) (ws @ map snd (drop 7 (pk_struct ?p)))) None, inp1, r)"
      "sio_inv inp1" "sio_same inp inp1" "length ws = 7" "hd ws = SInt 0xD4C3B2A1"
      by (rule swapped_magic[OF reg inp, of vs ys]) (use assms(3-5) True in simp_all)
    obtain w1 w2 w3 w4 w5 w6 w7 where ws: "ws = [w1, w2, w3, w4, w5, w6, w7]"
      using t(4) by (auto simp: numeral_eq_Suc length_Suc_conv)
    have m: "w1 = SInt 0xD4C3B2A1" using t(5) ws by simp
    define p1 where "p1 = Packet (PcapFileHeader\<lparr>cl_format := PCAP_HEADER_STRUCT_LE\<rparr>) ?rp n
      [(''magic'', w1), (''version_major'', w2), (''version_minor'', w3), (''thiszone'', w4), (''sigfigs'', w5),
       (''snaplen'', w6), (''linktype'', w7), (''little_endian'', SInt 1)] None"
    have sk: "StringIO_seek inp1 ?rp SEEK_SET = Some (inp, ?rp)"
    proof -
      have "inp1\<lparr>sio_readptr := ?rp\<rparr> = inp" using t(3) by (simp add: sio_same_def)
      then show ?thesis
        using StringIO_seek_spec[OF t(2), of ?rp] sio_invD[OF inp] t(3) by (simp add: sio_same_def)
    qed
    have run: "PcapFileHeader_Read reg ?p inp = Packet_Read reg p1 inp"
      using sio_invD[OF inp] t(1) sk
      by (simp add: PcapFileHeader_Read_def Let_def ws m packet_con_fields PcapFileHeader_def get_num_def
          p1_def s32_id)
    have f1: "format_codecs reg (cl_format (pk_class p1)) = Some (file_codecs True)"
      using pcap_format_codecs[OF reg] by (simp add: p1_def)
    have fit1: "members_fit (file_codecs True) p1" by (simp add: members_fit_def pcap_codecs_fixed p1_def)
    have wf: "list_all2 codec_wf (file_codecs True) vs" and rest: "sio_rest inp = format_enc (file_codecs True) vs @ ys"
      using assms(4,5) True by simp_all
    obtain inp2 us where r2: "Packet_Read reg p1 inp = Some (Packet (pk_class p1) ?rp 24
        (zip (map fst (pk_struct p1)) (us @ map snd (drop 7 (pk_struct p1)))) None, inp2, 24)"
      "map slot_view us = map slot_view vs" "sio_inv inp2" "sio_rest inp2 = ys" "sio_readptr inp2 = ?rp + 24"
      by (rule Packet_Read_ok[OF rr f1 pcap_codecs_fixed(1) wf inp rest fit1]) (simp add: p1_def pcap_codecs_fixed)
    show ?thesis
      unfolding run using pcap_fields[OF r2(1,2) pl] r2(3-5) True by (simp add: p1_def get_num_def assms(3))
  qed
qed

section \<open>Properties\<close>

text \<open>The file header is read to the same values whether the file was
  written in big or in little endian order: in the second case the magic number comes out swapped,
  the stream is rewound and the header is read again with the other format. The position ends behind
  the header and the flag tells the order.\<close>

theorem PcapFileHeader_Read_endian:
  assumes "net_ready reg" and "sio_inv inp"
    and "vs = [SInt 0xA1B2C3D4, SShort major, SShort minor, SInt zone, SInt sigfigs, SInt snap, SInt link]"
    and "list_all2 codec_wf (file_codecs le) vs" and "sio_rest inp = format_enc (file_codecs le) vs @ ys"
  shows "\<exists>q inp'. PcapFileHeader_Read reg (Packet_Con PcapFileHeader) inp = Some (q, inp', 24) \<and>
    sio_inv inp' \<and> sio_rest inp' = ys \<and> get_num q ''linktype'' = link \<and> get_num q ''snaplen'' = snap \<and>
    get_num q ''magic'' = 0xA1B2C3D4 \<and> get_num q ''version_major'' = major \<and>
    get_num q ''little_endian'' = (if le then 1 else 0)"
  using file_header_read[OF assms] by blast

text \<open>C19 (records of a capture file). A packet record with at most \<open>0x1FFFF\<close> captured bytes that is
  written in either byte order is read back with the same time stamp, lengths and bytes; both methods
  answer the size of the record, and the position ends behind it, at the next record.\<close>

theorem pcap_record_roundtrip:
  assumes "net_ready reg" and "cls = PcapPacketHeader\<lparr>cl_format := record_format le\<rparr>"
    and "p = Packet cls st n [(''ts_sec'', SInt sec), (''ts_usec'', SInt usec), (''caplen'', SInt caplen),
      (''len'', SInt len), (''data'', SStr dat), (''offset'', off), (''pcap_file_id'', fid), (''id'', iden)] pl"
    and "0 \<le> sec" "sec < 4294967296" "0 \<le> usec" "usec < 4294967296" "0 \<le> len" "len < 4294967296"
    and "caplen = int (length dat)" "length dat \<le> 0x1FFFF"
    and "sio_at_end out" and "16 + length dat \<le> sio_room out"
  shows "\<exists>out' rec. PcapPacketHeader_Write reg p out = Some (out', 16 + caplen) \<and>
    sio_contents out' = sio_contents out @ rec \<and> length rec = 16 + length dat \<and>
    (\<forall>inp ys. sio_inv inp \<longrightarrow> sio_rest inp = rec @ ys \<longrightarrow>
      (\<exists>q inp'. PcapPacketHeader_Read reg (Packet_Con cls) inp = Some (q, inp', 16 + caplen) \<and>
         sio_inv inp' \<and> sio_rest inp' = ys \<and> get_num q ''ts_sec'' = sec \<and> get_num q ''ts_usec'' = usec \<and>
         get_num q ''caplen'' = caplen \<and> get_num q ''len'' = len \<and> get_block q ''data'' = dat))"
proof -
  note rr = net_entries(7)[OF assms(1)]
  let ?vs = "[SInt sec, SInt usec, SInt caplen, SInt len]" and ?cs = "record_codecs le"
  have wf: "list_all2 codec_wf ?cs ?vs" using assms(4-11) by (simp add: record_codecs_def)
  have f: "format_codecs reg (record_format le) = Some ?cs" using pcap_format_codecs[OF assms(1)] by simp
  have l16: "length (format_enc ?cs ?vs) = 16" by (simp add: record_codecs_def)
  have "length (format_enc ?cs ?vs) \<le> sio_room out" using l16 assms(13) by simp
  then obtain out1 where o1: "pack_loop reg (record_format le) ?vs out 0 = Some (out1, 0 + 16)"
    "sio_at_end out1" "sio_contents out1 = sio_contents out @ format_enc ?cs ?vs"
    "sio_room out \<le> sio_room out1 + length (format_enc ?cs ?vs)"
    using pack_loop_spec[OF f wf assms(12), of 0] pcap_codecs_fixed(4) by fastforce
  have "length dat \<le> sio_room out1" using o1(4) l16 assms(13) by simp
  then obtain out2 where o2: "StringIO_write out1 dat = Some (out2, int (length dat))" "sio_at_end out2"
    "sio_contents out2 = sio_contents out1 @ dat" by (rule write_stepE[OF o1(2)])
  have pk: "pack reg (cl_format (pk_class p)) (map snd (pk_struct p)) out = Some (reg, out1, 16)"
    using pack_loop_append[OF o1(1)] by (simp add: pack_def struct_init_again rr assms(2,3))
  have mr: "mem_read dat 0 caplen = Some dat" using assms(10) by (simp add: mem_read_def)
  have w: "s32 caplen = caplen" "s32 (16 + caplen) = 16 + caplen" using assms(10,11) by (simp_all add: cint_simps)
  have wr: "PcapPacketHeader_Write reg p out = Some (out2, 16 + caplen)"
    using pk o2(1) mr w assms(3) by (simp add: PcapPacketHeader_Write_def Packet_Write_def get_num_def get_block_def)
  have rd: "\<exists>q inp'. PcapPacketHeader_Read reg (Packet_Con cls) inp = Some (q, inp', 16 + caplen) \<and>
         sio_inv inp' \<and> sio_rest inp' = ys \<and> get_num q ''ts_sec'' = sec \<and> get_num q ''ts_usec'' = usec \<and>
         get_num q ''caplen'' = caplen \<and> get_num q ''len'' = len \<and> get_block q ''data'' = dat"
    if inp: "sio_inv inp" "sio_rest inp = (format_enc ?cs ?vs @ dat) @ ys" for inp ys
    using record_read[OF assms(1,2,4-11)] inp by simp
  show ?thesis
    using wr o2(3) o1(3) l16 rd by (intro exI[of _ out2] exI[of _ "format_enc ?cs ?vs @ dat"]) simp
qed

text \<open>The property \<open>data\<close> of a record takes its size from
  \<open>len\<close>, the length of the packet on the wire, and not from \<open>caplen\<close>, the bytes that were
  captured: printing it reads behind the block of the data exactly when the packet was cut.\<close>

theorem pcap_print_data_overrun:
  assumes "get_num p ''len'' < 2147483648" and "0 \<le> get_num p ''len''"
    and "get_num p ''caplen'' = int (length (get_block p ''data''))"
  shows "print_property p (NAME_ACCESS_SIZE ''data'' ''data'' FIELD_TYPE_STRING ''len'') = None \<longleftrightarrow>
    get_num p ''caplen'' < get_num p ''len''"
  using assms by (simp add: print_property_def NAME_ACCESS_SIZE_def mem_read_def s32_id Let_def)

definition demo_record :: packet where
  "demo_record = Packet (PcapPacketHeader\<lparr>cl_format := record_format True\<rparr>) 0 0
     [(''ts_sec'', SInt 1), (''ts_usec'', SInt 2), (''caplen'', SInt 3), (''len'', SInt 60), (''data'', SStr [7, 8, 9]),
      (''offset'', SInt 0), (''pcap_file_id'', SInt 0), (''id'', SInt 0)] None"

text \<open>A dissected record: the record, the root, and an Ethernet packet that carries IP.\<close>

definition demo_tree :: packet where
  "demo_tree = set_payload (set_payload (set_payload (Packet_Con IP) (Packet_Con ETH_II)) (Packet_Con Root)) demo_record"

lemma demo_tree_ok: "chain_ok demo_tree"
  by code_simp

lemma PcapFileHeader_Read_endian_witness:
  "\<exists>q inp'. PcapFileHeader_Read demo_registry (Packet_Con PcapFileHeader)
     (demo_buffer (format_enc (file_codecs True)
        [SInt 0xA1B2C3D4, SShort 2, SShort 4, SInt 0, SInt 0, SInt 65535, SInt 1])) = Some (q, inp', 24) \<and>
   get_num q ''linktype'' = 1 \<and> get_num q ''little_endian'' = 1"
proof -
  let ?vs = "[SInt 0xA1B2C3D4, SShort 2, SShort 4, SInt 0, SInt 0, SInt 65535, SInt 1]"
  let ?i = "demo_buffer (format_enc (file_codecs True) ?vs)"
  have i: "sio_inv ?i" by (rule demo_buffer(1)) (simp add: file_codecs_def)
  have w: "list_all2 codec_wf (file_codecs True) ?vs" by (simp add: file_codecs_def)
  have r: "sio_rest ?i = format_enc (file_codecs True) ?vs @ []" by simp
  from PcapFileHeader_Read_endian[OF demo_net_ready i refl w r] show ?thesis by (elim exE conjE) auto
qed

lemma pcap_record_roundtrip_witness:
  "\<exists>out' rec. PcapPacketHeader_Write demo_registry demo_record (StringIO_constructor (\<lambda>_. 0)) = Some (out', 19) \<and>
    sio_contents out' = rec \<and> length rec = 19"
  using pcap_record_roundtrip[OF demo_net_ready refl demo_record_def, of "StringIO_constructor (\<lambda>_. 0)"]
  by simp blast

lemma pcap_print_data_overrun_witness:
  "print_property demo_record (NAME_ACCESS_SIZE ''data'' ''data'' FIELD_TYPE_STRING ''len'') = None"
  using pcap_print_data_overrun[of demo_record]
  by (simp add: demo_record_def get_num_def get_block_def)

lemma Find_Property_outermost_witness:
  "\<exists>q i. Find_Property demo_tree ''ip'' ''ttl'' = (True, q, Some i) \<and> NAMEOF q = ''IP''"
proof -
  have f: "find (\<lambda>q. strcasecmp_same (NAMEOF q) ''ip'') (chain demo_tree) = Some (Packet_Con IP)"
    by code_simp
  have g: "get_field_by_name (Packet_Con IP) ''ttl'' = Some (NAME_ACCESS ''ttl'' ''ttl'' FIELD_TYPE_CHAR 1)"
    by code_simp
  have n: "NAMEOF (Packet_Con IP) = ''IP''" by (simp add: Packet_Con_def IP_def)
  from Find_Property_outermost[OF demo_tree_ok, of "''ip''" "''ttl''"] show ?thesis by (simp add: f g n)
qed

lemma find_packet_instance_outermost_witness:
  "find_packet_instance demo_tree ''IP'' = Some (Packet_Con IP)"
proof -
  have "find (\<lambda>q. NAMEOF q = ''IP'') (tl (chain demo_tree)) = Some (Packet_Con IP)" by code_simp
  then show ?thesis using find_packet_instance_outermost[OF demo_tree_ok, of "''IP''"] by simp
qed

lemma get_field_by_name_r_node_witness:
  "get_field_by_name_r demo_tree ''data'' =
     (Packet_Con IP, Some (NAME_ACCESS_SIZE ''data'' ''data'' FIELD_TYPE_STRING ''len''))"
proof -
  let ?root = "NAME_ACCESS ''root'' ''root'' FIELD_TYPE_PACKET SIZEOF_PTR"
  let ?data = "NAME_ACCESS_SIZE ''data'' ''data'' FIELD_TYPE_STRING ''len''"
  have a: "pk_payload demo_tree = Some (set_payload (set_payload (Packet_Con IP) (Packet_Con ETH_II)) (Packet_Con Root))"
    by code_simp
  have b: "properties demo_tree = take 7 (cl_props PcapPacketHeader) @ ?root # [?data]" by code_simp
  have c: "find (\<lambda>j. pr_name j = ''data'') (take 7 (cl_props PcapPacketHeader)) = None" by code_simp
  have d: "snd (get_field_by_name_r (set_payload (set_payload (Packet_Con IP) (Packet_Con ETH_II)) (Packet_Con Root)) ''data'') = None"
    by code_simp
  have e: "find (\<lambda>j. pr_name j = ''data'') [?data] = Some ?data" by code_simp
  have l: "last (chain demo_tree) = Packet_Con IP" by code_simp
  show ?thesis
    using get_field_by_name_r_node[OF demo_tree_ok a b _ _ c d e] unfolding l by (simp add: NAME_ACCESS_def)
qed

end
