(* ===== verification/KList.thy ===== *)
theory KList
  imports Prelude
begin

text \<open>
  The doubly linked lists of \<open>src/src/include/list.h\<close> at the level of their pointers. A
  \<open>list_head\<close> is an address; the heap maps the address of every allocated node to its
  \<open>next\<close> and to its \<open>prev\<close>, and an access through another address, NULL among them, is
  \<open>None\<close>. \<open>dll h head xs\<close> says that the cycle of pointers through \<open>head\<close> holds the
  nodes \<open>xs\<close>; the operations of the header refine the operations of HOL lists, which the other
  theories use for the lists of the program.
\<close>

section \<open>The heap and the operations\<close>

record heap =
  nxt :: "nat \<rightharpoonup> nat"
  prv :: "nat \<rightharpoonup> nat"

definition allocated :: "heap \<Rightarrow> nat \<Rightarrow> bool" where
  "allocated h p \<longleftrightarrow> nxt h p \<noteq> None \<and> prv h p \<noteq> None"

definition set_nxt :: "nat \<Rightarrow> nat \<Rightarrow> heap \<Rightarrow> heap option" where
  "set_nxt p v h = (if allocated h p then Some (h\<lparr>nxt := (nxt h)(p \<mapsto> v)\<rparr>) else None)"

definition set_prv :: "nat \<Rightarrow> nat \<Rightarrow> heap \<Rightarrow> heap option" where
  "set_prv p v h = (if allocated h p then Some (h\<lparr>prv := (prv h)(p \<mapsto> v)\<rparr>) else None)"

definition NULL :: nat where "NULL = 0"

definition INIT_LIST_HEAD :: "nat \<Rightarrow> heap \<Rightarrow> heap option" where
  "INIT_LIST_HEAD ptr h = do { h \<leftarrow> set_nxt ptr ptr h; set_prv ptr ptr h }"

definition list_add_between :: "nat \<Rightarrow> nat \<Rightarrow> nat \<Rightarrow> heap \<Rightarrow> heap option" where
  "list_add_between new prev next h = do {
     h \<leftarrow> set_prv next new h;
     h \<leftarrow> set_nxt new next h;
     h \<leftarrow> set_prv new prev h;
     set_nxt prev new h
   }"

definition list_add :: "nat \<Rightarrow> nat \<Rightarrow> heap \<Rightarrow> heap option" where
  "list_add new head h = do { n \<leftarrow> nxt h head; list_add_between new head n h }"

definition list_add_tail :: "nat \<Rightarrow> nat \<Rightarrow> heap \<Rightarrow> heap option" where
  "list_add_tail new head h = do { p \<leftarrow> prv h head; list_add_between new p head h }"

definition list_del_between :: "nat \<Rightarrow> nat \<Rightarrow> heap \<Rightarrow> heap option" where
  "list_del_between prev next h = do { h \<leftarrow> set_prv next prev h; set_nxt prev next h }"

definition list_del :: "nat \<Rightarrow> heap \<Rightarrow> heap option" where
  "list_del entry h = do {
     p \<leftarrow> prv h entry;
     n \<leftarrow> nxt h entry;
     h \<leftarrow> list_del_between p n h;
     h \<leftarrow> set_nxt entry NULL h;
     set_prv entry NULL h
   }"

definition list_del_init :: "nat \<Rightarrow> heap \<Rightarrow> heap option" where
  "list_del_init entry h = do {
     p \<leftarrow> prv h entry;
     n \<leftarrow> nxt h entry;
     h \<leftarrow> list_del_between p n h;
     INIT_LIST_HEAD entry h
   }"

definition list_move :: "nat \<Rightarrow> nat \<Rightarrow> heap \<Rightarrow> heap option" where
  "list_move lst head h = do {
     p \<leftarrow> prv h lst;
     n \<leftarrow> nxt h lst;
     h \<leftarrow> list_del_between p n h;
     list_add lst head h
   }"

definition list_move_tail :: "nat \<Rightarrow> nat \<Rightarrow> heap \<Rightarrow> heap option" where
  "list_move_tail lst head h = do {
     p \<leftarrow> prv h lst;
     n \<leftarrow> nxt h lst;
     h \<leftarrow> list_del_between p n h;
     list_add_tail lst head h
   }"

definition list_empty :: "nat \<Rightarrow> heap \<Rightarrow> bool option" where
  "list_empty head h = do { n \<leftarrow> nxt h head; Some (n = head) }"

definition list_splice_nonempty :: "nat \<Rightarrow> nat \<Rightarrow> heap \<Rightarrow> heap option" where
  "list_splice_nonempty lst head h = do {
     first \<leftarrow> nxt h lst;
     last \<leftarrow> prv h lst;
     at \<leftarrow> nxt h head;
     h \<leftarrow> set_prv first head h;
     h \<leftarrow> set_nxt head first h;
     h \<leftarrow> set_nxt last at h;
     set_prv at last h
   }"

definition list_splice :: "nat \<Rightarrow> nat \<Rightarrow> heap \<Rightarrow> heap option" where
  "list_splice lst head h = do {
     e \<leftarrow> list_empty lst h;
     if e then Some h else list_splice_nonempty lst head h
   }"

definition list_splice_init :: "nat \<Rightarrow> nat \<Rightarrow> heap \<Rightarrow> heap option" where
  "list_splice_init lst head h = do {
     e \<leftarrow> list_empty lst h;
     if e then Some h else do { h \<leftarrow> list_splice_nonempty lst head h; INIT_LIST_HEAD lst h }
   }"

text \<open>The loops of the macros. \<open>list_for_each\<close> answers the nodes that it visits; the loop of
  \<open>list_for_each_safe\<close> has the body of its uses, the removal of some of the nodes.\<close>

partial_function (option) list_for_each_from :: "nat \<Rightarrow> nat \<Rightarrow> heap \<Rightarrow> nat list option" where
  "list_for_each_from pos head h =
     (if pos = head then Some []
      else case nxt h pos of
             None \<Rightarrow> None
           | Some pos' \<Rightarrow> do { ps \<leftarrow> list_for_each_from pos' head h; Some (pos # ps) })"

definition list_for_each :: "nat \<Rightarrow> heap \<Rightarrow> nat list option" where
  "list_for_each head h = do { pos \<leftarrow> nxt h head; list_for_each_from pos head h }"

partial_function (option) list_for_each_prev_from :: "nat \<Rightarrow> nat \<Rightarrow> heap \<Rightarrow> nat list option" where
  "list_for_each_prev_from pos head h =
     (if pos = head then Some []
      else case prv h pos of
             None \<Rightarrow> None
           | Some pos' \<Rightarrow> do { ps \<leftarrow> list_for_each_prev_from pos' head h; Some (pos # ps) })"

definition list_for_each_prev :: "nat \<Rightarrow> heap \<Rightarrow> nat list option" where
  "list_for_each_prev head h = do { pos \<leftarrow> prv h head; list_for_each_prev_from pos head h }"

partial_function (option) list_remove_from ::
    "(nat \<Rightarrow> bool) \<Rightarrow> nat \<Rightarrow> nat \<Rightarrow> nat \<Rightarrow> heap \<Rightarrow> heap option" where
  "list_remove_from P pos n head h =
     (if pos = head then Some h
      else case (if P pos then list_del pos h else Some h) of
             None \<Rightarrow> None
           | Some h' \<Rightarrow> (case nxt h' n of None \<Rightarrow> None | Some n' \<Rightarrow> list_remove_from P n n' head h'))"

definition list_for_each_safe_remove :: "(nat \<Rightarrow> bool) \<Rightarrow> nat \<Rightarrow> heap \<Rightarrow> heap option" where
  "list_for_each_safe_remove P head h = do {
     pos \<leftarrow> nxt h head;
     n \<leftarrow> nxt h pos;
     list_remove_from P pos n head h
   }"

partial_function (option) list_count_from :: "nat \<Rightarrow> nat \<Rightarrow> int \<Rightarrow> heap \<Rightarrow> int option" where
  "list_count_from tmp head count h =
     (if tmp = head then Some count
      else case nxt h tmp of None \<Rightarrow> None | Some tmp' \<Rightarrow> list_count_from tmp' head (s32 (count + 1)) h)"

definition list_count :: "nat \<Rightarrow> heap \<Rightarrow> int option" where
  "list_count head h = do { tmp \<leftarrow> nxt h head; list_count_from tmp head 0 h }"

section \<open>Linked nodes\<close>

definition linked :: "heap \<Rightarrow> nat list \<Rightarrow> bool" where
  "linked h ps \<longleftrightarrow> list_all (\<lambda>(a, b). nxt h a = Some b \<and> prv h b = Some a) (zip ps (tl ps))"

lemma linked_simps [simp]:
  "linked h []" "linked h [a]"
  "linked h (a # b # ps) \<longleftrightarrow> nxt h a = Some b \<and> prv h b = Some a \<and> linked h (b # ps)"
  by (auto simp: linked_def)

lemma linked_split: "linked h (us @ a # vs) \<longleftrightarrow> linked h (us @ [a]) \<and> linked h (a # vs)"
proof (induction us)
  case (Cons u us)
  then show ?case by (cases us) auto
qed simp

lemma linked_cong:
  assumes "linked h ps" "\<And>a. a \<in> set (butlast ps) \<Longrightarrow> nxt h' a = nxt h a"
    "\<And>b. b \<in> set (tl ps) \<Longrightarrow> prv h' b = prv h b"
  shows "linked h' ps"
  using assms
proof (induction ps rule: induct_list012)
  case (3 a b ps)
  then have "linked h' (b # ps)" by (intro "3.IH"(2)) (auto dest: in_set_butlast_appendI split: if_splits)
  then show ?case using 3 by auto
qed auto

definition dll :: "heap \<Rightarrow> nat \<Rightarrow> nat list \<Rightarrow> bool" where
  "dll h head xs \<longleftrightarrow> distinct (head # xs) \<and> linked h (head # xs @ [head])"

lemma linked_pair: "linked h (us @ a # b # vs) \<Longrightarrow> nxt h a = Some b \<and> prv h b = Some a"
  using linked_split[of h us a "b # vs"] by simp

lemma dll_linked: "dll h head xs \<Longrightarrow> linked h (head # xs @ [head])"
  by (simp add: dll_def)

lemma dll_allocated:
  assumes "dll h head xs" "p \<in> set (head # xs)"
  shows "allocated h p"
proof -
  obtain us vs where s: "head # xs = us @ p # vs" using split_list[OF assms(2)] by blast
  obtain b vs' where v: "vs @ [head] = b # vs'" by (cases vs) auto
  have "head # xs @ [head] = us @ p # b # vs'" using arg_cong[OF s, of "\<lambda>l. l @ [head]"] v by simp
  then have n: "nxt h p \<noteq> None" using linked_pair[of h us p b vs'] dll_linked[OF assms(1)] by simp
  have "p \<in> set (xs @ [head])" using assms(2) by auto
  then obtain us2 vs2 where s2: "xs @ [head] = us2 @ p # vs2" using split_list[of p] by blast
  obtain us3 a where u: "head # us2 = us3 @ [a]" by (cases "head # us2" rule: rev_cases) auto
  have "head # xs @ [head] = us3 @ a # p # vs2" using s2 arg_cong[OF u, of "\<lambda>l. l @ p # vs2"] by simp
  then have "prv h p \<noteq> None" using linked_pair[of h us3 a p vs2] dll_linked[OF assms(1)] by simp
  with n show ?thesis by (simp add: allocated_def)
qed

text \<open>A list keeps its nodes when the heap changes elsewhere.\<close>

lemma dll_frame:
  assumes "dll h head xs" "\<And>p. p \<in> set (head # xs) \<Longrightarrow> nxt h' p = nxt h p \<and> prv h' p = prv h p"
  shows "dll h' head xs"
proof -
  have "linked h' (head # xs @ [head])"
  proof (rule linked_cong)
    show "linked h (head # xs @ [head])" using assms(1) by (simp add: dll_def)
  qed (use assms(2) in \<open>auto simp: butlast_append split: if_splits\<close>)
  then show ?thesis using assms(1) by (simp add: dll_def)
qed

section \<open>Inserting and removing a node\<close>

text \<open>The neighbours of a place in the cycle: the node before the place and the node behind it.\<close>

definition before_place :: "nat \<Rightarrow> nat list \<Rightarrow> nat" where
  "before_place head ys = last (head # ys)"

definition after_place :: "nat \<Rightarrow> nat list \<Rightarrow> nat" where
  "after_place head zs = hd (zs @ [head])"

lemma place_split:
  obtains us vs where "head # ys = us @ [before_place head ys]" "zs @ [head] = after_place head zs # vs"
    "butlast (zs @ [head]) = zs" "set us \<subseteq> set (head # ys)"
proof -
  have "head # ys = butlast (head # ys) @ [before_place head ys]"
    by (simp add: before_place_def del: last.simps butlast.simps)
  moreover have "zs @ [head] = after_place head zs # tl (zs @ [head])"
    by (simp add: after_place_def)
  ultimately show ?thesis using that in_set_butlastD[of _ "head # ys"] by (metis butlast_snoc subsetI)
qed

lemma place_neighbours:
  assumes "linked h (head # ys @ e # zs @ [head])"
  shows "prv h e = Some (before_place head ys)" "nxt h e = Some (after_place head zs)"
    "linked h (head # ys)" "linked h (zs @ [head])"
proof -
  obtain us vs where s: "head # ys = us @ [before_place head ys]" "zs @ [head] = after_place head zs # vs"
    by (rule place_split)
  have "linked h ((head # ys) @ e # (zs @ [head]))" using assms by simp
  then have l: "linked h (us @ before_place head ys # e # after_place head zs # vs)"
    unfolding s by simp
  then show "prv h e = Some (before_place head ys)" "linked h (head # ys)"
    using linked_split[of h us "before_place head ys" "e # after_place head zs # vs"] unfolding s by auto
  show "nxt h e = Some (after_place head zs)" "linked h (zs @ [head])"
    using l linked_split[of h us "before_place head ys" "e # after_place head zs # vs"] unfolding s by auto
qed

lemma before_place_mem: "before_place head ys \<in> set (head # ys)"
  using last_in_set[of "head # ys"] by (simp add: before_place_def del: last.simps)

lemma after_place_mem: "after_place head zs \<in> set (head # zs)"
  by (cases zs) (auto simp: after_place_def)

lemma join_linked:
  assumes "linked h (head # ys)" "linked h (zs @ [head])"
    "nxt h (before_place head ys) = Some (after_place head zs)"
    "prv h (after_place head zs) = Some (before_place head ys)"
  shows "linked h (head # ys @ zs @ [head])"
proof -
  obtain us vs where s: "head # ys = us @ [before_place head ys]" "zs @ [head] = after_place head zs # vs"
    by (rule place_split)
  have "linked h (us @ before_place head ys # after_place head zs # vs)"
    using assms linked_split[of h us "before_place head ys" "after_place head zs # vs"] unfolding s by simp
  moreover have "us @ before_place head ys # after_place head zs # vs = (head # ys) @ (zs @ [head])"
    unfolding s by simp
  ultimately show ?thesis by simp
qed

lemma linked_parts:
  assumes "dll h head (ys @ zs)"
  shows "linked h (head # ys)" "linked h (zs @ [head])"
    "nxt h (before_place head ys) = Some (after_place head zs)"
    "prv h (after_place head zs) = Some (before_place head ys)"
proof -
  obtain us vs where s: "head # ys = us @ [before_place head ys]" "zs @ [head] = after_place head zs # vs"
    by (rule place_split)
  have "linked h ((head # ys) @ zs @ [head])" using dll_linked[OF assms] by simp
  then have "linked h (us @ before_place head ys # after_place head zs # vs)" unfolding s by simp
  then show "linked h (head # ys)" "linked h (zs @ [head])"
    "nxt h (before_place head ys) = Some (after_place head zs)"
    "prv h (after_place head zs) = Some (before_place head ys)"
    using linked_split[of h us "before_place head ys" "after_place head zs # vs"] unfolding s by auto
qed

text \<open>Changes of the heap at two places only.\<close>

definition heap_same_but :: "nat set \<Rightarrow> heap \<Rightarrow> heap \<Rightarrow> bool" where
  "heap_same_but A h h' \<longleftrightarrow> (\<forall>p. p \<notin> A \<longrightarrow> nxt h' p = nxt h p \<and> prv h' p = prv h p) \<and>
     (\<forall>p. allocated h p \<longrightarrow> allocated h' p)"

lemma heap_same_but_trans:
  "heap_same_but A h h1 \<Longrightarrow> heap_same_but B h1 h2 \<Longrightarrow> heap_same_but (A \<union> B) h h2"
  by (simp add: heap_same_but_def)

lemma heap_same_but_mono: "heap_same_but A h h' \<Longrightarrow> A \<subseteq> B \<Longrightarrow> heap_same_but B h h'"
  by (auto simp: heap_same_but_def)

lemma list_add_between_spec:
  assumes d: "dll h head (ys @ zs)" and new: "new \<notin> set (head # ys @ zs)" "allocated h new"
  shows "\<exists>h'. list_add_between new (before_place head ys) (after_place head zs) h = Some h' \<and>
    dll h' head (ys @ new # zs) \<and> heap_same_but (set (head # ys @ zs) \<union> {new}) h h'"
proof -
  let ?a = "before_place head ys" and ?b = "after_place head zs"
  have m: "?a \<in> set (head # ys)" "?b \<in> set (head # zs)" by (rule before_place_mem, rule after_place_mem)
  have dist: "distinct (head # ys @ zs)" using d by (simp add: dll_def)
  have al: "allocated h ?a" "allocated h ?b"
    by (rule dll_allocated[OF d]; use m in auto)+
  have ne: "?a \<noteq> new" "?b \<noteq> new" using m new(1) by auto
  define h' where "h' = h\<lparr>nxt := (nxt h)(new \<mapsto> ?b, ?a \<mapsto> new), prv := (prv h)(?b \<mapsto> new, new \<mapsto> ?a)\<rparr>"
  have run: "list_add_between new ?a ?b h = Some h'"
    using al new(2) by (auto simp: list_add_between_def set_nxt_def set_prv_def allocated_def h'_def)
  obtain us vs where s: "head # ys = us @ [?a]" "zs @ [head] = ?b # vs" by (rule place_split)
  note lp = linked_parts[OF d]
  have "?b \<notin> set ys" using m(2) dist by auto
  have l1: "linked h' (head # ys)"
  proof (rule linked_cong[OF lp(1)])
    have "distinct (us @ [?a])" using dist by (simp flip: s(1))
    moreover have "new \<notin> set us" using arg_cong[OF s(1), of set] new(1) by auto
    ultimately show "nxt h' p = nxt h p" if "p \<in> set (butlast (head # ys))" for p
      using that unfolding s h'_def by auto
    show "prv h' p = prv h p" if "p \<in> set (tl (head # ys))" for p
      using that \<open>?b \<notin> set ys\<close> new(1) by (auto simp: h'_def)
  qed
  have l2: "linked h' (zs @ [head])"
  proof (rule linked_cong[OF lp(2)])
    show "nxt h' p = nxt h p" if "p \<in> set (butlast (zs @ [head]))" for p
      using that m(1) dist new(1) by (auto simp: h'_def)
    have "distinct (?b # vs)" using dist by (simp flip: s(2))
    moreover have "new \<notin> set vs" using arg_cong[OF s(2), of set] new(1) by auto
    ultimately show "prv h' p = prv h p" if "p \<in> set (tl (zs @ [head]))" for p
      using that unfolding s(2) by (auto simp: h'_def)
  qed
  have "linked h' (us @ ?a # new # ?b # vs)"
    using l1 l2 ne linked_split[of h' us ?a "new # ?b # vs"] unfolding s by (simp add: h'_def)
  moreover have "us @ ?a # new # ?b # vs = (head # ys) @ new # (zs @ [head])" unfolding s by simp
  ultimately have "dll h' head (ys @ new # zs)" using dist new(1) by (auto simp: dll_def)
  moreover have "heap_same_but (set (head # ys @ zs) \<union> {new}) h h'"
    using m by (auto simp: heap_same_but_def h'_def allocated_def)
  ultimately show ?thesis using run by blast
qed

lemma list_del_between_spec:
  assumes d: "dll h head (ys @ e # zs)"
  shows "\<exists>h'. list_del_between (before_place head ys) (after_place head zs) h = Some h' \<and>
    dll h' head (ys @ zs) \<and> heap_same_but (set (head # ys @ zs)) h h'"
proof -
  let ?a = "before_place head ys" and ?b = "after_place head zs"
  have m: "?a \<in> set (head # ys)" "?b \<in> set (head # zs)" by (rule before_place_mem, rule after_place_mem)
  have dist: "distinct (head # ys @ zs)" "e \<notin> set (head # ys @ zs)" using d by (auto simp: dll_def)
  have al: "allocated h ?a" "allocated h ?b"
    by (rule dll_allocated[OF d]; use m in auto)+
  define h' where "h' = h\<lparr>nxt := (nxt h)(?a \<mapsto> ?b), prv := (prv h)(?b \<mapsto> ?a)\<rparr>"
  have run: "list_del_between ?a ?b h = Some h'"
    using al by (auto simp: list_del_between_def set_nxt_def set_prv_def allocated_def h'_def)
  obtain us vs where s: "head # ys = us @ [?a]" "zs @ [head] = ?b # vs" by (rule place_split)
  note lp = place_neighbours[of h head ys e zs]
  have lk: "linked h (head # ys @ e # zs @ [head])" using dll_linked[OF d] by simp
  have "?b \<notin> set ys" using m(2) dist by auto
  have l1: "linked h' (head # ys)"
  proof (rule linked_cong[OF lp(3)[OF lk]])
    have "distinct (us @ [?a])" using dist by (simp flip: s(1))
    then show "nxt h' p = nxt h p" if "p \<in> set (butlast (head # ys))" for p
      using that unfolding s h'_def by auto
    show "prv h' p = prv h p" if "p \<in> set (tl (head # ys))" for p
      using that \<open>?b \<notin> set ys\<close> by (auto simp: h'_def)
  qed
  have l2: "linked h' (zs @ [head])"
  proof (rule linked_cong[OF lp(4)[OF lk]])
    show "nxt h' p = nxt h p" if "p \<in> set (butlast (zs @ [head]))" for p
      using that m(1) dist by (auto simp: h'_def)
    have "distinct (?b # vs)" using dist by (simp flip: s(2))
    then show "prv h' p = prv h p" if "p \<in> set (tl (zs @ [head]))" for p
      using that unfolding s(2) by (auto simp: h'_def)
  qed
  have "linked h' (head # ys @ zs @ [head])"
    by (rule join_linked[OF l1 l2]) (simp_all add: h'_def)
  then have "dll h' head (ys @ zs)" using dist by (simp add: dll_def)
  moreover have "heap_same_but (set (head # ys @ zs)) h h'"
    using m by (auto simp: heap_same_but_def h'_def allocated_def)
  ultimately show ?thesis using run by blast
qed

section \<open>The operations of the header\<close>

lemma before_place_Nil [simp]: "before_place head [] = head"
  and after_place_Nil [simp]: "after_place head [] = head"
  and before_place_snoc [simp]: "before_place head (ys @ [y]) = y"
  and after_place_Cons [simp]: "after_place head (z # zs) = z"
  by (simp_all add: before_place_def after_place_def)

lemma dll_next: "dll h head (ys @ zs) \<Longrightarrow> nxt h (before_place head ys) = Some (after_place head zs)"
  and dll_prev: "dll h head (ys @ zs) \<Longrightarrow> prv h (after_place head zs) = Some (before_place head ys)"
  using linked_parts by blast+

text \<open>Insertion behind the node in front of a place and in front of the node behind it: with the head
  for one of the two these are the ends of the list.\<close>

lemma list_add_spec:
  assumes "dll h head (ys @ zs)" "new \<notin> set (head # ys @ zs)" "allocated h new"
  shows "\<exists>h'. list_add new (before_place head ys) h = Some h' \<and> dll h' head (ys @ new # zs) \<and>
    heap_same_but (set (head # ys @ zs) \<union> {new}) h h'"
  using list_add_between_spec[OF assms] dll_next[OF assms(1)] by (simp add: list_add_def)

lemma list_add_tail_spec:
  assumes "dll h head (ys @ zs)" "new \<notin> set (head # ys @ zs)" "allocated h new"
  shows "\<exists>h'. list_add_tail new (after_place head zs) h = Some h' \<and> dll h' head (ys @ new # zs) \<and>
    heap_same_but (set (head # ys @ zs) \<union> {new}) h h'"
  using list_add_between_spec[OF assms] dll_prev[OF assms(1)] by (simp add: list_add_tail_def)

lemma dll_entry:
  assumes "dll h head (ys @ e # zs)"
  shows "prv h e = Some (before_place head ys)" "nxt h e = Some (after_place head zs)" "allocated h e"
    "e \<notin> set (head # ys @ zs)"
proof -
  have l: "linked h (head # ys @ e # zs @ [head])" using dll_linked[OF assms] by simp
  show "prv h e = Some (before_place head ys)" "nxt h e = Some (after_place head zs)"
    by (rule place_neighbours[OF l])+
  show "allocated h e" by (rule dll_allocated[OF assms]) simp
  show "e \<notin> set (head # ys @ zs)" using assms by (auto simp: dll_def)
qed

lemma dll_same_but: "dll h head xs \<Longrightarrow> heap_same_but A h h' \<Longrightarrow> A \<inter> set (head # xs) = {} \<Longrightarrow> dll h' head xs"
  by (erule dll_frame) (auto simp: heap_same_but_def)

lemma set_nxt_same: "allocated h p \<Longrightarrow> \<exists>h'. set_nxt p v h = Some h' \<and> heap_same_but {p} h h' \<and>
    nxt h' p = Some v \<and> prv h' = prv h"
  by (auto simp: set_nxt_def heap_same_but_def allocated_def)

lemma set_prv_same: "allocated h p \<Longrightarrow> \<exists>h'. set_prv p v h = Some h' \<and> heap_same_but {p} h h' \<and>
    prv h' p = Some v \<and> nxt h' = nxt h"
  by (auto simp: set_prv_def heap_same_but_def allocated_def)

lemma heap_same_but_allocated: "heap_same_but A h h' \<Longrightarrow> allocated h p \<Longrightarrow> allocated h' p"
  by (simp add: heap_same_but_def)

lemma list_del_spec:
  assumes d: "dll h head (ys @ e # zs)"
  shows "\<exists>h'. list_del e h = Some h' \<and> dll h' head (ys @ zs) \<and> nxt h' e = Some NULL \<and> prv h' e = Some NULL \<and>
    heap_same_but (set (head # ys @ e # zs)) h h'"
proof -
  note e = dll_entry[OF d]
  obtain h1 where 1: "list_del_between (before_place head ys) (after_place head zs) h = Some h1"
    "dll h1 head (ys @ zs)" "heap_same_but (set (head # ys @ zs)) h h1"
    using list_del_between_spec[OF d] by blast
  obtain h2 where 2: "set_nxt e NULL h1 = Some h2" "heap_same_but {e} h1 h2" "nxt h2 e = Some NULL"
    using set_nxt_same[OF heap_same_but_allocated[OF 1(3) e(3)]] by blast
  obtain h3 where 3: "set_prv e NULL h2 = Some h3" "heap_same_but {e} h2 h3" "prv h3 e = Some NULL" "nxt h3 = nxt h2"
    using set_prv_same[OF heap_same_but_allocated[OF 2(2) heap_same_but_allocated[OF 1(3) e(3)]]] by blast
  have s: "heap_same_but {e} h1 h3" using heap_same_but_trans[OF 2(2) 3(2)] by simp
  have "dll h3 head (ys @ zs)" by (rule dll_same_but[OF 1(2) s]) (use e(4) in auto)
  moreover have "heap_same_but (set (head # ys @ e # zs)) h h3"
    by (rule heap_same_but_mono[OF heap_same_but_trans[OF 1(3) s]]) auto
  ultimately show ?thesis using e(1,2) 1(1) 2(1,3) 3 by (simp add: list_del_def)
qed

lemma INIT_LIST_HEAD_spec:
  assumes "allocated h p"
  shows "\<exists>h'. INIT_LIST_HEAD p h = Some h' \<and> dll h' p [] \<and> heap_same_but {p} h h'"
  using assms by (auto simp: INIT_LIST_HEAD_def set_nxt_def set_prv_def heap_same_but_def allocated_def dll_def)

lemma list_del_init_spec:
  assumes d: "dll h head (ys @ e # zs)"
  shows "\<exists>h'. list_del_init e h = Some h' \<and> dll h' head (ys @ zs) \<and> dll h' e [] \<and>
    heap_same_but (set (head # ys @ e # zs)) h h'"
proof -
  note e = dll_entry[OF d]
  obtain h1 where 1: "list_del_between (before_place head ys) (after_place head zs) h = Some h1"
    "dll h1 head (ys @ zs)" "heap_same_but (set (head # ys @ zs)) h h1"
    using list_del_between_spec[OF d] by blast
  obtain h2 where 2: "INIT_LIST_HEAD e h1 = Some h2" "dll h2 e []" "heap_same_but {e} h1 h2"
    using INIT_LIST_HEAD_spec[OF heap_same_but_allocated[OF 1(3) e(3)]] by blast
  have "dll h2 head (ys @ zs)" by (rule dll_same_but[OF 1(2) 2(3)]) (use e(4) in auto)
  moreover have "heap_same_but (set (head # ys @ e # zs)) h h2"
    by (rule heap_same_but_mono[OF heap_same_but_trans[OF 1(3) 2(3)]]) auto
  ultimately show ?thesis using e(1,2) 1(1) 2 by (simp add: list_del_init_def)
qed

text \<open>Moving a node to the front of its own list, or of another one.\<close>

lemma list_move_same:
  assumes d: "dll h head (ys @ e # zs)"
  shows "\<exists>h'. list_move e head h = Some h' \<and> dll h' head (e # ys @ zs) \<and>
    heap_same_but (set (head # ys @ e # zs)) h h'"
proof -
  note e = dll_entry[OF d]
  obtain h1 where 1: "list_del_between (before_place head ys) (after_place head zs) h = Some h1"
    "dll h1 head (ys @ zs)" "heap_same_but (set (head # ys @ zs)) h h1"
    using list_del_between_spec[OF d] by blast
  obtain h2 where 2: "list_add e head h1 = Some h2" "dll h2 head (e # ys @ zs)"
    "heap_same_but (set (head # ys @ zs) \<union> {e}) h1 h2"
    using list_add_spec[of h1 head "[]" "ys @ zs" e] 1(2) e(4) heap_same_but_allocated[OF 1(3) e(3)] by auto
  have "heap_same_but (set (head # ys @ e # zs)) h h2"
    by (rule heap_same_but_mono[OF heap_same_but_trans[OF 1(3) 2(3)]]) auto
  then show ?thesis using e(1,2) 1(1) 2 by (simp add: list_move_def)
qed

lemma list_move_tail_other:
  assumes d: "dll h head (ys @ e # zs)" and d2: "dll h head2 xs"
    and dis: "set (head # ys @ e # zs) \<inter> set (head2 # xs) = {}"
  shows "\<exists>h'. list_move_tail e head2 h = Some h' \<and> dll h' head (ys @ zs) \<and> dll h' head2 (xs @ [e])"
proof -
  note e = dll_entry[OF d]
  obtain h1 where 1: "list_del_between (before_place head ys) (after_place head zs) h = Some h1"
    "dll h1 head (ys @ zs)" "heap_same_but (set (head # ys @ zs)) h h1"
    using list_del_between_spec[OF d] by blast
  have d1: "dll h1 head2 xs" by (rule dll_same_but[OF d2 1(3)]) (use dis in auto)
  obtain h2 where 2: "list_add_tail e head2 h1 = Some h2" "dll h2 head2 (xs @ [e])"
    "heap_same_but (set (head2 # xs) \<union> {e}) h1 h2"
    using list_add_tail_spec[of h1 head2 xs "[]" e] d1 dis heap_same_but_allocated[OF 1(3) e(3)] by auto
  have "dll h2 head (ys @ zs)" by (rule dll_same_but[OF 1(2) 2(3)]) (use e(4) dis in auto)
  then show ?thesis using e(1,2) 1(1) 2 by (simp add: list_move_tail_def)
qed

lemma list_empty_spec: "dll h head xs \<Longrightarrow> list_empty head h = Some (xs = [])"
  using dll_next[of h head "[]" xs] by (cases xs) (auto simp: list_empty_def dll_def)

section \<open>Walks\<close>

lemma list_for_each_from_spec:
  "linked h (zs @ [head]) \<Longrightarrow> head \<notin> set zs \<Longrightarrow> list_for_each_from (after_place head zs) head h = Some zs"
proof (induction zs)
  case Nil
  then show ?case by (simp add: list_for_each_from.simps)
next
  case (Cons z zs)
  have l: "linked h (zs @ [head])" "nxt h z = Some (after_place head zs)"
    using Cons.prems(1) by (cases zs; simp)+
  then show ?case using Cons by (simp add: list_for_each_from.simps[of z])
qed

lemma list_for_each_prev_from_spec:
  "linked h (head # ys) \<Longrightarrow> head \<notin> set ys \<Longrightarrow> list_for_each_prev_from (before_place head ys) head h = Some (rev ys)"
proof (induction ys rule: rev_induct)
  case Nil
  then show ?case by (simp add: list_for_each_prev_from.simps)
next
  case (snoc y ys)
  obtain us vs where s: "head # ys = us @ [before_place head ys]" by (rule place_split)
  have "linked h ((head # ys) @ [y])" using snoc.prems(1) by simp
  then have "linked h (us @ before_place head ys # [y])" unfolding s by simp
  then have "linked h (head # ys)" "prv h y = Some (before_place head ys)"
    using linked_split[of h us "before_place head ys" "[y]"] unfolding s by simp_all
  then show ?case using snoc by (simp add: list_for_each_prev_from.simps[of y])
qed

lemma list_for_each_spec: "dll h head xs \<Longrightarrow> list_for_each head h = Some xs"
  using linked_parts[of h head "[]" xs] list_for_each_from_spec[of h xs head]
  by (simp add: list_for_each_def dll_def)

lemma list_for_each_prev_spec: "dll h head xs \<Longrightarrow> list_for_each_prev head h = Some (rev xs)"
  using linked_parts[of h head xs "[]"] list_for_each_prev_from_spec[of h head xs]
  by (simp add: list_for_each_prev_def dll_def)

lemma list_count_from_spec:
  "linked h (zs @ [head]) \<Longrightarrow> head \<notin> set zs \<Longrightarrow> 0 \<le> c \<Longrightarrow> c + int (length zs) < 2147483648 \<Longrightarrow>
   list_count_from (after_place head zs) head c h = Some (c + int (length zs))"
proof (induction zs arbitrary: c)
  case Nil
  then show ?case by (simp add: list_count_from.simps)
next
  case (Cons z zs)
  have l: "linked h (zs @ [head])" "nxt h z = Some (after_place head zs)"
    using Cons.prems(1) by (cases zs; simp)+
  then show ?case using Cons by (simp add: list_count_from.simps[of z] s32_id)
qed

lemma list_remove_from_spec:
  "dll h head (ys @ zs) \<Longrightarrow> nxt h (after_place head zs) = Some n \<Longrightarrow>
   \<exists>h'. list_remove_from P (after_place head zs) n head h = Some h' \<and>
     dll h' head (ys @ filter (\<lambda>p. \<not> P p) zs) \<and> heap_same_but (set (head # ys @ zs)) h h'"
proof (induction zs arbitrary: h ys n)
  case Nil
  then show ?case by (auto simp: list_remove_from.simps heap_same_but_def)
next
  case (Cons z zs)
  have ne: "z \<noteq> head" using Cons.prems(1) by (auto simp: dll_def)
  have n: "n = after_place head zs" using dll_entry(2)[OF Cons.prems(1)] Cons.prems(2) by simp
  obtain h1 where h1: "(if P z then list_del z h else Some h) = Some h1"
    "dll h1 head ((if P z then ys else ys @ [z]) @ zs)" "heap_same_but (set (head # ys @ z # zs)) h h1"
    using list_del_spec[OF Cons.prems(1)] Cons.prems(1) by (cases "P z") (auto simp: heap_same_but_def)
  have "allocated h1 n"
    by (rule dll_allocated[OF h1(2)]) (use after_place_mem[of head zs] n in auto)
  then obtain n' where n': "nxt h1 n = Some n'" by (auto simp: allocated_def)
  obtain h2 where h2: "list_remove_from P (after_place head zs) n' head h1 = Some h2"
    "dll h2 head ((if P z then ys else ys @ [z]) @ filter (\<lambda>p. \<not> P p) zs)"
    "heap_same_but (set (head # (if P z then ys else ys @ [z]) @ zs)) h1 h2"
    using Cons.IH[OF h1(2)] n' n by blast
  have "heap_same_but (set (head # ys @ z # zs)) h h2"
    by (rule heap_same_but_mono[OF heap_same_but_trans[OF h1(3) h2(3)]]) auto
  then show ?case using ne n n' h1(1) h2 by (auto simp: list_remove_from.simps[of P z])
qed

lemma list_for_each_safe_remove_spec:
  assumes "dll h head xs"
  shows "\<exists>h'. list_for_each_safe_remove P head h = Some h' \<and> dll h' head (filter (\<lambda>p. \<not> P p) xs) \<and>
    heap_same_but (set (head # xs)) h h'"
proof -
  have f: "nxt h head = Some (after_place head xs)" using dll_next[of h head "[]" xs] assms by simp
  have "allocated h (after_place head xs)" by (rule dll_allocated[OF assms after_place_mem])
  then obtain n where "nxt h (after_place head xs) = Some n" by (auto simp: allocated_def)
  then show ?thesis
    using list_remove_from_spec[of h head "[]" xs n P] assms f by (simp add: list_for_each_safe_remove_def)
qed

section \<open>Joining two lists\<close>

lemma linked_prefix: "linked h (us @ vs) \<Longrightarrow> linked h us"
proof (cases us rule: rev_cases)
  case (snoc us' u)
  then show "linked h (us @ vs) \<Longrightarrow> linked h us" using linked_split[of h us' u vs] by simp
qed simp

lemma list_splice_nonempty_spec:
  assumes d1: "dll h head xs" and d2: "dll h lst ys" and ne: "ys \<noteq> []"
    and dis: "set (head # xs) \<inter> set (lst # ys) = {}"
  shows "\<exists>h'. list_splice_nonempty lst head h = Some h' \<and> dll h' head (ys @ xs) \<and>
    heap_same_but (set (head # xs) \<union> set ys) h h'"
proof -
  let ?f = "hd ys" and ?l = "last ys" and ?at = "after_place head xs"
  have m: "?f \<in> set ys" "?l \<in> set ys" "?at \<in> set (head # xs)" using ne after_place_mem by auto
  have dist: "distinct (head # xs)" "distinct (lst # ys)" using d1 d2 by (auto simp: dll_def)
  have al: "allocated h head" "allocated h ?f" "allocated h ?l" "allocated h ?at"
    using dll_allocated[OF d1] dll_allocated[OF d2] m by auto
  have f: "nxt h lst = Some ?f" "prv h lst = Some ?l" "nxt h head = Some ?at"
    using dll_next[of h lst "[]" ys] dll_prev[of h lst ys "[]"] dll_next[of h head "[]" xs] d1 d2 ne
    by (simp_all add: after_place_def before_place_def hd_append)
  define h' where "h' = h\<lparr>nxt := (nxt h)(head \<mapsto> ?f, ?l \<mapsto> ?at), prv := (prv h)(?f \<mapsto> head, ?at \<mapsto> ?l)\<rparr>"
  have run: "list_splice_nonempty lst head h = Some h'"
    using al f by (auto simp: list_splice_nonempty_def set_nxt_def set_prv_def allocated_def h'_def)
  have sep: "head \<notin> set ys" "?at \<notin> set ys" "?f \<notin> set (head # xs)" "?l \<notin> set (head # xs)" "?l \<noteq> head" "?f \<noteq> ?at"
    using dis m by auto
  obtain zs z where z: "ys = zs @ [z]" using ne by (cases ys rule: rev_cases) auto
  have "linked h' ys"
  proof (rule linked_cong)
    show "linked h ys" using linked_prefix linked_parts(2)[of h lst "[]" ys] d2 by simp
    show "nxt h' p = nxt h p" if "p \<in> set (butlast ys)" for p
      using that sep(1) dist(2) by (auto simp: h'_def z)
    show "prv h' p = prv h p" if "p \<in> set (tl ys)" for p
      using that sep(2) dist(2) by (cases ys) (auto simp: h'_def)
  qed
  then have l1: "linked h' (head # ys)"
    using sep(5,6) ne by (cases ys) (auto simp: h'_def)
  have l2: "linked h' (xs @ [head])"
  proof (rule linked_cong)
    show "linked h (xs @ [head])" using linked_parts(2)[of h head "[]" xs] d1 by simp
    show "nxt h' p = nxt h p" if "p \<in> set (butlast (xs @ [head]))" for p
      using that sep(4) dist(1) by (auto simp: h'_def)
    show "prv h' p = prv h p" if "p \<in> set (tl (xs @ [head]))" for p
      using that sep(3) dist(1) by (cases xs) (auto simp: h'_def)
  qed
  have "linked h' (head # ys @ xs @ [head])"
    by (rule join_linked[OF l1 l2]) (simp_all add: h'_def before_place_def ne)
  then have "dll h' head (ys @ xs)" using dist dis by (auto simp: dll_def)
  moreover have "heap_same_but (set (head # xs) \<union> set ys) h h'"
    using m by (auto simp: heap_same_but_def h'_def allocated_def)
  ultimately show ?thesis using run by blast
qed

lemma list_splice_init_spec:
  assumes d1: "dll h head xs" and d2: "dll h lst ys" and dis: "set (head # xs) \<inter> set (lst # ys) = {}"
  shows "\<exists>h'. list_splice_init lst head h = Some h' \<and> dll h' head (ys @ xs) \<and> dll h' lst []"
proof (cases "ys = []")
  case True
  then show ?thesis using assms list_empty_spec[OF d2] by (simp add: list_splice_init_def)
next
  case False
  obtain h1 where 1: "list_splice_nonempty lst head h = Some h1" "dll h1 head (ys @ xs)"
    "heap_same_but (set (head # xs) \<union> set ys) h h1"
    using list_splice_nonempty_spec[OF d1 d2 False dis] by blast
  have "allocated h lst" by (rule dll_allocated[OF d2]) simp
  then obtain h2 where 2: "INIT_LIST_HEAD lst h1 = Some h2" "dll h2 lst []" "heap_same_but {lst} h1 h2"
    using INIT_LIST_HEAD_spec[OF heap_same_but_allocated[OF 1(3)]] by blast
  have "dll h2 head (ys @ xs)"
    by (rule dll_same_but[OF 1(2) 2(3)]) (use dis d2 in \<open>auto simp: dll_def\<close>)
  then show ?thesis using 1(1) 2 list_empty_spec[OF d2] False by (simp add: list_splice_init_def)
qed

section \<open>Ordered insertion\<close>

text \<open>
  What the stream reassembler asks of a list of nodes: the node behind a node or the head, and the
  insertion of a fresh node behind one. Its loop looks for the last node of the prefix that
  satisfies \<open>P\<close> and adds the new node behind that one.
\<close>

locale node_list =
  fixes rep :: "'s \<Rightarrow> nat \<Rightarrow> nat list \<Rightarrow> bool"
    and fresh :: "'s \<Rightarrow> nat \<Rightarrow> bool"
    and next_of :: "nat \<Rightarrow> 's \<Rightarrow> nat option"
    and insert_behind :: "nat \<Rightarrow> nat \<Rightarrow> 's \<Rightarrow> 's option"
  assumes next_law: "rep s head (ys @ zs) \<Longrightarrow> next_of (before_place head ys) s = Some (after_place head zs)"
    and head_law: "rep s head xs \<Longrightarrow> head \<notin> set xs"
    and insert_law: "rep s head (ys @ zs) \<Longrightarrow> fresh s new \<Longrightarrow> new \<notin> set (head # ys @ zs) \<Longrightarrow>
      \<exists>s'. insert_behind new (before_place head ys) s = Some s' \<and> rep s' head (ys @ new # zs)"
begin

partial_function (option) candidate_from :: "(nat \<Rightarrow> bool) \<Rightarrow> nat \<Rightarrow> nat \<Rightarrow> nat \<Rightarrow> 's \<Rightarrow> nat option" where
  "candidate_from P pos candidate head s =
     (if pos = head then Some candidate
      else if P pos then (case next_of pos s of
             None \<Rightarrow> None
           | Some pos' \<Rightarrow> candidate_from P pos' pos head s)
      else Some candidate)"

definition ordered_insert :: "(nat \<Rightarrow> bool) \<Rightarrow> nat \<Rightarrow> nat \<Rightarrow> 's \<Rightarrow> 's option" where
  "ordered_insert P new head s = do {
     pos \<leftarrow> next_of head s;
     candidate \<leftarrow> candidate_from P pos head head s;
     insert_behind new candidate s
   }"

lemma candidate_from_spec:
  "rep s head (ys @ zs) \<Longrightarrow>
   candidate_from P (after_place head zs) (before_place head ys) head s =
     Some (before_place head (ys @ takeWhile P zs))"
proof (induction zs arbitrary: ys)
  case Nil
  then show ?case by (simp add: candidate_from.simps)
next
  case (Cons z zs)
  have ne: "z \<noteq> head" using head_law[OF Cons.prems] by auto
  have r: "rep s head ((ys @ [z]) @ zs)" using Cons.prems by simp
  have n: "next_of z s = Some (after_place head zs)" using next_law[OF r] by simp
  show ?case using Cons.IH[OF r] n ne by (simp add: candidate_from.simps[of P z])
qed

lemma ordered_insert_spec:
  assumes "rep s head xs" "fresh s new" "new \<notin> set (head # xs)"
  shows "\<exists>s'. ordered_insert P new head s = Some s' \<and>
    rep s' head (takeWhile P xs @ new # dropWhile P xs)"
proof -
  have f: "next_of head s = Some (after_place head xs)" using next_law[of s head "[]" xs] assms(1) by simp
  have c: "candidate_from P (after_place head xs) head head s = Some (before_place head (takeWhile P xs))"
    using candidate_from_spec[of s head "[]" xs P] assms(1) by simp
  have "rep s head (takeWhile P xs @ dropWhile P xs)" using assms(1) by simp
  from insert_law[OF this assms(2)] show ?thesis
    using assms(3) f c by (simp add: ordered_insert_def flip: set_append)
qed

end

interpretation klist: node_list dll "\<lambda>h p. allocated h p" "\<lambda>p h. nxt h p" list_add
proof
  show "nxt s (before_place head ys) = Some (after_place head zs)" if "dll s head (ys @ zs)" for s head ys zs
    using dll_next[OF that] .
  show "head \<notin> set xs" if "dll s head xs" for s head xs
    using that by (simp add: dll_def)
  show "\<exists>s'. list_add new (before_place head ys) s = Some s' \<and> dll s' head (ys @ new # zs)"
    if "dll s head (ys @ zs)" "allocated s new" "new \<notin> set (head # ys @ zs)" for s head ys zs new
    using list_add_spec[OF that(1,3,2)] by blast
qed

section \<open>Properties\<close>

text \<open>The nodes that an operation writes: the new or the removed one and its two neighbours.\<close>

lemma list_add_between_cells: "list_add_between new a b h = Some h' \<Longrightarrow> heap_same_but {new, a, b} h h'"
  by (auto simp: list_add_between_def set_nxt_def set_prv_def heap_same_but_def allocated_def split: if_splits Option.bind_splits)

lemma list_del_cells:
  assumes "prv h e = Some a" and "nxt h e = Some b"
  shows "list_del e h = Some h' \<Longrightarrow> heap_same_but {e, a, b} h h'"
    and "list_del_init e h = Some h' \<Longrightarrow> heap_same_but {e, a, b} h h'"
  using assms
  by (auto simp: list_del_def list_del_init_def INIT_LIST_HEAD_def list_del_between_def set_nxt_def set_prv_def
      heap_same_but_def allocated_def split: if_splits Option.bind_splits)

lemma list_add_del_cells:
  assumes d: "dll h head (ys @ zs)" and new: "new \<notin> set (head # ys @ zs)" "allocated h new"
    and add: "list_add_between new (before_place head ys) (after_place head zs) h = Some h1"
  shows "list_del new h1 = Some (h\<lparr>nxt := (nxt h)(new \<mapsto> NULL), prv := (prv h)(new \<mapsto> NULL)\<rparr>)"
proof -
  let ?a = "before_place head ys" and ?b = "after_place head zs"
  have m: "?a \<in> set (head # ys @ zs)" "?b \<in> set (head # ys @ zs)"
    using before_place_mem [of head ys] after_place_mem [of head zs] by auto
  then have ne: "new \<noteq> ?a" "new \<noteq> ?b" using new(1) by auto
  have al: "allocated h ?a" "allocated h ?b" using dll_allocated [OF d] m by blast+
  note nb = dll_next [OF d] dll_prev [OF d]
  define h' where "h' = h\<lparr>nxt := (nxt h)(new \<mapsto> ?b, ?a \<mapsto> new), prv := (prv h)(?b \<mapsto> new, new \<mapsto> ?a)\<rparr>"
  have "list_add_between new ?a ?b h = Some h'"
    using al new(2) by (auto simp: list_add_between_def set_nxt_def set_prv_def allocated_def h'_def)
  then have h1: "h1 = h'" using add by simp
  have "(nxt h)(new \<mapsto> ?b, ?a \<mapsto> new, ?a \<mapsto> ?b, new \<mapsto> NULL) = (nxt h)(new \<mapsto> NULL)"
    "(prv h)(?b \<mapsto> new, new \<mapsto> ?a, ?b \<mapsto> ?a, new \<mapsto> NULL) = (prv h)(new \<mapsto> NULL)"
    using nb ne by (auto simp: fun_eq_iff)
  moreover have "list_del new h' = Some (h\<lparr>nxt := (nxt h)(new \<mapsto> ?b, ?a \<mapsto> new, ?a \<mapsto> ?b, new \<mapsto> NULL),
      prv := (prv h)(?b \<mapsto> new, new \<mapsto> ?a, ?b \<mapsto> ?a, new \<mapsto> NULL)\<rparr>)"
    using al new(2) ne by (auto simp: list_del_def list_del_between_def set_nxt_def set_prv_def allocated_def h'_def)
  ultimately show ?thesis unfolding h1 by simp
qed

text \<open>C17 (insertion and removal). At every place of a list: a new node that is added behind the node in front of the place, or in
  front of the node behind it, with the head for either at the ends, stands there in the cycle, and removing it again answers the very heap from
  before, but for the NULL in its own pointers. Any node of the list is removed by \<open>list_del\<close>, which leaves NULL in it, and by
  \<open>list_del_init\<close>, which leaves it an empty list of its own. Each of these writes to no node but the new or removed one and its two
  neighbours, so that every list that has none of these keeps its nodes, and none goes through NULL.\<close>

theorem list_insert_remove:
  assumes "dll h head (ys @ zs)"
  shows "(\<forall>new. new \<notin> set (head # ys @ zs) \<and> allocated h new \<longrightarrow>
      (\<exists>h1. list_add new (before_place head ys) h = Some h1 \<and> list_add_tail new (after_place head zs) h = Some h1 \<and>
        dll h1 head (ys @ new # zs) \<and> heap_same_but {new, before_place head ys, after_place head zs} h h1 \<and>
        list_del new h1 = Some (h\<lparr>nxt := (nxt h)(new \<mapsto> NULL), prv := (prv h)(new \<mapsto> NULL)\<rparr>))) \<and>
    (\<forall>e es. zs = e # es \<longrightarrow>
      (\<exists>h2. list_del e h = Some h2 \<and> dll h2 head (ys @ es) \<and> nxt h2 e = Some NULL \<and> prv h2 e = Some NULL \<and>
        heap_same_but {e, before_place head ys, after_place head es} h h2) \<and>
      (\<exists>h3. list_del_init e h = Some h3 \<and> dll h3 head (ys @ es) \<and> dll h3 e [] \<and>
        heap_same_but {e, before_place head ys, after_place head es} h h3)) \<and>
    (\<forall>A h' g us. heap_same_but A h h' \<and> dll h g us \<and> A \<inter> set (g # us) = {} \<longrightarrow> dll h' g us)"
proof (intro conjI allI impI; (elim conjE)?)
  fix new assume new: "new \<notin> set (head # ys @ zs)" "allocated h new"
  obtain h1 where h1: "list_add_between new (before_place head ys) (after_place head zs) h = Some h1"
    "dll h1 head (ys @ new # zs)" using list_add_between_spec [OF assms new] by blast
  then show "\<exists>h1. list_add new (before_place head ys) h = Some h1 \<and> list_add_tail new (after_place head zs) h = Some h1 \<and>
      dll h1 head (ys @ new # zs) \<and> heap_same_but {new, before_place head ys, after_place head zs} h h1 \<and>
      list_del new h1 = Some (h\<lparr>nxt := (nxt h)(new \<mapsto> NULL), prv := (prv h)(new \<mapsto> NULL)\<rparr>)"
    using dll_next [OF assms] dll_prev [OF assms] list_add_between_cells [OF h1(1)] list_add_del_cells [OF assms new h1(1)]
    by (simp add: list_add_def list_add_tail_def)
next
  fix e es assume z: "zs = e # es"
  note d = assms [unfolded z]
  note cells = list_del_cells [OF dll_entry(1,2) [OF d]]
  show "\<exists>h2. list_del e h = Some h2 \<and> dll h2 head (ys @ es) \<and> nxt h2 e = Some NULL \<and> prv h2 e = Some NULL \<and>
      heap_same_but {e, before_place head ys, after_place head es} h h2"
    using list_del_spec [OF d] cells(1) by blast
  show "\<exists>h3. list_del_init e h = Some h3 \<and> dll h3 head (ys @ es) \<and> dll h3 e [] \<and>
      heap_same_but {e, before_place head ys, after_place head es} h h3"
    using list_del_init_spec [OF d] cells(2) by blast
next
  fix A h' g us assume "heap_same_but A h h'" "dll h g us" "A \<inter> set (g # us) = {}"
  then show "dll h' g us" using dll_same_but by blast
qed

text \<open>The macros visit the nodes in order, backwards in the reverse order, and end;
  \<open>list_count\<close> counts them and \<open>list_empty\<close> tests for none. The walk that is safe against
  removal removes exactly the nodes it wants to and keeps the order of the others.\<close>

theorem list_walks:
  assumes "dll h head xs" and "length xs < 2147483648"
  shows "list_for_each head h = Some xs \<and> list_for_each_prev head h = Some (rev xs) \<and>
    list_count head h = Some (int (length xs)) \<and> list_empty head h = Some (xs = []) \<and>
    (\<exists>h'. list_for_each_safe_remove P head h = Some h' \<and> dll h' head (filter (\<lambda>p. \<not> P p) xs))"
proof -
  have "list_count head h = Some (int (length xs))"
    using linked_parts[of h head "[]" xs] list_count_from_spec[of h xs head 0] assms
    by (simp add: list_count_def dll_def)
  then show ?thesis
    using assms list_for_each_spec list_for_each_prev_spec list_empty_spec
      list_for_each_safe_remove_spec[OF assms(1), of P] by auto
qed

text \<open>\<open>list_splice_init\<close> puts the nodes of a list in front of the nodes of
  another one and leaves the first one empty; \<open>list_move\<close> puts a node in front of its list, and
  \<open>list_move_tail\<close> behind the nodes of another list.\<close>

theorem list_splice_and_move:
  assumes "dll h head xs" and "dll h lst (ys @ e # zs)"
    and "set (head # xs) \<inter> set (lst # ys @ e # zs) = {}"
  shows "(\<exists>h'. list_splice_init lst head h = Some h' \<and> dll h' head ((ys @ e # zs) @ xs) \<and> dll h' lst []) \<and>
    (\<exists>h'. list_move e lst h = Some h' \<and> dll h' lst (e # ys @ zs) \<and> dll h' head xs) \<and>
    (\<exists>h'. list_move_tail e head h = Some h' \<and> dll h' lst (ys @ zs) \<and> dll h' head (xs @ [e]))"
proof -
  obtain h1 where 1: "list_move e lst h = Some h1" "dll h1 lst (e # ys @ zs)"
    "heap_same_but (set (lst # ys @ e # zs)) h h1" using list_move_same[OF assms(2)] by blast
  have "dll h1 head xs" by (rule dll_same_but[OF assms(1) 1(3)]) (use assms(3) in auto)
  moreover have "set (lst # ys @ e # zs) \<inter> set (head # xs) = {}" using assms(3) by auto
  ultimately show ?thesis
    using list_splice_init_spec[OF assms] list_move_tail_other[OF assms(2,1)] 1 by blast
qed

text \<open>A heap with one list of three nodes and a free node.\<close>

definition demo_heap :: heap where
  "demo_heap = \<lparr>nxt = [1 \<mapsto> 2, 2 \<mapsto> 3, 3 \<mapsto> 4, 4 \<mapsto> 1, 5 \<mapsto> 0, 6 \<mapsto> 6], prv = [1 \<mapsto> 4, 2 \<mapsto> 1, 3 \<mapsto> 2, 4 \<mapsto> 3, 5 \<mapsto> 0, 6 \<mapsto> 6]\<rparr>"

lemma demo_heap_dll: "dll demo_heap 1 [2, 3, 4]" "dll demo_heap 6 []" "allocated demo_heap 5"
  by (simp_all add: dll_def demo_heap_def allocated_def)

lemma list_insert_remove_witness:
  "(\<exists>h1. list_add 5 2 demo_heap = Some h1 \<and> dll h1 1 [2, 5, 3, 4] \<and> dll h1 6 []) \<and>
   (\<exists>h3. list_del_init 3 demo_heap = Some h3 \<and> dll h3 1 [2, 4] \<and> dll h3 3 [])"
proof -
  have d: "dll demo_heap 1 ([2] @ [3, 4])" using demo_heap_dll(1) by simp
  have p: "before_place 1 [2] = 2" "after_place 1 [3, 4] = 3" by (simp_all add: before_place_def)
  note t = list_insert_remove [OF d, unfolded p]
  obtain h1 where h1: "list_add 5 2 demo_heap = Some h1" "dll h1 1 ([2] @ 5 # [3, 4])" "heap_same_but {5, 2, 3} demo_heap h1"
    using conjunct1 [OF t, rule_format, of 5] demo_heap_dll(3) by auto
  have "dll h1 6 []" using conjunct2 [OF conjunct2 [OF t]] h1(3) demo_heap_dll(2) by fastforce
  then show ?thesis using h1 conjunct1 [OF conjunct2 [OF t], rule_format, of 3 "[4]"] by auto
qed

lemma list_walks_witness: "list_for_each_prev 1 demo_heap = Some [4, 3, 2] \<and> list_count 1 demo_heap = Some 3"
  using list_walks[OF demo_heap_dll(1)] by simp

lemma list_splice_and_move_witness:
  "\<exists>h'. list_move_tail 3 6 demo_heap = Some h' \<and> dll h' 1 ([2] @ [4]) \<and> dll h' 6 ([] @ [3])"
  using list_splice_and_move[OF demo_heap_dll(2), of 1 "[2]" 3 "[4]"] demo_heap_dll(1) by auto

end
