(* ===== verification/TCP_Stream.thy ===== *)
theory TCP_Stream
  imports KList Network "HOL-Library.Multiset"
begin

text \<open>
  The streams of \<open>src/src/network/tcp.c\<close>: a stream keeps the packets that came too early in a queue
  ordered by sequence number, hands the data that comes next to its callback, and fills gaps with
  zeros when the queue goes over the window. The queue is a list of \<open>list.h\<close>; its ordered
  insertion is \<open>KList\<close>'s.

  A packet is the part of it that the stream reads and writes: the TCP header, the data from the
  \<open>data\<close> pointer on and \<open>data_len\<close>. The callback is foreign code that does not change the
  stream; a call of it is an event of the trace, with the state that the stream then has. The global
  counters are part of the trace's record. \<open>None\<close> is an access through a NULL or dangling pointer.
\<close>

section \<open>Streams\<close>

datatype tcp_state_t =
    PYTCP_NONE | PYTCP_JUST_EST | PYTCP_DATA | PYTCP_CLOSE | PYTCP_RESET | PYTCP_TIMED_OUT
  | PYTCP_DESTROY | PYTCP_NON_TCP | PYTCP_RETRANSMISSION

record skbuff =
  sk_packet :: nat
  sk_id :: int
  sk_seq :: int
  sk_window :: int
  sk_data_len :: int
  sk_data :: "byte list"

record tuple4 =
  tu_source :: int
  tu_dest :: int
  tu_saddr :: int
  tu_daddr :: int

definition TCP_FORWARD :: int where "TCP_FORWARD = 1"
definition TCP_REVERSE :: int where "TCP_REVERSE = 0"

record tcpstream =
  ts_addr :: tuple4
  ts_state :: tcp_state_t
  ts_queue :: "skbuff list"
  ts_con_id :: int
  ts_max_packet_id :: int
  ts_next_seq :: int
  ts_direction :: int
  ts_total_size :: int
  ts_callback :: bool

datatype event = Event (ev_con: int) (ev_state: tcp_state_t) (ev_packet: "skbuff option")

record world =
  w_trace :: "event list"
  w_outstanding :: int
  w_total_streams :: int

definition TCPStream_Con :: "tuple4 \<Rightarrow> int \<Rightarrow> world \<Rightarrow> tcpstream \<times> world" where
  "TCPStream_Con addr con_id w =
     (\<lparr>ts_addr = addr, ts_state = PYTCP_NONE, ts_queue = [], ts_con_id = con_id, ts_max_packet_id = 0,
       ts_next_seq = 0, ts_direction = 0, ts_total_size = 0, ts_callback = False\<rparr>,
      w\<lparr>w_total_streams := s32 (w_total_streams w + 1)\<rparr>)"

definition call_callback :: "tcpstream \<Rightarrow> skbuff option \<Rightarrow> world \<Rightarrow> world" where
  "call_callback self packet w =
     (if ts_callback self
      then w\<lparr>w_trace := w_trace w @ [Event (ts_con_id self) (ts_state self) packet]\<rparr> else w)"

text \<open>\<open>talloc_free\<close> of an skbuff runs \<open>destroy_object\<close>.\<close>

definition destroy_object :: "world \<Rightarrow> world" where
  "destroy_object w = w\<lparr>w_outstanding := s32 (w_outstanding w - 1)\<rparr>"

section \<open>Padding\<close>

definition pad_packet :: "int \<Rightarrow> skbuff \<Rightarrow> skbuff option" where
  "pad_packet pad_length tcp =
     (if pad_length > 0 then do {
        new_data \<leftarrow> talloc_size (sk_data_len tcp + pad_length);
        new_data \<leftarrow> mem_write new_data 0 (replicate (nat pad_length) 0);
        xs \<leftarrow> mem_read (sk_data tcp) 0 (sk_data_len tcp);
        new_data \<leftarrow> mem_write new_data pad_length xs;
        Some (tcp\<lparr>sk_data_len := s32 (sk_data_len tcp + pad_length), sk_data := new_data\<rparr>)
      } else if pad_length < 0 then
        (let tcp = tcp\<lparr>sk_data_len := s32 (sk_data_len tcp - (- pad_length)),
                      sk_data := drop (nat (- pad_length)) (sk_data tcp),
                      sk_seq := u32 (sk_seq tcp + (- pad_length))\<rparr>
         in Some (if sk_data_len tcp < 0 then tcp\<lparr>sk_data_len := 0, sk_data := []\<rparr> else tcp))
      else Some tcp)"

definition pad_to_first_packet :: "tcpstream \<Rightarrow> world \<Rightarrow> (tcpstream \<times> world) option" where
  "pad_to_first_packet self w =
     (case ts_queue self of
        [] \<Rightarrow> None
      | tcp # rest \<Rightarrow>
          let pad_length = s32 (sk_seq tcp - ts_next_seq self) in
          if pad_length > 50000 \<or> pad_length < - 50000
          then Some (self\<lparr>ts_next_seq := sk_seq tcp\<rparr>, w)
          else do {
            tcp \<leftarrow> pad_packet pad_length tcp;
            let self = self\<lparr>ts_next_seq := u32 (ts_next_seq self + sk_data_len tcp), ts_state := PYTCP_DATA\<rparr>;
            let w = call_callback self (Some tcp) w;
            Some (self\<lparr>ts_queue := rest\<rparr>, destroy_object w)
          })"

text \<open>A round of padding removes the first packet, or it makes the next sequence number the one of the
  first packet, so that the next round removes it.\<close>

definition pad_measure :: "tcpstream \<Rightarrow> nat" where
  "pad_measure s = 2 * length (ts_queue s) +
     (case ts_queue s of [] \<Rightarrow> 0 | tcp # _ \<Rightarrow> if sk_seq tcp = ts_next_seq s then 0 else 1)"

lemma pad_to_first_packet_measure:
  assumes "pad_to_first_packet s w = Some (s', w')"
  shows "pad_measure s' < pad_measure s"
proof -
  obtain tcp rest where q: "ts_queue s = tcp # rest"
    using assms by (cases "ts_queue s") (auto simp: pad_to_first_packet_def)
  let ?pad = "s32 (sk_seq tcp - ts_next_seq s)"
  show ?thesis
  proof (cases "?pad > 50000 \<or> ?pad < - 50000")
    case True
    then have "sk_seq tcp \<noteq> ts_next_seq s" by (auto simp: s32_def)
    moreover have "s' = s\<lparr>ts_next_seq := sk_seq tcp\<rparr>"
      using assms True by (simp add: pad_to_first_packet_def q Let_def)
    ultimately show ?thesis by (simp add: pad_measure_def q)
  next
    case False
    then have "ts_queue s' = rest"
      using assms by (auto simp: pad_to_first_packet_def q Let_def split: bind_splits)
    then show ?thesis by (simp add: pad_measure_def q split: list.splits)
  qed
qed

function pad_data :: "tcpstream \<Rightarrow> world \<Rightarrow> (tcpstream \<times> world) option" where
  "pad_data self w =
     (if ts_queue self = [] then Some (self, w)
      else case pad_to_first_packet self w of
             None \<Rightarrow> None
           | Some (self', w') \<Rightarrow> pad_data self' w')"
  by pat_completeness auto
termination
  by (relation "measure (\<lambda>(s, w). pad_measure s)") (auto dest: pad_to_first_packet_measure)

declare pad_data.simps [simp del]

section \<open>Adding a packet\<close>

text \<open>The place in the queue is behind the packets at its front whose sequence number is not greater.\<close>

definition queue_insert :: "skbuff \<Rightarrow> skbuff list \<Rightarrow> skbuff list" where
  "queue_insert new q =
     (let P = (\<lambda>i. sk_seq new \<ge> sk_seq i) in takeWhile P q @ new # dropWhile P q)"

text \<open>The loop over the front of the queue: retransmitted packets are dropped, packets that have the next
  data are trimmed and handed over; it ends at the first packet that comes too early.\<close>

function deliver :: "tcpstream \<Rightarrow> world \<Rightarrow> tcpstream \<times> world" where
  "deliver self w =
     (case ts_queue self of
        [] \<Rightarrow> (self, w)
      | tcp # rest \<Rightarrow>
          if ts_next_seq self \<ge> u32 (sk_seq tcp + sk_data_len tcp) then
            (let self = self\<lparr>ts_state := PYTCP_RETRANSMISSION\<rparr>;
                 w = call_callback self (Some tcp) w
             in deliver (self\<lparr>ts_queue := rest\<rparr>) (destroy_object w))
          else if ts_next_seq self \<ge> sk_seq tcp then
            (let diff = s32 (ts_next_seq self - sk_seq tcp);
                 tcp = tcp\<lparr>sk_data := drop (nat diff) (sk_data tcp), sk_data_len := s32 (sk_data_len tcp - diff),
                           sk_seq := u32 (sk_seq tcp + diff)\<rparr>;
                 self = self\<lparr>ts_state := PYTCP_DATA\<rparr>;
                 w = call_callback self (Some tcp) w;
                 self = self\<lparr>ts_next_seq := u32 (ts_next_seq self + sk_data_len tcp)\<rparr>
             in deliver (self\<lparr>ts_queue := rest\<rparr>) (destroy_object w))
          else (self, w))"
  by pat_completeness auto
termination
  by (relation "measure (\<lambda>(s, w). length (ts_queue s))") auto

declare deliver.simps [simp del]

text \<open>The inner loop pads while the last packet lies behind the window of the first one.\<close>

definition over_window :: "int \<Rightarrow> skbuff list \<Rightarrow> bool" where
  "over_window last_seq q =
     (case q of [] \<Rightarrow> False | tcp # _ \<Rightarrow> u32 (sk_window tcp + sk_seq tcp) < last_seq)"

function window_loop :: "int \<Rightarrow> tcpstream \<Rightarrow> world \<Rightarrow> (tcpstream \<times> world) option" where
  "window_loop last_seq self w =
     (if over_window last_seq (ts_queue self) then
        (case pad_to_first_packet self w of
           None \<Rightarrow> None
         | Some (self', w') \<Rightarrow> window_loop last_seq self' w')
      else Some (self, w))"
  by pat_completeness auto
termination
  by (relation "measure (\<lambda>(l, s, w). pad_measure s)") (auto dest: pad_to_first_packet_measure)

declare window_loop.simps [simp del]

definition window_flush :: "tcpstream \<Rightarrow> world \<Rightarrow> (tcpstream \<times> world) option" where
  "window_flush self w =
     (if ts_queue self \<noteq> [] \<and> (ts_state self = PYTCP_DATA \<or> ts_state self = PYTCP_RETRANSMISSION)
      then window_loop (sk_seq (last (ts_queue self))) self w
      else Some (self, w))"

text \<open>The packet is \<open>None\<close> when it has no IP packet; \<open>rev_total\<close> is the total size of the
  reverse stream, which \<open>add\<close> writes as well.\<close>

definition enqueue :: "tcpstream \<Rightarrow> int \<Rightarrow> skbuff \<Rightarrow> tcpstream" where
  "enqueue self rev_total tcp =
     self\<lparr>ts_max_packet_id := sk_id tcp,
          ts_total_size := s32 (ts_total_size self + sk_data_len tcp + rev_total),
          ts_queue := queue_insert tcp (ts_queue self)\<rparr>"

definition TCPStream_add ::
    "tcpstream \<Rightarrow> int \<Rightarrow> skbuff option \<Rightarrow> world \<Rightarrow> (tcpstream \<times> int \<times> world) option" where
  "TCPStream_add self rev_total packet w =
     (case packet of
        None \<Rightarrow> Some (self, rev_total, w)
      | Some tcp \<Rightarrow>
          if sk_data_len tcp = 0 then
            (if ts_callback self then
               (let self = self\<lparr>ts_state := PYTCP_RETRANSMISSION\<rparr>
                in Some (self, rev_total, call_callback self (Some tcp) w))
             else Some (self, rev_total, w))
          else do {
            let w = w\<lparr>w_outstanding := s32 (w_outstanding w + 1)\<rparr>;
            let self = enqueue self rev_total tcp;
            let rev_total = ts_total_size self;
            let (self, w) = deliver self w;
            (self, w) \<leftarrow> window_flush self w;
            Some (self, rev_total, w)
          })"

section \<open>Flushing a pair of streams, and UDP\<close>

text \<open>\<open>TCPStream_flush\<close> runs when the forward stream of a pair is freed; the removal from the
  lists of the table is \<open>TCP_Hash\<close>'s.\<close>

definition TCPStream_flush :: "tcpstream \<Rightarrow> tcpstream \<Rightarrow> world \<Rightarrow> (tcpstream \<times> tcpstream \<times> world) option" where
  "TCPStream_flush self reverse w =
     (if ts_direction self \<noteq> TCP_FORWARD then Some (self, reverse, w)
      else do {
        (self, w) \<leftarrow> pad_data self w;
        (reverse, w) \<leftarrow> pad_data reverse w;
        let self = self\<lparr>ts_state := PYTCP_DESTROY\<rparr>;
        let w = call_callback self None w;
        let reverse = reverse\<lparr>ts_state := PYTCP_DESTROY\<rparr>;
        let w = call_callback reverse None w;
        Some (self, reverse, w\<lparr>w_total_streams := s32 (w_total_streams w - 2)\<rparr>)
      })"

definition UDPStream_add :: "tcpstream \<Rightarrow> skbuff option \<Rightarrow> world \<Rightarrow> tcpstream \<times> world" where
  "UDPStream_add self packet w =
     (case packet of
        None \<Rightarrow> (self, w)
      | Some udp \<Rightarrow>
          let udp = udp\<lparr>sk_seq := ts_next_seq self\<rparr>;
              self = self\<lparr>ts_state := PYTCP_DATA\<rparr>;
              w = call_callback self (Some udp) w
          in (self\<lparr>ts_next_seq := u32 (ts_next_seq self + sk_data_len udp)\<rparr>, w))"

section \<open>Reassembly\<close>

text \<open>The bytes that a stream has handed to its callback as data.\<close>

definition event_data :: "event \<Rightarrow> byte list" where
  "event_data e = (case ev_packet e of None \<Rightarrow> [] | Some p \<Rightarrow> take (nat (sk_data_len p)) (sk_data p))"

definition delivered :: "int \<Rightarrow> world \<Rightarrow> byte list" where
  "delivered con w = concat (map event_data (filter (\<lambda>e. ev_con e = con \<and> ev_state e = PYTCP_DATA) (w_trace w)))"

lemma delivered_destroy [simp]: "delivered con (destroy_object w) = delivered con w"
  by (simp add: delivered_def destroy_object_def)

lemma delivered_outstanding [simp]: "delivered con (w\<lparr>w_outstanding := x\<rparr>) = delivered con w"
  by (simp add: delivered_def)

lemma delivered_callback:
  "ts_callback s \<Longrightarrow> delivered (ts_con_id s) (call_callback s (Some p) w) =
     delivered (ts_con_id s) w @ (if ts_state s = PYTCP_DATA then take (nat (sk_data_len p)) (sk_data p) else [])"
  by (simp add: delivered_def call_callback_def event_data_def)

text \<open>A segment of the bytes \<open>S\<close> that a sender numbers from \<open>isn\<close> on, with no wrap of the numbers.\<close>

definition seg_off :: "int \<Rightarrow> skbuff \<Rightarrow> nat" where "seg_off isn p = nat (sk_seq p - isn)"

definition seg_end :: "int \<Rightarrow> skbuff \<Rightarrow> nat" where "seg_end isn p = seg_off isn p + nat (sk_data_len p)"

definition segment_of :: "int \<Rightarrow> byte list \<Rightarrow> skbuff \<Rightarrow> bool" where
  "segment_of isn S p \<longleftrightarrow> isn \<le> sk_seq p \<and> 0 < sk_data_len p \<and> seg_end isn p \<le> length S \<and>
     sk_data p = take (nat (sk_data_len p)) (drop (seg_off isn p) S)"

definition numbers_fit :: "int \<Rightarrow> byte list \<Rightarrow> bool" where
  "numbers_fit isn S \<longleftrightarrow> 0 \<le> isn \<and> isn + int (length S) < 4294967296 \<and> length S < 2147483648"

definition seg_covers :: "int \<Rightarrow> skbuff \<Rightarrow> nat \<Rightarrow> bool" where
  "seg_covers isn p i \<longleftrightarrow> seg_off isn p \<le> i \<and> i < seg_end isn p"

definition queue_sorted :: "skbuff list \<Rightarrow> bool" where
  "queue_sorted q \<longleftrightarrow> sorted (map sk_seq q)"

lemma queue_insert_simps [simp]:
  "queue_insert p [] = [p]"
  "queue_insert p (x # q) = (if sk_seq x \<le> sk_seq p then x # queue_insert p q else p # x # q)"
  by (simp_all add: queue_insert_def Let_def)

lemma queue_insert_mset: "mset (queue_insert p q) = add_mset p (mset q)"
  by (induction q) auto

lemma queue_insert_set: "set (queue_insert p q) = insert p (set q)"
  using arg_cong[OF queue_insert_mset[of p q], of set_mset] by simp

lemma queue_insert_sorted: "queue_sorted q \<Longrightarrow> queue_sorted (queue_insert p q)"
proof (induction q)
  case (Cons x q)
  then show ?case by (fastforce simp: queue_sorted_def queue_insert_set)
qed (simp add: queue_sorted_def)

definition stream_inv :: "int \<Rightarrow> byte list \<Rightarrow> skbuff set \<Rightarrow> tcpstream \<Rightarrow> world \<Rightarrow> bool" where
  "stream_inv isn S P s w \<longleftrightarrow>
     (let n = length (delivered (ts_con_id s) w) in
      ts_callback s \<and> n \<le> length S \<and> delivered (ts_con_id s) w = take n S \<and> ts_next_seq s = isn + int n \<and>
      queue_sorted (ts_queue s) \<and> (\<forall>p\<in>P. segment_of isn S p) \<and> set (ts_queue s) \<subseteq> P \<and>
      (\<forall>p\<in>P. seg_end isn p \<le> n \<or> p \<in> set (ts_queue s)) \<and> (\<forall>i<n. \<exists>p\<in>P. seg_covers isn p i))"

lemma segment_wraps:
  assumes "numbers_fit isn S" "segment_of isn S p"
  shows "u32 (sk_seq p + sk_data_len p) = sk_seq p + sk_data_len p"
    "sk_seq p + sk_data_len p = isn + int (seg_end isn p)" "sk_seq p = isn + int (seg_off isn p)"
    "seg_end isn p = seg_off isn p + nat (sk_data_len p)" "sk_data_len p = int (nat (sk_data_len p))"
proof -
  have b: "isn \<le> sk_seq p" "0 < sk_data_len p" "seg_end isn p \<le> length S" using assms(2) by (auto simp: segment_of_def)
  then show e: "sk_seq p + sk_data_len p = isn + int (seg_end isn p)" "sk_seq p = isn + int (seg_off isn p)"
    "seg_end isn p = seg_off isn p + nat (sk_data_len p)" "sk_data_len p = int (nat (sk_data_len p))"
    by (simp_all add: seg_end_def seg_off_def)
  have "0 \<le> sk_seq p + sk_data_len p" "sk_seq p + sk_data_len p < 4294967296"
    using b assms(1) e(1) by (simp_all add: numbers_fit_def)
  then show "u32 (sk_seq p + sk_data_len p) = sk_seq p + sk_data_len p" by (rule u32_id)
qed

lemma deliver_retransmission:
  assumes fit: "numbers_fit isn S" and inv: "stream_inv isn S P s w" and q: "ts_queue s = tcp # rest"
    and c: "ts_next_seq s \<ge> u32 (sk_seq tcp + sk_data_len tcp)"
  defines "s1 \<equiv> s\<lparr>ts_state := PYTCP_RETRANSMISSION\<rparr>"
  shows "stream_inv isn S P (s1\<lparr>ts_queue := rest\<rparr>) (destroy_object (call_callback s1 (Some tcp) w))"
proof -
  have seg: "segment_of isn S tcp" using inv q by (auto simp: stream_inv_def Let_def)
  note w = segment_wraps[OF fit seg]
  have d: "delivered (ts_con_id s) (call_callback s1 (Some tcp) w) = delivered (ts_con_id s) w"
    using inv delivered_callback[of s1 tcp w] by (simp add: s1_def stream_inv_def Let_def)
  have "seg_end isn tcp \<le> length (delivered (ts_con_id s) w)"
    using c w(1,2) inv by (simp add: stream_inv_def Let_def)
  then show ?thesis
    using inv q d by (auto simp: stream_inv_def Let_def s1_def queue_sorted_def)
qed

lemma deliver_data:
  assumes fit: "numbers_fit isn S" and inv: "stream_inv isn S P s w" and q: "ts_queue s = tcp # rest"
    and c1: "\<not> ts_next_seq s \<ge> u32 (sk_seq tcp + sk_data_len tcp)" and c2: "ts_next_seq s \<ge> sk_seq tcp"
  defines "diff \<equiv> s32 (ts_next_seq s - sk_seq tcp)"
  defines "tcp1 \<equiv> tcp\<lparr>sk_data := drop (nat diff) (sk_data tcp), sk_data_len := s32 (sk_data_len tcp - diff),
                           sk_seq := u32 (sk_seq tcp + diff)\<rparr>"
  defines "s1 \<equiv> s\<lparr>ts_state := PYTCP_DATA\<rparr>"
  defines "s2 \<equiv> s1\<lparr>ts_next_seq := u32 (ts_next_seq s1 + sk_data_len tcp1)\<rparr>"
  shows "stream_inv isn S P (s2\<lparr>ts_queue := rest\<rparr>) (destroy_object (call_callback s1 (Some tcp1) w))"
proof -
  let ?n = "length (delivered (ts_con_id s) w)" and ?e = "seg_end isn tcp" and ?o = "seg_off isn tcp"
  have seg: "segment_of isn S tcp" "tcp \<in> P" using inv q by (auto simp: stream_inv_def Let_def)
  note w = segment_wraps[OF fit seg(1)]
  have n: "ts_next_seq s = isn + int ?n" "?n \<le> length S" "delivered (ts_con_id s) w = take ?n S" "ts_callback s"
    using inv by (simp_all add: stream_inv_def Let_def)
  have o: "?o \<le> ?n" "?n < ?e" "?e \<le> length S" using c1 c2 w n seg by (auto simp: segment_of_def)
  have b: "length S < 2147483648" "isn + int (length S) < 4294967296" "0 \<le> isn" using fit by (simp_all add: numbers_fit_def)
  have diff: "diff = int (?n - ?o)" using o b n(1) w(3) by (simp add: diff_def of_nat_diff s32_id)
  have len: "sk_data_len tcp1 = int (?e - ?n)"
    using o b w(4,5) diff by (simp add: tcp1_def s32_id of_nat_diff)
  have dat: "take (nat (sk_data_len tcp1)) (sk_data tcp1) = take (?e - ?n) (drop ?n S)"
  proof -
    have "sk_data tcp1 = drop (?n - ?o) (take (?e - ?o) (drop ?o S))"
      using seg(1) w(4) by (simp add: tcp1_def diff segment_of_def)
    also have "\<dots> = take (?e - ?n) (drop ?n S)" using o by (simp add: drop_take)
    finally show ?thesis by (simp add: len)
  qed
  have d: "delivered (ts_con_id s) (call_callback s1 (Some tcp1) w) = take ?e S"
  proof -
    have "delivered (ts_con_id s) (call_callback s1 (Some tcp1) w) = take ?n S @ take (?e - ?n) (drop ?n S)"
      using delivered_callback[of s1 tcp1 w] n dat by (simp add: s1_def)
    also have "\<dots> = take (?n + (?e - ?n)) S" by (rule take_add[symmetric])
    finally show ?thesis using o by simp
  qed
  have nx: "u32 (ts_next_seq s + sk_data_len tcp1) = isn + int ?e"
    using o b n(1) len by (simp add: of_nat_diff u32_id)
  have cov: "\<exists>p\<in>P. seg_covers isn p i" if "i < ?e" for i
  proof (cases "i < ?n")
    case True
    then show ?thesis using inv by (simp add: stream_inv_def Let_def)
  next
    case False
    then show ?thesis using that seg(2) o by (intro bexI[of _ tcp]) (auto simp: seg_covers_def)
  qed
  show ?thesis
    using inv q d nx o cov n(4)
    by (auto simp: stream_inv_def Let_def s1_def s2_def queue_sorted_def)
qed

lemma deliver_inv:
  "numbers_fit isn S \<Longrightarrow> stream_inv isn S P s w \<Longrightarrow> deliver s w = (s', w') \<Longrightarrow>
   stream_inv isn S P s' w' \<and> ts_con_id s' = ts_con_id s \<and>
   (\<forall>p\<in>set (ts_queue s'). length (delivered (ts_con_id s) w') < seg_off isn p)"
proof (induction s w arbitrary: s' w' rule: deliver.induct)
  case (1 s w)
  show ?case
  proof (cases "ts_queue s")
    case Nil
    then show ?thesis using "1.prems" by (simp add: deliver.simps[of s])
  next
    case (Cons tcp rest)
    let ?c1 = "ts_next_seq s \<ge> u32 (sk_seq tcp + sk_data_len tcp)"
    consider (retr) ?c1 | (data) "\<not> ?c1" "ts_next_seq s \<ge> sk_seq tcp" | (early) "\<not> ?c1" "\<not> ts_next_seq s \<ge> sk_seq tcp"
      by blast
    then show ?thesis
    proof cases
      case retr
      note i = deliver_retransmission[OF "1.prems"(1,2) Cons retr]
      show ?thesis
        using "1.IH"(1)[OF Cons retr refl refl "1.prems"(1) i] "1.prems"(3) Cons retr
        by (simp add: deliver.simps[of s] Let_def)
    next
      case data
      note i = deliver_data[OF "1.prems"(1,2) Cons data]
      show ?thesis
        using "1.IH"(2)[OF Cons data refl refl refl refl refl "1.prems"(1) i] "1.prems"(3) Cons data
        by (simp add: deliver.simps[of s] Let_def)
    next
      case early
      then have e: "s' = s" "w' = w" using "1.prems"(3) Cons by (simp_all add: deliver.simps[of s])
      have seg: "segment_of isn S p" if "p \<in> set (ts_queue s)" for p
        using "1.prems"(2) that by (auto simp: stream_inv_def Let_def)
      have "sk_seq tcp \<le> sk_seq p" if "p \<in> set (ts_queue s)" for p
        using "1.prems"(2) that Cons by (auto simp: stream_inv_def Let_def queue_sorted_def)
      moreover have "ts_next_seq s = isn + int (length (delivered (ts_con_id s) w))"
        using "1.prems"(2) by (simp add: stream_inv_def Let_def)
      ultimately have "length (delivered (ts_con_id s) w) < seg_off isn p" if "p \<in> set (ts_queue s)" for p
        using early(2) that segment_wraps(3)[OF "1.prems"(1) seg[OF that]] by fastforce
      then show ?thesis using "1.prems"(2) e by simp
    qed
  qed
qed

section \<open>Every packet is handed over once\<close>

text \<open>Packets as \<open>TCP_Read\<close> makes them: the data pointer has \<open>data_len\<close> bytes, not so many that the
  padding could ask for a block the allocator refuses.\<close>

definition sk_ok :: "skbuff \<Rightarrow> bool" where
  "sk_ok p \<longleftrightarrow> 0 \<le> sk_data_len p \<and> sk_data_len p = int (length (sk_data p)) \<and> sk_data_len p < 134217728"

definition queue_ok :: "tcpstream \<Rightarrow> bool" where
  "queue_ok s \<longleftrightarrow> ts_callback s \<and> list_all sk_ok (ts_queue s)"

text \<open>The first \<open>k\<close> packets of the queue have left it, in order, each with one call of the callback and
  one decrement of the counter.\<close>

definition handed :: "nat \<Rightarrow> tcpstream \<Rightarrow> world \<Rightarrow> tcpstream \<Rightarrow> world \<Rightarrow> bool" where
  "handed k s w s' w' \<longleftrightarrow> k \<le> length (ts_queue s) \<and> ts_queue s' = drop k (ts_queue s) \<and>
     (\<exists>evs. w_trace w' = w_trace w @ evs \<and>
        map (\<lambda>e. map_option sk_packet (ev_packet e)) evs = map (\<lambda>p. Some (sk_packet p)) (take k (ts_queue s)) \<and>
        list_all (\<lambda>e. ev_con e = ts_con_id s \<and> ev_state e \<in> {PYTCP_DATA, PYTCP_RETRANSMISSION}) evs) \<and>
     w_outstanding w' = w_outstanding w - int k \<and> w_total_streams w' = w_total_streams w \<and>
     ts_con_id s' = ts_con_id s \<and> ts_callback s' = ts_callback s \<and> ts_total_size s' = ts_total_size s \<and>
     ts_direction s' = ts_direction s \<and> ts_addr s' = ts_addr s \<and> ts_max_packet_id s' = ts_max_packet_id s"

lemma handed_refl: "handed 0 s w s w"
  by (auto simp: handed_def)

lemma handed_trans:
  assumes "handed j s w s1 w1" "handed k s1 w1 s2 w2"
  shows "handed (j + k) s w s2 w2"
proof -
  obtain e1 where e1: "w_trace w1 = w_trace w @ e1"
    "map (\<lambda>e. map_option sk_packet (ev_packet e)) e1 = map (\<lambda>p. Some (sk_packet p)) (take j (ts_queue s))"
    "list_all (\<lambda>e. ev_con e = ts_con_id s \<and> ev_state e \<in> {PYTCP_DATA, PYTCP_RETRANSMISSION}) e1"
    using assms(1) by (auto simp: handed_def)
  obtain e2 where e2: "w_trace w2 = w_trace w1 @ e2"
    "map (\<lambda>e. map_option sk_packet (ev_packet e)) e2 = map (\<lambda>p. Some (sk_packet p)) (take k (ts_queue s1))"
    "list_all (\<lambda>e. ev_con e = ts_con_id s1 \<and> ev_state e \<in> {PYTCP_DATA, PYTCP_RETRANSMISSION}) e2"
    using assms(2) by (auto simp: handed_def)
  have "w_trace w2 = w_trace w @ (e1 @ e2)" using e1(1) e2(1) by simp
  moreover have "map (\<lambda>e. map_option sk_packet (ev_packet e)) (e1 @ e2) =
      map (\<lambda>p. Some (sk_packet p)) (take (j + k) (ts_queue s))"
    using e1(2) e2(2) assms(1) by (simp add: handed_def take_add)
  moreover have "list_all (\<lambda>e. ev_con e = ts_con_id s \<and> ev_state e \<in> {PYTCP_DATA, PYTCP_RETRANSMISSION}) (e1 @ e2)"
    using e1(3) e2(3) assms(1) by (simp add: handed_def)
  ultimately show ?thesis using assms by (auto simp: handed_def add.commute)
qed

lemma handed_queue_ok: "queue_ok s \<Longrightarrow> handed k s w s' w' \<Longrightarrow> queue_ok s'"
  by (auto simp: queue_ok_def handed_def list_all_iff dest: in_set_dropD)

text \<open>The counter covers the packets of the queue.\<close>

definition counted :: "tcpstream \<Rightarrow> world \<Rightarrow> bool" where
  "counted s w \<longleftrightarrow> int (length (ts_queue s)) \<le> w_outstanding w \<and> w_outstanding w < 2147483648"

lemma handed_counted: "counted s w \<Longrightarrow> handed k s w s' w' \<Longrightarrow> counted s' w'"
  by (auto simp: counted_def handed_def of_nat_diff)

lemma handed_one:
  assumes "ts_queue s = p # rest" "counted s w" "ts_callback s"
    and s1: "ts_con_id s1 = ts_con_id s" "ts_callback s1" "ts_state s1 \<in> {PYTCP_DATA, PYTCP_RETRANSMISSION}"
    and s2: "ts_queue s2 = rest" "ts_con_id s2 = ts_con_id s" "ts_callback s2" "ts_total_size s2 = ts_total_size s"
      "ts_direction s2 = ts_direction s" "ts_addr s2 = ts_addr s" "ts_max_packet_id s2 = ts_max_packet_id s"
    and p: "sk_packet p' = sk_packet p"
  shows "handed 1 s w s2 (destroy_object (call_callback s1 (Some p') w))"
proof -
  have "s32 (w_outstanding w - 1) = w_outstanding w - 1"
    using assms(1,2) by (intro s32_id) (auto simp: counted_def)
  then show ?thesis
    using assms by (auto simp: handed_def destroy_object_def call_callback_def)
qed

lemma deliver_handed:
  "queue_ok s \<Longrightarrow> counted s w \<Longrightarrow> deliver s w = (s', w') \<Longrightarrow> \<exists>k. handed k s w s' w'"
proof (induction s w arbitrary: s' w' rule: deliver.induct)
  case (1 s w)
  show ?case
  proof (cases "ts_queue s")
    case Nil
    then show ?thesis using "1.prems" handed_refl by (auto simp: deliver.simps[of s])
  next
    case (Cons tcp rest)
    have cb: "ts_callback s" using "1.prems"(1) by (simp add: queue_ok_def)
    let ?c1 = "ts_next_seq s \<ge> u32 (sk_seq tcp + sk_data_len tcp)"
    consider (retr) ?c1 | (data) "\<not> ?c1" "ts_next_seq s \<ge> sk_seq tcp" | (early) "\<not> ?c1" "\<not> ts_next_seq s \<ge> sk_seq tcp"
      by blast
    then show ?thesis
    proof cases
      case retr
      let ?s1 = "s\<lparr>ts_state := PYTCP_RETRANSMISSION\<rparr>"
      have h: "handed 1 s w (?s1\<lparr>ts_queue := rest\<rparr>) (destroy_object (call_callback ?s1 (Some tcp) w))"
        by (rule handed_one[OF Cons "1.prems"(2) cb]) (use cb in simp_all)
      from "1.IH"(1)[OF Cons retr refl refl handed_queue_ok[OF "1.prems"(1) h] handed_counted[OF "1.prems"(2) h]]
      show ?thesis using "1.prems"(3) Cons retr handed_trans[OF h] by (fastforce simp: deliver.simps[of s] Let_def)
    next
      case data
      define diff where "diff = s32 (ts_next_seq s - sk_seq tcp)"
      define tcp1 where "tcp1 = tcp\<lparr>sk_data := drop (nat diff) (sk_data tcp),
          sk_data_len := s32 (sk_data_len tcp - diff), sk_seq := u32 (sk_seq tcp + diff)\<rparr>"
      define s1 where "s1 = s\<lparr>ts_state := PYTCP_DATA\<rparr>"
      define s2 where "s2 = s1\<lparr>ts_next_seq := u32 (ts_next_seq s1 + sk_data_len tcp1)\<rparr>"
      have h: "handed 1 s w (s2\<lparr>ts_queue := rest\<rparr>) (destroy_object (call_callback s1 (Some tcp1) w))"
        by (rule handed_one[OF Cons "1.prems"(2) cb]) (use cb in \<open>simp_all add: s1_def s2_def tcp1_def\<close>)
      from "1.IH"(2)[OF Cons data diff_def tcp1_def s1_def refl s2_def
          handed_queue_ok[OF "1.prems"(1) h] handed_counted[OF "1.prems"(2) h]]
      show ?thesis using "1.prems"(3) Cons data handed_trans[OF h]
        by (fastforce simp: deliver.simps[of s] Let_def diff_def tcp1_def s1_def s2_def)
    next
      case early
      then show ?thesis using "1.prems"(3) Cons handed_refl by (auto simp: deliver.simps[of s])
    qed
  qed
qed

lemma pad_packet_total:
  assumes "sk_ok p" "- 50000 \<le> pad" "pad \<le> 50000"
  shows "\<exists>p'. pad_packet pad p = Some p' \<and> sk_packet p' = sk_packet p"
proof (cases "pad > 0")
  case True
  let ?m = "replicate (nat (sk_data_len p + pad)) (0 :: byte)"
  have l: "sk_data_len p = int (length (sk_data p))" "sk_data_len p + pad < MAX_TALLOC_SIZE"
    using assms by (auto simp: sk_ok_def MAX_TALLOC_SIZE_def)
  have t: "talloc_size (sk_data_len p + pad) = Some ?m" using l True by (simp add: talloc_size_def)
  obtain m1 where m1: "mem_write ?m 0 (replicate (nat pad) 0) = Some m1"
    using mem_write_Some[of 0 "replicate (nat pad) 0" ?m] True l by (auto simp: nat_add_distrib)
  have "int (length m1) = sk_data_len p + pad" using length_mem_write[OF m1] l True by simp
  then obtain m2 where "mem_write m1 pad (sk_data p) = Some m2"
    using mem_write_Some[of pad "sk_data p" m1] l True by auto
  moreover have "mem_read (sk_data p) 0 (sk_data_len p) = Some (sk_data p)" by (simp add: mem_read_def l)
  ultimately show ?thesis using True t m1 by (simp add: pad_packet_def)
qed (simp add: pad_packet_def Let_def)

lemma pad_to_first_packet_handed:
  assumes "queue_ok s" "counted s w" "ts_queue s \<noteq> []"
  shows "\<exists>k s' w'. pad_to_first_packet s w = Some (s', w') \<and> handed k s w s' w'"
proof -
  obtain p rest where q: "ts_queue s = p # rest" using assms(3) by (cases "ts_queue s") auto
  let ?pad = "s32 (sk_seq p - ts_next_seq s)"
  show ?thesis
  proof (cases "?pad > 50000 \<or> ?pad < - 50000")
    case True
    then show ?thesis
      using q by (intro exI[of _ 0] exI[of _ "s\<lparr>ts_next_seq := sk_seq p\<rparr>"] exI[of _ w])
        (auto simp: pad_to_first_packet_def handed_def)
  next
    case False
    have "sk_ok p" and cb: "ts_callback s" using assms(1) q by (simp_all add: queue_ok_def)
    then obtain p' where p': "pad_packet ?pad p = Some p'" "sk_packet p' = sk_packet p"
      using pad_packet_total[of p ?pad] False by auto
    let ?s1 = "s\<lparr>ts_next_seq := u32 (ts_next_seq s + sk_data_len p'), ts_state := PYTCP_DATA\<rparr>"
    have "handed 1 s w (?s1\<lparr>ts_queue := rest\<rparr>) (destroy_object (call_callback ?s1 (Some p') w))"
      by (rule handed_one[OF q assms(2) cb]) (use cb p'(2) in simp_all)
    then show ?thesis using False q p'(1) by (auto simp: pad_to_first_packet_def Let_def)
  qed
qed

lemma pad_data_handed:
  "queue_ok s \<Longrightarrow> counted s w \<Longrightarrow>
   \<exists>s' w'. pad_data s w = Some (s', w') \<and> handed (length (ts_queue s)) s w s' w'"
proof (induction s w rule: pad_data.induct)
  case (1 s w)
  show ?case
  proof (cases "ts_queue s = []")
    case True
    then show ?thesis using handed_refl by (simp add: pad_data.simps[of s])
  next
    case False
    obtain k s1 w1 where p: "pad_to_first_packet s w = Some (s1, w1)" "handed k s w s1 w1"
      using pad_to_first_packet_handed[OF "1.prems" False] by blast
    obtain s2 w2 where r: "pad_data s1 w1 = Some (s2, w2)" "handed (length (ts_queue s1)) s1 w1 s2 w2"
      using "1.IH"[OF False p(1) refl handed_queue_ok[OF "1.prems"(1) p(2)] handed_counted[OF "1.prems"(2) p(2)]] by blast
    have "k + length (ts_queue s1) = length (ts_queue s)" using p(2) by (simp add: handed_def)
    then show ?thesis using handed_trans[OF p(2) r(2)] p(1) r(1) False by (simp add: pad_data.simps[of s])
  qed
qed

lemma window_loop_handed:
  "queue_ok s \<Longrightarrow> counted s w \<Longrightarrow>
   \<exists>k s' w'. window_loop l s w = Some (s', w') \<and> handed k s w s' w'"
proof (induction l s w rule: window_loop.induct)
  case (1 l s w)
  show ?case
  proof (cases "over_window l (ts_queue s)")
    case False
    then show ?thesis using handed_refl[of s w] by (auto simp: window_loop.simps[of l s])
  next
    case True
    then have ne: "ts_queue s \<noteq> []" by (auto simp: over_window_def)
    obtain k s1 w1 where p: "pad_to_first_packet s w = Some (s1, w1)" "handed k s w s1 w1"
      using pad_to_first_packet_handed[OF "1.prems" ne] by blast
    obtain j s2 w2 where r: "window_loop l s1 w1 = Some (s2, w2)" "handed j s1 w1 s2 w2"
      using "1.IH"[OF True p(1) refl handed_queue_ok[OF "1.prems"(1) p(2)] handed_counted[OF "1.prems"(2) p(2)]] by blast
    show ?thesis using handed_trans[OF p(2) r(2)] p(1) r(1) True by (auto simp: window_loop.simps[of l s])
  qed
qed

lemma window_flush_handed:
  assumes "queue_ok s" "counted s w"
  shows "\<exists>k s' w'. window_flush s w = Some (s', w') \<and> handed k s w s' w'"
  using window_loop_handed[OF assms, of "sk_seq (last (ts_queue s))"] handed_refl[of s w]
  by (auto simp: window_flush_def)

section \<open>Runs\<close>

fun TCPStream_add_all ::
    "tcpstream \<Rightarrow> int \<Rightarrow> skbuff list \<Rightarrow> world \<Rightarrow> (tcpstream \<times> int \<times> world) option" where
  "TCPStream_add_all s r [] w = Some (s, r, w)"
| "TCPStream_add_all s r (p # ps) w = do {
     (s, r, w) \<leftarrow> TCPStream_add s r (Some p) w;
     TCPStream_add_all s r ps w
   }"

text \<open>The packets that wait at each step lie in the window of the first one of them, so that the stream
  does not fill gaps.\<close>

definition waiting_in_window :: "tcpstream \<Rightarrow> bool" where
  "waiting_in_window s \<longleftrightarrow> ts_queue s = [] \<or> \<not> over_window (sk_seq (last (ts_queue s))) (ts_queue s)"

fun window_kept :: "tcpstream \<Rightarrow> int \<Rightarrow> skbuff list \<Rightarrow> world \<Rightarrow> bool" where
  "window_kept s r [] w = True"
| "window_kept s r (p # ps) w =
     (case deliver (enqueue s r p) (w\<lparr>w_outstanding := s32 (w_outstanding w + 1)\<rparr>) of
        (s', w') \<Rightarrow> waiting_in_window s' \<and> window_kept s' (ts_total_size (enqueue s r p)) ps w')"

lemma window_flush_idle:
  assumes "waiting_in_window s"
  shows "window_flush s w = Some (s, w)"
  using assms unfolding waiting_in_window_def window_flush_def
  by (cases "ts_queue s = []") (simp_all add: window_loop.simps[of "sk_seq (last (ts_queue s))" s])

lemma enqueue_inv:
  assumes "stream_inv isn S P s w" "segment_of isn S p"
  shows "stream_inv isn S (insert p P) (enqueue s r p) (w\<lparr>w_outstanding := x\<rparr>)"
  using assms by (auto simp: stream_inv_def enqueue_def Let_def queue_insert_set queue_insert_sorted)

lemma TCPStream_add_all_inv:
  "numbers_fit isn S \<Longrightarrow> stream_inv isn S P s w \<Longrightarrow> list_all (segment_of isn S) ps \<Longrightarrow> window_kept s r ps w \<Longrightarrow>
   \<forall>p\<in>set (ts_queue s). length (delivered (ts_con_id s) w) < seg_off isn p \<Longrightarrow>
   \<exists>s' r' w'. TCPStream_add_all s r ps w = Some (s', r', w') \<and> stream_inv isn S (P \<union> set ps) s' w' \<and>
     ts_con_id s' = ts_con_id s \<and>
     (\<forall>p\<in>set (ts_queue s'). length (delivered (ts_con_id s) w') < seg_off isn p)"
proof (induction ps arbitrary: P s r w)
  case Nil
  then show ?case by simp
next
  case (Cons p ps)
  let ?w1 = "w\<lparr>w_outstanding := s32 (w_outstanding w + 1)\<rparr>" and ?s1 = "enqueue s r p"
  have seg: "segment_of isn S p" using Cons.prems(3) by simp
  obtain s2 w2 where d: "deliver ?s1 ?w1 = (s2, w2)" by (rule prod.exhaust)
  have k: "waiting_in_window s2" "window_kept s2 (ts_total_size ?s1) ps w2" using Cons.prems(4) d by simp_all
  have c: "ts_con_id ?s1 = ts_con_id s" by (simp add: enqueue_def)
  note i = deliver_inv[OF Cons.prems(1) enqueue_inv[OF Cons.prems(2) seg] d, unfolded c]
  have add: "TCPStream_add s r (Some p) w = Some (s2, ts_total_size ?s1, w2)"
    using seg window_flush_idle[OF k(1)] d by (simp add: TCPStream_add_def segment_of_def Let_def)
  have "list_all (segment_of isn S) ps" using Cons.prems(3) by simp
  from Cons.IH[OF Cons.prems(1) _ this k(2), of "insert p P"] i add show ?case by auto
qed

lemma flush_spec:
  assumes "queue_ok s" and "queue_ok rv" and "ts_direction s = TCP_FORWARD"
    and "int (length (ts_queue s)) + int (length (ts_queue rv)) \<le> w_outstanding w" and "w_outstanding w < 2147483648"
    and "2 \<le> w_total_streams w" and "w_total_streams w < 2147483648"
  shows "\<exists>s' rv' w' evs. TCPStream_flush s rv w = Some (s', rv', w') \<and> ts_queue s' = [] \<and> ts_queue rv' = [] \<and>
    w_trace w' = w_trace w @ evs @ [Event (ts_con_id s) PYTCP_DESTROY None, Event (ts_con_id rv) PYTCP_DESTROY None] \<and>
    map (\<lambda>e. map_option sk_packet (ev_packet e)) evs = map (\<lambda>p. Some (sk_packet p)) (ts_queue s @ ts_queue rv) \<and>
    w_outstanding w' = w_outstanding w - int (length (ts_queue s)) - int (length (ts_queue rv)) \<and>
    w_total_streams w' = w_total_streams w - 2"
proof -
  have c: "counted s w" using assms(4,5) by (simp add: counted_def)
  obtain s1 w1 where 1: "pad_data s w = Some (s1, w1)" "handed (length (ts_queue s)) s w s1 w1"
    using pad_data_handed[OF assms(1) c] by blast
  have "w_outstanding w1 = w_outstanding w - int (length (ts_queue s))" using 1(2) by (simp add: handed_def)
  then have c2: "counted rv w1" using assms(4,5) by (simp add: counted_def)
  obtain r1 w2 where 2: "pad_data rv w1 = Some (r1, w2)" "handed (length (ts_queue rv)) rv w1 r1 w2"
    using pad_data_handed[OF assms(2) c2] by blast
  obtain e1 where e1: "w_trace w1 = w_trace w @ e1"
    "map (\<lambda>e. map_option sk_packet (ev_packet e)) e1 = map (\<lambda>p. Some (sk_packet p)) (ts_queue s)"
    using 1(2) by (auto simp: handed_def)
  obtain e2 where e2: "w_trace w2 = w_trace w1 @ e2"
    "map (\<lambda>e. map_option sk_packet (ev_packet e)) e2 = map (\<lambda>p. Some (sk_packet p)) (ts_queue rv)"
    using 2(2) by (auto simp: handed_def)
  have t: "s32 (w_total_streams w2 - 2) = w_total_streams w - 2"
    using 1(2) 2(2) assms(6,7) by (simp add: handed_def s32_id)
  show ?thesis
    using assms(1-3) 1 2 e1 e2 t
    by (intro exI[of _ "s1\<lparr>ts_state := PYTCP_DESTROY\<rparr>"] exI[of _ "r1\<lparr>ts_state := PYTCP_DESTROY\<rparr>"] exI
        [of _ "(call_callback (r1\<lparr>ts_state := PYTCP_DESTROY\<rparr>) None (call_callback (s1\<lparr>ts_state := PYTCP_DESTROY\<rparr>) None w2))
           \<lparr>w_total_streams := w_total_streams w - 2\<rparr>"] exI[of _ "e1 @ e2"])
      (simp add: TCPStream_flush_def Let_def handed_def call_callback_def queue_ok_def)
qed

lemma flush_counters:
  assumes "queue_ok s" and "queue_ok rv" and "ts_direction s = TCP_FORWARD"
    and "int (length (ts_queue s)) + int (length (ts_queue rv)) \<le> w_outstanding w" and "w_outstanding w < 2147483648"
    and "2 \<le> w_total_streams w" and "w_total_streams w < 2147483648"
  shows "\<exists>s' rv' w'. TCPStream_flush s rv w = Some (s', rv', w') \<and>
    w_outstanding w' = w_outstanding w - int (length (ts_queue s)) - int (length (ts_queue rv)) \<and>
    w_total_streams w' = w_total_streams w - 2"
  using flush_spec[OF assms] by blast

section \<open>Properties\<close>

text \<open>C1 (reassembly). A stream gets segments of the bytes \<open>S\<close> in any order, with any repetitions and
  overlaps. As long as the packets that wait lie in the window, the data that the callback has seen is
  exactly the longest prefix of \<open>S\<close> of which every byte has arrived: no byte twice, none out of
  order, none missing, none that did not arrive. In particular it is \<open>S\<close> as soon as the segments
  cover it.\<close>

theorem tcp_reassembly:
  assumes "numbers_fit isn S" and "list_all (segment_of isn S) ps"
    and "ts_callback s" and "ts_queue s = []" and "ts_next_seq s = isn" and "delivered (ts_con_id s) w = []"
    and "window_kept s r ps w"
  shows "\<exists>s' r' w' n. TCPStream_add_all s r ps w = Some (s', r', w') \<and>
    delivered (ts_con_id s) w' = take n S \<and> n \<le> length S \<and> ts_next_seq s' = isn + int n \<and>
    (\<forall>i<n. \<exists>p\<in>set ps. seg_covers isn p i) \<and> \<not> (\<exists>p\<in>set ps. seg_covers isn p n) \<and>
    ((\<forall>i<length S. \<exists>p\<in>set ps. seg_covers isn p i) \<longrightarrow> delivered (ts_con_id s) w' = S)"
proof -
  have "stream_inv isn S {} s w" using assms(3-6) by (simp add: stream_inv_def queue_sorted_def)
  then obtain s' r' w' where a: "TCPStream_add_all s r ps w = Some (s', r', w')"
    "stream_inv isn S (set ps) s' w'" "ts_con_id s' = ts_con_id s"
    "\<forall>p\<in>set (ts_queue s'). length (delivered (ts_con_id s) w') < seg_off isn p"
    using TCPStream_add_all_inv[OF assms(1) _ assms(2,7), of "{}"] assms(4) by auto
  let ?n = "length (delivered (ts_con_id s) w')"
  have i: "?n \<le> length S" "delivered (ts_con_id s) w' = take ?n S" "ts_next_seq s' = isn + int ?n"
    "\<forall>p\<in>set ps. seg_end isn p \<le> ?n \<or> p \<in> set (ts_queue s')" "\<forall>i<?n. \<exists>p\<in>set ps. seg_covers isn p i"
    using a(2,3) by (simp_all add: stream_inv_def Let_def)
  have no: "\<not> (\<exists>p\<in>set ps. seg_covers isn p ?n)"
    using i(4) a(4) by (fastforce simp: seg_covers_def)
  have "?n = length S" if "\<forall>i<length S. \<exists>p\<in>set ps. seg_covers isn p i"
    using that no i(1) by (meson le_neq_implies_less)
  then have "delivered (ts_con_id s) w' = S" if "\<forall>i<length S. \<exists>p\<in>set ps. seg_covers isn p i"
    using that i(2) by simp
  then show ?thesis using a(1) i no by blast
qed

text \<open>C38 (every packet is handed over once). Whatever the numbers, windows and lengths of the packets are,
  adding a packet ends and touches no freed packet: the queue with the new packet in its place loses a
  number of packets at its front, each of them goes to the callback exactly once and in this order,
  the others stay, and the counter of packets follows the length of the queue.\<close>

theorem TCPStream_add_once:
  assumes "queue_ok s" and "sk_ok p" and "sk_data_len p \<noteq> 0"
    and "int (length (ts_queue s)) \<le> w_outstanding w" and "w_outstanding w < 2147483647"
  shows "\<exists>s' r' w' k evs. TCPStream_add s r (Some p) w = Some (s', r', w') \<and>
    ts_queue s' = drop k (queue_insert p (ts_queue s)) \<and> queue_ok s' \<and>
    w_trace w' = w_trace w @ evs \<and>
    map (\<lambda>e. map_option sk_packet (ev_packet e)) evs =
      map (\<lambda>p. Some (sk_packet p)) (take k (queue_insert p (ts_queue s))) \<and>
    w_outstanding w' - int (length (ts_queue s')) = w_outstanding w - int (length (ts_queue s))"
proof -
  let ?s1 = "enqueue s r p" and ?w1 = "w\<lparr>w_outstanding := s32 (w_outstanding w + 1)\<rparr>"
  have q: "ts_queue ?s1 = queue_insert p (ts_queue s)" "length (queue_insert p (ts_queue s)) = Suc (length (ts_queue s))"
    using arg_cong[OF queue_insert_mset[of p "ts_queue s"], of size] by (simp_all add: enqueue_def)
  have o: "w_outstanding ?w1 = w_outstanding w + 1" using assms(4,5) by (simp add: s32_id)
  have ok: "queue_ok ?s1" using assms(1,2) by (auto simp: queue_ok_def enqueue_def list_all_iff queue_insert_set)
  have c: "counted ?s1 ?w1" using assms(4,5) q o by (simp add: counted_def)
  obtain s2 w2 where d: "deliver ?s1 ?w1 = (s2, w2)" by (rule prod.exhaust)
  obtain j where j: "handed j ?s1 ?w1 s2 w2" using deliver_handed[OF ok c d] by blast
  obtain k s3 w3 where k: "window_flush s2 w2 = Some (s3, w3)" "handed k s2 w2 s3 w3"
    using window_flush_handed[OF handed_queue_ok[OF ok j] handed_counted[OF c j]] by blast
  note h = handed_trans[OF j k(2)]
  have "TCPStream_add s r (Some p) w = Some (s3, ts_total_size ?s1, w3)"
    using assms(3) d k(1) by (simp add: TCPStream_add_def Let_def)
  moreover have "queue_ok s3" by (rule handed_queue_ok[OF ok h])
  moreover have "w_outstanding w3 - int (length (ts_queue s3)) = w_outstanding w - int (length (ts_queue s))"
    using h o q by (simp add: handed_def of_nat_diff)
  ultimately show ?thesis using h q(1) by (fastforce simp: handed_def)
qed

text \<open>Freeing a forward stream ends: both queues are emptied, every packet in them is handed
  to the callback once and in order, then both streams are announced as destroyed, the forward one
  first, and the counters are decreased by the packets and by two streams.\<close>

theorem TCPStream_flush_drains:
  assumes "queue_ok s" and "queue_ok rv" and "ts_direction s = TCP_FORWARD"
    and "int (length (ts_queue s)) + int (length (ts_queue rv)) \<le> w_outstanding w" and "w_outstanding w < 2147483648"
    and "2 \<le> w_total_streams w" and "w_total_streams w < 2147483648"
  shows "\<exists>s' rv' w' evs. TCPStream_flush s rv w = Some (s', rv', w') \<and> ts_queue s' = [] \<and> ts_queue rv' = [] \<and>
    w_trace w' = w_trace w @ evs @ [Event (ts_con_id s) PYTCP_DESTROY None, Event (ts_con_id rv) PYTCP_DESTROY None] \<and>
    map (\<lambda>e. map_option sk_packet (ev_packet e)) evs = map (\<lambda>p. Some (sk_packet p)) (ts_queue s @ ts_queue rv) \<and>
    w_outstanding w' = w_outstanding w - int (length (ts_queue s)) - int (length (ts_queue rv)) \<and>
    w_total_streams w' = w_total_streams w - 2"
  by (rule flush_spec[OF assms])

text \<open>C40 (a segment over the end of the sequence numbers). The numbers are compared as unsigned integers, not
  in a circle: a segment that is next but whose end goes over \<open>2\<^sup>3\<^sup>2\<close> counts as a retransmission.
  It leaves the queue, none of its bytes is delivered, and the next sequence number stays where it was.\<close>

theorem TCPStream_add_wrap:
  assumes "ts_queue s = []" and "ts_next_seq s = sk_seq p" and "sk_seq p < 4294967296"
    and "0 < sk_data_len p" and "sk_data_len p \<le> sk_seq p" and "4294967296 \<le> sk_seq p + sk_data_len p"
    and "ts_callback s"
  shows "\<exists>s' r' w'. TCPStream_add s r (Some p) w = Some (s', r', w') \<and> ts_queue s' = [] \<and>
    ts_state s' = PYTCP_RETRANSMISSION \<and> ts_next_seq s' = ts_next_seq s \<and>
    delivered (ts_con_id s) w' = delivered (ts_con_id s) w"
proof -
  let ?s1 = "enqueue s r p" and ?w1 = "w\<lparr>w_outstanding := s32 (w_outstanding w + 1)\<rparr>"
  let ?s2 = "?s1\<lparr>ts_state := PYTCP_RETRANSMISSION\<rparr>"
  have "u32 (sk_seq p + sk_data_len p) = (sk_seq p + sk_data_len p - 4294967296) mod 4294967296"
    by (simp add: u32_def)
  also have "\<dots> = sk_seq p + sk_data_len p - 4294967296"
    by (rule mod_pos_pos_trivial) (use assms in linarith)+
  finally have u: "u32 (sk_seq p + sk_data_len p) \<le> sk_seq p" using assms(3,5,4) by linarith
  have q: "ts_queue ?s1 = [p]" "ts_next_seq ?s1 = sk_seq p" using assms(1,2) by (simp_all add: enqueue_def)
  have d: "deliver ?s1 ?w1 = (?s2\<lparr>ts_queue := []\<rparr>, destroy_object (call_callback ?s2 (Some p) ?w1))"
    using q u by (simp add: deliver.simps[of ?s1] deliver.simps[of "?s2\<lparr>ts_queue := []\<rparr>"] Let_def)
  have "delivered (ts_con_id ?s2) (call_callback ?s2 (Some p) ?w1) = delivered (ts_con_id ?s2) ?w1"
    using delivered_callback[of ?s2 p ?w1] assms(7) by (simp add: enqueue_def)
  moreover have "TCPStream_add s r (Some p) w =
      Some (?s2\<lparr>ts_queue := []\<rparr>, ts_total_size ?s1, destroy_object (call_callback ?s2 (Some p) ?w1))"
    using assms(4) d by (simp add: TCPStream_add_def Let_def window_flush_def)
  ultimately show ?thesis by (simp add: enqueue_def)
qed

text \<open>The total of both directions is written to both streams of a pair,
  and each addition adds the total of the reverse stream, which is that same number: after a packet
  both totals are twice the old total and the length of the packet, so that they double with every
  packet instead of growing by its length.\<close>

theorem TCPStream_total_size_doubles:
  assumes "queue_ok s" and "sk_ok p" and "sk_data_len p \<noteq> 0"
    and "int (length (ts_queue s)) \<le> w_outstanding w" and "w_outstanding w < 2147483647"
    and "0 \<le> ts_total_size s" and "ts_total_size s < 536870912"
  shows "\<exists>s' w'. TCPStream_add s (ts_total_size s) (Some p) w =
      Some (s', 2 * ts_total_size s + sk_data_len p, w') \<and>
    ts_total_size s' = 2 * ts_total_size s + sk_data_len p"
proof -
  let ?s1 = "enqueue s (ts_total_size s) p" and ?w1 = "w\<lparr>w_outstanding := s32 (w_outstanding w + 1)\<rparr>"
  have ok: "queue_ok ?s1" using assms(1,2) by (auto simp: queue_ok_def enqueue_def list_all_iff queue_insert_set)
  have q: "length (ts_queue ?s1) = Suc (length (ts_queue s))"
    using arg_cong[OF queue_insert_mset[of p "ts_queue s"], of size] by (simp add: enqueue_def)
  have c: "counted ?s1 ?w1" using assms(4,5) q by (simp add: counted_def s32_id)
  have t: "ts_total_size ?s1 = 2 * ts_total_size s + sk_data_len p"
    using assms(2,6,7) by (simp add: enqueue_def sk_ok_def s32_id)
  obtain s2 w2 where d: "deliver ?s1 ?w1 = (s2, w2)" by (rule prod.exhaust)
  obtain j where j: "handed j ?s1 ?w1 s2 w2" using deliver_handed[OF ok c d] by blast
  obtain k s3 w3 where k: "window_flush s2 w2 = Some (s3, w3)" "handed k s2 w2 s3 w3"
    using window_flush_handed[OF handed_queue_ok[OF ok j] handed_counted[OF c j]] by blast
  have "ts_total_size s3 = ts_total_size ?s1" using handed_trans[OF j k(2)] by (simp add: handed_def)
  then show ?thesis using assms(3) d k(1) t by (simp add: TCPStream_add_def Let_def)
qed

text \<open>A sender of the bytes \<open>1 .. 6\<close> from the number 100 on: the middle comes first, then the end with
  a byte of overlap, then the beginning, then a repetition.\<close>

definition demo_seg :: "int \<Rightarrow> byte list \<Rightarrow> skbuff" where
  "demo_seg seq dat = \<lparr>sk_packet = nat seq, sk_id = 0, sk_seq = seq, sk_window = 1000,
     sk_data_len = int (length dat), sk_data = dat\<rparr>"

definition demo_stream :: tcpstream where
  "demo_stream = \<lparr>ts_addr = \<lparr>tu_source = 1, tu_dest = 2, tu_saddr = 3, tu_daddr = 4\<rparr>, ts_state = PYTCP_DATA,
     ts_queue = [], ts_con_id = 1, ts_max_packet_id = 0, ts_next_seq = 100, ts_direction = 1,
     ts_total_size = 0, ts_callback = True\<rparr>"

definition demo_world :: world where
  "demo_world = \<lparr>w_trace = [], w_outstanding = 0, w_total_streams = 2\<rparr>"

definition demo_segments :: "skbuff list" where
  "demo_segments = [demo_seg 102 [3, 4], demo_seg 103 [4, 5, 6], demo_seg 100 [1, 2], demo_seg 102 [3, 4]]"

lemma tcp_reassembly_witness:
  "\<exists>s' r' w'. TCPStream_add_all demo_stream 0 demo_segments demo_world = Some (s', r', w') \<and>
    delivered 1 w' = [1, 2, 3, 4, 5, 6]"
proof -
  let ?S = "[1, 2, 3, 4, 5, 6] :: byte list"
  have a: "numbers_fit 100 ?S" by (simp add: numbers_fit_def)
  have b: "list_all (segment_of 100 ?S) demo_segments"
    by (simp add: demo_segments_def demo_seg_def segment_of_def seg_end_def seg_off_def)
  have c: "window_kept demo_stream 0 demo_segments demo_world" by code_simp
  have d: "\<forall>i<length ?S. \<exists>p\<in>set demo_segments. seg_covers 100 p i"
    by (simp add: demo_segments_def demo_seg_def seg_covers_def seg_end_def seg_off_def) presburger
  have e: "ts_callback demo_stream" "ts_queue demo_stream = []" "ts_next_seq demo_stream = 100"
    "ts_con_id demo_stream = 1" "delivered (ts_con_id demo_stream) demo_world = []"
    by (simp_all add: demo_stream_def demo_world_def delivered_def)
  from tcp_reassembly[OF a b e(1-3,5) c] d e(4) show ?thesis by auto
qed

lemma TCPStream_add_once_witness:
  "\<exists>s' r' w' k. TCPStream_add demo_stream 0 (Some (demo_seg 102 [3, 4])) demo_world = Some (s', r', w') \<and>
    ts_queue s' = drop k [demo_seg 102 [3, 4]]"
  using TCPStream_add_once[of demo_stream "demo_seg 102 [3, 4]" demo_world 0]
  by (auto simp: queue_ok_def sk_ok_def demo_stream_def demo_seg_def demo_world_def)

lemma TCPStream_flush_drains_witness:
  "\<exists>s' rv' w'. TCPStream_flush demo_stream (demo_stream\<lparr>ts_queue := [demo_seg 102 [3, 4]]\<rparr>)
      (demo_world\<lparr>w_outstanding := 1\<rparr>) = Some (s', rv', w') \<and> ts_queue rv' = [] \<and> w_outstanding w' = 0"
  using TCPStream_flush_drains[of demo_stream "demo_stream\<lparr>ts_queue := [demo_seg 102 [3, 4]]\<rparr>"
      "demo_world\<lparr>w_outstanding := 1\<rparr>"]
  by (auto simp: queue_ok_def sk_ok_def demo_stream_def demo_seg_def demo_world_def TCP_FORWARD_def)

lemma TCPStream_add_wrap_witness:
  "\<exists>s' r' w'. TCPStream_add (demo_stream\<lparr>ts_next_seq := 4294967295\<rparr>) 0 (Some (demo_seg 4294967295 [1, 2])) demo_world =
      Some (s', r', w') \<and> ts_queue s' = [] \<and> ts_next_seq s' = 4294967295 \<and> delivered 1 w' = []"
  using TCPStream_add_wrap[of "demo_stream\<lparr>ts_next_seq := 4294967295\<rparr>" "demo_seg 4294967295 [1, 2]" 0 demo_world]
  by (auto simp: demo_stream_def demo_seg_def demo_world_def delivered_def)

lemma TCPStream_total_size_doubles_witness:
  "\<exists>s' w'. TCPStream_add (demo_stream\<lparr>ts_total_size := 10\<rparr>) 10 (Some (demo_seg 102 [3, 4])) demo_world = Some (s', 22, w')"
  using TCPStream_total_size_doubles[of "demo_stream\<lparr>ts_total_size := 10\<rparr>" "demo_seg 102 [3, 4]" demo_world]
  by (auto simp: queue_ok_def sk_ok_def demo_stream_def demo_seg_def demo_world_def)

end
