(* ===== verification/TCP_Hash.thy ===== *)
theory TCP_Hash
  imports TCP_Stream
begin

text \<open>
  The table of streams of \<open>src/src/network/tcp.c\<close>: a hash table of 256 lists of streams, a list of
  all streams ordered by their last use, and for each pair of end points two streams that point to
  each other. A stream is a reference into \<open>th_streams\<close>; the lists are lists of references.

  A packet is what the table reads of it. The ports, the SYN flag and the sequence number are read
  through the struct of TCP whatever the transport is: the bytes of a UDP struct at these places are
  its ports, bit 9 of \<open>data_offset\<close>, and its length and checksum.
\<close>

section \<open>State\<close>

definition TCP_STREAM_TABLE_SIZE :: nat where "TCP_STREAM_TABLE_SIZE = 256"

record stream_node =
  sn_stream :: tcpstream
  sn_reverse :: nat
  sn_udp :: bool

record tcp_hash =
  th_streams :: "nat \<rightharpoonup> stream_node"
  th_table :: "nat list list"
  th_sorted :: "nat list"
  th_con_id :: int
  th_packets_processed :: int
  th_callback :: bool
  th_next_ref :: nat

record reassembler_configuration =
  max_packets_expired :: int
  max_number_of_streams :: int
  max_outstanding_skbuffs :: int

datatype transport = T_TCP | T_UDP | T_other_ip | T_not_ip

record pypacket =
  pp_sk :: skbuff
  pp_kind :: transport
  pp_saddr :: int
  pp_daddr :: int
  pp_source :: int
  pp_dest :: int
  pp_tcp_flags :: int
  pp_udp_length :: int
  pp_udp_checksum :: int
  pp_udp_data_offset :: int

definition header_syn :: "pypacket \<Rightarrow> bool" where
  "header_syn p = (if pp_kind p = T_UDP then odd (pp_udp_data_offset p div 512)
     else odd (pp_tcp_flags p div 2))"

definition header_seq :: "pypacket \<Rightarrow> int" where
  "header_seq p = (if pp_kind p = T_UDP then u32 (pp_udp_length p + 65536 * pp_udp_checksum p)
     else sk_seq (pp_sk p))"

definition TCPHashTable_Con :: "int \<Rightarrow> bool \<Rightarrow> tcp_hash" where
  "TCPHashTable_Con initial_con_id cb =
     \<lparr>th_streams = Map.empty, th_table = replicate TCP_STREAM_TABLE_SIZE [], th_sorted = [],
      th_con_id = initial_con_id, th_packets_processed = 0, th_callback = cb, th_next_ref = 0\<rparr>"

section \<open>Finding the stream of a packet\<close>

definition mkhash :: "tuple4 \<Rightarrow> nat" where
  "mkhash addr =
     (let res = u32 (tu_source addr + tu_dest addr + tu_saddr addr + tu_daddr addr);
          res = u32 (res + res div 256)
      in nat (res mod int TCP_STREAM_TABLE_SIZE))"

definition forward_tuple :: "pypacket \<Rightarrow> tuple4" where
  "forward_tuple p = \<lparr>tu_source = pp_source p, tu_dest = pp_dest p, tu_saddr = pp_saddr p, tu_daddr = pp_daddr p\<rparr>"

definition reverse_tuple :: "pypacket \<Rightarrow> tuple4" where
  "reverse_tuple p = \<lparr>tu_source = pp_dest p, tu_dest = pp_source p, tu_saddr = pp_daddr p, tu_daddr = pp_saddr p\<rparr>"

definition has_addr :: "tcp_hash \<Rightarrow> tuple4 \<Rightarrow> nat \<Rightarrow> bool" where
  "has_addr th addr r = (case th_streams th r of None \<Rightarrow> False | Some n \<Rightarrow> ts_addr (sn_stream n) = addr)"

definition find_in_bucket :: "tcp_hash \<Rightarrow> tuple4 \<Rightarrow> nat option" where
  "find_in_bucket th addr = find (has_addr th addr) (th_table th ! mkhash addr)"

definition move_to_front :: "nat \<Rightarrow> tcp_hash \<Rightarrow> tcp_hash" where
  "move_to_front r th = th\<lparr>th_sorted := r # remove1 r (th_sorted th)\<rparr>"

definition reverse_of :: "tcp_hash \<Rightarrow> nat \<Rightarrow> nat" where
  "reverse_of th r = (case th_streams th r of None \<Rightarrow> r | Some n \<Rightarrow> sn_reverse n)"

definition bucket_add :: "nat \<Rightarrow> nat \<Rightarrow> tcp_hash \<Rightarrow> tcp_hash" where
  "bucket_add k r th = th\<lparr>th_table := (th_table th)[k := th_table th ! k @ [r]]\<rparr>"

definition new_stream :: "tcp_hash \<Rightarrow> tuple4 \<Rightarrow> int \<Rightarrow> int \<Rightarrow> world \<Rightarrow> tcpstream \<times> world" where
  "new_stream th addr con_id direction w =
     (let (s, w) = TCPStream_Con addr con_id w
      in (s\<lparr>ts_callback := th_callback th, ts_direction := direction\<rparr>, w))"

definition create_streams :: "tcp_hash \<Rightarrow> pypacket \<Rightarrow> world \<Rightarrow> tcp_hash \<times> nat \<times> world" where
  "create_streams th p w =
     (let i = th_next_ref th; j = Suc i; udp = (pp_kind p = T_UDP);
          fwd = forward_tuple p; rvs = reverse_tuple p;
          (si, w) = new_stream th fwd (th_con_id th) TCP_FORWARD w;
          th = th\<lparr>th_con_id := s32 (th_con_id th + 1)\<rparr>;
          th = bucket_add (mkhash fwd) i th;
          th = th\<lparr>th_sorted := i # th_sorted th\<rparr>;
          (sj, w) = new_stream th rvs (th_con_id th) TCP_REVERSE w;
          th = th\<lparr>th_con_id := s32 (th_con_id th + 1)\<rparr>;
          th = bucket_add (mkhash rvs) j th;
          th = th\<lparr>th_sorted := j # th_sorted th\<rparr>
      in (th\<lparr>th_streams := (th_streams th)(i \<mapsto> \<lparr>sn_stream = si, sn_reverse = j, sn_udp = udp\<rparr>,
                                           j \<mapsto> \<lparr>sn_stream = sj, sn_reverse = i, sn_udp = udp\<rparr>),
             th_next_ref := Suc j\<rparr>, i, w))"

definition TCPHashTable_find_stream :: "tcp_hash \<Rightarrow> pypacket \<Rightarrow> world \<Rightarrow> tcp_hash \<times> nat option \<times> world" where
  "TCPHashTable_find_stream th p w =
     (if pp_kind p \<noteq> T_TCP \<and> pp_kind p \<noteq> T_UDP then (th, None, w)
      else case find_in_bucket th (forward_tuple p) of
             Some i \<Rightarrow> (move_to_front (reverse_of th i) (move_to_front i th), Some i, w)
           | None \<Rightarrow>
               (case find_in_bucket th (reverse_tuple p) of
                  Some i \<Rightarrow> (move_to_front (reverse_of th i) (move_to_front i th), Some (reverse_of th i), w)
                | None \<Rightarrow> let (th, i, w) = create_streams th p w in (th, Some i, w)))"

section \<open>Expiring streams\<close>

text \<open>\<open>talloc_free\<close> of a forward stream runs \<open>TCPStream_flush\<close>, which unlinks the pair, and
  frees the reverse stream with it. A reverse stream that is freed would stay in the lists.\<close>

definition unlink :: "nat \<Rightarrow> tcp_hash \<Rightarrow> tcp_hash" where
  "unlink r th = th\<lparr>th_table := map (remove1 r) (th_table th), th_sorted := remove1 r (th_sorted th)\<rparr>"

definition free_stream :: "nat \<Rightarrow> tcp_hash \<Rightarrow> world \<Rightarrow> (tcp_hash \<times> world) option" where
  "free_stream r th w = do {
     n \<leftarrow> th_streams th r;
     m \<leftarrow> th_streams th (sn_reverse n);
     if ts_direction (sn_stream n) \<noteq> TCP_FORWARD then None
     else do {
       (_, _, w) \<leftarrow> TCPStream_flush (sn_stream n) (sn_stream m) w;
       let th = unlink (sn_reverse n) (unlink r th);
       Some (th\<lparr>th_streams := (th_streams th)(r := None, sn_reverse n := None)\<rparr>, w)
     }
   }"

definition is_forward :: "tcp_hash \<Rightarrow> nat \<Rightarrow> bool" where
  "is_forward th r = (case th_streams th r of None \<Rightarrow> False | Some n \<Rightarrow> ts_direction (sn_stream n) = TCP_FORWARD)"

text \<open>One round over the buckets that frees the first stream with a property in each.\<close>

fun free_first_of ::
    "(tcp_hash \<Rightarrow> nat \<Rightarrow> bool) \<Rightarrow> nat list \<Rightarrow> tcp_hash \<Rightarrow> world \<Rightarrow> (tcp_hash \<times> world) option" where
  "free_first_of P [] th w = Some (th, w)"
| "free_first_of P (k # ks) th w =
     (case find (P th) (th_table th ! k) of
        None \<Rightarrow> free_first_of P ks th w
      | Some i \<Rightarrow> (case free_stream i th w of
                     None \<Rightarrow> None
                   | Some (th', w') \<Rightarrow> free_first_of P ks th' w'))"

definition expired :: "reassembler_configuration \<Rightarrow> int \<Rightarrow> tcp_hash \<Rightarrow> nat \<Rightarrow> bool" where
  "expired cfg iden th r \<longleftrightarrow> is_forward th r \<and>
     (case th_streams th r of None \<Rightarrow> False
      | Some n \<Rightarrow> s32 (ts_max_packet_id (sn_stream n) + max_packets_expired cfg) < iden)"

definition check_for_expired_packets ::
    "reassembler_configuration \<Rightarrow> int \<Rightarrow> tcp_hash \<Rightarrow> world \<Rightarrow> (tcp_hash \<times> world) option" where
  "check_for_expired_packets cfg iden th w =
     free_first_of (expired cfg iden) [0..<TCP_STREAM_TABLE_SIZE] th w"

definition TCPHashTable_flush :: "tcp_hash \<Rightarrow> world \<Rightarrow> (tcp_hash \<times> world) option" where
  "TCPHashTable_flush th w = free_first_of is_forward [0..<TCP_STREAM_TABLE_SIZE] th w"

definition expire_oldest_stream :: "tcp_hash \<Rightarrow> world \<Rightarrow> (tcp_hash \<times> world) option" where
  "expire_oldest_stream th w =
     (case find (is_forward th) (rev (th_sorted th)) of
        None \<Rightarrow> Some (th, w)
      | Some x \<Rightarrow> free_stream x th w)"

section \<open>Processing a packet\<close>

definition put_stream :: "nat \<Rightarrow> tcpstream \<Rightarrow> tcp_hash \<Rightarrow> tcp_hash" where
  "put_stream r s th = th\<lparr>th_streams :=
     (case th_streams th r of None \<Rightarrow> th_streams th | Some n \<Rightarrow> (th_streams th)(r \<mapsto> n\<lparr>sn_stream := s\<rparr>))\<rparr>"

definition establish :: "pypacket \<Rightarrow> bool \<Rightarrow> tcpstream \<Rightarrow> world \<Rightarrow> (tcpstream \<times> world) option" where
  "establish p udp s w =
     (if ts_state s = PYTCP_NONE then
        (let s = (if header_syn p then s\<lparr>ts_next_seq := u32 (header_seq p + 1)\<rparr>
                  else if \<not> udp then s\<lparr>ts_next_seq := header_seq p\<rparr> else s);
             s = s\<lparr>ts_state := PYTCP_JUST_EST\<rparr>
         in if \<not> ts_callback s then None
            else let w = call_callback s (Some (pp_sk p)) w in Some (s\<lparr>ts_state := PYTCP_DATA\<rparr>, w))
      else Some (s, w))"

text \<open>The virtual method \<open>add\<close>. The methods cast the payload to the struct of their own protocol; for
  a packet of the other one they work on memory that is not theirs.\<close>

definition stream_add :: "pypacket \<Rightarrow> bool \<Rightarrow> tcpstream \<Rightarrow> int \<Rightarrow> world \<Rightarrow> (tcpstream \<times> int \<times> world) option" where
  "stream_add p udp s rev_total w =
     (if udp then
        (if pp_kind p = T_UDP then (let (s, w) = UDPStream_add s (Some (pp_sk p)) w in Some (s, rev_total, w)) else None)
      else (if pp_kind p = T_TCP then TCPStream_add s rev_total (Some (pp_sk p)) w else None))"

definition too_many :: "reassembler_configuration \<Rightarrow> world \<Rightarrow> bool" where
  "too_many cfg w \<longleftrightarrow> w_total_streams w > max_number_of_streams cfg \<or>
     w_outstanding w > max_outstanding_skbuffs cfg"

definition process_stream :: "pypacket \<Rightarrow> nat \<Rightarrow> tcp_hash \<Rightarrow> world \<Rightarrow> (tcp_hash \<times> world) option" where
  "process_stream p i th w = do {
     n \<leftarrow> th_streams th i;
     m \<leftarrow> th_streams th (sn_reverse n);
     (s, w) \<leftarrow> establish p (sn_udp n) (sn_stream n) w;
     (s, rev_total, w) \<leftarrow> stream_add p (sn_udp n) s (ts_total_size (sn_stream m)) w;
     Some (put_stream (sn_reverse n) ((sn_stream m)\<lparr>ts_total_size := rev_total\<rparr>) (put_stream i s th), w)
   }"

definition process_counters ::
    "reassembler_configuration \<Rightarrow> int \<Rightarrow> tcp_hash \<Rightarrow> world \<Rightarrow> (tcp_hash \<times> world) option" where
  "process_counters cfg iden th w = do {
     (th, w) \<leftarrow> (if too_many cfg w then expire_oldest_stream th w else Some (th, w));
     let th = th\<lparr>th_packets_processed := s32 (th_packets_processed th + 1)\<rparr>;
     if th_packets_processed th > s32 (2 * max_packets_expired cfg) then do {
       (th, w) \<leftarrow> check_for_expired_packets cfg iden th w;
       Some (th\<lparr>th_packets_processed := 0\<rparr>, w)
     } else Some (th, w)
   }"

definition TCPHashTable_process ::
    "reassembler_configuration \<Rightarrow> tcp_hash \<Rightarrow> pypacket \<Rightarrow> world \<Rightarrow> (tcp_hash \<times> world \<times> int) option" where
  "TCPHashTable_process cfg th p w =
     (let non_ip = (\<lambda>th w. Some (th, (if th_callback th
             then w\<lparr>w_trace := w_trace w @ [Event 0 PYTCP_NON_TCP (Some (pp_sk p))]\<rparr> else w), 0))
      in if pp_kind p = T_not_ip then non_ip th w
         else case TCPHashTable_find_stream th p w of
                (th, None, w) \<Rightarrow> non_ip th w
              | (th, Some i, w) \<Rightarrow> do {
                  (th, w) \<leftarrow> process_stream p i th w;
                  (th, w) \<leftarrow> process_counters cfg (sk_id (pp_sk p)) th w;
                  Some (th, w, 1)
                })"

section \<open>The invariant of the table\<close>

definition swap_tuple :: "tuple4 \<Rightarrow> tuple4" where
  "swap_tuple a = \<lparr>tu_source = tu_dest a, tu_dest = tu_source a, tu_saddr = tu_daddr a, tu_daddr = tu_saddr a\<rparr>"

lemma swap_tuple [simp]: "swap_tuple (swap_tuple a) = a"
  "swap_tuple (forward_tuple p) = reverse_tuple p" "swap_tuple (reverse_tuple p) = forward_tuple p"
  by (simp_all add: swap_tuple_def forward_tuple_def reverse_tuple_def)

text \<open>A stream and its reverse: they point to each other, with the end points exchanged, one of them
  forward and one not, and of the same protocol.\<close>

definition paired :: "tcp_hash \<Rightarrow> nat \<Rightarrow> stream_node \<Rightarrow> bool" where
  "paired th r n \<longleftrightarrow> sn_reverse n \<noteq> r \<and>
     (\<exists>m. th_streams th (sn_reverse n) = Some m \<and> sn_reverse m = r \<and>
        ts_addr (sn_stream m) = swap_tuple (ts_addr (sn_stream n)) \<and> sn_udp m = sn_udp n \<and>
        ts_direction (sn_stream n) \<in> {TCP_FORWARD, TCP_REVERSE} \<and>
        ts_direction (sn_stream m) = 1 - ts_direction (sn_stream n))"

definition table_inv :: "tcp_hash \<Rightarrow> bool" where
  "table_inv th \<longleftrightarrow> length (th_table th) = TCP_STREAM_TABLE_SIZE \<and>
     (\<forall>k < TCP_STREAM_TABLE_SIZE. distinct (th_table th ! k) \<and>
        set (th_table th ! k) = {r. \<exists>n. th_streams th r = Some n \<and> mkhash (ts_addr (sn_stream n)) = k}) \<and>
     distinct (th_sorted th) \<and> set (th_sorted th) = dom (th_streams th) \<and>
     (\<forall>r n. th_streams th r = Some n \<longrightarrow> r < th_next_ref th \<and> paired th r n) \<and>
     (\<forall>r n q m. th_streams th r = Some n \<longrightarrow> th_streams th q = Some m \<longrightarrow>
        ts_addr (sn_stream n) = ts_addr (sn_stream m) \<longrightarrow>
        r = q \<or> swap_tuple (ts_addr (sn_stream n)) = ts_addr (sn_stream n))"

lemma mkhash_less: "mkhash a < TCP_STREAM_TABLE_SIZE"
  by (simp add: mkhash_def Let_def TCP_STREAM_TABLE_SIZE_def nat_less_iff)

lemma has_addr_iff: "has_addr th a r \<longleftrightarrow> (\<exists>n. th_streams th r = Some n \<and> ts_addr (sn_stream n) = a)"
  by (auto simp: has_addr_def split: option.splits)

lemma table_inv_bucket:
  assumes "table_inv th" "th_streams th r = Some n"
  shows "r \<in> set (th_table th ! mkhash (ts_addr (sn_stream n)))"
  using assms mkhash_less by (auto simp: table_inv_def)

lemma bucket_stream:
  assumes "table_inv th" "k < TCP_STREAM_TABLE_SIZE" "r \<in> set (th_table th ! k)"
  shows "\<exists>n. th_streams th r = Some n \<and> mkhash (ts_addr (sn_stream n)) = k"
proof -
  have "set (th_table th ! k) = {r. \<exists>n. th_streams th r = Some n \<and> mkhash (ts_addr (sn_stream n)) = k}"
    using assms(1,2) unfolding table_inv_def by blast
  then show ?thesis using assms(3) by blast
qed

lemma find_in_bucket_Some:
  "find_in_bucket th a = Some r \<Longrightarrow> \<exists>n. th_streams th r = Some n \<and> ts_addr (sn_stream n) = a"
  by (auto simp: find_in_bucket_def find_Some_iff has_addr_iff)

lemma find_in_bucket_None:
  assumes "table_inv th" "find_in_bucket th a = None" "th_streams th r = Some n"
  shows "ts_addr (sn_stream n) \<noteq> a"
  using table_inv_bucket[OF assms(1,3)] assms(2,3)
  by (auto simp: find_in_bucket_def find_None_iff has_addr_iff)

text \<open>The order of use says nothing about the other fields.\<close>

lemma move_to_front_inv:
  assumes "table_inv th" "th_streams th r \<noteq> None"
  shows "table_inv (move_to_front r th)"
proof -
  have "r \<in> set (th_sorted th)" "distinct (th_sorted th)" using assms by (auto simp: table_inv_def)
  then have "set (r # remove1 r (th_sorted th)) = set (th_sorted th)" "distinct (r # remove1 r (th_sorted th))"
    by (auto simp: set_remove1_eq)
  then show ?thesis using assms(1) by (simp add: table_inv_def move_to_front_def paired_def)
qed

lemma move_to_front_fields [simp]:
  "th_streams (move_to_front r th) = th_streams th" "th_table (move_to_front r th) = th_table th"
  "th_next_ref (move_to_front r th) = th_next_ref th" "th_callback (move_to_front r th) = th_callback th"
  by (simp_all add: move_to_front_def)

lemma reverse_of_stream:
  assumes "table_inv th" "th_streams th r = Some n"
  obtains m where "th_streams th (reverse_of th r) = Some m" "reverse_of th r = sn_reverse n"
    "ts_addr (sn_stream m) = swap_tuple (ts_addr (sn_stream n))" "sn_reverse m = r"
proof -
  have "paired th r n" using assms by (auto simp: table_inv_def)
  then show ?thesis using that assms(2) by (auto simp: paired_def reverse_of_def)
qed

lemma touch_inv:
  assumes "table_inv th" "th_streams th i = Some n"
  shows "table_inv (move_to_front (reverse_of th i) (move_to_front i th))"
proof -
  obtain m where m: "th_streams th (reverse_of th i) = Some m" by (rule reverse_of_stream[OF assms])
  have "table_inv (move_to_front i th)" by (rule move_to_front_inv) (use assms in auto)
  then show ?thesis by (rule move_to_front_inv) (use m in simp)
qed

lemma create_streams_fields:
  assumes "create_streams th p w = (th', i, w')"
  obtains si sj where "i = th_next_ref th"
    "th_streams th' = (th_streams th)(i \<mapsto> \<lparr>sn_stream = si, sn_reverse = Suc i, sn_udp = (pp_kind p = T_UDP)\<rparr>,
        Suc i \<mapsto> \<lparr>sn_stream = sj, sn_reverse = i, sn_udp = (pp_kind p = T_UDP)\<rparr>)"
    "ts_addr si = forward_tuple p" "ts_addr sj = reverse_tuple p" "ts_direction si = TCP_FORWARD"
    "ts_direction sj = TCP_REVERSE" "ts_queue si = []" "ts_queue sj = []" "ts_callback si = th_callback th"
    "ts_callback sj = th_callback th" "ts_state si = PYTCP_NONE" "ts_total_size si = 0" "ts_total_size sj = 0"
    "th_next_ref th' = Suc (Suc i)" "th_sorted th' = Suc i # i # th_sorted th" "th_callback th' = th_callback th"
    "th_table th' = th_table (bucket_add (mkhash (reverse_tuple p)) (Suc i) (bucket_add (mkhash (forward_tuple p)) i th))"
    "w_trace w' = w_trace w" "w_outstanding w' = w_outstanding w"
    "w_total_streams w' = s32 (s32 (w_total_streams w + 1) + 1)"
    "th_packets_processed th' = th_packets_processed th"
proof -
  define si where "si = fst (new_stream th (forward_tuple p) (th_con_id th) TCP_FORWARD w)"
  define sj where "sj = fst (new_stream th (reverse_tuple p) (s32 (th_con_id th + 1)) TCP_REVERSE
      (snd (new_stream th (forward_tuple p) (th_con_id th) TCP_FORWARD w)))"
  show ?thesis
    by (rule that[of si sj])
      (use assms in \<open>auto simp: create_streams_def Let_def new_stream_def TCPStream_Con_def bucket_add_def si_def sj_def\<close>)
qed

lemma bucket_add_nth:
  assumes "k < length (th_table th)" "j < length (th_table th)"
  shows "th_table (bucket_add k r th) ! j = (if j = k then th_table th ! k @ [r] else th_table th ! j)"
  using assms by (simp add: bucket_add_def nth_list_update)

lemma length_bucket_add [simp]: "length (th_table (bucket_add k r th)) = length (th_table th)"
  by (simp add: bucket_add_def)

lemma create_streams_inv:
  assumes inv: "table_inv th" and cr: "create_streams th p w = (th', i, w')"
    and new: "find_in_bucket th (forward_tuple p) = None" "find_in_bucket th (reverse_tuple p) = None"
  shows "table_inv th'"
proof -
  let ?f = "forward_tuple p" and ?v = "reverse_tuple p"
  obtain si sj where c: "i = th_next_ref th"
    "th_streams th' = (th_streams th)(i \<mapsto> \<lparr>sn_stream = si, sn_reverse = Suc i, sn_udp = (pp_kind p = T_UDP)\<rparr>,
        Suc i \<mapsto> \<lparr>sn_stream = sj, sn_reverse = i, sn_udp = (pp_kind p = T_UDP)\<rparr>)"
    "ts_addr si = ?f" "ts_addr sj = ?v" "ts_direction si = TCP_FORWARD" "ts_direction sj = TCP_REVERSE"
    "th_next_ref th' = Suc (Suc i)" "th_sorted th' = Suc i # i # th_sorted th"
    "th_table th' = th_table (bucket_add (mkhash ?v) (Suc i) (bucket_add (mkhash ?f) i th))"
    by (rule create_streams_fields[OF cr])
  have fr: "th_streams th i = None" "th_streams th (Suc i) = None"
    using inv c(1) by (cases "th_streams th i"; cases "th_streams th (Suc i)"; fastforce simp: table_inv_def)+
  have len: "length (th_table th) = TCP_STREAM_TABLE_SIZE" using inv by (simp add: table_inv_def)
  have tab: "distinct (th_table th' ! k) \<and>
      set (th_table th' ! k) = {r. \<exists>n. th_streams th' r = Some n \<and> mkhash (ts_addr (sn_stream n)) = k}"
    if k: "k < TCP_STREAM_TABLE_SIZE" for k
  proof -
    have o: "distinct (th_table th ! k)"
      "set (th_table th ! k) = {r. \<exists>n. th_streams th r = Some n \<and> mkhash (ts_addr (sn_stream n)) = k}"
      using inv k by (auto simp: table_inv_def)
    then have "i \<notin> set (th_table th ! k)" "Suc i \<notin> set (th_table th ! k)" using fr by auto
    moreover have "th_table th' ! k = th_table th ! k @ (if k = mkhash ?f then [i] else []) @
        (if k = mkhash ?v then [Suc i] else [])"
      using mkhash_less len k by (simp add: c(9) bucket_add_nth)
    ultimately show ?thesis using o fr by (auto simp: c(2-4))
  qed
  have pr: "r < th_next_ref th' \<and> paired th' r n" if "th_streams th' r = Some n" for r n
  proof (cases "r = i \<or> r = Suc i")
    case True
    then show ?thesis using that c by (auto simp: paired_def TCP_FORWARD_def TCP_REVERSE_def)
  next
    case False
    then have o: "th_streams th r = Some n" using that c(2) by simp
    then have "r < th_next_ref th" "paired th r n" using inv by (auto simp: table_inv_def)
    then show ?thesis using fr c(1,2,7) by (auto simp: paired_def split: if_splits)
  qed
  have un: "r = q \<or> swap_tuple (ts_addr (sn_stream n)) = ts_addr (sn_stream n)"
    if "th_streams th' r = Some n" "th_streams th' q = Some m" "ts_addr (sn_stream n) = ts_addr (sn_stream m)" for r n q m
  proof -
    have old: "ts_addr (sn_stream a) \<noteq> ?f" "ts_addr (sn_stream a) \<noteq> ?v" if "th_streams th x = Some a" for x a
      using find_in_bucket_None[OF inv new(1) that] find_in_bucket_None[OF inv new(2) that] by auto
    show ?thesis
    proof (cases "r \<in> {i, Suc i} \<or> q \<in> {i, Suc i}")
      case False
      then have "th_streams th r = Some n" "th_streams th q = Some m" using that c(2) by auto
      then show ?thesis using inv that(3) unfolding table_inv_def by blast
    next
      case True
      then show ?thesis using that c(2-4) old by (auto split: if_splits) (metis swap_tuple(2))+
    qed
  qed
  have "distinct (th_sorted th')" "set (th_sorted th') = dom (th_streams th')"
    using inv fr by (auto simp: table_inv_def c(2,8))
  then show ?thesis
    using tab pr un len c(9) by (auto simp: table_inv_def)
qed

section \<open>The counters\<close>

definition qlen :: "tcp_hash \<Rightarrow> nat \<Rightarrow> int" where
  "qlen th r = (case th_streams th r of None \<Rightarrow> 0 | Some n \<Rightarrow> int (length (ts_queue (sn_stream n))))"

definition queued :: "tcp_hash \<Rightarrow> int" where
  "queued th = (\<Sum>r\<in>dom (th_streams th). qlen th r)"

text \<open>The global counters are the packets in the queues and the streams of the table.\<close>

definition counters_exact :: "tcp_hash \<Rightarrow> world \<Rightarrow> bool" where
  "counters_exact th w \<longleftrightarrow> w_outstanding w = queued th \<and> w_outstanding w < 2147483648 \<and>
     w_total_streams w = int (card (dom (th_streams th))) \<and> w_total_streams w < 2147483648 \<and>
     (\<forall>r n. th_streams th r = Some n \<longrightarrow> queue_ok (sn_stream n))"

lemma finite_streams: "table_inv th \<Longrightarrow> finite (dom (th_streams th))"
  unfolding table_inv_def by (metis List.finite_set)

lemma qlen_nonneg: "0 \<le> qlen th r"
  by (simp add: qlen_def split: option.splits)

lemma queued_split:
  assumes "finite (dom (th_streams th))" "th_streams th r = Some n" "th_streams th q = Some m" "r \<noteq> q"
  shows "queued th = qlen th r + qlen th q + (\<Sum>x\<in>dom (th_streams th) - {r, q}. qlen th x)"
proof -
  have d: "dom (th_streams th) = insert r (insert q (dom (th_streams th) - {r, q}))" using assms by auto
  have "queued th = (\<Sum>x\<in>insert r (insert q (dom (th_streams th) - {r, q})). qlen th x)"
    unfolding queued_def by (subst d) simp
  also have "\<dots> = qlen th r + qlen th q + (\<Sum>x\<in>dom (th_streams th) - {r, q}. qlen th x)"
    using assms(1,4) by simp
  finally show ?thesis .
qed

lemma rest_nonneg: "0 \<le> (\<Sum>x\<in>A. qlen th x)"
  by (rule sum_nonneg) (rule qlen_nonneg)

lemma card_two:
  assumes "finite (dom f)" "f r = Some n" "f q = Some m" "r \<noteq> q"
  shows "card (dom (f(r := None, q := None))) = card (dom f) - 2" "2 \<le> card (dom f)"
proof -
  have "dom (f(r := None, q := None)) = dom f - {r, q}" by auto
  moreover have "{r, q} \<subseteq> dom f" using assms by auto
  moreover have "card {r, q} = 2" using assms(4) by simp
  ultimately show "card (dom (f(r := None, q := None))) = card (dom f) - 2" "2 \<le> card (dom f)"
    using card_Diff_subset[of "{r, q}" "dom f"] card_mono[OF assms(1), of "{r, q}"] by auto
qed

lemma unlink_two_inv:
  assumes inv: "table_inv th" and n: "th_streams th r = Some n"
  shows "table_inv ((unlink (sn_reverse n) (unlink r th))
    \<lparr>th_streams := (th_streams th)(r := None, sn_reverse n := None)\<rparr>)" (is "table_inv ?th")
proof -
  have len: "length (th_table th) = TCP_STREAM_TABLE_SIZE" using inv by (simp add: table_inv_def)
  have tab: "distinct (th_table ?th ! k) \<and>
      set (th_table ?th ! k) = {x. \<exists>m. th_streams ?th x = Some m \<and> mkhash (ts_addr (sn_stream m)) = k}"
    if k: "k < TCP_STREAM_TABLE_SIZE" for k
  proof -
    have o: "distinct (th_table th ! k)"
      "set (th_table th ! k) = {x. \<exists>m. th_streams th x = Some m \<and> mkhash (ts_addr (sn_stream m)) = k}"
      using inv k by (auto simp: table_inv_def)
    then show ?thesis using k len by (auto simp: unlink_def set_remove1_eq)
  qed
  have pr: "x < th_next_ref ?th \<and> paired ?th x m" if "th_streams ?th x = Some m" for x m
  proof -
    have o: "th_streams th x = Some m" "x \<noteq> r" "x \<noteq> sn_reverse n" using that by (auto split: if_splits)
    have p: "x < th_next_ref th" "paired th x m" "paired th r n" using inv o n by (auto simp: table_inv_def)
    obtain a b where "th_streams th (sn_reverse m) = Some a" "sn_reverse a = x"
      "th_streams th (sn_reverse n) = Some b" "sn_reverse b = r"
      using p(2,3) by (auto simp: paired_def)
    then have "sn_reverse m \<noteq> r" "sn_reverse m \<noteq> sn_reverse n" using o n by auto
    then show ?thesis using p(1,2) by (auto simp: paired_def unlink_def)
  qed
  have "distinct (th_sorted ?th)" "set (th_sorted ?th) = dom (th_streams ?th)"
    using inv by (auto simp: table_inv_def unlink_def set_remove1_eq)
  moreover have "a = b \<or> swap_tuple (ts_addr (sn_stream x)) = ts_addr (sn_stream x)"
    if "th_streams ?th a = Some x" "th_streams ?th b = Some y" "ts_addr (sn_stream x) = ts_addr (sn_stream y)" for a b x y
  proof -
    have "th_streams th a = Some x" "th_streams th b = Some y" using that by (auto split: if_splits)
    then show ?thesis using inv that(3) unfolding table_inv_def by blast
  qed
  ultimately show ?thesis using tab pr len by (auto simp: table_inv_def unlink_def)
qed

lemma free_stream_spec:
  assumes inv: "table_inv th" and cnt: "counters_exact th w" and n: "th_streams th r = Some n"
    and fwd: "ts_direction (sn_stream n) = TCP_FORWARD"
  shows "\<exists>th' w'. free_stream r th w = Some (th', w') \<and> table_inv th' \<and> counters_exact th' w' \<and>
    th_streams th' = (th_streams th)(r := None, sn_reverse n := None) \<and>
    w_total_streams w' = w_total_streams w - 2 \<and> th_callback th' = th_callback th"
proof -
  have "paired th r n" using inv n by (auto simp: table_inv_def)
  then obtain m where m: "th_streams th (sn_reverse n) = Some m" "sn_reverse n \<noteq> r" by (auto simp: paired_def)
  note fin = finite_streams[OF inv]
  note sp = queued_split[OF fin n m(1) m(2)[symmetric]] and cd = card_two[OF fin n m(1) m(2)[symmetric]]
  have q: "queue_ok (sn_stream n)" "queue_ok (sn_stream m)" using cnt n m by (auto simp: counters_exact_def)
  have ql: "qlen th r = int (length (ts_queue (sn_stream n)))"
    "qlen th (sn_reverse n) = int (length (ts_queue (sn_stream m)))" using n m by (simp_all add: qlen_def)
  have b1: "int (length (ts_queue (sn_stream n))) + int (length (ts_queue (sn_stream m))) \<le> w_outstanding w"
    using cnt sp ql rest_nonneg[of th "dom (th_streams th) - {r, sn_reverse n}"] by (simp add: counters_exact_def)
  have b2: "w_outstanding w < 2147483648" "2 \<le> w_total_streams w" "w_total_streams w < 2147483648"
    using cnt cd(2) by (simp_all add: counters_exact_def)
  obtain s' rv' w' where fl: "TCPStream_flush (sn_stream n) (sn_stream m) w = Some (s', rv', w')"
    "w_outstanding w' = w_outstanding w - int (length (ts_queue (sn_stream n))) - int (length (ts_queue (sn_stream m)))"
    "w_total_streams w' = w_total_streams w - 2"
    using flush_counters[OF q fwd b1 b2] by blast
  let ?th = "(unlink (sn_reverse n) (unlink r th))\<lparr>th_streams := (th_streams th)(r := None, sn_reverse n := None)\<rparr>"
  have run: "free_stream r th w = Some (?th, w')"
    using n m fwd fl(1) by (simp add: free_stream_def Let_def unlink_def)
  have "dom (th_streams ?th) = dom (th_streams th) - {r, sn_reverse n}" by auto
  then have "queued ?th = (\<Sum>x\<in>dom (th_streams th) - {r, sn_reverse n}. qlen th x)"
    unfolding queued_def by (intro sum.cong) (auto simp: qlen_def)
  then have "w_outstanding w' = queued ?th" using fl(2) cnt sp ql by (simp add: counters_exact_def)
  moreover have "w_total_streams w' = int (card (dom (th_streams ?th)))"
    using fl(3) cnt cd by (simp add: counters_exact_def of_nat_diff)
  moreover have "w_outstanding w' < 2147483648" "w_total_streams w' < 2147483648" using fl b2 by simp_all
  moreover have "queue_ok (sn_stream x)" if "th_streams ?th a = Some x" for a x
    using that cnt by (auto simp: counters_exact_def split: if_splits)
  ultimately have "counters_exact ?th w'" by (simp add: counters_exact_def)
  then show ?thesis using run unlink_two_inv[OF inv n] fl(3) by (simp add: unlink_def)
qed

lemma is_forward_iff: "is_forward th r \<longleftrightarrow> (\<exists>n. th_streams th r = Some n \<and> ts_direction (sn_stream n) = TCP_FORWARD)"
  by (auto simp: is_forward_def split: option.splits)

lemma free_first_of_spec:
  assumes "\<And>th r. P th r \<Longrightarrow> is_forward th r"
  shows "table_inv th \<Longrightarrow> counters_exact th w \<Longrightarrow>
    \<exists>th' w'. free_first_of P ks th w = Some (th', w') \<and> table_inv th' \<and> counters_exact th' w' \<and>
      w_total_streams w' \<le> w_total_streams w \<and> th_callback th' = th_callback th \<and>
      (\<forall>r n. th_streams th' r = Some n \<longrightarrow> th_streams th r = Some n)"
proof (induction ks arbitrary: th w)
  case (Cons k ks)
  show ?case
  proof (cases "find (P th) (th_table th ! k)")
    case None
    then show ?thesis using Cons by simp
  next
    case (Some i)
    then have "P th i" by (auto simp: find_Some_iff)
    then obtain n where n: "th_streams th i = Some n" "ts_direction (sn_stream n) = TCP_FORWARD"
      using assms is_forward_iff by blast
    obtain th1 w1 where f: "free_stream i th w = Some (th1, w1)" "table_inv th1" "counters_exact th1 w1"
      "th_streams th1 = (th_streams th)(i := None, sn_reverse n := None)"
      "w_total_streams w1 = w_total_streams w - 2" "th_callback th1 = th_callback th"
      using free_stream_spec[OF Cons.prems n] by blast
    show ?thesis using Cons.IH[OF f(2,3)] Some f by (fastforce split: if_splits)
  qed
qed auto

section \<open>One packet\<close>

text \<open>What no operation of a stream changes.\<close>

definition same_stream :: "tcpstream \<Rightarrow> tcpstream \<Rightarrow> bool" where
  "same_stream s s' \<longleftrightarrow> ts_addr s' = ts_addr s \<and> ts_direction s' = ts_direction s \<and> ts_con_id s' = ts_con_id s \<and>
     ts_callback s' = ts_callback s"

lemma TCPStream_add_spec:
  assumes "queue_ok s" "sk_ok p" "int (length (ts_queue s)) \<le> w_outstanding w" "w_outstanding w < 2147483647"
  shows "\<exists>s' r' w'. TCPStream_add s r (Some p) w = Some (s', r', w') \<and> queue_ok s' \<and> same_stream s s' \<and>
    w_outstanding w' - int (length (ts_queue s')) = w_outstanding w - int (length (ts_queue s)) \<and>
    w_outstanding w' < 2147483648 \<and> w_total_streams w' = w_total_streams w"
proof (cases "sk_data_len p = 0")
  case True
  then show ?thesis using assms by (auto simp: TCPStream_add_def queue_ok_def same_stream_def call_callback_def Let_def)
next
  case False
  let ?s1 = "enqueue s r p" and ?w1 = "w\<lparr>w_outstanding := s32 (w_outstanding w + 1)\<rparr>"
  have q: "length (ts_queue ?s1) = Suc (length (ts_queue s))"
    using arg_cong[OF queue_insert_mset[of p "ts_queue s"], of size] by (simp add: enqueue_def)
  have o: "w_outstanding ?w1 = w_outstanding w + 1" using assms(3,4) by (simp add: s32_id)
  have ok: "queue_ok ?s1" using assms(1,2) by (auto simp: queue_ok_def enqueue_def list_all_iff queue_insert_set)
  have c: "counted ?s1 ?w1" using assms(3,4) q o by (simp add: counted_def)
  obtain s2 w2 where d: "deliver ?s1 ?w1 = (s2, w2)" by (rule prod.exhaust)
  obtain j where j: "handed j ?s1 ?w1 s2 w2" using deliver_handed[OF ok c d] by blast
  obtain k s3 w3 where k: "window_flush s2 w2 = Some (s3, w3)" "handed k s2 w2 s3 w3"
    using window_flush_handed[OF handed_queue_ok[OF ok j] handed_counted[OF c j]] by blast
  note h = handed_trans[OF j k(2)]
  have "TCPStream_add s r (Some p) w = Some (s3, ts_total_size ?s1, w3)"
    using False d k(1) by (simp add: TCPStream_add_def Let_def)
  moreover have "queue_ok s3" by (rule handed_queue_ok[OF ok h])
  moreover have "w_outstanding w3 - int (length (ts_queue s3)) = w_outstanding w - int (length (ts_queue s))"
    using h o q by (simp add: handed_def of_nat_diff)
  moreover have "same_stream s s3" using h by (simp add: handed_def same_stream_def enqueue_def)
  ultimately show ?thesis using h o assms(4) by (simp add: handed_def)
qed

lemma establish_spec:
  assumes "queue_ok s"
  shows "\<exists>s' w'. establish p udp s w = Some (s', w') \<and> queue_ok s' \<and> same_stream s s' \<and> ts_queue s' = ts_queue s \<and>
    w_outstanding w' = w_outstanding w \<and> w_total_streams w' = w_total_streams w"
  using assms by (auto simp: establish_def queue_ok_def same_stream_def call_callback_def Let_def)

lemma stream_add_spec:
  assumes "queue_ok s" "sk_ok (pp_sk p)" "int (length (ts_queue s)) \<le> w_outstanding w" "w_outstanding w < 2147483647"
    "pp_kind p = (if udp then T_UDP else T_TCP)"
  shows "\<exists>s' r' w'. stream_add p udp s r w = Some (s', r', w') \<and> queue_ok s' \<and> same_stream s s' \<and>
    w_outstanding w' - int (length (ts_queue s')) = w_outstanding w - int (length (ts_queue s)) \<and>
    w_outstanding w' < 2147483648 \<and> w_total_streams w' = w_total_streams w"
proof (cases udp)
  case True
  then show ?thesis using assms
    by (auto simp: stream_add_def UDPStream_add_def Let_def queue_ok_def same_stream_def call_callback_def)
next
  case False
  then show ?thesis using TCPStream_add_spec[OF assms(1-4), of r] assms(5) by (simp add: stream_add_def)
qed

text \<open>Other contents of two streams of a pair.\<close>

lemma put_pair_inv:
  assumes inv: "table_inv th" and n: "th_streams th r = Some n" and m: "th_streams th (sn_reverse n) = Some m"
    and s: "same_stream (sn_stream n) s" and t: "same_stream (sn_stream m) t"
  shows "table_inv (put_stream (sn_reverse n) t (put_stream r s th))"
    and "th_streams (put_stream (sn_reverse n) t (put_stream r s th)) =
      (th_streams th)(r \<mapsto> n\<lparr>sn_stream := s\<rparr>, sn_reverse n \<mapsto> m\<lparr>sn_stream := t\<rparr>)"
proof -
  let ?q = "sn_reverse n" and ?th = "put_stream (sn_reverse n) t (put_stream r s th)"
  have "paired th r n" using inv n by (auto simp: table_inv_def)
  then have ne: "?q \<noteq> r" by (simp add: paired_def)
  then show st: "th_streams ?th = (th_streams th)(r \<mapsto> n\<lparr>sn_stream := s\<rparr>, ?q \<mapsto> m\<lparr>sn_stream := t\<rparr>)"
    using n m by (simp add: put_stream_def)
  have f: "th_table ?th = th_table th" "th_sorted ?th = th_sorted th" "th_next_ref ?th = th_next_ref th"
    by (simp_all add: put_stream_def)
  have a: "\<exists>a. th_streams th x = Some a \<and> ts_addr (sn_stream a) = ts_addr (sn_stream b) \<and> sn_reverse a = sn_reverse b \<and>
      sn_udp a = sn_udp b \<and> ts_direction (sn_stream a) = ts_direction (sn_stream b)"
    if "th_streams ?th x = Some b" for x b
    using that n m s t unfolding st by (auto simp: same_stream_def split: if_splits)
  have a': "\<exists>b. th_streams ?th x = Some b \<and> ts_addr (sn_stream a) = ts_addr (sn_stream b) \<and> sn_reverse a = sn_reverse b \<and>
      sn_udp a = sn_udp b \<and> ts_direction (sn_stream a) = ts_direction (sn_stream b)"
    if "th_streams th x = Some a" for x a
    using that n m s t unfolding st by (auto simp: same_stream_def)
  have d: "dom (th_streams ?th) = dom (th_streams th)" using n m unfolding st by auto
  have bk: "(\<exists>b. th_streams ?th x = Some b \<and> mkhash (ts_addr (sn_stream b)) = k) \<longleftrightarrow>
      (\<exists>b. th_streams th x = Some b \<and> mkhash (ts_addr (sn_stream b)) = k)" for x k
    using a a' by metis
  have pr: "x < th_next_ref th \<and> paired ?th x b" if xb: "th_streams ?th x = Some b" for x b
  proof -
    obtain a where a1: "th_streams th x = Some a" "ts_addr (sn_stream a) = ts_addr (sn_stream b)"
      "sn_reverse a = sn_reverse b" "sn_udp a = sn_udp b" "ts_direction (sn_stream a) = ts_direction (sn_stream b)"
      using a[OF xb] by blast
    have p: "x < th_next_ref th" "paired th x a" using inv a1(1) by (auto simp: table_inv_def)
    then obtain c where "th_streams th (sn_reverse a) = Some c" "sn_reverse c = x"
      "ts_addr (sn_stream c) = swap_tuple (ts_addr (sn_stream a))" "sn_udp c = sn_udp a"
      "ts_direction (sn_stream a) \<in> {TCP_FORWARD, TCP_REVERSE}"
      "ts_direction (sn_stream c) = 1 - ts_direction (sn_stream a)" by (auto simp: paired_def)
    then show ?thesis using p a' [of "sn_reverse a" c] a1 unfolding paired_def by metis
  qed
  have "x = y \<or> swap_tuple (ts_addr (sn_stream b)) = ts_addr (sn_stream b)"
    if xb: "th_streams ?th x = Some b" and yc: "th_streams ?th y = Some c"
      and eq: "ts_addr (sn_stream b) = ts_addr (sn_stream c)" for x y b c
  proof -
    obtain b' where b': "th_streams th x = Some b'" "ts_addr (sn_stream b') = ts_addr (sn_stream b)"
      using a[OF xb] by blast
    obtain c' where c': "th_streams th y = Some c'" "ts_addr (sn_stream c') = ts_addr (sn_stream c)"
      using a[OF yc] by blast
    have "\<forall>r n q m. th_streams th r = Some n \<longrightarrow> th_streams th q = Some m \<longrightarrow>
        ts_addr (sn_stream n) = ts_addr (sn_stream m) \<longrightarrow>
        r = q \<or> swap_tuple (ts_addr (sn_stream n)) = ts_addr (sn_stream n)"
      using inv unfolding table_inv_def by blast
    moreover have "ts_addr (sn_stream b') = ts_addr (sn_stream c')" using b'(2) c'(2) eq by simp
    ultimately have "x = y \<or> swap_tuple (ts_addr (sn_stream b')) = ts_addr (sn_stream b')"
      using b'(1) c'(1) by blast
    then show ?thesis using b'(2) by simp
  qed
  then show "table_inv ?th"
    using inv pr d bk unfolding table_inv_def f by simp
qed

lemma put_pair_queued:
  assumes inv: "table_inv th" and n: "th_streams th r = Some n" and m: "th_streams th (sn_reverse n) = Some m"
    and st: "th_streams th' = (th_streams th)(r \<mapsto> n\<lparr>sn_stream := s\<rparr>, sn_reverse n \<mapsto> m\<lparr>sn_stream := t\<rparr>)"
    and t: "ts_queue t = ts_queue (sn_stream m)"
  shows "queued th' = queued th - int (length (ts_queue (sn_stream n))) + int (length (ts_queue s))"
proof -
  have "paired th r n" using inv n by (auto simp: table_inv_def)
  then have ne: "sn_reverse n \<noteq> r" by (simp add: paired_def)
  have d: "dom (th_streams th') = dom (th_streams th)" using n m unfolding st by auto
  have fin: "finite (dom (th_streams th))" by (rule finite_streams[OF inv])
  have s1: "(\<Sum>x\<in>dom (th_streams th) - {r, sn_reverse n}. qlen th' x) =
      (\<Sum>x\<in>dom (th_streams th) - {r, sn_reverse n}. qlen th x)"
    by (rule sum.cong) (auto simp: qlen_def st)
  have "th_streams th' r = Some (n\<lparr>sn_stream := s\<rparr>)" "th_streams th' (sn_reverse n) = Some (m\<lparr>sn_stream := t\<rparr>)"
    using ne by (simp_all add: st)
  from queued_split[OF _ this ne[symmetric]] queued_split[OF fin n m ne[symmetric]] fin d s1 t ne
  show ?thesis by (simp add: qlen_def n m st)
qed

lemma process_stream_spec:
  assumes inv: "table_inv th" and cnt: "counters_exact th w" and n: "th_streams th i = Some n"
    and kind: "pp_kind p = (if sn_udp n then T_UDP else T_TCP)" and sk: "sk_ok (pp_sk p)"
    and b: "w_outstanding w < 2147483647"
  shows "\<exists>th' w'. process_stream p i th w = Some (th', w') \<and> table_inv th' \<and> counters_exact th' w' \<and>
    w_total_streams w' = w_total_streams w \<and> dom (th_streams th') = dom (th_streams th) \<and>
    th_callback th' = th_callback th"
proof -
  have "paired th i n" using inv n by (auto simp: table_inv_def)
  then obtain m where m: "th_streams th (sn_reverse n) = Some m" "sn_reverse n \<noteq> i" by (auto simp: paired_def)
  have q: "queue_ok (sn_stream n)" "queue_ok (sn_stream m)" using cnt n m by (auto simp: counters_exact_def)
  have fin: "finite (dom (th_streams th))" by (rule finite_streams[OF inv])
  have ql: "int (length (ts_queue (sn_stream n))) \<le> w_outstanding w"
    using cnt queued_split[OF fin n m(1) m(2)[symmetric]] rest_nonneg[of th "dom (th_streams th) - {i, sn_reverse n}"]
      qlen_nonneg[of th "sn_reverse n"] n by (simp add: counters_exact_def qlen_def)
  obtain s1 w1 where 1: "establish p (sn_udp n) (sn_stream n) w = Some (s1, w1)" "queue_ok s1"
    "same_stream (sn_stream n) s1" "ts_queue s1 = ts_queue (sn_stream n)" "w_outstanding w1 = w_outstanding w"
    "w_total_streams w1 = w_total_streams w" using establish_spec[OF q(1)] by blast
  have l1: "int (length (ts_queue s1)) \<le> w_outstanding w1" "w_outstanding w1 < 2147483647"
    using ql b 1(4,5) by simp_all
  obtain s2 rt w2 where 2: "stream_add p (sn_udp n) s1 (ts_total_size (sn_stream m)) w1 = Some (s2, rt, w2)"
    "queue_ok s2" "same_stream s1 s2"
    "w_outstanding w2 - int (length (ts_queue s2)) = w_outstanding w1 - int (length (ts_queue s1))"
    "w_outstanding w2 < 2147483648" "w_total_streams w2 = w_total_streams w1"
    using stream_add_spec[OF 1(2) sk l1 kind, of "ts_total_size (sn_stream m)"] by blast
  let ?t = "(sn_stream m)\<lparr>ts_total_size := rt\<rparr>"
  let ?th = "put_stream (sn_reverse n) ?t (put_stream i s2 th)"
  have sm: "same_stream (sn_stream n) s2" "same_stream (sn_stream m) ?t" using 1(3) 2(3) by (auto simp: same_stream_def)
  note pp = put_pair_inv[OF inv n m(1) sm]
  have qd: "queued ?th = queued th - int (length (ts_queue (sn_stream n))) + int (length (ts_queue s2))"
    by (rule put_pair_queued[OF inv n m(1) pp(2)]) simp
  have d: "dom (th_streams ?th) = dom (th_streams th)" using n m unfolding pp(2) by auto
  have "queue_ok (sn_stream x)" if "th_streams ?th a = Some x" for a x
    using that cnt 2(2) q(2) unfolding pp(2) by (auto simp: counters_exact_def queue_ok_def split: if_splits)
  then have "counters_exact ?th w2"
    using cnt qd d 1 2 by (simp add: counters_exact_def)
  then show ?thesis
    using n m 1(1) 2(1,6) 1(6) pp(1) d by (auto simp: process_stream_def put_stream_def)
qed


section \<open>The operations of the table\<close>

lemma find_append: "find P (xs @ ys) = (case find P xs of None \<Rightarrow> find P ys | Some x \<Rightarrow> Some x)"
  by (induction xs) auto

lemma find_stream_spec:
  assumes inv: "table_inv th" and k: "pp_kind p = T_TCP \<or> pp_kind p = T_UDP"
    and f: "TCPHashTable_find_stream th p w = (th', res, w')"
  obtains i n where "res = Some i" "th_streams th' i = Some n" "ts_addr (sn_stream n) = forward_tuple p" "table_inv th'"
    "th_streams th \<subseteq>\<^sub>m th_streams th'" "find_in_bucket th' (forward_tuple p) = Some i"
    "th_callback th' = th_callback th" "w_trace w' = w_trace w"
    "(\<exists>r m. th_streams th r = Some m \<and> ts_addr (sn_stream m) = forward_tuple p) \<and> w' = w \<and> th_streams th' = th_streams th \<or>
     (\<forall>r m. th_streams th r = Some m \<longrightarrow> ts_addr (sn_stream m) \<notin> {forward_tuple p, reverse_tuple p}) \<and>
     (th', i, w') = create_streams th p w"
proof -
  have nr: "find_in_bucket th (reverse_tuple p) = None" if "find_in_bucket th (forward_tuple p) = None"
  proof (rule ccontr)
    assume "\<not> ?thesis"
    then obtain r n where n: "th_streams th r = Some n" "ts_addr (sn_stream n) = reverse_tuple p"
      using find_in_bucket_Some by blast
    obtain m where "th_streams th (reverse_of th r) = Some m" "ts_addr (sn_stream m) = forward_tuple p"
      by (rule reverse_of_stream[OF inv n(1)]) (simp add: n(2))
    then show False using find_in_bucket_None[OF inv that] by blast
  qed
  show ?thesis
  proof (cases "find_in_bucket th (forward_tuple p)")
    case (Some i)
    then have r: "th' = move_to_front (reverse_of th i) (move_to_front i th)" "res = Some i" "w' = w"
      using f k by (auto simp: TCPHashTable_find_stream_def)
    obtain n where n: "th_streams th i = Some n" "ts_addr (sn_stream n) = forward_tuple p"
      using find_in_bucket_Some[OF Some] by blast
    have "has_addr th' (forward_tuple p) = has_addr th (forward_tuple p)" by (rule ext) (simp add: r has_addr_def)
    then have "find_in_bucket th' (forward_tuple p) = Some i"
      using Some by (simp add: r find_in_bucket_def)
    then show ?thesis
      by (intro that[of i n]) (use r n touch_inv[OF inv n(1)] in auto)
  next
    case None
    note nv = nr[OF None]
    obtain th1 i w1 where c: "create_streams th p w = (th1, i, w1)" by (metis prod_cases3)
    then have r: "th' = th1" "res = Some i" "w' = w1"
      using f k None nv by (auto simp: TCPHashTable_find_stream_def)
    note inv1 = create_streams_inv[OF inv c None nv]
    obtain si sj where d: "i = th_next_ref th"
      "th_streams th1 = (th_streams th)(i \<mapsto> \<lparr>sn_stream = si, sn_reverse = Suc i, sn_udp = (pp_kind p = T_UDP)\<rparr>,
        Suc i \<mapsto> \<lparr>sn_stream = sj, sn_reverse = i, sn_udp = (pp_kind p = T_UDP)\<rparr>)"
      "ts_addr si = forward_tuple p" "th_callback th1 = th_callback th" "w_trace w1 = w_trace w"
      "th_table th1 = th_table (bucket_add (mkhash (reverse_tuple p)) (Suc i) (bucket_add (mkhash (forward_tuple p)) i th))"
      by (rule create_streams_fields[OF c])
    have fr: "th_streams th i = None" "th_streams th (Suc i) = None"
      using inv d(1) by (cases "th_streams th i"; cases "th_streams th (Suc i)"; fastforce simp: table_inv_def)+
    have other: "ts_addr (sn_stream m) \<notin> {forward_tuple p, reverse_tuple p}" if "th_streams th x = Some m" for x m
      using find_in_bucket_None[OF inv None that] find_in_bucket_None[OF inv nv that] by simp
    let ?b = "th_table th ! mkhash (forward_tuple p)"
    have len: "length (th_table th) = TCP_STREAM_TABLE_SIZE" using inv by (simp add: table_inv_def)
    have b: "th_table th1 ! mkhash (forward_tuple p) = ?b @ i #
        (if mkhash (forward_tuple p) = mkhash (reverse_tuple p) then [Suc i] else [])"
      using mkhash_less len by (simp add: d(6) bucket_add_nth)
    have "find (has_addr th1 (forward_tuple p)) ?b = None"
    proof -
      have "\<not> has_addr th1 (forward_tuple p) x" if xb: "x \<in> set ?b" for x
      proof -
        obtain m where m: "th_streams th x = Some m" using bucket_stream[OF inv mkhash_less xb] by blast
        then show ?thesis using fr other[OF m] by (auto simp: d(2) has_addr_iff)
      qed
      then show ?thesis by (auto simp: find_None_iff)
    qed
    moreover have "has_addr th1 (forward_tuple p) i" using d(3) by (simp add: d(2) has_addr_iff)
    ultimately have "find_in_bucket th1 (forward_tuple p) = Some i"
      unfolding find_in_bucket_def b by (simp add: find_append)
    then show ?thesis
      by (intro that[of i "\<lparr>sn_stream = si, sn_reverse = Suc i, sn_udp = (pp_kind p = T_UDP)\<rparr>"])
        (use r d fr inv1 other c in \<open>auto simp: map_le_def\<close>)
  qed
qed


lemma find_stream_hit:
  assumes "pp_kind p = T_TCP \<or> pp_kind p = T_UDP" "find_in_bucket th (forward_tuple p) = Some i"
  shows "\<exists>th'. TCPHashTable_find_stream th p w = (th', Some i, w) \<and> th_streams th' = th_streams th"
  using assms by (auto simp: TCPHashTable_find_stream_def)

lemma find_in_bucket_unique:
  assumes inv: "table_inv th" and n: "th_streams th r = Some n" and ne: "swap_tuple (ts_addr (sn_stream n)) \<noteq> ts_addr (sn_stream n)"
  shows "find_in_bucket th (ts_addr (sn_stream n)) = Some r"
proof (cases "find_in_bucket th (ts_addr (sn_stream n))")
  case None
  then show ?thesis using find_in_bucket_None[OF inv None n] by simp
next
  case (Some q)
  then obtain m where m: "th_streams th q = Some m" "ts_addr (sn_stream m) = ts_addr (sn_stream n)"
    using find_in_bucket_Some by blast
  then have "q = r" using inv n ne unfolding table_inv_def by metis
  then show ?thesis using Some by simp
qed

text \<open>New streams for the counters.\<close>

lemma find_stream_counters:
  assumes inv: "table_inv th" and cnt: "counters_exact th w" and k: "pp_kind p = T_TCP \<or> pp_kind p = T_UDP"
    and f: "TCPHashTable_find_stream th p w = (th', res, w')" and cb: "th_callback th"
    and b: "w_total_streams w < 2147483646"
  shows "counters_exact th' w'" "w_outstanding w' = w_outstanding w" "w_total_streams w' \<le> w_total_streams w + 2"
proof -
  obtain i n where h: "table_inv th'"
    "(\<exists>r m. th_streams th r = Some m \<and> ts_addr (sn_stream m) = forward_tuple p) \<and> w' = w \<and> th_streams th' = th_streams th \<or>
     (\<forall>r m. th_streams th r = Some m \<longrightarrow> ts_addr (sn_stream m) \<notin> {forward_tuple p, reverse_tuple p}) \<and>
     (th', i, w') = create_streams th p w"
    by (rule find_stream_spec[OF inv k f]) blast
  have "counters_exact th' w' \<and> w_outstanding w' = w_outstanding w \<and> w_total_streams w' \<le> w_total_streams w + 2"
    using h(2)
  proof
    assume "(\<exists>r m. th_streams th r = Some m \<and> ts_addr (sn_stream m) = forward_tuple p) \<and> w' = w \<and> th_streams th' = th_streams th"
    then show ?thesis using cnt by (simp add: counters_exact_def queued_def qlen_def)
  next
    assume "(\<forall>r m. th_streams th r = Some m \<longrightarrow> ts_addr (sn_stream m) \<notin> {forward_tuple p, reverse_tuple p}) \<and>
      (th', i, w') = create_streams th p w"
    then have c: "create_streams th p w = (th', i, w')" by simp
    obtain si sj where d: "i = th_next_ref th"
      "th_streams th' = (th_streams th)(i \<mapsto> \<lparr>sn_stream = si, sn_reverse = Suc i, sn_udp = (pp_kind p = T_UDP)\<rparr>,
        Suc i \<mapsto> \<lparr>sn_stream = sj, sn_reverse = i, sn_udp = (pp_kind p = T_UDP)\<rparr>)"
      "ts_queue si = []" "ts_queue sj = []" "ts_callback si = th_callback th" "ts_callback sj = th_callback th"
      "w_outstanding w' = w_outstanding w" "w_total_streams w' = s32 (s32 (w_total_streams w + 1) + 1)"
      by (rule create_streams_fields[OF c])
    have fr: "i \<notin> dom (th_streams th)" "Suc i \<notin> dom (th_streams th)"
      using inv d(1) by (fastforce simp: table_inv_def)+
    have fin: "finite (dom (th_streams th))" by (rule finite_streams[OF inv])
    have dom: "dom (th_streams th') = insert i (insert (Suc i) (dom (th_streams th)))" by (auto simp: d(2))
    have card: "card (dom (th_streams th')) = card (dom (th_streams th)) + 2"
      using fin fr by (simp add: dom)
    have "queued th' = qlen th' i + (qlen th' (Suc i) + (\<Sum>x\<in>dom (th_streams th). qlen th' x))"
      unfolding queued_def dom using fin fr by simp
    also have "(\<Sum>x\<in>dom (th_streams th). qlen th' x) = queued th"
      unfolding queued_def by (rule sum.cong) (use fr in \<open>auto simp: qlen_def d(2)\<close>)
    finally have q: "queued th' = queued th" by (simp add: qlen_def d(2-4))
    have t0: "0 \<le> w_total_streams w" using cnt by (simp add: counters_exact_def)
    have t: "w_total_streams w' = w_total_streams w + 2" using t0 b by (simp add: d(8) s32_id)
    have "queue_ok (sn_stream x)" if "th_streams th' a = Some x" for a x
      using that cnt cb d(3-6) by (auto simp: d(2) counters_exact_def queue_ok_def split: if_splits)
    then show ?thesis using cnt b q t card d(7) by (simp add: counters_exact_def)
  qed
  then show "counters_exact th' w'" "w_outstanding w' = w_outstanding w" "w_total_streams w' \<le> w_total_streams w + 2"
    by auto
qed


lemma expire_oldest_spec:
  assumes inv: "table_inv th" and cnt: "counters_exact th w"
  shows "\<exists>th' w'. expire_oldest_stream th w = Some (th', w') \<and> table_inv th' \<and> counters_exact th' w' \<and>
    th_callback th' = th_callback th \<and> w_total_streams w' = w_total_streams w - (if dom (th_streams th) = {} then 0 else 2)"
proof (cases "find (is_forward th) (rev (th_sorted th))")
  case None
  have "dom (th_streams th) = {}"
  proof (rule ccontr)
    assume "dom (th_streams th) \<noteq> {}"
    then obtain r n where n: "th_streams th r = Some n" by (meson domD ex_in_conv)
    then have pr: "paired th r n" using inv by (auto simp: table_inv_def)
    then obtain m where m: "th_streams th (sn_reverse n) = Some m"
      "ts_direction (sn_stream n) = TCP_FORWARD \<or> ts_direction (sn_stream m) = TCP_FORWARD"
      by (auto simp: paired_def TCP_FORWARD_def TCP_REVERSE_def)
    moreover have "set (rev (th_sorted th)) = dom (th_streams th)" using inv by (simp add: table_inv_def)
    ultimately show False using n None by (auto simp: find_None_iff is_forward_iff)
  qed
  then show ?thesis using None inv cnt by (simp add: expire_oldest_stream_def)
next
  case (Some x)
  then have "is_forward th x" by (auto simp: find_Some_iff)
  then obtain n where n: "th_streams th x = Some n" "ts_direction (sn_stream n) = TCP_FORWARD"
    using is_forward_iff by blast
  then have ne: "dom (th_streams th) \<noteq> {}" by auto
  show ?thesis using free_stream_spec[OF inv cnt n] Some ne by (auto simp: expire_oldest_stream_def)
qed

lemma counters_exact_processed [simp]:
  "table_inv (th\<lparr>th_packets_processed := v\<rparr>) = table_inv th"
  "counters_exact (th\<lparr>th_packets_processed := v\<rparr>) w = counters_exact th w"
  by (simp_all add: table_inv_def paired_def counters_exact_def queued_def qlen_def)

lemma process_counters_spec:
  assumes inv: "table_inv th" and cnt: "counters_exact th w" and ne: "dom (th_streams th) \<noteq> {}"
  shows "\<exists>th' w'. process_counters cfg iden th w = Some (th', w') \<and> table_inv th' \<and> counters_exact th' w' \<and>
    th_callback th' = th_callback th \<and> w_total_streams w' \<le> max (max_number_of_streams cfg) (w_total_streams w - 2)"
proof -
  obtain th1 w1 where 1: "(if too_many cfg w then expire_oldest_stream th w else Some (th, w)) = Some (th1, w1)"
    "table_inv th1" "counters_exact th1 w1" "th_callback th1 = th_callback th"
    "w_total_streams w1 \<le> max (max_number_of_streams cfg) (w_total_streams w - 2)"
  proof (cases "too_many cfg w")
    case True
    then show ?thesis using expire_oldest_spec[OF inv cnt] ne that by force
  next
    case False
    then show ?thesis using inv cnt that by (force simp: too_many_def)
  qed
  let ?th = "th1\<lparr>th_packets_processed := s32 (th_packets_processed th1 + 1)\<rparr>"
  have e: "expired cfg iden th r \<Longrightarrow> is_forward th r" for th r by (simp add: expired_def)
  obtain th2 w2 where 2: "check_for_expired_packets cfg iden ?th w1 = Some (th2, w2)" "table_inv th2"
    "counters_exact th2 w2" "w_total_streams w2 \<le> w_total_streams w1" "th_callback th2 = th_callback ?th"
    unfolding check_for_expired_packets_def
    using free_first_of_spec[of "expired cfg iden" ?th w1 "[0..<TCP_STREAM_TABLE_SIZE]", OF e] 1(2,3) by auto
  show ?thesis
    unfolding process_counters_def 1(1) using 1 2 by (auto simp: Let_def)
qed

text \<open>The table at the start.\<close>

lemma TCPHashTable_Con_inv:
  "table_inv (TCPHashTable_Con i cb)" "th_callback (TCPHashTable_Con i cb) = cb" "th_streams (TCPHashTable_Con i cb) = Map.empty"
  "w_outstanding w = 0 \<Longrightarrow> w_total_streams w = 0 \<Longrightarrow> counters_exact (TCPHashTable_Con i cb) w"
  by (simp_all add: TCPHashTable_Con_def table_inv_def counters_exact_def queued_def)

text \<open>A round of frees takes the first forward stream of each bucket it visits, and no other.\<close>

definition forward_in :: "tcp_hash \<Rightarrow> nat \<Rightarrow> nat list" where
  "forward_in th k = filter (is_forward th) (th_table th ! k)"

lemma filter_find: "find P xs = Some x \<Longrightarrow> filter P xs = x # tl (filter P xs)"
  by (induction xs) (auto split: if_splits)

lemma filter_find_None: "find P xs = None \<Longrightarrow> filter P xs = []"
  by (induction xs) (auto split: if_splits)

lemma free_stream_forward_in:
  assumes inv: "table_inv th" and n: "th_streams th i = Some n" "ts_direction (sn_stream n) = TCP_FORWARD"
    and f: "free_stream i th w = Some (th', w')" and k: "k < TCP_STREAM_TABLE_SIZE"
  shows "forward_in th' k = remove1 i (forward_in th k)"
proof -
  have len: "length (th_table th) = TCP_STREAM_TABLE_SIZE" and d: "distinct (th_table th ! k)"
    using inv k by (auto simp: table_inv_def)
  have "paired th i n" using inv n by (auto simp: table_inv_def)
  then obtain m where m: "th_streams th (sn_reverse n) = Some m" "sn_reverse n \<noteq> i"
    "ts_direction (sn_stream m) = TCP_REVERSE" using n(2) by (auto simp: paired_def TCP_FORWARD_def TCP_REVERSE_def)
  have e: "th_streams th' = (th_streams th)(i := None, sn_reverse n := None)"
    "th_table th' ! k = remove1 (sn_reverse n) (remove1 i (th_table th ! k))"
    using f n m(1) k len by (auto simp: free_stream_def unlink_def Let_def split: bind_split_asm)
  have p: "is_forward th' x \<longleftrightarrow> is_forward th x \<and> x \<noteq> i" for x
    using m by (auto simp: is_forward_iff e(1) TCP_FORWARD_def TCP_REVERSE_def)
  have nr: "\<not> is_forward th (sn_reverse n)" using m by (simp add: is_forward_iff TCP_FORWARD_def TCP_REVERSE_def)
  have "forward_in th' k = filter (\<lambda>x. is_forward th x \<and> x \<noteq> i) (th_table th ! k)"
    unfolding forward_in_def e(2) p using d nr
    by (auto simp: distinct_remove1_removeAll removeAll_filter_not_eq intro!: filter_cong)
  also have "\<dots> = remove1 i (forward_in th k)"
    using d by (auto simp: forward_in_def distinct_remove1_removeAll removeAll_filter_not_eq intro!: filter_cong)
  finally show ?thesis .
qed

lemma free_first_of_forward:
  "table_inv th \<Longrightarrow> counters_exact th w \<Longrightarrow> set ks \<subseteq> {..<TCP_STREAM_TABLE_SIZE} \<Longrightarrow> distinct ks \<Longrightarrow>
   free_first_of is_forward ks th w = Some (th', w') \<Longrightarrow> j < TCP_STREAM_TABLE_SIZE \<Longrightarrow>
   forward_in th' j = (if j \<in> set ks then tl (forward_in th j) else forward_in th j)"
proof (induction ks arbitrary: th w)
  case (Cons k ks)
  show ?case
  proof (cases "find (is_forward th) (th_table th ! k)")
    case None
    then have "forward_in th k = []" by (simp add: forward_in_def filter_find_None)
    then show ?thesis using Cons None by auto
  next
    case (Some i)
    then obtain n where n: "th_streams th i = Some n" "ts_direction (sn_stream n) = TCP_FORWARD"
      by (auto simp: find_Some_iff is_forward_iff)
    obtain th1 w1 where f: "free_stream i th w = Some (th1, w1)" "table_inv th1" "counters_exact th1 w1"
      using free_stream_spec[OF Cons.prems(1,2) n] by blast
    have r: "free_first_of is_forward ks th1 w1 = Some (th', w')" using Cons.prems(5) Some f(1) by simp
    have h: "forward_in th k = i # tl (forward_in th k)"
      using filter_find[OF Some] by (simp add: forward_in_def)
    have "i \<notin> set (forward_in th j)" if "j \<noteq> k"
    proof
      assume "i \<in> set (forward_in th j)"
      moreover have "i \<in> set (forward_in th k)" by (subst h) simp
      ultimately have "i \<in> set (th_table th ! j)" "i \<in> set (th_table th ! k)" by (auto simp: forward_in_def)
      then show False
        using bucket_stream[OF Cons.prems(1,6)] bucket_stream[OF Cons.prems(1), of k] Cons.prems(3) n(1) that by fastforce
    qed
    then have "forward_in th1 j = (if j = k then tl (forward_in th k) else forward_in th j)"
      using free_stream_forward_in[OF Cons.prems(1) n f(1) Cons.prems(6)] h by (auto simp: remove1_idem) (metis remove1.simps(2))
    then show ?thesis using Cons.IH[OF f(2,3) _ _ r] Cons.prems(3,4,6) by auto
  qed
qed auto

lemma process_spec:
  assumes "table_inv th" "counters_exact th w" "th_callback th" "sk_ok (pp_sk p)"
    "pp_kind p = T_TCP \<or> pp_kind p = T_UDP"
    "\<forall>r n. th_streams th r = Some n \<longrightarrow> ts_addr (sn_stream n) = forward_tuple p \<longrightarrow> sn_udp n = (pp_kind p = T_UDP)"
    "w_outstanding w < 2147483647" "w_total_streams w < 2147483646"
  shows "\<exists>th' w'. TCPHashTable_process cfg th p w = Some (th', w', 1) \<and> table_inv th' \<and> counters_exact th' w' \<and>
    th_callback th' \<and> w_total_streams w' \<le> max (max_number_of_streams cfg) (w_total_streams w)"
proof -
  obtain th1 res w1 where f: "TCPHashTable_find_stream th p w = (th1, res, w1)" by (metis prod_cases3)
  note c = find_stream_counters[OF assms(1,2,5) f assms(3,8)]
  obtain i n where h: "res = Some i" "th_streams th1 i = Some n" "ts_addr (sn_stream n) = forward_tuple p" "table_inv th1"
    "th_callback th1 = th_callback th"
    "(\<exists>r m. th_streams th r = Some m \<and> ts_addr (sn_stream m) = forward_tuple p) \<and> w1 = w \<and> th_streams th1 = th_streams th \<or>
     (\<forall>r m. th_streams th r = Some m \<longrightarrow> ts_addr (sn_stream m) \<notin> {forward_tuple p, reverse_tuple p}) \<and>
     (th1, i, w1) = create_streams th p w"
    by (rule find_stream_spec[OF assms(1,5) f]) blast
  have "sn_udp n = (pp_kind p = T_UDP)"
  proof -
    from h(6) show ?thesis
    proof
      assume "(\<exists>r m. th_streams th r = Some m \<and> ts_addr (sn_stream m) = forward_tuple p) \<and> w1 = w \<and> th_streams th1 = th_streams th"
      then show ?thesis using assms(6) h(2,3) by simp
    next
      assume "(\<forall>r m. th_streams th r = Some m \<longrightarrow> ts_addr (sn_stream m) \<notin> {forward_tuple p, reverse_tuple p}) \<and>
        (th1, i, w1) = create_streams th p w"
      then have "create_streams th p w = (th1, i, w1)" by simp
      then show ?thesis by (rule create_streams_fields) (use h(2) in auto)
    qed
  qed
  then have kind: "pp_kind p = (if sn_udp n then T_UDP else T_TCP)" using assms(5) by auto
  have b: "w_outstanding w1 < 2147483647" using c(2) assms(7) by simp
  obtain th2 w2 where s: "process_stream p i th1 w1 = Some (th2, w2)" "table_inv th2" "counters_exact th2 w2"
    "w_total_streams w2 = w_total_streams w1" "dom (th_streams th2) = dom (th_streams th1)" "th_callback th2 = th_callback th1"
    using process_stream_spec[OF h(4) c(1) h(2) kind assms(4) b] by blast
  have ne: "dom (th_streams th2) \<noteq> {}" using s(5) h(2) by auto
  obtain th3 w3 where t: "process_counters cfg (sk_id (pp_sk p)) th2 w2 = Some (th3, w3)" "table_inv th3" "counters_exact th3 w3"
    "th_callback th3 = th_callback th2" "w_total_streams w3 \<le> max (max_number_of_streams cfg) (w_total_streams w2 - 2)"
    using process_counters_spec[OF s(2,3) ne] by blast
  have "TCPHashTable_process cfg th p w = Some (th3, w3, 1)"
    using assms(5) f h(1) s(1) t(1) by (auto simp: TCPHashTable_process_def Let_def)
  then show ?thesis using t s(4,6) h(5) assms(3) c(3) by (auto simp: max_def split: if_splits)
qed


section \<open>Properties\<close>

text \<open>C16 (functional). Looking up the stream of a TCP or UDP packet in a well-formed table gives a
  stream with the packet's end points, keeps the table well formed and every stream that was in it, and
  a later packet of the same direction finds the same stream, and one of the other direction its
  reverse.\<close>

theorem TCPHashTable_find_stream_lookup:
  assumes "table_inv th" "pp_kind p = T_TCP \<or> pp_kind p = T_UDP"
    "TCPHashTable_find_stream th p w = (th', res, w')"
  shows "\<exists>i n. res = Some i \<and> th_streams th' i = Some n \<and> ts_addr (sn_stream n) = forward_tuple p \<and>
    table_inv th' \<and> th_streams th \<subseteq>\<^sub>m th_streams th' \<and>
    (\<forall>p2 w2. pp_kind p2 \<in> {T_TCP, T_UDP} \<longrightarrow> forward_tuple p2 = forward_tuple p \<longrightarrow>
       (\<exists>th2. TCPHashTable_find_stream th' p2 w2 = (th2, Some i, w2) \<and> th_streams th2 = th_streams th')) \<and>
    (\<forall>p2 w2. pp_kind p2 \<in> {T_TCP, T_UDP} \<longrightarrow> forward_tuple p2 = reverse_tuple p \<longrightarrow>
       forward_tuple p \<noteq> reverse_tuple p \<longrightarrow>
       (\<exists>th2. TCPHashTable_find_stream th' p2 w2 = (th2, Some (sn_reverse n), w2) \<and> th_streams th2 = th_streams th'))"
proof -
  obtain i n where h: "res = Some i" "th_streams th' i = Some n" "ts_addr (sn_stream n) = forward_tuple p"
    "table_inv th'" "th_streams th \<subseteq>\<^sub>m th_streams th'" "find_in_bucket th' (forward_tuple p) = Some i"
    by (rule find_stream_spec[OF assms]) blast
  obtain m where m: "th_streams th' (sn_reverse n) = Some m" "ts_addr (sn_stream m) = reverse_tuple p"
    using reverse_of_stream[OF h(4,2)] h(3) by (metis swap_tuple(2))
  have "find_in_bucket th' (reverse_tuple p) = Some (sn_reverse n)" if "forward_tuple p \<noteq> reverse_tuple p"
    using find_in_bucket_unique[OF h(4) m(1)] m(2) that by simp
  then show ?thesis
    using h find_stream_hit[of _ th' i] find_stream_hit[of _ th' "sn_reverse n"]
    by (intro exI[of _ i] exI[of _ n]) auto
qed

text \<open>C15 (invariant). Processing a packet whose stream, when there is one, has the packet's protocol
  always ends; the table stays well formed, the global counters stay the number of queued packets and of
  streams, and the number of streams does not grow beyond the configured bound.\<close>

theorem TCPHashTable_process_keeps:
  assumes "table_inv th" "counters_exact th w" "th_callback th" "sk_ok (pp_sk p)"
    "pp_kind p = T_TCP \<or> pp_kind p = T_UDP"
    "\<forall>r n. th_streams th r = Some n \<longrightarrow> ts_addr (sn_stream n) = forward_tuple p \<longrightarrow> sn_udp n = (pp_kind p = T_UDP)"
    "w_outstanding w < 2147483647" "w_total_streams w < 2147483646"
  shows "\<exists>th' w'. TCPHashTable_process cfg th p w = Some (th', w', 1) \<and> table_inv th' \<and> counters_exact th' w' \<and>
    th_callback th' \<and> w_total_streams w' \<le> max (max_number_of_streams cfg) (w_total_streams w)"
  using assms by (rule process_spec)

text \<open>A packet whose end points belong to a stream of the other protocol is handed to a method
  that casts its payload to the wrong struct: the run leaves the memory of the packet.\<close>

theorem TCPHashTable_process_confused:
  assumes "table_inv th" "th_streams th r = Some n" "ts_addr (sn_stream n) = forward_tuple p"
    "forward_tuple p \<noteq> reverse_tuple p" "pp_kind p = (if sn_udp n then T_TCP else T_UDP)"
  shows "TCPHashTable_process cfg th p w = None"
proof -
  have "find_in_bucket th (forward_tuple p) = Some r"
    using find_in_bucket_unique[OF assms(1,2)] assms(3,4) by simp
  then obtain th1 where f: "TCPHashTable_find_stream th p w = (th1, Some r, w)" "th_streams th1 = th_streams th"
    using find_stream_hit[of p th r w] assms(5) by (auto split: if_splits)
  have "process_stream p r th1 w = None"
    using assms(2,5) by (auto simp: process_stream_def f(2) stream_add_def bind_eq_None_conv split: prod.splits)
  then show ?thesis using f assms(5) by (auto simp: TCPHashTable_process_def)
qed

text \<open>Flushing the table frees the first forward stream of every bucket and leaves the others:
  a bucket that holds two connections keeps the second, with its reverse, in a well-formed table.\<close>

theorem TCPHashTable_flush_first_only:
  assumes "table_inv th" "counters_exact th w"
  shows "\<exists>th' w'. TCPHashTable_flush th w = Some (th', w') \<and> table_inv th' \<and> counters_exact th' w' \<and>
    (\<forall>k < TCP_STREAM_TABLE_SIZE. forward_in th' k = tl (forward_in th k))"
proof -
  obtain th' w' where f: "free_first_of is_forward [0..<TCP_STREAM_TABLE_SIZE] th w = Some (th', w')"
    "table_inv th'" "counters_exact th' w'"
    using free_first_of_spec[of is_forward th w "[0..<TCP_STREAM_TABLE_SIZE]"] assms by auto
  have "forward_in th' k = tl (forward_in th k)" if "k < TCP_STREAM_TABLE_SIZE" for k
    using free_first_of_forward[OF assms _ _ f(1) that] that by (auto simp: lessThan_atLeast0)
  then show ?thesis using f by (auto simp: TCPHashTable_flush_def)
qed


section \<open>Concrete runs\<close>

text \<open>An empty table, and a packet from each side of one connection; the packets of a second connection
  fall in the same bucket.\<close>

definition demo_table :: tcp_hash where
  "demo_table = TCPHashTable_Con 0 True"

definition demo_start :: world where
  "demo_start = \<lparr>w_trace = [], w_outstanding = 0, w_total_streams = 0\<rparr>"

definition demo_config :: reassembler_configuration where
  "demo_config = \<lparr>max_packets_expired = 1000, max_number_of_streams = 100, max_outstanding_skbuffs = 100\<rparr>"

definition demo_pkt :: "transport \<Rightarrow> int \<Rightarrow> int \<Rightarrow> int \<Rightarrow> byte list \<Rightarrow> pypacket" where
  "demo_pkt kind saddr daddr seq dat = \<lparr>pp_sk = demo_seg seq dat, pp_kind = kind, pp_saddr = saddr, pp_daddr = daddr,
     pp_source = 1, pp_dest = 1, pp_tcp_flags = 16, pp_udp_length = 8, pp_udp_checksum = 0, pp_udp_data_offset = 0\<rparr>"

lemma demo_table_inv: "table_inv demo_table" "th_callback demo_table" "counters_exact demo_table demo_start"
  "th_streams demo_table = Map.empty"
  by (simp_all add: demo_table_def demo_start_def TCPHashTable_Con_inv)

lemma demo_pkt_fields: "pp_kind (demo_pkt k s d q dat) = k"
  "forward_tuple (demo_pkt k s d q dat) = \<lparr>tu_source = 1, tu_dest = 1, tu_saddr = s, tu_daddr = d\<rparr>"
  "reverse_tuple (demo_pkt k s d q dat) = \<lparr>tu_source = 1, tu_dest = 1, tu_saddr = d, tu_daddr = s\<rparr>"
  by (simp_all add: demo_pkt_def forward_tuple_def reverse_tuple_def)

lemma TCPHashTable_find_stream_lookup_witness:
  "\<exists>th i j w. TCPHashTable_find_stream demo_table (demo_pkt T_TCP 1 2 100 [1]) demo_start = (th, Some i, w) \<and>
     (\<exists>th2. TCPHashTable_find_stream th (demo_pkt T_TCP 1 2 101 [2]) w = (th2, Some i, w)) \<and>
     (\<exists>th2. TCPHashTable_find_stream th (demo_pkt T_TCP 2 1 500 [2]) w = (th2, Some j, w))"
proof -
  obtain th res w where f: "TCPHashTable_find_stream demo_table (demo_pkt T_TCP 1 2 100 [1]) demo_start = (th, res, w)"
    by (metis prod_cases3)
  obtain i and n :: stream_node where h: "res = Some i"
    "\<forall>p2 w2. pp_kind p2 \<in> {T_TCP, T_UDP} \<longrightarrow> forward_tuple p2 = forward_tuple (demo_pkt T_TCP 1 2 100 [1]) \<longrightarrow>
       (\<exists>th2. TCPHashTable_find_stream th p2 w2 = (th2, Some i, w2) \<and> th_streams th2 = th_streams th)"
    "\<forall>p2 w2. pp_kind p2 \<in> {T_TCP, T_UDP} \<longrightarrow> forward_tuple p2 = reverse_tuple (demo_pkt T_TCP 1 2 100 [1]) \<longrightarrow>
       forward_tuple (demo_pkt T_TCP 1 2 100 [1]) \<noteq> reverse_tuple (demo_pkt T_TCP 1 2 100 [1]) \<longrightarrow>
       (\<exists>th2. TCPHashTable_find_stream th p2 w2 = (th2, Some (sn_reverse n), w2) \<and> th_streams th2 = th_streams th)"
    using TCPHashTable_find_stream_lookup[OF demo_table_inv(1) disjI1[OF demo_pkt_fields(1)] f] by blast
  have "\<exists>th2. TCPHashTable_find_stream th (demo_pkt T_TCP 1 2 101 [2]) w = (th2, Some i, w)"
    using h(2)[rule_format, of "demo_pkt T_TCP 1 2 101 [2]" w] by (auto simp: demo_pkt_fields)
  moreover have "\<exists>th2. TCPHashTable_find_stream th (demo_pkt T_TCP 2 1 500 [2]) w = (th2, Some (sn_reverse n), w)"
    using h(3)[rule_format, of "demo_pkt T_TCP 2 1 500 [2]" w] by (auto simp: demo_pkt_fields)
  ultimately show ?thesis using f h(1) by blast
qed

lemma TCPHashTable_process_keeps_witness:
  "\<exists>th w. TCPHashTable_process demo_config demo_table (demo_pkt T_TCP 1 2 100 [1]) demo_start = Some (th, w, 1) \<and>
     counters_exact th w \<and> w_total_streams w \<le> 100"
  using TCPHashTable_process_keeps[OF demo_table_inv(1,3,2), of "demo_pkt T_TCP 1 2 100 [1]" demo_config]
  by (auto simp: demo_table_inv(4) demo_pkt_def demo_seg_def sk_ok_def demo_start_def demo_config_def)

text \<open>A TCP connection, then a datagram with the same end points.\<close>

lemma TCPHashTable_process_confused_witness:
  "\<exists>th w. TCPHashTable_find_stream demo_table (demo_pkt T_TCP 1 2 100 [1]) demo_start = (th, Some 0, w) \<and>
     TCPHashTable_process demo_config th (demo_pkt T_UDP 1 2 0 [1]) w = None"
proof -
  let ?p = "demo_pkt T_TCP 1 2 100 [1]"
  obtain th res w where f: "TCPHashTable_find_stream demo_table ?p demo_start = (th, res, w)"
    by (metis prod_cases3)
  have nf: "find_in_bucket demo_table a = None" for a
    by (simp add: find_in_bucket_def demo_table_def TCPHashTable_Con_def mkhash_less)
  obtain th1 i w1 where c1: "create_streams demo_table ?p demo_start = (th1, i, w1)" by (metis prod_cases3)
  have "i = 0" by (rule create_streams_fields[OF c1]) (simp add: demo_table_def TCPHashTable_Con_def)
  then have c: "create_streams demo_table ?p demo_start = (th, 0, w)" "res = Some 0"
    using f c1 by (simp_all add: TCPHashTable_find_stream_def nf demo_pkt_fields(1))
  have h: "table_inv th" by (rule create_streams_inv[OF demo_table_inv(1) c(1) nf nf])
  obtain n where n: "th_streams th 0 = Some n" "ts_addr (sn_stream n) = forward_tuple ?p" "\<not> sn_udp n"
    by (rule create_streams_fields[OF c(1)]) (auto simp: demo_pkt_fields(1))
  have "TCPHashTable_process demo_config th (demo_pkt T_UDP 1 2 0 [1]) w = None"
    by (rule TCPHashTable_process_confused[OF h n(1)]) (use n in \<open>auto simp: demo_pkt_fields\<close>)
  then show ?thesis using f c(2) by blast
qed

text \<open>Two connections whose four streams share a bucket: after the flush one of them is still there.\<close>

definition demo_two :: "(tcp_hash \<times> world \<times> int) option" where
  "demo_two = do {
     (th, w, _) \<leftarrow> TCPHashTable_process demo_config demo_table (demo_pkt T_TCP 1 4 100 [1]) demo_start;
     TCPHashTable_process demo_config th (demo_pkt T_TCP 2 3 100 [1]) w
   }"

lemma demo_two_run: "case demo_two of None \<Rightarrow> False
    | Some (th, w, _) \<Rightarrow> length (forward_in th 7) = 2 \<and> w_outstanding w < 10 \<and> w_total_streams w < 10"
  by code_simp

lemma demo_two_inv:
  obtains th w where "demo_two = Some (th, w, 1)" "table_inv th" "counters_exact th w" "length (forward_in th 7) = 2"
proof -
  have d: "sk_ok (pp_sk (demo_pkt T_TCP a b c [1]))" "w_outstanding demo_start = 0" "w_total_streams demo_start = 0"
    "max_number_of_streams demo_config = 100" for a b c
    by (simp_all add: demo_pkt_def demo_seg_def sk_ok_def demo_start_def demo_config_def)
  obtain th1 w1 where 1: "TCPHashTable_process demo_config demo_table (demo_pkt T_TCP 1 4 100 [1]) demo_start = Some (th1, w1, 1)"
    "table_inv th1" "counters_exact th1 w1" "th_callback th1"
    "w_total_streams w1 \<le> max (max_number_of_streams demo_config) (w_total_streams demo_start)"
    using process_spec[OF demo_table_inv(1,3,2) d(1), of 1 4 100 demo_config] d(2,3)
    by (auto simp: demo_table_inv(4) demo_pkt_fields(1))
  have run: "case TCPHashTable_process demo_config demo_table (demo_pkt T_TCP 1 4 100 [1]) demo_start of None \<Rightarrow> False
     | Some (th, w, _) \<Rightarrow> w_outstanding w < 10 \<and> \<not> (\<exists>x\<in>set (th_sorted th). case th_streams th x of None \<Rightarrow> False
         | Some n \<Rightarrow> sn_udp n)" by code_simp
  have "set (th_sorted th1) = dom (th_streams th1)" using 1(2) by (simp add: table_inv_def)
  then have u: "\<not> sn_udp n" if "th_streams th1 r = Some n" for r n using run that unfolding 1(1) by force
  obtain th2 w2 where 2: "TCPHashTable_process demo_config th1 (demo_pkt T_TCP 2 3 100 [1]) w1 = Some (th2, w2, 1)"
    "table_inv th2" "counters_exact th2 w2"
    using process_spec[OF 1(2,3,4) d(1), of 2 3 100 demo_config] run 1(5) d(2-4) u
    by (auto simp: 1(1) demo_pkt_fields(1))
  have "demo_two = Some (th2, w2, 1)" by (simp add: demo_two_def 1(1) 2(1))
  moreover have "length (forward_in th2 7) = 2" using demo_two_run unfolding calculation by simp
  ultimately show ?thesis using that 2(2,3) by blast
qed

lemma TCPHashTable_flush_first_only_witness:
  "\<exists>th w th' w'. demo_two = Some (th, w, 1) \<and> TCPHashTable_flush th w = Some (th', w') \<and>
     length (forward_in th' 7) = 1"
proof -
  obtain th w where d: "demo_two = Some (th, w, 1)" "table_inv th" "counters_exact th w" "length (forward_in th 7) = 2"
    by (rule demo_two_inv)
  obtain th' w' where "TCPHashTable_flush th w = Some (th', w')"
    "\<forall>k < TCP_STREAM_TABLE_SIZE. forward_in th' k = tl (forward_in th k)"
    using TCPHashTable_flush_first_only[OF d(2,3)] by blast
  moreover from this(2) have "forward_in th' 7 = tl (forward_in th 7)" by (simp add: TCP_STREAM_TABLE_SIZE_def)
  then have "length (forward_in th' 7) = 1" using d(4) by simp
  ultimately show ?thesis using d(1) by blast
qed

end
