(* ===== verification/Cached_Writer.thy ===== *)
theory Cached_Writer
  imports String_IO
begin

text \<open>
  The two streams of \<open>src/src/lib/stringio.c\<close> that end in a file: \<open>DiskStringIO\<close>, which passes
  reads and seeks on to a descriptor, and \<open>CachedWriter\<close>, which collects appended data in a
  \<open>StringIO\<close> and writes it out when the buffer has more than \<open>MAX_DISK_STREAM_SIZE\<close> bytes and when
  it is destroyed.

  The file system is a record: the contents of the one file that the stream names, the number of
  descriptors that are open, and what the system answers to its n-th call: whether \<open>creat\<close> or
  \<open>open\<close> succeeds, and how many of the bytes a \<open>write\<close> takes.
\<close>

section \<open>The file system\<close>

record disk =
  dk_file :: "byte list option"
  dk_fds :: int
  dk_calls :: nat
  dk_ok :: "nat \<Rightarrow> bool"
  dk_accept :: "nat \<Rightarrow> nat \<Rightarrow> nat"

definition sys_creat :: "disk \<Rightarrow> disk \<times> bool" where
  "sys_creat dk =
     (let n = dk_calls dk; dk = dk\<lparr>dk_calls := Suc n\<rparr>
      in if dk_ok dk n then (dk\<lparr>dk_file := Some [], dk_fds := dk_fds dk + 1\<rparr>, True) else (dk, False))"

text \<open>\<open>open\<close> without \<open>O_CREAT\<close> needs a file that exists.\<close>

definition sys_open_append :: "disk \<Rightarrow> disk \<times> bool" where
  "sys_open_append dk =
     (let n = dk_calls dk; dk = dk\<lparr>dk_calls := Suc n\<rparr>
      in if dk_ok dk n \<and> dk_file dk \<noteq> None then (dk\<lparr>dk_fds := dk_fds dk + 1\<rparr>, True) else (dk, False))"

definition sys_write :: "disk \<Rightarrow> byte list \<Rightarrow> disk" where
  "sys_write dk xs =
     (let n = dk_calls dk; dk = dk\<lparr>dk_calls := Suc n\<rparr>
      in dk\<lparr>dk_file := map_option (\<lambda>f. f @ take (dk_accept dk n (length xs)) xs) (dk_file dk)\<rparr>)"

definition sys_close :: "disk \<Rightarrow> disk" where
  "sys_close dk = dk\<lparr>dk_fds := dk_fds dk - 1\<rparr>"

section \<open>CachedWriter\<close>

definition MAX_DISK_STREAM_SIZE :: int where "MAX_DISK_STREAM_SIZE = 40960"

record cached_writer =
  cw_super :: stringio
  cw_written :: int
  cw_created :: bool
  cw_fd :: int

definition CachedWriter_Con :: "(nat \<Rightarrow> byte) \<Rightarrow> cached_writer" where
  "CachedWriter_Con junk =
     \<lparr>cw_super = StringIO_constructor junk, cw_written = 0, cw_created = False, cw_fd = -1\<rparr>"

text \<open>The answer is whether there is a descriptor; a descriptor that was given is one.\<close>

definition get_working_fd :: "cached_writer \<Rightarrow> disk \<Rightarrow> cached_writer \<times> disk \<times> bool" where
  "get_working_fd this dk =
     (if cw_fd this > 0 then (this, dk, True)
      else if \<not> cw_created this then
        let (dk, ok) = sys_creat dk in (this\<lparr>cw_created := True\<rparr>, dk, ok)
      else let (dk, ok) = sys_open_append dk in (this, dk, ok))"

definition buffer_bytes :: "stringio \<Rightarrow> byte list option" where
  "buffer_bytes s = mem_read (sio_data s) 0 (sio_size s)"

definition CachedWriter_flush :: "cached_writer \<Rightarrow> disk \<Rightarrow> (cached_writer \<times> disk) option" where
  "CachedWriter_flush this dk =
     (if sio_size (cw_super this) = 0 then Some (this, dk)
      else let (this, dk, ok) = get_working_fd this dk
           in if \<not> ok then Some (this, dk)
              else do {
                xs \<leftarrow> buffer_bytes (cw_super this);
                let dk = sys_write dk xs;
                Some (this, if cw_fd this < 0 then sys_close dk else dk)
              })"

definition CachedWriter_write ::
    "cached_writer \<Rightarrow> disk \<Rightarrow> byte list \<Rightarrow> (cached_writer \<times> disk \<times> int) option" where
  "CachedWriter_write this dk data = do {
     (s, written) \<leftarrow> StringIO_write (cw_super this) data;
     let this = this\<lparr>cw_super := s\<rparr>;
     if sio_size s > MAX_DISK_STREAM_SIZE then
       (let (this, dk, ok) = get_working_fd this dk
        in if \<not> ok then Some (this, dk, -1)
           else do {
             xs \<leftarrow> buffer_bytes s;
             let dk = sys_write dk xs;
             let this = this\<lparr>cw_written := s32 (cw_written this + sio_size s)\<rparr>;
             let dk = (if cw_fd this < 0 then sys_close dk else dk);
             Some (this\<lparr>cw_super := StringIO_truncate s 0\<rparr>, dk, written)
           })
     else Some (this, dk, written)
   }"

definition CachedWriter_get_offset :: "cached_writer \<Rightarrow> int" where
  "CachedWriter_get_offset this = s32 (sio_size (cw_super this) + cw_written this)"

section \<open>DiskStringIO\<close>

text \<open>The descriptor: the contents of its file and its position. The base class is not constructed.
  A negative length is a huge one for \<open>read\<close>, which goes over the end of the caller's buffer. Nothing is ever in the write buffer: the class has no
  \<open>write\<close> of its own and its \<open>flush\<close> has no implementation, so that a read with a non-empty
  buffer calls through NULL.\<close>

record disk_stringio =
  ds_super :: stringio
  ds_file :: "byte list"
  ds_pos :: int

definition DiskStringIO_OpenFile :: "(nat \<Rightarrow> byte) \<Rightarrow> byte list option \<Rightarrow> disk_stringio option" where
  "DiskStringIO_OpenFile junk file =
     map_option (\<lambda>f. \<lparr>ds_super = \<lparr>sio_size = 0, sio_readptr = 0, sio_data = [], sio_junk = junk\<rparr>, ds_file = f, ds_pos = 0\<rparr>) file"

definition sys_lseek :: "disk_stringio \<Rightarrow> int \<Rightarrow> int \<Rightarrow> disk_stringio \<times> int" where
  "sys_lseek this offset whence =
     (let p = (if whence = SEEK_SET then offset else if whence = SEEK_CUR then ds_pos this + offset
               else int (length (ds_file this)) + offset)
      in if p < 0 \<or> whence \<notin> {SEEK_SET, SEEK_CUR, SEEK_END} then (this, -1)
         else (this\<lparr>ds_pos := p\<rparr>, p))"

definition sys_read :: "disk_stringio \<Rightarrow> int \<Rightarrow> disk_stringio \<times> byte list" where
  "sys_read this len =
     (let xs = take (nat len) (drop (nat (ds_pos this)) (ds_file this))
      in (this\<lparr>ds_pos := ds_pos this + int (length xs)\<rparr>, xs))"

definition DiskStringIO_read :: "disk_stringio \<Rightarrow> int \<Rightarrow> (disk_stringio \<times> byte list) option" where
  "DiskStringIO_read this len =
     (if sio_size (ds_super this) > 0 \<or> len < 0 then None
      else let (this, _) = sys_lseek this (s64 (sio_readptr (ds_super this))) SEEK_SET;
               (this, xs) = sys_read this len;
               s = ds_super this
           in Some (this\<lparr>ds_super := s\<lparr>sio_readptr := u64 (sio_readptr s + int (length xs))\<rparr>\<rparr>, xs))"

definition DiskStringIO_seek :: "disk_stringio \<Rightarrow> int \<Rightarrow> int \<Rightarrow> disk_stringio \<times> int" where
  "DiskStringIO_seek this offset whence =
     (let (this, p) = sys_lseek this offset whence
      in (this\<lparr>ds_super := (ds_super this)\<lparr>sio_readptr := u64 p\<rparr>\<rparr>, u64 p))"


text \<open>A file that was opened and only read and positioned inside of its contents: the position of the base
  class is the one of the descriptor. It is a source that can be positioned, as a buffer in memory is.\<close>

definition disk_at :: "disk_stringio \<Rightarrow> bool" where
  "disk_at d \<longleftrightarrow> sio_size (ds_super d) = 0 \<and> sio_readptr (ds_super d) = ds_pos d \<and> 0 \<le> ds_pos d \<and>
     ds_pos d \<le> int (length (ds_file d)) \<and> int (length (ds_file d)) < 9223372036854775808"

definition disk_rest :: "disk_stringio \<Rightarrow> byte list" where
  "disk_rest d = drop (nat (ds_pos d)) (ds_file d)"

lemma DiskStringIO_read_rest:
  assumes "disk_at d" and "0 \<le> n"
  shows "\<exists>d'. DiskStringIO_read d n = Some (d', take (nat n) (disk_rest d)) \<and> disk_at d' \<and>
    disk_rest d' = drop (nat n) (disk_rest d) \<and> ds_file d' = ds_file d"
proof -
  let ?xs = "take (nat n) (disk_rest d)"
  define d' where "d' = d\<lparr>ds_pos := ds_pos d + int (length ?xs),
    ds_super := (ds_super d)\<lparr>sio_readptr := ds_pos d + int (length ?xs)\<rparr>\<rparr>"
  have le: "ds_pos d + int (length ?xs) \<le> int (length (ds_file d))"
    using assms by (auto simp: disk_at_def disk_rest_def)
  have "DiskStringIO_read d n = Some (d', ?xs)"
    using assms le
    by (simp add: DiskStringIO_read_def disk_at_def sys_lseek_def sys_read_def Let_def SEEK_SET_def disk_rest_def
        d'_def s64_id u64_id)
  moreover have "disk_at d'" using assms le by (simp add: disk_at_def d'_def)
  moreover have "disk_rest d' = drop (nat n) (disk_rest d)"
    using assms by (auto simp: disk_at_def disk_rest_def d'_def min_def nat_add_distrib add.commute)
  ultimately show ?thesis by (auto simp: d'_def)
qed

interpretation disk_source: seekable_source disk_at disk_rest DiskStringIO_read ds_file
    "\<lambda>d n. Some (fst (DiskStringIO_seek d n SEEK_SET))"
proof unfold_locales
  fix d and n :: int
  assume "disk_at d" "0 \<le> n" "n < 2147483648"
  then show "\<exists>d'. DiskStringIO_read d n = Some (d', take (nat n) (disk_rest d)) \<and> disk_at d' \<and>
      disk_rest d' = drop (nat n) (disk_rest d)"
    using DiskStringIO_read_rest[of d n] by blast
next
  fix d and n :: int
  assume "disk_at d" "0 \<le> n" "n \<le> int (length (ds_file d))"
  then show "\<exists>d'. Some (fst (DiskStringIO_seek d n SEEK_SET)) = Some d' \<and> disk_at d' \<and>
      disk_rest d' = drop (nat n) (ds_file d) \<and> ds_file d' = ds_file d"
    by (simp add: DiskStringIO_seek_def sys_lseek_def SEEK_SET_def disk_at_def disk_rest_def u64_id)
next
  fix d and n :: int and d' xs
  assume "disk_at d" "0 \<le> n" "n < 2147483648" "DiskStringIO_read d n = Some (d', xs)"
  then show "ds_file d' = ds_file d" using DiskStringIO_read_rest[of d n] by auto
qed

section \<open>What the writer stands for\<close>

text \<open>A system where the calls succeed and a write takes all bytes.\<close>

definition disk_good :: "disk \<Rightarrow> bool" where
  "disk_good dk \<longleftrightarrow> (\<forall>n. dk_ok dk n) \<and> (\<forall>n k. k \<le> dk_accept dk n k)"

definition cw_flushed :: "cached_writer \<times> disk \<Rightarrow> byte list" where
  "cw_flushed x = (if cw_created (fst x) then the (dk_file (snd x)) else [])"

definition cw_inv :: "cached_writer \<times> disk \<Rightarrow> bool" where
  "cw_inv x \<longleftrightarrow> sio_at_end (cw_super (fst x)) \<and> sio_size (cw_super (fst x)) \<le> MAX_DISK_STREAM_SIZE \<and>
     (cw_created (fst x) \<longrightarrow> dk_file (snd x) \<noteq> None \<and> cw_flushed x \<noteq> []) \<and> cw_fd (fst x) = -1 \<and> disk_good (snd x) \<and>
     cw_written (fst x) = int (length (cw_flushed x)) \<and> cw_written (fst x) + sio_size (cw_super (fst x)) < 2147483648"

definition cw_bytes :: "cached_writer \<times> disk \<Rightarrow> byte list" where
  "cw_bytes x = cw_flushed x @ sio_contents (cw_super (fst x))"

definition cw_room :: "cached_writer \<times> disk \<Rightarrow> nat" where
  "cw_room x = min (sio_room (cw_super (fst x)))
     (nat (2147483647 - (cw_written (fst x) + sio_size (cw_super (fst x)))))"

definition cw_put :: "cached_writer \<times> disk \<Rightarrow> byte list \<Rightarrow> ((cached_writer \<times> disk) \<times> int) option" where
  "cw_put x data = map_option (\<lambda>(this, dk, n). ((this, dk), n)) (CachedWriter_write (fst x) (snd x) data)"

lemma working_fd_good:
  assumes "cw_inv (this, dk)"
  obtains dk' where "get_working_fd this dk = (this\<lparr>cw_created := True\<rparr>, dk', True)" "disk_good dk'"
    "dk_file dk' = Some (cw_flushed (this, dk))" "dk_fds dk' = dk_fds dk + 1"
proof (cases "cw_created this")
  case True
  then obtain f where "dk_file dk = Some f" using assms by (auto simp: cw_inv_def)
  then show ?thesis using assms True that[of "fst (sys_open_append dk)"]
    by (auto simp: cw_inv_def get_working_fd_def sys_open_append_def disk_good_def cw_flushed_def Let_def)
next
  case False
  then show ?thesis using assms that[of "fst (sys_creat dk)"]
    by (auto simp: cw_inv_def get_working_fd_def sys_creat_def disk_good_def cw_flushed_def Let_def)
qed


lemma buffer_bytes_contents: "sio_inv s \<Longrightarrow> buffer_bytes s = Some (sio_contents s)"
  by (auto simp: buffer_bytes_def mem_read_def sio_contents_def sio_abs_def sio_inv_def)

lemma size_contents: "sio_at_end s \<Longrightarrow> sio_size s = int (length (sio_contents s))"
  using length_sio_contents[of s] by (auto simp: sio_at_end_def sio_contents_def sio_abs_def sio_inv_def)

lemma truncate_all:
  assumes "sio_at_end s"
  shows "sio_at_end (StringIO_truncate s 0)" "sio_contents (StringIO_truncate s 0) = []"
    "sio_size (StringIO_truncate s 0) = 0"
proof -
  have i: "sio_inv s" "0 \<le> sio_size s" "0 \<le> sio_readptr s" using assms by (auto simp: sio_at_end_def sio_inv_def)
  note t = StringIO_truncate_spec[OF i(1) order.refl i(2)]
  show "sio_at_end (StringIO_truncate s 0)" "sio_contents (StringIO_truncate s 0) = []"
    "sio_size (StringIO_truncate s 0) = 0"
    using t i by (simp_all add: sio_at_end_def sio_contents_def)
qed

lemma CachedWriter_put:
  assumes inv: "cw_inv x" and room: "length xs \<le> cw_room x"
  shows "\<exists>x'. cw_put x xs = Some (x', int (length xs)) \<and> cw_inv x' \<and> cw_bytes x' = cw_bytes x @ xs \<and>
    cw_room x \<le> cw_room x' + length xs \<and> dk_fds (snd x') = dk_fds (snd x) \<and>
    (\<not> cw_created (fst x') \<longrightarrow> \<not> cw_created (fst x) \<and> dk_file (snd x') = dk_file (snd x))"
proof -
  obtain this dk where x: "x = (this, dk)" by (rule prod.exhaust)
  let ?s = "cw_super this"
  have i: "sio_at_end ?s" "sio_size ?s \<le> MAX_DISK_STREAM_SIZE" "cw_fd this = -1"
    "cw_written this = int (length (cw_flushed (this, dk)))" "cw_written this + sio_size ?s < 2147483648"
    using inv by (simp_all add: x cw_inv_def)
  have r: "length xs \<le> sio_room ?s" "int (length xs) \<le> 2147483647 - (cw_written this + sio_size ?s)"
    using room i(5) by (auto simp: x cw_room_def)
  obtain s where s: "StringIO_write ?s xs = Some (s, int (length xs))" "sio_at_end s"
    "sio_contents s = sio_contents ?s @ xs" "sio_room ?s \<le> sio_room s + length xs"
    using StringIO_write_append[OF i(1) r(1)] by blast
  have sz: "sio_size s = sio_size ?s + int (length xs)" using size_contents[OF s(2)] size_contents[OF i(1)] s(3) by simp
  let ?t = "this\<lparr>cw_super := s\<rparr>"
  show ?thesis
  proof (cases "sio_size s > MAX_DISK_STREAM_SIZE")
    case False
    have "cw_put x xs = Some ((?t, dk), int (length xs))"
      using False s(1) by (simp add: x cw_put_def CachedWriter_write_def)
    moreover have "cw_inv (?t, dk)" using inv False s(2) r(2) sz by (simp add: x cw_inv_def cw_flushed_def)
    ultimately show ?thesis using s(3,4) sz by (auto simp: x cw_bytes_def cw_flushed_def cw_room_def)
  next
    case True
    have gw: "get_working_fd ?t dk = (fst (get_working_fd this dk)\<lparr>cw_super := s\<rparr>, snd (get_working_fd this dk))"
      by (simp add: get_working_fd_def Let_def split: prod.split)
    obtain dk1 where d: "get_working_fd this dk = (this\<lparr>cw_created := True\<rparr>, dk1, True)" "disk_good dk1"
      "dk_file dk1 = Some (cw_flushed (this, dk))" "dk_fds dk1 = dk_fds dk + 1"
      using inv working_fd_good unfolding x by blast
    let ?dk = "sys_close (sys_write dk1 (sio_contents s))"
    let ?r = "this\<lparr>cw_super := StringIO_truncate s 0, cw_written := cw_written this + sio_size s, cw_created := True\<rparr>"
    have bounds: "0 \<le> cw_written this" "0 \<le> sio_size s" "cw_written this + sio_size s < 2147483648"
      using i(4) r(2) sz size_contents[OF s(2)] by simp_all
    have run: "cw_put x xs = Some ((?r, ?dk), int (length xs))"
      using True s(1,2) i(3) bounds by (simp add: x cw_put_def CachedWriter_write_def gw d(1)
          buffer_bytes_contents sio_at_end_def s32_id)
    have f: "dk_file ?dk = Some (cw_flushed (this, dk) @ sio_contents s)" "disk_good ?dk" "dk_fds ?dk = dk_fds dk"
      using d(2-4) by (auto simp: sys_close_def sys_write_def Let_def disk_good_def)
    have fl: "cw_flushed (?r, ?dk) = cw_flushed (this, dk) @ sio_contents s"
      by (subst cw_flushed_def) (simp add: f(1))
    have "sio_contents s \<noteq> []" using True size_contents[OF s(2)] by (auto simp: MAX_DISK_STREAM_SIZE_def)
    then have "cw_inv (?r, ?dk)"
      using truncate_all[OF s(2)] f fl i(3,4) bounds size_contents[OF s(2)] unfolding cw_inv_def
      by (simp add: MAX_DISK_STREAM_SIZE_def)
    moreover have "cw_bytes (?r, ?dk) = cw_bytes x @ xs"
      using fl truncate_all(2)[OF s(2)] s(3) by (simp add: cw_bytes_def x)
    moreover have "cw_room x \<le> cw_room (?r, ?dk) + length xs"
      using truncate_all(3)[OF s(2)] sz bounds by (auto simp: cw_room_def x sio_room_def)
    ultimately show ?thesis using run f(3) x by auto
  qed
qed

text \<open>The writer is a sink, and no write leaves a descriptor open (\<open>k\<close> is their number) or touches the
  file (\<open>f\<close>, while it is not created).\<close>

definition cw_sink_inv :: "int \<Rightarrow> byte list option \<Rightarrow> cached_writer \<times> disk \<Rightarrow> bool" where
  "cw_sink_inv k f x \<longleftrightarrow> cw_inv x \<and> dk_fds (snd x) = k \<and> (\<not> cw_created (fst x) \<longrightarrow> dk_file (snd x) = f)"

interpretation cw_sink: byte_sink "cw_sink_inv k f" cw_bytes cw_room cw_put for k f
  by unfold_locales (use CachedWriter_put in \<open>fastforce simp: cw_sink_inv_def\<close>)

text \<open>A client that writes chunk after chunk.\<close>

fun CachedWriter_write_all :: "cached_writer \<Rightarrow> disk \<Rightarrow> byte list list \<Rightarrow> (cached_writer \<times> disk) option" where
  "CachedWriter_write_all this dk [] = Some (this, dk)"
| "CachedWriter_write_all this dk (xs # xss) = (case CachedWriter_write this dk xs of
     None \<Rightarrow> None | Some (this', dk', n) \<Rightarrow> CachedWriter_write_all this' dk' xss)"

lemma CachedWriter_write_all_put: "CachedWriter_write_all this dk xss = cw_sink.put_all (this, dk) xss"
  by (induction xss arbitrary: this dk) (auto simp: cw_put_def split: option.split)

lemma CachedWriter_flush_spec:
  assumes inv: "cw_inv (this, dk)"
  shows "\<exists>this' dk'. CachedWriter_flush this dk = Some (this', dk') \<and> dk_fds dk' = dk_fds dk \<and>
    (if cw_bytes (this, dk) = [] \<and> \<not> cw_created this then dk' = dk
     else dk_file dk' = Some (cw_bytes (this, dk)))"
proof -
  let ?s = "cw_super this"
  have i: "sio_at_end ?s" "cw_fd this = -1" using inv by (simp_all add: cw_inv_def)
  show ?thesis
  proof (cases "sio_size ?s = 0")
    case True
    then have "sio_contents ?s = []" using size_contents[OF i(1)] by simp
    then show ?thesis using True inv by (auto simp: CachedWriter_flush_def cw_bytes_def cw_flushed_def cw_inv_def)
  next
    case False
    then have ne: "sio_contents ?s \<noteq> []" using size_contents[OF i(1)] by auto
    obtain dk1 where d: "get_working_fd this dk = (this\<lparr>cw_created := True\<rparr>, dk1, True)" "disk_good dk1"
      "dk_file dk1 = Some (cw_flushed (this, dk))" "dk_fds dk1 = dk_fds dk + 1"
      using inv working_fd_good by blast
    have "CachedWriter_flush this dk =
        Some (this\<lparr>cw_created := True\<rparr>, sys_close (sys_write dk1 (sio_contents ?s)))"
      using False d(1) i by (simp add: CachedWriter_flush_def buffer_bytes_contents sio_at_end_def)
    then show ?thesis using d(2-4) ne
      by (auto simp: sys_close_def sys_write_def Let_def disk_good_def cw_bytes_def)
  qed
qed


lemma CachedWriter_Con_inv:
  assumes "disk_good dk"
  shows "cw_inv (CachedWriter_Con junk, dk)" "cw_bytes (CachedWriter_Con junk, dk) = []"
    "cw_room (CachedWriter_Con junk, dk) = 268435454" "cw_created (CachedWriter_Con junk) = False"
    "sio_at_end (cw_super (CachedWriter_Con junk))" "sio_contents (cw_super (CachedWriter_Con junk)) = []"
    "sio_size (cw_super (CachedWriter_Con junk)) = 0" "cw_fd (CachedWriter_Con junk) = -1"
  using assms by (simp_all add: CachedWriter_Con_def StringIO_constructor_def cw_inv_def cw_bytes_def cw_flushed_def
      cw_room_def sio_at_end_def sio_inv_def sio_contents_def sio_abs_def sio_room_def MAX_TALLOC_SIZE_def
      MAX_DISK_STREAM_SIZE_def)

text \<open>A writer whose file could not be created: \<open>created\<close> is set, and no file is there to open.\<close>

definition cw_orphan :: "cached_writer \<Rightarrow> disk \<Rightarrow> bool" where
  "cw_orphan this dk \<longleftrightarrow> cw_created this \<and> dk_file dk = None \<and> cw_fd this \<le> 0 \<and> sio_at_end (cw_super this)"

lemma cw_orphan_write:
  assumes "cw_orphan this dk" "length xs \<le> sio_room (cw_super this)"
  shows "\<exists>this' dk' n. CachedWriter_write this dk xs = Some (this', dk', n) \<and> cw_orphan this' dk' \<and>
    sio_contents (cw_super this') = sio_contents (cw_super this) @ xs \<and>
    sio_room (cw_super this) \<le> sio_room (cw_super this') + length xs"
proof -
  have "sio_at_end (cw_super this)" using assms(1) by (simp add: cw_orphan_def)
  from StringIO_write_append[OF this assms(2)] obtain s where
    "StringIO_write (cw_super this) xs = Some (s, int (length xs))" "sio_at_end s"
    "sio_contents s = sio_contents (cw_super this) @ xs" "sio_room (cw_super this) \<le> sio_room s + length xs" by blast
  then show ?thesis using assms(1)
    by (auto simp: CachedWriter_write_def cw_orphan_def get_working_fd_def sys_open_append_def Let_def)
qed

lemma cw_orphan_write_all:
  "cw_orphan this dk \<Longrightarrow> length (concat xss) \<le> sio_room (cw_super this) \<Longrightarrow>
   \<exists>this' dk'. CachedWriter_write_all this dk xss = Some (this', dk') \<and> cw_orphan this' dk' \<and>
     sio_contents (cw_super this') = sio_contents (cw_super this) @ concat xss"
proof (induction xss arbitrary: this dk)
  case (Cons xs xss)
  obtain this1 dk1 n where w: "CachedWriter_write this dk xs = Some (this1, dk1, n)" "cw_orphan this1 dk1"
    "sio_contents (cw_super this1) = sio_contents (cw_super this) @ xs"
    "sio_room (cw_super this) \<le> sio_room (cw_super this1) + length xs"
    using cw_orphan_write[OF Cons.prems(1), of xs] Cons.prems(2) by auto
  have "length (concat xss) \<le> sio_room (cw_super this1)" using w(4) Cons.prems(2) by simp
  from Cons.IH[OF w(2) this] w(1,3) show ?case by auto
qed simp

lemma cw_orphan_flush:
  "cw_orphan this dk \<Longrightarrow> \<exists>this' dk'. CachedWriter_flush this dk = Some (this', dk') \<and> dk_file dk' = None"
  by (auto simp: CachedWriter_flush_def cw_orphan_def get_working_fd_def sys_open_append_def Let_def)

section \<open>Properties\<close>

text \<open>C31 (the file holds what was written). Whatever the sizes of the chunks are, after they are written
  and the writer is destroyed the file is exactly the data in their order, in one file that was created
  for it; before that the offset of the writer is the number of bytes written so far. No descriptor
  stays open. When nothing was written no file is created.\<close>

theorem CachedWriter_file:
  assumes "disk_good dk" and "length (concat xss) \<le> 268435454"
  shows "\<exists>this dk1 this2 dk2. CachedWriter_write_all (CachedWriter_Con junk) dk xss = Some (this, dk1) \<and>
    CachedWriter_get_offset this = int (length (concat xss)) \<and>
    CachedWriter_flush this dk1 = Some (this2, dk2) \<and> dk_fds dk1 = dk_fds dk \<and> dk_fds dk2 = dk_fds dk \<and>
    (if concat xss = [] then dk_file dk2 = dk_file dk else dk_file dk2 = Some (concat xss))"
proof -
  note con = CachedWriter_Con_inv[OF assms(1), of junk]
  obtain x where x: "cw_sink.put_all (CachedWriter_Con junk, dk) xss = Some x"
    "cw_sink_inv (dk_fds dk) (dk_file dk) x" "cw_bytes x = concat xss"
    using cw_sink.put_all_concat[of "dk_fds dk" "dk_file dk" "(CachedWriter_Con junk, dk)" xss] con assms(2)
    by (auto simp: cw_sink_inv_def)
  obtain this dk1 where p: "x = (this, dk1)" by (rule prod.exhaust)
  have i: "cw_inv (this, dk1)" "dk_fds dk1 = dk_fds dk" "\<not> cw_created this \<Longrightarrow> dk_file dk1 = dk_file dk"
    using x(2) by (auto simp: p cw_sink_inv_def)
  obtain this2 dk2 where f: "CachedWriter_flush this dk1 = Some (this2, dk2)" "dk_fds dk2 = dk_fds dk1"
    "if cw_bytes (this, dk1) = [] \<and> \<not> cw_created this then dk2 = dk1 else dk_file dk2 = Some (cw_bytes (this, dk1))"
    using CachedWriter_flush_spec[OF i(1)] by blast
  have e: "\<not> cw_created this" if "concat xss = []"
  proof -
    have "cw_flushed (this, dk1) = []" using x(3) unfolding p cw_bytes_def that by simp
    then show ?thesis using i(1) by (auto simp: cw_inv_def)
  qed
  have "CachedWriter_get_offset this = int (length (concat xss))"
    using i(1) size_contents[of "cw_super this"] x(3)
    by (auto simp: p cw_inv_def cw_bytes_def CachedWriter_get_offset_def s32_id simp flip: x(3))
  then show ?thesis
    using x(1,3) p i(2,3) f e by (auto simp: CachedWriter_write_all_put)
qed

text \<open>When \<open>creat\<close> fails the writer still remembers that the file
  was created, and every later attempt opens a file that is not there: although all later calls of the
  system succeed the file never exists, the buffer grows with every write, and its bytes are dropped
  when the writer is destroyed.\<close>

theorem CachedWriter_failed_create:
  assumes "dk_file dk = None" and "\<not> dk_ok dk (dk_calls dk)"
    and "40960 < length xs" and "length (concat (xs # xss)) \<le> 268435454"
  shows "\<exists>this1 dk1 this dk2. CachedWriter_write (CachedWriter_Con junk) dk xs = Some (this1, dk1, -1) \<and>
    CachedWriter_write_all this1 dk1 xss = Some (this, dk2) \<and> dk_file dk2 = None \<and>
    sio_contents (cw_super this) = concat (xs # xss) \<and>
    (\<exists>this' dk'. CachedWriter_flush this dk2 = Some (this', dk') \<and> dk_file dk' = None)"
proof -
  let ?c = "CachedWriter_Con junk"
  note con = CachedWriter_Con_inv[of "dk\<lparr>dk_ok := \<lambda>_. True, dk_accept := \<lambda>_ k. k\<rparr>" junk, simplified disk_good_def, simplified]
  have room: "sio_room (cw_super ?c) = 268435454"
    by (simp add: CachedWriter_Con_def StringIO_constructor_def sio_room_def MAX_TALLOC_SIZE_def)
  obtain s where s: "StringIO_write (cw_super ?c) xs = Some (s, int (length xs))" "sio_at_end s"
    "sio_contents s = xs" "268435454 \<le> sio_room s + length xs"
    using StringIO_write_append[OF con(5), of xs] con(6) room assms(4) by auto
  let ?t = "?c\<lparr>cw_super := s, cw_created := True\<rparr>" and ?dk = "dk\<lparr>dk_calls := Suc (dk_calls dk)\<rparr>"
  have "CachedWriter_write ?c dk xs = Some (?t, ?dk, -1)"
    using s(1) size_contents[OF s(2)] s(3) assms(2,3) con(4,8)
    by (simp add: CachedWriter_write_def MAX_DISK_STREAM_SIZE_def get_working_fd_def sys_creat_def Let_def)
  moreover have "cw_orphan ?t ?dk" using assms(1) s(2) con(8) by (simp add: cw_orphan_def)
  moreover have "length (concat xss) \<le> sio_room (cw_super ?t)" using s(4) assms(4) by simp
  ultimately show ?thesis
    using cw_orphan_write_all[of ?t ?dk xss] cw_orphan_flush s(3) by (fastforce simp: cw_orphan_def)
qed

section \<open>Concrete runs\<close>

definition demo_disk :: disk where
  "demo_disk = \<lparr>dk_file = None, dk_fds = 3, dk_calls = 0, dk_ok = \<lambda>_. True, dk_accept = \<lambda>_ k. k\<rparr>"

lemma CachedWriter_file_witness:
  "\<exists>this dk1 this2 dk2. CachedWriter_write_all (CachedWriter_Con (\<lambda>_. 0)) demo_disk [[1, 2], replicate 50000 7, [3]] = Some (this, dk1) \<and>
     CachedWriter_get_offset this = 50003 \<and> CachedWriter_flush this dk1 = Some (this2, dk2) \<and>
     dk_file dk2 = Some ([1, 2] @ replicate 50000 7 @ [3])"
  using CachedWriter_file[of demo_disk "[[1, 2], replicate 50000 7, [3]]" "\<lambda>_. 0"]
  by (auto simp: demo_disk_def disk_good_def)

lemma CachedWriter_failed_create_witness:
  "\<exists>this1 dk1 this dk2. CachedWriter_write (CachedWriter_Con (\<lambda>_. 0)) (demo_disk\<lparr>dk_ok := \<lambda>n. n > 0\<rparr>) (replicate 50000 7) =
       Some (this1, dk1, -1) \<and>
     CachedWriter_write_all this1 dk1 [[1, 2]] = Some (this, dk2) \<and> dk_file dk2 = None"
  using CachedWriter_failed_create[of "demo_disk\<lparr>dk_ok := \<lambda>n. n > 0\<rparr>" "replicate 50000 7" "[[1, 2]]" "\<lambda>_. 0"]
  by (auto simp: demo_disk_def)

end
