(* ===== verification/PyPCAP.thy ===== *)
theory PyPCAP
  imports Pcap
begin

text \<open>
  The reader of capture files, \<open>src/src/network/pypcap.c\<close>: a Python iterator that keeps a window of the
  file in a \<open>StringIO\<close>, finds the file header in it, and takes one record after the other from
  it, refilling it from a file object. The file object is a parameter: \<open>fd_read\<close> and \<open>fd_seek\<close> are its
  methods, whose value \<open>None\<close> is a Python exception, and the properties hold for every object that
  keeps the contract \<open>seekable_source\<close>.

  A method answers the object as it leaves it, and an exception or its result. The outer \<open>None\<close> is an access
  outside of memory.
\<close>

section \<open>The object\<close>

datatype endianess_output = NO_ENDIANESS_CHANGE | FORCE_BIG_ENDIAN | FORCE_LITTLE_ENDIAN

datatype py_error = KeyError | IOError | StopIteration | FdError

definition FILL_SIZE :: int where "FILL_SIZE = 1024000"

record 'f pypcap =
  py_buffer :: stringio
  py_fd :: 'f
  py_file_header :: packet
  py_packet_header :: "packet option"
  py_dissection_buffer :: stringio
  py_packet_id :: int
  py_pcap_offset :: int
  py_pcap_file_id :: int
  py_output_format :: endianess_output

definition PyPCAP_fill_buffer ::
    "('f \<Rightarrow> int \<Rightarrow> ('f \<times> byte list) option) \<Rightarrow> stringio \<Rightarrow> 'f \<Rightarrow> (stringio \<times> 'f \<times> int) option" where
  "PyPCAP_fill_buffer fd_read buffer fd =
     (case fd_read fd FILL_SIZE of
        None \<Rightarrow> Some (buffer, fd, -1)
      | Some (fd, data) \<Rightarrow> do {
          buffer \<leftarrow> StringIO_skip buffer (s32 (sio_readptr buffer));
          (buffer, _) \<leftarrow> StringIO_seek buffer 0 SEEK_END;
          (buffer, _) \<leftarrow> StringIO_write buffer data;
          (buffer, _) \<leftarrow> StringIO_seek buffer 0 SEEK_SET;
          Some (buffer, fd, s32 (int (length data)))
        })"

text \<open>The search for the magic number reads four bytes at every position of the buffer, the last ones included.\<close>

definition pcap_magic :: "byte list \<Rightarrow> bool" where
  "pcap_magic xs \<longleftrightarrow> le_val xs = 0xD4C3B2A1 \<or> le_val xs = 0xA1B2C3D4"

fun magic_scan :: "byte list \<Rightarrow> nat list \<Rightarrow> nat option option" where
  "magic_scan data [] = Some None"
| "magic_scan data (i # is) = do {
     test \<leftarrow> mem_read data (int i) 4;
     if pcap_magic test then Some (Some i) else magic_scan data is
   }"

text \<open>The number of the file is parsed with eight bytes into a field of four: the field gets its lower half, and the upper half
  goes into the format of the output behind it, where it stays when no format is asked for. The switch over the format takes other values than
  the two that force a byte order for no change.\<close>

definition output_format_of :: "string option \<Rightarrow> int \<Rightarrow> endianess_output option" where
  "output_format_of output file_id =
     (case output of
        None \<Rightarrow> Some (let high = u32 (file_id div 4294967296)
                       in if high = 1 then FORCE_BIG_ENDIAN else if high = 2 then FORCE_LITTLE_ENDIAN else NO_ENDIANESS_CHANGE)
      | Some s \<Rightarrow> if s = ''big'' then Some FORCE_BIG_ENDIAN
                   else if s = ''little'' then Some FORCE_LITTLE_ENDIAN else None)"

definition PyPCAP_init :: "registry \<Rightarrow> (nat \<Rightarrow> byte) \<Rightarrow> ('f \<Rightarrow> int \<Rightarrow> ('f \<times> byte list) option) \<Rightarrow>
    'f \<Rightarrow> string option \<Rightarrow> int \<Rightarrow> (py_error + 'f pypcap) option" where
  "PyPCAP_init reg junk fd_read fd output file_id =
     (case output_format_of output file_id of
        None \<Rightarrow> Some (Inl KeyError)
      | Some fmt \<Rightarrow> do {
          (buffer, fd, len) \<leftarrow> PyPCAP_fill_buffer fd_read (StringIO_constructor junk) fd;
          if len \<le> 0 then Some (Inl IOError)
          else do {
            found \<leftarrow> magic_scan (sio_data buffer) [0..<nat (sio_size buffer)];
            (buffer, _) \<leftarrow> (case found of None \<Rightarrow> Some (buffer, 0)
                           | Some i \<Rightarrow> StringIO_seek buffer (int i) SEEK_SET);
            (hdr, buffer, _) \<leftarrow> PcapFileHeader_Read reg (Packet_Con PcapFileHeader) buffer;
            if get_num hdr ''magic'' \<noteq> 0xA1B2C3D4 then Some (Inl IOError)
            else Some (Inr \<lparr>py_buffer = buffer, py_fd = fd, py_file_header = hdr, py_packet_header = None,
                   py_dissection_buffer = StringIO_constructor junk, py_packet_id = 0,
                   py_pcap_offset = sio_readptr buffer, py_pcap_file_id = u32 file_id, py_output_format = fmt\<rparr>)
          }
        })"

section \<open>Its methods\<close>

definition PyPCAP_file_header :: "'f pypcap \<Rightarrow> 'f pypcap \<times> packet" where
  "PyPCAP_file_header self =
     (let hdr = (case py_output_format self of
                   FORCE_BIG_ENDIAN \<Rightarrow> set_format PCAP_HEADER_STRUCT (py_file_header self)
                 | FORCE_LITTLE_ENDIAN \<Rightarrow> set_format PCAP_HEADER_STRUCT_LE (py_file_header self)
                 | NO_ENDIANESS_CHANGE \<Rightarrow> py_file_header self)
      in (self\<lparr>py_file_header := hdr\<rparr>, hdr))"

definition new_packet_header :: "packet \<Rightarrow> packet" where
  "new_packet_header file_header =
     (if get_num file_header ''little_endian'' \<noteq> 0
      then set_format PCAP_PKTHEADER_STRUCT_LE (Packet_Con PcapPacketHeader) else Packet_Con PcapPacketHeader)"

definition output_record :: "endianess_output \<Rightarrow> packet \<Rightarrow> packet" where
  "output_record fmt hdr =
     (case fmt of
        FORCE_BIG_ENDIAN \<Rightarrow> set_format PCAP_PKTHEADER_STRUCT hdr
      | FORCE_LITTLE_ENDIAN \<Rightarrow> set_format PCAP_PKTHEADER_STRUCT_LE hdr
      | NO_ENDIANESS_CHANGE \<Rightarrow> hdr)"

definition PyPCAP_next :: "registry \<Rightarrow> ('f \<Rightarrow> int \<Rightarrow> ('f \<times> byte list) option) \<Rightarrow> 'f pypcap \<Rightarrow>
    ('f pypcap \<times> (py_error + packet)) option" where
  "PyPCAP_next reg fd_read self = do {
     (buffer, fd, len) \<leftarrow>
       (if u64 (sio_size (py_buffer self) - sio_readptr (py_buffer self)) < MAX_PACKET_SIZE
        then PyPCAP_fill_buffer fd_read (py_buffer self) (py_fd self) else Some (py_buffer self, py_fd self, 0));
     let self = self\<lparr>py_buffer := buffer, py_fd := fd\<rparr>;
     if len < 0 then Some (self, Inl FdError)
     else do {
       let packet_offset = s32 (sio_readptr buffer);
       (hdr, buffer, len) \<leftarrow> PcapPacketHeader_Read reg (new_packet_header (py_file_header self)) buffer;
       let self = self\<lparr>py_buffer := buffer, py_packet_header := Some hdr\<rparr>;
       if len \<le> 0 then Some (self, Inl StopIteration)
       else (let hdr = set_member ''pcap_file_id'' (SInt (py_pcap_file_id self))
                         (set_member ''offset'' (SInt (py_pcap_offset self)) hdr);
                 hdr = output_record (py_output_format self) hdr
             in Some (self\<lparr>py_pcap_offset := u64 (py_pcap_offset self + (sio_readptr buffer - packet_offset)),
                           py_packet_header := Some hdr\<rparr>, Inr hdr))
     }
   }"

definition PyPCAP_seek :: "('f \<Rightarrow> int \<Rightarrow> 'f option) \<Rightarrow> 'f pypcap \<Rightarrow> int \<Rightarrow> 'f pypcap \<times> (py_error + unit)" where
  "PyPCAP_seek fd_seek self offset =
     (let self = self\<lparr>py_buffer := StringIO_truncate (py_buffer self) 0, py_pcap_offset := offset\<rparr>
      in case fd_seek (py_fd self) offset of
           None \<Rightarrow> (self, Inl FdError)
         | Some fd \<Rightarrow> (self\<lparr>py_fd := fd\<rparr>, Inr ()))"

definition PyPCAP_offset :: "'f pypcap \<Rightarrow> int" where
  "PyPCAP_offset self = py_pcap_offset self"

text \<open>Before the first record there is no header to set the number of.\<close>

definition PyPCAP_set_id :: "'f pypcap \<Rightarrow> int \<Rightarrow> 'f pypcap option" where
  "PyPCAP_set_id self iden =
     map_option (\<lambda>hdr. self\<lparr>py_packet_header := Some (set_member ''id'' (SInt (u32 iden)) hdr)\<rparr>)
       (py_packet_header self)"

text \<open>The first 16 bytes of the struct, as they are in the memory of the machine.\<close>

definition header_memory :: "packet \<Rightarrow> byte list" where
  "header_memory hdr =
     concat (map (\<lambda>m. le_bytes 4 (get_num hdr m)) [''ts_sec'', ''ts_usec'', ''caplen'', ''len''])"

definition PyPCAP_dissect :: "registry \<Rightarrow> ('f \<Rightarrow> int \<Rightarrow> ('f \<times> byte list) option) \<Rightarrow> 'f pypcap \<Rightarrow> int \<Rightarrow>
    ('f pypcap \<times> (py_error + packet)) option" where
  "PyPCAP_dissect reg fd_read self packet_id = do {
     let (packet_id, self) =
       (if packet_id < 0 then (py_packet_id self, self\<lparr>py_packet_id := s32 (py_packet_id self + 1)\<rparr>)
        else (packet_id, self));
     (self, r) \<leftarrow> PyPCAP_next reg fd_read self;
     case r of
       Inl e \<Rightarrow> Some (self, Inl e)
     | Inr hdr \<Rightarrow> do {
         let b = StringIO_truncate (py_dissection_buffer self) 0;
         (b, _) \<leftarrow> StringIO_write b (header_memory hdr);
         data \<leftarrow> mem_read (get_block hdr ''data'') 0 (s32 (get_num hdr ''caplen''));
         (b, _) \<leftarrow> StringIO_write b data;
         (b, _) \<leftarrow> StringIO_seek b 16 SEEK_SET;
         let root = set_member ''packet_id'' (SInt packet_id)
           (set_member ''link_type'' (SInt (get_num (py_file_header self) ''linktype'')) (Packet_Con Root));
         (root, b, _) \<leftarrow> Root_Read reg root b;
         let hdr = set_payload root hdr;
         Some (self\<lparr>py_dissection_buffer := b, py_packet_header := Some hdr\<rparr>, Inr hdr)
       }
   }"

text \<open>Iterating, and iterating with dissection: the answers of a number of calls.\<close>

fun PyPCAP_iterate :: "registry \<Rightarrow> ('f \<Rightarrow> int \<Rightarrow> ('f \<times> byte list) option) \<Rightarrow> nat \<Rightarrow> 'f pypcap \<Rightarrow>
    ('f pypcap \<times> (py_error + packet) list) option" where
  "PyPCAP_iterate reg fd_read 0 self = Some (self, [])"
| "PyPCAP_iterate reg fd_read (Suc n) self =
     (case PyPCAP_next reg fd_read self of
        None \<Rightarrow> None
      | Some (self, r) \<Rightarrow> map_option (\<lambda>(self, rs). (self, r # rs)) (PyPCAP_iterate reg fd_read n self))"

section \<open>Filling the buffer\<close>

lemma append_to_rest:
  assumes "sio_inv b" and "sio_size b - sio_readptr b + int (length xs) < 268435454"
  shows "\<exists>b1 b2 b3 b4 n m. StringIO_skip b (s32 (sio_readptr b)) = Some b1 \<and>
    StringIO_seek b1 0 SEEK_END = Some (b2, n) \<and> StringIO_write b2 xs = Some (b3, int (length xs)) \<and>
    StringIO_seek b3 0 SEEK_SET = Some (b4, m) \<and> sio_inv b4 \<and> sio_readptr b4 = 0 \<and> sio_rest b4 = sio_rest b @ xs"
proof -
  note i = sio_invD[OF assms(1)]
  have p: "s32 (sio_readptr b) = sio_readptr b" using i by (simp add: s32_id)
  obtain b1 where b1: "StringIO_skip b (sio_readptr b) = Some b1" "sio_inv b1" "sio_abs b1 = (sio_rest b, 0)"
    using StringIO_skip_spec[OF assms(1), of "sio_readptr b"] i by (auto simp: sio_rest_def f_rest_def sio_abs_def)
  have sz: "sio_size b1 = int (length (sio_rest b))"
    using length_sio_contents[OF b1(2)] b1(3) sio_invD[OF b1(2)] by simp
  define b2 where "b2 = b1\<lparr>sio_readptr := sio_size b1\<rparr>"
  have t: "seek_target (sio_abs b1) 0 SEEK_END = sio_size b1"
    using b1(3) sz by (simp add: seek_target_def SEEK_SET_def SEEK_CUR_def SEEK_END_def)
  have b2: "StringIO_seek b1 0 SEEK_END = Some (b2, sio_size b1)" "sio_inv b2"
    "sio_abs b2 = (sio_rest b, length (sio_rest b))"
    using StringIO_seek_within[OF b1(2) _ _ t] sio_invD[OF b1(2)] b1(3) sz by (simp_all add: b2_def)
  have e: "sio_at_end b2" "sio_contents b2 = sio_rest b" "length xs \<le> sio_room b2"
    using b2 sz assms(2) length_sio_rest[OF assms(1)]
    by (auto simp: sio_at_end_def sio_contents_def sio_room_def MAX_TALLOC_SIZE_def b2_def)
  obtain b3 where b3: "StringIO_write b2 xs = Some (b3, int (length xs))" "sio_at_end b3" "sio_contents b3 = sio_rest b @ xs"
    using StringIO_write_append[OF e(1,3)] e(2) by auto
  have inv3: "sio_inv b3" using b3(2) by (simp add: sio_at_end_def)
  define b4 where "b4 = b3\<lparr>sio_readptr := 0\<rparr>"
  have b4: "StringIO_seek b3 0 SEEK_SET = Some (b4, 0)" "sio_inv b4" "sio_abs b4 = (sio_rest b @ xs, 0)"
    using StringIO_seek_spec[OF inv3, of 0] sio_invD[OF inv3] b3(3) by (simp_all add: b4_def sio_contents_def)
  have "sio_readptr b4 = 0" "sio_rest b4 = sio_rest b @ xs"
    using b4(3) by (simp_all add: b4_def sio_rest_def f_rest_def)
  then show ?thesis using p b1(1) b2(1) b3(1) b4(1,2) by auto
qed

context seekable_source
begin

lemma PyPCAP_fill_appends:
  assumes "sio_inv b" and "sio_size b - sio_readptr b < 65536" and "src_inv fd"
  shows "\<exists>b' fd'. PyPCAP_fill_buffer get b fd = Some (b', fd', int (length (take 1024000 (src_rest fd)))) \<and>
    sio_inv b' \<and> sio_readptr b' = 0 \<and> sio_rest b' = sio_rest b @ take 1024000 (src_rest fd) \<and>
    src_inv fd' \<and> src_rest fd' = drop 1024000 (src_rest fd) \<and> src_all fd' = src_all fd"
proof -
  let ?xs = "take 1024000 (src_rest fd)"
  obtain fd' where fd': "get fd 1024000 = Some (fd', ?xs)" "src_inv fd'" "src_rest fd' = drop 1024000 (src_rest fd)"
    using get_law[OF assms(3), of 1024000] by auto
  have l: "length ?xs \<le> 1024000" by simp
  then have "sio_size b - sio_readptr b + int (length ?xs) < 268435454" using assms(2) by linarith
  then obtain b1 b2 b3 b4 n m where "StringIO_skip b (s32 (sio_readptr b)) = Some b1"
    "StringIO_seek b1 0 SEEK_END = Some (b2, n)" "StringIO_write b2 ?xs = Some (b3, int (length ?xs))"
    "StringIO_seek b3 0 SEEK_SET = Some (b4, m)" "sio_inv b4" "sio_readptr b4 = 0" "sio_rest b4 = sio_rest b @ ?xs"
    using append_to_rest[OF assms(1), of ?xs] by blast
  moreover have "s32 (int (length ?xs)) = int (length ?xs)" using l by (simp add: s32_id del: length_take)
  moreover have "src_all fd' = src_all fd" using get_keeps_all[OF assms(3) _ _ fd'(1)] by simp
  ultimately show ?thesis using fd' by (simp add: PyPCAP_fill_buffer_def FILL_SIZE_def del: length_take)
qed

end

section \<open>The records of a capture file\<close>

record capture_record =
  cr_sec :: int
  cr_usec :: int
  cr_len :: int
  cr_data :: "byte list"

definition cr_caplen :: "capture_record \<Rightarrow> int" where "cr_caplen r = int (length (cr_data r))"

definition record_bytes :: "bool \<Rightarrow> capture_record \<Rightarrow> byte list" where
  "record_bytes le r =
     format_enc (record_codecs le) [SInt (cr_sec r), SInt (cr_usec r), SInt (cr_caplen r), SInt (cr_len r)] @ cr_data r"

definition record_ok :: "capture_record \<Rightarrow> bool" where
  "record_ok r \<longleftrightarrow> 0 \<le> cr_sec r \<and> cr_sec r < 4294967296 \<and> 0 \<le> cr_usec r \<and> cr_usec r < 4294967296 \<and>
     0 \<le> cr_len r \<and> cr_len r < 4294967296 \<and> length (cr_data r) \<le> 0x1FFFF"

definition reads_as :: "packet \<Rightarrow> int \<Rightarrow> capture_record \<Rightarrow> bool" where
  "reads_as q off r \<longleftrightarrow> get_num q ''ts_sec'' = cr_sec r \<and> get_num q ''ts_usec'' = cr_usec r \<and>
     get_num q ''caplen'' = cr_caplen r \<and> get_num q ''len'' = cr_len r \<and> get_block q ''data'' = cr_data r \<and>
     get_num q ''offset'' = off"

lemma length_record_bytes [simp]: "length (record_bytes le r) = 16 + length (cr_data r)"
  by (simp add: record_bytes_def record_codecs_def)

text \<open>A record header is read with what there is of its data: the block of the data is cleared, so that bytes
  that are missing at the end of the buffer are zeros.\<close>

definition record_packet :: "pclass \<Rightarrow> int \<Rightarrow> capture_record \<Rightarrow> byte list \<Rightarrow> int \<Rightarrow> int \<Rightarrow> packet" where
  "record_packet cls st r dat off fid = Packet cls st 16
     [(''ts_sec'', SInt (cr_sec r)), (''ts_usec'', SInt (cr_usec r)), (''caplen'', SInt (cr_caplen r)),
      (''len'', SInt (cr_len r)), (''data'', SStr dat), (''offset'', SInt off), (''pcap_file_id'', SInt fid),
      (''id'', SInt 0)] None"

lemma record_read_part:
  assumes "net_ready reg" and "record_ok r" and "sio_inv inp"
    and "cls = PcapPacketHeader\<lparr>cl_format := record_format le\<rparr>"
    and "sio_rest inp = format_enc (record_codecs le) [SInt (cr_sec r), SInt (cr_usec r), SInt (cr_caplen r), SInt (cr_len r)] @ xs"
  shows "\<exists>inp'. PcapPacketHeader_Read reg (Packet_Con cls) inp =
      Some (record_packet cls (sio_readptr inp) r
        (take (length (cr_data r)) xs @ replicate (length (cr_data r) - length xs) 0) 0 0, inp', 16 + cr_caplen r) \<and>
    sio_inv inp' \<and> sio_rest inp' = drop (length (cr_data r)) xs \<and>
    sio_readptr inp' = sio_readptr inp + 16 + min (cr_caplen r) (int (length xs))"
proof -
  let ?vs = "[SInt (cr_sec r), SInt (cr_usec r), SInt (cr_caplen r), SInt (cr_len r)]" and ?cs = "record_codecs le"
  let ?p = "Packet_Con cls"
  have ok: "0 \<le> cr_sec r" "cr_sec r < 4294967296" "0 \<le> cr_usec r" "cr_usec r < 4294967296" "0 \<le> cr_len r"
    "cr_len r < 4294967296" "0 \<le> cr_caplen r" "cr_caplen r \<le> 0x1FFFF" "length (cr_data r) \<le> 0x1FFFF"
    using assms(2) by (simp_all add: record_ok_def cr_caplen_def)
  have f: "format_codecs reg (cl_format (pk_class ?p)) = Some ?cs"
    using pcap_format_codecs[OF assms(1)] by (simp add: packet_con_fields assms(4))
  have wf: "list_all2 codec_wf ?cs ?vs" using ok by (simp add: record_codecs_def)
  have fit: "members_fit ?cs ?p"
    by (simp add: members_fit_def pcap_codecs_fixed packet_con_fields assms(4) PcapPacketHeader_def)
  obtain inp1 ws where r: "Packet_Read reg ?p inp = Some (Packet cls (sio_readptr inp) 16
      (zip (map fst (pk_struct ?p)) (ws @ map snd (drop 4 (pk_struct ?p)))) None, inp1, 16)"
    "map slot_view ws = map slot_view ?vs" "sio_inv inp1" "sio_rest inp1 = xs" "sio_readptr inp1 = sio_readptr inp + 16"
    by (rule Packet_Read_ok[OF net_entries(7)[OF assms(1)] f pcap_codecs_fixed(2) wf assms(3,5) fit])
      (simp add: packet_con_fields pcap_codecs_fixed)
  obtain inp2 where r2: "StringIO_read inp1 (cr_caplen r) = Some (inp2, take (length (cr_data r)) xs)" "sio_inv inp2"
    "sio_rest inp2 = drop (length (cr_data r)) xs"
    "sio_readptr inp2 = sio_readptr inp1 + min (cr_caplen r) (int (length xs))"
    using StringIO_read_rest[OF r(3), of "cr_caplen r"] ok length_sio_rest[OF r(3)] r(4) by (auto simp: cr_caplen_def)
  have t: "talloc_size (cr_caplen r) = Some (replicate (length (cr_data r)) 0)"
    using ok by (simp add: talloc_size_def MAX_TALLOC_SIZE_def cr_caplen_def)
  have w: "s32 (16 + cr_caplen r) = 16 + cr_caplen r" "\<not> cr_caplen r > 0x1FFFF" using ok by (simp_all add: s32_id)
  have pl: "list_all plain_slot ?vs" by simp
  have d: "read_into (replicate (length (cr_data r)) 0) (take (length (cr_data r)) xs) =
      take (length (cr_data r)) xs @ replicate (length (cr_data r) - length xs) 0"
    by (simp add: read_into_def)
  show ?thesis
    using pcap_fields[OF r(1,2) pl] r2 t w r(5) d
    by (simp add: PcapPacketHeader_Read_def Let_def packet_con_fields assms(4) PcapPacketHeader_def get_num_def
        record_packet_def)
qed

text \<open>At the end of the file there is no header to read.\<close>

lemma record_read_end:
  assumes "net_ready reg" and "sio_inv inp" and "sio_rest inp = []"
    and "cls = PcapPacketHeader\<lparr>cl_format := record_format le\<rparr>"
  shows "\<exists>q inp'. PcapPacketHeader_Read reg (Packet_Con cls) inp = Some (q, inp', -1) \<and> sio_inv inp' \<and> sio_rest inp' = []"
proof -
  have rd: "\<exists>inp1. StringIO_read inp n = Some (inp1, []) \<and> sio_inv inp1 \<and> sio_rest inp1 = []"
    if "0 \<le> n" "n < 2147483648" for n
    using StringIO_read_rest[OF assms(2) that] assms(3) by auto
  obtain inp1 where 1: "StringIO_read inp 4 = Some (inp1, [])" "sio_inv inp1" "sio_rest inp1 = []" using rd[of 4] by auto
  obtain inp2 where 2: "StringIO_read inp1 0 = Some (inp2, [])" "sio_inv inp2" "sio_rest inp2 = []"
    using StringIO_read_rest[OF 1(2), of 0] 1(3) by auto
  have u: "unpack reg (cl_format cls) inp (map snd (cl_members cls)) = Some (reg, inp1, map snd (cl_members cls), -1)"
    using struct_init_again[OF net_entries(7)[OF assms(1)]] net_entries[OF assms(1)] 1(1)
    by (cases le) (simp_all add: unpack_def assms(4) PcapPacketHeader_def record_format_def PCAP_PKTHEADER_STRUCT_def
        PCAP_PKTHEADER_STRUCT_LE_def Int_unpack_def LEInt_unpack_def)
  show ?thesis
    using u 2 by (simp add: PcapPacketHeader_Read_def Packet_Read_def Packet_Con_def members_put_def assms(4)
        PcapPacketHeader_def get_num_def talloc_size_def MAX_TALLOC_SIZE_def s32_id Let_def read_into_def)
qed

section \<open>Taking the next record\<close>

text \<open>The state of the reader between two records: \<open>ys\<close> is what is left of the file, in the buffer and behind
  it, and \<open>off\<close> is the offset that the object counts.\<close>

definition py_at :: "('f \<Rightarrow> bool) \<Rightarrow> ('f \<Rightarrow> byte list) \<Rightarrow> bool \<Rightarrow> byte list \<Rightarrow> int \<Rightarrow> 'f pypcap \<Rightarrow> bool" where
  "py_at I R le ys off self \<longleftrightarrow> sio_inv (py_buffer self) \<and> I (py_fd self) \<and>
     sio_rest (py_buffer self) @ R (py_fd self) = ys \<and>
     (get_num (py_file_header self) ''little_endian'' \<noteq> 0) = le \<and> py_pcap_offset self = off"

lemma new_packet_header_eq:
  "new_packet_header h = Packet_Con (PcapPacketHeader\<lparr>cl_format := record_format (get_num h ''little_endian'' \<noteq> 0)\<rparr>)"
  by (simp add: new_packet_header_def Packet_Con_def record_format_def PcapPacketHeader_def)

lemma output_record_struct [simp]: "pk_struct (output_record fmt h) = pk_struct h"
  by (cases h) (simp add: output_record_def split: endianess_output.split)

lemma reads_as_record:
  "reads_as (output_record fmt (set_member ''pcap_file_id'' (SInt fid) (set_member ''offset'' (SInt off)
     (record_packet cls st r (cr_data r) 0 0)))) off r"
  by (simp add: reads_as_def get_num_def get_block_def record_packet_def)

fun record_offsets :: "int \<Rightarrow> capture_record list \<Rightarrow> int list" where
  "record_offsets off [] = []"
| "record_offsets off (r # rs) = off # record_offsets (off + 16 + cr_caplen r) rs"

context seekable_source
begin

lemma PyPCAP_refill:
  assumes "sio_inv b" and "src_inv fd"
  shows "\<exists>b' fd' n. (if u64 (sio_size b - sio_readptr b) < MAX_PACKET_SIZE
      then PyPCAP_fill_buffer get b fd else Some (b, fd, 0)) = Some (b', fd', n) \<and> 0 \<le> n \<and> sio_inv b' \<and> src_inv fd' \<and>
    sio_rest b' @ src_rest fd' = sio_rest b @ src_rest fd \<and> (65536 \<le> length (sio_rest b') \<or> src_rest fd' = []) \<and>
    src_all fd' = src_all fd"
proof -
  have u: "u64 (sio_size b - sio_readptr b) = sio_size b - sio_readptr b"
    using sio_invD[OF assms(1)] by (simp add: u64_id)
  show ?thesis
  proof (cases "sio_size b - sio_readptr b < 65536")
    case True
    then show ?thesis using PyPCAP_fill_appends[OF assms(1) True assms(2)] u by (auto simp: MAX_PACKET_SIZE_def)
  next
    case False
    then show ?thesis using assms u length_sio_rest[OF assms(1)] by (simp add: MAX_PACKET_SIZE_def)
  qed
qed

lemma PyPCAP_next_record:
  assumes "net_ready reg" and "record_ok r" and "length (cr_data r) \<le> 65520"
    and "py_at src_inv src_rest le (record_bytes le r @ ys) off self"
    and "0 \<le> off" "off + 16 + cr_caplen r < 18446744073709551616"
  shows "\<exists>self' q. PyPCAP_next reg get self = Some (self', Inr q) \<and> reads_as q off r \<and>
    py_at src_inv src_rest le ys (off + 16 + cr_caplen r) self' \<and> src_all (py_fd self') = src_all (py_fd self)"
proof -
  note at = assms(4)[unfolded py_at_def]
  obtain b fd n where f: "(if u64 (sio_size (py_buffer self) - sio_readptr (py_buffer self)) < MAX_PACKET_SIZE
      then PyPCAP_fill_buffer get (py_buffer self) (py_fd self) else Some (py_buffer self, py_fd self, 0)) = Some (b, fd, n)"
    "0 \<le> n" "sio_inv b" "src_inv fd" "sio_rest b @ src_rest fd = record_bytes le r @ ys"
    "65536 \<le> length (sio_rest b) \<or> src_rest fd = []" "src_all fd = src_all (py_fd self)"
    using PyPCAP_refill[of "py_buffer self" "py_fd self"] at by auto
  have "length (record_bytes le r) \<le> length (sio_rest b)"
    using f(6) assms(3) arg_cong[OF f(5), of length] by auto
  moreover define zs where "zs = drop (length (record_bytes le r)) (sio_rest b)"
  ultimately have "take (length (record_bytes le r)) (sio_rest b) = record_bytes le r"
    using arg_cong[OF f(5), of "take (length (record_bytes le r))"] by (simp del: length_record_bytes)
  then have "sio_rest b = record_bytes le r @ zs" unfolding zs_def by (metis append_take_drop_id)
  with f(5) have z: "sio_rest b = record_bytes le r @ zs" "zs @ src_rest fd = ys" by simp_all
  let ?cls = "PcapPacketHeader\<lparr>cl_format := record_format le\<rparr>"
  have h: "new_packet_header (py_file_header self) = Packet_Con ?cls" using at by (simp add: new_packet_header_eq)
  have rb: "sio_rest b = format_enc (record_codecs le) [SInt (cr_sec r), SInt (cr_usec r), SInt (cr_caplen r), SInt (cr_len r)] @ cr_data r @ zs"
    using z(1) by (simp add: record_bytes_def)
  have pos: "0 \<le> cr_caplen r" by (simp add: cr_caplen_def)
  obtain b' where r: "PcapPacketHeader_Read reg (Packet_Con ?cls) b =
      Some (record_packet ?cls (sio_readptr b) r (cr_data r) 0 0, b', 16 + cr_caplen r)"
    "sio_inv b'" "sio_rest b' = zs" "sio_readptr b' = sio_readptr b + 16 + cr_caplen r"
    using record_read_part[OF assms(1,2) f(3) refl rb] by (auto simp: cr_caplen_def)
  have w: "s32 (sio_readptr b) = sio_readptr b" using sio_invD[OF f(3)] by (simp add: s32_id)
  have o: "u64 (off + (sio_readptr b' - sio_readptr b)) = off + 16 + cr_caplen r"
    using assms(5,6) r(4) pos by (simp add: u64_id)
  show ?thesis
    using at f(1-4,7) h r z(2) w o pos reads_as_record
    by (simp add: PyPCAP_next_def Let_def py_at_def)
qed

lemma PyPCAP_next_end:
  assumes "net_ready reg" and "py_at src_inv src_rest le [] off self"
  shows "\<exists>self'. PyPCAP_next reg get self = Some (self', Inl StopIteration) \<and>
    py_at src_inv src_rest le [] off self' \<and> src_all (py_fd self') = src_all (py_fd self)"
proof -
  note at = assms(2)[unfolded py_at_def]
  obtain b fd n where f: "(if u64 (sio_size (py_buffer self) - sio_readptr (py_buffer self)) < MAX_PACKET_SIZE
      then PyPCAP_fill_buffer get (py_buffer self) (py_fd self) else Some (py_buffer self, py_fd self, 0)) = Some (b, fd, n)"
    "0 \<le> n" "sio_inv b" "src_inv fd" "sio_rest b @ src_rest fd = []" "src_all fd = src_all (py_fd self)"
    using PyPCAP_refill[of "py_buffer self" "py_fd self"] at by auto
  let ?cls = "PcapPacketHeader\<lparr>cl_format := record_format le\<rparr>"
  have h: "new_packet_header (py_file_header self) = Packet_Con ?cls" using at by (simp add: new_packet_header_eq)
  obtain q b' where r: "PcapPacketHeader_Read reg (Packet_Con ?cls) b = Some (q, b', -1)" "sio_inv b'" "sio_rest b' = []"
    using record_read_end[OF assms(1) f(3), of ?cls le] f(5) by auto
  show ?thesis using at f h r by (simp add: PyPCAP_next_def Let_def py_at_def)
qed

end

section \<open>Whole files\<close>

definition small_record :: "capture_record \<Rightarrow> bool" where
  "small_record r \<longleftrightarrow> record_ok r \<and> length (cr_data r) \<le> 65520"

definition file_bytes :: "bool \<Rightarrow> capture_record list \<Rightarrow> byte list" where
  "file_bytes le rs = concat (map (record_bytes le) rs)"

lemma file_bytes_simps [simp]:
  "file_bytes le [] = []" "file_bytes le (r # rs) = record_bytes le r @ file_bytes le rs"
  "file_bytes le (rs @ rs') = file_bytes le rs @ file_bytes le rs'"
  by (simp_all add: file_bytes_def)

definition header_values :: "int \<Rightarrow> int \<Rightarrow> int \<Rightarrow> int \<Rightarrow> int \<Rightarrow> int \<Rightarrow> slot list" where
  "header_values major minor zone sigfigs snap link =
     [SInt 0xA1B2C3D4, SShort major, SShort minor, SInt zone, SInt sigfigs, SInt snap, SInt link]"

lemma magic_scan_finds:
  assumes "j \<le> k" "k < n" "k + 4 \<le> length data" and "pcap_magic (take 4 (drop k data))"
    and "\<forall>i. j \<le> i \<and> i < k \<longrightarrow> \<not> pcap_magic (take 4 (drop i data))"
  shows "magic_scan data [j..<n] = Some (Some k)"
  using assms
proof (induction "k - j" arbitrary: j)
  case 0
  then show ?case by (simp add: upt_conv_Cons mem_simps)
next
  case (Suc d)
  then have "magic_scan data [Suc j..<n] = Some (Some k)" by simp
  moreover have "\<not> pcap_magic (take 4 (drop j data))" using Suc.prems(5) Suc.hyps(2) by simp
  ultimately show ?case using Suc.prems Suc.hyps(2) by (simp add: upt_conv_Cons mem_simps)
qed

lemma header_magic:
  "pcap_magic (take 4 (format_enc (file_codecs le) (header_values major minor zone sigfigs snap link)))"
proof -
  have "le_val (le_bytes 4 0xA1B2C3D4) = 0xA1B2C3D4" "le_val (be_bytes 4 0xA1B2C3D4) = 0xD4C3B2A1" by code_simp+
  then show ?thesis by (cases le) (simp_all add: header_values_def file_codecs_def pcap_magic_def)
qed

context seekable_source
begin

lemma PyPCAP_iterate_records:
  assumes "net_ready reg" and "list_all small_record rs"
    and "py_at src_inv src_rest le (file_bytes le rs) off self"
    and "0 \<le> off" "off + int (length (file_bytes le rs)) < 18446744073709551616"
  shows "\<exists>self' qs. PyPCAP_iterate reg get (Suc (length rs)) self = Some (self', map Inr qs @ [Inl StopIteration]) \<and>
    list_all2 (\<lambda>(x, r) q. reads_as q x r) (zip (record_offsets off rs) rs) qs \<and>
    (\<exists>off'. py_at src_inv src_rest le [] off' self') \<and> src_all (py_fd self') = src_all (py_fd self)"
  using assms
proof (induction rs arbitrary: off self)
  case Nil
  then show ?case using PyPCAP_next_end[OF Nil.prems(1), of le off self] by auto
next
  case (Cons r rs)
  have c: "0 \<le> cr_caplen r" "int (length (record_bytes le r)) = 16 + cr_caplen r" by (simp_all add: cr_caplen_def)
  obtain self1 q where 1: "PyPCAP_next reg get self = Some (self1, Inr q)" "reads_as q off r"
    "py_at src_inv src_rest le (file_bytes le rs) (off + 16 + cr_caplen r) self1"
    "src_all (py_fd self1) = src_all (py_fd self)"
    using PyPCAP_next_record[OF Cons.prems(1), of r le "file_bytes le rs" off self] Cons.prems c
    by (auto simp: small_record_def simp del: length_record_bytes)
  have o: "0 \<le> off + 16 + cr_caplen r" "off + 16 + cr_caplen r + int (length (file_bytes le rs)) < 18446744073709551616"
    using Cons.prems(4,5) c by (auto simp del: length_record_bytes)
  obtain self' qs where 2: "PyPCAP_iterate reg get (Suc (length rs)) self1 = Some (self', map Inr qs @ [Inl StopIteration])"
    "list_all2 (\<lambda>(x, r) q. reads_as q x r) (zip (record_offsets (off + 16 + cr_caplen r) rs) rs) qs"
    "\<exists>off'. py_at src_inv src_rest le [] off' self'" "src_all (py_fd self') = src_all (py_fd self1)"
    using Cons.IH[OF Cons.prems(1) _ 1(3) o] Cons.prems(2) by auto
  have "PyPCAP_iterate reg get (Suc (length (r # rs))) self = Some (self', map Inr (q # qs) @ [Inl StopIteration])"
    using 1(1) 2(1) by simp
  then show ?case using 1(2,4) 2(2-4)
    by (intro exI[of _ self'] exI[of _ "q # qs"]) simp
qed

lemma PyPCAP_init_header:
  assumes "net_ready reg" and "src_inv fd" and "output_format_of output fid = Some fmt"
    and "vs = header_values major minor zone sigfigs snap link" and "list_all2 codec_wf (file_codecs le) vs"
    and "src_rest fd = pre @ format_enc (file_codecs le) vs @ ys" and "length pre \<le> 1023976"
    and "\<forall>i<length pre. \<not> pcap_magic (take 4 (drop i (pre @ format_enc (file_codecs le) vs)))"
  shows "\<exists>self. PyPCAP_init reg junk get fd output fid = Some (Inr self) \<and>
    py_at src_inv src_rest le ys (int (length pre) + 24) self \<and> src_all (py_fd self) = src_all fd \<and>
    get_num (py_file_header self) ''linktype'' = link"
proof -
  let ?H = "format_enc (file_codecs le) vs" and ?b0 = "StringIO_constructor junk" and ?k = "length pre"
  have lH: "length ?H = 24"
    using fixed_enc_length format_enc_length[OF pcap_codecs_fixed(1) assms(5)] pcap_codecs_fixed(3) by (cases le) auto
  obtain b fd' where f: "PyPCAP_fill_buffer get ?b0 fd = Some (b, fd', int (length (take 1024000 (src_rest fd))))"
    "sio_inv b" "sio_readptr b = 0" "sio_rest b = take 1024000 (src_rest fd)"
    "src_inv fd'" "src_rest fd' = drop 1024000 (src_rest fd)" "src_all fd' = src_all fd"
    using PyPCAP_fill_appends[of ?b0 fd] assms(2) by (auto simp: sio_rest_def f_rest_def)
  define zs where "zs = take (1024000 - (?k + 24)) ys"
  have r: "sio_rest b = pre @ ?H @ zs" "zs @ src_rest fd' = ys"
    using f(4,6) assms(6,7) lH by (simp_all add: zs_def)
  have d: "take (nat (sio_size b)) (sio_data b) = pre @ ?H @ zs"
    using r(1) f(3) by (simp add: sio_rest_eq)
  have l: "nat (sio_size b) = ?k + 24 + length zs" "nat (sio_size b) \<le> length (sio_data b)"
    using arg_cong[OF d, of length] lH sio_invD[OF f(2)] by simp_all
  have at: "take 4 (drop i (sio_data b)) = take 4 (drop i (pre @ ?H))" if "i \<le> ?k" for i
  proof -
    have "take 4 (drop i (sio_data b)) = take 4 (drop i (take (nat (sio_size b)) (sio_data b)))"
      using that l(1) by (simp add: drop_take min_def)
    also have "\<dots> = take 4 (drop i (pre @ ?H))" unfolding d using that lH by simp
    finally show ?thesis .
  qed
  have scan: "magic_scan (sio_data b) [0..<nat (sio_size b)] = Some (Some ?k)"
  proof (rule magic_scan_finds)
    show "pcap_magic (take 4 (drop ?k (sio_data b)))" using at[of ?k] header_magic by (simp add: assms(4))
    show "\<forall>i. 0 \<le> i \<and> i < ?k \<longrightarrow> \<not> pcap_magic (take 4 (drop i (sio_data b)))" using at assms(8) by simp
  qed (use l in auto)
  define b1 where "b1 = b\<lparr>sio_readptr := int ?k\<rparr>"
  have b1: "StringIO_seek b (int ?k) SEEK_SET = Some (b1, int ?k)" "sio_inv b1" "sio_rest b1 = ?H @ zs"
    "sio_readptr b1 = int ?k"
    using StringIO_seek_spec[OF f(2), of "int ?k"] l d sio_invD[OF f(2)]
    by (auto simp: b1_def sio_rest_def f_rest_def sio_abs_def)
  obtain hdr b2 where h: "PcapFileHeader_Read reg (Packet_Con PcapFileHeader) b1 = Some (hdr, b2, 24)" "sio_inv b2"
    "sio_rest b2 = zs" "get_num hdr ''linktype'' = link" "get_num hdr ''magic'' = 0xA1B2C3D4"
    "get_num hdr ''little_endian'' = (if le then 1 else 0)" "sio_readptr b2 = int ?k + 24"
    using file_header_read[OF assms(1) b1(2) assms(4)[unfolded header_values_def] assms(5) b1(3)] b1(4) by auto
  have n: "0 < length (take 1024000 (src_rest fd))" using assms(6) lH by (cases ?H) auto
  show ?thesis
    using f(1,5,7) n scan b1(1) h r(2) assms(3) by (simp add: PyPCAP_init_def py_at_def)
qed

text \<open>Going back to a record by its offset.\<close>

lemma PyPCAP_seek_record:
  assumes "net_ready reg" and "py_at src_inv src_rest le zs off self" and "small_record r"
    and "src_all (py_fd self) = us @ record_bytes le r @ ys"
    and "int (length us) + 16 + cr_caplen r < 18446744073709551616"
  shows "\<exists>self1 self2 q. PyPCAP_seek seek self (int (length us)) = (self1, Inr ()) \<and>
    PyPCAP_next reg get self1 = Some (self2, Inr q) \<and> reads_as q (int (length us)) r"
proof -
  note at = assms(2)[unfolded py_at_def]
  have inv: "sio_inv (py_buffer self)" "src_inv (py_fd self)" using at by simp_all
  obtain fd where fd: "seek (py_fd self) (int (length us)) = Some fd" "src_inv fd" "src_rest fd = record_bytes le r @ ys"
    using seek_law[OF inv(2), of "int (length us)"] assms(4) by auto
  let ?s1 = "self\<lparr>py_buffer := StringIO_truncate (py_buffer self) 0, py_pcap_offset := int (length us), py_fd := fd\<rparr>"
  have t: "sio_inv (StringIO_truncate (py_buffer self) 0)" "sio_rest (StringIO_truncate (py_buffer self) 0) = []"
    using StringIO_truncate_spec[OF inv(1) order_refl] sio_invD[OF inv(1)] by (simp_all add: sio_rest_def f_rest_def)
  have s: "PyPCAP_seek seek self (int (length us)) = (?s1, Inr ())" using fd(1) by (simp add: PyPCAP_seek_def)
  have "py_at src_inv src_rest le (record_bytes le r @ ys) (int (length us)) ?s1"
    using at t fd(2,3) by (simp add: py_at_def)
  from PyPCAP_next_record[OF assms(1) _ _ this] s assms(3,5) show ?thesis by (auto simp: small_record_def)
qed

end

section \<open>Properties\<close>

lemma record_offsets_nth:
  "k < length rs \<Longrightarrow> record_offsets off rs ! k = off + int (length (file_bytes le (take k rs)))"
  by (induction off rs arbitrary: k rule: record_offsets.induct) (auto simp: less_Suc_eq_0_disj nth_Cons' cr_caplen_def)

text \<open>C3 (reading a capture file). A capture file may have other data in front of it, in which no magic number
  is found. The constructor finds the header in it, in both byte orders, and iterating over the object
  gives the records of the file one after the other, each with its time stamp, its lengths, its bytes
  and its offset in the file, and then stops; the window that is refilled on the way is not seen. With
  each of these offsets \<open>seek\<close> leads back to the record. The file object is any one that
  keeps the contract of a source that can be positioned; the records fit into a packet of the reader.\<close>

theorem PyPCAP_records:
  assumes "net_ready reg" and "seekable_source I R rd A sk" and "I fd" and "R fd = A fd"
    and "output_format_of output fid = Some fmt"
    and "vs = header_values major minor zone sigfigs snap link" and "list_all2 codec_wf (file_codecs le) vs"
    and "A fd = pre @ format_enc (file_codecs le) vs @ file_bytes le rs" and "length pre \<le> 1023976"
    and "\<forall>i<length pre. \<not> pcap_magic (take 4 (drop i (pre @ format_enc (file_codecs le) vs)))"
    and "list_all small_record rs" and "length (A fd) < 2 ^ 63"
  shows "\<exists>self self' qs. PyPCAP_init reg junk rd fd output fid = Some (Inr self) \<and>
    PyPCAP_iterate reg rd (Suc (length rs)) self = Some (self', map Inr qs @ [Inl StopIteration]) \<and>
    list_all2 (\<lambda>(x, r) q. reads_as q x r) (zip (record_offsets (int (length pre) + 24) rs) rs) qs \<and>
    (\<forall>k<length rs. \<exists>s1 s2 q. PyPCAP_seek sk self' (record_offsets (int (length pre) + 24) rs ! k) = (s1, Inr ()) \<and>
       PyPCAP_next reg rd s1 = Some (s2, Inr q) \<and> reads_as q (record_offsets (int (length pre) + 24) rs ! k) (rs ! k))"
proof -
  note S = assms(2) and off = record_offsets_nth[of _ rs "int (length pre) + 24" le]
  let ?H = "format_enc (file_codecs le) vs"
  have lH: "length ?H = 24" using format_enc_length[OF pcap_codecs_fixed(1) assms(7)] pcap_codecs_fixed(3) by simp
  have R: "R fd = pre @ ?H @ file_bytes le rs" using assms(4,8) by simp
  obtain self where 1: "PyPCAP_init reg junk rd fd output fid = Some (Inr self)"
    "py_at I R le (file_bytes le rs) (int (length pre) + 24) self" "A (py_fd self) = A fd"
    using seekable_source.PyPCAP_init_header[OF S assms(1,3,5-7) R assms(9,10)] by blast
  have n: "int (length pre) + 24 + int (length (file_bytes le rs)) < 18446744073709551616"
    using assms(8,12) lH by simp
  obtain self' qs off' where 2: "PyPCAP_iterate reg rd (Suc (length rs)) self = Some (self', map Inr qs @ [Inl StopIteration])"
    "list_all2 (\<lambda>(x, r) q. reads_as q x r) (zip (record_offsets (int (length pre) + 24) rs) rs) qs"
    "py_at I R le [] off' self'" "A (py_fd self') = A (py_fd self)"
    using seekable_source.PyPCAP_iterate_records[OF S assms(1,11) 1(2) _ n] by auto
  have 3: "\<exists>s1 s2 q. PyPCAP_seek sk self' (record_offsets (int (length pre) + 24) rs ! k) = (s1, Inr ()) \<and>
       PyPCAP_next reg rd s1 = Some (s2, Inr q) \<and> reads_as q (record_offsets (int (length pre) + 24) rs ! k) (rs ! k)"
    if k: "k < length rs" for k
  proof -
    let ?us = "pre @ ?H @ file_bytes le (take k rs)"
    have "rs = take k rs @ rs ! k # drop (Suc k) rs" using k by (rule id_take_nth_drop)
    then have f: "file_bytes le rs = file_bytes le (take k rs) @ record_bytes le (rs ! k) @ file_bytes le (drop (Suc k) rs)"
      by (metis file_bytes_simps(2,3))
    have a: "A (py_fd self') = ?us @ record_bytes le (rs ! k) @ file_bytes le (drop (Suc k) rs)"
      using 1(3) 2(4) assms(8) f by simp
    have o: "record_offsets (int (length pre) + 24) rs ! k = int (length ?us)" using off[OF k] lH by simp
    have "int (length ?us) + 16 + cr_caplen (rs ! k) < 18446744073709551616"
      using n f lH by (simp add: cr_caplen_def)
    moreover have "small_record (rs ! k)" using assms(11) k by (simp add: list_all_length)
    ultimately show ?thesis
      using seekable_source.PyPCAP_seek_record[OF S assms(1) 2(3) _ a] unfolding o by blast
  qed
  show ?thesis using 1(1) 2(1,2) 3 by blast
qed

text \<open>The buffer is refilled only when it has less than \<open>MAX_PACKET_SIZE\<close> bytes, and a
  record is accepted up to \<open>0x1FFFF\<close> bytes. A record that is longer than what the buffer has left,
  while that is enough not to refill it, is returned as complete with the rest of its data zeros, and
  without a look at the file; the reader then goes on in the middle of its data.\<close>

theorem PyPCAP_next_cut:
  assumes "net_ready reg" and "record_ok r" and "sio_inv (py_buffer self)"
    and "get_num (py_file_header self) ''little_endian'' = (if le then 1 else 0)"
    and "sio_rest (py_buffer self) @ zs = record_bytes le r" and "65536 \<le> length (sio_rest (py_buffer self))"
  shows "\<exists>self' q. PyPCAP_next reg rd self = Some (self', Inr q) \<and>
    get_num q ''caplen'' = cr_caplen r \<and>
    get_block q ''data'' = take (length (cr_data r) - length zs) (cr_data r) @ replicate (length zs) 0 \<and>
    sio_rest (py_buffer self') = [] \<and> py_fd self' = py_fd self"
proof -
  let ?b = "py_buffer self" and ?cls = "PcapPacketHeader\<lparr>cl_format := record_format le\<rparr>"
  let ?h = "format_enc (record_codecs le) [SInt (cr_sec r), SInt (cr_usec r), SInt (cr_caplen r), SInt (cr_len r)]"
  define xs where "xs = drop 16 (sio_rest ?b)"
  have lh: "length ?h = 16" by (simp add: record_codecs_def)
  have len: "length (sio_rest ?b) + length zs = 16 + length (cr_data r)"
    using arg_cong[OF assms(5), of length] by simp
  have "take 16 (sio_rest ?b) = ?h"
    using arg_cong[OF assms(5), of "take 16"] assms(6) lh by (simp add: record_bytes_def)
  then have rest: "sio_rest ?b = ?h @ xs" unfolding xs_def by (metis append_take_drop_id)
  have xm: "xs @ zs = cr_data r" using assms(5) rest by (simp add: record_bytes_def)
  then have x: "xs = take (length (cr_data r) - length zs) (cr_data r)"
    by (metis add_diff_cancel_right' append_eq_conv_conj length_append)
  have lx: "length xs \<le> length (cr_data r)" "length (cr_data r) - length xs = length zs"
    using arg_cong[OF xm, of length] by auto
  have h: "new_packet_header (py_file_header self) = Packet_Con ?cls"
    using assms(4) by (cases le) (simp_all add: new_packet_header_eq)
  obtain b' where r: "PcapPacketHeader_Read reg (Packet_Con ?cls) ?b =
      Some (record_packet ?cls (sio_readptr ?b) r (xs @ replicate (length zs) 0) 0 0, b', 16 + cr_caplen r)"
    "sio_rest b' = []"
    using record_read_part[OF assms(1,2,3) refl rest] lx by auto
  have "u64 (sio_size ?b - sio_readptr ?b) = sio_size ?b - sio_readptr ?b"
    using sio_invD[OF assms(3)] by (simp add: u64_id)
  then have u: "\<not> u64 (sio_size ?b - sio_readptr ?b) < MAX_PACKET_SIZE"
    using assms(6) length_sio_rest[OF assms(3)] by (simp add: MAX_PACKET_SIZE_def)
  show ?thesis
    using h r u x by (simp add: PyPCAP_next_def Let_def cr_caplen_def get_num_def get_block_def record_packet_def)
qed

text \<open>A large number for the file changes the byte order of the packets.\<close>

theorem PyPCAP_file_id_format:
  assumes "PyPCAP_init reg junk rd fd None 4294967297 = Some (Inr self)"
  shows "py_pcap_file_id self = 1 \<and> py_output_format self = FORCE_BIG_ENDIAN"
  using assms by (auto simp: PyPCAP_init_def output_format_of_def u32_def split: Option.bind_splits prod.splits if_splits option.splits)

section \<open>The properties on concrete inputs\<close>

definition demo_records :: "capture_record list" where
  "demo_records = [\<lparr>cr_sec = 1, cr_usec = 2, cr_len = 60, cr_data = [7, 8, 9]\<rparr>,
     \<lparr>cr_sec = 3, cr_usec = 4, cr_len = 0, cr_data = []\<rparr>]"

lemma PyPCAP_records_witness:
  "\<exists>self self' qs. PyPCAP_init demo_registry (\<lambda>_. 0) StringIO_read
       (demo_buffer ([5] @ format_enc (file_codecs True) (header_values 2 4 0 0 65535 1) @ file_bytes True demo_records))
       None 0 = Some (Inr self) \<and>
     PyPCAP_iterate demo_registry StringIO_read 3 self = Some (self', map Inr qs @ [Inl StopIteration]) \<and> length qs = 2"
proof -
  let ?H = "format_enc (file_codecs True) (header_values 2 4 0 0 65535 1)"
  let ?fd = "demo_buffer ([5] @ ?H @ file_bytes True demo_records)"
  have l: "length ([5] @ ?H @ file_bytes True demo_records) = 60"
    by (simp add: header_values_def file_codecs_def demo_records_def)
  have i: "sio_inv ?fd" "sio_rest ?fd = sio_contents ?fd" using l by simp_all
  have w: "list_all2 codec_wf (file_codecs True) (header_values 2 4 0 0 65535 1)"
    by (simp add: header_values_def file_codecs_def)
  have m0: "\<not> pcap_magic (take 4 ([5] @ ?H))" by code_simp
  have m: "\<forall>i<length [5::byte]. \<not> pcap_magic (take 4 (drop i ([5] @ ?H)))"
  proof (intro allI impI)
    fix i assume "i < length [5::byte]"
    then have "i = 0" by simp
    with m0 show "\<not> pcap_magic (take 4 (drop i ([5] @ ?H)))" by (simp only: drop_0 not_False_eq_True)
  qed
  have s: "list_all small_record demo_records" by (simp add: demo_records_def small_record_def record_ok_def)
  have o: "output_format_of None 0 = Some NO_ENDIANESS_CHANGE" by (simp add: output_format_of_def u32_def)
  have c: "sio_contents ?fd = [5] @ ?H @ file_bytes True demo_records" "length [5::byte] \<le> 1023976"
    "length (sio_contents ?fd) < 2 ^ 63" using l by simp_all
  from PyPCAP_records[OF demo_net_ready sio_seekable.seekable_source_axioms i o refl w c(1,2) m s c(3), of "\<lambda>_. 0"]
  obtain self self' qs where "PyPCAP_init demo_registry (\<lambda>_. 0) StringIO_read ?fd None 0 = Some (Inr self)"
    "PyPCAP_iterate demo_registry StringIO_read (Suc (length demo_records)) self = Some (self', map Inr qs @ [Inl StopIteration])"
    "list_all2 (\<lambda>(x, r) q. reads_as q x r) (zip (record_offsets (int (length [5::byte]) + 24) demo_records) demo_records) qs"
    by blast
  moreover have "Suc (length demo_records) = 3"
    "length (zip (record_offsets (int (length [5::byte]) + 24) demo_records) demo_records) = 2"
    by (simp_all add: demo_records_def)
  ultimately show ?thesis by (metis list_all2_lengthD)
qed

lemma PyPCAP_next_cut_witness:
  "\<exists>self q self'. PyPCAP_next demo_registry StringIO_read (self :: stringio pypcap) = Some (self', Inr q) \<and>
    get_num q ''caplen'' = 70000 \<and> get_block q ''data'' = replicate 65520 7 @ replicate 4480 0"
proof -
  let ?r = "\<lparr>cr_sec = 0, cr_usec = 0, cr_len = 70000, cr_data = replicate 70000 7\<rparr>"
  let ?bs = "record_bytes False ?r"
  let ?self = "\<lparr>py_buffer = demo_buffer (take 65536 ?bs), py_fd = demo_buffer [],
    py_file_header = Packet_Con PcapFileHeader, py_packet_header = None, py_dissection_buffer = demo_buffer [],
    py_packet_id = 0, py_pcap_offset = 24, py_pcap_file_id = 0, py_output_format = NO_ENDIANESS_CHANGE\<rparr>"
  have h: "get_num (py_file_header ?self) ''little_endian'' = (if False then 1 else 0)"
    by (simp add: get_num_def Packet_Con_def PcapFileHeader_def)
  have ok: "record_ok ?r" by (simp add: record_ok_def)
  have i: "sio_inv (py_buffer ?self)" "sio_rest (py_buffer ?self) @ drop 65536 ?bs = ?bs"
    "65536 \<le> length (sio_rest (py_buffer ?self))" by simp_all
  have l: "length (drop 65536 ?bs) = 4480" "length (cr_data ?r) - 4480 = 65520" "cr_caplen ?r = 70000"
    "take 65520 (cr_data ?r) = replicate 65520 7" by (simp_all add: cr_caplen_def)
  from PyPCAP_next_cut[OF demo_net_ready ok i(1) h i(2,3), of StringIO_read, unfolded l] show ?thesis by blast
qed

end
