(* ===== verification/Reassembler.thy ===== *)
theory Reassembler
  imports TCP_Hash
begin

text \<open>
  The Python object around the table of streams, \<open>src/src/network/reassembler.c\<close>. Its callback keeps a pair
  of dictionaries for every connection, one for each direction, which refer to each other, and passes the
  events of the streams on to a Python function together with the dictionary of the stream.

  A dictionary is a number, taken in the order of their creation; a stream is its connection number, and the
  stream of the other direction has the neighbouring number, since the table counts from zero and takes two
  at a time. The calls of the Python function are a list; what it does to the dictionaries is its own affair. The
  table does not look at what the callback does, so the events of an operation are handed over
  after it. \<open>None\<close> is an access through NULL.
\<close>

section \<open>The callback\<close>

record py_call =
  pc_name :: string
  pc_packet :: "skbuff option"
  pc_object :: "nat option"

record reassembler =
  re_callback :: bool
  re_hash :: tcp_hash
  re_world :: world
  re_objects :: "int \<Rightarrow> nat option"
  re_next_object :: nat
  re_connection_objects :: int
  re_calls :: "py_call list"

definition reverse_con :: "int \<Rightarrow> int" where
  "reverse_con c = (if even c then c + 1 else c - 1)"

definition python_call :: "string \<Rightarrow> skbuff option \<Rightarrow> nat option \<Rightarrow> reassembler \<Rightarrow> reassembler" where
  "python_call name packet obj r =
     r\<lparr>re_calls := re_calls r @ [\<lparr>pc_name = name, pc_packet = packet, pc_object = obj\<rparr>]\<rparr>"

definition new_objects :: "int \<Rightarrow> reassembler \<Rightarrow> reassembler" where
  "new_objects c r =
     r\<lparr>re_objects := (re_objects r)(c := Some (re_next_object r), reverse_con c := Some (Suc (re_next_object r))),
       re_next_object := re_next_object r + 2, re_connection_objects := re_connection_objects r + 1\<rparr>"

definition callback :: "int \<Rightarrow> tcp_state_t \<Rightarrow> skbuff option \<Rightarrow> reassembler \<Rightarrow> reassembler option" where
  "callback c state dissected r =
     (case state of
        PYTCP_JUST_EST \<Rightarrow>
          (let r = (if re_objects r c = None then new_objects c r else r)
           in Some (if re_callback r \<and> dissected \<noteq> None then python_call ''est'' dissected (re_objects r c) r else r))
      | PYTCP_DATA \<Rightarrow>
          Some (if re_callback r \<and> dissected \<noteq> None \<and> re_objects r c \<noteq> None
                then python_call ''data'' dissected (re_objects r c) r else r)
      | PYTCP_RETRANSMISSION \<Rightarrow>
          Some (if re_callback r \<and> dissected \<noteq> None \<and> re_objects r c \<noteq> None
                then python_call ''retran'' dissected (re_objects r c) r else r)
      | PYTCP_DESTROY \<Rightarrow>
          (let r = (if re_callback r \<and> re_objects r c \<noteq> None then python_call ''destroy'' None (re_objects r c) r else r)
           in if re_objects r c = None then Some r
              else if re_objects r (reverse_con c) = None then None
              else Some (r\<lparr>re_objects := (re_objects r)(c := None, reverse_con c := None),
                           re_connection_objects := re_connection_objects r - 1\<rparr>))
      | PYTCP_NON_TCP \<Rightarrow>
          Some (if re_callback r \<and> dissected \<noteq> None then python_call ''misc'' dissected None r else r)
      | _ \<Rightarrow> Some r)"

fun run_events :: "event list \<Rightarrow> reassembler \<Rightarrow> reassembler option" where
  "run_events [] r = Some r"
| "run_events (e # es) r =
     (case callback (ev_con e) (ev_state e) (ev_packet e) r of None \<Rightarrow> None | Some r \<Rightarrow> run_events es r)"

section \<open>The methods\<close>

text \<open>Without a callback the constructor counts a reference to NULL. The connection number it is given is
  overwritten by zero.\<close>

definition Reassembler_init :: "int \<Rightarrow> bool \<Rightarrow> reassembler option" where
  "Reassembler_init initial_con_id packet_callback =
     (if \<not> packet_callback then None
      else Some \<lparr>re_callback = packet_callback,
             re_hash = (TCPHashTable_Con initial_con_id True)\<lparr>th_con_id := 0\<rparr>,
             re_world = \<lparr>w_trace = [], w_outstanding = 0, w_total_streams = 0\<rparr>,
             re_objects = (\<lambda>_. None), re_next_object = 0, re_connection_objects = 0, re_calls = []\<rparr>)"

definition after_events :: "tcp_hash \<Rightarrow> world \<Rightarrow> reassembler \<Rightarrow> reassembler option" where
  "after_events th w r =
     run_events (drop (length (w_trace (re_world r))) (w_trace w)) (r\<lparr>re_hash := th, re_world := w\<rparr>)"

definition Reassembler_process :: "reassembler_configuration \<Rightarrow> pypacket \<Rightarrow> reassembler \<Rightarrow> reassembler option" where
  "Reassembler_process cfg root r = do {
     (th, w, _) \<leftarrow> TCPHashTable_process cfg (re_hash r) root (re_world r);
     after_events th w r
   }"

definition Reassembler_flush :: "reassembler \<Rightarrow> reassembler option" where
  "Reassembler_flush r = do {
     (th, w) \<leftarrow> TCPHashTable_flush (re_hash r) (re_world r);
     after_events th w r
   }"

text \<open>The states that a program with one reassembler goes through.\<close>

inductive session :: "reassembler_configuration \<Rightarrow> reassembler \<Rightarrow> bool" for cfg where
  session_init: "Reassembler_init con True = Some r \<Longrightarrow> session cfg r"
| session_process: "session cfg r \<Longrightarrow> Reassembler_process cfg p r = Some r' \<Longrightarrow> session cfg r'"
| session_flush: "session cfg r \<Longrightarrow> Reassembler_flush r = Some r' \<Longrightarrow> session cfg r'"

section \<open>The dictionaries\<close>

definition twin :: "nat \<Rightarrow> nat" where
  "twin ob = (if even ob then ob + 1 else ob - 1)"

text \<open>The dictionaries of a pair of streams are twins that no other stream has; a call only has a dictionary
  that was made, a destroyed one is not kept by any stream, and no call follows it.\<close>

definition live :: "reassembler \<Rightarrow> int set" where
  "live r = {c. re_objects r c \<noteq> None}"

definition pairs_ok :: "reassembler \<Rightarrow> bool" where
  "pairs_ok r \<longleftrightarrow> even (re_next_object r) \<and>
     (\<forall>c ob. re_objects r c = Some ob \<longrightarrow> ob < re_next_object r \<and> re_objects r (reverse_con c) = Some (twin ob)) \<and>
     (\<forall>c d ob. re_objects r c = Some ob \<longrightarrow> re_objects r d = Some ob \<longrightarrow> c = d) \<and>
     finite (live r) \<and> int (card (live r)) = 2 * re_connection_objects r"

definition destroyed :: "py_call list \<Rightarrow> nat set" where
  "destroyed cs = {ob. \<exists>k\<in>set cs. pc_name k = ''destroy'' \<and> (pc_object k = Some ob \<or> pc_object k = Some (twin ob))}"

fun calls_ok :: "py_call list \<Rightarrow> bool" where
  "calls_ok [] = True"
| "calls_ok (k # cs) = (calls_ok cs \<and>
     (pc_name k = ''destroy'' \<longrightarrow> (\<exists>ob. pc_object k = Some ob \<and>
        (\<forall>k'\<in>set cs. pc_object k' \<noteq> Some ob \<and> pc_object k' \<noteq> Some (twin ob)))))"

definition re_inv :: "reassembler \<Rightarrow> bool" where
  "re_inv r \<longleftrightarrow> pairs_ok r \<and> calls_ok (re_calls r) \<and>
     (\<forall>k\<in>set (re_calls r). \<forall>ob. pc_object k = Some ob \<longrightarrow> ob < re_next_object r) \<and>
     (\<forall>c ob. re_objects r c = Some ob \<longrightarrow> ob \<notin> destroyed (re_calls r))"

lemma reverse_con [simp]: "reverse_con (reverse_con c) = c" "reverse_con c \<noteq> c" "c \<noteq> reverse_con c"
  by (auto simp: reverse_con_def)

lemma twin [simp]: "twin (twin ob) = ob" "twin ob \<noteq> ob"
  by (auto simp: twin_def elim: oddE)

lemma twin_less: "even n \<Longrightarrow> ob < n \<Longrightarrow> twin ob < n"
  by (auto simp: twin_def elim!: evenE oddE)

lemma calls_ok_snoc:
  "calls_ok (cs @ [k]) \<longleftrightarrow> calls_ok cs \<and> (\<forall>ob. pc_object k = Some ob \<longrightarrow> ob \<notin> destroyed cs) \<and>
     (pc_name k = ''destroy'' \<longrightarrow> pc_object k \<noteq> None)"
  by (induction cs) (auto simp: destroyed_def)

lemma destroyed_snoc: "destroyed (cs @ [k]) = destroyed cs \<union>
    {ob. pc_name k = ''destroy'' \<and> (pc_object k = Some ob \<or> pc_object k = Some (twin ob))}"
  by (auto simp: destroyed_def)

lemma re_inv_other [simp]: "re_inv (r\<lparr>re_hash := th, re_world := w\<rparr>) = re_inv r"
  by (simp add: re_inv_def pairs_ok_def live_def)

lemma python_call_fields [simp]:
  "re_objects (python_call n pk ob r) = re_objects r" "re_next_object (python_call n pk ob r) = re_next_object r"
  "re_connection_objects (python_call n pk ob r) = re_connection_objects r"
  "re_calls (python_call n pk ob r) = re_calls r @ [\<lparr>pc_name = n, pc_packet = pk, pc_object = ob\<rparr>]"
  by (simp_all add: python_call_def)

lemma pairs_ok_python_call [simp]: "pairs_ok (python_call n pk ob r) = pairs_ok r"
  by (simp add: pairs_ok_def live_def)

text \<open>A call with the dictionary of a stream, or with none, that does not destroy it.\<close>

lemma python_call_inv:
  assumes "re_inv r" and "n \<noteq> ''destroy''" and "ob = None \<or> ob = re_objects r c"
  shows "re_inv (python_call n pk ob r)"
proof -
  have "x < re_next_object r" if "re_objects r c = Some x" for x
    using assms(1) that by (auto simp: re_inv_def pairs_ok_def)
  then show ?thesis using assms by (auto simp: re_inv_def calls_ok_snoc destroyed_snoc)
qed

lemma new_objects_fields:
  assumes "pairs_ok r" and "re_objects r c = None"
  shows "live (new_objects c r) = insert c (insert (reverse_con c) (live r))" "re_objects r (reverse_con c) = None"
proof -
  show "re_objects r (reverse_con c) = None"
  proof (cases "re_objects r (reverse_con c)")
    case (Some ob)
    then have "re_objects r (reverse_con (reverse_con c)) = Some (twin ob)" using assms(1) unfolding pairs_ok_def by blast
    then show ?thesis using assms(2) by simp
  qed
  show "live (new_objects c r) = insert c (insert (reverse_con c) (live r))"
    by (auto simp: live_def new_objects_def)
qed

lemma new_objects_pairs:
  assumes p: "pairs_ok r" and c: "re_objects r c = None"
  shows "pairs_ok (new_objects c r)"
proof -
  note f = new_objects_fields[OF assms]
  let ?n = "re_next_object r"
  have b: "ob < ?n" if "re_objects r d = Some ob" for d ob using p that by (auto simp: pairs_ok_def)
  have ev: "even ?n" using p by (simp add: pairs_ok_def)
  have tw: "twin ?n = Suc ?n" "twin (Suc ?n) = ?n" using ev by (simp_all add: twin_def)
  have rv: "reverse_con d = c \<longleftrightarrow> d = reverse_con c" "reverse_con d = reverse_con c \<longleftrightarrow> d = c" for d
    by (metis reverse_con(1))+
  have "c \<notin> live r" "reverse_con c \<notin> live r" using c f(2) by (simp_all add: live_def)
  moreover have "finite (live r)" "int (card (live r)) = 2 * re_connection_objects r" using p by (simp_all add: pairs_ok_def)
  ultimately have "finite (live (new_objects c r))" "int (card (live (new_objects c r))) = 2 * (re_connection_objects r + 1)"
    by (simp_all add: f(1))
  moreover have "ob < ?n + 2 \<and> re_objects (new_objects c r) (reverse_con d) = Some (twin ob)"
    if ob: "re_objects (new_objects c r) d = Some ob" for d ob
  proof (cases "d = c \<or> d = reverse_con c")
    case True
    then show ?thesis using ob tw by (auto simp: new_objects_def)
  next
    case False
    then have "re_objects r d = Some ob" using ob by (simp add: new_objects_def)
    then have "ob < ?n" "re_objects r (reverse_con d) = Some (twin ob)" using p unfolding pairs_ok_def by blast+
    then show ?thesis using False rv by (simp add: new_objects_def)
  qed
  moreover have "d = e"
    if d: "re_objects (new_objects c r) d = Some ob" and e: "re_objects (new_objects c r) e = Some ob" for d e ob
  proof -
    have "d = e" if "re_objects r d = Some ob" "re_objects r e = Some ob" using p that unfolding pairs_ok_def by blast
    then show ?thesis using d e b[of d ob] b[of e ob] by (auto simp: new_objects_def split: if_splits)
  qed
  moreover have "even (?n + 2)" using ev by simp
  moreover have "re_next_object (new_objects c r) = ?n + 2"
    "re_connection_objects (new_objects c r) = re_connection_objects r + 1" by (simp_all add: new_objects_def)
  ultimately show ?thesis unfolding pairs_ok_def by (simp only:) blast
qed

lemma new_objects_inv:
  assumes "re_inv r" and "re_objects r c = None"
  shows "re_inv (new_objects c r)"
proof -
  have "pairs_ok (new_objects c r)" using assms new_objects_pairs by (simp add: re_inv_def)
  moreover have "re_calls (new_objects c r) = re_calls r" "re_next_object (new_objects c r) = re_next_object r + 2"
    by (simp_all add: new_objects_def)
  moreover have "ob \<notin> destroyed (re_calls r)" if ob: "re_objects (new_objects c r) d = Some ob" for d ob
  proof
    assume "ob \<in> destroyed (re_calls r)"
    then obtain k where k: "k \<in> set (re_calls r)" "pc_object k = Some ob \<or> pc_object k = Some (twin ob)"
      by (auto simp: destroyed_def)
    have ev: "even (re_next_object r)" using assms(1) by (simp add: re_inv_def pairs_ok_def)
    have "ob < re_next_object r"
      using k assms(1) twin_less[OF ev, of "twin ob"] by (auto simp: re_inv_def)
    then have "re_objects r d = Some ob" using ob by (auto simp: new_objects_def split: if_splits)
    then show False using assms(1) \<open>ob \<in> destroyed (re_calls r)\<close> by (auto simp: re_inv_def)
  qed
  ultimately show ?thesis using assms(1) unfolding re_inv_def by fastforce
qed

text \<open>The dictionaries of a pair are given up, after a call that says so when there is a callback.\<close>

definition drop_objects :: "int \<Rightarrow> reassembler \<Rightarrow> reassembler" where
  "drop_objects c r = r\<lparr>re_objects := (re_objects r)(c := None, reverse_con c := None),
     re_connection_objects := re_connection_objects r - 1\<rparr>"

lemma drop_objects_inv:
  assumes inv: "re_inv r" and c: "re_objects r c = Some ob"
  shows "re_inv (drop_objects c r)" "re_inv (drop_objects c (python_call ''destroy'' None (Some ob) r))"
proof -
  let ?o = "(re_objects r)(c := None, reverse_con c := None)"
  have p: "pairs_ok r" using inv by (simp add: re_inv_def)
  have rc: "re_objects r (reverse_con c) = Some (twin ob)" "ob < re_next_object r" using p c unfolding pairs_ok_def by blast+
  have lv: "live (drop_objects c r) = live r - {c, reverse_con c}" by (auto simp: live_def drop_objects_def)
  have cs: "{c, reverse_con c} \<subseteq> live r" using c rc by (auto simp: live_def)
  have "finite (live r)" using p by (simp add: pairs_ok_def)
  then have n: "finite (live (drop_objects c r))" "card (live (drop_objects c r)) = card (live r) - 2" "2 \<le> card (live r)"
    using cs card_mono[OF _ cs] by (simp_all add: lv card_Diff_subset)
  have rv: "reverse_con d \<noteq> c \<and> reverse_con d \<noteq> reverse_con c" if "d \<noteq> c" "d \<noteq> reverse_con c" for d
    using that by (metis reverse_con(1))
  have pr: "x < re_next_object r \<and> ?o (reverse_con d) = Some (twin x)" if x: "?o d = Some x" for d x
  proof -
    have d: "d \<noteq> c" "d \<noteq> reverse_con c" "re_objects r d = Some x" using x by (auto split: if_splits)
    then have "x < re_next_object r" "re_objects r (reverse_con d) = Some (twin x)" using p unfolding pairs_ok_def by blast+
    then show ?thesis using rv[OF d(1,2)] by simp
  qed
  have inj: "d = e" if x: "?o d = Some x" "?o e = Some x" for d e x
  proof -
    have "re_objects r d = Some x" "re_objects r e = Some x" using x by (auto split: if_splits)
    then show ?thesis using p unfolding pairs_ok_def by blast
  qed
  have "int (card (live r)) = 2 * re_connection_objects r" "even (re_next_object r)" using p by (simp_all add: pairs_ok_def)
  then have k: "int (card (live (drop_objects c r))) = 2 * (re_connection_objects r - 1)" "even (re_next_object r)"
    using n by simp_all
  have f: "re_objects (drop_objects c r) = ?o" "re_next_object (drop_objects c r) = re_next_object r"
    "re_connection_objects (drop_objects c r) = re_connection_objects r - 1" by (simp_all add: drop_objects_def)
  have pd: "pairs_ok (drop_objects c r)"
    unfolding pairs_ok_def f by (intro conjI allI impI k n(1) inj) (use pr in blast)+
  then show 1: "re_inv (drop_objects c r)"
    using inv by (auto simp: re_inv_def drop_objects_def)
  have "x \<noteq> ob \<and> x \<noteq> twin ob" if x: "?o d = Some x" for d x
  proof -
    have d: "d \<noteq> c" "d \<noteq> reverse_con c" "re_objects r d = Some x" using x by (auto split: if_splits)
    then show ?thesis using c rc(1) p unfolding pairs_ok_def by metis
  qed
  then have ne: "x \<noteq> ob \<and> ob \<noteq> twin x" if "?o d = Some x" for d x
    using that by (metis twin(1))
  let ?r1 = "drop_objects c (python_call ''destroy'' None (Some ob) r)"
  let ?k = "\<lparr>pc_name = ''destroy'', pc_packet = None, pc_object = Some ob\<rparr>"
  have g: "re_objects ?r1 = ?o" "re_next_object ?r1 = re_next_object r" "re_calls ?r1 = re_calls r @ [?k]"
    by (simp_all add: drop_objects_def)
  have "?r1 = python_call ''destroy'' None (Some ob) (drop_objects c r)" by (simp add: drop_objects_def python_call_def)
  then have "pairs_ok ?r1" using pd by simp
  moreover have "calls_ok (re_calls r @ [?k])"
    using inv c by (auto simp: re_inv_def calls_ok_snoc)
  moreover have "x \<notin> destroyed (re_calls r @ [?k])" if x: "?o d = Some x" for d x
  proof -
    have "re_objects r d = Some x" using x by (auto split: if_splits)
    then have "x \<notin> destroyed (re_calls r)" using inv unfolding re_inv_def by blast
    then show ?thesis using ne[OF x] by (simp add: destroyed_snoc)
  qed
  moreover have "\<forall>k\<in>set (re_calls r @ [?k]). \<forall>x. pc_object k = Some x \<longrightarrow> x < re_next_object r"
    using inv rc(2) by (auto simp: re_inv_def)
  ultimately show "re_inv ?r1" unfolding re_inv_def g by blast
qed

lemma callback_inv:
  assumes inv: "re_inv r"
  shows "\<exists>r'. callback c st pk r = Some r' \<and> re_inv r' \<and> re_hash r' = re_hash r \<and> re_world r' = re_world r"
proof (cases st)
  case PYTCP_JUST_EST
  let ?r = "if re_objects r c = None then new_objects c r else r"
  have i: "re_inv ?r" using inv new_objects_inv by simp
  have "re_inv (python_call ''est'' pk (re_objects ?r c) ?r)" by (rule python_call_inv[OF i, where c = c]) simp_all
  then show ?thesis using PYTCP_JUST_EST i by (simp add: callback_def Let_def new_objects_def python_call_def)
next
  case PYTCP_DATA
  then show ?thesis using inv python_call_inv[OF inv, of "''data''" _ c]
    by (simp add: callback_def python_call_def)
next
  case PYTCP_RETRANSMISSION
  then show ?thesis using inv python_call_inv[OF inv, of "''retran''" _ c]
    by (simp add: callback_def python_call_def)
next
  case PYTCP_NON_TCP
  then show ?thesis using inv python_call_inv[OF inv, of "''misc''" None]
    by (simp add: callback_def python_call_def)
next
  case PYTCP_DESTROY
  show ?thesis
  proof (cases "re_objects r c")
    case None
    then show ?thesis using PYTCP_DESTROY inv by (simp add: callback_def)
  next
    case (Some ob)
    then have "re_objects r (reverse_con c) = Some (twin ob)" using inv unfolding re_inv_def pairs_ok_def by blast
    then show ?thesis
      using PYTCP_DESTROY Some drop_objects_inv[OF inv Some] by (simp add: callback_def drop_objects_def python_call_def)
  qed
qed (use inv in \<open>simp_all add: callback_def\<close>)

lemma run_events_inv: "re_inv r \<Longrightarrow> \<exists>r'. run_events es r = Some r' \<and> re_inv r' \<and> re_hash r' = re_hash r \<and> re_world r' = re_world r"
proof (induction es arbitrary: r)
  case (Cons e es)
  obtain r1 where 1: "callback (ev_con e) (ev_state e) (ev_packet e) r = Some r1" "re_inv r1" "re_hash r1 = re_hash r"
    "re_world r1 = re_world r" using callback_inv[OF Cons.prems] by blast
  then show ?case using Cons.IH[OF 1(2)] by auto
qed simp

lemma after_events_inv:
  "re_inv r \<Longrightarrow> \<exists>r'. after_events th w r = Some r' \<and> re_inv r' \<and> re_hash r' = th \<and> re_world r' = w"
  using run_events_inv[of "r\<lparr>re_hash := th, re_world := w\<rparr>" "drop (length (w_trace (re_world r))) (w_trace w)"]
  by (auto simp: after_events_def)

lemma session_inv: "session cfg r \<Longrightarrow> re_inv r"
proof (induction rule: session.induct)
  case (session_init con r)
  then show ?case
    by (auto simp: Reassembler_init_def re_inv_def pairs_ok_def live_def destroyed_def)
next
  case (session_process r p r')
  then obtain th w where "after_events th w r = Some r'"
    by (auto simp: Reassembler_process_def split: Option.bind_splits)
  then show ?case using after_events_inv[OF session_process.IH, of th w] by auto
next
  case (session_flush r r')
  then obtain th w where "after_events th w r = Some r'"
    by (auto simp: Reassembler_flush_def split: Option.bind_splits)
  then show ?case using after_events_inv[OF session_flush.IH, of th w] by auto
qed

section \<open>Properties\<close>

lemma calls_ok_nth:
  "calls_ok cs \<Longrightarrow> i < j \<Longrightarrow> j < length cs \<Longrightarrow> pc_name (cs ! i) = ''destroy'' \<Longrightarrow>
   \<exists>ob. pc_object (cs ! i) = Some ob \<and> pc_object (cs ! j) \<notin> {Some ob, Some (twin ob)}"
proof (induction cs arbitrary: i j)
  case (Cons k cs)
  obtain j' where j: "j = Suc j'" "j' < length cs" using Cons.prems(2,3) by (cases j) auto
  then have m: "cs ! j' \<in> set cs" by simp
  show ?case
  proof (cases i)
    case 0
    then obtain ob where "pc_object k = Some ob" "\<forall>k'\<in>set cs. pc_object k' \<noteq> Some ob \<and> pc_object k' \<noteq> Some (twin ob)"
      using Cons.prems(1,4) by auto
    then show ?thesis using 0 j(1) m by auto
  next
    case (Suc i')
    then show ?thesis using Cons.IH[of i' j'] Cons.prems j by auto
  qed
qed simp

text \<open>C27 (the life of a connection as Python sees it). Whatever packets a reassembler processes and whenever it
  is flushed: after the call that destroys a dictionary no call has it or the one of the other direction
  again; the dictionaries that exist come in pairs, one for each direction, are each kept by one stream only
  and were not destroyed; the global counter is the number of these pairs, so none is lost; and the
  callback follows no NULL: an operation fails only where the table does.\<close>

theorem Reassembler_session:
  assumes "session cfg r"
  shows "(\<forall>i j. i < j \<longrightarrow> j < length (re_calls r) \<longrightarrow> pc_name (re_calls r ! i) = ''destroy'' \<longrightarrow>
      (\<exists>ob. pc_object (re_calls r ! i) = Some ob \<and> pc_object (re_calls r ! j) \<notin> {Some ob, Some (twin ob)})) \<and>
    (\<forall>c ob. re_objects r c = Some ob \<longrightarrow> re_objects r (reverse_con c) = Some (twin ob) \<and>
      (\<forall>d. re_objects r d = Some ob \<longrightarrow> d = c) \<and> ob \<notin> destroyed (re_calls r)) \<and>
    finite (live r) \<and> int (card (live r)) = 2 * re_connection_objects r \<and>
    (\<forall>p. Reassembler_process cfg p r = None \<longleftrightarrow> TCPHashTable_process cfg (re_hash r) p (re_world r) = None) \<and>
    (Reassembler_flush r = None \<longleftrightarrow> TCPHashTable_flush (re_hash r) (re_world r) = None)"
proof -
  have inv: "re_inv r" by (rule session_inv[OF assms])
  have "after_events th w r \<noteq> None" for th w using after_events_inv[OF inv, of th w] by auto
  then have "\<forall>p. Reassembler_process cfg p r = None \<longleftrightarrow> TCPHashTable_process cfg (re_hash r) p (re_world r) = None"
    "Reassembler_flush r = None \<longleftrightarrow> TCPHashTable_flush (re_hash r) (re_world r) = None"
    by (auto simp: Reassembler_process_def Reassembler_flush_def split: Option.bind_splits)
  moreover have "pairs_ok r" "calls_ok (re_calls r)"
    "\<forall>c ob. re_objects r c = Some ob \<longrightarrow> ob \<notin> destroyed (re_calls r)" using inv unfolding re_inv_def by blast+
  ultimately show ?thesis using calls_ok_nth unfolding pairs_ok_def by blast
qed

definition demo_session :: "reassembler option" where
  "demo_session = do {
     r \<leftarrow> Reassembler_init 7 True;
     r \<leftarrow> Reassembler_process demo_config (demo_pkt T_TCP 1 2 100 [1]) r;
     Reassembler_flush r
   }"

lemma Reassembler_session_witness:
  "\<exists>r. session demo_config r \<and> map pc_name (re_calls r) = [''est'', ''data'', ''destroy''] \<and> card (live r) = 0"
proof -
  have "map_option (\<lambda>r. (map pc_name (re_calls r), re_connection_objects r)) demo_session =
      Some ([''est'', ''data'', ''destroy''], 0)" by code_simp
  then obtain r where r: "demo_session = Some r" "map pc_name (re_calls r) = [''est'', ''data'', ''destroy'']"
    "re_connection_objects r = 0" by auto
  have s: "session demo_config r"
    using r(1) by (auto simp: demo_session_def split: Option.bind_splits)
      (metis session_init session_process session_flush)
  show ?thesis using Reassembler_session[OF s] s r by auto
qed

end
