(* ===== verification/Trie.thy ===== *)
theory Trie
  imports Prelude
begin

text \<open>
  The indexing engine \<open>src/src/indextools_ng/trie.c\<close>: a trie of nodes that each match a number of
  bytes and hand the rest of the buffer to their children. A word is memory with a terminator behind
  it, read from a position, and so is the buffer that is searched. The methods count a length down as
  they move through the buffer; adding a word ends by it, matching never looks at it, so that only the
  former carries it here. \<open>None\<close> is an access outside of the word, of the buffer or of a local array.
\<close>

section \<open>Nodes\<close>

definition MAX_MATCH_LENGTH :: int where "MAX_MATCH_LENGTH = 100"
definition UNIQUE_BIT_MASK :: int where "UNIQUE_BIT_MASK = 1073741824"

datatype word_types = WORD_LITERAL | WORD_EXTENDED | WORD_ENGLISH

text \<open>The class of a node and its own data: the value of a literal and whether it compares without
  case, the map of a character class, the wildcard, or the data of the end of a word.\<close>

datatype node_kind =
    KRoot
  | KLiteral (lit_value: byte) (lit_case: bool)
  | KClass "byte \<Rightarrow> bool"
  | KWild
  | KData int

text \<open>The hash table has 16 lists of peers and \<open>child\<close> one more; a list that is not constructed is
  empty.\<close>

datatype node = Node
  (nd_kind: node_kind) (nd_lower: int) (nd_upper: int)
  (nd_slots: "node list list") (nd_child: "node list")

definition new_node :: "node_kind \<Rightarrow> node" where
  "new_node k = Node k 1 1 (replicate 16 []) []"

definition RootNode_Con :: node where
  "RootNode_Con = new_node KRoot"

definition rd :: "byte list \<Rightarrow> nat \<Rightarrow> byte option" where
  "rd mem p = (if p < length mem then Some (mem ! p) else None)"

section \<open>Reading a word\<close>

definition isspace :: "byte \<Rightarrow> bool" where
  "isspace c \<longleftrightarrow> c = 32 \<or> 9 \<le> c \<and> c \<le> 13"

definition digit_val :: "byte \<Rightarrow> int option" where
  "digit_val c = (if 48 \<le> c \<and> c \<le> 57 then Some (uint c - 48) else None)"

definition hex_val :: "byte \<Rightarrow> int option" where
  "hex_val c = (if 48 \<le> c \<and> c \<le> 57 then Some (uint c - 48)
     else if 97 \<le> c \<and> c \<le> 102 then Some (uint c - 87)
     else if 65 \<le> c \<and> c \<le> 70 then Some (uint c - 55) else None)"

text \<open>\<open>sscanf\<close> with \<open>%02x\<close>: white space, then at most two characters of a hexadecimal number (a lone
  \<open>0x\<close> is zero for it).\<close>

definition scan_hex2 :: "byte list \<Rightarrow> int option" where
  "scan_hex2 xs =
     (case dropWhile isspace xs of
        [] \<Rightarrow> None
      | c # ys \<Rightarrow>
          let d = (case ys of [] \<Rightarrow> None | e # _ \<Rightarrow> hex_val e)
          in if c = 43 then d
             else if c = 45 then map_option (\<lambda>v. - v) d
             else case hex_val c of
                    None \<Rightarrow> None
                  | Some a \<Rightarrow> Some (case d of None \<Rightarrow> a | Some b \<Rightarrow> 16 * a + b))"

text \<open>\<open>%u\<close>: white space, a sign, digits; the number is one of \<open>strtoul\<close>, cut to 32 bits.\<close>

fun scan_digits :: "byte list \<Rightarrow> int \<Rightarrow> int \<times> byte list" where
  "scan_digits [] acc = (acc, [])"
| "scan_digits (c # xs) acc = (case digit_val c of None \<Rightarrow> (acc, c # xs) | Some d \<Rightarrow> scan_digits xs (10 * acc + d))"

definition scan_u :: "byte list \<Rightarrow> (int \<times> byte list) option" where
  "scan_u xs =
     (let ys = dropWhile isspace xs;
          neg = (ys \<noteq> [] \<and> hd ys = 45);
          zs = (if ys \<noteq> [] \<and> (hd ys = 43 \<or> hd ys = 45) then tl ys else ys)
      in if zs = [] \<or> digit_val (hd zs) = None then None
         else let (v, rest) = scan_digits zs 0
              in Some (if v > 18446744073709551615 then 4294967295 else u32 (if neg then - v else v), rest))"

text \<open>The two numbers of \<open>{%u,%u}\<close>; the closing bracket is not needed for them to be assigned.\<close>

definition scan_range :: "byte list \<Rightarrow> (int \<times> int) option" where
  "scan_range xs =
     (case xs of
        [] \<Rightarrow> None
      | c # ys \<Rightarrow>
          if c \<noteq> 123 then None
          else case scan_u ys of
                 None \<Rightarrow> None
               | Some (l, zs) \<Rightarrow>
                   if zs = [] \<or> hd zs \<noteq> 44 then None
                   else map_option (\<lambda>(u, _). (l, u)) (scan_u (tl zs)))"

text \<open>The loop that looks for the closing bracket; the position it leaves is behind it.\<close>

fun skip_range :: "byte list \<Rightarrow> nat \<Rightarrow> nat option" where
  "skip_range [] k = None"
| "skip_range (c # xs) k = (if c = 125 then Some (Suc k) else skip_range xs (Suc k))"

text \<open>\<open>?\<close> sets a limit of one and then goes the way of the other two.\<close>

definition check_for_repeat ::
    "byte list \<Rightarrow> int \<Rightarrow> int \<Rightarrow> nat \<Rightarrow> int \<Rightarrow> (int \<times> int \<times> nat \<times> int) option" where
  "check_for_repeat mem lower upper p len = do {
     c \<leftarrow> rd mem p;
     if c = 63 then Some (0, MAX_MATCH_LENGTH, Suc p, len - 1)
     else if c = 42 then Some (0, MAX_MATCH_LENGTH, Suc p, len - 1)
     else if c = 43 then Some (1, MAX_MATCH_LENGTH, Suc p, len - 1)
     else if c = 123 then
       (case scan_range (drop p mem) of
          None \<Rightarrow> Some (lower, upper, p, len)
        | Some (l, u) \<Rightarrow>
            if p > 0 \<and> mem ! (p - 1) = 125 then Some (l, u, p, len)
            else map_option (\<lambda>q. (l, u, q, len - int (q - p))) (skip_range (drop p mem) p))
     else Some (lower, upper, p, len)
   }"

section \<open>Character classes\<close>

definition char_map_digits :: "byte \<Rightarrow> bool" where
  "char_map_digits c \<longleftrightarrow> 48 \<le> c \<and> c \<le> 57"

definition char_map_word :: "byte \<Rightarrow> bool" where
  "char_map_word c \<longleftrightarrow> 97 \<le> c \<and> c \<le> 122 \<or> 65 \<le> c \<and> c \<le> 90"

definition char_space_word :: "byte \<Rightarrow> bool" where
  "char_space_word c \<longleftrightarrow> c = 10 \<or> c = 13 \<or> c = 32 \<or> c = 9"

text \<open>The constructor for an escape: the class of the node that it answers, \<open>None\<close> for NULL. A
  \<open>\x\<close> without a number writes behind the local array of its message.\<close>

definition CharacterClassNode_Con :: "byte list \<Rightarrow> nat \<Rightarrow> int \<Rightarrow> (node_kind option \<times> nat \<times> int) option" where
  "CharacterClassNode_Con mem p len = do {
     c \<leftarrow> rd mem p;
     if c \<noteq> 92 then Some (None, p, len)
     else do {
       e \<leftarrow> rd mem (p + 1);
       if e = 100 then Some (Some (KClass char_map_digits), p + 2, len - 2)
       else if e = 119 then Some (Some (KClass char_map_word), p + 2, len - 2)
       else if e = 115 then Some (Some (KClass char_space_word), p + 2, len - 2)
       else if e = 120 then
         (case scan_hex2 (drop (p + 2) mem) of
            None \<Rightarrow> None
          | Some x \<Rightarrow> Some (Some (KLiteral (word_of_int x) False), p + 4, len - 4))
       else Some (Some (KLiteral e False), p + 2, len - 2)
     }
   }"

text \<open>Characters are signed. A range from one signed character to another writes in front of the map for a negative one.\<close>

definition class_range :: "byte \<Rightarrow> byte \<Rightarrow> (byte \<Rightarrow> bool) \<Rightarrow> (byte \<Rightarrow> bool) option" where
  "class_range a b m =
     (if sint a > sint b then Some m
      else if sint a < 0 then None
      else Some (\<lambda>c. m c \<or> a \<le> c \<and> c \<le> b))"

definition merge_kind :: "node_kind \<Rightarrow> (byte \<Rightarrow> bool) \<Rightarrow> byte \<Rightarrow> bool" where
  "merge_kind k m = (case k of KLiteral v _ \<Rightarrow> m(v := True) | KClass m' \<Rightarrow> (\<lambda>c. m c \<or> m' c) | _ \<Rightarrow> m)"

lemma CharacterClassNode_Con_pos:
  "CharacterClassNode_Con mem p len = Some (k, q, l) \<Longrightarrow> rd mem p = Some 92 \<Longrightarrow> p < q"
  by (auto simp: CharacterClassNode_Con_def split: bind_split_asm if_splits option.splits)

function class_loop :: "byte list \<Rightarrow> nat \<Rightarrow> int \<Rightarrow> (byte \<Rightarrow> bool) \<Rightarrow> ((byte \<Rightarrow> bool) \<times> nat \<times> int) option" where
  "class_loop mem p len m =
     (case rd mem p of
        None \<Rightarrow> None
      | Some c \<Rightarrow>
          if c = 93 \<or> len \<le> 1 then Some (m, p, len)
          else if c = 45 then
            (case rd mem (p + 1) of
               None \<Rightarrow> None
             | Some b \<Rightarrow> (case class_range (mem ! (p - 1)) b m of
                            None \<Rightarrow> None
                          | Some m' \<Rightarrow> class_loop mem (p + 1) (len - 1) m'))
          else if c = 92 then
            (case CharacterClassNode_Con mem p len of
               None \<Rightarrow> None
             | Some (k, q, len') \<Rightarrow> class_loop mem q len' (case k of None \<Rightarrow> m | Some k \<Rightarrow> merge_kind k m))
          else class_loop mem (p + 1) (len - 1) (m(c := True)))"
  by pat_completeness auto
termination
  by (relation "measure (\<lambda>(mem, p, len, m). length mem - p)")
    (auto simp: rd_def dest!: CharacterClassNode_Con_pos split: if_splits)

declare class_loop.simps [simp del]

definition build_character_class :: "byte list \<Rightarrow> nat \<Rightarrow> int \<Rightarrow> ((byte \<Rightarrow> bool) \<times> nat \<times> int) option" where
  "build_character_class mem p len = do {
     c \<leftarrow> rd mem (p + 1);
     let inverted = (c = 94);
     (m, q, len) \<leftarrow> class_loop mem (if inverted then p + 2 else p + 1) (if inverted then len - 2 else len - 1) (\<lambda>_. False);
     Some (if inverted then (\<lambda>c. \<not> m c) else m, q + 1, len - 1)
   }"

section \<open>Adding a word\<close>

definition LiteralNode_Con :: "byte list \<Rightarrow> bool \<Rightarrow> nat \<Rightarrow> int \<Rightarrow> (node \<times> nat \<times> int) option" where
  "LiteralNode_Con mem nocase p len =
     map_option (\<lambda>c. (new_node (KLiteral c nocase), p + 1, len - 1)) (rd mem p)"

definition set_limits :: "int \<Rightarrow> int \<Rightarrow> node \<Rightarrow> node" where
  "set_limits l u n = Node (nd_kind n) l u (nd_slots n) (nd_child n)"

definition MakeNextNode :: "byte list \<Rightarrow> nat \<Rightarrow> int \<Rightarrow> (node \<times> nat \<times> int) option" where
  "MakeNextNode mem p len = do {
     c \<leftarrow> rd mem p;
     (k, q, l) \<leftarrow>
       (if c = 92 then CharacterClassNode_Con mem p len
        else if c = 91 then map_option (\<lambda>(m, q, l). (Some (KClass m), q, l)) (build_character_class mem p len)
        else if c = 46 then Some (Some KWild, p + 1, len - 1)
        else Some (None, p, len));
     (n, q, l) \<leftarrow> (case k of Some k \<Rightarrow> Some (new_node k, q, l) | None \<Rightarrow> LiteralNode_Con mem False q l);
     if l > 0 then do {
       (lower, upper, q, l) \<leftarrow> check_for_repeat mem (nd_lower n) (nd_upper n) q l;
       Some (set_limits lower upper n, q, l)
     } else Some (n, q, l)
   }"

text \<open>Two literals are the same node when they have the same value and compare in the same way; their
  limits do not count.\<close>

fun Compare_literal_nodes :: "node \<Rightarrow> node \<Rightarrow> bool" where
  "Compare_literal_nodes (Node (KLiteral v c) _ _ _ _) (Node (KLiteral v' c') _ _ _ _) \<longleftrightarrow> v = v' \<and> c = c'"
| "Compare_literal_nodes _ _ \<longleftrightarrow> False"

fun find_peer :: "node \<Rightarrow> node list \<Rightarrow> nat option" where
  "find_peer n [] = None"
| "find_peer n (j # js) = (if Compare_literal_nodes j n then Some 0 else map_option Suc (find_peer n js))"

text \<open>The node goes to the front of the peers unless it is there, and in both cases its place is
  answered.\<close>

definition add_unique_to_peer_list :: "node list \<Rightarrow> node \<Rightarrow> node list \<times> nat" where
  "add_unique_to_peer_list js n = (case find_peer n js of Some i \<Rightarrow> (js, i) | None \<Rightarrow> (n # js, 0))"

text \<open>The node for the next piece of the word; \<open>None\<close> inside for the end.\<close>

definition next_node ::
    "byte list \<Rightarrow> nat \<Rightarrow> int \<Rightarrow> word_types \<Rightarrow> (node \<times> nat \<times> int) option" where
  "next_node mem p len type =
     (case type of
        WORD_ENGLISH \<Rightarrow> LiteralNode_Con mem True p len
      | WORD_EXTENDED \<Rightarrow> MakeNextNode mem p len
      | WORD_LITERAL \<Rightarrow> LiteralNode_Con mem False p len)"

definition in_hash_table :: "node \<Rightarrow> nat option" where
  "in_hash_table n = (case nd_kind n of
     KLiteral v _ \<Rightarrow> if nd_lower n > 0 then Some (unat v mod 16) else None
   | _ \<Rightarrow> None)"

text \<open>The list of peers where the node belongs, and the parent with another such list.\<close>

definition peers_for :: "node option \<Rightarrow> node \<Rightarrow> node list" where
  "peers_for n self = (case Option.bind n in_hash_table of Some h \<Rightarrow> nd_slots self ! h | None \<Rightarrow> nd_child self)"

definition put_peers :: "node option \<Rightarrow> node list \<Rightarrow> node \<Rightarrow> node" where
  "put_peers n js self = (case Option.bind n in_hash_table of
     Some h \<Rightarrow> Node (nd_kind self) (nd_lower self) (nd_upper self) ((nd_slots self)[h := js]) (nd_child self)
   | None \<Rightarrow> Node (nd_kind self) (nd_lower self) (nd_upper self) (nd_slots self) js)"

lemma LiteralNode_Con_pos: "LiteralNode_Con mem b p len = Some (n, q, l) \<Longrightarrow> p < q \<and> p < length mem"
  by (auto simp: LiteralNode_Con_def rd_def split: if_splits)

lemma skip_range_pos: "skip_range xs k = Some q \<Longrightarrow> k < q"
  by (induction xs k rule: skip_range.induct) (auto split: if_splits)

lemma check_for_repeat_pos: "check_for_repeat mem lo u p len = Some (a, b, q, l) \<Longrightarrow> p \<le> q"
  by (auto simp: check_for_repeat_def split: bind_split_asm if_splits option.splits dest!: skip_range_pos)

lemma class_loop_pos: "class_loop mem p len m = Some (m', q, l) \<Longrightarrow> p \<le> q"
proof (induction mem p len m arbitrary: m' q l rule: class_loop.induct)
  case (1 mem p len m)
  obtain c where c: "rd mem p = Some c"
    using "1.prems" by (auto simp: class_loop.simps[of mem p] split: option.splits)
  consider "c = 93 \<or> len \<le> 1" | "c \<noteq> 93" "1 < len" "c = 45" | "c \<noteq> 93" "1 < len" "c = 92"
    | "c \<noteq> 93" "1 < len" "c \<noteq> 45" "c \<noteq> 92" by linarith
  then show ?case
  proof cases
    case 1
    then show ?thesis using "1.prems" c by (simp add: class_loop.simps[of mem p])
  next
    case 2
    then obtain b m1 where "rd mem (p + 1) = Some b" "class_range (mem ! (p - 1)) b m = Some m1"
      "class_loop mem (p + 1) (len - 1) m1 = Some (m', q, l)"
      using "1.prems" c by (auto simp: class_loop.simps[of mem p] split: option.splits)
    then show ?thesis using "1.IH"(1)[of c b m1 m' q l] c 2 by auto
  next
    case 3
    then obtain k q1 l1 where k: "CharacterClassNode_Con mem p len = Some (k, q1, l1)"
      "class_loop mem q1 l1 (case k of None \<Rightarrow> m | Some k \<Rightarrow> merge_kind k m) = Some (m', q, l)"
      using "1.prems" c by (auto simp: class_loop.simps[of mem p] split: option.splits prod.splits)
    have "p < q1" using CharacterClassNode_Con_pos[OF k(1)] c 3 by simp
    then show ?thesis using "1.IH"(2)[OF c _ _ _ k(1) refl refl k(2)] 3 by auto
  next
    case 4
    have r: "class_loop mem (p + 1) (len - 1) (m(c := True)) = Some (m', q, l)"
      using 4 "1.prems" c by (simp add: class_loop.simps[of mem p])
    show ?thesis using "1.IH"(3)[OF c _ _ _ r] 4 by simp
  qed
qed

lemma build_character_class_pos: "build_character_class mem p len = Some (m, q, l) \<Longrightarrow> p < q"
  by (auto simp: build_character_class_def Let_def split: bind_split_asm if_splits dest!: class_loop_pos)

lemma MakeNextNode_pos: "MakeNextNode mem p len = Some (n, q, l) \<Longrightarrow> p < q \<and> p < length mem"
proof -
  assume a: "MakeNextNode mem p len = Some (n, q, l)"
  obtain c where c: "rd mem p = Some c" using a by (auto simp: MakeNextNode_def split: bind_split_asm)
  then have p: "p < length mem" by (auto simp: rd_def split: if_splits)
  obtain k q1 l1 n1 q2 l2 where 1: "(if c = 92 then CharacterClassNode_Con mem p len
        else if c = 91 then map_option (\<lambda>(m, q, l). (Some (KClass m), q, l)) (build_character_class mem p len)
        else if c = 46 then Some (Some KWild, p + 1, len - 1) else Some (None, p, len)) = Some (k, q1, l1)"
    "(case k of Some k \<Rightarrow> Some (new_node k, q1, l1) | None \<Rightarrow> LiteralNode_Con mem False q1 l1) = Some (n1, q2, l2)"
    "(if l2 > 0 then do {
       (lower, upper, q, l) \<leftarrow> check_for_repeat mem (nd_lower n1) (nd_upper n1) q2 l2;
       Some (set_limits lower upper n1, q, l)
     } else Some (n1, q2, l2)) = Some (n, q, l)"
    using a by (auto simp: MakeNextNode_def c split: bind_split_asm)
  have "p \<le> q1" "k \<noteq> None \<Longrightarrow> p < q1"
    using 1(1) c by (auto split: if_splits dest: CharacterClassNode_Con_pos build_character_class_pos)
  then have "p < q2" using 1(2) by (auto split: option.splits dest: LiteralNode_Con_pos)
  moreover have "q2 \<le> q" using 1(3) by (auto split: if_splits bind_split_asm dest: check_for_repeat_pos)
  ultimately show ?thesis using p by simp
qed

lemma next_node_pos: "next_node mem p len type = Some (n, q, l) \<Longrightarrow> p < q \<and> p < length mem"
  by (auto simp: next_node_def split: word_types.splits dest: LiteralNode_Con_pos MakeNextNode_pos)

text \<open>A data node takes no more words. The node behind a place of the peers gets the rest of the word.\<close>

function TrieNode_AddWord ::
    "node \<Rightarrow> byte list \<Rightarrow> nat \<Rightarrow> int \<Rightarrow> int \<Rightarrow> word_types \<Rightarrow> node option" where
  "TrieNode_AddWord self mem p len data type =
     (if len = 0 then
        Some (put_peers None (fst (add_unique_to_peer_list (nd_child self) (new_node (KData (s32 data))))) self)
      else case next_node mem p len type of
             None \<Rightarrow> None
           | Some (n, q, l) \<Rightarrow>
               let (js, i) = add_unique_to_peer_list (peers_for (Some n) self) n
               in map_option (\<lambda>j. put_peers (Some n) (js[i := j]) self)
                    (TrieNode_AddWord (js ! i) mem q l data type))"
  by pat_completeness auto
termination
  by (relation "measure (\<lambda>(self, mem, p, len, data, type). length mem - p)") (auto dest!: next_node_pos)

declare TrieNode_AddWord.simps [simp del]

section \<open>Matching\<close>

definition casecompare :: "byte \<Rightarrow> byte \<Rightarrow> bool" where
  "casecompare c v \<longleftrightarrow> c + (if 65 \<le> c \<and> c \<le> 90 then 32 else 0) = v"

text \<open>The answer and the position: a character that is equal is consumed. The wildcard does not look at
  it.\<close>

definition compare :: "node_kind \<Rightarrow> byte list \<Rightarrow> nat \<Rightarrow> (bool \<times> nat) option" where
  "compare k mem p =
     (case k of
        KRoot \<Rightarrow> Some (True, p)
      | KData _ \<Rightarrow> Some (True, p)
      | KWild \<Rightarrow> Some (True, p + 1)
      | KLiteral v nocase \<Rightarrow>
          map_option (\<lambda>c. let r = (if nocase then casecompare c v else c = v) in (r, if r then p + 1 else p)) (rd mem p)
      | KClass m \<Rightarrow> map_option (\<lambda>c. (m c, if m c then p + 1 else p)) (rd mem p))"

text \<open>At least and at most so many characters. The answers are whether all were there, and the
  position.\<close>

fun compare_times :: "nat \<Rightarrow> node_kind \<Rightarrow> byte list \<Rightarrow> nat \<Rightarrow> (bool \<times> nat) option" where
  "compare_times 0 k mem p = Some (True, p)"
| "compare_times (Suc n) k mem p =
     (case compare k mem p of
        None \<Rightarrow> None
      | Some (False, q) \<Rightarrow> Some (False, q)
      | Some (True, q) \<Rightarrow> compare_times n k mem q)"

text \<open>The hits: the set of data that were reported, when the search is for unique ones, and the list of
  the data and lengths of the matches.\<close>

record hits =
  ht_set :: "int set option"
  ht_list :: "(int \<times> int) list"

definition DataNode_Match :: "int \<Rightarrow> nat \<Rightarrow> nat \<Rightarrow> hits \<Rightarrow> hits" where
  "DataNode_Match dat start p result =
     (let id = dat mod UNIQUE_BIT_MASK;
          add = result\<lparr>ht_list := ht_list result @ [(id, int p - int start)]\<rparr>
      in case ht_set result of
           None \<Rightarrow> add
         | Some S \<Rightarrow>
             if even (dat div UNIQUE_BIT_MASK) then
               (if id \<in> S then result else add\<lparr>ht_set := Some (insert id S)\<rparr>)
             else add)"

definition slot_of :: "node \<Rightarrow> byte \<Rightarrow> node list" where
  "slot_of n c = (if unat c mod 16 < length (nd_slots n) then nd_slots n ! (unat c mod 16) else [])"

lemma size_slot_of [termination_simp]:
  "size_list size (slot_of n c) < size n" "size_list size (nd_child n) < size n"
proof -
  show "size_list size (nd_child n) < size n" by (cases n) simp
  obtain k l u ss cs where n: "n = Node k l u ss cs" by (cases n)
  have "x \<in> set ss \<Longrightarrow> size_list size x < Suc (size_list (size_list size) ss)" for x :: "node list"
    by (induction ss) auto
  then have "unat c mod 16 < length ss \<Longrightarrow> size_list size (ss ! (unat c mod 16)) < Suc (size_list (size_list size) ss)"
    by simp
  then show "size_list size (slot_of n c) < size n" by (auto simp: slot_of_def n intro: less_le_trans)
qed

lemma size_slot_of2:
  "Suc (2 * size_list size (slot_of n c)) < 2 * size n" "Suc (2 * size_list size (nd_child n)) < 2 * size n"
  using size_slot_of(1)[of n c] size_slot_of(2)[of n] by simp_all

function TrieNode_Match :: "byte list \<Rightarrow> nat \<Rightarrow> node \<Rightarrow> nat \<Rightarrow> hits \<Rightarrow> (bool \<times> hits) option"
  and Match_peers :: "byte list \<Rightarrow> nat \<Rightarrow> node list \<Rightarrow> nat \<Rightarrow> hits \<Rightarrow> (bool \<times> hits) option" where
  "TrieNode_Match mem start self p result =
     (case nd_kind self of
        KData dat \<Rightarrow> Some (True, DataNode_Match dat start p result)
      | _ \<Rightarrow>
          case compare_times (nat (nd_lower self)) (nd_kind self) mem p of
            None \<Rightarrow> None
          | Some (False, q) \<Rightarrow> Some (False, result)
          | Some (True, q) \<Rightarrow>
              case compare_times (nat (nd_upper self - nd_lower self)) (nd_kind self) mem q of
                None \<Rightarrow> None
              | Some (_, q) \<Rightarrow>
                  case rd mem q of
                    None \<Rightarrow> None
                  | Some c \<Rightarrow>
                      case Match_peers mem start (slot_of self c) q result of
                        None \<Rightarrow> None
                      | Some (f1, result) \<Rightarrow>
                          case Match_peers mem start (nd_child self) q result of
                            None \<Rightarrow> None
                          | Some (f2, result) \<Rightarrow> Some (f1 \<or> f2, result))"
| "Match_peers mem start [] p result = Some (False, result)"
| "Match_peers mem start (j # js) p result =
     (case TrieNode_Match mem start j p result of
        None \<Rightarrow> None
      | Some (f1, result) \<Rightarrow>
          case Match_peers mem start js p result of
            None \<Rightarrow> None
          | Some (f2, result) \<Rightarrow> Some (f1 \<or> f2, result))"
  by pat_completeness auto
termination
  by (relation "measure (\<lambda>x. case x of Inl (mem, start, n, p, r) \<Rightarrow> 2 * size n
      | Inr (mem, start, js, p, r) \<Rightarrow> 2 * size_list size js + 1)")
    (auto simp: size_slot_of2)

declare TrieNode_Match.simps [simp del]

end
