(* ===== verification/Trie_Index.thy ===== *)
theory Trie_Index
  imports Trie "HOL-Library.Multiset" "HOL-Library.Sublist"
begin

text \<open>
  The Python object around the trie, \<open>src/src/indextools_ng/index.c\<close>: an index is a root node and, for a
  search of unique hits, the set of the data that were reported; indexing a buffer makes an iterator
  that tries the trie at one position of the buffer after the other. The buffer of a Python string
  has a terminator behind it, which the trie may read.
\<close>

section \<open>The index and its iterator\<close>

record trie_index =
  ti_root :: node
  ti_set :: "int set option"

record trie_iter =
  it_mem :: "byte list"
  it_len :: nat
  it_i :: nat

datatype index_error = AttributeError | SystemError

definition trie_index_init :: "bool \<Rightarrow> trie_index" where
  "trie_index_init unique = \<lparr>ti_root = RootNode_Con, ti_set = (if unique then Some {} else None)\<rparr>"

definition trie_index_add_word :: "trie_index \<Rightarrow> byte list \<Rightarrow> int \<Rightarrow> word_types \<Rightarrow> trie_index option" where
  "trie_index_add_word self word value type =
     map_option (\<lambda>n. self\<lparr>ti_root := n\<rparr>)
       (TrieNode_AddWord (ti_root self) (word @ [0]) 0 (int (length word)) value type)"

definition trie_index_clear_set :: "trie_index \<Rightarrow> trie_index" where
  "trie_index_clear_set self = self\<lparr>ti_set := map_option (\<lambda>_. {}) (ti_set self)\<rparr>"

definition trie_index_reject :: "trie_index \<Rightarrow> int \<Rightarrow> index_error + trie_index" where
  "trie_index_reject self key =
     (if key = 0 then Inl AttributeError
      else case ti_set self of
             Some S \<Rightarrow> Inr (self\<lparr>ti_set := Some (S - {key})\<rparr>)
           | None \<Rightarrow> Inl SystemError)"

definition trie_iter_init :: "byte list \<Rightarrow> trie_iter" where
  "trie_iter_init data = \<lparr>it_mem = data @ [0], it_len = length data, it_i = 0\<rparr>"

definition trie_index_index_buffer :: "trie_index \<Rightarrow> byte list \<Rightarrow> bool \<Rightarrow> trie_index \<times> trie_iter" where
  "trie_index_index_buffer self data unique =
     (self\<lparr>ti_set := (if unique then (case ti_set self of None \<Rightarrow> Some {} | Some S \<Rightarrow> Some S) else None)\<rparr>,
      trie_iter_init data)"

text \<open>The next position with a match and its hits; the inner \<open>None\<close> is \<open>StopIteration\<close>. The list of
  matches is empty before each attempt: an attempt that fails has added nothing to it.\<close>

function trie_iter_next ::
    "trie_index \<Rightarrow> trie_iter \<Rightarrow> hits \<Rightarrow> (trie_index \<times> trie_iter \<times> (nat \<times> (int \<times> int) list) option \<times> hits) option" where
  "trie_iter_next trie self result =
     (if it_i self < it_len self then
        (case TrieNode_Match (it_mem self) (it_i self) (ti_root trie) (it_i self) result of
           None \<Rightarrow> None
         | Some (found, r) \<Rightarrow>
             let trie' = trie\<lparr>ti_set := ht_set r\<rparr>; self' = self\<lparr>it_i := Suc (it_i self)\<rparr>
             in if found then Some (trie', self', Some (it_i self, ht_list r), r\<lparr>ht_list := []\<rparr>)
                else trie_iter_next trie' self' r)
      else Some (trie, self, None, result))"
  by pat_completeness auto
termination
  by (relation "measure (\<lambda>(trie, self, result). it_len self - it_i self)") auto

declare trie_iter_next.simps [simp del]

text \<open>Draining an iterator.\<close>

lemma trie_iter_next_progress:
  "trie_iter_next trie self result = Some (trie', self', Some h, r) \<Longrightarrow>
   it_i self < it_i self' \<and> it_len self' = it_len self \<and> it_i self < it_len self"
proof (induction trie self result rule: trie_iter_next.induct)
  case (1 trie self result)
  have lt: "it_i self < it_len self"
    using "1.prems" by (auto simp: trie_iter_next.simps[of trie self] split: if_splits)
  then obtain f r1 where m: "TrieNode_Match (it_mem self) (it_i self) (ti_root trie) (it_i self) result = Some (f, r1)"
    using "1.prems" by (auto simp: trie_iter_next.simps[of trie self] split: option.splits)
  show ?case
    using "1.prems" "1.IH"[OF lt m refl refl refl] lt m
    by (auto simp: trie_iter_next.simps[of trie self] Let_def split: if_splits)
qed

function trie_iter_all ::
    "trie_index \<Rightarrow> trie_iter \<Rightarrow> hits \<Rightarrow> (trie_index \<times> (nat \<times> (int \<times> int) list) list) option" where
  "trie_iter_all trie self result =
     (case trie_iter_next trie self result of
        None \<Rightarrow> None
      | Some (trie', self', None, r) \<Rightarrow> Some (trie', [])
      | Some (trie', self', Some h, r) \<Rightarrow>
          map_option (\<lambda>(t, hs). (t, h # hs)) (trie_iter_all trie' self' r))"
  by pat_completeness auto
termination
  by (relation "measure (\<lambda>(trie, self, result). it_len self - it_i self)")
    (auto dest!: trie_iter_next_progress)

declare trie_iter_all.simps [simp del]

definition index_all :: "trie_index \<Rightarrow> byte list \<Rightarrow> bool \<Rightarrow> (trie_index \<times> (nat \<times> (int \<times> int) list) list) option" where
  "index_all self data unique =
     (let (trie, it) = trie_index_index_buffer self data unique
      in trie_iter_all trie it \<lparr>ht_set = ti_set trie, ht_list = []\<rparr>)"

section \<open>Tries of literal words\<close>

text \<open>The trie that literal words build: literals in the slot of their value, data in the list of
  children, every node for exactly one character.\<close>

inductive lit_node :: "node \<Rightarrow> bool" where
  "\<lbrakk>length ss = 16;
    \<And>i j. i < 16 \<Longrightarrow> j \<in> set (ss ! i) \<Longrightarrow> lit_node j;
    \<And>i j. i < 16 \<Longrightarrow> j \<in> set (ss ! i) \<Longrightarrow> \<exists>v. nd_kind j = KLiteral v False \<and> v \<noteq> 0 \<and> unat v mod 16 = i;
    \<And>j. j \<in> set cs \<Longrightarrow> \<exists>d. nd_kind j = KData d\<rbrakk> \<Longrightarrow> lit_node (Node k 1 1 ss cs)"

inductive_cases lit_node_elim: "lit_node (Node k l u ss cs)"

text \<open>The words below a node with their data, in the order of the search.\<close>

lemma size_in_lists [termination_simp]:
  "j \<in> set js \<Longrightarrow> js \<in> set ss \<Longrightarrow> size j < Suc (size_list (size_list size) ss + m)"
  "j \<in> set js \<Longrightarrow> size j < Suc (m + size_list size js)"
proof -
  show "j \<in> set js \<Longrightarrow> size j < Suc (m + size_list size js)" for m
    by (induction js) auto
  then have "j \<in> set js \<Longrightarrow> size j < Suc (size_list size js)" by (metis add_0)
  moreover have "js \<in> set ss \<Longrightarrow> size_list size js \<le> size_list (size_list size) ss"
    by (induction ss) auto
  ultimately show "j \<in> set js \<Longrightarrow> js \<in> set ss \<Longrightarrow> size j < Suc (size_list (size_list size) ss + m)" by fastforce
qed

function words_of :: "node \<Rightarrow> (byte list \<times> int) list" where
  "words_of (Node k l u ss cs) =
     concat (map (\<lambda>js. concat (map (\<lambda>j. case nd_kind j of KData d \<Rightarrow> [([], d)]
         | KLiteral v c \<Rightarrow> map (apfst (Cons v)) (words_of j) | _ \<Rightarrow> words_of j) js)) ss) @
     concat (map (\<lambda>j. case nd_kind j of KData d \<Rightarrow> [([], d)]
         | KLiteral v c \<Rightarrow> map (apfst (Cons v)) (words_of j) | _ \<Rightarrow> words_of j) cs)"
  by pat_completeness auto
termination
  by (relation "measure size") (auto simp: size_in_lists)

definition node_words :: "node \<Rightarrow> (byte list \<times> int) list" where
  "node_words j = (case nd_kind j of KData d \<Rightarrow> [([], d)]
     | KLiteral v c \<Rightarrow> map (apfst (Cons v)) (words_of j) | _ \<Rightarrow> words_of j)"

definition peer_words :: "node list \<Rightarrow> (byte list \<times> int) list" where
  "peer_words js = concat (map node_words js)"

lemma words_of_eq: "words_of n = concat (map peer_words (nd_slots n)) @ peer_words (nd_child n)"
  by (cases n) (simp add: peer_words_def node_words_def cong: map_cong)

declare words_of.simps [simp del]

text \<open>The hits of a list of words at a position: the words that stand there.\<close>

definition hits_at :: "byte list \<Rightarrow> nat \<Rightarrow> nat \<Rightarrow> (byte list \<times> int) list \<Rightarrow> (int \<times> int) list" where
  "hits_at body start p ws =
     map (\<lambda>(w, d). (d mod UNIQUE_BIT_MASK, int (p + length w) - int start)) (filter (\<lambda>(w, d). prefix w (drop p body)) ws)"

lemma hits_at_append [simp]: "hits_at body s p (ws @ vs) = hits_at body s p ws @ hits_at body s p vs"
  by (simp add: hits_at_def)

lemma hits_at_Nil [simp]: "hits_at body s p [] = []"
  by (simp add: hits_at_def)

lemma hits_at_Cons_map:
  assumes "p \<le> length body"
  shows "hits_at body s p (map (apfst (Cons v)) ws) =
    (if p < length body \<and> body ! p = v then hits_at body s (Suc p) ws else [])"
proof (cases "p < length body")
  case True
  then have "drop p body = body ! p # drop (Suc p) body" by (simp add: Cons_nth_drop_Suc)
  then show ?thesis using True by (induction ws) (auto simp: hits_at_def)
next
  case False
  then show ?thesis using assms by (induction ws) (auto simp: hits_at_def)
qed

text \<open>Words whose first character is not the one in the buffer have no hits.\<close>

lemma hits_at_other:
  assumes "p \<le> length body" "\<And>w d. (w, d) \<in> set ws \<Longrightarrow> \<exists>v u. w = v # u \<and> (v \<noteq> (body @ [0]) ! p \<or> p = length body)"
  shows "hits_at body s p ws = []"
proof -
  have "\<not> prefix w (drop p body)" if wd: "(w, d) \<in> set ws" for w d
  proof
    assume pr: "prefix w (drop p body)"
    obtain v u where v: "w = v # u" "v \<noteq> (body @ [0]) ! p \<or> p = length body" using assms(2)[OF wd] by auto
    then have "p < length body" using pr assms(1) by (cases "p = length body") auto
    then show False using pr v by (auto simp: nth_append simp flip: Cons_nth_drop_Suc)
  qed
  then show ?thesis by (auto simp: hits_at_def filter_empty_conv)
qed


lemma Match_peers_concat:
  assumes "\<And>j r. j \<in> set js \<Longrightarrow> ht_set r = None \<Longrightarrow>
      TrieNode_Match mem start j p r = Some (H j \<noteq> [], r\<lparr>ht_list := ht_list r @ H j\<rparr>)"
    and "ht_set r = None"
  shows "Match_peers mem start js p r = Some (concat (map H js) \<noteq> [], r\<lparr>ht_list := ht_list r @ concat (map H js)\<rparr>)"
  using assms
proof (induction js arbitrary: r)
  case (Cons j js)
  have 1: "TrieNode_Match mem start j p r = Some (H j \<noteq> [], r\<lparr>ht_list := ht_list r @ H j\<rparr>)"
    using Cons.prems by simp
  have "Match_peers mem start js p (r\<lparr>ht_list := ht_list r @ H j\<rparr>) = Some (concat (map H js) \<noteq> [],
      (r\<lparr>ht_list := ht_list r @ H j\<rparr>)\<lparr>ht_list := (ht_list r @ H j) @ concat (map H js)\<rparr>)"
    using Cons.IH[of "r\<lparr>ht_list := ht_list r @ H j\<rparr>"] Cons.prems by simp
  then show ?case using 1 by simp
qed simp

lemma hits_at_peers: "hits_at body s p (peer_words js) = concat (map (\<lambda>j. hits_at body s p (node_words j)) js)"
  by (induction js) (simp_all add: peer_words_def)

lemma hits_at_slots:
  assumes ss: "length ss = 16" "\<And>i j. i < 16 \<Longrightarrow> j \<in> set (ss ! i) \<Longrightarrow> \<exists>v. nd_kind j = KLiteral v False \<and> v \<noteq> 0 \<and> unat v mod 16 = i"
    and p: "p \<le> length body"
  shows "hits_at body s p (concat (map peer_words ss)) = hits_at body s p (peer_words (ss ! (unat ((body @ [0]) ! p) mod 16)))"
proof -
  let ?h = "unat ((body @ [0]) ! p) mod 16"
  have o: "hits_at body s p (peer_words (ss ! i)) = []" if i: "i < 16" "i \<noteq> ?h" for i
  proof (rule hits_at_other[OF p])
    fix w d assume "(w, d) \<in> set (peer_words (ss ! i))"
    then obtain j where j: "j \<in> set (ss ! i)" "(w, d) \<in> set (node_words j)" by (auto simp: peer_words_def)
    then obtain v where v: "nd_kind j = KLiteral v False" "v \<noteq> 0" "unat v mod 16 = i" using ss(2) i by blast
    moreover have "v \<noteq> (body @ [0]) ! p" using v(3) i(2) by auto
    ultimately show "\<exists>v u. w = v # u \<and> (v \<noteq> (body @ [0]) ! p \<or> p = length body)"
      using j(2) by (auto simp: node_words_def)
  qed
  have "hits_at body s p (concat (map peer_words ss)) = concat (map (\<lambda>i. hits_at body s p (peer_words (ss ! i))) [0..<16])"
  proof -
    have "map (\<lambda>i. ss ! i) [0..<16] = ss" using ss(1) by (metis map_nth)
    then have "concat (map peer_words ss) = concat (map peer_words (map (\<lambda>i. ss ! i) [0..<16]))" by simp
    then have "concat (map peer_words ss) = concat (map (\<lambda>i. peer_words (ss ! i)) [0..<16])" by (simp add: comp_def)
    moreover have "hits_at body s p (concat xs) = concat (map (hits_at body s p) xs)" for xs
      by (induction xs) simp_all
    ultimately show ?thesis by (simp add: comp_def)
  qed
  also have "\<dots> = concat (map (\<lambda>i. if i = ?h then hits_at body s p (peer_words (ss ! ?h)) else []) [0..<16])"
    by (rule arg_cong[where f = concat], rule map_cong) (use o in auto)
  also have "\<dots> = hits_at body s p (peer_words (ss ! ?h))"
  proof -
    have "concat (map (\<lambda>i. if i = h then x else []) [0..<n]) = (if h < n then x else [])" for h n and x :: "(int \<times> int) list"
      by (induction n) auto
    then show ?thesis by simp
  qed
  finally show ?thesis .
qed

definition searchable :: "node_kind \<Rightarrow> bool" where
  "searchable k \<longleftrightarrow> k = KRoot \<or> (\<exists>d. k = KData d) \<or> (\<exists>v. k = KLiteral v False \<and> v \<noteq> 0)"

lemma rd_body: "p \<le> length body \<Longrightarrow> rd (body @ [0]) p = Some ((body @ [0]) ! p)"
  by (simp add: rd_def)

lemma match_literal:
  assumes "lit_node n"
  shows "searchable (nd_kind n) \<Longrightarrow> p \<le> length body \<Longrightarrow> ht_set r = None \<Longrightarrow>
    TrieNode_Match (body @ [0]) start n p r =
      Some (hits_at body start p (node_words n) \<noteq> [], r\<lparr>ht_list := ht_list r @ hits_at body start p (node_words n)\<rparr>)"
  using assms
proof (induction n arbitrary: p r rule: lit_node.induct)
  case (1 ss cs k)
  let ?n = "Node k 1 1 ss cs"
  have inner: "Match_peers (body @ [0]) start (slot_of ?n ((body @ [0]) ! q)) q r =
      Some (A \<noteq> [], r\<lparr>ht_list := ht_list r @ A\<rparr>)" "Match_peers (body @ [0]) start cs q r =
      Some (B \<noteq> [], r\<lparr>ht_list := ht_list r @ B\<rparr>)"
    if q: "q \<le> length body" and r: "ht_set r = None"
      and A: "A = hits_at body start q (concat (map peer_words ss))" and B: "B = hits_at body start q (peer_words cs)"
    for q and r :: hits and A B
  proof -
    let ?h = "unat ((body @ [0]) ! q) mod 16"
    have s: "slot_of ?n ((body @ [0]) ! q) = ss ! ?h" "?h < 16" using "1.hyps"(1) by (simp_all add: slot_of_def)
    have m: "TrieNode_Match (body @ [0]) start j q r = Some (hits_at body start q (node_words j) \<noteq> [],
        r\<lparr>ht_list := ht_list r @ hits_at body start q (node_words j)\<rparr>)"
      if jb: "j \<in> set (ss ! ?h)" and rn: "ht_set r = None" for j and r :: hits
    proof -
      obtain v where "nd_kind j = KLiteral v False" "v \<noteq> 0" using "1.hyps"(3)[OF s(2) jb] by blast
      then show ?thesis using "1.IH"[OF s(2) jb _ q rn] by (simp add: searchable_def)
    qed
    show "Match_peers (body @ [0]) start (slot_of ?n ((body @ [0]) ! q)) q r = Some (A \<noteq> [], r\<lparr>ht_list := ht_list r @ A\<rparr>)"
    proof -
      have "A = concat (map (\<lambda>j. hits_at body start q (node_words j)) (ss ! ?h))"
        using hits_at_slots[OF "1.hyps"(1,3) q] by (simp add: A hits_at_peers)
      then show ?thesis using Match_peers_concat[OF m r] by (simp add: s(1))
    qed
    have c: "TrieNode_Match (body @ [0]) start j q r = Some (hits_at body start q (node_words j) \<noteq> [],
        r\<lparr>ht_list := ht_list r @ hits_at body start q (node_words j)\<rparr>)"
      if jb: "j \<in> set cs" and rn: "ht_set r = None" for j and r :: hits
    proof -
      obtain d where "nd_kind j = KData d" using "1.hyps"(4)[OF jb] by blast
      then show ?thesis using rn
        by (simp add: TrieNode_Match.simps(1) DataNode_Match_def node_words_def hits_at_def Let_def)
    qed
    show "Match_peers (body @ [0]) start cs q r = Some (B \<noteq> [], r\<lparr>ht_list := ht_list r @ B\<rparr>)"
      unfolding B hits_at_peers by (rule Match_peers_concat[OF c r])
  qed
  have go: "TrieNode_Match (body @ [0]) start ?n p r = Some (hits_at body start q (words_of ?n) \<noteq> [],
      r\<lparr>ht_list := ht_list r @ hits_at body start q (words_of ?n)\<rparr>)"
    if "compare k (body @ [0]) p = Some (True, q)" "q \<le> length body" "\<forall>d. k \<noteq> KData d" for q
    using that(1,3) "1.prems"(3) inner(1)[OF that(2) _ refl, of r] inner(2)[OF that(2) _ refl, of "r\<lparr>ht_list := ht_list r @ hits_at body start q (concat (map peer_words ss))\<rparr>"]
    by (cases k) (simp_all add: TrieNode_Match.simps rd_body[OF that(2)] words_of_eq)
  consider "k = KRoot" | d where "k = KData d" | v where "k = KLiteral v False" "v \<noteq> 0"
    using "1.prems"(1) by (auto simp: searchable_def)
  then show ?case
  proof cases
    case 1
    then show ?thesis using go[of p] "1.prems"(2) by (simp add: compare_def node_words_def)
  next
    case 2
    then show ?thesis using "1.prems"(3)
      by (simp add: TrieNode_Match.simps DataNode_Match_def node_words_def hits_at_def Let_def)
  next
    case 3
    show ?thesis
    proof (cases "p < length body \<and> body ! p = v")
      case True
      then show ?thesis using go[of "Suc p"] 3 "1.prems"(2)
        by (simp add: compare_def rd_def nth_append node_words_def hits_at_Cons_map)
    next
      case False
      then have "(body @ [0]) ! p \<noteq> v" using 3 "1.prems"(2) by (cases "p = length body") (auto simp: nth_append)
      then show ?thesis using 3 "1.prems"(2) False
        by (auto simp: TrieNode_Match.simps compare_def rd_body Let_def node_words_def hits_at_Cons_map)
    qed
  qed
qed


section \<open>Adding literal words\<close>

lemma mset_concat_update:
  "h < length xs \<Longrightarrow> mset (concat (map f (xs[h := x]))) + mset (f (xs ! h)) = mset (concat (map f xs)) + mset (f x)"
proof (induction xs arbitrary: h)
  case (Cons a xs)
  then show ?case by (cases h) (auto simp: ac_simps)
qed simp

lemma mset_concat_replace:
  assumes "h < length xs" "mset (f x) = add_mset a (mset (f (xs ! h)))"
  shows "mset (concat (map f (xs[h := x]))) = add_mset a (mset (concat (map f xs)))"
  using mset_concat_update[OF assms(1), of f x] assms(2) by simp

lemma find_peer_None_data: "find_peer (new_node (KData d)) js = None"
  by (induction js) (auto simp: new_node_def split: prod.splits elim: Compare_literal_nodes.elims)

lemma find_peer_Some:
  "find_peer n js = Some i \<Longrightarrow> i < length js \<and> Compare_literal_nodes (js ! i) n"
  by (induction js arbitrary: i) (auto split: if_splits)

lemma Compare_literal_kind: "Compare_literal_nodes a b \<Longrightarrow> nd_kind a = nd_kind b"
  by (elim Compare_literal_nodes.elims) auto

lemma lit_node_new: "lit_node (new_node k)"
  unfolding new_node_def by (rule lit_node.intros) auto

lemma new_node_fields [simp]:
  "nd_kind (new_node k) = k" "nd_lower (new_node k) = 1" "nd_upper (new_node k) = 1"
  "nd_slots (new_node k) = replicate 16 []" "nd_child (new_node k) = []"
  by (simp_all add: new_node_def)

lemma words_of_new: "words_of (new_node k) = []"
  by (simp add: words_of_eq peer_words_def)

lemma add_literal:
  "lit_node self \<Longrightarrow> 0 \<notin> set w \<Longrightarrow>
   \<exists>n. TrieNode_AddWord self (pre @ w @ [0]) (length pre) (int (length w)) d WORD_LITERAL = Some n \<and>
     lit_node n \<and> nd_kind n = nd_kind self \<and> mset (words_of n) = add_mset (w, s32 d) (mset (words_of self))"
proof (induction w arbitrary: self pre)
  case Nil
  obtain k ss cs where s: "self = Node k 1 1 ss cs" using Nil(1) by (cases self) (auto elim: lit_node_elim)
  let ?n = "Node k 1 1 ss (new_node (KData (s32 d)) # cs)"
  have "lit_node ?n"
    using Nil(1) unfolding s by (elim lit_node_elim, intro lit_node.intros) (auto simp: new_node_def)
  moreover have "mset (words_of ?n) = add_mset ([], s32 d) (mset (words_of self))"
    by (simp add: s words_of_eq peer_words_def node_words_def new_node_def)
  ultimately show ?case
    by (simp add: s TrieNode_AddWord.simps put_peers_def add_unique_to_peer_list_def find_peer_None_data)
next
  case (Cons v w)
  obtain k ss cs where s: "self = Node k 1 1 ss cs" using Cons.prems(1) by (cases self) (auto elim: lit_node_elim)
  have ss: "length ss = 16" using Cons.prems(1) unfolding s by (auto elim: lit_node_elim)
  define h where "h = unat v mod 16"
  have h: "h < 16" by (simp add: h_def)
  let ?l = "new_node (KLiteral v False)"
  have next_n: "next_node (pre @ (v # w) @ [0]) (length pre) (int (length (v # w))) WORD_LITERAL =
      Some (?l, length (pre @ [v]), int (length w))"
    by (simp add: next_node_def LiteralNode_Con_def rd_def)
  have ht: "in_hash_table ?l = Some h" by (simp add: in_hash_table_def new_node_def h_def)
  obtain js i where a: "add_unique_to_peer_list (ss ! h) ?l = (js, i)" by (rule prod.exhaust)
  have js: "i < length js" "lit_node (js ! i)" "nd_kind (js ! i) = KLiteral v False"
    "js = ss ! h \<or> js = js ! i # ss ! h \<and> i = 0 \<and> js ! i = ?l" "mset (peer_words js) = mset (peer_words (ss ! h))"
  proof -
    have sl: "lit_node j" if "j \<in> set (ss ! h)" for j
      using Cons.prems(1) h that unfolding s by (auto elim: lit_node_elim)
    show "i < length js" "lit_node (js ! i)" "nd_kind (js ! i) = KLiteral v False"
      "js = ss ! h \<or> js = js ! i # ss ! h \<and> i = 0 \<and> js ! i = ?l" "mset (peer_words js) = mset (peer_words (ss ! h))"
      using a sl lit_node_new[of "KLiteral v False"]
      by (auto simp: add_unique_to_peer_list_def peer_words_def node_words_def words_of_new
          split: option.splits dest!: find_peer_Some dest: Compare_literal_kind)
  qed
  obtain n where n: "TrieNode_AddWord (js ! i) ((pre @ [v]) @ w @ [0]) (length (pre @ [v])) (int (length w)) d WORD_LITERAL = Some n"
    "lit_node n" "nd_kind n = KLiteral v False" "mset (words_of n) = add_mset (w, s32 d) (mset (words_of (js ! i)))"
    using Cons.IH[OF js(2), of "pre @ [v]"] Cons.prems(2) js(3) by auto
  let ?n = "Node k 1 1 (ss[h := js[i := n]]) cs"
  have run: "TrieNode_AddWord self (pre @ (v # w) @ [0]) (length pre) (int (length (v # w))) d WORD_LITERAL = Some ?n"
    using n(1) a ht by (subst TrieNode_AddWord.simps) (simp add: next_n[simplified] s peers_for_def put_peers_def)
  have "mset (node_words n) = add_mset (v # w, s32 d) (mset (node_words (js ! i)))"
    using n(3,4) js(3) by (simp add: node_words_def)
  then have "mset (peer_words (js[i := n])) = add_mset (v # w, s32 d) (mset (peer_words (ss ! h)))"
    using mset_concat_replace[OF js(1), of node_words n] js(5) by (simp add: peer_words_def)
  then have "mset (words_of ?n) = add_mset (v # w, s32 d) (mset (words_of self))"
    using mset_concat_replace[of h ss peer_words "js[i := n]"] ss h by (simp add: s words_of_eq)
  moreover have "lit_node ?n"
  proof (rule lit_node.intros)
    have o: "lit_node j" "\<exists>v. nd_kind j = KLiteral v False \<and> v \<noteq> 0 \<and> unat v mod 16 = g" if "g < 16" "j \<in> set (ss ! g)" for g j
      using Cons.prems(1) that unfolding s by (auto elim: lit_node_elim)
    have u: "j \<in> set (ss ! g) \<or> g = h \<and> (j = n \<or> j = ?l)" if "g < 16" "j \<in> set (ss[h := js[i := n]] ! g)" for g j
    proof (cases "g = h")
      case True
      then have "j \<in> set (js[i := n])" using that ss by simp
      then have "j \<in> insert n (set js)" using set_update_subset_insert by (rule subsetD[rotated])
      then show ?thesis using js(4) True by auto
    next
      case False
      then show ?thesis using that(2) by simp
    qed
    show "lit_node j" if "g < 16" "j \<in> set (ss[h := js[i := n]] ! g)" for g j
      using u[OF that] o(1) that(1) n(2) lit_node_new by auto
    show "\<exists>v. nd_kind j = KLiteral v False \<and> v \<noteq> 0 \<and> unat v mod 16 = g" if "g < 16" "j \<in> set (ss[h := js[i := n]] ! g)" for g j
      using u[OF that] o(2)[OF that(1)] n(3) Cons.prems(2) by (auto simp: h_def)
    show "\<exists>d. nd_kind j = KData d" if "j \<in> set cs" for j
      using Cons.prems(1) that unfolding s by (auto elim: lit_node_elim)
  qed (use ss in simp)
  ultimately show ?case using run by (auto simp: s)
qed


section \<open>Searching a buffer\<close>

fun add_words :: "trie_index \<Rightarrow> (byte list \<times> int \<times> word_types) list \<Rightarrow> trie_index option" where
  "add_words t [] = Some t"
| "add_words t ((w, d, ty) # ws) = (case trie_index_add_word t w d ty of None \<Rightarrow> None | Some t' \<Rightarrow> add_words t' ws)"

lemma add_words_literal:
  "lit_node (ti_root t) \<Longrightarrow> \<forall>(w, d)\<in>set ws. 0 \<notin> set w \<Longrightarrow>
   \<exists>t'. add_words t (map (\<lambda>(w, d). (w, d, WORD_LITERAL)) ws) = Some t' \<and> lit_node (ti_root t') \<and>
     nd_kind (ti_root t') = nd_kind (ti_root t) \<and> ti_set t' = ti_set t \<and>
     mset (words_of (ti_root t')) = mset (map (apsnd s32) ws) + mset (words_of (ti_root t))"
proof (induction ws arbitrary: t)
  case (Cons x ws)
  obtain w d where x: "x = (w, d)" by (rule prod.exhaust)
  obtain n where n: "trie_index_add_word t w d WORD_LITERAL = Some (t\<lparr>ti_root := n\<rparr>)"
    "lit_node n" "nd_kind n = nd_kind (ti_root t)" "mset (words_of n) = add_mset (w, s32 d) (mset (words_of (ti_root t)))"
    using add_literal[OF Cons.prems(1), of w "[]" d] Cons.prems(2) by (auto simp: x trie_index_add_word_def)
  obtain t' where "add_words (t\<lparr>ti_root := n\<rparr>) (map (\<lambda>(w, d). (w, d, WORD_LITERAL)) ws) = Some t'" "lit_node (ti_root t')"
    "nd_kind (ti_root t') = nd_kind n" "ti_set t' = ti_set t"
    "mset (words_of (ti_root t')) = mset (map (apsnd s32) ws) + mset (words_of n)"
    using Cons.IH[of "t\<lparr>ti_root := n\<rparr>"] n(2) Cons.prems(2) by auto
  then show ?case using n x by simp
qed simp

lemma trie_iter_all_skip:
  assumes "it_i self < it_len self"
    "TrieNode_Match (it_mem self) (it_i self) (ti_root trie) (it_i self) result = Some (False, r)"
  shows "trie_iter_all trie self result = trie_iter_all (trie\<lparr>ti_set := ht_set r\<rparr>) (self\<lparr>it_i := Suc (it_i self)\<rparr>) r"
  using assms by (subst (1 2) trie_iter_all.simps, subst trie_iter_next.simps) simp

lemma trie_iter_all_hit:
  assumes "it_i self < it_len self"
    "TrieNode_Match (it_mem self) (it_i self) (ti_root trie) (it_i self) result = Some (True, r)"
  shows "trie_iter_all trie self result = map_option (\<lambda>(t, hs). (t, (it_i self, ht_list r) # hs))
    (trie_iter_all (trie\<lparr>ti_set := ht_set r\<rparr>) (self\<lparr>it_i := Suc (it_i self)\<rparr>) (r\<lparr>ht_list := []\<rparr>))"
  using assms by (subst trie_iter_all.simps, subst trie_iter_next.simps) simp

lemma trie_iter_all_end:
  "\<not> it_i self < it_len self \<Longrightarrow> trie_iter_all trie self result = Some (trie, [])"
  by (simp add: trie_iter_all.simps trie_iter_next.simps)

lemma trie_iter_all_fault:
  assumes "it_i self < it_len self" "TrieNode_Match (it_mem self) (it_i self) (ti_root trie) (it_i self) result = None"
  shows "trie_iter_all trie self result = None"
  using assms by (subst trie_iter_all.simps, subst trie_iter_next.simps) simp

lemma trie_iter_all_literal:
  assumes "lit_node (ti_root t)" "nd_kind (ti_root t) = KRoot" "ti_set t = None"
  shows "i \<le> length data \<Longrightarrow>
    trie_iter_all t \<lparr>it_mem = data @ [0], it_len = length data, it_i = i\<rparr> \<lparr>ht_set = None, ht_list = []\<rparr> =
     Some (t, map (\<lambda>i. (i, hits_at data i i (words_of (ti_root t))))
       (filter (\<lambda>i. hits_at data i i (words_of (ti_root t)) \<noteq> []) [i..<length data]))"
proof (induction "length data - i" arbitrary: i)
  case 0
  then show ?case by (simp add: trie_iter_all_end)
next
  case (Suc k)
  let ?it = "\<lparr>it_mem = data @ [0], it_len = length data, it_i = i\<rparr>" and ?r = "\<lparr>ht_set = None, ht_list = []\<rparr> :: hits"
  let ?H = "hits_at data i i (words_of (ti_root t))"
  have lt: "i < length data" using Suc by simp
  have w: "node_words (ti_root t) = words_of (ti_root t)" using assms(2) by (simp add: node_words_def)
  have m: "TrieNode_Match (data @ [0]) i (ti_root t) i ?r = Some (?H \<noteq> [], ?r\<lparr>ht_list := ?H\<rparr>)"
    using match_literal[OF assms(1), of i data ?r i] assms(2) lt by (simp add: searchable_def w)
  have t: "t\<lparr>ti_set := None\<rparr> = t" using assms(3) by simp
  have ih: "trie_iter_all t \<lparr>it_mem = data @ [0], it_len = length data, it_i = Suc i\<rparr> ?r =
      Some (t, map (\<lambda>i. (i, hits_at data i i (words_of (ti_root t))))
        (filter (\<lambda>i. hits_at data i i (words_of (ti_root t)) \<noteq> []) [Suc i..<length data]))"
    using Suc.hyps(1)[of "Suc i"] Suc.hyps(2) lt by simp
  have up: "[i..<length data] = i # [Suc i..<length data]" using lt by (simp add: upt_conv_Cons)
  show ?case
  proof (cases "?H = []")
    case True
    then show ?thesis using trie_iter_all_skip[of ?it t ?r] m lt ih t by (simp add: up)
  next
    case False
    then show ?thesis using trie_iter_all_hit[of ?it t ?r] m lt ih t by (simp add: up)
  qed
qed

section \<open>Searching for unique hits\<close>

inductive unique_node :: "node \<Rightarrow> bool" where
  "\<lbrakk>length ss = 16; \<And>d. k = KData d \<Longrightarrow> even (d div UNIQUE_BIT_MASK);
    \<And>js j. js \<in> set ss \<Longrightarrow> j \<in> set js \<Longrightarrow> unique_node j;
    \<And>j. j \<in> set cs \<Longrightarrow> unique_node j\<rbrakk> \<Longrightarrow> unique_node (Node k l u ss cs)"

inductive_cases unique_node_elim: "unique_node (Node k l u ss cs)"

text \<open>What a run adds to the hits: each datum once, none that was reported before, and nothing when it
  finds no match.\<close>

definition adds_new :: "bool \<Rightarrow> hits \<Rightarrow> hits \<Rightarrow> bool" where
  "adds_new f r r' \<longleftrightarrow> (\<not> f \<longrightarrow> r' = r) \<and> (\<forall>S. ht_set r = Some S \<longrightarrow> (\<exists>new. ht_list r' = ht_list r @ new \<and>
     ht_set r' = Some (S \<union> fst ` set new) \<and> distinct (map fst new) \<and> fst ` set new \<inter> S = {}))"

lemma adds_new_refl: "adds_new False r r"
  by (simp add: adds_new_def)

lemma adds_new_trans:
  assumes "adds_new f a b" "adds_new g b c"
  shows "adds_new (f \<or> g) a c"
  unfolding adds_new_def
proof (intro conjI allI impI)
  show "c = a" if "\<not> (f \<or> g)" using assms that by (simp add: adds_new_def)
next
  fix S assume "ht_set a = Some S"
  then obtain n1 where 1: "ht_list b = ht_list a @ n1" "ht_set b = Some (S \<union> fst ` set n1)" "distinct (map fst n1)"
    "fst ` set n1 \<inter> S = {}" using assms(1) unfolding adds_new_def by blast
  then obtain n2 where 2: "ht_list c = ht_list b @ n2" "ht_set c = Some (S \<union> fst ` set n1 \<union> fst ` set n2)"
    "distinct (map fst n2)" "fst ` set n2 \<inter> (S \<union> fst ` set n1) = {}" using assms(2) unfolding adds_new_def by blast
  show "\<exists>new. ht_list c = ht_list a @ new \<and> ht_set c = Some (S \<union> fst ` set new) \<and> distinct (map fst new) \<and> fst ` set new \<inter> S = {}"
    using 1 2 by (intro exI[of _ "n1 @ n2"]) (auto simp: image_Un Un_assoc)
qed

lemma DataNode_Match_new:
  "even (d div UNIQUE_BIT_MASK) \<Longrightarrow> adds_new True r (DataNode_Match d start p r)"
  by (auto simp: adds_new_def DataNode_Match_def Let_def)

lemma TrieNode_Match_inner:
  assumes "\<forall>d. nd_kind self \<noteq> KData d"
    and "compare_times (nat (nd_lower self)) (nd_kind self) mem p = Some (True, q0)"
    and "compare_times (nat (nd_upper self - nd_lower self)) (nd_kind self) mem q0 = Some (b, q)"
    and "rd mem q = Some c"
  shows "TrieNode_Match mem start self p result =
    (case Match_peers mem start (slot_of self c) q result of
       None \<Rightarrow> None
     | Some (f1, result) \<Rightarrow>
         (case Match_peers mem start (nd_child self) q result of
            None \<Rightarrow> None | Some (f2, result) \<Rightarrow> Some (f1 \<or> f2, result)))"
  using assms by (cases "nd_kind self") (simp_all add: TrieNode_Match.simps[of mem start self])

lemma TrieNode_Match_stop:
  assumes "\<forall>d. nd_kind self \<noteq> KData d"
  shows "compare_times (nat (nd_lower self)) (nd_kind self) mem p = None \<Longrightarrow> TrieNode_Match mem start self p result = None"
    "compare_times (nat (nd_lower self)) (nd_kind self) mem p = Some (False, q) \<Longrightarrow>
      TrieNode_Match mem start self p result = Some (False, result)"
    "compare_times (nat (nd_lower self)) (nd_kind self) mem p = Some (True, q) \<Longrightarrow>
      compare_times (nat (nd_upper self - nd_lower self)) (nd_kind self) mem q = None \<Longrightarrow>
      TrieNode_Match mem start self p result = None"
    "compare_times (nat (nd_lower self)) (nd_kind self) mem p = Some (True, q) \<Longrightarrow>
      compare_times (nat (nd_upper self - nd_lower self)) (nd_kind self) mem q = Some (b, q2) \<Longrightarrow> rd mem q2 = None \<Longrightarrow>
      TrieNode_Match mem start self p result = None"
  using assms by (cases "nd_kind self"; simp add: TrieNode_Match.simps[of mem start self])+

lemma TrieNode_Match_run:
  assumes m: "TrieNode_Match mem start self p result = Some (f, r')"
  shows "(\<exists>d. nd_kind self = KData d \<and> f \<and> r' = DataNode_Match d start p result) \<or> \<not> f \<and> r' = result \<or>
    (\<exists>q c f1 r1 f2. Match_peers mem start (slot_of self c) q result = Some (f1, r1) \<and>
       Match_peers mem start (nd_child self) q r1 = Some (f2, r') \<and> f = (f1 \<or> f2))"
proof (cases "\<exists>d. nd_kind self = KData d")
  case True
  then show ?thesis using m by (auto simp: TrieNode_Match.simps[of mem start self])
next
  case False
  then have nd: "\<forall>d. nd_kind self \<noteq> KData d" by simp
  note stop = TrieNode_Match_stop[OF nd]
  obtain b q0 where 1: "compare_times (nat (nd_lower self)) (nd_kind self) mem p = Some (b, q0)"
    using stop(1) m by (cases "compare_times (nat (nd_lower self)) (nd_kind self) mem p") auto
  show ?thesis
  proof (cases b)
    case False
    then show ?thesis using stop(2) 1 m by simp
  next
    case True
    obtain b2 q where 2: "compare_times (nat (nd_upper self - nd_lower self)) (nd_kind self) mem q0 = Some (b2, q)"
      using stop(3) 1 True m by (cases "compare_times (nat (nd_upper self - nd_lower self)) (nd_kind self) mem q0") auto
    obtain c where 3: "rd mem q = Some c" using stop(4) 1 2 True m by (cases "rd mem q") auto
    have "compare_times (nat (nd_lower self)) (nd_kind self) mem p = Some (True, q0)" using 1 True by simp
    note run = TrieNode_Match_inner[OF nd this 2 3, of start result, unfolded m]
    obtain f1 r1 where 4: "Match_peers mem start (slot_of self c) q result = Some (f1, r1)"
      using run by (cases "Match_peers mem start (slot_of self c) q result") auto
    obtain f2 r2 where 5: "Match_peers mem start (nd_child self) q r1 = Some (f2, r2)"
      using run 4 by (cases "Match_peers mem start (nd_child self) q r1") auto
    have "f = (f1 \<or> f2)" "r' = r2" using run 4 5 by simp_all
    then show ?thesis using 4 5 by blast
  qed
qed

lemma Match_peers_new:
  "(\<And>j p r f r'. j \<in> set js \<Longrightarrow> TrieNode_Match mem start j p r = Some (f, r') \<Longrightarrow> adds_new f r r') \<Longrightarrow>
   Match_peers mem start js p r = Some (f, r') \<Longrightarrow> adds_new f r r'"
proof (induction js arbitrary: r f r')
  case (Cons j js)
  obtain f1 r1 f2 where m: "TrieNode_Match mem start j p r = Some (f1, r1)" "Match_peers mem start js p r1 = Some (f2, r')"
    "f = (f1 \<or> f2)"
  proof -
    obtain f1 r1 where 1: "TrieNode_Match mem start j p r = Some (f1, r1)"
      using Cons.prems(2) by (cases "TrieNode_Match mem start j p r") auto
    moreover obtain f2 r2 where 2: "Match_peers mem start js p r1 = Some (f2, r2)"
      using Cons.prems(2) 1 by (cases "Match_peers mem start js p r1") auto
    moreover have "f = (f1 \<or> f2)" "r2 = r'" using Cons.prems(2) 1 2 by simp_all
    ultimately show ?thesis using that by blast
  qed
  have "adds_new f1 r r1" by (rule Cons.prems(1)[OF list.set_intros(1) m(1)])
  moreover have "adds_new f2 r1 r'" by (rule Cons.IH[OF _ m(2)]) (use Cons.prems(1) in \<open>meson list.set_intros(2)\<close>)
  ultimately show ?case using adds_new_trans m(3) by blast
qed (simp add: adds_new_refl)

lemma match_unique:
  assumes "unique_node n"
  shows "TrieNode_Match mem start n p r = Some (f, r') \<Longrightarrow> adds_new f r r'"
  using assms
proof (induction n arbitrary: p r f r' rule: unique_node.induct)
  case (1 ss k cs l u)
  let ?n = "Node k l u ss cs"
  from TrieNode_Match_run[OF "1.prems"] consider d where "k = KData d" "f" "r' = DataNode_Match d start p r" | "\<not> f" "r' = r"
    | q c f1 r1 f2 where "Match_peers mem start (slot_of ?n c) q r = Some (f1, r1)" "Match_peers mem start cs q r1 = Some (f2, r')"
      "f = (f1 \<or> f2)"
    unfolding node.sel by blast
  then show ?case
  proof cases
    case 1
    then show ?thesis using "1.hyps"(2) DataNode_Match_new by simp
  next
    case 2
    then show ?thesis by (simp add: adds_new_refl)
  next
    case 3
    have slot: "\<exists>js. js \<in> set ss \<and> j \<in> set js" if "j \<in> set (slot_of ?n c)" for j
      using that by (auto simp: slot_of_def split: if_splits intro!: exI[of _ "ss ! (unat c mod 16)"])
    have "adds_new f1 r r1" by (rule Match_peers_new[OF _ 3(1)]) (use slot "1.IH"(1) in blast)
    moreover have "adds_new f2 r1 r'" by (rule Match_peers_new[OF _ 3(2)]) (use "1.IH"(2) in blast)
    ultimately show ?thesis unfolding 3(3) by (rule adds_new_trans)
  qed
qed

lemma trie_iter_all_unique:
  "unique_node (ti_root t) \<Longrightarrow> ti_set t = Some S \<Longrightarrow>
   trie_iter_all t \<lparr>it_mem = mem, it_len = n, it_i = i\<rparr> \<lparr>ht_set = Some S, ht_list = []\<rparr> = Some (t', hs) \<Longrightarrow>
   \<exists>ids. ids = map fst (concat (map snd hs)) \<and> distinct ids \<and> set ids \<inter> S = {} \<and> ti_set t' = Some (S \<union> set ids)"
proof (induction "n - i" arbitrary: i t S hs)
  case 0
  then show ?case by (simp add: trie_iter_all_end)
next
  case (Suc m)
  let ?it = "\<lparr>it_mem = mem, it_len = n, it_i = i\<rparr>" and ?r = "\<lparr>ht_set = Some S, ht_list = []\<rparr> :: hits"
  have lt: "i < n" using Suc.hyps(2) by simp
  obtain f r where m: "TrieNode_Match mem i (ti_root t) i ?r = Some (f, r)"
    using Suc.prems(3) trie_iter_all_fault[of ?it t ?r] lt
    by (cases "TrieNode_Match mem i (ti_root t) i ?r") auto
  note an = match_unique[OF Suc.prems(1) m]
  obtain new where new: "ht_list r = new" "ht_set r = Some (S \<union> fst ` set new)" "distinct (map fst new)" "fst ` set new \<inter> S = {}"
    using an by (auto simp: adds_new_def)
  let ?t = "t\<lparr>ti_set := ht_set r\<rparr>"
  note ih = Suc.hyps(1)[of "Suc i" ?t "S \<union> fst ` set new"]
  show ?case
  proof (cases f)
    case True
    obtain hs' where hs': "trie_iter_all ?t \<lparr>it_mem = mem, it_len = n, it_i = Suc i\<rparr> (r\<lparr>ht_list := []\<rparr>) = Some (t', hs')"
      "hs = (i, new) # hs'"
      using Suc.prems(3) trie_iter_all_hit[of ?it t ?r r] m lt True new(1) by auto
    have "r\<lparr>ht_list := []\<rparr> = \<lparr>ht_set = Some (S \<union> fst ` set new), ht_list = []\<rparr>" using new(2) by (cases r) simp
    note run = hs'(1)[unfolded this]
    have "distinct (map fst (concat (map snd hs')))" "set (map fst (concat (map snd hs'))) \<inter> (S \<union> fst ` set new) = {}"
      "ti_set t' = Some (S \<union> fst ` set new \<union> set (map fst (concat (map snd hs'))))"
      using ih[of hs'] Suc.hyps(2) Suc.prems(1) new(2) run by auto
    then show ?thesis using new(3,4) hs'(2) by auto
  next
    case False
    have run: "trie_iter_all ?t \<lparr>it_mem = mem, it_len = n, it_i = Suc i\<rparr> r = Some (t', hs)"
      using Suc.prems(3) trie_iter_all_skip[of ?it t ?r r] m lt False by simp
    have "r = ?r" using an False by (simp add: adds_new_def)
    then show ?thesis using Suc.hyps(1)[of "Suc i" ?t S hs] Suc.hyps(2) Suc.prems(1) run by auto
  qed
qed


lemma CharacterClassNode_Con_kind:
  "CharacterClassNode_Con mem p len = Some (Some k, q, l) \<Longrightarrow> k \<noteq> KData d"
  by (auto simp: CharacterClassNode_Con_def split: bind_split_asm if_splits option.splits)

lemma set_limits_fields [simp]:
  "nd_kind (set_limits l u n) = nd_kind n" "nd_slots (set_limits l u n) = nd_slots n" "nd_child (set_limits l u n) = nd_child n"
  by (simp_all add: set_limits_def)

lemma LiteralNode_Con_fresh:
  "LiteralNode_Con mem b p len = Some (n, q, l) \<Longrightarrow> \<exists>c. n = new_node (KLiteral c b)"
  by (auto simp: LiteralNode_Con_def)

lemma MakeNextNode_fresh:
  assumes a: "MakeNextNode mem p len = Some (n, q, l)"
  shows "nd_slots n = replicate 16 [] \<and> nd_child n = [] \<and> nd_kind n \<noteq> KData d"
proof -
  obtain c where c: "rd mem p = Some c" using a by (auto simp: MakeNextNode_def split: bind_split_asm)
  obtain k q1 l1 n1 q2 l2 where 1: "(if c = 92 then CharacterClassNode_Con mem p len
        else if c = 91 then map_option (\<lambda>(m, q, l). (Some (KClass m), q, l)) (build_character_class mem p len)
        else if c = 46 then Some (Some KWild, p + 1, len - 1) else Some (None, p, len)) = Some (k, q1, l1)"
    "(case k of Some k \<Rightarrow> Some (new_node k, q1, l1) | None \<Rightarrow> LiteralNode_Con mem False q1 l1) = Some (n1, q2, l2)"
    "(if l2 > 0 then do {
       (lower, upper, q, l) \<leftarrow> check_for_repeat mem (nd_lower n1) (nd_upper n1) q2 l2;
       Some (set_limits lower upper n1, q, l)
     } else Some (n1, q2, l2)) = Some (n, q, l)"
    using a by (auto simp: MakeNextNode_def c split: bind_split_asm)
  have "k = Some k' \<Longrightarrow> k' \<noteq> KData d" for k'
    using 1(1) CharacterClassNode_Con_kind by (auto split: if_splits)
  then have "nd_slots n1 = replicate 16 [] \<and> nd_child n1 = [] \<and> nd_kind n1 \<noteq> KData d"
    using 1(2) by (auto split: option.splits dest: LiteralNode_Con_fresh)
  then show ?thesis using 1(3) by (auto split: if_splits bind_split_asm)
qed

lemma next_node_fresh:
  "next_node mem p len ty = Some (n, q, l) \<Longrightarrow> nd_slots n = replicate 16 [] \<and> nd_child n = [] \<and> nd_kind n \<noteq> KData d"
  by (auto simp: next_node_def split: word_types.splits dest: LiteralNode_Con_fresh MakeNextNode_fresh)

lemma unique_node_eq:
  "unique_node n \<longleftrightarrow> length (nd_slots n) = 16 \<and> (\<forall>d. nd_kind n = KData d \<longrightarrow> even (d div UNIQUE_BIT_MASK)) \<and>
     (\<forall>js\<in>set (nd_slots n). \<forall>j\<in>set js. unique_node j) \<and> (\<forall>j\<in>set (nd_child n). unique_node j)"
  by (cases n) (auto elim: unique_node_elim intro: unique_node.intros)

lemma next_node_unique: "next_node mem p len ty = Some (n, q, l) \<Longrightarrow> unique_node n"
  using next_node_fresh[of mem p len ty n q l] by (subst unique_node_eq) fastforce

lemma in_hash_table_less: "in_hash_table n = Some h \<Longrightarrow> h < 16"
  by (auto simp: in_hash_table_def split: node_kind.splits if_splits)

lemma put_peers_unique:
  assumes "unique_node self" "\<forall>j\<in>set js. unique_node j"
  shows "unique_node (put_peers m js self)"
  using assms(1) by (subst unique_node_eq, subst (asm) unique_node_eq)
    (auto simp: put_peers_def assms(2) split: option.splits dest!: set_update_subset_insert[THEN subsetD] intro: assms(2)[rule_format])

lemma peers_for_unique:
  assumes "unique_node self" "j \<in> set (peers_for m self)"
  shows "unique_node j"
proof (cases "Option.bind m in_hash_table")
  case None
  then show ?thesis using assms by (subst (asm) unique_node_eq) (simp add: peers_for_def)
next
  case (Some h)
  then have "h < 16" by (cases m) (auto dest: in_hash_table_less)
  then have "nd_slots self ! h \<in> set (nd_slots self)" using assms(1) by (subst (asm) unique_node_eq) simp
  then show ?thesis using assms Some by (subst (asm) unique_node_eq) (auto simp: peers_for_def)
qed

lemma AddWord_unique:
  "TrieNode_AddWord self mem p len d ty = Some n \<Longrightarrow> unique_node self \<Longrightarrow> even (s32 d div UNIQUE_BIT_MASK) \<Longrightarrow> unique_node n"
proof (induction self mem p len d ty arbitrary: n rule: TrieNode_AddWord.induct)
  case (1 self mem p len d ty)
  show ?case
  proof (cases "len = 0")
    case True
    have "unique_node (new_node (KData (s32 d)))" using "1.prems"(3) by (subst unique_node_eq) simp
    then have "\<forall>j\<in>set (fst (add_unique_to_peer_list (nd_child self) (new_node (KData (s32 d))))). unique_node j"
      using "1.prems"(2) by (subst (asm) (2) unique_node_eq)
        (auto simp: add_unique_to_peer_list_def find_peer_None_data)
    moreover have "n = put_peers None (fst (add_unique_to_peer_list (nd_child self) (new_node (KData (s32 d))))) self"
      using "1.prems"(1) True by (simp add: TrieNode_AddWord.simps[of self mem p 0])
    ultimately show ?thesis using put_peers_unique[OF "1.prems"(2)] by blast
  next
    case False
    obtain m q l where nx: "next_node mem p len ty = Some (m, q, l)"
      using "1.prems"(1) False by (cases "next_node mem p len ty") (auto simp: TrieNode_AddWord.simps[of self mem p len])
    obtain js i where a: "add_unique_to_peer_list (peers_for (Some m) self) m = (js, i)" by (rule prod.exhaust)
    obtain j where j: "TrieNode_AddWord (js ! i) mem q l d ty = Some j" "n = put_peers (Some m) (js[i := j]) self"
      using "1.prems"(1) False nx a by (auto simp: TrieNode_AddWord.simps[of self mem p len])
    have js: "i < length js" "\<forall>x\<in>set js. unique_node x"
      using a peers_for_unique[OF "1.prems"(2)] next_node_unique[OF nx]
      by (auto simp: add_unique_to_peer_list_def split: option.splits dest: find_peer_Some)
    have "unique_node j"
      using "1.IH"[OF False nx refl refl a[symmetric] refl j(1)] js "1.prems"(3) by simp
    then have "\<forall>x\<in>set (js[i := j]). unique_node x"
      using js(2) set_update_subset_insert[of js i j] by blast
    then show ?thesis using put_peers_unique[OF "1.prems"(2)] j(2) by blast
  qed
qed

lemma add_words_unique:
  "add_words t ws = Some t' \<Longrightarrow> unique_node (ti_root t) \<Longrightarrow> \<forall>(w, d, ty)\<in>set ws. even (s32 d div UNIQUE_BIT_MASK) \<Longrightarrow>
   unique_node (ti_root t') \<and> ti_set t' = ti_set t"
proof (induction ws arbitrary: t)
  case (Cons x ws)
  obtain w d ty where x: "x = (w, d, ty)" by (rule prod_cases3)
  obtain n where n: "TrieNode_AddWord (ti_root t) (w @ [0]) 0 (int (length w)) d ty = Some n"
    "add_words (t\<lparr>ti_root := n\<rparr>) ws = Some t'"
    using Cons.prems(1) by (auto simp: x trie_index_add_word_def split: option.splits)
  have "unique_node n" by (rule AddWord_unique[OF n(1) Cons.prems(2)]) (use Cons.prems(3) in \<open>simp add: x\<close>)
  then show ?case using Cons.IH[OF n(2)] Cons.prems(3) by simp
qed simp


lemma lit_node_root: "lit_node RootNode_Con" "nd_kind RootNode_Con = KRoot" "words_of RootNode_Con = []"
  "unique_node RootNode_Con"
  by (simp_all add: RootNode_Con_def lit_node_new words_of_new) (subst unique_node_eq, simp)

lemma trie_iter_all_overread:
  assumes "i \<le> k" "k < n" "\<And>r. TrieNode_Match mem k (ti_root t) k r = None"
  shows "trie_iter_all t \<lparr>it_mem = mem, it_len = n, it_i = i\<rparr> r = None"
  using assms
proof (induction "k - i" arbitrary: i t r)
  case 0
  then have "i = k" by simp
  then show ?case using 0 by (intro trie_iter_all_fault) simp_all
next
  case (Suc m)
  let ?it = "\<lparr>it_mem = mem, it_len = n, it_i = i\<rparr>"
  have ih: "trie_iter_all (t\<lparr>ti_set := S\<rparr>) \<lparr>it_mem = mem, it_len = n, it_i = Suc i\<rparr> r = None" for S r
    using Suc.hyps(1)[of "Suc i" "t\<lparr>ti_set := S\<rparr>" r] Suc.hyps(2) Suc.prems by simp
  have lt: "i < n" using Suc by simp
  show ?case
  proof (cases "TrieNode_Match mem i (ti_root t) i r")
    case None
    then show ?thesis using lt by (intro trie_iter_all_fault) simp_all
  next
    case (Some x)
    obtain f r1 where x: "x = (f, r1)" by (rule prod.exhaust)
    show ?thesis using Some ih lt trie_iter_all_hit[of ?it t r r1] trie_iter_all_skip[of ?it t r r1]
      by (cases f) (auto simp: x)
  qed
qed

lemma compare_times_run:
  assumes "\<And>i. i < k \<Longrightarrow> rd mem (p + i) = Some v" "k \<le> n" "k < n \<Longrightarrow> \<exists>c. rd mem (p + k) = Some c \<and> c \<noteq> v"
  shows "compare_times n (KLiteral v False) mem p = Some (k = n, p + k)"
  using assms
proof (induction n arbitrary: k p)
  case (Suc n)
  show ?case
  proof (cases k)
    case 0
    then show ?thesis using Suc.prems(3) by (auto simp: compare_def)
  next
    case (Suc m)
    have "compare_times n (KLiteral v False) mem (Suc p) = Some (m = n, Suc p + m)"
    proof (rule Suc.IH)
      show "rd mem (Suc p + i) = Some v" if "i < m" for i using Suc.prems(1)[of "Suc i"] that Suc by simp
      show "m \<le> n" using Suc.prems(2) Suc by simp
      show "\<exists>c. rd mem (Suc p + m) = Some c \<and> c \<noteq> v" if "m < n" using Suc.prems(3) Suc that by simp
    qed
    then show ?thesis using Suc.prems(1)[of 0] Suc by (simp add: compare_def)
  qed
qed simp

section \<open>Properties\<close>

text \<open>C28 (searching for literal words). After any number of words without a terminator in them are added as
  literals, indexing any buffer ends without leaving its memory and answers exactly the positions where
  one of the words begins, in order, each with one hit for every word that stands there: its datum, cut
  to 30 bits, and its length.\<close>

theorem index_literal_search:
  assumes "\<forall>(w, d)\<in>set ws. 0 \<notin> set w"
  shows "\<exists>t. add_words (trie_index_init u) (map (\<lambda>(w, d). (w, d, WORD_LITERAL)) ws) = Some t \<and>
    (\<forall>buf. \<exists>t' hs. index_all t buf False = Some (t', hs) \<and>
       map fst hs = filter (\<lambda>i. \<exists>(w, d)\<in>set ws. prefix w (drop i buf)) [0..<length buf] \<and>
       (\<forall>(i, h)\<in>set hs. mset h = image_mset (\<lambda>(w, d). (s32 d mod UNIQUE_BIT_MASK, int (length w)))
          (filter_mset (\<lambda>(w, d). prefix w (drop i buf)) (mset ws))))"
proof -
  obtain t where t: "add_words (trie_index_init u) (map (\<lambda>(w, d). (w, d, WORD_LITERAL)) ws) = Some t"
    "lit_node (ti_root t)" "nd_kind (ti_root t) = KRoot" "mset (words_of (ti_root t)) = mset (map (apsnd s32) ws)"
    using add_words_literal[of "trie_index_init u" ws] assms by (auto simp: trie_index_init_def lit_node_root)
  let ?t = "t\<lparr>ti_set := None\<rparr>" and ?W = "words_of (ti_root t)"
  have "\<exists>t' hs. index_all t buf False = Some (t', hs) \<and>
       map fst hs = filter (\<lambda>i. \<exists>(w, d)\<in>set ws. prefix w (drop i buf)) [0..<length buf] \<and>
       (\<forall>(i, h)\<in>set hs. mset h = image_mset (\<lambda>(w, d). (s32 d mod UNIQUE_BIT_MASK, int (length w)))
          (filter_mset (\<lambda>(w, d). prefix w (drop i buf)) (mset ws)))" for buf
  proof -
    have run: "index_all t buf False = Some (?t, map (\<lambda>i. (i, hits_at buf i i ?W))
        (filter (\<lambda>i. hits_at buf i i ?W \<noteq> []) [0..<length buf]))"
      using trie_iter_all_literal[of ?t 0 buf] t(2,3)
      by (simp add: index_all_def trie_index_index_buffer_def trie_iter_init_def)
    have m: "mset (hits_at buf i i ?W) = image_mset (\<lambda>(w, d). (s32 d mod UNIQUE_BIT_MASK, int (length w)))
        (filter_mset (\<lambda>(w, d). prefix w (drop i buf)) (mset ws))" for i
    proof -
      have "mset (hits_at buf i i ?W) = image_mset (\<lambda>(w, d). (d mod UNIQUE_BIT_MASK, int (i + length w) - int i))
          (filter_mset (\<lambda>(w, d). prefix w (drop i buf)) (mset ?W))" by (simp add: hits_at_def)
      then show ?thesis unfolding t(4)
        by (simp add: filter_mset_image_mset image_mset.compositionality comp_def case_prod_unfold)
    qed
    have "hits_at buf i i ?W \<noteq> [] \<longleftrightarrow> (\<exists>(w, d)\<in>set ws. prefix w (drop i buf))" for i
    proof -
      have "hits_at buf i i ?W = [] \<longleftrightarrow> filter_mset (\<lambda>(w, d). prefix w (drop i buf)) (mset ws) = {#}"
        using m[of i] by (metis image_mset_is_empty_iff mset_zero_iff)
      then show ?thesis by (auto simp: filter_empty_conv simp flip: mset_filter)
    qed
    then show ?thesis using run m by (auto simp: comp_def)
  qed
  then show ?thesis using t(1) by blast
qed

text \<open>C32 (unique hits). In an index that only has data below \<open>UNIQUE_BIT_MASK\<close>, whatever the types of
  its words are, a search for unique hits reports no datum twice and none that was in the set before,
  and the set afterwards has the new ones.\<close>

theorem index_unique_hits:
  assumes "add_words (trie_index_init u) ws = Some t0" and "\<forall>(w, d, ty)\<in>set ws. 0 \<le> d \<and> d < UNIQUE_BIT_MASK"
    and "t = t0\<lparr>ti_set := Some S\<rparr>" and "index_all t buf True = Some (t', hs)"
    and "ids = map fst (concat (map snd hs))"
  shows "distinct ids \<and> set ids \<inter> S = {} \<and> ti_set t' = Some (S \<union> set ids)"
proof -
  have "even (s32 d div UNIQUE_BIT_MASK)" if "0 \<le> d" "d < UNIQUE_BIT_MASK" for d
    using that by (simp add: UNIQUE_BIT_MASK_def s32_id)
  then have "\<forall>(w, d, ty)\<in>set ws. even (s32 d div UNIQUE_BIT_MASK)" using assms(2) by fast
  then have "unique_node (ti_root t)"
    using add_words_unique[OF assms(1)] assms(3) by (simp add: trie_index_init_def lit_node_root)
  then show ?thesis
    using trie_iter_all_unique[of t S "buf @ [0]" "length buf" 0 t' hs] assms(3-5)
    by (auto simp: index_all_def trie_index_index_buffer_def trie_iter_init_def)
qed

text \<open>The wildcard moves on without a look at the character or at the
  length that is left: an index with the expression of two wildcards reads behind the terminator of
  every buffer that has a byte.\<close>

theorem index_wildcard_overread:
  assumes "buf \<noteq> []"
  shows "\<exists>t. trie_index_add_word (trie_index_init u) [46, 46] d WORD_EXTENDED = Some t \<and>
    index_all t buf unique = None"
proof -
  let ?dots = "Node KRoot 1 1 (replicate 16 []) [Node KWild 1 1 (replicate 16 [])
    [Node KWild 1 1 (replicate 16 []) [new_node (KData (s32 d))]]]"
  have a: "trie_index_add_word (trie_index_init u) [46, 46] d WORD_EXTENDED = Some ((trie_index_init u)\<lparr>ti_root := ?dots\<rparr>)"
    by (simp add: trie_index_add_word_def trie_index_init_def RootNode_Con_def new_node_def TrieNode_AddWord.simps next_node_def
        MakeNextNode_def rd_def check_for_repeat_def set_limits_def peers_for_def put_peers_def in_hash_table_def
        add_unique_to_peer_list_def)
  have m: "TrieNode_Match (buf @ [0]) k ?dots k r = None" if "k = length buf - 1" for k r
    using that assms
    by (simp add: TrieNode_Match.simps compare_def rd_def slot_of_def nth_replicate)
  have "trie_iter_all \<lparr>ti_root = ?dots, ti_set = S\<rparr> \<lparr>it_mem = buf @ [0], it_len = length buf, it_i = 0\<rparr> r = None" for S r
    by (rule trie_iter_all_overread[of 0 "length buf - 1"]) (use assms m in simp_all)
  then show ?thesis unfolding a
    by (simp add: index_all_def trie_index_index_buffer_def trie_iter_init_def trie_index_init_def)
qed


lemma trie_iter_all_no_hits:
  assumes "\<And>j. i \<le> j \<Longrightarrow> j < n \<Longrightarrow> TrieNode_Match mem j (ti_root t) j r = Some (False, r)" "ti_set t = ht_set r"
  shows "trie_iter_all t \<lparr>it_mem = mem, it_len = n, it_i = i\<rparr> r = Some (t, [])"
  using assms
proof (induction "n - i" arbitrary: i)
  case 0
  then show ?case by (simp add: trie_iter_all_end)
next
  case (Suc m)
  let ?it = "\<lparr>it_mem = mem, it_len = n, it_i = i\<rparr>"
  have "t\<lparr>ti_set := ht_set r\<rparr> = t" using Suc.prems(2) by simp
  moreover have "trie_iter_all t \<lparr>it_mem = mem, it_len = n, it_i = Suc i\<rparr> r = Some (t, [])"
    using Suc.hyps Suc.prems by simp
  moreover have "trie_iter_all t ?it r = trie_iter_all (t\<lparr>ti_set := ht_set r\<rparr>) (?it\<lparr>it_i := Suc (it_i ?it)\<rparr>) r"
    by (rule trie_iter_all_skip) (use Suc in auto)
  ultimately show ?case by simp
qed

text \<open>The case of \<open>?\<close> sets a limit of one occurrence and then goes the
  way of the other operators, which sets it to \<open>MAX_MATCH_LENGTH\<close>: the expression \<open>ab?c\<close> finds
  every text with up to a hundred \<open>b\<close> between its two ends.\<close>

theorem index_question_mark:
  assumes "k \<le> 100"
  shows "\<exists>t. trie_index_add_word (trie_index_init False) [97, 98, 63, 99] d WORD_EXTENDED = Some t \<and>
    index_all t ([97] @ replicate k 98 @ [99]) False = Some (t, [(0, [(s32 d mod UNIQUE_BIT_MASK, int k + 2)])])"
proof -
  let ?buf = "[97] @ replicate k 98 @ [99] :: byte list"
  let ?C = "Node (KLiteral 99 False) 1 1 (replicate 16 []) [new_node (KData (s32 d))]"
  let ?B = "Node (KLiteral 98 False) 0 100 ((replicate 16 [])[3 := [?C]]) []"
  let ?A = "Node (KLiteral 97 False) 1 1 (replicate 16 []) [?B]"
  let ?t = "\<lparr>ti_root = Node KRoot 1 1 ((replicate 16 [])[1 := [?A]]) [], ti_set = None\<rparr>"
  let ?r = "\<lparr>ht_set = None, ht_list = []\<rparr> :: hits"
  have a: "trie_index_add_word (trie_index_init False) [97, 98, 63, 99] d WORD_EXTENDED = Some ?t"
    by (simp add: trie_index_add_word_def trie_index_init_def RootNode_Con_def new_node_def TrieNode_AddWord.simps next_node_def
        MakeNextNode_def LiteralNode_Con_def rd_def check_for_repeat_def set_limits_def peers_for_def put_peers_def in_hash_table_def
        add_unique_to_peer_list_def MAX_MATCH_LENGTH_def)
  have other: "TrieNode_Match (?buf @ [0]) j (ti_root ?t) j r = Some (False, r)" if "1 \<le> j" "j < length ?buf" for j r
  proof -
    have "(?buf @ [0]) ! j = (if j = Suc k then 99 else 98)" using that by (auto simp: nth_append nth_Cons split: nat.split)
    then show ?thesis using that
      by (simp add: TrieNode_Match.simps[of _ _ "Node KRoot 1 1 ss cs" for ss cs] compare_def rd_def slot_of_def)
  qed
  have times: "compare_times 100 (KLiteral 98 False) (?buf @ [0]) 1 = Some (k = 100, 1 + k)"
    by (rule compare_times_run) (use assms in \<open>auto simp: rd_def nth_append\<close>)
  have nth: "(?buf @ [0]) ! Suc k = 99" "(?buf @ [0]) ! Suc (Suc k) = 0" by (simp_all add: nth_append)
  have C: "TrieNode_Match (?buf @ [0]) 0 ?C (Suc k) ?r = Some (True, ?r\<lparr>ht_list := [(s32 d mod UNIQUE_BIT_MASK, int k + 2)]\<rparr>)"
    using nth by (simp add: TrieNode_Match.simps compare_def rd_def slot_of_def DataNode_Match_def Let_def)
  have B: "TrieNode_Match (?buf @ [0]) 0 ?B 1 ?r = Some (True, ?r\<lparr>ht_list := [(s32 d mod UNIQUE_BIT_MASK, int k + 2)]\<rparr>)"
    using times nth(1) C by (simp add: TrieNode_Match.simps[of _ _ ?B] rd_def slot_of_def)
  have A: "TrieNode_Match (?buf @ [0]) 0 ?A 0 ?r = Some (True, ?r\<lparr>ht_list := [(s32 d mod UNIQUE_BIT_MASK, int k + 2)]\<rparr>)"
    using B by (simp add: TrieNode_Match.simps[of _ _ ?A] compare_def rd_def slot_of_def nth_replicate)
  have root: "TrieNode_Match (?buf @ [0]) 0 (ti_root ?t) 0 ?r = Some (True, ?r\<lparr>ht_list := [(s32 d mod UNIQUE_BIT_MASK, int k + 2)]\<rparr>)"
    using A by (simp add: TrieNode_Match.simps[of _ _ "Node KRoot 1 1 ss cs" for ss cs] compare_def rd_def slot_of_def)
  have "trie_iter_all ?t \<lparr>it_mem = ?buf @ [0], it_len = length ?buf, it_i = 1\<rparr> ?r = Some (?t, [])"
    by (rule trie_iter_all_no_hits) (use other in auto)
  moreover have "trie_iter_all ?t \<lparr>it_mem = ?buf @ [0], it_len = length ?buf, it_i = 0\<rparr> ?r =
      map_option (\<lambda>(t, hs). (t, (0, [(s32 d mod UNIQUE_BIT_MASK, int k + 2)]) # hs))
        (trie_iter_all ?t \<lparr>it_mem = ?buf @ [0], it_len = length ?buf, it_i = 1\<rparr> ?r)"
    using trie_iter_all_hit[of "\<lparr>it_mem = ?buf @ [0], it_len = length ?buf, it_i = 0\<rparr>" ?t ?r
        "?r\<lparr>ht_list := [(s32 d mod UNIQUE_BIT_MASK, int k + 2)]\<rparr>"] root by simp
  ultimately have "trie_iter_all ?t \<lparr>it_mem = ?buf @ [0], it_len = length ?buf, it_i = 0\<rparr> ?r =
      Some (?t, [(0, [(s32 d mod UNIQUE_BIT_MASK, int k + 2)])])" by simp
  then show ?thesis using a by (simp add: index_all_def trie_index_index_buffer_def trie_iter_init_def)
qed

section \<open>Concrete runs\<close>

definition demo_words :: "(byte list \<times> int) list" where
  "demo_words = [([97, 98], 7), ([98], 9), ([97, 98], 11)]"

lemma index_literal_search_witness:
  "\<exists>t t' hs. add_words (trie_index_init False) (map (\<lambda>(w, d). (w, d, WORD_LITERAL)) demo_words) = Some t \<and>
     index_all t [97, 98, 97] False = Some (t', hs) \<and> map fst hs = [0, 1]"
proof -
  have "\<forall>(w, d)\<in>set demo_words. 0 \<notin> set w" by (simp add: demo_words_def)
  from index_literal_search[OF this, of False] obtain t where t:
    "add_words (trie_index_init False) (map (\<lambda>(w, d). (w, d, WORD_LITERAL)) demo_words) = Some t"
    "\<forall>buf. \<exists>t' hs. index_all t buf False = Some (t', hs) \<and>
       map fst hs = filter (\<lambda>i. \<exists>(w, d)\<in>set demo_words. prefix w (drop i buf)) [0..<length buf]" by blast
  have "filter (\<lambda>i. \<exists>(w, d)\<in>set demo_words. prefix w (drop i [97, 98, 97 :: byte])) [0..<length [97, 98, 97 :: byte]] = [0, 1]"
    by (simp add: demo_words_def upt_rec)
  moreover obtain t' hs where "index_all t [97, 98, 97] False = Some (t', hs)"
    "map fst hs = filter (\<lambda>i. \<exists>(w, d)\<in>set demo_words. prefix w (drop i [97, 98, 97])) [0..<length [97, 98, 97 :: byte]]"
    using t(2)[rule_format, of "[97, 98, 97]"] by blast
  ultimately show ?thesis using t(1) by auto
qed

lemma index_unique_hits_witness:
  "\<exists>t t' hs. add_words (trie_index_init True) [([97], 7, WORD_LITERAL), ([98, 42], 9, WORD_EXTENDED)] = Some t \<and>
     index_all t [97, 97, 98] True = Some (t', hs) \<and> distinct (map fst (concat (map snd hs)))"
proof -
  have run: "(case add_words (trie_index_init True) [([97], 7, WORD_LITERAL), ([98, 42], 9, WORD_EXTENDED)] of
      None \<Rightarrow> False | Some t \<Rightarrow> ti_set t = Some {} \<and> index_all t [97, 97, 98] True \<noteq> None)" by code_simp
  then obtain t where t: "add_words (trie_index_init True) [([97], 7, WORD_LITERAL), ([98, 42], 9, WORD_EXTENDED)] = Some t"
    "ti_set t = Some {}" "index_all t [97, 97, 98] True \<noteq> None" by (auto split: option.splits)
  then obtain t' hs where i: "index_all t [97, 97, 98] True = Some (t', hs)" by auto
  have "t = t\<lparr>ti_set := Some {}\<rparr>" using t(2) by simp
  from index_unique_hits[OF t(1) _ this i refl] show ?thesis using t(1) i by (auto simp: UNIQUE_BIT_MASK_def)
qed

lemma index_wildcard_overread_witness:
  "\<exists>t. trie_index_add_word (trie_index_init False) [46, 46] 5 WORD_EXTENDED = Some t \<and> index_all t [1, 2, 3] False = None"
  using index_wildcard_overread[of "[1, 2, 3]" False 5 False] by auto

lemma index_question_mark_witness:
  "\<exists>t. trie_index_add_word (trie_index_init False) [97, 98, 63, 99] 5 WORD_EXTENDED = Some t \<and>
    index_all t [97, 98, 98, 98, 99] False = Some (t, [(0, [(5, 5)])])"
  using index_question_mark[of 3 5] by (simp add: numeral_3_eq_3 UNIQUE_BIT_MASK_def s32_def)

end
