(* ===== verification/RC4_Channel.thy ===== *)
theory RC4_Channel
  imports String_IO "HOL-Library.Multiset"
begin

unbundle bit_operations_syntax

text \<open>
  The encrypted connection of the remote client and server: the cipher of \<open>src/src/remote/rc4.c\<close>, whose
  state each end keeps for the whole connection, and the sending and receiving of
  \<open>src/src/remote/remote.c\<close>, which encrypt into a queue and decrypt what arrives. A socket is the bytes on
  the way and the answers of the system to the calls that follow: how many bytes a call may move, zero
  for the end of the connection, negative for an error. A call that has no answer does not return.
\<close>

section \<open>RC4\<close>

record rc4 =
  rc_sbox :: "byte list"
  rc_i :: nat
  rc_j :: nat

definition swap_sbox :: "nat \<Rightarrow> nat \<Rightarrow> byte list \<Rightarrow> byte list" where
  "swap_sbox a b S = S[a := S ! b, b := S ! a]"

fun key_schedule :: "byte list \<Rightarrow> nat list \<Rightarrow> nat \<Rightarrow> byte list \<Rightarrow> byte list" where
  "key_schedule key [] j S = S"
| "key_schedule key (i # is) j S =
     (let j = (j + unat (S ! i) + unat (key ! (i mod length key))) mod 256
      in key_schedule key is j (swap_sbox i j S))"

text \<open>A key of no bytes is a division by zero.\<close>

definition RC4_Con :: "byte list \<Rightarrow> rc4 option" where
  "RC4_Con key =
     (if key = [] then None
      else Some \<lparr>rc_sbox = key_schedule key [0..<256] 0 (map of_nat [0..<256]), rc_i = 0, rc_j = 0\<rparr>)"

definition RC4_getc :: "rc4 \<Rightarrow> rc4 \<times> byte" where
  "RC4_getc self =
     (let i = (rc_i self + 1) mod 256;
          j = (rc_j self + unat (rc_sbox self ! i)) mod 256;
          S = swap_sbox i j (rc_sbox self)
      in (\<lparr>rc_sbox = S, rc_i = i, rc_j = j\<rparr>, S ! ((unat (S ! i) + unat (S ! j)) mod 256)))"

fun RC4_crypt :: "rc4 \<Rightarrow> byte list \<Rightarrow> rc4 \<times> byte list" where
  "RC4_crypt self [] = (self, [])"
| "RC4_crypt self (d # data) =
     (let (self, k) = RC4_getc self; (self, out) = RC4_crypt self data in (self, (d XOR k) # out))"

section \<open>The connection\<close>

record socket =
  so_wire :: "byte list"
  so_answers :: "int list"

definition sys_recv :: "socket \<Rightarrow> nat \<Rightarrow> (socket \<times> (byte list option)) option" where
  "sys_recv fd len =
     (case so_answers fd of
        [] \<Rightarrow> None
      | a # as \<Rightarrow>
          if a < 0 then Some (fd\<lparr>so_answers := as\<rparr>, None)
          else let n = min (nat a) len
               in Some (\<lparr>so_wire = drop n (so_wire fd), so_answers = as\<rparr>, Some (take n (so_wire fd))))"

definition sys_send :: "socket \<Rightarrow> byte list \<Rightarrow> (socket \<times> int) option" where
  "sys_send fd data =
     (case so_answers fd of
        [] \<Rightarrow> None
      | a # as \<Rightarrow>
          if a < 0 then Some (fd\<lparr>so_answers := as\<rparr>, -1)
          else let n = min (nat a) (length data)
               in Some (\<lparr>so_wire = so_wire fd @ take n data, so_answers = as\<rparr>, int n))"

text \<open>The loop that collects the bytes; \<open>None\<close> inside is the error. The answers run out at last.\<close>

function recv_loop :: "socket \<Rightarrow> nat \<Rightarrow> byte list \<Rightarrow> (socket \<times> byte list option) option" where
  "recv_loop fd len buffer =
     (if length buffer < len then
        (case sys_recv fd (len - length buffer) of
           None \<Rightarrow> None
         | Some (fd', None) \<Rightarrow> Some (fd', None)
         | Some (fd', Some []) \<Rightarrow> Some (fd', Some buffer)
         | Some (fd', Some (x # xs)) \<Rightarrow> recv_loop fd' len (buffer @ x # xs))
      else Some (fd, Some buffer))"
  by pat_completeness auto
termination
  by (relation "measure (\<lambda>(fd, len, buffer). length (so_answers fd))")
    (auto simp: sys_recv_def Let_def split: list.splits if_splits)

declare recv_loop.simps [simp del]

text \<open>The answer is the number of bytes, and the bytes as they are in the buffer.\<close>

definition read_from_network :: "socket \<Rightarrow> nat \<Rightarrow> rc4 \<Rightarrow> (socket \<times> rc4 \<times> byte list) option" where
  "read_from_network fd len rc4 =
     (if len = 0 then Some (fd, rc4, [])
      else case recv_loop fd len [] of
             None \<Rightarrow> None
           | Some (fd, None) \<Rightarrow> Some (fd, rc4, [])
           | Some (fd, Some buffer) \<Rightarrow> let (rc4, out) = RC4_crypt rc4 buffer in Some (fd, rc4, out))"

definition queue_for_sending :: "stringio \<Rightarrow> byte list \<Rightarrow> rc4 \<Rightarrow> (stringio \<times> rc4) option" where
  "queue_for_sending queue original_buffer rc4 =
     (let (rc4, buffer) = RC4_crypt rc4 original_buffer
      in map_option (\<lambda>(queue, _). (queue, rc4)) (StringIO_write queue buffer))"

function send_loop :: "socket \<Rightarrow> byte list \<Rightarrow> (socket \<times> bool) option" where
  "send_loop fd data =
     (if data = [] then Some (fd, True)
      else case sys_send fd data of
             None \<Rightarrow> None
           | Some (fd', l) \<Rightarrow> if l \<le> 0 then Some (fd', False) else send_loop fd' (drop (nat l) data))"
  by pat_completeness auto
termination
  by (relation "measure (\<lambda>(fd, data). length data)") auto

declare send_loop.simps [simp del]

definition write_to_network :: "socket \<Rightarrow> stringio \<Rightarrow> (socket \<times> stringio \<times> int) option" where
  "write_to_network fd queue =
     (let len = sio_size queue
      in if len = 0 then Some (fd, queue, 1)
         else do {
           data \<leftarrow> mem_read (sio_data queue) 0 len;
           (fd, ok) \<leftarrow> send_loop fd data;
           if \<not> ok then Some (fd, queue, 0) else Some (fd, StringIO_truncate queue 0, len)
         })"

text \<open>\<open>htonl\<close> exchanges the bytes of a word on a little endian machine; the 64 bit version puts the
  exchanged halves together.\<close>

definition htonl :: "int \<Rightarrow> int" where
  "htonl x = le_val (be_bytes 4 (u32 x))"

definition htonll :: "int \<Rightarrow> int" where
  "htonll x = (let left = u32 (x div 4294967296); right = htonl (u32 x) in htonl left + right * 4294967296)"

section \<open>The state box stays a permutation of the bytes\<close>

definition rc4_ok :: "rc4 \<Rightarrow> bool" where
  "rc4_ok c \<longleftrightarrow> mset (rc_sbox c) = mset (map of_nat [0..<256]) \<and> rc_i c < 256 \<and> rc_j c < 256"

lemma mset_swap_sbox: "a < length S \<Longrightarrow> b < length S \<Longrightarrow> mset (swap_sbox a b S) = mset S"
  by (simp add: swap_sbox_def mset_swap)

lemma length_swap_sbox [simp]: "length (swap_sbox a b S) = length S"
  by (simp add: swap_sbox_def)

lemma key_schedule_mset: "set is \<subseteq> {..<length S} \<Longrightarrow> length S = 256 \<Longrightarrow> mset (key_schedule key is j S) = mset S"
  by (induction key "is" j S rule: key_schedule.induct) (auto simp: Let_def mset_swap_sbox)

lemma rc4_ok_length: "rc4_ok c \<Longrightarrow> length (rc_sbox c) = 256"
  by (simp add: rc4_ok_def flip: size_mset)

lemma RC4_Con_ok: "RC4_Con key = Some c \<Longrightarrow> rc4_ok c"
proof -
  let ?S = "map of_nat [0..<256] :: byte list"
  assume "RC4_Con key = Some c"
  moreover have "set [0..<256] \<subseteq> {..<length ?S}" "length ?S = 256" by (auto simp del: upt_rec_numeral)
  ultimately show "rc4_ok c"
    using key_schedule_mset[of "[0..<256]" ?S key 0]
    by (auto simp: RC4_Con_def rc4_ok_def simp del: upt_rec_numeral split: if_splits)
qed

lemma RC4_getc_ok: "rc4_ok c \<Longrightarrow> rc4_ok (fst (RC4_getc c))"
  using rc4_ok_length[of c] by (auto simp: RC4_getc_def rc4_ok_def Let_def mset_swap_sbox simp del: upt_rec_numeral)

lemma RC4_crypt_ok: "rc4_ok c \<Longrightarrow> rc4_ok (fst (RC4_crypt c data))"
proof (induction c data rule: RC4_crypt.induct)
  case (2 c d data)
  then show ?case using RC4_getc_ok[of c] by (auto split: prod.splits)
qed simp

lemma length_RC4_crypt [simp]: "length (snd (RC4_crypt c data)) = length data"
  by (induction c data rule: RC4_crypt.induct) (auto split: prod.splits)

lemma RC4_crypt_append:
  "RC4_crypt c (xs @ ys) =
     (let (c', out) = RC4_crypt c xs; (c'', out') = RC4_crypt c' ys in (c'', out @ out'))"
  by (induction c xs rule: RC4_crypt.induct) (auto split: prod.splits)

text \<open>Two ends that start from the same state stay in the same state, and the second undoes the first.\<close>

lemma RC4_crypt_crypt: "RC4_crypt c data = (c', out) \<Longrightarrow> RC4_crypt c out = (c', data)"
proof (induction c data arbitrary: c' out rule: RC4_crypt.induct)
  case (2 c d data)
  obtain c1 k where g: "RC4_getc c = (c1, k)" by (cases "RC4_getc c")
  obtain c2 o1 where r: "RC4_crypt c1 data = (c2, o1)" by (cases "RC4_crypt c1 data")
  from 2(1)[OF g[symmetric] refl r] have "RC4_crypt c1 o1 = (c2, data)" .
  moreover have "c' = c2" "out = (d XOR k) # o1" using 2(2) g r by auto
  ultimately show ?case using g by (simp add: xor.assoc)
qed simp

text \<open>Ciphertext read in pieces: what the first piece leaves is decrypted by the state it leaves.\<close>

lemma RC4_crypt_split:
  assumes "RC4_crypt c (xs @ ys) = (c', plain)"
  obtains c1 p1 p2 where "RC4_crypt c xs = (c1, p1)" "RC4_crypt c1 ys = (c', p2)" "plain = p1 @ p2"
proof -
  obtain c1 p1 where 1: "RC4_crypt c xs = (c1, p1)" by (cases "RC4_crypt c xs")
  obtain c2 p2 where 2: "RC4_crypt c1 ys = (c2, p2)" by (cases "RC4_crypt c1 ys")
  show ?thesis using that[OF 1] 2 assms 1 by (simp add: RC4_crypt_append)
qed

section \<open>A connection that the system does not break\<close>

definition answers_ok :: "socket \<Rightarrow> nat \<Rightarrow> bool" where
  "answers_ok fd n \<longleftrightarrow> n \<le> length (so_answers fd) \<and> (\<forall>a\<in>set (so_answers fd). 0 < a)"

text \<open>However the bytes are cut on the way, the loop collects the length it was asked for.\<close>

lemma recv_loop_collects:
  assumes "answers_ok fd m" and "len - length buffer \<le> m" and "len - length buffer \<le> length (so_wire fd)"
    and "length buffer \<le> len"
  shows "\<exists>fd'. recv_loop fd len buffer = Some (fd', Some (buffer @ take (len - length buffer) (so_wire fd))) \<and>
    so_wire fd' = drop (len - length buffer) (so_wire fd) \<and> answers_ok fd' (m - (len - length buffer))"
  using assms
proof (induction fd len buffer arbitrary: m rule: recv_loop.induct)
  case (1 fd len buffer)
  show ?case
  proof (cases "length buffer < len")
    case False
    then show ?thesis using "1.prems" by (simp add: recv_loop.simps[of fd])
  next
    case True
    let ?k = "len - length buffer"
    obtain a as where as: "so_answers fd = a # as" and a: "0 < a" "\<forall>x\<in>set as. 0 < x" and m: "m \<le> Suc (length as)"
      using "1.prems" True by (cases "so_answers fd") (auto simp: answers_ok_def)
    define n where "n = min (nat a) ?k"
    have n: "0 < n" "n \<le> ?k" using a True by (auto simp: n_def)
    obtain x xs where xs: "take n (so_wire fd) = x # xs"
      using n "1.prems"(3) by (cases "take n (so_wire fd)") auto
    then have l: "n = Suc (length xs)" using n "1.prems"(3) by (metis length_Cons length_take min.absorb2 order_trans)
    let ?fd = "\<lparr>so_wire = drop n (so_wire fd), so_answers = as\<rparr>"
    have r: "sys_recv fd ?k = Some (?fd, Some (x # xs))"
      using as a xs by (simp add: sys_recv_def Let_def n_def)
    have "answers_ok ?fd (m - n)" using a(2) m n by (simp add: answers_ok_def)
    moreover have e: "len - length (buffer @ x # xs) = ?k - n" using l by simp
    moreover have "?k - n \<le> m - n" "?k - n \<le> length (so_wire ?fd)" "length (buffer @ x # xs) \<le> len"
      using "1.prems" n l by auto
    ultimately obtain fd' where
      fd': "recv_loop ?fd len (buffer @ x # xs) =
          Some (fd', Some ((buffer @ x # xs) @ take (?k - n) (so_wire ?fd)))"
        "so_wire fd' = drop (?k - n) (so_wire ?fd)" "answers_ok fd' (m - n - (?k - n))"
      using "1.IH"[OF True r refl refl refl, of "m - n", unfolded e] by blast
    moreover have "drop (?k - n) (so_wire ?fd) = drop ?k (so_wire fd)" "m - n - (?k - n) = m - ?k"
      using n by simp_all
    moreover have "(x # xs) @ take (?k - n) (drop n (so_wire fd)) = take ?k (so_wire fd)"
      using xs n by (metis le_add_diff_inverse take_add)
    ultimately show ?thesis using True r by (subst recv_loop.simps) auto
  qed
qed

lemma send_loop_sends:
  assumes "answers_ok fd m" and "length data \<le> m"
  shows "\<exists>fd'. send_loop fd data = Some (fd', True) \<and> so_wire fd' = so_wire fd @ data \<and>
    answers_ok fd' (m - length data)"
  using assms
proof (induction fd data arbitrary: m rule: send_loop.induct)
  case (1 fd data)
  show ?case
  proof (cases "data = []")
    case False
    obtain a as where as: "so_answers fd = a # as" and a: "0 < a" "\<forall>x\<in>set as. 0 < x"
        and m: "m \<le> Suc (length as)"
      using "1.prems" False by (cases "so_answers fd") (auto simp: answers_ok_def)
    define n where "n = min (nat a) (length data)"
    have n: "0 < n" "n \<le> length data" using a False by (auto simp: n_def)
    let ?fd = "\<lparr>so_wire = so_wire fd @ take n data, so_answers = as\<rparr>"
    have s: "sys_send fd data = Some (?fd, int n)"
      using as a by (simp add: sys_send_def Let_def n_def)
    have "answers_ok ?fd (m - n)" "length (drop n data) \<le> m - n"
      using a(2) m n "1.prems"(2) by (simp_all add: answers_ok_def)
    with "1.IH"[OF False s refl, of "m - n"] n obtain fd' where
      "send_loop ?fd (drop n data) = Some (fd', True)" "so_wire fd' = (so_wire fd @ take n data) @ drop n data"
      "answers_ok fd' (m - n - (length data - n))" by auto
    then show ?thesis using False s n by (subst send_loop.simps) auto
  qed (use "1.prems" in \<open>simp add: send_loop.simps\<close>)
qed

lemma read_from_network_full:
  assumes "answers_ok fd m" and "length w \<le> m" and "so_wire fd = w @ rest"
  shows "\<exists>fd'. read_from_network fd (length w) c = Some (fd', RC4_crypt c w) \<and> so_wire fd' = rest \<and>
    answers_ok fd' (m - length w)"
proof (cases "w = []")
  case True
  then show ?thesis using assms by (simp add: read_from_network_def)
next
  case False
  from assms recv_loop_collects[OF assms(1), of "length w" "[]"] obtain fd' where
    "recv_loop fd (length w) [] = Some (fd', Some w)" "so_wire fd' = rest" "answers_ok fd' (m - length w)" by auto
  then show ?thesis using False by (cases "RC4_crypt c w") (simp add: read_from_network_def)
qed

text \<open>What the two programs do with them: the messages of a connection are queued one after the other
  and sent, and read in pieces.\<close>

fun queue_all :: "stringio \<Rightarrow> byte list list \<Rightarrow> rc4 \<Rightarrow> (stringio \<times> rc4) option" where
  "queue_all queue [] rc4 = Some (queue, rc4)"
| "queue_all queue (x # xs) rc4 =
     (case queue_for_sending queue x rc4 of None \<Rightarrow> None | Some (queue, rc4) \<Rightarrow> queue_all queue xs rc4)"

fun read_all :: "socket \<Rightarrow> nat list \<Rightarrow> rc4 \<Rightarrow> (socket \<times> rc4 \<times> byte list list) option" where
  "read_all fd [] rc4 = Some (fd, rc4, [])"
| "read_all fd (n # ns) rc4 =
     (case read_from_network fd n rc4 of
        None \<Rightarrow> None
      | Some (fd, rc4, x) \<Rightarrow> map_option (\<lambda>(fd, rc4, xs). (fd, rc4, x # xs)) (read_all fd ns rc4))"

lemma queue_all_encrypts:
  assumes "sio_at_end q" and "length (concat msgs) \<le> sio_room q"
  shows "\<exists>q'. queue_all q msgs c = Some (q', fst (RC4_crypt c (concat msgs))) \<and> sio_at_end q' \<and>
    sio_contents q' = sio_contents q @ snd (RC4_crypt c (concat msgs))"
  using assms
proof (induction msgs arbitrary: q c)
  case (Cons x xs)
  obtain c1 o1 where 1: "RC4_crypt c x = (c1, o1)" by (cases "RC4_crypt c x")
  then have "length o1 = length x" using length_RC4_crypt[of c x] by simp
  moreover obtain q1 where q1: "StringIO_write q o1 = Some (q1, int (length o1))" "sio_at_end q1"
      "sio_contents q1 = sio_contents q @ o1" "sio_room q \<le> sio_room q1 + length o1"
    using StringIO_write_append[of q o1] Cons.prems calculation by auto
  ultimately obtain q' where "queue_all q1 xs c1 = Some (q', fst (RC4_crypt c1 (concat xs)))" "sio_at_end q'"
      "sio_contents q' = sio_contents q1 @ snd (RC4_crypt c1 (concat xs))"
    using Cons.IH[of q1 c1] Cons.prems(2) by auto
  then show ?case
    using 1 q1 by (simp add: queue_for_sending_def RC4_crypt_append Let_def split: prod.splits)
qed simp

lemma write_to_network_sends:
  assumes "sio_at_end q" and "answers_ok fd m" and "length (sio_contents q) \<le> m"
  shows "\<exists>fd' q' n. write_to_network fd q = Some (fd', q', n) \<and> so_wire fd' = so_wire fd @ sio_contents q \<and>
    sio_at_end q' \<and> sio_contents q' = [] \<and> 0 < n \<and> answers_ok fd' (m - length (sio_contents q))"
proof (cases "sio_size q = 0")
  case True
  then show ?thesis using assms(1,2)
    by (simp add: write_to_network_def sio_contents_def sio_abs_def)
next
  case False
  have inv: "sio_inv q" and e: "sio_readptr q = sio_size q" using assms(1) by (simp_all add: sio_at_end_def)
  note b = sio_invD[OF inv]
  have r: "mem_read (sio_data q) 0 (sio_size q) = Some (sio_contents q)"
    using b by (simp add: mem_simps sio_contents_def sio_abs_def)
  obtain fd' where "send_loop fd (sio_contents q) = Some (fd', True)" "so_wire fd' = so_wire fd @ sio_contents q"
    "answers_ok fd' (m - length (sio_contents q))"
    using send_loop_sends[OF assms(2,3)] by blast
  moreover have "sio_at_end (StringIO_truncate q 0)" "sio_contents (StringIO_truncate q 0) = []"
    using StringIO_truncate_spec[OF inv order_refl b(3)] e b(3)
    by (simp_all add: sio_at_end_def sio_contents_def)
  ultimately show ?thesis using False b(3) r by (simp add: write_to_network_def)
qed

lemma read_all_decrypts:
  assumes "answers_ok fd m" and "sum_list ns \<le> m" and "so_wire fd = wire @ rest" and "length wire = sum_list ns"
  shows "\<exists>fd' xs. read_all fd ns c = Some (fd', fst (RC4_crypt c wire), xs) \<and>
    concat xs = snd (RC4_crypt c wire) \<and> map length xs = ns \<and> so_wire fd' = rest"
  using assms
proof (induction ns arbitrary: fd m c wire)
  case (Cons n ns)
  define w1 where "w1 = take n wire"
  define w2 where "w2 = drop n wire"
  have w: "wire = w1 @ w2" "length w1 = n" "length w2 = sum_list ns"
    using Cons.prems(4) by (simp_all add: w1_def w2_def)
  obtain c1 p1 where 1: "RC4_crypt c w1 = (c1, p1)" by (cases "RC4_crypt c w1")
  have l: "length p1 = n" using length_RC4_crypt[of c w1] w(2) 1 by simp
  obtain fd1 where fd1: "read_from_network fd n c = Some (fd1, c1, p1)" "so_wire fd1 = w2 @ rest"
      "answers_ok fd1 (m - n)"
    using read_from_network_full[OF Cons.prems(1), of w1 "w2 @ rest" c] Cons.prems(2,3) w 1 by auto
  have "sum_list ns \<le> m - n" using Cons.prems(2) by simp
  from Cons.IH[OF fd1(3) this fd1(2) w(3), of c1] obtain fd' xs where
    "read_all fd1 ns c1 = Some (fd', fst (RC4_crypt c1 w2), xs)" "concat xs = snd (RC4_crypt c1 w2)"
    "map length xs = ns" "so_wire fd' = rest" by blast
  then show ?case using fd1(1) 1 w(1) l by (simp add: RC4_crypt_append Let_def split: prod.splits)
qed simp

section \<open>Properties\<close>

text \<open>A cipher is built from a key. After any number of bytes the box is a permutation of the
  256 byte values, the first index has counted the bytes and both indices are inside of the box; and
  a cipher in the same state turns the ciphertext back into the text and arrives at the same state.\<close>

theorem RC4_state:
  assumes "RC4_Con key = Some c" and "RC4_crypt c data = (c', out)"
  shows "mset (rc_sbox c') = mset (map of_nat [0..<256]) \<and> rc_i c' = length data mod 256 \<and> rc_j c' < 256 \<and>
    length out = length data \<and> RC4_crypt c out = (c', data)"
proof -
  have "rc_i (fst (RC4_crypt d xs)) = (rc_i d + length xs) mod 256" if "rc_i d < 256" for d xs
    using that
    by (induction d xs rule: RC4_crypt.induct) (auto simp: RC4_getc_def Let_def mod_simps split: prod.splits)
  moreover have "rc_i c = 0" using assms(1) by (auto simp: RC4_Con_def split: if_splits)
  ultimately have "rc_i c' = length data mod 256" using assms(2) by (metis add_0 fst_conv zero_less_numeral)
  moreover have "rc4_ok c'" using RC4_crypt_ok[OF RC4_Con_ok[OF assms(1)], of data] assms(2) by simp
  ultimately show ?thesis
    using RC4_crypt_crypt[OF assms(2)] length_RC4_crypt[of c data] assms(2) by (simp add: rc4_ok_def)
qed

text \<open>C29 (the connection end to end). Messages that one end encrypts into its queue one
  after the other and writes, and that the other end reads with the same key in pieces of any lengths,
  arrive as they were, in order, whatever pieces the system moves at a time, as long as no call fails;
  the two ciphers end in the same state and the queue is empty for the next messages.\<close>

theorem remote_channel:
  assumes "RC4_Con key = Some c" and "length (concat msgs) < 268435454" and "sum_list ns = length (concat msgs)"
    and "\<forall>a\<in>set sends. 0 < a" and "length (concat msgs) \<le> length sends"
    and "\<forall>a\<in>set recvs. 0 < a" and "length (concat msgs) \<le> length recvs"
  shows "\<exists>q c' fd q' n fd' parts.
    queue_all (StringIO_constructor junk) msgs c = Some (q, c') \<and>
    write_to_network \<lparr>so_wire = [], so_answers = sends\<rparr> q = Some (fd, q', n) \<and> 0 < n \<and> sio_contents q' = [] \<and>
    read_all \<lparr>so_wire = so_wire fd, so_answers = recvs\<rparr> ns c = Some (fd', c', parts) \<and>
    concat parts = concat msgs \<and> map length parts = ns"
proof -
  let ?q = "StringIO_constructor junk"
  obtain c' out where r: "RC4_crypt c (concat msgs) = (c', out)" by (cases "RC4_crypt c (concat msgs)")
  note undo = RC4_crypt_crypt[OF r]
  have l: "length out = length (concat msgs)" using length_RC4_crypt[of c "concat msgs"] r by simp
  have "sio_at_end ?q" "sio_contents ?q = []" "length (concat msgs) \<le> sio_room ?q"
    using assms(2) by (simp_all add: sio_at_end_def sio_contents_def sio_room_def MAX_TALLOC_SIZE_def del: length_concat)
  with queue_all_encrypts[of ?q msgs c] obtain q where
    q: "queue_all ?q msgs c = Some (q, c')" "sio_at_end q" "sio_contents q = out" using r by auto
  have "answers_ok \<lparr>so_wire = [], so_answers = sends\<rparr> (length (sio_contents q))"
    using assms(4,5) q(3) l by (simp add: answers_ok_def)
  from write_to_network_sends[OF q(2) this order_refl] obtain fd q' n where
    fd: "write_to_network \<lparr>so_wire = [], so_answers = sends\<rparr> q = Some (fd, q', n)" "so_wire fd = out"
      "sio_contents q' = []" "0 < n" using q(3) by auto
  have "answers_ok \<lparr>so_wire = out, so_answers = recvs\<rparr> (length recvs)" using assms(6) by (simp add: answers_ok_def)
  with read_all_decrypts[of "\<lparr>so_wire = out, so_answers = recvs\<rparr>" "length recvs" ns out "[]" c] obtain fd' parts where
    "read_all \<lparr>so_wire = out, so_answers = recvs\<rparr> ns c = Some (fd', c', parts)"
    "concat parts = concat msgs" "map length parts = ns"
    using assms(3,7) l undo by auto
  then show ?thesis using q(1) fd by auto
qed

section \<open>The properties on concrete inputs\<close>

lemma RC4_state_witness:
  "\<exists>c c' out. RC4_Con [75, 101, 121] = Some c \<and> RC4_crypt c [80, 108] = (c', out) \<and>
    rc_i c' = 2 \<and> RC4_crypt c out = (c', [80, 108])"
proof -
  obtain c where c: "RC4_Con [75, 101, 121] = Some c" by (simp add: RC4_Con_def)
  obtain c' out where r: "RC4_crypt c [80, 108] = (c', out)" by (cases "RC4_crypt c [80, 108]")
  show ?thesis using RC4_state[OF c r] c r by auto
qed

lemma remote_channel_witness:
  "\<exists>c q c' fd q' n fd' parts. RC4_Con [75, 101, 121] = Some c \<and>
    queue_all (StringIO_constructor (\<lambda>_. 0)) [[1, 2, 3], [], [4]] c = Some (q, c') \<and>
    write_to_network \<lparr>so_wire = [], so_answers = [1, 2, 9, 9]\<rparr> q = Some (fd, q', n) \<and>
    read_all \<lparr>so_wire = so_wire fd, so_answers = [2, 1, 1, 5]\<rparr> [1, 3] c = Some (fd', c', parts) \<and>
    concat parts = [1, 2, 3, 4]"
proof -
  obtain c where c: "RC4_Con [75, 101, 121] = Some c" by (simp add: RC4_Con_def)
  show ?thesis
    using remote_channel[OF c, of "[[1, 2, 3], [], [4]]" "[1, 3]" "[1, 2, 9, 9]" "[2, 1, 1, 5]" "\<lambda>_. 0"] c by auto
qed

end
