(* ===== verification/Remote.thy ===== *)
theory Remote
  imports RC4_Channel
begin

text \<open>
  The remote disk: the server of \<open>src/src/remote/remote_server.c\<close>, which reads parts of an image for a client, and the
  client of \<open>src/src/remote/remote_client.c\<close>. Both ends use one cipher for both directions, which they keep
  in step by taking turns.

  A connection is a socket for each direction. The key exchange of \<open>ecc.c\<close> is an argument, the key that
  the server finds in a challenge; \<open>Remote_Login\<close> fills it in. So are the files of the server, and the contents of the local variables
  that a read does not fill (\<open>stack\<close>). The image does not change while it is open.
  A handler that returns has the value \<open>Inl\<close> with what it leaves; \<open>None\<close> is an access outside of memory, or
  that a call of the system does not return.
\<close>

section \<open>The server\<close>

definition REMOTE_VERSION :: int where "REMOTE_VERSION = 1"
definition SIZEOF_CHALLENGE :: nat where "SIZEOF_CHALLENGE = 48"

record target =
  tg_data :: "byte list"
  tg_pos :: int

record server =
  sv_in :: socket
  sv_out :: socket
  sv_rc4 :: rc4
  sv_queue :: stringio
  sv_target :: target

definition target_lseek :: "target \<Rightarrow> int \<Rightarrow> target \<times> int" where
  "target_lseek t offset = (if s64 offset < 0 then (t, 18446744073709551615) else (t\<lparr>tg_pos := offset\<rparr>, offset))"

definition target_read :: "target \<Rightarrow> int \<Rightarrow> target \<times> byte list" where
  "target_read t n =
     (let xs = take (nat n) (drop (nat (tg_pos t)) (tg_data t)) in (t\<lparr>tg_pos := tg_pos t + int (length xs)\<rparr>, xs))"

text \<open>A local variable after a read into it: the bytes that did not come are what was there.\<close>

definition into_variable :: "(nat \<Rightarrow> byte) \<Rightarrow> nat \<Rightarrow> byte list \<Rightarrow> int" where
  "into_variable stack n xs = le_val (xs @ map stack [length xs..<n])"

definition server_read :: "server \<Rightarrow> nat \<Rightarrow> (server \<times> byte list) option" where
  "server_read sv n =
     map_option (\<lambda>(fd, c, xs). (sv\<lparr>sv_in := fd, sv_rc4 := c\<rparr>, xs)) (read_from_network (sv_in sv) n (sv_rc4 sv))"

definition server_queue :: "server \<Rightarrow> byte list \<Rightarrow> server option" where
  "server_queue sv xs =
     map_option (\<lambda>(q, c). sv\<lparr>sv_queue := q, sv_rc4 := c\<rparr>) (queue_for_sending (sv_queue sv) xs (sv_rc4 sv))"

definition server_write :: "server \<Rightarrow> (server \<times> bool) option" where
  "server_write sv =
     map_option (\<lambda>(fd, q, n). (sv\<lparr>sv_out := fd, sv_queue := q\<rparr>, n \<noteq> 0)) (write_to_network (sv_out sv) (sv_queue sv))"

function serve_data :: "int \<Rightarrow> server \<Rightarrow> (server + server) option" where
  "serve_data calculated_length sv =
     (if calculated_length > 0 then
        (case target_read (sv_target sv) (min calculated_length BUFF_SIZE) of
           (t, xs) \<Rightarrow>
             if xs = [] then Some (Inr (sv\<lparr>sv_target := t\<rparr>))
             else (case server_queue (sv\<lparr>sv_target := t\<rparr>) xs of
                     None \<Rightarrow> None
                   | Some sv \<Rightarrow>
                       if sio_size (sv_queue sv) > 64000
                       then (case server_write sv of
                               None \<Rightarrow> None
                             | Some (sv, ok) \<Rightarrow> if \<not> ok then Some (Inl sv)
                                                 else serve_data (calculated_length - int (length xs)) sv)
                       else serve_data (calculated_length - int (length xs)) sv))
      else Some (Inr sv))"
  by pat_completeness auto
termination
  by (relation "measure (\<lambda>(n, sv). nat n)") auto

declare serve_data.simps [simp del]

text \<open>One turn of the loop of the server.\<close>

definition serve_request :: "(nat \<Rightarrow> byte) \<Rightarrow> server \<Rightarrow> (server + server) option" where
  "serve_request stack sv = do {
     let image_size = int (length (tg_data (sv_target sv)));
     (sv, xs) \<leftarrow> server_read sv 8;
     if xs = [] then Some (Inl sv)
     else do {
       let offset = htonll (into_variable stack 8 xs);
       (sv, ys) \<leftarrow> server_read sv 4;
       if ys = [] then Some (Inl sv)
       else do {
         let len = htonl (into_variable stack 4 ys);
         let calculated_length = u32 (min image_size (u64 (offset + len)) - offset);
         sv \<leftarrow> server_queue sv (le_bytes 4 (htonl calculated_length));
         let (t, p) = target_lseek (sv_target sv) offset;
         let sv = sv\<lparr>sv_target := t\<rparr>;
         if p \<noteq> offset then Some (Inl sv)
         else do {
           r \<leftarrow> serve_data calculated_length sv;
           case r of
             Inl sv \<Rightarrow> Some (Inl sv)
           | Inr sv \<Rightarrow> do {
               (sv, ok) \<leftarrow> server_write sv;
               Some (if ok then Inr sv else Inl sv)
             }
         }
       }
     }
   }"

partial_function (option) serve_loop :: "(nat \<Rightarrow> byte) \<Rightarrow> server \<Rightarrow> server option" where
  "serve_loop stack sv =
     (case serve_request stack sv of
        None \<Rightarrow> None
      | Some (Inl sv) \<Rightarrow> Some sv
      | Some (Inr sv) \<Rightarrow> serve_loop stack sv)"

text \<open>The start of the handler, up to the loop. A name of length \<open>-1\<close> goes into a block of no bytes; of any other
  negative length, the block is NULL, into which \<open>recv\<close> fails.\<close>

definition read_name :: "server \<Rightarrow> int \<Rightarrow> (server \<times> byte list option) option" where
  "read_name sv len =
     (if len + 1 < 0 then Some (sv, None)
      else do {
        (sv, xs) \<leftarrow> server_read sv (nat (u32 len));
        if xs = [] then Some (sv, None)
        else if length xs > nat (len + 1) then None
        else Some (sv, Some (xs @ replicate (nat (len + 1) - length xs) 0))
      })"

definition C_string :: "byte list \<Rightarrow> byte list" where
  "C_string m = takeWhile (\<lambda>b. b \<noteq> 0) m"

definition server_login :: "(byte list \<Rightarrow> byte list option) \<Rightarrow> (byte list \<Rightarrow> byte list option) \<Rightarrow> (nat \<Rightarrow> byte) \<Rightarrow>
    (nat \<Rightarrow> byte) \<Rightarrow> socket \<Rightarrow> socket \<Rightarrow> (unit + server) option" where
  "server_login ecc_get_key files junk stack fd_in fd_out =
     (case sys_recv fd_in SIZEOF_CHALLENGE of
        None \<Rightarrow> None
      | Some (_, None) \<Rightarrow> Some (Inl ())
      | Some (fd_in, Some challenge) \<Rightarrow>
          if length challenge < SIZEOF_CHALLENGE then Some (Inl ())
          else (case ecc_get_key challenge of
                  None \<Rightarrow> Some (Inl ())
                | Some key \<Rightarrow> do {
                    rc4 \<leftarrow> RC4_Con key;
                    let sv = \<lparr>sv_in = fd_in, sv_out = fd_out, sv_rc4 = rc4, sv_queue = StringIO_constructor junk,
                              sv_target = \<lparr>tg_data = [], tg_pos = 0\<rparr>\<rparr>;
                    (sv, xs) \<leftarrow> server_read sv 4;
                    if xs = [] \<or> s32 (htonl (into_variable stack 4 xs)) \<noteq> REMOTE_VERSION then Some (Inl ())
                    else do {
                      (sv, ys) \<leftarrow> server_read sv 4;
                      let len = s32 (htonl (into_variable stack 4 ys));
                      if ys = [] \<or> len > 1024 then Some (Inl ())
                      else do {
                        (sv, name) \<leftarrow> read_name sv len;
                        case name of
                          None \<Rightarrow> Some (Inl ())
                        | Some m \<Rightarrow>
                            (case files (C_string m) of
                               None \<Rightarrow> Some (Inl ())
                             | Some img \<Rightarrow>
                                 Some (Inr (sv\<lparr>sv_target := \<lparr>tg_data = img, tg_pos = int (length img)\<rparr>\<rparr>)))
                      }
                    }
                  }))"

definition handle_connection :: "(byte list \<Rightarrow> byte list option) \<Rightarrow> (byte list \<Rightarrow> byte list option) \<Rightarrow> (nat \<Rightarrow> byte) \<Rightarrow>
    (nat \<Rightarrow> byte) \<Rightarrow> socket \<Rightarrow> socket \<Rightarrow> unit option" where
  "handle_connection ecc_get_key files junk stack fd_in fd_out =
     (case server_login ecc_get_key files junk stack fd_in fd_out of
        None \<Rightarrow> None
      | Some (Inl _) \<Rightarrow> Some ()
      | Some (Inr sv) \<Rightarrow> map_option (\<lambda>_. ()) (serve_loop stack sv))"

section \<open>The client\<close>

record remote =
  rm_in :: socket
  rm_out :: socket
  rm_rc4 :: rc4
  rm_offset :: int
  rm_queue :: stringio

datatype remote_error = RemoteIOError | RemoteSystemError

definition remote_queue :: "remote \<Rightarrow> byte list \<Rightarrow> remote option" where
  "remote_queue self xs =
     map_option (\<lambda>(q, c). self\<lparr>rm_queue := q, rm_rc4 := c\<rparr>) (queue_for_sending (rm_queue self) xs (rm_rc4 self))"

definition remote_write :: "remote \<Rightarrow> (remote \<times> bool) option" where
  "remote_write self =
     map_option (\<lambda>(fd, q, n). (self\<lparr>rm_out := fd, rm_queue := q\<rparr>, n \<noteq> 0)) (write_to_network (rm_out self) (rm_queue self))"

definition remote_recv :: "remote \<Rightarrow> nat \<Rightarrow> (remote \<times> byte list) option" where
  "remote_recv self n =
     map_option (\<lambda>(fd, c, xs). (self\<lparr>rm_in := fd, rm_rc4 := c\<rparr>, xs)) (read_from_network (rm_in self) n (rm_rc4 self))"

text \<open>The key exchange and the handshake of \<open>remote_init\<close>, on a socket that is connected: the key and the
  challenge are what \<open>ecc_make_key\<close> chose. The answer of \<open>send\<close> is compared without sign, so that only a short
  transfer is an error here, and a failed one is none.\<close>

definition remote_login :: "(nat \<Rightarrow> byte) \<Rightarrow> byte list \<Rightarrow> byte list \<Rightarrow> byte list \<Rightarrow> int \<Rightarrow> socket \<Rightarrow> socket \<Rightarrow>
    (remote_error + remote) option" where
  "remote_login junk key challenge device offset fd_in fd_out = do {
     rc4 \<leftarrow> RC4_Con key;
     let self = \<lparr>rm_in = fd_in, rm_out = fd_out, rm_rc4 = rc4, rm_offset = offset, rm_queue = StringIO_constructor junk\<rparr>;
     (fd_out, n) \<leftarrow> sys_send (rm_out self) challenge;
     if u64 n < int SIZEOF_CHALLENGE then Some (Inl RemoteIOError)
     else do {
       let self = self\<lparr>rm_out := fd_out\<rparr>;
       self \<leftarrow> remote_queue self (le_bytes 4 (htonl REMOTE_VERSION));
       self \<leftarrow> remote_queue self (le_bytes 4 (htonl (int (length device))));
       self \<leftarrow> remote_queue self device;
       (self, ok) \<leftarrow> remote_write self;
       Some (if ok then Inr self else Inl RemoteIOError)
     }
   }"

text \<open>Sending a request and taking its answer. An error before the result is allocated gives up a reference that
  the variable never held.\<close>

definition remote_request :: "remote \<Rightarrow> int \<Rightarrow> int \<Rightarrow> remote option" where
  "remote_request self len offs = do {
     self \<leftarrow> remote_queue self (le_bytes 8 (htonll offs));
     self \<leftarrow> remote_queue self (le_bytes 4 (htonl len));
     (self, ok) \<leftarrow> remote_write self;
     if ok then Some self else None
   }"

definition remote_response :: "(nat \<Rightarrow> byte) \<Rightarrow> remote \<Rightarrow> (remote \<times> (remote_error + byte list)) option" where
  "remote_response stack self = do {
     (self, xs) \<leftarrow> remote_recv self 4;
     if xs = [] then None
     else do {
       let length = s32 (htonl (into_variable stack 4 xs));
       if length < 0 then Some (self, Inl RemoteSystemError)
       else do {
         (self, ys) \<leftarrow> remote_recv self (nat length);
         if ys = [] then Some (self, Inl RemoteIOError)
         else Some (self, Inr (ys @ map stack [List.length ys..<nat length]))
       }
     }
   }"

text \<open>\<open>peer\<close> is what happens between the request and the answer.\<close>

definition remote_read_random :: "(nat \<Rightarrow> byte) \<Rightarrow> (remote \<Rightarrow> remote option) \<Rightarrow> remote \<Rightarrow> int \<Rightarrow> int \<Rightarrow>
    (remote \<times> (remote_error + byte list)) option" where
  "remote_read_random stack peer self len offs =
     (if len = 0 then Some (self, Inr [])
      else do {
        self \<leftarrow> remote_request self len (u64 (offs + rm_offset self));
        self \<leftarrow> peer self;
        remote_response stack self
      })"

section \<open>Numbers on the wire\<close>

lemma htonl_range: "0 \<le> htonl x \<and> htonl x < 4294967296"
  using be_val_range[of "le_bytes 4 (u32 x)"] le_val_bound[of "be_bytes 4 (u32 x)"] le_val_nonneg[of "be_bytes 4 (u32 x)"]
  by (simp add: htonl_def)

lemma htonl_htonl: "0 \<le> x \<Longrightarrow> x < 4294967296 \<Longrightarrow> htonl (htonl x) = x"
proof -
  assume x: "0 \<le> x" "x < 4294967296"
  have e: "le_bytes 4 (le_val bs) = bs" if "length bs = 4" for bs using le_bytes_le_val[of bs] that by simp
  have "u32 (htonl x) = htonl x" using htonl_range by (simp add: u32_id)
  then have "htonl (htonl x) = le_val (rev (le_bytes 4 (le_val (be_bytes 4 x))))"
    using x by (simp add: htonl_def be_bytes_def u32_id)
  also have "\<dots> = le_val (le_bytes 4 x)" by (simp add: e be_bytes_def)
  also have "\<dots> = x" using x by (simp add: le_val_le_bytes)
  finally show ?thesis .
qed

lemma htonll_htonll: "0 \<le> x \<Longrightarrow> x < 18446744073709551616 \<Longrightarrow> htonll (htonll x) = x"
  and htonll_range: "0 \<le> htonll x \<and> htonll x < 18446744073709551616"
proof -
  let ?l = "htonl (u32 (x div 4294967296))" and ?r = "htonl (u32 x)"
  have h: "htonll x = ?l + ?r * 4294967296" by (simp add: htonll_def Let_def)
  show "0 \<le> htonll x \<and> htonll x < 18446744073709551616"
    using htonl_range[of "u32 (x div 4294967296)"] htonl_range[of "u32 x"] unfolding h by linarith
  assume x: "0 \<le> x" "x < 18446744073709551616"
  have "(?l + ?r * 4294967296) div 4294967296 = ?r" "u32 (?l + ?r * 4294967296) = ?l"
    using htonl_range[of "u32 (x div 4294967296)"] by (auto simp: u32_def)
  moreover have "u32 ?r = ?r" using htonl_range[of "u32 x"] by (simp add: u32_id)
  moreover have "u32 ?l = ?l" using htonl_range[of "u32 (x div 4294967296)"] by (simp add: u32_id)
  ultimately have "htonll (htonll x) = htonl ?r + htonl ?l * 4294967296"
    unfolding h by (simp add: htonll_def Let_def)
  also have "\<dots> = u32 x + u32 (x div 4294967296) * 4294967296"
    using u32_range[of x] u32_range[of "x div 4294967296"] by (simp add: htonl_htonl)
  also have "\<dots> = x" using x by (simp add: u32_def)
  finally show "htonll (htonll x) = x" .
qed

lemma into_variable_full: "length xs = n \<Longrightarrow> into_variable stack n xs = le_val xs"
  by (simp add: into_variable_def)

section \<open>The answer of the server\<close>

lemma queue_step:
  assumes "sio_at_end q" and "length (sio_contents q) + length xs \<le> 100000"
  shows "\<exists>q'. queue_for_sending q xs c = Some (q', fst (RC4_crypt c xs)) \<and> sio_at_end q' \<and>
    sio_contents q' = sio_contents q @ snd (RC4_crypt c xs)"
proof -
  have "int (length (sio_contents q)) = sio_size q"
    using length_sio_contents[of q] sio_invD[of q] assms(1) by (simp add: sio_at_end_def sio_contents_def)
  then have "length (concat [xs]) \<le> sio_room q" using assms(2) by (simp add: sio_room_def MAX_TALLOC_SIZE_def)
  from queue_all_encrypts[OF assms(1) this, of c] show ?thesis by (auto split: option.splits)
qed

lemma queue_size: "sio_at_end q \<Longrightarrow> sio_size q = int (length (sio_contents q))"
  using length_sio_contents[of q] sio_invD[of q] by (simp add: sio_at_end_def sio_contents_def)

lemma server_queue_step:
  assumes "sio_at_end (sv_queue sv)" and "length (sio_contents (sv_queue sv)) + length xs \<le> 100000"
  shows "\<exists>q'. server_queue sv xs = Some (sv\<lparr>sv_queue := q', sv_rc4 := fst (RC4_crypt (sv_rc4 sv) xs)\<rparr>) \<and> sio_at_end q' \<and>
    sio_contents q' = sio_contents (sv_queue sv) @ snd (RC4_crypt (sv_rc4 sv) xs)"
  using queue_step[OF assms, of "sv_rc4 sv"] by (auto simp: server_queue_def)

lemma server_read_full:
  assumes "answers_ok (sv_in sv) m" and "length w \<le> m" and "so_wire (sv_in sv) = w @ rest"
  shows "\<exists>fd. server_read sv (length w) = Some (sv\<lparr>sv_in := fd, sv_rc4 := fst (RC4_crypt (sv_rc4 sv) w)\<rparr>,
      snd (RC4_crypt (sv_rc4 sv) w)) \<and> so_wire fd = rest \<and> answers_ok fd (m - length w)"
  using read_from_network_full[OF assms, of "sv_rc4 sv"]
  by (cases "RC4_crypt (sv_rc4 sv) w") (auto simp: server_read_def)

lemma server_write_all:
  assumes "sio_at_end (sv_queue sv)" and "answers_ok (sv_out sv) m" and "length (sio_contents (sv_queue sv)) \<le> m"
  shows "\<exists>fd q. server_write sv = Some (sv\<lparr>sv_out := fd, sv_queue := q\<rparr>, True) \<and>
    so_wire fd = so_wire (sv_out sv) @ sio_contents (sv_queue sv) \<and> sio_at_end q \<and> sio_contents q = [] \<and>
    answers_ok fd (m - length (sio_contents (sv_queue sv)))"
proof -
  obtain fd q n where "write_to_network (sv_out sv) (sv_queue sv) = Some (fd, q, n)"
    "so_wire fd = so_wire (sv_out sv) @ sio_contents (sv_queue sv)" "sio_at_end q" "sio_contents q = []" "0 < n"
    "answers_ok fd (m - length (sio_contents (sv_queue sv)))" using write_to_network_sends[OF assms] by blast
  then show ?thesis by (intro exI[of _ fd] exI[of _ q]) (simp add: server_write_def)
qed

text \<open>What the server has sent and what it still has in its queue.\<close>

definition sent :: "server \<Rightarrow> byte list" where
  "sent sv = so_wire (sv_out sv) @ sio_contents (sv_queue sv)"

definition can_send :: "server \<Rightarrow> nat \<Rightarrow> bool" where
  "can_send sv k \<longleftrightarrow> sio_at_end (sv_queue sv) \<and> answers_ok (sv_out sv) (length (sio_contents (sv_queue sv)) + k)"

lemma answers_ok_less: "answers_ok fd m \<Longrightarrow> k \<le> m \<Longrightarrow> answers_ok fd k"
  by (simp add: answers_ok_def)

lemma serve_data_sends:
  assumes "can_send sv (length (take (nat n) (drop (nat (tg_pos (sv_target sv))) (tg_data (sv_target sv)))) + k)"
    and "length (sio_contents (sv_queue sv)) \<le> 64000" and "0 \<le> tg_pos (sv_target sv)"
  shows "\<exists>sv'. serve_data n sv = Some (Inr sv') \<and> can_send sv' k \<and>
    sv_in sv' = sv_in sv \<and> tg_data (sv_target sv') = tg_data (sv_target sv) \<and>
    sv_rc4 sv' = fst (RC4_crypt (sv_rc4 sv) (take (nat n) (drop (nat (tg_pos (sv_target sv))) (tg_data (sv_target sv))))) \<and>
    sent sv' = sent sv @ snd (RC4_crypt (sv_rc4 sv) (take (nat n) (drop (nat (tg_pos (sv_target sv))) (tg_data (sv_target sv)))))"
  using assms
proof (induction "nat n" arbitrary: n sv rule: less_induct)
  case less
  define D where "D = drop (nat (tg_pos (sv_target sv))) (tg_data (sv_target sv))"
  define X where "X = take (nat n) D"
  have cs: "can_send sv (length X + k)" using less.prems(1) by (simp add: X_def D_def)
  show ?case
  proof (cases "n > 0")
    case False
    then show ?thesis using cs by (subst serve_data.simps) (simp add: X_def)
  next
    case True
    define xs where "xs = take (nat (min n BUFF_SIZE)) D"
    let ?t = "(sv_target sv)\<lparr>tg_pos := tg_pos (sv_target sv) + int (length xs)\<rparr>"
    have rd: "target_read (sv_target sv) (min n BUFF_SIZE) = (?t, xs)"
      by (simp add: target_read_def xs_def D_def Let_def)
    show ?thesis
    proof (cases "xs = []")
      case True
      then have "D = []" using \<open>n > 0\<close> by (auto simp: xs_def BUFF_SIZE_def)
      then have "X = []" by (simp add: X_def)
      then show ?thesis using True rd \<open>n > 0\<close> cs unfolding X_def[symmetric] D_def[symmetric]
        by (subst serve_data.simps) (simp add: can_send_def sent_def)
    next
      case False
      let ?n = "n - int (length xs)" and ?c = "sv_rc4 sv"
      have lx: "0 < length xs" "length xs \<le> 10240" "length xs \<le> nat n"
        using False by (auto simp: xs_def BUFF_SIZE_def)
      define Y where "Y = take (nat ?n) (drop (length xs) D)"
      have XY: "X = xs @ Y"
      proof -
        have "take (length xs) X = xs" by (auto simp: X_def xs_def min_def)
        moreover have "nat ?n = nat n - length xs" by arith
        then have "drop (length xs) X = Y" by (simp add: X_def Y_def drop_take)
        ultimately show ?thesis by (metis append_take_drop_id)
      qed
      obtain c1 o1 where c1: "RC4_crypt ?c xs = (c1, o1)" by (cases "RC4_crypt ?c xs")
      have lo: "length o1 = length xs" using length_RC4_crypt[of ?c xs] c1 by simp
      obtain q1 where q1: "server_queue (sv\<lparr>sv_target := ?t\<rparr>) xs = Some (sv\<lparr>sv_target := ?t, sv_queue := q1, sv_rc4 := c1\<rparr>)"
        "sio_at_end q1" "sio_contents q1 = sio_contents (sv_queue sv) @ o1"
        using server_queue_step[of "sv\<lparr>sv_target := ?t\<rparr>" xs] cs less.prems(2) lx(2) c1 by (auto simp: can_send_def)
      let ?sv1 = "sv\<lparr>sv_target := ?t, sv_queue := q1, sv_rc4 := c1\<rparr>"
      have a1: "answers_ok (sv_out ?sv1) (length (sio_contents q1) + (length Y + k))"
        using cs XY lo q1(3) by (simp add: can_send_def add.assoc)
      have D1: "drop (nat (tg_pos ?t)) (tg_data ?t) = drop (length xs) D"
        using less.prems(3) by (simp add: D_def nat_add_distrib add.commute)
      obtain sv2 where sv2: "serve_data n sv = serve_data ?n sv2" "sv_rc4 sv2 = c1" "sv_target sv2 = ?t"
        "can_send sv2 (length Y + k)" "length (sio_contents (sv_queue sv2)) \<le> 64000" "sent sv2 = sent sv @ o1"
        "sv_in sv2 = sv_in sv"
      proof (cases "sio_size q1 > 64000")
        case False
        then have "serve_data n sv = serve_data ?n ?sv1"
          using \<open>n > 0\<close> rd \<open>xs \<noteq> []\<close> q1(1) by (subst serve_data.simps) simp
        then show ?thesis
          using that[of ?sv1] False q1(2,3) a1 queue_size[OF q1(2)] by (simp add: can_send_def sent_def)
      next
        case True
        obtain fd q where w: "server_write ?sv1 = Some (?sv1\<lparr>sv_out := fd, sv_queue := q\<rparr>, True)"
          "so_wire fd = so_wire (sv_out sv) @ sio_contents q1" "sio_at_end q" "sio_contents q = []"
          "answers_ok fd (length Y + k)"
          using server_write_all[of ?sv1, OF _ a1] q1(2) by auto
        have "serve_data n sv = serve_data ?n (?sv1\<lparr>sv_out := fd, sv_queue := q\<rparr>)"
          using \<open>n > 0\<close> rd \<open>xs \<noteq> []\<close> q1(1) True w(1) by (subst serve_data.simps) simp
        then show ?thesis
          using that[of "?sv1\<lparr>sv_out := fd, sv_queue := q\<rparr>"] w(2-5) q1(3) by (simp add: can_send_def sent_def)
      qed
      have m: "nat ?n < nat n" using lx \<open>n > 0\<close> by simp
      have d2: "drop (nat (tg_pos (sv_target sv2))) (tg_data (sv_target sv2)) = drop (length xs) D"
        unfolding sv2(3) by (rule D1)
      obtain sv' where "serve_data ?n sv2 = Some (Inr sv')" "can_send sv' k" "sv_rc4 sv' = fst (RC4_crypt c1 Y)"
        "sent sv' = sent sv2 @ snd (RC4_crypt c1 Y)" "sv_in sv' = sv_in sv" "tg_data (sv_target sv') = tg_data (sv_target sv)"
        using less.hyps[OF m, of sv2] sv2(2-5,7) less.prems(3) unfolding d2 Y_def[symmetric] by auto
      then show ?thesis
        using sv2(1,6) c1 XY unfolding X_def[symmetric] D_def[symmetric] by (simp add: RC4_crypt_append Let_def split: prod.splits)
    qed
  qed
qed

lemma htonl_wire: "0 \<le> x \<Longrightarrow> x < 4294967296 \<Longrightarrow> htonl (le_val (le_bytes 4 (htonl x))) = x"
  using htonl_range[of x] by (simp add: le_val_le_bytes htonl_htonl)

lemma htonll_wire: "0 \<le> x \<Longrightarrow> x < 18446744073709551616 \<Longrightarrow> htonll (le_val (le_bytes 8 (htonll x))) = x"
  using htonll_range[of x] by (simp add: le_val_le_bytes htonll_htonll)

definition request_bytes :: "int \<Rightarrow> int \<Rightarrow> byte list" where
  "request_bytes len offs = le_bytes 8 (htonll offs) @ le_bytes 4 (htonl len)"

definition announced :: "byte list \<Rightarrow> int \<Rightarrow> int \<Rightarrow> int" where
  "announced img len offs = u32 (min (int (length img)) (offs + len) - offs)"

definition answer_bytes :: "byte list \<Rightarrow> int \<Rightarrow> int \<Rightarrow> byte list" where
  "answer_bytes img len offs =
     le_bytes 4 (htonl (announced img len offs)) @ take (nat (announced img len offs)) (drop (nat offs) img)"

lemma remote_request_sends:
  assumes "sio_at_end (rm_queue self)" and "sio_contents (rm_queue self) = []" and "so_wire (rm_out self) = []"
    and "answers_ok (rm_out self) (12 + m)"
  shows "\<exists>fd q. remote_request self len offs =
      Some (self\<lparr>rm_out := fd, rm_queue := q, rm_rc4 := fst (RC4_crypt (rm_rc4 self) (request_bytes len offs))\<rparr>) \<and>
    so_wire fd = snd (RC4_crypt (rm_rc4 self) (request_bytes len offs)) \<and> sio_at_end q \<and> sio_contents q = [] \<and> answers_ok fd m"
proof -
  let ?a = "le_bytes 8 (htonll offs)" and ?b = "le_bytes 4 (htonl len)"
  obtain c1 o1 where 1: "RC4_crypt (rm_rc4 self) ?a = (c1, o1)" by (cases "RC4_crypt (rm_rc4 self) ?a")
  obtain c2 o2 where 2: "RC4_crypt c1 ?b = (c2, o2)" by (cases "RC4_crypt c1 ?b")
  have l: "length o1 = 8" "length o2 = 4"
    using length_RC4_crypt[of "rm_rc4 self" ?a] length_RC4_crypt[of c1 ?b] 1 2 by simp_all
  obtain q1 where q1: "queue_for_sending (rm_queue self) ?a (rm_rc4 self) = Some (q1, c1)" "sio_at_end q1" "sio_contents q1 = o1"
    using queue_step[OF assms(1), of ?a "rm_rc4 self"] assms(2) 1 by auto
  obtain q2 where q2: "queue_for_sending q1 ?b c1 = Some (q2, c2)" "sio_at_end q2" "sio_contents q2 = o1 @ o2"
    using queue_step[OF q1(2), of ?b c1] q1(3) l 2 by auto
  obtain fd q n where w: "write_to_network (rm_out self) q2 = Some (fd, q, n)" "so_wire fd = o1 @ o2" "sio_at_end q"
    "sio_contents q = []" "0 < n" "answers_ok fd m"
    using write_to_network_sends[OF q2(2) assms(4)] q2(3) l assms(3) by auto
  have "RC4_crypt (rm_rc4 self) (request_bytes len offs) = (c2, o1 @ o2)"
    using 1 2 by (simp add: request_bytes_def RC4_crypt_append)
  then show ?thesis
    using q1(1) q2(1) w by (intro exI[of _ fd] exI[of _ q]) (simp add: remote_request_def remote_queue_def remote_write_def)
qed

lemma serve_request_answers:
  assumes "so_wire (sv_in sv) = snd (RC4_crypt (sv_rc4 sv) (request_bytes len offs))" and "answers_ok (sv_in sv) (12 + m)"
    and "sio_at_end (sv_queue sv)" "sio_contents (sv_queue sv) = []" and "so_wire (sv_out sv) = []"
    and "answers_ok (sv_out sv) (length (answer_bytes (tg_data (sv_target sv)) len offs) + n)"
    and "0 \<le> offs" "offs < 9223372036854775808" "0 \<le> len" "len < 4294967296"
    and "c2 = fst (RC4_crypt (sv_rc4 sv) (request_bytes len offs))"
  shows "\<exists>sv'. serve_request stack sv = Some (Inr sv') \<and>
    sv_rc4 sv' = fst (RC4_crypt c2 (answer_bytes (tg_data (sv_target sv)) len offs)) \<and>
    so_wire (sv_out sv') = snd (RC4_crypt c2 (answer_bytes (tg_data (sv_target sv)) len offs)) \<and>
    so_wire (sv_in sv') = [] \<and> answers_ok (sv_in sv') m \<and> answers_ok (sv_out sv') n \<and>
    sio_at_end (sv_queue sv') \<and> sio_contents (sv_queue sv') = [] \<and> tg_data (sv_target sv') = tg_data (sv_target sv)"
proof -
  let ?a = "le_bytes 8 (htonll offs)" and ?b = "le_bytes 4 (htonl len)" and ?img = "tg_data (sv_target sv)"
  let ?calc = "announced ?img len offs"
  obtain c1 o1 where 1: "RC4_crypt (sv_rc4 sv) ?a = (c1, o1)" by (cases "RC4_crypt (sv_rc4 sv) ?a")
  obtain o2 where 2: "RC4_crypt c1 ?b = (c2, o2)"
    using assms(11) 1 by (cases "RC4_crypt c1 ?b") (simp add: request_bytes_def RC4_crypt_append)
  have l: "length o1 = 8" "length o2 = 4"
    using length_RC4_crypt[of "sv_rc4 sv" ?a] length_RC4_crypt[of c1 ?b] 1 2 by simp_all
  have w: "so_wire (sv_in sv) = o1 @ o2" using assms(1) 1 2 by (simp add: request_bytes_def RC4_crypt_append)
  obtain fd1 where r1: "server_read sv 8 = Some (sv\<lparr>sv_in := fd1, sv_rc4 := c1\<rparr>, ?a)" "so_wire fd1 = o2" "answers_ok fd1 (4 + m)"
    using server_read_full[OF assms(2) _ w] l RC4_crypt_crypt[OF 1] by auto
  let ?s1 = "sv\<lparr>sv_in := fd1, sv_rc4 := c1\<rparr>"
  obtain fd2 where r2: "server_read ?s1 4 = Some (sv\<lparr>sv_in := fd2, sv_rc4 := c2\<rparr>, ?b)" "so_wire fd2 = []" "answers_ok fd2 m"
    using server_read_full[of ?s1 "4 + m" o2 "[]"] r1(2,3) l RC4_crypt_crypt[OF 2] by auto
  let ?s2 = "sv\<lparr>sv_in := fd2, sv_rc4 := c2\<rparr>"
  have v: "htonll (into_variable stack 8 ?a) = offs" "htonl (into_variable stack 4 ?b) = len"
    using assms(7-10) by (simp_all add: into_variable_full htonll_wire htonl_wire)
  have sum: "u64 (offs + len) = offs + len" using assms(7-10) by (simp add: u64_id)
  let ?h = "le_bytes 4 (htonl ?calc)"
  obtain c3 o3 where 3: "RC4_crypt c2 ?h = (c3, o3)" by (cases "RC4_crypt c2 ?h")
  have l3: "length o3 = 4" using length_RC4_crypt[of c2 ?h] 3 by simp
  obtain q3 where q3: "server_queue ?s2 ?h = Some (?s2\<lparr>sv_queue := q3, sv_rc4 := c3\<rparr>)" "sio_at_end q3" "sio_contents q3 = o3"
    using server_queue_step[of ?s2 ?h] assms(3,4) 3 by auto
  let ?t = "(sv_target sv)\<lparr>tg_pos := offs\<rparr>"
  have sk: "target_lseek (sv_target sv) offs = (?t, offs)"
    using assms(7,8) by (simp add: target_lseek_def s64_id)
  let ?s3 = "sv\<lparr>sv_in := fd2, sv_queue := q3, sv_rc4 := c3, sv_target := ?t\<rparr>"
  let ?D = "take (nat ?calc) (drop (nat offs) ?img)"
  have cs: "can_send ?s3 (length ?D + n)"
    using q3(2,3) l3 assms(6) by (simp add: can_send_def answer_bytes_def add.assoc)
  obtain sv4 where s4: "serve_data ?calc ?s3 = Some (Inr sv4)" "can_send sv4 n" "sv_rc4 sv4 = fst (RC4_crypt c3 ?D)"
    "sent sv4 = sent ?s3 @ snd (RC4_crypt c3 ?D)" "sv_in sv4 = fd2" "tg_data (sv_target sv4) = ?img"
    using serve_data_sends[of ?s3 ?calc n] cs q3(3) l3 assms(7) by auto
  obtain fd5 q5 where s5: "server_write sv4 = Some (sv4\<lparr>sv_out := fd5, sv_queue := q5\<rparr>, True)" "so_wire fd5 = sent sv4"
    "sio_at_end q5" "sio_contents q5 = []" "answers_ok fd5 n"
    using server_write_all[of sv4 "length (sio_contents (sv_queue sv4)) + n"] s4(2) by (auto simp: can_send_def sent_def)
  have P: "RC4_crypt c2 (answer_bytes ?img len offs) = (fst (RC4_crypt c3 ?D), o3 @ snd (RC4_crypt c3 ?D))"
    using 3 by (cases "RC4_crypt c3 ?D") (simp add: answer_bytes_def RC4_crypt_append)
  have "sent ?s3 = o3" using assms(5) q3(3) by (simp add: sent_def)
  moreover have "?a \<noteq> []" "?b \<noteq> []" by (simp_all flip: length_greater_0_conv)
  ultimately have "serve_request stack sv = Some (Inr (sv4\<lparr>sv_out := fd5, sv_queue := q5\<rparr>))"
    using r1(1) r2(1) v sum q3(1) sk s4(1) s5(1)
    by (simp add: serve_request_def Let_def announced_def)
  then show ?thesis using P s4(3-6) s5(2-5) r2(2,3) \<open>sent ?s3 = o3\<close> by simp
qed

section \<open>Properties\<close>

lemma remote_recv_full:
  assumes "answers_ok (rm_in self) m" and "length w \<le> m" and "so_wire (rm_in self) = w @ rest"
  shows "\<exists>fd. remote_recv self (length w) = Some (self\<lparr>rm_in := fd, rm_rc4 := fst (RC4_crypt (rm_rc4 self) w)\<rparr>,
      snd (RC4_crypt (rm_rc4 self) w)) \<and> so_wire fd = rest \<and> answers_ok fd (m - length w)"
  using read_from_network_full[OF assms, of "rm_rc4 self"]
  by (cases "RC4_crypt (rm_rc4 self) w") (auto simp: remote_recv_def)

lemma announced_cases:
  assumes "0 < len" "len < 2147483648" "0 \<le> offs" "offs \<le> int (length img) + 2147483648"
  shows "offs < int (length img) \<Longrightarrow> announced img len offs = min (int (length img) - offs) len"
    and "offs = int (length img) \<Longrightarrow> announced img len offs = 0"
    and "int (length img) < offs \<Longrightarrow> s32 (announced img len offs) < 0"
proof -
  show "offs < int (length img) \<Longrightarrow> announced img len offs = min (int (length img) - offs) len"
    "offs = int (length img) \<Longrightarrow> announced img len offs = 0"
    using assms by (auto simp: announced_def u32_id min_def)
  assume o: "int (length img) < offs"
  then have m: "min (int (length img)) (offs + len) = int (length img)" using assms(1) by simp
  define d where "d = offs - int (length img)"
  have d: "0 < d" "d \<le> 2147483648" using o assms(4) by (simp_all add: d_def)
  have e: "- d = (4294967296 - d) + 4294967296 * (- 1)" by simp
  have "(4294967296 - d) mod 4294967296 = 4294967296 - d" using d by (intro mod_pos_pos_trivial) simp_all
  then have "(- d) mod 4294967296 = 4294967296 - d" by (subst e, subst mod_mult_self2)
  moreover have "int (length img) - offs = - d" by (simp add: d_def)
  ultimately have a: "announced img len offs = 4294967296 - d" using d m by (simp add: announced_def u32_def)
  have "4294967296 - d + 2147483648 = (2147483648 - d) + 4294967296 * 1" by simp
  then have "(4294967296 - d + 2147483648) mod 4294967296 = (2147483648 - d) mod 4294967296" by (metis mod_mult_self2)
  then show "s32 (announced img len offs) < 0" using a d by (simp add: s32_def)
qed

text \<open>Reading the answer, in terms of the bytes that the server encrypted.\<close>

lemma remote_response_reads:
  assumes "so_wire (rm_in self) = snd (RC4_crypt (rm_rc4 self) (answer_bytes img len offs))"
    and "answers_ok (rm_in self) (4 + nat len + n)" and "0 < len" "len < 2147483648" "0 \<le> offs"
    and "offs \<le> int (length img) + 2147483648"
  shows "\<exists>fd. remote_response stack self =
      Some (self\<lparr>rm_in := fd, rm_rc4 := fst (RC4_crypt (rm_rc4 self) (answer_bytes img len offs))\<rparr>,
        if offs < int (length img) then Inr (take (nat len) (drop (nat offs) img))
        else if offs = int (length img) then Inl RemoteIOError else Inl RemoteSystemError) \<and>
    so_wire fd = [] \<and> answers_ok fd n"
proof -
  let ?calc = "announced img len offs" and ?c = "rm_rc4 self"
  let ?h = "le_bytes 4 (htonl ?calc)" and ?D = "take (nat ?calc) (drop (nat offs) img)"
  note ac = announced_cases[OF assms(3-6)]
  have cr: "0 \<le> ?calc" "?calc < 4294967296" using u32_range by (simp_all add: announced_def)
  obtain c1 o1 where 1: "RC4_crypt ?c ?h = (c1, o1)" by (cases "RC4_crypt ?c ?h")
  obtain c2 o2 where 2: "RC4_crypt c1 ?D = (c2, o2)" by (cases "RC4_crypt c1 ?D")
  have l: "length o1 = 4" "length o2 = length ?D"
    using length_RC4_crypt[of ?c ?h] length_RC4_crypt[of c1 ?D] 1 2 by simp_all
  have w: "so_wire (rm_in self) = o1 @ o2" "RC4_crypt ?c (answer_bytes img len offs) = (c2, o1 @ o2)"
    using assms(1) 1 2 by (simp_all add: answer_bytes_def RC4_crypt_append)
  obtain fd1 where r1: "remote_recv self 4 = Some (self\<lparr>rm_in := fd1, rm_rc4 := c1\<rparr>, ?h)" "so_wire fd1 = o2"
    "answers_ok fd1 (nat len + n)"
    using remote_recv_full[OF assms(2) _ w(1)] l(1) RC4_crypt_crypt[OF 1] by auto
  let ?s1 = "self\<lparr>rm_in := fd1, rm_rc4 := c1\<rparr>"
  have h: "?h \<noteq> []" "htonl (into_variable stack 4 ?h) = ?calc"
    using cr by (simp_all add: into_variable_full htonl_wire flip: length_greater_0_conv)
  consider "offs < int (length img)" | "offs = int (length img)" | "int (length img) < offs" by linarith
  then show ?thesis
  proof cases
    case 1
    then have k: "?calc = min (int (length img) - offs) len" "0 < ?calc" "?calc < 2147483648"
      using ac(1) assms(3,4) by simp_all
    have lD: "length ?D = nat ?calc" using k(1) 1 assms(5) by auto
    have D: "?D = take (nat len) (drop (nat offs) img)"
    proof -
      have "nat ?calc = min (length (drop (nat offs) img)) (nat len)" using k(1) 1 assms(3,5) by auto
      then show ?thesis by (simp add: min_def)
    qed
    have "?D \<noteq> []" using lD k(2) by auto
    moreover have q: "answers_ok (rm_in ?s1) (nat len + n)" "length o2 \<le> nat len + n" "so_wire (rm_in ?s1) = o2 @ []"
      and short: "length o2 \<le> nat len"
      using r1(2,3) l(2) lD nat_mono[of ?calc len] k(1) by simp_all
    have "length o2 = nat ?calc" "fst (RC4_crypt c1 o2) = c2" "snd (RC4_crypt c1 o2) = ?D"
      using l(2) lD RC4_crypt_crypt[OF \<open>RC4_crypt c1 ?D = (c2, o2)\<close>] by simp_all
    with remote_recv_full[OF q] short answers_ok_less[of _ "nat len + n - length o2" n] obtain fd2 where
      r2: "remote_recv ?s1 (nat ?calc) = Some (?s1\<lparr>rm_in := fd2, rm_rc4 := c2\<rparr>, ?D)" "so_wire fd2 = []" "answers_ok fd2 n"
      by auto
    ultimately show ?thesis
      using r1(1) h k(2,3) lD 1 w(2) D by (intro exI[of _ fd2]) (simp add: remote_response_def Let_def s32_id)
  next
    case 2
    then have k: "?calc = 0" by (rule ac(2))
    then have "c2 = c1" using \<open>RC4_crypt c1 ?D = (c2, o2)\<close> by simp
    moreover have "remote_recv ?s1 0 = Some (?s1, [])" by (simp add: remote_recv_def read_from_network_def)
    moreover have "so_wire fd1 = []" using r1(2) l(2) k by simp
    ultimately show ?thesis using r1(1,3) h k 2 w(2) answers_ok_less[of fd1 "nat len + n" n]
      by (intro exI[of _ fd1]) (simp add: remote_response_def Let_def s32_id)
  next
    case 3
    then have "s32 ?calc < 0" by (rule ac(3))
    moreover have "c2 = c1" using 3 \<open>RC4_crypt c1 ?D = (c2, o2)\<close> by simp
    moreover have "so_wire fd1 = []" using r1(2) l(2) 3 by simp
    ultimately show ?thesis using r1(1,3) h 3 w(2) answers_ok_less[of fd1 "nat len + n" n]
      by (intro exI[of _ fd1]) (simp add: remote_response_def Let_def)
  qed
qed

text \<open>The server takes one turn of its loop between the request and the answer.\<close>

definition received :: "server \<Rightarrow> remote \<Rightarrow> server" where
  "received sv self = sv\<lparr>sv_in := (sv_in sv)\<lparr>so_wire := so_wire (sv_in sv) @ so_wire (rm_out self)\<rparr>\<rparr>"

definition serve_peer :: "(nat \<Rightarrow> byte) \<Rightarrow> server \<Rightarrow> remote \<Rightarrow> remote option" where
  "serve_peer stack sv self = do {
     r \<leftarrow> serve_request stack (received sv self);
     let sv' = (case r of Inl s \<Rightarrow> s | Inr s \<Rightarrow> s);
     Some (self\<lparr>rm_in := (rm_in self)\<lparr>so_wire := so_wire (rm_in self) @ so_wire (sv_out sv')\<rparr>\<rparr>)
   }"

text \<open>The ends of a connection between two requests: the ciphers are the same, nothing is on the way or in a queue, and the
  system goes on with the connection for \<open>m\<close> more bytes to the server and \<open>n\<close> more to the client.\<close>

definition in_step :: "remote \<Rightarrow> server \<Rightarrow> nat \<Rightarrow> nat \<Rightarrow> bool" where
  "in_step self sv m n \<longleftrightarrow> rm_rc4 self = sv_rc4 sv \<and>
     sio_at_end (rm_queue self) \<and> sio_contents (rm_queue self) = [] \<and>
     sio_at_end (sv_queue sv) \<and> sio_contents (sv_queue sv) = [] \<and>
     so_wire (rm_in self) = [] \<and> so_wire (rm_out self) = [] \<and> so_wire (sv_in sv) = [] \<and> so_wire (sv_out sv) = [] \<and>
     answers_ok (rm_out self) m \<and> answers_ok (sv_in sv) m \<and> answers_ok (rm_in self) n \<and> answers_ok (sv_out sv) n"

text \<open>The ends when what they sent has arrived.\<close>

definition client_delivered :: "remote \<Rightarrow> remote" where
  "client_delivered self = self\<lparr>rm_out := (rm_out self)\<lparr>so_wire := []\<rparr>\<rparr>"

definition server_delivered :: "server \<Rightarrow> server" where
  "server_delivered sv = sv\<lparr>sv_out := (sv_out sv)\<lparr>so_wire := []\<rparr>\<rparr>"

text \<open>C30 (reading from the remote disk). When the two ends are in step and the system does not break the connection,
  the client gets exactly the bytes of the image of the server from the offset it asked for, as many as it
  asked for or as there are; however the system cuts the transfers and however often the server empties its
  queue. A request at the end of the image is an error of the
  connection, and one behind it, for which the server announces a negative length, an error of the
  Python interpreter; that is stated for up to 2 GB behind the end, since further behind the length that is announced is positive again
  and the client waits for bytes that never come. After each of the three answers the two ends are again in step, with the image as it was, so
  that the next request is served the same way.\<close>

theorem remote_read_random_serves:
  assumes "in_step self sv (12 + m) (4 + nat len + n)" and "offs + rm_offset self = o1"
    and "0 < len" "len < 2147483648" "0 \<le> o1" "o1 < 9223372036854775808"
    and "img = tg_data (sv_target sv)" and "o1 \<le> int (length img) + 2147483648"
  shows "\<exists>self1 sv' self'. remote_request self len o1 = Some self1 \<and>
    serve_request stack (received sv self1) = Some (Inr sv') \<and>
    remote_read_random stack (serve_peer stack sv) self len offs = Some (self',
      if o1 < int (length img) then Inr (take (nat len) (drop (nat o1) img))
      else if o1 = int (length img) then Inl RemoteIOError else Inl RemoteSystemError) \<and>
    rm_rc4 self' = sv_rc4 sv' \<and> in_step (client_delivered self') (server_delivered sv') m n \<and>
    tg_data (sv_target sv') = img \<and> rm_offset self' = rm_offset self"
proof -
  note st = assms(1)[unfolded in_step_def]
  let ?c2 = "fst (RC4_crypt (rm_rc4 self) (request_bytes len o1))" and ?P = "answer_bytes img len o1"
  obtain fd q where rq: "remote_request self len o1 = Some (self\<lparr>rm_out := fd, rm_queue := q, rm_rc4 := ?c2\<rparr>)"
    "so_wire fd = snd (RC4_crypt (rm_rc4 self) (request_bytes len o1))" "sio_at_end q" "sio_contents q = []" "answers_ok fd m"
    using remote_request_sends[of self m len o1] st by blast
  let ?s1 = "self\<lparr>rm_out := fd, rm_queue := q, rm_rc4 := ?c2\<rparr>"
  have lP: "length ?P \<le> 4 + nat len"
    using announced_cases(1,2)[OF assms(3-5,8)] by (cases "o1 < int (length img)") (auto simp: answer_bytes_def)
  have "answers_ok (sv_out sv) (length ?P + n)"
    by (rule answers_ok_less[of _ "4 + nat len + n"]) (use st lP in simp_all)
  moreover have "so_wire (sv_in (received sv ?s1)) = snd (RC4_crypt (sv_rc4 (received sv ?s1)) (request_bytes len o1))"
    "answers_ok (sv_in (received sv ?s1)) (12 + m)" "sv_rc4 (received sv ?s1) = rm_rc4 self"
    "sv_queue (received sv ?s1) = sv_queue sv" "sv_out (received sv ?s1) = sv_out sv" "sv_target (received sv ?s1) = sv_target sv"
    using st rq(2) by (simp_all add: received_def answers_ok_def)
  ultimately obtain sv' where sv': "serve_request stack (received sv ?s1) = Some (Inr sv')"
    "sv_rc4 sv' = fst (RC4_crypt ?c2 ?P)" "so_wire (sv_out sv') = snd (RC4_crypt ?c2 ?P)"
    "so_wire (sv_in sv') = []" "answers_ok (sv_in sv') m" "answers_ok (sv_out sv') n"
    "sio_at_end (sv_queue sv')" "sio_contents (sv_queue sv') = []" "tg_data (sv_target sv') = img"
    using serve_request_answers[of "received sv ?s1" len o1 m n ?c2 stack] st assms(3-7) by auto
  let ?s2 = "?s1\<lparr>rm_in := (rm_in self)\<lparr>so_wire := snd (RC4_crypt ?c2 ?P)\<rparr>\<rparr>"
  have p: "serve_peer stack sv ?s1 = Some ?s2" using sv'(1,3) st by (simp add: serve_peer_def Let_def)
  have "answers_ok (rm_in ?s2) (4 + nat len + n)" using st by (simp add: answers_ok_def)
  then obtain fd2 where r: "remote_response stack ?s2 = Some (?s2\<lparr>rm_in := fd2, rm_rc4 := fst (RC4_crypt ?c2 ?P)\<rparr>,
      if o1 < int (length img) then Inr (take (nat len) (drop (nat o1) img))
      else if o1 = int (length img) then Inl RemoteIOError else Inl RemoteSystemError)" "so_wire fd2 = []" "answers_ok fd2 n"
    using remote_response_reads[of ?s2 img len o1 n stack] assms(3-5,8) by auto
  let ?s3 = "?s2\<lparr>rm_in := fd2, rm_rc4 := fst (RC4_crypt ?c2 ?P)\<rparr>"
  have "u64 (offs + rm_offset self) = o1" using assms(2,5,6) by (simp add: u64_id)
  then have read: "remote_read_random stack (serve_peer stack sv) self len offs = remote_response stack ?s2"
    using assms(3) rq(1) p by (simp add: remote_read_random_def)
  have "in_step (client_delivered ?s3) (server_delivered sv') m n"
    unfolding in_step_def client_delivered_def server_delivered_def
    using rq(3-5) sv'(2,4-8) r(2,3) by (simp add: answers_ok_def)
  then show ?thesis
    by (intro exI[of _ ?s1] exI[of _ sv'] exI[of _ ?s3] conjI rq(1) sv'(1,9) read[folded r(1), THEN trans] r(1))
      (simp_all add: sv'(2))
qed

section \<open>The property on a concrete input\<close>

definition demo_cipher :: rc4 where
  "demo_cipher = \<lparr>rc_sbox = map of_nat [0..<256], rc_i = 0, rc_j = 0\<rparr>"

definition demo_socket :: "int \<Rightarrow> socket" where
  "demo_socket k = \<lparr>so_wire = [], so_answers = replicate 20 k\<rparr>"

definition demo_remote :: remote where
  "demo_remote = \<lparr>rm_in = demo_socket 3, rm_out = demo_socket 5, rm_rc4 = demo_cipher, rm_offset = 1,
     rm_queue = StringIO_constructor (\<lambda>_. 0)\<rparr>"

definition demo_server :: server where
  "demo_server = \<lparr>sv_in = demo_socket 1, sv_out = demo_socket 2, sv_rc4 = demo_cipher,
     sv_queue = StringIO_constructor (\<lambda>_. 0), sv_target = \<lparr>tg_data = [10, 11, 12, 13], tg_pos = 4\<rparr>\<rparr>"

lemma remote_read_random_serves_witness:
  "(\<exists>self' sv'. remote_read_random (\<lambda>_. 0) (serve_peer (\<lambda>_. 0) demo_server) demo_remote 2 1 = Some (self', Inr [12, 13]) \<and>
      in_step (client_delivered self') (server_delivered sv') 8 10) \<and>
   (\<exists>self'. remote_read_random (\<lambda>_. 0) (serve_peer (\<lambda>_. 0) demo_server) demo_remote 2 3 = Some (self', Inl RemoteIOError))"
proof -
  have s: "in_step demo_remote demo_server (12 + 8) (4 + nat 2 + 10)"
    by (simp add: in_step_def demo_remote_def demo_server_def demo_socket_def answers_ok_def sio_at_end_def sio_contents_def)
  have d: "rm_offset demo_remote = 1" "tg_data (sv_target demo_server) = [10, 11, 12, 13]"
    by (simp_all add: demo_remote_def demo_server_def)
  show ?thesis
    using remote_read_random_serves[OF s refl, of 1 "tg_data (sv_target demo_server)" "\<lambda>_. 0"]
      remote_read_random_serves[OF s refl, of 3 "tg_data (sv_target demo_server)" "\<lambda>_. 0"] d by auto
qed

end
