(* ===== verification/Sgzip.thy ===== *)
theory Sgzip
  imports Byte_Stream
begin

text \<open>
  The seekable gzip format of \<open>src/src/lib/sgzlib.c\<close>: blocks of an image that are compressed one by
  one, behind a header and in front of an index of their offsets. The theory holds the writer, the reader of random
  parts with its cache in global variables, the reader that restores the whole image, and the one that finds the index again.

  zlib is a parameter: \<open>z_compress2\<close> and \<open>z_uncompress\<close> answer the code, what they wrote at the start of the
  destination, and the length that they leave in \<open>*destLen\<close>. A descriptor is a file with a position and
  the number of bytes that the system moves in its n-th call at most, negative for an error. \<open>heap\<close> is what a block
  holds when it is allocated. \<open>None\<close> is an access outside of memory; an exception is the value \<open>Inl\<close>.
\<close>

section \<open>Descriptors and zlib\<close>

record fdesc =
  fd_data :: "byte list"
  fd_pos :: nat
  fd_calls :: nat
  fd_moves :: "nat \<Rightarrow> int"

definition read_fd :: "fdesc \<Rightarrow> nat \<Rightarrow> fdesc \<times> byte list \<times> int" where
  "read_fd fd n =
     (let a = fd_moves fd (fd_calls fd); fd = fd\<lparr>fd_calls := Suc (fd_calls fd)\<rparr>
      in if a < 0 then (fd, [], -1)
         else let xs = take (min (nat a) n) (drop (fd_pos fd) (fd_data fd))
              in (fd\<lparr>fd_pos := fd_pos fd + length xs\<rparr>, xs, int (length xs)))"

definition write_fd :: "fdesc \<Rightarrow> byte list \<Rightarrow> fdesc" where
  "write_fd fd xs =
     (let a = fd_moves fd (fd_calls fd); fd = fd\<lparr>fd_calls := Suc (fd_calls fd)\<rparr>
      in if a \<le> 0 \<or> xs = [] then fd
         else let ys = take (nat a) xs; p = fd_pos fd; old = fd_data fd
              in fd\<lparr>fd_data := take p old @ replicate (p - length old) 0 @ ys @ drop (p + length ys) old,
                    fd_pos := p + length ys\<rparr>)"

text \<open>\<open>lseek\<close> to a place from the start; the offset is a signed number.\<close>

definition lseek_set :: "fdesc \<Rightarrow> int \<Rightarrow> fdesc \<times> bool" where
  "lseek_set fd offset = (if s64 offset < 0 then (fd, False) else (fd\<lparr>fd_pos := nat (s64 offset)\<rparr>, True))"

record zlib =
  z_compress2 :: "nat \<Rightarrow> byte list \<Rightarrow> int \<Rightarrow> int \<times> byte list \<times> nat"
  z_uncompress :: "nat \<Rightarrow> byte list \<Rightarrow> int \<times> byte list \<times> nat"

definition Z_OK :: int where "Z_OK = 0"

datatype sgz_error = E_IOERROR | E_NOMEMORY | E_GENERIC

definition malloc_block :: "(nat \<Rightarrow> byte) \<Rightarrow> int \<Rightarrow> byte list option" where
  "malloc_block heap n = (if n < 0 then None else Some (map heap [0..<nat n]))"

text \<open>A block into whose start some bytes are read.\<close>

definition over_block :: "byte list \<Rightarrow> byte list \<Rightarrow> byte list" where
  "over_block xs block = xs @ drop (length xs) block"

section \<open>The header\<close>

record sgzip_header =
  sh_magic :: "byte list"
  sh_blocksize :: int
  sh_x :: "byte list"

record sgzip_obj =
  sg_header :: sgzip_header
  sg_level :: int

definition SIZEOF_HEADER :: nat where "SIZEOF_HEADER = 11"
definition DEFAULT_BLOCKSIZE :: int where "DEFAULT_BLOCKSIZE = 32768"

definition max_chunks :: "sgzip_header \<Rightarrow> int" where
  "max_chunks h = le_val (sh_x h)"

definition header_bytes :: "sgzip_header \<Rightarrow> byte list" where
  "header_bytes h = sh_magic h @ le_bytes 4 (sh_blocksize h) @ sh_x h"

definition header_of :: "byte list \<Rightarrow> sgzip_header" where
  "header_of m = \<lparr>sh_magic = take 3 m, sh_blocksize = le_val (take 4 (drop 3 m)), sh_x = take 4 (drop 7 m)\<rparr>"

definition SGZ :: "byte list" where "SGZ = [115, 103, 122]"
definition GZIP :: "byte list" where "GZIP = [103, 122, 105, 112]"
definition SGZIDX :: "byte list" where "SGZIDX = [115, 103, 122, 105, 100, 120]"

text \<open>The two arrays are copied with the NUL at their ends.\<close>

definition sgzip_default_header :: "(nat \<Rightarrow> byte) \<Rightarrow> sgzip_header option" where
  "sgzip_default_header heap = do {
     m \<leftarrow> malloc_block heap (int SIZEOF_HEADER);
     m \<leftarrow> mem_write m 0 (SGZ @ [0]);
     m \<leftarrow> mem_write m 7 (GZIP @ [0]);
     m \<leftarrow> mem_write m 3 (le_bytes 4 DEFAULT_BLOCKSIZE);
     Some (header_of m)
   }"

text \<open>Reading until the buffer is full or the file ends; the bytes are in the buffer even when the answer is an error.\<close>

function read_from_stream :: "fdesc \<Rightarrow> int \<Rightarrow> fdesc \<times> byte list \<times> int" where
  "read_from_stream fd len =
     (if len > 0 then
        (case read_fd fd (nat len) of
           (fd, xs, r) \<Rightarrow>
             if r < 0 then (fd, [], r)
             else if xs = [] then (fd, [], 0)
             else (case read_from_stream fd (len - int (length xs)) of
                     (fd, ys, r) \<Rightarrow> (fd, xs @ ys, if r < 0 then r else int (length xs) + r)))
      else (fd, [], 0))"
  by pat_completeness auto
termination
  by (relation "measure (\<lambda>(fd, len). nat len)") auto

declare read_from_stream.simps [simp del]

text \<open>The number of bytes is compared without sign, so that only a short header is refused, not an error.\<close>

definition sgzip_read_header :: "(nat \<Rightarrow> byte) \<Rightarrow> fdesc \<Rightarrow> fdesc \<times> (sgz_error + sgzip_header)" where
  "sgzip_read_header heap fd =
     (let (fd, _) = lseek_set fd 0;
          (fd, xs, r) = read_from_stream fd (int SIZEOF_HEADER);
          h = header_of (over_block xs (map heap [0..<SIZEOF_HEADER]))
      in if u64 r < int SIZEOF_HEADER then (fd, Inl E_IOERROR)
         else if sh_magic h \<noteq> SGZ then (fd, Inl E_IOERROR)
         else (fd, Inr h))"

section \<open>Writing\<close>

text \<open>The index as it is built: the offset behind each block.\<close>

definition add_item :: "int list \<Rightarrow> int \<Rightarrow> int list" where
  "add_item idx block_length =
     (if idx = [] then [u64 block_length] else idx @ [u64 (last idx + block_length)])"

definition BUFFER_SIZE :: int where "BUFFER_SIZE = 1048576"

text \<open>\<open>buffer\<close> is the part of the buffer that is filled. Data that are longer than the buffer are not written: as many bytes
  are taken from the buffer itself.\<close>

definition stream_write :: "fdesc \<Rightarrow> byte list option \<Rightarrow> int \<Rightarrow> byte list \<Rightarrow> (fdesc \<times> byte list) option" where
  "stream_write outfd data len buffer =
     (let (outfd, buffer) =
            (if data = None \<or> len = 0 \<or> u32 (int (length buffer) + len) > BUFFER_SIZE
             then (write_fd outfd buffer, []) else (outfd, buffer))
      in if len > BUFFER_SIZE then None
         else case data of
                None \<Rightarrow> Some (outfd, buffer)
              | Some xs \<Rightarrow> if len > 0 then map_option (\<lambda>ys. (outfd, buffer @ ys)) (mem_read xs 0 len)
                          else Some (outfd, buffer))"

definition sgzip_write_header :: "(nat \<Rightarrow> byte) \<Rightarrow> fdesc \<Rightarrow> sgzip_header option \<Rightarrow>
    (fdesc \<times> (sgz_error + sgzip_header)) option" where
  "sgzip_write_header heap fd header = do {
     h \<leftarrow> (case header of Some h \<Rightarrow> Some h | None \<Rightarrow> sgzip_default_header heap);
     let n = fd_moves fd (fd_calls fd);
     Some (write_fd fd (header_bytes h), if 0 \<le> n \<and> n < int SIZEOF_HEADER then Inl E_IOERROR else Inr h)
   }"

text \<open>The index in memory is a list of numbers, up to the first that is zero.\<close>

fun write_index_loop :: "fdesc \<Rightarrow> int list \<Rightarrow> byte list \<Rightarrow> int \<Rightarrow> (fdesc \<times> byte list \<times> int) option" where
  "write_index_loop outfd [] buffer count = None"
| "write_index_loop outfd (i # index) buffer count =
     (if i = 0 then Some (outfd, buffer, count)
      else (case stream_write outfd (Some (le_bytes 8 i)) 8 buffer of
              None \<Rightarrow> None
            | Some (outfd, buffer) \<Rightarrow> write_index_loop outfd index buffer (s32 (count + 1))))"

definition sgzip_write_index :: "fdesc \<Rightarrow> int list \<Rightarrow> fdesc option" where
  "sgzip_write_index outfd index = do {
     (outfd, buffer, count) \<leftarrow> write_index_loop outfd index [] 0;
     (outfd, _) \<leftarrow> stream_write outfd None 0 buffer;
     let outfd = write_fd outfd (le_bytes 4 (u32 count));
     Some (write_fd outfd SGZIDX)
   }"

record compressor =
  cp_in :: fdesc
  cp_out :: fdesc
  cp_datain :: "byte list"
  cp_dataout :: "byte list"
  cp_buffer :: "byte list"
  cp_index :: "int list"

text \<open>Compressing one block of \<open>lengthin\<close> bytes: what \<open>dataout\<close> holds then, and \<open>lengthout\<close>. A level of
  zero copies the block and leaves \<open>lengthout\<close> the size of the buffer.\<close>

definition compress_block :: "zlib \<Rightarrow> sgzip_obj \<Rightarrow> byte list \<Rightarrow> byte list \<Rightarrow> int \<Rightarrow>
    (sgz_error + byte list \<times> int) option" where
  "compress_block z sgzip dataout datain lengthin =
     (let lengthout = u32 (sh_blocksize (sg_header sgzip) + 1024)
      in if sg_level sgzip = 0
         then if lengthin > lengthout then Some (Inl E_GENERIC)
              else do {
                xs \<leftarrow> mem_read datain 0 lengthin;
                dataout \<leftarrow> mem_write dataout 0 xs;
                Some (Inr (dataout, lengthout))
              }
         else do {
           xs \<leftarrow> mem_read datain 0 lengthin;
           let (_, out, destLen) = z_compress2 z (nat lengthout) xs (sg_level sgzip);
           dataout \<leftarrow> mem_write dataout 0 out;
           Some (Inr (dataout, int destLen))
         })"

text \<open>One turn of the loop; the answer is whether another follows. \<open>lengthin\<close> has no sign, so that an error of the
  input is a length.\<close>

definition compress_step :: "zlib \<Rightarrow> sgzip_obj \<Rightarrow> compressor \<Rightarrow>
    (compressor \<times> sgz_error + compressor \<times> bool) option" where
  "compress_step z sgzip c = do {
     let (infd, xs, r) = read_from_stream (cp_in c) (s32 (sh_blocksize (sg_header sgzip)));
     let lengthin = u32 r;
     let c = c\<lparr>cp_in := infd, cp_datain := over_block xs (cp_datain c)\<rparr>;
     b \<leftarrow> compress_block z sgzip (cp_dataout c) (cp_datain c) lengthin;
     case b of
       Inl e \<Rightarrow> Some (Inl (c, e))
     | Inr (dataout, lengthout) \<Rightarrow> do {
         (outfd, buffer) \<leftarrow> stream_write (cp_out c) (Some (le_bytes 4 (u32 lengthout))) 4 (cp_buffer c);
         let index = add_item (cp_index c) (s32 lengthout);
         (outfd, buffer) \<leftarrow> stream_write outfd (Some dataout) (s32 lengthout) buffer;
         Some (Inr (c\<lparr>cp_out := outfd, cp_dataout := dataout, cp_buffer := buffer, cp_index := index\<rparr>, lengthin > 0))
       }
   }"

partial_function (option) compress_loop :: "zlib \<Rightarrow> sgzip_obj \<Rightarrow> compressor \<Rightarrow>
    (compressor \<times> sgz_error + compressor) option" where
  "compress_loop z sgzip c =
     (case compress_step z sgzip c of
        None \<Rightarrow> None
      | Some (Inl r) \<Rightarrow> Some (Inl r)
      | Some (Inr (c', again)) \<Rightarrow> if again then compress_loop z sgzip c' else Some (Inr c'))"

declare compress_loop.simps [code]

definition sgzip_compress_fds :: "zlib \<Rightarrow> (nat \<Rightarrow> byte) \<Rightarrow> fdesc \<Rightarrow> fdesc \<Rightarrow> sgzip_obj \<Rightarrow>
    (fdesc \<times> fdesc \<times> sgz_error option) option" where
  "sgzip_compress_fds z heap infd outfd sgzip = do {
     let bs = sh_blocksize (sg_header sgzip);
     datain \<leftarrow> malloc_block heap bs;
     dataout \<leftarrow> malloc_block heap (u32 (bs + 1024));
     r \<leftarrow> compress_loop z sgzip
           \<lparr>cp_in = infd, cp_out = outfd, cp_datain = datain, cp_dataout = dataout, cp_buffer = [], cp_index = []\<rparr>;
     case r of
       Inl (c, e) \<Rightarrow> Some (cp_in c, cp_out c, Some e)
     | Inr c \<Rightarrow> do {
         (outfd, buffer) \<leftarrow> stream_write (cp_out c) (Some (le_bytes 8 0)) 8 (cp_buffer c);
         (outfd, _) \<leftarrow> stream_write outfd None 0 buffer;
         outfd \<leftarrow> sgzip_write_index outfd (cp_index c @ [0]);
         Some (cp_in c, outfd, None)
       }
   }"

section \<open>Reading at random\<close>

text \<open>The cache is in global variables, whatever file is read.\<close>

record sgz_globals =
  gl_data :: "byte list option"
  gl_cdata :: "byte list option"
  gl_cached_block_offs :: int
  gl_cached_length :: int

definition sgz_initial :: sgz_globals where
  "sgz_initial = \<lparr>gl_data = None, gl_cdata = None, gl_cached_block_offs = 18446744073709551615, gl_cached_length = -1\<rparr>"

definition index_at :: "int list \<Rightarrow> int \<Rightarrow> int option" where
  "index_at index i = (if 0 \<le> i \<and> nat i < length index then Some (index ! nat i) else None)"

text \<open>The block is brought into \<open>data\<close>, unless it is there already; the answer is its length.\<close>

definition load_block :: "zlib \<Rightarrow> sgzip_obj \<Rightarrow> int list \<Rightarrow> sgz_globals \<Rightarrow> fdesc \<Rightarrow> int \<Rightarrow>
    (sgz_globals \<times> fdesc \<times> (sgz_error + int)) option" where
  "load_block z sgzip index g fd block_offs =
     (if gl_cached_block_offs g \<noteq> block_offs
      then do {
        b \<leftarrow> index_at index (block_offs + 1);
        a \<leftarrow> index_at index block_offs;
        let clength = u64 (b - a);
        let bs = sh_blocksize (sg_header sgzip);
        if clength \<ge> u32 (bs + 1024) then Some (g, fd, Inl E_IOERROR)
        else do {
          let (fd, ok) = lseek_set fd (u64 (int SIZEOF_HEADER + 4 * (block_offs + 1) + a));
          if \<not> ok then Some (g, fd, Inl E_IOERROR)
          else do {
            let (fd, xs, r) = read_fd fd (nat clength);
            if r < 0 then Some (g, fd, Inl E_IOERROR)
            else do {
              cdata \<leftarrow> gl_cdata g;
              cdata \<leftarrow> mem_write cdata 0 xs;
              src \<leftarrow> mem_read cdata 0 clength;
              data \<leftarrow> gl_data g;
              let (code, out, destLen) = z_uncompress z (nat bs) src;
              data \<leftarrow> mem_write data 0 out;
              let g = g\<lparr>gl_data := Some data, gl_cdata := Some cdata\<rparr>;
              if code \<noteq> Z_OK then Some (g, fd, Inl E_IOERROR)
              else Some (g\<lparr>gl_cached_block_offs := block_offs, gl_cached_length := s32 (int destLen)\<rparr>, fd,
                         Inr (int destLen))
            }
          }
        }
      }
      else Some (g, fd, Inr (u64 (gl_cached_length g))))"

function read_blocks :: "zlib \<Rightarrow> sgzip_obj \<Rightarrow> int list \<Rightarrow> sgz_globals \<Rightarrow> fdesc \<Rightarrow> int \<Rightarrow> int \<Rightarrow> int \<Rightarrow> byte list \<Rightarrow>
    (sgz_globals \<times> fdesc \<times> (sgz_error + byte list)) option" where
  "read_blocks z sgzip index g fd len block_offs buffer_offset copied =
     (if \<not> len > 0 \<or> block_offs \<ge> u32 (max_chunks (sg_header sgzip) - 1) then Some (g, fd, Inr copied)
      else (case load_block z sgzip index g fd block_offs of
              None \<Rightarrow> None
            | Some (g, fd, Inl e) \<Rightarrow> Some (g, fd, Inl e)
            | Some (g, fd, Inr n) \<Rightarrow>
                (let available = min (u64 (n - buffer_offset)) len
                 in case Option.bind (gl_data g) (\<lambda>data. mem_read data buffer_offset available) of
                      None \<Rightarrow> None
                    | Some xs \<Rightarrow> read_blocks z sgzip index g fd (len - available) (block_offs + 1) 0 (copied @ xs))))"
  by pat_completeness auto
termination
proof (relation "measure (\<lambda>(z, sgzip, index, g, fd, len, block_offs, off, copied). nat (4294967296 - block_offs))", goal_cases)
  case (2 z sgzip index g fd len block_offs)
  then have "block_offs < 4294967296" using u32_range[of "max_chunks (sg_header sgzip) - 1"] by linarith
  then show ?case by simp
qed simp

declare read_blocks.simps [simp del]

definition sgzip_read_random :: "zlib \<Rightarrow> (nat \<Rightarrow> byte) \<Rightarrow> sgzip_obj \<Rightarrow> int list \<Rightarrow> sgz_globals \<Rightarrow> fdesc \<Rightarrow> int \<Rightarrow> int \<Rightarrow>
    (sgz_globals \<times> fdesc \<times> (sgz_error + byte list)) option" where
  "sgzip_read_random z heap sgzip index g fd len offs =
     (let bs = sh_blocksize (sg_header sgzip);
          block = Some (map heap [0..<nat (u32 (bs + 1024))]);
          g = (if gl_data g = None then g\<lparr>gl_data := block\<rparr> else g);
          g = (if gl_cdata g = None then g\<lparr>gl_cdata := block\<rparr> else g)
      in if bs = 0 then None
         else let block_offs = u64 (s32 (offs div bs))
              in if block_offs > max_chunks (sg_header sgzip) then Some (g, fd, Inr [])
                 else read_blocks z sgzip index g fd len block_offs (offs mod bs) [])"

section \<open>The index\<close>

fun words_of :: "byte list \<Rightarrow> int list" where
  "words_of (a # b # c # d # e # f # g # h # m) = le_val [a, b, c, d, e, f, g, h] # words_of m"
| "words_of m = []"

text \<open>The answer NULL is the value \<open>Inr None\<close>. \<open>count\<close> is on the stack. The comparisons of lengths with
  \<open>sizeof\<close> have no sign.\<close>

definition sgzip_read_index :: "(nat \<Rightarrow> byte) \<Rightarrow> fdesc \<Rightarrow> sgzip_obj \<Rightarrow>
    (fdesc \<times> sgzip_obj \<times> (sgz_error + int list option)) option" where
  "sgzip_read_index stack fd sgzip =
     (let fin = int (length (fd_data fd));
          fd = fd\<lparr>fd_pos := nat fin\<rparr>;
          (fd, ok) = lseek_set fd (u64 (fin - 10))
      in if \<not> ok then Some (fd, sgzip, Inr None)
         else let (fd, xs, r) = read_fd fd 4; count = le_val (over_block xs (map stack [0..<4]))
              in if u64 r < 4 then Some (fd, sgzip, Inl E_IOERROR)
                 else let (fd, magic, r) = read_fd fd 6
                      in if r < 6 then Some (fd, sgzip, Inl E_IOERROR)
                         else if magic \<noteq> SGZIDX then Some (fd, sgzip, Inr None)
                         else let sgzip = sgzip\<lparr>sg_header := (sg_header sgzip)\<lparr>sh_x := le_bytes 4 count\<rparr>\<rparr>;
                                  index = replicate (8 * nat (u32 (count + 1))) 0;
                                  (fd, ok) = lseek_set fd (u64 (fin - 10 - count * 8))
                              in if \<not> ok then Some (fd, sgzip, Inr None)
                                 else let (fd, ys, r) = read_fd fd (8 * nat count)
                                      in do {
                                           index \<leftarrow> mem_write index 8 ys;
                                           if u64 r < 8 * count then Some (fd, sgzip, Inr None)
                                           else let ws = words_of index
                                                in if nat count < length ws
                                                   then Some (fd, sgzip, Inr (Some (ws[nat count := 0])))
                                                   else None
                                         })"

text \<open>Every byte that is read is taken from the front of what is left.\<close>

definition fd_rest :: "fdesc \<Rightarrow> byte list" where
  "fd_rest fd = drop (fd_pos fd) (fd_data fd)"

lemma read_fd_rest: "read_fd fd n = (fd', xs, r) \<Longrightarrow> fd_rest fd = xs @ fd_rest fd' \<and> (r < 0 \<longrightarrow> xs = [])"
proof -
  assume a: "read_fd fd n = (fd', xs, r)"
  let ?k = "min (nat (fd_moves fd (fd_calls fd))) n"
  have *: "m @ drop (length m + fd_pos fd) (fd_data fd) = fd_rest fd" if "m = take ?k (fd_rest fd)" for m
  proof -
    have "drop (length m + fd_pos fd) (fd_data fd) = drop (length m) (fd_rest fd)" by (simp add: fd_rest_def)
    also have "\<dots> = drop ?k (fd_rest fd)" by (simp add: that min_def)
    finally have "m @ drop (length m + fd_pos fd) (fd_data fd) = take ?k (fd_rest fd) @ drop ?k (fd_rest fd)"
      by (simp only: that)
    then show ?thesis by (simp only: append_take_drop_id)
  qed
  show ?thesis using a *[OF refl] by (auto simp: read_fd_def Let_def fd_rest_def add.commute split: if_splits)
qed

lemma read_from_stream_rest:
  "read_from_stream fd n = (fd', xs, r) \<Longrightarrow> fd_rest fd = xs @ fd_rest fd' \<and> (r > 0 \<longrightarrow> xs \<noteq> [])"
proof (induction fd n arbitrary: fd' xs r rule: read_from_stream.induct)
  case (1 fd n)
  show ?case
  proof (cases "n > 0")
    case True
    obtain fd1 ys s where y: "read_fd fd (nat n) = (fd1, ys, s)" by (metis prod_cases3)
    note rest = read_fd_rest[OF y]
    show ?thesis
    proof (cases "s < 0 \<or> ys = []")
      case True
      then show ?thesis using 1(2) \<open>n > 0\<close> y rest by (auto simp: read_from_stream.simps[of fd n] split: if_splits)
    next
      case False
      obtain fd2 zs t where z: "read_from_stream fd1 (n - int (length ys)) = (fd2, zs, t)" by (metis prod_cases3)
      from 1(1)[OF True y[symmetric] refl _ _ z] False
      have "fd_rest fd1 = zs @ fd_rest fd2" by auto
      then show ?thesis using 1(2) \<open>n > 0\<close> False y z rest by (auto simp: read_from_stream.simps[of fd n])
    qed
  next
    case False
    then show ?thesis using 1(2) by (auto simp: read_from_stream.simps[of fd n])
  qed
qed

lemma read_from_stream_progress:
  assumes "(fd', xs, r) = read_from_stream fd n" and "r > 0" and "(fd'', ys, r') = read_from_stream fd' m"
  shows "length (fd_rest fd'') < length (fd_rest fd)"
  using read_from_stream_rest[OF assms(1)[symmetric]] read_from_stream_rest[OF assms(3)[symmetric]] assms(2) by auto

text \<open>Following the blocks: the number of blocks seen, and the items of the list. An error of the input ends the loop, as
  its exception is caught. A length that is read in part keeps its other bytes.\<close>

function follow_blocks :: "fdesc \<Rightarrow> int \<Rightarrow> byte list \<Rightarrow> int \<Rightarrow> int list \<Rightarrow> (fdesc \<times> int \<times> int list) option" where
  "follow_blocks fd datalength len_bytes count items =
     (case read_from_stream fd 4 of
        (fd', xs, r) \<Rightarrow>
          (let len_bytes' = over_block xs len_bytes; len = s32 (le_val len_bytes')
           in if r > 0 \<and> len > 0 then
                (let count' = s32 (count + 1)
                 in if len > s32 (datalength + 1024) then Some (fd', count', items)
                    else let items' = add_item items len
                         in (case read_from_stream fd' len of
                               (fd'', ys, r') \<Rightarrow>
                                 if int (length ys) > datalength then None
                                 else if r' < len then Some (fd'', count', items')
                                 else follow_blocks fd'' datalength len_bytes' count' items'))
              else Some (fd', count, items)))"
  by pat_completeness auto
termination
  by (relation "measure (\<lambda>(fd, d, l, c, i). length (fd_rest fd))") (auto intro: read_from_stream_progress)

declare follow_blocks.simps [simp del]

text \<open>The table has one entry for each block that was seen; entries from the second on are set, and the one behind them.\<close>

fun set_entries :: "int list \<Rightarrow> nat \<Rightarrow> int list \<Rightarrow> int list option" where
  "set_entries index count [] = (if count < length index then Some (index[count := 0]) else None)"
| "set_entries index count (i # items) =
     (if count < length index then set_entries (index[count := i]) (Suc count) items else None)"

definition sgzip_calculate_index_from_stream :: "(nat \<Rightarrow> byte) \<Rightarrow> fdesc \<Rightarrow> sgzip_obj \<Rightarrow>
    (fdesc \<times> (sgz_error + int list)) option" where
  "sgzip_calculate_index_from_stream heap fd sgzip =
     (let datalength = s32 (sh_blocksize (sg_header sgzip) + 1024)
      in if datalength < 0 then Some (fd, Inl E_NOMEMORY)
         else do {
           (fd, count, items) \<leftarrow> follow_blocks fd datalength [0, 0, 0, 0] 0 [];
           if count < 0 then Some (fd, Inl E_NOMEMORY)
           else do {
             index \<leftarrow> set_entries (words_of (map heap [0..<8 * nat count])) 1 items;
             Some (fd, Inr index)
           }
         })"

section \<open>Restoring the image\<close>

function decompress_loop :: "zlib \<Rightarrow> fdesc \<Rightarrow> fdesc \<Rightarrow> int \<Rightarrow> byte list \<Rightarrow> byte list \<Rightarrow> byte list \<Rightarrow>
    (fdesc \<times> fdesc \<times> byte list \<times> sgz_error option) option" where
  "decompress_loop z fd outfd datalength len_bytes dataout buffer =
     (case read_from_stream fd 4 of
        (fd', xs, r) \<Rightarrow>
          (let len_bytes' = over_block xs len_bytes; len = s32 (le_val len_bytes')
           in if r > 0 \<and> len > 0 then
                (if len > datalength then Some (fd', outfd, buffer, Some E_IOERROR)
                 else (case read_from_stream fd' len of
                         (fd'', src, read_len) \<Rightarrow>
                           if read_len < len then Some (fd'', outfd, buffer, Some E_IOERROR)
                           else (case z_uncompress z (nat datalength) src of
                                   (code, out, destLen) \<Rightarrow>
                                     (case mem_write dataout 0 out of
                                        None \<Rightarrow> None
                                      | Some dataout \<Rightarrow>
                                          (let dataout = (if code \<noteq> Z_OK then replicate (nat datalength) 0 else dataout)
                                           in case stream_write outfd (Some dataout) (s32 (int destLen)) buffer of
                                                None \<Rightarrow> None
                                              | Some (outfd, buffer) \<Rightarrow>
                                                  decompress_loop z fd'' outfd datalength len_bytes' dataout buffer)))))
              else Some (fd', outfd, buffer, None)))"
  by pat_completeness auto
termination
  by (relation "measure (\<lambda>(z, fd, out, d, l, m, b). length (fd_rest fd))") (auto intro: read_from_stream_progress)

declare decompress_loop.simps [simp del]

text \<open>What is in the buffer at the end is not written.\<close>

definition sgzip_decompress_fds :: "zlib \<Rightarrow> (nat \<Rightarrow> byte) \<Rightarrow> fdesc \<Rightarrow> fdesc \<Rightarrow> sgzip_obj \<Rightarrow>
    (fdesc \<times> fdesc \<times> sgz_error option) option" where
  "sgzip_decompress_fds z heap fd outfd sgzip =
     (let datalength = s32 (sh_blocksize (sg_header sgzip) + 1024)
      in case malloc_block heap datalength of
           None \<Rightarrow> Some (fd, outfd, Some E_NOMEMORY)
         | Some dataout \<Rightarrow>
             map_option (\<lambda>(fd, outfd, _, e). (fd, outfd, e))
               (decompress_loop z fd outfd datalength [0, 0, 0, 0] dataout []))"

section \<open>The program\<close>

text \<open>\<open>compress_file\<close> and \<open>decompress_file\<close> of \<open>src/src/lib/sgzip.c\<close>, on files that are open. An exception ends the
  program.\<close>

definition compress_file :: "zlib \<Rightarrow> (nat \<Rightarrow> byte) \<Rightarrow> sgzip_obj \<Rightarrow> fdesc \<Rightarrow> fdesc \<Rightarrow> (fdesc \<times> fdesc \<times> sgz_error option) option" where
  "compress_file z heap sgzip infd outfd = do {
     (outfd, r) \<leftarrow> sgzip_write_header heap outfd (Some (sg_header sgzip));
     case r of
       Inl e \<Rightarrow> Some (infd, outfd, Some e)
     | Inr h \<Rightarrow> sgzip_compress_fds z heap infd outfd (sgzip\<lparr>sg_header := h\<rparr>)
   }"

definition decompress_file :: "zlib \<Rightarrow> (nat \<Rightarrow> byte) \<Rightarrow> sgzip_obj \<Rightarrow> fdesc \<Rightarrow> fdesc \<Rightarrow> (fdesc \<times> fdesc \<times> sgz_error option) option" where
  "decompress_file z heap sgzip infd outfd =
     (case sgzip_read_header heap infd of
        (infd, Inl e) \<Rightarrow> Some (infd, outfd, Some e)
      | (infd, Inr h) \<Rightarrow> sgzip_decompress_fds z heap infd outfd (sgzip\<lparr>sg_header := h\<rparr>))"

end
