(* ===== verification/Sgzip_Correct.thy ===== *)
theory Sgzip_Correct
  imports Sgzip
begin

text \<open>
  What the functions of \<open>sgzlib.c\<close> do together: a stream that is compressed is read back at any place and as a whole, with
  what zlib promises as a hypothesis; what the index that is stored and the one that is found again have in common;
  and where the code leaves its memory or answers what is not in the image.
\<close>

section \<open>Descriptors that do their work\<close>

text \<open>A stream from which every call gets something until it ends, and a file on which a call moves
  everything up to the limit of the system.\<close>

definition moving :: "fdesc \<Rightarrow> bool" where
  "moving fd \<longleftrightarrow> (\<forall>n. 0 < fd_moves fd n)"

definition full_moves :: "fdesc \<Rightarrow> bool" where
  "full_moves fd \<longleftrightarrow> (\<forall>n. 2147479552 \<le> fd_moves fd n)"

lemma full_moves_moving: "full_moves fd \<Longrightarrow> moving fd"
  unfolding full_moves_def moving_def by (metis less_le_trans zero_less_numeral)

lemma read_fd_moving:
  assumes "moving fd" and "read_fd fd n = (fd', xs, r)"
  shows "moving fd' \<and> r = int (length xs) \<and> length xs \<le> n \<and> (0 < n \<longrightarrow> fd_rest fd \<noteq> [] \<longrightarrow> xs \<noteq> []) \<and>
    fd_rest fd = xs @ fd_rest fd' \<and> fd_data fd' = fd_data fd \<and> (full_moves fd \<longrightarrow> full_moves fd')"
proof -
  let ?k = "min (nat (fd_moves fd (fd_calls fd))) n"
  have a: "0 < fd_moves fd (fd_calls fd)" using assms(1) by (simp add: moving_def)
  then have xs: "xs = take ?k (fd_rest fd)" and r: "r = int (length xs)"
    and fd': "fd_data fd' = fd_data fd" "fd_moves fd' = fd_moves fd"
    using assms(2) by (auto simp: read_fd_def Let_def fd_rest_def)
  have "length xs \<le> n" by (simp add: xs)
  moreover have "0 < n \<longrightarrow> fd_rest fd \<noteq> [] \<longrightarrow> xs \<noteq> []" using a xs by auto
  moreover have "moving fd'" "full_moves fd \<longrightarrow> full_moves fd'" using assms(1) fd'(2) by (simp_all add: moving_def full_moves_def)
  ultimately show ?thesis using read_fd_rest[OF assms(2)] r fd'(1) by blast
qed

lemma read_from_stream_moving:
  assumes "moving fd" and "0 \<le> n"
  shows "\<exists>fd'. read_from_stream fd n = (fd', take (nat n) (fd_rest fd), int (length (take (nat n) (fd_rest fd)))) \<and>
    moving fd' \<and> fd_rest fd' = drop (nat n) (fd_rest fd) \<and> fd_data fd' = fd_data fd \<and> (full_moves fd \<longrightarrow> full_moves fd')"
  using assms
proof (induction fd n rule: read_from_stream.induct)
  case (1 fd n)
  show ?case
  proof (cases "n = 0")
    case True
    then show ?thesis using 1(2) by (simp add: read_from_stream.simps[of fd 0])
  next
    case False
    then have n: "n > 0" using 1(3) by simp
    obtain fd1 xs r where y: "read_fd fd (nat n) = (fd1, xs, r)" by (metis prod_cases3)
    note m = read_fd_moving[OF 1(2) y]
    show ?thesis
    proof (cases "xs = []")
      case True
      have "0 < nat n" using n by simp
      then have e: "fd_rest fd = []" using m True by blast
      have e1: "r = 0" using m True by simp
      have "fd_rest fd = xs @ fd_rest fd1" using m by blast
      then have e2: "fd_rest fd1 = []" using e by simp
      have "read_from_stream fd n = (fd1, [], 0)" using n y True e1 by (simp add: read_from_stream.simps[of fd n])
      then show ?thesis using m e e2 by simp
    next
      case False
      have "0 \<le> n - int (length xs)" using m n by auto
      from 1(1)[OF n y[symmetric] refl _ False _ this] m obtain fd2 where
        f: "read_from_stream fd1 (n - int (length xs)) =
          (fd2, take (nat (n - int (length xs))) (fd_rest fd1), int (length (take (nat (n - int (length xs))) (fd_rest fd1))))"
        "moving fd2" "fd_rest fd2 = drop (nat (n - int (length xs))) (fd_rest fd1)" "fd_data fd2 = fd_data fd1"
        "full_moves fd1 \<longrightarrow> full_moves fd2" by auto
      have k: "nat (n - int (length xs)) = nat n - length xs" by simp
      have r: "\<not> r < 0" using m by simp
      have td: "take (nat n) (fd_rest fd) = xs @ take (nat n - length xs) (fd_rest fd1)"
        "drop (nat n) (fd_rest fd) = drop (nat n - length xs) (fd_rest fd1)"
        using m by simp_all
      have "read_from_stream fd n = (fd2, take (nat n) (fd_rest fd), int (length (take (nat n) (fd_rest fd))))"
        using f(1) y n False r unfolding k td by (simp add: read_from_stream.simps[of fd n])
      moreover have "fd_rest fd2 = drop (nat n) (fd_rest fd)" using f(3) unfolding k td .
      moreover have "fd_data fd2 = fd_data fd" "full_moves fd \<longrightarrow> full_moves fd2" using f(4,5) m by simp_all
      ultimately show ?thesis using f(2) by blast
    qed
  qed
qed

interpretation fd_source: byte_source moving fd_rest
    "\<lambda>fd n. case read_from_stream fd n of (fd, xs, _) \<Rightarrow> Some (fd, xs)"
proof
  fix fd :: fdesc and n :: int
  assume "moving fd" "0 \<le> n" "n < 2147483648"
  then show "\<exists>s'. (case read_from_stream fd n of (fd, xs, _) \<Rightarrow> Some (fd, xs)) = Some (s', take (nat n) (fd_rest fd)) \<and>
      moving s' \<and> fd_rest s' = drop (nat n) (fd_rest fd)"
    using read_from_stream_moving[of fd n] by auto
qed

section \<open>The buffered writer is a sink\<close>

definition at_end :: "fdesc \<Rightarrow> bool" where
  "at_end fd \<longleftrightarrow> full_moves fd \<and> fd_pos fd = length (fd_data fd)"

lemma write_fd_at_end:
  assumes "at_end fd" and "int (length xs) \<le> 2147479552"
  shows "fd_data (write_fd fd xs) = fd_data fd @ xs \<and> at_end (write_fd fd xs)"
proof -
  have "2147479552 \<le> fd_moves fd (fd_calls fd)" using assms(1) by (simp add: at_end_def full_moves_def)
  moreover from this have "take (nat (fd_moves fd (fd_calls fd))) xs = xs" using assms(2) by simp
  ultimately show ?thesis using assms(1) by (auto simp: write_fd_def at_end_def full_moves_def Let_def)
qed

type_synonym writer = "fdesc \<times> byte list"

definition writer_inv :: "writer \<Rightarrow> bool" where
  "writer_inv w \<longleftrightarrow> at_end (fst w) \<and> int (length (snd w)) \<le> BUFFER_SIZE"

definition writer_bytes :: "writer \<Rightarrow> byte list" where
  "writer_bytes w = fd_data (fst w) @ snd w"

definition writer_put :: "writer \<Rightarrow> byte list \<Rightarrow> (writer \<times> int) option" where
  "writer_put w xs = map_option (\<lambda>w. (w, int (length xs))) (stream_write (fst w) (Some xs) (int (length xs)) (snd w))"

lemma stream_write_part:
  "len \<le> int (length xs) \<Longrightarrow> stream_write fd (Some xs) len buffer = stream_write fd (Some (take (nat len) xs)) len buffer"
  by (simp add: stream_write_def mem_read_def Let_def min_def)

lemma stream_write_flush:
  assumes "writer_inv (fd, buffer)"
  shows "stream_write fd None 0 buffer = Some (write_fd fd buffer, [])" "stream_write fd (Some xs) 0 buffer = Some (write_fd fd buffer, [])"
    "at_end (write_fd fd buffer)" "fd_data (write_fd fd buffer) = writer_bytes (fd, buffer)"
  using assms write_fd_at_end[of fd buffer]
  by (simp_all add: stream_write_def writer_inv_def writer_bytes_def BUFFER_SIZE_def)

interpretation stream_sink: byte_sink writer_inv writer_bytes "\<lambda>_. nat BUFFER_SIZE" writer_put
proof
  fix w :: writer and xs :: "byte list"
  assume w: "writer_inv w" and xs: "length xs \<le> nat BUFFER_SIZE"
  obtain fd buffer where s: "w = (fd, buffer)" by (cases w)
  have b: "int (length buffer) \<le> BUFFER_SIZE" "at_end fd" using w s by (simp_all add: writer_inv_def)
  have u: "u32 (int (length buffer) + int (length xs)) = int (length buffer) + int (length xs)"
    using b xs by (simp add: u32_id BUFFER_SIZE_def)
  have wr: "fd_data (write_fd fd buffer) = fd_data fd @ buffer" "at_end (write_fd fd buffer)"
    using write_fd_at_end[OF b(2), of buffer] b(1) by (simp_all add: BUFFER_SIZE_def)
  have xs': "int (length xs) \<le> BUFFER_SIZE" "0 < BUFFER_SIZE" using xs by (simp_all add: BUFFER_SIZE_def)
  let ?fits = "xs \<noteq> [] \<and> int (length buffer) + int (length xs) \<le> BUFFER_SIZE"
  have "stream_write fd (Some xs) (int (length xs)) buffer =
      Some (if ?fits then (fd, buffer @ xs) else (write_fd fd buffer, xs))"
    using xs' u by (auto simp: stream_write_def mem_read_def Let_def)
  then show "\<exists>s'. writer_put w xs = Some (s', int (length xs)) \<and> writer_inv s' \<and>
      writer_bytes s' = writer_bytes w @ xs \<and> nat BUFFER_SIZE \<le> nat BUFFER_SIZE + length xs"
    using s b xs' wr by (auto simp: writer_put_def writer_inv_def writer_bytes_def)
qed

lemma stream_write_sink:
  assumes "writer_inv (fd, buffer)" and "int (length xs) \<le> BUFFER_SIZE"
  obtains fd' buffer' where "stream_write fd (Some xs) (int (length xs)) buffer = Some (fd', buffer')"
    "writer_inv (fd', buffer')" "writer_bytes (fd', buffer') = writer_bytes (fd, buffer) @ xs"
proof -
  have "length xs \<le> nat BUFFER_SIZE" using assms(2) by simp
  from stream_sink.put_law[OF assms(1) this] show ?thesis using that by (auto simp: writer_put_def)
qed

lemma stream_write_sink_part:
  assumes "writer_inv (fd, buffer)" and "n \<le> length xs" and "int n \<le> BUFFER_SIZE"
  obtains fd' buffer' where "stream_write fd (Some xs) (int n) buffer = Some (fd', buffer')"
    "writer_inv (fd', buffer')" "writer_bytes (fd', buffer') = writer_bytes (fd, buffer) @ take n xs"
proof -
  have l: "length (take n xs) = n" using assms(2) by simp
  have p: "stream_write fd (Some xs) (int n) buffer = stream_write fd (Some (take n xs)) (int n) buffer"
    using stream_write_part[of "int n" xs fd buffer] assms(2) by simp
  show ?thesis using stream_write_sink[OF assms(1), of "take n xs"] that unfolding p l using assms(3) by blast
qed

section \<open>The format\<close>

text \<open>What the code relies on: with room for one part in a thousand more and thirteen bytes, \<open>compress2\<close> succeeds
  and \<open>uncompress\<close> gives the block back; what it makes is never empty.\<close>

definition zlib_ok :: "zlib \<Rightarrow> bool" where
  "zlib_ok z \<longleftrightarrow>
     (\<forall>level src n. 1 \<le> level \<and> level \<le> 9 \<and> length src + length src div 1000 + 13 \<le> n \<longrightarrow>
        (case z_compress2 z n src level of
           (code, out, destLen) \<Rightarrow>
             code = Z_OK \<and> destLen = length out \<and> out \<noteq> [] \<and> length out \<le> length src + length src div 1000 + 13 \<and>
             (\<forall>k \<ge> length src. z_uncompress z k out = (Z_OK, src, length src))))"

definition sgzip_ok :: "sgzip_obj \<Rightarrow> bool" where
  "sgzip_ok sgzip \<longleftrightarrow> 1 \<le> sg_level sgzip \<and> sg_level sgzip \<le> 9 \<and>
     0 < sh_blocksize (sg_header sgzip) \<and> sh_blocksize (sg_header sgzip) \<le> 1000000"

definition blocksize :: "sgzip_obj \<Rightarrow> nat" where
  "blocksize sgzip = nat (sh_blocksize (sg_header sgzip))"

lemma sgzip_okD:
  assumes "sgzip_ok sgzip"
  shows "0 < blocksize sgzip" "blocksize sgzip \<le> 1000000" "sh_blocksize (sg_header sgzip) = int (blocksize sgzip)"
    "s32 (int (blocksize sgzip)) = int (blocksize sgzip)" "u32 (int (blocksize sgzip) + 1024) = int (blocksize sgzip) + 1024"
    "s32 (int (blocksize sgzip) + 1024) = int (blocksize sgzip) + 1024" "sg_level sgzip \<noteq> 0"
proof -
  have "0 < sh_blocksize (sg_header sgzip)" "sh_blocksize (sg_header sgzip) \<le> 1000000" "1 \<le> sg_level sgzip"
    using assms by (simp_all add: sgzip_ok_def)
  moreover from this have "int (blocksize sgzip) = sh_blocksize (sg_header sgzip)" by (simp add: blocksize_def)
  ultimately show "0 < blocksize sgzip" "blocksize sgzip \<le> 1000000" "sh_blocksize (sg_header sgzip) = int (blocksize sgzip)"
    "s32 (int (blocksize sgzip)) = int (blocksize sgzip)" "u32 (int (blocksize sgzip) + 1024) = int (blocksize sgzip) + 1024"
    "s32 (int (blocksize sgzip) + 1024) = int (blocksize sgzip) + 1024" "sg_level sgzip \<noteq> 0"
    by (simp_all add: s32_id u32_id)
qed

fun chunks :: "nat \<Rightarrow> 'a list \<Rightarrow> 'a list list" where
  "chunks n xs = (if n = 0 \<or> xs = [] then [] else take n xs # chunks n (drop n xs))"

declare chunks.simps [simp del]

definition compressed :: "zlib \<Rightarrow> sgzip_obj \<Rightarrow> byte list \<Rightarrow> byte list" where
  "compressed z sgzip src = fst (snd (z_compress2 z (nat (sh_blocksize (sg_header sgzip) + 1024)) src (sg_level sgzip)))"

fun offsets :: "int \<Rightarrow> byte list list \<Rightarrow> int list" where
  "offsets a [] = []"
| "offsets a (c # cs) = (a + int (length c)) # offsets (a + int (length c)) cs"

definition block_bytes :: "byte list \<Rightarrow> byte list" where
  "block_bytes c = le_bytes 4 (int (length c)) @ c"

definition index_bytes :: "int list \<Rightarrow> byte list" where
  "index_bytes idx = concat (map (le_bytes 8) idx) @ le_bytes 4 (int (length idx)) @ SGZIDX"

text \<open>The blocks of an image, the last of them empty, and the bytes that are written behind the header.\<close>

definition image_blocks :: "zlib \<Rightarrow> sgzip_obj \<Rightarrow> byte list \<Rightarrow> byte list list" where
  "image_blocks z sgzip xs = map (compressed z sgzip) (chunks (blocksize sgzip) xs @ [[]])"

definition sgz_body :: "byte list list \<Rightarrow> byte list" where
  "sgz_body cs = concat (map block_bytes cs) @ replicate 8 0 @ index_bytes (offsets 0 cs)"

lemma compressed_ok:
  assumes "zlib_ok z" and "sgzip_ok sgzip" and "length src \<le> blocksize sgzip"
  shows "z_compress2 z (nat (u32 (sh_blocksize (sg_header sgzip) + 1024))) src (sg_level sgzip) =
      (Z_OK, compressed z sgzip src, length (compressed z sgzip src))"
    and "compressed z sgzip src \<noteq> []" "length (compressed z sgzip src) \<le> blocksize sgzip + 1013"
    and "length src \<le> k \<Longrightarrow> z_uncompress z k (compressed z sgzip src) = (Z_OK, src, length src)"
proof -
  let ?bs = "sh_blocksize (sg_header sgzip)"
  note o = sgzip_okD[OF assms(2)]
  have level: "1 \<le> sg_level sgzip" "sg_level sgzip \<le> 9"
    using assms(2) by (simp_all add: sgzip_ok_def)
  have "length src div 1000 \<le> 1000000 div 1000" using assms(3) o(2) by (intro div_le_mono) simp
  then have n: "length src + length src div 1000 + 13 \<le> blocksize sgzip + 1013"
    "length src + length src div 1000 + 13 \<le> nat (?bs + 1024)" using assms(3) o(3) by simp_all
  have u: "u32 (?bs + 1024) = ?bs + 1024" using o(3,5) by simp
  obtain code out destLen where c: "z_compress2 z (nat (?bs + 1024)) src (sg_level sgzip) = (code, out, destLen)"
    by (metis prod_cases3)
  have "case z_compress2 z (nat (?bs + 1024)) src (sg_level sgzip) of
           (code, out, destLen) \<Rightarrow>
             code = Z_OK \<and> destLen = length out \<and> out \<noteq> [] \<and> length out \<le> length src + length src div 1000 + 13 \<and>
             (\<forall>k \<ge> length src. z_uncompress z k out = (Z_OK, src, length src))"
    by (rule assms(1)[unfolded zlib_ok_def, rule_format]) (use level n(2) in simp)
  then have k: "code = Z_OK" "destLen = length out" "out \<noteq> []" "length out \<le> length src + length src div 1000 + 13"
    "\<forall>k \<ge> length src. z_uncompress z k out = (Z_OK, src, length src)" unfolding c by simp_all
  have out: "compressed z sgzip src = out" using c by (simp add: compressed_def)
  show "z_compress2 z (nat (u32 (?bs + 1024))) src (sg_level sgzip) =
      (Z_OK, compressed z sgzip src, length (compressed z sgzip src))"
    using c k(1,2) out u by simp
  show "compressed z sgzip src \<noteq> []" using k(3) out by simp
  show "length (compressed z sgzip src) \<le> blocksize sgzip + 1013" using k(4) out n(1) by simp
  show "length src \<le> k \<Longrightarrow> z_uncompress z k (compressed z sgzip src) = (Z_OK, src, length src)"
    using k(5) out by simp
qed

section \<open>Chunks and offsets\<close>

lemma chunks_Nil [simp]: "chunks n [] = []"
  by (simp add: chunks.simps)

lemma chunks_step: "0 < n \<Longrightarrow> xs \<noteq> [] \<Longrightarrow> chunks n xs = take n xs # chunks n (drop n xs)"
  by (simp add: chunks.simps[of n xs])

lemma concat_chunks: "0 < n \<Longrightarrow> concat (chunks n xs) = xs"
proof (induction n xs rule: chunks.induct)
  case (1 n xs)
  then show ?case by (cases "xs = []") (simp_all add: chunks_step)
qed

lemma length_of_chunk: "c \<in> set (chunks n xs) \<Longrightarrow> 0 < n \<Longrightarrow> c \<noteq> [] \<and> length c \<le> n"
proof (induction n xs rule: chunks.induct)
  case (1 n xs)
  then show ?case by (cases "xs = []") (auto simp: chunks_step)
qed

lemma length_chunks: "0 < n \<Longrightarrow> length (chunks n xs) = (length xs + n - 1) div n"
proof (induction n xs rule: chunks.induct)
  case (1 n xs)
  show ?case
  proof (cases "xs = []")
    case True
    then show ?thesis using 1(2) by simp
  next
    case False
    then have IH: "length (chunks n (drop n xs)) = (length (drop n xs) + n - 1) div n" using 1 by simp
    have "0 < length xs" using False by simp
    then have e: "length xs + n - 1 = (length xs - 1) + n" by linarith
    have "(length xs + n - 1) div n = (length xs - 1) div n + 1"
      unfolding e by (rule div_add_self2) (use 1(2) in simp)
    moreover have "(length xs - 1) div n = (length (drop n xs) + n - 1) div n"
    proof (cases "n \<le> length xs")
      case True
      then have "length (drop n xs) + n - 1 = length xs - 1" by simp
      then show ?thesis by (simp only:)
    next
      case f: False
      then have "length (drop n xs) + n - 1 = n - 1" by simp
      moreover have "(length xs - 1) div n = 0" "(n - 1) div n = 0" using f 1(2) by simp_all
      ultimately show ?thesis by (simp only:)
    qed
    ultimately have "(length xs + n - 1) div n = Suc ((length (drop n xs) + n - 1) div n)" by (simp only: Suc_eq_plus1)
    then show ?thesis using False 1(2) IH by (simp add: chunks_step)
  qed
qed

lemma drop_chunks: "0 < n \<Longrightarrow> drop k (chunks n xs) = chunks n (drop (k * n) xs)"
proof (induction k arbitrary: xs)
  case (Suc k)
  then show ?case by (cases "xs = []") (simp_all add: chunks_step add.commute)
qed simp

lemma length_offsets [simp]: "length (offsets a cs) = length cs"
  by (induction cs arbitrary: a) simp_all

lemma offsets_snoc: "offsets a (cs @ ds) = offsets a cs @ offsets (a + int (length (concat cs))) ds"
  by (induction cs arbitrary: a) (simp_all add: add.assoc)

lemma offsets_nth: "k < length cs \<Longrightarrow> offsets a cs ! k = a + int (length (concat (take (Suc k) cs)))"
proof (induction cs arbitrary: a k)
  case (Cons c cs)
  then show ?case by (cases k) (simp_all add: add.assoc)
qed simp

lemma set_offsets: "i \<in> set (offsets a cs) \<Longrightarrow> a \<le> i \<and> i \<le> a + int (length (concat cs))"
  by (induction cs arbitrary: a) fastforce+

lemma length_concat_bound: "\<forall>c\<in>set cs. length c \<le> m \<Longrightarrow> length (concat cs) \<le> length cs * m"
  by (induction cs) auto

section \<open>Compressing\<close>

definition cp_ok :: "sgzip_obj \<Rightarrow> compressor \<Rightarrow> bool" where
  "cp_ok sgzip c \<longleftrightarrow> moving (cp_in c) \<and> writer_inv (cp_out c, cp_buffer c) \<and>
     length (cp_datain c) = blocksize sgzip \<and> length (cp_dataout c) = blocksize sgzip + 1024"

definition cp_bytes :: "compressor \<Rightarrow> byte list" where
  "cp_bytes c = writer_bytes (cp_out c, cp_buffer c)"

definition last_offset :: "int list \<Rightarrow> int" where
  "last_offset idx = (if idx = [] then 0 else last idx)"

lemma image_block_ok:
  assumes "zlib_ok z" and "sgzip_ok sgzip" and "c \<in> set (image_blocks z sgzip xs)"
  shows "c \<noteq> [] \<and> length c \<le> blocksize sgzip + 1013"
proof -
  obtain src where src: "c = compressed z sgzip src" "src = [] \<or> src \<in> set (chunks (blocksize sgzip) xs)"
    using assms(3) by (auto simp: image_blocks_def)
  then have "length src \<le> blocksize sgzip"
    using length_of_chunk[of src "blocksize sgzip" xs] sgzip_okD(1)[OF assms(2)] by auto
  from compressed_ok(2)[OF assms(1,2) this] compressed_ok(3)[OF assms(1,2) this] show ?thesis using src(1) by simp
qed

lemma compress_block_ok:
  assumes "zlib_ok z" and "sgzip_ok sgzip" and "length src \<le> blocksize sgzip" and "length src \<le> length datain"
    and "take (length src) datain = src" and "length dataout = blocksize sgzip + 1024"
  shows "\<exists>dataout'. compress_block z sgzip dataout datain (int (length src)) =
      Some (Inr (dataout', int (length (compressed z sgzip src)))) \<and>
    take (length (compressed z sgzip src)) dataout' = compressed z sgzip src \<and> length dataout' = length dataout"
proof -
  note c = compressed_ok[OF assms(1-3)] and o = sgzip_okD[OF assms(2)]
  have "mem_read datain 0 (int (length src)) = Some src" using assms(4,5) by (simp add: mem_read_def)
  moreover have "mem_write dataout 0 (compressed z sgzip src) =
      Some (compressed z sgzip src @ drop (length (compressed z sgzip src)) dataout)"
    using c(3) assms(6) by (simp add: mem_write_def)
  ultimately show ?thesis using c(1,3) o(3,7) assms(6) by (auto simp: compress_block_def Let_def)
qed

lemma compress_step_ok:
  assumes "zlib_ok z" and "sgzip_ok sgzip" and "cp_ok sgzip c"
    and "0 \<le> last_offset (cp_index c)" and "last_offset (cp_index c) + 1048576 \<le> 9223372036854775808"
    and "src = take (blocksize sgzip) (fd_rest (cp_in c))"
  obtains c' where "compress_step z sgzip c = Some (Inr (c', src \<noteq> []))" "cp_ok sgzip c'"
    "fd_rest (cp_in c') = drop (blocksize sgzip) (fd_rest (cp_in c))"
    "cp_bytes c' = cp_bytes c @ block_bytes (compressed z sgzip src)"
    "cp_index c' = cp_index c @ [last_offset (cp_index c) + int (length (compressed z sgzip src))]"
proof -
  note o = sgzip_okD[OF assms(2)]
  let ?d = "compressed z sgzip src" and ?n = "int (length (compressed z sgzip src))"
  have c: "moving (cp_in c)" "writer_inv (cp_out c, cp_buffer c)" "length (cp_datain c) = blocksize sgzip"
    "length (cp_dataout c) = blocksize sgzip + 1024" using assms(3) by (simp_all add: cp_ok_def)
  obtain infd where r: "read_from_stream (cp_in c) (int (blocksize sgzip)) = (infd, src, int (length src))" "moving infd"
    "fd_rest infd = drop (blocksize sgzip) (fd_rest (cp_in c))"
    using read_from_stream_moving[OF c(1), of "int (blocksize sgzip)"] assms(6) by auto
  have src: "length src \<le> blocksize sgzip" by (simp add: assms(6))
  define datain where "datain = over_block src (cp_datain c)"
  have datain: "length src \<le> length datain" "take (length src) datain = src" "length datain = blocksize sgzip"
    using src c(3) by (simp_all add: datain_def over_block_def)
  obtain dataout where b: "compress_block z sgzip (cp_dataout c) datain (int (length src)) = Some (Inr (dataout, ?n))"
    "take (length ?d) dataout = ?d" "length dataout = blocksize sgzip + 1024"
    using compress_block_ok[OF assms(1,2) src datain(1,2) c(4)] c(4) by metis
  have n: "?n \<le> int (blocksize sgzip) + 1013" using compressed_ok(3)[OF assms(1,2) src] by simp
  have u: "u32 ?n = ?n" "s32 ?n = ?n" "u32 (int (length src)) = int (length src)" using n o(2) src by (simp_all add: u32_id s32_id)
  obtain out1 buf1 where w1: "stream_write (cp_out c) (Some (le_bytes 4 ?n)) 4 (cp_buffer c) = Some (out1, buf1)"
    "writer_inv (out1, buf1)" "writer_bytes (out1, buf1) = cp_bytes c @ le_bytes 4 ?n"
    using stream_write_sink[OF c(2), of "le_bytes 4 ?n"] by (auto simp: BUFFER_SIZE_def cp_bytes_def)
  obtain out2 buf2 where w2: "stream_write out1 (Some dataout) ?n buf1 = Some (out2, buf2)"
    "writer_inv (out2, buf2)" "writer_bytes (out2, buf2) = cp_bytes c @ block_bytes ?d"
    using stream_write_sink_part[OF w1(2), of "length ?d" dataout] n o(2) b(2,3) w1(3)
    by (auto simp: BUFFER_SIZE_def block_bytes_def)
  have i: "add_item (cp_index c) ?n = cp_index c @ [last_offset (cp_index c) + ?n]"
    using assms(4,5) n o(2) by (auto simp: add_item_def last_offset_def u64_id)
  let ?c = "c\<lparr>cp_in := infd, cp_datain := datain, cp_out := out2, cp_dataout := dataout, cp_buffer := buf2,
    cp_index := cp_index c @ [last_offset (cp_index c) + ?n]\<rparr>"
  have "compress_step z sgzip c = Some (Inr (?c, src \<noteq> []))"
    using r(1) b(1) w1(1) w2(1) i u o(3,4) by (simp add: compress_step_def Let_def flip: datain_def)
  moreover have "cp_ok sgzip ?c" using r(2) w2(2) datain(3) b(3) by (simp add: cp_ok_def)
  moreover have "cp_bytes ?c = cp_bytes c @ block_bytes ?d" using w2(3) by (simp add: cp_bytes_def)
  ultimately show ?thesis using that r(3) by simp
qed

lemma compress_loop_ok:
  assumes "zlib_ok z" and "sgzip_ok sgzip" and "cp_ok sgzip c" and "rest = fd_rest (cp_in c)"
    and "0 \<le> last_offset (cp_index c)"
    and "last_offset (cp_index c) + 1048576 * int (length (chunks (blocksize sgzip) rest) + 1) \<le> 9223372036854775808"
  shows "\<exists>c'. compress_loop z sgzip c = Some (Inr c') \<and> cp_ok sgzip c' \<and>
    cp_bytes c' = cp_bytes c @ concat (map block_bytes (image_blocks z sgzip rest)) \<and>
    cp_index c' = cp_index c @ offsets (last_offset (cp_index c)) (image_blocks z sgzip rest)"
  using assms(3-6)
proof (induction "length rest" arbitrary: rest c rule: less_induct)
  case less
  note o = sgzip_okD[OF assms(2)]
  let ?src = "take (blocksize sgzip) (fd_rest (cp_in c))"
  have room: "last_offset (cp_index c) + 1048576 \<le> 9223372036854775808" using less.prems(4) by simp
  obtain c1 where s: "compress_step z sgzip c = Some (Inr (c1, ?src \<noteq> []))" "cp_ok sgzip c1"
    "fd_rest (cp_in c1) = drop (blocksize sgzip) rest"
    "cp_bytes c1 = cp_bytes c @ block_bytes (compressed z sgzip ?src)"
    "cp_index c1 = cp_index c @ [last_offset (cp_index c) + int (length (compressed z sgzip ?src))]"
    using compress_step_ok[OF assms(1,2) less.prems(1,3) room refl] less.prems(2) by metis
  show ?case
  proof (cases "rest = []")
    case True
    then have "compress_loop z sgzip c = Some (Inr c1)" using s(1) less.prems(2) by (simp add: compress_loop.simps[of z sgzip c])
    then show ?thesis using s(2,4,5) True less.prems(2) by (simp add: image_blocks_def)
  next
    case False
    have l: "compress_loop z sgzip c = compress_loop z sgzip c1"
      using s(1) less.prems(2) False o(1) by (simp add: compress_loop.simps[of z sgzip c])
    have ch: "chunks (blocksize sgzip) rest = ?src # chunks (blocksize sgzip) (drop (blocksize sgzip) rest)"
      using chunks_step[OF o(1) False] less.prems(2) by simp
    then have ib: "image_blocks z sgzip rest = compressed z sgzip ?src # image_blocks z sgzip (drop (blocksize sgzip) rest)"
      by (simp add: image_blocks_def)
    have lo: "last_offset (cp_index c1) = last_offset (cp_index c) + int (length (compressed z sgzip ?src))"
      using s(5) by (simp add: last_offset_def)
    have "length (compressed z sgzip ?src) \<le> blocksize sgzip + 1013" using compressed_ok(3)[OF assms(1,2), of ?src] by simp
    then have n: "int (length (compressed z sgzip ?src)) \<le> 1048576" using o(2) by simp
    have "length (drop (blocksize sgzip) rest) < length rest" using False o(1) by simp
    moreover have "drop (blocksize sgzip) rest = fd_rest (cp_in c1)" using s(3) by simp
    moreover have "0 \<le> last_offset (cp_index c1)" using lo less.prems(3) by simp
    moreover have "last_offset (cp_index c1) + 1048576 * int (length (chunks (blocksize sgzip) (drop (blocksize sgzip) rest)) + 1)
        \<le> 9223372036854775808"
      using lo n less.prems(4) unfolding ch by simp
    ultimately obtain c2 where "compress_loop z sgzip c1 = Some (Inr c2)" "cp_ok sgzip c2"
      "cp_bytes c2 = cp_bytes c1 @ concat (map block_bytes (image_blocks z sgzip (drop (blocksize sgzip) rest)))"
      "cp_index c2 = cp_index c1 @ offsets (last_offset (cp_index c1)) (image_blocks z sgzip (drop (blocksize sgzip) rest))"
      using less.hyps[of "drop (blocksize sgzip) rest" c1] s(2) by blast
    then show ?thesis using l s(4,5) lo unfolding ib by simp
  qed
qed

lemma write_index_loop_ok:
  assumes "writer_inv (fd, buffer)" and "\<forall>i\<in>set idx. 0 < i" and "0 \<le> count" and "count + int (length idx) < 2147483648"
  shows "\<exists>fd' buffer'. write_index_loop fd (idx @ [0]) buffer count = Some (fd', buffer', count + int (length idx)) \<and>
    writer_inv (fd', buffer') \<and> writer_bytes (fd', buffer') = writer_bytes (fd, buffer) @ concat (map (le_bytes 8) idx)"
  using assms
proof (induction idx arbitrary: fd buffer count)
  case (Cons i idx)
  obtain fd1 buf1 where w: "stream_write fd (Some (le_bytes 8 i)) 8 buffer = Some (fd1, buf1)" "writer_inv (fd1, buf1)"
    "writer_bytes (fd1, buf1) = writer_bytes (fd, buffer) @ le_bytes 8 i"
    using stream_write_sink[OF Cons.prems(1), of "le_bytes 8 i"] by (auto simp: BUFFER_SIZE_def)
  have "\<exists>fd' buffer'. write_index_loop fd1 (idx @ [0]) buf1 (count + 1) = Some (fd', buffer', count + 1 + int (length idx)) \<and>
    writer_inv (fd', buffer') \<and> writer_bytes (fd', buffer') = writer_bytes (fd1, buf1) @ concat (map (le_bytes 8) idx)"
    using Cons.IH[OF w(2), of "count + 1"] Cons.prems(2-4) by simp
  moreover have "s32 (count + 1) = count + 1" using Cons.prems(3,4) by (simp add: s32_id)
  ultimately show ?case using w Cons.prems(2) by (auto simp: add.assoc)
qed simp

lemma sgzip_write_index_ok:
  assumes "at_end fd" and "\<forall>i\<in>set idx. 0 < i" and "length idx < 2147483648"
  shows "\<exists>fd'. sgzip_write_index fd (idx @ [0]) = Some fd' \<and> fd_data fd' = fd_data fd @ index_bytes idx \<and> at_end fd'"
proof -
  have "writer_inv (fd, [])" using assms(1) by (simp add: writer_inv_def BUFFER_SIZE_def)
  from write_index_loop_ok[OF this assms(2), of 0] assms(3) obtain fd1 buf1 where
    l: "write_index_loop fd (idx @ [0]) [] 0 = Some (fd1, buf1, int (length idx))" "writer_inv (fd1, buf1)"
      "writer_bytes (fd1, buf1) = fd_data fd @ concat (map (le_bytes 8) idx)" by (auto simp: writer_bytes_def)
  note f = stream_write_flush[OF l(2)]
  note w = write_fd_at_end[OF f(3), of "le_bytes 4 (int (length idx))"]
  note x = write_fd_at_end[of "write_fd (write_fd fd1 buf1) (le_bytes 4 (int (length idx)))" SGZIDX]
  have "u32 (int (length idx)) = int (length idx)" using assms(3) by (simp add: u32_id)
  then show ?thesis using l(1,3) f w x by (simp add: sgzip_write_index_def index_bytes_def SGZIDX_def)
qed

lemma sgzip_compress_fds_ok:
  assumes "zlib_ok z" and "sgzip_ok sgzip" and "moving infd" and "at_end outfd"
    and "length (image_blocks z sgzip (fd_rest infd)) < 2147483648"
  shows "\<exists>infd' outfd'. sgzip_compress_fds z heap infd outfd sgzip = Some (infd', outfd', None) \<and> at_end outfd' \<and>
    fd_data outfd' = fd_data outfd @ sgz_body (image_blocks z sgzip (fd_rest infd))"
proof -
  note o = sgzip_okD[OF assms(2)]
  let ?cs = "image_blocks z sgzip (fd_rest infd)" and ?bs = "sh_blocksize (sg_header sgzip)"
  let ?c = "\<lparr>cp_in = infd, cp_out = outfd, cp_datain = map heap [0..<blocksize sgzip],
    cp_dataout = map heap [0..<blocksize sgzip + 1024], cp_buffer = [], cp_index = []\<rparr>"
  have m: "malloc_block heap ?bs = Some (map heap [0..<blocksize sgzip])"
    "malloc_block heap (u32 (?bs + 1024)) = Some (map heap [0..<blocksize sgzip + 1024])"
    using o(3,5) by (simp_all add: malloc_block_def nat_add_distrib nat_int_add)
  have ok: "cp_ok sgzip ?c" using assms(3,4) by (simp add: cp_ok_def writer_inv_def BUFFER_SIZE_def)
  have "last_offset (cp_index ?c) + 1048576 * int (length (chunks (blocksize sgzip) (fd_rest infd)) + 1) \<le> 9223372036854775808"
    using assms(5) by (simp add: last_offset_def image_blocks_def)
  from compress_loop_ok[OF assms(1,2) ok _ _ this] obtain c where
    l: "compress_loop z sgzip ?c = Some (Inr c)" "cp_ok sgzip c"
      "cp_bytes c = fd_data outfd @ concat (map block_bytes ?cs)" "cp_index c = offsets 0 ?cs"
    by (auto simp: last_offset_def cp_bytes_def writer_bytes_def)
  have wi: "writer_inv (cp_out c, cp_buffer c)" using l(2) by (simp add: cp_ok_def)
  obtain fd1 buf1 where w: "stream_write (cp_out c) (Some (le_bytes 8 0)) 8 (cp_buffer c) = Some (fd1, buf1)"
    "writer_inv (fd1, buf1)" "writer_bytes (fd1, buf1) = cp_bytes c @ le_bytes 8 0"
    using stream_write_sink[OF wi, of "le_bytes 8 0"] by (auto simp: BUFFER_SIZE_def cp_bytes_def)
  note f = stream_write_flush[OF w(2)]
  note ne = image_block_ok[OF assms(1,2)]
  have "\<forall>i\<in>set (offsets 0 ?cs). 0 < i"
  proof
    fix i assume "i \<in> set (offsets 0 ?cs)"
    then obtain k where k: "k < length ?cs" "i = offsets 0 ?cs ! k" by (auto simp: in_set_conv_nth)
    then obtain c cs where cs: "?cs = c # cs" by (cases ?cs) auto
    then have "0 < int (length c)" using ne[of c "fd_rest infd"] by simp
    moreover have "i = int (length c) + int (length (concat (take k cs)))"
      using k offsets_nth[OF k(1), of 0] by (simp add: cs)
    ultimately show "0 < i" by linarith
  qed
  from sgzip_write_index_ok[OF f(3) this] assms(5) obtain fd2 where
    x: "sgzip_write_index (write_fd fd1 buf1) (offsets 0 ?cs @ [0]) = Some fd2"
      "fd_data fd2 = fd_data (write_fd fd1 buf1) @ index_bytes (offsets 0 ?cs)" "at_end fd2" by auto
  have z: "le_bytes 8 0 = replicate 8 0" by (simp add: eval_nat_numeral)
  have "sgzip_compress_fds z heap infd outfd sgzip = Some (cp_in c, fd2, None)"
    using m l(1,4) w(1) f(1) x(1) by (simp add: sgzip_compress_fds_def Let_def)
  moreover have "fd_data fd2 = fd_data outfd @ sgz_body ?cs"
    using x(2) f(4) w(3) l(3) by (simp add: sgz_body_def z)
  ultimately show ?thesis using x(3) by blast
qed

section \<open>Opening\<close>

definition header_ok :: "sgzip_header \<Rightarrow> bool" where
  "header_ok h \<longleftrightarrow> sh_magic h = SGZ \<and> length (sh_x h) = 4 \<and> 0 \<le> sh_blocksize h \<and> sh_blocksize h < 4294967296"

lemma header_of_bytes: "header_ok h \<Longrightarrow> header_of (header_bytes h) = h"
  by (simp add: header_ok_def header_of_def header_bytes_def SGZ_def le_val_le_bytes eval_nat_numeral del: le_bytes.simps)

lemma length_header_bytes: "header_ok h \<Longrightarrow> length (header_bytes h) = SIZEOF_HEADER"
  by (simp add: header_ok_def header_bytes_def SGZ_def SIZEOF_HEADER_def)

lemma lseek_ok: "0 \<le> p \<Longrightarrow> p < 9223372036854775808 \<Longrightarrow> lseek_set fd (u64 p) = (fd\<lparr>fd_pos := nat p\<rparr>, True)"
  by (simp add: lseek_set_def u64_id s64_id)

lemma full_moves_pos [simp]: "full_moves (fd\<lparr>fd_pos := p\<rparr>) = full_moves fd"
  by (simp add: full_moves_def)

lemma fd_rest_pos: "fd_rest (fd\<lparr>fd_pos := p\<rparr>) = drop p (fd_data fd)"
  by (simp add: fd_rest_def)

lemma read_fd_full:
  assumes "full_moves fd" and "int n \<le> 2147479552"
  obtains fd' where "read_fd fd n = (fd', take n (fd_rest fd), int (length (take n (fd_rest fd))))" "full_moves fd'"
    "fd_rest fd' = drop n (fd_rest fd)" "fd_data fd' = fd_data fd"
proof -
  obtain fd' xs r where f: "read_fd fd n = (fd', xs, r)" by (metis prod_cases3)
  note m = read_fd_moving[OF full_moves_moving[OF assms(1)] f]
  have "2147479552 \<le> fd_moves fd (fd_calls fd)" using assms(1) by (simp add: full_moves_def)
  then have "min (nat (fd_moves fd (fd_calls fd))) n = n" using assms(2) by simp
  then have xs: "xs = take n (fd_rest fd)" using f \<open>2147479552 \<le> _\<close>
    by (auto simp: read_fd_def Let_def fd_rest_def)
  have "fd_rest fd = xs @ fd_rest fd'" using m by blast
  then have "fd_rest fd' = drop (length xs) (fd_rest fd)" by (metis append_eq_conv_conj)
  also have "\<dots> = drop n (fd_rest fd)" by (simp add: xs min_def)
  finally show ?thesis using that f m assms(1) unfolding xs by blast
qed

lemma sgzip_read_header_ok:
  assumes "full_moves fd" and "header_ok h" and "fd_data fd = header_bytes h @ rest"
  obtains fd' where "sgzip_read_header heap fd = (fd', Inr h)" "full_moves fd'" "fd_data fd' = fd_data fd" "fd_rest fd' = rest"
proof -
  let ?fd = "fd\<lparr>fd_pos := 0\<rparr>"
  have s: "lseek_set fd 0 = (?fd, True)" by (simp add: lseek_set_def s64_id)
  have r: "fd_rest ?fd = header_bytes h @ rest" using assms(3) by (simp add: fd_rest_def)
  have t: "take SIZEOF_HEADER (fd_rest ?fd) = header_bytes h" "drop SIZEOF_HEADER (fd_rest ?fd) = rest"
    using r length_header_bytes[OF assms(2)] by simp_all
  have "moving ?fd" using full_moves_moving[of ?fd] assms(1) by simp
  from read_from_stream_moving[OF this, of "int SIZEOF_HEADER"] t obtain fd' where
    f: "read_from_stream ?fd (int SIZEOF_HEADER) = (fd', header_bytes h, int (length (header_bytes h)))"
      "fd_rest fd' = rest" "fd_data fd' = fd_data fd" "full_moves fd'" using assms(1) by auto
  have o: "over_block (header_bytes h) (map heap [0..<SIZEOF_HEADER]) = header_bytes h"
    using length_header_bytes[OF assms(2)] by (simp add: over_block_def)
  have "u64 (int SIZEOF_HEADER) = int SIZEOF_HEADER" by (simp add: u64_id SIZEOF_HEADER_def)
  then have "sgzip_read_header heap fd = (fd', Inr h)"
    using s f(1) o header_of_bytes[OF assms(2)] length_header_bytes[OF assms(2)] assms(2)
    by (simp add: sgzip_read_header_def Let_def header_ok_def)
  then show ?thesis using that f by blast
qed

definition index_of :: "byte list list \<Rightarrow> int list" where
  "index_of cs = (0 # offsets 0 cs)[length cs := 0]"

lemma words_of_index:
  assumes "\<forall>i\<in>set idx. 0 \<le> i \<and> i < 18446744073709551616"
  shows "words_of (concat (map (le_bytes 8) idx)) = idx"
  using assms
proof (induction idx)
  case (Cons i idx)
  have "\<exists>a b c d e f g h. m = [a, b, c, d, e, f, g, h]" if "length m = 8" for m :: "byte list"
    using that by (auto simp: eval_nat_numeral length_Suc_conv)
  then obtain a b c d e f g h where l: "le_bytes 8 i = [a, b, c, d, e, f, g, h]" using length_le_bytes by blast
  have "le_val (le_bytes 8 i) = i" using Cons.prems by (intro le_val_le_bytes) simp_all
  then show ?case using Cons by (simp add: l del: le_val.simps)
qed simp

lemma words_of_zeros: "words_of (replicate 8 0 @ m) = 0 # words_of m"
  by (simp add: eval_nat_numeral)

lemma length_concat_words [simp]: "length (concat (map (le_bytes n) idx)) = n * length idx"
  by (induction idx) simp_all

lemma sgzip_read_index_ok:
  assumes "full_moves fd" and "fd_data fd = pre @ index_bytes idx" and "int (length (fd_data fd)) < 9223372036854775808"
    and "0 < length idx" and "length idx \<le> 268434944" and "\<forall>i\<in>set idx. 0 \<le> i \<and> i < 18446744073709551616"
  obtains fd' where "sgzip_read_index stack fd sgzip =
      Some (fd', sgzip\<lparr>sg_header := (sg_header sgzip)\<lparr>sh_x := le_bytes 4 (int (length idx))\<rparr>\<rparr>,
        Inr (Some ((0 # idx)[length idx := 0])))" "full_moves fd'" "fd_data fd' = fd_data fd"
proof -
  let ?n = "length idx" and ?fin = "int (length (fd_data fd))" and ?body = "concat (map (le_bytes 8) idx)"
  have len: "?fin = int (length pre) + 8 * int ?n + 10"
    using assms(2) by (simp add: index_bytes_def SGZIDX_def)
  let ?fd1 = "fd\<lparr>fd_pos := nat (?fin - 10)\<rparr>"
  have s1: "lseek_set (fd\<lparr>fd_pos := length (fd_data fd)\<rparr>) (u64 (?fin - 10)) = (?fd1, True)"
    using assms(3) len by (subst lseek_ok) simp_all
  have "nat (?fin - 10) = length (pre @ ?body)" using len by simp
  then have r1: "fd_rest ?fd1 = le_bytes 4 (int ?n) @ SGZIDX" using assms(2) by (simp add: fd_rest_def index_bytes_def)
  obtain fd2 where f2: "read_fd ?fd1 4 = (fd2, le_bytes 4 (int ?n), 4)" "full_moves fd2" "fd_rest fd2 = SGZIDX"
    "fd_data fd2 = fd_data fd"
    using read_fd_full[of ?fd1 4] assms(1) r1 by (auto simp: SGZIDX_def)
  obtain fd3 where f3: "read_fd fd2 6 = (fd3, SGZIDX, 6)" "full_moves fd3" "fd_data fd3 = fd_data fd"
    using read_fd_full[of fd2 6] f2 by (auto simp: SGZIDX_def)
  have count: "le_val (over_block (le_bytes 4 (int ?n)) (map stack [0..<4])) = int ?n"
    using assms(5) by (simp add: over_block_def le_val_le_bytes)
  let ?fd4 = "fd3\<lparr>fd_pos := length pre\<rparr>"
  have s4: "lseek_set fd3 (u64 (?fin - 10 - int ?n * 8)) = (?fd4, True)"
    using assms(3) len by (subst lseek_ok) simp_all
  have "fd_rest ?fd4 = ?body @ le_bytes 4 (int ?n) @ SGZIDX" using f3(3) assms(2) by (simp add: fd_rest_def index_bytes_def)
  then obtain fd5 where f5: "read_fd ?fd4 (8 * ?n) = (fd5, ?body, 8 * int ?n)" "full_moves fd5" "fd_data fd5 = fd_data fd"
    using read_fd_full[of ?fd4 "8 * ?n"] f3 assms(5) by auto
  have u: "u32 (int ?n + 1) = int ?n + 1" "u64 4 = 4" "u64 (8 * int ?n) = 8 * int ?n"
    using assms(5) by (simp_all add: u32_id u64_id)
  have m: "mem_write (replicate (8 * nat (int ?n + 1)) 0) 8 ?body = Some (replicate 8 0 @ ?body)"
    by (simp add: mem_write_def nat_add_distrib)
  have w: "words_of (replicate 8 0 @ ?body) = 0 # idx" using words_of_index[OF assms(6)] by (simp add: words_of_zeros)
  let ?r = "(fd5, sgzip\<lparr>sg_header := (sg_header sgzip)\<lparr>sh_x := le_bytes 4 (int ?n)\<rparr>\<rparr>, Inr (Some ((0 # idx)[?n := 0])))"
  have "sgzip_read_index stack fd sgzip = Some ?r"
    unfolding sgzip_read_index_def Let_def nat_int s1 prod.case f2(1) f3(1) count u s4 f5(1) m w bind.bind_lunit
    by (simp del: le_bytes.simps)
  then show ?thesis using that f5(2,3) by blast
qed

section \<open>Random access\<close>

text \<open>The image \<open>xs\<close> that was written with the header of \<open>w\<close> is open: the file, the header in memory and the index.\<close>

definition image_open :: "zlib \<Rightarrow> sgzip_obj \<Rightarrow> byte list \<Rightarrow> fdesc \<Rightarrow> sgzip_obj \<Rightarrow> int list \<Rightarrow> bool" where
  "image_open z w xs fd s index \<longleftrightarrow>
     full_moves fd \<and> fd_data fd = header_bytes (sg_header w) @ sgz_body (image_blocks z w xs) \<and>
     sg_header s = (sg_header w)\<lparr>sh_x := le_bytes 4 (int (length (image_blocks z w xs)))\<rparr> \<and>
     index = index_of (image_blocks z w xs)"

definition image_fits :: "zlib \<Rightarrow> sgzip_obj \<Rightarrow> byte list \<Rightarrow> bool" where
  "image_fits z w xs \<longleftrightarrow> zlib_ok z \<and> sgzip_ok w \<and> header_ok (sg_header w) \<and>
     length (chunks (blocksize w) xs) < 268434944"

lemma length_image_blocks [simp]: "length (image_blocks z w xs) = Suc (length (chunks (blocksize w) xs))"
  by (simp add: image_blocks_def)

lemma length_concat_blocks: "length (concat (map block_bytes cs)) = 4 * length cs + length (concat cs)"
  by (induction cs) (simp_all add: block_bytes_def)

lemma image_size:
  assumes "image_fits z w xs" and "set cs \<subseteq> set (image_blocks z w xs)" and "length cs \<le> 268434944"
  shows "int (length (concat cs)) < 1000000000000000"
proof -
  have zw: "zlib_ok z" "sgzip_ok w" using assms(1) by (simp_all add: image_fits_def)
  have "\<forall>c\<in>set cs. length c \<le> 1001013"
  proof
    fix c assume "c \<in> set cs"
    then have "c \<in> set (image_blocks z w xs)" using assms(2) by blast
    from image_block_ok[OF zw this] sgzip_okD(2)[OF zw(2)] show "length c \<le> 1001013" by simp
  qed
  from length_concat_bound[OF this] assms(3) show ?thesis by simp
qed

lemma index_of_at:
  assumes "k < length cs"
  shows "index_at (index_of cs) (int k) = Some (int (length (concat (take k cs))))"
proof -
  have "(0 # offsets 0 cs) ! k = int (length (concat (take k cs)))"
    using assms by (cases k) (simp_all add: offsets_nth)
  moreover have "(0 # offsets 0 cs)[length cs := 0] ! k = (0 # offsets 0 cs) ! k" using assms by (intro nth_list_update_neq) simp
  moreover have "length ((0 # offsets 0 cs)[length cs := 0]) = Suc (length cs)" by (simp only: length_list_update) simp
  ultimately show ?thesis using assms unfolding index_at_def index_of_def by simp
qed

lemma block_at:
  assumes "k < length cs" and "length h = 11"
  shows "\<exists>ys. drop (11 + 4 * (k + 1) + length (concat (take k cs))) (h @ sgz_body cs) = cs ! k @ ys"
proof -
  let ?a = "concat (map block_bytes (take k cs))" and ?ys = "concat (map block_bytes (drop (Suc k) cs)) @ replicate 8 0 @ index_bytes (offsets 0 cs)"
  have "cs = take k cs @ cs ! k # drop (Suc k) cs" using assms(1) by (rule id_take_nth_drop)
  then have "concat (map block_bytes cs) = ?a @ block_bytes (cs ! k) @ concat (map block_bytes (drop (Suc k) cs))"
    by (metis concat.simps(2) concat_append list.simps(9) map_append)
  then have "h @ sgz_body cs = (h @ ?a @ le_bytes 4 (int (length (cs ! k)))) @ cs ! k @ ?ys"
    by (simp add: sgz_body_def block_bytes_def)
  moreover have "length (h @ ?a @ le_bytes 4 (int (length (cs ! k)))) = 11 + 4 * (k + 1) + length (concat (take k cs))"
    using assms by (simp add: length_concat_blocks)
  ultimately show ?thesis by (metis append_eq_conv_conj)
qed

text \<open>What the cache may hold: nothing, or a block of the image.\<close>

definition cache_ok :: "sgzip_obj \<Rightarrow> byte list \<Rightarrow> sgz_globals \<Rightarrow> bool" where
  "cache_ok w xs g \<longleftrightarrow>
     (\<forall>m. gl_data g = Some m \<or> gl_cdata g = Some m \<longrightarrow> length m = blocksize w + 1024) \<and>
     (gl_cached_block_offs g = 18446744073709551615 \<or>
      (\<exists>k d. k < length (chunks (blocksize w) xs) \<and> gl_cached_block_offs g = int k \<and>
         gl_cached_length g = int (length (chunks (blocksize w) xs ! k)) \<and> gl_data g = Some d \<and>
         take (length (chunks (blocksize w) xs ! k)) d = chunks (blocksize w) xs ! k))"

lemma image_headers:
  assumes "image_fits z w xs" and "image_open z w xs fd s index"
  shows "sh_blocksize (sg_header s) = int (blocksize w)" "max_chunks (sg_header s) = int (length (chunks (blocksize w) xs)) + 1"
    "u32 (max_chunks (sg_header s) - 1) = int (length (chunks (blocksize w) xs))"
  using assms sgzip_okD(3)[of w]
  by (auto simp: image_fits_def image_open_def max_chunks_def le_val_le_bytes u32_id)

lemma chunk_nth:
  assumes "image_fits z w xs" and "k < length (chunks (blocksize w) xs)"
  shows "length (chunks (blocksize w) xs ! k) \<le> blocksize w" "chunks (blocksize w) xs ! k \<noteq> []"
    "image_blocks z w xs ! k = compressed z w (chunks (blocksize w) xs ! k)"
proof -
  have "0 < blocksize w" using assms(1) sgzip_okD(1) by (simp add: image_fits_def)
  then show "length (chunks (blocksize w) xs ! k) \<le> blocksize w" "chunks (blocksize w) xs ! k \<noteq> []"
    using length_of_chunk[OF nth_mem[OF assms(2)]] by simp_all
  show "image_blocks z w xs ! k = compressed z w (chunks (blocksize w) xs ! k)"
    using assms(2) by (simp add: image_blocks_def nth_append)
qed

lemma load_block_ok:
  assumes "image_fits z w xs" and "image_open z w xs fd s index" and "cache_ok w xs g"
    and "gl_data g = Some m" and "gl_cdata g = Some cm" and "k < length (chunks (blocksize w) xs)"
  obtains g' fd' d cm' where "load_block z s index g fd (int k) = Some (g', fd', Inr (int (length (chunks (blocksize w) xs ! k))))"
    "image_open z w xs fd' s index" "cache_ok w xs g'" "gl_data g' = Some d" "gl_cdata g' = Some cm'"
    "length d = blocksize w + 1024" "take (length (chunks (blocksize w) xs ! k)) d = chunks (blocksize w) xs ! k"
    "drop (length (chunks (blocksize w) xs ! k)) d = drop (length (chunks (blocksize w) xs ! k)) m"
proof -
  let ?xss = "chunks (blocksize w) xs" and ?cs = "image_blocks z w xs"
  let ?x = "?xss ! k" and ?c = "?cs ! k"
  note hd = image_headers[OF assms(1,2)] and ch = chunk_nth[OF assms(1,6)]
  have zw: "zlib_ok z" "sgzip_ok w" "header_ok (sg_header w)" "length ?xss < 268434944"
    using assms(1) by (simp_all add: image_fits_def)
  note o = sgzip_okD[OF zw(2)] and comp = compressed_ok[OF zw(1,2) ch(1)]
  have lm: "length m = blocksize w + 1024" "length cm = blocksize w + 1024"
    using assms(3-5) unfolding cache_ok_def by simp_all
  show ?thesis
  proof (cases "gl_cached_block_offs g = int k")
    case True
    then have "gl_cached_length g = int (length ?x)" "take (length ?x) m = ?x"
      using assms(3,4,6) zw(4) by (auto simp: cache_ok_def)
    moreover from this(1) have "u64 (gl_cached_length g) = int (length ?x)" using ch(1) o(2) by (simp add: u64_id)
    ultimately show ?thesis using that[of g fd m cm] True assms(2-5) lm by (simp add: load_block_def)
  next
    case False
    let ?a = "int (length (concat (take k ?cs)))" and ?p = "11 + 4 * (k + 1) + length (concat (take k ?cs))"
    have op: "full_moves fd" "fd_data fd = header_bytes (sg_header w) @ sgz_body ?cs" "index = index_of ?cs"
      using assms(2) by (simp_all add: image_open_def)
    have k: "k < length ?cs" "Suc k < length ?cs" using assms(6) by simp_all
    have "concat (take (Suc k) ?cs) = concat (take k ?cs) @ ?c" using k(1) by (simp add: take_Suc_conv_app_nth)
    then have ix: "index_at index (int k + 1) = Some (?a + int (length ?c))" "index_at index (int k) = Some ?a"
      using index_of_at[OF k(1)] index_of_at[OF k(2)] unfolding op(3) by (simp_all add: add.commute)
    have a: "?a < 1000000000000000"
      using image_size[OF assms(1), of "take k ?cs"] zw(4) assms(6) set_take_subset[of k ?cs] by simp
    have lc: "length ?c \<le> blocksize w + 1013" using comp(3) ch(3) by simp
    then have cl: "u64 (?a + int (length ?c) - ?a) = int (length ?c)" using o(2) by (simp add: u64_id)
    have ls: "lseek_set fd (u64 (int SIZEOF_HEADER + 4 * (int k + 1) + ?a)) = (fd\<lparr>fd_pos := ?p\<rparr>, True)"
      using a k(1) zw(4) by (subst lseek_ok) (simp_all add: SIZEOF_HEADER_def nat_add_distrib nat_mult_distrib)
    have "length (header_bytes (sg_header w)) = 11" using length_header_bytes[OF zw(3)] by (simp add: SIZEOF_HEADER_def)
    from block_at[OF k(1) this] obtain ys where "fd_rest (fd\<lparr>fd_pos := ?p\<rparr>) = ?c @ ys"
      unfolding fd_rest_pos op(2) by blast
    then have tk: "take (length ?c) (fd_rest (fd\<lparr>fd_pos := ?p\<rparr>)) = ?c" by simp
    have fm: "full_moves (fd\<lparr>fd_pos := ?p\<rparr>)" using op(1) by simp
    have "int (length ?c) \<le> 2147479552" using lc o(2) by simp
    from read_fd_full[OF fm this] obtain fd1 where
      r1: "read_fd (fd\<lparr>fd_pos := ?p\<rparr>) (length ?c) = (fd1, take (length ?c) (fd_rest (fd\<lparr>fd_pos := ?p\<rparr>)),
          int (length (take (length ?c) (fd_rest (fd\<lparr>fd_pos := ?p\<rparr>)))))"
        "full_moves fd1" "fd_data fd1 = fd_data (fd\<lparr>fd_pos := ?p\<rparr>)" by blast
    note r = r1(1)[unfolded tk] r1(2)
    have r3: "fd_data fd1 = fd_data fd" using r1(3) by simp
    have w1: "mem_write cm 0 ?c = Some (?c @ drop (length ?c) cm)" using lc lm(2) by (simp add: mem_write_def)
    have w2: "mem_read (?c @ drop (length ?c) cm) 0 (int (length ?c)) = Some ?c" using lc lm(2) by (simp add: mem_read_def)
    have w3: "mem_write m 0 ?x = Some (?x @ drop (length ?x) m)" using ch(1) lm(1) by (simp add: mem_write_def)
    have uz: "z_uncompress z (blocksize w) ?c = (Z_OK, ?x, length ?x)" using comp(4)[OF ch(1)] ch(3) by simp
    let ?g = "g\<lparr>gl_data := Some (?x @ drop (length ?x) m), gl_cdata := Some (?c @ drop (length ?c) cm),
      gl_cached_block_offs := int k, gl_cached_length := int (length ?x)\<rparr>"
    have s: "s32 (int (length ?x)) = int (length ?x)" using ch(1) o(2) by (simp add: s32_id)
    have "load_block z s index g fd (int k) = Some (?g, fd1, Inr (int (length ?x)))"
      using False ix cl ls r(1) w1 w2 w3 uz assms(4,5) hd(1) o(5) lc s by (simp add: load_block_def Let_def)
    moreover have "image_open z w xs fd1 s index" using assms(2) r(2) r3 by (simp add: image_open_def)
    moreover have "cache_ok w xs ?g" using assms(6) lm lc ch(1) by (auto simp: cache_ok_def)
    ultimately show ?thesis using that lm ch(1) by simp
  qed
qed

lemma read_blocks_ok:
  assumes "image_fits z w xs" and "image_open z w xs fd s index" and "cache_ok w xs g"
    and "gl_data g = Some m" and "gl_cdata g = Some cm" and "k \<le> length (chunks (blocksize w) xs)"
    and "k < length (chunks (blocksize w) xs) \<Longrightarrow> off \<le> length (chunks (blocksize w) xs ! k)" and "0 \<le> len"
  shows "\<exists>g' fd'. read_blocks z s index g fd len (int k) (int off) copied =
      Some (g', fd', Inr (copied @ take (nat len) (drop off (concat (drop k (chunks (blocksize w) xs)))))) \<and>
    image_open z w xs fd' s index \<and> cache_ok w xs g'"
  using assms(2-8)
proof (induction "length (chunks (blocksize w) xs) - k" arbitrary: k fd g m cm off len copied)
  case 0
  let ?xss = "chunks (blocksize w) xs"
  have "u32 (max_chunks (sg_header s) - 1) \<le> int k" using 0 image_headers(3)[OF assms(1) 0(2)] by simp
  then have "read_blocks z s index g fd len (int k) (int off) copied = Some (g, fd, Inr copied)"
    by (simp add: read_blocks.simps)
  then show ?case using 0 by simp
next
  case (Suc j)
  let ?xss = "chunks (blocksize w) xs"
  let ?x = "?xss ! k"
  have k: "k < length ?xss" using Suc(2) by simp
  note stop = image_headers(3)[OF assms(1) Suc(3)] and ch = chunk_nth[OF assms(1) k] and off = Suc.prems(6)[OF k]
  have cd: "concat (drop k ?xss) = ?x @ concat (drop (Suc k) ?xss)"
    using Cons_nth_drop_Suc[OF k] by (metis concat.simps(2))
  have o2: "blocksize w \<le> 1000000" using assms(1) sgzip_okD(2) by (simp add: image_fits_def)
  show ?case
  proof (cases "len = 0")
    case True
    then have "read_blocks z s index g fd len (int k) (int off) copied = Some (g, fd, Inr copied)"
      by (simp add: read_blocks.simps)
    then show ?thesis using True Suc.prems(1,2) by simp
  next
    case False
    then have len: "0 < len" using Suc.prems(7) by simp
    obtain g1 fd1 d cm1 where l: "load_block z s index g fd (int k) = Some (g1, fd1, Inr (int (length ?x)))"
      "image_open z w xs fd1 s index" "cache_ok w xs g1" "gl_data g1 = Some d" "gl_cdata g1 = Some cm1"
      "length d = blocksize w + 1024" "take (length ?x) d = ?x"
      by (rule load_block_ok[OF assms(1) Suc.prems(1-4) k])
    define n where "n = min (length ?x - off) (nat len)"
    have u: "min (u64 (int (length ?x) - int off)) len = int n"
    proof -
      have e: "int (length ?x) - int off = int (length ?x - off)" using off by simp
      have "u64 (int (length ?x - off)) = int (length ?x - off)" by (rule u64_id) (use ch(1) o2 in simp_all)
      moreover have "min (int (length ?x - off)) len = int n" unfolding n_def using len by linarith
      ultimately show ?thesis unfolding e by (simp only:)
    qed
    have "off + n \<le> length ?x" using off by (simp add: n_def)
    then have "take n (drop off d) = take n (drop off (take (length ?x) d))" by (simp add: drop_take min_def)
    then have t: "take n (drop off d) = take n (drop off ?x)" using l(7) by simp
    have mr: "mem_read d (int off) (int n) = Some (take n (drop off ?x))"
      using \<open>off + n \<le> length ?x\<close> l(6) ch(1) t by (simp add: mem_read_def)
    have step: "read_blocks z s index g fd len (int k) (int off) copied =
        read_blocks z s index g1 fd1 (len - int n) (int (Suc k)) 0 (copied @ take n (drop off ?x))"
      using l(1,4) mr len u stop k by (subst read_blocks.simps) (simp add: Let_def add.commute)
    have "j = length ?xss - Suc k" using Suc.hyps(2) by simp
    moreover have "0 \<le> len - int n" using len by (simp add: n_def)
    ultimately obtain g2 fd2 where r: "read_blocks z s index g1 fd1 (len - int n) (int (Suc k)) 0 (copied @ take n (drop off ?x)) =
        Some (g2, fd2, Inr ((copied @ take n (drop off ?x)) @ take (nat (len - int n)) (drop 0 (concat (drop (Suc k) ?xss)))))"
      "image_open z w xs fd2 s index" "cache_ok w xs g2"
      using Suc.hyps(1)[of "Suc k" fd1 g1 d cm1 0 "len - int n" "copied @ take n (drop off ?x)"] Suc.hyps(2) l(2-5) k by auto
    have "take (nat len) (drop off (concat (drop k ?xss))) =
        take n (drop off ?x) @ take (nat (len - int n)) (concat (drop (Suc k) ?xss))"
    proof -
      have "nat (len - int n) = nat len - (length ?x - off)" unfolding n_def using off len by linarith
      moreover have "take (nat len) (drop off ?x) = take n (drop off ?x)" by (simp add: n_def min_def)
      ultimately show ?thesis using off by (simp add: cd)
    qed
    then show ?thesis using step r by simp
  qed
qed

lemma length_chunk_nth:
  assumes "0 < n" and "k < length (chunks n xs)"
  shows "length (chunks n xs ! k) = min n (length xs - k * n)" "k * n < length xs"
proof -
  have dk: "drop k (chunks n xs) = chunks n (drop (k * n) xs)" by (rule drop_chunks[OF assms(1)])
  have "drop k (chunks n xs) \<noteq> []" using assms(2) by simp
  then have ne: "drop (k * n) xs \<noteq> []" using dk by auto
  have "chunks n xs ! k = hd (drop k (chunks n xs))" using assms(2) by (simp add: hd_drop_conv_nth)
  also have "\<dots> = take n (drop (k * n) xs)" using chunks_step[OF assms(1) ne] dk by simp
  finally show "length (chunks n xs ! k) = min n (length xs - k * n)" by simp
  show "k * n < length xs" using ne by simp
qed

text \<open>The block of the cache as a read finds it: memory that was never written, or what a read before has left.\<close>

definition cached_bytes :: "(nat \<Rightarrow> byte) \<Rightarrow> sgzip_obj \<Rightarrow> sgz_globals \<Rightarrow> byte list" where
  "cached_bytes heap w g = (case gl_data g of None \<Rightarrow> map heap [0..<blocksize w + 1024] | Some m \<Rightarrow> m)"

lemma read_random_start:
  assumes "image_fits z w xs" and "image_open z w xs fd s index" and "cache_ok w xs g"
    and "0 \<le> offs" and "nat offs div blocksize w \<le> length (chunks (blocksize w) xs)"
  obtains g' cm where "sgzip_read_random z heap s index g fd len offs =
      read_blocks z s index g' fd len (int (nat offs div blocksize w)) (int (nat offs mod blocksize w)) []"
    "cache_ok w xs g'" "gl_data g' = Some (cached_bytes heap w g)" "gl_cdata g' = Some cm"
proof -
  let ?xss = "chunks (blocksize w) xs" and ?b = "int (blocksize w)" and ?k = "nat offs div blocksize w"
  note hd = image_headers[OF assms(1,2)]
  have zw: "sgzip_ok w" "length ?xss < 268434944" using assms(1) by (simp_all add: image_fits_def)
  note o = sgzip_okD[OF zw(1)]
  let ?g1 = "if gl_data g = None then g\<lparr>gl_data := Some (map heap [0..<blocksize w + 1024])\<rparr> else g"
  let ?g2 = "if gl_cdata ?g1 = None then ?g1\<lparr>gl_cdata := Some (map heap [0..<blocksize w + 1024])\<rparr> else ?g1"
  have g2: "cache_ok w xs ?g2" using assms(3) by (auto simp: cache_ok_def)
  obtain cm where "gl_cdata ?g2 = Some cm" by fastforce
  moreover have "gl_data ?g2 = Some (cached_bytes heap w g)" by (auto simp: cached_bytes_def)
  ultimately have m: "gl_data ?g2 = Some (cached_bytes heap w g)" "gl_cdata ?g2 = Some cm" by blast+
  have offs: "offs div ?b = int ?k" "offs mod ?b = int (nat offs mod blocksize w)"
    using assms(4) by (simp_all add: zdiv_int zmod_int)
  have "u64 (s32 (int ?k)) = int ?k" using assms(5) zw(2) by (simp add: s32_id u64_id)
  moreover have "nat (?b + 1024) = blocksize w + 1024" by simp
  ultimately have "sgzip_read_random z heap s index g fd len offs =
      read_blocks z s index ?g2 fd len (int ?k) (int (nat offs mod blocksize w)) []"
    using hd o(1,5) offs assms(5) unfolding sgzip_read_random_def Let_def hd(1)
    by (cases "gl_data g"; cases "gl_cdata g") simp_all
  then show ?thesis using that g2 m by blast
qed

lemma sgzip_read_random_ok:
  assumes "image_fits z w xs" and "image_open z w xs fd s index" and "cache_ok w xs g"
    and "0 \<le> len" and "0 \<le> offs" and "offs \<le> int (length xs)"
  shows "\<exists>g' fd'. sgzip_read_random z heap s index g fd len offs = Some (g', fd', Inr (take (nat len) (drop (nat offs) xs))) \<and>
    image_open z w xs fd' s index \<and> cache_ok w xs g'"
proof -
  let ?xss = "chunks (blocksize w) xs"
  have o: "0 < blocksize w" using assms(1) sgzip_okD(1) by (simp add: image_fits_def)
  define k where "k = nat offs div blocksize w"
  define off where "off = nat offs mod blocksize w"
  have pos: "nat offs = k * blocksize w + off" by (simp add: k_def off_def)
  have k: "k \<le> length ?xss"
  proof -
    have "k \<le> length xs div blocksize w" using assms(6) by (simp add: k_def div_le_mono)
    also have "\<dots> \<le> (length xs + blocksize w - 1) div blocksize w" using o by (intro div_le_mono) simp
    finally show ?thesis using length_chunks[OF o, of xs] by simp
  qed
  obtain g' cm where start: "sgzip_read_random z heap s index g fd len offs =
      read_blocks z s index g' fd len (int k) (int off) []"
    "cache_ok w xs g'" "gl_data g' = Some (cached_bytes heap w g)" "gl_cdata g' = Some cm"
    by (rule read_random_start[OF assms(1-3,5) k[unfolded k_def], folded k_def off_def])
  have off: "off \<le> length (?xss ! k)" if "k < length ?xss"
  proof -
    have "off \<le> blocksize w" using o by (simp add: off_def less_imp_le)
    moreover have "k * blocksize w + off \<le> length xs" using assms(6) pos by simp
    ultimately show ?thesis using length_chunk_nth(1)[OF o that] by simp
  qed
  have "drop off (concat (drop k ?xss)) = drop (nat offs) xs"
    by (simp add: drop_chunks[OF o] concat_chunks[OF o] pos add.commute)
  then show ?thesis
    using read_blocks_ok[OF assms(1,2) start(2-4) k off assms(4), of "[]"] start(1) by simp
qed

section \<open>From block to block\<close>

lemma read_length_and_block:
  assumes "moving fd" and "fd_rest fd = block_bytes c @ rest" and "length c < 2147483648" and "length lb = 4"
  obtains fd1 fd2 where "read_from_stream fd 4 = (fd1, le_bytes 4 (int (length c)), 4)"
    "read_from_stream fd1 (int (length c)) = (fd2, c, int (length c))" "moving fd2" "fd_rest fd2 = rest"
    "over_block (le_bytes 4 (int (length c))) lb = le_bytes 4 (int (length c))"
    "s32 (le_val (le_bytes 4 (int (length c)))) = int (length c)"
proof -
  obtain fd1 where 1: "read_from_stream fd 4 = (fd1, le_bytes 4 (int (length c)), 4)" "moving fd1" "fd_rest fd1 = c @ rest"
    using read_from_stream_moving[OF assms(1), of 4] assms(2) by (auto simp: block_bytes_def)
  obtain fd2 where 2: "read_from_stream fd1 (int (length c)) = (fd2, c, int (length c))" "moving fd2" "fd_rest fd2 = rest"
    using read_from_stream_moving[OF 1(2), of "int (length c)"] 1(3) by auto
  have "le_val (le_bytes 4 (int (length c))) = int (length c)" using assms(3) by (intro le_val_le_bytes) simp_all
  then show ?thesis using that[OF 1(1) 2] assms(3,4) by (simp add: over_block_def s32_id)
qed

lemma read_end_of_blocks:
  assumes "moving fd" and "fd_rest fd = replicate 4 0 @ rest" and "length lb = 4"
  obtains fd1 where "read_from_stream fd 4 = (fd1, replicate 4 0, 4)" "s32 (le_val (over_block (replicate 4 0) lb)) = 0"
proof -
  obtain fd1 where "read_from_stream fd 4 = (fd1, replicate 4 0, 4)"
    using read_from_stream_moving[OF assms(1), of 4] assms(2) by auto
  moreover have "s32 (le_val (over_block (replicate 4 0) lb)) = 0"
    using assms(3) by (simp add: over_block_def eval_nat_numeral s32_id)
  ultimately show ?thesis using that by blast
qed

lemma follow_blocks_ok:
  assumes "moving fd" and "fd_rest fd = concat (map block_bytes cs) @ replicate 4 0 @ rest" and "length lb = 4"
    and "\<forall>c\<in>set cs. c \<noteq> [] \<and> int (length c) \<le> datalength" and "datalength \<le> 1048576"
    and "0 \<le> count" and "count + int (length cs) < 2147483648"
    and "0 \<le> last_offset items" and "last_offset items + int (length (concat cs)) < 9223372036854775808"
  shows "\<exists>fd'. follow_blocks fd datalength lb count items =
    Some (fd', count + int (length cs), items @ offsets (last_offset items) cs)"
  using assms
proof (induction cs arbitrary: fd lb count items)
  case Nil
  then have "fd_rest fd = replicate 4 0 @ rest" by simp
  then obtain fd1 where r: "read_from_stream fd 4 = (fd1, replicate 4 0, 4)" "s32 (le_val (over_block (replicate 4 0) lb)) = 0"
    by (rule read_end_of_blocks[OF Nil(1) _ Nil(3)])
  have "follow_blocks fd datalength lb count items = Some (fd1, count, items)"
    by (subst follow_blocks.simps) (simp only: r prod.case Let_def, simp)
  then show ?case by simp
next
  case (Cons c cs)
  have c: "c \<noteq> []" "int (length c) \<le> datalength" using Cons.prems(4) by simp_all
  have lc: "length c < 2147483648" using c Cons.prems(5) by simp
  have r: "fd_rest fd = block_bytes c @ concat (map block_bytes cs) @ replicate 4 0 @ rest" using Cons.prems(2) by simp
  obtain fd1 fd2 where b: "read_from_stream fd 4 = (fd1, le_bytes 4 (int (length c)), 4)"
    "read_from_stream fd1 (int (length c)) = (fd2, c, int (length c))" "moving fd2"
    "fd_rest fd2 = concat (map block_bytes cs) @ replicate 4 0 @ rest"
    "over_block (le_bytes 4 (int (length c))) lb = le_bytes 4 (int (length c))"
    "s32 (le_val (le_bytes 4 (int (length c)))) = int (length c)"
    by (rule read_length_and_block[OF Cons.prems(1) r lc Cons.prems(3)])
  have a: "add_item items (int (length c)) = items @ [last_offset items + int (length c)]"
    using Cons.prems(8,9) by (auto simp: add_item_def last_offset_def u64_id)
  have s: "s32 (count + 1) = count + 1" "s32 (datalength + 1024) = datalength + 1024" "0 < int (length c)"
    using Cons.prems(5-7) c by (simp_all add: s32_id)
  let ?items = "items @ [last_offset items + int (length c)]"
  have "follow_blocks fd datalength lb count items =
      follow_blocks fd2 datalength (le_bytes 4 (int (length c))) (count + 1) ?items"
    using c by (subst follow_blocks.simps) (simp only: b prod.case Let_def, simp only: a, simp add: s)
  moreover have "last_offset ?items = last_offset items + int (length c)" by (simp add: last_offset_def)
  moreover have "\<exists>fd'. follow_blocks fd2 datalength (le_bytes 4 (int (length c))) (count + 1) ?items =
      Some (fd', count + 1 + int (length cs), ?items @ offsets (last_offset ?items) cs)"
    by (rule Cons.IH) (use b(3,4) Cons.prems(4-9) calculation(2) in simp_all)
  ultimately show ?case by auto
qed

lemma decompress_loop_end:
  assumes "moving fd" and "fd_rest fd = replicate 4 0 @ rest" and "length lb = 4"
  shows "\<exists>f. decompress_loop z fd outfd datalength lb dataout buffer = Some (f, outfd, buffer, None)"
proof -
  obtain fd1 where r: "read_from_stream fd 4 = (fd1, replicate 4 0, 4)" "s32 (le_val (over_block (replicate 4 0) lb)) = 0"
    by (rule read_end_of_blocks[OF assms])
  have "decompress_loop z fd outfd datalength lb dataout buffer = Some (fd1, outfd, buffer, None)"
    by (subst decompress_loop.simps) (simp only: r prod.case Let_def, simp)
  then show ?thesis by blast
qed

lemma decompress_loop_ok:
  assumes "zlib_ok z" and "sgzip_ok w" and "moving fd"
    and "fd_rest fd = concat (map block_bytes (map (compressed z w) ss)) @ replicate 4 0 @ rest" and "length lb = 4"
    and "\<forall>src\<in>set ss. length src \<le> blocksize w" and "writer_inv (outfd, buffer)" and "length dataout = blocksize w + 1024"
  shows "\<exists>fd' outfd' buffer'. decompress_loop z fd outfd (int (blocksize w) + 1024) lb dataout buffer =
      Some (fd', outfd', buffer', None) \<and>
    writer_inv (outfd', buffer') \<and> writer_bytes (outfd', buffer') = writer_bytes (outfd, buffer) @ concat ss \<and>
    (ss \<noteq> [] \<longrightarrow> last ss = [] \<longrightarrow> buffer' = [])"
  using assms(3-8)
proof (induction ss arbitrary: fd lb outfd buffer dataout)
  case Nil
  then have "fd_rest fd = replicate 4 0 @ rest" by simp
  from decompress_loop_end[OF Nil(1) this Nil(3)] obtain f where
    "decompress_loop z fd outfd (int (blocksize w) + 1024) lb dataout buffer = Some (f, outfd, buffer, None)" by blast
  then show ?case using Nil(5) by simp
next
  case (Cons src ss)
  let ?c = "compressed z w src"
  note o = sgzip_okD[OF assms(2)]
  have src: "length src \<le> blocksize w" using Cons.prems(4) by simp
  note comp = compressed_ok[OF assms(1,2) src]
  have lc: "length ?c < 2147483648" "int (length ?c) \<le> int (blocksize w) + 1024" "0 < int (length ?c)"
    using comp(2,3) o(2) by simp_all
  have r: "fd_rest fd = block_bytes ?c @ concat (map block_bytes (map (compressed z w) ss)) @ replicate 4 0 @ rest"
    using Cons.prems(2) by simp
  obtain fd1 fd2 where b: "read_from_stream fd 4 = (fd1, le_bytes 4 (int (length ?c)), 4)"
    "read_from_stream fd1 (int (length ?c)) = (fd2, ?c, int (length ?c))" "moving fd2"
    "fd_rest fd2 = concat (map block_bytes (map (compressed z w) ss)) @ replicate 4 0 @ rest"
    "over_block (le_bytes 4 (int (length ?c))) lb = le_bytes 4 (int (length ?c))"
    "s32 (le_val (le_bytes 4 (int (length ?c)))) = int (length ?c)"
    by (rule read_length_and_block[OF Cons.prems(1) r lc(1) Cons.prems(3)])
  have uz: "z_uncompress z (nat (int (blocksize w) + 1024)) ?c = (Z_OK, src, length src)"
    using comp(4)[of "nat (int (blocksize w) + 1024)"] src by simp
  let ?d = "src @ drop (length src) dataout"
  have m: "mem_write dataout 0 src = Some ?d" "length ?d = blocksize w + 1024"
    using src Cons.prems(6) by (simp_all add: mem_write_def)
  have s: "s32 (int (length src)) = int (length src)" using src o(2) by (simp add: s32_id)
  obtain out1 buf1 where w: "stream_write outfd (Some ?d) (int (length src)) buffer = Some (out1, buf1)"
    "writer_inv (out1, buf1)" "writer_bytes (out1, buf1) = writer_bytes (outfd, buffer) @ src"
    using stream_write_sink_part[OF Cons.prems(5), of "length src" ?d] src o(2) by (auto simp: BUFFER_SIZE_def)
  have fl: "buf1 = []" if "src = []"
    using w(1) stream_write_flush(2)[OF Cons.prems(5), of dataout] that by simp
  have step: "decompress_loop z fd outfd (int (blocksize w) + 1024) lb dataout buffer =
      decompress_loop z fd2 out1 (int (blocksize w) + 1024) (le_bytes 4 (int (length ?c))) ?d buf1"
    using lc(2,3) by (subst decompress_loop.simps) (simp only: b prod.case Let_def, simp add: uz m(1) s w(1))
  have "\<exists>fd' outfd' buffer'. decompress_loop z fd2 out1 (int (blocksize w) + 1024) (le_bytes 4 (int (length ?c))) ?d buf1 =
      Some (fd', outfd', buffer', None) \<and>
    writer_inv (outfd', buffer') \<and> writer_bytes (outfd', buffer') = writer_bytes (out1, buf1) @ concat ss \<and>
    (ss \<noteq> [] \<longrightarrow> last ss = [] \<longrightarrow> buffer' = [])"
    by (rule Cons.IH[OF b(3,4) _ _ w(2) m(2)]) (use Cons.prems(4) in simp_all)
  then obtain fd' outfd' buffer' where
    i: "decompress_loop z fd2 out1 (int (blocksize w) + 1024) (le_bytes 4 (int (length ?c))) ?d buf1 = Some (fd', outfd', buffer', None)"
      "writer_inv (outfd', buffer')" "writer_bytes (outfd', buffer') = writer_bytes (out1, buf1) @ concat ss"
      "ss \<noteq> [] \<longrightarrow> last ss = [] \<longrightarrow> buffer' = []" by blast
  have "buffer' = []" if "last (src # ss) = []"
  proof (cases "ss = []")
    case True
    then have "src = []" using that by simp
    then have "buf1 = []" by (rule fl)
    moreover have e: "fd_rest fd2 = replicate 4 0 @ rest" using b(4) True by simp
    have "\<exists>f. decompress_loop z fd2 out1 (int (blocksize w) + 1024) (le_bytes 4 (int (length ?c))) ?d buf1 = Some (f, out1, buf1, None)"
      by (rule decompress_loop_end[OF b(3) e]) simp
    ultimately show ?thesis using i(1) by auto
  qed (use that i(4) in simp)
  then show ?case using step i(1-3) w(3) by simp
qed

section \<open>Files\<close>

lemma compress_file_ok:
  assumes "image_fits z w (fd_rest infd)" and "moving infd" and "at_end outfd" and "fd_data outfd = []"
  shows "\<exists>infd' outfd'. compress_file z heap w infd outfd = Some (infd', outfd', None) \<and> at_end outfd' \<and>
    fd_data outfd' = header_bytes (sg_header w) @ sgz_body (image_blocks z w (fd_rest infd))"
proof -
  have zw: "zlib_ok z" "sgzip_ok w" "header_ok (sg_header w)" "length (chunks (blocksize w) (fd_rest infd)) < 268434944"
    using assms(1) by (simp_all add: image_fits_def)
  note l = length_header_bytes[OF zw(3)]
  let ?out = "write_fd outfd (header_bytes (sg_header w))"
  have "int (length (header_bytes (sg_header w))) \<le> 2147479552" by (simp add: l SIZEOF_HEADER_def)
  from write_fd_at_end[OF assms(3) this] assms(4)
  have o: "fd_data ?out = header_bytes (sg_header w)" "at_end ?out" by simp_all
  have "2147479552 \<le> fd_moves outfd (fd_calls outfd)" using assms(3) by (simp add: at_end_def full_moves_def)
  then have w: "sgzip_write_header heap outfd (Some (sg_header w)) = Some (?out, Inr (sg_header w))"
    by (simp add: sgzip_write_header_def Let_def SIZEOF_HEADER_def)
  have "length (image_blocks z w (fd_rest infd)) < 2147483648" using zw(4) by simp
  from sgzip_compress_fds_ok[OF zw(1,2) assms(2) o(2) this, of heap] o(1) w
  show ?thesis by (simp add: compress_file_def)
qed

lemma sgzip_open_ok:
  assumes "image_fits z w xs" and "full_moves fd"
    and "fd_data fd = header_bytes (sg_header w) @ sgz_body (image_blocks z w xs)"
  obtains fd1 fd2 s where "sgzip_read_header heap fd = (fd1, Inr (sg_header w))"
    "sgzip_read_index stack fd1 \<lparr>sg_header = sg_header w, sg_level = level\<rparr> =
       Some (fd2, s, Inr (Some (index_of (image_blocks z w xs))))"
    "image_open z w xs fd2 s (index_of (image_blocks z w xs))"
proof -
  let ?cs = "image_blocks z w xs"
  have zw: "zlib_ok z" "sgzip_ok w" "header_ok (sg_header w)" "length (chunks (blocksize w) xs) < 268434944"
    using assms(1) by (simp_all add: image_fits_def)
  obtain fd1 where r: "sgzip_read_header heap fd = (fd1, Inr (sg_header w))" "full_moves fd1" "fd_data fd1 = fd_data fd"
    by (rule sgzip_read_header_ok[OF assms(2) zw(3) assms(3)])
  have size: "int (length (concat ?cs)) < 1000000000000000"
    by (rule image_size[OF assms(1)]) (use zw(4) in simp_all)
  have d: "fd_data fd1 = (header_bytes (sg_header w) @ concat (map block_bytes ?cs) @ replicate 8 0) @ index_bytes (offsets 0 ?cs)"
    using r(3) assms(3) by (simp add: sgz_body_def)
  have "length (index_bytes (offsets 0 ?cs)) = 8 * length ?cs + 10"
    unfolding index_bytes_def by (simp add: SGZIDX_def del: length_image_blocks)
  then have "int (length (fd_data fd1)) = 11 + int (4 * length ?cs + length (concat ?cs)) + 8 + int (8 * length ?cs + 10)"
    using length_header_bytes[OF zw(3)] unfolding d by (simp add: length_concat_blocks SIZEOF_HEADER_def del: length_image_blocks)
  then have l: "int (length (fd_data fd1)) < 9223372036854775808" using size zw(4) by simp
  have i: "0 < length (offsets 0 ?cs)" "length (offsets 0 ?cs) \<le> 268434944" using zw(4) by simp_all
  have b: "\<forall>i\<in>set (offsets 0 ?cs). 0 \<le> i \<and> i < 18446744073709551616"
  proof
    fix i assume "i \<in> set (offsets 0 ?cs)"
    from set_offsets[OF this] size show "0 \<le> i \<and> i < 18446744073709551616" by linarith
  qed
  let ?s = "\<lparr>sg_header = sg_header w, sg_level = level\<rparr>"
  obtain fd2 where x: "sgzip_read_index stack fd1 ?s =
      Some (fd2, ?s\<lparr>sg_header := (sg_header ?s)\<lparr>sh_x := le_bytes 4 (int (length (offsets 0 ?cs)))\<rparr>\<rparr>,
        Inr (Some ((0 # offsets 0 ?cs)[length (offsets 0 ?cs) := 0])))" "full_moves fd2" "fd_data fd2 = fd_data fd1"
    by (rule sgzip_read_index_ok[OF r(2) d l i b])
  have ix: "(0 # offsets 0 ?cs)[length (offsets 0 ?cs) := 0] = index_of ?cs" by (simp only: index_of_def length_offsets)
  show ?thesis
    by (rule that[OF r(1) x(1)[unfolded ix]]) (use x(2,3) r(3) assms(3) in \<open>simp add: image_open_def\<close>)
qed

text \<open>C20 (sgzip_roundtrip). A stream of bytes that \<open>compress_file\<close> wrote to a file, in blocks of any size up to a million
  bytes and whatever pieces the stream came in, is restored by \<open>decompress_file\<close> as it was.\<close>

theorem sgzip_roundtrip:
  assumes "image_fits z w xs" and "moving infd" and "fd_rest infd = xs" and "at_end outfd" and "fd_data outfd = []"
  shows "\<exists>infd' sgz. compress_file z heap w infd outfd = Some (infd', sgz, None) \<and>
    (\<forall>fd out. full_moves fd \<longrightarrow> fd_data fd = fd_data sgz \<longrightarrow> at_end out \<longrightarrow> fd_data out = [] \<longrightarrow>
       (\<exists>fd' out'. decompress_file z heap w fd out = Some (fd', out', None) \<and> fd_data out' = xs))"
proof -
  let ?cs = "image_blocks z w xs" and ?h = "sg_header w"
  have zw: "zlib_ok z" "sgzip_ok w" "header_ok ?h" using assms(1) by (simp_all add: image_fits_def)
  note o = sgzip_okD[OF zw(2)]
  obtain infd' sgz where c: "compress_file z heap w infd outfd = Some (infd', sgz, None)" "fd_data sgz = header_bytes ?h @ sgz_body ?cs"
    using compress_file_ok[of z w infd outfd heap] assms by auto
  have "\<exists>fd' out'. decompress_file z heap w fd out = Some (fd', out', None) \<and> fd_data out' = xs"
    if fd: "full_moves fd" "fd_data fd = fd_data sgz" and out: "at_end out" "fd_data out = []" for fd out
  proof -
    let ?ss = "chunks (blocksize w) xs @ [[]]" and ?m = "map heap [0..<blocksize w + 1024]"
    obtain fd1 where r: "sgzip_read_header heap fd = (fd1, Inr ?h)" "full_moves fd1" "fd_rest fd1 = sgz_body ?cs"
      by (rule sgzip_read_header_ok[OF fd(1) zw(3) fd(2)[unfolded c(2)]])
    have "(replicate 8 0 :: byte list) = replicate 4 0 @ replicate 4 0" by (simp flip: replicate_add)
    then have rest: "fd_rest fd1 = concat (map block_bytes (map (compressed z w) ?ss)) @ replicate 4 0 @
        replicate 4 0 @ index_bytes (offsets 0 ?cs)"
      using r(3) by (simp add: sgz_body_def image_blocks_def)
    have ss: "\<forall>src\<in>set ?ss. length src \<le> blocksize w" using length_of_chunk[of _ "blocksize w" xs] o(1) by auto
    have wi: "writer_inv (out, [])" using out(1) by (simp add: writer_inv_def BUFFER_SIZE_def)
    obtain fd2 out2 buf where l: "decompress_loop z fd1 out (int (blocksize w) + 1024) [0, 0, 0, 0] ?m [] = Some (fd2, out2, buf, None)"
      "writer_bytes (out2, buf) = writer_bytes (out, []) @ concat ?ss" "?ss \<noteq> [] \<longrightarrow> last ?ss = [] \<longrightarrow> buf = []"
      using decompress_loop_ok[OF zw(1,2) full_moves_moving[OF r(2)] rest _ ss wi, of "[0, 0, 0, 0]" ?m] by auto
    have "fd_data out2 = xs" using l(2,3) out(2) concat_chunks[OF o(1), of xs] by (simp add: writer_bytes_def)
    moreover have "malloc_block heap (int (blocksize w) + 1024) = Some ?m"
      by (simp add: malloc_block_def nat_add_distrib nat_int_add)
    then have "sgzip_decompress_fds z heap fd1 out w = Some (fd2, out2, None)"
      using l(1) o(3,6) by (simp add: sgzip_decompress_fds_def Let_def)
    ultimately show ?thesis using r(1) by (simp add: decompress_file_def)
  qed
  then show ?thesis using c(1) by blast
qed

text \<open>C26 (sgzip_index_found_again). Following the blocks of a file finds as many blocks as the stored index has, and the
  index that is read is the list of offsets that is found, with a zero in front and in place of the last.\<close>

theorem sgzip_index_found_again:
  assumes "image_fits z w xs" and "full_moves fd"
    and "fd_data fd = header_bytes (sg_header w) @ sgz_body (image_blocks z w xs)"
  shows "\<exists>fd1 fd2 fd3 s index count items.
    sgzip_read_header heap fd = (fd1, Inr (sg_header w)) \<and>
    sgzip_read_index heap fd1 \<lparr>sg_header = sg_header w, sg_level = level\<rparr> = Some (fd2, s, Inr (Some index)) \<and>
    follow_blocks fd1 (s32 (sh_blocksize (sg_header w) + 1024)) [0, 0, 0, 0] 0 [] = Some (fd3, count, items) \<and>
    max_chunks (sg_header s) = count \<and> index = (0 # items)[nat count := 0]"
proof -
  let ?cs = "image_blocks z w xs" and ?h = "sg_header w"
  have zw: "zlib_ok z" "sgzip_ok w" "header_ok ?h" "length (chunks (blocksize w) xs) < 268434944"
    using assms(1) by (simp_all add: image_fits_def)
  note o = sgzip_okD[OF zw(2)]
  obtain fd1 fd2 s where r: "sgzip_read_header heap fd = (fd1, Inr ?h)"
    "sgzip_read_index heap fd1 \<lparr>sg_header = ?h, sg_level = level\<rparr> = Some (fd2, s, Inr (Some (index_of ?cs)))"
    "image_open z w xs fd2 s (index_of ?cs)" by (rule sgzip_open_ok[OF assms])
  obtain fd1' where r': "sgzip_read_header heap fd = (fd1', Inr ?h)" "full_moves fd1'" "fd_rest fd1' = sgz_body ?cs"
    by (rule sgzip_read_header_ok[OF assms(2) zw(3) assms(3)])
  then have fd1: "full_moves fd1" "fd_rest fd1 = sgz_body ?cs" using r(1) by simp_all
  have "(replicate 8 0 :: byte list) = replicate 4 0 @ replicate 4 0" by (simp flip: replicate_add)
  then have rest: "fd_rest fd1 = concat (map block_bytes ?cs) @ replicate 4 0 @ replicate 4 0 @ index_bytes (offsets 0 ?cs)"
    using fd1(2) by (simp add: sgz_body_def)
  have b: "\<forall>c\<in>set ?cs. c \<noteq> [] \<and> int (length c) \<le> int (blocksize w) + 1024"
  proof
    fix c assume "c \<in> set ?cs"
    from image_block_ok[OF zw(1,2) this] show "c \<noteq> [] \<and> int (length c) \<le> int (blocksize w) + 1024" by simp
  qed
  have size: "int (length (concat ?cs)) < 1000000000000000"
    by (rule image_size[OF assms(1)]) (use zw(4) in simp_all)
  have "\<exists>fd'. follow_blocks fd1 (int (blocksize w) + 1024) [0, 0, 0, 0] 0 [] =
      Some (fd', 0 + int (length ?cs), [] @ offsets (last_offset []) ?cs)"
    by (rule follow_blocks_ok[OF full_moves_moving[OF fd1(1)] rest _ b])
      (use o(2) zw(4) size in \<open>simp_all add: last_offset_def\<close>)
  then obtain fd3 where f: "follow_blocks fd1 (int (blocksize w) + 1024) [0, 0, 0, 0] 0 [] = Some (fd3, int (length ?cs), offsets 0 ?cs)"
    by (auto simp: last_offset_def)
  have "max_chunks (sg_header s) = int (length ?cs)" using image_headers(2)[OF assms(1) r(3)] by simp
  moreover have "index_of ?cs = (0 # offsets 0 ?cs)[nat (int (length ?cs)) := 0]" by (simp only: index_of_def nat_int)
  moreover have "s32 (sh_blocksize ?h + 1024) = int (blocksize w) + 1024" using o(3,6) by simp
  from f[folded this] have "follow_blocks fd1 (s32 (sh_blocksize ?h + 1024)) [0, 0, 0, 0] 0 [] = Some (fd3, int (length ?cs), offsets 0 ?cs)" .
  ultimately show ?thesis using r(1,2) by blast
qed

text \<open>The table of the index that is found again is too short by two entries, whatever the file.\<close>

lemma follow_blocks_count:
  "follow_blocks fd d lb count items = Some (fd', count', items') \<Longrightarrow> count \<le> int (length items) \<Longrightarrow>
   - 2147483648 \<le> count \<Longrightarrow> count' \<le> int (length items') + 1"
proof (induction fd d lb count items arbitrary: fd' count' items' rule: follow_blocks.induct)
  case (1 fd d lb count items)
  obtain fd1 xs r where a: "read_from_stream fd 4 = (fd1, xs, r)" by (metis prod_cases3)
  let ?len = "s32 (le_val (over_block xs lb))"
  obtain fd2 ys r' where b: "read_from_stream fd1 ?len = (fd2, ys, r')" by (metis prod_cases3)
  have "- 2147483648 \<le> s32 (count + 1)" using s32_range by simp
  have s: "s32 (count + 1) \<le> count + 1"
  proof (cases "count + 1 < 2147483648")
    case False
    then show ?thesis using s32_range[of "count + 1"] by linarith
  qed (use 1(4) in \<open>simp add: s32_id\<close>)
  have l: "length (add_item items ?len) = Suc (length items)" by (simp add: add_item_def)
  show ?case
  proof (cases "r > 0 \<and> ?len > 0")
    case False
    then show ?thesis using 1(2,3) a by (subst (asm) follow_blocks.simps) (auto simp: Let_def)
  next
    case pos: True
    show ?thesis
    proof (cases "?len > s32 (d + 1024) \<or> int (length ys) > d \<or> r' < ?len")
      case True
      then have "count' = s32 (count + 1) \<and> (items' = items \<or> items' = add_item items ?len)"
        using 1(2) pos a b by (subst (asm) follow_blocks.simps) (auto simp: Let_def split: if_splits)
      then show ?thesis using s 1(3) l by auto
    next
      case False
      then have "follow_blocks fd2 d (over_block xs lb) (s32 (count + 1)) (add_item items ?len) = Some (fd', count', items')"
        using 1(2) pos a b by (subst (asm) follow_blocks.simps) (simp add: Let_def)
      from 1(1)[OF a[symmetric] refl refl refl pos refl _ refl b[symmetric] refl _ _ this] False s 1(3) l s32_range[of "count + 1"]
      show ?thesis by simp
    qed
  qed
qed

lemma set_entries_short: "length index \<le> count + length items \<Longrightarrow> set_entries index count items = None"
  by (induction items arbitrary: index count) auto

lemma length_words_of: "length (words_of m) = length m div 8"
  by (induction m rule: words_of.induct) simp_all

text \<open>C35 (sgzip_rebuild_overflows). \<open>sgzip_calculate_index_from_stream\<close> never returns an index: for every file it writes
  behind the table that it allocated, unless it has no memory.\<close>

theorem sgzip_rebuild_overflows:
  "sgzip_calculate_index_from_stream heap fd s = None \<or>
   (\<exists>fd'. sgzip_calculate_index_from_stream heap fd s = Some (fd', Inl E_NOMEMORY))"
proof -
  let ?d = "s32 (sh_blocksize (sg_header s) + 1024)"
  show ?thesis
  proof (cases "follow_blocks fd ?d [0, 0, 0, 0] 0 []")
    case None
    then show ?thesis by (simp add: sgzip_calculate_index_from_stream_def Let_def)
  next
    case (Some r)
    obtain fd' count items where f: "follow_blocks fd ?d [0, 0, 0, 0] 0 [] = Some (fd', count, items)"
      using Some by (metis prod_cases3)
    have "count \<le> int (length items) + 1" by (rule follow_blocks_count[OF f]) simp_all
    then have "set_entries (words_of (map heap [0..<8 * nat count])) 1 items = None"
      by (intro set_entries_short) (simp add: length_words_of)
    then show ?thesis using f by (simp add: sgzip_calculate_index_from_stream_def Let_def)
  qed
qed

section \<open>What is not in the image\<close>

text \<open>C34 (sgzip_read_past_end). A read that starts behind the end of the image but inside its last block should answer no byte. It answers
  as many as were asked for, up to the end of the block of the cache (1024 bytes behind a block of the image), and they are what was in this
  block before at the same place: memory that was never written, or the bytes of whatever block, of this image or of another one, was read before.\<close>

theorem sgzip_read_past_end:
  assumes "image_fits z w xs" and "image_open z w xs fd s index" and "cache_ok w xs g"
    and "int (length xs) < offs" and "nat offs div blocksize w < length (chunks (blocksize w) xs)"
    and "0 < len" and "offs mod int (blocksize w) + len \<le> int (blocksize w) + 1024"
  shows "\<exists>g' fd' ys. sgzip_read_random z heap s index g fd len offs = Some (g', fd', Inr ys) \<and> length ys = nat len \<and>
    ys = take (nat len) (drop (nat offs mod blocksize w) (cached_bytes heap w g))"
proof -
  let ?xss = "chunks (blocksize w) xs"
  note hd = image_headers[OF assms(1,2)]
  have o: "0 < blocksize w" "blocksize w \<le> 1000000" using assms(1) sgzip_okD(1,2) by (simp_all add: image_fits_def)
  define k where "k = nat offs div blocksize w"
  define off where "off = nat offs mod blocksize w"
  have k: "k < length ?xss" using assms(5) by (simp add: k_def)
  have p: "0 \<le> offs" using assms(4) by simp
  then have offs: "offs mod int (blocksize w) = int off" by (simp add: off_def zmod_int)
  obtain g2 cm where start: "sgzip_read_random z heap s index g fd len offs = read_blocks z s index g2 fd len (int k) (int off) []"
    "cache_ok w xs g2" "gl_data g2 = Some (cached_bytes heap w g)" "gl_cdata g2 = Some cm"
    by (rule read_random_start[OF assms(1-3) p less_imp_le[OF assms(5)], folded k_def off_def])
  obtain g3 fd3 d cm3 where l: "load_block z s index g2 fd (int k) = Some (g3, fd3, Inr (int (length (?xss ! k))))"
    "gl_data g3 = Some d" "length d = blocksize w + 1024"
    "drop (length (?xss ! k)) d = drop (length (?xss ! k)) (cached_bytes heap w g)"
    by (rule load_block_ok[OF assms(1,2) start(2-4) k]) blast
  have lk: "length (?xss ! k) < off"
  proof -
    have "nat offs = k * blocksize w + off" by (simp add: k_def off_def)
    moreover have "off < blocksize w" using o(1) by (simp add: off_def)
    moreover have "length xs < nat offs" using assms(4) by simp
    ultimately show ?thesis using length_chunk_nth[OF o(1) k] by linarith
  qed
  have "u64 (int (length (?xss ! k)) - int off) = int (length (?xss ! k)) - int off + 18446744073709551616"
    using lk assms(7) offs assms(6) o(2) by (intro u64_neg) simp_all
  then have u: "min (u64 (int (length (?xss ! k)) - int off)) len = len"
    using lk assms(7) offs o(2) by simp
  have mr: "mem_read d (int off) len = Some (take (nat len) (drop off d))"
    using assms(6,7) offs l(3) by (simp add: mem_read_def)
  have "int k < u32 (max_chunks (sg_header s) - 1)" using hd(3) k by simp
  then have "read_blocks z s index g2 fd len (int k) (int off) [] =
      read_blocks z s index g3 fd3 0 (int k + 1) 0 (take (nat len) (drop off d))"
    using assms(6) l(1,2) u mr by (subst read_blocks.simps) (simp add: Let_def)
  also have "\<dots> = Some (g3, fd3, Inr (take (nat len) (drop off d)))" by (simp add: read_blocks.simps)
  finally have "sgzip_read_random z heap s index g fd len offs = Some (g3, fd3, Inr (take (nat len) (drop off d)))"
    using start(1) by simp
  moreover have "length (take (nat len) (drop off d)) = nat len" using assms(6,7) offs l(3) by simp
  moreover have "drop off d = drop off (cached_bytes heap w g)"
    using arg_cong[OF l(4), of "drop (off - length (?xss ! k))"] lk by simp
  ultimately show ?thesis unfolding off_def by metis
qed

text \<open>The cache does not know whose block it holds: a block of the number that is cached is
  answered from it, whatever file is read.\<close>

theorem sgzip_cache_of_other_file:
  assumes "image_fits z w xs" and "image_open z w xs fd s index"
    and "k < length (chunks (blocksize w) xs)" and "gl_cached_block_offs g = int k"
    and "gl_cached_length g = int n" and "n \<le> blocksize w"
    and "gl_data g = Some d" and "n \<le> length d" and "gl_cdata g = Some c" and "0 \<le> len" and "len \<le> int n"
  shows "sgzip_read_random z heap s index g fd len (int (k * blocksize w)) = Some (g, fd, Inr (take (nat len) d))"
proof -
  let ?N = "length (chunks (blocksize w) xs)"
  note hd = image_headers[OF assms(1,2)]
  have zw: "sgzip_ok w" "?N < 268434944" using assms(1) by (simp_all add: image_fits_def)
  note o = sgzip_okD[OF zw(1)]
  have u: "u64 (s32 (int k)) = int k" "u64 (int n) = int n" using assms(3,6) zw(2) o(2) by (simp_all add: s32_id u64_id)
  have "int (k * blocksize w) div int (blocksize w) = int k" "int (k * blocksize w) mod int (blocksize w) = 0" using o(1) by simp_all
  then have start: "sgzip_read_random z heap s index g fd len (int (k * blocksize w)) =
      read_blocks z s index g fd len (int k) 0 []"
    using hd o(1,5) assms(3,7,9) u(1) unfolding sgzip_read_random_def Let_def hd(1) by simp
  show ?thesis
  proof (cases "len = 0")
    case True
    then show ?thesis using start by (simp add: read_blocks.simps)
  next
    case False
    have b: "int k < u32 (max_chunks (sg_header s) - 1)" using hd(3) assms(3) by simp
    have l: "load_block z s index g fd (int k) = Some (g, fd, Inr (int n))"
      using assms(4,5) u(2) by (simp add: load_block_def)
    have m: "mem_read d 0 len = Some (take (nat len) d)" using assms(8,10,11) by (simp add: mem_read_def)
    have a: "min (u64 (int n - 0)) len = len" using u(2) assms(11) by simp
    have "read_blocks z s index g fd len (int k) 0 [] = read_blocks z s index g fd 0 (int k + 1) 0 (take (nat len) d)"
      using False b l m a assms(7,10) by (subst read_blocks.simps) (simp add: Let_def)
    then show ?thesis using start by (simp add: read_blocks.simps)
  qed
qed

section \<open>Concrete images\<close>

text \<open>A compressor that puts a byte in front.\<close>

definition stored :: zlib where
  "stored = \<lparr>z_compress2 = (\<lambda>n src level. (Z_OK, 120 # src, Suc (length src))),
             z_uncompress = (\<lambda>n src. (Z_OK, tl src, length src - 1))\<rparr>"

lemma zlib_ok_stored: "zlib_ok stored"
  by (simp add: zlib_ok_def stored_def)

definition demo_sgzip :: sgzip_obj where
  "demo_sgzip = \<lparr>sg_header = \<lparr>sh_magic = SGZ, sh_blocksize = 4, sh_x = GZIP\<rparr>, sg_level = 1\<rparr>"

definition demo_image :: "byte list" where
  "demo_image = [1, 2, 3, 4, 5, 6, 7, 8, 9, 10]"

definition open_fd :: "byte list \<Rightarrow> fdesc" where
  "open_fd xs = \<lparr>fd_data = xs, fd_pos = 0, fd_calls = 0, fd_moves = (\<lambda>n. 2147479552)\<rparr>"

text \<open>A pipe that gives three bytes at a time.\<close>

definition demo_pipe :: fdesc where
  "demo_pipe = \<lparr>fd_data = demo_image, fd_pos = 0, fd_calls = 0, fd_moves = (\<lambda>n. 3)\<rparr>"

lemma demo_facts:
  "blocksize demo_sgzip = 4" "chunks 4 demo_image = [[1, 2, 3, 4], [5, 6, 7, 8], [9, 10]]"
  "image_fits stored demo_sgzip demo_image" "moving demo_pipe" "fd_rest demo_pipe = demo_image"
  "full_moves (open_fd xs)" "fd_data (open_fd xs) = xs" "at_end (open_fd [])"
proof -
  show b: "blocksize demo_sgzip = 4" by (simp add: blocksize_def demo_sgzip_def)
  show c: "chunks 4 demo_image = [[1, 2, 3, 4], [5, 6, 7, 8], [9, 10]]" by (simp add: demo_image_def chunks.simps)
  show "image_fits stored demo_sgzip demo_image"
    unfolding image_fits_def b c by (simp add: zlib_ok_stored sgzip_ok_def header_ok_def demo_sgzip_def GZIP_def)
  show "moving demo_pipe" "fd_rest demo_pipe = demo_image" by (simp_all add: moving_def demo_pipe_def fd_rest_def)
  show "full_moves (open_fd xs)" "fd_data (open_fd xs) = xs" "at_end (open_fd [])"
    by (simp_all add: full_moves_def open_fd_def at_end_def)
qed

theorem sgzip_roundtrip_witness:
  "\<exists>infd' sgz. compress_file stored (\<lambda>_. 0) demo_sgzip demo_pipe (open_fd []) = Some (infd', sgz, None) \<and>
    (\<exists>fd' out'. decompress_file stored (\<lambda>_. 0) demo_sgzip (open_fd (fd_data sgz)) (open_fd []) = Some (fd', out', None) \<and>
       fd_data out' = demo_image)"
  using sgzip_roundtrip[OF demo_facts(3,4,5,8,7), of "\<lambda>_. 0"] demo_facts(6-8) by blast

definition demo_file :: "byte list" where
  "demo_file = header_bytes (sg_header demo_sgzip) @ sgz_body (image_blocks stored demo_sgzip demo_image)"

theorem sgzip_index_found_again_witness:
  "\<exists>fd1 fd2 fd3 s index count items.
    sgzip_read_header (\<lambda>_. 0) (open_fd demo_file) = (fd1, Inr (sg_header demo_sgzip)) \<and>
    sgzip_read_index (\<lambda>_. 0) fd1 \<lparr>sg_header = sg_header demo_sgzip, sg_level = 0\<rparr> = Some (fd2, s, Inr (Some index)) \<and>
    follow_blocks fd1 (s32 (sh_blocksize (sg_header demo_sgzip) + 1024)) [0, 0, 0, 0] 0 [] = Some (fd3, count, items) \<and>
    max_chunks (sg_header s) = count \<and> index = (0 # items)[nat count := 0]"
proof -
  have "fd_data (open_fd demo_file) = header_bytes (sg_header demo_sgzip) @ sgz_body (image_blocks stored demo_sgzip demo_image)"
    by (simp only: demo_facts(7) demo_file_def)
  from sgzip_index_found_again[OF demo_facts(3,6) this] show ?thesis .
qed

text \<open>The file of the image opened.\<close>

definition demo_opened :: sgzip_obj where
  "demo_opened = demo_sgzip\<lparr>sg_header := (sg_header demo_sgzip)\<lparr>sh_x := le_bytes 4 4\<rparr>\<rparr>"

lemma demo_open: "image_open stored demo_sgzip demo_image (open_fd demo_file) demo_opened (index_of (image_blocks stored demo_sgzip demo_image))"
  by (simp add: image_open_def demo_facts demo_file_def demo_opened_def)

theorem sgzip_read_past_end_witness:
  "\<exists>g' fd' ys. sgzip_read_random stored (\<lambda>_. 77) demo_opened (index_of (image_blocks stored demo_sgzip demo_image)) sgz_initial
      (open_fd demo_file) 5 11 = Some (g', fd', Inr ys) \<and> length ys = nat 5 \<and>
    ys = take (nat 5) (drop (nat 11 mod blocksize demo_sgzip) (cached_bytes (\<lambda>_. 77) demo_sgzip sgz_initial))"
  by (rule sgzip_read_past_end[OF demo_facts(3) demo_open])
    (simp_all add: cache_ok_def sgz_initial_def demo_facts(1) demo_image_def chunks.simps)

theorem sgzip_cache_of_other_file_witness:
  "sgzip_read_random stored (\<lambda>_. 0) demo_opened (index_of (image_blocks stored demo_sgzip demo_image))
     \<lparr>gl_data = Some [70, 71, 72, 73], gl_cdata = Some [], gl_cached_block_offs = 1, gl_cached_length = 4\<rparr> (open_fd demo_file) 3 4 =
   Some (\<lparr>gl_data = Some [70, 71, 72, 73], gl_cdata = Some [], gl_cached_block_offs = 1, gl_cached_length = 4\<rparr>,
     open_fd demo_file, Inr [70, 71, 72])"
proof -
  let ?g = "\<lparr>gl_data = Some [70, 71, 72, 73], gl_cdata = Some [], gl_cached_block_offs = 1, gl_cached_length = 4\<rparr>"
  have "sgzip_read_random stored (\<lambda>_. 0) demo_opened (index_of (image_blocks stored demo_sgzip demo_image)) ?g (open_fd demo_file)
      3 (int (1 * blocksize demo_sgzip)) = Some (?g, open_fd demo_file, Inr (take (nat 3) [70, 71, 72, 73]))"
    by (rule sgzip_cache_of_other_file[OF demo_facts(3) demo_open, where n = 4]) (simp_all add: demo_facts(1,2))
  then show ?thesis by (simp add: demo_facts(1))
qed

end
