(* ===== verification/IO_Source.thy ===== *)
theory IO_Source
  imports Sgzip_Correct
begin

text \<open>
  The sources of evidence: the drivers of \<open>src/src/lib/libiosubsys/libiosubsys.c\<close>, which read a file, a file that is split, a
  compressed image and an image of the EWF library at any place, and their Python class of \<open>iosubsys.c\<close>.

  Options are a list of names and values, where a value may be NULL. \<open>files\<close> is what \<open>open\<close> finds under a name, a regular
  file. The EWF library is a parameter. The cache of \<open>sgzlib.c\<close> is shared by all sources, so that it is threaded through.
  \<open>Inl\<close> is an error or an exception; \<open>None\<close> is an access outside of memory.
\<close>

section \<open>Options\<close>

type_synonym options = "(string \<times> string option) list"
type_synonym files = "string \<Rightarrow> fdesc option"

definition IOOptions_add :: "options \<Rightarrow> string \<Rightarrow> string option \<Rightarrow> options" where
  "IOOptions_add opts name v = opts @ [(name, v)]"

text \<open>An option is removed when it is used.\<close>

fun IOOptions_get_value :: "options \<Rightarrow> string \<Rightarrow> options \<times> string option" where
  "IOOptions_get_value [] name = ([], None)"
| "IOOptions_get_value ((n, v) # opts) name =
     (if n = name then (opts, v)
      else let (opts, r) = IOOptions_get_value opts name in ((n, v) # opts, r))"

text \<open>The part before the first \<open>c\<close>, and what is behind it.\<close>

fun split_at :: "char \<Rightarrow> string \<Rightarrow> string \<times> string option" where
  "split_at c [] = ([], None)"
| "split_at c (d # ds) = (if d = c then ([], Some ds) else let (x, y) = split_at c ds in (d # x, y))"

lemma split_at_length: "split_at c s = (x, Some y) \<Longrightarrow> length y < length s"
  by (induction s arbitrary: x) (auto split: if_splits prod.splits)

function parse_options_loop :: "string \<Rightarrow> options \<Rightarrow> options" where
  "parse_options_loop z result =
     (case split_at CHR '','' z of
        (w, y) \<Rightarrow>
          let (name, v) = split_at CHR ''='' w; result = IOOptions_add result name v
          in case y of None \<Rightarrow> result | Some z \<Rightarrow> parse_options_loop z result)"
  by pat_completeness auto
termination
  by (relation "measure (\<lambda>(z, r). length z)") (auto dest: split_at_length[OF sym])

declare parse_options_loop.simps [simp del]

definition iosubsys_parse_options :: "string \<Rightarrow> options" where
  "iosubsys_parse_options s = parse_options_loop s []"

section \<open>Offsets with a suffix\<close>

definition is_space :: "char \<Rightarrow> bool" where
  "is_space c \<longleftrightarrow> c = CHR '' '' \<or> (9 \<le> (of_char c :: nat) \<and> (of_char c :: nat) \<le> 13)"

definition is_digit :: "char \<Rightarrow> bool" where
  "is_digit c \<longleftrightarrow> 48 \<le> (of_char c :: nat) \<and> (of_char c :: nat) \<le> 57"

fun digits_val :: "int \<Rightarrow> string \<Rightarrow> int" where
  "digits_val a [] = a"
| "digits_val a (c # s) = (if is_digit c then digits_val (10 * a + (int (of_char c) - 48)) s else a)"

definition atoll :: "string \<Rightarrow> int" where
  "atoll s =
     (let s = dropWhile is_space s;
          v = (case s of [] \<Rightarrow> 0
               | c # t \<Rightarrow> if c = CHR ''-'' then - digits_val 0 t
                         else if c = CHR ''+'' then digits_val 0 t
                         else digits_val 0 s)
      in max (- 9223372036854775808) (min 9223372036854775807 v))"

definition multiplier :: "char \<Rightarrow> int" where
  "multiplier c =
     (if c \<in> {CHR ''K'', CHR ''k''} then 1024
      else if c \<in> {CHR ''M'', CHR ''m''} then 1048576
      else if c \<in> {CHR ''S'', CHR ''s''} then 512 else 1)"

text \<open>The suffix is the first of the letters, wherever it stands, but not at the start.\<close>

definition parse_offsets :: "string \<Rightarrow> int" where
  "parse_offsets s =
     (let result = u64 (atoll s);
          pre = takeWhile (\<lambda>c. c \<notin> set ''KkMmSs'') s;
          m = (if pre = [] \<or> pre = s then 1 else multiplier (s ! length pre))
      in s64 (u64 (m * result)))"

section \<open>Sources\<close>

record io_base =
  io_filename :: string
  io_fd :: fdesc
  io_size :: int

record split_file =
  sf_fd :: fdesc
  sf_start :: int
  sf_end :: int

record adv_source =
  ad_parts :: "split_file list"
  ad_offset :: int
  ad_size :: int

record sgz_source =
  sz_super :: io_base
  sz_handle :: sgzip_obj
  sz_index :: "int list"
  sz_offset :: int

record 'h ewf =
  ewf_open :: "string list \<Rightarrow> 'h option"
  ewf_size :: "'h \<Rightarrow> int"
  ewf_read :: "'h \<Rightarrow> int \<Rightarrow> int \<Rightarrow> byte list \<times> int"

record 'h ewf_source =
  es_handle :: 'h
  es_offset :: int
  es_size :: int

datatype 'h iosource = Standard io_base | Advanced adv_source | Sgzipped sgz_source | Ewf "'h ewf_source"

datatype io_error = EIOError | E_raised sgz_error

definition IOSource_Con :: "files \<Rightarrow> options \<Rightarrow> options \<times> (io_error + io_base)" where
  "IOSource_Con files opts =
     (case IOOptions_get_value opts ''filename'' of
        (opts, None) \<Rightarrow> (opts, Inl EIOError)
      | (opts, Some name) \<Rightarrow>
          (case files name of
             None \<Rightarrow> (opts, Inl EIOError)
           | Some fd \<Rightarrow>
               (let size = length (fd_data fd)
                in (opts, Inr \<lparr>io_filename = name, io_fd = fd\<lparr>fd_pos := size\<rparr>, io_size = int size\<rparr>))))"

text \<open>The bytes that are read go to the start of \<open>buf\<close>; the answer is a number of bytes, or \<open>-1\<close>.\<close>

definition IOSource_read_random :: "io_base \<Rightarrow> byte list \<Rightarrow> int \<Rightarrow> int \<Rightarrow> io_base \<times> byte list \<times> int" where
  "IOSource_read_random self buf len offs =
     (let (fd, _) = lseek_set (io_fd self) offs;
          (fd, xs, r) = read_fd fd (nat len)
      in (self\<lparr>io_fd := fd\<rparr>, over_block xs buf, s32 r))"

text \<open>The options in turn, those of other names left; a negative offset and a file that is not there are errors. A file of no
  bytes is left out.\<close>

fun adv_options :: "files \<Rightarrow> options \<Rightarrow> adv_source \<Rightarrow> (options \<times> (io_error + adv_source)) option" where
  "adv_options files [] this = Some ([], Inr this)"
| "adv_options files ((n, v) # opts) this =
     (if n = ''offset'' then
        (case v of
           None \<Rightarrow> None
         | Some s \<Rightarrow>
             let this = this\<lparr>ad_offset := parse_offsets s\<rparr>
             in if ad_offset this < 0 then Some (opts, Inl EIOError) else adv_options files opts this)
      else if n = ''filename'' then
        (case Option.bind v files of
           None \<Rightarrow> Some (opts, Inl EIOError)
         | Some fd \<Rightarrow>
             let i = length (fd_data fd); start = ad_size this; last_max_length = u64 (start + int i)
             in if i = 0 then adv_options files opts this
                else adv_options files opts
                  (this\<lparr>ad_parts := ad_parts this @ [\<lparr>sf_fd = fd\<lparr>fd_pos := i\<rparr>, sf_start = start, sf_end = last_max_length\<rparr>],
                        ad_size := last_max_length\<rparr>))
      else map_option (\<lambda>(opts, r). ((n, v) # opts, r)) (adv_options files opts this))"

definition AdvIOSource_Con :: "files \<Rightarrow> options \<Rightarrow> (options \<times> (io_error + adv_source)) option" where
  "AdvIOSource_Con files opts = do {
     (opts, r) \<leftarrow> adv_options files opts \<lparr>ad_parts = [], ad_offset = 0, ad_size = 0\<rparr>;
     case r of
       Inl e \<Rightarrow> Some (opts, Inl e)
     | Inr this \<Rightarrow> if ad_parts this = [] then Some (opts, Inl EIOError) else Some (opts, Inr this)
   }"

text \<open>What a read of a part answers is not looked at: the number of bytes is the one that should have come.\<close>

fun adv_read :: "split_file list \<Rightarrow> byte list \<Rightarrow> int \<Rightarrow> int \<Rightarrow> int \<Rightarrow> (split_file list \<times> byte list \<times> int) option" where
  "adv_read [] buf len offs copied = Some ([], buf, copied)"
| "adv_read (p # parts) buf len offs copied =
     (if \<not> len > 0 then Some (p # parts, buf, copied)
      else if sf_start p \<le> offs \<and> offs < sf_end p then
        (let available = u64 (sf_end p - offs);
             n = min available len;
             (fd, _) = lseek_set (sf_fd p) (u64 (offs - sf_start p));
             (fd, xs, _) = read_fd fd (nat n)
         in do {
              buf \<leftarrow> mem_write buf copied xs;
              (parts, buf, copied) \<leftarrow> adv_read parts buf (len - n) (u64 (offs + n)) (copied + n);
              Some (p\<lparr>sf_fd := fd\<rparr> # parts, buf, copied)
            })
      else map_option (\<lambda>(parts, r). (p # parts, r)) (adv_read parts buf len offs copied))"

definition AdvIOSource_read_random :: "adv_source \<Rightarrow> byte list \<Rightarrow> int \<Rightarrow> int \<Rightarrow> (adv_source \<times> byte list \<times> int) option" where
  "AdvIOSource_read_random this buf len offs =
     (let offs = u64 (offs + ad_offset this)
      in if offs > ad_size this then Some (this, buf, 0)
         else map_option (\<lambda>(parts, buf, copied). (this\<lparr>ad_parts := parts\<rparr>, buf, s32 copied))
                (adv_read (ad_parts this) buf len offs 0))"

text \<open>The size is a product of 32 bits.\<close>

definition opened_source :: "io_base \<Rightarrow> int \<Rightarrow> fdesc \<Rightarrow> sgzip_obj \<Rightarrow> int list \<Rightarrow> sgz_source" where
  "opened_source self offset fd s index =
     \<lparr>sz_super = self\<lparr>io_fd := fd, io_size := u32 (max_chunks (sg_header s) * sh_blocksize (sg_header s))\<rparr>,
      sz_handle = s, sz_index = index, sz_offset = offset\<rparr>"

text \<open>An index that is not there is found again from the file.\<close>

definition SgzipIOSource_Con :: "(nat \<Rightarrow> byte) \<Rightarrow> files \<Rightarrow> options \<Rightarrow> (options \<times> (io_error + sgz_source)) option" where
  "SgzipIOSource_Con heap files opts =
     (case IOSource_Con files opts of
        (opts, Inl e) \<Rightarrow> Some (opts, Inl e)
      | (opts, Inr self) \<Rightarrow>
          (case IOOptions_get_value opts ''offset'' of
             (opts, v) \<Rightarrow>
               let offset = (case v of None \<Rightarrow> 0 | Some s \<Rightarrow> parse_offsets s)
               in if offset < 0 then Some (opts, Inl EIOError)
                  else (case sgzip_read_header heap (io_fd self) of
                          (fd, Inl e) \<Rightarrow> Some (opts, Inl (E_raised e))
                        | (fd, Inr h) \<Rightarrow> do {
                            (fd, s, r) \<leftarrow> sgzip_read_index heap fd \<lparr>sg_header = h, sg_level = 0\<rparr>;
                            case r of
                              Inl e \<Rightarrow> Some (opts, Inl (E_raised e))
                            | Inr (Some index) \<Rightarrow> Some (opts, Inr (opened_source self offset fd s index))
                            | Inr None \<Rightarrow>
                                (case sgzip_read_header heap fd of
                                   (fd, Inl e) \<Rightarrow> Some (opts, Inl (E_raised e))
                                 | (fd, Inr h) \<Rightarrow> do {
                                     let s = s\<lparr>sg_header := h\<rparr>;
                                     (fd, r) \<leftarrow> sgzip_calculate_index_from_stream heap fd s;
                                     case r of
                                       Inl e \<Rightarrow> Some (opts, Inl (E_raised e))
                                     | Inr index \<Rightarrow> Some (opts, Inr (opened_source self offset fd s index))
                                   })
                          })))"

definition SgzipIOSource_read_random :: "zlib \<Rightarrow> (nat \<Rightarrow> byte) \<Rightarrow> sgz_globals \<Rightarrow> sgz_source \<Rightarrow> byte list \<Rightarrow> int \<Rightarrow> int \<Rightarrow>
    (sgz_globals \<times> sgz_source \<times> (io_error + byte list \<times> int)) option" where
  "SgzipIOSource_read_random z heap g this buf len offs = do {
     let offs = u64 (offs + sz_offset this);
     (g, fd, r) \<leftarrow> sgzip_read_random z heap (sz_handle this) (sz_index this) g (io_fd (sz_super this)) (s32 len) offs;
     let this = this\<lparr>sz_super := (sz_super this)\<lparr>io_fd := fd\<rparr>\<rparr>;
     case r of
       Inl e \<Rightarrow> Some (g, this, Inl (E_raised e))
     | Inr xs \<Rightarrow> Some (g, this, Inr (over_block xs buf, s32 (int (length xs))))
   }"

fun ewf_options :: "options \<Rightarrow> int \<Rightarrow> string list \<Rightarrow> (options \<times> (io_error + int \<times> string list)) option" where
  "ewf_options [] offset names = Some ([], Inr (offset, names))"
| "ewf_options ((n, v) # opts) offset names =
     (if n = ''offset'' then
        (case v of
           None \<Rightarrow> None
         | Some s \<Rightarrow> if parse_offsets s < 0 then Some (opts, Inl EIOError) else ewf_options opts (parse_offsets s) names)
      else if n = ''filename'' then
        (case v of None \<Rightarrow> None | Some name \<Rightarrow> ewf_options opts offset (names @ [name]))
      else map_option (\<lambda>(opts, r). ((n, v) # opts, r)) (ewf_options opts offset names))"

definition EWFIOSource_Con :: "'h ewf \<Rightarrow> options \<Rightarrow> (options \<times> (io_error + 'h ewf_source)) option" where
  "EWFIOSource_Con lib opts = do {
     (opts, r) \<leftarrow> ewf_options opts 0 [];
     case r of
       Inl e \<Rightarrow> Some (opts, Inl e)
     | Inr (offset, names) \<Rightarrow>
         if names = [] then Some (opts, Inl EIOError)
         else (case ewf_open lib names of
                 None \<Rightarrow> Some (opts, Inl EIOError)
               | Some h \<Rightarrow> Some (opts, Inr \<lparr>es_handle = h, es_offset = offset, es_size = ewf_size lib h\<rparr>))
   }"

definition EWFIOSource_read_random :: "'h ewf \<Rightarrow> 'h ewf_source \<Rightarrow> byte list \<Rightarrow> int \<Rightarrow> int \<Rightarrow> byte list \<times> int" where
  "EWFIOSource_read_random lib this buf len offs =
     (case ewf_read lib (es_handle this) len (u64 (offs + es_offset this)) of (xs, r) \<Rightarrow> (over_block xs buf, s32 r))"

section \<open>The dispatcher and the Python class\<close>

definition lower :: "char \<Rightarrow> char" where
  "lower c = (if 65 \<le> (of_char c :: nat) \<and> (of_char c :: nat) \<le> 90 then char_of (of_char c + 32 :: nat) else c)"

definition strcasecmp :: "string \<Rightarrow> string \<Rightarrow> bool" where
  "strcasecmp s t \<longleftrightarrow> map lower s = map lower t"

definition iosubsys_Open :: "'h ewf \<Rightarrow> (nat \<Rightarrow> byte) \<Rightarrow> files \<Rightarrow> string \<Rightarrow> options \<Rightarrow>
    (options \<times> (io_error + 'h iosource)) option" where
  "iosubsys_Open lib heap files drivername opts =
     (if strcasecmp drivername ''standard'' then
        Some (case IOSource_Con files opts of (opts, r) \<Rightarrow> (opts, map_sum id Standard r))
      else if strcasecmp drivername ''advanced'' then
        map_option (\<lambda>(opts, r). (opts, map_sum id Advanced r)) (AdvIOSource_Con files opts)
      else if strcasecmp drivername ''sgzip'' then
        map_option (\<lambda>(opts, r). (opts, map_sum id Sgzipped r)) (SgzipIOSource_Con heap files opts)
      else if strcasecmp drivername ''ewf'' then
        map_option (\<lambda>(opts, r). (opts, map_sum id Ewf r)) (EWFIOSource_Con lib opts)
      else Some (opts, Inl EIOError))"

definition source_size :: "'h iosource \<Rightarrow> int" where
  "source_size driver =
     (case driver of Standard s \<Rightarrow> io_size s | Advanced s \<Rightarrow> ad_size s | Sgzipped s \<Rightarrow> io_size (sz_super s) | Ewf s \<Rightarrow> es_size s)"

definition read_random :: "zlib \<Rightarrow> 'h ewf \<Rightarrow> (nat \<Rightarrow> byte) \<Rightarrow> sgz_globals \<Rightarrow> 'h iosource \<Rightarrow> byte list \<Rightarrow> int \<Rightarrow> int \<Rightarrow>
    (sgz_globals \<times> 'h iosource \<times> (io_error + byte list \<times> int)) option" where
  "read_random z lib heap g driver buf len offs =
     (case driver of
        Standard s \<Rightarrow> (case IOSource_read_random s buf len offs of (s, r) \<Rightarrow> Some (g, Standard s, Inr r))
      | Advanced s \<Rightarrow> map_option (\<lambda>(s, r). (g, Advanced s, Inr r)) (AdvIOSource_read_random s buf len offs)
      | Sgzipped s \<Rightarrow> map_option (\<lambda>(g, s, r). (g, Sgzipped s, r)) (SgzipIOSource_read_random z heap g s buf len offs)
      | Ewf s \<Rightarrow> Some (g, Ewf s, Inr (EWFIOSource_read_random lib s buf len offs)))"

datatype py_error = PyExc_TypeError | PyExc_IOError | PyExc_RuntimeError | PyExc_MemoryError | PyExc_Exception

definition map_exceptions_for_python :: "sgz_error \<Rightarrow> py_error" where
  "map_exceptions_for_python e =
     (case e of E_IOERROR \<Rightarrow> PyExc_IOError | E_NOMEMORY \<Rightarrow> PyExc_MemoryError | E_GENERIC \<Rightarrow> PyExc_Exception)"

text \<open>The options are a list of pairs of strings. Options that no driver used are an error.\<close>

definition iosource_init :: "'h ewf \<Rightarrow> (nat \<Rightarrow> byte) \<Rightarrow> files \<Rightarrow> (string \<times> string) list \<Rightarrow> (py_error + 'h iosource) option" where
  "iosource_init lib heap files opts =
     (let options = fold (\<lambda>(key, v) os. IOOptions_add os key (Some v)) opts []
      in case IOOptions_get_value options ''subsys'' of
           (options, None) \<Rightarrow> Some (Inl PyExc_TypeError)
         | (options, Some drivername) \<Rightarrow> do {
             (options, r) \<leftarrow> iosubsys_Open lib heap files drivername options;
             case r of
               Inl EIOError \<Rightarrow> Some (Inl PyExc_IOError)
             | Inl (E_raised e) \<Rightarrow> Some (Inl (map_exceptions_for_python e))
             | Inr driver \<Rightarrow> if options \<noteq> [] then Some (Inl PyExc_RuntimeError) else Some (Inr driver)
           })"

text \<open>The string that is returned is as long as what was asked for, and shortened if less was read. The answer is compared
  without sign, so that an error does not shorten it.\<close>

definition iosource_read_random :: "zlib \<Rightarrow> 'h ewf \<Rightarrow> (nat \<Rightarrow> byte) \<Rightarrow> sgz_globals \<Rightarrow> 'h iosource \<Rightarrow> int \<Rightarrow> int \<Rightarrow>
    (sgz_globals \<times> 'h iosource \<times> (py_error + byte list)) option" where
  "iosource_read_random z lib heap g driver len offs = do {
     let len = u32 len;
     (g, driver, r) \<leftarrow> read_random z lib heap g driver (map heap [0..<nat len]) len (u64 offs);
     case r of
       Inl e \<Rightarrow> Some (g, driver, Inl PyExc_IOError)
     | Inr (buf, n) \<Rightarrow> Some (g, driver, Inr (if u32 n < len then take (nat (u32 n)) buf else buf))
   }"

end
