(* ===== verification/IO_Source_Correct.thy ===== *)
theory IO_Source_Correct
  imports IO_Source "HOL-Library.Multiset"
begin

text \<open>
  What the sources of evidence promise: each of them represents an image, of which every read gives the part that was asked
  for. The contract is a locale, with the dispatcher of the drivers as its interpretation; its client is the Python class.
\<close>

section \<open>The contract\<close>

text \<open>A read gets the bytes that are there, at the start of the buffer, and the image stays what it is.\<close>

locale image_source =
  fixes rep :: "'s \<Rightarrow> byte list \<Rightarrow> bool"
    and read_at :: "'s \<Rightarrow> byte list \<Rightarrow> int \<Rightarrow> int \<Rightarrow> ('s \<times> ('e + byte list \<times> int)) option"
  assumes read_law: "rep s img \<Longrightarrow> 0 \<le> len \<Longrightarrow> len \<le> 2147479552 \<Longrightarrow> length buf = nat len \<Longrightarrow>
    0 \<le> offs \<Longrightarrow> offs \<le> int (length img) \<Longrightarrow> xs = take (nat len) (drop (nat offs) img) \<Longrightarrow>
    \<exists>s'. read_at s buf len offs = Some (s', Inr (over_block xs buf, int (length xs))) \<and> rep s' img"
begin

text \<open>Reading into a new buffer that is cut to what came.\<close>

definition read_string :: "(nat \<Rightarrow> byte) \<Rightarrow> 's \<Rightarrow> int \<Rightarrow> int \<Rightarrow> ('s \<times> ('e + byte list)) option" where
  "read_string heap s len offs =
     (case read_at s (map heap [0..<nat len]) len offs of
        None \<Rightarrow> None
      | Some (s, Inl e) \<Rightarrow> Some (s, Inl e)
      | Some (s, Inr (buf, n)) \<Rightarrow> Some (s, Inr (if u32 n < len then take (nat (u32 n)) buf else buf)))"

lemma read_string_part:
  assumes "rep s img" and "0 \<le> len" and "len \<le> 2147479552" and "0 \<le> offs" and "offs \<le> int (length img)"
  shows "\<exists>s'. read_string heap s len offs = Some (s', Inr (take (nat len) (drop (nat offs) img))) \<and> rep s' img"
proof -
  let ?xs = "take (nat len) (drop (nat offs) img)" and ?buf = "map heap [0..<nat len]"
  obtain s' where r: "read_at s ?buf len offs = Some (s', Inr (over_block ?xs ?buf, int (length ?xs)))" "rep s' img"
    using read_law[OF assms(1-3), of ?buf offs ?xs] assms(4,5) by auto
  have l: "length ?xs \<le> nat len" by simp
  have u: "u32 (int (length ?xs)) = int (length ?xs)" by (rule u32_id) (use assms(2,3) l in linarith)+
  have "(if u32 (int (length ?xs)) < len then take (nat (u32 (int (length ?xs)))) (over_block ?xs ?buf)
      else over_block ?xs ?buf) = ?xs"
  proof (cases "int (length ?xs) < len")
    case True
    then show ?thesis unfolding u by (simp only: over_block_def nat_int if_True append_eq_conv_conj) simp
  next
    case False
    then have "length ?xs = length ?buf" using l by simp
    then have "drop (length ?xs) ?buf = []" by (simp only: drop_all order.refl)
    then show ?thesis using False unfolding u over_block_def by simp
  qed
  then have "read_string heap s len offs = Some (s', Inr ?xs)"
    unfolding read_string_def r(1) option.case prod.case sum.case by (simp only:)
  then show ?thesis using r(2) by blast
qed

fun read_strings :: "(nat \<Rightarrow> byte) \<Rightarrow> 's \<Rightarrow> (int \<times> int) list \<Rightarrow> byte list list option" where
  "read_strings heap s [] = Some []"
| "read_strings heap s ((len, offs) # reqs) =
     (case read_string heap s len offs of
        Some (s, Inr xs) \<Rightarrow> map_option (Cons xs) (read_strings heap s reqs)
      | _ \<Rightarrow> None)"

lemma read_strings_parts:
  assumes "rep s img" and "\<forall>(len, offs)\<in>set reqs. 0 \<le> len \<and> len \<le> 2147479552 \<and> 0 \<le> offs \<and> offs \<le> int (length img)"
  shows "read_strings heap s reqs = Some (map (\<lambda>(len, offs). take (nat len) (drop (nat offs) img)) reqs)"
  using assms
proof (induction reqs arbitrary: s)
  case (Cons r reqs)
  obtain len offs where r: "r = (len, offs)" by (cases r)
  from read_string_part[OF Cons.prems(1), of len offs heap] Cons.prems(2) r obtain s' where
    s': "read_string heap s len offs = Some (s', Inr (take (nat len) (drop (nat offs) img)))" "rep s' img" by auto
  from Cons.IH[OF s'(2)] Cons.prems(2) have
    "read_strings heap s' reqs = Some (map (\<lambda>(len, offs). take (nat len) (drop (nat offs) img)) reqs)" by simp
  then show ?case using s'(1) r by simp
qed simp

end

section \<open>Split images\<close>

fun parts_ok :: "int \<Rightarrow> split_file list \<Rightarrow> bool" where
  "parts_ok a [] \<longleftrightarrow> True"
| "parts_ok a (p # parts) \<longleftrightarrow>
     full_moves (sf_fd p) \<and> sf_start p = a \<and> sf_end p = a + int (length (fd_data (sf_fd p))) \<and>
     parts_ok (a + int (length (fd_data (sf_fd p)))) parts"

definition parts_data :: "split_file list \<Rightarrow> byte list" where
  "parts_data parts = concat (map (\<lambda>p. fd_data (sf_fd p)) parts)"

lemma parts_data_simps [simp]: "parts_data [] = []" "parts_data (p # parts) = fd_data (sf_fd p) @ parts_data parts"
  by (simp_all add: parts_data_def)

lemma adv_read_ok:
  assumes "parts_ok a parts" and "0 \<le> a" and "a \<le> offs \<or> len = 0" and "offs \<le> a + int (length (parts_data parts)) \<or> len = 0"
    and "a + int (length (parts_data parts)) < 4611686018427387904" and "0 \<le> len" and "len \<le> 2147479552" and "0 \<le> offs"
    and "0 \<le> n" and "n + len \<le> int (length buf)"
    and "xs = take (nat len) (drop (nat (offs - a)) (parts_data parts))"
  shows "\<exists>parts'. adv_read parts buf len offs n =
      Some (parts', take (nat n) buf @ xs @ drop (nat n + length xs) buf, n + int (length xs)) \<and>
    parts_ok a parts' \<and> parts_data parts' = parts_data parts"
  using assms
proof (induction parts arbitrary: a buf len offs n xs)
  case Nil
  then show ?case by simp
next
  case (Cons p parts)
  let ?d = "fd_data (sf_fd p)"
  have p: "full_moves (sf_fd p)" "sf_start p = a" "sf_end p = a + int (length ?d)" "parts_ok (sf_end p) parts"
    using Cons.prems(1) by simp_all
  show ?case
  proof (cases "len = 0")
    case True
    then show ?thesis using Cons.prems(1,11) by simp
  next
    case False
    then have len: "0 < len" and offs: "a \<le> offs" "offs \<le> a + int (length (parts_data (p # parts)))"
      using Cons.prems(3,4,6) by simp_all
    show ?thesis
    proof (cases "offs < sf_end p")
      case False
      have r: "adv_read (p # parts) buf len offs n = map_option (\<lambda>(parts, r). (p # parts, r)) (adv_read parts buf len offs n)"
        using False len by simp
      have "nat (offs - a) = length ?d + nat (offs - sf_end p)" using False p(3) offs(1) by simp
      then have xs: "xs = take (nat len) (drop (nat (offs - sf_end p)) (parts_data parts))" using Cons.prems(11) by simp
      have "\<exists>parts'. adv_read parts buf len offs n =
          Some (parts', take (nat n) buf @ xs @ drop (nat n + length xs) buf, n + int (length xs)) \<and>
        parts_ok (sf_end p) parts' \<and> parts_data parts' = parts_data parts"
        by (rule Cons.IH[OF p(4) _ _ _ _ _ _ _ _ _ xs]) (use Cons.prems(2-10) p(3) False offs in simp_all)
      then show ?thesis using r p by auto
    next
      case True
      define k where "k = min (sf_end p - offs) len"
      have k: "0 < k" "k \<le> len" "offs + k \<le> sf_end p" using True len by (simp_all add: k_def)
      have bound: "sf_end p < 4611686018427387904" using Cons.prems(5) p(3) by simp
      have u: "u64 (sf_end p - offs) = sf_end p - offs" "u64 (offs + k) = offs + k"
        using True bound Cons.prems(8) k by (simp_all add: u64_id)
      let ?fd = "sf_fd p\<lparr>fd_pos := nat (offs - a)\<rparr>"
      have ls: "lseek_set (sf_fd p) (u64 (offs - a)) = (?fd, True)"
        using offs(1) True bound Cons.prems(2) by (intro lseek_ok) simp_all
      have ri: "int (nat k) \<le> 2147479552" using k Cons.prems(7) by simp
      have fm: "full_moves ?fd" using p(1) by simp
      define ys where "ys = take (nat k) (fd_rest ?fd)"
      obtain fd' where f0: "read_fd ?fd (nat k) = (fd', ys, int (length ys))"
        "full_moves fd'" "fd_data fd' = fd_data ?fd" unfolding ys_def using read_fd_full[OF fm ri] by blast
      have f: "read_fd ?fd (nat k) = (fd', ys, int (length ys))" "full_moves fd'" "fd_data fd' = ?d" using f0 by simp_all
      have rest: "fd_rest ?fd = drop (nat (offs - a)) ?d" by (rule fd_rest_pos)
      have ly: "int (length ys) = k" using k p(3) offs(1) by (simp add: rest ys_def)
      have nk: "n + k \<le> int (length buf)" using k(2) Cons.prems(10) by simp
      have mw: "mem_write buf n ys = Some (take (nat n) buf @ ys @ drop (nat n + length ys) buf)"
        using Cons.prems(9) nk ly by (simp add: mem_write_def)
      define buf' where "buf' = take (nat n) buf @ ys @ drop (nat n + length ys) buf"
      have lb: "length buf' = length buf" unfolding buf'_def using Cons.prems(9) nk ly by simp
      let ?p = "p\<lparr>sf_fd := fd'\<rparr>"
      define zs where "zs = take (nat (len - k)) (drop (nat (offs + k - sf_end p)) (parts_data parts))"
      have "\<exists>parts'. adv_read parts buf' (len - k) (offs + k) (n + k) =
          Some (parts', take (nat (n + k)) buf' @ zs @ drop (nat (n + k) + length zs) buf', n + k + int (length zs)) \<and>
        parts_ok (sf_end p) parts' \<and> parts_data parts' = parts_data parts"
      proof (rule Cons.IH[OF p(4) _ _ _ _ _ _ _ _ _ zs_def])
        show "sf_end p \<le> offs + k \<or> len - k = 0" using k_def by linarith
        show "offs + k \<le> sf_end p + int (length (parts_data parts)) \<or> len - k = 0" using k(3) by linarith
        show "n + k + (len - k) \<le> int (length buf')" unfolding lb using Cons.prems(10) by simp
      qed (use Cons.prems(2,5-9) p(3) k in simp_all)
      then obtain parts' where i: "adv_read parts buf' (len - k) (offs + k) (n + k) =
          Some (parts', take (nat (n + k)) buf' @ zs @ drop (nat (n + k) + length zs) buf', n + k + int (length zs))"
        "parts_ok (sf_end p) parts'" "parts_data parts' = parts_data parts" by blast
      have r: "adv_read (p # parts) buf len offs n =
          Some (?p # parts', take (nat (n + k)) buf' @ zs @ drop (nat (n + k) + length zs) buf', n + k + int (length zs))"
      proof -
        have c: "sf_start p \<le> offs \<and> offs < sf_end p" using offs(1) True p(2) by simp
        have m: "min (u64 (sf_end p - offs)) len = k" unfolding u(1) k_def ..
        show ?thesis
          using len c by (simp only: adv_read.simps if_True if_False not_True_eq_False Let_def m p(2) ls prod.case f(1) mw u(2) i(1)
            bind.bind_lunit flip: buf'_def) simp
      qed
      have xs: "xs = ys @ zs"
      proof -
        have o: "nat (offs - a) \<le> length ?d" using True p(3) offs(1) by simp
        have "xs = take (nat len) (drop (nat (offs - a)) ?d @ parts_data parts)" using Cons.prems(11) o by simp
        also have "\<dots> = take (nat len) (fd_rest ?fd) @ take (nat len - length (fd_rest ?fd)) (parts_data parts)"
          by (simp add: rest)
        also have "\<dots> = ys @ zs"
        proof (cases "len \<le> sf_end p - offs")
          case True
          then have "k = len" by (simp add: k_def)
          moreover have "nat len - length (fd_rest ?fd) = 0" using True p(3) offs(1) by (simp add: rest)
          ultimately show ?thesis by (simp only: ys_def zs_def take_0 diff_self nat_0)
        next
          case False
          then have kk: "k = sf_end p - offs" by (simp add: k_def)
          have l: "int (length (fd_rest ?fd)) = k" using True p(3) offs(1) kk by (simp add: rest)
          have "nat len - length (fd_rest ?fd) = nat (len - k)" using l k by linarith
          moreover have "nat (offs + k - sf_end p) = 0" using kk by simp
          moreover have "take (nat len) (fd_rest ?fd) = fd_rest ?fd" "ys = fd_rest ?fd" using l k by (simp_all add: ys_def)
          ultimately show ?thesis by (simp only: zs_def drop_0)
        qed
        finally show ?thesis .
      qed
      have t: "take (nat (n + k)) buf' = take (nat n) buf @ ys" "drop (nat (n + k) + length zs) buf' = drop (nat n + length xs) buf"
      proof -
        define A where "A = take (nat n) buf @ ys"
        define R where "R = drop (nat n + length ys) buf"
        have nn: "nat (n + k) = length A" unfolding A_def using Cons.prems(9) nk ly k by simp
        have buf: "buf' = A @ R" by (simp add: buf'_def A_def R_def)
        have "take (length A) (A @ R) = A" by simp
        then show "take (nat (n + k)) buf' = take (nat n) buf @ ys" unfolding nn buf by (simp only: A_def)
        have "drop (length A + length zs) (A @ R) = drop (length zs) R" by simp
        also have "\<dots> = drop (length zs + (nat n + length ys)) buf" unfolding R_def by (rule drop_drop)
        also have "length zs + (nat n + length ys) = nat n + length xs" unfolding xs by (simp only: length_append ac_simps)
        finally show "drop (nat (n + k) + length zs) buf' = drop (nat n + length xs) buf" unfolding nn buf .
      qed
      have "n + k + int (length zs) = n + int (length xs)" using xs ly by simp
      then have "adv_read (p # parts) buf len offs n =
          Some (?p # parts', take (nat n) buf @ xs @ drop (nat n + length xs) buf, n + int (length xs))"
        unfolding r t by (simp only: xs append_assoc)
      moreover have "parts_ok a (?p # parts')" using p f(2,3) i(2) by simp
      moreover have "parts_data (?p # parts') = parts_data (p # parts)" using i(3) f(3) by simp
      ultimately show ?thesis by blast
    qed
  qed
qed

section \<open>Every driver represents an image\<close>

text \<open>What a driver needs of the EWF library: an image that its reads are parts of.\<close>

definition ewf_image :: "'h ewf \<Rightarrow> 'h \<Rightarrow> byte list \<Rightarrow> bool" where
  "ewf_image lib h ys \<longleftrightarrow>
     (\<forall>len offs. 0 \<le> len \<and> 0 \<le> offs \<and> offs \<le> int (length ys) \<longrightarrow>
        ewf_read lib h len offs = (take (nat len) (drop (nat offs) ys), int (length (take (nat len) (drop (nat offs) ys)))))"

text \<open>The image that a driver has below its offset.\<close>

definition whole_image :: "zlib \<Rightarrow> 'h ewf \<Rightarrow> sgz_globals \<Rightarrow> 'h iosource \<Rightarrow> byte list \<Rightarrow> bool" where
  "whole_image z lib g driver ys \<longleftrightarrow>
     (case driver of
        Standard s \<Rightarrow> full_moves (io_fd s) \<and> fd_data (io_fd s) = ys
      | Advanced s \<Rightarrow> parts_ok 0 (ad_parts s) \<and> parts_data (ad_parts s) = ys \<and> ad_size s = int (length ys)
      | Sgzipped s \<Rightarrow> (\<exists>w. image_fits z w ys \<and> image_open z w ys (io_fd (sz_super s)) (sz_handle s) (sz_index s) \<and> cache_ok w ys g)
      | Ewf s \<Rightarrow> ewf_image lib (es_handle s) ys)"

definition source_offset :: "'h iosource \<Rightarrow> int" where
  "source_offset driver =
     (case driver of Standard s \<Rightarrow> 0 | Advanced s \<Rightarrow> ad_offset s | Sgzipped s \<Rightarrow> sz_offset s | Ewf s \<Rightarrow> es_offset s)"

definition represents :: "zlib \<Rightarrow> 'h ewf \<Rightarrow> sgz_globals \<times> 'h iosource \<Rightarrow> byte list \<Rightarrow> bool" where
  "represents z lib s img \<longleftrightarrow>
     (\<exists>ys. whole_image z lib (fst s) (snd s) ys \<and> int (length ys) < 4611686018427387904 \<and>
       0 \<le> source_offset (snd s) \<and> source_offset (snd s) \<le> int (length ys) \<and>
       img = drop (nat (source_offset (snd s))) ys)"

definition read_source :: "zlib \<Rightarrow> 'h ewf \<Rightarrow> (nat \<Rightarrow> byte) \<Rightarrow> sgz_globals \<times> 'h iosource \<Rightarrow> byte list \<Rightarrow> int \<Rightarrow> int \<Rightarrow>
    ((sgz_globals \<times> 'h iosource) \<times> (io_error + byte list \<times> int)) option" where
  "read_source z lib heap s buf len offs =
     map_option (\<lambda>(g, driver, r). ((g, driver), r)) (read_random z lib heap (fst s) (snd s) buf len offs)"

text \<open>Behind the offset, a driver reads the whole image.\<close>

lemma standard_read:
  assumes "full_moves (io_fd s)" and "int (length (fd_data (io_fd s))) < 4611686018427387904"
    and "0 \<le> len" and "len \<le> 2147479552" and "0 \<le> p" and "p \<le> int (length (fd_data (io_fd s)))"
    and "xs = take (nat len) (drop (nat p) (fd_data (io_fd s)))"
  shows "\<exists>s'. IOSource_read_random s buf len p = (s', over_block xs buf, int (length xs)) \<and>
    full_moves (io_fd s') \<and> fd_data (io_fd s') = fd_data (io_fd s)"
proof -
  let ?fd = "io_fd s\<lparr>fd_pos := nat p\<rparr>"
  have "u64 p = p" using assms(2,5,6) by (simp add: u64_id)
  then have ls: "lseek_set (io_fd s) p = (?fd, True)" using lseek_ok[of p "io_fd s"] assms(2,5,6) by simp
  have r: "fd_rest ?fd = drop (nat p) (fd_data (io_fd s))" by (rule fd_rest_pos)
  have fm: "full_moves ?fd" using assms(1) by simp
  have n: "int (nat len) \<le> 2147479552" using assms(4) by simp
  obtain fd' where f: "read_fd ?fd (nat len) = (fd', xs, int (length xs))" "full_moves fd'" "fd_data fd' = fd_data ?fd"
    using read_fd_full[OF fm n] unfolding r assms(7) by blast
  have "length xs \<le> nat len" by (simp add: assms(7))
  then have "s32 (int (length xs)) = int (length xs)" using assms(3,4) by (intro s32_id) linarith+
  then have "IOSource_read_random s buf len p = (s\<lparr>io_fd := fd'\<rparr>, over_block xs buf, int (length xs))"
    using ls f(1) by (simp add: IOSource_read_random_def)
  then show ?thesis using f(2,3) by simp
qed

lemma advanced_read:
  assumes "parts_ok 0 (ad_parts s)" and "ad_size s = int (length (parts_data (ad_parts s)))"
    and "ad_size s < 4611686018427387904" and "0 \<le> len" and "len \<le> 2147479552" and "length buf = nat len"
    and "u64 (offs + ad_offset s) = p" and "0 \<le> p" and "p \<le> ad_size s"
    and "xs = take (nat len) (drop (nat p) (parts_data (ad_parts s)))"
  shows "\<exists>parts. AdvIOSource_read_random s buf len offs = Some (s\<lparr>ad_parts := parts\<rparr>, over_block xs buf, int (length xs)) \<and>
    parts_ok 0 parts \<and> parts_data parts = parts_data (ad_parts s)"
proof -
  have "xs = take (nat len) (drop (nat (p - 0)) (parts_data (ad_parts s)))" using assms(10) by simp
  from adv_read_ok[OF assms(1) _ _ _ _ assms(4,5,8) _ _ this, of 0 buf] assms(2-4,6,8,9)
  obtain parts where a: "adv_read (ad_parts s) buf len p 0 =
      Some (parts, take (nat 0) buf @ xs @ drop (nat 0 + length xs) buf, 0 + int (length xs))"
    "parts_ok 0 parts" "parts_data parts = parts_data (ad_parts s)" by auto
  have "length xs \<le> nat len" by (simp add: assms(10))
  then have "s32 (int (length xs)) = int (length xs)" using assms(4,5) by (intro s32_id) linarith+
  then have "AdvIOSource_read_random s buf len offs = Some (s\<lparr>ad_parts := parts\<rparr>, over_block xs buf, int (length xs))"
    using a(1) assms(7,9) by (simp add: AdvIOSource_read_random_def Let_def over_block_def)
  then show ?thesis using a(2,3) by blast
qed

lemma sgzip_read:
  assumes "image_fits z w ys" and "image_open z w ys (io_fd (sz_super s)) (sz_handle s) (sz_index s)" and "cache_ok w ys g"
    and "0 \<le> len" and "len \<le> 2147479552" and "u64 (offs + sz_offset s) = p" and "0 \<le> p" and "p \<le> int (length ys)"
    and "xs = take (nat len) (drop (nat p) ys)"
  shows "\<exists>g' fd'. SgzipIOSource_read_random z heap g s buf len offs =
      Some (g', s\<lparr>sz_super := (sz_super s)\<lparr>io_fd := fd'\<rparr>\<rparr>, Inr (over_block xs buf, int (length xs))) \<and>
    image_open z w ys fd' (sz_handle s) (sz_index s) \<and> cache_ok w ys g'"
proof -
  have "s32 len = len" using assms(4,5) by (simp add: s32_id)
  moreover have "length xs \<le> nat len" by (simp add: assms(9))
  then have "s32 (int (length xs)) = int (length xs)" using assms(4,5) by (intro s32_id) linarith+
  ultimately show ?thesis
    using sgzip_read_random_ok[OF assms(1-4,7,8), of heap] assms(6,9) by (auto simp: SgzipIOSource_read_random_def Let_def)
qed

interpretation evidence: image_source "represents z lib" "read_source z lib heap"
  for z :: zlib and lib :: "'h ewf" and heap
proof
  fix s :: "sgz_globals \<times> 'h iosource" and img buf xs :: "byte list" and len offs :: int
  assume r: "represents z lib s img" and len: "0 \<le> len" "len \<le> 2147479552" and buf: "length buf = nat len"
    and offs: "0 \<le> offs" "offs \<le> int (length img)" and xs: "xs = take (nat len) (drop (nat offs) img)"
  obtain g driver where s: "s = (g, driver)" by (cases s)
  obtain ys where w: "whole_image z lib g driver ys" and ys: "int (length ys) < 4611686018427387904"
    "0 \<le> source_offset driver" "source_offset driver \<le> int (length ys)" "img = drop (nat (source_offset driver)) ys"
    using r unfolding represents_def s by auto
  define p where "p = offs + source_offset driver"
  have p: "0 \<le> p" "p \<le> int (length ys)" "u64 (offs + source_offset driver) = p" "nat p = nat offs + nat (source_offset driver)"
    using offs ys unfolding p_def by (simp_all add: u64_id nat_add_distrib)
  have xp: "xs = take (nat len) (drop (nat p) ys)" unfolding xs p(4) ys(4) by simp
  have rep: "represents z lib (g', driver') img" if "whole_image z lib g' driver' ys" "source_offset driver' = source_offset driver"
    for g' driver' using that ys unfolding represents_def by auto
  have "\<exists>g' driver'. read_random z lib heap g driver buf len offs = Some (g', driver', Inr (over_block xs buf, int (length xs))) \<and>
      whole_image z lib g' driver' ys \<and> source_offset driver' = source_offset driver"
  proof (cases driver)
    case (Standard d)
    have d: "full_moves (io_fd d)" "fd_data (io_fd d) = ys" using w by (simp_all add: whole_image_def Standard)
    have "p = offs" by (simp add: p_def source_offset_def Standard)
    then show ?thesis
      using standard_read[OF d(1) _ len, of offs xs buf] ys(1) d(2) p(1,2) xp
      by (auto simp: read_random_def whole_image_def source_offset_def Standard)
  next
    case (Advanced d)
    have d: "parts_ok 0 (ad_parts d)" "parts_data (ad_parts d) = ys" "ad_size d = int (length ys)"
      using w by (simp_all add: whole_image_def Advanced)
    have "u64 (offs + ad_offset d) = p" using p(3) by (simp add: source_offset_def Advanced)
    from advanced_read[OF d(1) _ _ len buf this p(1), of xs] d(2,3) ys(1) p(2) xp
    show ?thesis by (auto simp: read_random_def whole_image_def source_offset_def Advanced)
  next
    case (Sgzipped d)
    obtain v where d: "image_fits z v ys" "image_open z v ys (io_fd (sz_super d)) (sz_handle d) (sz_index d)" "cache_ok v ys g"
      using w by (auto simp: whole_image_def Sgzipped)
    have "u64 (offs + sz_offset d) = p" using p(3) by (simp add: source_offset_def Sgzipped)
    from sgzip_read[OF d len this p(1,2) xp, of heap buf] d(1)
    show ?thesis by (auto simp: read_random_def whole_image_def source_offset_def Sgzipped)
  next
    case (Ewf d)
    have d: "ewf_image lib (es_handle d) ys" using w by (simp add: whole_image_def Ewf)
    have "u64 (offs + es_offset d) = p" using p(3) by (simp add: source_offset_def Ewf)
    moreover have "ewf_read lib (es_handle d) len p = (xs, int (length xs))"
      using d len(1) p(1,2) unfolding ewf_image_def xp by blast
    moreover have "length xs \<le> nat len" by (simp add: xp)
    then have "s32 (int (length xs)) = int (length xs)" using len by (intro s32_id) linarith+
    ultimately show ?thesis
      using d by (simp add: read_random_def EWFIOSource_read_random_def whole_image_def source_offset_def Ewf)
  qed
  then obtain g' driver' where f: "read_random z lib heap g driver buf len offs = Some (g', driver', Inr (over_block xs buf, int (length xs)))"
    "whole_image z lib g' driver' ys" "source_offset driver' = source_offset driver" by blast
  show "\<exists>s'. read_source z lib heap s buf len offs = Some (s', Inr (over_block xs buf, int (length xs))) \<and> represents z lib s' img"
    using f(1) rep[OF f(2,3)] by (simp add: read_source_def s)
qed

text \<open>The Python method is the client of the contract.\<close>

lemma iosource_read_random_is:
  assumes "0 \<le> len" and "len < 4294967296" and "0 \<le> offs" and "offs < 18446744073709551616"
  shows "iosource_read_random z lib heap g driver len offs =
    (case evidence.read_string z lib heap heap (g, driver) len offs of
       None \<Rightarrow> None
     | Some ((g, driver), r) \<Rightarrow> Some (g, driver, case r of Inl e \<Rightarrow> Inl PyExc_IOError | Inr xs \<Rightarrow> Inr xs))"
proof -
  have "u32 len = len" "u64 offs = offs" using assms by (simp_all add: u32_id u64_id)
  then show ?thesis
    by (auto simp: iosource_read_random_def evidence.read_string_def read_source_def Let_def
        split: option.splits sum.splits prod.splits)
qed

text \<open>A program of reads.\<close>

fun py_reads :: "zlib \<Rightarrow> 'h ewf \<Rightarrow> (nat \<Rightarrow> byte) \<Rightarrow> sgz_globals \<Rightarrow> 'h iosource \<Rightarrow> (int \<times> int) list \<Rightarrow> byte list list option" where
  "py_reads z lib heap g driver [] = Some []"
| "py_reads z lib heap g driver ((len, offs) # reqs) =
     (case iosource_read_random z lib heap g driver len offs of
        Some (g, driver, Inr xs) \<Rightarrow> map_option (Cons xs) (py_reads z lib heap g driver reqs)
      | _ \<Rightarrow> None)"

lemma py_reads_parts:
  assumes "represents z lib (g, driver) img"
    and "\<forall>(len, offs)\<in>set reqs. 0 \<le> len \<and> len \<le> 2147479552 \<and> 0 \<le> offs \<and> offs \<le> int (length img)"
  shows "py_reads z lib heap g driver reqs = Some (map (\<lambda>(len, offs). take (nat len) (drop (nat offs) img)) reqs)"
  using assms
proof (induction reqs arbitrary: g driver)
  case (Cons r reqs)
  obtain len offs where r: "r = (len, offs)" by (cases r)
  have b: "0 \<le> len" "len \<le> 2147479552" "0 \<le> offs" "offs \<le> int (length img)" using Cons.prems(2) r by auto
  have "length img < 4611686018427387904" using Cons.prems(1) by (auto simp: represents_def)
  then have "iosource_read_random z lib heap g driver len offs =
    (case evidence.read_string z lib heap heap (g, driver) len offs of
       None \<Rightarrow> None
     | Some ((g, driver), r) \<Rightarrow> Some (g, driver, case r of Inl e \<Rightarrow> Inl PyExc_IOError | Inr xs \<Rightarrow> Inr xs))"
    using b by (intro iosource_read_random_is) simp_all
  moreover from evidence.read_string_part[OF Cons.prems(1) b, of heap heap] obtain g' driver' where
    "evidence.read_string z lib heap heap (g, driver) len offs = Some ((g', driver'), Inr (take (nat len) (drop (nat offs) img)))"
    "represents z lib (g', driver') img" by auto
  moreover from Cons.IH[OF this(2)] Cons.prems(2) have
    "py_reads z lib heap g' driver' reqs = Some (map (\<lambda>(len, offs). take (nat len) (drop (nat offs) img)) reqs)" by simp
  ultimately show ?case using r by simp
qed simp

section \<open>Opening\<close>

lemma fold_add: "fold (\<lambda>(key, v) os. IOOptions_add os key (Some v)) opts os = os @ map (\<lambda>(key, v). (key, Some v)) opts"
  by (induction opts arbitrary: os) (auto simp: IOOptions_add_def)

lemma adv_options_files:
  assumes "\<forall>n\<in>set ns. \<exists>fd. files n = Some fd \<and> full_moves fd" and "parts_ok 0 (ad_parts this)"
    and "ad_size this = int (length (parts_data (ad_parts this)))"
    and "int (length (parts_data (ad_parts this) @ concat (map (\<lambda>n. fd_data (the (files n))) ns))) < 4611686018427387904"
  shows "\<exists>this'. adv_options files (map (\<lambda>n. (''filename'', Some n)) ns) this = Some ([], Inr this') \<and>
    parts_ok 0 (ad_parts this') \<and> ad_offset this' = ad_offset this \<and>
    parts_data (ad_parts this') = parts_data (ad_parts this) @ concat (map (\<lambda>n. fd_data (the (files n))) ns) \<and>
    ad_size this' = int (length (parts_data (ad_parts this')))"
  using assms
proof (induction ns arbitrary: this)
  case (Cons n ns)
  obtain fd where fd: "files n = Some fd" "full_moves fd" using Cons.prems(1) by auto
  let ?d = "fd_data fd"
  show ?case
  proof (cases "?d = []")
    case True
    then have "adv_options files (map (\<lambda>n. (''filename'', Some n)) (n # ns)) this =
        adv_options files (map (\<lambda>n. (''filename'', Some n)) ns) this" using fd by simp
    then show ?thesis using Cons.IH[of this] Cons.prems fd True by simp
  next
    case False
    let ?p = "\<lparr>sf_fd = fd\<lparr>fd_pos := length ?d\<rparr>, sf_start = ad_size this, sf_end = ad_size this + int (length ?d)\<rparr>"
    let ?st = "this\<lparr>ad_parts := ad_parts this @ [?p], ad_size := ad_size this + int (length ?d)\<rparr>"
    have u: "u64 (ad_size this + int (length ?d)) = ad_size this + int (length ?d)"
      using Cons.prems(3,4) fd by (intro u64_id) simp_all
    have step: "adv_options files (map (\<lambda>n. (''filename'', Some n)) (n # ns)) this =
        adv_options files (map (\<lambda>n. (''filename'', Some n)) ns) ?st" using fd False u by (simp add: Let_def)
    have snoc: "parts_ok a (ps @ [p]) \<longleftrightarrow> parts_ok a ps \<and> full_moves (sf_fd p) \<and> sf_start p = a + int (length (parts_data ps)) \<and>
        sf_end p = a + int (length (parts_data ps)) + int (length (fd_data (sf_fd p)))" for a ps p
      by (induction ps arbitrary: a) (auto simp: add.assoc)
    have d: "parts_data (ad_parts ?st) = parts_data (ad_parts this) @ ?d" by (simp add: parts_data_def)
    have "parts_ok 0 (ad_parts ?st)" using Cons.prems(2,3) fd(2) by (simp add: snoc)
    moreover have "ad_size ?st = int (length (parts_data (ad_parts ?st)))" using Cons.prems(3) unfolding d by simp
    moreover have "int (length (parts_data (ad_parts ?st) @ concat (map (\<lambda>n. fd_data (the (files n))) ns))) < 4611686018427387904"
      using Cons.prems(4) fd(1) unfolding d by simp
    ultimately obtain this' where "adv_options files (map (\<lambda>n. (''filename'', Some n)) ns) ?st = Some ([], Inr this')"
      "parts_ok 0 (ad_parts this')" "ad_offset this' = ad_offset ?st"
      "parts_data (ad_parts this') = parts_data (ad_parts ?st) @ concat (map (\<lambda>n. fd_data (the (files n))) ns)"
      "ad_size this' = int (length (parts_data (ad_parts this')))"
      using Cons.IH[of ?st] Cons.prems(1) by auto
    then show ?thesis using step fd(1) unfolding d by simp
  qed
qed simp

text \<open>C9 (split_image_reads). The driver for split files, opened from Python with any offset and any list of files, the
  empty ones among them, answers every read with the part of the files behind each other, behind the offset.\<close>

theorem split_image_reads:
  assumes "\<forall>n\<in>set ns. \<exists>fd. files n = Some fd \<and> full_moves fd"
    and "data = concat (map (\<lambda>n. fd_data (the (files n))) ns)" and "data \<noteq> []" and "int (length data) < 4611686018427387904"
    and "0 \<le> parse_offsets off" and "parse_offsets off \<le> int (length data)" and "img = drop (nat (parse_offsets off)) data"
    and "\<forall>(len, offs)\<in>set reqs. 0 \<le> len \<and> len \<le> 2147479552 \<and> 0 \<le> offs \<and> offs \<le> int (length img)"
  shows "\<exists>driver. iosource_init lib heap files ((''subsys'', ''advanced'') # (''offset'', off) # map (\<lambda>n. (''filename'', n)) ns) =
      Some (Inr driver) \<and> source_size driver = int (length data) \<and>
    py_reads z lib heap g driver reqs = Some (map (\<lambda>(len, offs). take (nat len) (drop (nat offs) img)) reqs)"
proof -
  let ?st = "\<lparr>ad_parts = [], ad_offset = parse_offsets off, ad_size = 0\<rparr>"
  obtain this where a: "adv_options files (map (\<lambda>n. (''filename'', Some n)) ns) ?st = Some ([], Inr this)"
    "parts_ok 0 (ad_parts this)" "ad_offset this = parse_offsets off" "parts_data (ad_parts this) = data"
    "ad_size this = int (length data)"
    using adv_options_files[OF assms(1), of ?st] assms(2,4) by auto
  have ne: "ad_parts this \<noteq> []" using a(4) assms(3) by auto
  let ?opts = "(''offset'', Some off) # map (\<lambda>n. (''filename'', Some n)) ns"
  have "adv_options files ?opts \<lparr>ad_parts = [], ad_offset = 0, ad_size = 0\<rparr> = Some ([], Inr this)"
    using a(1) assms(5) by simp
  then have "AdvIOSource_Con files ?opts = Some ([], Inr this)" using ne by (simp add: AdvIOSource_Con_def)
  moreover have "\<not> strcasecmp ''advanced'' ''standard''" "strcasecmp ''advanced'' ''advanced''"
    by (simp_all add: strcasecmp_def lower_def)
  ultimately have "iosubsys_Open lib heap files ''advanced'' ?opts = Some ([], Inr (Advanced this))"
    by (simp add: iosubsys_Open_def)
  moreover have "map (\<lambda>(key, v). (key, Some v)) (map (\<lambda>n. (''filename'', n)) ns) = map (\<lambda>n. (''filename'', Some n)) ns" by simp
  ultimately have i: "iosource_init lib heap files ((''subsys'', ''advanced'') # (''offset'', off) # map (\<lambda>n. (''filename'', n)) ns) =
      Some (Inr (Advanced this))"
    unfolding iosource_init_def fold_add Let_def by (simp add: comp_def)
  have "represents z lib (g, Advanced this) img"
    using a assms(4-7) by (auto simp: represents_def whole_image_def source_offset_def)
  from py_reads_parts[OF this assms(8)] show ?thesis using i a(5) by (auto simp: source_size_def)
qed

text \<open>C4 (sgzip_image_reads). An image that \<open>compress_file\<close> wrote is opened from Python with the driver for compressed images,
  and every read answers the part of the image that was asked for, in any order and across blocks.\<close>

theorem sgzip_image_reads:
  assumes "image_fits z w xs" and "moving infd" and "fd_rest infd = xs" and "at_end outfd" and "fd_data outfd = []"
    and "int (length xs) < 4611686018427387904"
    and "\<forall>(len, offs)\<in>set reqs. 0 \<le> len \<and> len \<le> 2147479552 \<and> 0 \<le> offs \<and> offs \<le> int (length xs)"
  shows "\<exists>infd' sgz. compress_file z heap w infd outfd = Some (infd', sgz, None) \<and>
    (\<forall>files fd. files name = Some fd \<longrightarrow> full_moves fd \<longrightarrow> fd_data fd = fd_data sgz \<longrightarrow>
       (\<exists>driver. iosource_init lib heap files [(''subsys'', ''sgzip''), (''filename'', name)] = Some (Inr driver) \<and>
          py_reads z lib heap sgz_initial driver reqs = Some (map (\<lambda>(len, offs). take (nat len) (drop (nat offs) xs)) reqs)))"
proof -
  obtain infd' sgz where c: "compress_file z heap w infd outfd = Some (infd', sgz, None)"
    "fd_data sgz = header_bytes (sg_header w) @ sgz_body (image_blocks z w xs)"
    using compress_file_ok[of z w infd outfd heap] assms(1-5) by auto
  have "\<exists>driver. iosource_init lib heap files [(''subsys'', ''sgzip''), (''filename'', name)] = Some (Inr driver) \<and>
      py_reads z lib heap sgz_initial driver reqs = Some (map (\<lambda>(len, offs). take (nat len) (drop (nat offs) xs)) reqs)"
    if f: "files name = Some fd" "full_moves fd" "fd_data fd = fd_data sgz" for files fd
  proof -
    let ?base = "\<lparr>io_filename = name, io_fd = fd\<lparr>fd_pos := length (fd_data fd)\<rparr>, io_size = int (length (fd_data fd))\<rparr>"
    have b: "IOSource_Con files [(''filename'', Some name)] = ([], Inr ?base)" using f(1) by (simp add: IOSource_Con_def Let_def)
    have fm: "full_moves (io_fd ?base)" "fd_data (io_fd ?base) = header_bytes (sg_header w) @ sgz_body (image_blocks z w xs)"
      using f(2,3) c(2) by simp_all
    obtain fd1 fd2 s where o: "sgzip_read_header heap (io_fd ?base) = (fd1, Inr (sg_header w))"
      "sgzip_read_index heap fd1 \<lparr>sg_header = sg_header w, sg_level = 0\<rparr> = Some (fd2, s, Inr (Some (index_of (image_blocks z w xs))))"
      "image_open z w xs fd2 s (index_of (image_blocks z w xs))"
      by (rule sgzip_open_ok[OF assms(1) fm])
    let ?src = "opened_source ?base 0 fd2 s (index_of (image_blocks z w xs))"
    have "SgzipIOSource_Con heap files [(''filename'', Some name)] = Some ([], Inr ?src)"
      using b o(1,2) by (simp add: SgzipIOSource_Con_def Let_def)
    moreover have "\<not> strcasecmp ''sgzip'' ''standard''" "\<not> strcasecmp ''sgzip'' ''advanced''" "strcasecmp ''sgzip'' ''sgzip''"
      by (simp_all add: strcasecmp_def lower_def)
    ultimately have "iosource_init lib heap files [(''subsys'', ''sgzip''), (''filename'', name)] = Some (Inr (Sgzipped ?src))"
      unfolding iosource_init_def fold_add Let_def by (simp add: iosubsys_Open_def)
    moreover have "cache_ok w xs sgz_initial" by (simp add: cache_ok_def sgz_initial_def)
    then have "represents z lib (sgz_initial, Sgzipped ?src) xs"
      using o(3) assms(1,6) by (auto simp: represents_def whole_image_def source_offset_def opened_source_def)
    from py_reads_parts[OF this assms(7)]
    have "py_reads z lib heap sgz_initial (Sgzipped ?src) reqs =
        Some (map (\<lambda>(len, offs). take (nat len) (drop (nat offs) xs)) reqs)" .
    ultimately show ?thesis by blast
  qed
  then show ?thesis using c(1) by blast
qed

text \<open>When the system cannot read, the Python method of the standard driver raises nothing and
  returns a string of the length that was asked for, of whatever the memory held.\<close>

theorem iosource_error_leaks:
  assumes "fd_moves (io_fd s) (fd_calls (io_fd s)) < 0" and "0 \<le> len" and "len < 4294967296"
  shows "\<exists>s'. iosource_read_random z lib heap g (Standard s) len offs = Some (g, Standard s', Inr (map heap [0..<nat len]))"
proof -
  obtain fd ok where l: "lseek_set (io_fd s) (u64 offs) = (fd, ok)" by (metis surj_pair)
  then have "fd_moves fd (fd_calls fd) < 0" using assms(1) by (auto simp: lseek_set_def split: if_splits)
  then obtain fd' where "read_fd fd (nat len) = (fd', [], -1)" by (simp add: read_fd_def)
  then have "IOSource_read_random s (map heap [0..<nat len]) len (u64 offs) = (s\<lparr>io_fd := fd'\<rparr>, map heap [0..<nat len], -1)"
    using l by (simp add: IOSource_read_random_def over_block_def s32_id)
  moreover have "u32 len = len" "u32 (-1) = 4294967295" using assms(2,3) by (simp_all add: u32_id u32_def)
  ultimately show ?thesis using assms(3) by (simp add: iosource_read_random_def read_random_def)
qed

section \<open>Options and offsets\<close>

text \<open>An option as it is written, and the options behind each other.\<close>

definition option_text :: "string \<times> string option \<Rightarrow> string" where
  "option_text opt = (case opt of (n, None) \<Rightarrow> n | (n, Some v) \<Rightarrow> n @ CHR ''='' # v)"

fun options_text :: "options \<Rightarrow> string" where
  "options_text [] = []"
| "options_text [opt] = option_text opt"
| "options_text (opt # opts) = option_text opt @ CHR '','' # options_text opts"

lemma split_at_absent: "c \<notin> set s \<Longrightarrow> split_at c s = (s, None)"
  by (induction s) auto

lemma split_at_first: "c \<notin> set s \<Longrightarrow> split_at c (s @ c # t) = (s, Some t)"
  by (induction s) auto

definition option_ok :: "string \<times> string option \<Rightarrow> bool" where
  "option_ok opt \<longleftrightarrow> CHR '','' \<notin> set (option_text opt) \<and> CHR ''='' \<notin> set (fst opt)"

lemma split_option: "option_ok opt \<Longrightarrow> split_at CHR ''='' (option_text opt) = opt"
  by (cases opt; cases "snd opt") (auto simp: option_ok_def option_text_def split_at_absent split_at_first)

lemma parse_options_loop_text:
  "opts \<noteq> [] \<Longrightarrow> \<forall>opt\<in>set opts. option_ok opt \<Longrightarrow> parse_options_loop (options_text opts) result = result @ opts"
proof (induction opts arbitrary: result rule: options_text.induct)
  case (2 opt)
  then have "split_at CHR '','' (option_text opt) = (option_text opt, None)" by (simp add: split_at_absent option_ok_def)
  then show ?case using 2 split_option[of opt]
    by (subst parse_options_loop.simps) (cases opt; simp add: IOOptions_add_def)
next
  case (3 opt opt' opts)
  then have "split_at CHR '','' (options_text (opt # opt' # opts)) = (option_text opt, Some (options_text (opt' # opts)))"
    by (simp add: split_at_first option_ok_def)
  then have "parse_options_loop (options_text (opt # opt' # opts)) result =
      parse_options_loop (options_text (opt' # opts)) (result @ [opt])"
    using 3 split_option[of opt] by (subst parse_options_loop.simps) (cases opt; simp add: IOOptions_add_def)
  then show ?case using 3 by simp
qed simp

text \<open>C37 (parse_options_roundtrip). A text of options, with and without values, is parsed into these options in their order;
  values may have equality signs.\<close>

theorem parse_options_roundtrip:
  "opts \<noteq> [] \<Longrightarrow> \<forall>opt\<in>set opts. option_ok opt \<Longrightarrow> iosubsys_parse_options (options_text opts) = opts"
  unfolding iosubsys_parse_options_def by (simp add: parse_options_loop_text)

lemma digits_val_append: "\<forall>c\<in>set ds. is_digit c \<Longrightarrow> digits_val a (ds @ s) = digits_val (digits_val a ds) s"
  by (induction ds arbitrary: a) auto

lemma digit_facts:
  assumes "is_digit c"
  shows "\<not> is_space c" "c \<noteq> CHR ''-''" "c \<noteq> CHR ''+''" "c \<notin> set ''KkMmSs''"
  using assms by (auto simp: is_digit_def is_space_def)

lemma digits_val_nonneg: "0 \<le> a \<Longrightarrow> 0 \<le> digits_val a ds"
  by (induction ds arbitrary: a) (auto simp: is_digit_def)

text \<open>Decimal digits with one of the letters k, m and s behind them, small or not, are a
  multiple of 1024, of its square or of 512, whatever follows, as long as the number fits.\<close>

theorem parse_offsets_suffix:
  assumes "ds \<noteq> []" and "\<forall>d\<in>set ds. is_digit d" and "c \<in> set ''KkMmSs''" and "multiplier c * digits_val 0 ds < 9223372036854775808"
  shows "parse_offsets (ds @ c # rest) = multiplier c * digits_val 0 ds"
proof -
  let ?v = "digits_val 0 ds"
  have m: "1 \<le> multiplier c" by (simp add: multiplier_def)
  have v: "0 \<le> ?v" by (rule digits_val_nonneg) simp
  have "1 * ?v \<le> multiplier c * ?v" using m v by (rule mult_right_mono)
  then have bound: "?v < 9223372036854775808" using assms(4) by simp
  obtain d es where ds: "ds = d # es" using assms(1) by (cases ds) auto
  note d = digit_facts[of d]
  have "\<not> is_digit c" using assms(3) by (auto simp: is_digit_def)
  then have "digits_val 0 (ds @ c # rest) = ?v" using digits_val_append[OF assms(2)] by simp
  then have a: "atoll (ds @ c # rest) = ?v" using d assms(2) bound v ds by (simp add: atoll_def Let_def)
  have "\<forall>d\<in>set ds. d \<notin> set ''KkMmSs''" using assms(2) digit_facts(4) by blast
  then have pre: "takeWhile (\<lambda>c. c \<notin> set ''KkMmSs'') (ds @ c # rest) = ds" using assms(3) by (simp add: takeWhile_append)
  have p: "0 \<le> multiplier c * ?v" using v m by simp
  have "s64 (multiplier c * ?v) = multiplier c * ?v" by (rule s64_id) (use p assms(4) in linarith)+
  moreover have "u64 ?v = ?v" "u64 (multiplier c * ?v) = multiplier c * ?v"
    by (rule u64_id; use p v bound assms(4) in linarith)+
  ultimately show ?thesis using a pre assms(1) unfolding parse_offsets_def Let_def by simp
qed












section \<open>Concrete sources\<close>

definition demo_ewf :: "unit ewf" where
  "demo_ewf = \<lparr>ewf_open = (\<lambda>_. None), ewf_size = (\<lambda>_. 0), ewf_read = (\<lambda>_ _ _. ([], 0))\<rparr>"

definition demo_files :: files where
  "demo_files n =
     (if n = ''a'' then Some (open_fd [1, 2, 3]) else if n = ''b'' then Some (open_fd [])
      else if n = ''c'' then Some (open_fd [4, 5]) else None)"

lemma demo_offset: "parse_offsets ''1'' = 1"
  by (simp add: parse_offsets_def atoll_def is_space_def is_digit_def u64_id s64_id)

theorem split_image_reads_witness:
  "\<exists>driver. iosource_init demo_ewf (\<lambda>_. 0) demo_files
      [(''subsys'', ''advanced''), (''offset'', ''1''), (''filename'', ''a''), (''filename'', ''b''), (''filename'', ''c'')] =
      Some (Inr driver) \<and> source_size driver = 5 \<and>
    py_reads stored demo_ewf (\<lambda>_. 0) sgz_initial driver [(3, 0), (9, 2), (1, 4)] = Some [[2, 3, 4], [4, 5], []]"
proof -
  let ?img = "drop (nat (parse_offsets ''1'')) [1, 2, 3, 4, 5] :: byte list"
  have "\<exists>driver. iosource_init demo_ewf (\<lambda>_. 0) demo_files
      ((''subsys'', ''advanced'') # (''offset'', ''1'') # map (\<lambda>n. (''filename'', n)) [''a'', ''b'', ''c'']) = Some (Inr driver) \<and>
    source_size driver = int (length [1, 2, 3, 4, 5 :: byte]) \<and>
    py_reads stored demo_ewf (\<lambda>_. 0) sgz_initial driver [(3, 0), (9, 2), (1, 4)] =
      Some (map (\<lambda>(len, offs). take (nat len) (drop (nat offs) ?img)) [(3, 0), (9, 2), (1, 4)])"
    by (rule split_image_reads) (simp_all add: demo_files_def demo_facts demo_offset)
  then show ?thesis by (simp add: demo_offset)
qed

theorem sgzip_image_reads_witness:
  "\<exists>infd' sgz. compress_file stored (\<lambda>_. 0) demo_sgzip demo_pipe (open_fd []) = Some (infd', sgz, None) \<and>
    (\<exists>driver. iosource_init demo_ewf (\<lambda>_. 0) (\<lambda>n. Some (open_fd (fd_data sgz))) [(''subsys'', ''sgzip''), (''filename'', ''x'')] =
        Some (Inr driver) \<and>
      py_reads stored demo_ewf (\<lambda>_. 0) sgz_initial driver [(3, 0), (5, 2), (4, 8), (1, 10)] =
        Some [[1, 2, 3], [3, 4, 5, 6, 7], [9, 10], []])"
proof -
  let ?reqs = "[(3, 0), (5, 2), (4, 8), (1, 10)] :: (int \<times> int) list"
  have l: "int (length demo_image) < 4611686018427387904" and
    r: "\<forall>(len, offs)\<in>set ?reqs. 0 \<le> len \<and> len \<le> 2147479552 \<and> 0 \<le> offs \<and> offs \<le> int (length demo_image)"
    by (simp_all add: demo_image_def)
  have "map (\<lambda>(len, offs). take (nat len) (drop (nat offs) demo_image)) ?reqs = [[1, 2, 3], [3, 4, 5, 6, 7], [9, 10], []]"
    by (simp add: demo_image_def)
  then show ?thesis
    using sgzip_image_reads[OF demo_facts(3,4,5,8,7) l r, of "\<lambda>_. 0" "''x''" demo_ewf] demo_facts(6,7) by fastforce
qed

theorem iosource_error_leaks_witness:
  "\<exists>s'. iosource_read_random stored demo_ewf (\<lambda>_. 65) sgz_initial
      (Standard \<lparr>io_filename = ''x'', io_fd = (open_fd [1, 2, 3])\<lparr>fd_moves := \<lambda>_. -1\<rparr>, io_size = 3\<rparr>) 4 0 =
    Some (sgz_initial, Standard s', Inr [65, 65, 65, 65])"
proof -
  have "\<exists>s'. iosource_read_random stored demo_ewf (\<lambda>_. 65) sgz_initial
      (Standard \<lparr>io_filename = ''x'', io_fd = (open_fd [1, 2, 3])\<lparr>fd_moves := \<lambda>_. -1\<rparr>, io_size = 3\<rparr>) 4 0 =
    Some (sgz_initial, Standard s', Inr (map (\<lambda>_. 65) [0..<nat 4]))"
    by (rule iosource_error_leaks) simp_all
  then show ?thesis by (simp add: upt_rec)
qed

theorem parse_options_roundtrip_witness:
  "iosubsys_parse_options ''filename=a=b,raw,offset=1k'' =
     [(''filename'', Some ''a=b''), (''raw'', None), (''offset'', Some ''1k'')]"
  using parse_options_roundtrip[of "[(''filename'', Some ''a=b''), (''raw'', None), (''offset'', Some ''1k'')]"]
  by (simp add: option_text_def option_ok_def)

theorem parse_offsets_suffix_witness: "parse_offsets ''12k'' = 12288"
  using parse_offsets_suffix[of "''12''" "CHR ''k''" "[]"] by (simp add: is_digit_def multiplier_def)


end
