(* ===== verification/Xpress.thy ===== *)
theory Xpress
  imports Prelude
begin

text \<open>
  The decompression of hibernation files: \<open>src/src/lib/pyxpress.c\<close>. The input is a stream of bytes in which a word of 32 bits
  says of each of the 32 items that follow whether it is a byte or a reference to bytes before. The length of
  a reference may go on in half a byte, two references sharing one, and in one or three bytes more.

  The indexes are in the range of an \<open>int\<close>, as the input is shorter than that. Python's strings have a NUL behind their end.
  An answer of the function is \<open>Inl\<close> when it returns from inside of the loop.
\<close>

section \<open>The code\<close>

definition UNCOMPRESSED_BLOCK_SIZE :: nat where "UNCOMPRESSED_BLOCK_SIZE = 65536"

record xpress =
  InputIndex :: nat
  Indicator :: int
  IndicatorBit :: nat
  NibbleIndex :: nat
  OutputIndex :: nat
  OutputBuffer :: "byte list"

definition byte_at :: "byte list \<Rightarrow> nat \<Rightarrow> int option" where
  "byte_at m i = (if i < length m then Some (uint (m ! i)) else None)"

definition short_at :: "byte list \<Rightarrow> nat \<Rightarrow> int option" where
  "short_at m i = do { a \<leftarrow> byte_at m i; b \<leftarrow> byte_at m (i + 1); Some (b * 256 + a) }"

definition long_at :: "byte list \<Rightarrow> nat \<Rightarrow> int option" where
  "long_at m i = do { a \<leftarrow> short_at m i; b \<leftarrow> short_at m (i + 2); Some (b * 65536 + a) }"

text \<open>The next indicator, when the last one is used up.\<close>

definition next_indicator :: "byte list \<Rightarrow> nat \<Rightarrow> xpress \<Rightarrow> (xpress + xpress) option" where
  "next_indicator m InputSize x =
     (if IndicatorBit x = 0
      then if InputIndex x + 3 \<ge> InputSize then Some (Inl x)
           else do {
             w \<leftarrow> long_at m (InputIndex x);
             Some (Inr (x\<lparr>Indicator := w, InputIndex := InputIndex x + 4, IndicatorBit := 31\<rparr>))
           }
      else Some (Inr (x\<lparr>IndicatorBit := IndicatorBit x - 1\<rparr>)))"

definition literal :: "byte list \<Rightarrow> xpress \<Rightarrow> xpress option" where
  "literal m x =
     (if InputIndex x < length m \<and> OutputIndex x < length (OutputBuffer x)
      then Some (x\<lparr>OutputBuffer := (OutputBuffer x)[OutputIndex x := m ! InputIndex x],
                   InputIndex := InputIndex x + 1, OutputIndex := OutputIndex x + 1\<rparr>)
      else None)"

text \<open>The length of a reference behind its first three bits, which are all set.\<close>

definition long_length :: "byte list \<Rightarrow> nat \<Rightarrow> xpress \<Rightarrow> (xpress + xpress \<times> int) option" where
  "long_length m InputSize x =
     (if InputIndex x \<ge> InputSize then Some (Inl x)
      else do {
        n \<leftarrow> byte_at m (InputIndex x);
        let x = x\<lparr>InputIndex := InputIndex x + 1\<rparr>;
        if n = 255
        then if InputIndex x + 2 \<ge> InputSize then Some (Inl x)
             else do {
               n \<leftarrow> short_at m (InputIndex x);
               Some (Inr (x\<lparr>InputIndex := InputIndex x + 2\<rparr>, n - (15 + 7) + 15))
             }
        else Some (Inr (x, n + 15))
      })"

definition nibble_length :: "byte list \<Rightarrow> nat \<Rightarrow> xpress \<Rightarrow> (xpress + xpress \<times> int) option" where
  "nibble_length m InputSize x = do {
     r \<leftarrow> (if NibbleIndex x = 0
          then let x = x\<lparr>NibbleIndex := InputIndex x\<rparr>
               in if InputIndex x \<ge> InputSize then Some (Inl x)
                  else do { n \<leftarrow> byte_at m (InputIndex x); Some (Inr (x\<lparr>InputIndex := InputIndex x + 1\<rparr>, n mod 16)) }
          else do { n \<leftarrow> byte_at m (NibbleIndex x); Some (Inr (x\<lparr>NibbleIndex := 0\<rparr>, n div 16)) });
     case r of
       Inl x \<Rightarrow> Some (Inl x)
     | Inr (x, n) \<Rightarrow> do {
         r \<leftarrow> (if n = 15 then long_length m InputSize x else Some (Inr (x, n)));
         Some (map_sum id (\<lambda>(x, n). (x, n + 7)) r)
       }
   }"

text \<open>The bytes of a reference are copied one by one, as they may overlap.\<close>

fun copy_bytes :: "nat \<Rightarrow> nat \<Rightarrow> byte list \<Rightarrow> nat \<Rightarrow> nat \<Rightarrow> (byte list \<times> nat) option" where
  "copy_bytes 0 Offset buf out OutputSize = Some (buf, out)"
| "copy_bytes (Suc n) Offset buf out OutputSize =
     (if out \<ge> OutputSize \<or> Offset + 1 \<ge> out then Some (buf, out)
      else if out < length buf
      then copy_bytes n Offset (buf[out := buf ! (out - Offset - 1)]) (out + 1) OutputSize
      else None)"

text \<open>A length that is negative would go on for ever.\<close>

definition reference :: "byte list \<Rightarrow> nat \<Rightarrow> nat \<Rightarrow> xpress \<Rightarrow> (xpress + xpress) option" where
  "reference m InputSize OutputSize x =
     (if InputIndex x + 1 \<ge> InputSize then Some (Inl x)
      else do {
        w \<leftarrow> short_at m (InputIndex x);
        let x = x\<lparr>InputIndex := InputIndex x + 2\<rparr>;
        let Offset = w div 8;
        let Length = w mod 8;
        r \<leftarrow> (if Length = 7 then nibble_length m InputSize x else Some (Inr (x, Length)));
        case r of
          Inl x \<Rightarrow> Some (Inl x)
        | Inr (x, Length) \<Rightarrow>
            if Length + 3 < 0 then None
            else do {
              (buf, out) \<leftarrow> copy_bytes (nat (Length + 3)) (nat Offset) (OutputBuffer x) (OutputIndex x) OutputSize;
              Some (Inr (x\<lparr>OutputBuffer := buf, OutputIndex := out\<rparr>))
            }
      })"

definition xpress_step :: "byte list \<Rightarrow> nat \<Rightarrow> nat \<Rightarrow> xpress \<Rightarrow> (xpress + xpress) option" where
  "xpress_step m InputSize OutputSize x = do {
     r \<leftarrow> next_indicator m InputSize x;
     case r of
       Inl x \<Rightarrow> Some (Inl x)
     | Inr x \<Rightarrow>
         if (Indicator x div 2 ^ IndicatorBit x) mod 2 = 0
         then if OutputIndex x \<ge> OutputSize then Some (Inl x) else map_option Inr (literal m x)
         else reference m InputSize OutputSize x
   }"

lemma nibble_length_forward: "nibble_length m s x = Some (Inr (x', n)) \<Longrightarrow> InputIndex x \<le> InputIndex x'"
  by (auto simp: nibble_length_def long_length_def Let_def split: if_splits Option.bind_splits sum.splits)

lemma xpress_step_forward: "xpress_step m s t x = Some (Inr x') \<Longrightarrow> InputIndex x < InputIndex x'"
  by (auto simp: xpress_step_def next_indicator_def literal_def reference_def Let_def
      dest!: nibble_length_forward split: if_splits Option.bind_splits sum.splits)

function xpress_loop :: "byte list \<Rightarrow> nat \<Rightarrow> nat \<Rightarrow> xpress \<Rightarrow> xpress option" where
  "xpress_loop m InputSize OutputSize x =
     (if OutputIndex x < OutputSize \<and> InputIndex x < InputSize
      then (case xpress_step m InputSize OutputSize x of
              None \<Rightarrow> None
            | Some (Inl x') \<Rightarrow> Some x'
            | Some (Inr x') \<Rightarrow> xpress_loop m InputSize OutputSize x')
      else Some x)"
  by pat_completeness auto
termination
  by (relation "measure (\<lambda>(m, s, t, x). s - InputIndex x)") (auto dest: xpress_step_forward)

declare xpress_loop.simps [simp del]

text \<open>The buffer after the call, and the number of bytes in it.\<close>

definition Xpress_Decompress :: "byte list \<Rightarrow> nat \<Rightarrow> byte list \<Rightarrow> nat \<Rightarrow> (byte list \<times> nat) option" where
  "Xpress_Decompress InputBuffer InputSize OutBuffer OutputSize =
     map_option (\<lambda>x. (OutputBuffer x, OutputIndex x))
       (xpress_loop InputBuffer InputSize OutputSize
          \<lparr>InputIndex = 0, Indicator = 0, IndicatorBit = 0, NibbleIndex = 0, OutputIndex = 0, OutputBuffer = OutBuffer\<rparr>)"

definition xpress_decode :: "(nat \<Rightarrow> byte) \<Rightarrow> byte list \<Rightarrow> byte list option" where
  "xpress_decode heap inbuff =
     map_option (\<lambda>(buf, n). take n buf)
       (Xpress_Decompress (inbuff @ [0]) (length inbuff) (map heap [0..<UNCOMPRESSED_BLOCK_SIZE]) UNCOMPRESSED_BLOCK_SIZE)"

section \<open>The format\<close>

text \<open>
  What a stream says, without the buffer and whatever the decoder makes of it: a list of items, and what a list of items stands for. The reference is
  the decoder of Volatility in Python that \<open>pyxpress.c\<close> replaces (\<open>forensics/win32/xpress.py\<close>). The unused half of
  a byte of lengths waits in \<open>nib\<close>. \<open>Last\<close> is a reference whose length is in the two last bytes of the stream, and
  \<open>Missing\<close> a byte that is announced when the stream is over. When the stream is over in the middle of a
  reference, both decoders stop, the one in Python partly with an exception; nothing of it is an item then. The flag \<open>wants\<close> is the difference between them: the C code does not take a length from two bytes
  when no byte is behind them.
\<close>

datatype item = Literal byte | Copy nat nat | Last nat nat | Missing

definition next_bit :: "byte list \<Rightarrow> bool list \<Rightarrow> (byte list \<times> bool \<times> bool list) option" where
  "next_bit r bits =
     (case bits of
        b # bs \<Rightarrow> Some (r, b, bs)
      | [] \<Rightarrow> if length r < 4 then None
              else Some (drop 4 r, odd (le_val (take 4 r) div 2 ^ 31),
                         map (\<lambda>i. odd (le_val (take 4 r) div 2 ^ i)) (rev [0..<31])))"

fun more_length :: "bool \<Rightarrow> byte list \<Rightarrow> (byte list \<times> nat) option" where
  "more_length wants [] = None"
| "more_length wants (n # r) =
     (if n \<noteq> 255 then Some (r, unat n + 25)
      else if length r < (if wants then 3 else 2) then None
      else Some (drop 2 r, nat (le_val (take 2 r)) + 3))"

definition item_length :: "bool \<Rightarrow> byte list \<Rightarrow> nat option \<Rightarrow> nat \<Rightarrow> (byte list \<times> nat option \<times> nat) option" where
  "item_length wants r nib l =
     (if l < 7 then Some (r, nib, l + 3)
      else do {
        (r, nib, n) \<leftarrow> (case nib of
          Some n \<Rightarrow> Some (r, None, n)
        | None \<Rightarrow> (case r of [] \<Rightarrow> None | b # r \<Rightarrow> Some (r, Some (unat b div 16), unat b mod 16)));
        (r, n) \<leftarrow> (if n = 15 then more_length wants r else Some (r, n + 10));
        Some (r, nib, n)
      })"

fun copy_item :: "bool \<Rightarrow> byte list \<Rightarrow> nat option \<Rightarrow> (byte list \<times> nat option \<times> nat \<times> nat) option" where
  "copy_item wants (a # b # r) nib =
     (let w = unat b * 256 + unat a
      in map_option (\<lambda>(r, nib, n). (r, nib, w div 8 + 1, n)) (item_length wants r nib (w mod 8)))"
| "copy_item wants r nib = None"

lemma more_length_shorter: "more_length wants r = Some (r', n) \<Longrightarrow> length r' < length r"
  by (cases r) (auto split: if_splits)

lemma item_length_shorter: "item_length wants r nib l = Some (r', nib', n) \<Longrightarrow> length r' \<le> length r"
  by (auto simp: item_length_def dest!: more_length_shorter split: if_splits Option.bind_splits option.splits list.splits)

lemma copy_item_shorter: "copy_item wants r nib = Some (r', nib', k, n) \<Longrightarrow> length r' < length r"
  by (cases "(wants, r, nib)" rule: copy_item.cases) (auto simp: Let_def dest!: item_length_shorter)

text \<open>What the decoder in C takes is taken by the reference, and what it refuses leaves nothing behind.\<close>

lemma more_length_wants:
  "more_length True r = Some z \<Longrightarrow> more_length False r = Some z"
  "more_length True r = None \<Longrightarrow> more_length False r = Some (r', n) \<Longrightarrow> r' = []"
  by (cases r; auto split: if_splits)+

lemma item_length_wants:
  "item_length True r nib l = Some z \<Longrightarrow> item_length False r nib l = Some z"
  "item_length True r nib l = None \<Longrightarrow> item_length False r nib l = Some (r', nib', n) \<Longrightarrow> r' = []"
  by (auto simp: item_length_def more_length_wants(1) dest: more_length_wants(2)
      split: if_splits Option.bind_splits option.splits list.splits)

lemma copy_item_wants:
  "copy_item True r nib = Some z \<Longrightarrow> copy_item False r nib = Some z"
  "copy_item True r nib = None \<Longrightarrow> copy_item False r nib = Some (r', nib', k, n) \<Longrightarrow> r' = []"
  by (cases "(True, r, nib)" rule: copy_item.cases; auto simp: Let_def item_length_wants(1) dest: item_length_wants(2))+

lemma next_bit_shorter: "next_bit r bits = Some (r', b, bs) \<Longrightarrow> length r' \<le> length r"
  by (auto simp: next_bit_def split: list.splits if_splits)

lemma next_bit_tl: "next_bit r bits = Some (b # r', c, bs) \<Longrightarrow> length r' < length r"
  using next_bit_shorter [of r bits "b # r'" c bs] by simp

lemma next_bit_copy: "next_bit r bits = Some (r', b, bs) \<Longrightarrow> copy_item wants r' nib = Some (r'', nib', k, n) \<Longrightarrow> length r'' < length r"
  using next_bit_shorter [of r bits r' b bs] copy_item_shorter [of wants r' nib r'' nib' k n] by linarith

function items :: "byte list \<Rightarrow> bool list \<Rightarrow> nat option \<Rightarrow> item list" where
  "items r bits nib =
     (if r = [] then []
      else (case next_bit r bits of
         None \<Rightarrow> []
       | Some (r, b, bs) \<Rightarrow>
           if \<not> b then (case r of [] \<Rightarrow> [Missing] | c # r \<Rightarrow> Literal c # items r bs nib)
           else (case copy_item False r nib of
                   None \<Rightarrow> []
                 | Some (r', nib', k, n) \<Rightarrow>
                     (if copy_item True r nib = None then Last k n else Copy k n) # items r' bs nib')))"
  by pat_completeness auto
termination
  by (relation "measure (\<lambda>(r, bits, nib). length r)") (auto intro: next_bit_tl next_bit_copy)

declare items.simps [simp del]

definition copy_back :: "byte list \<Rightarrow> nat \<Rightarrow> nat \<Rightarrow> byte list" where
  "copy_back out k n = out @ map (\<lambda>i. out ! (length out - k + i mod k)) [0..<n]"

text \<open>A reference may reach back as far as the first byte. One that reaches further, or a byte that is missing, ends the decoding.\<close>

fun expand :: "byte list \<Rightarrow> item list \<Rightarrow> byte list" where
  "expand out [] = out"
| "expand out (Literal b # xs) = expand (out @ [b]) xs"
| "expand out (Copy k n # xs) = (if k \<le> length out then expand (copy_back out k n) xs else out)"
| "expand out (Last k n # xs) = (if k \<le> length out then expand (copy_back out k n) xs else out)"
| "expand out (Missing # xs) = out"


text \<open>What the code makes of other items: it passes over a reference that reaches the first byte or beyond, and over one at the very end, and
  takes the NUL behind the string for a byte that is missing.\<close>

fun code_expand :: "byte list \<Rightarrow> item list \<Rightarrow> byte list" where
  "code_expand out [] = out"
| "code_expand out (Literal b # xs) = code_expand (out @ [b]) xs"
| "code_expand out (Copy k n # xs) = code_expand (if k < length out then copy_back out k n else out) xs"
| "code_expand out (Last k n # xs) = out"
| "code_expand out (Missing # xs) = out @ [0]"

lemma length_copy_back [simp]: "length (copy_back out k n) = length out + n"
  by (simp add: copy_back_def)


lemma code_expand_append: "\<exists>more. code_expand out xs = out @ more"
proof (induction out xs rule: code_expand.induct)
  case (3 out k n xs)
  then obtain more where "code_expand (if k < length out then copy_back out k n else out) xs
      = (if k < length out then copy_back out k n else out) @ more" by blast
  then show ?case by (auto simp: copy_back_def)
qed auto

lemma copy_back_Suc:
  assumes "0 < k" and "k \<le> length out"
  shows "copy_back out k (Suc n) = copy_back (out @ [out ! (length out - k)]) k n"
proof -
  have "out ! (length out - k + Suc i mod k) = (out @ [out ! (length out - k)]) ! (Suc (length out) - k + i mod k)" for i
  proof (cases "Suc (i mod k) = k")
    case True
    then have "Suc i mod k = 0" by (simp add: mod_Suc)
    moreover have "Suc (length out) - k + i mod k = length out" using True assms by linarith
    ultimately show ?thesis by simp
  next
    case False
    then have "Suc i mod k = Suc (i mod k)" by (simp add: mod_Suc)
    moreover have "Suc (i mod k) < k" using False assms(1) by (metis Suc_lessI mod_less_divisor)
    then have "Suc (length out) - k + i mod k = length out - k + Suc (i mod k)"
      and "length out - k + Suc (i mod k) < length out" using assms by linarith+
    ultimately show ?thesis by (simp add: nth_append)
  qed
  then have "map (\<lambda>i. out ! (length out - k + i mod k)) (map Suc [0..<n])
      = map (\<lambda>i. (out @ [out ! (length out - k)]) ! (Suc (length out) - k + i mod k)) [0..<n]"
    by (simp add: comp_def)
  moreover have "[0..<Suc n] = 0 # map Suc [0..<n]" by (simp add: map_Suc_upt upt_conv_Cons)
  ultimately show ?thesis by (simp add: copy_back_def)
qed

lemma copy_bytes_spec:
  assumes "Offset + 1 < out" and "out \<le> length buf"
  shows "\<exists>buf' out'. copy_bytes n Offset buf out (length buf) = Some (buf', out') \<and> length buf' = length buf
    \<and> out' \<le> length buf \<and> take out' buf' = take (length buf) (copy_back (take out buf) (Offset + 1) n)"
  using assms
proof (induction n arbitrary: buf out)
  case 0
  then show ?case by (simp add: copy_back_def)
next
  case (Suc n)
  show ?case
  proof (cases "out = length buf")
    case True
    then show ?thesis by (simp add: copy_back_def)
  next
    case False
    let ?b = "buf ! (out - Offset - 1)"
    have lt: "out < length buf" using False Suc.prems by simp
    have "take (Suc out) (buf[out := ?b]) = take out buf @ [?b]"
      using lt by (simp add: take_Suc_conv_app_nth)
    moreover have "copy_back (take out buf) (Offset + 1) (Suc n) = copy_back (take out buf @ [?b]) (Offset + 1) n"
      using copy_back_Suc [of "Offset + 1" "take out buf" n] Suc.prems by simp
    ultimately show ?thesis
      using Suc.IH [of "Suc out" "buf[out := ?b]"] Suc.prems lt by simp
  qed
qed

section \<open>The code reads the format\<close>

definition rest :: "byte list \<Rightarrow> xpress \<Rightarrow> byte list" where "rest s x = drop (InputIndex x) s"

definition bits :: "xpress \<Rightarrow> bool list" where
  "bits x = map (\<lambda>i. odd (Indicator x div 2 ^ i)) (rev [0..<IndicatorBit x])"

definition half :: "byte list \<Rightarrow> xpress \<Rightarrow> nat option" where
  "half s x = (if NibbleIndex x = 0 then None else Some (unat (s ! NibbleIndex x) div 16))"

definition written :: "xpress \<Rightarrow> byte list" where "written x = take (OutputIndex x) (OutputBuffer x)"

definition xpress_inv :: "byte list \<Rightarrow> xpress \<Rightarrow> bool" where
  "xpress_inv s x \<longleftrightarrow> (NibbleIndex x \<noteq> 0 \<longrightarrow> NibbleIndex x < length s) \<and> OutputIndex x \<le> length (OutputBuffer x)"

lemma drop_2: "Suc i < length s \<Longrightarrow> drop i s = s ! i # s ! Suc i # drop (i + 2) s"
  by (simp add: Cons_nth_drop_Suc)

lemma byte_at_app: "i < length s \<Longrightarrow> byte_at (s @ t) i = Some (uint (s ! i))"
  by (simp add: byte_at_def nth_append)

lemma short_at_app: "Suc i < length s \<Longrightarrow> short_at (s @ t) i = Some (le_val (take 2 (drop i s)))"
  by (simp add: short_at_def byte_at_app drop_2)

lemma long_at_app:
  assumes "i + 3 < length s"
  shows "long_at (s @ t) i = Some (le_val (take 4 (drop i s)))"
proof -
  have "drop i s = s ! i # s ! Suc i # s ! (i + 2) # s ! Suc (i + 2) # drop (i + 4) s"
    using assms drop_2 [of i s] drop_2 [of "i + 2" s] by (simp add: numeral_eq_Suc)
  then have "take 4 (drop i s) = [s ! i, s ! Suc i, s ! (i + 2), s ! Suc (i + 2)]" by (simp add: numeral_eq_Suc)
  moreover have "take 2 (drop i s) = [s ! i, s ! Suc i]" and "take 2 (drop (i + 2) s) = [s ! (i + 2), s ! Suc (i + 2)]"
    using assms by (simp_all add: drop_2)
  ultimately show ?thesis using assms by (simp add: long_at_def short_at_app)
qed

lemma next_indicator_None:
  assumes "next_bit (rest s x) (bits x) = None"
  shows "next_indicator (s @ t) (length s) x = Some (Inl x)"
  using assms by (auto simp: next_indicator_def next_bit_def bits_def rest_def split: list.splits if_splits)

lemma next_indicator_Some:
  assumes "next_bit (rest s x) (bits x) = Some (r, b, bs)"
  shows "\<exists>x'. next_indicator (s @ t) (length s) x = Some (Inr x') \<and> r = rest s x' \<and> bs = bits x'
    \<and> b = odd (Indicator x' div 2 ^ IndicatorBit x') \<and> half s x' = half s x \<and> NibbleIndex x' = NibbleIndex x
    \<and> OutputBuffer x' = OutputBuffer x \<and> OutputIndex x' = OutputIndex x
    \<and> (InputIndex x < length s \<longrightarrow> InputIndex x' \<le> length s)"
proof (cases "IndicatorBit x")
  case 0
  then have "InputIndex x + 3 < length s" using assms by (auto simp: next_bit_def bits_def rest_def split: if_splits)
  then show ?thesis using assms 0
    by (auto simp: next_indicator_def next_bit_def bits_def rest_def half_def long_at_app add.commute split: if_splits)
next
  case (Suc k)
  then show ?thesis using assms by (auto simp: next_indicator_def next_bit_def bits_def rest_def half_def)
qed

lemma long_length_refines:
  assumes "InputIndex x \<le> length s"
  shows "case more_length True (rest s x) of
      None \<Rightarrow> \<exists>x'. long_length (s @ t) (length s) x = Some (Inl x') \<and> written x' = written x
    | Some (r, n) \<Rightarrow> \<exists>i. long_length (s @ t) (length s) x = Some (Inr (x\<lparr>InputIndex := i\<rparr>, int n - 10))
        \<and> r = drop i s \<and> i \<le> length s"
proof (cases "InputIndex x < length s")
  case True
  let ?i = "InputIndex x"
  have drop: "drop ?i s = s ! ?i # drop (Suc ?i) s" using True by (simp add: Cons_nth_drop_Suc)
  have ff: "uint (s ! ?i) = 255 \<longleftrightarrow> s ! ?i = 255" using word_uint_eq_iff [of "s ! ?i" 255] by simp
  show ?thesis using True
    by (auto simp: rest_def drop long_length_def byte_at_app short_at_app Let_def written_def ff le_val_nonneg)
qed (simp add: rest_def long_length_def written_def)

text \<open>The end of a long length, after its first half byte \<open>d\<close>.\<close>

lemma nibble_rest:
  assumes "i \<le> length s"
    and item: "item = (do { (r, n) \<leftarrow> (if d = 15 then more_length True (drop i s) else Some (drop i s, d + 10)); Some (r, h, n) })"
    and code: "code = (do { r \<leftarrow> (if int d = 15 then long_length (s @ t) (length s) (x\<lparr>NibbleIndex := k, InputIndex := i\<rparr>)
                                  else Some (Inr (x\<lparr>NibbleIndex := k, InputIndex := i\<rparr>, int d)));
                            Some (map_sum id (\<lambda>(x, n). (x, n + 7)) r) })"
  shows "item = None \<Longrightarrow> \<exists>x'. code = Some (Inl x') \<and> written x' = written x"
    and "item = Some (r, h', n) \<Longrightarrow> \<exists>j. code = Some (Inr (x\<lparr>NibbleIndex := k, InputIndex := j\<rparr>, int n - 3))
           \<and> r = drop j s \<and> j \<le> length s \<and> h' = h"
proof -
  have "InputIndex (x\<lparr>NibbleIndex := k, InputIndex := i\<rparr>) \<le> length s" using assms by simp
  note long = long_length_refines [OF this, of t]
  show "item = None \<Longrightarrow> \<exists>x'. code = Some (Inl x') \<and> written x' = written x"
    using long unfolding item code by (cases "more_length True (drop i s)") (auto simp: rest_def written_def split: if_splits)
  show "item = Some (r, h', n) \<Longrightarrow> \<exists>j. code = Some (Inr (x\<lparr>NibbleIndex := k, InputIndex := j\<rparr>, int n - 3))
           \<and> r = drop j s \<and> j \<le> length s \<and> h' = h"
    using long assms(1) unfolding item code by (cases "more_length True (drop i s)") (auto simp: rest_def split: if_splits)
qed

lemma nibble_length_refines:
  assumes "0 < InputIndex x" and "InputIndex x \<le> length s" and "xpress_inv s x"
  shows "case item_length True (rest s x) (half s x) 7 of
      None \<Rightarrow> \<exists>x'. nibble_length (s @ t) (length s) x = Some (Inl x') \<and> written x' = written x
    | Some (r, h, n) \<Rightarrow> \<exists>i k. nibble_length (s @ t) (length s) x = Some (Inr (x\<lparr>NibbleIndex := k, InputIndex := i\<rparr>, int n - 3))
        \<and> r = drop i s \<and> i \<le> length s \<and> (k \<noteq> 0 \<longrightarrow> k < length s)
        \<and> h = (if k = 0 then None else Some (unat (s ! k) div 16))"
proof (cases "NibbleIndex x = 0")
  case True
  show ?thesis
  proof (cases "InputIndex x < length s")
    case lt: True
    let ?i = "InputIndex x"
    define h where "h = Some (unat (s ! ?i) div 16)"
    have drop: "drop ?i s = s ! ?i # drop (Suc ?i) s" using lt by (simp add: Cons_nth_drop_Suc)
    have item: "item_length True (rest s x) (half s x) 7 =
        (do { (r, n) \<leftarrow> (if unat (s ! ?i) mod 16 = 15 then more_length True (drop (Suc ?i) s) else Some (drop (Suc ?i) s, unat (s ! ?i) mod 16 + 10)); Some (r, h, n) })"
      using True by (simp add: item_length_def half_def rest_def drop h_def)
    have byte: "uint (s ! ?i) mod 16 = int (unat (s ! ?i) mod 16)" by (simp add: zmod_int)
    have code: "nibble_length (s @ t) (length s) x =
        (do { r \<leftarrow> (if int (unat (s ! ?i) mod 16) = 15 then long_length (s @ t) (length s) (x\<lparr>NibbleIndex := ?i, InputIndex := Suc ?i\<rparr>)
                    else Some (Inr (x\<lparr>NibbleIndex := ?i, InputIndex := Suc ?i\<rparr>, int (unat (s ! ?i) mod 16))));
              Some (map_sum id (\<lambda>(x, n). (x, n + 7)) r) })"
      using True lt unfolding nibble_length_def by (simp add: Let_def byte_at_app byte)
    have "Suc ?i \<le> length s" using lt by simp
    note * = nibble_rest [OF this item code]
    show ?thesis
    proof (cases "item_length True (rest s x) (half s x) 7")
      case None
      then show ?thesis using *(1) by simp
    next
      case (Some z)
      then show ?thesis using *(2) [of "fst z" "fst (snd z)" "snd (snd z)"] lt assms(1)
        by (cases z) (fastforce simp: h_def)
    qed
  qed (auto simp: True rest_def item_length_def half_def nibble_length_def written_def)
next
  case False
  let ?k = "NibbleIndex x"
  have k: "?k < length s" using False assms(3) by (simp add: xpress_inv_def)
  have item: "item_length True (rest s x) (half s x) 7 =
      (do { (r, n) \<leftarrow> (if unat (s ! ?k) div 16 = 15 then more_length True (drop (InputIndex x) s) else Some (drop (InputIndex x) s, unat (s ! ?k) div 16 + 10)); Some (r, None, n) })"
    using False by (simp add: item_length_def half_def rest_def)
  have byte: "uint (s ! ?k) div 16 = int (unat (s ! ?k) div 16)" by (simp add: zdiv_int)
  have code: "nibble_length (s @ t) (length s) x =
      (do { r \<leftarrow> (if int (unat (s ! ?k) div 16) = 15 then long_length (s @ t) (length s) (x\<lparr>NibbleIndex := 0, InputIndex := InputIndex x\<rparr>)
                  else Some (Inr (x\<lparr>NibbleIndex := 0, InputIndex := InputIndex x\<rparr>, int (unat (s ! ?k) div 16))));
            Some (map_sum id (\<lambda>(x, n). (x, n + 7)) r) })"
    using False k unfolding nibble_length_def by (simp add: byte_at_app byte)
  note * = nibble_rest [OF assms(2) item code]
  show ?thesis
  proof (cases "item_length True (rest s x) (half s x) 7")
    case None
    then show ?thesis using *(1) by simp
  next
    case (Some z)
    then show ?thesis using *(2) [of "fst z" "fst (snd z)" "snd (snd z)"] by (cases z) fastforce
  qed
qed

lemma half_update: "half s (x\<lparr>NibbleIndex := k, InputIndex := i\<rparr>) = (if k = 0 then None else Some (unat (s ! k) div 16))"
  by (simp add: half_def)

lemma copy_bytes_refines:
  assumes "out \<le> length buf"
  shows "\<exists>buf' out'. copy_bytes n Offset buf out (length buf) = Some (buf', out') \<and> length buf' = length buf \<and> out' \<le> length buf
    \<and> take out' buf' = take (length buf) (if Offset + 1 < out then copy_back (take out buf) (Offset + 1) n else take out buf)"
proof (cases "Offset + 1 < out")
  case True
  then show ?thesis using copy_bytes_spec [OF True assms] by simp
next
  case False
  then show ?thesis using assms by (cases n) auto
qed

text \<open>The lengths that the code finds are positive.\<close>

lemma item_length_pos: "item_length True r h l = Some (r', h', n) \<Longrightarrow> 3 \<le> n"
  by (cases "(True, r)" rule: more_length.cases)
     (auto simp: item_length_def split: if_splits Option.bind_splits option.splits list.splits elim!: more_length.elims)

lemma reference_refines:
  assumes "InputIndex x \<le> length s" and inv: "xpress_inv s x"
  shows "case copy_item True (rest s x) (half s x) of
      None \<Rightarrow> \<exists>x'. reference (s @ t) (length s) (length (OutputBuffer x)) x = Some (Inl x') \<and> written x' = written x
    | Some (r, h, k, n) \<Rightarrow> \<exists>x'. reference (s @ t) (length s) (length (OutputBuffer x)) x = Some (Inr x')
        \<and> xpress_inv s x' \<and> r = rest s x' \<and> h = half s x' \<and> bits x' = bits x \<and> length (OutputBuffer x') = length (OutputBuffer x)
        \<and> written x' = take (length (OutputBuffer x)) (if k < length (written x) then copy_back (written x) k n else written x)"
proof (cases "InputIndex x + 1 < length s")
  case False
  then have "length (rest s x) < 2" by (simp add: rest_def)
  then have "copy_item True (rest s x) (half s x) = None"
    by (cases "(True, rest s x, half s x)" rule: copy_item.cases) auto
  then show ?thesis using False by (simp add: reference_def)
next
  case True
  let ?i = "InputIndex x"
  define w where "w = unat (s ! Suc ?i) * 256 + unat (s ! ?i)"
  define y where "y = x\<lparr>InputIndex := ?i + 2\<rparr>"
  have rest: "rest s x = s ! ?i # s ! Suc ?i # rest s y" using True by (simp add: rest_def y_def drop_2)
  have w: "short_at (s @ t) ?i = Some (int w)"
    using True by (simp add: short_at_app drop_2 w_def)
  have y: "half s y = half s x" "xpress_inv s y" "0 < InputIndex y" "InputIndex y \<le> length s" "written y = written x"
    "OutputBuffer y = OutputBuffer x" "OutputIndex y = OutputIndex x" "bits y = bits x"
    using inv True by (simp_all add: y_def half_def xpress_inv_def written_def bits_def)
  have copy: "copy_item True (rest s x) (half s x) =
      map_option (\<lambda>(r, nib, n). (r, nib, w div 8 + 1, n)) (item_length True (rest s y) (half s y) (w mod 8))"
    unfolding rest copy_item.simps by (simp add: w_def y Let_def)
  define more where "more = (if int w mod 8 = 7 then nibble_length (s @ t) (length s) y else Some (Inr (y, int w mod 8)))"
  have code: "reference (s @ t) (length s) (length (OutputBuffer x)) x = do {
        r \<leftarrow> more;
        case r of
          Inl x \<Rightarrow> Some (Inl x)
        | Inr (z, Length) \<Rightarrow>
            if Length + 3 < 0 then None
            else do {
              (buf, out) \<leftarrow> copy_bytes (nat (Length + 3)) (nat (int w div 8)) (OutputBuffer z) (OutputIndex z) (length (OutputBuffer x));
              Some (Inr (z\<lparr>OutputBuffer := buf, OutputIndex := out\<rparr>))
            }
      }"
    using True by (simp add: reference_def w Let_def more_def y_def)
  have more: "case item_length True (rest s y) (half s y) (w mod 8) of
      None \<Rightarrow> \<exists>x'. more = Some (Inl x') \<and> written x' = written x
    | Some (r, h, n) \<Rightarrow> \<exists>i k. more = Some (Inr (y\<lparr>NibbleIndex := k, InputIndex := i\<rparr>, int n - 3))
        \<and> r = drop i s \<and> i \<le> length s \<and> (k \<noteq> 0 \<longrightarrow> k < length s)
        \<and> h = (if k = 0 then None else Some (unat (s ! k) div 16))"
  proof (cases "w mod 8 = 7")
    case True
    then have "int w mod 8 = 7" by presburger
    then show ?thesis using nibble_length_refines [OF y(3,4,2), of t] True
      unfolding more_def y(5) by (simp only: if_True refl)
  next
    case False
    then have "int w mod 8 \<noteq> 7" and "w mod 8 < 7" by presburger+
    then have item: "item_length True (rest s y) (half s y) (w mod 8) = Some (rest s y, half s y, w mod 8 + 3)"
      and m: "more = Some (Inr (y\<lparr>NibbleIndex := NibbleIndex y, InputIndex := InputIndex y\<rparr>, int (w mod 8 + 3) - 3))"
      by (simp_all add: item_length_def more_def zmod_int)
    have "rest s y = drop (InputIndex y) s" and "NibbleIndex y \<noteq> 0 \<longrightarrow> NibbleIndex y < length s"
      and "half s y = (if NibbleIndex y = 0 then None else Some (unat (s ! NibbleIndex y) div 16))"
      using y(2) by (simp_all add: rest_def half_def xpress_inv_def)
    then show ?thesis unfolding item option.case prod.case
      by (intro exI [of _ "InputIndex y"] exI [of _ "NibbleIndex y"] conjI m y(4))
  qed
  show ?thesis
  proof (cases "item_length True (rest s y) (half s y) (w mod 8)")
    case None
    then show ?thesis using more unfolding copy code by auto
  next
    case (Some z)
    obtain r h n where z: "z = (r, h, n)" by (cases z)
    obtain i k where m: "more = Some (Inr (y\<lparr>NibbleIndex := k, InputIndex := i\<rparr>, int n - 3))"
      and r: "r = drop i s" "i \<le> length s" "k \<noteq> 0 \<longrightarrow> k < length s" "h = (if k = 0 then None else Some (unat (s ! k) div 16))"
      using more unfolding Some z by auto
    have "OutputIndex x \<le> length (OutputBuffer x)" using inv by (simp add: xpress_inv_def)
    from copy_bytes_refines [OF this, of n "w div 8"] obtain buf' out' where
      c: "copy_bytes n (w div 8) (OutputBuffer x) (OutputIndex x) (length (OutputBuffer x)) = Some (buf', out')"
        "length buf' = length (OutputBuffer x)" "out' \<le> length (OutputBuffer x)"
        "take out' buf' = take (length (OutputBuffer x)) (if w div 8 + 1 < OutputIndex x
           then copy_back (written x) (w div 8 + 1) n else written x)"
      unfolding written_def by blast
    have "3 \<le> n" using Some z item_length_pos by blast
    moreover have "nat (int n - 3 + 3) = n" "nat (int w div 8) = w div 8" by (simp_all add: nat_div_distrib)
    moreover have "length (written x) = OutputIndex x" using inv by (simp add: written_def xpress_inv_def)
    ultimately show ?thesis unfolding copy code m Some z using r c y
      by (auto simp: rest_def half_def xpress_inv_def bits_def written_def)
  qed
qed

lemma bits_written [simp]:
  "rest s (x\<lparr>OutputBuffer := b, InputIndex := i, OutputIndex := j\<rparr>) = drop i s"
  "half s (x\<lparr>OutputBuffer := b, InputIndex := i, OutputIndex := j\<rparr>) = half s x"
  "bits (x\<lparr>OutputBuffer := b, InputIndex := i, OutputIndex := j\<rparr>) = bits x"
  by (simp_all add: rest_def half_def bits_def)

lemma items_drop:
  "r \<noteq> [] \<Longrightarrow> next_bit r bs = None \<Longrightarrow> items r bs h = []"
  "r \<noteq> [] \<Longrightarrow> next_bit r bs = Some (b # r', False, bs') \<Longrightarrow> items r bs h = Literal b # items r' bs' h"
  "r \<noteq> [] \<Longrightarrow> next_bit r bs = Some ([], False, bs') \<Longrightarrow> items r bs h = [Missing]"
  "r \<noteq> [] \<Longrightarrow> next_bit r bs = Some (r', True, bs') \<Longrightarrow> copy_item True r' h = Some (r'', h', k, n) \<Longrightarrow>
     items r bs h = Copy k n # items r'' bs' h'"
  by (subst items.simps; simp add: copy_item_wants(1))+

lemma code_expand_literal:
  assumes "r \<noteq> []" and "next_bit r bs = Some (r', False, bs')"
  shows "code_expand out (items r bs h) = code_expand (out @ [hd (r' @ [0])]) (items (tl r') bs' h)"
proof (cases r')
  case Nil
  then show ?thesis using items_drop(3) [OF assms(1)] assms(2) by (simp add: items.simps)
next
  case (Cons b r'')
  then show ?thesis using items_drop(2) [OF assms(1)] assms(2) by simp
qed

lemma code_expand_refused:
  assumes "r \<noteq> []" and "next_bit r bs = Some (r', True, bs')" and "copy_item True r' h = None"
  shows "code_expand out (items r bs h) = out"
proof (cases "copy_item False r' h")
  case None
  then have "items r bs h = []" using assms by (subst items.simps) simp
  then show ?thesis by simp
next
  case (Some z)
  obtain r'' h' k n where z: "z = (r'', h', k, n)" by (cases z)
  then have "items r bs h = Last k n # items r'' bs' h'" using assms Some by (subst items.simps) simp
  then show ?thesis by simp
qed

lemma take_expand: "length out \<ge> n \<Longrightarrow> take n (code_expand out xs) = take n out"
  using code_expand_append [of out xs] by auto

lemma take_expand_take: "take n (code_expand (take n out) xs) = take n (code_expand out xs)"
proof (cases "length out \<ge> n")
  case True
  then show ?thesis by (simp add: take_expand)
qed simp

lemma xpress_loop_reads:
  assumes "xpress_inv s x"
  shows "\<exists>x'. xpress_loop (s @ [0]) (length s) (length (OutputBuffer x)) x = Some x'
    \<and> written x' = take (length (OutputBuffer x)) (code_expand (written x) (items (rest s x) (bits x) (half s x)))"
  using assms
proof (induction "length s - InputIndex x" arbitrary: x rule: less_induct)
  case less
  let ?n = "length (OutputBuffer x)" and ?xs = "items (rest s x) (bits x) (half s x)"
  have out: "length (written x) = OutputIndex x" "OutputIndex x \<le> ?n"
    using less.prems by (simp_all add: written_def xpress_inv_def)
  show ?case
  proof (cases "OutputIndex x < ?n \<and> InputIndex x < length s")
    case False
    moreover have "take ?n (code_expand (written x) ?xs) = written x"
    proof (cases "OutputIndex x < ?n")
      case True
      then have "rest s x = []" using False by (simp add: rest_def)
      then show ?thesis using out by (simp add: items.simps)
    qed (use out in \<open>simp add: take_expand\<close>)
    ultimately show ?thesis by (subst xpress_loop.simps) auto
  next
    case True
    then have r: "rest s x \<noteq> []" by (simp add: rest_def)
    have loop: "xpress_loop (s @ [0]) (length s) ?n x = (case xpress_step (s @ [0]) (length s) ?n x of
              None \<Rightarrow> None
            | Some (Inl x') \<Rightarrow> Some x'
            | Some (Inr x') \<Rightarrow> xpress_loop (s @ [0]) (length s) ?n x')"
      using True by (subst xpress_loop.simps) simp
    show ?thesis
    proof (cases "next_bit (rest s x) (bits x)")
      case None
      then show ?thesis using out
        by (simp add: loop xpress_step_def next_indicator_None items_drop(1) [OF r])
    next
      case (Some z)
      then obtain r' b bs where z: "next_bit (rest s x) (bits x) = Some (r', b, bs)" by (cases z) auto
      from next_indicator_Some [OF z, of "[0]"] obtain y where y:
        "next_indicator (s @ [0]) (length s) x = Some (Inr y)" "r' = rest s y" "bs = bits y"
        "b = odd (Indicator y div 2 ^ IndicatorBit y)" "half s y = half s x" "NibbleIndex y = NibbleIndex x"
        "OutputBuffer y = OutputBuffer x" "OutputIndex y = OutputIndex x" "InputIndex y \<le> length s" using True by blast
      have inv: "xpress_inv s y" using less.prems y by (simp add: xpress_inv_def)
      have w: "written y = written x" using y by (simp add: written_def)
      have step: "xpress_step (s @ [0]) (length s) ?n x =
          (if b then reference (s @ [0]) (length s) ?n y else map_option Inr (literal (s @ [0]) y))"
        using True y(1,4,8) by (simp add: xpress_step_def odd_iff_mod_2_eq_one)
      show ?thesis
      proof (cases b)
        case False
        define b' where "b' = (s @ [0]) ! InputIndex y"
        define x' where "x' = y\<lparr>OutputBuffer := (OutputBuffer y)[OutputIndex y := b'], InputIndex := InputIndex y + 1, OutputIndex := OutputIndex y + 1\<rparr>"
        have "literal (s @ [0]) y = Some x'"
          using y True by (simp add: literal_def x'_def b'_def)
        then have s': "xpress_step (s @ [0]) (length s) ?n x = Some (Inr x')" using False step by simp
        have b': "b' = hd (rest s y @ [0])"
          using y(9) by (cases "InputIndex y < length s") (simp_all add: b'_def rest_def nth_append hd_drop_conv_nth)
        have "length (OutputBuffer x') = ?n" "written x' = written x @ [b']" "xpress_inv s x'"
          "rest s x' = tl (rest s y)" "bits x' = bs" "half s x' = half s x"
          using True y inv by (auto simp: x'_def written_def xpress_inv_def rest_def bits_def half_def take_Suc_conv_app_nth drop_Suc tl_drop)
        moreover have "code_expand (written x) ?xs = code_expand (written x @ [b']) (items (tl (rest s y)) bs (half s x))"
          using code_expand_literal [OF r] z False y(2) b' by simp
        moreover have "length s - InputIndex x' < length s - InputIndex x"
          using xpress_step_forward [OF s'] True by linarith
        ultimately show ?thesis using less.hyps [of x'] by (simp add: loop s')
      next
        case True
        have ref: "xpress_step (s @ [0]) (length s) ?n x = reference (s @ [0]) (length s) (length (OutputBuffer y)) y"
          using step True y(7) by simp
        note refines = reference_refines [OF y(9) inv, of "[0]", folded ref]
        show ?thesis
        proof (cases "copy_item True (rest s y) (half s y)")
          case None
          then obtain x' where "xpress_step (s @ [0]) (length s) ?n x = Some (Inl x')" "written x' = written x"
            using refines w by auto
          moreover have "code_expand (written x) ?xs = written x" using code_expand_refused [OF r] z True y None by simp
          ultimately show ?thesis using out by (simp add: loop)
        next
          case (Some c)
          obtain r'' h k n where c: "c = (r'', h, k, n)" by (cases c) auto
          obtain x' where s': "xpress_step (s @ [0]) (length s) ?n x = Some (Inr x')" and x':
            "xpress_inv s x'" "r'' = rest s x'" "h = half s x'" "bits x' = bits y" "length (OutputBuffer x') = ?n"
            "written x' = take ?n (if k < length (written x) then copy_back (written x) k n else written x)"
            using refines unfolding Some c w y(7) by auto
          have "?xs = Copy k n # items (rest s x') (bits x') (half s x')"
            using items_drop(4) [OF r] z True y Some c x' by simp
          then have "take ?n (code_expand (written x) ?xs) = take ?n (code_expand (written x') (items (rest s x') (bits x') (half s x')))"
            unfolding x'(6) by (simp only: take_expand_take code_expand.simps)
          moreover have "length s - InputIndex x' < length s - InputIndex x"
            using xpress_step_forward [OF s'] \<open>OutputIndex x < ?n \<and> InputIndex x < length s\<close> by linarith
          ultimately show ?thesis using less.hyps [of x'] x'(1,5) by (simp add: loop s')
        qed
      qed
    qed
  qed
qed

lemma xpress_decode_answer: "xpress_decode heap s = Some (take UNCOMPRESSED_BLOCK_SIZE (code_expand [] (items s [] None)))"
proof -
  define x where "x = \<lparr>InputIndex = 0, Indicator = 0, IndicatorBit = 0, NibbleIndex = 0, OutputIndex = 0,
    OutputBuffer = map heap [0..<UNCOMPRESSED_BLOCK_SIZE]\<rparr>"
  have "xpress_inv s x" "length (OutputBuffer x) = UNCOMPRESSED_BLOCK_SIZE" "written x = []" "rest s x = s" "bits x = []" "half s x = None"
    by (simp_all add: x_def xpress_inv_def written_def rest_def bits_def half_def)
  with xpress_loop_reads [of s x] obtain x' where
    "xpress_loop (s @ [0]) (length s) UNCOMPRESSED_BLOCK_SIZE x = Some x'"
    "written x' = take UNCOMPRESSED_BLOCK_SIZE (code_expand [] (items s [] None))" by auto
  then show ?thesis
    unfolding xpress_decode_def Xpress_Decompress_def x_def [symmetric] by (simp add: written_def)
qed


lemma next_bit_second: "next_bit (le_bytes 4 1073741824 @ r) [] = Some (r, False, True # replicate 30 False)"
proof -
  have "map (\<lambda>i. odd ((1073741824::int) div 2 ^ i)) (rev [0..<31]) = True # replicate 30 False" by code_simp
  then show ?thesis by (simp add: next_bit_def le_val_le_bytes)
qed


lemma copy_item_short:
  assumes "l < 7"
  shows "copy_item wants [word_of_nat l, 0] None = Some ([], None, 1, l + 3)"
proof -
  have "unat (word_of_nat l :: byte) = l" using assms by (simp add: unat_of_nat)
  then show ?thesis using assms by (simp add: item_length_def Let_def)
qed

text \<open>A run at the start of a block is lost: a reference of any short length to the one byte before it,
  right after the first byte, stands for a run of that byte, and the decoder answers the byte alone.\<close>

theorem xpress_decode_first_byte:
  assumes "l < 7" and "s = le_bytes 4 1073741824 @ [b, word_of_nat l, 0]"
  shows "items s [] None = [Literal b, Copy 1 (l + 3)] \<and> expand [] (items s [] None) = replicate (l + 4) b
    \<and> xpress_decode heap s = Some [b]"
proof -
  have ne: "s \<noteq> []" and next': "next_bit s [] = Some ([b, word_of_nat l, 0], False, True # replicate 30 False)"
    using assms(2) next_bit_second by auto
  have next2: "next_bit [word_of_nat l, 0] (True # replicate 30 False) = Some ([word_of_nat l, 0], True, replicate 30 False)"
    by (simp add: next_bit_def)
  have items: "items s [] None = [Literal b, Copy 1 (l + 3)]"
    using items_drop(2) [OF ne next'] items_drop(4) [OF _ next2 copy_item_short [OF assms(1)]] by (simp add: items.simps)
  moreover have "copy_back [b] 1 (l + 3) = replicate (l + 4) b"
    by (simp add: copy_back_def map_replicate_const numeral_eq_Suc)
  moreover have "xpress_decode heap s = Some [b]"
    using xpress_decode_answer items by (simp add: UNCOMPRESSED_BLOCK_SIZE_def)
  ultimately show ?thesis by simp
qed

lemma xpress_decode_first_byte_witness:
  "xpress_decode (\<lambda>_. 0) (le_bytes 4 1073741824 @ [97, word_of_nat 2, 0]) = Some [97]"
  using xpress_decode_first_byte [of 2 "le_bytes 4 1073741824 @ [97, word_of_nat 2, 0]" 97 "\<lambda>_. 0"] by simp

text \<open>A stream that ends behind an indicator that announces a byte gets a byte of zero.\<close>

theorem xpress_decode_missing_byte:
  "items (le_bytes 4 1073741824) [] None = [Missing] \<and> expand [] (items (le_bytes 4 1073741824) [] None) = []
    \<and> xpress_decode heap (le_bytes 4 1073741824) = Some [0]"
proof -
  have "le_bytes 4 1073741824 \<noteq> []" by (simp flip: length_greater_0_conv)
  from items_drop(3) [OF this] have "items (le_bytes 4 1073741824) [] None = [Missing]" using next_bit_second [of "[]"] by simp
  then show ?thesis using xpress_decode_answer by (simp add: UNCOMPRESSED_BLOCK_SIZE_def)
qed


end
