(* ===== verification/MD5.thy ===== *)
theory MD5
  imports Prelude
begin

text \<open>
  The digest of \<open>src/src/lib/md5c.c\<close>, with which the tool for expert witness files checks an image. The type \<open>UINT4\<close>
  of \<open>md5.h\<close> is \<open>unsigned long\<close> on all machines but one: the definitions are over words of any length. A message
  comes in parts; the theorems are about all parts together.
\<close>

unbundle bit_operations_syntax

section \<open>The transformation\<close>

definition md5_F :: "'l::len word \<Rightarrow> 'l word \<Rightarrow> 'l word \<Rightarrow> 'l word" where "md5_F x y z = (x AND y) OR (NOT x AND z)"
definition md5_G :: "'l::len word \<Rightarrow> 'l word \<Rightarrow> 'l word \<Rightarrow> 'l word" where "md5_G x y z = (x AND z) OR (y AND NOT z)"
definition md5_H :: "'l::len word \<Rightarrow> 'l word \<Rightarrow> 'l word \<Rightarrow> 'l word" where "md5_H x y z = x XOR y XOR z"
definition md5_I :: "'l::len word \<Rightarrow> 'l word \<Rightarrow> 'l word \<Rightarrow> 'l word" where "md5_I x y z = y XOR (x OR NOT z)"

definition ROTATE_LEFT :: "'l::len word \<Rightarrow> nat \<Rightarrow> 'l word" where
  "ROTATE_LEFT x n = push_bit n x OR drop_bit (32 - n) x"

type_synonym 'w md5_state = "'w \<times> 'w \<times> 'w \<times> 'w"

text \<open>One call of the macros \<open>FF\<close> to \<open>II\<close>. The next call has the variables in the order \<open>d, a, b, c\<close>.\<close>

fun md5_step :: "('l::len word \<Rightarrow> 'l word \<Rightarrow> 'l word \<Rightarrow> 'l word) \<Rightarrow> 'l word list \<Rightarrow> nat \<times> nat \<times> int \<Rightarrow>
    'l word md5_state \<Rightarrow> 'l word md5_state" where
  "md5_step f x (k, s, ac) (a, b, c, d) = (d, ROTATE_LEFT (a + (f b c d + x ! k + word_of_int ac)) s + b, b, c)"

text \<open>The calls of each round: the index into \<open>x\<close>, the rotation and the constant.\<close>

definition FF_rows :: "(nat \<times> nat \<times> int) list" where
  "FF_rows =
    [(0, 7, 0xD76AA478), (1, 12, 0xE8C7B756), (2, 17, 0x242070DB), (3, 22, 0xC1BDCEEE),
     (4, 7, 0xF57C0FAF), (5, 12, 0x4787C62A), (6, 17, 0xA8304613), (7, 22, 0xFD469501),
     (8, 7, 0x698098D8), (9, 12, 0x8B44F7AF), (10, 17, 0xFFFF5BB1), (11, 22, 0x895CD7BE),
     (12, 7, 0x6B901122), (13, 12, 0xFD987193), (14, 17, 0xA679438E), (15, 22, 0x49B40821)]"

definition GG_rows :: "(nat \<times> nat \<times> int) list" where
  "GG_rows =
    [(1, 5, 0xF61E2562), (6, 9, 0xC040B340), (11, 14, 0x265E5A51), (0, 20, 0xE9B6C7AA),
     (5, 5, 0xD62F105D), (10, 9, 0x2441453), (15, 14, 0xD8A1E681), (4, 20, 0xE7D3FBC8),
     (9, 5, 0x21E1CDE6), (14, 9, 0xC33707D6), (3, 14, 0xF4D50D87), (8, 20, 0x455A14ED),
     (13, 5, 0xA9E3E905), (2, 9, 0xFCEFA3F8), (7, 14, 0x676F02D9), (12, 20, 0x8D2A4C8A)]"

definition HH_rows :: "(nat \<times> nat \<times> int) list" where
  "HH_rows =
    [(5, 4, 0xFFFA3942), (8, 11, 0x8771F681), (11, 16, 0x6D9D6122), (14, 23, 0xFDE5380C),
     (1, 4, 0xA4BEEA44), (4, 11, 0x4BDECFA9), (7, 16, 0xF6BB4B60), (10, 23, 0xBEBFBC70),
     (13, 4, 0x289B7EC6), (0, 11, 0xEAA127FA), (3, 16, 0xD4EF3085), (6, 23, 0x4881D05),
     (9, 4, 0xD9D4D039), (12, 11, 0xE6DB99E5), (15, 16, 0x1FA27CF8), (2, 23, 0xC4AC5665)]"

definition II_rows :: "(nat \<times> nat \<times> int) list" where
  "II_rows =
    [(0, 6, 0xF4292244), (7, 10, 0x432AFF97), (14, 15, 0xAB9423A7), (5, 21, 0xFC93A039),
     (12, 6, 0x655B59C3), (3, 10, 0x8F0CCC92), (10, 15, 0xFFEFF47D), (1, 21, 0x85845DD1),
     (8, 6, 0x6FA87E4F), (15, 10, 0xFE2CE6E0), (6, 15, 0xA3014314), (13, 21, 0x4E0811A1),
     (4, 6, 0xF7537E82), (11, 10, 0xBD3AF235), (2, 15, 0x2AD7D2BB), (9, 21, 0xEB86D391)]"

fun Decode :: "byte list \<Rightarrow> 'l::len word list" where
  "Decode (a # b # c # d # r) =
     (ucast a OR push_bit 8 (ucast b) OR push_bit 16 (ucast c) OR push_bit 24 (ucast d)) # Decode r"
| "Decode r = []"

definition Encode :: "'l::len word list \<Rightarrow> byte list" where
  "Encode ws = concat (map (\<lambda>w. map (\<lambda>k. ucast (drop_bit k w AND 0xFF)) [0, 8, 16, 24]) ws)"

definition MD5Transform :: "'l::len word md5_state \<Rightarrow> byte list \<Rightarrow> 'l word md5_state" where
  "MD5Transform s block =
     (let x = Decode block;
          t = fold (md5_step md5_F x) FF_rows s;
          t = fold (md5_step md5_G x) GG_rows t;
          t = fold (md5_step md5_H x) HH_rows t;
          (a, b, c, d) = fold (md5_step md5_I x) II_rows t
      in case s of (a', b', c', d') \<Rightarrow> (a' + a, b' + b, c' + c, d' + d))"

section \<open>The context\<close>

record 'w md5_ctx =
  md_state :: "'w md5_state"
  md_count0 :: 'w
  md_count1 :: 'w
  md_buffer :: "byte list"

definition md5_start :: "'l::len word md5_state" where
  "md5_start = (0x67452301, 0xEFCDAB89, 0x98BADCFE, 0x10325476)"

text \<open>\<open>heap\<close> is what is in the memory of the context.\<close>

definition MD5_Init :: "(nat \<Rightarrow> byte) \<Rightarrow> 'l::len word md5_ctx" where
  "MD5_Init heap = \<lparr>md_state = md5_start, md_count0 = 0, md_count1 = 0, md_buffer = map heap [0..<64]\<rparr>"

text \<open>The whole blocks in the input from \<open>i\<close> on.\<close>

function md5_blocks :: "byte list \<Rightarrow> int \<Rightarrow> int \<Rightarrow> 'l::len word md5_state \<Rightarrow> ('l word md5_state \<times> int) option" where
  "md5_blocks input inputLen i s =
     (if u32 (i + 63) < inputLen
      then (case mem_read input i 64 of
              None \<Rightarrow> None
            | Some block \<Rightarrow> md5_blocks input inputLen (i + 64) (MD5Transform s block))
      else Some (s, i))"
  by pat_completeness auto
termination
  by (relation "measure (\<lambda>(input, inputLen, i, s). nat (int (length input) - i))")
     (auto simp: mem_read_def split: if_splits)

declare md5_blocks.simps [simp del]

definition MD5_Update :: "'l::len word md5_ctx \<Rightarrow> byte list \<Rightarrow> int \<Rightarrow> 'l word md5_ctx option" where
  "MD5_Update context input inputLen =
     (let index = uint (drop_bit 3 (md_count0 context) AND 0x3F);
          n = push_bit 3 (word_of_int inputLen);
          count0 = md_count0 context + n;
          count1 = (if count0 < n then md_count1 context + 1 else md_count1 context);
          count1 = count1 + drop_bit 29 (word_of_int inputLen);
          partLen = 64 - index
      in do {
           (s, buffer, i, index) \<leftarrow>
             (if inputLen \<ge> partLen
              then do {
                part \<leftarrow> mem_read input 0 partLen;
                buffer \<leftarrow> mem_write (md_buffer context) index part;
                (s, i) \<leftarrow> md5_blocks input inputLen partLen (MD5Transform (md_state context) buffer);
                Some (s, buffer, i, 0)
              }
              else Some (md_state context, md_buffer context, 0, index));
           rest \<leftarrow> mem_read input i (inputLen - i);
           buffer \<leftarrow> mem_write buffer index rest;
           Some \<lparr>md_state = s, md_count0 = count0, md_count1 = count1, md_buffer = buffer\<rparr>
         })"

definition PADDING :: "byte list" where "PADDING = 0x80 # replicate 63 0"

definition MD5_Final :: "'l::len word md5_ctx \<Rightarrow> byte list option" where
  "MD5_Final context =
     (let bits = Encode [md_count0 context, md_count1 context];
          index = uint (drop_bit 3 (md_count0 context) AND 0x3F);
          padLen = (if index < 56 then 56 - index else 120 - index)
      in do {
           context \<leftarrow> MD5_Update context PADDING padLen;
           context \<leftarrow> MD5_Update context bits 8;
           case md_state context of (a, b, c, d) \<Rightarrow> Some (Encode [a, b, c, d])
         })"

text \<open>A message that comes in parts.\<close>

fun md5_update_all :: "'l::len word md5_ctx \<Rightarrow> byte list list \<Rightarrow> 'l word md5_ctx option" where
  "md5_update_all context [] = Some context"
| "md5_update_all context (p # ps) =
     (case MD5_Update context p (int (length p)) of None \<Rightarrow> None | Some context \<Rightarrow> md5_update_all context ps)"

section \<open>What a message is\<close>

text \<open>The state behind the whole blocks of a message, and the bytes that are left.\<close>

fun md5_fold :: "'l::len word md5_state \<Rightarrow> byte list \<Rightarrow> 'l word md5_state" where
  "md5_fold s m = (if length m < 64 then s else md5_fold (MD5Transform s (take 64 m)) (drop 64 m))"

declare md5_fold.simps [simp del]

definition md5_left :: "byte list \<Rightarrow> byte list" where "md5_left m = drop (64 * (length m div 64)) m"

definition md5_whole :: "byte list \<Rightarrow> byte list" where "md5_whole m = take (64 * (length m div 64)) m"

lemma whole_left: "md5_whole m @ md5_left m = m"
  by (simp add: md5_whole_def md5_left_def)

lemma length_left: "length (md5_left m) = length m mod 64"
  by (simp add: md5_left_def minus_mult_div_eq_mod)

lemma length_whole: "length (md5_whole m) = 64 * (length m div 64)"
  by (simp add: md5_whole_def)

lemma md5_fold_append: "length xs = 64 * k \<Longrightarrow> md5_fold s (xs @ ys) = md5_fold (md5_fold s xs) ys"
proof (induction k arbitrary: s xs)
  case 0
  then show ?case by (simp add: md5_fold.simps [of s "[]"])
next
  case (Suc k)
  then have l: "64 \<le> length xs" "length (drop 64 xs) = 64 * k" by simp_all
  have "md5_fold s (xs @ ys) = md5_fold (MD5Transform s (take 64 xs)) (drop 64 xs @ ys)"
    using l by (simp add: md5_fold.simps [of s "xs @ ys"])
  also have "\<dots> = md5_fold (md5_fold (MD5Transform s (take 64 xs)) (drop 64 xs)) ys" using Suc.IH [OF l(2)] .
  also have "md5_fold (MD5Transform s (take 64 xs)) (drop 64 xs) = md5_fold s xs"
    using l by (simp add: md5_fold.simps [of s xs])
  finally show ?case .
qed

lemma md5_fold_whole: "md5_fold s (md5_whole m) = md5_fold s m"
proof -
  have "md5_fold s m = md5_fold (md5_fold s (md5_whole m)) (md5_left m)"
    using md5_fold_append [OF length_whole, of s m "md5_left m"] by (simp add: whole_left)
  also have "\<dots> = md5_fold s (md5_whole m)"
    by (subst md5_fold.simps) (simp add: length_left)
  finally show ?thesis by simp
qed

lemma md5_fold_more: "md5_fold s (m @ xs) = md5_fold (md5_fold s m) (md5_left m @ xs)"
proof -
  have "m @ xs = md5_whole m @ (md5_left m @ xs)" using whole_left [of m] by (metis append.assoc)
  then show ?thesis using md5_fold_append [OF length_whole, of s m "md5_left m @ xs"] by (simp only: md5_fold_whole)
qed

lemma md5_left_append: "length w = 64 * k \<Longrightarrow> md5_left (w @ r) = md5_left r"
proof -
  assume w: "length w = 64 * k"
  have "64 * (length (w @ r) div 64) = length w + 64 * (length r div 64)"
    using div_mult_self4 [of 64 k "length r"] by (simp add: w)
  then show ?thesis by (simp only: md5_left_def drop_append drop_all diff_add_inverse) simp
qed

lemma md5_left_more: "md5_left (m @ xs) = md5_left (md5_left m @ xs)"
proof -
  have "m @ xs = md5_whole m @ (md5_left m @ xs)" using whole_left [of m] by (metis append.assoc)
  then show ?thesis by (metis md5_left_append [OF length_whole])
qed

lemma md5_left_short: "length m < 64 \<Longrightarrow> md5_left m = m"
  by (simp add: md5_left_def)

lemma md5_blocks_fold:
  assumes "0 \<le> i" and "i \<le> int n" and "n \<le> length input" and "n \<le> 4294967232"
  shows "md5_blocks input (int n) i s =
    Some (md5_fold s (drop (nat i) (take n input)), int (n - length (md5_left (drop (nat i) (take n input)))))"
  using assms
proof (induction "n - nat i" arbitrary: i s rule: less_induct)
  case less
  define r where "r = drop (nat i) (take n input)"
  have l: "length r = n - nat i" using less.prems by (simp add: r_def)
  have u: "u32 (i + 63) = i + 63" using less.prems by (intro u32_id) simp_all
  show ?case
  proof (cases "i + 63 < int n")
    case False
    then have "length r < 64" using l less.prems by linarith
    then have "md5_left r = r" "md5_fold s r = s" by (simp_all add: md5_left_short md5_fold.simps [of s])
    then show ?thesis using False u l less.prems unfolding r_def [symmetric] by (simp add: md5_blocks.simps [of _ _ i])
  next
    case True
    then have k: "64 \<le> length r" using l less.prems by linarith
    have "mem_read input i 64 = Some (take 64 (drop (nat i) input))"
      using True less.prems by (simp add: mem_read_def)
    also have "take 64 (drop (nat i) input) = take 64 r" using k l unfolding r_def by (simp add: take_drop min_def)
    finally have step: "md5_blocks input (int n) i s = md5_blocks input (int n) (i + 64) (MD5Transform s (take 64 r))"
      using True u by (simp add: md5_blocks.simps [of _ _ i])
    have d: "drop (nat (i + 64)) (take n input) = drop 64 r"
      using less.prems by (simp add: r_def nat_add_distrib add.commute)
    have "md5_blocks input (int n) (i + 64) (MD5Transform s (take 64 r)) =
      Some (md5_fold (MD5Transform s (take 64 r)) (drop 64 r), int (n - length (md5_left (drop 64 r))))"
      unfolding d [symmetric] using less.prems True by (intro less.hyps) simp_all
    moreover have "md5_fold (MD5Transform s (take 64 r)) (drop 64 r) = md5_fold s r"
      using k by (simp add: md5_fold.simps [of s r])
    moreover have "md5_left (drop 64 r) = md5_left r"
      using md5_left_more [of "take 64 r" "drop 64 r"] k by (simp add: md5_left_def min_def)
    ultimately show ?thesis unfolding step r_def [symmetric] by (simp only:)
  qed
qed

definition md5_holds :: "'l::len word md5_ctx \<Rightarrow> byte list \<Rightarrow> bool" where
  "md5_holds c m \<longleftrightarrow> md_state c = md5_fold md5_start m \<and> md_count0 c = of_nat (8 * length m) \<and>
     length (md_buffer c) = 64 \<and> take (length m mod 64) (md_buffer c) = md5_left m"

lemma md5_holds_Init: "md5_holds (MD5_Init heap) []"
  by (simp add: md5_holds_def MD5_Init_def md5_left_def md5_fold.simps [of _ "[]"])

lemma md5_index:
  assumes "9 \<le> LENGTH('l::len)"
  shows "uint (drop_bit 3 (of_nat (8 * n) :: 'l word) AND 0x3F) = int (n mod 64)"
proof -
  have m: "(0x3F :: 'l word) = mask 6" by (simp add: mask_eq_exp_minus_1)
  have "uint (drop_bit 3 (of_nat k :: 'l word) AND mask 6) = take_bit 6 (drop_bit 3 (int k))" for k
  proof -
    have "uint (drop_bit 3 (of_nat k :: 'l word) AND mask 6) = take_bit 6 (drop_bit 3 (take_bit LENGTH('l) (int k)))"
      unfolding take_bit_eq_mask [symmetric] by (simp add: unsigned_take_bit_eq unsigned_drop_bit_eq unsigned_of_nat of_nat_take_bit)
    then show ?thesis using assms by (simp add: take_bit_drop_bit min_def)
  qed
  from this [of "8 * n"] show ?thesis unfolding m by (simp add: take_bit_eq_mod drop_bit_eq_div zmod_int)
qed

lemma md5_count: "of_nat (8 * a) + push_bit 3 (word_of_int (int n) :: 'l::len word) = of_nat (8 * (a + n))"
  by (simp add: push_bit_eq_mult of_nat_mult)

definition md5_carry :: "'l::len word \<Rightarrow> 'l word \<Rightarrow> nat \<Rightarrow> 'l word" where
  "md5_carry count0 count1 n =
     (if count0 + push_bit 3 (word_of_int (int n)) < push_bit 3 (word_of_int (int n)) then count1 + 1 else count1)
     + drop_bit 29 (word_of_int (int n))"

lemma MD5_Update_holds:
  fixes c :: "'l::len word md5_ctx"
  assumes holds: "md5_holds c m" and "9 \<le> LENGTH('l)" and "n \<le> length input" and "n \<le> 4294967232"
  shows "\<exists>c'. MD5_Update c input (int n) = Some c' \<and> md5_holds c' (m @ take n input)
    \<and> md_count1 c' = md5_carry (md_count0 c) (md_count1 c) n"
proof -
  define xs where "xs = take n input"
  define i where "i = length m mod 64"
  define l where "l = md5_left m"
  have h: "md_state c = md5_fold md5_start m" "md_count0 c = of_nat (8 * length m)" "length (md_buffer c) = 64"
    "take i (md_buffer c) = l" using holds by (simp_all add: md5_holds_def i_def l_def)
  have i: "i < 64" "length l = i" and xs: "length xs = n" using assms by (simp_all add: i_def l_def length_left xs_def)
  have index: "uint (drop_bit 3 (md_count0 c) AND 0x3F) = int i"
    unfolding h(2) i_def by (rule md5_index [OF assms(2)])
  have fold: "md5_fold md5_start (m @ xs) = md5_fold (md_state c) (l @ xs)" "md5_left (m @ xs) = md5_left (l @ xs)"
    unfolding h(1) l_def by (rule md5_fold_more, rule md5_left_more)
  have count: "md_count0 c + push_bit 3 (word_of_int (int n)) = of_nat (8 * length (m @ xs))"
    unfolding h(2) length_append xs by (rule md5_count)
  show ?thesis
  proof (cases "i + n < 64")
    case True
    have r: "mem_read input 0 (int n) = Some xs" using assms(3) by (simp add: mem_read_def xs_def)
    have w: "mem_write (md_buffer c) (int i) xs = Some (l @ xs @ drop (i + n) (md_buffer c))"
      using True h(3,4) xs by (simp add: mem_write_def)
    have "length (m @ xs) mod 64 = i + n" using mod_add_left_eq [of "length m" 64 n] True xs by (simp add: i_def)
    moreover have "md5_left (m @ xs) = l @ xs" using fold(2) True i xs by (simp add: md5_left_short)
    moreover have "md5_fold md5_start (m @ xs) = md_state c"
      using fold(1) True i xs by (simp add: md5_fold.simps [of _ "l @ xs"])
    moreover have "MD5_Update c input (int n) = Some \<lparr>md_state = md_state c, md_count0 = of_nat (8 * length (m @ xs)),
        md_count1 = md5_carry (md_count0 c) (md_count1 c) n, md_buffer = l @ xs @ drop (i + n) (md_buffer c)\<rparr>"
      using True r w unfolding MD5_Update_def Let_def index md5_carry_def count by simp
    ultimately show ?thesis using i xs h(3) True unfolding md5_holds_def xs_def [symmetric] by simp
  next
    case False
    define k where "k = 64 - i"
    have k: "k \<le> n" "0 < k" using False i by (simp_all add: k_def)
    define buf where "buf = l @ take k xs"
    have buf: "length buf = 64" using k i xs by (simp add: buf_def k_def)
    have r: "mem_read input 0 (int k) = Some (take k xs)"
      using k assms(3) by (simp add: mem_read_def xs_def min_def)
    have w: "mem_write (md_buffer c) (int i) (take k xs) = Some buf"
      using h(3,4) xs k i by (simp add: mem_write_def buf_def k_def)
    define r' where "r' = drop k xs"
    have lx: "l @ xs = buf @ r'" by (simp add: buf_def r'_def)
    have blocks: "md5_blocks input (int n) (int k) s = Some (md5_fold s r', int (n - length (md5_left r')))" for s :: "'l word md5_state"
      using md5_blocks_fold [of "int k" n input s] k assms(3,4) by (simp add: r'_def xs_def)
    have lr: "length r' = n - k" "length (md5_left r') \<le> length r'" using xs by (simp_all add: r'_def md5_left_def)
    have "drop (n - length (md5_left r')) xs = md5_left r'"
    proof -
      have "drop (length r' - length (md5_left r')) r' = md5_left r'"
        by (simp add: md5_left_def)
      moreover have "drop (n - length (md5_left r')) xs = drop (length r' - length (md5_left r')) r'"
        using lr k by (simp add: r'_def)
      ultimately show ?thesis by simp
    qed
    moreover have q: "length (md5_left r') \<le> n" "int n - int (n - length (md5_left r')) = int (length (md5_left r'))"
      using lr k xs by simp_all
    ultimately have rest: "mem_read input (int (n - length (md5_left r'))) (int n - int (n - length (md5_left r'))) = Some (md5_left r')"
      unfolding q(2) using assms(3) by (simp add: mem_read_def xs_def drop_take del: of_nat_diff)
    have left: "length (md5_left r') < 64" by (simp add: length_left)
    have w0: "mem_write buf 0 (md5_left r') = Some (md5_left r' @ drop (length (md5_left r')) buf)"
      using buf left by (simp add: mem_write_def)
    have "md5_fold (md_state c) (l @ xs) = md5_fold (MD5Transform (md_state c) buf) r'"
      unfolding lx using buf by (simp add: md5_fold.simps [of _ "buf @ r'"])
    moreover have "md5_left (l @ xs) = md5_left r'"
      unfolding lx using md5_left_append [of buf 1 r'] buf by simp
    moreover have "length (m @ xs) mod 64 = length (md5_left r')"
      using length_left [of "m @ xs"] fold(2) calculation(2) by simp
    moreover have "MD5_Update c input (int n) = Some \<lparr>md_state = md5_fold (MD5Transform (md_state c) buf) r',
        md_count0 = of_nat (8 * length (m @ xs)), md_count1 = md5_carry (md_count0 c) (md_count1 c) n,
        md_buffer = md5_left r' @ drop (length (md5_left r')) buf\<rparr>"
    proof -
      have "\<not> int n < 64 - int i" and ik: "64 - int i = int k" using False i by (simp_all add: k_def)
      then show ?thesis using r w rest w0 unfolding MD5_Update_def Let_def index md5_carry_def count ik blocks by simp
    qed
    ultimately show ?thesis using fold buf left unfolding md5_holds_def xs_def [symmetric] by simp
  qed
qed

text \<open>The padding and the number of bits.\<close>

definition md5_padding :: "nat \<Rightarrow> byte list" where
  "md5_padding n = 0x80 # replicate ((119 - n mod 64) mod 64) 0"

definition md5_answer :: "'l::len word md5_state \<Rightarrow> byte list" where
  "md5_answer s = (case s of (a, b, c, d) \<Rightarrow> Encode [a, b, c, d])"

lemma length_Encode [simp]: "length (Encode ws) = 4 * length ws"
  by (induction ws) (simp_all add: Encode_def)

lemma md5_padding_take: "take (length (md5_padding n)) PADDING = md5_padding n" "length (md5_padding n) \<le> 64"
proof -
  have "(119 - n mod 64) mod 64 \<le> 63" by simp
  then show "take (length (md5_padding n)) PADDING = md5_padding n" "length (md5_padding n) \<le> 64"
    by (simp_all add: md5_padding_def PADDING_def)
qed

lemma MD5_Final_holds:
  fixes c :: "'l::len word md5_ctx"
  assumes "md5_holds c m" and "9 \<le> LENGTH('l)"
  shows "MD5_Final c = Some (md5_answer (md5_fold (md5_start :: 'l word md5_state)
    (m @ md5_padding (length m) @ Encode [md_count0 c, md_count1 c])))"
proof -
  define n where "n = length (md5_padding (length m))"
  define bits where "bits = Encode [md_count0 c, md_count1 c]"
  define i where "i = length m mod 64"
  have "i < 64" by (simp add: i_def)
  have index: "uint (drop_bit 3 (md_count0 c) AND 0x3F) = int i"
    using assms(1) md5_index [OF assms(2), of "length m"] by (simp add: md5_holds_def i_def)
  have n: "(if int i < 56 then 56 - int i else 120 - int i) = int n" 
  proof (cases "i < 56")
    case True
    then have "(119 - i) mod 64 = 55 - i" using mod_add_self1 [of 64 "55 - i"] by simp
    then show ?thesis using True by (simp add: n_def md5_padding_def i_def [symmetric])
  qed (use \<open>i < 64\<close> in \<open>simp add: n_def md5_padding_def i_def [symmetric]\<close>)
  have "n \<le> length PADDING" "n \<le> 4294967232" "take n PADDING = md5_padding (length m)"
    using md5_padding_take [of "length m"] by (simp_all add: n_def PADDING_def)
  with MD5_Update_holds [OF assms, of n PADDING] obtain c1 where
    c1: "MD5_Update c PADDING (int n) = Some c1" "md5_holds c1 (m @ md5_padding (length m))" by auto
  from MD5_Update_holds [OF c1(2) assms(2), of 8 bits] obtain c2 where
    c2: "MD5_Update c1 bits 8 = Some c2" "md5_holds c2 (m @ md5_padding (length m) @ bits)" by (auto simp: bits_def)
  have "md_state c2 = md5_fold md5_start (m @ md5_padding (length m) @ bits)" using c2(2) by (simp add: md5_holds_def)
  then show ?thesis
    unfolding MD5_Final_def Let_def index n bits_def [symmetric] 
    by (cases "md5_fold md5_start (m @ md5_padding (length m) @ bits) :: 'l word md5_state") (simp add: c1(1) c2(1) md5_answer_def)
qed

text \<open>Parts of a message; what the second counter holds is left to the type.\<close>

fun md5_carry_all :: "'l::len word \<Rightarrow> nat \<Rightarrow> byte list list \<Rightarrow> 'l word" where
  "md5_carry_all count1 n [] = count1"
| "md5_carry_all count1 n (p # ps) = md5_carry_all (md5_carry (of_nat (8 * n)) count1 (length p)) (n + length p) ps"

lemma md5_update_all_holds:
  fixes c :: "'l::len word md5_ctx"
  assumes "md5_holds c m" and "9 \<le> LENGTH('l)" and "\<forall>p\<in>set ps. length p \<le> 4294967232"
  shows "\<exists>c'. md5_update_all c ps = Some c' \<and> md5_holds c' (m @ concat ps) \<and> md_count1 c' = md5_carry_all (md_count1 c) (length m) ps"
  using assms(1,3)
proof (induction ps arbitrary: c m)
  case (Cons p ps)
  then obtain c1 where c1: "MD5_Update c p (int (length p)) = Some c1" "md5_holds c1 (m @ p)"
    "md_count1 c1 = md5_carry (md_count0 c) (md_count1 c) (length p)"
    using MD5_Update_holds [OF Cons.prems(1) assms(2), of "length p" p] by auto
  with Cons.IH [OF c1(2)] Cons.prems show ?case by (auto simp: md5_holds_def)
qed simp

definition md5_digest :: "'l::len word md5_ctx \<Rightarrow> byte list list \<Rightarrow> byte list option" where
  "md5_digest context ps = Option.bind (md5_update_all context ps) MD5_Final"

section \<open>Words of 32 bits\<close>

text \<open>The digest of a message as it is specified, on the same transformation.\<close>

definition md5_reference :: "byte list \<Rightarrow> byte list" where
  "md5_reference m = md5_answer (md5_fold (md5_start :: 32 word md5_state)
     (m @ md5_padding (length m) @ le_bytes 8 (8 * int (length m))))"

lemma md5_carry_32:
  assumes "n \<le> 4294967295"
  shows "md5_carry (of_nat (8 * a) :: 32 word) (of_nat (8 * a div 4294967296)) n = of_nat (8 * (a + n) div 4294967296)"
proof -
  define x y :: nat where "x = 8 * a mod 4294967296" and "y = 8 * n mod 4294967296"
  have push: "push_bit 3 (word_of_int (int n)) = (of_nat (8 * n) :: 32 word)" by (simp add: push_bit_eq_mult)
  have sum: "(of_nat (8 * a) :: 32 word) + of_nat (8 * n) = of_nat (x + y)"
  proof -
    have "(of_nat (k mod 4294967296) :: 32 word) = of_nat k" for k
      by (simp add: word_unat_eq_iff unat_of_nat take_bit_eq_mod)
    then show ?thesis by (simp only: x_def y_def of_nat_add)
  qed
  have "unat (of_nat (x + y) :: 32 word) = (x + y) mod 4294967296" "unat (of_nat (8 * n) :: 32 word) = y"
    by (simp_all only: unat_of_nat) (simp_all add: y_def)
  then have less: "(of_nat (x + y) :: 32 word) < of_nat (8 * n) \<longleftrightarrow> (x + y) mod 4294967296 < y"
    by (simp only: word_less_nat_alt)
  have xy: "x < 4294967296" "y < 4294967296" by (simp_all add: x_def y_def)
  have carry: "(x + y) mod 4294967296 < y \<longleftrightarrow> (x + y) div 4294967296 = 1" "(x + y) div 4294967296 \<le> 1"
  proof -
    show "(x + y) div 4294967296 \<le> 1" using xy by linarith
    show "(x + y) mod 4294967296 < y \<longleftrightarrow> (x + y) div 4294967296 = 1"
    proof (cases "x + y < 4294967296")
      case True
      then show ?thesis by simp
    next
      case False
      then have "(x + y) mod 4294967296 = x + y - 4294967296" using xy by (simp add: mod_if)
      moreover have "(x + y) div 4294967296 = 1" using False xy by (intro div_nat_eqI) simp_all
      ultimately show ?thesis using False xy by simp
    qed
  qed
  have drop: "drop_bit 29 (word_of_int (int n)) = (of_nat (8 * n div 4294967296) :: 32 word)"
  proof -
    have "8 * n div 4294967296 = n div 536870912" using div_mult_mult1 [of 8 n 536870912] by simp
    moreover have "unat (drop_bit 29 (of_nat n) :: 32 word) = n div 536870912"
      by (simp only: unat_drop_bit_eq unat_of_nat) (use assms in \<open>simp add: drop_bit_eq_div take_bit_eq_mod\<close>)
    moreover have "unat (of_nat (n div 536870912) :: 32 word) = n div 536870912"
      using assms by (simp add: unat_of_nat)
    ultimately show ?thesis by (simp add: word_unat_eq_iff)
  qed
  have "8 * (a + n) div 4294967296 = 8 * a div 4294967296 + 8 * n div 4294967296 + (x + y) div 4294967296"
    unfolding x_def y_def distrib_left by (rule div_add1_eq)
  moreover have "(x + y) div 4294967296 = (if (x + y) mod 4294967296 < y then 1 else 0)"
    using carry by (auto simp del: div_less)
  ultimately show ?thesis unfolding md5_carry_def push sum less drop by (simp del: of_nat_add add: of_nat_add [symmetric])
qed

lemma md5_carry_all_32:
  "\<forall>p\<in>set ps. length p \<le> 4294967295 \<Longrightarrow>
   md5_carry_all (of_nat (8 * a div 4294967296) :: 32 word) a ps = of_nat (8 * (a + length (concat ps)) div 4294967296)"
proof (induction ps arbitrary: a)
  case (Cons p ps)
  have "md5_carry (of_nat (8 * a) :: 32 word) (of_nat (8 * a div 4294967296)) (length p) = of_nat (8 * (a + length p) div 4294967296)"
    using Cons.prems by (intro md5_carry_32) simp
  then show ?case using Cons.IH [of "a + length p"] Cons.prems by (simp add: add.assoc)
qed simp

lemma Encode_one: "Encode (w # ws) = le_bytes 4 (uint w) @ Encode ws" for w :: "32 word"
proof -
  have b: "ucast (drop_bit k w AND 0xFF) = (word_of_int (uint w div 2 ^ k mod 256) :: byte)" for k
  proof -
    have "(0xFF :: 32 word) = mask 8" by (simp add: mask_eq_exp_minus_1)
    then have "drop_bit k w AND 0xFF = take_bit 8 (drop_bit k w)" by (simp only: take_bit_eq_mask)
    moreover have "uint (take_bit 8 (drop_bit k w)) = uint w div 2 ^ k mod 256"
    proof -
      have "uint (take_bit 8 (drop_bit k w)) = take_bit 8 (drop_bit k (uint w))"
        unfolding unsigned_take_bit_eq by transfer (simp add: take_bit_drop_bit ac_simps)
      then show ?thesis by (simp only: take_bit_eq_mod drop_bit_eq_div) simp
    qed
    ultimately show ?thesis
      by (simp only: word_uint_eq_iff unsigned_ucast_eq uint_word_of_int take_bit_eq_mod)
  qed
  have "Encode (w # ws) = map (\<lambda>k. word_of_int (uint w div 2 ^ k mod 256)) [0, 8, 16, 24] @ Encode ws"
    by (simp only: Encode_def list.map(2) concat.simps b)
  moreover have "le_bytes 4 v = map (\<lambda>k. word_of_int (v div 2 ^ k mod 256)) [0, 8, 16, 24]" for v
    by (simp add: eval_nat_numeral flip: zdiv_zmult2_eq)
  ultimately show ?thesis by (simp only:)
qed

lemma le_bytes_split: "0 \<le> v \<Longrightarrow> le_bytes (m + n) v = le_bytes m v @ le_bytes n (v div 256 ^ m)"
  by (induction m arbitrary: v) (simp_all add: zdiv_zmult2_eq)

lemma le_bytes_mod: "le_bytes n (v mod 256 ^ n) = le_bytes n v"
proof (induction n arbitrary: v)
  case (Suc n)
  have "v mod 256 ^ Suc n mod 256 = v mod 256" by (simp add: mod_mod_cancel)
  moreover have "v mod 256 ^ Suc n div 256 = v div 256 mod 256 ^ n"
    by (simp add: zmod_zmult2_eq)
  ultimately show ?case using Suc.IH [of "v div 256"] by simp
qed simp

lemma Encode_counts:
  "Encode [of_nat n :: 32 word, of_nat (n div 4294967296)] = le_bytes 8 (int n)"
proof -
  have e: "le_bytes 4 (uint (of_nat k :: 32 word)) = le_bytes 4 (int k)" for k
    using le_bytes_mod [of 4 "int k"] by (simp add: unsigned_of_nat take_bit_eq_mod zmod_int)
  have "le_bytes 8 (int n) = le_bytes 4 (int n) @ le_bytes 4 (int n div 256 ^ 4)"
    using le_bytes_split [of "int n" 4 4] by simp
  moreover have "int n div 256 ^ 4 = int (n div 4294967296)" by (simp add: zdiv_int)
  ultimately show ?thesis by (simp only: Encode_one e) (simp add: Encode_def)
qed

text \<open>C23 (md5_in_parts). With words of 32 bits, the digest of a message is the same in whatever parts the message comes, and of
  whatever length it is, also where the counter of its bits has a carry: it is the digest of the padded message with the number of its bits.\<close>

theorem md5_in_parts:
  assumes "\<forall>p\<in>set ps. length p \<le> 4294967232"
  shows "md5_digest (MD5_Init heap :: 32 word md5_ctx) ps = Some (md5_reference (concat ps))"
proof -
  obtain c where c: "md5_update_all (MD5_Init heap :: 32 word md5_ctx) ps = Some c" "md5_holds c (concat ps)"
    "md_count1 c = md5_carry_all (0 :: 32 word) 0 ps"
    using md5_update_all_holds [of "MD5_Init heap :: 32 word md5_ctx" "[]" ps, OF md5_holds_Init _ assms] by (auto simp: MD5_Init_def)
  have "md5_carry_all (0 :: 32 word) 0 ps = of_nat (8 * length (concat ps) div 4294967296)"
    using md5_carry_all_32 [of ps 0] assms by fastforce
  then have bits: "Encode [md_count0 c, md_count1 c] = le_bytes 8 (8 * int (length (concat ps)))"
    using c(2,3) Encode_counts [of "8 * length (concat ps)"] by (simp add: md5_holds_def)
  show ?thesis using MD5_Final_holds [OF c(2)] by (simp add: md5_digest_def c(1) bits md5_reference_def)
qed

text \<open>On a machine where \<open>unsigned long\<close> has 64 bits the digest is not MD5: the rotations bring nothing back from above the
  lower half. The digest of the empty message and the one of \<open>abc\<close> are those of the specification with 32 bits only.\<close>

theorem md5_long_words:
  "md5_digest (MD5_Init (\<lambda>_. 0) :: 32 word md5_ctx) [] =
     Some [0xD4, 0x1D, 0x8C, 0xD9, 0x8F, 0x00, 0xB2, 0x04, 0xE9, 0x80, 0x09, 0x98, 0xEC, 0xF8, 0x42, 0x7E] \<and>
   md5_digest (MD5_Init (\<lambda>_. 0) :: 64 word md5_ctx) [] =
     Some [0xE4, 0xC2, 0x37, 0x62, 0xED, 0x28, 0x23, 0xA2, 0x7E, 0x62, 0xA6, 0x4B, 0x95, 0xC0, 0x24, 0xE7] \<and>
   md5_digest (MD5_Init (\<lambda>_. 0) :: 32 word md5_ctx) [[97, 98, 99]] =
     Some [0x90, 0x01, 0x50, 0x98, 0x3C, 0xD2, 0x4F, 0xB0, 0xD6, 0x96, 0x3F, 0x7D, 0x28, 0xE1, 0x7F, 0x72]"
proof (intro conjI)
  show "md5_digest (MD5_Init (\<lambda>_. 0) :: 32 word md5_ctx) [] =
     Some [0xD4, 0x1D, 0x8C, 0xD9, 0x8F, 0x00, 0xB2, 0x04, 0xE9, 0x80, 0x09, 0x98, 0xEC, 0xF8, 0x42, 0x7E]" by code_simp
  show "md5_digest (MD5_Init (\<lambda>_. 0) :: 64 word md5_ctx) [] =
     Some [0xE4, 0xC2, 0x37, 0x62, 0xED, 0x28, 0x23, 0xA2, 0x7E, 0x62, 0xA6, 0x4B, 0x95, 0xC0, 0x24, 0xE7]" by code_simp
  show "md5_digest (MD5_Init (\<lambda>_. 0) :: 32 word md5_ctx) [[97, 98, 99]] =
     Some [0x90, 0x01, 0x50, 0x98, 0x3C, 0xD2, 0x4F, 0xB0, 0xD6, 0x96, 0x3F, 0x7D, 0x28, 0xE1, 0x7F, 0x72]" by code_simp
qed

lemma md5_in_parts_witness:
  "md5_digest (MD5_Init (\<lambda>_. 0) :: 32 word md5_ctx) [[97], [], [98, 99]] = md5_digest (MD5_Init (\<lambda>_. 7) :: 32 word md5_ctx) [[97, 98, 99]]"
  using md5_in_parts [of "[[97], [], [98, 99]]" "\<lambda>_. 0"] md5_in_parts [of "[[97, 98, 99]]" "\<lambda>_. 7"] by simp

end
