(* ===== verification/Evf.thy ===== *)
theory Evf
  imports Sgzip MD5
begin

text \<open>
  The expert witness format of \<open>src/src/lib/libevf.c\<close> and \<open>libevf.h\<close>, and the way in which \<open>evtool.c\<close> reads it.
  An image is in chunks of one size, in several files that are made of sections. A table section has the offsets of the chunks that are in
  the sectors section before it; the library makes one index of all tables, restores the image with a check of its digest, reads
  random parts of it, and writes images.

  Descriptors, zlib and the errors are those of \<open>Sgzip\<close>; \<open>fd_table\<close> says which descriptors are open. Messages and warnings are
  left out. An allocation of a size that is not negative succeeds. \<open>heap\<close> is what memory holds when it is allocated, by number of
  the element. A \<open>long\<close> has 64 bits.
\<close>

section \<open>Descriptors\<close>

type_synonym fd_table = "int \<Rightarrow> fdesc option"

definition evf_read :: "fd_table \<Rightarrow> int \<Rightarrow> int \<Rightarrow> fd_table \<times> byte list \<times> int" where
  "evf_read fds fd n =
     (case fds fd of
        None \<Rightarrow> (fds, [], if n > 0 then -1 else 0)
      | Some f \<Rightarrow> (case read_from_stream f n of (f, xs, r) \<Rightarrow> (fds(fd := Some f), xs, r)))"

definition evf_seek :: "fd_table \<Rightarrow> int \<Rightarrow> int \<Rightarrow> fd_table \<times> bool" where
  "evf_seek fds fd offset =
     (case fds fd of
        None \<Rightarrow> (fds, False)
      | Some f \<Rightarrow> (case lseek_set f offset of (f, ok) \<Rightarrow> (fds(fd := Some f), ok)))"

definition evf_tell :: "fd_table \<Rightarrow> int \<Rightarrow> int" where
  "evf_tell fds fd = (case fds fd of None \<Rightarrow> -1 | Some f \<Rightarrow> int (fd_pos f))"

text \<open>Writing, with the number of bytes that were written.\<close>

definition write_count :: "fdesc \<Rightarrow> byte list \<Rightarrow> fdesc \<times> int" where
  "write_count fd xs =
     (let n = fd_moves fd (fd_calls fd) in (write_fd fd xs, if n < 0 then -1 else min n (int (length xs))))"

text \<open>One byte after the other, up to the end of the file.\<close>

function advance_stream :: "fd_table \<Rightarrow> int \<Rightarrow> int \<Rightarrow> int \<Rightarrow> fd_table \<times> int" where
  "advance_stream fds fd len count =
     (if len > 0 then
        (case fds fd of
           None \<Rightarrow> (fds, -1)
         | Some f \<Rightarrow>
             (case read_fd f 1 of
                (f, xs, r) \<Rightarrow>
                  if r < 0 then (fds(fd := Some f), r)
                  else if r = 0 then (fds(fd := Some f), count)
                  else advance_stream (fds(fd := Some f)) fd (len - r) (count + r)))
      else (fds, count))"
  by pat_completeness auto
termination
  by (relation "measure (\<lambda>(fds, fd, len, count). nat len)") auto

section \<open>The checksum\<close>

fun crc_loop :: "byte list \<Rightarrow> int \<Rightarrow> int \<Rightarrow> int \<Rightarrow> int \<Rightarrow> int \<times> int" where
  "crc_loop [] i buffersize b d = (b, d)"
| "crc_loop (c # cs) i buffersize b d =
     (let b = u32 (b + uint c);
          d = u32 (d + b)
      in if i \<noteq> 0 \<and> (i mod 0x15B0 = 0 \<or> i = buffersize - 1)
         then crc_loop cs (i + 1) buffersize (b mod 0xFFF1) (d mod 0xFFF1)
         else crc_loop cs (i + 1) buffersize b d)"

definition evf_crc :: "byte list \<Rightarrow> nat \<Rightarrow> int \<Rightarrow> int option" where
  "evf_crc buffer buffersize prevkey =
     (if buffersize \<le> length buffer
      then (case crc_loop (take buffersize buffer) 0 (int buffersize) (prevkey mod 0x10000) (prevkey div 0x10000 mod 0x10000) of
              (b, d) \<Rightarrow> Some (or (u32 (d * 0x10000)) b))
      else None)"

section \<open>The structures of a file\<close>

record evf_file_header =
  eh_magic :: "byte list"
  eh_one :: byte
  eh_segment :: int
  eh_zero :: int

record evf_section_header =
  se_type :: "byte list"
  se_next :: int
  se_size :: int
  se_padding :: "byte list"
  se_crc :: int

record evf_volume_header =
  ev_reserved :: int
  ev_chunk_count :: int
  ev_sectors_per_chunk :: int
  ev_bytes_per_sector :: int
  ev_sector_count :: int
  ev_rest :: "byte list"
  ev_crc :: int

record evf_table_header =
  et_count :: int
  et_padding :: "byte list"
  et_crc :: int

definition SIZEOF_FILE_HEADER :: nat where "SIZEOF_FILE_HEADER = 13"
definition SIZEOF_SECTION :: nat where "SIZEOF_SECTION = 76"
definition SIZEOF_VOLUME :: nat where "SIZEOF_VOLUME = 1052"
definition SIZEOF_TABLE :: nat where "SIZEOF_TABLE = 24"

definition file_header_of :: "byte list \<Rightarrow> evf_file_header" where
  "file_header_of m = \<lparr>eh_magic = take 8 m, eh_one = m ! 8, eh_segment = le_val (take 2 (drop 9 m)), eh_zero = le_val (take 2 (drop 11 m))\<rparr>"

definition section_of :: "byte list \<Rightarrow> evf_section_header" where
  "section_of m = \<lparr>se_type = take 16 m, se_next = le_val (take 8 (drop 16 m)), se_size = le_val (take 8 (drop 24 m)),
     se_padding = take 40 (drop 32 m), se_crc = le_val (take 4 (drop 72 m))\<rparr>"

definition section_bytes :: "evf_section_header \<Rightarrow> byte list" where
  "section_bytes s = se_type s @ le_bytes 8 (se_next s) @ le_bytes 8 (se_size s) @ se_padding s @ le_bytes 4 (se_crc s)"

definition volume_of :: "byte list \<Rightarrow> evf_volume_header" where
  "volume_of m = \<lparr>ev_reserved = le_val (take 4 m), ev_chunk_count = le_val (take 4 (drop 4 m)), ev_sectors_per_chunk = le_val (take 4 (drop 8 m)),
     ev_bytes_per_sector = le_val (take 4 (drop 12 m)), ev_sector_count = le_val (take 4 (drop 16 m)),
     ev_rest = take 1028 (drop 20 m), ev_crc = le_val (take 4 (drop 1048 m))\<rparr>"

definition volume_bytes :: "evf_volume_header \<Rightarrow> byte list" where
  "volume_bytes v = le_bytes 4 (ev_reserved v) @ le_bytes 4 (ev_chunk_count v) @ le_bytes 4 (ev_sectors_per_chunk v) @
     le_bytes 4 (ev_bytes_per_sector v) @ le_bytes 4 (ev_sector_count v) @ ev_rest v @ le_bytes 4 (ev_crc v)"

definition table_of :: "byte list \<Rightarrow> evf_table_header" where
  "table_of m = \<lparr>et_count = le_val (take 4 m), et_padding = take 16 (drop 4 m), et_crc = le_val (take 4 (drop 20 m))\<rparr>"

definition table_bytes :: "evf_table_header \<Rightarrow> byte list" where
  "table_bytes t = le_bytes 4 (et_count t) @ et_padding t @ le_bytes 4 (et_crc t)"

text \<open>C strings of the section types: the comparison of a prefix, and of the whole.\<close>

definition c_bytes :: "string \<Rightarrow> byte list" where
  "c_bytes s = map (\<lambda>c. word_of_nat (of_char c)) s"

definition type_starts :: "byte list \<Rightarrow> string \<Rightarrow> bool" where
  "type_starts t s \<longleftrightarrow> take (length s) t = c_bytes s"

definition type_is :: "byte list \<Rightarrow> string \<Rightarrow> bool" where
  "type_is t s \<longleftrightarrow> take (Suc (length s)) t = c_bytes s @ [0]"

definition evf_magic :: "byte list" where "evf_magic = [0x45, 0x56, 0x46, 0x09, 0x0D, 0x0A, 0xFF, 0x00]"

section \<open>The index\<close>

text \<open>Where a section starts and ends, for the size of the last chunk of a table.\<close>

record evf_section =
  sc_fd :: int
  sc_start_offset :: int
  sc_end_offset :: int

text \<open>The arrays are \<open>None\<close> before they are allocated.\<close>

record offset_table =
  ot_chunk_size :: int
  ot_section_list :: "evf_section list"
  ot_max_chunk :: int
  ot_max_segment :: int
  ot_files :: "int list"
  ot_fd :: "int list option"
  ot_offset :: "int list option"
  ot_size :: "int list option"
  ot_md5 :: "byte list"

definition array_get :: "int list option \<Rightarrow> int \<Rightarrow> int option" where
  "array_get a i = do { m \<leftarrow> a; if 0 \<le> i \<and> nat i < length m then Some (m ! nat i) else None }"

definition array_set :: "int list option \<Rightarrow> int \<Rightarrow> int \<Rightarrow> int list option option" where
  "array_set a i v = do { m \<leftarrow> a; if 0 \<le> i \<and> nat i < length m then Some (Some (m[nat i := v])) else None }"

definition array_realloc :: "(nat \<Rightarrow> int) \<Rightarrow> int list option \<Rightarrow> nat \<Rightarrow> int list option" where
  "array_realloc heap a n =
     (let old = (case a of None \<Rightarrow> [] | Some m \<Rightarrow> m) in Some (take n old @ map heap [length old..<n]))"

fun words4 :: "byte list \<Rightarrow> int list" where
  "words4 (a # b # c # d # m) = le_val [a, b, c, d] # words4 m"
| "words4 m = []"

text \<open>Numbers that are read into an array from the element \<open>i\<close> on. A last one of which only a part was read is left out.\<close>

definition array_fill :: "int list option \<Rightarrow> int \<Rightarrow> byte list \<Rightarrow> int list option option" where
  "array_fill a i xs = do {
     m \<leftarrow> a;
     if 0 \<le> i \<and> 4 * nat i + length xs \<le> 4 * length m
     then Some (Some (take (nat i) m @ words4 xs @ drop (nat i + length (words4 xs)) m)) else None
   }"

section \<open>Reading the sections\<close>

text \<open>Numbers of bytes are compared with sizes without sign, so that only a short read is noticed, not an error.\<close>

definition evf_read_header :: "(nat \<Rightarrow> byte) \<Rightarrow> fd_table \<Rightarrow> int \<Rightarrow> fd_table \<times> (sgz_error + evf_file_header)" where
  "evf_read_header heap fds fd =
     (let (fds, xs, r) = evf_read fds fd (int SIZEOF_FILE_HEADER);
          h = file_header_of (over_block xs (map heap [0..<SIZEOF_FILE_HEADER]))
      in if u64 r < int SIZEOF_FILE_HEADER then (fds, Inl E_IOERROR)
         else if eh_magic h \<noteq> evf_magic then (fds, Inl E_IOERROR)
         else (fds, Inr h))"

definition evf_read_section :: "(nat \<Rightarrow> byte) \<Rightarrow> fd_table \<Rightarrow> int \<Rightarrow> fd_table \<times> (sgz_error + evf_section_header)" where
  "evf_read_section heap fds fd =
     (let (fds, xs, r) = evf_read fds fd (int SIZEOF_SECTION);
          h = section_of (over_block xs (map heap [0..<SIZEOF_SECTION]))
      in if u64 r < int SIZEOF_SECTION then (fds, Inl E_IOERROR) else (fds, Inr h))"

definition new_section :: "fd_table \<Rightarrow> int \<Rightarrow> evf_section_header \<Rightarrow> evf_section" where
  "new_section fds fd h =
     (let start = u32 (evf_tell fds fd - int SIZEOF_SECTION)
      in \<lparr>sc_fd = fd, sc_start_offset = start, sc_end_offset = u32 (se_size h + start)\<rparr>)"

definition header_section :: "zlib \<Rightarrow> (nat \<Rightarrow> byte) \<Rightarrow> evf_section_header \<Rightarrow> int \<Rightarrow> fd_table \<Rightarrow> (fd_table \<times> sgz_error option) option" where
  "header_section z heap h fd fds = do {
     let block = map heap [0..<32768];
     let (fds, xs, r) = evf_read fds fd (s32 (se_size h));
     cdata \<leftarrow> mem_write block 0 xs;
     if u64 r < se_size h then Some (fds, Some E_IOERROR)
     else do {
       src \<leftarrow> mem_read cdata 0 (se_size h);
       let (code, out, destLen) = z_uncompress z 32768 src;
       data \<leftarrow> mem_write block 0 out;
       if code \<noteq> Z_OK then Some (fds, Some E_IOERROR)
       else do {
         data \<leftarrow> mem_write data (int destLen) [0];
         Some (fds, None)
       }
     }
   }"

definition volume_section :: "(nat \<Rightarrow> byte) \<Rightarrow> (nat \<Rightarrow> int) \<Rightarrow> int \<Rightarrow> offset_table \<Rightarrow> fd_table \<Rightarrow> fd_table \<times> (sgz_error + offset_table)" where
  "volume_section heap junk fd ot fds =
     (let (fds, xs, r) = evf_read fds fd (int SIZEOF_VOLUME);
          v = volume_of (over_block xs (map heap [0..<SIZEOF_VOLUME]));
          n = nat (if ev_chunk_count v = 0 then 1 else ev_chunk_count v)
      in if u64 r < int SIZEOF_VOLUME then (fds, Inl E_IOERROR)
         else (fds, Inr (ot\<lparr>ot_chunk_size := s32 (ev_sectors_per_chunk v * ev_bytes_per_sector v), ot_max_chunk := 0,
                             ot_fd := Some (map junk [0..<n]), ot_offset := Some (map junk [0..<n]), ot_size := Some (map junk [0..<n])\<rparr>)))"

text \<open>A chunk ends where the next one starts. The index of the next one is in the same array, one element on.\<close>

definition table_entry :: "int \<Rightarrow> offset_table \<Rightarrow> int \<Rightarrow> (offset_table \<times> int) option" where
  "table_entry fd ot old_offset = do {
     next \<leftarrow> array_get (ot_offset ot) (ot_max_chunk ot + 1);
     let offset = next mod 0x80000000;
     fds \<leftarrow> array_set (ot_fd ot) (ot_max_chunk ot) fd;
     offsets \<leftarrow> array_set (ot_offset ot) (ot_max_chunk ot) old_offset;
     sizes \<leftarrow> array_set (ot_size ot) (ot_max_chunk ot) (u16 (offset - old_offset));
     Some (ot\<lparr>ot_fd := fds, ot_offset := offsets, ot_size := sizes, ot_max_chunk := ot_max_chunk ot + 1\<rparr>, offset)
   }"

text \<open>\<open>offset\<close> is a variable on the stack that the loop sets; the bound of the loop has no sign.\<close>

function table_loop :: "int \<Rightarrow> int \<Rightarrow> int \<Rightarrow> offset_table \<Rightarrow> int \<Rightarrow> int \<Rightarrow> (offset_table \<times> int) option" where
  "table_loop fd count i ot old_offset offset =
     (if i < u32 (count - 1)
      then (case table_entry fd ot old_offset of
              None \<Rightarrow> None
            | Some (ot, offset) \<Rightarrow> table_loop fd count (i + 1) ot offset offset)
      else Some (ot, offset))"
  by pat_completeness auto
termination
proof (relation "measure (\<lambda>(fd, count, i, ot, o1, o2). nat (4294967296 - i))", goal_cases)
  case (2 fd count i)
  then have "i < 4294967296" using u32_range [of "count - 1"] by linarith
  then show ?case by simp
qed simp

declare table_loop.simps [simp del]

text \<open>The last chunk of a table fills the section that it starts in. The last section of the list is not looked at.\<close>

fun last_chunk :: "int \<Rightarrow> int \<Rightarrow> evf_section list \<Rightarrow> offset_table \<Rightarrow> offset_table option" where
  "last_chunk fd offset (s # t # ss) ot =
     (if sc_fd s = fd \<and> sc_start_offset s < offset \<and> offset < sc_end_offset s
      then do {
        fds \<leftarrow> array_set (ot_fd ot) (ot_max_chunk ot) fd;
        offsets \<leftarrow> array_set (ot_offset ot) (ot_max_chunk ot) (offset mod 0x80000000);
        sizes \<leftarrow> array_set (ot_size ot) (ot_max_chunk ot) (u16 (sc_end_offset s - offset));
        Some (ot\<lparr>ot_fd := fds, ot_offset := offsets, ot_size := sizes, ot_max_chunk := ot_max_chunk ot + 1\<rparr>)
      }
      else last_chunk fd offset (t # ss) ot)"
| "last_chunk fd offset _ ot = Some ot"

text \<open>The first offset is read on its own and the rest with the four bytes behind the table. \<open>stack\<close> is what the variable \<open>offset\<close>
  holds when it is not set.\<close>

definition table_section :: "(nat \<Rightarrow> byte) \<Rightarrow> (nat \<Rightarrow> int) \<Rightarrow> int \<Rightarrow> int \<Rightarrow> offset_table \<Rightarrow> fd_table \<Rightarrow>
    (fd_table \<times> (sgz_error + offset_table)) option" where
  "table_section heap junk stack fd ot fds = do {
     let (fds, xs, r) = evf_read fds fd (int SIZEOF_TABLE);
     let count = et_count (table_of (over_block xs (map heap [0..<SIZEOF_TABLE])));
     if u64 r < int SIZEOF_TABLE then Some (fds, Inl E_IOERROR)
     else do {
       let (fds, xs, r) = evf_read fds fd 4;
       let old_offset = le_val (over_block xs (replicate 4 0)) mod 0x80000000;
       if u64 r < 4 then Some (fds, Inl E_IOERROR)
       else do {
         let n = nat (u32 (ot_max_chunk ot + 2 + count));
         if n = 0 then Some (fds, Inl E_NOMEMORY)
         else do {
           let ot = ot\<lparr>ot_fd := array_realloc junk (ot_fd ot) n, ot_offset := array_realloc junk (ot_offset ot) n,
                      ot_size := array_realloc junk (ot_size ot) (2 * n)\<rparr>;
           let (fds, xs, r) = evf_read fds fd (s32 (count * 4));
           offsets \<leftarrow> array_fill (ot_offset ot) (ot_max_chunk ot + 1) xs;
           if u64 r < count * 4 then Some (fds, Inl E_IOERROR)
           else do {
             (ot, offset) \<leftarrow> table_loop fd count 0 (ot\<lparr>ot_offset := offsets\<rparr>) old_offset stack;
             ot \<leftarrow> last_chunk fd offset (ot_section_list ot) ot;
             Some (fds, Inr ot)
           }
         }
       }
     }
   }"

definition process_section :: "zlib \<Rightarrow> (nat \<Rightarrow> byte) \<Rightarrow> (nat \<Rightarrow> int) \<Rightarrow> int \<Rightarrow> evf_section_header \<Rightarrow> int \<Rightarrow> offset_table \<Rightarrow> fd_table \<Rightarrow>
    (fd_table \<times> (sgz_error + offset_table)) option" where
  "process_section z heap junk stack h image_number ot fds = do {
     fd \<leftarrow> array_get (Some (ot_files ot)) image_number;
     if evf_tell fds fd < 0 then Some (fds, Inl E_IOERROR)
     else do {
       let ot = ot\<lparr>ot_section_list := ot_section_list ot @ [new_section fds fd h]\<rparr>;
       if type_starts (se_type h) ''header''
       then do {
         (fds, e) \<leftarrow> header_section z heap h fd fds;
         Some (fds, case e of None \<Rightarrow> Inr ot | Some e \<Rightarrow> Inl e)
       }
       else if type_starts (se_type h) ''volume'' \<or> type_starts (se_type h) ''disk'' then Some (volume_section heap junk fd ot fds)
       else if type_is (se_type h) ''table'' then table_section heap junk stack fd ot fds
       else if type_is (se_type h) ''sectors'' \<or> type_is (se_type h) ''table2'' then Some (fds, Inr ot)
       else if type_is (se_type h) ''hash''
       then (let (fds, xs, r) = evf_read fds fd 16
             in if u64 r < 16 then Some (fds, Inl E_IOERROR)
                else Some (fds, Inr (ot\<lparr>ot_md5 := over_block xs (ot_md5 ot)\<rparr>)))
       else Some (fds, Inr ot)
     }
   }"

section \<open>Restoring an image\<close>

text \<open>The bytes of a chunk, in \<open>data\<close> with the length \<open>length\<close>. A chunk that cannot be restored becomes zeros; one that is as long as a
  chunk is copied. The checksum behind such a chunk only leads to a warning.\<close>

definition unpack_chunk :: "zlib \<Rightarrow> int \<Rightarrow> int \<Rightarrow> int \<Rightarrow> byte list \<Rightarrow> byte list \<Rightarrow> (byte list \<times> int) option" where
  "unpack_chunk z full chunk_size clength cdata data =
     (if chunk_size < full
      then do {
        src \<leftarrow> mem_read cdata 0 clength;
        let (code, out, destLen) = z_uncompress z (nat full) src;
        data \<leftarrow> mem_write data 0 out;
        data \<leftarrow> (if code \<noteq> Z_OK then mem_write data 0 (replicate (nat full) 0) else Some data);
        Some (data, int destLen)
      }
      else do {
        xs \<leftarrow> mem_read cdata 0 full;
        data \<leftarrow> mem_write data 0 xs;
        Some (data, full)
      })"

type_synonym long_word = "64 word"

record evf_output =
  eo_fds :: fd_table
  eo_out :: fdesc
  eo_data :: "byte list"
  eo_cdata :: "byte list"
  eo_md5 :: "long_word md5_ctx"

definition decompress_chunk :: "zlib \<Rightarrow> offset_table \<Rightarrow> int \<Rightarrow> evf_output \<Rightarrow> (evf_output \<times> bool) option" where
  "decompress_chunk z ot i s = do {
     fd \<leftarrow> array_get (ot_fd ot) i;
     offset \<leftarrow> array_get (ot_offset ot) i;
     chunk_size \<leftarrow> array_get (ot_size ot) i;
     let (fds, ok) = evf_seek (eo_fds s) fd offset;
     let s = s\<lparr>eo_fds := fds\<rparr>;
     if \<not> ok then Some (s, False)
     else do {
       let (fds, xs, clength) = evf_read fds fd chunk_size;
       cdata \<leftarrow> mem_write (eo_cdata s) 0 xs;
       let s = s\<lparr>eo_fds := fds, eo_cdata := cdata\<rparr>;
       if clength < chunk_size then Some (s, False)
       else do {
         (data, n) \<leftarrow> unpack_chunk z (ot_chunk_size ot) chunk_size clength cdata (eo_data s);
         md5 \<leftarrow> MD5_Update (eo_md5 s) data (u32 n);
         xs \<leftarrow> mem_read data 0 n;
         let (out, r) = write_count (eo_out s) xs;
         Some (s\<lparr>eo_data := data, eo_md5 := md5, eo_out := out\<rparr>, \<not> r < n)
       }
     }
   }"

function decompress_chunks :: "zlib \<Rightarrow> offset_table \<Rightarrow> int \<Rightarrow> evf_output \<Rightarrow> (evf_output \<times> bool) option" where
  "decompress_chunks z ot i s =
     (if i < ot_max_chunk ot
      then (case decompress_chunk z ot i s of
              None \<Rightarrow> None
            | Some (s, ok) \<Rightarrow> if ok then decompress_chunks z ot (i + 1) s else Some (s, False))
      else Some (s, True))"
  by pat_completeness auto
termination
  by (relation "measure (\<lambda>(z, ot, i, s). nat (ot_max_chunk ot - i))") auto

declare decompress_chunks.simps [simp del]

text \<open>The digests are printed into \<open>data\<close>, with 33 bytes. The answer is the output and whether the digest is the stored one; the
  program exits with an error otherwise.\<close>

definition evf_decompress_fds :: "zlib \<Rightarrow> (nat \<Rightarrow> byte) \<Rightarrow> offset_table \<Rightarrow> fd_table \<Rightarrow> fdesc \<Rightarrow>
    (fd_table \<times> fdesc \<times> (sgz_error + bool)) option" where
  "evf_decompress_fds z heap ot fds out =
     (if ot_chunk_size ot < 0 then Some (fds, out, Inl E_NOMEMORY)
      else do {
        data \<leftarrow> malloc_block heap (ot_chunk_size ot);
        cdata \<leftarrow> malloc_block heap (ot_chunk_size ot + 1024);
        (s, ok) \<leftarrow> decompress_chunks z ot 0
          \<lparr>eo_fds = fds, eo_out = out, eo_data = data, eo_cdata = cdata, eo_md5 = MD5_Init heap\<rparr>;
        if \<not> ok then Some (eo_fds s, eo_out s, Inl E_IOERROR)
        else do {
          digest \<leftarrow> MD5_Final (eo_md5 s);
          if ot_chunk_size ot < 33 then None
          else Some (eo_fds s, eo_out s, Inr (digest = ot_md5 ot))
        }
      })"

section \<open>Reading at random\<close>

text \<open>The blocks and the number of the chunk in them are global, and allocated once.\<close>

record evf_globals =
  eg_data :: "byte list option"
  eg_cdata :: "byte list option"
  eg_cached_chunk :: int

definition evf_initial :: evf_globals where
  "evf_initial = \<lparr>eg_data = None, eg_cdata = None, eg_cached_chunk = -1\<rparr>"

definition evf_load_chunk :: "zlib \<Rightarrow> offset_table \<Rightarrow> int \<Rightarrow> evf_globals \<Rightarrow> fd_table \<Rightarrow> (evf_globals \<times> fd_table \<times> bool) option" where
  "evf_load_chunk z ot chunk g fds =
     (if u64 (eg_cached_chunk g) = chunk then Some (g, fds, True)
      else do {
        fd \<leftarrow> array_get (ot_fd ot) chunk;
        offset \<leftarrow> array_get (ot_offset ot) chunk;
        chunk_size \<leftarrow> array_get (ot_size ot) chunk;
        let (fds, ok) = evf_seek fds fd offset;
        if \<not> ok then Some (g, fds, False)
        else do {
          let (fds, xs, clength) = evf_read fds fd chunk_size;
          cdata \<leftarrow> eg_cdata g;
          cdata \<leftarrow> mem_write cdata 0 xs;
          let g = g\<lparr>eg_cdata := Some cdata\<rparr>;
          if u64 clength < chunk_size then Some (g, fds, False)
          else do {
            data \<leftarrow> eg_data g;
            (data, n) \<leftarrow> unpack_chunk z (ot_chunk_size ot) chunk_size clength cdata data;
            Some (g\<lparr>eg_data := Some data, eg_cached_chunk := chunk\<rparr>, fds, True)
          }
        }
      })"

function evf_read_chunks :: "zlib \<Rightarrow> offset_table \<Rightarrow> evf_globals \<Rightarrow> fd_table \<Rightarrow> int \<Rightarrow> int \<Rightarrow> int \<Rightarrow> byte list \<Rightarrow>
    (evf_globals \<times> fd_table \<times> (sgz_error + byte list)) option" where
  "evf_read_chunks z ot g fds len chunk buffer_offset copied =
     (if \<not> len > 0 \<or> chunk \<ge> u64 (ot_max_chunk ot) then Some (g, fds, Inr copied)
      else (case evf_load_chunk z ot chunk g fds of
              None \<Rightarrow> None
            | Some (g, fds, False) \<Rightarrow> Some (g, fds, Inl E_IOERROR)
            | Some (g, fds, True) \<Rightarrow>
                (let available = min (ot_chunk_size ot - buffer_offset) len
                 in case Option.bind (eg_data g) (\<lambda>data. mem_read data buffer_offset available) of
                      None \<Rightarrow> None
                    | Some xs \<Rightarrow> evf_read_chunks z ot g fds (len - available) (chunk + 1) 0 (copied @ xs))))"
  by pat_completeness auto
termination
proof (relation "measure (\<lambda>(z, ot, g, fds, len, chunk, off, copied). nat (18446744073709551616 - chunk))", goal_cases)
  case (2 z ot g fds len chunk)
  then have "chunk < 18446744073709551616" using u64_range [of "ot_max_chunk ot"] by linarith
  then show ?case by simp
qed simp

declare evf_read_chunks.simps [simp del]

definition evf_read_random :: "zlib \<Rightarrow> (nat \<Rightarrow> byte) \<Rightarrow> offset_table \<Rightarrow> evf_globals \<Rightarrow> fd_table \<Rightarrow> int \<Rightarrow> int \<Rightarrow>
    (evf_globals \<times> fd_table \<times> (sgz_error + byte list)) option" where
  "evf_read_random z heap ot g fds len offs =
     (if ot_chunk_size ot < 0 then Some (g, fds, Inl E_NOMEMORY)
      else if ot_chunk_size ot = 0 then None
      else let n = nat (ot_chunk_size ot);
               g = (if eg_data g = None then g\<lparr>eg_data := Some (map heap [0..<n])\<rparr> else g);
               g = (if eg_cdata g = None then g\<lparr>eg_cdata := Some (map heap [0..<n + 1024])\<rparr> else g);
               chunk = u64 (s32 (offs div ot_chunk_size ot))
           in if chunk > u64 (ot_max_chunk ot) then Some (g, fds, Inl E_IOERROR)
              else evf_read_chunks z ot g fds len chunk (offs mod ot_chunk_size ot) [])"

section \<open>Opening an image\<close>

text \<open>The tool reads the header of each file and puts the descriptor where its segment says. The array of files has one element more than the
  largest segment; elements that are not set are -1.\<close>

definition evtool_initial :: "(nat \<Rightarrow> byte) \<Rightarrow> offset_table" where
  "evtool_initial heap = \<lparr>ot_chunk_size = 32768, ot_section_list = [], ot_max_chunk = 0, ot_max_segment = 1, ot_files = [-1, -1],
     ot_fd = None, ot_offset = None, ot_size = None, ot_md5 = map heap [0..<16]\<rparr>"

definition add_file :: "(nat \<Rightarrow> byte) \<Rightarrow> offset_table \<Rightarrow> fd_table \<Rightarrow> int \<Rightarrow> fd_table \<times> (sgz_error + offset_table)" where
  "add_file heap ot fds fd =
     (case evf_read_header heap fds fd of
        (fds, Inl e) \<Rightarrow> (fds, Inl e)
      | (fds, Inr h) \<Rightarrow>
          (let seg = eh_segment h;
               ot = (if ot_max_segment ot < seg
                     then ot\<lparr>ot_files := ot_files ot @ replicate (nat (seg - ot_max_segment ot)) (-1), ot_max_segment := seg\<rparr>
                     else ot)
           in if ot_files ot ! nat seg > 0 then (fds, Inl E_GENERIC)
              else (fds, Inr (ot\<lparr>ot_files := (ot_files ot)[nat seg := fd]\<rparr>))))"

fun add_files :: "(nat \<Rightarrow> byte) \<Rightarrow> offset_table \<Rightarrow> fd_table \<Rightarrow> int list \<Rightarrow> fd_table \<times> (sgz_error + offset_table)" where
  "add_files heap ot fds [] = (fds, Inr ot)"
| "add_files heap ot fds (fd # rest) =
     (case add_file heap ot fds fd of
        (fds, Inl e) \<Rightarrow> (fds, Inl e)
      | (fds, Inr ot) \<Rightarrow> add_files heap ot fds rest)"

text \<open>The sections of one file, until one does not point behind itself. The variable \<open>old_section_offset\<close> has 32 bits with a sign and
  is compared without, so that it is as large as it can be when the last section was above 2147483647: the file ends there.
  The answer has the last section that was read.\<close>

partial_function (option) evtool_sections :: "zlib \<Rightarrow> (nat \<Rightarrow> byte) \<Rightarrow> (nat \<Rightarrow> int) \<Rightarrow> int \<Rightarrow> int \<Rightarrow> int \<Rightarrow> offset_table \<Rightarrow> fd_table \<Rightarrow>
    (fd_table \<times> (sgz_error + offset_table \<times> evf_section_header)) option" where
  "evtool_sections z heap junk stack i old_section_offset ot fds =
     (case array_get (Some (ot_files ot)) i of
        None \<Rightarrow> None
      | Some fd \<Rightarrow>
          (case evf_read_section heap fds fd of
             (fds, Inl e) \<Rightarrow> Some (fds, Inl e)
           | (fds, Inr h) \<Rightarrow>
               (case process_section z heap junk stack h i ot fds of
                  None \<Rightarrow> None
                | Some (fds, Inl e) \<Rightarrow> Some (fds, Inl e)
                | Some (fds, Inr ot) \<Rightarrow>
                    if u64 old_section_offset \<ge> se_next h then Some (fds, Inr (ot, h))
                    else (case evf_seek fds fd (se_next h) of
                            (fds, ok) \<Rightarrow>
                              if \<not> ok then Some (fds, Inl E_IOERROR)
                              else evtool_sections z heap junk stack i (s32 (se_next h)) ot fds))))"

declare evtool_sections.simps [code]

text \<open>All segments, without the option that ignores errors, and the last section.\<close>

fun evtool_segments :: "zlib \<Rightarrow> (nat \<Rightarrow> byte) \<Rightarrow> (nat \<Rightarrow> int) \<Rightarrow> int \<Rightarrow> int list \<Rightarrow> offset_table \<Rightarrow> evf_section_header option \<Rightarrow> fd_table \<Rightarrow>
    (fd_table \<times> (sgz_error + offset_table \<times> evf_section_header option)) option" where
  "evtool_segments z heap junk stack [] ot h fds = Some (fds, Inr (ot, h))"
| "evtool_segments z heap junk stack (i # is) ot h fds =
     (case array_get (Some (ot_files ot)) i of
        None \<Rightarrow> None
      | Some fd \<Rightarrow>
          if fd < 0 then Some (fds, Inl E_IOERROR)
          else (case evtool_sections z heap junk stack i 0 ot fds of
                  None \<Rightarrow> None
                | Some (fds, Inl e) \<Rightarrow> Some (fds, Inl e)
                | Some (fds, Inr (ot, h)) \<Rightarrow> evtool_segments z heap junk stack is ot (Some h) fds))"

definition lower_byte :: "byte \<Rightarrow> byte" where
  "lower_byte c = (if 65 \<le> c \<and> c \<le> 90 then c + 32 else c)"

text \<open>\<open>evtool -d\<close> with names of files: the index of all segments, and then the image.\<close>

definition evtool_open :: "zlib \<Rightarrow> (nat \<Rightarrow> byte) \<Rightarrow> (nat \<Rightarrow> int) \<Rightarrow> int \<Rightarrow> fd_table \<Rightarrow> int list \<Rightarrow>
    (fd_table \<times> (sgz_error + offset_table)) option" where
  "evtool_open z heap junk stack fds names =
     (case add_files heap (evtool_initial heap) fds names of
        (fds, Inl e) \<Rightarrow> Some (fds, Inl e)
      | (fds, Inr ot) \<Rightarrow>
          (case evtool_segments z heap junk stack [1..ot_max_segment ot] ot None fds of
             None \<Rightarrow> None
           | Some (fds, Inl e) \<Rightarrow> Some (fds, Inl e)
           | Some (fds, Inr (ot, None)) \<Rightarrow> None
           | Some (fds, Inr (ot, Some h)) \<Rightarrow>
               if take 5 (map lower_byte (se_type h)) \<noteq> c_bytes ''done'' @ [0] then Some (fds, Inl E_IOERROR)
               else Some (fds, Inr ot)))"

definition evtool_decompress :: "zlib \<Rightarrow> (nat \<Rightarrow> byte) \<Rightarrow> (nat \<Rightarrow> int) \<Rightarrow> int \<Rightarrow> fd_table \<Rightarrow> int list \<Rightarrow> fdesc \<Rightarrow>
    (fd_table \<times> fdesc \<times> (sgz_error + bool)) option" where
  "evtool_decompress z heap junk stack fds names out =
     (case evtool_open z heap junk stack fds names of
        None \<Rightarrow> None
      | Some (fds, Inl e) \<Rightarrow> Some (fds, out, Inl e)
      | Some (fds, Inr ot) \<Rightarrow> evf_decompress_fds z heap ot fds out)"

end
