(* ===== verification/Evf_Writer.thy ===== *)
theory Evf_Writer
  imports Evf
begin

text \<open>
  The writing of expert witness files, in \<open>src/src/lib/libevf.c\<close>. A section is written with an empty header that is
  filled in at its end, and the volume section at the very end. The results of \<open>write\<close> are not looked at by the code. Names of files are
  left out: the answer is the list of the files in the order of their numbers.
\<close>

definition evf_write_file_header :: "int \<Rightarrow> fdesc \<Rightarrow> fdesc" where
  "evf_write_file_header segment fd =
     write_fd (write_fd (write_fd (write_fd fd evf_magic) [1]) (le_bytes 2 (u16 segment))) (le_bytes 2 0)"

definition evf_new_section_header :: "string \<Rightarrow> evf_section_header option" where
  "evf_new_section_header t =
     (if length t > 15 then None
      else Some \<lparr>se_type = c_bytes t @ replicate (16 - length t) 0, se_next = 0, se_size = 0, se_padding = replicate 40 0, se_crc = 0\<rparr>)"

definition seal_section :: "evf_section_header \<Rightarrow> int \<Rightarrow> int \<Rightarrow> evf_section_header option" where
  "seal_section section next len = do {
     let section = section\<lparr>se_next := next, se_size := len\<rparr>;
     crc \<leftarrow> evf_crc (section_bytes section) (SIZEOF_SECTION - 4) 1;
     Some (section\<lparr>se_crc := crc\<rparr>)
   }"

text \<open>The position of the next section is the answer; an exception is \<open>Inl\<close>.\<close>

definition evf_write_section :: "int \<Rightarrow> evf_section_header \<Rightarrow> fdesc \<Rightarrow> (fdesc \<times> (sgz_error + int)) option" where
  "evf_write_section section_position section outfd = do {
     let next = u64 (int (fd_pos outfd));
     section \<leftarrow> seal_section section next (u64 (next - section_position));
     let (outfd, ok) = lseek_set outfd (u64 section_position);
     if \<not> ok then Some (outfd, Inl E_IOERROR)
     else do {
       let (outfd, n) = write_count outfd (section_bytes section);
       if n < 0 then Some (outfd, Inl E_IOERROR)
       else do {
         let (outfd, ok) = lseek_set outfd next;
         if \<not> ok then Some (outfd, Inl E_IOERROR) else Some (outfd, Inr (s32 next))
       }
     }
   }"

definition evf_new_volume :: evf_volume_header where
  "evf_new_volume = \<lparr>ev_reserved = 1, ev_chunk_count = 0, ev_sectors_per_chunk = 64, ev_bytes_per_sector = 512, ev_sector_count = 0,
     ev_rest = replicate 1028 0, ev_crc = 0\<rparr>"

text \<open>\<open>ew_files\<close> are the files before the current one, \<open>ew_position\<close> is \<open>section_position\<close>, \<open>ew_chunks\<close> is the number of
  chunks in the volume header.\<close>

record evf_writer =
  ew_in :: fdesc
  ew_files :: "fdesc list"
  ew_out :: fdesc
  ew_segment :: int
  ew_position :: int
  ew_chunks :: int
  ew_data :: "byte list"
  ew_cdata :: "byte list"
  ew_md5 :: "long_word md5_ctx"

text \<open>A section: its empty header, what is written behind it, and the header again.\<close>

definition put_section :: "string \<Rightarrow> (fdesc \<Rightarrow> fdesc) \<Rightarrow> evf_writer \<Rightarrow> (evf_writer \<times> sgz_error option) option" where
  "put_section t body s = do {
     section \<leftarrow> evf_new_section_header t;
     let outfd = body (write_fd (ew_out s) (section_bytes section));
     (outfd, r) \<leftarrow> evf_write_section (s32 (ew_position s)) section outfd;
     case r of
       Inl e \<Rightarrow> Some (s\<lparr>ew_out := outfd\<rparr>, Some e)
     | Inr next \<Rightarrow> Some (s\<lparr>ew_out := outfd, ew_position := u32 next\<rparr>, None)
   }"

definition CRLF :: string where "CRLF = [CHR 0x0D, CHR 0x0A]"
definition TAB :: string where "TAB = [CHR 0x09]"

definition evf_header_text :: string where
  "evf_header_text = ''1'' @ CRLF @ ''main'' @ CRLF @ ''c'' @ TAB @ ''n'' @ TAB @ ''a'' @ TAB @ ''e'' @ TAB @ ''t'' @ TAB @ ''av'' @ TAB @ ''ov'' @ TAB @ ''m''
     @ TAB @ ''u'' @ TAB @ ''p'' @ TAB @ ''r'' @ CRLF @ ''1'' @ TAB @ ''1'' @ TAB @ ''1'' @ TAB @ ''1'' @ TAB @ ''1'' @ TAB @ ''3.18b'' @ TAB @ ''Windows 2000''
     @ TAB @ ''2004 2 16 17 32 15'' @ TAB @ ''2004 2 16 17 32 7'' @ TAB @ ''0'' @ TAB @ ''f'' @ CRLF @ CRLF"

text \<open>The two header sections at the start.\<close>

definition put_header :: "zlib \<Rightarrow> int \<Rightarrow> evf_writer \<Rightarrow> (evf_writer \<times> sgz_error option) option" where
  "put_header z chunk_size s = do {
     let text = c_bytes evf_header_text;
     data \<leftarrow> mem_write (ew_data s) 0 text;
     let (code, out, clength) = z_compress2 z (nat chunk_size) text (-1);
     cdata \<leftarrow> mem_write (ew_cdata s) 0 out;
     xs \<leftarrow> mem_read cdata 0 (int clength);
     put_section ''header'' (\<lambda>fd. write_fd fd xs) (s\<lparr>ew_data := data, ew_cdata := cdata\<rparr>)
   }"

text \<open>One chunk: the writer, its size in the file, and the length that is counted.\<close>

definition put_chunk :: "zlib \<Rightarrow> int \<Rightarrow> evf_writer \<Rightarrow> (evf_writer \<times> int \<times> int) option" where
  "put_chunk z chunk_size s = do {
     md5 \<leftarrow> MD5_Update (ew_md5 s) (ew_data s) (u32 chunk_size);
     src \<leftarrow> mem_read (ew_data s) 0 chunk_size;
     let (code, out, clength) = z_compress2 z (nat (chunk_size + 1024)) src (-1);
     cdata \<leftarrow> mem_write (ew_cdata s) 0 out;
     let s = s\<lparr>ew_md5 := md5, ew_cdata := cdata\<rparr>;
     if int clength < chunk_size
     then do {
       xs \<leftarrow> mem_read cdata 0 (int clength);
       Some (s\<lparr>ew_out := write_fd (ew_out s) xs\<rparr>, int clength, int clength)
     }
     else Some (s\<lparr>ew_out := write_fd (ew_out s) src\<rparr>, chunk_size, int clength)
   }"

text \<open>The chunks of a section, with their sizes. The loop ends at the end of the input: what was read of the last chunk, when it is not
  a whole one, is given up.\<close>

function put_chunks :: "zlib \<Rightarrow> int \<Rightarrow> int \<Rightarrow> evf_writer \<Rightarrow> int list \<Rightarrow> int \<Rightarrow> (evf_writer \<times> int list \<times> int \<times> bool) option" where
  "put_chunks z chunk_size max_size s sizes current_file_length =
     (if int (length sizes) < 16375 \<and> current_file_length < max_size
      then (case read_from_stream (ew_in s) chunk_size of
              (infd, xs, r) \<Rightarrow>
                (case mem_write (ew_data s) 0 xs of
                   None \<Rightarrow> None
                 | Some data \<Rightarrow>
                     (let s = s\<lparr>ew_in := infd, ew_data := data\<rparr>
                      in if r < chunk_size then Some (s, sizes, current_file_length, True)
                         else (case put_chunk z chunk_size s of
                                 None \<Rightarrow> None
                               | Some (s, n, clength) \<Rightarrow>
                                   put_chunks z chunk_size max_size s (sizes @ [n]) (s32 (current_file_length + clength))))))
      else Some (s, sizes, current_file_length, False))"
  by pat_completeness auto
termination
  by (relation "measure (\<lambda>(z, c, n, s, sizes, l). 16375 - length sizes)") auto

declare put_chunks.simps [simp del]

text \<open>The table: its header and the offsets of the chunks. The variable that is written has the type \<open>long\<close>.\<close>

fun put_offsets :: "int \<Rightarrow> int list \<Rightarrow> fdesc \<Rightarrow> fdesc" where
  "put_offsets result [] fd = fd"
| "put_offsets result (n # sizes) fd = put_offsets (result + n) sizes (write_fd fd (le_bytes 8 result))"

definition new_table :: "int \<Rightarrow> evf_table_header option" where
  "new_table count = do {
     let t = \<lparr>et_count = count, et_padding = replicate 16 0, et_crc = 0\<rparr>;
     crc \<leftarrow> evf_crc (table_bytes t) (SIZEOF_TABLE - 4) 1;
     Some (t\<lparr>et_crc := crc\<rparr>)
   }"

definition put_table :: "int \<Rightarrow> int list \<Rightarrow> evf_writer \<Rightarrow> (evf_writer \<times> sgz_error option) option" where
  "put_table result sizes s = do {
     t \<leftarrow> new_table (int (length sizes));
     put_section ''table'' (\<lambda>fd. put_offsets result sizes (write_fd fd (table_bytes t))) s
   }"

text \<open>The digest with four numbers, and a checksum in eight bytes. The section that follows points at itself.\<close>

definition hash_bytes :: "byte list \<Rightarrow> byte list" where
  "hash_bytes digest = digest @ le_bytes 4 0 @ le_bytes 4 0x010EF7EC @ le_bytes 4 0 @ le_bytes 4 0x77F516B3"

definition put_last :: "string \<Rightarrow> evf_writer \<Rightarrow> evf_writer option" where
  "put_last t s = do {
     section \<leftarrow> evf_new_section_header t;
     section \<leftarrow> seal_section section (ew_position s) 0;
     Some (s\<lparr>ew_out := write_fd (ew_out s) (section_bytes section)\<rparr>)
   }"

definition put_hash :: "evf_writer \<Rightarrow> (evf_writer \<times> sgz_error option) option" where
  "put_hash s = do {
     digest \<leftarrow> MD5_Final (ew_md5 s);
     let s = s\<lparr>ew_position := u32 (int (fd_pos (ew_out s)))\<rparr>;
     crc \<leftarrow> evf_crc (hash_bytes digest) 32 1;
     (s, e) \<leftarrow> put_section ''hash'' (\<lambda>fd. write_fd (write_fd fd (hash_bytes digest)) (le_bytes 8 crc)) s;
     case e of
       Some e \<Rightarrow> Some (s, Some e)
     | None \<Rightarrow> map_option (\<lambda>s. (s, None)) (put_last ''done'' s)
   }"

text \<open>The next file. \<open>new_file\<close> is the file that is made for a number; a number of three digits does not fit into the name.\<close>

definition next_file :: "(int \<Rightarrow> fdesc) \<Rightarrow> evf_writer \<Rightarrow> evf_writer option" where
  "next_file new_file s = do {
     s \<leftarrow> put_last ''next'' s;
     let segment = ew_segment s + 1;
     if segment > 99 then None
     else let outfd = evf_write_file_header segment (new_file segment)
          in Some (s\<lparr>ew_files := ew_files s @ [ew_out s], ew_out := outfd, ew_segment := segment,
                     ew_position := u32 (int (fd_pos outfd))\<rparr>)
   }"

text \<open>A turn of the outer loop: the sectors, the table, and the end of the image or of the file. The answer says if it was the last turn.\<close>

definition put_part :: "zlib \<Rightarrow> (int \<Rightarrow> fdesc) \<Rightarrow> int \<Rightarrow> int \<Rightarrow> evf_writer \<Rightarrow> (evf_writer \<times> (sgz_error + bool)) option" where
  "put_part z new_file chunk_size max_size s = do {
     section \<leftarrow> evf_new_section_header ''sectors'';
     let s = s\<lparr>ew_out := write_fd (ew_out s) (section_bytes section)\<rparr>;
     (s, sizes, current_file_length, finished) \<leftarrow> put_chunks z chunk_size max_size s [] 0;
     let s = s\<lparr>ew_chunks := u32 (ew_chunks s + int (length sizes))\<rparr>;
     let result = ew_position s + int SIZEOF_SECTION;
     (outfd, r) \<leftarrow> evf_write_section (s32 (ew_position s)) section (ew_out s);
     case r of
       Inl e \<Rightarrow> Some (s\<lparr>ew_out := outfd\<rparr>, Inl e)
     | Inr next \<Rightarrow> do {
         (s, e) \<leftarrow> put_table result sizes (s\<lparr>ew_out := outfd, ew_position := u32 next\<rparr>);
         case e of
           Some e \<Rightarrow> Some (s, Inl e)
         | None \<Rightarrow>
             if finished then do {
               (s, e) \<leftarrow> put_hash s;
               Some (s, case e of None \<Rightarrow> Inr True | Some e \<Rightarrow> Inl e)
             }
             else if current_file_length > max_size then map_option (\<lambda>s. (s, Inr False)) (next_file new_file s)
             else Some (s, Inr False)
       }
   }"

partial_function (option) put_parts :: "zlib \<Rightarrow> (int \<Rightarrow> fdesc) \<Rightarrow> int \<Rightarrow> int \<Rightarrow> evf_writer \<Rightarrow> (evf_writer \<times> sgz_error option) option" where
  "put_parts z new_file chunk_size max_size s =
     (case put_part z new_file chunk_size max_size s of
        None \<Rightarrow> None
      | Some (s, Inl e) \<Rightarrow> Some (s, Some e)
      | Some (s, Inr last_one) \<Rightarrow> if last_one then Some (s, None) else put_parts z new_file chunk_size max_size s)"

declare put_parts.simps [code]

definition finish_volume :: "int \<Rightarrow> evf_writer \<Rightarrow> (evf_writer \<times> sgz_error option) option" where
  "finish_volume volume_offset s = do {
     let v = evf_new_volume\<lparr>ev_chunk_count := ew_chunks s, ev_sector_count := u32 (ew_chunks s * 64)\<rparr>;
     crc \<leftarrow> evf_crc (volume_bytes v) (SIZEOF_VOLUME - 4) 1;
     let xs = volume_bytes (v\<lparr>ev_crc := crc\<rparr>);
     case ew_files s of
       [] \<Rightarrow> (let (fd, ok) = lseek_set (ew_out s) (u64 volume_offset)
              in if ok then Some (s\<lparr>ew_out := write_fd fd xs\<rparr>, None) else Some (s, Some E_IOERROR))
     | first # files \<Rightarrow> (let (fd, ok) = lseek_set first (u64 volume_offset)
              in if ok then Some (s\<lparr>ew_files := write_fd fd xs # files\<rparr>, None) else Some (s, Some E_IOERROR))
   }"

text \<open>The whole: the files that are written, and the exception.\<close>

definition evf_compress_fds :: "zlib \<Rightarrow> (nat \<Rightarrow> byte) \<Rightarrow> (int \<Rightarrow> fdesc) \<Rightarrow> int \<Rightarrow> fdesc \<Rightarrow> int \<Rightarrow> (fdesc list \<times> sgz_error option) option" where
  "evf_compress_fds z heap new_file chunk_size infd max_size = do {
     data \<leftarrow> malloc_block heap chunk_size;
     cdata \<leftarrow> malloc_block heap (chunk_size + 1024);
     let outfd = evf_write_file_header 1 (new_file 1);
     let s = \<lparr>ew_in = infd, ew_files = [], ew_out = outfd, ew_segment = 1, ew_position = u32 (int (fd_pos outfd)), ew_chunks = 0,
              ew_data = data, ew_cdata = cdata, ew_md5 = MD5_Init heap\<rparr>;
     let files = (\<lambda>s. ew_files s @ [ew_out s]);
     (s, e) \<leftarrow> put_header z chunk_size s;
     if e \<noteq> None then Some (files s, e)
     else do {
       (s, e) \<leftarrow> put_header z chunk_size s;
       if e \<noteq> None then Some (files s, e)
       else do {
         let volume_offset = int (fd_pos (ew_out s)) + int SIZEOF_SECTION;
         (s, e) \<leftarrow> put_section ''volume'' (\<lambda>fd. write_fd fd (volume_bytes evf_new_volume)) s;
         if e \<noteq> None then Some (files s, e)
         else do {
           (s, e) \<leftarrow> put_parts z new_file chunk_size max_size s;
           if e \<noteq> None then Some (files s, e)
           else do {
             (s, e) \<leftarrow> finish_volume (s32 volume_offset) s;
             Some (files s, e)
           }
         }
       }
     }
   }"

end
