(* ===== verification/Evf_Correct.thy ===== *)
theory Evf_Correct
  imports Evf_Writer Sgzip_Correct
begin

text \<open>
  What is proved of the expert witness format: the checksum is Adler-32, the tables of a file lead to the chunks of its image, the
  image is restored and its parts are read, and what goes wrong: tables of one chunk or none, offsets of eight bytes, the end of the image.
\<close>

section \<open>The checksum\<close>

fun adler32_loop :: "int \<Rightarrow> int \<Rightarrow> byte list \<Rightarrow> int \<times> int" where
  "adler32_loop a b [] = (a, b)"
| "adler32_loop a b (c # cs) = adler32_loop ((a + uint c) mod 65521) ((b + (a + uint c)) mod 65521) cs"

definition adler32 :: "byte list \<Rightarrow> int" where
  "adler32 m = (case adler32_loop 1 0 m of (a, b) \<Rightarrow> b * 65536 + a)"

text \<open>The sums grow in runs that start from \<open>S\<close> and \<open>D\<close>: a run has at most 5553 bytes, the first one, from 1 and 0.\<close>

definition crc_run :: "int \<Rightarrow> int \<Rightarrow> int \<Rightarrow> int \<Rightarrow> int \<Rightarrow> bool" where
  "crc_run S D j b d \<longleftrightarrow> 0 \<le> b \<and> 0 \<le> d \<and> b \<le> S + 255 * j \<and> 2 * d \<le> 2 * D + 2 * S * j + 255 * (j * (j + 1))"

definition crc_at :: "int \<Rightarrow> int \<Rightarrow> int \<Rightarrow> bool" where
  "crc_at i b d \<longleftrightarrow> (0 \<le> i \<and> i \<le> 5552 \<and> crc_run 1 0 i b d) \<or>
     (0 < i \<and> (\<exists>j. 0 \<le> j \<and> j < 5552 \<and> i mod 5552 = (j + 1) mod 5552 \<and> crc_run 65520 65520 j b d))"

lemma crc_run_step:
  assumes "crc_run S D j b d" and "0 \<le> c" and "c \<le> 255"
  shows "crc_run S D (j + 1) (b + c) (d + (b + c))"
proof -
  have "(j + 1) * (j + 1 + 1) = j * (j + 1) + 2 * (j + 1)" by (simp add: algebra_simps)
  then show ?thesis using assms by (simp add: crc_run_def algebra_simps)
qed

lemma crc_run_bound:
  assumes "crc_run S D j b d" and "0 \<le> j" and "j \<le> 5552 \<and> S = 65520 \<and> D = 65520 \<or> j \<le> 5553 \<and> S = 1 \<and> D = 0"
  shows "b < 4294967296" and "d < 4294967296"
proof -
  show "b < 4294967296" using assms by (auto simp: crc_run_def)
  show "d < 4294967296"
  proof (cases "S = 1")
    case True
    then have "j \<le> 5553" "D = 0" using assms(3) by auto
    then have "j * (j + 1) \<le> 5553 * 5554" using assms(2) by (intro mult_mono) simp_all
    then show ?thesis using assms(1,2) True \<open>D = 0\<close> \<open>j \<le> 5553\<close> by (simp add: crc_run_def)
  next
    case False
    then have "j \<le> 5552" "D = 65520" "S = 65520" using assms(3) by auto
    then have "j * (j + 1) \<le> 5552 * 5553" using assms(2) by (intro mult_mono) simp_all
    then show ?thesis using assms(1,2) \<open>S = 65520\<close> \<open>D = 65520\<close> \<open>j \<le> 5552\<close> by (simp add: crc_run_def)
  qed
qed

lemma crc_at_step:
  assumes "crc_at i b d" and "0 \<le> c" and "c \<le> 255"
  shows "u32 (b + c) = b + c" and "u32 (d + (b + c)) = d + (b + c)"
    and "i mod 5552 \<noteq> 0 \<or> i = 0 \<Longrightarrow> crc_at (i + 1) (b + c) (d + (b + c))"
    and "i \<noteq> 0 \<Longrightarrow> i mod 5552 = 0 \<Longrightarrow> crc_at (i + 1) ((b + c) mod 65521) ((d + (b + c)) mod 65521)"
proof -
  consider (first) "0 \<le> i" "i \<le> 5552" "crc_run 1 0 i b d"
    | (later) j where "0 < i" "0 \<le> j" "j < 5552" "i mod 5552 = (j + 1) mod 5552" "crc_run 65520 65520 j b d"
    using assms(1) unfolding crc_at_def by blast
  then have "b + c < 4294967296 \<and> d + (b + c) < 4294967296 \<and> 0 \<le> b \<and> 0 \<le> d \<and>
      (i mod 5552 \<noteq> 0 \<or> i = 0 \<longrightarrow> crc_at (i + 1) (b + c) (d + (b + c))) \<and> 0 \<le> i"
  proof cases
    case first
    note r = crc_run_step [OF first(3) assms(2,3)]
    have "i \<le> 5551 \<or> i = 5552" using first by linarith
    then have "i mod 5552 \<noteq> 0 \<or> i = 0 \<Longrightarrow> i + 1 \<le> 5552" by auto
    then show ?thesis using crc_run_bound [OF r] first r by (auto simp: crc_at_def crc_run_def)
  next
    case later
    note r = crc_run_step [OF later(5) assms(2,3)]
    have j: "0 \<le> j + 1" "j + 1 \<le> 5552" using later(2,3) by simp_all
    have more: "crc_at (i + 1) (b + c) (d + (b + c))" if "i mod 5552 \<noteq> 0 \<or> i = 0"
    proof -
      have "j \<noteq> 5551" using that later(1,4) by auto
      then have "j + 1 < 5552" using later(3) by linarith
      moreover have "(i + 1) mod 5552 = (j + 1 + 1) mod 5552" using later(4) by (rule mod_add_cong) (rule refl)
      moreover have "0 < i + 1" using later(1) by simp
      ultimately show ?thesis using j(1) r unfolding crc_at_def by blast
    qed
    have "b + c < 4294967296" "d + (b + c) < 4294967296" using crc_run_bound [OF r j(1)] j(2) by simp_all
    moreover have "0 \<le> b" "0 \<le> d" using later(5) by (simp_all add: crc_run_def)
    ultimately show ?thesis using more later(1) by simp
  qed
  then show "u32 (b + c) = b + c" and "u32 (d + (b + c)) = d + (b + c)"
    and "i mod 5552 \<noteq> 0 \<or> i = 0 \<Longrightarrow> crc_at (i + 1) (b + c) (d + (b + c))"
    using assms(2) by (simp_all add: u32_id)
  have "0 \<le> i" using assms(1) by (auto simp: crc_at_def)
  show "i \<noteq> 0 \<Longrightarrow> i mod 5552 = 0 \<Longrightarrow> crc_at (i + 1) ((b + c) mod 65521) ((d + (b + c)) mod 65521)"
  proof -
    assume a: "i \<noteq> 0" "i mod 5552 = 0"
    have "(i + 1) mod 5552 = 1" using a(2) mod_add_left_eq [of i 5552 1] by simp
    moreover have "crc_run 65520 65520 0 (x mod 65521) (y mod 65521)" for x y :: int
      using pos_mod_bound [of 65521 x] pos_mod_bound [of 65521 y] by (auto simp: crc_run_def)
    ultimately show ?thesis using a \<open>0 \<le> i\<close> by (auto simp: crc_at_def intro!: exI [of _ 0])
  qed
qed

lemma crc_loop_adler:
  assumes "crc_at i b d" and "cs \<noteq> []" and "n = i + int (length cs)" and "2 \<le> n" and "0 \<le> i"
  shows "crc_loop cs i n b d = adler32_loop (b mod 65521) (d mod 65521) cs"
  using assms
proof (induction cs arbitrary: i b d)
  case (Cons c cs)
  have c: "0 \<le> uint c" "uint c \<le> 255" using uint_bounded [of c] by simp_all
  note step = crc_at_step [OF Cons.prems(1) c]
  have m: "(b mod 65521 + uint c) mod 65521 = (b + uint c) mod 65521"
    "(d mod 65521 + (b mod 65521 + uint c)) mod 65521 = (d + (b + uint c)) mod 65521"
    using mod_add_eq [of d 65521 "b mod 65521 + uint c"] mod_add_eq [of d 65521 "b + uint c"] by (simp_all add: mod_add_left_eq)
  show ?case
  proof (cases "cs = []")
    case True
    then show ?thesis using Cons.prems(3,4) step(1,2) m by (simp add: Let_def)
  next
    case False
    have IH: "crc_loop cs (i + 1) n b' d' = adler32_loop (b' mod 65521) (d' mod 65521) cs" if "crc_at (i + 1) b' d'" for b' d'
      using Cons.IH [OF that False] Cons.prems(3-5) by simp
    have last: "i \<noteq> n - 1" using Cons.prems(3) False by (cases cs) auto
    show ?thesis
    proof (cases "i \<noteq> 0 \<and> i mod 5552 = 0")
      case True
      then have t: "i \<noteq> 0 \<and> (i mod 5552 = 0 \<or> i = n - 1)" by simp
      have "crc_loop (c # cs) i n b d = crc_loop cs (i + 1) n ((b + uint c) mod 65521) ((d + (b + uint c)) mod 65521)"
        unfolding crc_loop.simps Let_def step(1,2) if_P [OF t] by (rule refl)
      then show ?thesis using IH [OF step(4)] True m unfolding adler32_loop.simps by (simp only: mod_mod_trivial simp_thms)
    next
      case False
      then have t: "\<not> (i \<noteq> 0 \<and> (i mod 5552 = 0 \<or> i = n - 1))" using last by simp
      have "crc_loop (c # cs) i n b d = crc_loop cs (i + 1) n (b + uint c) (d + (b + uint c))"
        unfolding crc_loop.simps Let_def step(1,2) if_not_P [OF t] by (rule refl)
      moreover have "i mod 5552 \<noteq> 0 \<or> i = 0" using False by auto
      ultimately show ?thesis using IH [OF step(3)] m unfolding adler32_loop.simps by (simp only: simp_thms)
    qed
  qed
qed simp

text \<open>C24 (evf_crc_adler32). The checksum from 1 is Adler-32 of the bytes, for every number of them: no sum leaves its 32 bits
  between two reductions, and the last reduction that is left out for one byte is not missed.\<close>

theorem evf_crc_adler32:
  assumes "n \<le> length buffer"
  shows "evf_crc buffer n 1 = Some (adler32 (take n buffer))"
proof -
  define m where "m = take n buffer"
  have n: "n = length m" using assms by (simp add: m_def)
  have "crc_loop m 0 (int n) 1 0 = adler32_loop 1 0 m"
  proof (cases "2 \<le> n")
    case True
    then show ?thesis using crc_loop_adler [of 0 1 0 m "int n"] n by (cases "m = []") (auto simp: crc_at_def crc_run_def)
  next
    case False
    then consider "m = []" | c where "m = [c]" using n by (cases m; cases "tl m") auto
    then show ?thesis
    proof cases
      case 2
      have "uint c < 256" using uint_bounded [of c] by simp
      then show ?thesis using 2 n by (simp add: u32_id Let_def)
    qed simp
  qed
  moreover have "or (u32 (d * 65536)) b = d * 65536 + b" if "adler32_loop 1 0 m = (b, d)" for b d
  proof -
    have "0 \<le> a' \<and> a' < 65521 \<and> 0 \<le> b' \<and> b' < 65521" if "adler32_loop a b xs = (a', b')" "0 \<le> a" "a < 65521" "0 \<le> b" "b < 65521"
      for a b a' b' xs using that by (induction a b xs rule: adler32_loop.induct) auto
    from this [OF that] have r: "0 \<le> b" "b < 65536" "0 \<le> d" "d < 65536" by auto
    then have "u32 (d * 65536) = push_bit 16 d" by (simp add: u32_id push_bit_eq_mult)
    moreover have "b = take_bit 16 b" using r by (simp add: take_bit_int_eq_self)
    then have "push_bit 16 d + b = or (push_bit 16 d) b"
      by (intro disjunctive_add) (metis bit_push_bit_iff bit_take_bit_iff not_le)
    ultimately show ?thesis by (simp add: push_bit_eq_mult)
  qed
  ultimately show ?thesis using assms by (simp add: evf_crc_def adler32_def m_def [symmetric] split: prod.split)
qed

lemma evf_crc_adler32_witness: "evf_crc [97, 98, 99] 3 1 = Some 0x024D0127"
  using evf_crc_adler32 [of 3 "[97, 98, 99]"] by (simp add: adler32_def)

section \<open>Files that are open\<close>

definition fd_open :: "fd_table \<Rightarrow> int \<Rightarrow> byte list \<Rightarrow> nat \<Rightarrow> bool" where
  "fd_open fds fd D p \<longleftrightarrow> (\<exists>f. fds fd = Some f \<and> moving f \<and> fd_data f = D \<and> fd_pos f = p)"

definition same_but :: "int \<Rightarrow> fd_table \<Rightarrow> fd_table \<Rightarrow> bool" where
  "same_but fd fds fds' \<longleftrightarrow> (\<forall>g. g \<noteq> fd \<longrightarrow> fds' g = fds g)"

lemma same_but_refl [simp]: "same_but fd fds fds"
  by (simp add: same_but_def)

lemma same_but_trans: "same_but fd a b \<Longrightarrow> same_but fd b c \<Longrightarrow> same_but fd a c"
  by (simp add: same_but_def)

lemma read_fd_pos: "read_fd fd n = (fd', xs, r) \<Longrightarrow> fd_pos fd' = fd_pos fd + length xs"
  by (auto simp: read_fd_def Let_def split: if_splits)

lemma read_from_stream_pos: "read_from_stream fd n = (fd', xs, r) \<Longrightarrow> fd_pos fd' = fd_pos fd + length xs"
proof (induction fd n arbitrary: fd' xs r rule: read_from_stream.induct)
  case (1 fd n)
  obtain fd1 ys s where y: "read_fd fd (nat n) = (fd1, ys, s)" by (metis prod_cases3)
  obtain fd2 zs t where z: "read_from_stream fd1 (n - int (length ys)) = (fd2, zs, t)" by (metis prod_cases3)
  note p = read_fd_pos [OF y]
  show ?case
  proof (cases "n > 0 \<and> \<not> s < 0 \<and> ys \<noteq> []")
    case True
    then have "fd_pos fd2 = fd_pos fd1 + length zs" using 1(1) [OF _ y [symmetric] refl _ _ z] by simp
    then show ?thesis using 1(2) True p y z by (auto simp: read_from_stream.simps [of fd n])
  next
    case False
    then show ?thesis using 1(2) p y read_fd_rest [OF y] by (auto simp: read_from_stream.simps [of fd n] split: if_splits)
  qed
qed

lemma evf_read_open:
  assumes "fd_open fds fd D p" and "p + n \<le> length D"
  obtains fds' where "evf_read fds fd (int n) = (fds', take n (drop p D), int n)" "fd_open fds' fd D (p + n)" "same_but fd fds fds'"
proof -
  obtain f where f: "fds fd = Some f" "moving f" "fd_data f = D" "fd_pos f = p" using assms(1) by (auto simp: fd_open_def)
  have r: "fd_rest f = drop p D" using f by (simp add: fd_rest_def)
  have l: "length (take n (drop p D)) = n" using assms(2) by simp
  obtain f' where f': "read_from_stream f (int n) = (f', take n (drop p D), int n)" "moving f'" "fd_data f' = D"
    using read_from_stream_moving [OF f(2), of "int n"] r l f(3) by auto
  have "fd_pos f' = p + n" using read_from_stream_pos [OF f'(1)] f(4) l by simp
  then show ?thesis using that [of "fds(fd := Some f')"] f f' by (simp add: evf_read_def fd_open_def same_but_def)
qed

lemma evf_seek_open:
  assumes "fd_open fds fd D p" and "int q < 9223372036854775808"
  obtains fds' where "evf_seek fds fd (int q) = (fds', True)" "fd_open fds' fd D q" "same_but fd fds fds'"
proof -
  obtain f where f: "fds fd = Some f" "moving f" "fd_data f = D" using assms(1) by (auto simp: fd_open_def)
  have "lseek_set f (int q) = (f\<lparr>fd_pos := q\<rparr>, True)" using assms(2) by (simp add: lseek_set_def s64_id)
  then show ?thesis using that [of "fds(fd := Some (f\<lparr>fd_pos := q\<rparr>))"] f
    by (simp add: evf_seek_def fd_open_def same_but_def moving_def)
qed

lemma evf_tell_open: "fd_open fds fd D p \<Longrightarrow> evf_tell fds fd = int p"
  by (auto simp: fd_open_def evf_tell_def)

section \<open>Tables\<close>

text \<open>Where the chunks of a section start.\<close>

fun starts :: "int \<Rightarrow> byte list list \<Rightarrow> int list" where
  "starts a [] = []"
| "starts a (c # cs) = a # starts (a + int (length c)) cs"

lemma length_starts [simp]: "length (starts a cs) = length cs"
  by (induction a cs rule: starts.induct) simp_all

lemma starts_nth: "k < length cs \<Longrightarrow> starts a cs ! k = a + int (length (concat (take k cs)))"
proof (induction a cs arbitrary: k rule: starts.induct)
  case (2 a c cs)
  then show ?case by (cases k) simp_all
qed simp

lemma starts_next: "Suc k < length cs \<Longrightarrow> starts a cs ! Suc k - starts a cs ! k = int (length (cs ! k))"
  by (simp add: starts_nth take_Suc_conv_app_nth)

lemma words4_bytes: "\<forall>e\<in>set es. 0 \<le> e \<and> e < 4294967296 \<Longrightarrow> words4 (concat (map (le_bytes 4) es) @ m) = es @ words4 m"
proof (induction es)
  case (Cons e es)
  obtain a b c d where m: "le_bytes 4 e = [a, b, c, d]" by (simp add: eval_nat_numeral)
  have "le_val [a, b, c, d] = e" using le_val_le_bytes [of e 4] Cons.prems m by simp
  then show ?case using Cons m by simp
qed simp

lemma table_of_bytes:
  assumes "0 \<le> et_count t" "et_count t < 4294967296" "length (et_padding t) = 16" "0 \<le> et_crc t" "et_crc t < 4294967296"
  shows "table_of (table_bytes t) = t" and "length (table_bytes t) = SIZEOF_TABLE"
  using assms by (simp_all add: table_of_def table_bytes_def SIZEOF_TABLE_def le_val_le_bytes)

text \<open>The entries of an index: descriptor, offset and size of each chunk.\<close>

definition entries :: "offset_table \<Rightarrow> (int \<times> int \<times> int) list" where
  "entries ot = (case (ot_fd ot, ot_offset ot, ot_size ot) of
      (Some F, Some A, Some Z) \<Rightarrow> map (\<lambda>k. (F ! k, A ! k, Z ! k)) [0..<nat (ot_max_chunk ot)]
    | _ \<Rightarrow> [])"

definition arrays :: "offset_table \<Rightarrow> int list \<Rightarrow> int list \<Rightarrow> int list \<Rightarrow> nat \<Rightarrow> bool" where
  "arrays ot F A Z n \<longleftrightarrow> ot_fd ot = Some F \<and> ot_offset ot = Some A \<and> ot_size ot = Some Z \<and> ot_max_chunk ot = int n \<and>
     n \<le> length F \<and> n \<le> length A \<and> n \<le> length Z"

lemma entries_arrays: "arrays ot F A Z n \<Longrightarrow> entries ot = zip (take n F) (zip (take n A) (take n Z))"
  by (auto simp: arrays_def entries_def intro!: nth_equalityI)

text \<open>The index without its entries.\<close>

definition same_table :: "offset_table \<Rightarrow> offset_table \<Rightarrow> bool" where
  "same_table ot ot' \<longleftrightarrow> ot_chunk_size ot' = ot_chunk_size ot \<and> ot_section_list ot' = ot_section_list ot \<and>
     ot_max_segment ot' = ot_max_segment ot \<and> ot_files ot' = ot_files ot \<and> ot_md5 ot' = ot_md5 ot"

lemma table_entry_ok:
  assumes "arrays ot F A Z n" and "n + 1 < length A" and "n < length F" and "n < length Z"
  shows "\<exists>ot'. table_entry fd ot old_offset = Some (ot', A ! (n + 1) mod 0x80000000) \<and>
    arrays ot' (F[n := fd]) (A[n := old_offset]) (Z[n := u16 (A ! (n + 1) mod 0x80000000 - old_offset)]) (n + 1) \<and> same_table ot ot'"
proof -
  have "nat (int n + 1) = n + 1" by simp
  then show ?thesis using assms
    by (auto simp: table_entry_def arrays_def array_get_def array_set_def same_table_def add.commute Let_def)
qed

lemma table_loop_ok:
  assumes "arrays ot F A Z (m + i)" and "m + c < length F" and "m + c < length A" and "m + c < length Z" and "i < c"
    and "old = st i" and "\<forall>k. i < k \<and> k < c \<longrightarrow> A ! (m + k) mod 0x80000000 = st k" and "int c < 4294967296"
  shows "\<exists>ot' F' A' Z'. table_loop fd (int c) (int i) ot old stack = Some (ot', if i + 1 = c then stack else st (c - 1)) \<and>
    arrays ot' F' A' Z' (m + c - 1) \<and> length F' = length F \<and> length A' = length A \<and> length Z' = length Z \<and> same_table ot ot' \<and>
    take (m + c - 1) F' = take (m + i) F @ replicate (c - 1 - i) fd \<and>
    take (m + c - 1) A' = take (m + i) A @ map st [i..<c - 1] \<and>
    take (m + c - 1) Z' = take (m + i) Z @ map (\<lambda>k. u16 (st (Suc k) - st k)) [i..<c - 1]"
  using assms
proof (induction "c - i" arbitrary: i ot F A Z old stack)
  case (Suc d)
  have c: "u32 (int c - 1) = int c - 1" using Suc.prems(5,8) by (simp add: u32_id)
  show ?case
  proof (cases "i + 1 = c")
    case True
    then have "table_loop fd (int c) (int i) ot old stack = Some (ot, stack)"
      using c by (subst table_loop.simps) simp
    moreover have "m + c - 1 = m + i" using True by simp
    ultimately show ?thesis using Suc.prems(1) True
      by (intro exI [of _ ot] exI [of _ F] exI [of _ A] exI [of _ Z]) (auto simp: same_table_def)
  next
    case False
    then have i: "i + 1 < c" using Suc.prems(5) by simp
    let ?F = "F[m + i := fd]" and ?A = "A[m + i := old]" and ?Z = "Z[m + i := u16 (st (i + 1) - old)]"
    have st: "A ! (m + i + 1) mod 0x80000000 = st (i + 1)"
      using Suc.prems(7) i by (metis add.assoc less_add_one)
    obtain ot1 where ot1: "table_entry fd ot old = Some (ot1, st (i + 1))" "arrays ot1 ?F ?A ?Z (m + (i + 1))" "same_table ot ot1"
      using table_entry_ok [OF Suc.prems(1), of fd old] st Suc.prems(2-4) i by (auto simp: add.assoc)
    have step: "table_loop fd (int c) (int i) ot old stack = table_loop fd (int c) (int (i + 1)) ot1 (st (i + 1)) (st (i + 1))"
      using ot1(1) c i by (subst table_loop.simps) (simp add: add.commute)
    have "\<forall>k. i + 1 < k \<and> k < c \<longrightarrow> ?A ! (m + k) mod 0x80000000 = st k" using Suc.prems(7) by simp
    note IH = Suc.hyps(1) [OF _ ot1(2) _ _ _ i refl this Suc.prems(8), where stack = "st (i + 1)"]
    have "d = c - (i + 1)" "m + c < length ?F" "m + c < length ?A" "m + c < length ?Z" using Suc.hyps(2) Suc.prems(2-4) by simp_all
    note IH = IH [OF this, unfolded length_list_update]
    obtain ot' F' A' Z' where
      r: "table_loop fd (int c) (int (i + 1)) ot1 (st (i + 1)) (st (i + 1)) = Some (ot', if i + 1 + 1 = c then st (i + 1) else st (c - 1))"
        "arrays ot' F' A' Z' (m + c - 1)" "length F' = length F" "length A' = length A" "length Z' = length Z" "same_table ot1 ot'"
        "take (m + c - 1) F' = take (m + (i + 1)) ?F @ replicate (c - 1 - (i + 1)) fd"
        "take (m + c - 1) A' = take (m + (i + 1)) ?A @ map st [i + 1..<c - 1]"
        "take (m + c - 1) Z' = take (m + (i + 1)) ?Z @ map (\<lambda>k. u16 (st (Suc k) - st k)) [i + 1..<c - 1]"
      using IH by blast
    have t: "take (m + (i + 1)) (xs[m + i := x]) = take (m + i) xs @ [x]" if "m + c < length xs" for xs and x :: int
      using that i by (simp add: take_Suc_conv_app_nth)
    have up: "[i..<c - 1] = i # [i + 1..<c - 1]" using i by (simp add: upt_conv_Cons)
    have rep: "replicate (c - 1 - i) fd = fd # replicate (c - 1 - (i + 1)) fd"
      using i by (metis Suc_diff_Suc add.commute less_diff_conv plus_1_eq_Suc replicate_Suc)
    have "take (m + c - 1) F' = take (m + i) F @ replicate (c - 1 - i) fd"
      "take (m + c - 1) A' = take (m + i) A @ map st [i..<c - 1]"
      "take (m + c - 1) Z' = take (m + i) Z @ map (\<lambda>k. u16 (st (Suc k) - st k)) [i..<c - 1]"
      unfolding r(7-9) t [OF Suc.prems(2)] t [OF Suc.prems(3)] t [OF Suc.prems(4)] up rep Suc.prems(6) by simp_all
    moreover have "same_table ot ot'" using ot1(3) r(6) by (simp add: same_table_def)
    moreover have "(if i + 1 + 1 = c then st (i + 1) else st (c - 1)) = (if i + 1 = c then stack else st (c - 1))"
      using False by auto
    ultimately show ?thesis unfolding step r(1) using r(2-5) by blast
  qed
qed simp

lemma last_chunk_ok:
  assumes "arrays ot F A Z n" and "n < length F" and "n < length A" and "n < length Z"
    and "sc_fd s = fd" and "sc_start_offset s < offset" and "offset < sc_end_offset s"
    and "\<forall>t\<in>set ss. \<not> (sc_fd t = fd \<and> sc_start_offset t < offset \<and> offset < sc_end_offset t)" and "ts \<noteq> []"
  shows "\<exists>ot'. last_chunk fd offset (ss @ s # ts) ot = Some ot' \<and> same_table ot ot' \<and>
    arrays ot' (F[n := fd]) (A[n := offset mod 0x80000000]) (Z[n := u16 (sc_end_offset s - offset)]) (n + 1)"
  using assms(8)
proof (induction ss)
  case Nil
  obtain t ts' where "ts = t # ts'" using assms(9) by (cases ts) auto
  then show ?case using assms(1-7)
    by (auto simp: arrays_def array_set_def same_table_def add.commute Let_def)
next
  case (Cons t ss)
  then show ?case by (cases "ss @ s # ts") auto
qed

text \<open>What the chunks of a table add to the index.\<close>

definition chunk_entries :: "int \<Rightarrow> int \<Rightarrow> byte list list \<Rightarrow> (int \<times> int \<times> int) list" where
  "chunk_entries fd base cs = zip (replicate (length cs) fd) (zip (starts base cs) (map (\<lambda>c. int (length c)) cs))"

lemma starts_bound: "0 \<le> a \<Longrightarrow> k < length cs \<Longrightarrow> 0 \<le> starts a cs ! k \<and> starts a cs ! k + int (length (cs ! k)) \<le> a + int (length (concat cs))"
proof -
  assume a: "0 \<le> a" "k < length cs"
  have "concat cs = concat (take k cs) @ cs ! k @ concat (drop (Suc k) cs)"
    by (metis a(2) concat.simps(2) concat_append id_take_nth_drop)
  then have "length (concat (take k cs)) + length (cs ! k) \<le> length (concat cs)" by simp
  then show ?thesis using a by (simp add: starts_nth)
qed

definition table_ok :: "evf_table_header \<Rightarrow> int list \<Rightarrow> byte list list \<Rightarrow> int \<Rightarrow> bool" where
  "table_ok t es cs base \<longleftrightarrow> et_count t = int (length cs) \<and> length (et_padding t) = 16 \<and> 0 \<le> et_crc t \<and> et_crc t < 4294967296 \<and>
     2 \<le> length cs \<and> length cs \<le> 100000000 \<and> 0 \<le> base \<and> base + int (length (concat cs)) < 2147483648 \<and>
     (\<forall>c\<in>set cs. c \<noteq> [] \<and> length c < 65536) \<and>
     (\<forall>e\<in>set es. 0 \<le> e \<and> e < 4294967296) \<and> map (\<lambda>e. e mod 0x80000000) es = starts base cs"

definition table_body :: "evf_table_header \<Rightarrow> int list \<Rightarrow> byte list" where
  "table_body t es = table_bytes t @ concat (map (le_bytes 4) es)"

text \<open>The section that holds the chunks is the first one of the file that has the last of them.\<close>

definition sectors_at :: "int \<Rightarrow> int \<Rightarrow> byte list list \<Rightarrow> evf_section list \<Rightarrow> bool" where
  "sectors_at fd base cs secs \<longleftrightarrow> (\<exists>ss s ts. secs = ss @ s # ts \<and> ts \<noteq> [] \<and> sc_fd s = fd \<and> sc_start_offset s < base \<and>
     sc_end_offset s = base + int (length (concat cs)) \<and>
     (\<forall>t\<in>set ss. \<not> (sc_fd t = fd \<and> sc_start_offset t < last (starts base cs) \<and> last (starts base cs) < sc_end_offset t)))"

lemma table_section_ok:
  assumes open': "fd_open fds fd D p" and t: "table_ok t es cs base" and D: "drop p D = table_body t es @ four @ rest" and four: "length four = 4"
    and ot: "arrays ot F A Z n" and n: "int n \<le> 1000000000" and secs: "sectors_at fd base cs (ot_section_list ot)"
  shows "\<exists>fds' ot' F' A' Z' q. table_section heap junk stack fd ot fds = Some (fds', Inr ot') \<and> fd_open fds' fd D q \<and> same_but fd fds fds' \<and>
    same_table ot ot' \<and> arrays ot' F' A' Z' (n + length cs) \<and> entries ot' = entries ot @ chunk_entries fd base cs"
proof -
  define c where "c = length cs"
  have c: "2 \<le> c" "c \<le> 100000000" "et_count t = int c" using t by (simp_all add: table_ok_def c_def)
  have es: "length es = c" "\<forall>e\<in>set es. 0 \<le> e \<and> e < 4294967296" "map (\<lambda>e. e mod 0x80000000) es = starts base cs"
    using t by (auto simp: table_ok_def c_def dest: arg_cong [where f = length])
  then obtain e0 es' where e: "es = e0 # es'" using c by (cases es) auto
  have e0: "0 \<le> e0" "e0 < 4294967296" using es(2) e by simp_all
  have tb: "table_of (table_bytes t) = t" "length (table_bytes t) = SIZEOF_TABLE"
    using table_of_bytes [of t] t c by (simp_all add: table_ok_def)
  have lw: "length (concat (map (le_bytes 4) ws)) = 4 * length ws" for ws by (induction ws) simp_all
  have "length (drop p D) = 24 + 4 * c + 4 + length rest"
    unfolding D using tb(2) es(1) four by (simp add: table_body_def SIZEOF_TABLE_def lw)
  then have lenD: "length D = p + 24 + 4 * c + 4 + length rest" using c by simp
  have d0: "take SIZEOF_TABLE (drop p D) = table_bytes t" "p + SIZEOF_TABLE \<le> length D"
    using D tb(2) lenD by (simp_all add: table_body_def SIZEOF_TABLE_def)
  obtain fds1 where r1: "evf_read fds fd (int SIZEOF_TABLE) = (fds1, table_bytes t, int SIZEOF_TABLE)"
    "fd_open fds1 fd D (p + SIZEOF_TABLE)" "same_but fd fds fds1"
    using evf_read_open [OF open' d0(2)] unfolding d0(1) by blast
  have d1: "drop (p + SIZEOF_TABLE) D = le_bytes 4 e0 @ concat (map (le_bytes 4) es') @ four @ rest"
    using D tb(2) e by (metis (no_types, lifting) add.commute append.assoc append_eq_conv_conj concat.simps(2) drop_drop list.simps(9) table_body_def)
  have d1': "take 4 (drop (p + SIZEOF_TABLE) D) = le_bytes 4 e0" "p + SIZEOF_TABLE + 4 \<le> length D"
    using d1 lenD by (simp_all add: SIZEOF_TABLE_def)
  obtain fds2 where r2: "evf_read fds1 fd (int 4) = (fds2, le_bytes 4 e0, int 4)"
    "fd_open fds2 fd D (p + SIZEOF_TABLE + 4)" "same_but fd fds1 fds2"
    using evf_read_open [OF r1(2) d1'(2)] unfolding d1'(1) by blast
  have old: "le_val (over_block (le_bytes 4 e0) (replicate 4 0)) mod 0x80000000 = starts base cs ! 0"
    using es(3) e e0 c by (simp add: over_block_def le_val_le_bytes) (metis nth_Cons_0)
  define N where "N = n + 2 + c"
  have N: "nat (u32 (ot_max_chunk ot + 2 + et_count t)) = N" "N \<noteq> 0"
    using ot c n by (simp_all add: arrays_def N_def u32_id nat_add_distrib)
  define ot1 where "ot1 = ot\<lparr>ot_fd := array_realloc junk (ot_fd ot) N, ot_offset := array_realloc junk (ot_offset ot) N,
      ot_size := array_realloc junk (ot_size ot) (2 * N)\<rparr>"
  define grown where "grown = (\<lambda>X m. take m X @ map junk [length X..<m])"
  have ot1: "arrays ot1 (grown F N) (grown A N) (grown Z (2 * N)) n" "same_table ot ot1"
    using ot by (simp_all add: ot1_def arrays_def same_table_def array_realloc_def grown_def N_def)
  have lg: "length (grown X m) = m" for X m by (simp add: grown_def)
  have tg: "take n (grown X m) = take n X" if "n \<le> length X" "n \<le> m" for X m using that by (simp add: grown_def min_def)
  define w where "w = concat (map (le_bytes 4) es') @ four"
  have lw': "length w = 4 * c" using es(1) e four by (simp add: w_def lw)
  have d2: "drop (p + SIZEOF_TABLE + 4) D = w @ rest"
    using d1 by (metis (no_types, lifting) add.commute append.assoc append_eq_conv_conj drop_drop length_le_bytes w_def)
  have d2': "take (4 * c) (drop (p + SIZEOF_TABLE + 4) D) = w" "p + SIZEOF_TABLE + 4 + 4 * c \<le> length D"
    using d2 lw' lenD by (simp_all add: SIZEOF_TABLE_def)
  obtain fds3 where r3: "evf_read fds2 fd (int (4 * c)) = (fds3, w, int (4 * c))"
    "fd_open fds3 fd D (p + SIZEOF_TABLE + 4 + 4 * c)" "same_but fd fds2 fds3"
    using evf_read_open [OF r2(2) d2'(2)] unfolding d2'(1) by blast
  have cnt: "s32 (int (4 * c)) = int (4 * c)" "u64 (int (4 * c)) = int (4 * c)" "int c * 4 = int (4 * c)"
    using c by (simp_all add: s32_id u64_id)
  have w4: "words4 w = es' @ [le_val four]"
  proof -
    obtain x y z v where f: "four = [x, y, z, v]" using four by (auto simp: length_Suc_conv eval_nat_numeral)
    show ?thesis unfolding w_def using words4_bytes [of es' four] es(2) e f by simp
  qed
  define A1 where "A1 = take (n + 1) (grown A N) @ words4 w @ drop (n + 1 + length (words4 w)) (grown A N)"
  have lA1: "length A1 = N" using w4 es(1) e c by (simp add: A1_def lg N_def)
  have fill: "array_fill (ot_offset ot1) (ot_max_chunk ot1 + 1) w = Some (Some A1)"
    using ot1(1) lw' by (simp add: array_fill_def arrays_def lg N_def A1_def nat_add_distrib)
  define st where "st = (\<lambda>k. starts base cs ! k)"
  have A1: "\<forall>k. 0 < k \<and> k < c \<longrightarrow> A1 ! (n + k) mod 0x80000000 = st k"
  proof (intro allI impI)
    fix k assume k: "0 < k \<and> k < c"
    then have "A1 ! (n + k) = es ! k"
      using w4 es(1) e by (cases k) (simp_all add: A1_def nth_append lg N_def)
    then show "A1 ! (n + k) mod 0x80000000 = st k"
      using es(1,3) k unfolding st_def by (metis nth_map)
  qed
  define ot2 where "ot2 = ot1\<lparr>ot_offset := Some A1\<rparr>"
  have ot2: "arrays ot2 (grown F N) A1 (grown Z (2 * N)) (n + 0)" "same_table ot ot2"
    using ot1 lA1 by (simp_all add: ot2_def arrays_def same_table_def N_def)
  have cl: "n + c < N" "n + c < 2 * N" "0 < c" "int c < 4294967296" using c by (simp_all add: N_def)
  obtain ot3 F3 A3 Z3 where l: "table_loop fd (int c) (int 0) ot2 (st 0) stack = Some (ot3, st (c - 1))"
    "arrays ot3 F3 A3 Z3 (n + c - 1)" "length F3 = N" "length A3 = N" "length Z3 = 2 * N" "same_table ot2 ot3"
    "take (n + c - 1) F3 = take n F @ replicate (c - 1) fd" "take (n + c - 1) A3 = take n A @ map st [0..<c - 1]"
    "take (n + c - 1) Z3 = take n Z @ map (\<lambda>k. u16 (st (Suc k) - st k)) [0..<c - 1]"
    using table_loop_ok [of ot2 "grown F N" A1 "grown Z (2 * N)" n 0 c "st 0" st fd stack] ot2(1) cl A1 c(1) lA1 ot
    by (auto simp: lg tg A1_def arrays_def N_def)
  have b: "0 \<le> base" "base + int (length (concat cs)) < 2147483648" "\<forall>c\<in>set cs. c \<noteq> [] \<and> length c < 65536"
    using t by (simp_all add: table_ok_def)
  have k: "c - 1 < length cs" using c by (simp add: c_def)
  note sb = starts_bound [OF b(1)]
  obtain ss s ts where secs': "ot_section_list ot = ss @ s # ts" "ts \<noteq> []" "sc_fd s = fd" "sc_start_offset s < base"
    "sc_end_offset s = base + int (length (concat cs))"
    "\<forall>t\<in>set ss. \<not> (sc_fd t = fd \<and> sc_start_offset t < last (starts base cs) \<and> last (starts base cs) < sc_end_offset t)"
    using secs unfolding sectors_at_def by blast
  have lst: "last (starts base cs) = st (c - 1)"
  proof -
    have "starts base cs \<noteq> []" using k by (metis length_starts list.size(3) not_less_zero)
    then show ?thesis by (simp add: last_conv_nth st_def c_def)
  qed
  have lastc: "sc_end_offset s - st (c - 1) = int (length (cs ! (c - 1)))"
  proof -
    have "cs = take (c - 1) cs @ [cs ! (c - 1)]" using k by (metis Suc_pred' c_def cl(3) take_Suc_conv_app_nth take_all_iff order_refl)
    then have "length (concat cs) = length (concat (take (c - 1) cs)) + length (cs ! (c - 1))"
      by (metis concat.simps(1) concat.simps(2) concat_append append_Nil2 length_append)
    then show ?thesis using k by (simp add: secs'(5) st_def starts_nth)
  qed
  have len_last: "0 < length (cs ! (c - 1))" "length (cs ! (c - 1)) < 65536" using b(3) k by auto
  have range: "sc_start_offset s < st (c - 1)" "st (c - 1) < sc_end_offset s" "0 \<le> st (c - 1)" "st (c - 1) < 2147483648"
  proof -
    have "base \<le> st (c - 1)" using k by (simp add: st_def starts_nth)
    moreover have "0 < int (length (cs ! (c - 1)))" using len_last(1) by simp
    ultimately show "sc_start_offset s < st (c - 1)" "st (c - 1) < sc_end_offset s" "0 \<le> st (c - 1)" "st (c - 1) < 2147483648"
      using secs'(4,5) lastc b(1,2) by linarith+
  qed
  have secs3: "ot_section_list ot3 = ss @ s # ts" using secs'(1) ot2(2) l(6) by (simp add: same_table_def)
  obtain ot4 where l4: "last_chunk fd (st (c - 1)) (ot_section_list ot3) ot3 = Some ot4" "same_table ot3 ot4"
    "arrays ot4 (F3[n + c - 1 := fd]) (A3[n + c - 1 := st (c - 1)]) (Z3[n + c - 1 := int (length (cs ! (c - 1)))]) (n + c)"
  proof -
    have "n + c - 1 < length F3" "n + c - 1 < length A3" "n + c - 1 < length Z3" using l(3-5) cl by simp_all
    from last_chunk_ok [OF l(2) this secs'(3) range(1,2) secs'(6) [unfolded lst] secs'(2)]
    have x: "\<exists>ot'. last_chunk fd (st (c - 1)) (ot_section_list ot3) ot3 = Some ot' \<and> same_table ot3 ot' \<and>
      arrays ot' (F3[n + c - 1 := fd]) (A3[n + c - 1 := st (c - 1)]) (Z3[n + c - 1 := int (length (cs ! (c - 1)))]) (n + c - 1 + 1)"
      using range(3,4) len_last unfolding secs3 lastc by (simp add: u16_id)
    have "n + c - 1 + 1 = n + c" using cl(3) by simp
    from x [unfolded this] show ?thesis using that by blast
  qed
  have ts: "take (n + c) (X[n + c - 1 := x]) = take (n + c - 1) X @ [x]" if "n + c \<le> length X" for X and x :: int
  proof -
    have m: "n + c = Suc (n + c - 1)" "n + c - 1 < length X" using that cl(3) by simp_all
    show ?thesis by (subst m(1), subst take_Suc_conv_app_nth) (use m(2) in simp_all)
  qed
  have "starts base cs = map st [0..<c - 1] @ [st (c - 1)]"
    using cl(3) by (intro nth_equalityI) (auto simp: st_def c_def nth_append intro!: arg_cong [where f = "(!) (starts base cs)"])
  moreover have "map (\<lambda>c. int (length c)) cs = map (\<lambda>k. u16 (st (Suc k) - st k)) [0..<c - 1] @ [int (length (cs ! (c - 1)))]"
  proof (rule nth_equalityI)
    fix k assume "k < length (map (\<lambda>c. int (length c)) cs)"
    then have k: "k < c" by (simp add: c_def)
    show "map (\<lambda>c. int (length c)) cs ! k = (map (\<lambda>k. u16 (st (Suc k) - st k)) [0..<c - 1] @ [int (length (cs ! (c - 1)))]) ! k"
    proof (cases "k = c - 1")
      case True
      then show ?thesis using k by (simp add: nth_append c_def)
    next
      case False
      then have "Suc k < length cs" using k by (simp add: c_def)
      moreover have "length (cs ! k) < 65536" using b(3) k by (simp add: c_def)
      ultimately have "u16 (st (Suc k) - st k) = int (length (cs ! k))" by (simp add: st_def starts_next u16_id)
      moreover have "k < c - 1" using False k by simp
      ultimately show ?thesis using k by (simp add: nth_append c_def)
    qed
  qed (use cl(3) in \<open>simp add: c_def\<close>)
  moreover have "replicate c fd = replicate (c - 1) fd @ [fd]"
    using cl(3) by (metis Suc_pred' replicate_Suc replicate_append_same)
  ultimately have chunk: "chunk_entries fd base cs = zip (replicate (c - 1) fd @ [fd]) (zip (map st [0..<c - 1] @ [st (c - 1)])
      (map (\<lambda>k. u16 (st (Suc k) - st k)) [0..<c - 1] @ [int (length (cs ! (c - 1)))]))"
    unfolding chunk_entries_def c_def [symmetric] by (simp only:)
  have lz: "n \<le> length F" "n \<le> length A" "n \<le> length Z" using ot by (simp_all add: arrays_def)
  have e4: "entries ot4 = entries ot @ chunk_entries fd base cs"
  proof -
    have "n + c \<le> length F3" "n + c \<le> length A3" "n + c \<le> length Z3" using l(3-5) cl(1,2) by simp_all
    note * = this [THEN ts, unfolded l(7-9)]
    show ?thesis unfolding entries_arrays [OF l4(3)] entries_arrays [OF ot] chunk * using lz by simp
  qed
  have "table_section heap junk stack fd ot fds = Some (fds3, Inr ot4)"
  proof -
    have "over_block (table_bytes t) (map heap [0..<SIZEOF_TABLE]) = table_bytes t" by (simp add: over_block_def tb(2))
    moreover have u: "u64 24 = 24" "u64 4 = 4" "\<not> u32 (ot_max_chunk ot + 2 + et_count t) \<le> 0"
      using N by (simp_all add: u64_def)
    ultimately have 1: "table_section heap junk stack fd ot fds = (do {
        let (fds, xs, r) = evf_read fds2 fd (s32 (et_count t * 4));
        offsets \<leftarrow> array_fill (ot_offset ot1) (ot_max_chunk ot1 + 1) xs;
        if u64 r < et_count t * 4 then Some (fds, Inl E_IOERROR)
        else do {
          (ot, offset) \<leftarrow> table_loop fd (et_count t) 0 (ot1\<lparr>ot_offset := offsets\<rparr>) (starts base cs ! 0) stack;
          ot \<leftarrow> last_chunk fd offset (ot_section_list ot) ot;
          Some (fds, Inr ot)
        }
      })"
      using r1(1) r2(1) N old u by (simp add: table_section_def tb(1) ot1_def SIZEOF_TABLE_def Let_def cong del: if_weak_cong)
    show ?thesis unfolding 1 c(3) cnt(3) cnt(1) r3(1) using fill l(1) l4(1) cnt(2)
      by (simp add: ot2_def [symmetric] st_def del: of_nat_mult cong del: if_weak_cong)
  qed
  moreover have "same_but fd fds fds3" using r1(3) r2(3) r3(3) by (metis same_but_trans)
  moreover have "same_table ot ot4" using ot2(2) l(6) l4(2) by (simp add: same_table_def)
  ultimately show ?thesis using r3(2) l4(3) e4 unfolding c_def by blast
qed

end
