(* ===== verification/Evf_Image.thy ===== *)
theory Evf_Image
  imports Evf_Correct IO_Source_Correct
begin

text \<open>
  Images in the expert witness format: what an index of chunks stands for, that the image is restored and checked, and that its parts are read
  as those of every other source of evidence.
\<close>

section \<open>Chunks\<close>

text \<open>A chunk that is not shorter than \<open>full\<close> is stored as it is, with a checksum behind it or without.\<close>

definition stored_as :: "zlib \<Rightarrow> nat \<Rightarrow> byte list \<Rightarrow> byte list \<Rightarrow> bool" where
  "stored_as z full c x \<longleftrightarrow> length c \<le> full + 1024 \<and> length x \<le> full \<and>
     (length c < full \<and> z_uncompress z full c = (Z_OK, x, length x) \<or> full \<le> length c \<and> x = take full c)"

definition chunk_held :: "zlib \<Rightarrow> fd_table \<Rightarrow> nat \<Rightarrow> int \<times> int \<times> int \<Rightarrow> byte list \<Rightarrow> bool" where
  "chunk_held z fds full e x \<longleftrightarrow> (case e of (fd, offset, n) \<Rightarrow>
     \<exists>D p c. fd_open fds fd D p \<and> 0 \<le> offset \<and> offset < 9223372036854775808 \<and> nat offset + length c \<le> length D \<and>
       take (length c) (drop (nat offset) D) = c \<and> n = int (length c) \<and> stored_as z full c x)"

text \<open>The files stay open, with the same bytes.\<close>

definition fds_keep :: "fd_table \<Rightarrow> fd_table \<Rightarrow> bool" where
  "fds_keep fds fds' \<longleftrightarrow> (\<forall>fd D p. fd_open fds fd D p \<longrightarrow> (\<exists>q. fd_open fds' fd D q))"

lemma fds_keep_refl [simp]: "fds_keep fds fds"
  by (auto simp: fds_keep_def)

lemma fds_keep_trans: "fds_keep a b \<Longrightarrow> fds_keep b c \<Longrightarrow> fds_keep a c"
  unfolding fds_keep_def by blast

lemma fds_keepI: "fd_open fds fd D p \<Longrightarrow> fd_open fds' fd D q \<Longrightarrow> same_but fd fds fds' \<Longrightarrow> fds_keep fds fds'"
  unfolding fds_keep_def same_but_def fd_open_def by (metis option.inject)

lemma chunk_held_keep: "chunk_held z fds full e x \<Longrightarrow> fds_keep fds fds' \<Longrightarrow> chunk_held z fds' full e x"
  unfolding chunk_held_def fds_keep_def by (fastforce split: prod.splits)

lemma unpack_chunk_ok:
  assumes "stored_as z full c x" and "length data = full" and "take (length c) cdata = c" and "length c \<le> length cdata"
  shows "unpack_chunk z (int full) (int (length c)) (int (length c)) cdata data = Some (over_block x data, int (length x))"
proof -
  have w: "mem_write data 0 x = Some (over_block x data)" using assms(1,2) by (simp add: mem_write_def over_block_def stored_as_def)
  have r: "mem_read cdata 0 (int (length c)) = Some c" using assms(3,4) by (simp add: mem_read_def)
  show ?thesis
  proof (cases "length c < full")
    case True
    then show ?thesis using assms(1) r w by (simp add: unpack_chunk_def stored_as_def)
  next
    case False
    then have x: "x = take full c" "length x = full" using assms(1) by (auto simp: stored_as_def)
    have "take full cdata = x" using x(1) assms(3) False by (metis linorder_not_less min.absorb1 take_take)
    then have "mem_read cdata 0 (int full) = Some x" using assms(4) False by (simp add: mem_read_def)
    then show ?thesis using False w x(2) by (simp add: unpack_chunk_def)
  qed
qed

lemma length_over_block: "length x \<le> length d \<Longrightarrow> length (over_block x d) = length d"
  by (simp add: over_block_def)

text \<open>An entry of the index, and the load of its chunk, which restoring and reading at random share.\<close>

lemma entries_nth:
  assumes "arrays ot F A Z n" and "k < n" and "entries ot ! k = (fd, offset, m)"
  shows "array_get (ot_fd ot) (int k) = Some fd" and "array_get (ot_offset ot) (int k) = Some offset"
    and "array_get (ot_size ot) (int k) = Some m"
  using assms by (simp_all add: entries_arrays [OF assms(1)] arrays_def array_get_def)

lemma length_entries: "arrays ot F A Z n \<Longrightarrow> length (entries ot) = n"
  by (frule entries_arrays) (simp add: arrays_def)

lemma load_held:
  assumes "chunk_held z fds full (fd, offset, m) x" and "length cdata = full + 1024" and "length data = full"
  obtains fds1 fds2 c where "evf_seek fds fd offset = (fds1, True)" "evf_read fds1 fd m = (fds2, c, m)" "fds_keep fds fds2" "m = int (length c)"
    "mem_write cdata 0 c = Some (over_block c cdata)" "length (over_block c cdata) = full + 1024"
    "unpack_chunk z (int full) m m (over_block c cdata) data = Some (over_block x data, int (length x))"
proof -
  obtain D p c where h: "fd_open fds fd D p" "0 \<le> offset" "offset < 9223372036854775808" "nat offset + length c \<le> length D"
    "take (length c) (drop (nat offset) D) = c" "m = int (length c)" "stored_as z full c x"
    using assms(1) by (auto simp: chunk_held_def)
  obtain fds1 where s: "evf_seek fds fd (int (nat offset)) = (fds1, True)" "fd_open fds1 fd D (nat offset)" "same_but fd fds fds1"
    using evf_seek_open [OF h(1), of "nat offset"] h(2,3) by auto
  obtain fds2 where r: "evf_read fds1 fd m = (fds2, c, m)" "fd_open fds2 fd D (nat offset + length c)" "same_but fd fds1 fds2"
    using evf_read_open [OF s(2) h(4)] h(5,6) by metis
  have keep: "fds_keep fds fds2" using fds_keepI [OF h(1) r(2)] same_but_trans [OF s(3) r(3)] by blast
  have l: "length c \<le> full + 1024" using h(7) by (simp add: stored_as_def)
  have "mem_write cdata 0 c = Some (over_block c cdata)" using l assms(2) by (simp add: mem_write_def over_block_def)
  moreover have "length (over_block c cdata) = full + 1024" using l assms(2) by (simp add: length_over_block)
  moreover have "take (length c) (over_block c cdata) = c" by (simp add: over_block_def)
  ultimately show ?thesis using that [of fds1 fds2 c] s(1) r(1) keep h(2,6) l assms unpack_chunk_ok [OF h(7) assms(3), of "over_block c cdata"] by simp
qed

section \<open>Restoring\<close>

lemma md5_carry_all_snoc: "md5_carry_all w n (ps @ [p]) = md5_carry (of_nat (8 * (n + length (concat ps)))) (md5_carry_all w n ps) (length p)"
  by (induction ps arbitrary: w n) (simp_all add: add.assoc)

text \<open>A context that has taken the parts \<open>ps\<close>.\<close>

definition md5_took :: "'l::len word md5_ctx \<Rightarrow> byte list list \<Rightarrow> bool" where
  "md5_took c ps \<longleftrightarrow> md5_holds c (concat ps) \<and> md_count1 c = md5_carry_all 0 0 ps"

lemma md5_took_Init: "md5_took (MD5_Init heap) []"
  using md5_holds_Init by (simp add: md5_took_def MD5_Init_def)

lemma md5_took_Update:
  fixes c :: "'l::len word md5_ctx"
  assumes "md5_took c ps" and "9 \<le> LENGTH('l)" and "length x \<le> length data" and "length x \<le> 4294967232"
  obtains c' where "MD5_Update c (over_block x data) (int (length x)) = Some c'" "md5_took c' (ps @ [x])"
proof -
  have "length x \<le> length (over_block x data)" "take (length x) (over_block x data) = x" by (simp_all add: over_block_def)
  then show ?thesis
    using MD5_Update_holds [of c "concat ps" "length x" "over_block x data"] assms that
    by (auto simp: md5_took_def md5_carry_all_snoc md5_holds_def)
qed

lemma md5_took_Final:
  fixes c :: "'l::len word md5_ctx"
  assumes "md5_took c ps" and "9 \<le> LENGTH('l)" and "\<forall>p\<in>set ps. length p \<le> 4294967232"
  shows "MD5_Final c = md5_digest (MD5_Init heap :: 'l word md5_ctx) ps"
proof -
  obtain c' where c': "md5_update_all (MD5_Init heap :: 'l word md5_ctx) ps = Some c'" "md5_holds c' (concat ps)"
    "md_count1 c' = md5_carry_all 0 0 ps"
    using md5_update_all_holds [of "MD5_Init heap :: 'l word md5_ctx" "[]" ps, OF md5_holds_Init assms(2,3)] by (auto simp: MD5_Init_def)
  have "md_count0 c = md_count0 c'" "md_count1 c = md_count1 c'" "md5_holds c (concat ps)"
    using assms(1) c'(2,3) by (simp_all add: md5_took_def md5_holds_def)
  then show ?thesis using MD5_Final_holds [OF _ assms(2)] c'(1,2) by (simp add: md5_digest_def)
qed

text \<open>An index that stands for chunks.\<close>

definition index_ok :: "zlib \<Rightarrow> fd_table \<Rightarrow> offset_table \<Rightarrow> byte list list \<Rightarrow> bool" where
  "index_ok z fds ot xss \<longleftrightarrow> 0 < ot_chunk_size ot \<and> ot_chunk_size ot \<le> 1000000 \<and> length xss \<le> 1000000000 \<and>
     (\<exists>F A Z. arrays ot F A Z (length xss)) \<and> list_all2 (chunk_held z fds (nat (ot_chunk_size ot))) (entries ot) xss"

lemma index_ok_keep: "index_ok z fds ot xss \<Longrightarrow> fds_keep fds fds' \<Longrightarrow> index_ok z fds' ot xss"
  unfolding index_ok_def by (auto elim!: list_all2_mono intro: chunk_held_keep)

lemma index_full: "index_ok z fds ot xss \<Longrightarrow> ot_chunk_size ot = int (nat (ot_chunk_size ot)) \<and> nat (ot_chunk_size ot) \<le> 1000000"
  by (auto simp: index_ok_def nat_le_iff)

lemma index_entry:
  assumes "index_ok z fds ot xss" and "k < length xss"
  obtains fd offset m where "chunk_held z fds (nat (ot_chunk_size ot)) (fd, offset, m) (xss ! k)" "array_get (ot_fd ot) (int k) = Some fd"
    "array_get (ot_offset ot) (int k) = Some offset" "array_get (ot_size ot) (int k) = Some m"
proof -
  obtain F A Z where a: "arrays ot F A Z (length xss)" using assms(1) by (auto simp: index_ok_def)
  obtain fd offset m where e: "entries ot ! k = (fd, offset, m)" by (cases "entries ot ! k") auto
  have "chunk_held z fds (nat (ot_chunk_size ot)) (entries ot ! k) (xss ! k)"
    using assms length_entries [OF a] by (auto simp: index_ok_def dest: list_all2_nthD2)
  then show ?thesis using that entries_nth [OF a assms(2) e] e by simp
qed

lemma chunk_length: "index_ok z fds ot xss \<Longrightarrow> x \<in> set xss \<Longrightarrow> length x \<le> nat (ot_chunk_size ot)"
  unfolding index_ok_def chunk_held_def stored_as_def in_set_conv_nth by (fastforce dest: list_all2_nthD2 split: prod.splits)

definition output_ok :: "nat \<Rightarrow> evf_output \<Rightarrow> byte list \<Rightarrow> byte list list \<Rightarrow> bool" where
  "output_ok full s out ps \<longleftrightarrow> at_end (eo_out s) \<and> fd_data (eo_out s) = out @ concat ps \<and> md5_took (eo_md5 s) ps \<and>
     length (eo_data s) = full \<and> length (eo_cdata s) = full + 1024"

lemma decompress_chunk_ok:
  assumes "index_ok z (eo_fds s) ot xss" and "k < length xss" and "output_ok (nat (ot_chunk_size ot)) s out ps"
  obtains s' where "decompress_chunk z ot (int k) s = Some (s', True)" "output_ok (nat (ot_chunk_size ot)) s' out (ps @ [xss ! k])"
    "fds_keep (eo_fds s) (eo_fds s')"
proof -
  define full where "full = nat (ot_chunk_size ot)"
  have full: "ot_chunk_size ot = int full" "full \<le> 1000000" using index_full [OF assms(1)] by (simp_all add: full_def)
  define x where "x = xss ! k"
  have o: "at_end (eo_out s)" "fd_data (eo_out s) = out @ concat ps" "md5_took (eo_md5 s) ps" "length (eo_data s) = full" "length (eo_cdata s) = full + 1024"
    using assms(3) by (simp_all add: output_ok_def full_def)
  obtain fd offset m where e: "chunk_held z (eo_fds s) full (fd, offset, m) x" "array_get (ot_fd ot) (int k) = Some fd"
    "array_get (ot_offset ot) (int k) = Some offset" "array_get (ot_size ot) (int k) = Some m"
    using index_entry [OF assms(1,2)] unfolding full_def x_def by blast
  obtain fds1 fds2 c where l: "evf_seek (eo_fds s) fd offset = (fds1, True)" "evf_read fds1 fd m = (fds2, c, m)" "fds_keep (eo_fds s) fds2"
    "m = int (length c)" "mem_write (eo_cdata s) 0 c = Some (over_block c (eo_cdata s))" "length (over_block c (eo_cdata s)) = full + 1024"
    "unpack_chunk z (int full) m m (over_block c (eo_cdata s)) (eo_data s) = Some (over_block x (eo_data s), int (length x))"
    using load_held [OF e(1) o(5,4)] by blast
  have x: "length x \<le> full" using chunk_length [OF assms(1), of x] assms(2) by (simp add: x_def full_def)
  obtain c' where md: "MD5_Update (eo_md5 s) (over_block x (eo_data s)) (int (length x)) = Some c'" "md5_took c' (ps @ [x])"
    using md5_took_Update [OF o(3), of x "eo_data s"] x o(4) full(2) by auto
  have u: "u32 (int (length x)) = int (length x)" using x full(2) by (simp add: u32_id)
  have r: "mem_read (over_block x (eo_data s)) 0 (int (length x)) = Some x" by (simp add: mem_read_def over_block_def)
  have "2147479552 \<le> fd_moves (eo_out s) (fd_calls (eo_out s))" using o(1) by (simp add: at_end_def full_moves_def)
  then have wc: "write_count (eo_out s) x = (write_fd (eo_out s) x, int (length x))"
    using x full(2) by (simp add: write_count_def Let_def)
  have w: "fd_data (write_fd (eo_out s) x) = out @ concat (ps @ [x])" "at_end (write_fd (eo_out s) x)"
    using write_fd_at_end [OF o(1), of x] x full(2) o(2) by simp_all
  define s' where "s' = s\<lparr>eo_fds := fds2, eo_cdata := over_block c (eo_cdata s), eo_data := over_block x (eo_data s),
    eo_md5 := c', eo_out := write_fd (eo_out s) x\<rparr>"
  have "decompress_chunk z ot (int k) s = Some (s', True)"
    unfolding decompress_chunk_def by (simp add: e(2-4) l(1,2,5) l(7) [folded full(1)] u md(1) r wc s'_def)
  moreover have "output_ok full s' out (ps @ [x])"
    using w md(2) l(6) x o(4) by (simp add: output_ok_def s'_def length_over_block)
  ultimately show ?thesis using that l(3) by (simp add: s'_def full_def x_def)
qed

lemma decompress_chunks_ok:
  assumes "index_ok z (eo_fds s) ot xss" and "k \<le> length xss" and "output_ok (nat (ot_chunk_size ot)) s out (take k xss)"
  shows "\<exists>s'. decompress_chunks z ot (int k) s = Some (s', True) \<and> output_ok (nat (ot_chunk_size ot)) s' out xss \<and> fds_keep (eo_fds s) (eo_fds s')"
  using assms
proof (induction "length xss - k" arbitrary: k s)
  case 0
  then have k: "k = length xss" by simp
  have "ot_max_chunk ot = int (length xss)" using 0(2) by (auto simp: index_ok_def arrays_def)
  then show ?case using 0(4) k by (subst decompress_chunks.simps) simp
next
  case (Suc d)
  then have k: "k < length xss" by simp
  have m: "ot_max_chunk ot = int (length xss)" using Suc.prems(1) by (auto simp: index_ok_def arrays_def)
  obtain s1 where s1: "decompress_chunk z ot (int k) s = Some (s1, True)"
    "output_ok (nat (ot_chunk_size ot)) s1 out (take (Suc k) xss)" "fds_keep (eo_fds s) (eo_fds s1)"
    using decompress_chunk_ok [OF Suc.prems(1) k Suc.prems(3)] k by (auto simp: take_Suc_conv_app_nth)
  obtain s' where s': "decompress_chunks z ot (int (Suc k)) s1 = Some (s', True)" "output_ok (nat (ot_chunk_size ot)) s' out xss"
    "fds_keep (eo_fds s1) (eo_fds s')"
  proof -
    have "d = length xss - Suc k" "Suc k \<le> length xss" using Suc.hyps(2) k by simp_all
    from Suc.hyps(1) [OF this(1) index_ok_keep [OF Suc.prems(1) s1(3)] this(2) s1(2)] show ?thesis using that by blast
  qed
  have "decompress_chunks z ot (int k) s = decompress_chunks z ot (int (Suc k)) s1"
    using k m s1(1) by (subst decompress_chunks.simps) (simp add: add.commute)
  then show ?case using s'(1,2) fds_keep_trans [OF s1(3) s'(3)] by auto
qed

lemma evf_decompress_fds_ok:
  assumes "index_ok z fds ot xss" and "33 \<le> ot_chunk_size ot" and "at_end out"
  obtains fds' out' d where "evf_decompress_fds z heap ot fds out = Some (fds', out', Inr (d = ot_md5 ot))"
    "md5_digest (MD5_Init heap :: long_word md5_ctx) xss = Some d" "fd_data out' = fd_data out @ concat xss" "fds_keep fds fds'"
proof -
  define full where "full = nat (ot_chunk_size ot)"
  have full: "ot_chunk_size ot = int full" "full \<le> 1000000" using index_full [OF assms(1)] by (simp_all add: full_def)
  define s where "s = \<lparr>eo_fds = fds, eo_out = out, eo_data = map heap [0..<full], eo_cdata = map heap [0..<full + 1024], eo_md5 = MD5_Init heap\<rparr>"
  have "output_ok full s (fd_data out) (take 0 xss)"
    using assms(3) md5_took_Init by (simp add: output_ok_def s_def)
  with decompress_chunks_ok [of z s ot xss 0 "fd_data out"] assms(1) obtain s' where
    s': "decompress_chunks z ot 0 s = Some (s', True)" "output_ok full s' (fd_data out) xss" "fds_keep fds (eo_fds s')"
    by (auto simp: s_def full_def)
  have "\<forall>x\<in>set xss. length x \<le> 4294967232" using chunk_length [OF assms(1)] full by fastforce
  then have fin: "MD5_Final (eo_md5 s') = md5_digest (MD5_Init heap :: long_word md5_ctx) xss"
    using s'(2) by (intro md5_took_Final) (simp_all add: output_ok_def)
  obtain d where d: "md5_digest (MD5_Init heap :: long_word md5_ctx) xss = Some d"
    using MD5_Final_holds [of "eo_md5 s'"] s'(2) fin by (auto simp: output_ok_def md5_took_def)
  have m: "malloc_block heap (int full) = Some (map heap [0..<full])" "malloc_block heap (int full + 1024) = Some (map heap [0..<full + 1024])"
    by (simp_all add: malloc_block_def nat_add_distrib)
  have "evf_decompress_fds z heap ot fds out = Some (eo_fds s', eo_out s', Inr (d = ot_md5 ot))"
    using assms(2) m s'(1) fin d unfolding evf_decompress_fds_def full(1) by (simp add: s_def [symmetric])
  then show ?thesis using that d s'(2,3) by (simp add: output_ok_def)
qed

section \<open>Reading at random\<close>

definition globals_ready :: "nat \<Rightarrow> byte list list \<Rightarrow> evf_globals \<Rightarrow> bool" where
  "globals_ready full xss g \<longleftrightarrow> (\<exists>d cd. eg_data g = Some d \<and> eg_cdata g = Some cd \<and> length d = full \<and> length cd = full + 1024 \<and>
     (eg_cached_chunk g = -1 \<or> (\<exists>k < length xss. eg_cached_chunk g = int k \<and> d = xss ! k)))"

text \<open>Before the first call, and between two calls.\<close>

definition globals_ok :: "nat \<Rightarrow> byte list list \<Rightarrow> evf_globals \<Rightarrow> bool" where
  "globals_ok full xss g \<longleftrightarrow> g = evf_initial \<or> globals_ready full xss g"

definition whole_chunks :: "nat \<Rightarrow> byte list list \<Rightarrow> bool" where
  "whole_chunks full xss \<longleftrightarrow> (\<forall>x\<in>set xss. length x = full)"

lemma drop_whole: "whole_chunks n xss \<Longrightarrow> drop (k * n) (concat xss) = concat (drop k xss)"
proof (induction xss arbitrary: k)
  case (Cons x xss)
  then show ?case by (cases k) (simp_all add: whole_chunks_def)
qed simp

lemma length_whole_chunks: "whole_chunks n xss \<Longrightarrow> length (concat xss) = length xss * n"
  by (induction xss) (simp_all add: whole_chunks_def)

lemma part_of_chunks:
  assumes "whole_chunks n xss" and "k < length xss" and "off \<le> n"
  shows "drop (k * n + off) (concat xss) = drop off (xss ! k) @ drop (Suc k * n) (concat xss)"
proof -
  have "drop (k * n + off) (concat xss) = drop off (concat (drop k xss))"
    using drop_whole [OF assms(1), of k] by (simp add: add.commute flip: drop_drop)
  also have "drop k xss = xss ! k # drop (Suc k) xss" using assms(2) by (simp add: Cons_nth_drop_Suc)
  also have "drop off (concat (xss ! k # drop (Suc k) xss)) = drop off (xss ! k) @ concat (drop (Suc k) xss)"
    using assms by (simp add: whole_chunks_def)
  finally show ?thesis using drop_whole [OF assms(1), of "Suc k"] by simp
qed

lemma evf_load_chunk_ok:
  assumes "index_ok z fds ot xss" and "k < length xss" and g: "globals_ready (nat (ot_chunk_size ot)) xss g"
    and whole: "whole_chunks (nat (ot_chunk_size ot)) xss"
  obtains g' fds' where "evf_load_chunk z ot (int k) g fds = Some (g', fds', True)" "globals_ready (nat (ot_chunk_size ot)) xss g'"
    "eg_data g' = Some (xss ! k)" "fds_keep fds fds'"
proof (cases "eg_cached_chunk g = int k")
  case True
  have "length xss \<le> 1000000000" using assms(1) by (simp add: index_ok_def)
  then have "u64 (int k) = int k" using assms(2) by (simp add: u64_id)
  then have "evf_load_chunk z ot (int k) g fds = Some (g, fds, True)" using True by (simp add: evf_load_chunk_def)
  moreover have "eg_data g = Some (xss ! k)" using g True by (auto simp: globals_ready_def)
  ultimately show ?thesis using that g by simp
next
  case False
  define full where "full = nat (ot_chunk_size ot)"
  have full: "ot_chunk_size ot = int full" "full \<le> 1000000" using index_full [OF assms(1)] by (simp_all add: full_def)
  have n: "length xss \<le> 1000000000" using assms(1) by (simp add: index_ok_def)
  obtain d cd where d: "eg_data g = Some d" "eg_cdata g = Some cd" "length d = full" "length cd = full + 1024"
    "eg_cached_chunk g = -1 \<or> (\<exists>k < length xss. eg_cached_chunk g = int k)"
    using g by (auto simp: globals_ready_def full_def)
  have ne: "u64 (eg_cached_chunk g) \<noteq> int k"
    using d(5) False n assms(2) by (auto simp: u64_id u64_neg)
  obtain fd offset m where e: "chunk_held z fds full (fd, offset, m) (xss ! k)" "array_get (ot_fd ot) (int k) = Some fd"
    "array_get (ot_offset ot) (int k) = Some offset" "array_get (ot_size ot) (int k) = Some m"
    using index_entry [OF assms(1,2)] unfolding full_def by blast
  obtain fds1 fds2 c where l: "evf_seek fds fd offset = (fds1, True)" "evf_read fds1 fd m = (fds2, c, m)" "fds_keep fds fds2"
    "m = int (length c)" "mem_write cd 0 c = Some (over_block c cd)" "length (over_block c cd) = full + 1024"
    "unpack_chunk z (int full) m m (over_block c cd) d = Some (over_block (xss ! k) d, int (length (xss ! k)))"
    using load_held [OF e(1) d(4,3)] by blast
  have x: "length (xss ! k) = full" using whole assms(2) by (simp add: whole_chunks_def full_def)
  then have "over_block (xss ! k) d = xss ! k" using d(3) by (simp add: over_block_def)
  moreover have "u64 m = m"
  proof -
    have "length c \<le> full + 1024" using l(6) by (simp add: over_block_def)
    then show ?thesis using l(4) full(2) by (simp add: u64_id)
  qed
  ultimately have "evf_load_chunk z ot (int k) g fds =
      Some (g\<lparr>eg_cdata := Some (over_block c cd), eg_data := Some (xss ! k), eg_cached_chunk := int k\<rparr>, fds2, True)"
    unfolding evf_load_chunk_def using ne e(2-4) l(1,2,5) l(7) [folded full(1)] d(1,2) by simp
  then show ?thesis using that x l(3,6) assms(2) by (simp add: globals_ready_def full_def)
qed

lemma evf_read_chunks_ok:
  assumes "index_ok z fds ot xss" and "globals_ready (nat (ot_chunk_size ot)) xss g" and "whole_chunks (nat (ot_chunk_size ot)) xss"
    and "k \<le> length xss" and "off < nat (ot_chunk_size ot)" and "0 \<le> len"
  shows "\<exists>g' fds'. evf_read_chunks z ot g fds len (int k) (int off) copied =
      Some (g', fds', Inr (copied @ take (nat len) (drop (k * nat (ot_chunk_size ot) + off) (concat xss)))) \<and>
    globals_ready (nat (ot_chunk_size ot)) xss g' \<and> fds_keep fds fds'"
  using assms
proof (induction "length xss - k" arbitrary: k off len copied g fds)
  case 0
  then have k: "k = length xss" by simp
  have "length xss \<le> 1000000000" "ot_max_chunk ot = int (length xss)" using 0(2) by (auto simp: index_ok_def arrays_def)
  then have "int k \<ge> u64 (ot_max_chunk ot)" using k by (simp add: u64_id)
  moreover have "drop (k * nat (ot_chunk_size ot) + off) (concat xss) = []"
    using k length_whole_chunks [OF 0(4)] by simp
  ultimately show ?case using 0(3) by (subst evf_read_chunks.simps) simp
next
  case (Suc d)
  define full where "full = nat (ot_chunk_size ot)"
  have full: "ot_chunk_size ot = int full" "0 < full" using index_full [OF Suc.prems(1)] Suc.prems(5) by (simp_all add: full_def)
  have k: "k < length xss" using Suc.hyps(2) by simp
  have n: "length xss \<le> 1000000000" "ot_max_chunk ot = int (length xss)" using Suc.prems(1) by (auto simp: index_ok_def arrays_def)
  show ?case
  proof (cases "len = 0")
    case True
    then show ?thesis using Suc.prems(2) by (subst evf_read_chunks.simps) simp
  next
    case False
    then have len: "len > 0" using Suc.prems(6) by simp
    obtain g1 fds1 where l: "evf_load_chunk z ot (int k) g fds = Some (g1, fds1, True)" "globals_ready full xss g1"
      "eg_data g1 = Some (xss ! k)" "fds_keep fds fds1"
      using evf_load_chunk_ok [OF Suc.prems(1) k Suc.prems(2,3)] unfolding full_def by blast
    define av where "av = min (int full - int off) len"
    have av: "0 < av" "av \<le> len" "av \<le> int full - int off" using len Suc.prems(5)
      unfolding full_def [symmetric] by (simp_all add: av_def)
    have x: "length (xss ! k) = full" using Suc.prems(3) k by (simp add: whole_chunks_def full_def)
    define xs where "xs = take (nat av) (drop off (xss ! k))"
    have r: "mem_read (xss ! k) (int off) av = Some xs" using av x by (simp add: mem_read_def xs_def)
    have "\<not> int k \<ge> u64 (ot_max_chunk ot)" using n k by (simp add: u64_id)
    then have step: "evf_read_chunks z ot g fds len (int k) (int off) copied =
        evf_read_chunks z ot g1 fds1 (len - av) (int (Suc k)) (int 0) (copied @ xs)"
      using len l(1,3) r by (subst evf_read_chunks.simps) (simp add: full(1) av_def [symmetric] add.commute)
    have "d = length xss - Suc k" "Suc k \<le> length xss" "0 < nat (ot_chunk_size ot)" "0 \<le> len - av"
      using Suc.hyps(2) k full av by (simp_all add: full_def)
    from Suc.hyps(1) [OF this(1) index_ok_keep [OF Suc.prems(1) l(4)] l(2) [unfolded full_def] Suc.prems(3) this(2-4), of "copied @ xs"]
    obtain g' fds' where r': "evf_read_chunks z ot g1 fds1 (len - av) (int (Suc k)) (int 0) (copied @ xs) =
        Some (g', fds', Inr ((copied @ xs) @ take (nat (len - av)) (drop (Suc k * full + 0) (concat xss))))"
      "globals_ready full xss g'" "fds_keep fds1 fds'"
      unfolding full_def by blast
    have "xs @ take (nat (len - av)) (drop (Suc k * full) (concat xss)) = take (nat len) (drop (k * full + off) (concat xss))"
    proof (cases "len \<le> int full - int off")
      case True
      then have "av = len" by (simp add: av_def)
      moreover have "nat len \<le> length (drop off (xss ! k))" using True x len by simp
      ultimately show ?thesis
        using part_of_chunks [OF Suc.prems(3) [folded full_def] k, of off] Suc.prems(5) by (simp add: xs_def full_def)
    next
      case False
      then have a: "av = int full - int off" by (simp add: av_def)
      then have "xs = drop off (xss ! k)" using x by (simp add: xs_def)
      moreover have "nat (len - av) = nat len - length (drop off (xss ! k))"
        using a x Suc.prems(5) False len unfolding full_def [symmetric] by simp
      moreover have "length (drop off (xss ! k)) \<le> nat len" using a x False Suc.prems(5) unfolding full_def [symmetric] by simp
      ultimately show ?thesis
        using part_of_chunks [OF Suc.prems(3) [folded full_def] k, of off] Suc.prems(5) by (simp add: full_def)
    qed
    then show ?thesis unfolding step r'(1) using r'(2,3) l(4) fds_keep_trans by (auto simp: full_def)
  qed
qed

text \<open>An open image with the globals; a read copies what it gets into the buffer of the caller.\<close>

record evf_image =
  ei_ot :: offset_table
  ei_globals :: evf_globals
  ei_fds :: fd_table

definition evf_image_read :: "zlib \<Rightarrow> (nat \<Rightarrow> byte) \<Rightarrow> evf_image \<Rightarrow> byte list \<Rightarrow> int \<Rightarrow> int \<Rightarrow>
    (evf_image \<times> (sgz_error + byte list \<times> int)) option" where
  "evf_image_read z heap s buf len offs =
     (case evf_read_random z heap (ei_ot s) (ei_globals s) (ei_fds s) len offs of
        None \<Rightarrow> None
      | Some (g, fds, Inl e) \<Rightarrow> Some (s\<lparr>ei_globals := g, ei_fds := fds\<rparr>, Inl e)
      | Some (g, fds, Inr xs) \<Rightarrow>
          map_option (\<lambda>buf. (s\<lparr>ei_globals := g, ei_fds := fds\<rparr>, Inr (buf, int (length xs)))) (mem_write buf 0 xs))"

definition evf_represents :: "zlib \<Rightarrow> evf_image \<Rightarrow> byte list \<Rightarrow> bool" where
  "evf_represents z s img \<longleftrightarrow> (\<exists>xss. index_ok z (ei_fds s) (ei_ot s) xss \<and> whole_chunks (nat (ot_chunk_size (ei_ot s))) xss \<and>
     globals_ok (nat (ot_chunk_size (ei_ot s))) xss (ei_globals s) \<and> img = concat xss)"

lemma evf_read_random_ok:
  assumes "index_ok z fds ot xss" and "globals_ok (nat (ot_chunk_size ot)) xss g" and "whole_chunks (nat (ot_chunk_size ot)) xss"
    and "0 \<le> len" and "0 \<le> offs" and "offs \<le> int (length (concat xss))"
  obtains g' fds' where "evf_read_random z heap ot g fds len offs = Some (g', fds', Inr (take (nat len) (drop (nat offs) (concat xss))))"
    "globals_ready (nat (ot_chunk_size ot)) xss g'" "fds_keep fds fds'"
proof -
  define full where "full = nat (ot_chunk_size ot)"
  have full: "ot_chunk_size ot = int full" "0 < full" using index_full [OF assms(1)] assms(1) by (auto simp: full_def index_ok_def)
  have n: "length xss \<le> 1000000000" "ot_max_chunk ot = int (length xss)" using assms(1) by (auto simp: index_ok_def arrays_def)
  define g0 where "g0 = (if eg_data g = None then g\<lparr>eg_data := Some (map heap [0..<full])\<rparr> else g)"
  define g1 where "g1 = (if eg_cdata g0 = None then g0\<lparr>eg_cdata := Some (map heap [0..<full + 1024])\<rparr> else g0)"
  have g1: "globals_ready full xss g1"
    using assms(2) by (auto simp: globals_ok_def globals_ready_def evf_initial_def g0_def g1_def full_def)
  define k where "k = nat offs div full"
  define off where "off = nat offs mod full"
  have k: "offs div int full = int k" "offs mod int full = int off" "k \<le> length xss" "off < full"
  proof -
    have o: "offs = int (nat offs)" using assms(5) by simp
    show "offs div int full = int k" "offs mod int full = int off" using o by (metis k_def zdiv_int, metis off_def zmod_int)
    have "length (concat xss) = length xss * full" using length_whole_chunks [OF assms(3)] by (simp add: full_def)
    then have "nat offs \<le> length xss * full" using assms(6) by linarith
    then have "k \<le> length xss * full div full" unfolding k_def by (rule div_le_mono)
    then show "k \<le> length xss" using full(2) by simp
    show "off < full" using full(2) by (simp add: off_def)
  qed
  have u: "u64 (s32 (int k)) = int k" "u64 (ot_max_chunk ot) = int (length xss)" using k(3) n by (simp_all add: s32_id u64_id)
  have "k * full + off = nat offs" by (simp add: k_def off_def)
  with evf_read_chunks_ok [OF assms(1) g1 [unfolded full_def] assms(3) k(3) k(4) [unfolded full_def] assms(4), of "[]"]
  obtain g' fds' where r: "evf_read_chunks z ot g1 fds len (int k) (int off) [] =
      Some (g', fds', Inr (take (nat len) (drop (nat offs) (concat xss))))" "globals_ready full xss g'" "fds_keep fds fds'"
    by (auto simp: full_def)
  have "evf_read_random z heap ot g fds len offs = evf_read_chunks z ot g1 fds len (int k) (int off) []"
    unfolding evf_read_random_def Let_def full(1) k(1,2) nat_int g0_def [symmetric] g1_def [symmetric] u(1) u(2)
    using full(2) k(3) by simp
  then show ?thesis using that r by (simp add: full_def)
qed

interpretation evf_source: image_source "evf_represents z" "evf_image_read z heap"
  for z :: zlib and heap
proof
  fix s and img buf xs :: "byte list" and len offs :: int
  assume a: "evf_represents z s img" "0 \<le> len" "len \<le> 2147479552" "length buf = nat len" "0 \<le> offs" "offs \<le> int (length img)"
    "xs = take (nat len) (drop (nat offs) img)"
  from a(1) obtain xss where x: "index_ok z (ei_fds s) (ei_ot s) xss" "whole_chunks (nat (ot_chunk_size (ei_ot s))) xss"
    "globals_ok (nat (ot_chunk_size (ei_ot s))) xss (ei_globals s)" "img = concat xss"
    by (auto simp: evf_represents_def)
  obtain g' fds' where r: "evf_read_random z heap (ei_ot s) (ei_globals s) (ei_fds s) len offs = Some (g', fds', Inr xs)"
    "globals_ready (nat (ot_chunk_size (ei_ot s))) xss g'" "fds_keep (ei_fds s) fds'"
    using evf_read_random_ok [OF x(1,3,2) a(2,5), of heap] a(6,7) x(4) by auto
  have "length xs \<le> length buf" using a(4,7) by simp
  then have "mem_write buf 0 xs = Some (over_block xs buf)" by (simp add: mem_write_def over_block_def)
  then have "evf_image_read z heap s buf len offs = Some (s\<lparr>ei_globals := g', ei_fds := fds'\<rparr>, Inr (over_block xs buf, int (length xs)))"
    by (simp add: evf_image_read_def r(1))
  moreover have "evf_represents z (s\<lparr>ei_globals := g', ei_fds := fds'\<rparr>) img"
    using x(2,4) r(2) index_ok_keep [OF x(1) r(3)] by (auto simp: evf_represents_def globals_ok_def)
  ultimately show "\<exists>s'. evf_image_read z heap s buf len offs = Some (s', Inr (over_block xs buf, int (length xs))) \<and> evf_represents z s' img"
    by blast
qed

end
