(* ===== verification/Evf_File.thy ===== *)
theory Evf_File
  imports Evf_Image
begin

text \<open>
  Whole files in the expert witness format, from the descriptor to the index and to the restored image.
\<close>

section \<open>Files of sections\<close>

lemma drop_after: "drop p D = xs @ ys \<Longrightarrow> q = p + length xs \<Longrightarrow> drop q D = ys"
  by (metis add.commute append_eq_conv_conj drop_drop)

lemma evf_read_front:
  assumes "fd_open fds fd D p" and "drop p D = xs @ rest" and "length xs = n" and "0 < n"
  obtains fds' where "evf_read fds fd (int n) = (fds', xs, int n)" "fd_open fds' fd D (p + n)" "same_but fd fds fds'"
proof -
  have "0 < length (drop p D)" "n \<le> length (drop p D)" using assms(2-4) by simp_all
  then have "p + n \<le> length D" by simp
  moreover have "take n (drop p D) = xs" using assms(2,3) by simp
  ultimately show ?thesis using evf_read_open [OF assms(1)] that by metis
qed

definition section_ok :: "evf_section_header \<Rightarrow> bool" where
  "section_ok h \<longleftrightarrow> length (se_type h) = 16 \<and> length (se_padding h) = 40 \<and> 0 \<le> se_next h \<and> se_next h < 18446744073709551616 \<and>
     0 \<le> se_size h \<and> se_size h < 18446744073709551616 \<and> 0 \<le> se_crc h \<and> se_crc h < 4294967296"

lemma section_of_bytes: "section_ok h \<Longrightarrow> section_of (section_bytes h) = h \<and> length (section_bytes h) = SIZEOF_SECTION"
  by (simp add: section_ok_def section_of_def section_bytes_def SIZEOF_SECTION_def le_val_le_bytes)

lemma read_section_ok:
  assumes "fd_open fds fd D p" and "drop p D = section_bytes h @ rest" and "section_ok h"
  obtains fds' where "evf_read_section heap fds fd = (fds', Inr h)" "fd_open fds' fd D (p + SIZEOF_SECTION)" "same_but fd fds fds'"
proof -
  note b = section_of_bytes [OF assms(3)]
  obtain fds' where r: "evf_read fds fd (int SIZEOF_SECTION) = (fds', section_bytes h, int SIZEOF_SECTION)"
    "fd_open fds' fd D (p + SIZEOF_SECTION)" "same_but fd fds fds'"
    using evf_read_front [OF assms(1,2) conjunct2 [OF b]] by (auto simp: SIZEOF_SECTION_def)
  have "over_block (section_bytes h) (map heap [0..<SIZEOF_SECTION]) = section_bytes h" using b by (simp add: over_block_def)
  then have "evf_read_section heap fds fd = (fds', Inr h)"
    using r(1) b by (simp add: evf_read_section_def u64_id SIZEOF_SECTION_def)
  then show ?thesis using that r(2,3) by blast
qed

text \<open>What the processing of a section leads to, wherever the other files are.\<close>

definition leads_to :: "zlib \<Rightarrow> (nat \<Rightarrow> byte) \<Rightarrow> (nat \<Rightarrow> int) \<Rightarrow> int \<Rightarrow> int \<Rightarrow> byte list \<Rightarrow> nat \<Rightarrow> evf_section_header \<Rightarrow> int \<Rightarrow> offset_table \<Rightarrow>
    (offset_table \<Rightarrow> bool) \<Rightarrow> bool" where
  "leads_to z heap junk stack fd D p h i ot Q \<longleftrightarrow> array_get (Some (ot_files ot)) i = Some fd \<and>
     (\<forall>fds. fd_open fds fd D (p + SIZEOF_SECTION) \<longrightarrow>
        (\<exists>fds' q ot'. process_section z heap junk stack h i ot fds = Some (fds', Inr ot') \<and> fd_open fds' fd D q \<and> same_but fd fds fds' \<and> Q ot'))"

text \<open>What the sections from \<open>p\<close> to \<open>q\<close> make of the index, as a triple. The loop keeps the offset of the section that it is in, but for the first.\<close>

definition gets_to :: "zlib \<Rightarrow> (nat \<Rightarrow> byte) \<Rightarrow> (nat \<Rightarrow> int) \<Rightarrow> int \<Rightarrow> int \<Rightarrow> byte list \<Rightarrow> int \<Rightarrow> nat \<Rightarrow> offset_table \<Rightarrow> nat \<Rightarrow>
    (offset_table \<Rightarrow> bool) \<Rightarrow> bool" where
  "gets_to z heap junk stack fd D i p ot q Q \<longleftrightarrow> p \<le> q \<and> (\<forall>fds old. fd_open fds fd D p \<and> 0 \<le> old \<and> old \<le> int p \<longrightarrow>
     (\<exists>fds' old' ot'. evtool_sections z heap junk stack i old ot fds = evtool_sections z heap junk stack i old' ot' fds' \<and>
        fd_open fds' fd D q \<and> same_but fd fds fds' \<and> old' = (if p < q then int q else old) \<and> Q ot'))"

lemma gets_to_refl: "Q ot \<Longrightarrow> gets_to z heap junk stack fd D i p ot p Q"
  unfolding gets_to_def using same_but_refl by fastforce

lemma gets_to_mono:
  "gets_to z heap junk stack fd D i p ot q Q \<Longrightarrow> (\<And>ot'. Q ot' \<Longrightarrow> R ot') \<Longrightarrow> gets_to z heap junk stack fd D i p ot q R"
  unfolding gets_to_def by metis

lemma gets_to_trans:
  assumes "gets_to z heap junk stack fd D i p ot q Q" and next': "\<And>ot'. Q ot' \<Longrightarrow> gets_to z heap junk stack fd D i q ot' r R"
    and "q \<le> r"
  shows "gets_to z heap junk stack fd D i p ot r R"
  unfolding gets_to_def
proof (intro conjI allI impI)
  have pq: "p \<le> q" using assms(1) by (simp add: gets_to_def)
  then show "p \<le> r" using assms(3) by simp
  fix fds old assume o: "fd_open fds fd D p \<and> 0 \<le> old \<and> old \<le> int p"
  then obtain fds1 old1 ot1 where 1: "evtool_sections z heap junk stack i old ot fds = evtool_sections z heap junk stack i old1 ot1 fds1"
    "fd_open fds1 fd D q" "same_but fd fds fds1" "old1 = (if p < q then int q else old)" "Q ot1"
    using assms(1) unfolding gets_to_def by blast
  have "0 \<le> old1" "old1 \<le> int q" using 1(4) o pq by auto
  then obtain fds2 old2 ot2 where 2: "evtool_sections z heap junk stack i old1 ot1 fds1 = evtool_sections z heap junk stack i old2 ot2 fds2"
    "fd_open fds2 fd D r" "same_but fd fds1 fds2" "old2 = (if q < r then int r else old1)" "R ot2"
    using next' [OF 1(5)] 1(2) unfolding gets_to_def by blast
  have "old2 = (if p < r then int r else old)" using 1(4) 2(4) pq assms(3) by auto
  then show "\<exists>fds' old' ot'. evtool_sections z heap junk stack i old ot fds = evtool_sections z heap junk stack i old' ot' fds' \<and>
      fd_open fds' fd D r \<and> same_but fd fds fds' \<and> old' = (if p < r then int r else old) \<and> R ot'"
    using 1(1) 2(1,2,5) same_but_trans [OF 1(3) 2(3)] by auto
qed

lemma sections_step:
  assumes "drop p D = section_bytes h @ rest" and "section_ok h" and lead: "leads_to z heap junk stack fd D p h i ot Q"
    and "se_next h = int q" and "p < q" and "int q < 2147483648"
  shows "gets_to z heap junk stack fd D i p ot q Q"
  unfolding gets_to_def
proof (intro conjI allI impI)
  show "p \<le> q" using assms(5) by simp
  fix fds old assume o: "fd_open fds fd D p \<and> 0 \<le> old \<and> old \<le> int p"
  obtain fds1 where r: "evf_read_section heap fds fd = (fds1, Inr h)" "fd_open fds1 fd D (p + SIZEOF_SECTION)" "same_but fd fds fds1"
    using read_section_ok [OF conjunct1 [OF o] assms(1,2)] by blast
  have f: "array_get (Some (ot_files ot)) i = Some fd" using lead by (simp add: leads_to_def)
  obtain fds2 q' ot' where s: "process_section z heap junk stack h i ot fds1 = Some (fds2, Inr ot')" "fd_open fds2 fd D q'"
    "same_but fd fds1 fds2" "Q ot'"
    using lead r(2) unfolding leads_to_def by blast
  obtain fds3 where k: "evf_seek fds2 fd (int q) = (fds3, True)" "fd_open fds3 fd D q" "same_but fd fds2 fds3"
    using evf_seek_open [OF s(2), of q] assms(6) by auto
  have "u64 old = old" "s32 (int q) = int q" "old < int q" using o assms(5,6) by (simp_all add: u64_id s32_id)
  then have "evtool_sections z heap junk stack i old ot fds = evtool_sections z heap junk stack i (int q) ot' fds3"
    using f r(1) s(1) k(1) assms(4) by (subst evtool_sections.simps) simp
  moreover have "same_but fd fds fds3" using r(3) s(3) k(3) same_but_trans by blast
  ultimately show "\<exists>fds' old' ot'. evtool_sections z heap junk stack i old ot fds = evtool_sections z heap junk stack i old' ot' fds' \<and>
      fd_open fds' fd D q \<and> same_but fd fds fds' \<and> old' = (if p < q then int q else old) \<and> Q ot'"
    using k(2) s(4) assms(5) by auto
qed

lemma sections_last:
  assumes "fd_open fds fd D p" and "drop p D = section_bytes h @ rest" and "section_ok h"
    and lead: "leads_to z heap junk stack fd D p h i ot Q" and "0 \<le> old" and "se_next h \<le> old" and "old < 2147483648"
  obtains fds' q ot' where "evtool_sections z heap junk stack i old ot fds = Some (fds', Inr (ot', h))" "fd_open fds' fd D q"
    "same_but fd fds fds'" "Q ot'"
proof -
  obtain fds1 where r: "evf_read_section heap fds fd = (fds1, Inr h)" "fd_open fds1 fd D (p + SIZEOF_SECTION)" "same_but fd fds fds1"
    using read_section_ok [OF assms(1-3)] by blast
  have f: "array_get (Some (ot_files ot)) i = Some fd" using lead by (simp add: leads_to_def)
  obtain fds2 q ot' where s: "process_section z heap junk stack h i ot fds1 = Some (fds2, Inr ot')" "fd_open fds2 fd D q"
    "same_but fd fds1 fds2" "Q ot'"
    using lead r(2) unfolding leads_to_def by blast
  have "u64 old = old" using assms(5,7) by (simp add: u64_id)
  then have "evtool_sections z heap junk stack i old ot fds = Some (fds2, Inr (ot', h))"
    using f r(1) s(1) assms(6) by (subst evtool_sections.simps) simp
  then show ?thesis using that s(2,4) r(3) s(3) same_but_trans by blast
qed

definition section_type :: "string \<Rightarrow> byte list" where
  "section_type t = c_bytes t @ replicate (16 - length t) 0"

lemma section_type_bytes:
  "section_type ''header'' = [104, 101, 97, 100, 101, 114, 0, 0, 0, 0, 0, 0, 0, 0, 0, 0]"
  "section_type ''volume'' = [118, 111, 108, 117, 109, 101, 0, 0, 0, 0, 0, 0, 0, 0, 0, 0]"
  "section_type ''table'' = [116, 97, 98, 108, 101, 0, 0, 0, 0, 0, 0, 0, 0, 0, 0, 0]"
  "section_type ''sectors'' = [115, 101, 99, 116, 111, 114, 115, 0, 0, 0, 0, 0, 0, 0, 0, 0]"
  "section_type ''hash'' = [104, 97, 115, 104, 0, 0, 0, 0, 0, 0, 0, 0, 0, 0, 0, 0]"
  "section_type ''done'' = [100, 111, 110, 101, 0, 0, 0, 0, 0, 0, 0, 0, 0, 0, 0, 0]"
  by (simp_all add: section_type_def c_bytes_def eval_nat_numeral)

lemma section_types:
  "type_starts (section_type ''header'') ''header''"
  "\<not> type_starts (section_type ''volume'') ''header''" "type_starts (section_type ''volume'') ''volume''"
  "\<not> type_starts (section_type ''table'') ''header''" "\<not> type_starts (section_type ''table'') ''volume''"
  "\<not> type_starts (section_type ''table'') ''disk''" "type_is (section_type ''table'') ''table''"
  "\<not> type_starts (section_type ''sectors'') ''header''" "\<not> type_starts (section_type ''sectors'') ''volume''"
  "\<not> type_starts (section_type ''sectors'') ''disk''" "\<not> type_is (section_type ''sectors'') ''table''"
  "type_is (section_type ''sectors'') ''sectors''"
  "\<not> type_starts (section_type ''hash'') ''header''" "\<not> type_starts (section_type ''hash'') ''volume''"
  "\<not> type_starts (section_type ''hash'') ''disk''" "\<not> type_is (section_type ''hash'') ''table''"
  "\<not> type_is (section_type ''hash'') ''sectors''" "\<not> type_is (section_type ''hash'') ''table2''"
  "type_is (section_type ''hash'') ''hash''"
  "\<not> type_starts (section_type ''done'') ''header''" "\<not> type_starts (section_type ''done'') ''volume''"
  "\<not> type_starts (section_type ''done'') ''disk''" "\<not> type_is (section_type ''done'') ''table''"
  "\<not> type_is (section_type ''done'') ''sectors''" "\<not> type_is (section_type ''done'') ''table2''"
  "\<not> type_is (section_type ''done'') ''hash''"
  by (simp_all add: type_starts_def type_is_def section_type_bytes c_bytes_def)

lemma section_type_done: "take 5 (map lower_byte (section_type ''done'')) = c_bytes ''done'' @ [0]"
  by code_simp

text \<open>The index with a section more.\<close>

definition with_section :: "int \<Rightarrow> nat \<Rightarrow> evf_section_header \<Rightarrow> offset_table \<Rightarrow> offset_table" where
  "with_section fd p h ot = ot\<lparr>ot_section_list := ot_section_list ot @
     [\<lparr>sc_fd = fd, sc_start_offset = int p, sc_end_offset = int p + se_size h\<rparr>]\<rparr>"

lemma new_section_ok:
  assumes "fd_open fds fd D (p + SIZEOF_SECTION)" and "0 \<le> se_size h" and "int p + se_size h < 4294967296"
  shows "new_section fds fd h = \<lparr>sc_fd = fd, sc_start_offset = int p, sc_end_offset = int p + se_size h\<rparr>"
proof -
  have "evf_tell fds fd - int SIZEOF_SECTION = int p" using evf_tell_open [OF assms(1)] by simp
  moreover have "u32 (int p) = int p" "u32 (se_size h + int p) = int p + se_size h" using assms(2,3) by (simp_all add: u32_id)
  ultimately show ?thesis unfolding new_section_def Let_def by (simp only:)
qed

text \<open>What is done for a section of each type, when its bytes are those of such a section.\<close>

lemma process_section_start:
  assumes "array_get (Some (ot_files ot)) i = Some fd" and "fd_open fds fd D (p + SIZEOF_SECTION)" and "0 \<le> se_size h"
    and "int p + se_size h < 4294967296" and "ot1 = with_section fd p h ot"
  shows "process_section z heap junk stack h i ot fds =
      (if type_starts (se_type h) ''header''
       then do {
         (fds, e) \<leftarrow> header_section z heap h fd fds;
         Some (fds, case e of None \<Rightarrow> Inr ot1 | Some e \<Rightarrow> Inl e)
       }
       else if type_starts (se_type h) ''volume'' \<or> type_starts (se_type h) ''disk'' then Some (volume_section heap junk fd ot1 fds)
       else if type_is (se_type h) ''table'' then table_section heap junk stack fd ot1 fds
       else if type_is (se_type h) ''sectors'' \<or> type_is (se_type h) ''table2'' then Some (fds, Inr ot1)
       else if type_is (se_type h) ''hash''
       then (let (fds, xs, r) = evf_read fds fd 16
             in if u64 r < 16 then Some (fds, Inl E_IOERROR)
                else Some (fds, Inr (ot1\<lparr>ot_md5 := over_block xs (ot_md5 ot1)\<rparr>)))
       else Some (fds, Inr ot1))"
proof -
  have 1: "ot\<lparr>ot_section_list := ot_section_list ot @ [new_section fds fd h]\<rparr> = ot1"
    using new_section_ok [OF assms(2-4)] assms(5) by (simp add: with_section_def)
  have 2: "(evf_tell fds fd < 0) = False" using evf_tell_open [OF assms(2)] by simp
  show ?thesis by (simp only: process_section_def assms(1) Option.bind.bind_lunit Let_def 1 2 if_False)
qed

lemma sectors_section_ok:
  assumes "array_get (Some (ot_files ot)) i = Some fd" and "0 \<le> se_size h" and "int p + se_size h < 4294967296"
    and "se_type h = section_type ''sectors'' \<or> se_type h = section_type ''done''"
  shows "leads_to z heap junk stack fd D p h i ot ((=) (with_section fd p h ot))"
  unfolding leads_to_def
proof (intro conjI allI impI assms(1))
  fix fds assume o: "fd_open fds fd D (p + SIZEOF_SECTION)"
  have "process_section z heap junk stack h i ot fds = Some (fds, Inr (with_section fd p h ot))"
    using process_section_start [OF assms(1) o assms(2,3) refl] assms(4) by (auto simp: section_types)
  then show "\<exists>fds' q ot'. process_section z heap junk stack h i ot fds = Some (fds', Inr ot') \<and> fd_open fds' fd D q \<and> same_but fd fds fds' \<and> (=) (with_section fd p h ot) ot'"
    using o by auto
qed

lemma hash_section_ok:
  assumes "array_get (Some (ot_files ot)) i = Some fd" and "0 \<le> se_size h" and "int p + se_size h < 4294967296"
    and "se_type h = section_type ''hash''" and "drop (p + SIZEOF_SECTION) D = digest @ rest" and "length digest = 16"
    and "length (ot_md5 ot) = 16"
  shows "leads_to z heap junk stack fd D p h i ot ((=) (with_section fd p h ot\<lparr>ot_md5 := digest\<rparr>))"
  unfolding leads_to_def
proof (intro conjI allI impI assms(1))
  fix fds assume o: "fd_open fds fd D (p + SIZEOF_SECTION)"
  obtain fds' where r: "evf_read fds fd (int 16) = (fds', digest, int 16)" "fd_open fds' fd D (p + SIZEOF_SECTION + 16)" "same_but fd fds fds'"
    using evf_read_front [OF o assms(5,6)] by auto
  have "process_section z heap junk stack h i ot fds = Some (fds', Inr (with_section fd p h ot\<lparr>ot_md5 := digest\<rparr>))"
    using process_section_start [OF assms(1) o assms(2,3) refl] assms(4,6,7) r(1)
    by (simp add: section_types over_block_def u64_id with_section_def)
  then show "\<exists>fds' q ot'. process_section z heap junk stack h i ot fds = Some (fds', Inr ot') \<and>
      fd_open fds' fd D q \<and> same_but fd fds fds' \<and> (=) (with_section fd p h ot\<lparr>ot_md5 := digest\<rparr>) ot'"
    using r by blast
qed

definition volume_ok :: "evf_volume_header \<Rightarrow> bool" where
  "volume_ok v \<longleftrightarrow> 0 \<le> ev_reserved v \<and> ev_reserved v < 4294967296 \<and> 0 \<le> ev_chunk_count v \<and> ev_chunk_count v \<le> 100000000 \<and>
     0 \<le> ev_sectors_per_chunk v \<and> ev_sectors_per_chunk v < 4294967296 \<and> 0 \<le> ev_bytes_per_sector v \<and> ev_bytes_per_sector v < 4294967296 \<and>
     0 \<le> ev_sector_count v \<and> ev_sector_count v < 4294967296 \<and> length (ev_rest v) = 1028 \<and> 0 \<le> ev_crc v \<and> ev_crc v < 4294967296"

lemma volume_of_bytes: "volume_ok v \<Longrightarrow> volume_of (volume_bytes v) = v \<and> length (volume_bytes v) = SIZEOF_VOLUME"
  by (simp add: volume_ok_def volume_of_def volume_bytes_def SIZEOF_VOLUME_def le_val_le_bytes)

text \<open>The index with the arrays for the chunks of a volume, of which none is known.\<close>

definition with_volume :: "(nat \<Rightarrow> int) \<Rightarrow> evf_volume_header \<Rightarrow> offset_table \<Rightarrow> offset_table" where
  "with_volume junk v ot = (let m = map junk [0..<nat (if ev_chunk_count v = 0 then 1 else ev_chunk_count v)]
     in ot\<lparr>ot_chunk_size := s32 (ev_sectors_per_chunk v * ev_bytes_per_sector v), ot_max_chunk := 0, ot_fd := Some m, ot_offset := Some m, ot_size := Some m\<rparr>)"

lemma volume_section_ok:
  assumes "array_get (Some (ot_files ot)) i = Some fd" and "0 \<le> se_size h" and "int p + se_size h < 4294967296"
    and "se_type h = section_type ''volume''" and "drop (p + SIZEOF_SECTION) D = volume_bytes v @ rest" and "volume_ok v"
  shows "leads_to z heap junk stack fd D p h i ot ((=) (with_volume junk v (with_section fd p h ot)))"
  unfolding leads_to_def
proof (intro conjI allI impI assms(1))
  fix fds assume o: "fd_open fds fd D (p + SIZEOF_SECTION)"
  note b = volume_of_bytes [OF assms(6)]
  obtain fds' where r: "evf_read fds fd (int SIZEOF_VOLUME) = (fds', volume_bytes v, int SIZEOF_VOLUME)"
    "fd_open fds' fd D (p + SIZEOF_SECTION + SIZEOF_VOLUME)" "same_but fd fds fds'"
    using evf_read_front [OF o assms(5) conjunct2 [OF b]] by (auto simp: SIZEOF_VOLUME_def)
  have "over_block (volume_bytes v) (map heap [0..<SIZEOF_VOLUME]) = volume_bytes v" using b by (simp add: over_block_def)
  then have "volume_section heap junk fd ot1 fds = (fds', Inr (with_volume junk v ot1))" for ot1
    using b unfolding volume_section_def r(1) Let_def with_volume_def by (simp add: SIZEOF_VOLUME_def u64_id)
  then have "process_section z heap junk stack h i ot fds = Some (fds', Inr (with_volume junk v (with_section fd p h ot)))"
    using process_section_start [OF assms(1) o assms(2,3) refl] assms(4) by (simp add: section_types)
  then show "\<exists>fds' q ot'. process_section z heap junk stack h i ot fds = Some (fds', Inr ot') \<and>
      fd_open fds' fd D q \<and> same_but fd fds fds' \<and> (=) (with_volume junk v (with_section fd p h ot)) ot'"
    using r by blast
qed

text \<open>The read of a header section takes as many bytes as its size says, with those of the section header.\<close>

lemma header_section_ok:
  assumes "array_get (Some (ot_files ot)) i = Some fd" and "0 \<le> se_size h" and "int p + se_size h < 4294967296"
    and "se_type h = section_type ''header''" and "drop (p + SIZEOF_SECTION) D = text @ rest" and "se_size h = int (length text)"
    and "length text \<le> 32768" and "z_uncompress z 32768 text = (Z_OK, out, n)" and "length out \<le> 32768" and "n < 32768" and "text \<noteq> []"
  shows "leads_to z heap junk stack fd D p h i ot ((=) (with_section fd p h ot))"
  unfolding leads_to_def
proof (intro conjI allI impI assms(1))
  fix fds assume o: "fd_open fds fd D (p + SIZEOF_SECTION)"
  obtain fds' where r: "evf_read fds fd (int (length text)) = (fds', text, int (length text))"
    "fd_open fds' fd D (p + SIZEOF_SECTION + length text)" "same_but fd fds fds'"
    using evf_read_front [OF o assms(5) refl] assms(11) by auto
  define block where "block = map heap [0..<32768]"
  have lb: "length block = 32768" by (simp add: block_def)
  have s: "s32 (se_size h) = int (length text)" "u64 (int (length text)) = int (length text)" using assms(6,7) by (simp_all add: s32_id u64_id)
  have w: "mem_write block 0 text = Some (over_block text block)" "mem_write block 0 out = Some (over_block out block)"
    using assms(7,9) lb by (simp_all add: mem_write_def over_block_def)
  have rd: "mem_read (over_block text block) 0 (int (length text)) = Some text" by (simp add: mem_read_def over_block_def)
  have "length (over_block out block) = 32768" using assms(9) lb by (simp add: over_block_def)
  then have w0: "\<exists>d. mem_write (over_block out block) (int n) [0] = Some d" using assms(10) by (simp add: mem_write_def)
  have "header_section z heap h fd fds = Some (fds', None)"
    unfolding header_section_def block_def [symmetric] Let_def s(1) r(1)
    using w rd w0 s(2) assms(6,8) by auto
  then have "process_section z heap junk stack h i ot fds = Some (fds', Inr (with_section fd p h ot))"
    using process_section_start [OF assms(1) o assms(2,3) refl] assms(4) by (simp add: section_types)
  then show "\<exists>fds' q ot'. process_section z heap junk stack h i ot fds = Some (fds', Inr ot') \<and>
      fd_open fds' fd D q \<and> same_but fd fds fds' \<and> (=) (with_section fd p h ot) ot'"
    using r by blast
qed

lemma table_section_leads:
  assumes "array_get (Some (ot_files ot)) i = Some fd" and "0 \<le> se_size h" and "int p + se_size h < 4294967296"
    and "se_type h = section_type ''table''" and "drop (p + SIZEOF_SECTION) D = table_body t es @ four @ rest" and "length four = 4"
    and "table_ok t es cs base" and "arrays ot F A Z n" and "int n \<le> 1000000000"
    and "sectors_at fd base cs (ot_section_list (with_section fd p h ot))"
  shows "leads_to z heap junk stack fd D p h i ot (\<lambda>ot'. \<exists>F' A' Z'. same_table (with_section fd p h ot) ot' \<and>
    arrays ot' F' A' Z' (n + length cs) \<and> entries ot' = entries ot @ chunk_entries fd base cs)"
  unfolding leads_to_def
proof (intro conjI allI impI assms(1))
  fix fds assume o: "fd_open fds fd D (p + SIZEOF_SECTION)"
  define ot1 where "ot1 = with_section fd p h ot"
  have a: "arrays ot1 F A Z n" and e: "entries ot1 = entries ot" using assms(8) by (simp_all add: arrays_def ot1_def with_section_def entries_def)
  have "process_section z heap junk stack h i ot fds = table_section heap junk stack fd ot1 fds"
    using process_section_start [OF assms(1) o assms(2,3) ot1_def] assms(4) by (simp add: section_types)
  then show "\<exists>fds' q ot'. process_section z heap junk stack h i ot fds = Some (fds', Inr ot') \<and> fd_open fds' fd D q \<and> same_but fd fds fds' \<and>
      (\<exists>F' A' Z'. same_table (with_section fd p h ot) ot' \<and> arrays ot' F' A' Z' (n + length cs) \<and> entries ot' = entries ot @ chunk_entries fd base cs)"
    using table_section_ok [OF o assms(7,5,6) a assms(9) assms(10) [folded ot1_def], of heap junk stack] unfolding e ot1_def [symmetric]
    by (metis (no_types, lifting))
qed

section \<open>The layout of a file\<close>

definition section_at :: "string \<Rightarrow> nat \<Rightarrow> nat \<Rightarrow> evf_section_header" where
  "section_at t next n =
     (let h = \<lparr>se_type = section_type t, se_next = int next, se_size = int (76 + n), se_padding = replicate 40 0, se_crc = 0\<rparr>
      in h\<lparr>se_crc := adler32 (take 72 (section_bytes h))\<rparr>)"

definition section_put :: "string \<Rightarrow> nat \<Rightarrow> byte list \<Rightarrow> byte list" where
  "section_put t p body = section_bytes (section_at t (p + 76 + length body) (length body)) @ body"

definition table_for :: "byte list list \<Rightarrow> evf_table_header" where
  "table_for cs =
     (let t = \<lparr>et_count = int (length cs), et_padding = replicate 16 0, et_crc = 0\<rparr> in t\<lparr>et_crc := adler32 (take 20 (table_bytes t))\<rparr>)"

text \<open>The highest bit of an offset tells that the chunk is compressed.\<close>

definition offsets_for :: "nat \<Rightarrow> int \<Rightarrow> byte list list \<Rightarrow> int list" where
  "offsets_for full base cs = map2 (\<lambda>a c. if length c < full then a + 0x80000000 else a) (starts base cs) cs"

text \<open>The parts of a file. Chunks are in a section of their own, with their table in the next one.\<close>

datatype evf_part = Header_Part "byte list" | Volume_Part evf_volume_header | Chunks_Part "byte list list" | Hash_Part "byte list"

fun part_bytes :: "nat \<Rightarrow> nat \<Rightarrow> evf_part \<Rightarrow> byte list" where
  "part_bytes full p (Header_Part t) = section_put ''header'' p t"
| "part_bytes full p (Volume_Part v) = section_put ''volume'' p (volume_bytes v)"
| "part_bytes full p (Chunks_Part cs) =
     (let chunks = section_put ''sectors'' p (concat cs);
          es = offsets_for full (int (p + 76)) cs
      in chunks @ section_put ''table'' (p + length chunks)
           (table_body (table_for cs) es @ le_bytes 4 (adler32 (concat (map (le_bytes 4) es)))))"
| "part_bytes full p (Hash_Part d) =
     section_put ''hash'' p (d @ replicate 16 0 @ le_bytes 4 (adler32 (d @ replicate 16 0)))"

fun parts_bytes :: "nat \<Rightarrow> nat \<Rightarrow> evf_part list \<Rightarrow> byte list" where
  "parts_bytes full p [] = []"
| "parts_bytes full p (part # parts) =
     (let b = part_bytes full p part in b @ parts_bytes full (p + length b) parts)"

definition segment_bytes :: "nat \<Rightarrow> int \<Rightarrow> evf_part list \<Rightarrow> string \<Rightarrow> byte list" where
  "segment_bytes full k parts closing =
     (let b = parts_bytes full 13 parts
      in evf_magic @ [1] @ le_bytes 2 k @ le_bytes 2 0 @ b @ section_bytes (section_at closing (13 + length b) 0))"

text \<open>What the parts hold: their chunks, where the index finds them, and the digest.\<close>

fun part_chunks :: "evf_part \<Rightarrow> byte list list" where
  "part_chunks (Chunks_Part cs) = cs"
| "part_chunks _ = []"

fun part_digest :: "byte list \<Rightarrow> evf_part \<Rightarrow> byte list" where
  "part_digest d (Hash_Part e) = e"
| "part_digest d _ = d"

fun part_ok :: "zlib \<Rightarrow> evf_part \<Rightarrow> bool" where
  "part_ok z (Header_Part t) \<longleftrightarrow> length t \<le> 32692 \<and>
     (\<forall>r. length r = 76 \<longrightarrow> (\<exists>out n. z_uncompress z 32768 (t @ r) = (Z_OK, out, n) \<and> length out \<le> 32768 \<and> n < 32768))"
| "part_ok z (Volume_Part v) \<longleftrightarrow> volume_ok v"
| "part_ok z (Chunks_Part cs) \<longleftrightarrow> 2 \<le> length cs \<and> length cs \<le> 100000000 \<and> (\<forall>c\<in>set cs. c \<noteq> [] \<and> length c < 65536)"
| "part_ok z (Hash_Part d) \<longleftrightarrow> length d = 16"

lemma adler32_bound: "0 \<le> adler32 xs \<and> adler32 xs < 4294967296"
proof -
  have "0 \<le> a' \<and> a' < 65521 \<and> 0 \<le> b' \<and> b' < 65521" if "adler32_loop a b xs = (a', b')" "0 \<le> a" "a < 65521" "0 \<le> b" "b < 65521"
    for a b a' b' using that by (induction a b xs rule: adler32_loop.induct) auto
  from this [of 1 0] show ?thesis unfolding adler32_def by (auto split: prod.split)
qed

lemma section_at_ok:
  assumes "length t \<le> 16" and "int next < 4294967296" and "int n < 4294967296"
  shows "section_ok (section_at t next n)"
  using assms adler32_bound by (simp add: section_ok_def section_at_def Let_def section_type_def c_bytes_def)

lemma section_at_sel [simp]:
  "se_type (section_at t next n) = section_type t" "se_next (section_at t next n) = int next" "se_size (section_at t next n) = int (76 + n)"
  by (simp_all add: section_at_def Let_def)

lemma length_section_at: "length t \<le> 16 \<Longrightarrow> length (section_bytes (section_at t next n)) = 76"
  by (simp add: section_bytes_def section_at_def Let_def section_type_def c_bytes_def)

lemma length_section_put: "length t \<le> 16 \<Longrightarrow> length (section_put t p body) = 76 + length body"
  by (simp add: section_put_def length_section_at)

lemma put_gets:
  assumes "drop p D = section_put t p body @ rest" and "length t \<le> 16" and "q = p + 76 + length body" and "int q < 2147483648"
    and "leads_to z heap junk stack fd D p (section_at t q (length body)) i ot Q"
  shows "gets_to z heap junk stack fd D i p ot q Q"
proof (rule sections_step [OF _ _ assms(5)])
  show "drop p D = section_bytes (section_at t q (length body)) @ body @ rest" using assms(1,3) by (simp add: section_put_def)
  show "section_ok (section_at t q (length body))" using assms(2-4) by (intro section_at_ok) simp_all
qed (use assms(3,4) in simp_all)

lemma put_body: "drop p D = section_put t p body @ rest \<Longrightarrow> length t \<le> 16 \<Longrightarrow> drop (p + SIZEOF_SECTION) D = body @ rest"
  unfolding section_put_def SIZEOF_SECTION_def
  by (metis (no_types, lifting) add.commute append.assoc append_eq_conv_conj drop_drop length_section_at)

section \<open>The index of a file\<close>

text \<open>The sections that are known are of the files \<open>S\<close>, and those of the file \<open>fd\<close> end before \<open>p\<close>.\<close>

definition sections_below :: "int set \<Rightarrow> int \<Rightarrow> nat \<Rightarrow> offset_table \<Rightarrow> bool" where
  "sections_below S fd p ot \<longleftrightarrow> (\<forall>s\<in>set (ot_section_list ot). sc_fd s \<in> S \<and> (sc_fd s = fd \<longrightarrow> sc_end_offset s \<le> int p))"

definition index_at :: "nat \<Rightarrow> int set \<Rightarrow> int \<Rightarrow> nat \<Rightarrow> int list \<Rightarrow> (int \<times> int \<times> int) list \<Rightarrow> byte list \<Rightarrow> offset_table \<Rightarrow> bool" where
  "index_at full S fd p files es d ot \<longleftrightarrow> ot_chunk_size ot = int full \<and> ot_files ot = files \<and> (\<exists>F A Z. arrays ot F A Z (length es)) \<and>
     entries ot = es \<and> ot_md5 ot = d \<and> length d = 16 \<and> sections_below S fd p ot"

fun part_entries :: "int \<Rightarrow> nat \<Rightarrow> evf_part \<Rightarrow> (int \<times> int \<times> int) list" where
  "part_entries fd p (Chunks_Part cs) = chunk_entries fd (int (p + 76)) cs"
| "part_entries fd p _ = []"

fun parts_entries :: "nat \<Rightarrow> int \<Rightarrow> nat \<Rightarrow> evf_part list \<Rightarrow> (int \<times> int \<times> int) list" where
  "parts_entries full fd p [] = []"
| "parts_entries full fd p (part # parts) =
     part_entries fd p part @ parts_entries full fd (p + length (part_bytes full p part)) parts"

lemma sections_below_with:
  "sections_below S fd p ot \<Longrightarrow> fd \<in> S \<Longrightarrow> q = p + 76 + n \<Longrightarrow> sections_below S fd q (with_section fd p (section_at t next n) ot)"
  by (auto simp: sections_below_def with_section_def)

lemma index_at_with:
  "index_at full S fd p files es d ot \<Longrightarrow> fd \<in> S \<Longrightarrow> q = p + 76 + n \<Longrightarrow>
   index_at full S fd q files es d (with_section fd p (section_at t next n) ot)"
  unfolding index_at_def using sections_below_with [of S fd p ot q n t "next"]
  by (auto simp: with_section_def arrays_def entries_def)

lemma index_at_md5: "index_at full S fd q files es d ot \<Longrightarrow> length d' = 16 \<Longrightarrow> index_at full S fd q files es d' (ot\<lparr>ot_md5 := d'\<rparr>)"
  by (auto simp: index_at_def arrays_def entries_def sections_below_def)

lemma leads_to_mono: "leads_to z heap junk stack fd D p h i ot Q \<Longrightarrow> (\<And>ot'. Q ot' \<Longrightarrow> R ot') \<Longrightarrow> leads_to z heap junk stack fd D p h i ot R"
  unfolding leads_to_def by metis

lemma offsets_for_ok:
  assumes "0 \<le> base" and "base + int (length (concat cs)) < 2147483648"
  shows "map (\<lambda>e. e mod 0x80000000) (offsets_for full base cs) = starts base cs" and "\<forall>e\<in>set (offsets_for full base cs). 0 \<le> e \<and> e < 4294967296"
    and "length (offsets_for full base cs) = length cs"
proof -
  show l: "length (offsets_for full base cs) = length cs" by (simp add: offsets_for_def)
  have k: "0 \<le> starts base cs ! k \<and> starts base cs ! k < 2147483648" if "k < length cs" for k
    using starts_bound [OF assms(1) that] assms(2) by linarith
  have o: "offsets_for full base cs ! k = (if length (cs ! k) < full then starts base cs ! k + 2147483648 else starts base cs ! k)"
    if "k < length cs" for k using that by (simp add: offsets_for_def)
  show "map (\<lambda>e. e mod 0x80000000) (offsets_for full base cs) = starts base cs"
  proof (rule nth_equalityI)
    fix j assume "j < length (map (\<lambda>e. e mod 0x80000000) (offsets_for full base cs))"
    then have j: "j < length cs" by (simp add: l)
    then show "map (\<lambda>e. e mod 0x80000000) (offsets_for full base cs) ! j = starts base cs ! j"
      using k [OF j] o [OF j] by (simp add: l)
  qed (simp add: l)
  show "\<forall>e\<in>set (offsets_for full base cs). 0 \<le> e \<and> e < 4294967296"
  proof
    fix e assume "e \<in> set (offsets_for full base cs)"
    then obtain j where "j < length cs" "e = offsets_for full base cs ! j" unfolding in_set_conv_nth l by blast
    then show "0 \<le> e \<and> e < 4294967296" using k o by fastforce
  qed
qed

lemma table_for_ok:
  assumes "part_ok z (Chunks_Part cs)" and "0 \<le> base" and "base + int (length (concat cs)) < 2147483648"
  shows "table_ok (table_for cs) (offsets_for full base cs) cs base"
  using assms offsets_for_ok [OF assms(2,3)] adler32_bound by (simp add: table_ok_def table_for_def Let_def)

lemma header_gets:
  assumes "part_ok z (Header_Part t)" and "drop p D = section_put ''header'' p t @ rest" and "76 \<le> length rest"
    and "array_get (Some (ot_files ot)) i = Some fd" and "q = p + 76 + length t" and "int q < 2147483648"
  shows "gets_to z heap junk stack fd D i p ot q ((=) (with_section fd p (section_at ''header'' q (length t)) ot))"
proof (rule put_gets [OF assms(2) _ assms(5,6)])
  obtain out n where z: "z_uncompress z 32768 (t @ take 76 rest) = (Z_OK, out, n)" "length out \<le> 32768" "n < 32768"
    using assms(1,3) by force
  have b: "drop (p + SIZEOF_SECTION) D = (t @ take 76 rest) @ drop 76 rest" using put_body [OF assms(2)] by simp
  have l: "length (t @ take 76 rest) = 76 + length t" "length t \<le> 32692" using assms(1,3) by simp_all
  then have "t @ take 76 rest \<noteq> []" by force
  then show "leads_to z heap junk stack fd D p (section_at ''header'' q (length t)) i ot
      ((=) (with_section fd p (section_at ''header'' q (length t)) ot))"
    using l assms(5,6) by (intro header_section_ok [OF assms(4) _ _ _ b _ _ z]) simp_all
qed simp

lemma volume_gets:
  assumes "volume_ok v" and "drop p D = section_put ''volume'' p (volume_bytes v) @ rest"
    and "array_get (Some (ot_files ot)) i = Some fd" and "q = p + 76 + length (volume_bytes v)" and "int q < 2147483648"
    and "fd \<in> S" and "sections_below S fd p ot" and "ot_files ot = files" and "ot_md5 ot = d" and "length d = 16"
    and "ev_sectors_per_chunk v * ev_bytes_per_sector v = int full" and "full \<le> 1000000"
  shows "gets_to z heap junk stack fd D i p ot q (index_at full S fd q files [] d)"
proof (rule put_gets [OF assms(2) _ assms(4,5)])
  define h where "h = section_at ''volume'' q (length (volume_bytes v))"
  have "leads_to z heap junk stack fd D p h i ot ((=) (with_volume junk v (with_section fd p h ot)))"
    using assms(4,5) put_body [OF assms(2)] by (intro volume_section_ok [OF assms(3) _ _ _ _ assms(1)]) (simp_all add: h_def)
  moreover have "index_at full S fd q files [] d (with_volume junk v (with_section fd p h ot))"
  proof -
    have "sections_below S fd q (with_section fd p h ot)" unfolding h_def using assms(4) by (intro sections_below_with [OF assms(7,6)]) simp
    then have "sections_below S fd q (with_volume junk v (with_section fd p h ot))" by (simp add: sections_below_def with_volume_def Let_def)
    moreover have "s32 (int full) = int full" using assms(12) by (simp add: s32_id)
    ultimately show ?thesis using assms(8-11) by (simp add: index_at_def with_volume_def Let_def arrays_def entries_def with_section_def)
  qed
  ultimately show "leads_to z heap junk stack fd D p (section_at ''volume'' q (length (volume_bytes v))) i ot (index_at full S fd q files [] d)"
    unfolding h_def by (auto elim: leads_to_mono)
qed simp

lemma hash_gets:
  assumes "length d' = 16" and "drop p D = section_put ''hash'' p (d' @ filler) @ rest"
    and "array_get (Some files) i = Some fd" and "q = p + 76 + length (d' @ filler)" and "int q < 2147483648"
    and "fd \<in> S" and "index_at full S fd p files es d ot"
  shows "gets_to z heap junk stack fd D i p ot q (index_at full S fd q files es d')"
proof (rule put_gets [OF assms(2) _ assms(4,5)])
  define h where "h = section_at ''hash'' q (length (d' @ filler))"
  have b: "drop (p + SIZEOF_SECTION) D = d' @ filler @ rest" using put_body [OF assms(2)] by simp
  have f: "array_get (Some (ot_files ot)) i = Some fd" "length (ot_md5 ot) = 16" using assms(3,7) by (simp_all add: index_at_def)
  have "leads_to z heap junk stack fd D p h i ot ((=) (with_section fd p h ot\<lparr>ot_md5 := d'\<rparr>))"
    using assms(4,5) by (intro hash_section_ok [OF f(1) _ _ _ b assms(1) f(2)]) (simp_all add: h_def)
  moreover have "index_at full S fd q files es d' (with_section fd p h ot\<lparr>ot_md5 := d'\<rparr>)"
    using index_at_with [OF assms(7,6), of q "length (d' @ filler)" "''hash''" q, folded h_def] assms(1,4) by (intro index_at_md5) simp_all
  ultimately show "leads_to z heap junk stack fd D p (section_at ''hash'' q (length (d' @ filler))) i ot (index_at full S fd q files es d')"
    unfolding h_def by (auto elim: leads_to_mono)
qed simp

lemma starts_last: "cs \<noteq> [] \<Longrightarrow> base \<le> last (starts base cs)"
proof -
  assume a: "cs \<noteq> []"
  then have "starts base cs \<noteq> []" by (cases cs) simp_all
  then have "last (starts base cs) = starts base cs ! (length cs - 1)" by (simp add: last_conv_nth)
  then show ?thesis using a by (simp add: starts_nth)
qed

lemma chunks_gets:
  assumes "part_ok z (Chunks_Part cs)" and "drop p D = part_bytes full p (Chunks_Part cs) @ rest"
    and "array_get (Some files) i = Some fd" and "q = p + length (part_bytes full p (Chunks_Part cs))" and "int q < 2147483648"
    and "fd \<in> S" and "index_at full S fd p files es d ot" and "int (length es) \<le> 1000000000"
  shows "gets_to z heap junk stack fd D i p ot q (index_at full S fd q files (es @ chunk_entries fd (int (p + 76)) cs) d)"
proof -
  define base where "base = int (p + 76)"
  define offs where "offs = offsets_for full base cs"
  define four where "four = le_bytes 4 (adler32 (concat (map (le_bytes 4) offs)))"
  define p1 where "p1 = p + 76 + length (concat cs)"
  define body where "body = table_body (table_for cs) offs @ four"
  define h1 where "h1 = section_at ''sectors'' p1 (length (concat cs))"
  define h2 where "h2 = section_at ''table'' q (length body)"
  have bytes: "part_bytes full p (Chunks_Part cs) = section_put ''sectors'' p (concat cs) @ section_put ''table'' p1 body"
    by (simp add: Let_def base_def offs_def four_def p1_def body_def length_section_put add.assoc)
  have D1: "drop p D = section_put ''sectors'' p (concat cs) @ section_put ''table'' p1 body @ rest" using assms(2) unfolding bytes by simp
  have q: "q = p1 + 76 + length body" using assms(4) unfolding bytes by (simp add: length_section_put p1_def)
  have D2: "drop p1 D = section_put ''table'' p1 body @ rest"
    by (rule drop_after [OF D1]) (simp add: p1_def length_section_put)
  define ot1 where "ot1 = with_section fd p h1 ot"
  have f: "array_get (Some (ot_files ot)) i = Some fd" using assms(3,7) by (simp add: index_at_def)
  have i1: "index_at full S fd p1 files es d ot1"
    using index_at_with [OF assms(7,6), of p1 "length (concat cs)"] by (simp add: ot1_def h1_def p1_def)
  have f1: "array_get (Some (ot_files ot1)) i = Some fd" using assms(3) i1 by (simp add: index_at_def)
  have "leads_to z heap junk stack fd D p h1 i ot ((=) ot1)"
    unfolding ot1_def using q assms(5) by (intro sectors_section_ok [OF f]) (simp_all add: h1_def p1_def)
  then have one: "gets_to z heap junk stack fd D i p ot p1 ((=) ot1)"
    using q assms(5) unfolding h1_def by (intro put_gets [OF D1]) (simp_all add: p1_def)
  obtain F A Z where a: "arrays ot1 F A Z (length es)" using i1 by (auto simp: index_at_def)
  have b: "0 \<le> base" "base + int (length (concat cs)) < 2147483648" using q assms(5) by (simp_all add: base_def p1_def)
  have t: "table_ok (table_for cs) offs cs base" unfolding offs_def by (rule table_for_ok [OF assms(1) b])
  have cs: "cs \<noteq> []" using assms(1) by auto
  have sec: "sectors_at fd base cs (ot_section_list (with_section fd p1 h2 ot1))"
  proof -
    have l: "ot_section_list (with_section fd p1 h2 ot1) = ot_section_list ot @ \<lparr>sc_fd = fd, sc_start_offset = int p, sc_end_offset = int p + se_size h1\<rparr> #
        [\<lparr>sc_fd = fd, sc_start_offset = int p1, sc_end_offset = int p1 + se_size h2\<rparr>]"
      by (simp add: with_section_def ot1_def)
    have "\<forall>t\<in>set (ot_section_list ot). \<not> (sc_fd t = fd \<and> sc_start_offset t < last (starts base cs) \<and> last (starts base cs) < sc_end_offset t)"
      using assms(7) starts_last [OF cs, of base] by (force simp: index_at_def sections_below_def base_def)
    then show ?thesis unfolding sectors_at_def l
      by (intro exI [of _ "ot_section_list ot"] exI [of _ "\<lparr>sc_fd = fd, sc_start_offset = int p, sc_end_offset = int p + se_size h1\<rparr>"]
          exI [of _ "[\<lparr>sc_fd = fd, sc_start_offset = int p1, sc_end_offset = int p1 + se_size h2\<rparr>]"]) (simp add: base_def h1_def)
  qed
  have lead: "leads_to z heap junk stack fd D p1 h2 i ot1 (\<lambda>ot'. \<exists>F' A' Z'. same_table (with_section fd p1 h2 ot1) ot' \<and>
      arrays ot' F' A' Z' (length es + length cs) \<and> entries ot' = entries ot1 @ chunk_entries fd base cs)"
  proof (rule table_section_leads [OF f1 _ _ _ _ _ t a assms(8) sec])
    show "drop (p1 + SIZEOF_SECTION) D = table_body (table_for cs) offs @ four @ rest"
      using put_body [OF D2] by (simp add: body_def)
  qed (use q assms(5) in \<open>simp_all add: h2_def four_def\<close>)
  have i2: "index_at full S fd q files es d (with_section fd p1 h2 ot1)"
    unfolding h2_def using q by (intro index_at_with [OF i1 assms(6)]) simp
  have two: "gets_to z heap junk stack fd D i p1 ot1 q (index_at full S fd q files (es @ chunk_entries fd base cs) d)"
  proof (rule put_gets [OF D2 _ q assms(5) leads_to_mono [OF lead [unfolded h2_def]]], goal_cases)
    case (2 ot')
    then show ?case using i1 i2 unfolding h2_def [symmetric] index_at_def same_table_def sections_below_def
      by (auto simp: chunk_entries_def)
  qed simp
  show ?thesis using gets_to_trans [OF one] two q by (auto simp: base_def)
qed

text \<open>A part, and all parts.\<close>

fun later_part :: "evf_part \<Rightarrow> bool" where
  "later_part (Volume_Part v) = False"
| "later_part _ = True"

lemma part_gets:
  assumes "later_part part" and "part_ok z part" and "drop p D = part_bytes full p part @ rest" and "76 \<le> length rest"
    and "array_get (Some files) i = Some fd" and "q = p + length (part_bytes full p part)" and "int q < 2147483648"
    and "fd \<in> S" and "index_at full S fd p files es d ot" and "int (length es) \<le> 1000000000"
  shows "gets_to z heap junk stack fd D i p ot q (index_at full S fd q files (es @ part_entries fd p part) (part_digest d part))"
proof (cases part)
  case (Header_Part t)
  have f: "array_get (Some (ot_files ot)) i = Some fd" using assms(5,9) by (simp add: index_at_def)
  have q: "q = p + 76 + length t" using assms(6) Header_Part by (simp add: length_section_put)
  have "gets_to z heap junk stack fd D i p ot q ((=) (with_section fd p (section_at ''header'' q (length t)) ot))"
    using assms(2,3,4,7) Header_Part by (intro header_gets [OF _ _ _ f q]) simp_all
  moreover have "index_at full S fd q files es d (with_section fd p (section_at ''header'' q (length t)) ot)"
    using q by (intro index_at_with [OF assms(9,8)]) simp
  ultimately show ?thesis using Header_Part by (auto elim: gets_to_mono)
next
  case (Chunks_Part cs)
  then show ?thesis using chunks_gets [of z cs p D full rest files i fd q S es d ot] assms by (simp del: part_bytes.simps part_ok.simps)
next
  case (Hash_Part d')
  define filler where "filler = replicate 16 0 @ le_bytes 4 (adler32 (d' @ replicate 16 0))"
  have p: "part_bytes full p part = section_put ''hash'' p (d' @ filler)" using Hash_Part by (simp add: filler_def)
  have "q = p + 76 + length (d' @ filler)" using assms(6) unfolding p by (simp only: length_section_put) (simp add: length_section_put)
  then show ?thesis using hash_gets [OF _ assms(3) [unfolded p] assms(5) _ assms(7-9)] assms(2) Hash_Part by simp
qed (use assms(1) in simp)

lemma parts_gets:
  assumes "\<forall>part\<in>set parts. later_part part \<and> part_ok z part" and "drop p D = parts_bytes full p parts @ rest" and "76 \<le> length rest"
    and "array_get (Some files) i = Some fd" and "q = p + length (parts_bytes full p parts)" and "int q < 2147483648"
    and "fd \<in> S" and "index_at full S fd p files es d ot" and "int (length es) + int (length (concat (map part_chunks parts))) \<le> 1000000000"
  shows "gets_to z heap junk stack fd D i p ot q
    (index_at full S fd q files (es @ parts_entries full fd p parts) (foldl part_digest d parts))"
  using assms
proof (induction parts arbitrary: p es d ot)
  case Nil
  then show ?case by (simp add: gets_to_refl)
next
  case (Cons part parts)
  define p1 where "p1 = p + length (part_bytes full p part)"
  have D1: "drop p D = part_bytes full p part @ parts_bytes full p1 parts @ rest" using Cons.prems(2) by (simp add: p1_def Let_def)
  then have D2: "drop p1 D = parts_bytes full p1 parts @ rest"
    by (rule drop_after) (rule p1_def)
  have q: "q = p1 + length (parts_bytes full p1 parts)" using Cons.prems(5) by (simp add: p1_def Let_def)
  have one: "gets_to z heap junk stack fd D i p ot p1 (index_at full S fd p1 files (es @ part_entries fd p part) (part_digest d part))"
    using Cons.prems(1,3,6,9) q by (intro part_gets [OF _ _ D1 _ Cons.prems(4) p1_def _ Cons.prems(7,8)]) simp_all
  have "length (part_entries fd p part) = length (part_chunks part)" by (cases part) (simp_all add: chunk_entries_def)
  then have n: "int (length (es @ part_entries fd p part)) + int (length (concat (map part_chunks parts))) \<le> 1000000000"
    using Cons.prems(9) by simp
  show ?case
  proof (rule gets_to_trans [OF one])
    fix ot' assume "index_at full S fd p1 files (es @ part_entries fd p part) (part_digest d part) ot'"
    from Cons.IH [OF _ D2 Cons.prems(3,4) q Cons.prems(6,7) this n] Cons.prems(1)
    show "gets_to z heap junk stack fd D i p1 ot' q
        (index_at full S fd q files (es @ parts_entries full fd p (part # parts)) (foldl part_digest d (part # parts)))"
      by (simp add: p1_def)
  qed (use q in simp)
qed

lemma parts_bytes_append: "parts_bytes full p (xs @ ys) = parts_bytes full p xs @ parts_bytes full (p + length (parts_bytes full p xs)) ys"
  by (induction xs arbitrary: p) (simp_all add: Let_def add.assoc)

lemma parts_entries_append:
  "parts_entries full fd p (xs @ ys) = parts_entries full fd p xs @ parts_entries full fd (p + length (parts_bytes full p xs)) ys"
  by (induction xs arbitrary: p) (simp_all add: Let_def add.assoc)

lemma parts_entries_headers [simp]: "parts_entries full fd p (map Header_Part hs) = []"
  by (induction hs arbitrary: p) simp_all

text \<open>Before the volume section.\<close>

definition index_opened :: "int set \<Rightarrow> int \<Rightarrow> nat \<Rightarrow> int list \<Rightarrow> byte list \<Rightarrow> offset_table \<Rightarrow> bool" where
  "index_opened S fd p files d ot \<longleftrightarrow> ot_files ot = files \<and> ot_md5 ot = d \<and> sections_below S fd p ot"

lemma headers_gets:
  assumes "\<forall>t\<in>set hs. part_ok z (Header_Part t)" and "drop p D = parts_bytes full p (map Header_Part hs) @ rest" and "76 \<le> length rest"
    and "array_get (Some files) i = Some fd" and "q = p + length (parts_bytes full p (map Header_Part hs))" and "int q < 2147483648"
    and "fd \<in> S" and "index_opened S fd p files d ot"
  shows "gets_to z heap junk stack fd D i p ot q (index_opened S fd q files d)"
  using assms
proof (induction hs arbitrary: p ot)
  case Nil
  then show ?case by (simp add: gets_to_refl)
next
  case (Cons t hs)
  define p1 where "p1 = p + 76 + length t"
  have l: "length (section_put ''header'' p t) = 76 + length t" by (simp add: length_section_put)
  have D1: "drop p D = section_put ''header'' p t @ parts_bytes full p1 (map Header_Part hs) @ rest"
    using Cons.prems(2) by (simp add: p1_def Let_def l add.assoc)
  then have D2: "drop p1 D = parts_bytes full p1 (map Header_Part hs) @ rest"
    by (rule drop_after) (simp add: l p1_def)
  have q: "q = p1 + length (parts_bytes full p1 (map Header_Part hs))" using Cons.prems(5) by (simp add: p1_def Let_def l add.assoc)
  have f: "array_get (Some (ot_files ot)) i = Some fd" using Cons.prems(4,8) by (simp add: index_opened_def)
  have one: "gets_to z heap junk stack fd D i p ot p1 ((=) (with_section fd p (section_at ''header'' p1 (length t)) ot))"
    using Cons.prems(1,3,6) q by (intro header_gets [OF _ D1 _ f p1_def]) simp_all
  show ?case
  proof (rule gets_to_trans [OF one])
    fix ot' assume "with_section fd p (section_at ''header'' p1 (length t)) ot = ot'"
    then have "index_opened S fd p1 files d ot'"
      using Cons.prems(8) sections_below_with [of S fd p ot p1 "length t"] Cons.prems(7)
      by (auto simp: index_opened_def p1_def with_section_def)
    then show "gets_to z heap junk stack fd D i p1 ot' q (index_opened S fd q files d)"
      using Cons.prems(1) by (intro Cons.IH [OF _ D2 Cons.prems(3,4) q Cons.prems(6,7)]) simp_all
  qed (use q in simp)
qed

text \<open>The parts of the first file.\<close>

definition first_parts :: "zlib \<Rightarrow> nat \<Rightarrow> evf_part list \<Rightarrow> bool" where
  "first_parts z full parts \<longleftrightarrow> (\<exists>hs v ps. parts = map Header_Part hs @ Volume_Part v # ps \<and> (\<forall>t\<in>set hs. part_ok z (Header_Part t)) \<and>
     volume_ok v \<and> ev_sectors_per_chunk v * ev_bytes_per_sector v = int full \<and> (\<forall>part\<in>set ps. later_part part \<and> part_ok z part))"

lemma first_gets:
  assumes "first_parts z full parts" and "drop p D = parts_bytes full p parts @ rest" and "76 \<le> length rest"
    and "array_get (Some files) i = Some fd" and "q = p + length (parts_bytes full p parts)" and "int q < 2147483648"
    and "fd \<in> S" and "index_opened S fd p files d ot" and "length d = 16" and "full \<le> 1000000"
    and "int (length (concat (map part_chunks parts))) \<le> 1000000000"
  shows "gets_to z heap junk stack fd D i p ot q (index_at full S fd q files (parts_entries full fd p parts) (foldl part_digest d parts))"
proof -
  obtain hs v ps where p: "parts = map Header_Part hs @ Volume_Part v # ps" "\<forall>t\<in>set hs. part_ok z (Header_Part t)" "volume_ok v"
    "ev_sectors_per_chunk v * ev_bytes_per_sector v = int full" "\<forall>part\<in>set ps. later_part part \<and> part_ok z part"
    using assms(1) unfolding first_parts_def by blast
  define p1 where "p1 = p + length (parts_bytes full p (map Header_Part hs))"
  define p2 where "p2 = p1 + 76 + length (volume_bytes v)"
  define B where "B = parts_bytes full p2 ps"
  have bytes: "parts_bytes full p parts = parts_bytes full p (map Header_Part hs) @ section_put ''volume'' p1 (volume_bytes v) @ B"
    unfolding p(1) by (simp add: parts_bytes_append p1_def p2_def B_def Let_def length_section_put add.assoc)
  have D1: "drop p D = parts_bytes full p (map Header_Part hs) @ section_put ''volume'' p1 (volume_bytes v) @ B @ rest"
    using assms(2) unfolding bytes by simp
  then have D2: "drop p1 D = section_put ''volume'' p1 (volume_bytes v) @ B @ rest"
    by (rule drop_after) (rule p1_def)
  then have D3: "drop p2 D = B @ rest"
    by (rule drop_after) (simp add: p2_def length_section_put)
  have q: "q = p2 + length B" using assms(5) unfolding bytes by (simp add: p2_def p1_def length_section_put)
  have entries: "parts_entries full fd p parts = parts_entries full fd p2 ps"
    unfolding p(1) by (simp add: parts_entries_append p1_def p2_def length_section_put add.assoc)
  have digest: "foldl part_digest d parts = foldl part_digest d ps"
  proof -
    have "foldl part_digest d (map Header_Part hs) = d" by (induction hs) simp_all
    then show ?thesis by (simp add: p(1))
  qed
  have chunks: "concat (map part_chunks parts) = concat (map part_chunks ps)"
  proof -
    have "concat (map part_chunks (map Header_Part hs)) = []" by (induction hs) simp_all
    then show ?thesis unfolding p(1) map_append concat_append by simp
  qed
  have one: "gets_to z heap junk stack fd D i p ot p1 (index_opened S fd p1 files d)"
    using assms(3,6) q by (intro headers_gets [OF p(2) D1 _ assms(4) p1_def _ assms(7,8)]) (simp_all add: p2_def)
  show ?thesis
  proof (rule gets_to_trans [OF one])
    fix ot1 assume o1: "index_opened S fd p1 files d ot1"
    have two: "gets_to z heap junk stack fd D i p1 ot1 p2 (index_at full S fd p2 files [] d)"
      using o1 assms(4,6) q by (intro volume_gets [OF p(3) D2 _ p2_def _ assms(7) _ _ _ assms(9) p(4) assms(10)])
        (simp_all add: index_opened_def)
    show "gets_to z heap junk stack fd D i p1 ot1 q (index_at full S fd q files (parts_entries full fd p parts) (foldl part_digest d parts))"
    proof (rule gets_to_trans [OF two])
      fix ot2 assume "index_at full S fd p2 files [] d ot2"
      from parts_gets [OF p(5) D3 [unfolded B_def] assms(3,4) q [unfolded B_def] assms(6,7) this]
      show "gets_to z heap junk stack fd D i p2 ot2 q (index_at full S fd q files (parts_entries full fd p parts) (foldl part_digest d parts))"
        unfolding entries digest using assms(11) chunks by simp
    qed (use q in simp)
  qed (use q in \<open>simp add: p2_def\<close>)
qed

end
