(* ===== verification/Evf_Restore.thy ===== *)
theory Evf_Restore
  imports Evf_File
begin

text \<open>
  Images of several files in the expert witness format: the files are opened in any state of memory, the index gets all their chunks, the
  image is restored with a check of its digest, and any part of it is read at random.
\<close>

section \<open>One file\<close>

lemma closing_leads:
  assumes "array_get (Some (ot_files ot)) i = Some fd" and "0 \<le> se_size h" and "int p + se_size h < 4294967296"
    and "se_type h = section_type ''next'' \<or> se_type h = section_type ''done''"
  shows "leads_to z heap junk stack fd D p h i ot ((=) (with_section fd p h ot))"
proof (cases "se_type h = section_type ''done''")
  case False
  have n: "section_type ''next'' = [110, 101, 120, 116, 0, 0, 0, 0, 0, 0, 0, 0, 0, 0, 0, 0]"
    by (simp add: section_type_def c_bytes_def eval_nat_numeral)
  have t: "\<not> type_starts (section_type ''next'') ''header''" "\<not> type_starts (section_type ''next'') ''volume''"
    "\<not> type_starts (section_type ''next'') ''disk''" "\<not> type_is (section_type ''next'') ''table''" "\<not> type_is (section_type ''next'') ''sectors''"
    "\<not> type_is (section_type ''next'') ''table2''" "\<not> type_is (section_type ''next'') ''hash''"
    unfolding n by (simp_all add: type_starts_def type_is_def c_bytes_def)
  show ?thesis
    unfolding leads_to_def
  proof (intro conjI allI impI assms(1))
    fix fds assume o: "fd_open fds fd D (p + SIZEOF_SECTION)"
    have "process_section z heap junk stack h i ot fds = Some (fds, Inr (with_section fd p h ot))"
      using process_section_start [OF assms(1) o assms(2,3) refl] assms(4) False by (simp add: t)
    then show "\<exists>fds' q ot'. process_section z heap junk stack h i ot fds = Some (fds', Inr ot') \<and> fd_open fds' fd D q \<and> same_but fd fds fds' \<and>
        with_section fd p h ot = ot'"
      using o by auto
  qed
qed (use sectors_section_ok [OF assms(1-3)] in simp)

lemma section_put_nonempty: "length t \<le> 16 \<Longrightarrow> section_put t p body \<noteq> []"
  using length_section_put [of t p body] by auto

lemma length_file_header: "length (evf_magic @ [1] @ le_bytes 2 k @ le_bytes 2 0) = 13"
  by (simp add: evf_magic_def)

lemma segment_run:
  assumes "D = segment_bytes full k parts closing" and "closing = ''next'' \<or> closing = ''done''" and "int (length D) < 2147483648"
    and "parts \<noteq> []" and "fd_open fds fd D 13" and "array_get (Some files) i = Some fd" and "fd \<in> S"
    and "\<forall>q rest. drop 13 D = parts_bytes full 13 parts @ rest \<and> 76 \<le> length rest \<and> q = 13 + length (parts_bytes full 13 parts) \<and>
        int q < 2147483648 \<longrightarrow> gets_to z heap junk stack fd D i 13 ot q (index_at full S fd q files es d)"
  obtains fds' ot' h q where "evtool_sections z heap junk stack i 0 ot fds = Some (fds', Inr (ot', h))" "se_type h = section_type closing"
    "same_but fd fds fds'" "fd_open fds' fd D q" "\<exists>p. index_at full S fd p files es d ot'"
proof -
  define q where "q = 13 + length (parts_bytes full 13 parts)"
  define h where "h = section_at closing q 0"
  have c: "length closing \<le> 16" using assms(2) by auto
  have D: "D = (evf_magic @ [1] @ le_bytes 2 k @ le_bytes 2 0) @ parts_bytes full 13 parts @ section_bytes h"
    unfolding assms(1) segment_bytes_def Let_def h_def q_def by (simp only: append_assoc)
  have D1: "drop 13 D = parts_bytes full 13 parts @ section_bytes h"
    unfolding D by (rule drop_after [of 0 _ "evf_magic @ [1] @ le_bytes 2 k @ le_bytes 2 0"]) (simp_all only: drop_0 length_file_header add_0)
  have D2: "drop q D = section_bytes h @ []" using drop_after [OF D1 q_def] by simp
  have lh: "length (section_bytes h) = 76" unfolding h_def by (rule length_section_at [OF c])
  have "length D = 13 + (length (parts_bytes full 13 parts) + 76)" unfolding D by (simp only: length_append [of _ "_ @ _"] length_file_header) (simp add: lh evf_magic_def)
  then have q: "int q + 76 < 2147483648" using assms(3) by (simp add: q_def)
  have "parts_bytes full 13 parts \<noteq> []"
  proof -
    obtain part parts' where p: "parts = part # parts'" using assms(4) by (cases parts) auto
    have "part_bytes full 13 part \<noteq> []" by (cases part) (simp_all add: section_put_nonempty Let_def)
    then show ?thesis by (simp add: p Let_def)
  qed
  then have q13: "13 < q" by (simp add: q_def)
  have "gets_to z heap junk stack fd D i 13 ot q (index_at full S fd q files es d)"
    using assms(8) D1 q_def lh q by simp
  then obtain fds1 old1 ot1 where 1: "evtool_sections z heap junk stack i 0 ot fds = evtool_sections z heap junk stack i old1 ot1 fds1"
    "fd_open fds1 fd D q" "same_but fd fds fds1" "old1 = int q" "index_at full S fd q files es d ot1"
    using assms(5) q13 unfolding gets_to_def by fastforce
  have f: "array_get (Some (ot_files ot1)) i = Some fd" using assms(6) 1(5) by (simp add: index_at_def)
  have so: "section_ok h" unfolding h_def using q by (intro section_at_ok [OF c]) simp_all
  have lead: "leads_to z heap junk stack fd D q h i ot1 ((=) (with_section fd q h ot1))"
    using q assms(2) by (intro closing_leads [OF f]) (auto simp: h_def)
  have o1: "0 \<le> old1" "se_next h \<le> old1" "old1 < 2147483648" using 1(4) q by (simp_all add: h_def)
  obtain fds2 q2 where 2: "evtool_sections z heap junk stack i old1 ot1 fds1 = Some (fds2, Inr (with_section fd q h ot1, h))" "fd_open fds2 fd D q2"
    "same_but fd fds1 fds2"
    using sections_last [OF 1(2) D2 so lead o1] by metis
  have "index_at full S fd (q + 76) files es d (with_section fd q h ot1)"
    unfolding h_def by (rule index_at_with [OF 1(5) assms(7)]) simp
  then show ?thesis using that [of fds2 "with_section fd q h ot1" h q2] 1(1) 2 same_but_trans [OF 1(3) 2(3)] by (auto simp: h_def)
qed

section \<open>All files\<close>

fun image_files :: "nat \<Rightarrow> int \<Rightarrow> evf_part list list \<Rightarrow> byte list list" where
  "image_files full k [] = []"
| "image_files full k (ps # pss) = segment_bytes full k ps (if pss = [] then ''done'' else ''next'') # image_files full (k + 1) pss"

fun image_entries :: "nat \<Rightarrow> int list \<Rightarrow> evf_part list list \<Rightarrow> (int \<times> int \<times> int) list" where
  "image_entries full (fd # names) (ps # pss) = parts_entries full fd 13 ps @ image_entries full names pss"
| "image_entries full _ _ = []"

definition image_chunks :: "evf_part list list \<Rightarrow> byte list list" where
  "image_chunks pss = concat (map part_chunks (concat pss))"

definition image_digest :: "byte list \<Rightarrow> evf_part list list \<Rightarrow> byte list" where
  "image_digest d pss = foldl part_digest d (concat pss)"

lemma length_parts_entries: "length (parts_entries full fd p ps) = length (concat (map part_chunks ps))"
proof (induction ps arbitrary: p)
  case (Cons part ps)
  have "length (part_entries fd p part) = length (part_chunks part)" by (cases part) (simp_all add: chunk_entries_def)
  then show ?case using Cons by simp
qed simp

definition files_at :: "fd_table \<Rightarrow> int list \<Rightarrow> byte list list \<Rightarrow> nat \<Rightarrow> bool" where
  "files_at fds names Ds p \<longleftrightarrow> list_all2 (\<lambda>fd D. fd_open fds fd D p) names Ds"

definition files_open :: "fd_table \<Rightarrow> int list \<Rightarrow> byte list list \<Rightarrow> bool" where
  "files_open fds names Ds \<longleftrightarrow> list_all2 (\<lambda>fd D. \<exists>p. fd_open fds fd D p) names Ds"

lemma fd_open_same: "same_but fd fds fds' \<Longrightarrow> g \<noteq> fd \<Longrightarrow> fd_open fds' g D p = fd_open fds g D p"
  by (simp add: same_but_def fd_open_def)

lemma files_at_same: "same_but fd fds fds' \<Longrightarrow> fd \<notin> set names \<Longrightarrow> files_at fds names Ds p \<Longrightarrow> files_at fds' names Ds p"
  unfolding files_at_def list_all2_iff by (metis (mono_tags, lifting) case_prodD case_prodI2 fd_open_same set_zip_leftD)

text \<open>The files after the first.\<close>

definition same_outside :: "int set \<Rightarrow> fd_table \<Rightarrow> fd_table \<Rightarrow> bool" where
  "same_outside S fds fds' \<longleftrightarrow> (\<forall>g. g \<notin> S \<longrightarrow> fds' g = fds g)"

definition later_segment :: "zlib \<Rightarrow> evf_part list \<Rightarrow> bool" where
  "later_segment z ps \<longleftrightarrow> ps \<noteq> [] \<and> (\<forall>part\<in>set ps. later_part part \<and> part_ok z part)"

lemma segments_run:
  assumes "\<forall>ps\<in>set pss. later_segment z ps" and "files_at fds names (image_files full k pss) 13"
    and "\<forall>D\<in>set (image_files full k pss). int (length D) < 2147483648" and "distinct names" and "\<forall>fd\<in>set names. 0 < fd \<and> fd \<notin> S"
    and "\<forall>j<length names. array_get (Some files) (k + int j) = Some (names ! j)"
    and "index_at full S fd p files es d ot" and "int (length es) + int (length (image_chunks pss)) \<le> 1000000000"
    and "pss = [] \<longrightarrow> se_type h = section_type ''done''"
  shows "\<exists>fds' ot' h'. evtool_segments z heap junk stack [k..k + int (length pss) - 1] ot (Some h) fds = Some (fds', Inr (ot', Some h')) \<and>
    se_type h' = section_type ''done'' \<and> files_open fds' names (image_files full k pss) \<and> same_outside (set names) fds fds' \<and>
    (\<exists>S' fd' p'. index_at full S' fd' p' files (es @ image_entries full names pss) (image_digest d pss) ot')"
  using assms
proof (induction pss arbitrary: k names fds ot h es d S fd p)
  case Nil
  then show ?case by (auto simp: files_at_def files_open_def image_digest_def same_outside_def)
next
  case (Cons ps pss)
  obtain fd1 names1 where names: "names = fd1 # names1" using Cons.prems(2) by (auto simp: files_at_def list_all2_Cons2)
  define closing where "closing = (if pss = [] then ''done'' else ''next'')"
  define D where "D = segment_bytes full k ps closing"
  have files: "image_files full k (ps # pss) = D # image_files full (k + 1) pss" by (simp add: D_def closing_def)
  have o: "fd_open fds fd1 D 13" "files_at fds names1 (image_files full (k + 1) pss) 13"
    using Cons.prems(2) unfolding files names files_at_def by simp_all
  have f: "array_get (Some files) k = Some fd1" using Cons.prems(6) names by force
  have fd1: "0 < fd1" "fd1 \<notin> S" "fd1 \<notin> set names1" "\<forall>fd\<in>set names1. 0 < fd \<and> fd \<notin> insert fd1 S" "distinct names1"
    using Cons.prems(4,5) names by auto
  have i1: "index_at full (insert fd1 S) fd1 13 files es d ot"
    using Cons.prems(7) fd1(2) by (auto simp: index_at_def sections_below_def)
  have later: "ps \<noteq> []" "\<forall>part\<in>set ps. later_part part \<and> part_ok z part" using Cons.prems(1) by (auto simp: later_segment_def)
  have chunks: "image_chunks (ps # pss) = concat (map part_chunks ps) @ image_chunks pss" by (simp add: image_chunks_def)
  define es1 where "es1 = es @ parts_entries full fd1 13 ps"
  have gets: "\<forall>q rest. drop 13 D = parts_bytes full 13 ps @ rest \<and> 76 \<le> length rest \<and> q = 13 + length (parts_bytes full 13 ps) \<and>
      int q < 2147483648 \<longrightarrow> gets_to z heap junk stack fd1 D k 13 ot q (index_at full (insert fd1 S) fd1 q files es1 (foldl part_digest d ps))"
  proof (intro allI impI, elim conjE)
    fix q rest assume a: "drop 13 D = parts_bytes full 13 ps @ rest" "76 \<le> length rest" "q = 13 + length (parts_bytes full 13 ps)" "int q < 2147483648"
    show "gets_to z heap junk stack fd1 D k 13 ot q (index_at full (insert fd1 S) fd1 q files es1 (foldl part_digest d ps))"
      unfolding es1_def using Cons.prems(8) chunks by (intro parts_gets [OF later(2) a(1,2) f a(3,4) _ i1]) simp_all
  qed
  have c: "closing = ''next'' \<or> closing = ''done''" "int (length D) < 2147483648" using Cons.prems(3) files by (auto simp: closing_def)
  obtain fds1 ot1 h1 q p1 where r: "evtool_sections z heap junk stack k 0 ot fds = Some (fds1, Inr (ot1, h1))" "se_type h1 = section_type closing"
    "same_but fd1 fds fds1" "fd_open fds1 fd1 D q" "index_at full (insert fd1 S) fd1 p1 files es1 (foldl part_digest d ps) ot1"
    by (rule segment_run [OF D_def c later(1) o(1) f insertI1 gets]) (elim exE, rule that)
  have n: "int (length es1) + int (length (image_chunks pss)) \<le> 1000000000"
    using Cons.prems(8) chunks by (simp add: es1_def length_parts_entries)
  have h1: "pss = [] \<longrightarrow> se_type h1 = section_type ''done''" using r(2) by (simp add: closing_def)
  have idx: "\<forall>j<length names1. array_get (Some files) (k + 1 + int j) = Some (names1 ! j)"
  proof (intro allI impI)
    fix j assume "j < length names1"
    then show "array_get (Some files) (k + 1 + int j) = Some (names1 ! j)" using Cons.prems(6) [rule_format, of "Suc j"] names by (simp add: add.assoc)
  qed
  have prems: "\<forall>ps\<in>set pss. later_segment z ps" "\<forall>D\<in>set (image_files full (k + 1) pss). int (length D) < 2147483648"
    using Cons.prems(1,3) files by auto
  from Cons.IH [OF prems(1) files_at_same [OF r(3) fd1(3) o(2)] prems(2) fd1(5,4) idx r(5) n h1]
  obtain fds' ot' h' S' fd' p' where IH:
    "evtool_segments z heap junk stack [k + 1..k + 1 + int (length pss) - 1] ot1 (Some h1) fds1 = Some (fds', Inr (ot', Some h'))"
    "se_type h' = section_type ''done''" "files_open fds' names1 (image_files full (k + 1) pss)" "same_outside (set names1) fds1 fds'"
    "index_at full S' fd' p' files (es1 @ image_entries full names1 pss) (image_digest (foldl part_digest d ps) pss) ot'"
    by blast
  have "[k..k + int (length (ps # pss)) - 1] = k # [k + 1..k + 1 + int (length pss) - 1]" by (subst upto.simps) (simp add: algebra_simps)
  moreover have "fd_open fds' fd1 D q" using IH(4) r(4) fd1(3) by (simp add: same_outside_def fd_open_def)
  moreover have "same_outside (set names) fds fds'" using IH(4) r(3) by (simp add: same_outside_def same_but_def names)
  moreover have "image_digest (foldl part_digest d ps) pss = image_digest d (ps # pss)" by (simp add: image_digest_def)
  moreover have "files_open fds' names (image_files full k (ps # pss))"
    using IH(3) calculation(2) unfolding files names files_open_def by auto
  moreover have "ot_files ot = files" using Cons.prems(7) by (simp add: index_at_def)
  then have "evtool_segments z heap junk stack (k # [k + 1..k + 1 + int (length pss) - 1]) ot (Some h) fds = Some (fds', Inr (ot', Some h'))"
    using IH(1) f fd1(1) r(1) by simp
  moreover have "es1 @ image_entries full names1 pss = es @ image_entries full names (ps # pss)" by (simp add: es1_def names)
  ultimately show ?case using IH(2,5) by metis
qed

lemma files_open_at: "files_open fds names Ds \<Longrightarrow> k < length names \<Longrightarrow> \<exists>p. fd_open fds (names ! k) (Ds ! k) p"
  by (simp add: files_open_def list_all2_conv_all_nth)

section \<open>Opening\<close>

text \<open>The files in the order of their segments.\<close>

lemma read_header_ok:
  assumes "fd_open fds fd (segment_bytes full k parts closing) 0" and "0 \<le> k" and "k < 65536"
  obtains fds' h where "evf_read_header heap fds fd = (fds', Inr h)" "eh_segment h = k" "fd_open fds' fd (segment_bytes full k parts closing) 13"
    "same_but fd fds fds'"
proof -
  define D where "D = segment_bytes full k parts closing"
  define x where "x = evf_magic @ [1] @ le_bytes 2 k @ le_bytes 2 0"
  obtain rest where D: "drop 0 D = x @ rest" unfolding D_def segment_bytes_def Let_def x_def by auto
  obtain fds' where r: "evf_read fds fd (int 13) = (fds', x, int 13)" "fd_open fds' fd D 13" "same_but fd fds fds'"
    using evf_read_front [OF assms(1) [folded D_def] D length_file_header [of k, folded x_def]] by auto
  define h where "h = file_header_of x"
  have x8: "take 8 x = evf_magic" "drop 9 x = le_bytes 2 k @ le_bytes 2 0" by (simp_all add: x_def evf_magic_def)
  have h: "eh_magic h = evf_magic" "eh_segment h = k"
    using assms(2,3) unfolding h_def file_header_of_def x8 by (simp_all add: le_val_le_bytes)
  have "over_block x (map heap [0..<SIZEOF_FILE_HEADER]) = x" using length_file_header [of k, folded x_def] by (simp add: over_block_def SIZEOF_FILE_HEADER_def)
  then have "evf_read_header heap fds fd = (fds', Inr h)"
    using r(1) h(1) unfolding evf_read_header_def SIZEOF_FILE_HEADER_def Let_def h_def by (simp add: u64_id)
  then show ?thesis using that h(2) r(2,3) by (simp add: D_def)
qed

text \<open>The table of the tool with the files of the first segments.\<close>

definition opening_at :: "(nat \<Rightarrow> byte) \<Rightarrow> int list \<Rightarrow> offset_table \<Rightarrow> bool" where
  "opening_at heap names ot \<longleftrightarrow> ot = (evtool_initial heap)\<lparr>ot_max_segment := max 1 (int (length names)),
     ot_files := -1 # names @ (if names = [] then [-1] else [])\<rparr>"

lemma add_file_ok:
  assumes "opening_at heap names ot" and "fd_open fds fd (segment_bytes full (int (length names) + 1) parts closing) 0"
    and "int (length names) + 1 < 65536"
  obtains fds' ot' where "add_file heap ot fds fd = (fds', Inr ot')" "opening_at heap (names @ [fd]) ot'"
    "fd_open fds' fd (segment_bytes full (int (length names) + 1) parts closing) 13" "same_but fd fds fds'"
proof -
  obtain fds' h where r: "evf_read_header heap fds fd = (fds', Inr h)" "eh_segment h = int (length names) + 1"
    "fd_open fds' fd (segment_bytes full (int (length names) + 1) parts closing) 13" "same_but fd fds fds'"
    by (rule read_header_ok [OF assms(2) _ assms(3), of heap]) simp_all
  have n: "nat (int (length names) + 1) = Suc (length names)" by simp
  have "\<exists>ot'. add_file heap ot fds fd = (fds', Inr ot') \<and> opening_at heap (names @ [fd]) ot'"
  proof (cases "names = []")
    case True
    then show ?thesis using assms(1) r(1,2) by (simp add: add_file_def opening_at_def evtool_initial_def)
  next
    case False
    then have "max 1 (int (length names)) = int (length names)" by (cases names) simp_all
    then show ?thesis using False assms(1) r(1,2) n by (simp add: add_file_def opening_at_def nth_append list_update_append max_def)
  qed
  then show ?thesis using that r(3,4) by blast
qed

lemma same_outside_trans: "same_outside S a b \<Longrightarrow> same_outside T b c \<Longrightarrow> S \<subseteq> U \<Longrightarrow> T \<subseteq> U \<Longrightarrow> same_outside U a c"
  unfolding same_outside_def by (metis subsetD)

lemma same_but_outside: "same_but fd = same_outside {fd}"
  by (intro ext) (simp add: same_but_def same_outside_def)

lemma add_files_ok:
  assumes "opening_at heap before ot" and "files_at fds names (image_files full (int (length before) + 1) pss) 0" and "distinct names"
    and "int (length before) + int (length pss) < 65536"
  shows "\<exists>fds' ot'. add_files heap ot fds names = (fds', Inr ot') \<and> opening_at heap (before @ names) ot' \<and>
    files_at fds' names (image_files full (int (length before) + 1) pss) 13 \<and> same_outside (set names) fds fds'"
  using assms
proof (induction pss arbitrary: before names fds ot)
  case Nil
  then show ?case by (auto simp: files_at_def same_outside_def)
next
  case (Cons ps pss)
  obtain fd names1 where names: "names = fd # names1" using Cons.prems(2) by (auto simp: files_at_def list_all2_Cons2)
  define closing where "closing = (if pss = [] then ''done'' else ''next'')"
  define D where "D = segment_bytes full (int (length before) + 1) ps closing"
  have k: "int (length (before @ [fd])) + 1 = int (length before) + 1 + 1" by simp
  have files: "image_files full (int (length before) + 1) (ps # pss) = D # image_files full (int (length (before @ [fd])) + 1) pss"
    unfolding k by (simp add: D_def closing_def)
  have o: "fd_open fds fd D 0" "files_at fds names1 (image_files full (int (length (before @ [fd])) + 1) pss) 0"
    using Cons.prems(2) unfolding files names files_at_def by simp_all
  have lt: "int (length before) + 1 < 65536" using Cons.prems(4) by simp
  obtain fds1 ot1 where a: "add_file heap ot fds fd = (fds1, Inr ot1)" "opening_at heap (before @ [fd]) ot1" "fd_open fds1 fd D 13"
    "same_but fd fds fds1"
    using add_file_ok [OF Cons.prems(1) o(1) [unfolded D_def] lt] unfolding D_def [symmetric] by blast
  have n: "fd \<notin> set names1" "distinct names1" using Cons.prems(3) names by simp_all
  have "int (length (before @ [fd])) + int (length pss) < 65536" using Cons.prems(4) by simp
  from Cons.IH [OF a(2) files_at_same [OF a(4) n(1) o(2)] n(2) this] obtain fds' ot' where
    IH: "add_files heap ot1 fds1 names1 = (fds', Inr ot')" "opening_at heap (before @ names) ot'"
      "files_at fds' names1 (image_files full (int (length (before @ [fd])) + 1) pss) 13" "same_outside (set names1) fds1 fds'"
    by (auto simp: names)
  have "fd_open fds' fd D 13" using IH(4) a(3) n(1) by (simp add: same_outside_def fd_open_def)
  then have "files_at fds' names (image_files full (int (length before) + 1) (ps # pss)) 13"
    using IH(3) unfolding files names files_at_def by simp
  moreover have "same_outside (set names) fds fds'"
    using a(4) IH(4) unfolding same_but_outside by (rule same_outside_trans) (auto simp: names)
  ultimately show ?case using a(1) IH(1,2) by (simp add: names)
qed

text \<open>An image of whole files: the limits are those of the offsets of a table and of the number of a segment.\<close>

definition image_ok :: "zlib \<Rightarrow> nat \<Rightarrow> evf_part list list \<Rightarrow> bool" where
  "image_ok z full pss \<longleftrightarrow> pss \<noteq> [] \<and> first_parts z full (hd pss) \<and> (\<forall>ps\<in>set (tl pss). later_segment z ps) \<and>
     length pss < 65536 \<and> 33 \<le> full \<and> full \<le> 1000000 \<and> length (image_chunks pss) \<le> 1000000000 \<and>
     (\<forall>D\<in>set (image_files full 1 pss). length D < 2147483648)"

lemma evtool_open_ok:
  assumes "image_ok z full pss" and "files_at fds names (image_files full 1 pss) 0" and "distinct names" and "\<forall>fd\<in>set names. 0 < fd"
  obtains fds' ot S fd p where "evtool_open z heap junk stack fds names = Some (fds', Inr ot)" "files_open fds' names (image_files full 1 pss)"
    "index_at full S fd p (-1 # names) (image_entries full names pss) (image_digest (map heap [0..<16]) pss) ot"
proof -
  obtain ps pss' where pss: "pss = ps # pss'" using assms(1) by (cases pss) (auto simp: image_ok_def)
  define d where "d = map heap [0..<16]"
  have "opening_at heap [] (evtool_initial heap)" by (simp add: opening_at_def evtool_initial_def)
  from add_files_ok [OF this _ assms(3), of fds full pss] assms(1,2) obtain fds1 ot1 where
    a: "add_files heap (evtool_initial heap) fds names = (fds1, Inr ot1)" "opening_at heap names ot1" "files_at fds1 names (image_files full 1 pss) 13"
    by (auto simp: image_ok_def)
  obtain fd1 names1 where names: "names = fd1 # names1" using a(3) by (auto simp: files_at_def list_all2_Cons2 pss)
  have len: "length names = length pss"
  proof -
    have "length (image_files full k xs) = length xs" for k xs by (induction full k xs rule: image_files.induct) simp_all
    then show ?thesis using a(3) by (simp add: files_at_def list_all2_lengthD)
  qed
  define files where "files = -1 # names"
  have ot1: "ot_files ot1 = files" "ot_max_segment ot1 = int (length names)" "ot_md5 ot1 = d" "ot_section_list ot1 = []" "length d = 16"
    using a(2) names by (simp_all add: opening_at_def evtool_initial_def files_def d_def)
  define closing where "closing = (if pss' = [] then ''done'' else ''next'')"
  define D where "D = segment_bytes full 1 ps closing"
  have imgs: "image_files full 1 pss = D # image_files full 2 pss'" by (simp add: pss D_def closing_def)
  have o: "fd_open fds1 fd1 D 13" "files_at fds1 names1 (image_files full 2 pss') 13"
    using a(3) unfolding imgs names files_at_def by simp_all
  have ok: "first_parts z full ps" "\<forall>ps\<in>set pss'. later_segment z ps" "full \<le> 1000000" "int (length D) < 2147483648"
    "\<forall>D\<in>set (image_files full 2 pss'). int (length D) < 2147483648"
    "int (length (concat (map part_chunks ps))) + int (length (image_chunks pss')) \<le> 1000000000"
    using assms(1) imgs by (auto simp: image_ok_def pss image_chunks_def)
  then have ne: "ps \<noteq> []" by (auto simp: first_parts_def)
  have f: "array_get (Some files) 1 = Some fd1" by (simp add: files_def names array_get_def)
  have i0: "index_opened {fd1} fd1 13 files d ot1" by (simp add: index_opened_def ot1 sections_below_def)
  have gets: "\<forall>q rest. drop 13 D = parts_bytes full 13 ps @ rest \<and> 76 \<le> length rest \<and> q = 13 + length (parts_bytes full 13 ps) \<and>
      int q < 2147483648 \<longrightarrow> gets_to z heap junk stack fd1 D 1 13 ot1 q (index_at full {fd1} fd1 q files (parts_entries full fd1 13 ps) (foldl part_digest d ps))"
    using ok(6) by (intro allI impI, elim conjE, intro first_gets [OF ok(1) _ _ f _ _ _ i0 ot1(5) ok(3)]) simp_all
  have c: "closing = ''next'' \<or> closing = ''done''" by (simp add: closing_def)
  obtain fds2 ot2 h q p where r: "evtool_sections z heap junk stack 1 0 ot1 fds1 = Some (fds2, Inr (ot2, h))" "se_type h = section_type closing"
    "same_but fd1 fds1 fds2" "fd_open fds2 fd1 D q" "index_at full {fd1} fd1 p files (parts_entries full fd1 13 ps) (foldl part_digest d ps) ot2"
    by (rule segment_run [OF D_def c ok(4) ne o(1) f singletonI gets]) (elim exE, rule that)
  have n: "fd1 \<notin> set names1" "distinct names1" "\<forall>fd\<in>set names1. 0 < fd \<and> fd \<notin> {fd1}" "0 < fd1" using assms(3,4) names by auto
  have idx: "\<forall>j<length names1. array_get (Some files) (2 + int j) = Some (names1 ! j)"
    by (auto simp: files_def names array_get_def nat_add_distrib)
  have h: "pss' = [] \<longrightarrow> se_type h = section_type ''done''" using r(2) by (simp add: closing_def)
  have es: "int (length (parts_entries full fd1 13 ps)) + int (length (image_chunks pss')) \<le> 1000000000"
    using ok(6) by (simp add: length_parts_entries)
  from segments_run [OF ok(2) files_at_same [OF r(3) n(1) o(2)] ok(5) n(2,3) idx r(5) es h]
  obtain fds' ot h' S fd' p' where s: "evtool_segments z heap junk stack [2..2 + int (length pss') - 1] ot2 (Some h) fds2 = Some (fds', Inr (ot, Some h'))"
    "se_type h' = section_type ''done''" "files_open fds' names1 (image_files full 2 pss')" "same_outside (set names1) fds2 fds'"
    "index_at full S fd' p' files (parts_entries full fd1 13 ps @ image_entries full names1 pss') (image_digest (foldl part_digest d ps) pss') ot"
    by blast
  have "[1..ot_max_segment ot1] = 1 # [2..2 + int (length pss') - 1]"
    using len by (subst upto.simps) (simp add: ot1 pss algebra_simps)
  then have "evtool_segments z heap junk stack [1..ot_max_segment ot1] ot1 None fds1 = Some (fds', Inr (ot, Some h'))"
    using r(1) s(1) f n(4) ot1(1) by simp
  moreover have "take 5 (map lower_byte (se_type h')) = c_bytes ''done'' @ [0]" unfolding s(2) by (rule section_type_done)
  ultimately have "evtool_open z heap junk stack fds names = Some (fds', Inr ot)" using a(1) by (simp add: evtool_open_def)
  moreover have "fd_open fds' fd1 D q" using s(4) r(4) n(1) by (simp add: same_outside_def fd_open_def)
  then have "files_open fds' names (image_files full 1 pss)" using s(3) unfolding imgs names files_open_def by auto
  moreover have "image_digest (foldl part_digest d ps) pss' = image_digest d pss" by (simp add: image_digest_def pss)
  moreover have "parts_entries full fd1 13 ps @ image_entries full names1 pss' = image_entries full names pss" by (simp add: pss names)
  ultimately show ?thesis using that [of fds' ot S fd' p'] s(5) by (simp only: files_def d_def)
qed

section \<open>The chunks of the index\<close>

text \<open>An entry of the index, the bytes of the chunk in its file.\<close>

fun lies_at :: "byte list \<Rightarrow> int \<Rightarrow> int \<times> int \<times> int \<Rightarrow> byte list \<Rightarrow> bool" where
  "lies_at D fd (f, offset, n) c \<longleftrightarrow> f = fd \<and> 0 \<le> offset \<and> nat offset + length c \<le> length D \<and> take (length c) (drop (nat offset) D) = c \<and>
     n = int (length c)"

lemma chunk_entries_lie:
  assumes "drop base D = concat cs @ rest" and "base + length (concat cs) \<le> length D"
  shows "list_all2 (lies_at D fd) (chunk_entries fd (int base) cs) cs"
proof (rule list_all2_all_nthI)
  show "length (chunk_entries fd (int base) cs) = length cs" by (simp add: chunk_entries_def)
  fix k assume "k < length (chunk_entries fd (int base) cs)"
  then have k: "k < length cs" by (simp add: chunk_entries_def)
  define a where "a = length (concat (take k cs))"
  have e: "chunk_entries fd (int base) cs ! k = (fd, int (base + a), int (length (cs ! k)))"
    using k by (simp add: chunk_entries_def starts_nth a_def)
  have cs: "concat cs = concat (take k cs) @ cs ! k @ concat (drop (Suc k) cs)"
    using id_take_nth_drop [OF k] by (metis concat.simps(2) concat_append)
  have "drop (base + a) D = cs ! k @ concat (drop (Suc k) cs) @ rest"
    by (rule drop_after [of base D "concat (take k cs)"]) (simp_all add: assms(1) cs a_def)
  moreover have "length (concat cs) = a + length (cs ! k) + length (concat (drop (Suc k) cs))"
    using arg_cong [OF cs, of length] by (simp add: a_def)
  then have "base + a + length (cs ! k) \<le> length D" using assms(2) by simp
  ultimately show "lies_at D fd (chunk_entries fd (int base) cs ! k) (cs ! k)" unfolding e by (simp del: of_nat_add)
qed

lemma parts_entries_lie:
  assumes "drop p D = parts_bytes full p parts @ rest" and "p + length (parts_bytes full p parts) \<le> length D"
  shows "list_all2 (lies_at D fd) (parts_entries full fd p parts) (concat (map part_chunks parts))"
  using assms
proof (induction parts arbitrary: p)
  case (Cons part parts)
  define p1 where "p1 = p + length (part_bytes full p part)"
  have D: "drop p D = part_bytes full p part @ parts_bytes full p1 parts @ rest" using Cons.prems(1) by (simp add: p1_def Let_def)
  then have D1: "drop p1 D = parts_bytes full p1 parts @ rest" by (rule drop_after) (rule p1_def)
  have l: "p1 + length (parts_bytes full p1 parts) \<le> length D" using Cons.prems(2) by (simp add: p1_def Let_def)
  have "list_all2 (lies_at D fd) (part_entries fd p part) (part_chunks part)"
  proof (cases part)
    case (Chunks_Part cs)
    then obtain rest' where D2: "drop p D = section_put ''sectors'' p (concat cs) @ rest'" using D by (auto simp: Let_def)
    have b: "drop (p + 76) D = concat cs @ rest'" using put_body [OF D2] by (simp add: SIZEOF_SECTION_def)
    have "p + length (part_bytes full p part) \<le> length D" using l by (simp add: p1_def)
    then have "p + 76 + length (concat cs) \<le> length D" by (simp add: Chunks_Part Let_def length_section_put)
    with chunk_entries_lie [OF b] show ?thesis by (simp add: Chunks_Part)
  qed simp_all
  then show ?case using Cons.IH [OF D1 l] by (simp add: list_all2_appendI p1_def)
qed simp

lemma image_entries_held:
  assumes "files_open fds names (image_files full k pss)" and "\<forall>D\<in>set (image_files full k pss). length D < 2147483648"
    and "list_all2 (stored_as z full) (image_chunks pss) xss"
  shows "list_all2 (chunk_held z fds full) (image_entries full names pss) xss"
  using assms
proof (induction pss arbitrary: k names xss)
  case Nil
  then show ?case by (simp add: image_chunks_def)
next
  case (Cons ps pss)
  obtain fd names1 where names: "names = fd # names1" using Cons.prems(1) by (auto simp: files_open_def list_all2_Cons2)
  define closing where "closing = (if pss = [] then ''done'' else ''next'')"
  define D where "D = segment_bytes full k ps closing"
  have files: "image_files full k (ps # pss) = D # image_files full (k + 1) pss" by (simp add: D_def closing_def)
  obtain p where o: "fd_open fds fd D p" "files_open fds names1 (image_files full (k + 1) pss)"
    using Cons.prems(1) unfolding files names files_open_def by auto
  have lenD: "length D < 2147483648" "\<forall>D\<in>set (image_files full (k + 1) pss). length D < 2147483648" using Cons.prems(2) files by simp_all
  have chunks: "image_chunks (ps # pss) = concat (map part_chunks ps) @ image_chunks pss" by (simp add: image_chunks_def)
  obtain xs ys where xss: "xss = xs @ ys" "list_all2 (stored_as z full) (concat (map part_chunks ps)) xs" "list_all2 (stored_as z full) (image_chunks pss) ys"
    using Cons.prems(3) unfolding chunks by (auto simp: list_all2_append1)
  obtain tail where D: "D = (evf_magic @ [1] @ le_bytes 2 k @ le_bytes 2 0) @ parts_bytes full 13 ps @ tail"
    unfolding D_def segment_bytes_def Let_def by (simp only: append_assoc)
  have D1: "drop 13 D = parts_bytes full 13 ps @ tail"
    unfolding D by (rule drop_after [of 0 _ "evf_magic @ [1] @ le_bytes 2 k @ le_bytes 2 0"]) (simp_all only: drop_0 length_file_header add_0)
  have "13 + length (parts_bytes full 13 ps) \<le> length D"
    unfolding D by (simp only: length_append [of _ "_ @ _"] length_file_header) (simp add: evf_magic_def)
  from parts_entries_lie [OF D1 this, of fd] have lie: "list_all2 (lies_at D fd) (parts_entries full fd 13 ps) (concat (map part_chunks ps))" .
  have "list_all2 (chunk_held z fds full) (parts_entries full fd 13 ps) xs"
  proof (rule list_all2_trans [OF _ lie xss(2)])
    fix e c x assume a: "lies_at D fd e c" "stored_as z full c x"
    obtain f offset n where e: "e = (f, offset, n)" by (cases e)
    show "chunk_held z fds full e x" unfolding e chunk_held_def prod.case
      by (intro exI [of _ D] exI [of _ p] exI [of _ c]) (use a o(1) lenD(1) e in auto)
  qed
  then show ?case using Cons.IH [OF o(2) lenD(2) xss(3)] by (simp add: names xss(1) list_all2_appendI)
qed

section \<open>A concrete image\<close>

text \<open>Two files with four chunks of 40 bytes, of which one is compressed and one has a checksum behind it.\<close>

definition demo_zlib :: zlib where
  "demo_zlib = \<lparr>z_compress2 = (\<lambda>n src level. (Z_OK, take 1 src, 1)), z_uncompress = (\<lambda>n src. (Z_OK, replicate 40 (hd src), 40))\<rparr>"

definition demo_volume :: evf_volume_header where
  "demo_volume = \<lparr>ev_reserved = 1, ev_chunk_count = 4, ev_sectors_per_chunk = 2, ev_bytes_per_sector = 20, ev_sector_count = 8,
     ev_rest = replicate 1028 0, ev_crc = 0\<rparr>"

definition demo_parts :: "evf_part list list" where
  "demo_parts = [[Header_Part [49, 13, 10], Volume_Part demo_volume, Chunks_Part [replicate 40 1, [2]]],
     [Chunks_Part [replicate 40 3 @ [1, 2, 3, 4], replicate 40 4], Hash_Part (replicate 16 5)]]"

definition demo_chunks :: "byte list list" where
  "demo_chunks = [replicate 40 1, replicate 40 2, replicate 40 3, replicate 40 4]"

definition demo_fds :: fd_table where
  "demo_fds = (\<lambda>_. None)(3 := Some (open_fd (image_files 40 1 demo_parts ! 0)), 4 := Some (open_fd (image_files 40 1 demo_parts ! 1)))"

lemma demo_image_ok: "image_ok demo_zlib 40 demo_parts"
proof -
  have first: "first_parts demo_zlib 40 (hd demo_parts)"
    unfolding first_parts_def
    by (intro exI [of _ "[[49, 13, 10]]"] exI [of _ demo_volume] exI [of _ "[Chunks_Part [replicate 40 1, [2]]]"])
      (simp add: demo_parts_def demo_zlib_def volume_ok_def demo_volume_def)
  have later: "\<forall>ps\<in>set (tl demo_parts). later_segment demo_zlib ps"
    by (simp add: demo_parts_def later_segment_def)
  have "\<forall>D\<in>set (image_files 40 1 demo_parts). length D < 2147483648"
    by (simp add: demo_parts_def segment_bytes_def Let_def length_section_put length_section_at table_body_def table_bytes_def table_for_def
        offsets_for_def volume_bytes_def demo_volume_def evf_magic_def)
  then show ?thesis using first later by (simp add: image_ok_def) (simp add: demo_parts_def image_chunks_def)
qed

lemma demo_stored: "list_all2 (stored_as demo_zlib 40) (image_chunks demo_parts) demo_chunks" "whole_chunks 40 demo_chunks"
  by (simp_all add: image_chunks_def demo_parts_def demo_chunks_def stored_as_def demo_zlib_def whole_chunks_def)

lemma demo_files: "files_at demo_fds [3, 4] (image_files 40 1 demo_parts) 0"
  unfolding demo_fds_def by (simp add: files_at_def demo_parts_def fd_open_def open_fd_def moving_def)

section \<open>Properties\<close>

lemma evtool_index:
  assumes "image_ok z full pss" and "files_at fds names (image_files full 1 pss) 0" and "distinct names" and "\<forall>fd\<in>set names. 0 < fd"
    and "list_all2 (stored_as z full) (image_chunks pss) xss"
  obtains fds' ot where "evtool_open z heap junk stack fds names = Some (fds', Inr ot)" "index_ok z fds' ot xss" "ot_chunk_size ot = int full"
    "ot_md5 ot = image_digest (map heap [0..<16]) pss"
proof -
  obtain fds' ot S fd p where o: "evtool_open z heap junk stack fds names = Some (fds', Inr ot)" "files_open fds' names (image_files full 1 pss)"
    "index_at full S fd p (-1 # names) (image_entries full names pss) (image_digest (map heap [0..<16]) pss) ot"
    using evtool_open_ok [OF assms(1-4)] by blast
  have lens: "\<forall>D\<in>set (image_files full 1 pss). length D < 2147483648" using assms(1) by (simp add: image_ok_def)
  have h: "list_all2 (chunk_held z fds' full) (image_entries full names pss) xss" by (rule image_entries_held [OF o(2) lens assms(5)])
  have "length xss \<le> 1000000000" using list_all2_lengthD [OF assms(5)] assms(1) by (simp add: image_ok_def)
  then have "index_ok z fds' ot xss"
    using o(3) h list_all2_lengthD [OF h] assms(1) by (simp add: index_ok_def index_at_def image_ok_def)
  then show ?thesis using that o(1,3) by (simp add: index_at_def)
qed

text \<open>C5 (evtool_restores). An image of one or more files, each with its sections of headers, chunks, tables and digests, is restored
  from its files, whatever memory and the reads of a part of what is asked for are like: the bytes of its chunks are added to the
  output, and the answer is whether their digest is the stored one.\<close>

theorem evtool_restores:
  assumes "image_ok z full pss" and "files_at fds names (image_files full 1 pss) 0" and "distinct names" and "\<forall>fd\<in>set names. 0 < fd"
    and "list_all2 (stored_as z full) (image_chunks pss) xss" and "at_end out"
  shows "\<exists>fds' out' d. evtool_decompress z heap junk stack fds names out =
      Some (fds', out', Inr (d = image_digest (map heap [0..<16]) pss)) \<and>
    md5_digest (MD5_Init heap :: long_word md5_ctx) xss = Some d \<and> fd_data out' = fd_data out @ concat xss"
proof -
  obtain fds1 ot where o: "evtool_open z heap junk stack fds names = Some (fds1, Inr ot)" "index_ok z fds1 ot xss" "ot_chunk_size ot = int full"
    "ot_md5 ot = image_digest (map heap [0..<16]) pss"
    using evtool_index [OF assms(1-5)] by blast
  have "33 \<le> ot_chunk_size ot" using assms(1) o(3) by (simp add: image_ok_def)
  then show ?thesis using evf_decompress_fds_ok [OF o(2) _ assms(6), of heap] o(1,4) unfolding evtool_decompress_def by (auto; metis)
qed

lemma evtool_restores_witness:
  "\<exists>fds' out' d. evtool_decompress demo_zlib (\<lambda>_. 9) (\<lambda>_. -1) 7 demo_fds [3, 4] (open_fd []) = Some (fds', out', Inr (d = replicate 16 5)) \<and>
    md5_digest (MD5_Init (\<lambda>_. 9) :: long_word md5_ctx) demo_chunks = Some d \<and> fd_data out' = concat demo_chunks"
proof -
  have "image_digest d demo_parts = replicate 16 5" for d by (simp add: image_digest_def demo_parts_def)
  then show ?thesis
    using evtool_restores [OF demo_image_ok demo_files _ _ demo_stored(1) demo_facts(8), of "\<lambda>_. 9" "\<lambda>_. -1" 7] demo_facts(7) [of "[]"] by simp
qed

text \<open>C10 (evf_image_reads). Of an image that is opened from its files, any sequence of reads, each at any offset and across chunks, gives the
  parts of the image, although all of them share the globals with the chunk that was loaded last.\<close>

theorem evf_image_reads:
  assumes "image_ok z full pss" and "files_at fds names (image_files full 1 pss) 0" and "distinct names" and "\<forall>fd\<in>set names. 0 < fd"
    and "list_all2 (stored_as z full) (image_chunks pss) xss" and "whole_chunks full xss"
    and "\<forall>(len, offs)\<in>set reqs. 0 \<le> len \<and> len \<le> 2147479552 \<and> 0 \<le> offs \<and> offs \<le> int (length (concat xss))"
  shows "\<exists>fds' ot. evtool_open z heap junk stack fds names = Some (fds', Inr ot) \<and>
    evf_source.read_strings z heap heap' \<lparr>ei_ot = ot, ei_globals = evf_initial, ei_fds = fds'\<rparr> reqs =
      Some (map (\<lambda>(len, offs). take (nat len) (drop (nat offs) (concat xss))) reqs)"
proof -
  obtain fds1 ot where o: "evtool_open z heap junk stack fds names = Some (fds1, Inr ot)" "index_ok z fds1 ot xss" "ot_chunk_size ot = int full"
    using evtool_index [OF assms(1-5)] by blast
  have "evf_represents z \<lparr>ei_ot = ot, ei_globals = evf_initial, ei_fds = fds1\<rparr> (concat xss)"
    using o(2,3) assms(6) by (auto simp: evf_represents_def globals_ok_def)
  then show ?thesis using o(1) evf_source.read_strings_parts [OF _ assms(7)] by blast
qed

lemma evf_image_reads_witness:
  "\<exists>fds' ot. evtool_open demo_zlib (\<lambda>_. 9) (\<lambda>_. -1) 7 demo_fds [3, 4] = Some (fds', Inr ot) \<and>
    evf_source.read_strings demo_zlib (\<lambda>_. 9) (\<lambda>_. 8) \<lparr>ei_ot = ot, ei_globals = evf_initial, ei_fds = fds'\<rparr> [(4, 118), (3, 39), (5, 158)] =
      Some [[3, 3, 4, 4], [1, 2, 2], [4, 4]]"
proof -
  have "map (\<lambda>(len, offs). take (nat len) (drop (nat offs) (concat demo_chunks))) [(4, 118), (3, 39), (5, 158)] = [[3, 3, 4, 4], [1, 2, 2], [4, 4]]"
    by (simp add: demo_chunks_def eval_nat_numeral)
  moreover have d: "distinct [3, 4 :: int]" "\<forall>fd\<in>set [3, 4 :: int]. 0 < fd" by simp_all
  moreover have "\<forall>(len, offs)\<in>set [(4 :: int, 118 :: int), (3, 39), (5, 158)]. 0 \<le> len \<and> len \<le> 2147479552 \<and> 0 \<le> offs \<and> offs \<le> int (length (concat demo_chunks))"
    by (simp add: demo_chunks_def)
  note evf_image_reads [OF demo_image_ok demo_files d demo_stored this, of "\<lambda>_. 9" "\<lambda>_. -1" 7 "\<lambda>_. 8"]
  ultimately show ?thesis by (simp only:)
qed

end
