(* ===== verification/Evf_Writer_Correct.thy ===== *)
theory Evf_Writer_Correct
  imports Evf_Writer Evf_Restore
begin

text \<open>
  What the writer of expert witness files puts into the sections of chunks, and into the tables, and how the reader takes it.
\<close>

section \<open>Chunks\<close>

text \<open>What the code relies on: with enough room, \<open>compress\<close> succeeds, and \<open>uncompress\<close> gives the bytes back.\<close>

definition compress_ok :: "zlib \<Rightarrow> bool" where
  "compress_ok z \<longleftrightarrow> (\<forall>src n. length src + length src div 1000 + 13 \<le> n \<longrightarrow>
     (case z_compress2 z n src (-1) of
        (code, out, destLen) \<Rightarrow> code = Z_OK \<and> destLen = length out \<and> out \<noteq> [] \<and> length out \<le> length src + length src div 1000 + 13 \<and>
          (\<forall>k \<ge> length src. z_uncompress z k out = (Z_OK, src, length src))))"

text \<open>The chunks of an input that are whole, and a chunk as it is stored.\<close>

definition full_chunks :: "nat \<Rightarrow> byte list \<Rightarrow> byte list list" where
  "full_chunks c xs = filter (\<lambda>x. length x = c) (chunks c xs)"

definition compressed_chunk :: "zlib \<Rightarrow> nat \<Rightarrow> byte list \<Rightarrow> byte list" where
  "compressed_chunk z c x = fst (snd (z_compress2 z (c + 1024) x (-1)))"

definition packed :: "zlib \<Rightarrow> nat \<Rightarrow> byte list \<Rightarrow> byte list" where
  "packed z c x = (if length (compressed_chunk z c x) < c then compressed_chunk z c x else x)"

lemma full_chunks_short: "length xs < c \<Longrightarrow> full_chunks c xs = []"
  by (cases "xs = []") (simp_all add: full_chunks_def chunks_step)

lemma full_chunks_step: "0 < c \<Longrightarrow> c \<le> length xs \<Longrightarrow> full_chunks c xs = take c xs # full_chunks c (drop c xs)"
  by (cases "xs = []") (simp_all add: full_chunks_def chunks_step)

lemma compressed_chunk_ok:
  assumes "compress_ok z" and "length x = c" and "c \<le> 1000000"
  shows "z_compress2 z (c + 1024) x (-1) = (Z_OK, compressed_chunk z c x, length (compressed_chunk z c x))"
    and "length (compressed_chunk z c x) \<le> c + 1024" and "compressed_chunk z c x \<noteq> []"
    and "z_uncompress z c (compressed_chunk z c x) = (Z_OK, x, c)"
proof -
  have n: "length x + length x div 1000 + 13 \<le> c + 1024" using assms(2,3) by simp
  obtain code out destLen where z: "z_compress2 z (c + 1024) x (-1) = (code, out, destLen)" by (metis prod_cases3)
  have "code = Z_OK \<and> destLen = length out \<and> out \<noteq> [] \<and> length out \<le> length x + length x div 1000 + 13 \<and>
      (\<forall>k \<ge> length x. z_uncompress z k out = (Z_OK, x, length x))"
    using assms(1) n unfolding compress_ok_def by (metis (mono_tags, lifting) case_prod_conv z)
  then show "z_compress2 z (c + 1024) x (-1) = (Z_OK, compressed_chunk z c x, length (compressed_chunk z c x))"
    "length (compressed_chunk z c x) \<le> c + 1024" "compressed_chunk z c x \<noteq> []"
    "z_uncompress z c (compressed_chunk z c x) = (Z_OK, x, c)"
    using z n assms(2) by (simp_all add: compressed_chunk_def)
qed

lemma packed_stored:
  assumes "compress_ok z" and "length x = c" and "c \<le> 1000000"
  shows "stored_as z c (packed z c x) x"
  using compressed_chunk_ok [OF assms] assms(2) by (simp add: packed_def stored_as_def)

lemma concat_full_chunks:
  assumes "0 < c"
  shows "concat (full_chunks c xs) = take (length xs - length xs mod c) xs"
proof (induction "length xs" arbitrary: xs rule: less_induct)
  case less
  show ?case
  proof (cases "length xs < c")
    case True
    then show ?thesis by (simp add: full_chunks_short)
  next
    case False
    then have c: "c \<le> length xs" by simp
    then have c0: "0 < length xs" using assms by linarith
    have "concat (full_chunks c (drop c xs)) = take (length xs - c - (length xs - c) mod c) (drop c xs)"
      using less [of "drop c xs"] assms c0 by simp
    moreover have "(length xs - c) mod c = length xs mod c" using c by (simp add: le_mod_geq)
    moreover have "c \<le> length xs - length xs mod c"
      using c by (metis assms diff_le_mono2 div_greater_zero_iff dividend_less_times_div minus_mod_eq_mult_div mult.right_neutral mult_le_mono2 Suc_leI One_nat_def)
    then have "take (length xs - length xs mod c) xs = take c xs @ take (length xs - length xs mod c - c) (drop c xs)"
      by (metis append_take_drop_id le_add_diff_inverse take_add)
    ultimately show ?thesis unfolding full_chunks_step [OF assms c] by (simp add: add.commute)
  qed
qed

definition writing :: "nat \<Rightarrow> evf_writer \<Rightarrow> byte list \<Rightarrow> byte list list \<Rightarrow> bool" where
  "writing c s xs ps \<longleftrightarrow> moving (ew_in s) \<and> fd_rest (ew_in s) = xs \<and> at_end (ew_out s) \<and> length (ew_data s) = c \<and>
     length (ew_cdata s) = c + 1024 \<and> md5_took (ew_md5 s) ps"

lemma put_chunk_ok:
  assumes "writing c s rest ps" and "compress_ok z" and "ew_data s = x" and "c \<le> 1000000"
  obtains s' where "put_chunk z (int c) s = Some (s', int (length (packed z c x)), int (length (compressed_chunk z c x)))"
    "writing c s' rest (ps @ [x])" "fd_data (ew_out s') = fd_data (ew_out s) @ packed z c x"
proof -
  have w: "at_end (ew_out s)" "length x = c" "length (ew_cdata s) = c + 1024" "md5_took (ew_md5 s) ps"
    using assms(1,3) by (auto simp: writing_def)
  note z = compressed_chunk_ok [OF assms(2) w(2) assms(4)]
  define out where "out = compressed_chunk z c x"
  obtain c' where md: "MD5_Update (ew_md5 s) (over_block x x) (int (length x)) = Some c'" "md5_took c' (ps @ [x])"
    using md5_took_Update [OF w(4), of x x] w(2) assms(4) by auto
  have u: "u32 (int c) = int c" "nat (int c + 1024) = c + 1024" using assms(4) by (simp_all add: u32_id nat_add_distrib)
  have o: "over_block x x = x" by (simp add: over_block_def)
  have rd: "mem_read x 0 (int c) = Some x" using w(2) by (simp add: mem_read_def)
  have mw: "mem_write (ew_cdata s) 0 out = Some (over_block out (ew_cdata s))"
    using z(2) w(3) by (simp add: mem_write_def over_block_def out_def)
  have rd2: "mem_read (over_block out (ew_cdata s)) 0 (int (length out)) = Some out" by (simp add: mem_read_def over_block_def)
  have lo: "length (over_block out (ew_cdata s)) = c + 1024" using z(2) w(3) by (simp add: length_over_block out_def)
  have lp: "int (length (packed z c x)) \<le> 2147479552" using w(2) assms(4) by (simp add: packed_def)
  note wr = write_fd_at_end [OF w(1) lp]
  define s' where "s' = s\<lparr>ew_md5 := c', ew_cdata := over_block out (ew_cdata s), ew_out := write_fd (ew_out s) (packed z c x)\<rparr>"
  have "put_chunk z (int c) s = Some (s', int (length (packed z c x)), int (length out))"
    unfolding put_chunk_def assms(3) u using md(1) w(2) rd z(1) mw rd2
    by (simp add: o u out_def [symmetric] packed_def s'_def)
  moreover have "writing c s' rest (ps @ [x])" using assms(1) md(2) lo wr by (simp add: writing_def s'_def)
  moreover have "fd_data (ew_out s') = fd_data (ew_out s) @ packed z c x" using wr by (simp add: s'_def)
  ultimately show ?thesis using that by (simp add: out_def)
qed

lemma put_chunks_ok:
  assumes "writing c s xs ps" and "compress_ok z" and "0 < c" and "c \<le> 1000000" and "length sizes + length (full_chunks c xs) < 16375"
    and "0 \<le> current" and "current + int (length (full_chunks c xs)) * int (c + 1024) < max_size" and "max_size < 2147483648"
  shows "\<exists>s' current'. put_chunks z (int c) max_size s sizes current =
      Some (s', sizes @ map (\<lambda>x. int (length (packed z c x))) (full_chunks c xs), current', True) \<and>
    fd_data (ew_out s') = fd_data (ew_out s) @ concat (map (packed z c) (full_chunks c xs)) \<and> at_end (ew_out s') \<and>
    md5_took (ew_md5 s') (ps @ full_chunks c xs)"
  using assms
proof (induction "length (full_chunks c xs)" arbitrary: s xs ps sizes current)
  case 0
  then have short: "length xs < c" using full_chunks_step [of c xs] by (cases "length xs < c") auto
  have f: "full_chunks c xs = []" by (rule full_chunks_short [OF short])
  obtain infd where r: "read_from_stream (ew_in s) (int c) = (infd, xs, int (length xs))"
    using read_from_stream_moving [of "ew_in s" "int c"] 0(2) short by (auto simp: writing_def)
  have "length xs \<le> length (ew_data s)" using 0(2) short by (simp add: writing_def)
  then have "mem_write (ew_data s) 0 xs = Some (over_block xs (ew_data s))" by (simp add: mem_write_def over_block_def)
  then show ?case using 0(2,6-8) r short by (subst put_chunks.simps) (simp add: f writing_def)
next
  case (Suc n)
  then have c: "c \<le> length xs" using full_chunks_short [of xs c] by (cases "length xs < c") auto
  define x where "x = take c xs"
  have f: "full_chunks c xs = x # full_chunks c (drop c xs)" unfolding x_def by (rule full_chunks_step [OF Suc.prems(3) c])
  have x: "length x = c" using c by (simp add: x_def)
  obtain infd where r: "read_from_stream (ew_in s) (int c) = (infd, x, int c)" "moving infd" "fd_rest infd = drop c xs"
    using read_from_stream_moving [of "ew_in s" "int c"] Suc.prems(1) x by (auto simp: writing_def x_def)
  define s1 where "s1 = s\<lparr>ew_in := infd, ew_data := x\<rparr>"
  have mw: "mem_write (ew_data s) 0 x = Some x" using Suc.prems(1) x by (simp add: mem_write_def writing_def)
  have s1: "writing c s1 (drop c xs) ps" "ew_data s1 = x" using Suc.prems(1) r(2,3) x by (simp_all add: s1_def writing_def)
  obtain s2 where p: "put_chunk z (int c) s1 = Some (s2, int (length (packed z c x)), int (length (compressed_chunk z c x)))"
    "writing c s2 (drop c xs) (ps @ [x])" "fd_data (ew_out s2) = fd_data (ew_out s) @ packed z c x"
    using put_chunk_ok [OF s1(1) Suc.prems(2) s1(2) Suc.prems(4)] by (auto simp: s1_def)
  define current1 where "current1 = current + int (length (compressed_chunk z c x))"
  have l: "int (length (compressed_chunk z c x)) \<le> int (c + 1024)" using compressed_chunk_ok(2) [OF Suc.prems(2) x Suc.prems(4)] by simp
  have sum: "current + int (c + 1024) + int (length (full_chunks c (drop c xs))) * int (c + 1024) < max_size"
    using Suc.prems(7) unfolding f by (simp add: algebra_simps del: of_nat_add)
  have "0 \<le> int (length (full_chunks c (drop c xs))) * int (c + 1024)" by simp
  with sum l Suc.prems(6,8) have cur: "0 \<le> current1" "current1 + int (length (full_chunks c (drop c xs))) * int (c + 1024) < max_size"
      "current < max_size" "current1 < 2147483648"
    unfolding current1_def by linarith+
  then have s32: "s32 current1 = current1" by (simp add: s32_id)
  have n: "n = length (full_chunks c (drop c xs))" using Suc.hyps(2) f by simp
  have len: "length (sizes @ [int (length (packed z c x))]) + length (full_chunks c (drop c xs)) < 16375" using Suc.prems(5) f by simp
  from Suc.hyps(1) [OF n p(2) Suc.prems(2-4) len cur(1,2) Suc.prems(8)] obtain s' current' where
    IH: "put_chunks z (int c) max_size s2 (sizes @ [int (length (packed z c x))]) current1 =
        Some (s', (sizes @ [int (length (packed z c x))]) @ map (\<lambda>x. int (length (packed z c x))) (full_chunks c (drop c xs)), current', True)"
      "fd_data (ew_out s') = fd_data (ew_out s2) @ concat (map (packed z c) (full_chunks c (drop c xs)))" "at_end (ew_out s')"
      "md5_took (ew_md5 s') ((ps @ [x]) @ full_chunks c (drop c xs))"
    by blast
  have "put_chunks z (int c) max_size s sizes current =
      put_chunks z (int c) max_size s2 (sizes @ [int (length (packed z c x))]) current1"
    using Suc.prems(5) cur(3) f r(1) mw p(1) s32 by (subst put_chunks.simps) (simp add: s1_def [symmetric] current1_def)
  then show ?case using IH p(3) unfolding f by simp
qed

section \<open>What is written\<close>

text \<open>C25 (evf_writer_chunks). When the section is large enough for all that is left of the input, it gets every whole chunk, compressed when
  that makes it shorter, in order, with its size for the table, and the digest gets the same chunks: the reader unpacks each of them
  to what was read. What is left of the input after the last whole chunk is lost, from the file and from the digest.\<close>

theorem evf_writer_chunks:
  assumes "compress_ok z" and "0 < c" and "c \<le> 1000000" and "writing c s xs ps" and "length (full_chunks c xs) < 16375"
    and "int (length (full_chunks c xs)) * int (c + 1024) < max_size" and "max_size < 2147483648"
  shows "\<exists>s' sizes n. put_chunks z (int c) max_size s [] 0 = Some (s', sizes, n, True) \<and>
    fd_data (ew_out s') = fd_data (ew_out s) @ concat (map (packed z c) (full_chunks c xs)) \<and>
    sizes = map (\<lambda>x. int (length (packed z c x))) (full_chunks c xs) \<and>
    md5_took (ew_md5 s') (ps @ full_chunks c xs) \<and>
    list_all2 (stored_as z c) (map (packed z c) (full_chunks c xs)) (full_chunks c xs) \<and>
    concat (full_chunks c xs) = take (length xs - length xs mod c) xs"
proof -
  have "list_all2 (stored_as z c) (map (packed z c) (full_chunks c xs)) (full_chunks c xs)"
    using packed_stored [OF assms(1) _ assms(3)] by (auto simp: list_all2_map1 full_chunks_def list_all2_same)
  then show ?thesis using put_chunks_ok [OF assms(4,1-3), of "[]" 0 max_size] assms(5-7) concat_full_chunks [OF assms(2)] by auto
qed

definition demo_writer :: evf_writer where
  "demo_writer = \<lparr>ew_in = open_fd [1, 2, 3, 4, 5, 6, 7], ew_files = [], ew_out = open_fd [], ew_segment = 1, ew_position = 0, ew_chunks = 0,
     ew_data = [0, 0, 0], ew_cdata = replicate 1027 0, ew_md5 = MD5_Init (\<lambda>_. 0)\<rparr>"

lemma full_chunks_demo: "full_chunks 3 [1, 2, 3, 4, 5, 6, 7 :: byte] = [[1, 2, 3], [4, 5, 6]]"
  by (simp add: full_chunks_def chunks.simps)

lemma compress_ok_stored: "compress_ok stored"
  by (simp add: compress_ok_def stored_def)

lemma evf_writer_chunks_witness:
  "\<exists>s' sizes n. put_chunks stored 3 100000 demo_writer [] 0 = Some (s', sizes, n, True) \<and> fd_data (ew_out s') = [1, 2, 3, 4, 5, 6] \<and> sizes = [3, 3]"
proof -
  have w: "writing 3 demo_writer [1, 2, 3, 4, 5, 6, 7] []"
    using md5_took_Init demo_facts(8) by (simp add: writing_def demo_writer_def open_fd_def moving_def fd_rest_def)
  have "packed stored 3 [1, 2, 3] = [1, 2, 3]" "packed stored 3 [4, 5, 6] = [4, 5, 6]"
    by (simp_all add: packed_def compressed_chunk_def stored_def)
  then show ?thesis
    using evf_writer_chunks [OF compress_ok_stored _ _ w, of 100000] by (simp add: full_chunks_demo demo_writer_def open_fd_def) blast
qed

section \<open>Tables\<close>

text \<open>Where the chunks of the given sizes start.\<close>

fun chunk_starts :: "int \<Rightarrow> int list \<Rightarrow> int list" where
  "chunk_starts a [] = []"
| "chunk_starts a (n # sizes) = a # chunk_starts (a + n) sizes"

lemma put_offsets_data:
  "at_end fd \<Longrightarrow> fd_data (put_offsets a sizes fd) = fd_data fd @ concat (map (le_bytes 8) (chunk_starts a sizes)) \<and> at_end (put_offsets a sizes fd)"
proof (induction a sizes fd rule: put_offsets.induct)
  case (2 result n sizes fd)
  then show ?case using write_fd_at_end [OF 2(2), of "le_bytes 8 result"] by simp
qed simp

lemma words4_long: "0 \<le> a \<Longrightarrow> a < 4294967296 \<Longrightarrow> words4 (le_bytes 8 a @ m) = a # 0 # words4 m"
proof -
  assume a: "0 \<le> a" "a < 4294967296"
  have "le_bytes 8 a = le_bytes 4 a @ [0, 0, 0, 0]" using a by (simp add: eval_nat_numeral)
  then have "words4 (le_bytes 8 a @ m) = words4 (concat (map (le_bytes 4) [a]) @ 0 # 0 # 0 # 0 # m)" by simp
  also have "\<dots> = [a] @ words4 (0 # 0 # 0 # 0 # m)" by (rule words4_bytes) (use a in simp)
  finally show ?thesis by simp
qed

lemma words4_longs: "\<forall>a\<in>set as. 0 \<le> a \<and> a < 4294967296 \<Longrightarrow> words4 (concat (map (le_bytes 8) as)) = concat (map (\<lambda>a. [a, 0]) as)"
  by (induction as) (simp_all add: words4_long)

lemma words4_drop: "words4 (drop 4 m) = tl (words4 m)"
  by (cases m rule: words4.cases) simp_all

text \<open>C36 (evf_writer_offsets). The offsets in a table are written from a variable of the type \<open>long\<close>. With 64 bits, each of them takes eight
  bytes: of the numbers of four bytes that the reader takes from the table, the first is the offset of the first chunk, and then
  every other one is zero, so that the second chunk is looked for at the start of the file.\<close>

theorem evf_writer_offsets:
  assumes "at_end fd" and "\<forall>a\<in>set (chunk_starts a sizes). 0 \<le> a \<and> a < 4294967296"
  shows "\<exists>m. fd_data (put_offsets a sizes fd) = fd_data fd @ m \<and> length m = 8 * length sizes \<and>
    (sizes \<noteq> [] \<longrightarrow> le_val (take 4 m) = a \<and>
       words4 (drop 4 m) = 0 # concat (map (\<lambda>b. [b, 0]) (tl (chunk_starts a sizes))))"
proof -
  define m where "m = concat (map (le_bytes 8) (chunk_starts a sizes))"
  have w: "words4 m = concat (map (\<lambda>b. [b, 0]) (chunk_starts a sizes))" unfolding m_def by (rule words4_longs [OF assms(2)])
  have "length (chunk_starts a sizes) = length sizes" by (induction a sizes rule: chunk_starts.induct) simp_all
  moreover have "length m = 8 * length (chunk_starts a sizes)" by (simp add: m_def length_concat comp_def sum_list_triv)
  moreover have "le_val (take 4 m) = a" if ne: "sizes \<noteq> []"
  proof -
    obtain n ns where n: "sizes = n # ns" using ne by (cases sizes) auto
    then have a: "0 \<le> a" "a < 4294967296" using assms(2) by simp_all
    have "le_bytes 8 a = le_bytes 4 a @ [0, 0, 0, 0]" using a by (simp add: eval_nat_numeral)
    then have "take 4 m = le_bytes 4 a" by (simp add: m_def n)
    then show ?thesis using a by (simp add: le_val_le_bytes)
  qed
  moreover have "words4 (drop 4 m) = 0 # concat (map (\<lambda>b. [b, 0]) (tl (chunk_starts a sizes)))" if "sizes \<noteq> []"
    using that unfolding words4_drop w by (cases sizes) simp_all
  ultimately show ?thesis using put_offsets_data [OF assms(1), of a sizes] by (intro exI [of _ m]) (simp add: m_def)
qed

lemma evf_writer_offsets_witness:
  "\<exists>m. fd_data (put_offsets 2000 [300, 40, 5] (open_fd [])) = m \<and> le_val (take 4 m) = 2000 \<and> words4 (drop 4 m) = [0, 2300, 0, 2340, 0]"
  using evf_writer_offsets [OF demo_facts(8), of 2000 "[300, 40, 5]"] by (auto simp: open_fd_def)

end
