(* ===== verification/GF2_Poly.thy ===== *)
theory GF2_Poly
  imports Main "HOL-Library.Word"
begin

text \<open>
  Polynomials over the field of two elements, as natural numbers: bit \<open>i\<close> is the coefficient of the power \<open>i\<close>. The sum is
  \<open>xor\<close>, a product with a power is \<open>push_bit\<close>, and \<open>clmul\<close> is the product.
\<close>

section \<open>The number of bits\<close>

fun nbits :: "nat \<Rightarrow> nat" where
  "nbits n = (if n = 0 then 0 else Suc (nbits (n div 2)))"

declare nbits.simps [simp del]

lemma nbits_0 [simp]: "nbits 0 = 0"
  by (simp add: nbits.simps)

lemma nbits_pos: "0 < n \<Longrightarrow> nbits n = Suc (nbits (n div 2))"
  by (simp add: nbits.simps)

lemma nbits_le: "nbits n \<le> k \<longleftrightarrow> n < 2 ^ k"
proof (induction n arbitrary: k rule: nbits.induct)
  case (1 n)
  show ?case
  proof (cases "n = 0")
    case False
    then have n: "nbits n = Suc (nbits (n div 2))" by (simp add: nbits_pos)
    show ?thesis
    proof (cases k)
      case 0
      then show ?thesis using n False by simp
    next
      case (Suc j)
      have "nbits (n div 2) \<le> j \<longleftrightarrow> n div 2 < 2 ^ j" by (rule 1 [OF False])
      then show ?thesis using n Suc by auto
    qed
  qed simp
qed

lemma nbits_eq_0 [simp]: "nbits n = 0 \<longleftrightarrow> n = 0"
  by (simp add: nbits.simps)

lemma nbits_unique: "2 ^ k \<le> n \<Longrightarrow> n < 2 ^ Suc k \<Longrightarrow> nbits n = Suc k"
  by (metis le_antisym nbits_le not_less_eq_eq not_le)

lemma nbits_bounds: "0 < n \<Longrightarrow> 2 ^ (nbits n - 1) \<le> n \<and> n < 2 ^ nbits n"
  using nbits_le [of n "nbits n"] nbits_le [of n "nbits n - 1"] nbits_eq_0 [of n]
  by (cases "nbits n") (simp_all add: not_less)

lemma nbits_push: "0 < n \<Longrightarrow> nbits (push_bit k n) = nbits n + k"
proof -
  assume n: "0 < n"
  obtain j where j: "nbits n = Suc j" using n by (cases "nbits n") simp_all
  then have "2 ^ j \<le> n" "n < 2 ^ Suc j" using nbits_bounds [OF n] by simp_all
  then have "2 ^ (j + k) \<le> n * 2 ^ k" "n * 2 ^ k < 2 ^ Suc (j + k)" by (simp_all add: power_add)
  then have "nbits (n * 2 ^ k) = Suc (j + k)" by (rule nbits_unique)
  then show ?thesis using j by (simp add: push_bit_eq_mult)
qed

lemma xor_less: "a < 2 ^ k \<Longrightarrow> b < 2 ^ k \<Longrightarrow> xor a b < (2::nat) ^ k"
proof -
  assume "a < 2 ^ k" "b < 2 ^ k"
  then have "take_bit k a = a" "take_bit k b = b" by (simp_all add: take_bit_nat_eq_self)
  then have "take_bit k (xor a b) = xor a b" by (metis take_bit_xor)
  then show ?thesis by (metis take_bit_nat_less_exp)
qed

lemma bit_top: "2 ^ k \<le> n \<Longrightarrow> n < 2 ^ Suc k \<Longrightarrow> bit n k" for n :: nat
proof -
  assume "2 ^ k \<le> n" "n < 2 ^ Suc k"
  then have "n div 2 ^ k = 1" by (intro div_nat_eqI) simp_all
  then show ?thesis by (simp add: bit_iff_odd)
qed

lemma xor_top: "nbits a = Suc k \<Longrightarrow> nbits b = Suc k \<Longrightarrow> xor a b < 2 ^ k"
proof -
  assume "nbits a = Suc k" "nbits b = Suc k"
  moreover have "0 < a" "0 < b" using calculation nbits_eq_0 [of a] nbits_eq_0 [of b] by simp_all
  ultimately have l: "2 ^ k \<le> a" "a < 2 ^ Suc k" "2 ^ k \<le> b" "b < 2 ^ Suc k" 
    using nbits_bounds [of a] nbits_bounds [of b] by simp_all
  then have "bit a k" "bit b k" by (simp_all add: bit_top)
  then have nb: "\<not> bit (xor a b) k" by (simp add: bit_xor_iff)
  have "xor a b < 2 ^ Suc k" using l by (intro xor_less)
  then show ?thesis using nb bit_top [of k "xor a b"] by (meson not_le)
qed

lemma xor_bit: "a < 2 ^ Suc k \<Longrightarrow> \<not> bit a k \<Longrightarrow> a < 2 ^ k" for a :: nat
  using bit_top [of k a] by (meson not_le)

section \<open>The product\<close>

fun clmul :: "nat \<Rightarrow> nat \<Rightarrow> nat" where
  "clmul a b = (if a = 0 then 0 else xor (if odd a then b else 0) (2 * clmul (a div 2) b))"

declare clmul.simps [simp del]

lemma clmul_0 [simp]: "clmul 0 b = 0"
  by (simp add: clmul.simps)

lemma clmul_step: "clmul a b = xor (if odd a then b else 0) (2 * clmul (a div 2) b)"
  by (cases "a = 0") (simp_all add: clmul.simps [of a])

lemma clmul_1 [simp]: "clmul 1 b = b" "clmul (Suc 0) b = b"
  by (simp_all add: clmul_step [of 1] clmul_step [of "Suc 0"])

lemma xor_twice: "2 * xor a b = xor (2 * a) (2 * (b::nat))"
  using push_bit_xor [of 1 a b] by (simp add: push_bit_eq_mult mult.commute)

lemma clmul_zero_right [simp]: "clmul a 0 = 0"
  by (induction a "0::nat" rule: clmul.induct) (simp add: clmul.simps)

lemma clmul_double: "clmul (2 * a) b = 2 * clmul a b"
  by (subst clmul_step) simp

lemma clmul_double_right: "clmul a (2 * b) = 2 * clmul a b"
proof (induction a b rule: clmul.induct)
  case (1 a b)
  show ?case
  proof (cases "a = 0")
    case False
    then show ?thesis using 1 by (simp add: clmul_step [of a] xor_twice)
  qed simp
qed

lemma clmul_xor_right: "clmul a (xor b c) = xor (clmul a b) (clmul a c)"
proof (induction a b rule: clmul.induct)
  case (1 a b)
  show ?case
  proof (cases "a = 0")
    case False
    then show ?thesis using 1 by (simp add: clmul_step [of a] xor_twice xor.assoc xor.left_commute)
  qed simp
qed

lemma xor_div2: "xor a b div 2 = xor (a div 2) (b div (2::nat))"
  using drop_bit_xor [of 1 a b] by (simp add: drop_bit_eq_div)

lemma xor_cancel: "xor a (xor a b) = (b::nat)"
  by (simp add: xor.assoc [symmetric])

lemma odd_xor: "odd (xor a b) \<longleftrightarrow> odd a \<noteq> odd (b::nat)"
  by (metis bit_0 bit_xor_iff)

lemma clmul_xor: "clmul (xor a b) c = xor (clmul a c) (clmul b c)"
proof (induction a arbitrary: b rule: less_induct)
  case (less a)
  show ?case
  proof (cases "a = 0")
    case False
    then have "clmul (xor (a div 2) (b div 2)) c = xor (clmul (a div 2) c) (clmul (b div 2) c)" by (intro less) simp
    then show ?thesis
      by (subst (1 2 3) clmul_step) (simp add: odd_xor xor_div2 xor_twice xor.assoc xor.left_commute xor_cancel)
  qed simp
qed

lemma clmul_one_right [simp]: "clmul a 1 = a" "clmul a (Suc 0) = a"
proof -
  show "clmul a 1 = a"
  proof (induction a rule: less_induct)
    case (less a)
    show ?case
    proof (cases "a = 0")
      case False
      then have "clmul (a div 2) 1 = a div 2" by (intro less) simp
      then show ?thesis
        by (subst clmul_step) (cases "odd a", auto elim!: oddE evenE simp: xor_nat_unfold)
    qed simp
  qed
  then show "clmul a (Suc 0) = a" by simp
qed

lemma clmul_push: "clmul (push_bit k a) b = push_bit k (clmul a b)"
  by (induction k arbitrary: a) (simp_all add: push_bit_Suc push_bit_double mult.commute [of _ 2] clmul_double)

lemma clmul_push_right: "clmul a (push_bit k b) = push_bit k (clmul a b)"
  by (induction k arbitrary: b) (simp_all add: push_bit_Suc push_bit_double mult.commute [of _ 2] clmul_double_right)

lemma clmul_commute: "clmul a b = clmul b a"
proof (induction a arbitrary: b rule: less_induct)
  case (less a)
  show ?case
  proof (cases "a = 0")
    case False
    then have IH: "clmul (a div 2) b = clmul b (a div 2)" by (intro less) simp
    have "a = xor (if odd a then 1 else 0) (2 * (a div 2))"
      by (cases "odd a") (auto elim!: oddE evenE simp: xor_nat_unfold)
    then have "clmul b a = xor (clmul b (if odd a then 1 else 0)) (clmul b (2 * (a div 2)))" by (metis clmul_xor_right)
    then show ?thesis using IH by (subst clmul_step) (simp add: clmul_double_right)
  qed simp
qed

lemma clmul_assoc: "clmul (clmul a b) c = clmul a (clmul b c)"
proof (induction a rule: less_induct)
  case (less a)
  show ?case
  proof (cases "a = 0")
    case False
    then have "clmul (clmul (a div 2) b) c = clmul (a div 2) (clmul b c)" by (intro less) simp
    then show ?thesis by (subst (1 3) clmul_step) (simp add: clmul_xor clmul_double)
  qed simp
qed

lemma nbits_clmul: "0 < a \<Longrightarrow> 0 < b \<Longrightarrow> nbits (clmul a b) + 1 = nbits a + nbits b \<and> 0 < clmul a b"
proof (induction a rule: less_induct)
  case (less a)
  show ?case
  proof (cases "a = 1")
    case True
    then show ?thesis using less.prems by (simp add: nbits.simps [of "Suc 0"])
  next
    case False
    then have "a div 2 < a" "0 < a div 2" using less.prems(1) by simp_all
    then have IH: "nbits (clmul (a div 2) b) + 1 = nbits (a div 2) + nbits b" "0 < clmul (a div 2) b" using less by blast+
    define t where "t = 2 * clmul (a div 2) b"
    have t: "nbits t + 1 = nbits a + nbits b" "0 < t"
      using IH nbits_push [OF IH(2), of 1] nbits_pos [OF less.prems(1)] by (simp_all add: t_def push_bit_eq_mult mult.commute)
    have "0 < nbits (a div 2)" using \<open>0 < a div 2\<close> by (metis nbits_eq_0 not_gr_zero)
    then have "2 \<le> nbits a" using nbits_pos [OF less.prems(1)] by simp
    then have bt: "nbits b < nbits t" using t(1) by linarith
    define c where "c = (if odd a then b else 0)"
    have c: "c < 2 ^ (nbits t - 1)" using bt nbits_le [of c "nbits t - 1"] by (auto simp: c_def)
    obtain k where k: "nbits t = Suc k" using bt by (cases "nbits t") simp_all
    have tb: "2 ^ k \<le> t" "t < 2 ^ Suc k" using nbits_bounds [OF t(2)] k by simp_all
    have "bit t k" by (rule bit_top [OF tb])
    moreover have "\<not> bit c k" using c k by (simp add: bit_iff_odd)
    ultimately have "bit (xor c t) k" by (simp add: bit_xor_iff)
    then have "2 ^ k \<le> xor c t" by (metis bit_nat_iff not_le take_bit_nat_eq_self bit_take_bit_iff less_irrefl)
    moreover have "xor c t < 2 ^ Suc k" using c tb(2) k by (intro xor_less) simp_all
    ultimately have "nbits (xor c t) = Suc k" by (rule nbits_unique)
    moreover have "clmul a b = xor c t" unfolding c_def t_def by (rule clmul_step)
    ultimately show ?thesis using t(1) k by (metis nbits_eq_0 nat.distinct(1) not_gr_zero)
  qed
qed

section \<open>Remainders\<close>

lemma nbits_xor_align: "0 < p \<Longrightarrow> nbits p \<le> nbits a \<Longrightarrow> nbits (xor a (push_bit (nbits a - nbits p) p)) < nbits a"
proof -
  assume p: "0 < p" and le: "nbits p \<le> nbits a"
  have "nbits p \<noteq> 0" using p by simp
  then obtain k where k: "nbits a = Suc k" using le by (cases "nbits a") simp_all
  have "nbits (push_bit (nbits a - nbits p) p) = Suc k" using nbits_push [OF p] le k by simp
  from xor_top [OF k this] show ?thesis using k nbits_le by (metis less_Suc_eq_le)
qed

function pmod :: "nat \<Rightarrow> nat \<Rightarrow> nat" where
  "pmod a p = (if p = 0 \<or> nbits a < nbits p then a else pmod (xor a (push_bit (nbits a - nbits p) p)) p)"
  by pat_completeness auto
termination
  by (relation "measure (\<lambda>(a, p). nbits a)") (simp_all add: nbits_xor_align)

declare pmod.simps [simp del]

text \<open>Two polynomials are congruent when their difference is a multiple of the modulus.\<close>

definition pcong :: "nat \<Rightarrow> nat \<Rightarrow> nat \<Rightarrow> bool" where
  "pcong p a b \<longleftrightarrow> (\<exists>q. xor a b = clmul q p)"

lemma pcong_refl [simp]: "pcong p a a"
  by (auto simp: pcong_def intro: exI [of _ 0])

lemma pcong_sym: "pcong p a b \<Longrightarrow> pcong p b a"
  by (simp add: pcong_def xor.commute)

lemma pcong_trans: "pcong p a b \<Longrightarrow> pcong p b c \<Longrightarrow> pcong p a c"
proof -
  assume "pcong p a b" "pcong p b c"
  then obtain q r where "xor a b = clmul q p" "xor b c = clmul r p" by (auto simp: pcong_def)
  moreover have "xor a c = xor (xor a b) (xor b c)" by (simp add: xor.assoc xor_cancel)
  ultimately have "xor a c = clmul (xor q r) p" by (simp add: clmul_xor)
  then show ?thesis by (auto simp: pcong_def)
qed

lemma pcong_xor: "pcong p a b \<Longrightarrow> pcong p c d \<Longrightarrow> pcong p (xor a c) (xor b d)"
proof -
  assume "pcong p a b" "pcong p c d"
  then obtain q r where "xor a b = clmul q p" "xor c d = clmul r p" by (auto simp: pcong_def)
  moreover have "xor (xor a c) (xor b d) = xor (xor a b) (xor c d)" by (simp add: xor.assoc xor.left_commute)
  ultimately have "xor (xor a c) (xor b d) = clmul (xor q r) p" by (simp add: clmul_xor)
  then show ?thesis by (auto simp: pcong_def)
qed

lemma pcong_clmul_left: "pcong p a b \<Longrightarrow> pcong p (clmul c a) (clmul c b)"
  unfolding pcong_def by (metis clmul_xor_right clmul_assoc)

lemma pcong_clmul: "pcong p a b \<Longrightarrow> pcong p c d \<Longrightarrow> pcong p (clmul a c) (clmul b d)"
  by (metis pcong_clmul_left clmul_commute pcong_trans)

lemma pcong_push: "pcong p a b \<Longrightarrow> pcong p (push_bit k a) (push_bit k b)"
  using pcong_clmul_left [of p a b "push_bit k 1"] by (simp only: clmul_push clmul_1)

lemma pcong_reduce: "pcong p (xor a (push_bit k p)) a"
  unfolding pcong_def by (rule exI [of _ "push_bit k 1"]) (simp only: clmul_push clmul_1 xor.commute [of _ a] xor_cancel)

lemma pmod_pcong: "pcong p (pmod a p) a"
proof (induction a p rule: pmod.induct)
  case (1 a p)
  then show ?case by (subst pmod.simps) (auto intro: pcong_trans pcong_reduce)
qed

lemma pmod_less: "0 < p \<Longrightarrow> nbits (pmod a p) < nbits p"
proof (induction a p rule: pmod.induct)
  case (1 a p)
  then show ?case by (subst pmod.simps) auto
qed

lemma pmod_small: "nbits a < nbits p \<Longrightarrow> pmod a p = a"
  by (simp add: pmod.simps)

lemma pcong_unique: "pcong p a b \<Longrightarrow> nbits a < nbits p \<Longrightarrow> nbits b < nbits p \<Longrightarrow> a = b"
proof (rule ccontr)
  assume c: "pcong p a b" "nbits a < nbits p" "nbits b < nbits p" "a \<noteq> b"
  then obtain q where q: "xor a b = clmul q p" by (auto simp: pcong_def)
  obtain k where k: "nbits p = Suc k" using c(2) by (cases "nbits p") simp_all
  have ab: "xor a b < 2 ^ k" using c(2,3) k by (intro xor_less) (simp_all add: nbits_le [symmetric])
  have "xor a b \<noteq> 0"
  proof
    assume "xor a b = 0"
    then have "xor a (xor a b) = a" by simp
    then show False using c(4) by (simp add: xor_cancel)
  qed
  then have "0 < q" "0 < p" using q by (auto intro: gr0I)
  then have "nbits (clmul q p) + 1 = nbits q + nbits p" "nbits q \<noteq> 0" using nbits_clmul [of q p] by simp_all
  then show False using ab q k nbits_le [of "xor a b" k] by simp
qed

lemma pmod_unique: "pcong p a b \<Longrightarrow> nbits a < nbits p \<Longrightarrow> a = pmod b p"
  by (metis pcong_unique pcong_trans pcong_sym pmod_pcong pmod_less gr0I nbits_0 not_less0)

lemma pmod_eq: "0 < p \<Longrightarrow> pmod a p = pmod b p \<longleftrightarrow> pcong p a b"
  by (metis pcong_sym pcong_trans pmod_less pmod_pcong pmod_unique)

end
