(* ===== verification/GF163.thy ===== *)
theory GF163
  imports GF2_Poly
begin

text \<open>
  The field of two to the 163 elements that \<open>src/src/remote/ecc.c\<close> computes in, as a type of the class \<open>field\<close>: polynomials of a degree below 163
  modulo the one whose coefficients are in \<open>POLY\<close>. That every element but zero has an inverse is shown by counting: the square
  map has order 163 (which is computed), so that it moves the elements of an ideal in cycles of 163, and no number of elements but all
  and one fits.
\<close>

section \<open>The ring\<close>

definition B163 :: nat where
  "B163 = 0x800000000000000000000000000000000000000c9"

lemma nbits_B163 [simp]: "nbits B163 = 164"
  using nbits_unique [of 163 B163] by (simp add: B163_def)

lemma B163_pos [simp]: "0 < B163"
  by (simp add: B163_def)

typedef gf163 = "{x::nat. x < 2 ^ 163}" morphisms gf_val Gf
  by (rule exI [of _ 0]) simp

lemma gf_val_less [simp]: "gf_val x < 2 ^ 163"
  using gf_val by simp

definition gf_of :: "nat \<Rightarrow> gf163" where
  "gf_of n = Gf (pmod n B163)"

lemma pmod_B163_less: "pmod n B163 < 2 ^ 163"
  using pmod_less [OF B163_pos, of n] nbits_le [of "pmod n B163" 163] by simp

lemma gf_val_gf_of: "gf_val (gf_of n) = pmod n B163"
  using pmod_B163_less [of n] by (simp add: gf_of_def Gf_inverse)

lemma gf_of_small: "n < 2 ^ 163 \<Longrightarrow> gf_val (gf_of n) = n"
  using nbits_le [of n 163] by (simp add: gf_val_gf_of pmod_small)

lemma gf_of_gf_val [simp]: "gf_of (gf_val x) = x"
  by (metis gf_of_small gf_val_less gf_val_inject)

lemma gf_of_eq: "gf_of a = gf_of b \<longleftrightarrow> pcong B163 a b"
  by (metis gf_val_gf_of gf_val_inject pmod_eq B163_pos)

lemma gf_of_pmod [simp]: "gf_of (pmod n B163) = gf_of n"
  by (simp add: gf_of_eq pmod_pcong)

lemma gf_of_cases: obtains n where "x = gf_of n" "n < 2 ^ 163"
  by (metis gf_of_gf_val gf_val_less)

lemma UNIV_gf163: "(UNIV :: gf163 set) = gf_of ` {..<2 ^ 163}"
  by (metis UNIV_eq_I gf_of_cases image_eqI lessThan_iff)

lemma inj_on_gf_of: "inj_on gf_of {..<2 ^ 163}"
  by (rule inj_on_inverseI [of _ gf_val]) (simp add: gf_of_small)

lemma finite_gf163 [simp]: "finite (S :: gf163 set)"
  by (metis UNIV_gf163 finite_imageI finite_lessThan finite_subset subset_UNIV)

instantiation gf163 :: comm_ring_1
begin

definition zero_gf163 :: gf163 where "0 = gf_of 0"
definition one_gf163 :: gf163 where "1 = gf_of 1"
definition plus_gf163 :: "gf163 \<Rightarrow> gf163 \<Rightarrow> gf163" where "a + b = gf_of (xor (gf_val a) (gf_val b))"
definition minus_gf163 :: "gf163 \<Rightarrow> gf163 \<Rightarrow> gf163" where "a - b = gf_of (xor (gf_val a) (gf_val b))"
definition uminus_gf163 :: "gf163 \<Rightarrow> gf163" where "- a = (a :: gf163)"
definition times_gf163 :: "gf163 \<Rightarrow> gf163 \<Rightarrow> gf163" where "a * b = gf_of (clmul (gf_val a) (gf_val b))"

lemma gf_of_xor: "gf_of (xor a b) = gf_of a + gf_of b"
  by (simp add: plus_gf163_def gf_of_eq gf_val_gf_of pcong_xor pmod_pcong pcong_sym)

lemma gf_of_clmul: "gf_of (clmul a b) = gf_of a * gf_of b"
  by (simp add: times_gf163_def gf_of_eq gf_val_gf_of pcong_clmul pmod_pcong pcong_sym)

instance
proof
  fix a b c :: gf163
  obtain x where x: "a = gf_of x" by (rule gf_of_cases)
  obtain y where y: "b = gf_of y" by (rule gf_of_cases)
  obtain z where z: "c = gf_of z" by (rule gf_of_cases)
  show "a * b * c = a * (b * c)" unfolding x y z by (simp add: gf_of_clmul [symmetric] clmul_assoc)
  show "a * b = b * a" unfolding x y by (simp add: gf_of_clmul [symmetric] clmul_commute)
  show "1 * a = a" unfolding x one_gf163_def by (simp add: gf_of_clmul [symmetric] del: One_nat_def)
  show "a + b + c = a + (b + c)" unfolding x y z by (simp add: gf_of_xor [symmetric] xor.assoc)
  show "a + b = b + a" unfolding x y by (simp add: gf_of_xor [symmetric] xor.commute)
  show "0 + a = a" unfolding x zero_gf163_def by (simp add: gf_of_xor [symmetric])
  show "- a + a = 0" unfolding x uminus_gf163_def zero_gf163_def by (simp add: gf_of_xor [symmetric])
  show "a - b = a + - b" by (simp add: minus_gf163_def plus_gf163_def uminus_gf163_def)
  show "(a + b) * c = a * c + b * c"
    unfolding x y z by (simp only: gf_of_xor [symmetric] gf_of_clmul [symmetric] clmul_xor)
  have "gf_val 0 = 0" "gf_val 1 = 1" by (simp_all add: zero_gf163_def one_gf163_def gf_of_small del: One_nat_def)
  then show "(0::gf163) \<noteq> 1" by auto
qed

end

lemma gf_val_0 [simp]: "gf_val 0 = 0"
  by (simp add: zero_gf163_def gf_of_small)

lemma gf_val_1 [simp]: "gf_val 1 = 1"
  by (simp add: one_gf163_def gf_of_small del: One_nat_def)

lemma gf_val_plus: "gf_val (a + b) = xor (gf_val a) (gf_val b)"
  unfolding plus_gf163_def by (rule gf_of_small [OF xor_less [OF gf_val_less gf_val_less]])

lemma gf_val_times: "gf_val (a * b) = pmod (clmul (gf_val a) (gf_val b)) B163"
  by (simp add: times_gf163_def gf_val_gf_of)

lemma gf_char [simp]: "a + a = (0 :: gf163)"
  unfolding plus_gf163_def zero_gf163_def by simp

lemma gf_two [simp]: "(2 :: gf163) = 0"
  by (metis gf_char one_add_one)

lemma gf_neg [simp]: "- a = (a :: gf163)"
  by (simp add: uminus_gf163_def)

lemma gf_minus [simp]: "a - b = a + (b :: gf163)"
  by (simp add: minus_gf163_def plus_gf163_def)

lemma gf_add_cancel [simp]: "a + (a + b) = (b :: gf163)"
  by (simp add: add.assoc [symmetric])

section \<open>The square map\<close>

definition frob :: "gf163 \<Rightarrow> gf163" where
  "frob a = a * a"

lemma frob_simps [simp]: "frob 0 = 0" "frob 1 = 1" "frob (a + b) = frob a + frob b" "frob (a * b) = frob a * frob b"
proof -
  have "(a + b) * (a + b) = a * a + b * b + (a * b + a * b)" by (simp only: distrib_left distrib_right ac_simps)
  then show "frob (a + b) = frob a + frob b" by (simp add: frob_def)
qed (simp_all add: frob_def ac_simps)

lemma frob_pow [simp]: "(frob ^^ n) 0 = 0" "(frob ^^ n) 1 = 1" "(frob ^^ n) (a + b) = (frob ^^ n) a + (frob ^^ n) b"
  "(frob ^^ n) (a * b) = (frob ^^ n) a * (frob ^^ n) b"
  by (induction n) simp_all

text \<open>For the computation a polynomial is the list of its coefficients. A square has them at the even places, and what is above
  the degree of the modulus is folded back, twice.\<close>

fun bl_val :: "bool list \<Rightarrow> nat" where
  "bl_val [] = 0"
| "bl_val (b # bs) = of_bool b + 2 * bl_val bs"

fun bl_xor :: "bool list \<Rightarrow> bool list \<Rightarrow> bool list" where
  "bl_xor [] ys = ys"
| "bl_xor (x # xs) [] = x # xs"
| "bl_xor (False # xs) (y # ys) = y # bl_xor xs ys"
| "bl_xor (True # xs) (y # ys) = (\<not> y) # bl_xor xs ys"

fun bl_square :: "bool list \<Rightarrow> bool list" where
  "bl_square [] = []"
| "bl_square (b # bs) = b # False # bl_square bs"

text \<open>The first coefficients and the others; the first argument has as many elements as there are first ones.\<close>

fun bl_low :: "unit list \<Rightarrow> bool list \<Rightarrow> bool list" where
  "bl_low (t # ts) (b # bs) = b # bl_low ts bs"
| "bl_low ts bs = []"

fun bl_high :: "unit list \<Rightarrow> bool list \<Rightarrow> bool list" where
  "bl_high (t # ts) (b # bs) = bl_high ts bs"
| "bl_high ts bs = bs"

definition bl_fold :: "unit list \<Rightarrow> bool list \<Rightarrow> bool list" where
  "bl_fold ts bs = (let hi = bl_high ts bs in
     bl_xor (bl_low ts bs) (bl_xor hi (False # False # False # bl_xor hi (False # False # False # bl_xor hi (False # hi)))))"

definition frob_step :: "unit list \<Rightarrow> bool list \<Rightarrow> bool list" where
  "frob_step ts bs = bl_fold ts (bl_fold ts (bl_square bs))"

lemma of_bool_xor: "xor (of_bool a + 2 * x) (of_bool b + 2 * y) = of_bool (a \<noteq> b) + 2 * xor x (y::nat)"
  by (cases a; cases b) (simp_all add: xor_nat_rec [of "_ + _"] xor_nat_rec [of "Suc _"] xor_nat_rec [of "2 * _"])

lemma bl_val_xor: "bl_val (bl_xor xs ys) = xor (bl_val xs) (bl_val ys)"
  by (induction xs ys rule: bl_xor.induct) (simp_all only: bl_xor.simps bl_val.simps of_bool_xor xor.right_neutral xor.left_neutral simp_thms)

lemma bl_val_square: "bl_val (bl_square bs) = clmul (bl_val bs) (bl_val bs)"
proof (induction bs)
  case (Cons b bs)
  define v where "v = bl_val bs"
  have s: "of_bool b + 2 * v = xor (of_bool b) (2 * v)" using of_bool_xor [of b 0 False v] by simp
  have "clmul (xor (of_bool b) (2 * v)) (xor (of_bool b) (2 * v))
    = xor (clmul (of_bool b) (of_bool b)) (clmul (2 * v) (2 * v))"
    by (simp only: clmul_xor clmul_xor_right clmul_commute [of "2 * v" "of_bool b"] xor.assoc xor_cancel)
  also have "clmul (of_bool b) (of_bool b) = of_bool b" by (cases b) simp_all
  also have "clmul (2 * v) (2 * v) = 4 * clmul v v" by (simp add: clmul_double clmul_double_right)
  also have "xor (of_bool b) (4 * clmul v v) = of_bool b + 4 * clmul v v"
    using of_bool_xor [of b 0 False "2 * clmul v v"] by simp
  finally have "clmul (of_bool b + 2 * v) (of_bool b + 2 * v) = of_bool b + 4 * clmul v v" using s by simp
  then show ?case using Cons by (simp add: v_def)
qed simp

lemma bl_val_cut: "bl_val bs = xor (bl_val (bl_low ts bs)) (push_bit (length ts) (bl_val (bl_high ts bs)))"
proof (induction ts bs rule: bl_low.induct)
  case (1 t ts b bs)
  have "bl_val (b # bs) = of_bool b + 2 * xor (bl_val (bl_low ts bs)) (push_bit (length ts) (bl_val (bl_high ts bs)))"
    using 1 by simp
  also have "\<dots> = xor (bl_val (bl_low (t # ts) (b # bs))) (2 * push_bit (length ts) (bl_val (bl_high ts bs)))"
    using of_bool_xor [of b "bl_val (bl_low ts bs)" False "push_bit (length ts) (bl_val (bl_high ts bs))"] by simp
  finally show ?case by (simp add: push_bit_eq_mult mult.commute mult.left_commute)
qed auto

lemma bl_val_fold: "length ts = 163 \<Longrightarrow> pcong B163 (bl_val (bl_fold ts bs)) (bl_val bs)"
proof -
  assume ts: "length ts = 163"
  define lo h where "lo = bl_low ts bs" and "h = bl_val (bl_high ts bs)"
  have B: "B163 = xor (push_bit 163 1) 0xc9" by (simp add: B163_def push_bit_eq_mult xor_nat_unfold)
  have c: "clmul 0xc9 h = xor h (push_bit 3 (xor h (push_bit 3 (xor h (push_bit 1 h)))))"
  proof -
    have "(0xc9::nat) = xor 1 (push_bit 3 (xor 1 (push_bit 3 (xor 1 (push_bit 1 1)))))" by (simp add: push_bit_eq_mult)
    then show ?thesis by (simp only: clmul_xor clmul_push clmul_1)
  qed
  have "bl_val (bl_fold ts bs) = xor (bl_val lo) (clmul 0xc9 h)"
    unfolding c by (simp add: bl_fold_def Let_def bl_val_xor lo_def h_def push_bit_eq_mult mult.commute [of 8] mult.commute [of 2])
  moreover have "bl_val bs = xor (bl_val lo) (push_bit 163 h)" using bl_val_cut [of bs ts] ts by (simp add: lo_def h_def)
  ultimately have "xor (bl_val (bl_fold ts bs)) (bl_val bs) = xor (clmul 0xc9 h) (push_bit 163 h)"
    by (simp add: xor.assoc xor.left_commute xor_cancel)
  also have "\<dots> = clmul h B163" unfolding B by (simp only: clmul_xor_right clmul_push_right clmul_1 clmul_commute [of h] xor.commute clmul_push)
  finally show ?thesis by (auto simp: pcong_def)
qed

lemma gf_of_frob_step: "length ts = 163 \<Longrightarrow> gf_of (bl_val (frob_step ts bs)) = frob (gf_of (bl_val bs))"
proof -
  assume ts: "length ts = 163"
  have "pcong B163 (bl_val (frob_step ts bs)) (bl_val (bl_square bs))"
    unfolding frob_step_def by (rule pcong_trans [OF bl_val_fold bl_val_fold]) (rule ts)+
  then have "gf_of (bl_val (frob_step ts bs)) = gf_of (bl_val (bl_square bs))" by (simp add: gf_of_eq)
  then show ?thesis by (simp add: bl_val_square gf_of_clmul frob_def)
qed

lemma bl_val_zero: "list_all Not bs \<Longrightarrow> bl_val bs = 0"
  by (induction bs) auto

definition steps163 :: "unit list" where
  "steps163 = replicate 163 ()"

fun frob_steps :: "unit list \<Rightarrow> unit list \<Rightarrow> bool list \<Rightarrow> bool list" where
  "frob_steps ts [] bs = bs"
| "frob_steps ts (u # us) bs = frob_steps ts us (frob_step ts bs)"

lemma gf_of_frob_steps: "length ts = 163 \<Longrightarrow> gf_of (bl_val (frob_steps ts us bs)) = (frob ^^ length us) (gf_of (bl_val bs))"
  by (induction us arbitrary: bs) (simp_all add: gf_of_frob_step funpow_swap1)

lemma frob_steps_append: "frob_steps ts (us @ vs) bs = frob_steps ts vs (frob_steps ts us bs)"
  by (induction us arbitrary: bs) simp_all

definition steps54 :: "unit list" where
  "steps54 = replicate 54 ()"

text \<open>The square map 55, 109 and 163 times, from the polynomial \<open>t\<close> back to itself.\<close>

definition frob55 :: "bool list" where
  "frob55 =
    [False, True, False, False, False, True, True, False, False, False, True, True, False, False, True, True, True, False, True, True, False, False,
    False, False, True, True, False, False, False, True, False, True, False, True, True, True, True, True, False, False, False, False, True, False, False,
    True, False, True, False, False, False, False, False, False, True, True, True, True, False, False, True, False, True, False, True, False, True, True,
    True, True, True, True, True, False, True, False, True, False, False, False, True, True, False, True, False, False, True, False, False, False, False,
    True, True, False, False, True, True, True, True, True, True, False, True, False, False, False, False, False, False, False, True, True, True, True,
    False, True, False, True, True, False, True, True, False, True, True, False, True, True, False, True, False, False, True, False, False, False, True,
    False, True, True, True, True, True, False, False, True, True, False, True, False, False, True, True, False, True, True, False, False, False, False,
    False, False, True]"

definition frob109 :: "bool list" where
  "frob109 =
    [True, True, False, True, True, False, True, False, False, True, False, True, True, True, False, True, False, False, True, False, False, False, True,
    False, False, True, True, True, False, True, False, False, False, False, False, True, True, True, True, True, True, False, True, False, False, False,
    True, True, False, True, False, True, True, True, True, True, True, False, True, True, False, True, True, True, False, True, True, True, True, False,
    True, True, False, True, True, False, False, True, True, True, False, True, True, False, False, True, True, True, False, False, True, False, True,
    True, True, True, False, False, False, False, False, True, True, False, True, True, False, True, True, False, True, True, False, False, True, True,
    True, True, False, True, False, False, True, True, False, True, False, True, False, False, True, False, False, False, True, False, False, True, True,
    False, True, False, False, False, False, False, True, True, False, True, True, True, False, False, True, True, False, True, True, True, True, False,
    True]"

definition is_two :: "bool list \<Rightarrow> bool" where
  "is_two bs = (case bs of a # b # bs \<Rightarrow> \<not> a \<and> b \<and> list_all Not bs | _ \<Rightarrow> False)"

lemma frob_steps_1: "frob_steps steps163 (() # steps54) [False, True] = frob55"
  by code_simp

lemma frob_steps_2: "frob_steps steps163 steps54 frob55 = frob109"
  by code_simp

lemma frob_steps_3: "is_two (frob_steps steps163 steps54 frob109)"
  by code_simp

lemma frob_steps_two: "is_two (frob_steps steps163 steps163 [False, True])"
proof -
  have "steps163 = () # steps54 @ steps54 @ steps54"
    by (simp add: steps163_def steps54_def replicate_add [symmetric] flip: replicate_Suc)
  then show ?thesis
    using frob_steps_append [of steps163 "() # steps54" "steps54 @ steps54"] frob_steps_append [of steps163 steps54 steps54]
    by (simp only: append_Cons frob_steps_1 frob_steps_2 frob_steps_3)
qed

lemma gf_of_pow: "(frob ^^ 163) (gf_of 2) = gf_of 2"
proof -
  have l: "length steps163 = 163" by (simp add: steps163_def)
  define r where "r = frob_steps steps163 steps163 [False, True]"
  obtain bs where bs: "r = False # True # bs" "list_all Not bs"
    using frob_steps_two by (auto simp: r_def [symmetric] is_two_def split: list.splits)
  have "gf_of (bl_val r) = (frob ^^ 163) (gf_of (bl_val [False, True]))" using gf_of_frob_steps [OF l] l by (simp add: r_def)
  moreover have "bl_val r = 2" "bl_val [False, True] = 2" using bs by (simp_all add: bl_val_zero)
  ultimately show ?thesis by (simp only:)
qed

lemma frob_163: "(frob ^^ 163) x = x"
proof -
  obtain n where x: "x = gf_of n" by (rule gf_of_cases)
  have "(frob ^^ 163) (gf_of n) = gf_of n"
  proof (induction n rule: less_induct)
    case (less n)
    show ?case
    proof (cases "n = 0")
      case True
      then show ?thesis using frob_pow(1) [of 163] by (simp only: zero_gf163_def)
    next
      case False
      then have IH: "(frob ^^ 163) (gf_of (n div 2)) = gf_of (n div 2)" by (intro less) simp
      have "n = xor (of_bool (odd n)) (2 * (n div 2))" using of_bool_xor [of "odd n" 0 False "n div 2"] by simp
      also have "2 * (n div 2) = clmul 2 (n div 2)" using clmul_push [of 1 1] by (simp add: push_bit_eq_mult)
      finally have n: "gf_of n = gf_of (of_bool (odd n)) + gf_of 2 * gf_of (n div 2)" by (metis gf_of_xor gf_of_clmul)
      have "gf_of (of_bool (odd n)) = (if odd n then 1 else 0)" by (simp add: zero_gf163_def one_gf163_def)
      then have "(frob ^^ 163) (gf_of (of_bool (odd n))) = gf_of (of_bool (odd n))" by (cases "odd n") (simp_all only: frob_pow if_True if_False simp_thms)
      then show ?thesis unfolding n using IH gf_of_pow by (simp only: frob_pow)
    qed
  qed
  then show ?thesis by (simp add: x)
qed

section \<open>Counting\<close>

lemma funpow_period_mult: "(f ^^ m) x = x \<Longrightarrow> (f ^^ (m * k)) x = x"
  by (induction k) (simp_all add: funpow_add)

lemma funpow_coprime: "(f ^^ m) x = x \<Longrightarrow> (f ^^ n) x = x \<Longrightarrow> 0 < m \<Longrightarrow> coprime m n \<Longrightarrow> f x = x"
proof -
  assume mn: "(f ^^ m) x = x" "(f ^^ n) x = x" "0 < m" "coprime m n"
  obtain a b where "m * a = n * b + gcd m n" using bezout_nat [of m n] mn(3) by auto
  then have ab: "m * a = 1 + n * b" using mn(4) by (simp add: coprime_iff_gcd_eq_1)
  have "x = (f ^^ (m * a)) x" using mn(1) by (simp add: funpow_period_mult)
  also have "\<dots> = f ((f ^^ (n * b)) x)" unfolding ab by simp
  also have "\<dots> = f x" using mn(2) by (simp add: funpow_period_mult)
  finally show ?thesis by (rule sym)
qed

lemma funpow_back: "(\<And>x. (f ^^ q) x = x) \<Longrightarrow> i \<le> q \<Longrightarrow> (f ^^ (q - i)) ((f ^^ i) x) = x"
proof -
  assume q: "\<And>x. (f ^^ q) x = x" and i: "i \<le> q"
  have "(f ^^ (q - i + i)) x = x" using i q by simp
  then show ?thesis by (simp only: funpow_add o_apply)
qed

lemma orbit_card:
  assumes q: "\<And>x. (f ^^ q) x = x" and co: "\<And>i. 0 < i \<Longrightarrow> i < q \<Longrightarrow> coprime i q" and x: "f x \<noteq> x"
  shows "card ((\<lambda>i. (f ^^ i) x) ` {..<q}) = q"
proof -
  have ne: "(f ^^ i) x \<noteq> (f ^^ j) x" if ij: "i < j" "j < q" for i j
  proof
    assume "(f ^^ i) x = (f ^^ j) x"
    then have "(f ^^ (q - i)) ((f ^^ j) x) = x" using funpow_back [of q f i x] q ij by simp
    moreover have "(f ^^ (q - i)) ((f ^^ j) x) = (f ^^ ((j - i) + q)) x"
      using ij by (simp add: funpow_add [symmetric, THEN fun_cong, unfolded o_apply] add.commute)
    ultimately have "(f ^^ (j - i)) x = x" by (simp add: funpow_add q)
    then show False using funpow_coprime [OF _ q [of x], of "j - i"] co [of "j - i"] x ij by simp
  qed
  have "inj_on (\<lambda>i. (f ^^ i) x) {..<q}" by (rule linorder_inj_onI) (use ne in auto)
  then show ?thesis by (simp add: card_image)
qed

lemma orbit_count:
  assumes q: "\<And>x. (f ^^ q) x = x" "0 < q" and co: "\<And>i. 0 < i \<Longrightarrow> i < q \<Longrightarrow> coprime i q"
  shows "finite S \<Longrightarrow> f ` S \<subseteq> S \<Longrightarrow> card {x \<in> S. f x = x} mod q = card S mod q"
proof (induction S rule: finite_psubset_induct)
  case (psubset S)
  show ?case
  proof (cases "\<exists>x\<in>S. f x \<noteq> x")
    case False
    then have "{x \<in> S. f x = x} = S" by auto
    then show ?thesis by simp
  next
    case True
    then obtain x where x: "x \<in> S" "f x \<noteq> x" by auto
    define R where "R = (\<lambda>i. (f ^^ i) x) ` {..<q}"
    have "(f ^^ i) x \<in> S" for i using x(1) psubset.prems by (induction i) auto
    then have RS: "R \<subseteq> S" by (auto simp: R_def)
    have inj: "f a = f b \<Longrightarrow> a = b" for a b
      using funpow_back [of q f 1 a] funpow_back [of q f 1 b] q by simp
    have mem: "(f ^^ i) x \<in> R" for i
    proof -
      have "(f ^^ i) x = (f ^^ (i mod q + q * (i div q))) x" by simp
      also have "\<dots> = (f ^^ (i mod q)) x" by (simp only: funpow_add o_apply funpow_period_mult [OF q(1)])
      finally show ?thesis using q(2) by (auto simp: R_def)
    qed
    have bk: "f y \<in> R \<Longrightarrow> y \<in> R" for y
    proof -
      assume "f y \<in> R"
      then obtain i where "f y = (f ^^ i) x" by (auto simp: R_def)
      then have "(f ^^ (q - 1)) ((f ^^ 1) y) = (f ^^ (q - 1 + i)) x" by (simp add: funpow_add)
      then show ?thesis using funpow_back [of q f 1 y] q mem [of "q - 1 + i"] by simp
    qed
    have nofix: "f y \<noteq> y" if yR: "y \<in> R" for y
    proof
      assume fy: "f y = y"
      obtain i where i: "y = (f ^^ i) x" "i < q" using yR by (auto simp: R_def)
      have "(f ^^ i) (f x) = (f ^^ i) x" using fy i by (simp add: funpow_swap1)
      moreover have "(f ^^ i) a = (f ^^ i) b \<Longrightarrow> a = b" for a b using inj by (induction i) auto
      ultimately show False using x(2) by blast
    qed
    have "f ` (S - R) \<subseteq> S - R" using psubset.prems bk by auto
    moreover have "S - R \<subset> S" using RS mem [of 0] x(1) by auto
    ultimately have "card {x \<in> S - R. f x = x} mod q = card (S - R) mod q" by (intro psubset.IH)
    moreover have "{x \<in> S - R. f x = x} = {x \<in> S. f x = x}" using nofix by auto
    moreover have "card R = q" unfolding R_def by (rule orbit_card [OF q(1) co x(2)])
    moreover have "card S = card (S - R) + card R"
      using RS psubset.hyps by (metis add.commute card_Diff_subset card_mono finite_subset le_add_diff_inverse)
    ultimately show ?thesis by simp
  qed
qed

text \<open>A set of numbers that is closed under \<open>xor\<close> has a power of two of them.\<close>

lemma xor_closed_card:
  "(0::nat) \<in> H \<Longrightarrow> (\<And>a b. a \<in> H \<Longrightarrow> b \<in> H \<Longrightarrow> xor a b \<in> H) \<Longrightarrow> H \<subseteq> {..<2 ^ n} \<Longrightarrow> \<exists>d\<le>n. card H = 2 ^ d"
proof (induction n arbitrary: H)
  case 0
  then have "H = {0}" by auto
  then show ?case by simp
next
  case (Suc n)
  define L where "L = H \<inter> {..<2 ^ n}"
  have "\<exists>d\<le>n. card L = 2 ^ d" using Suc.prems by (intro Suc.IH) (auto simp: L_def xor_less)
  then obtain d where d: "d \<le> n" "card L = 2 ^ d" by blast
  show ?case
  proof (cases "H \<subseteq> {..<2 ^ n}")
    case True
    then have "H = L" by (auto simp: L_def)
    then show ?thesis using d by auto
  next
    case False
    then obtain h where h: "h \<in> H" "2 ^ n \<le> h" by (metis lessThan_iff not_less subsetI)
    have top: "nbits y = Suc n" if "y \<in> H" "2 ^ n \<le> y" for y
      using that Suc.prems(3) by (intro nbits_unique) auto
    have "H - L = xor h ` L"
    proof (intro set_eqI iffI)
      fix y assume "y \<in> H - L"
      then have y: "y \<in> H" "2 ^ n \<le> y" by (auto simp: L_def)
      then have "xor h y \<in> L" using h Suc.prems(2) xor_top [OF top [OF h] top [OF y]] by (auto simp: L_def)
      moreover have "y = xor h (xor h y)" by (simp add: xor_cancel)
      ultimately show "y \<in> xor h ` L" by blast
    next
      fix y assume "y \<in> xor h ` L"
      then obtain l where l: "y = xor h l" "l \<in> H" "l < 2 ^ n" by (auto simp: L_def)
      have "\<not> y < 2 ^ n"
      proof
        assume "y < 2 ^ n"
        then have "xor l y < 2 ^ n" using l(3) by (intro xor_less)
        moreover have "xor l y = h" using l(1) by (simp add: xor.commute xor.left_commute xor_cancel)
        ultimately show False using h(2) by simp
      qed
      then show "y \<in> H - L" using l h(1) Suc.prems(2) by (auto simp: L_def)
    qed
    moreover have "inj_on (xor h) L" by (rule inj_onI) (metis xor_cancel)
    ultimately have "card (H - L) = 2 ^ d" using d(2) by (simp add: card_image)
    moreover have "finite H" using Suc.prems(3) finite_subset by blast
    ultimately have "card H = 2 ^ Suc d" using d(2) L_def
      by (metis Int_lower1 card_Diff_subset card_mono finite_subset le_add_diff_inverse mult_2 power_Suc)
    then show ?thesis using d(1) by (intro exI [of _ "Suc d"]) simp
  qed
qed

section \<open>The field\<close>

lemma list_all_upt: "list_all P [a..<b] \<Longrightarrow> a \<le> i \<Longrightarrow> i < b \<Longrightarrow> P i"
  by (simp only: list_all_iff set_upt atLeastLessThan_iff Ball_def)

lemma no_divisor_163: "list_all (\<lambda>c. 163 mod c \<noteq> (0::nat)) [2..<163]"
  by simp

fun powers_163 :: "nat \<Rightarrow> nat list \<Rightarrow> bool" where
  "powers_163 r [] = True"
| "powers_163 r (e # es) = (r \<noteq> 1 \<and> powers_163 (2 * r mod 163) es)"

lemma powers_163_upt: "powers_163 (2 ^ a mod 163) [a..<a + k] \<Longrightarrow> list_all (\<lambda>e. (2::nat) ^ e mod 163 \<noteq> 1) [a..<a + k]"
proof (induction k arbitrary: a)
  case (Suc k)
  have u: "[a..<a + Suc k] = a # [Suc a..<Suc a + k]" by (simp add: upt_rec)
  have "2 * (2 ^ a mod 163) mod 163 = (2::nat) ^ Suc a mod 163" by (simp add: mod_mult_right_eq)
  then show ?case using Suc.IH [of "Suc a"] Suc.prems unfolding u by simp
qed simp

lemma order_list_163: "list_all (\<lambda>e. (2::nat) ^ e mod 163 \<noteq> 1) [2..<162]"
proof -
  have "powers_163 (2 ^ 2 mod 163) [2..<2 + 160]" by simp
  then have "list_all (\<lambda>e. (2::nat) ^ e mod 163 \<noteq> 1) [2..<2 + 160]" by (rule powers_163_upt)
  then show ?thesis by (simp only: numeral_plus_numeral semiring_norm)
qed

lemma div_163: "c dvd 163 \<Longrightarrow> c = 1 \<or> c = (163::nat)"
proof (rule ccontr)
  assume c: "c dvd 163" "\<not> (c = 1 \<or> c = 163)"
  then have "c \<le> 163" "0 < c" by (auto intro: dvd_imp_le gr0I)
  then have "2 \<le> c" "c < 163" using c(2) by linarith+
  then have "163 mod c \<noteq> 0" by (rule list_all_upt [OF no_divisor_163])
  then show False using c(1) by (simp add: dvd_eq_mod_eq_0)
qed

lemma coprime_163: "0 < i \<Longrightarrow> i < 163 \<Longrightarrow> coprime i (163::nat)"
proof (rule coprimeI)
  fix c :: nat assume i: "0 < i" "i < 163" and c: "c dvd i" "c dvd 163"
  then have "c \<noteq> 163" using dvd_imp_le [OF c(1)] by auto
  then show "is_unit c" using div_163 [OF c(2)] by simp
qed

lemma order_163: "d \<le> 163 \<Longrightarrow> s \<le> d \<Longrightarrow> 2 ^ d mod 163 = 2 ^ s mod (163::nat) \<Longrightarrow> d = s \<or> d = s + 162"
proof -
  assume d: "d \<le> 163" "s \<le> d" "2 ^ d mod 163 = 2 ^ s mod (163::nat)"
  have "163 dvd 2 ^ d - (2::nat) ^ s" using d(2,3) by (intro mod_eq_dvd_iff_nat [THEN iffD1]) simp_all
  also have "2 ^ d - (2::nat) ^ s = 2 ^ s * (2 ^ (d - s) - 1)"
    using d(2) by (simp add: right_diff_distrib' power_add [symmetric])
  finally have "163 dvd (2::nat) ^ (d - s) - 1"
    using coprime_163 [of 2] by (simp add: coprime_commute coprime_dvd_mult_right_iff)
  then have "(2::nat) ^ (d - s) mod 163 = 1"
    using mod_eq_dvd_iff_nat [of 1 "2 ^ (d - s)" 163] by simp
  moreover have "\<not> (2 \<le> d - s \<and> d - s < 162)" using list_all_upt [OF order_list_163, of "d - s"] calculation by blast
  moreover have "d - s \<noteq> 163 \<and> d - s \<noteq> 1" using calculation(1) by (auto simp del: One_nat_def)
  ultimately show ?thesis using d by linarith
qed

lemma ideal_card: "(0 :: gf163) \<in> H \<Longrightarrow> (\<And>a b. a \<in> H \<Longrightarrow> b \<in> H \<Longrightarrow> a + b \<in> H) \<Longrightarrow> \<exists>d\<le>163. card H = 2 ^ d"
proof -
  assume H: "(0 :: gf163) \<in> H" "\<And>a b. a \<in> H \<Longrightarrow> b \<in> H \<Longrightarrow> a + b \<in> H"
  have "\<exists>d\<le>163. card (gf_val ` H) = 2 ^ d"
  proof (rule xor_closed_card)
    show "0 \<in> gf_val ` H" using H(1) by (metis gf_val_0 image_eqI)
    show "xor a b \<in> gf_val ` H" if "a \<in> gf_val ` H" "b \<in> gf_val ` H" for a b
      using that H(2) by (auto simp: gf_val_plus [symmetric])
    show "gf_val ` H \<subseteq> {..<2 ^ 163}" using gf_val_less by auto
  qed
  moreover have "inj_on gf_val H" by (rule inj_onI) (simp add: gf_val_inject)
  ultimately show ?thesis by (simp add: card_image)
qed

lemma card_gf163: "card (UNIV :: gf163 set) = 2 ^ 163"
  unfolding UNIV_gf163 using card_image [OF inj_on_gf_of] by (simp only: card_lessThan)

lemma unit_x: "gf_of 2 * gf_of 0x40000000000000000000000000000000000000064 = 1"
proof -
  have "clmul 2 0x40000000000000000000000000000000000000064 = 2 * 0x40000000000000000000000000000000000000064"
    using clmul_double [of 1] by (simp only: mult_1_right clmul_1)
  then have "xor (clmul 2 0x40000000000000000000000000000000000000064) 1 = clmul 1 B163"
    by (simp only: clmul_1) (simp add: B163_def)
  then have "pcong B163 (clmul 2 0x40000000000000000000000000000000000000064) 1" unfolding pcong_def by (rule exI)
  then show ?thesis by (simp only: gf_of_clmul [symmetric] one_gf163_def gf_of_eq)
qed

lemma unit_x1: "(gf_of 2 + 1) * gf_of 0x7ffffffffffffffffffffffffffffffffffffffb8 = 1"
proof -
  have "clmul (xor 2 1) 0x7ffffffffffffffffffffffffffffffffffffffb8
    = xor (2 * 0x7ffffffffffffffffffffffffffffffffffffffb8) 0x7ffffffffffffffffffffffffffffffffffffffb8"
    using clmul_double [of 1] by (simp only: mult_1_right clmul_1 clmul_xor)
  then have "xor (clmul (xor 2 1) 0x7ffffffffffffffffffffffffffffffffffffffb8) 1 = clmul 1 B163"
    by (simp only: clmul_1) (simp add: B163_def)
  then have "pcong B163 (clmul (xor 2 1) 0x7ffffffffffffffffffffffffffffffffffffffb8) 1" unfolding pcong_def by (rule exI)
  then show ?thesis by (simp only: gf_of_clmul [symmetric] gf_of_xor [symmetric] one_gf163_def gf_of_eq)
qed

lemma gf_cancel: "u * w = 1 \<Longrightarrow> u * a = 0 \<Longrightarrow> a = (0::gf163)"
  by (metis mult.commute mult.left_commute mult_1_right mult_zero_right)

text \<open>An ideal that the square map leaves as it is has no other size than one and all.\<close>

lemma ideal_all:
  assumes a: "a \<noteq> (0::gf163)"
  shows "range ((*) a) = UNIV"
proof -
  define H where "H = range ((*) a)"
  have H0: "0 \<in> H" unfolding H_def by (rule image_eqI [of _ _ 0]) simp_all
  have Hadd: "x + y \<in> H" if "x \<in> H" "y \<in> H" for x y
    using that unfolding H_def by (auto simp: distrib_left [symmetric])
  have Hmul: "x * y \<in> H" if "x \<in> H" for x y
    using that unfolding H_def by (auto simp: mult.assoc)
  have Hfrob: "frob ` H \<subseteq> H" using Hmul by (auto simp: frob_def)
  have one: "H = UNIV" if unit: "u * w = 1" and uH: "u \<in> H" for u w
  proof (intro set_eqI iffI UNIV_I)
    fix x show "x \<in> H" using Hmul [OF uH, of "w * x"] unit by (simp add: mult.assoc [symmetric])
  qed
  obtain d where d: "d \<le> 163" "card H = 2 ^ d" using ideal_card [OF H0 Hadd] by blast
  define K where "K = {x \<in> H. frob x = x}"
  have "0 \<in> K" "\<And>x y. x \<in> K \<Longrightarrow> y \<in> K \<Longrightarrow> x + y \<in> K" using H0 Hadd by (simp_all add: K_def)
  then obtain s where s: "card K = 2 ^ s" using ideal_card by blast
  have "card K \<le> card H" by (intro card_mono) (simp_all add: K_def)
  then have sd: "s \<le> d" using s d(2) by simp
  have "card K mod 163 = card H mod 163" unfolding K_def
    by (rule orbit_count [OF frob_163 _ coprime_163 _ Hfrob]) simp_all
  then have "d = s \<or> d = s + 162" using order_163 [OF d(1) sd] s d(2) by simp
  then have "H = UNIV"
  proof
    assume "d = s"
    then have "K = H" using s d(2) by (intro card_subset_eq) (simp_all add: K_def)
    then have "frob a = a" "frob (a * gf_of 2) = a * gf_of 2" unfolding K_def H_def by (metis (mono_tags) mem_Collect_eq mult_1_right rangeI)+
    then have "a * (gf_of 2 * gf_of 2) = a * gf_of 2" by (simp add: frob_def [of "gf_of 2"])
    then have "gf_of 2 * ((gf_of 2 + 1) * a) = 0" by (simp add: algebra_simps)
    then have "a = 0" using gf_cancel [OF unit_x] gf_cancel [OF unit_x1] by blast
    then show ?thesis using a by blast
  next
    assume "d = s + 162"
    then consider "d = 163" | "d = 162" using d(1) by linarith
    then show ?thesis
    proof cases
      case 1
      then show ?thesis using d(2) card_gf163 by (intro card_subset_eq) simp_all
    next
      case 2
      show ?thesis
      proof (cases "gf_of 2 \<in> H")
        case True
        then show ?thesis by (rule one [OF unit_x])
      next
        case False
        define J where "J = (+) (gf_of 2) ` H"
        have "card J = card H" unfolding J_def by (intro card_image inj_onI) simp
        moreover have "H \<inter> J = {}"
        proof (rule ccontr)
          assume "H \<inter> J \<noteq> {}"
          then obtain h where h: "h \<in> H" "gf_of 2 + h \<in> H" by (auto simp: J_def)
          have "gf_of 2 = h + (gf_of 2 + h)" by (simp add: add.commute add.left_commute)
          then show False using Hadd [OF h] False by simp
        qed
        ultimately have "card (H \<union> J) = 2 ^ 163" using d(2) 2 by (simp add: card_Un_disjoint)
        then have "H \<union> J = UNIV" using card_gf163 by (intro card_subset_eq) simp_all
        then consider "gf_of 2 + 1 \<in> H" | "gf_of 2 + 1 \<in> J" by blast
        then show ?thesis
        proof cases
          case 1
          then show ?thesis by (rule one [OF unit_x1])
        next
          case 2
          then have "1 \<in> H" by (auto simp: J_def)
          then show ?thesis by (rule one [OF mult_1_right])
        qed
      qed
    qed
  qed
  then show ?thesis by (simp add: H_def)
qed

lemma gf_inverse_exists: "a \<noteq> (0::gf163) \<Longrightarrow> \<exists>b. b * a = 1"
  using ideal_all [of a] by (metis mult.commute rangeE UNIV_I)

instantiation gf163 :: field
begin

definition inverse_gf163 :: "gf163 \<Rightarrow> gf163" where
  "inverse_gf163 a = (if a = 0 then 0 else SOME b. b * a = 1)"

definition divide_gf163 :: "gf163 \<Rightarrow> gf163 \<Rightarrow> gf163" where
  "divide_gf163 a b = a * inverse b"

instance
proof
  fix a b :: gf163
  show "a \<noteq> 0 \<Longrightarrow> inverse a * a = 1" using someI_ex [OF gf_inverse_exists, of a] by (simp add: inverse_gf163_def)
  show "a div b = a * inverse b" by (rule divide_gf163_def)
  show "inverse (0::gf163) = 0" by (simp add: inverse_gf163_def)
qed

end

end
