(* ===== verification/Ecc.thy ===== *)
theory Ecc
  imports Prelude
begin

text \<open>
  The key exchange of \<open>src/src/remote/ecc.c\<close>: bit strings of 192 bits in words, the field of polynomials over two elements modulo one of
  degree 163, the points of the curve, the block cipher and the hash that make the key, and the two sides of the exchange.

  The header \<open>pki.h\<close> is made by \<open>pki_gen_keys.c\<close>, which prints the fixed numbers of the curve and a new pair of keys: the
  numbers are definitions here, the keys are arguments, and \<open>ECIES_generate_key_pair\<close> is how they are made. The answers of
  \<open>/dev/urandom\<close> are a list. The inversion does not return for every argument, and is a partial function. The routines work in place on
  arrays; where an argument is also the result, the code copies it first, so that values are enough here.
\<close>

unbundle bit_operations_syntax

section \<open>The block cipher\<close>

type_synonym word32 = "32 word"

definition CHARS2INT :: "byte list \<Rightarrow> word32" where
  "CHARS2INT s = word_of_int (be_val (take 4 s))"

definition INT2CHARS :: "word32 \<Rightarrow> byte list" where
  "INT2CHARS w = be_bytes 4 (uint w)"

definition XTEA_init_key :: "byte list \<Rightarrow> word32 list" where
  "XTEA_init_key key = [CHARS2INT key, CHARS2INT (drop 4 key), CHARS2INT (drop 8 key), CHARS2INT (drop 12 key)]"

definition xtea_delta :: word32 where "xtea_delta = 0x9e3779b9"

definition xtea_mix :: "word32 \<Rightarrow> word32" where
  "xtea_mix z = (push_bit 4 z XOR drop_bit 5 z) + z"

definition xtea_round :: "word32 list \<Rightarrow> word32 \<times> word32 \<times> word32 \<Rightarrow> word32 \<times> word32 \<times> word32" where
  "xtea_round k = (\<lambda>(tot, y, z).
     (let y = y + (xtea_mix z XOR (tot + k ! unat (tot AND 3)));
          tot = tot + xtea_delta;
          z = z + (xtea_mix y XOR (tot + k ! unat (drop_bit 11 tot AND 3)))
      in (tot, y, z)))"

definition XTEA_encipher_block :: "word32 list \<Rightarrow> byte list \<Rightarrow> byte list" where
  "XTEA_encipher_block k data =
     (case (xtea_round k ^^ 32) (0, CHARS2INT data, CHARS2INT (drop 4 data)) of
        (tot, y, z) \<Rightarrow> INT2CHARS y @ INT2CHARS z)"

fun davies_meyer_loop :: "nat \<Rightarrow> byte list \<Rightarrow> byte list \<Rightarrow> byte list" where
  "davies_meyer_loop 0 m out = out"
| "davies_meyer_loop (Suc n) m out =
     davies_meyer_loop n (drop 16 m) (map2 (XOR) out (XTEA_encipher_block (XTEA_init_key m) out))"

definition XTEA_davies_meyer :: "byte list \<Rightarrow> nat \<Rightarrow> byte list" where
  "XTEA_davies_meyer m ilen = davies_meyer_loop ilen m (replicate 8 0)"

section \<open>Bit strings\<close>

definition DEGREE :: nat where "DEGREE = 163"
definition MARGIN :: nat where "MARGIN = 3"
definition NUMWORDS :: nat where "NUMWORDS = (DEGREE + MARGIN + 31) div 32"

text \<open>The first word has the lowest bits.\<close>

type_synonym bitstr = "word32 list"

definition bitstr_getbit :: "bitstr \<Rightarrow> nat \<Rightarrow> bool" where
  "bitstr_getbit A idx = bit (A ! (idx div 32)) (idx mod 32)"

definition bitstr_clrbit :: "bitstr \<Rightarrow> nat \<Rightarrow> bitstr" where
  "bitstr_clrbit A idx = A[idx div 32 := A ! (idx div 32) AND NOT (push_bit (idx mod 32) 1)]"

definition bitstr_clear :: bitstr where
  "bitstr_clear = replicate NUMWORDS 0"

definition bitstr_is_clear :: "bitstr \<Rightarrow> bool" where
  "bitstr_is_clear x = list_all (\<lambda>w. w = 0) x"

text \<open>The number of the highest bit, from a word that is not zero, and from the last such word.\<close>

fun top_bit :: "word32 \<Rightarrow> nat \<Rightarrow> nat \<Rightarrow> nat" where
  "top_bit w 0 i = i"
| "top_bit w (Suc n) i = (if bit w (Suc n) then i else top_bit w n (i - 1))"

fun top_word :: "bitstr \<Rightarrow> nat \<Rightarrow> nat" where
  "top_word [] i = 0"
| "top_word (w # ws) i = (if w \<noteq> 0 then top_bit w 31 i else top_word ws (i - 32))"

definition bitstr_sizeinbits :: "bitstr \<Rightarrow> nat" where
  "bitstr_sizeinbits x = top_word (rev x) (32 * NUMWORDS)"

text \<open>A shift by less than a word.\<close>

definition shift_words :: "nat \<Rightarrow> bitstr \<Rightarrow> bitstr" where
  "shift_words n A = map2 (\<lambda>low high. push_bit n high OR drop_bit (32 - n) low) (0 # butlast A) A"

definition bitstr_lshift :: "bitstr \<Rightarrow> nat \<Rightarrow> bitstr" where
  "bitstr_lshift B count =
     (let offs = count div 32;
          A = replicate offs 0 @ take (NUMWORDS - offs) B;
          count = count mod 32
      in if count \<noteq> 0 then shift_words count A else A)"

fun words_be :: "nat \<Rightarrow> byte list \<Rightarrow> word32 list" where
  "words_be 0 s = []"
| "words_be (Suc n) s = CHARS2INT s # words_be n (drop 4 s)"

definition bitstr_import :: "byte list \<Rightarrow> bitstr" where
  "bitstr_import s = rev (words_be NUMWORDS s)"

definition bitstr_export :: "bitstr \<Rightarrow> byte list" where
  "bitstr_export x = concat (map INT2CHARS (rev x))"

section \<open>The field\<close>

definition field_set1 :: bitstr where
  "field_set1 = 1 # replicate (NUMWORDS - 1) 0"

definition field_is1 :: "bitstr \<Rightarrow> bool" where
  "field_is1 x = (hd x = 1 \<and> list_all (\<lambda>w. w = 0) (tl x))"

definition field_add :: "bitstr \<Rightarrow> bitstr \<Rightarrow> bitstr" where
  "field_add x y = map2 (XOR) x y"

definition field_add1 :: "bitstr \<Rightarrow> bitstr" where
  "field_add1 A = A[0 := A ! 0 XOR 1]"

definition field_mult_step :: "bitstr \<Rightarrow> bitstr \<Rightarrow> nat \<Rightarrow> bitstr \<times> bitstr \<Rightarrow> bitstr \<times> bitstr" where
  "field_mult_step poly y i = (\<lambda>(b, z).
     (let b = shift_words 1 b;
          b = (if bitstr_getbit b DEGREE then field_add b poly else b);
          z = (if bitstr_getbit y i then field_add z b else z)
      in (b, z)))"

definition field_mult :: "bitstr \<Rightarrow> bitstr \<Rightarrow> bitstr \<Rightarrow> bitstr" where
  "field_mult poly x y =
     snd (fold (field_mult_step poly y) [1..<DEGREE] (x, if bitstr_getbit y 0 then x else bitstr_clear))"

text \<open>\<open>u\<close> and \<open>v\<close> are what is left of the extended algorithm of Euclid, \<open>z\<close> and \<open>g\<close> their factors.\<close>

partial_function (option) invert_loop :: "bitstr \<Rightarrow> bitstr \<Rightarrow> bitstr \<Rightarrow> bitstr \<Rightarrow> bitstr option" where
  "invert_loop u v g z =
     (if field_is1 u then Some z
      else (let i = int (bitstr_sizeinbits u) - int (bitstr_sizeinbits v)
            in if i < 0
               then invert_loop (field_add v (bitstr_lshift u (nat (- i)))) u z (field_add g (bitstr_lshift z (nat (- i))))
               else invert_loop (field_add u (bitstr_lshift v (nat i))) v g (field_add z (bitstr_lshift g (nat i)))))"

declare invert_loop.simps [code]

definition field_invert :: "bitstr \<Rightarrow> bitstr \<Rightarrow> bitstr option" where
  "field_invert poly x = invert_loop x poly bitstr_clear field_set1"

section \<open>Points\<close>

type_synonym point = "bitstr \<times> bitstr"

definition point_is_zero :: "point \<Rightarrow> bool" where
  "point_is_zero P = (bitstr_is_clear (fst P) \<and> bitstr_is_clear (snd P))"

definition point_zero :: point where
  "point_zero = (bitstr_clear, bitstr_clear)"

definition point_double :: "bitstr \<Rightarrow> point \<Rightarrow> point option" where
  "point_double poly = (\<lambda>(x, y).
     if \<not> bitstr_is_clear x
     then do {
       a \<leftarrow> field_invert poly x;
       let a = field_mult poly a y;
       let a = field_add a x;
       let y = field_mult poly x x;
       let x = field_mult poly a a;
       let a = field_add1 a;
       let x = field_add x a;
       let a = field_mult poly a x;
       let y = field_add y a;
       Some (x, y)
     }
     else Some (x, bitstr_clear))"

definition point_add :: "bitstr \<Rightarrow> point \<Rightarrow> point \<Rightarrow> point option" where
  "point_add poly = (\<lambda>(x1, y1) (x2, y2).
     if \<not> point_is_zero (x2, y2)
     then (if point_is_zero (x1, y1) then Some (x2, y2)
           else if x1 = x2
           then (if y1 = y2 then point_double poly (x1, y1) else Some point_zero)
           else do {
             let a = field_add y1 y2;
             let b = field_add x1 x2;
             c \<leftarrow> field_invert poly b;
             let c = field_mult poly c a;
             let d = field_mult poly c c;
             let d = field_add d c;
             let d = field_add d b;
             let d = field_add1 d;
             let x1 = field_add x1 d;
             let a = field_mult poly x1 c;
             let a = field_add a d;
             let y1 = field_add y1 a;
             Some (d, y1)
           })
     else Some (x1, y1))"

fun point_mult_loop :: "bitstr \<Rightarrow> point \<Rightarrow> bitstr \<Rightarrow> nat \<Rightarrow> point \<Rightarrow> point option" where
  "point_mult_loop poly P e 0 Q = Some Q"
| "point_mult_loop poly P e (Suc i) Q = do {
     Q \<leftarrow> point_double poly Q;
     Q \<leftarrow> (if bitstr_getbit e i then point_add poly Q P else Some Q);
     point_mult_loop poly P e i Q
   }"

definition point_mult :: "bitstr \<Rightarrow> point \<Rightarrow> bitstr \<Rightarrow> point option" where
  "point_mult poly P e = point_mult_loop poly P e (bitstr_sizeinbits e) point_zero"

section \<open>The exchange\<close>

text \<open>The fixed numbers of the curve, as \<open>pki_gen_keys.c\<close> prints them, and what \<open>ecc_init\<close> makes of them.\<close>

record curve =
  cv_poly :: bitstr
  cv_coeff_b :: bitstr
  cv_base :: point
  cv_base_order :: bitstr

definition POLY :: "byte list" where
  "POLY = be_bytes 24 0x800000000000000000000000000000000000000c9"

definition COEFF_B :: "byte list" where
  "COEFF_B = be_bytes 24 0x20a601907b8c953ca1481eb10512f78744a3205fd"

definition BASE_X :: "byte list" where
  "BASE_X = be_bytes 24 0x3f0eba16286a2d57ea0991168d4994637e8343e36"

definition BASE_Y :: "byte list" where
  "BASE_Y = be_bytes 24 0x0d51fbc6c71a0094fa2cdd545b11c5c0c797324f1"

definition BASE_ORDER :: "byte list" where
  "BASE_ORDER = be_bytes 24 0x40000000000000000000292fe77e70c12a4234c33"

definition ecc_init :: curve where
  "ecc_init = \<lparr>cv_poly = bitstr_import POLY, cv_coeff_b = bitstr_import COEFF_B, cv_base = (bitstr_import BASE_X, bitstr_import BASE_Y),
     cv_base_order = bitstr_import BASE_ORDER\<rparr>"

text \<open>Random bytes, in blocks that were read to their end. When a read fails the exponent stays what it was, \<open>stack\<close> at first.\<close>

fun get_random_exponent :: "bitstr \<Rightarrow> bitstr \<Rightarrow> byte list option list \<Rightarrow> (bitstr \<times> byte list option list) option" where
  "get_random_exponent order stack [] = None"
| "get_random_exponent order stack (None # bufs) = Some (stack, bufs)"
| "get_random_exponent order stack (Some buf # bufs) =
     (let e = fold (\<lambda>r e. bitstr_clrbit e r) [bitstr_sizeinbits order - 1..<NUMWORDS * 32] (bitstr_import buf)
      in if bitstr_is_clear e then get_random_exponent order e bufs else Some (e, bufs))"

definition ECIES_kdf :: "bitstr \<Rightarrow> bitstr \<Rightarrow> bitstr \<Rightarrow> byte list" where
  "ECIES_kdf Zx Rx Ry =
     (let bufsize = (3 * (4 * NUMWORDS) + 1 + 15) div 16 * 16;
          body = bitstr_export Zx @ bitstr_export Rx @ bitstr_export Ry;
          buf = (\<lambda>b. body @ b # replicate (bufsize - 12 * NUMWORDS - 1) 0)
      in XTEA_davies_meyer (buf 0) (bufsize div 16) @ XTEA_davies_meyer (buf 1) (bufsize div 16))"

definition is_point_on_curve :: "bitstr \<Rightarrow> bitstr \<Rightarrow> point \<Rightarrow> bool" where
  "is_point_on_curve poly coeff_b = (\<lambda>(x, y).
     if point_is_zero (x, y) then True
     else (let a = field_mult poly x x;
               b = field_mult poly a x;
               a = field_add a b;
               a = field_add a coeff_b;
               b = field_mult poly y y;
               a = field_add a b;
               b = field_mult poly x y
           in a = b))"

definition ECIES_embedded_public_key_validation :: "curve \<Rightarrow> point \<Rightarrow> bool" where
  "ECIES_embedded_public_key_validation cv P \<longleftrightarrow>
     \<not> (bitstr_sizeinbits (fst P) > DEGREE \<or> bitstr_sizeinbits (snd P) > DEGREE \<or> point_is_zero P \<or>
        \<not> is_point_on_curve (cv_poly cv) (cv_coeff_b cv) P)"

text \<open>The key and the challenge. A new exponent is drawn as long as the point is zero.\<close>

lemma get_random_exponent_less: "get_random_exponent order stack bufs = Some (e, bufs') \<Longrightarrow> length bufs' < length bufs"
  by (induction order stack bufs rule: get_random_exponent.induct) (auto simp: Let_def split: if_splits)

function ecc_make_key :: "curve \<Rightarrow> byte list \<Rightarrow> byte list \<Rightarrow> bitstr \<Rightarrow> byte list option list \<Rightarrow> (byte list \<times> byte list) option" where
  "ecc_make_key cv Pubx Puby stack bufs =
     (case get_random_exponent (cv_base_order cv) stack bufs of
        None \<Rightarrow> None
      | Some (k, bufs) \<Rightarrow>
          (case Option.bind (point_mult (cv_poly cv) (bitstr_import Pubx, bitstr_import Puby) k) (point_double (cv_poly cv)) of
             None \<Rightarrow> None
           | Some Z \<Rightarrow>
               if point_is_zero Z then ecc_make_key cv Pubx Puby k bufs
               else (case point_mult (cv_poly cv) (cv_base cv) k of
                       None \<Rightarrow> None
                     | Some (Rx, Ry) \<Rightarrow> Some (ECIES_kdf (fst Z) Rx Ry, bitstr_export Rx @ bitstr_export Ry))))"
  by pat_completeness auto
termination
  by (relation "measure (\<lambda>(cv, px, py, stack, bufs). length bufs)") (auto dest: get_random_exponent_less)

declare ecc_make_key.simps [simp del]

text \<open>The other side: \<open>Some None\<close> when the challenge is refused.\<close>

definition ecc_get_key :: "curve \<Rightarrow> byte list \<Rightarrow> byte list \<Rightarrow> byte list option option" where
  "ecc_get_key cv challenge private_key =
     (let R = (bitstr_import challenge, bitstr_import (drop (4 * NUMWORDS) challenge))
      in if \<not> ECIES_embedded_public_key_validation cv R then Some None
         else do {
           Z \<leftarrow> point_mult (cv_poly cv) R (bitstr_import private_key);
           Z \<leftarrow> point_double (cv_poly cv) Z;
           Some (if point_is_zero Z then None else Some (ECIES_kdf (fst Z) (fst R) (snd R)))
         })"

text \<open>The keys, which \<open>pki_gen_keys.c\<close> makes with the same routines. It exits when a read of random bytes fails.\<close>

fun pki_random_exponent :: "bitstr \<Rightarrow> byte list option list \<Rightarrow> (bitstr \<times> byte list option list) option" where
  "pki_random_exponent order [] = None"
| "pki_random_exponent order (None # bufs) = None"
| "pki_random_exponent order (Some buf # bufs) =
     (let e = fold (\<lambda>r e. bitstr_clrbit e r) [bitstr_sizeinbits order - 1..<NUMWORDS * 32] (bitstr_import buf)
      in if bitstr_is_clear e then pki_random_exponent order bufs else Some (e, bufs))"

definition ECIES_generate_key_pair :: "curve \<Rightarrow> byte list option list \<Rightarrow> (byte list \<times> byte list \<times> byte list) option" where
  "ECIES_generate_key_pair cv bufs = do {
     (k, bufs) \<leftarrow> pki_random_exponent (cv_base_order cv) bufs;
     (x, y) \<leftarrow> point_mult (cv_poly cv) (cv_base cv) k;
     Some (bitstr_export x, bitstr_export y, bitstr_export k)
   }"

end
