(* ===== verification/Ecc_Field.thy ===== *)
theory Ecc_Field
  imports Ecc GF163
begin

text \<open>
  What the routines of \<open>ecc.c\<close> on bit strings compute. \<open>bs_val\<close> is the number that a bit string stands for; the lemmas say
  which operation on numbers each routine is, the properties are the product and the inverse of the field.
\<close>

section \<open>Bit strings as numbers\<close>

fun bs_val :: "bitstr \<Rightarrow> nat" where
  "bs_val [] = 0"
| "bs_val (w # ws) = unat w + 2 ^ 32 * bs_val ws"

lemma unat32: "unat (w :: word32) < 2 ^ 32"
  using unsigned_less [of w] by simp

lemma bit_split32: "bit (unat (w :: word32) + 2 ^ 32 * v) i = (if i < 32 then bit w i else bit v (i - 32))"
proof (cases "i < 32")
  case True
  have "take_bit 32 (unat w + 2 ^ 32 * v) = unat w" using unat32 [of w] by (simp only: take_bit_eq_mod mod_mult_self2 mod_less)
  then have "bit (unat w + 2 ^ 32 * v) i = bit (unat w) i" using True by (metis bit_take_bit_iff)
  then show ?thesis using True by (simp add: bit_unsigned_iff)
next
  case False
  have "drop_bit 32 (unat w + 2 ^ 32 * v) = v" using unat32 [of w] by (simp only: drop_bit_eq_div div_mult_self2) simp
  then have "bit v (i - 32) = bit (drop_bit 32 (unat w + 2 ^ 32 * v)) (i - 32)" by (simp only:)
  then show ?thesis using False by (simp only: bit_drop_bit_eq o_apply if_False) simp
qed

lemma bit_bs_val: "bit (bs_val ws) i \<longleftrightarrow> i div 32 < length ws \<and> bit (ws ! (i div 32)) (i mod 32)"
proof (induction ws arbitrary: i)
  case (Cons w ws)
  show ?case
  proof (cases "i < 32")
    case True
    then show ?thesis by (simp only: bs_val.simps bit_split32) simp
  next
    case False
    then have "i div 32 = Suc ((i - 32) div 32)" "(i - 32) mod 32 = i mod 32" by (simp_all add: le_div_geq le_mod_geq)
    then show ?thesis using False by (simp only: bs_val.simps bit_split32 Cons) simp
  qed
qed simp

lemma bs_val_less: "bs_val ws < 2 ^ (32 * length ws)"
proof -
  have "take_bit (32 * length ws) (bs_val ws) = bs_val ws"
    by (rule bit_eqI) (auto simp: bit_take_bit_iff bit_bs_val less_mult_imp_div_less div_less_iff_less_mult mult.commute)
  then show ?thesis by (metis take_bit_nat_less_exp)
qed

lemma bs_val_eqI: "(\<And>i. i < 32 * length ws \<Longrightarrow> bit (bs_val ws) i = bit n i) \<Longrightarrow> n < 2 ^ (32 * length ws) \<Longrightarrow> bs_val ws = n"
proof -
  assume b: "\<And>i. i < 32 * length ws \<Longrightarrow> bit (bs_val ws) i = bit n i" and n: "n < 2 ^ (32 * length ws)"
  have "take_bit (32 * length ws) (bs_val ws) = take_bit (32 * length ws) n"
    by (rule bit_eqI) (auto simp: bit_take_bit_iff b)
  then show ?thesis using n bs_val_less [of ws] by (simp add: take_bit_nat_eq_self)
qed

lemma radix_eq: "a < k \<Longrightarrow> c < k \<Longrightarrow> a + k * b = c + k * d \<longleftrightarrow> a = c \<and> b = (d::nat)"
proof -
  assume k: "a < k" "c < k"
  have "(a + k * b) div k = b" "(c + k * d) div k = d" using k by simp_all
  then show ?thesis by auto
qed

lemma bs_val_inj: "length xs = length ys \<Longrightarrow> bs_val xs = bs_val ys \<longleftrightarrow> xs = ys"
proof (induction xs ys rule: list_induct2)
  case (Cons x xs y ys)
  show ?case unfolding bs_val.simps radix_eq [OF unat32 unat32] using Cons by (auto intro: unsigned_word_eqI)
qed simp

lemma bs_val_eq_0: "bs_val ws = 0 \<longleftrightarrow> list_all (\<lambda>w. w = 0) ws"
  by (induction ws) (auto simp: unsigned_eq_0_iff)

lemma bs_val_replicate [simp]: "bs_val (replicate n 0) = 0"
  by (simp add: bs_val_eq_0 list_all_iff)

section \<open>The routines on bit strings\<close>

definition is_bitstr :: "bitstr \<Rightarrow> bool" where
  "is_bitstr x \<longleftrightarrow> length x = NUMWORDS"

lemma NUMWORDS_6: "NUMWORDS = 6"
  by (simp add: NUMWORDS_def DEGREE_def MARGIN_def)

lemma bs_val_192: "is_bitstr x \<Longrightarrow> bs_val x < 2 ^ 192"
  using bs_val_less [of x] by (simp add: is_bitstr_def NUMWORDS_6)

lemma bs_inj: "is_bitstr x \<Longrightarrow> is_bitstr y \<Longrightarrow> bs_val x = bs_val y \<longleftrightarrow> x = y"
  by (simp add: is_bitstr_def bs_val_inj)

lemma clear_val [simp]: "is_bitstr bitstr_clear" "bs_val bitstr_clear = 0"
  by (simp_all add: bitstr_clear_def is_bitstr_def)

lemma set1_val [simp]: "is_bitstr field_set1" "bs_val field_set1 = 1"
  by (simp_all add: field_set1_def is_bitstr_def NUMWORDS_6)

lemma is_clear_val: "bitstr_is_clear x \<longleftrightarrow> bs_val x = 0"
  by (simp add: bitstr_is_clear_def bs_val_eq_0)

lemma is1_val: "is_bitstr x \<Longrightarrow> field_is1 x \<longleftrightarrow> bs_val x = 1"
proof -
  assume x: "is_bitstr x"
  then obtain w ws where ws: "x = w # ws" by (cases x) (auto simp: is_bitstr_def NUMWORDS_6)
  have "unat w + 2 ^ 32 * bs_val ws = 1 \<longleftrightarrow> unat w = 1 \<and> bs_val ws = 0" using radix_eq [OF unat32, of 1 w "bs_val ws" 0] by simp
  moreover have "unat w = 1 \<longleftrightarrow> w = 1" by (metis unsigned_1 unsigned_word_eqI)
  ultimately show ?thesis by (simp only: ws bs_val.simps field_is1_def list.sel bs_val_eq_0)
qed

lemma add_bitstr [simp]: "is_bitstr x \<Longrightarrow> is_bitstr y \<Longrightarrow> is_bitstr (field_add x y)"
  by (simp add: is_bitstr_def field_add_def)

lemma add_val: "is_bitstr x \<Longrightarrow> is_bitstr y \<Longrightarrow> bs_val (field_add x y) = xor (bs_val x) (bs_val y)"
proof (rule bs_val_eqI)
  assume xy: "is_bitstr x" "is_bitstr y"
  then have l: "length (field_add x y) = 6" "length x = 6" "length y = 6" by (simp_all add: is_bitstr_def NUMWORDS_6 field_add_def)
  show "xor (bs_val x) (bs_val y) < 2 ^ (32 * length (field_add x y))"
    using xor_less [OF bs_val_192 bs_val_192, of x y] xy l by simp
  fix i assume "i < 32 * length (field_add x y)"
  then have "i div 32 < 6" using l by (simp add: div_less_iff_less_mult)
  then show "bit (bs_val (field_add x y)) i = bit (xor (bs_val x) (bs_val y)) i"
    using l by (simp add: bit_bs_val bit_xor_iff field_add_def)
qed

lemma add1_val: "is_bitstr x \<Longrightarrow> is_bitstr (field_add1 x) \<and> bs_val (field_add1 x) = xor (bs_val x) 1"
proof -
  assume x: "is_bitstr x"
  then obtain w ws where ws: "x = w # ws" by (cases x) (auto simp: is_bitstr_def NUMWORDS_6)
  then have "field_add1 x = field_add x field_set1"
    using x by (auto simp: field_add1_def field_add_def field_set1_def is_bitstr_def zip_replicate2 intro!: nth_equalityI)
  then show ?thesis using x by (simp add: add_val)
qed

lemma getbit_val: "is_bitstr x \<Longrightarrow> i < 192 \<Longrightarrow> bitstr_getbit x i \<longleftrightarrow> bit (bs_val x) i"
  by (simp add: bitstr_getbit_def bit_bs_val is_bitstr_def NUMWORDS_6 div_less_iff_less_mult)

lemma length_shift [simp]: "length (shift_words n A) = length A"
  by (cases A) (simp_all add: shift_words_def)

lemma shift_bitstr [simp]: "is_bitstr x \<Longrightarrow> is_bitstr (shift_words n x)"
  by (simp add: is_bitstr_def)

lemma shift_bit: "0 < n \<Longrightarrow> n < 32 \<Longrightarrow> i < 32 * length A \<Longrightarrow>
  bit (bs_val (shift_words n A)) i \<longleftrightarrow> n \<le> i \<and> bit (bs_val A) (i - n)"
proof -
  assume n: "0 < n" "n < 32" and i: "i < 32 * length A"
  define q r where "q = i div 32" and "r = i mod 32"
  have q: "q < length A" using i by (simp add: q_def div_less_iff_less_mult mult.commute)
  have r: "r < 32" by (simp add: r_def)
  have iqr: "i = 32 * q + r" by (simp add: q_def r_def)
  have "bit (bs_val (shift_words n A)) i \<longleftrightarrow> bit (shift_words n A ! q) r" using q by (simp add: bit_bs_val q_def r_def)
  also have "shift_words n A ! q = push_bit n (A ! q) OR drop_bit (32 - n) ((0 # butlast A) ! q)"
  proof -
    have "length (0 # butlast A) = length A" using q by simp
    then show ?thesis using q unfolding shift_words_def by (subst nth_map) (simp_all add: nth_zip del: butlast.simps)
  qed
  finally have b: "bit (bs_val (shift_words n A)) i \<longleftrightarrow>
    n \<le> r \<and> bit (A ! q) (r - n) \<or> bit ((0 # butlast A) ! q) (32 - n + r)"
    using r by (simp add: bit_or_iff bit_push_bit_iff bit_drop_bit_eq)
  show ?thesis
  proof (cases "n \<le> r")
    case True
    then have "\<not> bit ((0 # butlast A) ! q) (32 - n + r)" by (simp add: bit_word_def not_le impossible_bit)
    moreover have "i - n = 32 * q + (r - n)" "r - n < 32" using True iqr r by simp_all
    then have "(i - n) div 32 = q" "(i - n) mod 32 = r - n" by simp_all
    ultimately show ?thesis using True q b iqr by (simp add: bit_bs_val)
  next
    case False
    show ?thesis
    proof (cases q)
      case 0
      then show ?thesis using False b iqr by simp
    next
      case (Suc p)
      have "(0 # butlast A) ! q = A ! p" using Suc q by (simp add: nth_butlast)
      moreover have "i - n = 32 * p + (32 - n + r)" "32 - n + r < 32" using False Suc iqr n by simp_all
      then have "(i - n) div 32 = p" "(i - n) mod 32 = 32 - n + r" by simp_all
      ultimately show ?thesis using False b q Suc iqr n by (simp add: bit_bs_val)
    qed
  qed
qed

lemma shift_val: "is_bitstr x \<Longrightarrow> 0 < n \<Longrightarrow> n < 32 \<Longrightarrow> bs_val (shift_words n x) = take_bit 192 (push_bit n (bs_val x))"
proof (rule bs_val_eqI)
  assume x: "is_bitstr x" and n: "0 < n" "n < 32"
  have l: "length x = 6" using x by (simp add: is_bitstr_def NUMWORDS_6)
  show "take_bit 192 (push_bit n (bs_val x)) < 2 ^ (32 * length (shift_words n x))"
    using take_bit_nat_less_exp [of 192 "push_bit n (bs_val x)"] l by simp
  fix i assume "i < 32 * length (shift_words n x)"
  then have i: "i < 32 * length x" by simp
  show "bit (bs_val (shift_words n x)) i = bit (take_bit 192 (push_bit n (bs_val x))) i"
    using i l by (simp only: shift_bit [OF n i] bit_take_bit_iff bit_push_bit_iff) auto
qed

lemma top_bit_val: "bit w m \<Longrightarrow> m \<le> n \<Longrightarrow> (\<And>j. m < j \<Longrightarrow> j \<le> n \<Longrightarrow> \<not> bit w j) \<Longrightarrow> top_bit w n (n + k) = m + k"
proof (induction n arbitrary: k)
  case (Suc n)
  show ?case
  proof (cases "m = Suc n")
    case False
    then have "\<not> bit w (Suc n)" "m \<le> n" using Suc.prems by simp_all
    then show ?thesis using Suc.IH [of k] Suc.prems by simp
  qed (use Suc.prems in simp)
qed simp

lemma nbits_top: "bit n m \<Longrightarrow> (\<And>j. m < j \<Longrightarrow> \<not> bit n j) \<Longrightarrow> nbits n = Suc m"
proof (rule nbits_unique)
  assume b: "bit n m" "\<And>j. m < j \<Longrightarrow> \<not> bit n j"
  have "take_bit (Suc m) n = n" by (rule bit_eqI) (metis b(2) bit_take_bit_iff not_less_eq)
  then show "n < 2 ^ Suc m" by (metis take_bit_nat_less_exp)
  show "2 ^ m \<le> n"
  proof (rule ccontr)
    assume "\<not> 2 ^ m \<le> n"
    then have "take_bit m n = n" by (simp add: take_bit_nat_eq_self)
    then show False using b(1) by (metis bit_take_bit_iff less_irrefl)
  qed
qed

lemma top_bit_nbits: "w \<noteq> 0 \<Longrightarrow> top_bit w 31 (32 + k) = nbits (unat (w :: word32)) + k"
proof -
  assume w: "w \<noteq> 0"
  then have u: "0 < unat w" by (simp add: unat_gt_0)
  then obtain m where m: "nbits (unat w) = Suc m" by (cases "nbits (unat w)") simp_all
  have le: "2 ^ m \<le> unat w" "unat w < 2 ^ Suc m" using nbits_bounds [OF u] m by simp_all
  have "nbits (unat w) \<le> 32" using unat32 [of w] by (simp only: nbits_le)
  moreover have "bit w m" using bit_top [OF le] by (simp add: bit_unsigned_iff)
  moreover have "\<not> bit w j" if "m < j" for j
  proof -
    have "take_bit (Suc m) (unat w) = unat w" using le(2) by (simp add: take_bit_nat_eq_self)
    then have "\<not> bit (unat w) j" using that by (metis bit_take_bit_iff not_less_eq)
    then show ?thesis by (simp add: bit_unsigned_iff)
  qed
  ultimately have "top_bit w 31 (31 + Suc k) = m + Suc k" using m by (intro top_bit_val) simp_all
  then show ?thesis using m by simp
qed

lemma bs_val_append: "bs_val (xs @ ys) = bs_val xs + 2 ^ (32 * length xs) * bs_val ys"
  by (induction xs) (simp_all add: power_add algebra_simps)

lemma top_word_val: "top_word (rev ws) (32 * length ws) = nbits (bs_val ws)"
proof (induction ws rule: rev_induct)
  case (snoc w ws)
  show ?case
  proof (cases "w = 0")
    case True
    then show ?thesis using snoc by (simp add: bs_val_append)
  next
    case False
    define m where "m = 32 * length ws"
    have w: "0 < unat w" using False by (simp add: unat_gt_0)
    then obtain k where k: "nbits (unat w) = Suc k" by (cases "nbits (unat w)") simp_all
    then have b: "2 ^ k \<le> unat w" "unat w < 2 ^ Suc k" using nbits_bounds [OF w] by simp_all
    have v: "bs_val ws < 2 ^ m" unfolding m_def by (rule bs_val_less)
    have "2 ^ (m + k) \<le> 2 ^ m * unat w" using b(1) by (simp add: power_add)
    moreover have "2 ^ m * Suc (unat w) \<le> 2 ^ Suc (m + k)" using b(2) by (simp add: power_add mult_le_mono del: mult_Suc_right)
    ultimately have "nbits (bs_val ws + 2 ^ m * unat w) = Suc (m + k)" using v by (intro nbits_unique) simp_all
    then have "nbits (bs_val (ws @ [w])) = Suc (m + k)" by (simp add: bs_val_append m_def)
    moreover have "top_word (rev (ws @ [w])) (32 * length (ws @ [w])) = top_bit w 31 (32 + m)" using False by (simp add: m_def)
    ultimately show ?thesis using top_bit_nbits [OF False, of m] k by simp
  qed
qed simp

lemma sizeinbits_val: "is_bitstr x \<Longrightarrow> bitstr_sizeinbits x = nbits (bs_val x)"
  using top_word_val [of x] by (simp add: bitstr_sizeinbits_def is_bitstr_def)

lemma lshift_val:
  assumes x: "is_bitstr x" and k: "k < 192"
  shows "is_bitstr (bitstr_lshift x k) \<and> bs_val (bitstr_lshift x k) = take_bit 192 (push_bit k (bs_val x))"
proof -
  define q r where "q = k div 32" and "r = k mod 32"
  define A where "A = replicate q 0 @ take (NUMWORDS - q) x"
  have q: "q \<le> 5" using k by (simp add: q_def)
  have lx: "length x = 6" using x by (simp add: is_bitstr_def NUMWORDS_6)
  have A: "is_bitstr A" using q lx by (simp add: A_def is_bitstr_def NUMWORDS_6)
  have "bs_val A = take_bit 192 (push_bit (32 * q) (bs_val x))"
  proof (rule bs_val_eqI)
    have lA: "length A = 6" using A by (simp add: is_bitstr_def NUMWORDS_6)
    then show "take_bit 192 (push_bit (32 * q) (bs_val x)) < 2 ^ (32 * length A)"
      using take_bit_nat_less_exp [of 192 "push_bit (32 * q) (bs_val x)"] by simp
    fix i assume "i < 32 * length A"
    then have i: "i < 192" using lA by simp
    show "bit (bs_val A) i = bit (take_bit 192 (push_bit (32 * q) (bs_val x))) i"
    proof (cases "32 * q \<le> i")
      case True
      then have j: "i div 32 = q + (i - 32 * q) div 32" "i mod 32 = (i - 32 * q) mod 32" by (auto simp: le_iff_add)
      then have "A ! (i div 32) = x ! ((i - 32 * q) div 32)" "i div 32 < 6" "(i - 32 * q) div 32 < 6"
        using i q lx by (auto simp: A_def nth_append NUMWORDS_6)
      then show ?thesis using True i lA lx j by (simp add: bit_bs_val bit_take_bit_iff bit_push_bit_iff)
    next
      case False
      then have "i div 32 < q" by (simp add: div_less_iff_less_mult mult.commute)
      then have "A ! (i div 32) = 0" by (simp add: A_def nth_append)
      then show ?thesis using False by (simp add: bit_bs_val bit_take_bit_iff bit_push_bit_iff)
    qed
  qed
  then have v: "bs_val A = take_bit 192 (push_bit (32 * q) (bs_val x))" .
  have kqr: "k = 32 * q + r" "r < 32" by (simp_all add: q_def r_def)
  have sh: "bitstr_lshift x k = (if r \<noteq> 0 then shift_words r A else A)"
    by (simp add: bitstr_lshift_def Let_def A_def q_def r_def)
  show ?thesis
  proof (cases "r = 0")
    case True
    then show ?thesis using sh A v kqr by simp
  next
    case False
    then have "bs_val (shift_words r A) = take_bit 192 (push_bit r (take_bit 192 (push_bit (32 * q) (bs_val x))))"
      using shift_val [OF A, of r] kqr(2) v by simp
    also have "\<dots> = take_bit 192 (push_bit k (bs_val x))"
      by (rule bit_eqI) (auto simp: bit_take_bit_iff bit_push_bit_iff kqr(1) add.commute [of r])
    finally show ?thesis using sh False A by simp
  qed
qed

lemma lshift_exact: "is_bitstr x \<Longrightarrow> nbits (bs_val x) + k \<le> 192 \<Longrightarrow> k < 192 \<Longrightarrow>
  is_bitstr (bitstr_lshift x k) \<and> bs_val (bitstr_lshift x k) = push_bit k (bs_val x)"
proof -
  assume x: "is_bitstr x" "nbits (bs_val x) + k \<le> 192" "k < 192"
  have "nbits (push_bit k (bs_val x)) \<le> 192" using x(2) nbits_push [of "bs_val x" k] by (cases "bs_val x = 0") simp_all
  then have "push_bit k (bs_val x) < 2 ^ 192" by (simp only: nbits_le)
  then show ?thesis using lshift_val [OF x(1,3)] by (simp only: take_bit_nat_eq_self)
qed

section \<open>The product\<close>

definition felem :: "bitstr \<Rightarrow> bool" where
  "felem x \<longleftrightarrow> is_bitstr x \<and> bs_val x < 2 ^ 163"

definition is_modulus :: "bitstr \<Rightarrow> bool" where
  "is_modulus p \<longleftrightarrow> is_bitstr p \<and> nbits (bs_val p) = 164"

lemma felem_simps [simp]: "felem x \<Longrightarrow> is_bitstr x" "felem bitstr_clear" "felem field_set1"
  "felem x \<Longrightarrow> felem y \<Longrightarrow> felem (field_add x y)" "felem x \<Longrightarrow> felem (field_add1 x)"
proof -
  show "felem x \<Longrightarrow> felem y \<Longrightarrow> felem (field_add x y)"
    using xor_less [of "bs_val x" 163 "bs_val y"] by (auto simp: felem_def add_val)
  show "felem x \<Longrightarrow> felem (field_add1 x)"
    using xor_less [of "bs_val x" 163 1] add1_val [of x] by (auto simp: felem_def)
qed (simp_all add: felem_def)

lemma take_bit_Suc_xor: "take_bit (Suc i) n = xor (take_bit i n) (if bit n i then push_bit i 1 else (0::nat))"
  by (rule bit_eqI) (auto simp: bit_take_bit_iff bit_xor_iff bit_exp_iff less_Suc_eq)

lemma field_mult_step_inv:
  assumes p: "is_modulus p" and y: "is_bitstr y" and i: "0 < i" "i < 163"
    and b: "felem b" "pcong (bs_val p) (bs_val b) (push_bit (i - 1) X)"
    and z: "felem z" "pcong (bs_val p) (bs_val z) (clmul (take_bit i (bs_val y)) X)"
    and step: "field_mult_step p y i (b, z) = (b', z')"
  shows "felem b' \<and> pcong (bs_val p) (bs_val b') (push_bit i X) \<and>
    felem z' \<and> pcong (bs_val p) (bs_val z') (clmul (take_bit (Suc i) (bs_val y)) X)"
proof -
  define c where "c = shift_words 1 b"
  have pb: "is_bitstr p" "nbits (bs_val p) = 164" using p by (simp_all add: is_modulus_def)
  have c: "is_bitstr c" "bs_val c = push_bit 1 (bs_val b)"
  proof -
    have "push_bit 1 (bs_val b) < 2 ^ 192" using b(1) by (simp add: felem_def push_bit_eq_mult)
    then show "bs_val c = push_bit 1 (bs_val b)"
      unfolding c_def using shift_val [of b 1] b(1) by (simp add: take_bit_nat_eq_self)
  qed (use b(1) c_def in simp)
  have c164: "bs_val c < 2 ^ Suc 163" using b(1) by (simp add: c felem_def push_bit_eq_mult)
  have i1: "push_bit 1 (push_bit (i - 1) X) = push_bit i X" using i(1) by (simp add: push_bit_push_bit)
  have cc: "pcong (bs_val p) (bs_val c) (push_bit i X)" unfolding c(2) using pcong_push [OF b(2), of 1] i1 by (simp only:)
  have b': "b' = (if bitstr_getbit c DEGREE then field_add c p else c)"
    and z': "z' = (if bitstr_getbit y i then field_add z b' else z)"
    using step by (auto simp: field_mult_step_def Let_def c_def)
  have bit: "bitstr_getbit c DEGREE \<longleftrightarrow> bit (bs_val c) 163" using c(1) by (simp add: getbit_val DEGREE_def)
  have fb: "felem b' \<and> pcong (bs_val p) (bs_val b') (push_bit i X)"
  proof (cases "bit (bs_val c) 163")
    case True
    have v: "bs_val b' = xor (bs_val c) (bs_val p)" using True b' bit c pb by (simp add: add_val)
    have "2 ^ 163 \<le> bs_val c"
    proof (rule ccontr)
      assume "\<not> 2 ^ 163 \<le> bs_val c"
      then have "take_bit 163 (bs_val c) = bs_val c" by (simp only: not_le take_bit_nat_eq_self)
      then show False using True by (metis bit_take_bit_iff less_irrefl)
    qed
    then have "nbits (bs_val c) = Suc 163" using c164 by (rule nbits_unique)
    then have "bs_val b' < 2 ^ 163" unfolding v using pb(2) by (intro xor_top) simp_all
    moreover have "pcong (bs_val p) (bs_val b') (bs_val c)" using pcong_reduce [of "bs_val p" "bs_val c" 0] by (simp add: v)
    moreover have "is_bitstr b'" using True b' bit c pb by simp
    ultimately show ?thesis using pcong_trans [OF _ cc] by (simp add: felem_def)
  next
    case False
    then have "bs_val c < 2 ^ 163" using xor_bit [OF c164] by blast
    then show ?thesis using False b' bit c(1) cc by (simp add: felem_def)
  qed
  have yb: "bitstr_getbit y i \<longleftrightarrow> bit (bs_val y) i" using y i by (simp add: getbit_val)
  have t: "clmul (take_bit (Suc i) (bs_val y)) X
    = xor (clmul (take_bit i (bs_val y)) X) (if bit (bs_val y) i then push_bit i X else 0)"
    by (cases "bit (bs_val y) i") (simp_all only: take_bit_Suc_xor clmul_xor clmul_push clmul_1 clmul_0 if_True if_False simp_thms)
  show ?thesis
  proof (cases "bit (bs_val y) i")
    case True
    then show ?thesis using z fb z' yb t by (auto simp: add_val intro: pcong_xor)
  next
    case False
    then show ?thesis using z fb z' yb t by simp
  qed
qed

lemma field_mult_fold:
  assumes p: "is_modulus p" and y: "is_bitstr y" and x: "felem x" and z: "z = (if bitstr_getbit y 0 then x else bitstr_clear)"
  shows "k \<le> 162 \<Longrightarrow> fold (field_mult_step p y) [1..<Suc k] (x, z) = (b', z') \<Longrightarrow>
    felem b' \<and> pcong (bs_val p) (bs_val b') (push_bit k (bs_val x)) \<and>
    felem z' \<and> pcong (bs_val p) (bs_val z') (clmul (take_bit (Suc k) (bs_val y)) (bs_val x))"
proof (induction k arbitrary: b' z')
  case 0
  have "take_bit 1 (bs_val y) = (if bitstr_getbit y 0 then 1 else 0)"
    using y by (simp add: getbit_val take_bit_eq_mod mod_2_eq_odd bit_0)
  moreover have "b' = x" "z' = z" using 0 by simp_all
  ultimately show ?case using x z by (cases "bitstr_getbit y 0") simp_all
next
  case (Suc k)
  obtain b1 z1 where f: "fold (field_mult_step p y) [1..<Suc k] (x, z) = (b1, z1)" by fastforce
  then have "field_mult_step p y (Suc k) (b1, z1) = (b', z')" using Suc.prems(2) by simp
  then show ?case using Suc.IH [OF _ f] Suc.prems(1) field_mult_step_inv [OF p y, of "Suc k" b1 "bs_val x" z1 b' z'] by simp
qed

lemma field_mult_elem:
  assumes p: "is_modulus p" and x: "felem x" and y: "felem y"
  shows "felem (field_mult p x y) \<and> bs_val (field_mult p x y) = pmod (clmul (bs_val x) (bs_val y)) (bs_val p)"
proof -
  define z where "z = (if bitstr_getbit y 0 then x else bitstr_clear)"
  obtain b' z' where f: "fold (field_mult_step p y) [1..<Suc 162] (x, z) = (b', z')" by fastforce
  have yb: "is_bitstr y" using y by simp
  have "felem z' \<and> pcong (bs_val p) (bs_val z') (clmul (take_bit (Suc 162) (bs_val y)) (bs_val x))"
    using field_mult_fold [OF p yb x z_def _ f] by simp
  moreover have "take_bit (Suc 162) (bs_val y) = bs_val y" using y by (intro take_bit_nat_eq_self) (simp add: felem_def)
  ultimately have z': "felem z'" "pcong (bs_val p) (bs_val z') (clmul (bs_val x) (bs_val y))"
    by (simp_all only: clmul_commute [of "bs_val y"])
  have "nbits (bs_val z') < nbits (bs_val p)" using z'(1) p nbits_le [of "bs_val z'" 163] by (simp add: felem_def is_modulus_def)
  then have "bs_val z' = pmod (clmul (bs_val x) (bs_val y)) (bs_val p)" using z'(2) by (intro pmod_unique)
  moreover have "field_mult p x y = z'" using f by (simp add: field_mult_def DEGREE_def z_def)
  ultimately show ?thesis using z'(1) by simp
qed

section \<open>The inverse\<close>

text \<open>The invariant of the loop: what is left of the two polynomials has no common factor, each is the product of its factor and the
  argument, and their sizes together do not grow.\<close>

definition einv :: "nat \<Rightarrow> nat \<Rightarrow> bitstr \<Rightarrow> bitstr \<Rightarrow> bitstr \<Rightarrow> bitstr \<Rightarrow> bool" where
  "einv P X u v g z \<longleftrightarrow> is_bitstr u \<and> is_bitstr v \<and> is_bitstr g \<and> is_bitstr z \<and> bs_val u \<noteq> 0 \<and> bs_val v \<noteq> 0 \<and>
     (\<exists>a b. xor (clmul a (bs_val u)) (clmul b (bs_val v)) = 1) \<and>
     nbits (bs_val z) + nbits (bs_val v) \<le> 165 \<and> nbits (bs_val g) + nbits (bs_val u) \<le> 165 \<and>
     nbits (bs_val u) \<le> 164 \<and> nbits (bs_val v) \<le> 164 \<and>
     pcong P (clmul (bs_val z) X) (bs_val u) \<and> pcong P (clmul (bs_val g) X) (bs_val v)"

lemma einv_swap: "einv P X u v g z \<Longrightarrow> einv P X v u z g"
  by (auto simp: einv_def) (metis xor.commute)

lemma nbits_xor_le: "nbits a \<le> k \<Longrightarrow> nbits b \<le> k \<Longrightarrow> nbits (xor a b) \<le> k"
  by (simp add: nbits_le xor_less)

lemma nbits_push_le: "nbits (push_bit k n) \<le> nbits n + k"
  using nbits_push [of n k] by (cases "n = 0") simp_all

lemma one_factor: "clmul b n = 1 \<Longrightarrow> n = 1"
proof -
  assume b: "clmul b n = 1"
  then have "0 < b" "0 < n" by (auto intro: gr0I)
  then have "nbits 1 + 1 = nbits b + nbits n" "nbits b \<noteq> 0" using nbits_clmul [of b n] b by simp_all
  then have "nbits n \<le> 1" by (simp add: nbits_pos)
  then show ?thesis using \<open>0 < n\<close> nbits_le [of n 1] by simp
qed

lemma einv_step:
  assumes inv: "einv P X u v g z" and v1: "bs_val v \<noteq> 1" and le: "nbits (bs_val v) \<le> nbits (bs_val u)"
  defines "i \<equiv> nbits (bs_val u) - nbits (bs_val v)"
  shows "einv P X (field_add u (bitstr_lshift v i)) v g (field_add z (bitstr_lshift g i)) \<and>
    nbits (bs_val (field_add u (bitstr_lshift v i))) < nbits (bs_val u)"
proof -
  have I: "is_bitstr u" "is_bitstr v" "is_bitstr g" "is_bitstr z" "bs_val u \<noteq> 0" "bs_val v \<noteq> 0"
    "nbits (bs_val z) + nbits (bs_val v) \<le> 165" "nbits (bs_val g) + nbits (bs_val u) \<le> 165"
    "nbits (bs_val u) \<le> 164" "nbits (bs_val v) \<le> 164"
    "pcong P (clmul (bs_val z) X) (bs_val u)" "pcong P (clmul (bs_val g) X) (bs_val v)"
    using inv by (simp_all only: einv_def simp_thms)
  have sv: "is_bitstr (bitstr_lshift v i)" "bs_val (bitstr_lshift v i) = push_bit i (bs_val v)"
    using lshift_exact [OF I(2), of i] I(9) le by (simp_all add: i_def)
  have sg: "is_bitstr (bitstr_lshift g i)" "bs_val (bitstr_lshift g i) = push_bit i (bs_val g)"
    using lshift_exact [OF I(3), of i] I(8,9) by (simp_all add: i_def)
  define u' z' where "u' = field_add u (bitstr_lshift v i)" and "z' = field_add z (bitstr_lshift g i)"
  have u': "is_bitstr u'" "bs_val u' = xor (bs_val u) (push_bit i (bs_val v))" using I(1) sv by (simp_all add: u'_def add_val)
  have z': "is_bitstr z'" "bs_val z' = xor (bs_val z) (push_bit i (bs_val g))" using I(4) sg by (simp_all add: z'_def add_val)
  have less: "nbits (bs_val u') < nbits (bs_val u)" unfolding u'(2) i_def using I(6) le by (intro nbits_xor_align) simp_all
  obtain a b where ab: "xor (clmul a (bs_val u)) (clmul b (bs_val v)) = 1" using inv by (auto simp: einv_def)
  define b' where "b' = xor b (push_bit i a)"
  have co: "xor (clmul a (bs_val u')) (clmul b' (bs_val v)) = 1"
    unfolding u'(2) b'_def clmul_xor clmul_xor_right clmul_push clmul_push_right using ab
    by (simp only: xor.assoc xor.commute [of "clmul b (bs_val v)"] xor_cancel)
  have "bs_val u' \<noteq> 0"
  proof
    assume "bs_val u' = 0"
    then have "clmul b' (bs_val v) = 1" using co by simp
    then show False using one_factor v1 by blast
  qed
  moreover have "nbits (bs_val z') + nbits (bs_val v) \<le> 165"
  proof -
    have "nbits (push_bit i (bs_val g)) \<le> 165 - nbits (bs_val v)"
      using nbits_push_le [of i "bs_val g"] I(8) le by (simp add: i_def)
    then have "nbits (bs_val z') \<le> 165 - nbits (bs_val v)" unfolding z'(2) using I(7) by (intro nbits_xor_le) simp_all
    then show ?thesis using I(10) by simp
  qed
  moreover have "pcong P (clmul (bs_val z') X) (bs_val u')"
    unfolding z'(2) u'(2) clmul_xor clmul_push by (intro pcong_xor pcong_push I(11,12))
  ultimately have "einv P X u' v g z'" unfolding einv_def using I u'(1) z'(1) co less by auto
  then show ?thesis using less by (simp add: u'_def z'_def)
qed

lemma invert_loop_inv:
  "einv P X u v g z \<Longrightarrow> bs_val v \<noteq> 1 \<Longrightarrow>
   \<exists>r. invert_loop u v g z = Some r \<and> felem r \<and> pcong P (clmul (bs_val r) X) 1"
proof (induction "nbits (bs_val u) + nbits (bs_val v)" arbitrary: u v g z rule: less_induct)
  case (less u v g z)
  have b: "is_bitstr u" "is_bitstr v" using less.prems(1) by (simp_all add: einv_def)
  show ?case
  proof (cases "bs_val u = 1")
    case True
    have "bs_val v \<noteq> 0" "nbits (bs_val z) + nbits (bs_val v) \<le> 165" using less.prems(1) by (simp_all add: einv_def)
    moreover have "\<not> nbits (bs_val v) \<le> 1" using calculation(1) less.prems(2) by (simp add: nbits_le)
    ultimately have "nbits (bs_val z) \<le> 163" by simp
    then have "felem z" using less.prems(1) by (simp add: felem_def einv_def nbits_le)
    moreover have "invert_loop u v g z = Some z" using True b by (subst invert_loop.simps) (simp add: is1_val)
    ultimately show ?thesis using less.prems(1) True by (auto simp: einv_def)
  next
    case u1: False
    then have n1: "\<not> field_is1 u" using b by (simp add: is1_val)
    define i where "i = int (bitstr_sizeinbits u) - int (bitstr_sizeinbits v)"
    have i: "i = int (nbits (bs_val u)) - int (nbits (bs_val v))" using b by (simp add: i_def sizeinbits_val)
    show ?thesis
    proof (cases "i < 0")
      case True
      then have ni: "nat (- i) = nbits (bs_val v) - nbits (bs_val u)" "nbits (bs_val u) \<le> nbits (bs_val v)" using i by simp_all
      note st = einv_step [OF einv_swap [OF less.prems(1)] u1 ni(2), folded ni(1)]
      have "invert_loop u v g z
        = invert_loop (field_add v (bitstr_lshift u (nat (- i)))) u z (field_add g (bitstr_lshift z (nat (- i))))"
        using n1 True by (subst invert_loop.simps) (simp add: Let_def i_def)
      then show ?thesis using less.hyps [OF _ conjunct1 [OF st] u1] conjunct2 [OF st] by simp
    next
      case False
      then have ni: "nat i = nbits (bs_val u) - nbits (bs_val v)" "nbits (bs_val v) \<le> nbits (bs_val u)" using i by simp_all
      note st = einv_step [OF less.prems(1,2) ni(2), folded ni(1)]
      have "invert_loop u v g z
        = invert_loop (field_add u (bitstr_lshift v (nat i))) v g (field_add z (bitstr_lshift g (nat i)))"
        using n1 False by (subst invert_loop.simps) (simp add: Let_def i_def)
      then show ?thesis using less.hyps [OF _ conjunct1 [OF st] less.prems(2)] conjunct2 [OF st] by simp
    qed
  qed
qed

lemma field_invert_coprime:
  assumes p: "is_modulus p" and x: "felem x" "bs_val x \<noteq> 0" and co: "pcong (bs_val p) (clmul y (bs_val x)) 1"
  shows "\<exists>r. field_invert p x = Some r \<and> felem r \<and> pcong (bs_val p) (clmul (bs_val r) (bs_val x)) 1"
proof -
  obtain q where "xor (clmul y (bs_val x)) 1 = clmul q (bs_val p)" using co by (auto simp: pcong_def)
  then have q: "xor (clmul y (bs_val x)) (clmul q (bs_val p)) = 1"
    by (metis xor_cancel)
  have "nbits (bs_val p) = 164" "is_bitstr p" using p by (simp_all add: is_modulus_def)
  moreover have "nbits (bs_val x) \<le> 163" using x(1) by (simp add: felem_def nbits_le)
  moreover have "pcong (bs_val p) 0 (bs_val p)" unfolding pcong_def by (rule exI [of _ 1]) (simp only: clmul_1 xor.left_neutral)
  moreover have "nbits 1 = 1" by (simp add: nbits_pos)
  moreover have "bs_val p \<noteq> 0" using calculation(1) nbits_eq_0 [of "bs_val p"] by simp
  ultimately have "einv (bs_val p) (bs_val x) x p bitstr_clear field_set1" unfolding einv_def using x q by auto
  moreover have "bs_val p \<noteq> 1" using p by (auto simp: is_modulus_def nbits_pos)
  ultimately show ?thesis unfolding field_invert_def by (rule invert_loop_inv)
qed

text \<open>Of zero the loop never ends: one side is zero and the other the modulus, and they change places.\<close>

definition stuck :: "bitstr \<Rightarrow> bitstr \<Rightarrow> bool" where
  "stuck u v \<longleftrightarrow> is_bitstr u \<and> is_bitstr v \<and> bs_val u \<noteq> 1 \<and> bs_val v \<noteq> 1 \<and> (bs_val u = 0 \<or> bs_val v = 0) \<and>
     nbits (bs_val u) \<le> 164 \<and> nbits (bs_val v) \<le> 164"

lemma stuck_swap: "stuck u v \<Longrightarrow> stuck v u"
  by (auto simp: stuck_def)

lemma stuck_step: "stuck u v \<Longrightarrow> nbits (bs_val v) \<le> nbits (bs_val u) \<Longrightarrow>
  stuck (field_add u (bitstr_lshift v (nbits (bs_val u) - nbits (bs_val v)))) v"
proof -
  assume s: "stuck u v" and le: "nbits (bs_val v) \<le> nbits (bs_val u)"
  then have v: "is_bitstr v" "bs_val v = 0" "nbits (bs_val u) < 192" by (auto simp: stuck_def)
  then have "is_bitstr (bitstr_lshift v (nbits (bs_val u)))" "bs_val (bitstr_lshift v (nbits (bs_val u))) = 0"
    using lshift_val [OF v(1,3)] by simp_all
  then show ?thesis using s v(2) by (simp add: stuck_def add_val)
qed

lemma invert_loop_stuck: "invert_loop u v g z = Some r \<Longrightarrow> \<not> stuck u v"
proof (erule invert_loop.raw_induct [where P = "\<lambda>u v g z r. \<not> stuck u v", rotated])
  fix loop :: "bitstr \<Rightarrow> bitstr \<Rightarrow> bitstr \<Rightarrow> bitstr \<Rightarrow> bitstr option" and u v g z r
  assume IH: "\<And>u v g z r. loop u v g z = Some r \<Longrightarrow> \<not> stuck u v"
  define i where "i = int (bitstr_sizeinbits u) - int (bitstr_sizeinbits v)"
  assume "(if field_is1 u then Some z
      else (let i = int (bitstr_sizeinbits u) - int (bitstr_sizeinbits v)
            in if i < 0
               then loop (field_add v (bitstr_lshift u (nat (- i)))) u z (field_add g (bitstr_lshift z (nat (- i))))
               else loop (field_add u (bitstr_lshift v (nat i))) v g (field_add z (bitstr_lshift g (nat i))))) = Some r"
  then have body: "field_is1 u \<or> (\<exists>g z. loop (field_add v (bitstr_lshift u (nat (- i)))) u g z = Some r \<and> i < 0) \<or>
      (\<exists>g z. loop (field_add u (bitstr_lshift v (nat i))) v g z = Some r \<and> \<not> i < 0)"
    unfolding i_def Let_def by (auto split: if_splits)
  show "\<not> stuck u v"
  proof
    assume s: "stuck u v"
    then have b: "is_bitstr u" "is_bitstr v" and n1: "\<not> field_is1 u" by (auto simp: stuck_def is1_val)
    have i: "i = int (nbits (bs_val u)) - int (nbits (bs_val v))" using b by (simp add: i_def sizeinbits_val)
    from body n1 consider "\<exists>g z. loop (field_add v (bitstr_lshift u (nat (- i)))) u g z = Some r" "i < 0"
      | "\<exists>g z. loop (field_add u (bitstr_lshift v (nat i))) v g z = Some r" "\<not> i < 0" by blast
    then show False
    proof cases
      case 1
      have "nat (- i) = nbits (bs_val v) - nbits (bs_val u)" using i by simp
      then show False using 1 i IH stuck_step [OF stuck_swap [OF s]] by auto
    next
      case 2
      have "nat i = nbits (bs_val u) - nbits (bs_val v)" using i by simp
      then show False using 2 i IH stuck_step [OF s] by auto
    qed
  qed
qed

lemma field_invert_zero: "is_modulus p \<Longrightarrow> field_invert p bitstr_clear = None"
proof -
  assume "is_modulus p"
  then have "stuck bitstr_clear p" by (auto simp: stuck_def is_modulus_def nbits_pos)
  then show ?thesis using invert_loop_stuck unfolding field_invert_def by (metis not_Some_eq)
qed

section \<open>Bytes\<close>

lemma le_val_append: "le_val (xs @ ys) = le_val xs + 256 ^ length xs * le_val ys"
  by (induction xs) (simp_all add: algebra_simps)

lemma be_val_append: "be_val (xs @ ys) = be_val xs * 256 ^ length ys + be_val ys"
  by (simp add: be_val_def le_val_append)

lemma CHARS2INT_val: "4 \<le> length s \<Longrightarrow> int (unat (CHARS2INT s)) = be_val (take 4 s)"
  using be_val_range [of "take 4 s"] by (simp add: CHARS2INT_def uint_word_of_int)

lemma length_words_be [simp]: "length (words_be n s) = n"
  by (induction n arbitrary: s) simp_all

lemma words_be_val: "length s = 4 * n \<Longrightarrow> int (bs_val (rev (words_be n s))) = be_val s"
proof (induction n arbitrary: s)
  case (Suc n)
  have "be_val (take 4 s @ drop 4 s) = be_val (take 4 s) * 256 ^ (4 * n) + be_val (drop 4 s)"
    unfolding be_val_append using Suc.prems by simp
  moreover have "int (unat (CHARS2INT s)) = be_val (take 4 s)" using Suc.prems by (intro CHARS2INT_val) simp
  moreover have "(256::int) ^ (4 * n) = 2 ^ (32 * n)" by (simp add: power_mult)
  moreover have "int (bs_val (rev (words_be n (drop 4 s)))) = be_val (drop 4 s)" using Suc by simp
  ultimately show ?case by (simp add: bs_val_append)
qed (simp add: be_val_def)

lemma import_bitstr [simp]: "is_bitstr (bitstr_import s)"
  by (simp add: is_bitstr_def bitstr_import_def)

lemma import_val: "length s = 24 \<Longrightarrow> bs_val (bitstr_import s) = nat (be_val s)"
  using words_be_val [of s 6] by (simp add: bitstr_import_def NUMWORDS_6)

lemma import_be_bytes: "0 \<le> v \<Longrightarrow> v < 256 ^ 24 \<Longrightarrow> bs_val (bitstr_import (be_bytes 24 v)) = nat v"
  by (simp add: import_val be_val_be_bytes)

lemma words_be_INT2CHARS: "words_be (length ws) (concat (map INT2CHARS ws) @ r) = ws"
proof (induction ws)
  case (Cons w ws)
  have "uint w < 256 ^ 4" using uint_bounded [of w] by simp
  then have "CHARS2INT (INT2CHARS w @ s) = w" for s by (simp add: CHARS2INT_def INT2CHARS_def be_val_be_bytes)
  moreover have "length (INT2CHARS w) = 4" by (simp add: INT2CHARS_def)
  ultimately show ?case using Cons by simp
qed simp

lemma import_export: "is_bitstr x \<Longrightarrow> bitstr_import (bitstr_export x @ r) = x"
  using words_be_INT2CHARS [of "rev x" r] by (simp add: bitstr_import_def bitstr_export_def is_bitstr_def)

lemma length_export: "is_bitstr x \<Longrightarrow> length (bitstr_export x) = 24"
proof -
  have "length (concat (map INT2CHARS ws)) = 4 * length ws" for ws by (induction ws) (simp_all add: INT2CHARS_def)
  then show "is_bitstr x \<Longrightarrow> length (bitstr_export x) = 24" by (simp add: bitstr_export_def is_bitstr_def NUMWORDS_6)
qed

section \<open>The numbers of the curve\<close>

abbreviation ecc_poly :: bitstr where "ecc_poly \<equiv> cv_poly ecc_init"

lemma ecc_poly_val: "is_bitstr ecc_poly" "bs_val ecc_poly = B163"
  by (simp_all add: ecc_init_def POLY_def import_be_bytes B163_def)

lemma ecc_poly_modulus [simp]: "is_modulus ecc_poly"
  by (simp add: is_modulus_def ecc_poly_val)

text \<open>The element of the field that a bit string stands for.\<close>

definition gf :: "bitstr \<Rightarrow> gf163" where
  "gf x = gf_of (bs_val x)"

lemma gf_inj: "felem x \<Longrightarrow> felem y \<Longrightarrow> gf x = gf y \<longleftrightarrow> x = y"
  by (metis bs_inj felem_def gf_def gf_of_small)

lemma gf_clear [simp]: "gf bitstr_clear = 0"
  by (simp add: gf_def zero_gf163_def)

lemma gf_set1 [simp]: "gf field_set1 = 1"
  by (simp add: gf_def one_gf163_def del: One_nat_def)

lemma gf_is_clear: "felem x \<Longrightarrow> bitstr_is_clear x \<longleftrightarrow> gf x = 0"
  by (metis gf_inj felem_simps(2) gf_clear is_clear_val clear_val(2) bs_inj felem_simps(1))

lemma gf_add [simp]: "felem x \<Longrightarrow> felem y \<Longrightarrow> gf (field_add x y) = gf x + gf y"
  by (simp add: gf_def add_val gf_of_xor)

lemma gf_add1 [simp]: "felem x \<Longrightarrow> gf (field_add1 x) = gf x + 1"
  using add1_val [of x] by (simp add: gf_def gf_of_xor one_gf163_def del: One_nat_def)

lemma felem_mult [simp]: "felem x \<Longrightarrow> felem y \<Longrightarrow> felem (field_mult ecc_poly x y)"
  using field_mult_elem [OF ecc_poly_modulus] by blast

lemma gf_mult [simp]: "felem x \<Longrightarrow> felem y \<Longrightarrow> gf (field_mult ecc_poly x y) = gf x * gf y"
  using field_mult_elem [OF ecc_poly_modulus, of x y] by (simp add: gf_def ecc_poly_val gf_of_clmul)

lemma gf_invert: "felem x \<Longrightarrow> gf x \<noteq> 0 \<Longrightarrow> \<exists>r. field_invert ecc_poly x = Some r \<and> felem r \<and> gf r = inverse (gf x)"
proof -
  assume x: "felem x" "gf x \<noteq> 0"
  define y where "y = gf_val (inverse (gf x))"
  have cong: "pcong B163 (clmul a (bs_val x)) 1 \<longleftrightarrow> gf_of a * gf x = 1" for a
    by (simp only: gf_def gf_of_clmul [symmetric] one_gf163_def gf_of_eq)
  have "pcong B163 (clmul y (bs_val x)) 1" unfolding cong y_def using x(2) by simp
  moreover have "bs_val x \<noteq> 0" using x by (simp add: gf_is_clear [symmetric] is_clear_val)
  ultimately obtain r where r: "field_invert ecc_poly x = Some r" "felem r" "pcong B163 (clmul (bs_val r) (bs_val x)) 1"
    using field_invert_coprime [OF ecc_poly_modulus x(1), of y] by (auto simp: ecc_poly_val)
  then have "gf r * gf x = 1" using cong [of "bs_val r"] by (simp add: gf_def)
  then have "gf r = inverse (gf x)" using x(2) by (simp add: field_simps)
  then show ?thesis using r by blast
qed

text \<open>C22 (multiplication). The product of two elements is their product as polynomials over two elements, reduced by the polynomial of the curve.
  The reference multiplies first and divides then, where the routine shifts and reduces bit by bit in six words.\<close>

theorem field_mult_product:
  assumes "felem x" "felem y"
  shows "felem (field_mult (cv_poly ecc_init) x y) \<and>
    bs_val (field_mult (cv_poly ecc_init) x y)
      = pmod (clmul (bs_val x) (bs_val y)) 0x800000000000000000000000000000000000000c9"
  using field_mult_elem [OF ecc_poly_modulus assms] ecc_poly_val(2) by (simp only: B163_def simp_thms)

theorem field_mult_product_witness:
  "felem (field_mult (cv_poly ecc_init) (bitstr_import BASE_X) (bitstr_import BASE_Y)) \<and>
    bs_val (field_mult (cv_poly ecc_init) (bitstr_import BASE_X) (bitstr_import BASE_Y))
      = pmod (clmul 0x3f0eba16286a2d57ea0991168d4994637e8343e36 0x0d51fbc6c71a0094fa2cdd545b11c5c0c797324f1)
          0x800000000000000000000000000000000000000c9"
proof -
  have x: "bs_val (bitstr_import BASE_X) = 0x3f0eba16286a2d57ea0991168d4994637e8343e36"
    by (simp add: BASE_X_def import_be_bytes)
  have y: "bs_val (bitstr_import BASE_Y) = 0x0d51fbc6c71a0094fa2cdd545b11c5c0c797324f1"
    by (simp add: BASE_Y_def import_be_bytes)
  have "felem (bitstr_import BASE_X)" "felem (bitstr_import BASE_Y)" by (simp_all add: felem_def x y)
  from field_mult_product [OF this] show ?thesis by (simp only: x y)
qed

text \<open>C11 (inversion). The inversion returns for every element but zero, and what it returns is the inverse: their product is one. For zero it
  does not return.\<close>

theorem field_invert_inverse:
  assumes "felem x"
  shows "(case field_invert (cv_poly ecc_init) x of
      Some r \<Rightarrow> x \<noteq> bitstr_clear \<and> felem r \<and> field_mult (cv_poly ecc_init) r x = field_set1
    | None \<Rightarrow> x = bitstr_clear)"
proof (cases "gf x = 0")
  case True
  then have "x = bitstr_clear" using assms gf_inj [of x bitstr_clear] by simp
  then show ?thesis using field_invert_zero [OF ecc_poly_modulus] by simp
next
  case False
  then obtain r where r: "field_invert ecc_poly x = Some r" "felem r" "gf r = inverse (gf x)" using gf_invert assms by blast
  then have "gf (field_mult ecc_poly r x) = gf field_set1" using assms False by simp
  then have "field_mult ecc_poly r x = field_set1" using r(2) assms by (simp only: gf_inj felem_mult felem_simps)
  then show ?thesis using r False by auto
qed

theorem field_invert_inverse_witness:
  "case field_invert (cv_poly ecc_init) (bitstr_import BASE_X) of
      Some r \<Rightarrow> felem r \<and> field_mult (cv_poly ecc_init) r (bitstr_import BASE_X) = field_set1
    | None \<Rightarrow> False"
proof -
  have x: "bs_val (bitstr_import BASE_X) = 0x3f0eba16286a2d57ea0991168d4994637e8343e36"
    by (simp add: BASE_X_def import_be_bytes)
  then have "felem (bitstr_import BASE_X)" "bitstr_import BASE_X \<noteq> bitstr_clear" by (auto simp: felem_def)
  with field_invert_inverse [of "bitstr_import BASE_X"] show ?thesis by (auto split: option.splits)
qed

end
