(* ===== verification/Ecc_Curve.thy ===== *)
theory Ecc_Curve
  imports Ecc_Field
begin

text \<open>
  The curve of \<open>ecc.c\<close> with its addition of points, stated in the field and with a point at infinity of its own, and the proof that the addition
  is a group. The chord and the tangent are treated as one: \<open>sec\<close> is the equation that the slope of either satisfies.
\<close>

section \<open>The curve\<close>

datatype ec_point = Infinity | Affine gf163 gf163

definition ec_b :: gf163 where
  "ec_b = gf (cv_coeff_b ecc_init)"

fun on_curve :: "ec_point \<Rightarrow> bool" where
  "on_curve Infinity = True"
| "on_curve (Affine x y) \<longleftrightarrow> y * y + x * y = x * x * x + x * x + ec_b"

fun ec_double :: "ec_point \<Rightarrow> ec_point" where
  "ec_double Infinity = Infinity"
| "ec_double (Affine x y) =
     (if x = 0 then Infinity
      else (let l = x + y / x; x' = l * l + l + 1 in Affine x' (x * x + (l + 1) * x')))"

fun ec_add :: "ec_point \<Rightarrow> ec_point \<Rightarrow> ec_point" where
  "ec_add P Infinity = P"
| "ec_add Infinity Q = Q"
| "ec_add (Affine x1 y1) (Affine x2 y2) =
     (if x1 = x2 then (if y1 = y2 then ec_double (Affine x1 y1) else Infinity)
      else (let l = (y1 + y2) / (x1 + x2); x' = l * l + l + x1 + x2 + 1 in Affine x' (l * (x1 + x') + x' + y1)))"

fun ec_times :: "nat \<Rightarrow> ec_point \<Rightarrow> ec_point" where
  "ec_times n P =
     (if n = 0 then Infinity
      else (let Q = ec_double (ec_times (n div 2) P) in if odd n then ec_add Q P else Q))"

declare ec_times.simps [simp del]

lemma ec_b_val: "felem (cv_coeff_b ecc_init)" "ec_b \<noteq> 0"
proof -
  have "bs_val (cv_coeff_b ecc_init) = 0x20a601907b8c953ca1481eb10512f78744a3205fd"
    by (simp add: ecc_init_def COEFF_B_def import_be_bytes)
  then show f: "felem (cv_coeff_b ecc_init)" and "ec_b \<noteq> 0"
    by (auto simp: felem_def ecc_init_def ec_b_def gf_is_clear [symmetric] is_clear_val)
qed

lemma ec_add_Infinity [simp]: "ec_add Infinity Q = Q"
  by (cases Q) simp_all

lemma gf_cancel3 [simp]: "a + (b + (a + c)) = b + (c :: gf163)" "a + (b + a) = b"
  by (simp_all add: add.left_commute add.commute [of b])

lemma gf_sum_zero: "a + b = 0 \<longleftrightarrow> a = (b :: gf163)"
  by (metis gf_add_cancel add_0_right gf_char)

lemma on_curve_double: "on_curve P \<Longrightarrow> on_curve (ec_double P)"
proof (cases P)
  case (Affine x y)
  assume P: "on_curve P"
  show ?thesis
  proof (cases "x = 0")
    case False
    define l where "l = x + y / x"
    define X where "X = l * l + l + 1"
    have y: "y = (l + x) * x" using False by (simp add: l_def field_simps)
    have b: "ec_b = x * x * X + x * x * x * x"
    proof -
      have "ec_b = y * y + x * y + x * x * x + x * x"
        using P Affine by (simp add: add.assoc add.left_commute)
      then show ?thesis unfolding y X_def by (simp add: algebra_simps)
    qed
    have l: "l * l + l = X + 1" by (simp add: X_def add.assoc)
    have "on_curve (Affine X (x * x + (l + 1) * X))"
      unfolding on_curve.simps b by (simp add: X_def algebra_simps)
    then show ?thesis using Affine False by (simp add: Let_def l_def X_def)
  qed (use Affine in simp)
qed simp

text \<open>The chord: the difference of the equations of two points is a multiple of the difference of their abscissas.\<close>

lemma chord:
  assumes d: "d \<noteq> 0"
    and P: "y * y + x * y = x * x * x + x * x + ec_b"
    and Q: "(y + l * d) * (y + l * d) + (x + d) * (y + l * d) = (x + d) * (x + d) * (x + d) + (x + d) * (x + d) + ec_b"
  shows "l * l * d + l * d + d * d + d = l * x + y + x * x + (x * d :: gf163)"
proof -
  have "d * (l * l * d + l * d + d * d + d + (l * x + y + x * x + x * d)) =
    ((y + l * d) * (y + l * d) + (x + d) * (y + l * d) + ((x + d) * (x + d) * (x + d) + (x + d) * (x + d) + ec_b)) +
    (y * y + x * y + (x * x * x + x * x + ec_b))"
    by (simp add: algebra_simps)
  also have "\<dots> = 0" using P Q by (simp only: gf_char add_0_left)
  finally show ?thesis using d by (simp add: gf_sum_zero)
qed

lemma on_curve_chord:
  assumes P: "y * y + x * y = x * x * x + x * x + ec_b"
    and c: "l * l * d + l * d + d * d + d = l * x + y + x * x + (x * d :: gf163)"
  defines "X \<equiv> l * l + l + d + 1"
  shows "on_curve (Affine X (l * (x + X) + X + y))"
proof -
  define Y where "Y = l * (x + X) + X + y"
  have b: "ec_b = y * y + x * y + x * x * x + x * x" using P by (simp add: add.assoc add.left_commute)
  have "Y * Y + X * Y + (X * X * X + X * X + ec_b)
    = l * l * x * x + X * (l * x + y) + X * X * d + x * y + x * x * x + x * x + X * X * (l * l + l + d + 1 + X)"
    unfolding Y_def b by (simp add: algebra_simps)
  also have "l * l + l + d + 1 + X = 0" by (simp add: X_def)
  also have "l * l * x * x + X * (l * x + y) + X * X * d + x * y + x * x * x + x * x + X * X * 0
    = l * l * x * x + X * (l * x + y + X * d) + x * y + x * x * x + x * x" by (simp add: algebra_simps)
  also have "l * x + y + X * d = x * x + x * d"
  proof -
    have "X * d = l * l * d + l * d + d * d + d" by (simp add: X_def algebra_simps)
    then show ?thesis using c by (simp add: add.assoc add.left_commute)
  qed
  also have "l * l * x * x + X * (x * x + x * d) + x * y + x * x * x + x * x = x * (l * x + y + X * d + (x * x + x * d))"
    by (simp add: X_def algebra_simps)
  also have "l * x + y + X * d = x * x + x * d"
  proof -
    have "X * d = l * l * d + l * d + d * d + d" by (simp add: X_def algebra_simps)
    then show ?thesis using c by (simp add: add.assoc add.left_commute)
  qed
  also have "x * (x * x + x * d + (x * x + x * d)) = 0" by simp
  finally show ?thesis by (simp add: Y_def gf_sum_zero)
qed

lemma on_curve_add: "on_curve P \<Longrightarrow> on_curve Q \<Longrightarrow> on_curve (ec_add P Q)"
proof (cases "P = Infinity \<or> Q = Infinity")
  case False
  then obtain x1 y1 x2 y2 where pq: "P = Affine x1 y1" "Q = Affine x2 y2" by (metis ec_point.exhaust)
  assume on: "on_curve P" "on_curve Q"
  show ?thesis
  proof (cases "x1 = x2")
    case True
    have "on_curve (ec_double (Affine x1 y1))" using on(1) pq by (intro on_curve_double) simp
    then show ?thesis using pq True by (auto simp del: ec_double.simps)
  next
    case False
    define d l where "d = x1 + x2" and "l = (y1 + y2) / d"
    have d: "d \<noteq> 0" using False by (simp add: d_def gf_sum_zero)
    have x2: "x2 = x1 + d" by (simp add: d_def)
    have "l * d = y1 + y2" using d by (simp add: l_def)
    then have y2: "y2 = y1 + l * d" by simp
    have "y1 * y1 + x1 * y1 = x1 * x1 * x1 + x1 * x1 + ec_b" using on(1) pq by simp
    note P = this
    have Q: "(y1 + l * d) * (y1 + l * d) + (x1 + d) * (y1 + l * d)
      = (x1 + d) * (x1 + d) * (x1 + d) + (x1 + d) * (x1 + d) + ec_b" using on(2) pq x2 y2 by simp
    have "on_curve (Affine (l * l + l + d + 1) (l * (x1 + (l * l + l + d + 1)) + (l * l + l + d + 1) + y1))"
      by (rule on_curve_chord [OF P chord [OF d P Q]])
    then show ?thesis using False pq by (simp add: Let_def d_def l_def add.assoc)
  qed
qed auto

lemma on_curve_times: "on_curve P \<Longrightarrow> on_curve (ec_times n P)"
proof (induction n P rule: ec_times.induct)
  case (1 n P)
  then show ?case by (subst ec_times.simps) (auto simp: Let_def intro: on_curve_double on_curve_add)
qed

section \<open>The group\<close>

fun ec_neg :: "ec_point \<Rightarrow> ec_point" where
  "ec_neg Infinity = Infinity"
| "ec_neg (Affine x y) = Affine x (x + y)"

lemma ec_add_commute: "ec_add P Q = ec_add Q P"
proof (cases "P = Infinity \<or> Q = Infinity")
  case False
  then obtain x1 y1 x2 y2 where pq: "P = Affine x1 y1" "Q = Affine x2 y2" by (metis ec_point.exhaust)
  show ?thesis
  proof (cases "x1 = x2")
    case ne: False
    define l where "l = (y1 + y2) / (x1 + x2)"
    have d: "x1 + x2 \<noteq> 0" using ne by (simp add: gf_sum_zero)
    have "y1 + y2 = l * (x1 + x2)" using d by (simp add: l_def)
    then have "y2 = y1 + l * (x1 + x2)" by (metis gf_add_cancel)
    then have y: "l * (x1 + X) + X + y1 = l * (x2 + X) + X + y2" for X by (simp add: algebra_simps)
    have "(y2 + y1) / (x2 + x1) = l" by (simp add: l_def add.commute)
    moreover have "l * l + l + x2 + x1 + 1 = l * l + l + x1 + x2 + 1" by (simp add: add.assoc add.left_commute)
    ultimately show ?thesis using ne ne [symmetric] y unfolding pq
      by (simp only: ec_add.simps if_False Let_def l_def [symmetric])
  qed (auto simp: pq)
qed auto

text \<open>The slope \<open>l\<close> of the line through the point \<open>(q, y)\<close> of the curve and the one at the distance \<open>d\<close>; for \<open>d\<close> zero, of the tangent.\<close>

definition sec :: "gf163 \<Rightarrow> gf163 \<Rightarrow> gf163 \<Rightarrow> gf163 \<Rightarrow> bool" where
  "sec q y d l \<longleftrightarrow> (l * l + l + d + 1) * d = l * q + y + q * q + q * d \<and> (d = 0 \<longrightarrow> q \<noteq> 0)"

definition third :: "gf163 \<Rightarrow> gf163 \<Rightarrow> gf163 \<Rightarrow> gf163 \<Rightarrow> ec_point" where
  "third q y d l = Affine (l * l + l + d + 1) (l * (q + (l * l + l + d + 1)) + (l * l + l + d + 1) + y)"

lemma add_sec:
  assumes on: "on_curve (Affine x1 y1)" "on_curve (Affine q y)" and fin: "ec_add (Affine x1 y1) (Affine q y) \<noteq> Infinity"
  obtains d l where "x1 = q + d" "y1 = y + l * d" "sec q y d l" "ec_add (Affine x1 y1) (Affine q y) = third q y d l"
proof (cases "x1 = q")
  case True
  then have eq: "y1 = y" "q \<noteq> 0" using fin by (auto split: if_splits)
  define l where "l = q + y / q"
  have lq: "l * q = q * q + y" using eq(2) by (simp add: l_def field_simps)
  have "sec q y 0 l" using eq lq by (simp add: sec_def)
  moreover have "ec_add (Affine x1 y1) (Affine q y) = third q y 0 l"
    using True eq lq by (simp add: third_def Let_def l_def [symmetric] distrib_left distrib_right add.assoc add.left_commute)
  ultimately show ?thesis using True eq by (intro that [of 0 l]) simp_all
next
  case False
  define d l where "d = q + x1" and "l = (y1 + y) / d"
  have d: "d \<noteq> 0" using False by (auto simp: d_def gf_sum_zero)
  have x1: "x1 = q + d" by (simp add: d_def)
  have "l * d = y1 + y" using d by (simp add: l_def)
  then have y1: "y1 = y + l * d" by (simp add: add.commute add.left_commute)
  have "l * l * d + l * d + d * d + d = l * q + y + q * q + q * d"
    using on by (intro chord [OF d]) (simp_all add: x1 y1)
  then have "sec q y d l" using d by (simp add: sec_def distrib_right)
  moreover have "x1 + q = d" by (simp add: d_def add.commute)
  then have "ec_add (Affine x1 y1) (Affine q y)
    = (let x' = l * l + l + d + 1 in Affine x' (l * (x1 + x') + x' + y1))"
    using False by (simp add: l_def Let_def add.assoc)
  then have "ec_add (Affine x1 y1) (Affine q y) = third q y d l"
    unfolding x1 y1 third_def by (simp add: Let_def distrib_left distrib_right add.assoc add.left_commute)
  ultimately show ?thesis using x1 y1 by (intro that [of d l])
qed

text \<open>What a sum and its last point add up to.\<close>

lemma on_curve_neg: "on_curve P \<Longrightarrow> on_curve (ec_neg P)"
  by (cases P) (simp_all add: algebra_simps)

lemma sec_add:
  assumes "sec q y d l"
  shows "ec_add (Affine (q + d) (y + l * d)) (Affine q y) = third q y d l"
proof (cases "d = 0")
  case True
  then have q: "q \<noteq> 0" "l * q = q * q + y" using assms by (auto simp: sec_def gf_sum_zero add.assoc)
  then have l: "q + y / q = l" by (simp add: field_simps)
  show ?thesis using True q by (simp add: third_def Let_def l distrib_left distrib_right add.assoc add.left_commute)
next
  case False
  have l: "(y + l * d + y) / (q + d + q) = l" using False by (simp add: add.assoc add.left_commute)
  have ne: "q + d \<noteq> q" using False by simp
  have x: "l * l + l + (q + d) + q + 1 = l * l + l + d + 1" by (simp add: add.assoc add.left_commute)
  have "l * (q + d + X) + X + (y + l * d) = l * (q + X) + X + y" for X by (simp add: distrib_left add.assoc add.left_commute)
  then show ?thesis using ne unfolding third_def by (simp only: ec_add.simps if_False Let_def l x)
qed

lemma add_cancel:
  assumes on: "on_curve P" "on_curve Q"
  shows "ec_add (ec_add P Q) (ec_neg Q) = P"
proof (cases "P = Infinity \<or> Q = Infinity")
  case True
  then show ?thesis
  proof
    assume "P = Infinity"
    then show ?thesis by (cases Q) (auto simp: add.commute add.left_commute)
  qed simp
next
  case False
  then obtain x1 y1 q y where pq: "P = Affine x1 y1" "Q = Affine q y" by (metis ec_point.exhaust)
  show ?thesis
  proof (cases "ec_add P Q = Infinity")
    case True
    then have "x1 = q" "y1 \<noteq> y \<or> q = 0" unfolding pq by (auto simp: Let_def split: if_splits)
    moreover from this have "(y1 + y) * (y1 + y + q) = 0"
    proof -
      have "y1 * y1 + q * y1 = y * y + q * y" using on \<open>x1 = q\<close> by (simp add: pq)
      then have "y1 * y1 + q * y1 + (y * y + q * y) = 0" by (simp only: gf_char)
      then show ?thesis by (simp add: algebra_simps)
    qed
    ultimately have "y1 = q + y" by (auto simp: gf_sum_zero add.assoc)
    then show ?thesis using True \<open>x1 = q\<close> by (simp add: pq)
  next
    case fin: False
    obtain d l where s: "x1 = q + d" "y1 = y + l * d" "sec q y d l" "ec_add P Q = third q y d l"
      using add_sec [OF on [unfolded pq] fin [unfolded pq]] pq by metis
    define X where "X = l * l + l + d + 1"
    have Xd: "X * d = l * q + y + q * q + q * d" using s(3) by (simp add: sec_def X_def)
    have XX: "l * l + l + 1 = X + d" by (simp add: X_def add.assoc add.left_commute)
    have "sec q (q + y) (q + X) (l + 1)"
    proof -
      have "(l + 1) * (l + 1) + (l + 1) + (q + X) + 1 = (l * l + l + 1) + (q + X)" by (simp add: algebra_simps)
      also have "\<dots> = q + d" unfolding XX by (simp add: add.assoc add.left_commute)
      finally have "((l + 1) * (l + 1) + (l + 1) + (q + X) + 1) * (q + X) = (q + d) * (q + X)" by (simp only:)
      also have "\<dots> = X * d + q * d + q * q + q * X" by (simp add: algebra_simps)
      finally have "((l + 1) * (l + 1) + (l + 1) + (q + X) + 1) * (q + X) = X * d + q * d + q * q + q * X" .
      moreover have "q + X = 0 \<Longrightarrow> q \<noteq> 0"
      proof
        assume "q + X = 0" "q = 0"
        then have "y = 0" using Xd by (simp add: gf_sum_zero)
        then show False using on(2) \<open>q = 0\<close> ec_b_val(2) by (simp add: pq)
      qed
      ultimately show ?thesis unfolding sec_def Xd by (simp add: algebra_simps)
    qed
    note sa = sec_add [OF this]
    have t1: "q + (q + X) = X" "q + y + (l + 1) * (q + X) = l * (q + X) + X + y" by (simp_all add: algebra_simps)
    have "(l + 1) * (l + 1) + (l + 1) + (q + X) + 1 = (l * l + l + 1) + (q + X)" by (simp add: algebra_simps)
    also have "\<dots> = q + d" unfolding XX by (simp add: add.assoc add.left_commute)
    finally have e: "(l + 1) * (l + 1) + (l + 1) + (q + X) + 1 = q + d" .
    have "(l + 1) * (q + (q + d)) + (q + d) + (q + y) = y + l * d" by (simp add: algebra_simps)
    then have t2: "third q (q + y) (q + X) (l + 1) = Affine (q + d) (y + l * d)" by (simp only: third_def e)
    have "ec_add P Q = Affine X (l * (q + X) + X + y)" by (simp only: s(4) third_def X_def)
    then show ?thesis using sa unfolding t1 t2 by (simp only: pq ec_neg.simps s(1,2))
  qed
qed

text \<open>Three points: \<open>(q, y)\<close> in the middle, the others at the distances \<open>d\<close> and \<open>e\<close> with the slopes \<open>l\<close> and \<open>m\<close>.
  \<open>f\<close> and \<open>n\<close> are the distance and slope from the third point to the sum of the first two, \<open>g\<close> and \<open>o\<close> from the first to the sum of the last two.
  Both slopes differ by the same \<open>k\<close> from the ones before.\<close>

lemma assoc_relation:
  assumes "sec q y d l" "sec q y e m"
  shows "(l * l + l + d + 1) * d + (m * m + m + e + 1) * e = (l + m + d + e) * (q :: gf163)"
proof -
  have "(l * l + l + d + 1) * d + (m * m + m + e + 1) * e = (l * q + y + q * q + q * d) + (m * q + y + q * q + q * e)"
    using assms by (simp only: sec_def)
  also have "\<dots> = (l + m + d + e) * q" by (simp add: algebra_simps)
  finally show ?thesis .
qed

lemma assoc_tangent:
  assumes s: "sec q y d l" and t: "sec (q + e) (y + m * e) 0 (k + l)" and X: "q + (l * l + l + d + 1) + e = 0"
    and ke: "l * l + l + d + 1 + (l + m) * e = 0"
  shows "k * (l + m) = l + m + d + e \<and> l + m \<noteq> 0 \<and> e \<noteq> 0"
proof -
  define X where "X = l * l + l + d + 1"
  have qe: "q + e = X" "e = q + X" using X by (simp_all add: X_def [symmetric] gf_sum_zero) (metis gf_sum_zero add.assoc add.commute)+
  have Xt: "X = (l + m) * e" using ke by (simp add: X_def [symmetric] gf_sum_zero)
  have X0: "X \<noteq> 0" using t qe(1) by (simp add: sec_def)
  have nz: "l + m \<noteq> 0" "e \<noteq> 0" using X0 Xt by auto
  have "X * d = l * q + y + q * q + q * d" using s by (simp only: sec_def X_def)
  then have y: "y = X * d + l * q + q * q + q * d" by (simp add: add.assoc add.left_commute)
  have "0 = (k + l) * X + (y + m * e) + X * X" using t by (simp add: sec_def qe(1))
  also have "\<dots> = k * X + (l * X + l * q) + (X * d + q * d) + (q * q + X * X) + m * e" unfolding y by (simp add: distrib_right add.assoc add.left_commute)
  also have "\<dots> = k * X + (l + m) * e + e * (d + e)" unfolding qe(2) by (simp add: algebra_simps)
  also have "\<dots> = e * (k * (l + m) + (l + m) + d + e)" unfolding Xt by (simp add: algebra_simps)
  finally have "k * (l + m) + (l + m) + d + e = 0" using nz by simp
  then have "k * (l + m) = l + m + d + e" by (simp add: gf_sum_zero add.assoc)
  then show ?thesis using nz by simp
qed

definition assoc_side :: "gf163 \<Rightarrow> gf163 \<Rightarrow> gf163 \<Rightarrow> gf163 \<Rightarrow> gf163 \<Rightarrow> gf163 \<Rightarrow> gf163 \<Rightarrow> bool" where
  "assoc_side q y d l e m k \<longleftrightarrow>
     (let X = l * l + l + d + 1; f = q + X + e
      in k * f = X + (l + m) * e \<and> (f = 0 \<longrightarrow> sec (q + e) (y + m * e) 0 (k + l)))"

lemma assoc_side_tangent:
  assumes "sec q y d l" "assoc_side q y d l e m k" "q + (l * l + l + d + 1) + e = 0"
  shows "k * (l + m) = l + m + d + e \<and> l + m \<noteq> 0 \<and> e \<noteq> 0 \<and> l * l + l + d + 1 = (l + m) * e"
proof -
  have ke: "l * l + l + d + 1 + (l + m) * e = 0" and t: "sec (q + e) (y + m * e) 0 (k + l)"
    using assms(2,3) by (simp_all add: assoc_side_def Let_def)
  show ?thesis using assoc_tangent [OF assms(1) t assms(3) ke] ke by (simp only: gf_sum_zero simp_thms)
qed

lemma assoc_one_tangent:
  assumes s: "sec q y d l" "sec q y e m" and k: "assoc_side q y d l e m k" "assoc_side q y e m d l j"
    and f: "q + (l * l + l + d + 1) + e = 0" and g: "q + (m * m + m + e + 1) + d \<noteq> 0"
  shows "j = k \<and> k * (l + m) = l + m + d + e"
proof -
  define t X X' where "t = l + m" and "X = l * l + l + d + 1" and "X' = m * m + m + e + 1"
  have K: "k * t = t + d + e" "t \<noteq> 0" "e \<noteq> 0" "X = t * e"
    using assoc_side_tangent [OF s(1) k(1) f] by (simp_all only: t_def X_def simp_thms)
  have R: "X * d + X' * e = (t + d + e) * q" using assoc_relation [OF s] by (simp only: t_def X_def X'_def)
  have J: "j * (q + X' + d) = X' + t * d" using k(2) by (simp only: assoc_side_def Let_def X'_def t_def add.commute [of m l] simp_thms)
  have "q + X + e = 0" using f by (simp only: X_def)
  then have "q = X + e" by (simp only: add.assoc gf_sum_zero)
  then have q: "q = (t + 1) * e" by (simp add: K(4) algebra_simps)
  have "X' * e = X * d + (X * d + X' * e)" by (simp only: gf_add_cancel)
  then have Xe: "X' * e = t * e * d + (t + d + e) * q" unfolding R by (simp only: K(4))
  have ge: "(q + X' + d) * e = t * q"
  proof -
    have "(q + X' + d) * e = q * e + X' * e + d * e" by (simp only: distrib_right)
    also have "\<dots> = t * q" unfolding Xe q by (simp add: algebra_simps)
    finally show ?thesis .
  qed
  have "j * (t * q) = (X' + t * d) * e" unfolding ge [symmetric] J [symmetric] by (simp only: mult.assoc)
  also have "\<dots> = (t + d + e) * q" unfolding distrib_right Xe by (simp add: algebra_simps)
  finally have "q * (j * t + (t + d + e)) = 0" by (simp add: algebra_simps)
  moreover have "q \<noteq> 0" using ge g K(3) by (auto simp: X'_def)
  ultimately have "j * t = t + d + e" by (simp add: gf_sum_zero)
  then show ?thesis using K by (simp only: t_def [symmetric]) (metis mult_right_cancel)
qed

lemma assoc_chords:
  assumes s: "sec q y d l" "sec q y e m" and k: "assoc_side q y d l e m k" "assoc_side q y e m d l j"
    and f: "q + (l * l + l + d + 1) + e \<noteq> 0" and g: "q + (m * m + m + e + 1) + d \<noteq> 0"
  shows "j = k \<and> k * (l + m) = l + m + d + e"
proof -
  define t X X' where "t = l + m" and "X = l * l + l + d + 1" and "X' = m * m + m + e + 1"
  have R: "X * d + X' * e = (t + d + e) * q" using assoc_relation [OF s] by (simp only: t_def X_def X'_def)
  have K: "k * (q + X + e) = X + t * e" using k(1) by (simp only: assoc_side_def Let_def X_def t_def simp_thms)
  have J: "j * (q + X' + d) = X' + t * d" using k(2) by (simp only: assoc_side_def Let_def X'_def t_def add.commute [of m l] simp_thms)
  have XX: "X + X' = t * t + t + d + e" by (simp add: X_def X'_def t_def algebra_simps)
  have "(k + j) * ((q + X + e) * (q + X' + d)) = k * (q + X + e) * (q + X' + d) + j * (q + X' + d) * (q + X + e)"
    by (simp add: algebra_simps)
  also have "\<dots> = q * ((X + X') + t * (d + e)) + (1 + t) * (X * d + X' * e)" unfolding K J by (simp add: algebra_simps)
  also have "\<dots> = 0" unfolding R XX by (simp add: algebra_simps)
  finally have jk: "j = k" using f g by (simp add: X_def X'_def gf_sum_zero)
  have "(1 + t) * (k * t + (t + d + e)) = k * (t * t + t) + (1 + t) * (t + d + e)" by (simp add: algebra_simps)
  also have "k * (t * t + t) = k * (q + X + e) + k * (q + X' + d)"
  proof -
    have "k * (q + X + e) + k * (q + X' + d) = k * ((X + X') + d + e)" by (simp add: algebra_simps)
    then show ?thesis unfolding XX by (simp add: add.assoc add.left_commute)
  qed
  also have "\<dots> = (X + X') + t * (d + e)" using J unfolding K jk by (simp add: algebra_simps)
  also have "(X + X') + t * (d + e) + (1 + t) * (t + d + e) = 0" unfolding XX by (simp add: algebra_simps)
  finally consider "t = 1" | "k * t = t + d + e" by (auto simp: gf_sum_zero)
  then have "k * t = t + d + e"
  proof cases
    case 1
    have X': "X' = X + d + e" using XX 1 by (metis gf_add_cancel gf_char add.assoc mult_1_right add_0_left)
    have "(1 + d + e) * (q + X + e) = (1 + d + e) * q + (1 + d + e) * (X + e)" by (simp only: distrib_left add.assoc)
    also have "(1 + d + e) * q = (d + e) * (X + e)" using R unfolding X' 1 by (simp add: algebra_simps)
    also have "(d + e) * (X + e) + (1 + d + e) * (X + e) = X + e" by (simp add: algebra_simps)
    finally have "(1 + d + e) * (q + X + e) = k * (q + X + e)" using K 1 by simp
    then show ?thesis using f 1 by (simp add: X_def)
  qed
  then show ?thesis using jk by (simp add: t_def)
qed

lemma assoc_slopes:
  assumes s: "sec q y d l" "sec q y e m" and k: "assoc_side q y d l e m k" "assoc_side q y e m d l j"
  shows "j = k \<and> k * (l + m) = l + m + d + e"
proof -
  have sw: "m + l = l + m" "l + m + e + d = l + m + d + e" by (simp_all add: add.assoc add.left_commute add.commute)
  show ?thesis
  proof (cases "q + (l * l + l + d + 1) + e = 0")
    case f: True
    show ?thesis
    proof (cases "q + (m * m + m + e + 1) + d = 0")
      case True
      have "k * (l + m) = l + m + d + e" "l + m \<noteq> 0" "j * (l + m) = l + m + d + e"
        using assoc_side_tangent [OF s(1) k(1) f] assoc_side_tangent [OF s(2) k(2) True] by (simp_all only: sw simp_thms)
      then show ?thesis by (metis mult_right_cancel)
    next
      case False
      then show ?thesis by (rule assoc_one_tangent [OF s k f])
    qed
  next
    case f: False
    show ?thesis
    proof (cases "q + (m * m + m + e + 1) + d = 0")
      case True
      from assoc_one_tangent [OF s(2,1) k(2,1) True f] show ?thesis by (simp only: sw simp_thms)
    next
      case False
      then show ?thesis by (rule assoc_chords [OF s k f])
    qed
  qed
qed

lemma third_assoc:
  assumes k: "k * (l + m) = l + m + d + e"
  shows "third (q + e) (y + m * e) (q + (l * l + l + d + 1) + e) (k + l)
    = third (q + d) (y + l * d) (q + (m * m + m + e + 1) + d) (k + m)"
proof -
  define W where "W = k * k + k + d + e + q"
  have w: "(k + l) * (k + l) + (k + l) + (q + (l * l + l + d + 1) + e) + 1 = W"
    "(k + m) * (k + m) + (k + m) + (q + (m * m + m + e + 1) + d) + 1 = W"
    by (simp_all add: W_def algebra_simps)
  have "(k + l) * (q + e + W) + W + (y + m * e) + ((k + m) * (q + d + W) + W + (y + l * d))
    = k * (k * (l + m) + (l + m + d + e))"
    unfolding W_def by (simp add: algebra_simps)
  also have "\<dots> = 0" unfolding k by simp
  finally have "(k + l) * (q + e + W) + W + (y + m * e) = (k + m) * (q + d + W) + W + (y + l * d)" by (simp only: gf_sum_zero)
  then show ?thesis unfolding third_def w by (simp only:)
qed

text \<open>The addition is associative.\<close>

lemma assoc_side_add:
  assumes on: "on_curve (third q y d l)" "on_curve (Affine (q + e) (y + m * e))"
    and fin: "ec_add (third q y d l) (Affine (q + e) (y + m * e)) \<noteq> Infinity"
  obtains k where "assoc_side q y d l e m k"
    "ec_add (third q y d l) (Affine (q + e) (y + m * e)) = third (q + e) (y + m * e) (q + (l * l + l + d + 1) + e) (k + l)"
proof -
  define X where "X = l * l + l + d + 1"
  obtain f n where fn: "X = q + e + f" "l * (q + X) + X + y = y + m * e + n * f" "sec (q + e) (y + m * e) f n"
    "ec_add (third q y d l) (Affine (q + e) (y + m * e)) = third (q + e) (y + m * e) f n"
    using add_sec [OF on [unfolded third_def] fin [unfolded third_def]] unfolding third_def X_def by metis
  have f: "f = q + X + e" using fn(1) by (simp add: add.assoc add.left_commute)
  define k where "k = n + l"
  have n: "n = k + l" by (simp add: k_def)
  have nf: "n * f = l * (q + X) + X + m * e"
  proof -
    have "n * f = (y + m * e) + (y + m * e + n * f)" by (simp only: gf_add_cancel)
    then show ?thesis unfolding fn(2) [symmetric] by (simp add: add.assoc add.left_commute)
  qed
  have "k * f = n * f + l * f" by (simp only: k_def distrib_right)
  also have "\<dots> = X + (l + m) * e" unfolding nf unfolding f by (simp add: algebra_simps)
  finally have "k * f = X + (l + m) * e" .
  then have "assoc_side q y d l e m k" using fn(3) unfolding assoc_side_def Let_def X_def [symmetric] f [symmetric] n by auto
  then show ?thesis using fn(4) unfolding f n X_def by (rule that)
qed

lemma ec_add_cases:
  assumes "on_curve P" "on_curve Q" "ec_add P Q \<noteq> Infinity" "P \<noteq> Infinity" "Q \<noteq> Infinity"
  obtains q y d l where "P = Affine (q + d) (y + l * d)" "Q = Affine q y" "sec q y d l" "ec_add P Q = third q y d l"
  using assms add_sec by (metis ec_point.exhaust)

lemma ec_neg_neg [simp]: "ec_neg (ec_neg P) = P"
  by (cases P) simp_all

lemma add_neg_Infinity: "on_curve P \<Longrightarrow> on_curve Q \<Longrightarrow> ec_add P Q = Infinity \<longleftrightarrow> P = ec_neg Q"
proof
  assume on: "on_curve P" "on_curve Q"
  show "P = ec_neg Q" if "ec_add P Q = Infinity" using add_cancel [OF on] that by simp
  show "ec_add P Q = Infinity" if "P = ec_neg Q"
  proof (cases Q)
    case (Affine q y)
    then show ?thesis using that by (cases "q = 0") auto
  qed (use that in simp)
qed

lemma neg_distrib: "on_curve P \<Longrightarrow> on_curve Q \<Longrightarrow> ec_neg (ec_add P Q) = ec_add (ec_neg P) (ec_neg Q)"
proof -
  assume on: "on_curve P" "on_curve Q"
  consider "P = Infinity \<or> Q = Infinity" | "ec_add P Q = Infinity" | "P \<noteq> Infinity" "Q \<noteq> Infinity" "ec_add P Q \<noteq> Infinity" by blast
  then show ?thesis
  proof cases
    case 2
    then have "P = ec_neg Q" using on add_neg_Infinity by blast
    then show ?thesis using 2 on add_neg_Infinity [of Q "ec_neg Q"] on_curve_neg [of Q] by simp
  next
    case 3
    obtain q y d l where pq: "P = Affine (q + d) (y + l * d)" "Q = Affine q y" "sec q y d l" "ec_add P Q = third q y d l"
      by (rule ec_add_cases [OF on 3(3,1,2)])
    have "sec q (q + y) d (l + 1)" using pq(3) by (simp add: sec_def algebra_simps)
    note sa = sec_add [OF this]
    have "ec_neg P = Affine (q + d) (q + y + (l + 1) * d)" "ec_neg Q = Affine q (q + y)"
      by (simp_all add: pq algebra_simps)
    moreover have "ec_neg (third q y d l) = third q (q + y) d (l + 1)" unfolding third_def by (simp add: algebra_simps)
    ultimately show ?thesis using sa pq(4) by simp
  qed auto
qed

lemma ec_add_assoc:
  assumes on: "on_curve P" "on_curve Q" "on_curve R"
  shows "ec_add (ec_add P Q) R = ec_add P (ec_add Q R)"
proof -
  note [simp] = on_curve_add on_curve_neg on
  consider "P = Infinity \<or> Q = Infinity \<or> R = Infinity" | "ec_add P Q = Infinity" | "ec_add Q R = Infinity"
    | "P \<noteq> Infinity" "Q \<noteq> Infinity" "R \<noteq> Infinity" "ec_add P Q \<noteq> Infinity" "ec_add Q R \<noteq> Infinity" by blast
  then show ?thesis
  proof cases
    case 1
    then show ?thesis by auto
  next
    case 2
    then have P: "P = ec_neg Q" using add_neg_Infinity by simp
    have "ec_add (ec_add R Q) (ec_neg Q) = R" by (rule add_cancel) simp_all
    then show ?thesis using 2 P by (metis ec_add_commute ec_add_Infinity)
  next
    case 3
    then have Q: "R = ec_neg Q" using add_neg_Infinity ec_add_commute by simp
    have "ec_add (ec_add P Q) (ec_neg Q) = P" by (rule add_cancel) simp_all
    then show ?thesis using 3 Q by simp
  next
    case 4
    obtain q y d l where pq: "P = Affine (q + d) (y + l * d)" "Q = Affine q y" "sec q y d l" "ec_add P Q = third q y d l"
      by (rule ec_add_cases [OF on(1,2) 4(4,1,2)])
    obtain q' y' e m where "R = Affine (q' + e) (y' + m * e)" "Q = Affine q' y'" "sec q' y' e m" "ec_add R Q = third q' y' e m"
      using ec_add_cases [OF on(3,2) _ 4(3,2)] 4(5) ec_add_commute by metis
    then have r: "R = Affine (q + e) (y + m * e)" "sec q y e m" "ec_add Q R = third q y e m"
      using pq(2) ec_add_commute [of Q R] by auto
    have fin: "ec_add (ec_add P Q) R = Infinity \<longleftrightarrow> ec_add P (ec_add Q R) = Infinity"
    proof -
      have "ec_add (ec_add P Q) R = Infinity \<longleftrightarrow> ec_add P Q = ec_neg R" by (intro add_neg_Infinity) simp_all
      also have "\<dots> \<longleftrightarrow> P = ec_add (ec_neg R) (ec_neg Q)"
        using add_cancel [of P Q] add_cancel [of "ec_neg R" "ec_neg Q"] by auto
      also have "\<dots> \<longleftrightarrow> P = ec_neg (ec_add Q R)" using neg_distrib [OF on(2,3)] ec_add_commute by metis
      also have "\<dots> \<longleftrightarrow> ec_add P (ec_add Q R) = Infinity" by (intro add_neg_Infinity [symmetric]) simp_all
      finally show ?thesis .
    qed
    show ?thesis
    proof (cases "ec_add (ec_add P Q) R = Infinity")
      case True
      then show ?thesis using fin by simp
    next
      case False
      obtain k where k: "assoc_side q y d l e m k"
        "ec_add (ec_add P Q) R = third (q + e) (y + m * e) (q + (l * l + l + d + 1) + e) (k + l)"
        using assoc_side_add [of q y d l e m] False on pq(4) r(1) on_curve_add [OF on(1,2)] by metis
      have "ec_add (ec_add Q R) P \<noteq> Infinity" using False fin ec_add_commute by metis
      then obtain j where j: "assoc_side q y e m d l j"
        "ec_add (ec_add Q R) P = third (q + d) (y + l * d) (q + (m * m + m + e + 1) + d) (j + m)"
        using assoc_side_add [of q y e m d l] on pq(1) r(3) on_curve_add [OF on(2,3)] by metis
      have "j = k \<and> k * (l + m) = l + m + d + e" by (rule assoc_slopes [OF pq(3) r(2) k(1) j(1)])
      then show ?thesis using third_assoc [of k l m d e q y] k(2) j(2) ec_add_commute by metis
    qed
  qed
qed

section \<open>Multiples\<close>

text \<open>What a multiple needs: an addition that is closed on a set, commutative and associative there, and has a zero.\<close>

locale additive =
  fixes add :: "'a \<Rightarrow> 'a \<Rightarrow> 'a" and zero :: 'a and carrier :: "'a \<Rightarrow> bool"
  assumes carrier_zero: "carrier zero"
    and carrier_add: "carrier x \<Longrightarrow> carrier y \<Longrightarrow> carrier (add x y)"
    and zero_add: "carrier x \<Longrightarrow> add zero x = x"
    and commute: "carrier x \<Longrightarrow> carrier y \<Longrightarrow> add x y = add y x"
    and assoc: "carrier x \<Longrightarrow> carrier y \<Longrightarrow> carrier z \<Longrightarrow> add (add x y) z = add x (add y z)"
begin

lemma multiple_carrier: "carrier x \<Longrightarrow> carrier (((\<lambda>s. add s x) ^^ n) zero)"
  by (induction n) (simp_all add: carrier_zero carrier_add)

lemma multiple_add: "carrier x \<Longrightarrow>
  ((\<lambda>s. add s x) ^^ (m + n)) zero = add (((\<lambda>s. add s x) ^^ m) zero) (((\<lambda>s. add s x) ^^ n) zero)"
proof (induction m)
  case (Suc m)
  let ?m = "((\<lambda>s. add s x) ^^ m) zero" and ?n = "((\<lambda>s. add s x) ^^ n) zero"
  have c: "carrier ?m" "carrier ?n" using Suc.prems by (simp_all add: multiple_carrier)
  have "add (add ?m ?n) x = add (add ?m x) ?n"
    using c Suc.prems by (simp add: assoc commute [of ?n])
  then show ?case using Suc by simp
qed (simp add: zero_add multiple_carrier)

lemma multiple_mult: "carrier x \<Longrightarrow>
  ((\<lambda>s. add s (((\<lambda>s. add s x) ^^ n) zero)) ^^ m) zero = ((\<lambda>s. add s x) ^^ (m * n)) zero"
proof (induction m)
  case (Suc m)
  have "((\<lambda>s. add s x) ^^ (n + m * n)) zero = add (((\<lambda>s. add s x) ^^ n) zero) (((\<lambda>s. add s x) ^^ (m * n)) zero)"
    by (rule multiple_add [OF Suc.prems])
  then show ?case using Suc by (simp add: commute multiple_carrier)
qed simp

end

interpretation curve_points: additive ec_add Infinity on_curve
  by unfold_locales (simp_all add: on_curve_add ec_add_assoc, rule ec_add_commute)

lemma ec_double_add: "ec_double P = ec_add P P"
  by (cases P) simp_all

lemma ec_times_0 [simp]: "ec_times 0 P = Infinity"
  by (simp add: ec_times.simps)

lemma ec_times_Suc: "on_curve P \<Longrightarrow> ec_times (Suc n) P = ec_add (ec_times n P) P"
proof (induction n rule: less_induct)
  case (less n)
  define Q where "Q = ec_times (n div 2) P"
  have on: "on_curve Q" "on_curve P" using less.prems by (simp_all add: Q_def on_curve_times)
  show ?case
  proof (cases "even n")
    case True
    then have "ec_times (Suc n) P = ec_add (ec_double Q) P"
      by (subst ec_times.simps) (auto simp: Let_def Q_def elim!: evenE)
    moreover have "ec_times n P = ec_double Q" using True by (subst ec_times.simps) (auto simp: Let_def Q_def)
    ultimately show ?thesis by simp
  next
    case False
    then have "n div 2 < n" "Suc n div 2 = Suc (n div 2)" by (auto elim!: oddE)
    then have "ec_times (Suc n) P = ec_double (ec_times (Suc (n div 2)) P)"
      using False by (subst ec_times.simps) (simp add: Let_def)
    also have "ec_times (Suc (n div 2)) P = ec_add Q P" unfolding Q_def by (rule less.IH [OF \<open>n div 2 < n\<close> less.prems])
    also have "ec_double (ec_add Q P) = ec_add (ec_add (ec_double Q) P) P"
      unfolding ec_double_add using on by (metis ec_add_assoc ec_add_commute on_curve_add)
    also have "ec_add (ec_double Q) P = ec_times n P" using False by (subst ec_times.simps) (auto simp: Let_def Q_def)
    finally show ?thesis .
  qed
qed

lemma ec_times_sum: "on_curve P \<Longrightarrow> ec_times n P = ((\<lambda>S. ec_add S P) ^^ n) Infinity"
  by (induction n) (simp_all add: ec_times_Suc)

lemma ec_times_commute: "on_curve P \<Longrightarrow> ec_times m (ec_times n P) = ec_times n (ec_times m P)"
  using curve_points.multiple_mult [of P n m] curve_points.multiple_mult [of P m n]
  by (simp add: ec_times_sum curve_points.multiple_carrier mult.commute)

end
