(* ===== verification/Ecc_Points.thy ===== *)
theory Ecc_Points
  imports Ecc_Curve
begin

text \<open>
  The points of \<open>ecc.c\<close> and the exchange of a key. The addition law of the curve is stated in the field, with a point at infinity of its own;
  the routines, which represent it by two zeros and work on bit strings, are shown to compute the law, to return for all points of the curve
  and to stay on it. From that follows what the two sides of the exchange do.
\<close>

section \<open>The routines\<close>

definition pelem :: "point \<Rightarrow> bool" where
  "pelem P \<longleftrightarrow> felem (fst P) \<and> felem (snd P)"

text \<open>The point that a pair of bit strings stands for.\<close>

definition pt :: "point \<Rightarrow> ec_point" where
  "pt P = (if point_is_zero P then Infinity else Affine (gf (fst P)) (gf (snd P)))"

definition good_point :: "point \<Rightarrow> bool" where
  "good_point P \<longleftrightarrow> pelem P \<and> on_curve (pt P)"

lemma zero_point: "pelem P \<Longrightarrow> point_is_zero P \<longleftrightarrow> gf (fst P) = 0 \<and> gf (snd P) = 0"
  by (simp add: point_is_zero_def gf_is_clear pelem_def)

lemma pt_zero [simp]: "pelem point_zero" "pt point_zero = Infinity"
  by (simp_all add: point_zero_def pelem_def pt_def point_is_zero_def is_clear_val)

lemma good_zero [simp]: "good_point point_zero"
  by (simp add: good_point_def)

lemma pt_Affine: "felem x \<Longrightarrow> felem y \<Longrightarrow> on_curve (Affine (gf x) (gf y)) \<Longrightarrow> pt (x, y) = Affine (gf x) (gf y)"
proof -
  assume "felem x" "felem y" "on_curve (Affine (gf x) (gf y))"
  then have "\<not> (gf x = 0 \<and> gf y = 0)" using ec_b_val(2) by auto
  then show ?thesis using \<open>felem x\<close> \<open>felem y\<close> by (simp add: pt_def zero_point pelem_def)
qed

lemma good_pointI: "felem x \<Longrightarrow> felem y \<Longrightarrow> on_curve P \<Longrightarrow> P = Affine (gf x) (gf y) \<Longrightarrow> good_point (x, y) \<and> pt (x, y) = P"
  by (simp only: good_point_def pelem_def pt_Affine fst_conv snd_conv simp_thms)

lemma point_double_law:
  "good_point P \<Longrightarrow> \<exists>R. point_double ecc_poly P = Some R \<and> good_point R \<and> pt R = ec_double (pt P)"
proof -
  assume P: "good_point P"
  obtain x y where xy: "P = (x, y)" by fastforce
  have f: "felem x" "felem y" using P xy by (simp_all add: good_point_def pelem_def)
  show ?thesis
  proof (cases "gf x = 0")
    case True
    then have x: "x = bitstr_clear" using f(1) gf_inj [of x bitstr_clear] by simp
    have "ec_double (pt P) = Infinity" using True xy by (simp add: pt_def)
    moreover have "point_double ecc_poly P = Some point_zero"
      using True f xy x by (simp add: point_double_def gf_is_clear point_zero_def)
    ultimately show ?thesis by simp
  next
    case False
    then have pt: "pt P = Affine (gf x) (gf y)" using f xy by (simp add: pt_def zero_point pelem_def)
    have on: "on_curve (ec_double (pt P))" using P by (intro on_curve_double) (simp add: good_point_def)
    obtain a where a: "field_invert ecc_poly x = Some a" "felem a" "gf a = inverse (gf x)" using gf_invert [OF f(1) False] by blast
    define l where "l = field_add (field_mult ecc_poly a y) x"
    define x' where "x' = field_add (field_mult ecc_poly l l) (field_add1 l)"
    define y' where "y' = field_add (field_mult ecc_poly x x) (field_mult ecc_poly (field_add1 l) x')"
    have l: "felem l" "gf l = gf x + gf y / gf x" using a f by (simp_all add: l_def divide_inverse ac_simps)
    have x': "felem x'" "gf x' = gf l * gf l + gf l + 1" using l(1) by (simp_all add: x'_def add.assoc)
    have y': "felem y'" "gf y' = gf x * gf x + (gf l + 1) * gf x'" using l(1) x'(1) f by (simp_all add: y'_def)
    have "point_double ecc_poly P = Some (x', y')"
      using False f xy a(1) by (simp add: point_double_def gf_is_clear l_def x'_def y'_def Let_def)
    moreover have "ec_double (pt P) = Affine (gf x') (gf y')" using False by (simp add: pt l(2) x'(2) y'(2) Let_def)
    ultimately show ?thesis using good_pointI [OF x'(1) y'(1) on] by auto
  qed
qed

lemma point_add_law:
  "good_point P \<Longrightarrow> good_point Q \<Longrightarrow> \<exists>R. point_add ecc_poly P Q = Some R \<and> good_point R \<and> pt R = ec_add (pt P) (pt Q)"
proof -
  assume P: "good_point P" and Q: "good_point Q"
  obtain x1 y1 x2 y2 where xy: "P = (x1, y1)" "Q = (x2, y2)" by fastforce
  have f: "felem x1" "felem y1" "felem x2" "felem y2" using P Q xy by (simp_all add: good_point_def pelem_def)
  show ?thesis
  proof (cases "point_is_zero P \<or> point_is_zero Q")
    case True
    then consider "point_is_zero Q" | "\<not> point_is_zero Q" "point_is_zero P" by blast
    then show ?thesis
    proof cases
      case 1
      then show ?thesis using P xy by (simp add: point_add_def pt_def)
    next
      case 2
      then show ?thesis using Q xy by (auto simp: point_add_def pt_def)
    qed
  next
    case False
    then have pt: "pt P = Affine (gf x1) (gf y1)" "pt Q = Affine (gf x2) (gf y2)" using xy by (simp_all add: pt_def)
    show ?thesis
    proof (cases "x1 = x2")
      case True
      show ?thesis
      proof (cases "y1 = y2")
        case True
        then show ?thesis using point_double_law [OF P] False xy pt \<open>x1 = x2\<close> by (simp add: point_add_def del: ec_double.simps)
      next
        case y: False
        then have "gf y1 \<noteq> gf y2" using f gf_inj by blast
        then show ?thesis using y False xy pt \<open>x1 = x2\<close> by (simp add: point_add_def)
      qed
    next
      case x: False
      then have gx: "gf x1 \<noteq> gf x2" using f gf_inj by blast
      have on: "on_curve (ec_add (pt P) (pt Q))" using P Q by (intro on_curve_add) (simp_all add: good_point_def)
      define b where "b = field_add x1 x2"
      have b: "felem b" "gf b = gf x1 + gf x2" using f by (simp_all add: b_def)
      have "gf b \<noteq> 0" using gx by (simp add: b gf_sum_zero)
      then obtain c where c: "field_invert ecc_poly b = Some c" "felem c" "gf c = inverse (gf b)" using gf_invert [OF b(1)] by blast
      define l where "l = field_mult ecc_poly c (field_add y1 y2)"
      define d where "d = field_add1 (field_add (field_add (field_mult ecc_poly l l) l) b)"
      define y' where "y' = field_add y1 (field_add (field_mult ecc_poly (field_add x1 d) l) d)"
      have l: "felem l" "gf l = (gf y1 + gf y2) / (gf x1 + gf x2)" using c f b by (simp_all add: l_def divide_inverse ac_simps)
      have d: "felem d" "gf d = gf l * gf l + gf l + gf x1 + gf x2 + 1" using l(1) b by (simp_all add: d_def add.assoc)
      have y': "felem y'" "gf y' = gf l * (gf x1 + gf d) + gf d + gf y1" using l(1) d(1) f by (simp_all add: y'_def ac_simps)
      have "point_add ecc_poly P Q = Some (d, y')"
        using False x xy c(1) by (simp add: point_add_def Let_def b_def l_def d_def y'_def)
      moreover have "ec_add (pt P) (pt Q) = Affine (gf d) (gf y')"
        using gx by (simp only: pt ec_add.simps Let_def if_False d(2) l(2) y'(2))
      ultimately show ?thesis using good_pointI [OF d(1) y'(1) on] by auto
    qed
  qed
qed

lemma point_mult_loop_law:
  "good_point P \<Longrightarrow> is_bitstr e \<Longrightarrow> i \<le> 192 \<Longrightarrow> good_point Q \<Longrightarrow> pt Q = ec_times (drop_bit i (bs_val e)) (pt P) \<Longrightarrow>
   \<exists>R. point_mult_loop ecc_poly P e i Q = Some R \<and> good_point R \<and> pt R = ec_times (bs_val e) (pt P)"
proof (induction i arbitrary: Q)
  case (Suc i)
  define n where "n = drop_bit i (bs_val e)"
  obtain D where D: "point_double ecc_poly Q = Some D" "good_point D" "pt D = ec_double (pt Q)"
    using point_double_law [OF Suc.prems(4)] by blast
  have g: "bitstr_getbit e i \<longleftrightarrow> odd n" using Suc.prems(2,3) by (simp add: getbit_val n_def bit_iff_odd_drop_bit)
  have "drop_bit (Suc i) (bs_val e) = n div 2" by (simp add: n_def drop_bit_eq_div div_mult2_eq [symmetric] mult.commute)
  then have q: "pt Q = ec_times (n div 2) (pt P)" using Suc.prems(5) by simp
  have "\<exists>A. (if bitstr_getbit e i then point_add ecc_poly D P else Some D) = Some A \<and> good_point A \<and> pt A = ec_times n (pt P)"
  proof (cases "n = 0")
    case True
    then have "pt Q = Infinity" using q by (simp add: ec_times.simps)
    then show ?thesis using True D g by (simp add: ec_times.simps)
  next
    case False
    then have "ec_times n (pt P) = (if odd n then ec_add (pt D) (pt P) else pt D)"
      using D(3) q by (subst ec_times.simps) (simp add: Let_def)
    then show ?thesis using D(2) g point_add_law [OF D(2) Suc.prems(1)] by (cases "odd n") (simp_all only: if_True if_False simp_thms, blast)
  qed
  then obtain A where A: "(if bitstr_getbit e i then point_add ecc_poly D P else Some D) = Some A" "good_point A"
    "pt A = ec_times n (pt P)" by blast
  have "point_mult_loop ecc_poly P e (Suc i) Q = point_mult_loop ecc_poly P e i A"
    using D(1) A(1) by simp
  then show ?case using Suc.IH [OF Suc.prems(1,2) _ A(2)] A(3) Suc.prems(3) by (simp add: n_def)
qed simp

lemma point_mult_law:
  "good_point P \<Longrightarrow> is_bitstr e \<Longrightarrow>
   \<exists>R. point_mult ecc_poly P e = Some R \<and> good_point R \<and> pt R = ec_times (bs_val e) (pt P)"
proof -
  assume P: "good_point P" and e: "is_bitstr e"
  have "nbits (bs_val e) \<le> 192" using bs_val_192 [OF e] by (simp only: nbits_le)
  moreover have "bs_val e < 2 ^ nbits (bs_val e)" using nbits_le by blast
  then have "drop_bit (nbits (bs_val e)) (bs_val e) = 0" by (simp add: drop_bit_eq_div)
  ultimately show ?thesis
    unfolding point_mult_def sizeinbits_val [OF e] using P e
    by (intro point_mult_loop_law) (simp_all add: ec_times.simps)
qed

section \<open>The exchange\<close>

lemma ecc_validation:
  assumes "is_bitstr x" "is_bitstr y"
  shows "ECIES_embedded_public_key_validation ecc_init (x, y) \<longleftrightarrow>
    felem x \<and> felem y \<and> on_curve (Affine (gf x) (gf y))"
proof (cases "felem x \<and> felem y")
  case True
  have "bitstr_sizeinbits x \<le> DEGREE" "bitstr_sizeinbits y \<le> DEGREE"
    using True assms by (simp_all only: felem_def sizeinbits_val DEGREE_def nbits_le)
  then have v: "ECIES_embedded_public_key_validation ecc_init (x, y) \<longleftrightarrow>
    \<not> point_is_zero (x, y) \<and> is_point_on_curve ecc_poly (cv_coeff_b ecc_init) (x, y)"
    by (auto simp: ECIES_embedded_public_key_validation_def not_less)
  define a where "a = field_add (field_add (field_add (field_mult ecc_poly x x) (field_mult ecc_poly (field_mult ecc_poly x x) x))
    (cv_coeff_b ecc_init)) (field_mult ecc_poly y y)"
  have fa: "felem a" "gf a = gf x * gf x + gf x * gf x * gf x + ec_b + gf y * gf y"
    using True ec_b_val by (simp_all add: a_def ec_b_def)
  have "is_point_on_curve ecc_poly (cv_coeff_b ecc_init) (x, y) \<longleftrightarrow> point_is_zero (x, y) \<or> gf a = gf x * gf y"
    using True fa(1) gf_inj [of a "field_mult ecc_poly x y"] by (simp add: is_point_on_curve_def Let_def a_def)
  moreover have "gf a = gf x * gf y \<longleftrightarrow> on_curve (Affine (gf x) (gf y))"
  proof -
    have "gf a = gf x * gf y \<longleftrightarrow> gf a + gf x * gf y = 0" by (simp add: gf_sum_zero)
    also have "gf a + gf x * gf y = gf y * gf y + gf x * gf y + (gf x * gf x * gf x + gf x * gf x + ec_b)"
      unfolding fa(2) by (simp add: add.assoc add.left_commute add.commute)
    finally show ?thesis by (simp only: gf_sum_zero on_curve.simps)
  qed
  moreover have "point_is_zero (x, y) \<Longrightarrow> \<not> on_curve (Affine (gf x) (gf y))"
    using True ec_b_val(2) zero_point [of "(x, y)"] by (auto simp: pelem_def)
  ultimately show ?thesis using v True by auto
next
  case False
  have "\<not> felem x \<Longrightarrow> \<not> bitstr_sizeinbits x \<le> DEGREE" "\<not> felem y \<Longrightarrow> \<not> bitstr_sizeinbits y \<le> DEGREE"
    using assms by (simp_all only: felem_def sizeinbits_val DEGREE_def nbits_le simp_thms)
  then show ?thesis using False by (auto simp: ECIES_embedded_public_key_validation_def not_le)
qed

lemma good_affine: "felem x \<Longrightarrow> felem y \<Longrightarrow> on_curve (Affine (gf x) (gf y)) \<Longrightarrow> good_point (x, y)"
  by (simp add: good_point_def pelem_def pt_Affine)

lemma ecc_key_point:
  assumes "good_point P" "is_bitstr e"
  obtains Z where "Option.bind (point_mult ecc_poly P e) (point_double ecc_poly) = Some Z" "good_point Z"
    "pt Z = ec_double (ec_times (bs_val e) (pt P))"
proof -
  obtain R where R: "point_mult ecc_poly P e = Some R" "good_point R" "pt R = ec_times (bs_val e) (pt P)"
    using point_mult_law [OF assms] by blast
  obtain Z where "point_double ecc_poly R = Some Z" "good_point Z" "pt Z = ec_double (pt R)"
    using point_double_law [OF R(2)] by blast
  then show ?thesis using R by (intro that [of Z]) simp_all
qed

text \<open>The base point, as lists of coefficients.\<close>

fun bl_mul :: "bool list \<Rightarrow> bool list \<Rightarrow> bool list" where
  "bl_mul [] ys = []"
| "bl_mul (b # bs) ys = (if b then bl_xor ys (False # bl_mul bs ys) else False # bl_mul bs ys)"

lemma bl_val_mul: "bl_val (bl_mul xs ys) = clmul (bl_val xs) (bl_val ys)"
proof (induction xs)
  case (Cons b bs)
  have "of_bool b + 2 * bl_val bs = xor (of_bool b) (2 * bl_val bs)" using of_bool_xor [of b 0 False "bl_val bs"] by simp
  then have "clmul (bl_val (b # bs)) (bl_val ys) = xor (clmul (of_bool b) (bl_val ys)) (2 * clmul (bl_val bs) (bl_val ys))"
    by (simp only: bl_val.simps clmul_xor clmul_double)
  then show ?case using Cons by (cases b) (simp_all add: bl_val_xor)
qed simp

definition base_x_list :: "bool list" where
  "base_x_list =
    [False, True, True, False, True, True, False, False, False, True, True, True, True, True, False, False, False, False, True, False, True, True, False,
    False, False, False, False, True, False, True, True, True, True, True, True, False, True, True, False, False, False, True, True, False, False, False,
    True, False, True, False, False, True, True, False, False, True, False, False, True, False, True, False, True, True, False, False, False, True, False,
    True, True, False, True, False, False, False, True, False, False, False, True, False, False, True, True, False, False, True, False, False, False,
    False, False, True, False, True, False, True, True, True, True, True, True, False, True, False, True, False, True, False, True, True, False, True,
    False, False, False, True, False, True, False, True, True, False, False, False, False, True, False, True, False, False, False, True, True, False,
    True, False, False, False, False, True, False, True, True, True, False, True, False, True, True, True, False, False, False, False, True, True, True,
    True, True, True, False]"

definition base_y_list :: "bool list" where
  "base_y_list =
    [True, False, False, False, True, True, True, True, False, False, True, False, False, True, False, False, True, True, False, False, True, True, True,
    False, True, False, False, True, True, True, True, False, False, False, True, True, False, False, False, False, False, False, True, True, True, False,
    True, False, False, False, True, True, True, False, False, False, True, False, False, False, True, True, False, True, True, False, True, False, False,
    False, True, False, True, False, True, False, True, False, True, True, True, False, True, True, False, False, True, True, False, True, False, False,
    False, True, False, True, True, True, True, True, False, False, True, False, True, False, False, True, False, False, False, False, False, False,
    False, False, False, True, False, True, True, False, False, False, True, True, True, False, False, False, True, True, False, True, True, False, False,
    False, True, True, True, True, False, True, True, True, True, True, True, False, False, False, True, False, True, False, True, False, True, True,
    False, False, False]"

definition coeff_b_list :: "bool list" where
  "coeff_b_list =
    [True, False, True, True, True, True, True, True, True, False, True, False, False, False, False, False, False, True, False, False, True, True, False,
    False, False, True, False, True, False, False, True, False, False, False, True, False, True, True, True, False, False, False, False, True, True, True,
    True, False, True, True, True, True, False, True, False, False, True, False, False, False, True, False, True, False, False, False, False, False, True,
    False, False, False, True, True, False, True, False, True, True, True, True, False, False, False, False, False, False, True, False, False, True,
    False, True, False, False, False, False, True, False, True, False, False, True, True, True, True, False, False, True, False, True, False, True, False,
    False, True, False, False, True, True, False, False, False, True, True, True, False, True, True, True, True, False, False, False, False, False, True,
    False, False, True, True, False, False, False, False, False, False, False, False, True, True, False, False, True, False, True, False, False, False,
    False, False, True, False]"

definition base_check :: "bool list" where
  "base_check =
     (let f = bl_fold steps163; x = base_x_list; y = base_y_list
      in f (f (f (bl_xor (bl_xor (bl_square y) coeff_b_list) (bl_mul x (bl_xor (bl_xor y x) (f (bl_square x))))))))"

lemma base_check_zero: "list_all Not base_check"
  by code_simp

lemma base_lists: "bl_val base_x_list = bs_val (bitstr_import BASE_X)" "bl_val base_y_list = bs_val (bitstr_import BASE_Y)"
  "bl_val coeff_b_list = bs_val (cv_coeff_b ecc_init)"
  by (simp_all add: base_x_list_def base_y_list_def coeff_b_list_def BASE_X_def BASE_Y_def COEFF_B_def ecc_init_def import_be_bytes)

lemma base_good: "good_point (cv_base ecc_init)"
proof -
  define x y where "x = bitstr_import BASE_X" and "y = bitstr_import BASE_Y"
  have f: "felem x" "felem y"
    by (simp_all add: felem_def x_def y_def BASE_X_def BASE_Y_def import_be_bytes)
  have l: "gf_of (bl_val base_x_list) = gf x" "gf_of (bl_val base_y_list) = gf y" "gf_of (bl_val coeff_b_list) = ec_b"
    by (simp_all only: base_lists gf_def x_def y_def ec_b_def)
  have "length steps163 = 163" by (simp add: steps163_def)
  then have fold: "gf_of (bl_val (bl_fold steps163 bs)) = gf_of (bl_val bs)" for bs
    by (simp add: gf_of_eq bl_val_fold)
  have "gf_of (bl_val base_check) = 0" using base_check_zero by (simp add: bl_val_zero zero_gf163_def)
  then have "gf y * gf y + ec_b + gf x * (gf y + gf x + gf x * gf x) = 0"
    unfolding base_check_def Let_def by (simp only: fold bl_val_xor bl_val_mul bl_val_square gf_of_xor gf_of_clmul l)
  then have "gf y * gf y + gf x * gf y + (gf x * gf x * gf x + gf x * gf x + ec_b) = 0"
    by (simp add: algebra_simps)
  then have "on_curve (Affine (gf x) (gf y))" by (simp only: gf_sum_zero on_curve.simps)
  then show ?thesis using good_affine [OF f] by (simp add: ecc_init_def x_def y_def)
qed

section \<open>Both sides\<close>

lemma clrbit_bitstr: "is_bitstr e \<Longrightarrow> is_bitstr (fold (\<lambda>r e. bitstr_clrbit e r) rs e)"
  by (induction rs arbitrary: e) (simp_all add: bitstr_clrbit_def is_bitstr_def)

lemma get_random_exponent_bitstr: "get_random_exponent order stack bufs = Some (e, bufs') \<Longrightarrow> is_bitstr stack \<Longrightarrow> is_bitstr e"
  by (induction order stack bufs rule: get_random_exponent.induct) (auto simp: Let_def clrbit_bitstr split: if_splits)

lemma pki_random_exponent_bitstr: "pki_random_exponent order bufs = Some (e, bufs') \<Longrightarrow> is_bitstr e"
  by (induction order bufs rule: pki_random_exponent.induct) (auto simp: Let_def clrbit_bitstr split: if_splits)

lemma import_exports: "is_bitstr x \<Longrightarrow> is_bitstr y \<Longrightarrow>
  bitstr_import (bitstr_export x @ bitstr_export y) = x \<and> bitstr_import (drop (4 * NUMWORDS) (bitstr_export x @ bitstr_export y)) = y"
  using import_export [of x "bitstr_export y"] import_export [of y "[]"] length_export [of x] by (simp add: NUMWORDS_6)

lemma pt_eq_x: "good_point (x, y) \<Longrightarrow> good_point (x', y') \<Longrightarrow> pt (x, y) = pt (x', y') \<Longrightarrow> pt (x, y) \<noteq> Infinity \<Longrightarrow> x = x'"
  by (auto simp: pt_def good_point_def pelem_def gf_inj split: if_splits)

text \<open>The client: the point of the challenge is a multiple of the base point, the key comes from the double of the same multiple of the public point.\<close>

lemma ecc_make_key_law:
  assumes pub: "good_point P" "P = (bitstr_import Pubx, bitstr_import Puby)" and made: "ecc_make_key ecc_init Pubx Puby stack bufs = Some (key, challenge)"
    and stack: "is_bitstr stack"
  shows "\<exists>e Zx Zy Rx Ry. is_bitstr e \<and> good_point (Zx, Zy) \<and> good_point (Rx, Ry) \<and>
    pt (Rx, Ry) = ec_times (bs_val e) (pt (cv_base ecc_init)) \<and> pt (Zx, Zy) = ec_double (ec_times (bs_val e) (pt P)) \<and>
    pt (Zx, Zy) \<noteq> Infinity \<and> key = ECIES_kdf Zx Rx Ry \<and> challenge = bitstr_export Rx @ bitstr_export Ry"
  using made stack
proof (induction "length bufs" arbitrary: stack bufs rule: less_induct)
  case less
  obtain e bufs' where e: "get_random_exponent (cv_base_order ecc_init) stack bufs = Some (e, bufs')"
    using less.prems(1) by (subst (asm) ecc_make_key.simps) (auto split: option.splits)
  have be: "is_bitstr e" by (rule get_random_exponent_bitstr [OF e less.prems(2)])
  obtain Z where Z: "Option.bind (point_mult ecc_poly P e) (point_double ecc_poly) = Some Z" "good_point Z"
    "pt Z = ec_double (ec_times (bs_val e) (pt P))" by (rule ecc_key_point [OF pub(1) be])
  show ?case
  proof (cases "point_is_zero Z")
    case True
    then have "ecc_make_key ecc_init Pubx Puby e bufs' = Some (key, challenge)"
      using less.prems(1) e Z(1) pub(2) by (subst (asm) ecc_make_key.simps) simp
    then show ?thesis using less.hyps [OF get_random_exponent_less [OF e] _ be] by blast
  next
    case False
    obtain R where R: "point_mult ecc_poly (cv_base ecc_init) e = Some R" "good_point R"
      "pt R = ec_times (bs_val e) (pt (cv_base ecc_init))" using point_mult_law [OF base_good be] by blast
    obtain Zx Zy Rx Ry where xy: "Z = (Zx, Zy)" "R = (Rx, Ry)" by fastforce
    have "key = ECIES_kdf Zx Rx Ry" "challenge = bitstr_export Rx @ bitstr_export Ry"
      using less.prems(1) e Z(1) pub(2) False R(1) xy by (subst (asm) ecc_make_key.simps, simp)+
    moreover have "pt Z \<noteq> Infinity" using False by (simp add: pt_def)
    ultimately show ?thesis using be Z R xy by blast
  qed
qed

text \<open>The server: it returns for every challenge.\<close>

lemma ecc_get_key_law:
  assumes R: "R = (bitstr_import challenge, bitstr_import (drop (4 * NUMWORDS) challenge))"
  shows "if \<not> ECIES_embedded_public_key_validation ecc_init R then ecc_get_key ecc_init challenge priv = Some None
    else good_point R \<and> (\<exists>Zx Zy. good_point (Zx, Zy) \<and> pt (Zx, Zy) = ec_double (ec_times (bs_val (bitstr_import priv)) (pt R)) \<and>
      ecc_get_key ecc_init challenge priv
        = Some (if pt (Zx, Zy) = Infinity then None else Some (ECIES_kdf Zx (fst R) (snd R))))"
proof (cases "ECIES_embedded_public_key_validation ecc_init R")
  case True
  then have g: "good_point R" using ecc_validation [of "fst R" "snd R"] good_affine by (auto simp: R)
  obtain Z where Z: "Option.bind (point_mult ecc_poly R (bitstr_import priv)) (point_double ecc_poly) = Some Z" "good_point Z"
    "pt Z = ec_double (ec_times (bs_val (bitstr_import priv)) (pt R))" by (rule ecc_key_point [OF g import_bitstr])
  obtain Zx Zy where xy: "Z = (Zx, Zy)" by fastforce
  have "ecc_get_key ecc_init challenge priv = Some (if point_is_zero Z then None else Some (ECIES_kdf Zx (fst R) (snd R)))"
    using Z(1) True xy by (auto simp: ecc_get_key_def Let_def R split: bind_splits)
  moreover have "point_is_zero Z \<longleftrightarrow> pt (Zx, Zy) = Infinity" by (simp add: pt_def xy)
  ultimately have k: "ecc_get_key ecc_init challenge priv = Some (if pt (Zx, Zy) = Infinity then None else Some (ECIES_kdf Zx (fst R) (snd R)))"
    by simp
  show ?thesis
    using True by (simp only: not_True_eq_False if_False) (intro conjI exI, rule g, rule Z(2) [unfolded xy], rule Z(3) [unfolded xy], rule k)
next
  case False
  then show ?thesis by (simp add: ecc_get_key_def Let_def R)
qed

lemma ecc_agreement:
  assumes pub: "good_point P" "P = (bitstr_import Pubx, bitstr_import Puby)"
    and key: "pt P = ec_times (bs_val (bitstr_import priv)) (pt (cv_base ecc_init))"
    and made: "ecc_make_key ecc_init Pubx Puby stack bufs = Some (k, challenge)" and stack: "is_bitstr stack"
  shows "ecc_get_key ecc_init challenge priv = Some (Some k)"
proof -
  define d where "d = bs_val (bitstr_import priv)"
  define G where "G = pt (cv_base ecc_init)"
  have G: "on_curve G" using base_good by (simp add: G_def good_point_def)
  obtain e Zx Zy Rx Ry where m: "is_bitstr e" "good_point (Zx, Zy)" "good_point (Rx, Ry)" "pt (Rx, Ry) = ec_times (bs_val e) G"
    "pt (Zx, Zy) = ec_double (ec_times (bs_val e) (pt P))" "pt (Zx, Zy) \<noteq> Infinity" "k = ECIES_kdf Zx Rx Ry"
    "challenge = bitstr_export Rx @ bitstr_export Ry"
    using ecc_make_key_law [OF pub made stack] unfolding G_def by blast
  have b: "is_bitstr Rx" "is_bitstr Ry" using m(3) by (simp_all add: good_point_def pelem_def)
  have R: "(Rx, Ry) = (bitstr_import challenge, bitstr_import (drop (4 * NUMWORDS) challenge))"
    using import_exports [OF b] m(8) by simp
  have Z: "pt (Zx, Zy) = ec_double (ec_times d (pt (Rx, Ry)))"
    using m(4,5) key ec_times_commute [OF G] by (simp add: d_def G_def)
  have "pt (Rx, Ry) \<noteq> Infinity"
  proof
    have I: "ec_times d Infinity = Infinity" for d
      by (induction d rule: less_induct) (subst ec_times.simps, simp add: Let_def)
    assume "pt (Rx, Ry) = Infinity"
    then show False using Z m(6) by (simp add: I)
  qed
  then have "ECIES_embedded_public_key_validation ecc_init (Rx, Ry)"
    using ecc_validation [OF b] m(3) by (auto simp: good_point_def pelem_def pt_def split: if_splits)
  then obtain Zx' Zy' where g: "good_point (Zx', Zy')" "pt (Zx', Zy') = ec_double (ec_times d (pt (Rx, Ry)))"
    "ecc_get_key ecc_init challenge priv = Some (if pt (Zx', Zy') = Infinity then None else Some (ECIES_kdf Zx' Rx Ry))"
    using ecc_get_key_law [OF R, of priv] by (auto simp: d_def)
  have "pt (Zx, Zy) = pt (Zx', Zy')" using Z g(2) by simp
  then have "Zx = Zx'" "pt (Zx', Zy') \<noteq> Infinity" using pt_eq_x [OF m(2) g(1)] m(6) by simp_all
  then show ?thesis using g(3) m(7) by simp
qed

section \<open>Properties\<close>

lemma length_map2_xor: "length (davies_meyer_loop n m out) = length out" if "length out = 8"
proof -
  have e: "length (XTEA_encipher_block k d) = 8" for k d by (simp add: XTEA_encipher_block_def INT2CHARS_def split: prod.splits)
  show ?thesis using that by (induction n m out rule: davies_meyer_loop.induct) (simp_all add: e)
qed

lemma length_kdf: "length (ECIES_kdf x y z) = 16"
  by (simp add: ECIES_kdf_def XTEA_davies_meyer_def Let_def length_map2_xor)

lemma key_pair_law:
  assumes "ECIES_generate_key_pair ecc_init bufs = Some (Pubx, Puby, Priv)"
  shows "good_point (bitstr_import Pubx, bitstr_import Puby) \<and>
    pt (bitstr_import Pubx, bitstr_import Puby) = ec_times (bs_val (bitstr_import Priv)) (pt (cv_base ecc_init))"
proof -
  obtain d bufs' x y where d: "pki_random_exponent (cv_base_order ecc_init) bufs = Some (d, bufs')"
    "point_mult ecc_poly (cv_base ecc_init) d = Some (x, y)" "Pubx = bitstr_export x" "Puby = bitstr_export y" "Priv = bitstr_export d"
    using assms by (auto simp: ECIES_generate_key_pair_def split: bind_splits)
  have bd: "is_bitstr d" by (rule pki_random_exponent_bitstr [OF d(1)])
  have P: "good_point (x, y)" "pt (x, y) = ec_times (bs_val d) (pt (cv_base ecc_init))"
    using point_mult_law [OF base_good bd] d(2) by auto
  then have "is_bitstr x" "is_bitstr y" by (simp_all add: good_point_def pelem_def)
  then show ?thesis using P bd import_export [of _ "[]"] by (simp add: d(3-5))
qed

lemma ecc_exchange:
  assumes pair: "ECIES_generate_key_pair ecc_init bufs = Some (Pubx, Puby, Priv)"
    and made: "ecc_make_key ecc_init Pubx Puby stack bufs2 = Some (key, challenge)" and stack: "length stack = NUMWORDS"
  shows "ecc_get_key ecc_init challenge Priv = Some (Some key)" "length key = 16" "length challenge = 48"
proof -
  have P: "good_point (bitstr_import Pubx, bitstr_import Puby)"
    "pt (bitstr_import Pubx, bitstr_import Puby) = ec_times (bs_val (bitstr_import Priv)) (pt (cv_base ecc_init))"
    using key_pair_law [OF pair] by blast+
  have st: "is_bitstr stack" using stack by (simp add: is_bitstr_def)
  show "ecc_get_key ecc_init challenge Priv = Some (Some key)" by (rule ecc_agreement [OF P(1) refl P(2) made st])
  obtain Zx Rx Ry where "key = ECIES_kdf Zx Rx Ry" "challenge = bitstr_export Rx @ bitstr_export Ry" "good_point (Rx, Ry)"
    using ecc_make_key_law [OF P(1) refl made st] by blast
  then show "length key = 16" "length challenge = 48" by (simp_all add: length_kdf length_export good_point_def pelem_def)
qed

text \<open>C6 (the exchange of a key). With a pair of keys that \<open>pki_gen_keys\<close> made, whatever random numbers it and the client draw, the key
  that the server finds in the challenge is the one that the client made: no challenge of a client is refused. (Both are the double of a
  multiple of the base point by two numbers, in either order; that these are the same rests on the points being a group.)\<close>

theorem ecc_key_exchange:
  assumes "ECIES_generate_key_pair ecc_init bufs1 = Some (Pubx, Puby, Priv)"
    and "ecc_make_key ecc_init Pubx Puby stack bufs2 = Some (key, challenge)" and "length stack = NUMWORDS"
  shows "ecc_get_key ecc_init challenge Priv = Some (Some key) \<and> length key = 16 \<and> length challenge = 48"
  using ecc_exchange [OF assms] by (intro conjI)

text \<open>C14 (the server's side). For every challenge and every private key the server's side returns. It refuses exactly the challenges that are not
  a point of the curve with coordinates below the degree, and those whose multiple is the point at infinity; otherwise the key is the hash of the abscissa of
  the double of the multiple and of the challenge.\<close>

theorem ecc_get_key_returns:
  "(case ecc_get_key ecc_init challenge priv of
      None \<Rightarrow> False
    | Some answer \<Rightarrow>
        (let x = bitstr_import challenge; y = bitstr_import (drop 24 challenge);
             Z = ec_double (ec_times (bs_val (bitstr_import priv)) (pt (x, y)))
         in case answer of
              None \<Rightarrow> \<not> (felem x \<and> felem y \<and> on_curve (Affine (gf x) (gf y))) \<or> Z = Infinity
            | Some key \<Rightarrow> felem x \<and> felem y \<and> on_curve (Affine (gf x) (gf y)) \<and>
                (\<exists>z w. felem z \<and> Z = Affine (gf z) w \<and> key = ECIES_kdf z x y)))"
proof -
  define x y where "x = bitstr_import challenge" and "y = bitstr_import (drop 24 challenge)"
  define Z where "Z = ec_double (ec_times (bs_val (bitstr_import priv)) (pt (x, y)))"
  have R: "(x, y) = (bitstr_import challenge, bitstr_import (drop (4 * NUMWORDS) challenge))"
    by (simp add: x_def y_def NUMWORDS_6)
  have v: "ECIES_embedded_public_key_validation ecc_init (x, y) \<longleftrightarrow> felem x \<and> felem y \<and> on_curve (Affine (gf x) (gf y))"
    by (rule ecc_validation) (simp_all add: x_def y_def)
  show ?thesis
  proof (cases "felem x \<and> felem y \<and> on_curve (Affine (gf x) (gf y))")
    case True
    then obtain Zx Zy where g: "good_point (Zx, Zy)" "pt (Zx, Zy) = Z"
      "ecc_get_key ecc_init challenge priv = Some (if Z = Infinity then None else Some (ECIES_kdf Zx x y))"
      using ecc_get_key_law [OF R, of priv] v unfolding Z_def by auto
    have f: "felem Zx" using g(1) by (simp add: good_point_def pelem_def)
    show ?thesis
    proof (cases "Z = Infinity")
      case True
      then show ?thesis using g(3) by (simp add: Let_def x_def [symmetric] y_def [symmetric] Z_def [symmetric])
    next
      case False
      then have "Z = Affine (gf Zx) (gf Zy)" using g(2) by (auto simp: pt_def split: if_splits)
      then show ?thesis using g(3) f False True by (auto simp: Let_def x_def [symmetric] y_def [symmetric] Z_def [symmetric])
    qed
  next
    case False
    then have "ecc_get_key ecc_init challenge priv = Some None" using ecc_get_key_law [OF R, of priv] v by simp
    then show ?thesis using False by (auto simp: Let_def x_def [symmetric] y_def [symmetric])
  qed
qed

text \<open>C18 (the points). The sum, the double and the multiple of points of the curve whose coordinates are elements of the field are such points again, and all
  three routines return for them.\<close>

theorem ecc_points_closed:
  assumes "good_point P" "good_point Q" "length e = NUMWORDS"
  shows "(\<exists>R. point_add (cv_poly ecc_init) P Q = Some R \<and> good_point R) \<and>
    (\<exists>R. point_double (cv_poly ecc_init) P = Some R \<and> good_point R) \<and>
    (\<exists>R. point_mult (cv_poly ecc_init) P e = Some R \<and> good_point R)"
  using point_add_law [OF assms(1,2)] point_double_law [OF assms(1)] point_mult_law [OF assms(1), of e] assms(3)
  by (auto simp: is_bitstr_def)

text \<open>C12 (the law of the curve). The routine for the sum computes the sum of the group of the curve, by a chord, a tangent or the point at infinity, and
  the one for a multiple the sum of so many copies.\<close>

theorem ecc_point_laws:
  assumes "good_point P" "good_point Q" "length e = NUMWORDS"
  shows "map_option pt (point_add (cv_poly ecc_init) P Q) = Some (ec_add (pt P) (pt Q)) \<and>
    map_option pt (point_mult (cv_poly ecc_init) P e) = Some (((\<lambda>S. ec_add S (pt P)) ^^ bs_val e) Infinity)"
proof -
  have on: "on_curve (pt P)" using assms(1) by (simp add: good_point_def)
  show ?thesis
    using point_add_law [OF assms(1,2)] point_mult_law [OF assms(1), of e] assms(3)
    by (auto simp: is_bitstr_def ec_times_sum [OF on])
qed

section \<open>The properties on concrete inputs\<close>

definition one_bytes :: "byte list" where
  "one_bytes = replicate 23 0 @ [1]"

lemma one_exponent: "get_random_exponent (cv_base_order ecc_init) bitstr_clear [Some one_bytes] = Some (field_set1, [])"
  "pki_random_exponent (cv_base_order ecc_init) [Some one_bytes] = Some (field_set1, [])"
  by code_simp+

lemma base_double: "ec_double (pt (cv_base ecc_init)) \<noteq> Infinity"
proof -
  have f: "felem (bitstr_import BASE_X)" by (simp add: felem_def BASE_X_def import_be_bytes)
  have "bs_val (bitstr_import BASE_X) \<noteq> 0" by (simp add: BASE_X_def import_be_bytes)
  then have "gf (bitstr_import BASE_X) \<noteq> 0" using f by (simp add: gf_is_clear [symmetric] is_clear_val)
  then show ?thesis using base_good
    by (simp add: pt_def zero_point good_point_def ecc_init_def Let_def)
qed

lemma one_key_pair: "\<exists>x y. ECIES_generate_key_pair ecc_init [Some one_bytes] = Some (x, y, bitstr_export field_set1) \<and>
  good_point (bitstr_import x, bitstr_import y) \<and> pt (bitstr_import x, bitstr_import y) = pt (cv_base ecc_init)"
proof -
  obtain R where R: "point_mult ecc_poly (cv_base ecc_init) field_set1 = Some R" "good_point R" "pt R = ec_times 1 (pt (cv_base ecc_init))"
    using point_mult_law [OF base_good set1_val(1)] by auto
  obtain x y where xy: "R = (x, y)" by fastforce
  have "is_bitstr x" "is_bitstr y" using R(2) by (simp_all add: xy good_point_def pelem_def)
  then have "bitstr_import (bitstr_export x) = x" "bitstr_import (bitstr_export y) = y" using import_export [of _ "[]"] by simp_all
  moreover have "ec_times 1 (pt (cv_base ecc_init)) = pt (cv_base ecc_init)"
    using base_good ec_times_Suc [of "pt (cv_base ecc_init)" 0] by (simp add: good_point_def)
  ultimately have "ECIES_generate_key_pair ecc_init [Some one_bytes] = Some (bitstr_export x, bitstr_export y, bitstr_export field_set1) \<and>
    good_point (bitstr_import (bitstr_export x), bitstr_import (bitstr_export y)) \<and>
    pt (bitstr_import (bitstr_export x), bitstr_import (bitstr_export y)) = pt (cv_base ecc_init)"
    using R by (simp add: xy ECIES_generate_key_pair_def one_exponent del: pki_random_exponent.simps)
  then show ?thesis by blast
qed

lemma one_exchange:
  "\<exists>Pubx Puby Priv key challenge. ECIES_generate_key_pair ecc_init [Some one_bytes] = Some (Pubx, Puby, Priv) \<and>
    ecc_make_key ecc_init Pubx Puby bitstr_clear [Some one_bytes] = Some (key, challenge)"
proof -
  obtain x y where k: "ECIES_generate_key_pair ecc_init [Some one_bytes] = Some (x, y, bitstr_export field_set1)"
    "good_point (bitstr_import x, bitstr_import y)" "pt (bitstr_import x, bitstr_import y) = pt (cv_base ecc_init)"
    using one_key_pair by blast
  obtain Z where Z: "Option.bind (point_mult ecc_poly (bitstr_import x, bitstr_import y) field_set1) (point_double ecc_poly) = Some Z"
    "pt Z = ec_double (ec_times (bs_val field_set1) (pt (cv_base ecc_init)))"
    using ecc_key_point [OF k(2) set1_val(1)] k(3) by metis
  have "ec_times 1 (pt (cv_base ecc_init)) = pt (cv_base ecc_init)"
    using base_good ec_times_Suc [of "pt (cv_base ecc_init)" 0] by (simp add: good_point_def)
  then have "pt Z \<noteq> Infinity" using Z(2) base_double by simp
  then have nz: "\<not> point_is_zero Z" by (auto simp: pt_def)
  obtain R where R: "point_mult ecc_poly (cv_base ecc_init) field_set1 = Some R" using point_mult_law [OF base_good set1_val(1)] by blast
  have "\<exists>key challenge. ecc_make_key ecc_init x y bitstr_clear [Some one_bytes] = Some (key, challenge)"
    using nz Z(1) R by (subst ecc_make_key.simps) (simp add: one_exponent del: get_random_exponent.simps split: prod.splits)
  then obtain key challenge where m: "ecc_make_key ecc_init x y bitstr_clear [Some one_bytes] = Some (key, challenge)" by blast
  show ?thesis using k(1) m by blast
qed

lemma ecc_key_exchange_witness:
  "\<exists>Pubx Puby Priv key challenge. ECIES_generate_key_pair ecc_init [Some one_bytes] = Some (Pubx, Puby, Priv) \<and>
    ecc_make_key ecc_init Pubx Puby bitstr_clear [Some one_bytes] = Some (key, challenge) \<and>
    ecc_get_key ecc_init challenge Priv = Some (Some key)"
proof -
  obtain Pubx Puby Priv key challenge where
    k: "ECIES_generate_key_pair ecc_init [Some one_bytes] = Some (Pubx, Puby, Priv)"
      "ecc_make_key ecc_init Pubx Puby bitstr_clear [Some one_bytes] = Some (key, challenge)" using one_exchange by blast
  from ecc_key_exchange [OF k] show ?thesis using k by (auto simp: bitstr_clear_def)
qed

lemma ecc_get_key_returns_witness: "ecc_get_key ecc_init (replicate 48 0) (replicate 24 7) = Some None"
proof -
  have z: "bitstr_import (replicate n 0) = bitstr_clear" for n
  proof -
    have "CHARS2INT (replicate k 0) = 0" for k
    proof -
      have "le_val (replicate j 0) = 0" for j by (induction j) simp_all
      then show ?thesis by (simp add: CHARS2INT_def be_val_def)
    qed
    then have "words_be m (replicate k 0) = replicate m 0" for m k by (induction m arbitrary: k) simp_all
    then show ?thesis by (simp add: bitstr_import_def bitstr_clear_def)
  qed
  have "\<not> on_curve (Affine (gf bitstr_clear) (gf bitstr_clear))" using ec_b_val(2) by simp
  then show ?thesis
    using ecc_get_key_returns [of "replicate 48 0" "replicate 24 7"] by (simp add: z split: option.splits)
qed

lemma ecc_points_closed_witness:
  "(\<exists>R. point_add (cv_poly ecc_init) (cv_base ecc_init) (cv_base ecc_init) = Some R \<and> good_point R) \<and>
    (\<exists>R. point_mult (cv_poly ecc_init) (cv_base ecc_init) (bitstr_import BASE_ORDER) = Some R \<and> good_point R)"
  using ecc_points_closed [OF base_good base_good, of "bitstr_import BASE_ORDER"] import_bitstr [of BASE_ORDER]
  by (auto simp: is_bitstr_def)

lemma ecc_point_laws_witness:
  "map_option pt (point_add (cv_poly ecc_init) (cv_base ecc_init) (cv_base ecc_init))
    = Some (ec_add (pt (cv_base ecc_init)) (pt (cv_base ecc_init)))"
  using ecc_point_laws [OF base_good base_good, of field_set1] set1_val(1) by (simp add: is_bitstr_def)

end
