(* ===== verification/Remote_Login.thy ===== *)
theory Remote_Login
  imports Remote Ecc_Points
begin

text \<open>
  The start of a connection to the remote disk with the key exchange of \<open>ecc.c\<close> in it: what \<open>remote_init\<close> of \<open>remote_client.c\<close> sends and
  what \<open>handle_connection\<close> of \<open>remote_server.c\<close> makes of it.
\<close>

section \<open>The client\<close>

text \<open>The first transfer moves the whole challenge, or it fails, which the client does not see.\<close>

lemma remote_login_sends:
  assumes key: "RC4_Con key = Some c" and ch: "length challenge = SIZEOF_CHALLENGE" and dev: "length device \<le> 1024"
    and out: "fd_out = \<lparr>so_wire = [], so_answers = a # as\<rparr>" "a < 0 \<or> int SIZEOF_CHALLENGE \<le> a" "answers_ok \<lparr>so_wire = [], so_answers = as\<rparr> (length device + 8 + m)"
  defines "hello \<equiv> le_bytes 4 (htonl REMOTE_VERSION) @ le_bytes 4 (htonl (int (length device))) @ device"
  shows "\<exists>fd q. remote_login junk key challenge device offset fd_in fd_out =
      Some (Inr \<lparr>rm_in = fd_in, rm_out = fd, rm_rc4 = fst (RC4_crypt c hello), rm_offset = offset, rm_queue = q\<rparr>) \<and>
    so_wire fd = (if a < 0 then [] else challenge) @ snd (RC4_crypt c hello) \<and> sio_at_end q \<and> sio_contents q = [] \<and> answers_ok fd m"
proof -
  let ?a = "le_bytes 4 (htonl REMOTE_VERSION)" and ?b = "le_bytes 4 (htonl (int (length device)))"
  obtain c1 o1 where 1: "RC4_crypt c ?a = (c1, o1)" by (cases "RC4_crypt c ?a")
  obtain c2 o2 where 2: "RC4_crypt c1 ?b = (c2, o2)" by (cases "RC4_crypt c1 ?b")
  obtain c3 o3 where 3: "RC4_crypt c2 device = (c3, o3)" by (cases "RC4_crypt c2 device")
  have l: "length o1 = 4" "length o2 = 4" "length o3 = length device"
    using length_RC4_crypt [of c ?a] length_RC4_crypt [of c1 ?b] length_RC4_crypt [of c2 device] 1 2 3 by simp_all
  have hello: "RC4_crypt c hello = (c3, o1 @ o2 @ o3)" using 1 2 3 by (simp add: hello_def RC4_crypt_append)
  define q0 where "q0 = StringIO_constructor junk"
  have q0: "sio_at_end q0" "sio_contents q0 = []" by (simp_all add: q0_def sio_at_end_def sio_contents_def)
  obtain q1 where q1: "queue_for_sending q0 ?a c = Some (q1, c1)" "sio_at_end q1" "sio_contents q1 = o1"
    using queue_step [OF q0(1), of ?a c] q0(2) 1 by auto
  obtain q2 where q2: "queue_for_sending q1 ?b c1 = Some (q2, c2)" "sio_at_end q2" "sio_contents q2 = o1 @ o2"
    using queue_step [OF q1(2), of ?b c1] q1(3) l 2 by auto
  obtain q3 where q3: "queue_for_sending q2 device c2 = Some (q3, c3)" "sio_at_end q3" "sio_contents q3 = o1 @ o2 @ o3"
    using queue_step [OF q2(2), of device c2] q2(3) l dev 3 by auto
  let ?fd1 = "\<lparr>so_wire = (if a < 0 then [] else challenge), so_answers = as\<rparr>" and ?n = "if a < 0 then - 1 else 48 :: int"
  have s: "sys_send fd_out challenge = Some (?fd1, ?n)"
    using out(1,2) ch by (auto simp: sys_send_def Let_def SIZEOF_CHALLENGE_def)
  have n: "\<not> u64 ?n < int SIZEOF_CHALLENGE" by (simp add: u64_def SIZEOF_CHALLENGE_def)
  have "answers_ok ?fd1 (length device + 8 + m)" using out(3) by (simp add: answers_ok_def)
  moreover have lq: "length (sio_contents q3) = length device + 8" using q3(3) l by simp
  ultimately obtain fd q k where w: "write_to_network ?fd1 q3 = Some (fd, q, k)" "so_wire fd = so_wire ?fd1 @ sio_contents q3" "sio_at_end q"
    "sio_contents q = []" "0 < k" "answers_ok fd m"
    using write_to_network_sends [OF q3(2), of ?fd1 "length device + 8 + m"] by auto
  have "remote_login junk key challenge device offset fd_in fd_out =
      Some (Inr \<lparr>rm_in = fd_in, rm_out = fd, rm_rc4 = c3, rm_offset = offset, rm_queue = q\<rparr>)"
    using key s n q1(1) q2(1) q3(1) w(1,5)
    by (simp add: remote_login_def Let_def q0_def remote_queue_def remote_write_def del: if_split_asm cong: if_weak_cong)
  then show ?thesis using w hello q3(3) by auto
qed

section \<open>The server\<close>

lemma C_string_full: "0 \<notin> set m \<Longrightarrow> C_string (m @ 0 # r) = m"
  unfolding C_string_def by (subst takeWhile_append2) auto

lemma server_login_accepts:
  assumes key: "RC4_Con key = Some c" "get_key challenge = Some key" and ch: "length challenge = SIZEOF_CHALLENGE"
    and dev: "device \<noteq> []" "length device \<le> 1024" "0 \<notin> set device" "files device = Some img"
    and inp: "so_answers fd_in = a # as" "int SIZEOF_CHALLENGE \<le> a" "answers_ok \<lparr>so_wire = [], so_answers = as\<rparr> (length device + 8 + m)"
    and wire: "so_wire fd_in = challenge @ snd (RC4_crypt c hello)"
    and hello: "hello = le_bytes 4 (htonl REMOTE_VERSION) @ le_bytes 4 (htonl (int (length device))) @ device"
  shows "\<exists>fd. server_login get_key files junk stack fd_in fd_out =
      Some (Inr \<lparr>sv_in = fd, sv_out = fd_out, sv_rc4 = fst (RC4_crypt c hello), sv_queue = StringIO_constructor junk,
        sv_target = \<lparr>tg_data = img, tg_pos = int (length img)\<rparr>\<rparr>) \<and> so_wire fd = [] \<and> answers_ok fd m"
proof -
  let ?a = "le_bytes 4 (htonl REMOTE_VERSION)" and ?b = "le_bytes 4 (htonl (int (length device)))"
  obtain c1 o1 where 1: "RC4_crypt c ?a = (c1, o1)" by (cases "RC4_crypt c ?a")
  obtain c2 o2 where 2: "RC4_crypt c1 ?b = (c2, o2)" by (cases "RC4_crypt c1 ?b")
  obtain c3 o3 where 3: "RC4_crypt c2 device = (c3, o3)" by (cases "RC4_crypt c2 device")
  have l: "length o1 = 4" "length o2 = 4" "length o3 = length device"
    using length_RC4_crypt [of c ?a] length_RC4_crypt [of c1 ?b] length_RC4_crypt [of c2 device] 1 2 3 by simp_all
  have hc: "RC4_crypt c hello = (c3, o1 @ o2 @ o3)" using 1 2 3 by (simp add: hello RC4_crypt_append)
  let ?fd1 = "\<lparr>so_wire = o1 @ o2 @ o3, so_answers = as\<rparr>"
  have r: "sys_recv fd_in SIZEOF_CHALLENGE = Some (?fd1, Some challenge)"
    using inp(1,2) ch wire hc by (simp add: sys_recv_def Let_def SIZEOF_CHALLENGE_def)
  define sv where "sv = \<lparr>sv_in = ?fd1, sv_out = fd_out, sv_rc4 = c, sv_queue = StringIO_constructor junk, sv_target = \<lparr>tg_data = [], tg_pos = 0\<rparr>\<rparr>"
  have a1: "answers_ok (sv_in sv) (length device + 8 + m)" "so_wire (sv_in sv) = o1 @ o2 @ o3" "sv_rc4 sv = c"
    using inp(3) by (simp_all add: sv_def answers_ok_def)
  obtain f1 where r1: "server_read sv 4 = Some (sv\<lparr>sv_in := f1, sv_rc4 := c1\<rparr>, ?a)" "so_wire f1 = o2 @ o3" "answers_ok f1 (4 + (length device + m))"
    using server_read_full [OF a1(1) _ a1(2)] l(1) RC4_crypt_crypt [OF 1] a1(3) by auto
  let ?s1 = "sv\<lparr>sv_in := f1, sv_rc4 := c1\<rparr>"
  obtain f2 where r2: "server_read ?s1 4 = Some (sv\<lparr>sv_in := f2, sv_rc4 := c2\<rparr>, ?b)" "so_wire f2 = o3" "answers_ok f2 (length device + m)"
    using server_read_full [of ?s1 "4 + (length device + m)" o2 o3] r1(2,3) l(2) RC4_crypt_crypt [OF 2] by auto
  let ?s2 = "sv\<lparr>sv_in := f2, sv_rc4 := c2\<rparr>"
  obtain f3 where r3: "server_read ?s2 (length device) = Some (sv\<lparr>sv_in := f3, sv_rc4 := c3\<rparr>, device)" "so_wire f3 = []" "answers_ok f3 m"
    using server_read_full [of ?s2 "length device + m" o3 "[]"] r2(2,3) l(3) RC4_crypt_crypt [OF 3] by auto
  have ne: "?a \<noteq> []" "?b \<noteq> []" by (simp_all flip: length_greater_0_conv)
  have v: "s32 (htonl (into_variable stack 4 ?a)) = REMOTE_VERSION" "s32 (htonl (into_variable stack 4 ?b)) = int (length device)"
    using dev(2) by (simp_all add: into_variable_full htonl_wire REMOTE_VERSION_def s32_id)
  have "read_name ?s2 (int (length device)) = Some (sv\<lparr>sv_in := f3, sv_rc4 := c3\<rparr>, Some (device @ [0]))"
    using r3(1) dev(1,2) by (simp add: read_name_def u32_id nat_add_distrib)
  moreover have "files (C_string (device @ [0])) = Some img" using dev(3,4) by (simp add: C_string_full)
  ultimately have "server_login get_key files junk stack fd_in fd_out
      = Some (Inr (sv\<lparr>sv_in := f3, sv_rc4 := c3, sv_target := \<lparr>tg_data = img, tg_pos = int (length img)\<rparr>\<rparr>))"
    using r key ch r1(1) r2(1) ne v dev(2) by (simp add: server_login_def Let_def sv_def)
  then show ?thesis using r3(2,3) hc by (simp add: sv_def)
qed

section \<open>Any exchange of keys\<close>

text \<open>What the login needs of an exchange: \<open>made\<close> says which keys and challenges a client can have made.\<close>

locale key_exchange =
  fixes get_key :: "byte list \<Rightarrow> byte list option" and made :: "byte list \<Rightarrow> byte list \<Rightarrow> bool"
  assumes made_get: "made key challenge \<Longrightarrow> get_key challenge = Some key"
    and made_lengths: "made key challenge \<Longrightarrow> length key = 16 \<and> length challenge = SIZEOF_CHALLENGE"
begin

lemma login_in_step:
  assumes made: "made key challenge"
    and dev: "device \<noteq> []" "length device \<le> 1024" "0 \<notin> set device" "files device = Some img"
    and client: "client_out = \<lparr>so_wire = [], so_answers = a # as\<rparr>" "48 \<le> a"
      "answers_ok \<lparr>so_wire = [], so_answers = as\<rparr> (length device + 8 + m)" "so_wire client_in = []" "answers_ok client_in n"
    and server: "so_answers server_in = b # bs" "48 \<le> b"
      "answers_ok \<lparr>so_wire = [], so_answers = bs\<rparr> (length device + 8 + m)" "so_wire server_out = []" "answers_ok server_out n"
  shows "\<exists>self sv. remote_login junk key challenge device offset client_in client_out = Some (Inr self) \<and>
    server_login get_key files junk' stack
      (server_in\<lparr>so_wire := so_wire (rm_out self)\<rparr>) server_out = Some (Inr sv) \<and>
    in_step (client_delivered self) sv m n \<and>
    tg_data (sv_target sv) = img \<and> rm_offset self = offset"
proof -
  have "key \<noteq> []" using made_lengths [OF made] by auto
  then obtain c where c: "RC4_Con key = Some c" by (simp add: RC4_Con_def)
  have ch: "length challenge = SIZEOF_CHALLENGE" using made_lengths [OF made] by blast
  have S: "int SIZEOF_CHALLENGE \<le> a" "int SIZEOF_CHALLENGE \<le> b" using client(2) server(2) by (simp_all add: SIZEOF_CHALLENGE_def)
  define hello where "hello = le_bytes 4 (htonl REMOTE_VERSION) @ le_bytes 4 (htonl (int (length device))) @ device"
  obtain fd q where cl: "remote_login junk key challenge device offset client_in client_out =
      Some (Inr \<lparr>rm_in = client_in, rm_out = fd, rm_rc4 = fst (RC4_crypt c hello), rm_offset = offset, rm_queue = q\<rparr>)"
    "so_wire fd = challenge @ snd (RC4_crypt c hello)" "sio_at_end q" "sio_contents q = []" "answers_ok fd m"
    using remote_login_sends [OF c ch dev(2) client(1) disjI2 [OF S(1)] client(3), folded hello_def, of junk offset client_in] client(2) by auto
  let ?in = "server_in\<lparr>so_wire := so_wire fd\<rparr>"
  have inp: "so_answers ?in = b # bs" "so_wire ?in = challenge @ snd (RC4_crypt c hello)" using server(1) cl(2) by simp_all
  obtain fd' where sv: "server_login get_key files junk' stack ?in server_out =
      Some (Inr \<lparr>sv_in = fd', sv_out = server_out, sv_rc4 = fst (RC4_crypt c hello), sv_queue = StringIO_constructor junk',
        sv_target = \<lparr>tg_data = img, tg_pos = int (length img)\<rparr>\<rparr>)" "so_wire fd' = []" "answers_ok fd' m"
    using server_login_accepts [where get_key = get_key and files = files and fd_in = ?in, OF c made_get [OF made] ch dev inp(1) S(2) server(3) inp(2) hello_def]
    by blast
  let ?self = "\<lparr>rm_in = client_in, rm_out = fd, rm_rc4 = fst (RC4_crypt c hello), rm_offset = offset, rm_queue = q\<rparr>"
    and ?sv = "\<lparr>sv_in = fd', sv_out = server_out, sv_rc4 = fst (RC4_crypt c hello), sv_queue = StringIO_constructor junk',
        sv_target = \<lparr>tg_data = img, tg_pos = int (length img)\<rparr>\<rparr>"
  show ?thesis
  proof (intro exI conjI)
    show "remote_login junk key challenge device offset client_in client_out = Some (Inr ?self)" by (rule cl(1))
    show "server_login get_key files junk' stack
      (server_in\<lparr>so_wire := so_wire (rm_out ?self)\<rparr>) server_out = Some (Inr ?sv)" using sv(1) by simp
    show "in_step (client_delivered ?self) ?sv m n"
      using cl(3-5) sv(2,3) client(4,5) server(4,5) by (simp add: in_step_def client_delivered_def answers_ok_def sio_at_end_def sio_contents_def)
  qed simp_all
qed

end

text \<open>The exchange of \<open>ecc.c\<close>, for the private key of any pair.\<close>

definition ecc_made :: "byte list \<Rightarrow> byte list \<Rightarrow> byte list \<Rightarrow> bool" where
  "ecc_made Priv key challenge \<longleftrightarrow>
     (\<exists>bufs Pubx Puby key_stack bufs2. ECIES_generate_key_pair ecc_init bufs = Some (Pubx, Puby, Priv) \<and>
        ecc_make_key ecc_init Pubx Puby key_stack bufs2 = Some (key, challenge) \<and> length key_stack = NUMWORDS)"

interpretation ecc_keys: key_exchange "\<lambda>challenge. the (ecc_get_key ecc_init challenge Priv)" "ecc_made Priv" for Priv
  by unfold_locales (auto simp: ecc_made_def SIZEOF_CHALLENGE_def dest: ecc_exchange)

section \<open>Property\<close>

text \<open>C13 (the login). A client and a server whose keys come from one run of \<open>pki_gen_keys\<close>: when the first transfer of either side moves the whole
  challenge and no later one fails, the server finds the key of the client, opens the file whose name the client sent, and the two ends are in step,
  so that what is read from then on is read from this file.\<close>

theorem remote_login_in_step:
  assumes pair: "ECIES_generate_key_pair ecc_init bufs = Some (Pubx, Puby, Priv)"
    and made: "ecc_make_key ecc_init Pubx Puby key_stack bufs2 = Some (key, challenge)" "length key_stack = NUMWORDS"
    and dev: "device \<noteq> []" "length device \<le> 1024" "0 \<notin> set device" "files device = Some img"
    and client: "client_out = \<lparr>so_wire = [], so_answers = a # as\<rparr>" "48 \<le> a"
      "answers_ok \<lparr>so_wire = [], so_answers = as\<rparr> (length device + 8 + m)" "so_wire client_in = []" "answers_ok client_in n"
    and server: "so_answers server_in = b # bs" "48 \<le> b"
      "answers_ok \<lparr>so_wire = [], so_answers = bs\<rparr> (length device + 8 + m)" "so_wire server_out = []" "answers_ok server_out n"
  shows "\<exists>self sv. remote_login junk key challenge device offset client_in client_out = Some (Inr self) \<and>
    server_login (\<lambda>challenge. the (ecc_get_key ecc_init challenge Priv)) files junk' stack
      (server_in\<lparr>so_wire := so_wire (rm_out self)\<rparr>) server_out = Some (Inr sv) \<and>
    in_step (client_delivered self) sv m n \<and>
    tg_data (sv_target sv) = img \<and> rm_offset self = offset"
proof -
  have m: "ecc_made Priv key challenge" unfolding ecc_made_def using pair made by blast
  show ?thesis by (rule ecc_keys.login_in_step [where files = files, OF m dev client server])
qed

text \<open>When sending the challenge fails, the client takes the login to have succeeded: it goes on with the version and the name, which the
  server takes for the challenge.\<close>

theorem remote_login_lost_challenge:
  assumes "RC4_Con key = Some c" and "length challenge = SIZEOF_CHALLENGE" and "length device \<le> 1024"
    and "a < 0" and "answers_ok \<lparr>so_wire = [], so_answers = as\<rparr> (length device + 8)"
  shows "\<exists>self. remote_login junk key challenge device offset fd_in \<lparr>so_wire = [], so_answers = a # as\<rparr> = Some (Inr self) \<and>
    so_wire (rm_out self) = snd (RC4_crypt c (le_bytes 4 (htonl REMOTE_VERSION) @ le_bytes 4 (htonl (int (length device))) @ device))"
  using remote_login_sends [OF assms(1-3) refl disjI1 [OF assms(4)], of as 0] assms(4,5) by fastforce

section \<open>The property on a concrete input\<close>

lemma remote_login_in_step_witness:
  "\<exists>Pubx Puby Priv key challenge self sv. ECIES_generate_key_pair ecc_init [Some one_bytes] = Some (Pubx, Puby, Priv) \<and>
    ecc_make_key ecc_init Pubx Puby bitstr_clear [Some one_bytes] = Some (key, challenge) \<and>
    remote_login (\<lambda>_. 0) key challenge [47, 97] 0 \<lparr>so_wire = [], so_answers = [1, 1, 1, 1]\<rparr>
      \<lparr>so_wire = [], so_answers = 48 # replicate 22 1\<rparr> = Some (Inr self) \<and>
    server_login (\<lambda>challenge. the (ecc_get_key ecc_init challenge Priv)) [[47, 97] \<mapsto> [1, 2, 3]] (\<lambda>_. 0) (\<lambda>_. 0)
      \<lparr>so_wire = so_wire (rm_out self), so_answers = 50 # replicate 22 2\<rparr> \<lparr>so_wire = [], so_answers = [1, 1, 1, 1]\<rparr> = Some (Inr sv) \<and>
    in_step (client_delivered self) sv 12 4 \<and> tg_data (sv_target sv) = [1, 2, 3]"
proof -
  obtain Pubx Puby Priv key challenge where
    k: "ECIES_generate_key_pair ecc_init [Some one_bytes] = Some (Pubx, Puby, Priv)"
      "ecc_make_key ecc_init Pubx Puby bitstr_clear [Some one_bytes] = Some (key, challenge)"
    using one_exchange by blast
  have "length bitstr_clear = NUMWORDS" by (simp add: bitstr_clear_def)
  note t = remote_login_in_step [OF k this, where device = "[47, 97]" and files = "[[47, 97] \<mapsto> [1, 2, 3]]" and img = "[1, 2, 3]"
      and client_out = "\<lparr>so_wire = [], so_answers = 48 # replicate 22 1\<rparr>" and a = 48 and as = "replicate 22 1"
      and client_in = "\<lparr>so_wire = [], so_answers = [1, 1, 1, 1]\<rparr>" and m = 12 and n = 4
      and server_in = "\<lparr>so_wire = [], so_answers = 50 # replicate 22 2\<rparr>" and b = 50 and bs = "replicate 22 2"
      and server_out = "\<lparr>so_wire = [], so_answers = [1, 1, 1, 1]\<rparr>" and junk = "\<lambda>_. 0" and junk' = "\<lambda>_. 0" and stack = "\<lambda>_. 0" and offset = 0]
  then show ?thesis using k by (simp add: answers_ok_def) blast
qed

end
