(* ===== verification/Spec2Isabelle.thy ===== *)
theory Spec2Isabelle
  imports Prelude Byte_Stream String_IO Struct Packet Network Pcap KList TCP_Stream TCP_Hash
    Cached_Writer PyPCAP Reassembler Trie Trie_Index RC4_Channel Remote
    Sgzip Sgzip_Correct IO_Source IO_Source_Correct Xpress MD5
    Evf Evf_Writer Evf_Correct Evf_Image Evf_File Evf_Restore Evf_Writer_Correct
    GF2_Poly GF163 Ecc Ecc_Field Ecc_Curve Ecc_Points Remote_Login
begin

text \<open>
  PyFlag is a toolkit for forensic analysis. The application is written in Python; the parts that touch
  every byte of the evidence are C extensions. This development models four groups of them: the sources of
  evidence, which read images that are split, compressed or in the expert witness format, with the decompression of hibernation files
  and the digest; the path
  of a network capture from the bytes of the file to the reassembled streams; the search index over the
  contents of files; and the connection to a remote disk, with its key exchange and its cipher.

  \<^bold>\<open>How the parts interact.\<close> A capture is read into a \<open>StringIO\<close>. \<open>pcap.c\<close> reads the header of the
  file and of each record through \<open>packet.c\<close>, whose \<open>Read\<close> unpacks a struct by a format string
  with \<open>struct.c\<close>. The data of a record goes through a second \<open>StringIO\<close> to the dissectors of
  \<open>network.c\<close>, each of which reads its header and makes the packet of the next layer out of the rest.
  The finished packet goes to \<open>tcp.c\<close>: the table finds or makes the pair of streams of its two
  directions, the stream puts it into its queue (lists of \<open>list.h\<close>), and hands what comes next to a
  callback, the one of \<open>reassembler.c\<close>, which calls Python. \<open>CachedWriter\<close> is the way of C code to write a
  file. Independently of these, \<open>index.c\<close> searches
  buffers with the trie of \<open>trie.c\<close>, and \<open>remote.c\<close> sends and receives through the cipher of
  \<open>rc4.c\<close> with a \<open>StringIO\<close> as its queue, after \<open>ecc.c\<close>
  made a key on one side and found it on the other. \<open>evtool.c\<close> reads the sections of expert witness files through \<open>libevf.c\<close> into an index of all
  chunks, restores or reads chunks at random with zlib, and compares the digest of \<open>md5c.c\<close>. \<open>pyxpress.c\<close> is called from
  Python with a string. The Python class of \<open>iosubsys.c\<close> opens one of the drivers of
  \<open>libiosubsys.c\<close> by name and options; the driver for compressed images reads what \<open>sgzlib.c\<close> wrote, through
  the index at the end of the file and a cache of one block.

  \<^bold>\<open>Conventions.\<close> (\<open>Prelude\<close>.) A C integer is an \<open>int\<close> with the wrap of its type written out
  (\<open>u8\<close> to \<open>u64\<close>, \<open>s32\<close>, \<open>s64\<close>); where no overflow can matter a count is a \<open>nat\<close>. A byte is
  a word of 8 bits. A block of memory is the list of its bytes and the value \<open>None\<close> of a definition
  says that the code leaves a block, follows NULL, divides by zero or does not return; theorems that
  promise \<open>Some\<close> therefore say that the code is safe. A refusal that the code reports is a value:
  a \<open>-1\<close>, a \<open>bool\<close>, an error constructor. Definitions have the names of the C functions and attributes.
  \<open>CONSTRUCT\<close> and \<open>CALL\<close>, the macros of the object system in \<open>class.h\<close>, are calls of the
  definition that the \<open>VIRTUAL\<close> block of the class names. The machine is a little endian one with 32 bit
  \<open>int\<close> and 64 bit \<open>size_t\<close>.

  \<^bold>\<open>The theories.\<close>

  \<^item> \<open>Byte_Stream\<close>: an abstract file and three interfaces as locales. \<open>byte_sink\<close> is what only grows,
    \<open>byte_source\<close> is what is taken from the front, \<open>seekable_source\<close> extends it by a position that can be set.
    \<open>StringIO\<close>, the cached writer and the stream over an open file are interpretations.
  \<^item> \<open>String_IO\<close> (\<open>src/src/lib/stringio.c\<close>, the class \<open>StringIO\<close>): the record \<open>stringio\<close> and
    one definition for each method. \<open>sio_inv\<close> is kept by every method, \<open>sio_abs\<close> is the file a buffer
    stands for; the lemmas \<open>StringIO_..._spec\<close> say which operation of the file each method is, the
    properties compose them into runs, copies between streams and searches, and find the limit.
  \<^item> \<open>Struct\<close> (\<open>src/src/lib/struct.c\<close>): the packer and unpacker of each format character, the tables
    that \<open>Struct_Register\<close> fills, and the loops of \<open>pack\<close>, \<open>unpack\<close> and \<open>calcsize\<close> over a
    format. The lemmas show each codec's contract; the properties are the round trip of any format that
    is built from them, the behaviour on short input, and the check of the registration.
  \<^item> \<open>Packet\<close> (\<open>packet.c\<close>, \<open>packet.h\<close>): classes, objects and properties, \<open>Read\<close>, \<open>Write\<close>, the three
    searches by name, and the text of a property.
  \<^item> \<open>Network\<close> (\<open>src/src/network/network.c\<close>, \<open>network.h\<close>): the formats and \<open>Read\<close> of all layers.
    The lemmas compute each \<open>Read\<close>; the properties say what a well-formed frame is dissected into,
    that \<open>TCP_Read\<close> is safe on all input and that \<open>UDP_Read\<close> is not.
  \<^item> \<open>Pcap\<close> (\<open>src/src/network/pcap.c\<close>, \<open>pcap.h\<close>): the headers of the capture in both byte orders.
  \<^item> \<open>PyPCAP\<close> (\<open>src/src/network/pypcap.c\<close>): the iterator over a capture file. Its lemmas are about any file object
    with the contract \<open>seekable_source\<close>; the properties say that it gives the records of a file with their
    offsets, and when it does not.
  \<^item> \<open>KList\<close> (\<open>src/src/include/list.h\<close>): the doubly linked lists, with a heap of \<open>next\<close> and \<open>prev\<close>
    pointers. \<open>dll\<close> relates a heap to a list; every operation and every iteration macro is shown to be
    the operation of HOL lists, which the next two theories use.
  \<^item> \<open>TCP_Stream\<close> (\<open>src/src/network/tcp.c\<close>, one pair of streams): the queue, the delivery, the padding
    of gaps, the flush. Its lemmas carry the bytes that were handed over from call to call; the main property is
    that segments in any order, with repetitions and overlaps, come out as the stream they are from.
  \<^item> \<open>TCP_Hash\<close> (the rest of \<open>tcp.c\<close>): the table with its invariant \<open>table_inv\<close>, the counters, the
    expiry, and the processing of one packet.
  \<^item> \<open>Reassembler\<close> (\<open>src/src/network/reassembler.c\<close>): the Python object around the table. The states of a program
    with one such object are the inductive predicate \<open>session\<close>; \<open>re_inv\<close> is its invariant.
  \<^item> \<open>Cached_Writer\<close> (the rest of \<open>stringio.c\<close>): \<open>CachedWriter\<close> and \<open>DiskStringIO\<close> on a file
    system of one file with the answers of the system as data.
  \<^item> \<open>Trie\<close>, \<open>Trie_Index\<close> (\<open>src/src/indextools_ng/trie.c\<close>, \<open>trie.h\<close>, \<open>index.c\<close>): nodes, the reading of
    words and expressions, the matching; the index and the iterator over a buffer. The lemmas relate a trie
    of literals to the set of words it holds; the properties are the full search result, the uniqueness of
    hits and two behaviours of expressions.
  \<^item> \<open>RC4_Channel\<close> (\<open>src/src/remote/rc4.c\<close>, \<open>remote.c\<close>): cipher, queue, sending and receiving, with the
    sizes of the system's transfers as data.
  \<^item> \<open>Remote\<close> (\<open>remote_server.c\<close>, \<open>remote_client.c\<close>): the two ends of the remote disk, \<open>in_step\<close> between two
    requests. The loop of the server is a partial function and its turns are total; the property is about one turn, after which
    the two ends are in step again.

  \<^item> \<open>Sgzip\<close>, \<open>Sgzip_Correct\<close> (\<open>src/src/lib/sgzlib.c\<close>, \<open>sgzip.c\<close>): the seekable gzip format, and what is proved of it.
    The buffered writer is an interpretation of \<open>byte_sink\<close>, the reading of streams one of \<open>byte_source\<close>.
    \<open>sgz_body\<close> is the file that is written, \<open>image_open\<close> and \<open>cache_ok\<close> the invariant of an open image.
  \<^item> \<open>IO_Source\<close>, \<open>IO_Source_Correct\<close> (\<open>src/src/lib/libiosubsys/libiosubsys.c\<close>, \<open>iosubsys.c\<close>): options, drivers, the
    dispatcher and the Python class. The locale \<open>image_source\<close> says what a source promises; its interpretation
    is the dispatcher over all drivers, with \<open>represents\<close> for the image a driver stands for. The properties compose
    the writing of an image, its opening by options and any reads.

  \<^item> \<open>Evf\<close>, \<open>Evf_Writer\<close> (\<open>src/src/lib/libevf.c\<close>, \<open>libevf.h\<close>, and the opening and restoring of \<open>evtool.c\<close>): the sections of the expert witness
    format, the table of chunks, the reading of chunks, and the writer. A file is the list of its bytes with a position.
  \<^item> \<open>Evf_Correct\<close>, \<open>Evf_Image\<close>, \<open>Evf_File\<close>, \<open>Evf_Restore\<close>, \<open>Evf_Writer_Correct\<close>: what is proved of it. The first has the checksum, which is
    Adler-32, and tables; the second the restoring and reading of an image whose index is right, which interprets \<open>image_source\<close>; the third says with
    \<open>gets_to\<close> what each kind of section does to the index; the fourth composes them over any number of files; the last is about the writer and what it loses.
  \<^item> \<open>Xpress\<close> (\<open>src/src/lib/pyxpress.c\<close>): the decompressor. The reference reads the items of a stream first and expands
    them then, as the decoder in Python that \<open>pyxpress.c\<close> replaces. The decoder stays in its buffers for every string, and gives the same
    when the items are \<open>within\<close>: no reference as far back as the first byte, and no byte or length cut off at the end. Where it differs is stated too.
  \<^item> \<open>MD5\<close> (\<open>src/src/lib/md5c.c\<close>, \<open>md5.h\<close>): the digest over words of any length, as the code's are of \<open>unsigned long\<close>. With 32 bits the digest in
    parts is that of the padded whole; with 64 bits it is another.
  \<^item> \<open>Ecc\<close> (\<open>src/src/remote/ecc.c\<close>, \<open>ecc.h\<close>, \<open>pki_gen_keys.c\<close>): the key exchange as the code has it, on arrays of six words.
  \<^item> \<open>GF2_Poly\<close>, \<open>GF163\<close>: the mathematics it rests on. Polynomials over two elements are natural numbers; those below the degree 163, modulo
    the polynomial of the curve, are a type of the class \<open>field\<close>: that it is a field is computed and counted.
  \<^item> \<open>Ecc_Field\<close>: the number a bit string stands for, and the routines on numbers: the product is the reduced product of polynomials, the inversion returns for all but zero.
  \<^item> \<open>Ecc_Curve\<close>: the curve, its addition, and the proof that it is a group, which interprets the locale \<open>additive\<close> of multiples. \<open>Ecc_Points\<close>: the routines on points compute
    this addition; what the two sides of the exchange answer, and that they agree.
  \<^item> \<open>Remote_Login\<close>: the login over any exchange of keys (the locale \<open>key_exchange\<close>, which that of \<open>ecc.c\<close> interprets), up to the state \<open>in_step\<close> of \<open>Remote\<close>.

  \<^bold>\<open>Termination and fuel.\<close> No definition has fuel. The loops of the code are recursions with a
  measure: bytes that are left (\<open>read_stream\<close>, \<open>unpack\<close>, the sending), the length of a queue, the size
  of the trie, the blocks of an image that follow, the entries of a table, the blocks of random bytes, the answers the system still gives (the receiving: a call without an answer blocks, which is
  the value \<open>None\<close>). The loop over the blocks of a stream that is compressed, the loop over the sections of a file, the writing in parts, the inversion in the field, the walks over the pointers of a
  list and the search for a terminator can run for ever in the
  code and are partial functions, where not returning is \<open>None\<close> too; on well-formed lists, formats and streams the
  lemmas show that they return, and the inversion does for all elements but zero.

  \<^bold>\<open>Parameters.\<close> The contents of fresh memory of a grown block (\<open>sio_junk\<close>), the answers of
  the system calls, the Python file object of a capture, the random bytes of the key exchange, the files of the remote server, zlib with the promises \<open>zlib_ok\<close> and \<open>compress_ok\<close> of its documentation, libewf with \<open>ewf_image\<close>,
  what a descriptor moves in each call, and what blocks (\<open>heap\<close>) and local variables hold before they are filled (\<open>stack\<close>). The limit of the allocator, \<open>MAX_TALLOC_SIZE\<close>, is
  the one of \<open>src/src/lib/talloc.c\<close>.

  \<^bold>\<open>Not modelled.\<close> The vendored projects (Sleuth Kit, diStorm, libpst, reglookup, talloc, SHA-1), since their correctness is the matter of other projects; the bindings to Python and to
  libraries that are not in the repository (\<open>_dissect.c\<close>, \<open>pypacket.c\<close>,
  \<open>pytdb.c\<close>, \<open>pyaff.c\<close>, \<open>pyewf.c\<close>, \<open>magic.c\<close>, \<open>geoip.c\<close>), which convert objects and count
  references; the hooks of the C library (\<open>hooker.c\<close>, which is not built),
  the main programs, the mode of \<open>evtool.c\<close> that reads from the standard input (it passes the addresses of \<open>int\<close> variables for those of \<open>long\<close> ones), its listing,
  the parsing of the numbers of \<open>pki_gen_keys.c\<close> and the branch of \<open>ecc.c\<close> for Windows, and the Python application. Of the modelled files the following is left out: debugging
  output, the setting of talloc names, the destruction of objects where it only frees memory, and the
  loop of \<open>Packet_print\<close> that splits its argument.
\<close>

end
